(* ===== verification/Prelude.thy ===== *)
theory Prelude
  imports Main "HOL-Library.Word"
begin

text \<open>
  Shared vocabulary of the development: the machine integer types of the
  Cortex-M4 build (\<open>rtdef.h\<close>), the error codes of the kernel, the
  bounded-FIFO interface that the ring buffer, the mailbox and the message
  queue implement, and the generic lemmas on lists and words that the component
  theories share.
\<close>

unbundle bit_operations_syntax

section \<open>Machine integers and error codes\<close>

type_synonym u8 = "8 word"
type_synonym u16 = "16 word"
type_synonym u32 = "32 word"
type_synonym byte = "8 word"

text \<open>
  \<open>rt_err_t\<close> is a signed integer; the code returns the negated error number.
  These are the constants of the branch of \<open>rtdef.h\<close> without a libc errno.
\<close>

definition RT_EOK :: int where "RT_EOK = 0"
definition RT_ERROR :: int where "RT_ERROR = 1"
definition RT_ETIMEOUT :: int where "RT_ETIMEOUT = 2"
definition RT_EFULL :: int where "RT_EFULL = 3"
definition RT_EEMPTY :: int where "RT_EEMPTY = 4"
definition RT_EBUSY :: int where "RT_EBUSY = 7"
definition RT_EINTR :: int where "RT_EINTR = 9"
definition RT_EINVAL :: int where "RT_EINVAL = 10"

named_theorems err_simps
  "unfolding of the error codes"

lemmas err_code_defs [err_simps] =
  RT_EOK_def RT_ERROR_def RT_ETIMEOUT_def RT_EFULL_def RT_EEMPTY_def
  RT_EBUSY_def RT_EINTR_def RT_EINVAL_def

section \<open>Lists\<close>

text \<open>Copying a block of bytes into an array at an offset: what
  \<open>rt_memcpy(&dst[off], src, n)\<close> leaves in \<open>dst\<close> when the \<open>n\<close> bytes fit.\<close>

definition blit :: "'a list \<Rightarrow> nat \<Rightarrow> 'a list \<Rightarrow> 'a list" where
  "blit dst off src = take off dst @ src @ drop (off + length src) dst"

lemma length_blit [simp]:
  "off + length src \<le> length dst \<Longrightarrow> length (blit dst off src) = length dst"
  by (simp add: blit_def)

lemma blit_Nil [simp]: "blit dst off [] = dst"
  by (simp add: blit_def)

lemma nth_blit:
  assumes "off + length src \<le> length dst" and "i < length dst"
  shows "blit dst off src ! i =
    (if off \<le> i \<and> i < off + length src then src ! (i - off) else dst ! i)"
  using assms by (auto simp: blit_def nth_append min_def)

lemma removeAll_notin [simp]: "x \<notin> set xs \<Longrightarrow> removeAll x xs = xs"
  by (induction xs) auto

lemma distinct_removeAll_length:
  "distinct xs \<Longrightarrow> x \<in> set xs \<Longrightarrow> length (removeAll x xs) = length xs - 1"
  by (metis distinct_remove1_removeAll length_remove1)

lemma map_cong_upt:
  "(\<And>i. i < n \<Longrightarrow> f i = g i) \<Longrightarrow> map f [0..<n] = map g [0..<n]"
  by (rule map_cong) auto

lemma takeWhile_nthP: "i < length (takeWhile P xs) \<Longrightarrow> P (xs ! i)"
  by (metis nth_mem set_takeWhileD takeWhile_nth)

lemma all_less_Suc_split: "(\<forall>i < Suc n. P i) \<longleftrightarrow> P 0 \<and> (\<forall>i<n. P (Suc i))"
  by (auto simp: less_Suc_eq_0_disj)

section \<open>Flag bytes\<close>

text \<open>The bits of the small constants that the status and flag bytes of the kernel
  are combined from.\<close>

lemma u8_bits:
  "bit (1 :: u8) i \<longleftrightarrow> i = 0" "bit (2 :: u8) i \<longleftrightarrow> i = 1" "bit (3 :: u8) i \<longleftrightarrow> i < 2"
  "bit (4 :: u8) i \<longleftrightarrow> i = 2" "bit (7 :: u8) i \<longleftrightarrow> i < 3" "bit (8 :: u8) i \<longleftrightarrow> i = 3"
  "bit (16 :: u8) i \<longleftrightarrow> i = 4"
proof -
  have e: "(2 :: u8) = push_bit 1 1" "(3 :: u8) = mask 2" "(4 :: u8) = push_bit 2 1"
    "(7 :: u8) = mask 3" "(8 :: u8) = push_bit 3 1" "(16 :: u8) = push_bit 4 1"
    by code_simp+
  show "bit (1 :: u8) i \<longleftrightarrow> i = 0" by (simp add: bit_1_iff)
  show "bit (2 :: u8) i \<longleftrightarrow> i = 1" "bit (4 :: u8) i \<longleftrightarrow> i = 2"
    "bit (8 :: u8) i \<longleftrightarrow> i = 3" "bit (16 :: u8) i \<longleftrightarrow> i = 4"
    unfolding e by (auto simp only: bit_push_bit_iff bit_1_iff) auto
  show "bit (3 :: u8) i \<longleftrightarrow> i < 2" "bit (7 :: u8) i \<longleftrightarrow> i < 3"
    unfolding e by (auto simp only: bit_mask_iff) auto
qed

lemmas u8_bit_simps =
  bit_and_iff bit_or_iff bit_not_iff possible_bit_word u8_bits

text \<open>An index that has passed the end of a ring once.\<close>

lemma wrap_mod: "a < 2 * s \<Longrightarrow> a mod s = (if a < s then a else a - s)" for a s :: nat
  by (simp add: mod_if)

text \<open>An increment below a bound does not wrap.\<close>

lemma unat_incr_below:
  fixes v m :: "'a :: len word"
  assumes "v < m"
  shows "unat (v + 1) = unat v + 1"
proof -
  have "Suc (unat v) < 2 ^ LENGTH('a)"
    using assms unsigned_less[of m] less_trans_Suc[of "unat v" "unat m" "2 ^ LENGTH('a)"]
    by (simp add: word_less_nat_alt)
  then show ?thesis by (simp add: unat_word_ariths)
qed

section \<open>The bounded FIFO interface\<close>

text \<open>
  The contract the byte and message queues of the kernel offer: a state
  abstracts to the list of the items it holds, at most \<open>cap\<close> of them; \<open>put\<close>
  appends as much of its argument as fits and answers how much that was;
  \<open>get\<close> removes up to \<open>n\<close> of the oldest items.
\<close>

locale bounded_fifo =
  fixes invar :: "'s \<Rightarrow> bool"
    and contents :: "'s \<Rightarrow> 'a list"
    and cap :: "'s \<Rightarrow> nat"
    and put :: "'a list \<Rightarrow> 's \<Rightarrow> nat \<times> 's"
    and get :: "nat \<Rightarrow> 's \<Rightarrow> 'a list \<times> 's"
  assumes contents_le_cap: "invar s \<Longrightarrow> length (contents s) \<le> cap s"
    and put_invar: "invar s \<Longrightarrow> invar (snd (put xs s))"
    and put_cap: "invar s \<Longrightarrow> cap (snd (put xs s)) = cap s"
    and put_count: "invar s \<Longrightarrow> fst (put xs s) = min (length xs) (cap s - length (contents s))"
    and put_contents: "invar s \<Longrightarrow>
      contents (snd (put xs s)) = contents s @ take (cap s - length (contents s)) xs"
    and get_invar: "invar s \<Longrightarrow> invar (snd (get n s))"
    and get_cap: "invar s \<Longrightarrow> cap (snd (get n s)) = cap s"
    and get_result: "invar s \<Longrightarrow> fst (get n s) = take n (contents s)"
    and get_contents: "invar s \<Longrightarrow> contents (snd (get n s)) = drop n (contents s)"
begin

lemma put_accepts_all:
  "invar s \<Longrightarrow> length xs \<le> cap s - length (contents s) \<Longrightarrow>
   fst (put xs s) = length xs \<and> contents (snd (put xs s)) = contents s @ xs"
  by (simp add: put_count put_contents)

lemma put_then_get:
  assumes "invar s" and "contents s = []" and "length xs \<le> cap s"
  shows "fst (get (length xs) (snd (put xs s))) = xs"
  using assms by (simp add: get_result put_invar put_contents)

text \<open>A run of the queue: every \<open>Inl xs\<close> puts \<open>xs\<close>, every \<open>Inr n\<close> gets \<open>n\<close>
  items. The run collects what was accepted and what was delivered.\<close>

fun run :: "('a list + nat) list \<Rightarrow> 's \<Rightarrow> 'a list \<times> 'a list \<times> 's" where
  "run [] s = ([], [], s)"
| "run (Inl xs # ops) s =
     (let (k, s') = put xs s; (acc, out, s'') = run ops s' in (take k xs @ acc, out, s''))"
| "run (Inr n # ops) s =
     (let (ys, s') = get n s; (acc, out, s'') = run ops s' in (acc, ys @ out, s''))"

lemma run_fifo:
  assumes "invar s"
  shows "case run ops s of (acc, out, s') \<Rightarrow>
    invar s' \<and> cap s' = cap s \<and> contents s @ acc = out @ contents s'"
  using assms
proof (induction ops s rule: run.induct)
  case (1 s)
  then show ?case by simp
next
  case (2 xs ops s)
  obtain k s' where p: "put xs s = (k, s')" by fastforce
  have i: "invar s'" "cap s' = cap s"
    using put_invar[OF 2(2), of xs] put_cap[OF 2(2), of xs] p by auto
  have "contents s' = contents s @ take k xs"
    using put_contents[OF 2(2), of xs] put_count[OF 2(2), of xs] p by (simp add: min_def)
  with 2(1)[OF p[symmetric] refl] i p show ?case by (auto split: prod.splits)
next
  case (3 n ops s)
  obtain ys s' where g: "get n s = (ys, s')" by fastforce
  have i: "invar s'" "cap s' = cap s"
    using get_invar[OF 3(2), of n] get_cap[OF 3(2), of n] g by auto
  have "contents s = ys @ contents s'"
    using get_contents[OF 3(2), of n] get_result[OF 3(2), of n] g by simp
  with 3(1)[OF g[symmetric] refl] i g show ?case by (auto split: prod.splits)
qed

end

section \<open>Rounding addresses\<close>

text \<open>Clearing the low bits of a word rounds it down to a multiple of a power of two.\<close>

lemma unat_clear_low:
  fixes w :: u32
  assumes "j < 32"
  shows "unat (w AND NOT (2 ^ j - 1)) = 2 ^ j * (unat w div 2 ^ j)"
proof -
  have "w AND NOT (mask j) = push_bit j (drop_bit j w)" by (rule bit_eqI) (auto simp: bit_simps)
  also have "\<dots> = w div 2 ^ j * 2 ^ j" by (simp add: push_bit_eq_mult drop_bit_eq_div)
  finally have e: "w AND NOT (2 ^ j - 1) = w div 2 ^ j * 2 ^ j" by (simp add: mask_eq_exp_minus_1)
  have "(2 :: nat) ^ j < 2 ^ 32" using assms by (rule power_strict_increasing) simp
  then have "unat (of_nat (2 ^ j) :: u32) = 2 ^ j" unfolding unat_of_nat by (simp add: take_bit_nat_eq_self)
  then have p: "unat (2 ^ j :: u32) = 2 ^ j" by simp
  have "unat w div 2 ^ j * 2 ^ j < 2 ^ 32"
    by (rule le_less_trans[OF div_times_less_eq_dividend]) (use unsigned_less[of w, where ?'a = nat] in simp)
  then have "unat w div 2 ^ j * 2 ^ j mod 2 ^ 32 = unat w div 2 ^ j * 2 ^ j" by simp
  moreover have "unat (w div 2 ^ j * 2 ^ j) = unat w div 2 ^ j * 2 ^ j mod 2 ^ 32"
    by (simp add: unat_word_ariths unat_div p mod_mult_left_eq)
  ultimately show ?thesis unfolding e by simp
qed

end
