(* ===== verification/RingBuffer.thy ===== *)
theory RingBuffer
  imports Prelude
begin

text \<open>
  The byte ring buffer of the device layer
  (\<open>rt-thread/components/drivers/ipc/ringbuffer.c\<close>): the two indices with
  their mirror bits, every operation on them, the representation invariant, and
  the refinement of the operations to a bounded FIFO of bytes.

  The indices are 31-bit fields and the size is a positive 32-bit signed
  number; the invariant keeps both indices below the size, so none of the
  subtractions and additions of the code wraps and natural numbers are exact.
  The memory behind \<open>buffer_ptr\<close> is a list of bytes; a pointer argument is the
  list of bytes it points to, at least \<open>length\<close> of them.
\<close>

section \<open>State\<close>

record rt_ringbuffer =
  buffer_ptr :: "byte list"
  read_mirror :: bool
  read_index :: nat
  write_mirror :: bool
  write_index :: nat
  buffer_size :: nat

datatype rt_ringbuffer_state =
  RT_RINGBUFFER_EMPTY | RT_RINGBUFFER_FULL | RT_RINGBUFFER_HALFFULL

section \<open>Operations\<close>

definition rt_ringbuffer_status :: "rt_ringbuffer \<Rightarrow> rt_ringbuffer_state" where
  "rt_ringbuffer_status rb =
    (if read_index rb = write_index rb then
       if read_mirror rb = write_mirror rb then RT_RINGBUFFER_EMPTY
       else RT_RINGBUFFER_FULL
     else RT_RINGBUFFER_HALFFULL)"

definition rt_ringbuffer_init :: "byte list \<Rightarrow> nat \<Rightarrow> rt_ringbuffer" where
  "rt_ringbuffer_init pool sz =
    \<lparr> buffer_ptr = pool, read_mirror = False, read_index = 0,
      write_mirror = False, write_index = 0, buffer_size = sz div 8 * 8 \<rparr>"

definition rt_ringbuffer_get_size :: "rt_ringbuffer \<Rightarrow> nat" where
  "rt_ringbuffer_get_size rb = buffer_size rb"

definition rt_ringbuffer_data_len :: "rt_ringbuffer \<Rightarrow> nat" where
  "rt_ringbuffer_data_len rb =
    (case rt_ringbuffer_status rb of
       RT_RINGBUFFER_EMPTY \<Rightarrow> 0
     | RT_RINGBUFFER_FULL \<Rightarrow> buffer_size rb
     | RT_RINGBUFFER_HALFFULL \<Rightarrow>
         (let wi = write_index rb; ri = read_index rb in
            if wi > ri then wi - ri else buffer_size rb - (ri - wi)))"

definition rt_ringbuffer_space_len :: "rt_ringbuffer \<Rightarrow> nat" where
  "rt_ringbuffer_space_len rb = buffer_size rb - rt_ringbuffer_data_len rb"

definition rt_ringbuffer_put :: "rt_ringbuffer \<Rightarrow> byte list \<Rightarrow> nat \<Rightarrow> nat \<times> rt_ringbuffer" where
  "rt_ringbuffer_put rb ptr len =
    (let sz = rt_ringbuffer_space_len rb in
     if sz = 0 then (0, rb)
     else
       let len = (if sz < len then sz else len);
           room = buffer_size rb - write_index rb
       in if room > len then
            (len, rb\<lparr> buffer_ptr := blit (buffer_ptr rb) (write_index rb) (take len ptr),
                      write_index := write_index rb + len \<rparr>)
          else
            (len, rb\<lparr> buffer_ptr :=
                        blit (blit (buffer_ptr rb) (write_index rb) (take room ptr))
                          0 (take (len - room) (drop room ptr)),
                      write_mirror := \<not> write_mirror rb,
                      write_index := len - room \<rparr>))"

definition rt_ringbuffer_put_force :: "rt_ringbuffer \<Rightarrow> byte list \<Rightarrow> nat \<Rightarrow> nat \<times> rt_ringbuffer" where
  "rt_ringbuffer_put_force rb ptr0 len0 =
    (let space_length = rt_ringbuffer_space_len rb;
         ptr = (if len0 > buffer_size rb then drop (len0 - buffer_size rb) ptr0 else ptr0);
         len = (if len0 > buffer_size rb then buffer_size rb else len0);
         room = buffer_size rb - write_index rb
     in if room > len then
          let rb1 = rb\<lparr> buffer_ptr := blit (buffer_ptr rb) (write_index rb) (take len ptr),
                        write_index := write_index rb + len \<rparr>
          in (len, if len > space_length then rb1\<lparr> read_index := write_index rb1 \<rparr> else rb1)
        else
          let rb1 = rb\<lparr> buffer_ptr :=
                          blit (blit (buffer_ptr rb) (write_index rb) (take room ptr))
                            0 (take (len - room) (drop room ptr)),
                        write_mirror := \<not> write_mirror rb,
                        write_index := len - room \<rparr>
          in (len,
              if len > space_length then
                (if write_index rb1 \<le> read_index rb1
                 then rb1\<lparr> read_mirror := \<not> read_mirror rb1 \<rparr> else rb1)
                \<lparr> read_index := write_index rb1 \<rparr>
              else rb1))"

definition rt_ringbuffer_get :: "rt_ringbuffer \<Rightarrow> nat \<Rightarrow> byte list \<times> rt_ringbuffer" where
  "rt_ringbuffer_get rb len =
    (let sz = rt_ringbuffer_data_len rb in
     if sz = 0 then ([], rb)
     else
       let len = (if sz < len then sz else len);
           room = buffer_size rb - read_index rb
       in if room > len then
            (take len (drop (read_index rb) (buffer_ptr rb)),
             rb\<lparr> read_index := read_index rb + len \<rparr>)
          else
            (take room (drop (read_index rb) (buffer_ptr rb)) @ take (len - room) (buffer_ptr rb),
             rb\<lparr> read_mirror := \<not> read_mirror rb, read_index := len - room \<rparr>))"

text \<open>\<open>rt_ringbuffer_peek\<close> hands out a pointer into the buffer, here its offset
  (\<open>None\<close> for \<open>RT_NULL\<close>), and consumes the bytes it points to.\<close>

definition rt_ringbuffer_peek :: "rt_ringbuffer \<Rightarrow> nat \<times> nat option \<times> rt_ringbuffer" where
  "rt_ringbuffer_peek rb =
    (let sz = rt_ringbuffer_data_len rb in
     if sz = 0 then (0, None, rb)
     else if buffer_size rb - read_index rb > sz then
       (sz, Some (read_index rb), rb\<lparr> read_index := read_index rb + sz \<rparr>)
     else
       (buffer_size rb - read_index rb, Some (read_index rb),
        rb\<lparr> read_mirror := \<not> read_mirror rb, read_index := 0 \<rparr>))"

definition rt_ringbuffer_putchar :: "rt_ringbuffer \<Rightarrow> byte \<Rightarrow> nat \<times> rt_ringbuffer" where
  "rt_ringbuffer_putchar rb ch =
    (if rt_ringbuffer_space_len rb = 0 then (0, rb)
     else
       let rb = rb\<lparr> buffer_ptr := (buffer_ptr rb)[write_index rb := ch] \<rparr> in
       if write_index rb = buffer_size rb - 1 then
         (1, rb\<lparr> write_mirror := \<not> write_mirror rb, write_index := 0 \<rparr>)
       else (1, rb\<lparr> write_index := write_index rb + 1 \<rparr>))"

definition rt_ringbuffer_putchar_force :: "rt_ringbuffer \<Rightarrow> byte \<Rightarrow> nat \<times> rt_ringbuffer" where
  "rt_ringbuffer_putchar_force rb0 ch =
    (let old_state = rt_ringbuffer_status rb0;
         rb = rb0\<lparr> buffer_ptr := (buffer_ptr rb0)[write_index rb0 := ch] \<rparr>
     in if write_index rb = buffer_size rb - 1 then
          let rb = rb\<lparr> write_mirror := \<not> write_mirror rb, write_index := 0 \<rparr>
          in (1, if old_state = RT_RINGBUFFER_FULL
                 then rb\<lparr> read_mirror := \<not> read_mirror rb, read_index := write_index rb \<rparr>
                 else rb)
        else
          let rb = rb\<lparr> write_index := write_index rb + 1 \<rparr>
          in (1, if old_state = RT_RINGBUFFER_FULL
                 then rb\<lparr> read_index := write_index rb \<rparr> else rb))"

definition rt_ringbuffer_getchar :: "rt_ringbuffer \<Rightarrow> byte option \<times> rt_ringbuffer" where
  "rt_ringbuffer_getchar rb =
    (if rt_ringbuffer_data_len rb = 0 then (None, rb)
     else
       let ch = buffer_ptr rb ! read_index rb in
       if read_index rb = buffer_size rb - 1 then
         (Some ch, rb\<lparr> read_mirror := \<not> read_mirror rb, read_index := 0 \<rparr>)
       else (Some ch, rb\<lparr> read_index := read_index rb + 1 \<rparr>))"

definition rt_ringbuffer_reset :: "rt_ringbuffer \<Rightarrow> rt_ringbuffer" where
  "rt_ringbuffer_reset rb =
    rb\<lparr> read_mirror := False, read_index := 0, write_mirror := False, write_index := 0 \<rparr>"

section \<open>Invariant and abstraction\<close>

definition rb_inv :: "rt_ringbuffer \<Rightarrow> bool" where
  "rb_inv rb \<longleftrightarrow>
     0 < buffer_size rb \<and> buffer_size rb < 2 ^ 31 \<and>
     buffer_size rb \<le> length (buffer_ptr rb) \<and>
     read_index rb < buffer_size rb \<and> write_index rb < buffer_size rb \<and>
     (if read_mirror rb = write_mirror rb then read_index rb \<le> write_index rb
      else write_index rb \<le> read_index rb)"

definition rb_contents :: "rt_ringbuffer \<Rightarrow> byte list" where
  "rb_contents rb =
     map (\<lambda>i. buffer_ptr rb ! ((read_index rb + i) mod buffer_size rb))
       [0..<rt_ringbuffer_data_len rb]"

lemma length_rb_contents [simp]: "length (rb_contents rb) = rt_ringbuffer_data_len rb"
  by (simp add: rb_contents_def)

lemma rb_contents_Nil_iff: "rb_contents rb = [] \<longleftrightarrow> rt_ringbuffer_data_len rb = 0"
  by (simp add: rb_contents_def)

lemma data_len_eq:
  assumes "rb_inv rb"
  shows "rt_ringbuffer_data_len rb =
    (if read_mirror rb = write_mirror rb then write_index rb - read_index rb
     else buffer_size rb - read_index rb + write_index rb)"
  using assms
  by (auto simp: rt_ringbuffer_data_len_def rt_ringbuffer_status_def rb_inv_def Let_def split: if_splits)

lemma data_len_le: "rb_inv rb \<Longrightarrow> rt_ringbuffer_data_len rb \<le> buffer_size rb"
  by (auto simp: data_len_eq rb_inv_def split: if_splits)

text \<open>Writing \<open>xs\<close> at index \<open>w\<close> of a ring of \<open>s\<close> cells, in one piece or split at
  the end of the buffer.\<close>

definition ring_write :: "byte list \<Rightarrow> nat \<Rightarrow> nat \<Rightarrow> byte list \<Rightarrow> byte list" where
  "ring_write b s w xs =
     (if s - w > length xs then blit b w xs
      else blit (blit b w (take (s - w) xs)) 0 (drop (s - w) xs))"

lemma length_ring_write:
  "length xs \<le> s \<Longrightarrow> w < s \<Longrightarrow> s \<le> length b \<Longrightarrow> length (ring_write b s w xs) = length b"
  by (auto simp: ring_write_def min_def)

lemma nth_ring_write:
  assumes "length xs \<le> s" "w < s" "s \<le> length b" "j < s"
  shows "ring_write b s w xs ! ((w + j) mod s) =
    (if j < length xs then xs ! j else b ! ((w + j) mod s))"
  using assms by (auto simp: ring_write_def nth_blit wrap_mod min_def nth_append)

text \<open>Moving an index with its mirror bit by \<open>n\<close> cells.\<close>

definition ring_advance :: "nat \<Rightarrow> nat \<Rightarrow> bool \<Rightarrow> nat \<Rightarrow> bool \<times> nat" where
  "ring_advance s n m w = (if s - w > n then (m, w + n) else (\<not> m, n - (s - w)))"

definition rb_append :: "rt_ringbuffer \<Rightarrow> byte list \<Rightarrow> rt_ringbuffer" where
  "rb_append rb xs =
     rb\<lparr> buffer_ptr := ring_write (buffer_ptr rb) (buffer_size rb) (write_index rb) xs,
         write_mirror := fst (ring_advance (buffer_size rb) (length xs) (write_mirror rb) (write_index rb)),
         write_index := snd (ring_advance (buffer_size rb) (length xs) (write_mirror rb) (write_index rb)) \<rparr>"

definition rb_drop :: "rt_ringbuffer \<Rightarrow> nat \<Rightarrow> rt_ringbuffer" where
  "rb_drop rb n =
     rb\<lparr> read_mirror := fst (ring_advance (buffer_size rb) n (read_mirror rb) (read_index rb)),
         read_index := snd (ring_advance (buffer_size rb) n (read_mirror rb) (read_index rb)) \<rparr>"

lemma write_index_eq:
  "rb_inv rb \<Longrightarrow>
   write_index rb = (read_index rb + rt_ringbuffer_data_len rb) mod buffer_size rb"
  by (auto simp: data_len_eq rb_inv_def wrap_mod split: if_splits)

lemma rb_append_inv:
  assumes "rb_inv rb" and "length xs \<le> rt_ringbuffer_space_len rb"
  shows "rb_inv (rb_append rb xs)"
    and "rt_ringbuffer_data_len (rb_append rb xs) = rt_ringbuffer_data_len rb + length xs"
proof -
  have sp: "length xs + rt_ringbuffer_data_len rb \<le> buffer_size rb"
    using assms data_len_le[OF assms(1)] by (simp add: rt_ringbuffer_space_len_def)
  have len: "length (ring_write (buffer_ptr rb) (buffer_size rb) (write_index rb) xs)
      = length (buffer_ptr rb)"
    using assms(1) sp by (intro length_ring_write) (auto simp: rb_inv_def)
  show inv: "rb_inv (rb_append rb xs)"
    using assms(1) sp len
    by (auto simp: rb_inv_def rb_append_def ring_advance_def data_len_eq split: if_splits)
  show "rt_ringbuffer_data_len (rb_append rb xs) = rt_ringbuffer_data_len rb + length xs"
    using assms(1) inv sp
    by (auto simp: data_len_eq rb_inv_def rb_append_def ring_advance_def split: if_splits)
qed

lemma rb_append_contents:
  assumes inv: "rb_inv rb" and sp: "length xs \<le> rt_ringbuffer_space_len rb"
  shows "rb_contents (rb_append rb xs) = rb_contents rb @ xs"
proof (rule nth_equalityI)
  let ?d = "rt_ringbuffer_data_len rb" and ?s = "buffer_size rb"
  show "length (rb_contents (rb_append rb xs)) = length (rb_contents rb @ xs)"
    using rb_append_inv(2)[OF assms] by simp
  fix i assume "i < length (rb_contents (rb_append rb xs))"
  then have i: "i < ?d + length xs" using rb_append_inv(2)[OF assms] by simp
  have sp': "?d + length xs \<le> ?s"
    using sp data_len_le[OF inv] by (simp add: rt_ringbuffer_space_len_def)
  have b: "?s \<le> length (buffer_ptr rb)" "read_index rb < ?s" "write_index rb < ?s" "0 < ?s"
    using inv by (auto simp: rb_inv_def)
  define j where "j = (if i < ?d then i + (?s - ?d) else i - ?d)"
  have j: "j < ?s" and pos: "(read_index rb + i) mod ?s = (write_index rb + j) mod ?s"
    using i sp' by (auto simp: j_def write_index_eq[OF inv] mod_add_left_eq) (metis add.assoc mod_add_self2)
  have "rb_contents (rb_append rb xs) ! i =
      ring_write (buffer_ptr rb) ?s (write_index rb) xs ! ((write_index rb + j) mod ?s)"
    using i pos rb_append_inv(2)[OF assms] by (simp add: rb_contents_def) (simp add: rb_append_def)
  also have "\<dots> = (if j < length xs then xs ! j else buffer_ptr rb ! ((read_index rb + i) mod ?s))"
    using nth_ring_write[of xs ?s "write_index rb" "buffer_ptr rb" j] b j sp' pos by simp
  also have "\<dots> = (rb_contents rb @ xs) ! i"
    using i sp' by (auto simp: j_def nth_append rb_contents_def)
  finally show "rb_contents (rb_append rb xs) ! i = (rb_contents rb @ xs) ! i" .
qed

lemma rb_drop_inv:
  assumes "rb_inv rb" and "n \<le> rt_ringbuffer_data_len rb"
  shows "rb_inv (rb_drop rb n)"
    and "rt_ringbuffer_data_len (rb_drop rb n) = rt_ringbuffer_data_len rb - n"
proof -
  show inv: "rb_inv (rb_drop rb n)"
    using assms by (auto simp: rb_inv_def rb_drop_def ring_advance_def data_len_eq split: if_splits)
  show "rt_ringbuffer_data_len (rb_drop rb n) = rt_ringbuffer_data_len rb - n"
    using assms inv
    by (auto simp: data_len_eq rb_inv_def rb_drop_def ring_advance_def split: if_splits)
qed

lemma rb_drop_contents:
  assumes inv: "rb_inv rb" and n: "n \<le> rt_ringbuffer_data_len rb"
  shows "rb_contents (rb_drop rb n) = drop n (rb_contents rb)"
proof -
  have "read_index (rb_drop rb n) = (read_index rb + n) mod buffer_size rb"
    using inv n data_len_le[OF inv]
    by (auto simp: rb_drop_def ring_advance_def rb_inv_def wrap_mod)
  then show ?thesis
    using rb_drop_inv(2)[OF assms] n
    by (intro nth_equalityI)
      (auto simp: rb_contents_def mod_add_left_eq add.assoc rb_drop_def)
qed

section \<open>The operations as ring moves\<close>

lemma put_eq_append:
  assumes "rb_inv rb" and "len \<le> length ptr"
  shows "rt_ringbuffer_put rb ptr len =
    (min len (rt_ringbuffer_space_len rb),
     rb_append rb (take (min len (rt_ringbuffer_space_len rb)) ptr))"
proof -
  let ?n = "min len (rt_ringbuffer_space_len rb)"
  let ?m = "buffer_size rb - write_index rb"
  have "?n \<le> length ptr" and "0 < ?m" using assms by (auto simp: rb_inv_def)
  then show ?thesis
    by (auto simp: rt_ringbuffer_put_def rb_append_def ring_write_def ring_advance_def Let_def
        min_def take_drop split: if_splits)
qed

lemma ring_read:
  fixes b :: "'a list"
  assumes "n \<le> s" "s \<le> length b" "r < s"
  shows "map (\<lambda>i. b ! ((r + i) mod s)) [0..<n] =
    (if s - r > n then take n (drop r b) else take (s - r) (drop r b) @ take (n - (s - r)) b)"
proof (cases "s - r > n")
  case True
  then show ?thesis using assms by (auto intro!: nth_equalityI)
next
  case False
  then have "n = (s - r) + (n - (s - r))" by simp
  then show ?thesis
    using False assms by (intro nth_equalityI) (auto simp: nth_append wrap_mod min_def add.commute intro!: arg_cong[of _ _ "nth b"])
qed

lemma take_rb_contents:
  "take len (rb_contents rb) =
   map (\<lambda>i. buffer_ptr rb ! ((read_index rb + i) mod buffer_size rb))
     [0..<min len (rt_ringbuffer_data_len rb)]"
  by (simp add: rb_contents_def take_map take_upt min_def)

lemma get_eq_drop:
  assumes "rb_inv rb"
  shows "rt_ringbuffer_get rb len =
    (take len (rb_contents rb), rb_drop rb (min len (rt_ringbuffer_data_len rb)))"
proof -
  let ?n = "min len (rt_ringbuffer_data_len rb)" and ?s = "buffer_size rb"
  have "?n \<le> ?s" "?s \<le> length (buffer_ptr rb)" "read_index rb < ?s"
    using assms data_len_le[OF assms] by (auto simp: rb_inv_def)
  note r = ring_read[OF this]
  show ?thesis
    unfolding take_rb_contents r
    using assms
    by (auto simp: rt_ringbuffer_get_def rb_drop_def ring_advance_def Let_def min_def rb_inv_def
        split: if_splits)
qed

lemma putchar_eq_put:
  assumes "rb_inv rb"
  shows "rt_ringbuffer_putchar rb ch = rt_ringbuffer_put rb [ch] 1"
  using assms
  by (auto simp: rt_ringbuffer_putchar_def rt_ringbuffer_put_def rb_inv_def Let_def blit_def
      upd_conv_take_nth_drop)

lemma getchar_eq_get:
  assumes "rb_inv rb"
  shows "rt_ringbuffer_getchar rb =
    (case rt_ringbuffer_get rb 1 of (bs, rb') \<Rightarrow> (if bs = [] then None else Some (hd bs), rb'))"
  using assms
  by (auto simp: rt_ringbuffer_getchar_def rt_ringbuffer_get_def rb_inv_def Let_def
      hd_drop_conv_nth take_Suc_conv_app_nth)

lemma peek_eq_drop:
  assumes "rb_inv rb"
  shows "rt_ringbuffer_peek rb =
    (let n = min (rt_ringbuffer_data_len rb) (buffer_size rb - read_index rb) in
     (n, if n = 0 then None else Some (read_index rb), rb_drop rb n))"
  using assms data_len_le[OF assms]
  by (auto simp: rt_ringbuffer_peek_def rb_drop_def ring_advance_def Let_def min_def rb_inv_def)

text \<open>An overflowing write leaves the ring full, with the read position at the
  new write position in the opposite mirror.\<close>

definition rb_overwrite :: "rt_ringbuffer \<Rightarrow> byte list \<Rightarrow> rt_ringbuffer" where
  "rb_overwrite rb xs =
     (rb_append rb xs)\<lparr> read_mirror := \<not> write_mirror (rb_append rb xs),
                        read_index := write_index (rb_append rb xs) \<rparr>"

lemma put_force_body:
  assumes "0 < buffer_size rb" "write_index rb < buffer_size rb" and "len \<le> length ptr"
  defines "n \<equiv> min len (buffer_size rb)" and "xs \<equiv> drop (len - buffer_size rb) (take len ptr)"
  shows "rt_ringbuffer_put_force rb ptr len = (n,
      let rb1 = rb_append rb xs in
      if n > rt_ringbuffer_space_len rb then
        (if buffer_size rb - write_index rb \<le> n \<and> write_index rb1 \<le> read_index rb
         then rb1\<lparr> read_mirror := \<not> read_mirror rb \<rparr> else rb1)\<lparr> read_index := write_index rb1 \<rparr>
      else rb1)"
proof -
  define p where "p = (if len > buffer_size rb then drop (len - buffer_size rb) ptr else ptr)"
  have xs: "xs = take n p" "n \<le> length p"
    using assms(3) by (auto simp: p_def n_def xs_def drop_take min_def)
  have l: "(if len > buffer_size rb then buffer_size rb else len) = n" by (simp add: n_def min_def)
  note d = rt_ringbuffer_put_force_def[of rb ptr len, folded p_def, unfolded l Let_def]
  show ?thesis
  proof (cases "buffer_size rb - write_index rb > n")
    case True
    then have "rb_append rb xs = rb\<lparr> buffer_ptr := blit (buffer_ptr rb) (write_index rb) (take n p),
        write_index := write_index rb + n \<rparr>"
      using xs by (simp add: rb_append_def ring_write_def ring_advance_def)
    then show ?thesis using True by (simp add: d Let_def)
  next
    case False
    then have "rb_append rb xs = rb\<lparr> buffer_ptr :=
          blit (blit (buffer_ptr rb) (write_index rb) (take (buffer_size rb - write_index rb) p))
            0 (take (n - (buffer_size rb - write_index rb)) (drop (buffer_size rb - write_index rb) p)),
        write_mirror := \<not> write_mirror rb,
        write_index := n - (buffer_size rb - write_index rb) \<rparr>"
      using xs by (simp add: rb_append_def ring_write_def ring_advance_def drop_take min_absorb1)
    then show ?thesis using False by (simp add: d Let_def)
  qed
qed

lemma put_force_mirror:
  assumes "rb_inv rb" and "length xs \<le> buffer_size rb" and "length xs > rt_ringbuffer_space_len rb"
  shows "(if buffer_size rb - write_index rb \<le> length xs \<and> write_index (rb_append rb xs) \<le> read_index rb
          then \<not> read_mirror rb else read_mirror rb) = (\<not> write_mirror (rb_append rb xs))"
proof (cases "read_mirror rb = write_mirror rb")
  case True
  then show ?thesis using assms
    by (auto simp: rt_ringbuffer_space_len_def data_len_eq rb_append_def ring_advance_def rb_inv_def)
next
  case False
  then show ?thesis using assms
    by (cases "buffer_size rb - write_index rb > length xs")
      (auto simp: rb_append_def ring_advance_def rb_inv_def)
qed

lemma put_force_eq:
  assumes "rb_inv rb" and "len \<le> length ptr"
  shows "rt_ringbuffer_put_force rb ptr len =
    (let xs = drop (len - buffer_size rb) (take len ptr) in
     (length xs, if length xs > rt_ringbuffer_space_len rb then rb_overwrite rb xs
                 else rb_append rb xs))"
proof -
  define xs where "xs = drop (len - buffer_size rb) (take len ptr)"
  have n: "length xs = min len (buffer_size rb)" using assms(2) by (simp add: xs_def min_def)
  have pos: "0 < buffer_size rb" "write_index rb < buffer_size rb"
    using assms(1) by (auto simp: rb_inv_def)
  show ?thesis
  proof (cases "length xs > rt_ringbuffer_space_len rb")
    case False
    then show ?thesis
      using put_force_body[OF pos assms(2), folded xs_def n] by (simp add: Let_def xs_def)
  next
    case True
    have m: "(if b then rb1\<lparr> read_mirror := v \<rparr> else rb1)\<lparr> read_index := i \<rparr> =
        rb1\<lparr> read_mirror := (if b then v else read_mirror rb1), read_index := i \<rparr>"
      for b v i and rb1 :: rt_ringbuffer by simp
    have rm: "read_mirror (rb_append rb xs) = read_mirror rb" by (simp add: rb_append_def)
    have "length xs \<le> buffer_size rb" using n by simp
    note mm = put_force_mirror[OF assms(1) this True]
    show ?thesis
      using True
      by (simp only: put_force_body[OF pos assms(2), folded xs_def n] Let_def m rm mm if_True
          rb_overwrite_def xs_def[symmetric])
  qed
qed

lemma putchar_force_eq:
  assumes "rb_inv rb"
  shows "rt_ringbuffer_putchar_force rb ch = rt_ringbuffer_put_force rb [ch] 1"
proof -
  have pos: "0 < buffer_size rb" "write_index rb < buffer_size rb" "write_index rb < length (buffer_ptr rb)"
    using assms by (auto simp: rb_inv_def)
  have b: "(buffer_ptr rb)[write_index rb := ch] = blit (buffer_ptr rb) (write_index rb) [ch]"
    using pos(3) by (simp add: blit_def upd_conv_take_nth_drop)
  have f: "rt_ringbuffer_status rb = RT_RINGBUFFER_FULL \<longleftrightarrow> 1 > rt_ringbuffer_space_len rb"
    using assms data_len_le[OF assms]
    by (auto simp: rt_ringbuffer_space_len_def rt_ringbuffer_data_len_def rt_ringbuffer_status_def
        rb_inv_def Let_def)
  have e: "write_index rb = buffer_size rb - 1 \<longleftrightarrow> \<not> buffer_size rb - write_index rb > 1"
    using pos by auto
  have r: "buffer_size rb - write_index rb = 1" if "\<not> buffer_size rb - write_index rb > 1"
    using that pos by simp
  have l: "\<not> 1 > buffer_size rb" using pos by simp
  show ?thesis
    using r l by (auto simp: rt_ringbuffer_putchar_force_def rt_ringbuffer_put_force_def Let_def b f e
        simp del: One_nat_def)
qed

lemma overwrite_inv:
  assumes "rb_inv rb" and "length xs \<le> buffer_size rb"
  shows "rb_inv (rb_overwrite rb xs)"
    and "rt_ringbuffer_data_len (rb_overwrite rb xs) = buffer_size rb"
proof -
  have "length (ring_write (buffer_ptr rb) (buffer_size rb) (write_index rb) xs)
      = length (buffer_ptr rb)"
    using assms by (intro length_ring_write) (auto simp: rb_inv_def)
  then show "rb_inv (rb_overwrite rb xs)"
    using assms by (auto simp: rb_inv_def rb_overwrite_def rb_append_def ring_advance_def)
  show "rt_ringbuffer_data_len (rb_overwrite rb xs) = buffer_size rb"
    by (simp add: rt_ringbuffer_data_len_def rt_ringbuffer_status_def rb_overwrite_def)
      (simp add: rb_append_def)
qed

lemma overwrite_contents:
  assumes inv: "rb_inv rb" and len: "length xs \<le> buffer_size rb"
    and over: "length xs > rt_ringbuffer_space_len rb"
  shows "rb_contents (rb_overwrite rb xs) =
    drop (rt_ringbuffer_data_len rb + length xs - buffer_size rb) (rb_contents rb @ xs)"
proof (rule nth_equalityI)
  let ?d = "rt_ringbuffer_data_len rb" and ?s = "buffer_size rb" and ?n = "length xs"
  note d = overwrite_inv(2)[OF inv len]
  have o: "?s < ?d + ?n" and ds: "?d \<le> ?s"
    using over data_len_le[OF inv] by (auto simp: rt_ringbuffer_space_len_def)
  have b: "?s \<le> length (buffer_ptr rb)" "read_index rb < ?s" "write_index rb < ?s" "0 < ?s"
    using inv by (auto simp: rb_inv_def)
  show "length (rb_contents (rb_overwrite rb xs)) = length (drop (?d + ?n - ?s) (rb_contents rb @ xs))"
    using d o ds by simp
  fix i assume "i < length (rb_contents (rb_overwrite rb xs))"
  then have i: "i < ?s" using d by simp
  define j where "j = (if i < ?s - ?n then ?n + i else i - (?s - ?n))"
  have w: "write_index (rb_append rb xs) = (write_index rb + ?n) mod ?s"
    using b len by (auto simp: rb_append_def ring_advance_def wrap_mod)
  have j: "j < ?s" using i len by (auto simp: j_def)
  have "(write_index rb + ?n + i) mod ?s = (write_index rb + j) mod ?s"
  proof (cases "i < ?s - ?n")
    case False
    then have "write_index rb + ?n + i = (write_index rb + j) + ?s" using len by (simp add: j_def)
    then show ?thesis by (simp only: mod_add_self2)
  qed (simp add: j_def add.assoc)
  then have "rb_contents (rb_overwrite rb xs) ! i =
      ring_write (buffer_ptr rb) ?s (write_index rb) xs ! ((write_index rb + j) mod ?s)"
    using i d w
    by (simp add: rb_contents_def rb_overwrite_def mod_add_left_eq) (simp add: rb_append_def mod_add_left_eq)
  also have "\<dots> = (if j < ?n then xs ! j else buffer_ptr rb ! ((write_index rb + j) mod ?s))"
    using nth_ring_write[of xs ?s "write_index rb" "buffer_ptr rb" j] b j len by simp
  also have "\<dots> = (rb_contents rb @ xs) ! (?d + ?n - ?s + i)"
  proof (cases "i < ?s - ?n")
    case True
    then have "read_index rb + ?d + j = read_index rb + (?d + ?n - ?s + i) + ?s"
      using o by (simp add: j_def)
    then have "(write_index rb + j) mod ?s = (read_index rb + (?d + ?n - ?s + i) + ?s) mod ?s"
      unfolding write_index_eq[OF inv] mod_add_left_eq by (simp only:)
    then have "(write_index rb + j) mod ?s = (read_index rb + (?d + ?n - ?s + i)) mod ?s"
      by (simp only: mod_add_self2)
    moreover define k where "k = ?d + ?n - ?s + i"
    moreover have "k < ?d" "\<not> j < ?n" using True ds o by (auto simp: k_def j_def)
    ultimately show ?thesis by (simp add: nth_append rb_contents_def)
  qed (use ds o i len in \<open>auto simp: j_def nth_append rb_contents_def intro!: arg_cong[of _ _ "nth xs"]\<close>)
  also have "\<dots> = drop (?d + ?n - ?s) (rb_contents rb @ xs) ! i"
    by (rule nth_drop[symmetric]) simp
  finally show "rb_contents (rb_overwrite rb xs) ! i = drop (?d + ?n - ?s) (rb_contents rb @ xs) ! i" .
qed

lemma rb_append_simps [simp]:
  "buffer_size (rb_append rb xs) = buffer_size rb"
  "buffer_size (rb_overwrite rb xs) = buffer_size rb"
  "buffer_size (rb_drop rb n) = buffer_size rb"
  by (simp_all add: rb_append_def rb_overwrite_def rb_drop_def)

section \<open>The ring buffer is a bounded FIFO\<close>

interpretation rb: bounded_fifo
  rb_inv rb_contents buffer_size
  "\<lambda>xs rb. rt_ringbuffer_put rb xs (length xs)"
  "\<lambda>n rb. rt_ringbuffer_get rb n"
proof unfold_locales
  fix rb :: rt_ringbuffer and xs :: "byte list" and n :: nat
  assume inv: "rb_inv rb"
  have fit: "length (take (min (length xs) (rt_ringbuffer_space_len rb)) xs) \<le> rt_ringbuffer_space_len rb"
    by simp
  show "length (rb_contents rb) \<le> buffer_size rb" using data_len_le[OF inv] by simp
  show "rb_inv (snd (rt_ringbuffer_put rb xs (length xs)))"
    using rb_append_inv(1)[OF inv fit] put_eq_append[OF inv, of "length xs" xs] by simp
  show "buffer_size (snd (rt_ringbuffer_put rb xs (length xs))) = buffer_size rb"
    using put_eq_append[OF inv, of "length xs" xs] by simp
  show "fst (rt_ringbuffer_put rb xs (length xs)) =
      min (length xs) (buffer_size rb - length (rb_contents rb))"
    using put_eq_append[OF inv, of "length xs" xs] by (simp add: rt_ringbuffer_space_len_def)
  show "rb_contents (snd (rt_ringbuffer_put rb xs (length xs))) =
      rb_contents rb @ take (buffer_size rb - length (rb_contents rb)) xs"
    using rb_append_contents[OF inv fit] put_eq_append[OF inv, of "length xs" xs]
    by (simp add: rt_ringbuffer_space_len_def min_def)
  have le: "min n (rt_ringbuffer_data_len rb) \<le> rt_ringbuffer_data_len rb" by simp
  show "rb_inv (snd (rt_ringbuffer_get rb n))"
    using rb_drop_inv(1)[OF inv le] get_eq_drop[OF inv] by simp
  show "buffer_size (snd (rt_ringbuffer_get rb n)) = buffer_size rb"
    using get_eq_drop[OF inv] by simp
  show "fst (rt_ringbuffer_get rb n) = take n (rb_contents rb)"
    using get_eq_drop[OF inv] by simp
  show "rb_contents (snd (rt_ringbuffer_get rb n)) = drop n (rb_contents rb)"
    using rb_drop_contents[OF inv le] get_eq_drop[OF inv] by (simp add: min_def)
qed

text \<open>A run of a ring buffer over any sequence of block puts and gets.\<close>

definition rb_run :: "(byte list + nat) list \<Rightarrow> rt_ringbuffer \<Rightarrow> byte list \<times> byte list \<times> rt_ringbuffer" where
  "rb_run = rb.run"

lemma rb_run_simps [simp]:
  "rb_run [] rb = ([], [], rb)"
  "rb_run (Inl xs # ops) rb =
     (let (k, rb') = rt_ringbuffer_put rb xs (length xs); (acc, out, rb'') = rb_run ops rb'
      in (take k xs @ acc, out, rb''))"
  "rb_run (Inr n # ops) rb =
     (let (ys, rb') = rt_ringbuffer_get rb n; (acc, out, rb'') = rb_run ops rb'
      in (acc, ys @ out, rb''))"
  by (simp_all add: rb_run_def)

lemma init_inv:
  assumes "8 \<le> sz" "sz < 2 ^ 31" "sz \<le> length pool"
  shows "rb_inv (rt_ringbuffer_init pool sz) \<and> rb_contents (rt_ringbuffer_init pool sz) = []
    \<and> rt_ringbuffer_space_len (rt_ringbuffer_init pool sz) = sz div 8 * 8"
proof -
  have "sz div 8 * 8 \<le> sz" "0 < sz div 8 * 8" using assms by auto
  with assms show ?thesis
    by (auto simp: rb_inv_def rt_ringbuffer_init_def rb_contents_def rt_ringbuffer_data_len_def
        rt_ringbuffer_status_def rt_ringbuffer_space_len_def)
qed

lemma rb_reset_empty:
  "rb_inv rb \<Longrightarrow> rb_inv (rt_ringbuffer_reset rb) \<and> rb_contents (rt_ringbuffer_reset rb) = []"
  by (auto simp: rb_inv_def rt_ringbuffer_reset_def rb_contents_def rt_ringbuffer_data_len_def
      rt_ringbuffer_status_def)

section \<open>Properties\<close>

text \<open>C19: over any sequence of block puts and gets that starts from a well-formed
  ring buffer, the bytes delivered followed by the bytes still stored are
  exactly the bytes stored at the start followed by the bytes the puts
  accepted: nothing is lost, duplicated or reordered, across every wrap of the
  indices, and the ring stays well formed.\<close>

theorem ringbuffer_fifo_runs:
  assumes "rb_inv rb"
  shows "case rb_run ops rb of (accepted, delivered, rb') \<Rightarrow>
    rb_inv rb' \<and> buffer_size rb' = buffer_size rb \<and>
    rb_contents rb @ accepted = delivered @ rb_contents rb'"
  unfolding rb_run_def by (rule rb.run_fifo[OF assms])

theorem ringbuffer_fifo_runs_witness:
  "rb_inv (rt_ringbuffer_init [0,0,0,0,0,0,0,0] 8) \<and>
   (case rb_run [Inl [1,2,3,4,5,6], Inr 4, Inl [7,8,9,10]] (rt_ringbuffer_init [0,0,0,0,0,0,0,0] 8) of
      (accepted, delivered, rb') \<Rightarrow>
        rb_inv rb' \<and> buffer_size rb' = 8 \<and> accepted = delivered @ rb_contents rb')"
proof -
  let ?rb = "rt_ringbuffer_init [0,0,0,0,0,0,0,0] 8"
  have i: "rb_inv ?rb" and e: "rb_contents ?rb = []" and s: "buffer_size ?rb = 8"
    using init_inv[of 8 "[0,0,0,0,0,0,0,0]"] by (auto simp: rt_ringbuffer_init_def)
  show ?thesis
    using ringbuffer_fifo_runs[OF i, of "[Inl [1,2,3,4,5,6], Inr 4, Inl [7,8,9,10]]"] i e s
    by (auto split: prod.splits)
qed

text \<open>\<open>rt_ringbuffer_put_force\<close> stores the newest bytes: afterwards the
  ring holds the last \<open>buffer_size\<close> bytes of its old content followed by the
  written block, whatever the positions and mirror bits were; the answer is the
  number of bytes written.\<close>

theorem ringbuffer_put_force_keeps_newest:
  assumes "rb_inv rb" and "len \<le> length ptr"
  shows "case rt_ringbuffer_put_force rb ptr len of (k, rb') \<Rightarrow>
    rb_inv rb' \<and> k = min len (buffer_size rb) \<and>
    rb_contents rb' =
      drop (rt_ringbuffer_data_len rb + len - buffer_size rb) (rb_contents rb @ take len ptr)"
proof -
  define xs where "xs = drop (len - buffer_size rb) (take len ptr)"
  have n: "length xs = min len (buffer_size rb)" using assms(2) by (simp add: xs_def min_def)
  note d = data_len_le[OF assms(1)]
  have eq: "rt_ringbuffer_put_force rb ptr len =
      (length xs, if length xs > rt_ringbuffer_space_len rb then rb_overwrite rb xs
                  else rb_append rb xs)"
    using put_force_eq[OF assms] by (simp add: Let_def xs_def)
  show ?thesis
  proof (cases "length xs > rt_ringbuffer_space_len rb")
    case True
    have le: "length xs \<le> buffer_size rb" using n by simp
    show ?thesis
      using overwrite_inv(1)[OF assms(1) le] overwrite_contents[OF assms(1) le True] n d eq True assms(2)
      by (auto simp: xs_def min_def rt_ringbuffer_space_len_def split: if_splits)
  next
    case False
    then have l: "length xs \<le> rt_ringbuffer_space_len rb" by simp
    show ?thesis
      using rb_append_inv(1)[OF assms(1) l] rb_append_contents[OF assms(1) l] eq False n d assms(2)
      by (auto simp: rb_contents_Nil_iff xs_def min_def rt_ringbuffer_space_len_def split: if_splits)
  qed
qed

theorem ringbuffer_put_force_keeps_newest_witness:
  "case rt_ringbuffer_put_force (rt_ringbuffer_init [0,0,0,0,0,0,0,0] 8) [1,2,3,4,5,6,7,8,9,10] 10
   of (k, rb') \<Rightarrow> rb_inv rb' \<and> k = 8 \<and> rb_contents rb' = [3,4,5,6,7,8,9,10]"
  using ringbuffer_put_force_keeps_newest
      [of "rt_ringbuffer_init [0,0,0,0,0,0,0,0] 8" 10 "[1,2,3,4,5,6,7,8,9,10]"]
    init_inv[of 8 "[0,0,0,0,0,0,0,0]"]
  by (auto simp: rt_ringbuffer_init_def rt_ringbuffer_data_len_def rt_ringbuffer_status_def)

text \<open>The byte operations agree with the block operations on one byte: a
  \<open>putchar\<close> is a \<open>put\<close> of length 1, \<open>putchar_force\<close> a \<open>put_force\<close> of length 1,
  \<open>getchar\<close> a \<open>get\<close> of length 1 that answers \<open>None\<close> (result 0) exactly when
  the ring is empty, and \<open>peek\<close> consumes the contiguous prefix that starts at the
  offset it hands out.\<close>

theorem ringbuffer_byte_operations:
  assumes "rb_inv rb"
  shows "rt_ringbuffer_putchar rb ch = rt_ringbuffer_put rb [ch] 1
    \<and> rt_ringbuffer_putchar_force rb ch = rt_ringbuffer_put_force rb [ch] 1
    \<and> (case rt_ringbuffer_getchar rb of (r, rb') \<Rightarrow>
         rb' = snd (rt_ringbuffer_get rb 1) \<and>
         rb_contents rb = (case r of None \<Rightarrow> [] | Some c \<Rightarrow> c # rb_contents rb'))
    \<and> (case rt_ringbuffer_peek rb of (k, p, rb') \<Rightarrow>
         rb_inv rb' \<and> rb_contents rb' = drop k (rb_contents rb) \<and>
         (p = None \<longleftrightarrow> rb_contents rb = []) \<and>
         (\<forall>off. p = Some off \<longrightarrow> take k (drop off (buffer_ptr rb)) = take k (rb_contents rb)))"
proof -
  have g: "case rt_ringbuffer_getchar rb of (r, rb') \<Rightarrow>
         rb' = snd (rt_ringbuffer_get rb 1) \<and>
         rb_contents rb = (case r of None \<Rightarrow> [] | Some c \<Rightarrow> c # rb_contents rb')"
    using rb.get_result[OF assms, of 1] rb.get_contents[OF assms, of 1]
    by (cases "rb_contents rb") (auto simp: getchar_eq_get[OF assms] split: prod.splits)
  define n where "n = min (rt_ringbuffer_data_len rb) (buffer_size rb - read_index rb)"
  have nle: "n \<le> rt_ringbuffer_data_len rb" by (simp add: n_def)
  have b: "n \<le> buffer_size rb" "buffer_size rb \<le> length (buffer_ptr rb)" "read_index rb < buffer_size rb"
    using assms by (auto simp: n_def rb_inv_def)
  have "take n (rb_contents rb) = take n (drop (read_index rb) (buffer_ptr rb))"
    using ring_read[OF b] nle
    by (auto simp: take_rb_contents n_def min_def split: if_splits)
  moreover have "n = 0 \<longleftrightarrow> rb_contents rb = []" using b by (auto simp: n_def rb_contents_def)
  ultimately show ?thesis
    using g rb_drop_inv(1)[OF assms nle] rb_drop_contents[OF assms nle]
    by (auto simp: putchar_eq_put[OF assms] putchar_force_eq[OF assms] peek_eq_drop[OF assms]
        Let_def n_def)
qed

theorem ringbuffer_byte_operations_witness:
  "rt_ringbuffer_putchar (rt_ringbuffer_init [0,0,0,0,0,0,0,0] 8) 7 =
   rt_ringbuffer_put (rt_ringbuffer_init [0,0,0,0,0,0,0,0] 8) [7] 1"
  using ringbuffer_byte_operations[of "rt_ringbuffer_init [0,0,0,0,0,0,0,0] 8" 7]
    init_inv[of 8 "[0,0,0,0,0,0,0,0]"] by simp

end
