(* ===== verification/RingBlk.thy ===== *)
theory RingBlk
  imports Prelude
begin

text \<open>
  The ring block buffer (\<open>rt-thread/components/drivers/ipc/ringblk_buf.c\<close>): blocks of varying size
  that are allocated in ring order from one buffer, filled, taken in order and released in any order.
  A block descriptor is known by its position in the block set. The singly linked lists are
  lists of descriptors (their operations on pointers are those of \<open>RtSList\<close>); the pointer to the last node of the
  block list is \<open>None\<close> when it points to the list head. Addresses and sizes are natural numbers,
  differences of addresses wrap around at 32 bits as in the code, and the size of a block is a 24-bit field.
\<close>

section \<open>Data\<close>

type_synonym blk_id = nat

datatype rt_rbb_status = RT_RBB_BLK_UNUSED | RT_RBB_BLK_INITED | RT_RBB_BLK_PUT | RT_RBB_BLK_GET

record rt_rbb_blk =
  blk_status :: rt_rbb_status
  blk_size :: nat
  blk_buf :: nat

record rt_rbb_blk_queue =
  blocks :: blk_id
  blk_num :: nat

record rt_rbb =
  rbb_buf :: nat
  buf_size :: nat
  blk_set :: "blk_id \<Rightarrow> rt_rbb_blk"
  blk_max_num :: nat
  blk_list :: "blk_id list"
  rbb_tail :: "blk_id option"
  free_list :: "blk_id list"

abbreviation size24 :: "nat \<Rightarrow> nat" where "size24 n \<equiv> n mod 2 ^ 24"

definition sub32 :: "nat \<Rightarrow> nat \<Rightarrow> nat" where
  "sub32 a b = (a + 2 ^ 32 - b) mod 2 ^ 32"

definition upd_blk :: "blk_id \<Rightarrow> (rt_rbb_blk \<Rightarrow> rt_rbb_blk) \<Rightarrow> rt_rbb \<Rightarrow> rt_rbb" where
  "upd_blk b f r = r\<lparr> blk_set := (blk_set r)(b := f (blk_set r b)) \<rparr>"

section \<open>Operations\<close>

definition init_blk :: "blk_id \<Rightarrow> rt_rbb \<Rightarrow> rt_rbb" where
  "init_blk i r =
    (let r = upd_blk i (\<lambda>b. b\<lparr> blk_status := RT_RBB_BLK_UNUSED \<rparr>) r in r\<lparr> free_list := i # free_list r \<rparr>)"

definition rt_rbb_init :: "nat \<Rightarrow> nat \<Rightarrow> (blk_id \<Rightarrow> rt_rbb_blk) \<Rightarrow> nat \<Rightarrow> rt_rbb" where
  "rt_rbb_init buf bsize block_set n =
    fold init_blk [0..<n]
      \<lparr> rbb_buf = buf, buf_size = bsize, blk_set = block_set, blk_max_num = n,
        blk_list = [], rbb_tail = None, free_list = [] \<rparr>"

text \<open>\<open>rbb\<close>, \<open>buf\<close> and \<open>set\<close> are what the three allocations return; the second result is what is given back.\<close>

definition rt_rbb_create ::
  "nat option \<Rightarrow> nat option \<Rightarrow> (nat \<times> (blk_id \<Rightarrow> rt_rbb_blk)) option \<Rightarrow> nat \<Rightarrow> nat \<Rightarrow> rt_rbb option \<times> nat list" where
  "rt_rbb_create rbb buf bset bsize n =
    (case rbb of None \<Rightarrow> (None, [])
     | Some r \<Rightarrow> (case buf of None \<Rightarrow> (None, [r])
       | Some b \<Rightarrow> (case bset of None \<Rightarrow> (None, [b, r])
         | Some (a, bs) \<Rightarrow> (Some (rt_rbb_init b bsize bs n), []))))"

text \<open>What is given back: the buffer, the block set at \<open>a\<close> and the object itself at \<open>rbb\<close>.\<close>

definition rt_rbb_destroy :: "nat \<Rightarrow> nat \<Rightarrow> rt_rbb \<Rightarrow> nat list" where
  "rt_rbb_destroy rbb a r = [rbb_buf r, a, rbb]"

definition find_empty_blk_in_set :: "rt_rbb \<Rightarrow> blk_id option \<times> rt_rbb" where
  "find_empty_blk_in_set r =
    (case free_list r of [] \<Rightarrow> (None, r) | b # bs \<Rightarrow> (Some b, r\<lparr> free_list := bs \<rparr>))"

text \<open>The node goes behind the tail node, and what followed that one is dropped.\<close>

definition list_append :: "blk_id \<Rightarrow> rt_rbb \<Rightarrow> rt_rbb" where
  "list_append b r =
    r\<lparr> blk_list := (case rbb_tail r of None \<Rightarrow> [] | Some t \<Rightarrow> takeWhile (\<lambda>x. x \<noteq> t) (blk_list r) @ [t]) @ [b],
       rbb_tail := Some b \<rparr>"

text \<open>The node in front of \<open>b\<close>, \<open>None\<close> for the head of the list.\<close>

definition prev_node :: "blk_id \<Rightarrow> blk_id list \<Rightarrow> blk_id option" where
  "prev_node b bs = (case takeWhile (\<lambda>x. x \<noteq> b) bs of [] \<Rightarrow> None | xs \<Rightarrow> Some (last xs))"

definition list_remove :: "blk_id \<Rightarrow> rt_rbb \<Rightarrow> rt_rbb" where
  "list_remove b r =
    (if b \<in> set (blk_list r) then
       r\<lparr> blk_list := remove1 b (blk_list r),
          rbb_tail := (if rbb_tail r = Some b then prev_node b (blk_list r) else rbb_tail r) \<rparr>
     else r)"

definition place_blk :: "blk_id \<Rightarrow> nat \<Rightarrow> nat \<Rightarrow> rt_rbb \<Rightarrow> blk_id option \<times> rt_rbb" where
  "place_blk b buf n r =
    (let r = list_append b r
     in (Some b, upd_blk b (\<lambda>x. x\<lparr> blk_status := RT_RBB_BLK_INITED, blk_buf := buf, blk_size := size24 n \<rparr>) r))"

definition rt_rbb_blk_alloc :: "nat \<Rightarrow> rt_rbb \<Rightarrow> blk_id option \<times> rt_rbb" where
  "rt_rbb_blk_alloc n r =
    (case find_empty_blk_in_set r of (None, r) \<Rightarrow> (None, r)
     | (Some b, r) \<Rightarrow>
        (case blk_list r of [] \<Rightarrow> place_blk b (rbb_buf r) n r
         | h # _ \<Rightarrow>
            let head = blk_set r h;
                tail = blk_set r (the (rbb_tail r))
            in if blk_buf head \<le> blk_buf tail then
                 let empty1 = sub32 (rbb_buf r + buf_size r) (blk_buf tail + blk_size tail);
                     empty2 = sub32 (blk_buf head) (rbb_buf r)
                 in if empty1 \<ge> n then place_blk b (blk_buf tail + blk_size tail) n r
                    else if empty2 \<ge> n then place_blk b (rbb_buf r) n r
                    else (None, r)
               else
                 let empty1 = sub32 (blk_buf head) (blk_buf tail + blk_size tail)
                 in if empty1 \<ge> n then place_blk b (blk_buf tail + blk_size tail) n r
                    else (None, r)))"

definition rt_rbb_blk_put :: "blk_id \<Rightarrow> rt_rbb \<Rightarrow> rt_rbb" where
  "rt_rbb_blk_put b r = upd_blk b (\<lambda>x. x\<lparr> blk_status := RT_RBB_BLK_PUT \<rparr>) r"

definition rt_rbb_blk_get :: "rt_rbb \<Rightarrow> blk_id option \<times> rt_rbb" where
  "rt_rbb_blk_get r =
    (case find (\<lambda>b. blk_status (blk_set r b) = RT_RBB_BLK_PUT) (blk_list r) of
       None \<Rightarrow> (None, r)
     | Some b \<Rightarrow> (Some b, upd_blk b (\<lambda>x. x\<lparr> blk_status := RT_RBB_BLK_GET \<rparr>) r))"

definition rt_rbb_blk_size :: "blk_id \<Rightarrow> rt_rbb \<Rightarrow> nat" where
  "rt_rbb_blk_size b r = blk_size (blk_set r b)"

definition rt_rbb_blk_buf :: "blk_id \<Rightarrow> rt_rbb \<Rightarrow> nat" where
  "rt_rbb_blk_buf b r = blk_buf (blk_set r b)"

definition rt_rbb_blk_free :: "blk_id \<Rightarrow> rt_rbb \<Rightarrow> rt_rbb" where
  "rt_rbb_blk_free b r =
    (let r = list_remove b r;
         r = upd_blk b (\<lambda>x. x\<lparr> blk_status := RT_RBB_BLK_UNUSED \<rparr>) r
     in r\<lparr> free_list := b # free_list r \<rparr>)"

text \<open>The loop of \<open>rt_rbb_blk_queue_get\<close> over the nodes that are left, once a first block was taken.
  The answer is the total size and the number of blocks. Behind the last node the code reads the successor of
  the null pointer, a value that it does not use; here the loop ends there.\<close>

fun queue_more :: "nat \<Rightarrow> blk_id \<Rightarrow> nat \<Rightarrow> nat \<Rightarrow> blk_id list \<Rightarrow> rt_rbb \<Rightarrow> nat \<times> nat \<times> rt_rbb" where
  "queue_more len last_block data_total_size num [] r = (data_total_size, num, r)"
| "queue_more len last_block data_total_size num (b # bs) r =
    (if blk_status (blk_set r b) \<noteq> RT_RBB_BLK_PUT \<or> blk_buf (blk_set r last_block) > blk_buf (blk_set r b)
        \<or> data_total_size + blk_size (blk_set r b) > len
     then (data_total_size, num, r)
     else queue_more len b (data_total_size + blk_size (blk_set r b)) (num + 1) bs
            (upd_blk b (\<lambda>x. x\<lparr> blk_status := RT_RBB_BLK_GET \<rparr>) r))"

fun queue_first :: "nat \<Rightarrow> rt_rbb_blk_queue \<Rightarrow> blk_id list \<Rightarrow> rt_rbb \<Rightarrow> nat \<times> rt_rbb_blk_queue \<times> rt_rbb" where
  "queue_first len q [] r = (0, q, r)"
| "queue_first len q (b # bs) r =
    (if blk_status (blk_set r b) = RT_RBB_BLK_PUT then
       (case queue_more len b (blk_size (blk_set r b)) 1 bs (upd_blk b (\<lambda>x. x\<lparr> blk_status := RT_RBB_BLK_GET \<rparr>) r) of
          (data_total_size, num, r) \<Rightarrow> (data_total_size, \<lparr> blocks = b, blk_num = num \<rparr>, r))
     else queue_first len q bs r)"

definition rt_rbb_blk_queue_get :: "nat \<Rightarrow> rt_rbb_blk_queue \<Rightarrow> rt_rbb \<Rightarrow> nat \<times> rt_rbb_blk_queue \<times> rt_rbb" where
  "rt_rbb_blk_queue_get len q r = queue_first len q (blk_list r) r"

text \<open>The node behind \<open>b\<close>; \<open>None\<close> for the null pointer.\<close>

definition next_node :: "blk_id \<Rightarrow> blk_id list \<Rightarrow> blk_id option" where
  "next_node b bs = (case dropWhile (\<lambda>x. x \<noteq> b) bs of _ # x # _ \<Rightarrow> Some x | _ \<Rightarrow> None)"

text \<open>Following the list from a block; \<open>None\<close> when the null pointer would be followed.\<close>

fun queue_len_loop :: "nat \<Rightarrow> blk_id option \<Rightarrow> rt_rbb \<Rightarrow> nat option" where
  "queue_len_loop 0 b r = Some 0"
| "queue_len_loop (Suc n) None r = None"
| "queue_len_loop (Suc n) (Some b) r =
    map_option (\<lambda>k. blk_size (blk_set r b) + k) (queue_len_loop n (next_node b (blk_list r)) r)"

definition rt_rbb_blk_queue_len :: "rt_rbb_blk_queue \<Rightarrow> rt_rbb \<Rightarrow> nat option" where
  "rt_rbb_blk_queue_len q r = queue_len_loop (blk_num q) (Some (blocks q)) r"

definition rt_rbb_blk_queue_buf :: "rt_rbb_blk_queue \<Rightarrow> rt_rbb \<Rightarrow> nat" where
  "rt_rbb_blk_queue_buf q r = blk_buf (blk_set r (blocks q))"

fun queue_free_loop :: "nat \<Rightarrow> blk_id option \<Rightarrow> rt_rbb \<Rightarrow> rt_rbb option" where
  "queue_free_loop 0 b r = Some r"
| "queue_free_loop (Suc n) None r = None"
| "queue_free_loop (Suc n) (Some b) r = queue_free_loop n (next_node b (blk_list r)) (rt_rbb_blk_free b r)"

definition rt_rbb_blk_queue_free :: "rt_rbb_blk_queue \<Rightarrow> rt_rbb \<Rightarrow> rt_rbb option" where
  "rt_rbb_blk_queue_free q r = queue_free_loop (blk_num q) (Some (blocks q)) r"

fun next_more :: "blk_id \<Rightarrow> blk_id list \<Rightarrow> rt_rbb \<Rightarrow> nat" where
  "next_more last_block [] r = 0"
| "next_more last_block (b # bs) r =
    (if blk_status (blk_set r b) \<noteq> RT_RBB_BLK_PUT \<or> blk_buf (blk_set r last_block) > blk_buf (blk_set r b) then 0
     else blk_size (blk_set r b) + next_more b bs r)"

fun next_first :: "blk_id list \<Rightarrow> rt_rbb \<Rightarrow> nat" where
  "next_first [] r = 0"
| "next_first (b # bs) r =
    (if blk_status (blk_set r b) = RT_RBB_BLK_PUT then blk_size (blk_set r b) + next_more b bs r else next_first bs r)"

definition rt_rbb_next_blk_queue_len :: "rt_rbb \<Rightarrow> nat" where
  "rt_rbb_next_blk_queue_len r = next_first (blk_list r) r"

definition rt_rbb_get_buf_size :: "rt_rbb \<Rightarrow> nat" where
  "rt_rbb_get_buf_size r = buf_size r"

section \<open>The invariant\<close>

abbreviation bufp :: "rt_rbb \<Rightarrow> blk_id \<Rightarrow> nat" where "bufp r b \<equiv> blk_buf (blk_set r b)"

definition endp :: "rt_rbb \<Rightarrow> blk_id \<Rightarrow> nat" where "endp r b = bufp r b + blk_size (blk_set r b)"

text \<open>Blocks at rising addresses without overlap; the block list is one such run, or one behind
  which a second one starts again below it.\<close>

definition rising :: "rt_rbb \<Rightarrow> blk_id list \<Rightarrow> bool" where
  "rising r bs \<longleftrightarrow> sorted_wrt (\<lambda>x y. endp r x \<le> bufp r y) bs"

definition ring_layout :: "rt_rbb \<Rightarrow> blk_id list \<Rightarrow> bool" where
  "ring_layout r bs \<longleftrightarrow> (\<exists>A B. bs = A @ B \<and> rising r A \<and> rising r B \<and> (\<forall>b\<in>set B. \<forall>a\<in>set A. endp r b \<le> bufp r a))"

definition inside :: "rt_rbb \<Rightarrow> blk_id \<Rightarrow> bool" where
  "inside r b \<longleftrightarrow> rbb_buf r \<le> bufp r b \<and> endp r b \<le> rbb_buf r + buf_size r \<and> 0 < blk_size (blk_set r b)"

definition lists_ok :: "rt_rbb \<Rightarrow> bool" where
  "lists_ok r \<longleftrightarrow> distinct (blk_list r @ free_list r) \<and> set (blk_list r @ free_list r) \<subseteq> {..<blk_max_num r}
    \<and> rbb_tail r = (if blk_list r = [] then None else Some (last (blk_list r)))
    \<and> (\<forall>b\<in>set (blk_list r). blk_status (blk_set r b) \<noteq> RT_RBB_BLK_UNUSED)
    \<and> (\<forall>b\<in>set (free_list r). blk_status (blk_set r b) = RT_RBB_BLK_UNUSED)"

definition rbb_inv :: "rt_rbb \<Rightarrow> bool" where
  "rbb_inv r \<longleftrightarrow> lists_ok r \<and> rbb_buf r + buf_size r < 2 ^ 32 \<and> (\<forall>b\<in>set (blk_list r). inside r b) \<and> ring_layout r (blk_list r)"

lemma sub32_eq:
  assumes "b \<le> a" "a < 2 ^ 32"
  shows "sub32 a b = a - b"
proof -
  have "a + 2 ^ 32 - b = a - b + 2 ^ 32" using assms by simp
  then show ?thesis using assms by (metis diff_le_self le_less_trans mod_add_self2 mod_less sub32_def)
qed

lemma upd_blk_simps [simp]:
  "blk_list (upd_blk b f r) = blk_list r" "free_list (upd_blk b f r) = free_list r" "rbb_tail (upd_blk b f r) = rbb_tail r"
  "rbb_buf (upd_blk b f r) = rbb_buf r" "buf_size (upd_blk b f r) = buf_size r" "blk_max_num (upd_blk b f r) = blk_max_num r"
  "blk_set (upd_blk b f r) = (blk_set r)(b := f (blk_set r b))"
  by (simp_all add: upd_blk_def)

text \<open>The layout depends only on where the listed blocks are.\<close>

lemma layout_cong:
  assumes "\<And>b. b \<in> set bs \<Longrightarrow> bufp r b = bufp r' b \<and> blk_size (blk_set r b) = blk_size (blk_set r' b)"
  shows "rising r bs = rising r' bs" and "ring_layout r bs = ring_layout r' bs"
proof -
  have rise: "rising r xs = rising r' xs" if "set xs \<subseteq> set bs" for xs
    unfolding rising_def using assms that by (auto simp: endp_def sorted_wrt_iff_nth_less subset_iff)
  then show "rising r bs = rising r' bs" by simp
  have "(rising r A \<and> rising r B \<and> (\<forall>b\<in>set B. \<forall>a\<in>set A. endp r b \<le> bufp r a))
      = (rising r' A \<and> rising r' B \<and> (\<forall>b\<in>set B. \<forall>a\<in>set A. endp r' b \<le> bufp r' a))" if "bs = A @ B" for A B
    using assms that rise[of A] rise[of B] by (auto simp: endp_def)
  note eq = this
  show "ring_layout r bs = ring_layout r' bs"
    unfolding ring_layout_def by (intro ex_cong1, rule conj_cong[OF refl], rule eq)
qed

lemma layout_filter: "ring_layout r bs \<Longrightarrow> ring_layout r (filter P bs)"
  unfolding ring_layout_def rising_def
  by (elim exE conjE, rule_tac x = "filter P A" in exI, rule_tac x = "filter P B" in exI) (auto intro: sorted_wrt_filter)

text \<open>Two blocks of a layout do not overlap.\<close>

lemma layout_disjoint:
  assumes "ring_layout r bs" "i < j" "j < length bs"
  shows "endp r (bs ! i) \<le> bufp r (bs ! j) \<or> endp r (bs ! j) \<le> bufp r (bs ! i)"
proof -
  obtain A B where l: "bs = A @ B" "rising r A" "rising r B" "\<forall>b\<in>set B. \<forall>a\<in>set A. endp r b \<le> bufp r a"
    using assms(1) by (auto simp: ring_layout_def)
  consider "j < length A" | "i < length A" "length A \<le> j" | "length A \<le> i" using assms by linarith
  then show ?thesis
  proof cases
    case 1
    then show ?thesis using l assms by (auto simp: rising_def nth_append sorted_wrt_iff_nth_less)
  next
    case 2
    then show ?thesis using l assms by (auto simp: nth_append)
  next
    case 3
    then have "rising r B" "i - length A < j - length A" "j - length A < length B" using l assms by auto
    then show ?thesis using 3 l assms by (auto simp: rising_def nth_append sorted_wrt_iff_nth_less)
  qed
qed

section \<open>Preservation\<close>

lemma init_fields:
  "free_list (fold init_blk xs r) = rev xs @ free_list r"
  "blk_list (fold init_blk xs r) = blk_list r" "rbb_tail (fold init_blk xs r) = rbb_tail r"
  "rbb_buf (fold init_blk xs r) = rbb_buf r" "buf_size (fold init_blk xs r) = buf_size r"
  "blk_max_num (fold init_blk xs r) = blk_max_num r"
  "blk_status (blk_set (fold init_blk xs r) b) = (if b \<in> set xs then RT_RBB_BLK_UNUSED else blk_status (blk_set r b))"
  by (induction xs arbitrary: r) (auto simp: init_blk_def Let_def)

lemma rbb_init_inv: "buf + bsize < 2 ^ 32 \<Longrightarrow> rbb_inv (rt_rbb_init buf bsize bs n)"
  unfolding rt_rbb_init_def rbb_inv_def lists_ok_def
  by (auto simp: init_fields ring_layout_def rising_def)

text \<open>A change of status alone.\<close>

lemma status_inv:
  assumes "rbb_inv r" "b \<in> set (blk_list r)" "st \<noteq> RT_RBB_BLK_UNUSED"
  shows "rbb_inv (upd_blk b (\<lambda>x. x\<lparr> blk_status := st \<rparr>) r)"
proof -
  let ?r = "upd_blk b (\<lambda>x. x\<lparr> blk_status := st \<rparr>) r"
  have "ring_layout ?r (blk_list r) = ring_layout r (blk_list r)" by (rule layout_cong) simp
  moreover have "inside ?r x = inside r x" for x by (simp add: inside_def endp_def)
  moreover have "lists_ok ?r" using assms by (auto simp: rbb_inv_def lists_ok_def)
  ultimately show ?thesis using assms by (simp add: rbb_inv_def)
qed

lemma put_inv: "rbb_inv r \<Longrightarrow> b \<in> set (blk_list r) \<Longrightarrow> rbb_inv (rt_rbb_blk_put b r)"
  by (simp add: rt_rbb_blk_put_def status_inv)

lemma get_inv: "rbb_inv r \<Longrightarrow> rbb_inv (snd (rt_rbb_blk_get r))"
  by (auto simp: rt_rbb_blk_get_def find_Some_iff intro!: status_inv split: option.splits)

lemma queue_more_inv:
  "rbb_inv r \<Longrightarrow> set bs \<subseteq> set (blk_list r) \<Longrightarrow> queue_more len lb tot num bs r = (tot', num', r') \<Longrightarrow>
    rbb_inv r' \<and> blk_list r' = blk_list r"
  by (induction len lb tot num bs r rule: queue_more.induct) (auto intro: status_inv split: if_splits)

lemma queue_first_inv:
  "rbb_inv r \<Longrightarrow> set bs \<subseteq> set (blk_list r) \<Longrightarrow> queue_first len q bs r = (tot', q', r') \<Longrightarrow> rbb_inv r'"
proof (induction len q bs r rule: queue_first.induct)
  case (2 len q b bs r)
  then show ?case
    by (auto split: if_splits prod.splits dest!: queue_more_inv[rotated 2] intro: status_inv)
qed simp

lemma queue_get_inv: "rbb_inv r \<Longrightarrow> rbb_inv (snd (snd (rt_rbb_blk_queue_get len q r)))"
  unfolding rt_rbb_blk_queue_get_def by (metis order_refl prod.collapse queue_first_inv)

text \<open>Releasing.\<close>

lemma remove1_tail:
  assumes "distinct bs" "b \<in> set bs" "t = (if bs = [] then None else Some (last bs))"
  shows "(if t = Some b then prev_node b bs else t) = (if remove1 b bs = [] then None else Some (last (remove1 b bs)))"
proof (cases "last bs = b")
  case True
  then obtain xs where bs: "bs = xs @ [b]" using assms by (metis append_butlast_last_id empty_iff empty_set)
  then have "b \<notin> set xs" using assms by auto
  then have "takeWhile (\<lambda>x. x \<noteq> b) bs = xs" "remove1 b bs = xs"
    using bs by (auto simp: takeWhile_tail remove1_append takeWhile_append2 takeWhile_eq_all_conv)
  then show ?thesis using assms bs by (auto simp: prev_node_def split: list.splits)
next
  case False
  then obtain xs l where bs: "bs = xs @ [l]" "l \<noteq> b" "b \<in> set xs"
    using assms by (metis append_butlast_last_id empty_iff empty_set butlast_snoc in_set_butlastD last_snoc set_ConsD Un_iff set_append)
  then show ?thesis using assms by (auto simp: remove1_append)
qed

lemma free_inv:
  assumes i: "rbb_inv r" and b: "b \<in> set (blk_list r)"
  shows "rbb_inv (rt_rbb_blk_free b r)" and "blk_list (rt_rbb_blk_free b r) = remove1 b (blk_list r)"
    and "free_list (rt_rbb_blk_free b r) = b # free_list r"
proof -
  let ?r = "rt_rbb_blk_free b r"
  have l: "lists_ok r" using i by (simp add: rbb_inv_def)
  then have d: "distinct (blk_list r)" by (simp add: lists_ok_def)
  show bl: "blk_list ?r = remove1 b (blk_list r)" and fl: "free_list ?r = b # free_list r"
    using b by (simp_all add: rt_rbb_blk_free_def list_remove_def Let_def)
  have f: "remove1 b (blk_list r) = filter (\<lambda>x. b \<noteq> x) (blk_list r)"
    using d by (simp add: distinct_remove1_removeAll removeAll_filter_not_eq)
  have t: "rbb_tail ?r = (if blk_list ?r = [] then None else Some (last (blk_list ?r)))"
    using remove1_tail[OF d b, of "rbb_tail r"] l b
    by (simp add: bl rt_rbb_blk_free_def list_remove_def Let_def lists_ok_def)
  have s: "blk_set ?r x = (if x = b then (blk_set r b)\<lparr> blk_status := RT_RBB_BLK_UNUSED \<rparr> else blk_set r x)" for x
    using b by (simp add: rt_rbb_blk_free_def list_remove_def Let_def)
  have m: "blk_max_num ?r = blk_max_num r" "rbb_buf ?r = rbb_buf r" "buf_size ?r = buf_size r"
    using b by (simp_all add: rt_rbb_blk_free_def list_remove_def Let_def)
  have "lists_ok ?r" using l t b by (auto simp: lists_ok_def bl fl f s m)
  moreover have "inside ?r x = inside r x" for x by (simp add: inside_def endp_def s m)
  moreover have "ring_layout ?r (blk_list ?r) = ring_layout r (blk_list ?r)" by (rule layout_cong) (simp add: s)
  moreover have "ring_layout r (blk_list ?r)" using i by (simp add: bl f layout_filter rbb_inv_def)
  ultimately show "rbb_inv ?r" using i by (auto simp: rbb_inv_def bl f m)
qed

lemma next_node_in: "next_node b bs = Some x \<Longrightarrow> distinct bs \<Longrightarrow> x \<in> set bs \<and> x \<noteq> b"
proof -
  assume n: "next_node b bs = Some x" and d: "distinct bs"
  then obtain z zs where "dropWhile (\<lambda>x. x \<noteq> b) bs = z # x # zs" by (auto simp: next_node_def split: list.splits)
  then obtain ys where "bs = ys @ b # x # zs"
    by (metis (mono_tags, lifting) append.assoc dropWhile_eq_Cons_conv takeWhile_dropWhile_id)
  then show ?thesis using d by auto
qed

lemma queue_free_inv:
  "rbb_inv r \<Longrightarrow> (\<And>x. b = Some x \<Longrightarrow> x \<in> set (blk_list r)) \<Longrightarrow> queue_free_loop n b r = Some r' \<Longrightarrow> rbb_inv r'"
proof (induction n b r rule: queue_free_loop.induct)
  case (3 n b r)
  have b: "b \<in> set (blk_list r)" using 3 by simp
  have d: "distinct (blk_list r)" using 3 by (simp add: rbb_inv_def lists_ok_def)
  show ?case
    by (rule 3(1)) (use 3 b d in \<open>auto simp: free_inv dest: next_node_in\<close>)
qed auto

text \<open>Allocating. Where a run of rising blocks ends, all of it ends.\<close>

lemma rising_append: "rising r (bs @ [b]) \<longleftrightarrow> rising r bs \<and> (\<forall>x\<in>set bs. endp r x \<le> bufp r b)"
  by (auto simp: rising_def sorted_wrt_append)

lemma rising_end:
  assumes "rising r bs" "x \<in> set bs"
  shows "endp r x \<le> endp r (last bs)" and "bufp r (hd bs) \<le> bufp r x"
proof -
  obtain i where i: "i < length bs" "x = bs ! i" using assms by (auto simp: in_set_conv_nth)
  have ne: "bs \<noteq> []" using assms by auto
  have sw: "endp r (bs ! i) \<le> bufp r (bs ! j)" if "i < j" "j < length bs" for i j
    using assms(1) that by (auto simp: rising_def sorted_wrt_iff_nth_less)
  have e: "bufp r y \<le> endp r y" for y by (simp add: endp_def)
  show "endp r x \<le> endp r (last bs)"
  proof (cases "i = length bs - 1")
    case True
    then show ?thesis using i ne by (simp add: last_conv_nth)
  next
    case False
    then have "i < length bs - 1" using i by linarith
    then show ?thesis using sw[of i "length bs - 1"] e[of "last bs"] i ne by (auto simp: last_conv_nth)
  qed
  show "bufp r (hd bs) \<le> bufp r x"
  proof (cases "i = 0")
    case True
    then show ?thesis using i ne by (simp add: hd_conv_nth)
  next
    case False
    then show ?thesis using sw[of 0 i] e[of "hd bs"] i ne by (auto simp: hd_conv_nth intro: order_trans)
  qed
qed

text \<open>Comparing the first with the last block tells the two shapes of the layout apart.\<close>

lemma layout_shape:
  assumes l: "ring_layout r bs" and ne: "bs \<noteq> []" and p: "\<forall>b\<in>set bs. 0 < blk_size (blk_set r b)"
  shows "bufp r (hd bs) \<le> bufp r (last bs) \<Longrightarrow> rising r bs"
    and "\<not> bufp r (hd bs) \<le> bufp r (last bs) \<Longrightarrow> \<exists>A B. bs = A @ B \<and> A \<noteq> [] \<and> B \<noteq> [] \<and> rising r A \<and> rising r B
      \<and> (\<forall>b\<in>set B. \<forall>a\<in>set A. endp r b \<le> bufp r a)"
proof -
  obtain A B where ab: "bs = A @ B" "rising r A" "rising r B" "\<forall>b\<in>set B. \<forall>a\<in>set A. endp r b \<le> bufp r a"
    using l by (auto simp: ring_layout_def)
  have up: "rising r bs \<Longrightarrow> bufp r (hd bs) \<le> bufp r (last bs)"
    using rising_end(2)[of r bs "last bs"] ne by simp
  have split: "\<not> bufp r (hd bs) \<le> bufp r (last bs)" if "A \<noteq> []" "B \<noteq> []"
  proof -
    have "hd bs \<in> set A" "last bs \<in> set B" using ab that by auto
    then have "endp r (last bs) \<le> bufp r (hd bs)" using ab(4) by blast
    moreover have "0 < blk_size (blk_set r (last bs))" using p ne by simp
    ultimately show ?thesis by (simp add: endp_def)
  qed
  show "bufp r (hd bs) \<le> bufp r (last bs) \<Longrightarrow> rising r bs" using split ab by (cases "A = []"; cases "B = []") auto
  show "\<exists>A B. bs = A @ B \<and> A \<noteq> [] \<and> B \<noteq> [] \<and> rising r A \<and> rising r B
      \<and> (\<forall>b\<in>set B. \<forall>a\<in>set A. endp r b \<le> bufp r a)" if "\<not> bufp r (hd bs) \<le> bufp r (last bs)"
    using ab that up by (cases "A = []"; cases "B = []") auto
qed

text \<open>Placing a fresh descriptor \<open>b\<close> behind the list.\<close>

lemma place_fields:
  assumes "lists_ok r" "place_blk b buf n r = (x, r')"
  shows "x = Some b" "blk_list r' = blk_list r @ [b]" "rbb_tail r' = Some b" "free_list r' = free_list r"
    "rbb_buf r' = rbb_buf r" "buf_size r' = buf_size r" "blk_max_num r' = blk_max_num r"
    "blk_set r' = (blk_set r)(b := \<lparr> blk_status = RT_RBB_BLK_INITED, blk_size = size24 n, blk_buf = buf \<rparr>)"
proof -
  have "takeWhile (\<lambda>x. x \<noteq> last (blk_list r)) (blk_list r) @ [last (blk_list r)] = blk_list r" if ne: "blk_list r \<noteq> []"
  proof -
    obtain xs l where "blk_list r = xs @ [l]" using ne by (cases "blk_list r" rule: rev_cases) auto
    moreover from this have "takeWhile (\<lambda>x. x \<noteq> l) xs = xs"
      using assms(1) by (auto simp: lists_ok_def takeWhile_eq_all_conv)
    ultimately show ?thesis by (simp add: takeWhile_tail takeWhile_append)
  qed
  then show "x = Some b" "blk_list r' = blk_list r @ [b]" "rbb_tail r' = Some b" "free_list r' = free_list r"
    "rbb_buf r' = rbb_buf r" "buf_size r' = buf_size r" "blk_max_num r' = blk_max_num r"
    "blk_set r' = (blk_set r)(b := \<lparr> blk_status = RT_RBB_BLK_INITED, blk_size = size24 n, blk_buf = buf \<rparr>)"
    using assms by (auto simp: place_blk_def list_append_def Let_def lists_ok_def)
qed

lemma place_inv:
  assumes i: "rbb_inv r" and pl: "place_blk b buf n r = (x, r')" and b: "b \<notin> set (blk_list r)" "b \<notin> set (free_list r)" "b < blk_max_num r"
    and n: "0 < n" "n < 2 ^ 24" and inb: "rbb_buf r \<le> buf" "buf + n \<le> rbb_buf r + buf_size r"
    and lay: "ring_layout r' (blk_list r @ [b])"
  shows "rbb_inv r'"
proof -
  have l: "lists_ok r" using i by (simp add: rbb_inv_def)
  note f = place_fields[OF l pl]
  have "lists_ok r'" using l b by (auto simp: lists_ok_def f)
  moreover have "inside r' c" if "c \<in> set (blk_list r')" for c
    using i that b n inb by (auto simp: rbb_inv_def inside_def endp_def f)
  moreover have "ring_layout r' (blk_list r')" using lay by (simp add: f)
  ultimately show ?thesis using i by (simp add: rbb_inv_def f)
qed

text \<open>The three places: behind a rising run, below it, and in the gap of a wrapped one.\<close>

lemma layout_behind:
  assumes "rising r' bs" "\<forall>x\<in>set bs. endp r' x \<le> bufp r' b"
  shows "ring_layout r' (bs @ [b])"
  unfolding ring_layout_def using assms
  by (intro exI[of _ "bs @ [b]"] exI[of _ "[]"]) (simp add: rising_append, simp add: rising_def)

lemma layout_below:
  assumes "rising r' bs" "\<forall>x\<in>set bs. endp r' b \<le> bufp r' x"
  shows "ring_layout r' (bs @ [b])"
  unfolding ring_layout_def using assms
  by (intro exI[of _ bs] exI[of _ "[b]"]) (simp add: rising_def)

lemma layout_gap:
  assumes "rising r' A" "rising r' B" "\<forall>b\<in>set B. \<forall>a\<in>set A. endp r' b \<le> bufp r' a"
    "\<forall>x\<in>set B. endp r' x \<le> bufp r' b" "\<forall>x\<in>set A. endp r' b \<le> bufp r' x"
  shows "ring_layout r' ((A @ B) @ [b])"
  unfolding ring_layout_def using assms
  by (intro exI[of _ A] exI[of _ "B @ [b]"]) (simp add: rising_append)

text \<open>Where the blocks are after placing.\<close>

lemma place_where:
  assumes "rbb_inv r" "place_blk b p n r = (x, r')" "b \<notin> set (blk_list r)" "n < 2 ^ 24"
  shows "c \<in> set (blk_list r) \<Longrightarrow> endp r' c = endp r c \<and> bufp r' c = bufp r c"
    and "set bs \<subseteq> set (blk_list r) \<Longrightarrow> rising r' bs = rising r bs"
    and "bufp r' b = p" and "endp r' b = p + n"
proof -
  have "lists_ok r" using assms by (simp add: rbb_inv_def)
  note f = place_fields[OF this assms(2)]
  show "c \<in> set (blk_list r) \<Longrightarrow> endp r' c = endp r c \<and> bufp r' c = bufp r c" using assms by (auto simp: f endp_def)
  show "set bs \<subseteq> set (blk_list r) \<Longrightarrow> rising r' bs = rising r bs"
    by (rule layout_cong(1)) (use assms in \<open>auto simp: f\<close>)
  show "bufp r' b = p" "endp r' b = p + n" using assms by (auto simp: f endp_def)
qed

text \<open>An allocation in a non-empty list.\<close>

lemma place_next:
  assumes i: "rbb_inv r" and pl: "place_blk b p n r = (x, r')"
    and b: "b \<notin> set (blk_list r)" "b \<notin> set (free_list r)" "b < blk_max_num r" and n: "0 < n" "n < 2 ^ 24"
    and ne: "blk_list r \<noteq> []"
    and cases: "bufp r (hd (blk_list r)) \<le> bufp r (last (blk_list r)) \<and> p = endp r (last (blk_list r)) \<and> p + n \<le> rbb_buf r + buf_size r
      \<or> bufp r (hd (blk_list r)) \<le> bufp r (last (blk_list r)) \<and> p = rbb_buf r \<and> p + n \<le> bufp r (hd (blk_list r))
      \<or> \<not> bufp r (hd (blk_list r)) \<le> bufp r (last (blk_list r)) \<and> p = endp r (last (blk_list r)) \<and> p + n \<le> bufp r (hd (blk_list r))"
  shows "rbb_inv r'"
proof -
  let ?bs = "blk_list r"
  note w = place_where[OF i pl b(1) n(2)]
  have ins: "inside r c" if "c \<in> set ?bs" for c using i that by (simp add: rbb_inv_def)
  have hl: "hd ?bs \<in> set ?bs" "last ?bs \<in> set ?bs" using ne by auto
  have e: "bufp r c \<le> endp r c" for c by (simp add: endp_def)
  have shape: "ring_layout r ?bs" "\<forall>b\<in>set ?bs. 0 < blk_size (blk_set r b)" using i by (auto simp: rbb_inv_def inside_def)
  note sh = layout_shape[OF shape(1) ne shape(2)]
  have inb: "rbb_buf r \<le> p" "p + n \<le> rbb_buf r + buf_size r"
    using cases ins[OF hl(1)] ins[OF hl(2)] e[of "hd ?bs"] e[of "last ?bs"] by (auto simp: inside_def)
  have lay: "ring_layout r' (?bs @ [b])"
  proof (cases "bufp r (hd ?bs) \<le> bufp r (last ?bs)")
    case True
    then have up: "rising r ?bs" by (rule sh)
    then have up': "rising r' ?bs" using w(2)[of ?bs] by simp
    consider "p = endp r (last ?bs)" | "p + n \<le> bufp r (hd ?bs)" using cases by blast
    then show ?thesis
    proof cases
      case 1
      then show ?thesis using layout_behind[OF up', of b] rising_end(1)[OF up] w by simp
    next
      case 2
      then show ?thesis using layout_below[OF up', of b] rising_end(2)[OF up] w by (force intro: order_trans)
    qed
  next
    case False
    then have p: "p = endp r (last ?bs)" "p + n \<le> bufp r (hd ?bs)" using cases by auto
    obtain A B where ab: "?bs = A @ B" "A \<noteq> []" "B \<noteq> []" "rising r A" "rising r B"
      "\<forall>b\<in>set B. \<forall>a\<in>set A. endp r b \<le> bufp r a" using sh(2)[OF False] by blast
    have lh: "last ?bs = last B" "hd ?bs = hd A" using ab by auto
    have A: "endp r' b \<le> bufp r' a" if "a \<in> set A" for a
      using rising_end(2)[OF ab(4) that] p(2)[unfolded lh] w(1)[of a] w(4) that by (simp add: ab(1))
    have B: "endp r' c \<le> bufp r' b" if "c \<in> set B" for c
      using rising_end(1)[OF ab(5) that] p(1)[unfolded lh] w(1)[of c] w(3) that by (simp add: ab(1))
    show ?thesis
      unfolding ab(1) by (rule layout_gap) (use w ab A B in auto)
  qed
  show ?thesis by (rule place_inv[OF i pl b n inb lay])
qed

lemma find_empty_inv:
  assumes "rbb_inv r" "find_empty_blk_in_set r = (Some b, q)"
  shows "rbb_inv q" "b \<notin> set (blk_list q)" "b \<notin> set (free_list q)" "b < blk_max_num q" "buf_size q = buf_size r"
proof -
  obtain fs where f: "free_list r = b # fs" and q: "q = r\<lparr> free_list := fs \<rparr>"
    using assms(2) by (auto simp: find_empty_blk_in_set_def split: list.splits)
  have eq: "rising q = rising r" "inside q = inside r" "ring_layout q = ring_layout r"
    by (auto simp: fun_eq_iff endp_def q rising_def ring_layout_def inside_def)
  show "rbb_inv q" unfolding rbb_inv_def eq using assms(1) f by (auto simp: rbb_inv_def lists_ok_def q)
  show "b \<notin> set (blk_list q)" "b \<notin> set (free_list q)" "b < blk_max_num q" "buf_size q = buf_size r"
    using assms(1) f by (auto simp: rbb_inv_def lists_ok_def q)
qed

text \<open>The sizes of the gaps, as differences that do not wrap around.\<close>

lemma gap_sizes:
  assumes i: "rbb_inv r" and ne: "blk_list r \<noteq> []"
  shows "sub32 (rbb_buf r + buf_size r) (endp r (last (blk_list r))) = rbb_buf r + buf_size r - endp r (last (blk_list r))"
    and "sub32 (bufp r (hd (blk_list r))) (rbb_buf r) = bufp r (hd (blk_list r)) - rbb_buf r"
    and "\<not> bufp r (hd (blk_list r)) \<le> bufp r (last (blk_list r)) \<Longrightarrow>
      sub32 (bufp r (hd (blk_list r))) (endp r (last (blk_list r))) = bufp r (hd (blk_list r)) - endp r (last (blk_list r))"
proof -
  let ?h = "hd (blk_list r)" and ?t = "last (blk_list r)"
  have "inside r ?h" "inside r ?t" and m: "rbb_buf r + buf_size r < 2 ^ 32" using i ne by (auto simp: rbb_inv_def)
  then have b: "rbb_buf r \<le> bufp r ?h" "endp r ?h \<le> rbb_buf r + buf_size r" "endp r ?t \<le> rbb_buf r + buf_size r"
    by (auto simp: inside_def)
  have h: "bufp r ?h < 2 ^ 32" using b(2) m by (simp add: endp_def)
  show "sub32 (rbb_buf r + buf_size r) (endp r ?t) = rbb_buf r + buf_size r - endp r ?t" by (rule sub32_eq[OF b(3) m])
  show "sub32 (bufp r ?h) (rbb_buf r) = bufp r ?h - rbb_buf r" by (rule sub32_eq[OF b(1) h])
  assume w: "\<not> bufp r ?h \<le> bufp r ?t"
  have "ring_layout r (blk_list r)" "\<forall>b\<in>set (blk_list r). 0 < blk_size (blk_set r b)" using i by (auto simp: rbb_inv_def inside_def)
  then have "endp r ?t \<le> bufp r ?h" using layout_shape(2)[OF _ ne _ w] by (metis hd_append2 hd_in_set last_appendR last_in_set)
  then show "sub32 (bufp r ?h) (endp r ?t) = bufp r ?h - endp r ?t" by (rule sub32_eq[OF _ h])
qed

lemma blk_alloc_inv:
  assumes i: "rbb_inv r" and n: "0 < n" "n < 2 ^ 24" "n \<le> buf_size r" and al: "rt_rbb_blk_alloc n r = (x, r')"
  shows "rbb_inv r'"
proof (cases "find_empty_blk_in_set r")
  case (Pair y q)
  show ?thesis
  proof (cases y)
    case None
    then show ?thesis using Pair al i by (auto simp: rt_rbb_blk_alloc_def find_empty_blk_in_set_def split: list.splits)
  next
    case (Some b)
    note q = find_empty_inv[OF i Pair[unfolded Some]]
    let ?h = "hd (blk_list q)" and ?t = "last (blk_list q)"
    show ?thesis
    proof (cases "blk_list q = []")
      case True
      then have "place_blk b (rbb_buf q) n q = (x, r')" using al Pair Some by (simp add: rt_rbb_blk_alloc_def)
      then show ?thesis using place_inv[OF q(1) _ q(2-4) n(1,2)] True n q(5) layout_behind[of r' "[]" b] by (simp add: rising_def)
    next
      case False
      have t: "the (rbb_tail q) = ?t" using q(1) False by (simp add: rbb_inv_def lists_ok_def)
      note g = gap_sizes[OF q(1) False]
      note pn = place_next[OF q(1) _ q(2-4) n(1,2) False]
      have e: "rt_rbb_blk_alloc n r =
        (if bufp q ?h \<le> bufp q ?t
         then if n \<le> rbb_buf q + buf_size q - endp q ?t then place_blk b (endp q ?t) n q
              else if n \<le> bufp q ?h - rbb_buf q then place_blk b (rbb_buf q) n q else (None, q)
         else if n \<le> bufp q ?h - endp q ?t then place_blk b (endp q ?t) n q else (None, q))"
        using Pair Some False g(3)
        by (simp add: rt_rbb_blk_alloc_def Let_def t list.case_eq_if g(1,2) flip: endp_def)
      have lo: "rbb_buf q \<le> bufp q ?h" "endp q ?t \<le> rbb_buf q + buf_size q"
        using q(1) False by (auto simp: rbb_inv_def inside_def)
      consider "r' = q"
        | "bufp q ?h \<le> bufp q ?t" "endp q ?t + n \<le> rbb_buf q + buf_size q" "place_blk b (endp q ?t) n q = (x, r')"
        | "bufp q ?h \<le> bufp q ?t" "rbb_buf q + n \<le> bufp q ?h" "place_blk b (rbb_buf q) n q = (x, r')"
        | "\<not> bufp q ?h \<le> bufp q ?t" "endp q ?t + n \<le> bufp q ?h" "place_blk b (endp q ?t) n q = (x, r')"
        using al lo n(1) unfolding e by (auto split: if_splits)
      then show ?thesis
      proof cases
        case 1
        then show ?thesis using q(1) by simp
      qed (use pn in blast)+
    qed
  qed
qed

section \<open>Runs of operations\<close>

text \<open>The states that clients can reach who ask for blocks that the buffer could hold and release only what they hold.\<close>

inductive rbb_reach :: "nat \<Rightarrow> nat \<Rightarrow> rt_rbb \<Rightarrow> bool" for buf bsize where
  init: "rbb_reach buf bsize (rt_rbb_init buf bsize bs n)"
| alloc: "rbb_reach buf bsize r \<Longrightarrow> 0 < k \<Longrightarrow> k < 2 ^ 24 \<Longrightarrow> k \<le> bsize \<Longrightarrow> rbb_reach buf bsize (snd (rt_rbb_blk_alloc k r))"
| put: "rbb_reach buf bsize r \<Longrightarrow> b \<in> set (blk_list r) \<Longrightarrow> rbb_reach buf bsize (rt_rbb_blk_put b r)"
| get: "rbb_reach buf bsize r \<Longrightarrow> rbb_reach buf bsize (snd (rt_rbb_blk_get r))"
| free: "rbb_reach buf bsize r \<Longrightarrow> b \<in> set (blk_list r) \<Longrightarrow> rbb_reach buf bsize (rt_rbb_blk_free b r)"
| queue_get: "rbb_reach buf bsize r \<Longrightarrow> rbb_reach buf bsize (snd (snd (rt_rbb_blk_queue_get len q r)))"
| queue_free: "rbb_reach buf bsize r \<Longrightarrow> blocks q \<in> set (blk_list r) \<Longrightarrow> rt_rbb_blk_queue_free q r = Some r' \<Longrightarrow> rbb_reach buf bsize r'"

abbreviation geometry :: "rt_rbb \<Rightarrow> nat \<times> nat" where "geometry r \<equiv> (rbb_buf r, buf_size r)"

lemma queue_more_geometry: "geometry (snd (snd (queue_more len lb tot num bs r))) = geometry r"
  by (induction len lb tot num bs r rule: queue_more.induct) auto

lemma queue_first_geometry: "geometry (snd (snd (queue_first len q bs r))) = geometry r"
proof (induction len q bs r rule: queue_first.induct)
  case (2 len q b bs r)
  then show ?case
    using queue_more_geometry[of len b "blk_size (blk_set r b)" 1 bs "upd_blk b (\<lambda>x. x\<lparr> blk_status := RT_RBB_BLK_GET \<rparr>) r"]
    by (auto split: prod.splits)
qed simp

lemma free_geometry: "geometry (rt_rbb_blk_free b r) = geometry r"
  by (simp add: rt_rbb_blk_free_def list_remove_def Let_def)

lemma queue_free_geometry: "queue_free_loop n b r = Some r' \<Longrightarrow> geometry r' = geometry r"
  by (induction n b r rule: queue_free_loop.induct) (auto simp: free_geometry)

lemma alloc_geometry: "geometry (snd (rt_rbb_blk_alloc k r)) = geometry r"
  by (auto simp: rt_rbb_blk_alloc_def find_empty_blk_in_set_def place_blk_def list_append_def Let_def split: list.splits)

lemma reach_geometry: "rbb_reach buf bsize r \<Longrightarrow> geometry r = (buf, bsize)"
proof (induction rule: rbb_reach.induct)
  case (get r)
  then show ?case by (simp add: rt_rbb_blk_get_def split: option.splits)
qed (use alloc_geometry queue_first_geometry free_geometry queue_free_geometry in
      \<open>auto simp: rt_rbb_init_def init_fields rt_rbb_blk_put_def rt_rbb_blk_queue_get_def rt_rbb_blk_queue_free_def\<close>)

lemma reach_inv:
  assumes "buf + bsize < 2 ^ 32" "rbb_reach buf bsize r"
  shows "rbb_inv r"
  using assms(2)
proof (induction rule: rbb_reach.induct)
  case (init bs n)
  show ?case using assms(1) by (rule rbb_init_inv)
next
  case (alloc r k)
  then show ?case using blk_alloc_inv[of r k] reach_geometry[of buf bsize r] by (metis prod.collapse prod.inject)
next
  case (queue_free r q r')
  then show ?case using queue_free_inv[of r "Some (blocks q)" "blk_num q" r'] by (simp add: rt_rbb_blk_queue_free_def)
qed (auto intro: put_inv get_inv free_inv queue_get_inv)

section \<open>Block queues\<close>

definition sizes :: "rt_rbb \<Rightarrow> blk_id list \<Rightarrow> nat" where
  "sizes r bs = sum_list (map (\<lambda>b. blk_size (blk_set r b)) bs)"

text \<open>The loop takes a stretch of the list: it counts it, adds up its sizes, and marks it.\<close>

definition taken :: "blk_id list \<Rightarrow> rt_rbb \<Rightarrow> rt_rbb" where
  "taken bs r = fold (\<lambda>b. upd_blk b (\<lambda>x. x\<lparr> blk_status := RT_RBB_BLK_GET \<rparr>)) bs r"

lemma taken_blk_simps [simp]:
  "blk_list (taken bs r) = blk_list r" "blk_size (blk_set (taken bs r) b) = blk_size (blk_set r b)"
  "blk_buf (blk_set (taken bs r) b) = blk_buf (blk_set r b)" "sizes (taken bs r) cs = sizes r cs"
proof -
  show s: "blk_size (blk_set (taken bs r) b) = blk_size (blk_set r b)" for b
    unfolding taken_def by (induction bs arbitrary: r) auto
  show "blk_list (taken bs r) = blk_list r" "blk_buf (blk_set (taken bs r) b) = blk_buf (blk_set r b)"
    unfolding taken_def by (induction bs arbitrary: r) auto
  show "sizes (taken bs r) cs = sizes r cs" by (simp add: sizes_def s)
qed

lemma elsewhere:
  assumes "b \<notin> set bs"
  shows "sizes (upd_blk b f r) bs = sizes r bs"
    and "(\<forall>c\<in>set bs. blk_status (blk_set (upd_blk b f r) c) = st) = (\<forall>c\<in>set bs. blk_status (blk_set r c) = st)"
proof -
  have e: "blk_set (upd_blk b f r) c = blk_set r c" if "c \<in> set bs" for c using assms that by auto
  show "sizes (upd_blk b f r) bs = sizes r bs" unfolding sizes_def by (intro arg_cong[where f = sum_list] map_cong) (use e in auto)
  show "(\<forall>c\<in>set bs. blk_status (blk_set (upd_blk b f r) c) = st) = (\<forall>c\<in>set bs. blk_status (blk_set r c) = st)"
    using e by (intro ball_cong) auto
qed

lemma queue_more_takes:
  assumes "distinct bs" "queue_more len lb tot num bs r = (tot', num', r')"
  shows "\<exists>k \<le> length bs. num' = num + k \<and> tot' = tot + sizes r (take k bs) \<and> r' = taken (take k bs) r
    \<and> (k > 0 \<longrightarrow> tot' \<le> len) \<and> (\<forall>b\<in>set (take k bs). blk_status (blk_set r b) = RT_RBB_BLK_PUT)"
  using assms
proof (induction len lb tot num bs r rule: queue_more.induct)
  case (1 len lb tot num r)
  then show ?case by (simp add: sizes_def taken_def)
next
  case (2 len lb tot num b bs r)
  show ?case
  proof (cases "blk_status (blk_set r b) \<noteq> RT_RBB_BLK_PUT \<or> blk_buf (blk_set r lb) > blk_buf (blk_set r b) \<or> tot + blk_size (blk_set r b) > len")
    case True
    then have "tot' = tot \<and> num' = num \<and> r' = r" using 2(3) by simp
    then show ?thesis by (intro exI[of _ 0]) (simp add: sizes_def taken_def)
  next
    case False
    let ?r = "upd_blk b (\<lambda>x. x\<lparr> blk_status := RT_RBB_BLK_GET \<rparr>) r"
    obtain k where k: "k \<le> length bs" "num' = num + 1 + k" "tot' = tot + blk_size (blk_set r b) + sizes ?r (take k bs)"
      "r' = taken (take k bs) ?r" "k > 0 \<longrightarrow> tot' \<le> len" "\<forall>b\<in>set (take k bs). blk_status (blk_set ?r b) = RT_RBB_BLK_PUT"
      using 2(1)[OF False] 2(2,3) False by auto
    have nb: "b \<notin> set (take k bs)" using 2(2) by (auto dest: in_set_takeD)
    note el = elsewhere[OF nb]
    have "\<forall>c\<in>set (take k bs). blk_status (blk_set r c) = RT_RBB_BLK_PUT" using k(6) unfolding el(2) .
    then show ?thesis using k(1-5) False
      by (intro exI[of _ "Suc k"]) (auto simp: el(1), auto simp: sizes_def taken_def)
  qed
qed

lemma next_node_nth: "distinct (pre @ b # c # bs) \<Longrightarrow> next_node b (pre @ b # c # bs) = Some c"
  by (auto simp: next_node_def dropWhile_append)

lemma queue_len_follows:
  assumes "distinct (blk_list r)" "blk_list r = pre @ bs" "n \<le> length bs"
  shows "queue_len_loop n (if bs = [] then None else Some (hd bs)) r = Some (sizes r (take n bs))"
  using assms(2,3)
proof (induction n arbitrary: pre bs)
  case (Suc n)
  then obtain b cs where bs: "bs = b # cs" by (cases bs) auto
  have "next_node b (blk_list r) = (if cs = [] then None else Some (hd cs))"
  proof (cases cs)
    case Nil
    then show ?thesis using Suc.prems bs assms(1) by (auto simp: next_node_def dropWhile_append)
  next
    case (Cons c ds)
    then show ?thesis using Suc.prems bs assms(1) next_node_nth[of pre b c ds] by simp
  qed
  then show ?case using Suc.IH[of "pre @ [b]" cs] Suc.prems bs by (simp add: sizes_def)
qed (simp add: sizes_def)

lemma queue_first_takes:
  assumes "distinct bs" "queue_first len q bs r = (tot, q', r')" "\<exists>b\<in>set bs. blk_status (blk_set r b) = RT_RBB_BLK_PUT"
  shows "\<exists>pre b cs k. bs = pre @ b # cs \<and> k \<le> length cs \<and> q' = \<lparr> blocks = b, blk_num = Suc k \<rparr>
    \<and> tot = sizes r (b # take k cs) \<and> r' = taken (b # take k cs) r \<and> (k > 0 \<longrightarrow> tot \<le> len)
    \<and> (\<forall>x\<in>set pre. blk_status (blk_set r x) \<noteq> RT_RBB_BLK_PUT) \<and> (\<forall>x\<in>set (b # take k cs). blk_status (blk_set r x) = RT_RBB_BLK_PUT)"
  using assms
proof (induction len q bs r rule: queue_first.induct)
  case (2 len q b bs r)
  show ?case
  proof (cases "blk_status (blk_set r b) = RT_RBB_BLK_PUT")
    case True
    let ?r = "upd_blk b (\<lambda>x. x\<lparr> blk_status := RT_RBB_BLK_GET \<rparr>) r"
    obtain t m u where m: "queue_more len b (blk_size (blk_set r b)) 1 bs ?r = (t, m, u)" by (metis prod_cases3)
    then have e: "tot = t" "q' = \<lparr> blocks = b, blk_num = m \<rparr>" "r' = u" using 2(3) True by auto
    obtain k where k: "k \<le> length bs" "m = 1 + k" "t = blk_size (blk_set r b) + sizes ?r (take k bs)" "u = taken (take k bs) ?r"
      "k > 0 \<longrightarrow> t \<le> len" "\<forall>b\<in>set (take k bs). blk_status (blk_set ?r b) = RT_RBB_BLK_PUT"
      using queue_more_takes[OF _ m] 2(2) by auto
    have nb: "b \<notin> set (take k bs)" using 2(2) by (auto dest: in_set_takeD)
    note el = elsewhere[OF nb]
    have "\<forall>c\<in>set (take k bs). blk_status (blk_set r c) = RT_RBB_BLK_PUT" using k(6) unfolding el(2) .
    then show ?thesis using k(1-5) e True
      by - (rule exI[of _ "[]"], rule exI[of _ b], rule exI[of _ bs], rule exI[of _ k],
          auto simp: el(1), auto simp: sizes_def taken_def)
  next
    case False
    then obtain pre c cs k where "bs = pre @ c # cs" "k \<le> length cs" "q' = \<lparr> blocks = c, blk_num = Suc k \<rparr>"
      "tot = sizes r (c # take k cs)" "r' = taken (c # take k cs) r" "k > 0 \<longrightarrow> tot \<le> len"
      "\<forall>x\<in>set pre. blk_status (blk_set r x) \<noteq> RT_RBB_BLK_PUT" "\<forall>x\<in>set (c # take k cs). blk_status (blk_set r x) = RT_RBB_BLK_PUT"
      using 2(1)[OF False] 2(2-4) by auto
    then show ?thesis using False
      by - (rule exI[of _ "b # pre"], rule exI[of _ c], rule exI[of _ cs], rule exI[of _ k], auto)
  qed
qed simp

section \<open>Properties\<close>

text \<open>C22: As long as clients ask for blocks of 1 to \<open>buf_size\<close> bytes and release only blocks they hold,
  in whatever order, every allocated block of a ring block buffer lies inside the buffer, no
  two of them overlap, and no descriptor is both in use and free.\<close>

theorem rbb_blocks_never_overlap:
  assumes "buf + bsize < 2 ^ 32" and "rbb_reach buf bsize r"
  shows "distinct (blk_list r @ free_list r)
    \<and> (\<forall>b\<in>set (blk_list r). buf \<le> rt_rbb_blk_buf b r \<and> rt_rbb_blk_buf b r + rt_rbb_blk_size b r \<le> buf + bsize)
    \<and> (\<forall>b\<in>set (blk_list r). \<forall>c\<in>set (blk_list r). b \<noteq> c \<longrightarrow>
        {rt_rbb_blk_buf b r ..< rt_rbb_blk_buf b r + rt_rbb_blk_size b r}
          \<inter> {rt_rbb_blk_buf c r ..< rt_rbb_blk_buf c r + rt_rbb_blk_size c r} = {})"
proof (intro conjI ballI impI)
  have i: "rbb_inv r" using assms by (rule reach_inv)
  have g: "rbb_buf r = buf" "buf_size r = bsize" using reach_geometry[OF assms(2)] by auto
  show "distinct (blk_list r @ free_list r)" using i by (simp add: rbb_inv_def lists_ok_def)
  show "buf \<le> rt_rbb_blk_buf b r" "rt_rbb_blk_buf b r + rt_rbb_blk_size b r \<le> buf + bsize" if "b \<in> set (blk_list r)" for b
    using i that g by (auto simp: rbb_inv_def inside_def endp_def rt_rbb_blk_buf_def rt_rbb_blk_size_def)
  fix b c
  assume bc: "b \<in> set (blk_list r)" "c \<in> set (blk_list r)" "b \<noteq> c"
  then obtain j k where jk: "b = blk_list r ! j" "j < length (blk_list r)" "c = blk_list r ! k" "k < length (blk_list r)" "j \<noteq> k"
    by (metis in_set_conv_nth)
  have "ring_layout r (blk_list r)" using i by (simp add: rbb_inv_def)
  then have "endp r b \<le> bufp r c \<or> endp r c \<le> bufp r b"
    using layout_disjoint[of r "blk_list r" j k] layout_disjoint[of r "blk_list r" k j] jk by (cases j k rule: linorder_cases) auto
  then show "{rt_rbb_blk_buf b r ..< rt_rbb_blk_buf b r + rt_rbb_blk_size b r}
      \<inter> {rt_rbb_blk_buf c r ..< rt_rbb_blk_buf c r + rt_rbb_blk_size c r} = {}"
    by (auto simp: endp_def rt_rbb_blk_buf_def rt_rbb_blk_size_def)
qed

text \<open>A buffer of 16 bytes at address 100 with four descriptors, and a run that wraps around.\<close>

definition blank_blk :: rt_rbb_blk where "blank_blk = \<lparr> blk_status = RT_RBB_BLK_GET, blk_size = 0, blk_buf = 0 \<rparr>"

definition demo_rbb :: rt_rbb where "demo_rbb = rt_rbb_init 100 16 (\<lambda>_. blank_blk) 4"

definition demo_run :: rt_rbb where
  "demo_run = (let r = snd (rt_rbb_blk_alloc 6 demo_rbb); r = snd (rt_rbb_blk_alloc 6 r); r = rt_rbb_blk_free 3 r in snd (rt_rbb_blk_alloc 5 r))"

lemma demo_ids: "[0..<4] = [0, 1, 2, 3::nat]"
  by code_simp

lemmas rbb_eval = demo_run_def demo_rbb_def rt_rbb_init_def init_blk_def blank_blk_def rt_rbb_blk_alloc_def find_empty_blk_in_set_def
  place_blk_def list_append_def rt_rbb_blk_free_def list_remove_def prev_node_def sub32_def upd_blk_def Let_def
  rt_rbb_blk_buf_def rt_rbb_blk_size_def rt_rbb_blk_put_def rt_rbb_blk_queue_get_def rt_rbb_blk_queue_len_def next_node_def
  rt_rbb_blk_queue_buf_def demo_ids

lemma demo_run_eq:
  "demo_run = \<lparr> rbb_buf = 100, buf_size = 16,
     blk_set = (\<lambda>_. blank_blk)(0 := blank_blk\<lparr> blk_status := RT_RBB_BLK_UNUSED \<rparr>, 1 := blank_blk\<lparr> blk_status := RT_RBB_BLK_UNUSED \<rparr>,
       2 := \<lparr> blk_status = RT_RBB_BLK_INITED, blk_size = 6, blk_buf = 106 \<rparr>,
       3 := \<lparr> blk_status = RT_RBB_BLK_INITED, blk_size = 5, blk_buf = 100 \<rparr>),
     blk_max_num = 4, blk_list = [2, 3], rbb_tail = Some 3, free_list = [1, 0] \<rparr>"
  by (simp add: rbb_eval fun_eq_iff)

lemma demo_facts:
  "blk_list demo_run = [2, 3]" "free_list demo_run = [1, 0]" "rt_rbb_blk_buf 2 demo_run = 106" "rt_rbb_blk_buf 3 demo_run = 100"
  "rbb_tail demo_run = Some 3" "blk_max_num demo_run = 4" "blk_status (blk_set demo_run 0) = RT_RBB_BLK_UNUSED"
  "blk_status (blk_set demo_run (Suc 0)) = RT_RBB_BLK_UNUSED" "blk_status (blk_set demo_run 2) = RT_RBB_BLK_INITED"
  "blk_status (blk_set demo_run 3) = RT_RBB_BLK_INITED" "blk_size (blk_set demo_run 2) = 6" "blk_size (blk_set demo_run 3) = 5"
  "rbb_buf demo_run = 100" "buf_size demo_run = 16"
  by (simp_all add: demo_run_eq rt_rbb_blk_buf_def)

lemma demo_lists_ok: "lists_ok demo_run"
  by (simp add: lists_ok_def demo_facts)

theorem rbb_blocks_never_overlap_witness:
  "blk_list demo_run = [2, 3] \<and> rt_rbb_blk_buf 2 demo_run = 106 \<and> rt_rbb_blk_buf 3 demo_run = 100
   \<and> distinct (blk_list demo_run @ free_list demo_run)"
proof -
  have "blk_list (snd (rt_rbb_blk_alloc 6 (snd (rt_rbb_blk_alloc 6 demo_rbb)))) = [3, 2]" by (simp add: rbb_eval)
  then have "rbb_reach 100 16 demo_run"
    unfolding demo_run_def Let_def demo_rbb_def by (intro rbb_reach.intros) auto
  from rbb_blocks_never_overlap[OF _ this] show ?thesis by (simp add: demo_facts)
qed

text \<open>\<open>rt_rbb_blk_queue_get\<close> takes the first filled block of the list and the filled blocks right
  behind it, one after the other in list order: it marks exactly these, returns the sum of
  their sizes, which is also what \<open>rt_rbb_blk_queue_len\<close> answers for the queue, and exceeds the requested length only when
  the first block alone does.\<close>

theorem rbb_queue_get_takes_run:
  assumes "lists_ok r" and "\<exists>b\<in>set (blk_list r). blk_status (blk_set r b) = RT_RBB_BLK_PUT"
    and "rt_rbb_blk_queue_get len q r = (tot, q', r')"
  shows "\<exists>pre b cs k. blk_list r = pre @ b # cs \<and> k \<le> length cs \<and> q' = \<lparr> blocks = b, blk_num = Suc k \<rparr>
    \<and> (\<forall>x\<in>set pre. blk_status (blk_set r x) \<noteq> RT_RBB_BLK_PUT)
    \<and> (\<forall>x\<in>set (b # take k cs). blk_status (blk_set r x) = RT_RBB_BLK_PUT)
    \<and> r' = fold (\<lambda>b. upd_blk b (\<lambda>x. x\<lparr> blk_status := RT_RBB_BLK_GET \<rparr>)) (b # take k cs) r
    \<and> tot = sum_list (map (\<lambda>b. rt_rbb_blk_size b r) (b # take k cs))
    \<and> rt_rbb_blk_queue_len q' r' = Some tot \<and> (k > 0 \<longrightarrow> tot \<le> len)"
proof -
  have d: "distinct (blk_list r)" using assms by (simp add: lists_ok_def)
  obtain pre b cs k where t: "blk_list r = pre @ b # cs" "k \<le> length cs" "q' = \<lparr> blocks = b, blk_num = Suc k \<rparr>"
    "tot = sizes r (b # take k cs)" "r' = taken (b # take k cs) r" "k > 0 \<longrightarrow> tot \<le> len"
    "\<forall>x\<in>set pre. blk_status (blk_set r x) \<noteq> RT_RBB_BLK_PUT" "\<forall>x\<in>set (b # take k cs). blk_status (blk_set r x) = RT_RBB_BLK_PUT"
    using queue_first_takes[OF d assms(3)[unfolded rt_rbb_blk_queue_get_def] assms(2)] by blast
  have "rt_rbb_blk_queue_len q' r' = Some tot"
    using queue_len_follows[of r' pre "b # cs" "Suc k"] t d by (simp add: rt_rbb_blk_queue_len_def del: queue_len_loop.simps)
  then show ?thesis using t
    by - (rule exI[of _ pre], rule exI[of _ b], rule exI[of _ cs], rule exI[of _ k], simp add: sizes_def taken_def rt_rbb_blk_size_def)
qed

theorem rbb_queue_get_takes_run_witness:
  "\<exists>tot q' r'. rt_rbb_blk_queue_get 16 \<lparr> blocks = 0, blk_num = 0 \<rparr> (rt_rbb_blk_put 3 (rt_rbb_blk_put 2 demo_run)) = (tot, q', r')
     \<and> rt_rbb_blk_queue_len q' r' = Some tot \<and> tot = 6"
proof -
  let ?r = "rt_rbb_blk_put 3 (rt_rbb_blk_put 2 demo_run)"
  obtain tot q' r' where e: "rt_rbb_blk_queue_get 16 \<lparr> blocks = 0, blk_num = 0 \<rparr> ?r = (tot, q', r')" by (metis prod_cases3)
  have "lists_ok ?r" "\<exists>b\<in>set (blk_list ?r). blk_status (blk_set ?r b) = RT_RBB_BLK_PUT" "tot = 6"
    using e by (simp_all add: demo_facts lists_ok_def rt_rbb_blk_put_def rt_rbb_blk_queue_get_def) (simp_all add: rt_rbb_blk_buf_def[symmetric] demo_facts)
  with rbb_queue_get_takes_run[OF _ _ e] show ?thesis using e by blast
qed

text \<open>An allocation that fails for lack of space loses a descriptor: the free descriptor it
  tried is in neither list afterwards, and everything else is unchanged. So two failed
  allocations empty the pool of two spare descriptors for good, although the buffer is free again.\<close>

theorem rbb_failed_alloc_loses_descriptor:
  assumes "lists_ok r" and "free_list r = b # fs" and "rt_rbb_blk_alloc k r = (None, r')"
  shows "r' = r\<lparr> free_list := fs \<rparr> \<and> b \<notin> set (blk_list r') \<and> b \<notin> set (free_list r')"
proof -
  have "r' = r\<lparr> free_list := fs \<rparr>"
    using assms(2,3) by (auto simp: rt_rbb_blk_alloc_def find_empty_blk_in_set_def place_blk_def Let_def split: list.splits if_splits)
  then show ?thesis using assms(1,2) by (auto simp: lists_ok_def)
qed

theorem rbb_failed_alloc_loses_descriptor_witness:
  "\<exists>r'. rt_rbb_blk_alloc 12 demo_run = (None, r') \<and> 1 \<notin> set (blk_list r') \<and> 1 \<notin> set (free_list r')"
proof -
  obtain x r' where e: "rt_rbb_blk_alloc 12 demo_run = (x, r')" by fastforce
  have "x = None"
    using e demo_facts(3,4)
    by (simp add: rt_rbb_blk_alloc_def find_empty_blk_in_set_def demo_facts rt_rbb_blk_buf_def Let_def sub32_def)
  with rbb_failed_alloc_loses_descriptor[OF demo_lists_ok demo_facts(2)] show ?thesis using e by blast
qed

text \<open>Two deviations. The first block of an empty list is not checked against the size of the
  buffer, and a queue is taken for contiguous as soon as its addresses rise: after the middle one of three filled
  blocks was released, the queue of the other two is reported as 12 bytes from the start of
  the first, the last four of which belong to no block.\<close>

theorem rbb_first_alloc_unchecked:
  "blk_list r = [] \<Longrightarrow> free_list r = b # fs \<Longrightarrow> \<exists>r'. rt_rbb_blk_alloc k r = (Some b, r') \<and> rt_rbb_blk_size b r' = size24 k"
  by (simp add: rt_rbb_blk_alloc_def find_empty_blk_in_set_def place_blk_def list_append_def Let_def rt_rbb_blk_size_def)

definition demo_gap :: rt_rbb where
  "demo_gap = (let r = snd (rt_rbb_blk_alloc 4 demo_rbb); r = snd (rt_rbb_blk_alloc 4 r); r = snd (rt_rbb_blk_alloc 8 r)
     in rt_rbb_blk_free 2 (rt_rbb_blk_put 1 (rt_rbb_blk_put 2 (rt_rbb_blk_put 3 r))))"

theorem rbb_queue_spans_gap:
  "case rt_rbb_blk_queue_get 16 \<lparr> blocks = 0, blk_num = 0 \<rparr> demo_gap of (tot, q, r) \<Rightarrow>
     tot = 12 \<and> rt_rbb_blk_queue_buf q r = 100 \<and> blk_num q = 2 \<and> blk_list r = [3, 1]
     \<and> rt_rbb_blk_buf 3 r + rt_rbb_blk_size 3 r = 104 \<and> rt_rbb_blk_buf 1 r = 108"
  by (simp add: rbb_eval demo_gap_def)

end
