(* ===== verification/Ffs.thy ===== *)
theory Ffs
  imports Prelude
begin

text \<open>
  \<open>__rt_ffs\<close>, the find-first-set routine the scheduler applies to its priority
  bitmap. The repository holds three bodies: the Cortex-M4 port
  (\<open>libcpu/arm/cortex-m4/cpuport.c\<close>, selected by \<open>RT_USING_CPU_FFS\<close>), the
  256-entry table and the modulo-37 table of \<open>kservice.c\<close>. Each is modelled;
  an interface locale states what the scheduler relies on and all three are
  interpreted in it, which also shows that they are the same function.
\<close>

section \<open>The interface\<close>

locale find_first_set =
  fixes ffs :: "u32 \<Rightarrow> nat"
  assumes ffs_zero: "ffs 0 = 0"
    and ffs_pos: "v \<noteq> 0 \<Longrightarrow> 0 < ffs v"
    and ffs_bit: "v \<noteq> 0 \<Longrightarrow> bit v (ffs v - 1)"
    and ffs_least: "i < ffs v - 1 \<Longrightarrow> \<not> bit v i"
begin

lemma ffs_le: "bit v i \<Longrightarrow> ffs v \<le> Suc i"
  using ffs_least[of i v] by force

lemma ffs_bounded: "ffs v \<le> 32"
proof (cases "v = 0")
  case False
  then have "ffs v - 1 < 32" using bit_imp_le_length[OF ffs_bit[OF False]] by simp
  then show ?thesis by simp
qed (simp add: ffs_zero)

lemma ffs_eq_0_iff: "ffs v = 0 \<longleftrightarrow> v = 0"
  using ffs_pos[of v] ffs_zero by fastforce

lemma ffs_unique:
  assumes "bit v k" and "\<And>i. i < k \<Longrightarrow> \<not> bit v i"
  shows "ffs v = Suc k"
proof -
  have "v \<noteq> 0" using assms(1) by auto
  then have "bit v (ffs v - 1)" and "0 < ffs v" by (rule ffs_bit, rule ffs_pos)
  with assms(2) have "k \<le> ffs v - 1" by (meson not_less)
  with ffs_le[OF assms(1)] \<open>0 < ffs v\<close> show ?thesis by simp
qed

end

lemma first_set_bit:
  fixes v :: u32
  assumes "v \<noteq> 0"
  obtains k where "bit v k" and "\<And>i. i < k \<Longrightarrow> \<not> bit v i"
proof -
  have "\<exists>k. bit v k" using assms by (auto simp: bit_eq_iff)
  then have "bit v (LEAST k. bit v k)" and "\<And>i. i < (LEAST k. bit v k) \<Longrightarrow> \<not> bit v i"
    by (auto intro: LeastI_ex dest: not_less_Least)
  then show ?thesis using that by blast
qed

lemma find_first_setI:
  assumes "f 0 = 0"
    and "\<And>v k. bit v k \<Longrightarrow> (\<And>i. i < k \<Longrightarrow> \<not> bit v i) \<Longrightarrow> f v = Suc k"
  shows "find_first_set f"
proof
  fix v :: u32
  show "f 0 = 0" by fact
  { assume "v \<noteq> 0"
    then obtain k where "bit v k" "\<And>i. i < k \<Longrightarrow> \<not> bit v i" by (rule first_set_bit) auto
    with assms(2) show "0 < f v" "bit v (f v - 1)" by simp_all }
  fix i assume i: "i < f v - 1"
  then have "v \<noteq> 0" using assms(1) by auto
  then obtain k where "bit v k" "\<And>i. i < k \<Longrightarrow> \<not> bit v i" by (rule first_set_bit) auto
  with assms(2) i show "\<not> bit v i" by simp
qed

section \<open>The Cortex-M4 port\<close>

text \<open>The two instructions the port uses: bit reversal and count of leading
  zeros of a 32-bit register.\<close>

definition RBIT :: "u32 \<Rightarrow> u32" where
  "RBIT v = horner_sum of_bool 2 (map (\<lambda>i. bit v (31 - i)) [0..<32])"

definition CLZ :: "u32 \<Rightarrow> nat" where
  "CLZ v = length (takeWhile (\<lambda>i. \<not> bit v i) (rev [0..<32]))"

definition rt_ffs :: "u32 \<Rightarrow> nat" where
  "rt_ffs value = (if value = 0 then 0 else CLZ (RBIT value) + 1)"

lemma bit_RBIT: "bit (RBIT v) i \<longleftrightarrow> i < 32 \<and> bit v (31 - i)"
  by (auto simp: RBIT_def bit_horner_sum_bit_word_iff)

lemma CLZ_eqI:
  assumes "k < 32" "bit v (31 - k)" and "\<And>i. i < k \<Longrightarrow> \<not> bit v (31 - i)"
  shows "CLZ v = k"
proof -
  have r: "rev [0..<32] = map (\<lambda>i. 31 - i) [0..<32::nat]" by (rule nth_equalityI) (auto simp: rev_nth)
  have s: "[0..<32] = [0..<k] @ k # [Suc k..<32]"
    using assms(1) by (metis upt_add_eq_append upt_conv_Cons le_add_diff_inverse less_imp_le zero_le)
  have rs: "rev [0..<32] = map (\<lambda>i. 31 - i) ([0..<k] @ k # [Suc k..<32])"
    using r s by metis
  have "takeWhile (\<lambda>i. \<not> bit v i) (rev [0..<32]) = map (\<lambda>i. 31 - i) [0..<k]"
    unfolding rs using assms(2,3) by (auto simp: takeWhile_append)
  then show ?thesis by (simp add: CLZ_def)
qed

interpretation port_ffs: find_first_set rt_ffs
proof (rule find_first_setI)
  fix v :: u32 and k
  assume k: "bit v k" and l: "\<And>i. i < k \<Longrightarrow> \<not> bit v i"
  have "k < 32" using bit_imp_le_length[OF k] by simp
  then have "CLZ (RBIT v) = k" using k l by (intro CLZ_eqI) (auto simp: bit_RBIT)
  then show "rt_ffs v = Suc k" using k by (auto simp: rt_ffs_def)
qed (simp add: rt_ffs_def)

section \<open>The table versions of kservice.c\<close>

text \<open>The 256-entry table, in rows of sixteen as in the source.\<close>

definition lowest_bit_bitmap :: "nat list" where
  "lowest_bit_bitmap =
    [0, 0, 1, 0, 2, 0, 1, 0, 3, 0, 1, 0, 2, 0, 1, 0,
     4, 0, 1, 0, 2, 0, 1, 0, 3, 0, 1, 0, 2, 0, 1, 0,
     5, 0, 1, 0, 2, 0, 1, 0, 3, 0, 1, 0, 2, 0, 1, 0,
     4, 0, 1, 0, 2, 0, 1, 0, 3, 0, 1, 0, 2, 0, 1, 0,
     6, 0, 1, 0, 2, 0, 1, 0, 3, 0, 1, 0, 2, 0, 1, 0,
     4, 0, 1, 0, 2, 0, 1, 0, 3, 0, 1, 0, 2, 0, 1, 0,
     5, 0, 1, 0, 2, 0, 1, 0, 3, 0, 1, 0, 2, 0, 1, 0,
     4, 0, 1, 0, 2, 0, 1, 0, 3, 0, 1, 0, 2, 0, 1, 0,
     7, 0, 1, 0, 2, 0, 1, 0, 3, 0, 1, 0, 2, 0, 1, 0,
     4, 0, 1, 0, 2, 0, 1, 0, 3, 0, 1, 0, 2, 0, 1, 0,
     5, 0, 1, 0, 2, 0, 1, 0, 3, 0, 1, 0, 2, 0, 1, 0,
     4, 0, 1, 0, 2, 0, 1, 0, 3, 0, 1, 0, 2, 0, 1, 0,
     6, 0, 1, 0, 2, 0, 1, 0, 3, 0, 1, 0, 2, 0, 1, 0,
     4, 0, 1, 0, 2, 0, 1, 0, 3, 0, 1, 0, 2, 0, 1, 0,
     5, 0, 1, 0, 2, 0, 1, 0, 3, 0, 1, 0, 2, 0, 1, 0,
     4, 0, 1, 0, 2, 0, 1, 0, 3, 0, 1, 0, 2, 0, 1, 0]"

definition rt_ffs_table :: "u32 \<Rightarrow> nat" where
  "rt_ffs_table value =
    (if value = 0 then 0
     else if value AND 0xff \<noteq> 0 then lowest_bit_bitmap ! unat (value AND 0xff) + 1
     else if value AND 0xff00 \<noteq> 0 then
       lowest_bit_bitmap ! unat (drop_bit 8 (value AND 0xff00)) + 9
     else if value AND 0xff0000 \<noteq> 0 then
       lowest_bit_bitmap ! unat (drop_bit 16 (value AND 0xff0000)) + 17
     else lowest_bit_bitmap ! unat (drop_bit 24 (value AND 0xff000000)) + 25)"

definition lowest_bit_bitmap_tiny :: "nat list" where
  "lowest_bit_bitmap_tiny =
    [0, 1, 2, 27, 3, 24, 28, 32,
     4, 17, 25, 31, 29, 12, 32, 14,
     5, 8, 18, 32, 26, 23, 32, 16,
     30, 11, 13, 7, 32, 22, 15, 10,
     6, 21, 9, 20, 19]"

definition rt_ffs_tiny :: "u32 \<Rightarrow> nat" where
  "rt_ffs_tiny value =
    lowest_bit_bitmap_tiny ! (unat ((value AND (value - 1)) XOR value) mod 37)"

lemma isolate_lowest:
  fixes v :: u32
  assumes "bit v k" and "\<And>i. i < k \<Longrightarrow> \<not> bit v i"
  shows "(v AND (v - 1)) XOR v = 2 ^ k"
proof -
  have "(v AND (v - 1)) XOR v = v AND NOT (v - 1)"
    by (rule bit_eqI) (auto simp: bit_simps)
  also have "NOT (v - 1) = - v" by (simp add: minus_eq_not_minus_1)
  also have "v AND - v = 2 ^ k"
  proof -
    define u where "u = drop_bit k v"
    have kn: "k \<le> n" if "bit v n" for n using assms(2) that by (meson not_less)
    have v: "v = push_bit k u"
      unfolding u_def by (intro bit_eqI) (use kn in \<open>auto simp: bit_simps le_add_diff_inverse\<close>)
    have o: "bit u 0" using assms(1) by (simp add: u_def bit_simps)
    have "- u = NOT u OR 1"
    proof -
      have "- u = NOT u + 1" by (simp add: minus_eq_not_plus_1)
      also have "\<dots> = NOT u OR 1"
        using o by (intro disjunctive_add) (auto simp: bit_simps bit_1_iff)
      finally show ?thesis .
    qed
    then have "u AND - u = 1"
      using o by (intro bit_eqI) (auto simp: bit_simps bit_1_iff)
    moreover have "- push_bit k u = push_bit k (- u)" by (simp add: push_bit_eq_mult)
    ultimately show ?thesis
      using v by (simp add: push_bit_and[symmetric] push_bit_of_1)
  qed
  finally show ?thesis .
qed

lemma tiny_table:
  assumes "k < 32"
  shows "lowest_bit_bitmap_tiny ! (2 ^ k mod 37) = Suc k"
proof -
  have "list_all (\<lambda>k. lowest_bit_bitmap_tiny ! (2 ^ k mod 37) = Suc k) [0..<32]"
    by (simp add: upt_rec lowest_bit_bitmap_tiny_def)
  then show ?thesis using assms by (simp add: list_all_iff)
qed

interpretation tiny_ffs: find_first_set rt_ffs_tiny
proof (rule find_first_setI)
  fix v :: u32 and k
  assume k: "bit v k" and l: "\<And>i. i < k \<Longrightarrow> \<not> bit v i"
  have "k < 32" using bit_imp_le_length[OF k] by simp
  then have "unat (of_nat (2 ^ k) :: u32) = 2 ^ k"
    unfolding unat_of_nat by (intro mod_less power_strict_increasing) simp_all
  then have "unat (2 ^ k :: u32) = 2 ^ k" by simp
  then show "rt_ffs_tiny v = Suc k"
    using tiny_table[OF \<open>k < 32\<close>] by (simp add: rt_ffs_tiny_def isolate_lowest[OF k l])
qed (simp add: rt_ffs_tiny_def lowest_bit_bitmap_tiny_def)

lemma bitmap_rows:
  "list_all2 (\<lambda>(n :: int) t. odd (n div 2 ^ t) \<and> n mod 2 ^ t = 0) [1..255] (tl lowest_bit_bitmap)"
  by (simp add: lowest_bit_bitmap_def upto_rec1)

lemma bitmap_entry:
  assumes "0 < n" "n < 256"
  shows "odd (n div 2 ^ (lowest_bit_bitmap ! n))"
    and "i < lowest_bit_bitmap ! n \<Longrightarrow> even (n div 2 ^ i)"
proof -
  define t where "t = lowest_bit_bitmap ! n"
  have len: "length lowest_bit_bitmap = 256" by (simp add: lowest_bit_bitmap_def)
  have "odd (([1..255] ! (n - 1)) div 2 ^ (tl lowest_bit_bitmap ! (n - 1))) \<and>
      ([1..255] ! (n - 1)) mod 2 ^ (tl lowest_bit_bitmap ! (n - 1)) = (0 :: int)"
    by (rule list_all2_nthD[OF bitmap_rows, of "n - 1"]) (use assms in simp)
  moreover have "[1..255] ! (n - 1) = int n" using assms by (simp add: nth_upto)
  moreover have "tl lowest_bit_bitmap ! (n - 1) = t" using assms len by (simp add: nth_tl t_def)
  ultimately have i: "odd (int n div int (2 ^ t))" "int n mod int (2 ^ t) = 0" by simp_all
  have o: "odd (n div 2 ^ t)" using i(1) by (metis even_of_nat zdiv_int)
  have d: "2 ^ t dvd n" using i(2) by (metis of_nat_eq_0_iff zmod_int dvd_eq_mod_eq_0)
  show "odd (n div 2 ^ (lowest_bit_bitmap ! n))" using o by (simp add: t_def)
  assume "i < lowest_bit_bitmap ! n"
  then obtain m where "n = 2 ^ i * (2 * m)"
    using d by (auto simp: t_def[symmetric] dvd_def dest!: less_imp_Suc_add) (simp add: power_add mult_ac)
  then show "even (n div 2 ^ i)" by simp
qed

lemma bitmap_word:
  fixes b :: u32
  assumes "b \<noteq> 0" and "unat b < 256"
  shows "bit b (lowest_bit_bitmap ! unat b)"
    and "i < lowest_bit_bitmap ! unat b \<Longrightarrow> \<not> bit b i"
proof -
  have u: "0 < unat b" using assms(1) by (simp add: unat_gt_0)
  have e: "bit b j \<longleftrightarrow> odd (unat b div 2 ^ j)" for j
    using bit_unsigned_iff[of b j, where ?'a = nat] bit_imp_le_length[of b j]
    by (auto simp: bit_iff_odd)
  show "bit b (lowest_bit_bitmap ! unat b)"
    and "i < lowest_bit_bitmap ! unat b \<Longrightarrow> \<not> bit b i"
    using bitmap_entry[OF u assms(2)] by (simp_all add: e)
qed

lemma byte_card: "(2 :: nat) ^ 8 = 256"
  by simp

lemma bitmap_byte:
  fixes v w :: u32
  assumes k: "bit v k" and l: "\<And>i. i < k \<Longrightarrow> \<not> bit v i"
    and w: "\<And>i. bit w i \<longleftrightarrow> i < 8 \<and> bit v (s + i)" and s: "s \<le> k" "k < s + 8"
  shows "lowest_bit_bitmap ! unat w + (s + 1) = Suc k"
proof -
  have "w \<noteq> 0" using w[of "k - s"] k s by auto
  moreover have "w = take_bit 8 w" using w by (intro bit_eqI) (auto simp: bit_take_bit_iff)
  then have "unat w < 256"
    using take_bit_nat_less_exp[of 8 "unat w"] by (metis unsigned_take_bit_eq byte_card)
  ultimately have b: "bit w (lowest_bit_bitmap ! unat w)"
    and le: "\<And>i. i < lowest_bit_bitmap ! unat w \<Longrightarrow> \<not> bit w i"
    by (auto intro: bitmap_word dest: bitmap_word(2))
  have "\<not> lowest_bit_bitmap ! unat w < k - s" using b w[of "lowest_bit_bitmap ! unat w"] l[of "s + lowest_bit_bitmap ! unat w"] s by force
  moreover have "\<not> k - s < lowest_bit_bitmap ! unat w" using le[of "k - s"] w[of "k - s"] k s by auto
  ultimately show ?thesis using s by simp
qed

lemma byte_masks:
  "bit (0xff :: u32) i \<longleftrightarrow> 0 \<le> i \<and> i < 8"
  "bit (0xff00 :: u32) i \<longleftrightarrow> 8 \<le> i \<and> i < 16"
  "bit (0xff0000 :: u32) i \<longleftrightarrow> 16 \<le> i \<and> i < 24"
  "bit (0xff000000 :: u32) i \<longleftrightarrow> 24 \<le> i \<and> i < 32"
proof -
  have e: "(0xff :: u32) = mask 8" "(0xff00 :: u32) = push_bit 8 (mask 8)"
    "(0xff0000 :: u32) = push_bit 16 (mask 8)" "(0xff000000 :: u32) = push_bit 24 (mask 8)"
    by code_simp+
  show "bit (0xff :: u32) i \<longleftrightarrow> 0 \<le> i \<and> i < 8"
    "bit (0xff00 :: u32) i \<longleftrightarrow> 8 \<le> i \<and> i < 16"
    "bit (0xff0000 :: u32) i \<longleftrightarrow> 16 \<le> i \<and> i < 24"
    "bit (0xff000000 :: u32) i \<longleftrightarrow> 24 \<le> i \<and> i < 32"
    unfolding e by (auto simp: bit_simps bit_mask_iff)
qed

interpretation table_ffs: find_first_set rt_ffs_table
proof (rule find_first_setI)
  fix v :: u32 and k
  assume k: "bit v k" and l: "\<And>i. i < k \<Longrightarrow> \<not> bit v i"
  have k32: "k < 32" using bit_imp_le_length[OF k] by simp
  have z: "v AND m = 0 \<longleftrightarrow> b \<le> k"
    if "\<And>i. bit m i \<longleftrightarrow> a \<le> i \<and> i < b" and "a \<le> k" for m a b
  proof (cases "b \<le> k")
    case True
    then have "v AND m = 0"
      using that(1) l by (intro bit_eqI) (auto simp: bit_and_iff)
    with True show ?thesis by simp
  next
    case False
    then have "bit (v AND m) k" using that k by (simp add: bit_and_iff)
    with False show ?thesis by auto
  qed
  have nz: "v \<noteq> 0" using k by auto
  have m: "(v AND 0xff = 0) = (8 \<le> k)"
    "8 \<le> k \<Longrightarrow> (v AND 0xff00 = 0) = (16 \<le> k)"
    "16 \<le> k \<Longrightarrow> (v AND 0xff0000 = 0) = (24 \<le> k)"
    by (rule z[OF byte_masks(1)], simp) (rule z[OF byte_masks(2)] z[OF byte_masks(3)], assumption)+
  have byte: "lowest_bit_bitmap ! unat (drop_bit a (v AND m)) + (a + 1) = Suc k"
    if "\<And>i. bit m i \<longleftrightarrow> a \<le> i \<and> i < a + 8" and "a \<le> k" "k < a + 8" for m a
    using that by (intro bitmap_byte[OF k l]) (auto simp: bit_drop_bit_eq bit_and_iff)
  consider "k < 8" | "8 \<le> k" "k < 16" | "16 \<le> k" "k < 24" | "24 \<le> k" by linarith
  then show "rt_ffs_table v = Suc k"
  proof cases
    case 1
    then show ?thesis using m nz byte[of "0xff" 0] byte_masks(1) by (simp add: rt_ffs_table_def)
  next
    case 2
    then show ?thesis using m nz byte[of "0xff00" 8] byte_masks(2) by (simp add: rt_ffs_table_def)
  next
    case 3
    then show ?thesis using m nz byte[of "0xff0000" 16] byte_masks(3) by (simp add: rt_ffs_table_def)
  next
    case 4
    then show ?thesis
      using m nz k32 byte[of "0xff000000" 24] byte_masks(4) by (simp add: rt_ffs_table_def)
  qed
qed (simp add: rt_ffs_table_def)

section \<open>Properties\<close>

text \<open>The three bodies of \<open>__rt_ffs\<close> in the repository (Cortex-M4
  instructions, 256-entry table, modulo-37 table) are the same function, and it
  returns one plus the index of the least significant set bit, or 0 for 0.\<close>

theorem rt_ffs_variants_agree:
  "rt_ffs_table v = rt_ffs v \<and> rt_ffs_tiny v = rt_ffs v \<and>
   (case rt_ffs v of 0 \<Rightarrow> v = 0 | Suc k \<Rightarrow> k < 32 \<and> bit v k \<and> take_bit k v = 0)"
proof (cases "v = 0")
  case True
  then show ?thesis
    by (simp add: port_ffs.ffs_zero table_ffs.ffs_zero tiny_ffs.ffs_zero)
next
  case False
  then obtain k where k: "bit v k" "\<And>i. i < k \<Longrightarrow> \<not> bit v i" by (rule first_set_bit) auto
  have "take_bit k v = 0" using k(2) by (intro bit_eqI) (auto simp: bit_take_bit_iff)
  then show ?thesis
    using port_ffs.ffs_unique[OF k] table_ffs.ffs_unique[OF k] tiny_ffs.ffs_unique[OF k] k(1)
      bit_imp_le_length[OF k(1)] by simp
qed

end
