(* ===== verification/RtList.thy ===== *)
theory RtList
  imports Prelude
begin

text \<open>
  The intrusive doubly linked list of \<open>rtservice.h\<close> on an explicit heap of
  \<open>next\<close> and \<open>prev\<close> links. Every queue of the kernel (ready queues, suspend
  lists, timer lists, object lists) is such a list. The theory shows that each
  operation implements the corresponding operation on a sequence of nodes, so
  that the other theories may model these queues as HOL lists; lists that do
  not share nodes do not disturb each other.
\<close>

section \<open>Heap and operations\<close>

type_synonym node = nat

record list_heap =
  nextp :: "node \<Rightarrow> node"
  prevp :: "node \<Rightarrow> node"

definition set_next :: "node \<Rightarrow> node \<Rightarrow> list_heap \<Rightarrow> list_heap" where
  "set_next p v h = h\<lparr> nextp := (nextp h)(p := v) \<rparr>"

definition set_prev :: "node \<Rightarrow> node \<Rightarrow> list_heap \<Rightarrow> list_heap" where
  "set_prev p v h = h\<lparr> prevp := (prevp h)(p := v) \<rparr>"

definition rt_list_init :: "node \<Rightarrow> list_heap \<Rightarrow> list_heap" where
  "rt_list_init l h = set_next l l (set_prev l l h)"

definition rt_list_insert_after :: "node \<Rightarrow> node \<Rightarrow> list_heap \<Rightarrow> list_heap" where
  "rt_list_insert_after l n h =
    (let h = set_prev (nextp h l) n h;
         h = set_next n (nextp h l) h;
         h = set_next l n h
     in set_prev n l h)"

definition rt_list_insert_before :: "node \<Rightarrow> node \<Rightarrow> list_heap \<Rightarrow> list_heap" where
  "rt_list_insert_before l n h =
    (let h = set_next (prevp h l) n h;
         h = set_prev n (prevp h l) h;
         h = set_prev l n h
     in set_next n l h)"

definition rt_list_remove :: "node \<Rightarrow> list_heap \<Rightarrow> list_heap" where
  "rt_list_remove n h =
    (let h = set_prev (nextp h n) (prevp h n) h;
         h = set_next (prevp h n) (nextp h n) h;
         h = set_prev n n h
     in set_next n n h)"

definition rt_list_isempty :: "node \<Rightarrow> list_heap \<Rightarrow> bool" where
  "rt_list_isempty l h \<longleftrightarrow> nextp h l = l"

text \<open>The counting loop of \<open>rt_list_len\<close>; \<open>None\<close> when it does not come back to
  the list head.\<close>

partial_function (option) rt_list_len_loop :: "list_heap \<Rightarrow> node \<Rightarrow> node \<Rightarrow> u32 \<Rightarrow> u32 option" where
  "rt_list_len_loop h l p n =
    (if nextp h p = l then Some n else rt_list_len_loop h l (nextp h p) (n + 1))"

definition rt_list_len :: "node \<Rightarrow> list_heap \<Rightarrow> u32 option" where
  "rt_list_len l h = rt_list_len_loop h l l 0"

section \<open>Abstraction to sequences\<close>

text \<open>\<open>lseg h a xs b\<close>: following \<open>next\<close> from \<open>a\<close> visits \<open>xs\<close> and then \<open>b\<close>, with
  matching \<open>prev\<close> links.\<close>

fun lseg :: "list_heap \<Rightarrow> node \<Rightarrow> node list \<Rightarrow> node \<Rightarrow> bool" where
  "lseg h a [] b \<longleftrightarrow> nextp h a = b \<and> prevp h b = a"
| "lseg h a (x # xs) b \<longleftrightarrow> nextp h a = x \<and> prevp h x = a \<and> lseg h x xs b"

definition is_list :: "list_heap \<Rightarrow> node \<Rightarrow> node list \<Rightarrow> bool" where
  "is_list h l xs \<longleftrightarrow> lseg h l xs l \<and> distinct (l # xs)"

text \<open>A detached node points to itself, as after \<open>rt_list_init\<close>.\<close>

abbreviation detached :: "list_heap \<Rightarrow> node \<Rightarrow> bool" where
  "detached h n \<equiv> is_list h n []"

lemma link_simps [simp]:
  "nextp (set_next p v h) = (nextp h)(p := v)" "prevp (set_next p v h) = prevp h"
  "prevp (set_prev p v h) = (prevp h)(p := v)" "nextp (set_prev p v h) = nextp h"
  by (simp_all add: set_next_def set_prev_def)

lemma lseg_append [simp]:
  "lseg h a (xs @ y # ys) b \<longleftrightarrow> lseg h a xs y \<and> lseg h y ys b"
  by (induction xs arbitrary: a) auto

lemma lseg_frame:
  assumes "\<And>p. p \<in> set (a # xs) \<Longrightarrow> nextp h' p = nextp h p"
    and "\<And>p. p \<in> set (xs @ [b]) \<Longrightarrow> prevp h' p = prevp h p"
  shows "lseg h' a xs b = lseg h a xs b"
  using assms by (induction xs arbitrary: a) auto

lemma lseg_ends:
  assumes "lseg h a xs b"
  shows "nextp h a = hd (xs @ [b])" and "prevp h b = last (a # xs)"
  using assms by (induction xs arbitrary: a) auto

text \<open>Replacing the last link of a segment: what both insertions and the removal
  come down to.\<close>

lemma lseg_relink_last:
  assumes "lseg h a xs b" "distinct (a # xs)" "b \<notin> set xs" "c \<notin> set xs"
    and "\<And>p. p \<in> set (a # xs) \<Longrightarrow> p \<noteq> last (a # xs) \<Longrightarrow> nextp h' p = nextp h p"
    and "nextp h' (last (a # xs)) = c"
    and "\<And>p. p \<in> set xs \<Longrightarrow> prevp h' p = prevp h p" and "prevp h' c = last (a # xs)"
  shows "lseg h' a xs c"
  using assms
proof (induction xs arbitrary: a)
  case (Cons x xs)
  have "lseg h' x xs c"
    by (rule Cons.IH) (use Cons.prems in \<open>auto split: if_splits\<close>)
  moreover have "a \<noteq> last (x # xs)"
    using Cons.prems(2) last_in_set[of "x # xs"] by (metis distinct.simps(2) list.distinct(1))
  then have "nextp h' a = x" "prevp h' x = a"
    using Cons.prems by (auto split: if_splits)
  ultimately show ?case by simp
qed simp

section \<open>The operations on sequences\<close>

lemma rt_list_init_is_list: "is_list (rt_list_init l h) l []"
  by (simp add: is_list_def rt_list_init_def)

lemma is_list_rotate:
  "is_list h l (xs @ y # ys) \<longleftrightarrow> is_list h y (ys @ l # xs)"
  by (auto simp: is_list_def)

text \<open>Inserting before the list head appends.\<close>

lemma insert_before_head:
  assumes "is_list h l xs" and n: "n \<notin> set (l # xs)"
  shows "is_list (rt_list_insert_before l n h) l (xs @ [n])"
proof -
  have s: "lseg h l xs l" and d: "distinct (l # xs)" using assms(1) by (auto simp: is_list_def)
  note e = lseg_ends[OF s]
  have lst: "last (l # xs) \<in> set (l # xs)" by simp
  have "lseg (rt_list_insert_before l n h) l xs n"
    by (rule lseg_relink_last[OF s d])
      (use n d e lst in \<open>auto simp: rt_list_insert_before_def Let_def split: if_splits\<close>)
  moreover have "lseg (rt_list_insert_before l n h) n [] l"
    using n by (auto simp: rt_list_insert_before_def Let_def)
  ultimately show ?thesis using n d by (auto simp: is_list_def)
qed

text \<open>Inserting before an element: the priority-ordered insertions.\<close>

lemma insert_before_mid:
  assumes "is_list h l (xs @ y # ys)" and "n \<notin> set (l # xs @ y # ys)"
  shows "is_list (rt_list_insert_before y n h) l (xs @ n # y # ys)"
  using insert_before_head[of h y "ys @ l # xs" n] assms is_list_rotate[of _ l "xs @ [n]" y ys]
  by (auto simp: is_list_rotate)

lemma insert_after_eq_before:
  assumes "is_list h l xs" and "n \<notin> set (l # xs)"
  shows "rt_list_insert_after l n h = rt_list_insert_before (nextp h l) n h"
proof -
  have s: "lseg h l xs l" using assms(1) by (simp add: is_list_def)
  have p: "prevp h (nextp h l) = l" using s by (cases xs) auto
  have "nextp h l \<in> set (l # xs)" using s by (cases xs) auto
  then have "nextp h l \<noteq> n" "l \<noteq> n" using assms(2) by auto
  then show ?thesis using p
    by (simp add: rt_list_insert_after_def rt_list_insert_before_def Let_def
        set_next_def set_prev_def fun_eq_iff)
qed

text \<open>Inserting after the head pushes at the front.\<close>

lemma insert_after_head:
  assumes "is_list h l xs" and "n \<notin> set (l # xs)"
  shows "is_list (rt_list_insert_after l n h) l (n # xs)"
proof (cases xs)
  case Nil
  then show ?thesis
    using insert_before_head[OF assms] insert_after_eq_before[OF assms] assms(1)
    by (simp add: is_list_def)
next
  case (Cons x ys)
  then have "nextp h l = x" using assms(1) by (simp add: is_list_def)
  then show ?thesis
    using insert_before_mid[of h l "[]" x ys n] assms Cons insert_after_eq_before[OF assms] by simp
qed

lemma remove_last_elem:
  assumes "is_list h l (xs @ [n])"
  shows "is_list (rt_list_remove n h) l xs"
proof -
  have s: "lseg h l xs n" and n: "nextp h n = l" and d: "distinct (l # xs)" "n \<notin> set (l # xs)"
    using assms by (auto simp: is_list_def)
  note e = lseg_ends(2)[OF s]
  have "last (l # xs) \<in> set (l # xs)" by simp
  then have ne: "last (l # xs) \<noteq> n" using d(2) by metis
  have "lseg (rt_list_remove n h) l xs l"
    by (rule lseg_relink_last[OF s d(1)])
      (use d ne e n in \<open>auto simp: rt_list_remove_def Let_def split: if_splits\<close>)
  then show ?thesis using d by (simp add: is_list_def)
qed

lemma remove_elem:
  assumes "is_list h l (xs @ n # ys)"
  shows "is_list (rt_list_remove n h) l (xs @ ys)"
proof (cases ys)
  case Nil
  then show ?thesis using remove_last_elem assms by simp
next
  case (Cons y zs)
  then have "is_list h y ((zs @ l # xs) @ [n])"
    using assms is_list_rotate[of h l "xs @ [n]" y zs] by simp
  then have "is_list (rt_list_remove n h) y (zs @ l # xs)" by (rule remove_last_elem)
  then show ?thesis using Cons is_list_rotate[of _ l xs y zs] by simp
qed

lemma remove_detached: "detached (rt_list_remove n h) n"
  by (simp add: is_list_def rt_list_remove_def Let_def)

lemma isempty_iff: "is_list h l xs \<Longrightarrow> rt_list_isempty l h \<longleftrightarrow> xs = []"
  by (cases xs) (auto simp: is_list_def rt_list_isempty_def)

lemma len_loop:
  assumes "lseg h p xs l" and "l \<notin> set xs"
  shows "rt_list_len_loop h l p n = Some (n + of_nat (length xs))"
  using assms
proof (induction xs arbitrary: p n)
  case Nil
  then show ?case by (simp add: rt_list_len_loop.simps)
next
  case (Cons x xs)
  then show ?case by (simp add: rt_list_len_loop.simps[of h l p n] add.assoc)
qed

lemma len_is_list: "is_list h l xs \<Longrightarrow> rt_list_len l h = Some (of_nat (length xs))"
  using len_loop[of h l xs l 0] by (simp add: is_list_def rt_list_len_def)

section \<open>Frame\<close>

text \<open>A list that shares no node with the one an operation works on is left as it was.\<close>

lemma is_list_frame:
  assumes "is_list h l xs"
    and "\<And>p. p \<in> set (l # xs) \<Longrightarrow> nextp h' p = nextp h p \<and> prevp h' p = prevp h p"
  shows "is_list h' l xs"
proof -
  have "lseg h' l xs l = lseg h l xs l" by (rule lseg_frame) (use assms(2) in auto)
  then show ?thesis using assms(1) by (simp add: is_list_def)
qed

lemma links_inside:
  assumes "is_list h l xs" and "p \<in> set (l # xs)"
  shows "nextp h p \<in> set (l # xs)" and "prevp h p \<in> set (l # xs)"
proof -
  have "\<exists>ys. set (l # xs) = set (p # ys) \<and> is_list h p ys"
  proof (cases "p = l")
    case False
    with assms(2) obtain as bs where "xs = as @ p # bs" by (auto simp: in_set_conv_decomp)
    with assms(1) show ?thesis by (intro exI[of _ "bs @ l # as"]) (auto simp: is_list_rotate)
  qed (use assms in auto)
  then obtain ys where ys: "set (l # xs) = set (p # ys)" "lseg h p ys p" by (auto simp: is_list_def)
  have "hd (ys @ [p]) \<in> set (p # ys)" "last (p # ys) \<in> set (p # ys)" by (cases ys; simp)+
  then show "nextp h p \<in> set (l # xs)" and "prevp h p \<in> set (l # xs)"
    using lseg_ends[OF ys(2)] ys(1) by simp_all
qed

lemma insert_before_frame:
  assumes "is_list h k zs" and "is_list h l xs" and "p \<in> set (l # xs)"
    and "set (k # zs) \<inter> set (l # xs) = {}" and "n \<notin> set (k # zs)"
  shows "is_list (rt_list_insert_before p n h) k zs"
proof (rule is_list_frame[OF assms(1)])
  fix q assume q: "q \<in> set (k # zs)"
  have "q \<noteq> p" "q \<noteq> prevp h p" "q \<noteq> n"
    using q assms links_inside(2)[OF assms(2,3)] by auto
  then show "nextp (rt_list_insert_before p n h) q = nextp h q \<and>
      prevp (rt_list_insert_before p n h) q = prevp h q"
    by (simp add: rt_list_insert_before_def Let_def)
qed

lemma remove_frame:
  assumes "is_list h k zs" and "is_list h l xs" and "n \<in> set (l # xs)"
    and "set (k # zs) \<inter> set (l # xs) = {}"
  shows "is_list (rt_list_remove n h) k zs"
proof (rule is_list_frame[OF assms(1)])
  fix q assume q: "q \<in> set (k # zs)"
  have "q \<noteq> n" "q \<noteq> prevp h n" "q \<noteq> nextp h n"
    using q assms links_inside[OF assms(2,3)] by auto
  then show "nextp (rt_list_remove n h) q = nextp h q \<and> prevp (rt_list_remove n h) q = prevp h q"
    by (auto simp: rt_list_remove_def Let_def)
qed

section \<open>The sequence interface\<close>

text \<open>What the queues of the kernel rely on: a representation predicate, append,
  push and ordered insertion, and removal of any element.\<close>

locale linked_sequence =
  fixes repr :: "'h \<Rightarrow> 'n \<Rightarrow> 'n list \<Rightarrow> bool"
    and insert_after insert_before :: "'n \<Rightarrow> 'n \<Rightarrow> 'h \<Rightarrow> 'h"
    and remove :: "'n \<Rightarrow> 'h \<Rightarrow> 'h"
  assumes repr_distinct: "repr h l xs \<Longrightarrow> distinct (l # xs)"
    and push: "repr h l xs \<Longrightarrow> n \<notin> set (l # xs) \<Longrightarrow> repr (insert_after l n h) l (n # xs)"
    and append: "repr h l xs \<Longrightarrow> n \<notin> set (l # xs) \<Longrightarrow> repr (insert_before l n h) l (xs @ [n])"
    and insert_mid: "repr h l (xs @ y # ys) \<Longrightarrow> n \<notin> set (l # xs @ y # ys) \<Longrightarrow>
      repr (insert_before y n h) l (xs @ n # y # ys)"
    and delete: "repr h l (xs @ n # ys) \<Longrightarrow> repr (remove n h) l (xs @ ys)"
begin

lemma delete_removeAll:
  assumes "repr h l xs" and "n \<in> set xs"
  shows "repr (remove n h) l (removeAll n xs)"
proof -
  obtain as bs where xs: "xs = as @ n # bs" using assms(2) by (auto simp: in_set_conv_decomp)
  then have "n \<notin> set as" "n \<notin> set bs" using repr_distinct[OF assms(1)] by auto
  then show ?thesis using delete[of h l as n bs] assms(1) xs by simp
qed

text \<open>Append at the tail, take from the front: first in, first out.\<close>

lemma append_then_pop:
  assumes "repr h l (x # xs)" and "n \<notin> set (l # x # xs)"
  shows "repr (remove x (insert_before l n h)) l (xs @ [n])"
  using delete[of "insert_before l n h" l "[]" x "xs @ [n]"] append[OF assms] by simp

text \<open>Moving the first element to the tail: the round-robin of the scheduler.\<close>

lemma rotate_head:
  assumes "repr h l (x # xs)"
  shows "repr (insert_before l x (remove x h)) l (xs @ [x])"
proof -
  have "repr (remove x h) l xs" using delete[of h l "[]" x xs] assms by simp
  then show ?thesis using append repr_distinct[OF assms] by auto
qed

end

lemma is_list_distinct: "is_list h l xs \<Longrightarrow> distinct (l # xs)"
  by (simp add: is_list_def)

interpretation rl: linked_sequence is_list rt_list_insert_after rt_list_insert_before rt_list_remove
  by unfold_locales
    ((rule is_list_distinct insert_after_head insert_before_head insert_before_mid remove_elem;
      assumption)+)

lemma insert_before_at:
  assumes "is_list h l (xs @ ys)" and "n \<notin> set (l # xs @ ys)"
  shows "is_list (rt_list_insert_before (hd (ys @ [l])) n h) l (xs @ n # ys)"
  using assms rl.append[of h l xs n] rl.insert_mid[of h l xs "hd ys" "tl ys" n]
  by (cases ys) auto

lemma insert_after_at:
  assumes "is_list h l (xs @ ys)" and "n \<notin> set (l # xs @ ys)"
  shows "rt_list_insert_after (last (l # xs)) n h = rt_list_insert_before (hd (ys @ [l])) n h"
proof (cases xs rule: rev_cases)
  case Nil
  then show ?thesis
    using insert_after_eq_before[OF assms] assms(1) lseg_ends(1)[of h l "xs @ ys" l]
    by (simp add: is_list_def)
next
  case (snoc zs z)
  then have r: "is_list h z (ys @ l # zs)" using assms(1) is_list_rotate[of h l zs z ys] by simp
  then have "nextp h z = hd (ys @ [l])"
    using lseg_ends(1)[of h z "ys @ l # zs" z] by (cases ys) (auto simp: is_list_def)
  then show ?thesis using insert_after_eq_before[OF r] assms(2) snoc by auto
qed

section \<open>Properties\<close>

text \<open>C20: the pointer operations implement a sequence. On a list with elements
  \<open>xs @ ys\<close>, inserting a fresh node after the last of \<open>xs\<close> or before the first of
  \<open>ys\<close> yields \<open>xs @ n # ys\<close>; removing it again restores the sequence and leaves
  the node detached; \<open>rt_list_len\<close> terminates with the length,
  \<open>rt_list_isempty\<close> tells emptiness, and a list that shares no node is
  untouched.\<close>

theorem rt_list_implements_sequence:
  assumes "is_list h l (xs @ ys)" and "n \<notin> set (l # xs @ ys)"
    and "is_list h k zs" and "set (k # zs) \<inter> set (n # l # xs @ ys) = {}"
  shows "let h' = rt_list_insert_before (hd (ys @ [l])) n h in
    is_list h' l (xs @ n # ys) \<and>
    rt_list_insert_after (last (l # xs)) n h = h' \<and>
    is_list h' k zs \<and>
    is_list (rt_list_remove n h') l (xs @ ys) \<and> detached (rt_list_remove n h') n \<and>
    is_list (rt_list_remove n h') k zs \<and>
    rt_list_len l h' = Some (of_nat (Suc (length xs + length ys))) \<and>
    rt_list_isempty l h = (xs @ ys = [])"
proof -
  define h' where "h' = rt_list_insert_before (hd (ys @ [l])) n h"
  have at: "is_list h' l (xs @ n # ys)" unfolding h'_def by (rule insert_before_at[OF assms(1,2)])
  have "hd (ys @ [l]) \<in> set (l # xs @ ys)" by (cases ys) auto
  then have k: "is_list h' k zs"
    unfolding h'_def using assms by (intro insert_before_frame[OF assms(3,1)]) auto
  have "is_list (rt_list_remove n h') k zs"
    using assms(4) by (intro remove_frame[OF k at]) auto
  then show ?thesis
    using at k insert_after_at[OF assms(1,2)] remove_elem[OF at] remove_detached len_is_list[OF at]
      isempty_iff[OF assms(1)]
    by (simp add: h'_def[symmetric] Let_def)
qed

theorem rt_list_implements_sequence_witness:
  "let h = rt_list_init 0 (rt_list_init 5 \<lparr> nextp = id, prevp = id \<rparr>) in
   let h' = rt_list_insert_before (hd ([] @ [0])) 3 h in
   is_list h' 0 [3] \<and> is_list h' 5 [] \<and> rt_list_len 0 h' = Some 1"
  using rt_list_implements_sequence
    [of "rt_list_init 0 (rt_list_init 5 \<lparr> nextp = id, prevp = id \<rparr>)" 0 "[]" "[]" 3 5 "[]"]
  by (simp add: is_list_def rt_list_init_def Let_def)

end
