(* ===== verification/RtSList.thy ===== *)
theory RtSList
  imports Prelude
begin

text \<open>
  The singly linked lists of \<open>rt-thread/include/rtservice.h\<close> on a heap that gives the \<open>next\<close> pointer of every
  node, \<open>None\<close> for the null pointer, and the two list operations of \<open>ringblk_buf.c\<close> that also keep a pointer to
  the last node. A list head is a node. The loops that follow the pointers need not end on a cyclic list;
  they are shown to end on every list.
\<close>

section \<open>Operations\<close>

type_synonym snode = nat
type_synonym slist_heap = "snode \<Rightarrow> snode option"

definition rt_slist_init :: "snode \<Rightarrow> slist_heap \<Rightarrow> slist_heap" where
  "rt_slist_init l h = h(l := None)"

partial_function (option) rt_slist_tail :: "slist_heap \<Rightarrow> snode \<Rightarrow> snode option" where
  "rt_slist_tail h l = (case h l of None \<Rightarrow> Some l | Some n \<Rightarrow> rt_slist_tail h n)"

definition rt_slist_append :: "snode \<Rightarrow> snode \<Rightarrow> slist_heap \<Rightarrow> slist_heap option" where
  "rt_slist_append l n h = map_option (\<lambda>node. (h(node := Some n))(n := None)) (rt_slist_tail h l)"

definition rt_slist_insert :: "snode \<Rightarrow> snode \<Rightarrow> slist_heap \<Rightarrow> slist_heap" where
  "rt_slist_insert l n h = (h(n := h l))(l := Some n)"

partial_function (option) rt_slist_len_loop :: "slist_heap \<Rightarrow> snode option \<Rightarrow> nat \<Rightarrow> nat option" where
  "rt_slist_len_loop h list len = (case list of None \<Rightarrow> Some len | Some n \<Rightarrow> rt_slist_len_loop h (h n) (len + 1))"

definition rt_slist_len :: "snode \<Rightarrow> slist_heap \<Rightarrow> nat option" where
  "rt_slist_len l h = rt_slist_len_loop h (h l) 0"

text \<open>The node in front of \<open>n\<close>, or the last node.\<close>

partial_function (option) find_before :: "slist_heap \<Rightarrow> snode \<Rightarrow> snode \<Rightarrow> snode option" where
  "find_before h n node =
    (case h node of None \<Rightarrow> Some node | Some m \<Rightarrow> if m = n then Some node else find_before h n m)"

definition rt_slist_remove :: "snode \<Rightarrow> snode \<Rightarrow> slist_heap \<Rightarrow> slist_heap option" where
  "rt_slist_remove l n h =
    map_option (\<lambda>node. case h node of None \<Rightarrow> h | Some m \<Rightarrow> h(node := h m)) (find_before h n l)"

definition rt_slist_first :: "snode \<Rightarrow> slist_heap \<Rightarrow> snode option" where
  "rt_slist_first l h = h l"

definition rt_slist_next :: "snode \<Rightarrow> slist_heap \<Rightarrow> snode option" where
  "rt_slist_next n h = h n"

definition rt_slist_isempty :: "snode \<Rightarrow> slist_heap \<Rightarrow> bool" where
  "rt_slist_isempty l h \<longleftrightarrow> h l = None"

text \<open>The operations of the ring block buffer with its pointer to the last node.\<close>

definition list_append_node :: "snode \<Rightarrow> snode \<Rightarrow> slist_heap \<Rightarrow> slist_heap \<times> snode" where
  "list_append_node tail n h = ((h(tail := Some n))(n := None), n)"

definition list_remove_node :: "snode \<Rightarrow> snode \<Rightarrow> snode \<Rightarrow> slist_heap \<Rightarrow> (slist_heap \<times> snode) option" where
  "list_remove_node l tail n h =
    map_option (\<lambda>node. case h node of None \<Rightarrow> (h, tail)
        | Some m \<Rightarrow> ((h(node := h m))(n := None), if tail = n then node else tail))
      (find_before h n l)"

section \<open>Lists\<close>

text \<open>\<open>chain h l xs\<close>: the nodes behind \<open>l\<close> are \<open>xs\<close>.\<close>

fun chain :: "slist_heap \<Rightarrow> snode \<Rightarrow> snode list \<Rightarrow> bool" where
  "chain h l [] \<longleftrightarrow> h l = None"
| "chain h l (x # xs) \<longleftrightarrow> h l = Some x \<and> chain h x xs"

definition is_slist :: "slist_heap \<Rightarrow> snode \<Rightarrow> snode list \<Rightarrow> bool" where
  "is_slist h l xs \<longleftrightarrow> distinct (l # xs) \<and> chain h l xs"

lemma schain_cong: "(\<And>y. y \<in> set (l # xs) \<Longrightarrow> h y = h' y) \<Longrightarrow> chain h l xs = chain h' l xs"
  by (induction xs arbitrary: l) auto

text \<open>Writing outside a list does not change it.\<close>

lemma chain_upd [simp]: "a \<notin> set (l # xs) \<Longrightarrow> chain (h(a := v)) l xs = chain h l xs"
  by (rule schain_cong) auto

lemma chain_last: "chain h l xs \<Longrightarrow> h (last (l # xs)) = None"
  by (induction xs arbitrary: l) auto

lemma tail_last: "chain h l xs \<Longrightarrow> rt_slist_tail h l = Some (last (l # xs))"
  by (induction xs arbitrary: l) (subst rt_slist_tail.simps, simp)+

lemma len_length: "chain h l xs \<Longrightarrow> rt_slist_len_loop h (h l) k = Some (k + length xs)"
  by (induction xs arbitrary: l k) (subst rt_slist_len_loop.simps, simp)+

lemma schain_snoc:
  "chain h l xs \<Longrightarrow> distinct (l # xs) \<Longrightarrow> n \<notin> set (l # xs) \<Longrightarrow> chain ((h(last (l # xs) := Some n))(n := None)) l (xs @ [n])"
proof (induction xs arbitrary: l)
  case (Cons x xs)
  have "last (x # xs) \<noteq> l" using Cons.prems by (auto split: if_splits dest: last_in_set)
  then show ?case using Cons.IH[of x] Cons.prems by auto
qed simp

lemma find_before_last: "chain h l xs \<Longrightarrow> n \<notin> set xs \<Longrightarrow> find_before h n l = Some (last (l # xs))"
  by (induction xs arbitrary: l) (subst find_before.simps, simp)+

lemma find_before_in:
  "chain h l (xs @ n # ys) \<Longrightarrow> n \<notin> set xs \<Longrightarrow> find_before h n l = Some (last (l # xs)) \<and> h (last (l # xs)) = Some n"
  by (induction xs arbitrary: l) (subst find_before.simps, simp)+

lemma chain_split: "chain h l (xs @ ys) \<Longrightarrow> chain h (last (l # xs)) ys"
  by (induction xs arbitrary: l) auto

lemma chain_unlink:
  "chain h l (xs @ n # ys) \<Longrightarrow> distinct (l # xs @ n # ys) \<Longrightarrow> chain (h(last (l # xs) := h n)) l (xs @ ys)"
proof (induction xs arbitrary: l)
  case Nil
  then show ?case
  proof (cases ys)
    case (Cons a as)
    have "chain (h(l := h n)) a as" using Nil Cons by (subst chain_upd) auto
    moreover have "(h(l := h n)) l = Some a" using Nil Cons by simp
    ultimately show ?thesis using Cons by (simp only: append_Nil last_ConsL chain.simps)
  qed simp
next
  case (Cons x xs)
  have "last (x # xs) \<noteq> l" using Cons.prems by (auto split: if_splits dest: last_in_set)
  then show ?case using Cons.IH[of x] Cons.prems by auto
qed

section \<open>The operations on sequences\<close>

text \<open>On a heap in which \<open>l\<close> heads the list \<open>xs\<close> and \<open>n\<close> is a node outside it, the singly linked list
  operations are those of sequences: insertion puts the node in front, appending behind, removal drops a node
  (and changes nothing for a node that is not in the list), the length, the first and the last node
  are those of \<open>xs\<close>; and the loops over the list end. Appending and removing
  with a pointer to the last node, as the ring block buffer does, keep that pointer right.\<close>

theorem rt_slist_implements_sequence:
  assumes "is_slist h l xs" and "n \<notin> set (l # xs)" and "m \<in> set xs"
  shows "is_slist (rt_slist_insert l n h) l (n # xs)
    \<and> (\<exists>h'. rt_slist_append l n h = Some h' \<and> is_slist h' l (xs @ [n]))
    \<and> (\<exists>h'. rt_slist_remove l m h = Some h' \<and> is_slist h' l (remove1 m xs))
    \<and> rt_slist_remove l n h = Some h
    \<and> rt_slist_len l h = Some (length xs)
    \<and> rt_slist_first l h = Some (hd xs) \<and> rt_slist_tail h l = Some (last xs)
    \<and> is_slist (fst (list_append_node (last xs) n h)) l (xs @ [n])
    \<and> (\<exists>h' t. list_remove_node l (last xs) m h = Some (h', t) \<and> is_slist h' l (remove1 m xs) \<and> t = last (l # remove1 m xs))"
proof -
  have c: "chain h l xs" and d: "distinct (l # xs)" using assms(1) by (auto simp: is_slist_def)
  have ne: "xs \<noteq> []" using assms(3) by auto
  then have lx: "last (l # xs) = last xs" by simp
  obtain as bs where ab: "xs = as @ m # bs" "m \<notin> set as" using split_list_first[OF assms(3)] by blast
  have r: "remove1 m xs = as @ bs" using ab by (simp add: remove1_append)
  define p where "p = last (l # as)"
  note f = find_before_in[OF c[unfolded ab(1)] ab(2), folded p_def]
  have u: "chain (h(p := h m)) l (as @ bs)" unfolding p_def using c d by (intro chain_unlink) (simp_all add: ab(1))
  have db: "distinct (l # as @ bs)" using d ab(1) by auto
  have ml: "m \<notin> set (l # as @ bs)" using d ab(1) by auto
  have sn: "chain ((h(last xs := Some n))(n := None)) l (xs @ [n])" using schain_snoc[OF c d assms(2)] lx by simp
  have tl: "(if last xs = m then p else last xs) = last (l # as @ bs)"
    using ab(1) d by (cases bs rule: rev_cases) (auto simp: p_def)
  show ?thesis
  proof (intro conjI)
    show "is_slist (rt_slist_insert l n h) l (n # xs)"
      using c d assms(2) by (cases xs) (auto simp: is_slist_def rt_slist_insert_def fun_upd_twist)
    show "\<exists>h'. rt_slist_append l n h = Some h' \<and> is_slist h' l (xs @ [n])"
      using sn d assms(2) tail_last[OF c] lx by (simp add: rt_slist_append_def is_slist_def)
    show "\<exists>h'. rt_slist_remove l m h = Some h' \<and> is_slist h' l (remove1 m xs)"
      using f u db by (simp add: rt_slist_remove_def is_slist_def r)
    show "rt_slist_remove l n h = Some h"
      using find_before_last[OF c] assms(2) chain_last[OF c] by (simp add: rt_slist_remove_def)
    show "rt_slist_len l h = Some (length xs)" using len_length[OF c, of 0] by (simp add: rt_slist_len_def)
    show "rt_slist_first l h = Some (hd xs)" using c ne by (cases xs) (auto simp: rt_slist_first_def)
    show "rt_slist_tail h l = Some (last xs)" using tail_last[OF c] lx by simp
    show "is_slist (fst (list_append_node (last xs) n h)) l (xs @ [n])"
      using sn d assms(2) by (simp add: list_append_node_def is_slist_def)
    show "\<exists>h' t. list_remove_node l (last xs) m h = Some (h', t) \<and> is_slist h' l (remove1 m xs) \<and> t = last (l # remove1 m xs)"
      using f u db ml tl by (simp add: list_remove_node_def is_slist_def r)
  qed
qed

theorem rt_slist_implements_sequence_witness:
  "\<exists>h'. rt_slist_remove 0 2 ((\<lambda>_. None)(0 := Some 1, 1 := Some 2, 2 := Some 3)) = Some h' \<and> is_slist h' 0 [1, 3]"
  using rt_slist_implements_sequence[of "(\<lambda>_. None)(0 := Some 1, 1 := Some 2, 2 := Some 3)" 0 "[1, 2, 3]" 4 2]
  by (simp add: is_slist_def)

end
