(* ===== verification/KString.thy ===== *)
theory KString
  imports Prelude
begin

text \<open>
  The kernel's memory and string routines (\<open>rt-thread/src/klibc/kstring.c\<close>) on
  a byte-addressed memory. The word-at-a-time bodies of \<open>rt_memset\<close> and
  \<open>rt_memcpy\<close> are modelled with their four-word and one-word loops on
  little-endian 32-bit accesses and are shown equal to the byte-wise
  specification. Routines that scan for a terminating zero may run forever, so
  they answer an option. \<open>char\<close> is unsigned on this target.
\<close>

section \<open>Memory\<close>

type_synonym memory = "nat \<Rightarrow> byte"

definition load_word :: "memory \<Rightarrow> nat \<Rightarrow> u32" where
  "load_word m a = ucast (m a) OR push_bit 8 (ucast (m (a + 1)))
     OR push_bit 16 (ucast (m (a + 2))) OR push_bit 24 (ucast (m (a + 3)))"

definition store_word :: "memory \<Rightarrow> nat \<Rightarrow> u32 \<Rightarrow> memory" where
  "store_word m a w = m(a := ucast w, a + 1 := ucast (drop_bit 8 w),
     a + 2 := ucast (drop_bit 16 w), a + 3 := ucast (drop_bit 24 w))"

abbreviation LBLOCKSIZE :: nat where "LBLOCKSIZE \<equiv> 4"
abbreviation BIGBLOCKSIZE :: nat where "BIGBLOCKSIZE \<equiv> 16"

section \<open>rt\_memset\<close>

fun memset_bytes :: "memory \<Rightarrow> nat \<Rightarrow> byte \<Rightarrow> nat \<Rightarrow> memory" where
  "memset_bytes m p d 0 = m"
| "memset_bytes m p d (Suc cnt) = memset_bytes (m(p := d)) (p + 1) d cnt"

function memset_words :: "memory \<Rightarrow> nat \<Rightarrow> u32 \<Rightarrow> nat \<Rightarrow> memory \<times> nat \<times> nat" where
  "memset_words m a buffer cnt =
    (if cnt \<ge> LBLOCKSIZE then memset_words (store_word m a buffer) (a + 4) buffer (cnt - LBLOCKSIZE)
     else (m, a, cnt))"
  by auto
termination by (relation "measure (\<lambda>(m, a, b, c). c)") auto

function memset_quads :: "memory \<Rightarrow> nat \<Rightarrow> u32 \<Rightarrow> nat \<Rightarrow> memory \<times> nat \<times> nat" where
  "memset_quads m a buffer cnt =
    (if cnt \<ge> LBLOCKSIZE * 4 then
       let m = store_word m a buffer;
           m = store_word m (a + 4) buffer;
           m = store_word m (a + 8) buffer;
           m = store_word m (a + 12) buffer
       in memset_quads m (a + 16) buffer (cnt - 4 * LBLOCKSIZE)
     else (m, a, cnt))"
  by auto
termination by (relation "measure (\<lambda>(m, a, b, c). c)") auto

definition rt_memset :: "memory \<Rightarrow> nat \<Rightarrow> u32 \<Rightarrow> nat \<Rightarrow> memory" where
  "rt_memset m s c cnt =
    (let d = ucast c :: byte in
     if \<not> cnt < LBLOCKSIZE \<and> s mod LBLOCKSIZE = 0 then
       let buffer = ucast d OR push_bit 8 (ucast d) OR push_bit 16 (ucast d) OR push_bit 24 (ucast d);
           (m, a, cnt) = memset_quads m s buffer cnt;
           (m, a, cnt) = memset_words m a buffer cnt
       in memset_bytes m a d cnt
     else memset_bytes m s d cnt)"

section \<open>rt\_memcpy and rt\_memmove\<close>

fun memcpy_bytes :: "memory \<Rightarrow> nat \<Rightarrow> nat \<Rightarrow> nat \<Rightarrow> memory" where
  "memcpy_bytes m d s 0 = m"
| "memcpy_bytes m d s (Suc len) = memcpy_bytes (m(d := m s)) (d + 1) (s + 1) len"

function memcpy_words :: "memory \<Rightarrow> nat \<Rightarrow> nat \<Rightarrow> nat \<Rightarrow> memory \<times> nat \<times> nat \<times> nat" where
  "memcpy_words m d s len =
    (if len \<ge> LBLOCKSIZE then
       memcpy_words (store_word m d (load_word m s)) (d + 4) (s + 4) (len - LBLOCKSIZE)
     else (m, d, s, len))"
  by auto
termination by (relation "measure (\<lambda>(m, d, s, l). l)") auto

function memcpy_quads :: "memory \<Rightarrow> nat \<Rightarrow> nat \<Rightarrow> nat \<Rightarrow> memory \<times> nat \<times> nat \<times> nat" where
  "memcpy_quads m d s len =
    (if len \<ge> BIGBLOCKSIZE then
       let m = store_word m d (load_word m s);
           m = store_word m (d + 4) (load_word m (s + 4));
           m = store_word m (d + 8) (load_word m (s + 8));
           m = store_word m (d + 12) (load_word m (s + 12))
       in memcpy_quads m (d + 16) (s + 16) (len - BIGBLOCKSIZE)
     else (m, d, s, len))"
  by auto
termination by (relation "measure (\<lambda>(m, d, s, l). l)") auto

definition rt_memcpy :: "memory \<Rightarrow> nat \<Rightarrow> nat \<Rightarrow> nat \<Rightarrow> memory" where
  "rt_memcpy m dst src cnt =
    (if \<not> cnt < BIGBLOCKSIZE \<and> src mod 4 = 0 \<and> dst mod 4 = 0 then
       let (m, d, s, len) = memcpy_quads m dst src cnt;
           (m, d, s, len) = memcpy_words m d s len
       in memcpy_bytes m d s len
     else memcpy_bytes m dst src cnt)"

fun memmove_down :: "memory \<Rightarrow> nat \<Rightarrow> nat \<Rightarrow> nat \<Rightarrow> memory" where
  "memmove_down m tmp s 0 = m"
| "memmove_down m tmp s (Suc n) = memmove_down (m(tmp - 1 := m (s - 1))) (tmp - 1) (s - 1) n"

definition rt_memmove :: "memory \<Rightarrow> nat \<Rightarrow> nat \<Rightarrow> nat \<Rightarrow> memory" where
  "rt_memmove m dest src n =
    (if src < dest \<and> dest < src + n then memmove_down m (dest + n) (src + n) n
     else memcpy_bytes m dest src n)"

section \<open>Comparison\<close>

fun rt_memcmp :: "memory \<Rightarrow> nat \<Rightarrow> nat \<Rightarrow> nat \<Rightarrow> int" where
  "rt_memcmp m cs ct 0 = 0"
| "rt_memcmp m cs ct (Suc cnt) =
    (let res = uint (m cs) - uint (m ct) in
     if res \<noteq> 0 then res else rt_memcmp m (cs + 1) (ct + 1) cnt)"

text \<open>\<open>rt_strncmp\<close> keeps the difference in a \<open>signed char\<close>: the low eight bits,
  read as a signed number.\<close>

fun strncmp_loop :: "memory \<Rightarrow> nat \<Rightarrow> nat \<Rightarrow> nat \<Rightarrow> byte \<Rightarrow> byte" where
  "strncmp_loop m cs ct 0 res = res"
| "strncmp_loop m cs ct (Suc cnt) res =
    (let res = m cs - m ct in
     if res \<noteq> 0 \<or> m cs = 0 then res else strncmp_loop m (cs + 1) (ct + 1) cnt res)"

definition rt_strncmp :: "memory \<Rightarrow> nat \<Rightarrow> nat \<Rightarrow> nat \<Rightarrow> int" where
  "rt_strncmp m cs ct cnt = sint (strncmp_loop m cs ct cnt 0)"

partial_function (option) rt_strcmp :: "memory \<Rightarrow> nat \<Rightarrow> nat \<Rightarrow> int option" where
  "rt_strcmp m cs ct =
    (if m cs \<noteq> 0 \<and> m cs = m ct then rt_strcmp m (cs + 1) (ct + 1)
     else Some (uint (m cs) - uint (m ct)))"

definition lower :: "byte \<Rightarrow> int" where
  "lower c = (let ca = uint c in if 65 \<le> ca \<and> ca \<le> 90 then ca + (97 - 65) else ca)"

partial_function (option) rt_strcasecmp :: "memory \<Rightarrow> nat \<Rightarrow> nat \<Rightarrow> int option" where
  "rt_strcasecmp m a b =
    (let ca = lower (m a); cb = lower (m b) in
     if ca = cb \<and> ca \<noteq> 0 then rt_strcasecmp m (a + 1) (b + 1) else Some (ca - cb))"

section \<open>Strings\<close>

partial_function (option) strlen_from :: "memory \<Rightarrow> nat \<Rightarrow> nat option" where
  "strlen_from m sc = (if m sc \<noteq> 0 then strlen_from m (sc + 1) else Some sc)"

definition rt_strlen :: "memory \<Rightarrow> nat \<Rightarrow> nat option" where
  "rt_strlen m s = map_option (\<lambda>sc. sc - s) (strlen_from m s)"

function strnlen_from :: "memory \<Rightarrow> nat \<Rightarrow> nat \<Rightarrow> nat \<Rightarrow> nat" where
  "strnlen_from m s sc maxlen =
    (if m sc \<noteq> 0 \<and> sc - s < maxlen then strnlen_from m s (sc + 1) maxlen else sc)"
  by auto
termination by (relation "measure (\<lambda>(m, s, sc, maxlen). s + maxlen - sc)") auto

definition rt_strnlen :: "memory \<Rightarrow> nat \<Rightarrow> nat \<Rightarrow> nat" where
  "rt_strnlen m s maxlen = strnlen_from m s s maxlen - s"

fun rt_strncpy :: "memory \<Rightarrow> nat \<Rightarrow> nat \<Rightarrow> nat \<Rightarrow> memory" where
  "rt_strncpy m d s 0 = m"
| "rt_strncpy m d s (Suc n) =
    (let m' = m(d := m s) in
     if m s = 0 then memset_bytes m' (d + 1) 0 n else rt_strncpy m' (d + 1) (s + 1) n)"

partial_function (option) rt_strcpy :: "memory \<Rightarrow> nat \<Rightarrow> nat \<Rightarrow> memory option" where
  "rt_strcpy m d s =
    (if m s \<noteq> 0 then rt_strcpy (m(d := m s)) (d + 1) (s + 1) else Some (m(d := 0)))"

fun strstr_loop :: "memory \<Rightarrow> nat \<Rightarrow> nat \<Rightarrow> nat \<Rightarrow> nat \<Rightarrow> nat option" where
  "strstr_loop m s1 s2 0 l2 = (if l2 \<le> 0 then (if rt_memcmp m s1 s2 l2 = 0 then Some s1 else None) else None)"
| "strstr_loop m s1 s2 (Suc l1) l2 =
    (if Suc l1 \<ge> l2 then
       if rt_memcmp m s1 s2 l2 = 0 then Some s1 else strstr_loop m (s1 + 1) s2 l1 l2
     else None)"

text \<open>\<open>Some r\<close> when both scans terminate, with \<open>r\<close> the found address or
  \<open>None\<close> for \<open>RT_NULL\<close>.\<close>

definition rt_strstr :: "memory \<Rightarrow> nat \<Rightarrow> nat \<Rightarrow> nat option option" where
  "rt_strstr m s1 s2 =
    (case rt_strlen m s2 of None \<Rightarrow> None
     | Some l2 \<Rightarrow> if l2 = 0 then Some (Some s1) else
         (case rt_strlen m s1 of None \<Rightarrow> None
          | Some l1 \<Rightarrow> Some (strstr_loop m s1 s2 l1 l2)))"

text \<open>\<open>rt_malloc\<close> stands for the allocator: a block, or \<open>None\<close> for \<open>RT_NULL\<close>.\<close>

definition rt_strdup :: "memory \<Rightarrow> nat \<Rightarrow> (nat \<Rightarrow> nat option) \<Rightarrow> (nat option \<times> memory) option" where
  "rt_strdup m s rt_malloc =
    (case rt_strlen m s of None \<Rightarrow> None
     | Some n \<Rightarrow> let len = n + 1 in
        (case rt_malloc len of None \<Rightarrow> Some (None, m)
         | Some tmp \<Rightarrow> Some (Some tmp, rt_memcpy m tmp s len)))"

section \<open>Byte-wise specifications\<close>

definition fill :: "memory \<Rightarrow> nat \<Rightarrow> nat \<Rightarrow> byte \<Rightarrow> memory" where
  "fill m s n d = (\<lambda>p. if s \<le> p \<and> p < s + n then d else m p)"

definition copy :: "memory \<Rightarrow> nat \<Rightarrow> nat \<Rightarrow> nat \<Rightarrow> memory" where
  "copy m d s n = (\<lambda>p. if d \<le> p \<and> p < d + n then m (s + (p - d)) else m p)"

lemma fill_0 [simp]: "fill m s 0 d = m"
  by (auto simp: fill_def fun_eq_iff)

lemma copy_0 [simp]: "copy m d s 0 = m"
  by (auto simp: copy_def fun_eq_iff)

lemma fill_fill: "fill (fill m s a d) (s + a) b d = fill m s (a + b) d"
  by (auto simp: fill_def fun_eq_iff)

lemma copy_copy:
  assumes "d \<le> s \<or> s + (a + b) \<le> d"
  shows "copy (copy m d s a) (d + a) (s + a) b = copy m d s (a + b)"
  using assms by (auto simp: copy_def fun_eq_iff intro!: arg_cong[of _ _ m])

lemma memset_bytes_fill: "memset_bytes m p d n = fill m p n d"
proof (induction n arbitrary: m p)
  case (Suc n)
  have "fill (m(p := d)) (p + 1) n d = fill m p (Suc n) d" by (auto simp: fill_def fun_eq_iff)
  with Suc show ?case by (simp add: fun_upd_def)
qed simp

lemma memcpy_bytes_copy:
  assumes "d \<le> s \<or> s + n \<le> d"
  shows "memcpy_bytes m d s n = copy m d s n"
  using assms
proof (induction n arbitrary: m d s)
  case (Suc n)
  have "m(d := m s) = copy m d s 1" by (auto simp: copy_def fun_eq_iff)
  with Suc copy_copy[of d s 1 n m] show ?case by auto
qed simp

subsection \<open>Word accesses\<close>

lemma store_load_word:
  "store_word m a (load_word m' s) =
   m(a := m' s, a + 1 := m' (s + 1), a + 2 := m' (s + 2), a + 3 := m' (s + 3))"
proof -
  have "ucast (load_word m' s) = m' s" "ucast (drop_bit 8 (load_word m' s)) = m' (s + 1)"
    "ucast (drop_bit 16 (load_word m' s)) = m' (s + 2)"
    "ucast (drop_bit 24 (load_word m' s)) = m' (s + 3)"
    by (rule bit_eqI; auto simp: load_word_def bit_simps dest: bit_imp_le_length)+
  then show ?thesis by (simp add: store_word_def)
qed

lemma store_fill_word:
  "store_word m a (ucast d OR push_bit 8 (ucast d) OR push_bit 16 (ucast d) OR push_bit 24 (ucast d))
   = fill m a 4 d" for d :: byte
proof -
  have "store_word m a (load_word (\<lambda>_. d) 0) = m(a := d, a + 1 := d, a + 2 := d, a + 3 := d)"
    by (simp add: store_load_word)
  also have "\<dots> = fill m a 4 d" by (auto simp: fill_def fun_eq_iff)
  finally show ?thesis by (simp add: load_word_def)
qed

lemma store_copy_word:
  assumes "d \<le> s \<or> s + 4 \<le> d"
  shows "store_word m d (load_word m s) = copy m d s 4"
proof
  fix p
  consider "p < d" | "p = d" | "p = d + 1" | "p = d + 2" | "p = d + 3" | "d + 4 \<le> p" by linarith
  then show "store_word m d (load_word m s) p = copy m d s 4 p"
    unfolding store_load_word copy_def by cases auto
qed

lemma copy_words4:
  assumes "d + 4 \<le> s \<or> s = d \<or> s + 16 \<le> d"
  shows "copy (copy (copy (copy m d s 4) (d + 4) (s + 4) 4) (d + 8) (s + 8) 4) (d + 12) (s + 12) 4
    = copy m d s 16"
proof -
  have o: "d \<le> s \<or> s + (4 + 4) \<le> d" "d \<le> s \<or> s + (8 + 4) \<le> d" "d \<le> s \<or> s + (12 + 4) \<le> d"
    using assms by auto
  show ?thesis
    using copy_copy[OF o(1), of m] copy_copy[OF o(2), of m] copy_copy[OF o(3), of m] by simp
qed

section \<open>The loops meet the specifications\<close>

declare memset_words.simps [simp del] memset_quads.simps [simp del]
  memcpy_words.simps [simp del] memcpy_quads.simps [simp del] strnlen_from.simps [simp del]

definition spread :: "byte \<Rightarrow> u32" where
  "spread d = ucast d OR push_bit 8 (ucast d) OR push_bit 16 (ucast d) OR push_bit 24 (ucast d)"

lemma memset_words_fill:
  "case memset_words m a (spread d) n of (m', a', n') \<Rightarrow> fill m' a' n' d = fill m a n d"
proof (induction n arbitrary: m a rule: less_induct)
  case (less n)
  show ?case
  proof (cases "4 \<le> n")
    case True
    then show ?thesis
      using less.IH[of "n - 4" "store_word m a (spread d)" "a + 4"] fill_fill[of m a 4 d "n - 4"]
      by (simp add: memset_words.simps[of m] store_fill_word spread_def)
  qed (simp add: memset_words.simps)
qed

lemma memset_quads_fill:
  "case memset_quads m a (spread d) n of (m', a', n') \<Rightarrow> fill m' a' n' d = fill m a n d"
proof (induction n arbitrary: m a rule: less_induct)
  case (less n)
  show ?case
  proof (cases "16 \<le> n")
    case True
    have "fill (fill (fill (fill m a 4 d) (a + 4) 4 d) (a + 8) 4 d) (a + 12) 4 d = fill m a 16 d"
      using fill_fill[of m a 4 d 4] fill_fill[of m a 8 d 4] fill_fill[of m a 12 d 4] by simp
    then show ?thesis
      using less.IH[of "n - 16" "fill m a 16 d" "a + 16"] fill_fill[of m a 16 d "n - 16"] True
      by (simp add: memset_quads.simps[of m] store_fill_word spread_def Let_def)
  qed (simp add: memset_quads.simps)
qed

lemma rt_memset_fill: "rt_memset m s c n = fill m s n (ucast c)"
proof -
  let ?d = "ucast c :: byte"
  obtain m1 a1 n1 where q: "memset_quads m s (spread ?d) n = (m1, a1, n1)" by (metis prod_cases3)
  obtain m2 a2 n2 where w: "memset_words m1 a1 (spread ?d) n1 = (m2, a2, n2)" by (metis prod_cases3)
  have "fill m2 a2 n2 ?d = fill m s n ?d"
    using memset_quads_fill[where m = m and a = s and d = ?d and n = n] memset_words_fill[where m = m1 and a = a1 and d = ?d and n = n1] q w by simp
  then show ?thesis
    using q w by (simp add: rt_memset_def memset_bytes_fill Let_def spread_def[symmetric])
qed

lemma memcpy_words_copy:
  assumes "d + 4 \<le> s \<or> s = d \<or> s + n \<le> d"
  shows "case memcpy_words m d s n of (m', d', s', n') \<Rightarrow>
    copy m' d' s' n' = copy m d s n \<and> (d' \<le> s' \<or> s' + n' \<le> d')"
  using assms
proof (induction n arbitrary: m d s rule: less_induct)
  case (less n)
  show ?case
  proof (cases "4 \<le> n")
    case True
    have "d + 4 + 4 \<le> s + 4 \<or> s + 4 = d + 4 \<or> s + 4 + (n - 4) \<le> d + 4"
      and o: "d \<le> s \<or> s + 4 \<le> d" "d \<le> s \<or> s + (4 + (n - 4)) \<le> d"
      using less.prems True by auto
    then show ?thesis
      using less.IH[of "n - 4" "d + 4" "s + 4" "copy m d s 4"] copy_copy[OF o(2), of m]
        store_copy_word[OF o(1)] True
      by (simp add: memcpy_words.simps[of m])
  qed (use less.prems in \<open>auto simp: memcpy_words.simps\<close>)
qed

lemma memcpy_quads_copy:
  assumes "d + 4 \<le> s \<or> s = d \<or> s + n \<le> d"
  shows "case memcpy_quads m d s n of (m', d', s', n') \<Rightarrow>
    copy m' d' s' n' = copy m d s n \<and> (d' + 4 \<le> s' \<or> s' = d' \<or> s' + n' \<le> d')"
  using assms
proof (induction n arbitrary: m d s rule: less_induct)
  case (less n)
  show ?case
  proof (cases "16 \<le> n")
    case True
    have p: "d + 16 + 4 \<le> s + 16 \<or> s + 16 = d + 16 \<or> s + 16 + (n - 16) \<le> d + 16"
      and o: "d \<le> s \<or> s + 4 \<le> d" "d + 4 \<le> s + 4 \<or> s + 4 + 4 \<le> d + 4"
        "d + 8 \<le> s + 8 \<or> s + 8 + 4 \<le> d + 8" "d + 12 \<le> s + 12 \<or> s + 12 + 4 \<le> d + 12"
      and c: "d \<le> s \<or> s + (16 + (n - 16)) \<le> d" "d + 4 \<le> s \<or> s = d \<or> s + 16 \<le> d"
      using less.prems True by auto
    then show ?thesis
      using less.IH[of "n - 16" "d + 16" "s + 16" "copy m d s 16"] copy_copy[OF c(1), of m] True
      by (simp add: memcpy_quads.simps[of m] store_copy_word[OF o(1)] store_copy_word[OF o(2)]
          store_copy_word[OF o(3)] store_copy_word[OF o(4)] copy_words4[OF c(2)] Let_def)
  qed (use less.prems in \<open>auto simp: memcpy_quads.simps\<close>)
qed

lemma rt_memcpy_copy:
  assumes "dst \<le> src \<or> src + n \<le> dst"
  shows "rt_memcpy m dst src n = copy m dst src n"
proof (cases "\<not> n < 16 \<and> src mod 4 = 0 \<and> dst mod 4 = 0")
  case True
  then have "dst < src \<Longrightarrow> dst + 4 \<le> src" by presburger
  then have o: "dst + 4 \<le> src \<or> src = dst \<or> src + n \<le> dst" using assms by linarith
  obtain m1 d1 s1 n1 where q: "memcpy_quads m dst src n = (m1, d1, s1, n1)" by (metis prod_cases4)
  obtain m2 d2 s2 n2 where w: "memcpy_words m1 d1 s1 n1 = (m2, d2, s2, n2)" by (metis prod_cases4)
  have "copy m2 d2 s2 n2 = copy m dst src n" "d2 \<le> s2 \<or> s2 + n2 \<le> d2"
    using memcpy_quads_copy[OF o, of m] memcpy_words_copy[of d1 s1 n1 m1] q w by auto
  then show ?thesis
    using True q w by (simp add: rt_memcpy_def memcpy_bytes_copy)
next
  case False
  then show ?thesis using assms by (auto simp: rt_memcpy_def memcpy_bytes_copy)
qed

lemma memmove_down_copy:
  assumes "s \<le> d"
  shows "memmove_down m (d + n) (s + n) n = copy m d s n"
proof (induction n arbitrary: m)
  case (Suc n)
  have "copy (m(d + n := m (s + n))) d s n = copy m d s (Suc n)"
    using assms by (auto simp: copy_def fun_eq_iff less_Suc_eq)
  with Suc show ?case by (simp add: fun_upd_def)
qed simp

lemma rt_memmove_copy: "rt_memmove m dest src n = copy m dest src n"
  using memmove_down_copy[of src dest m n] memcpy_bytes_copy[of dest src n m]
  by (auto simp: rt_memmove_def)

section \<open>Zero-terminated strings\<close>

definition cstr :: "memory \<Rightarrow> nat \<Rightarrow> byte list \<Rightarrow> bool" where
  "cstr m a xs \<longleftrightarrow> (\<forall>i < length xs. m (a + i) = xs ! i) \<and> 0 \<notin> set xs \<and> m (a + length xs) = 0"

lemma cstr_Nil [simp]: "cstr m a [] \<longleftrightarrow> m a = 0"
  by (simp add: cstr_def)

lemma cstr_Cons [simp]:
  "cstr m a (x # xs) \<longleftrightarrow> m a = x \<and> x \<noteq> 0 \<and> cstr m (a + 1) xs"
  by (auto simp: cstr_def nth_Cons all_less_Suc_split less_Suc_eq_0_disj)

lemma strlen_from_cstr: "cstr m a xs \<Longrightarrow> strlen_from m a = Some (a + length xs)"
  by (induction xs arbitrary: a) (simp_all add: strlen_from.simps[of m])

lemma rt_strlen_cstr: "cstr m a xs \<Longrightarrow> rt_strlen m a = Some (length xs)"
  by (simp add: rt_strlen_def strlen_from_cstr)

lemma strnlen_from_cstr:
  "cstr m a xs \<Longrightarrow> s \<le> a \<Longrightarrow> a - s \<le> k \<Longrightarrow> strnlen_from m s a k = min (a + length xs) (s + k)"
proof (induction xs arbitrary: a)
  case Nil
  then show ?case by (simp add: strnlen_from.simps)
next
  case (Cons x xs)
  then show ?case
    by (cases "a - s < k") (auto simp: strnlen_from.simps[of m s a k])
qed

lemma rt_strnlen_cstr: "cstr m a xs \<Longrightarrow> rt_strnlen m a k = min (length xs) k"
  using strnlen_from_cstr[of m a xs a k] by (simp add: rt_strnlen_def min_def)

text \<open>The reference comparison: the difference of the first bytes that differ.\<close>

fun str_diff :: "(byte \<Rightarrow> int) \<Rightarrow> byte list \<Rightarrow> byte list \<Rightarrow> int" where
  "str_diff f [] [] = 0"
| "str_diff f [] (y # ys) = - f y"
| "str_diff f (x # xs) [] = f x"
| "str_diff f (x # xs) (y # ys) = (if f x = f y then str_diff f xs ys else f x - f y)"

lemma str_diff_0:
  assumes "\<And>x. f x = 0 \<longleftrightarrow> x = 0" and "0 \<notin> set xs" and "0 \<notin> set ys"
  shows "str_diff f xs ys = 0 \<longleftrightarrow> map f xs = map f ys"
  using assms by (induction f xs ys rule: str_diff.induct) auto

lemma str_diff_sym: "str_diff f ys xs = - str_diff f xs ys"
  by (induction f xs ys rule: str_diff.induct) auto

lemma byte_uint [simp]:
  "uint (x :: byte) = uint y \<longleftrightarrow> x = y" "uint (x :: byte) = 0 \<longleftrightarrow> x = 0"
  by (simp_all add: word_uint_eq_iff)

lemma rt_strcmp_cstr:
  "cstr m a xs \<Longrightarrow> cstr m b ys \<Longrightarrow> rt_strcmp m a b = Some (str_diff uint xs ys)"
  by (induction "uint :: byte \<Rightarrow> int" xs ys arbitrary: a b rule: str_diff.induct) (auto simp: rt_strcmp.simps[of m])

lemma lower_0 [simp]: "lower x = 0 \<longleftrightarrow> x = 0" and lower_zero: "lower 0 = 0"
  by (auto simp: lower_def Let_def)

lemma rt_strcasecmp_cstr:
  "cstr m a xs \<Longrightarrow> cstr m b ys \<Longrightarrow> rt_strcasecmp m a b = Some (str_diff lower xs ys)"
  by (induction lower xs ys arbitrary: a b rule: str_diff.induct)
    (auto simp: rt_strcasecmp.simps[of m] Let_def lower_zero)

lemma rt_memcmp_0: "rt_memcmp m a b n = 0 \<longleftrightarrow> (\<forall>i<n. m (a + i) = m (b + i))"
  by (induction m a b n rule: rt_memcmp.induct) (auto simp: Let_def all_less_Suc_split)

lemma strncmp_loop_0:
  "strncmp_loop m a b n 0 = 0 \<longleftrightarrow> (\<forall>i<n. (\<forall>j<i. m (a + j) \<noteq> 0) \<longrightarrow> m (a + i) = m (b + i))"
proof (induction n arbitrary: a b)
  case (Suc n)
  have e: "m a - m b = 0 \<longleftrightarrow> m a = m b" by simp
  show ?case
    using Suc[of "a + 1" "b + 1"]
    by (auto simp: Let_def all_less_Suc_split)
qed simp

lemma rt_strncmp_0:
  "rt_strncmp m a b n = 0 \<longleftrightarrow> (\<forall>i<n. (\<forall>j<i. m (a + j) \<noteq> 0) \<longrightarrow> m (a + i) = m (b + i))"
  using strncmp_loop_0[of m a b n] by (simp add: rt_strncmp_def signed_eq_0_iff)

text \<open>Copying a bounded name: the bytes up to the first zero, then zeros.\<close>

lemma rt_strncpy_spec:
  assumes "d + n \<le> s \<or> s + n \<le> d"
  shows "rt_strncpy m d s n =
    (\<lambda>p. if d \<le> p \<and> p < d + n
         then (if \<exists>j \<le> p - d. m (s + j) = 0 then 0 else m (s + (p - d))) else m p)"
  using assms
proof (induction n arbitrary: m d s)
  case (Suc n)
  show ?case
  proof (cases "m s = 0")
    case True
    then have "\<exists>j \<le> k. m (s + j) = 0" for k by (intro exI[of _ 0]) simp
    with True show ?thesis by (auto simp: memset_bytes_fill fill_def fun_eq_iff Let_def)
  next
    case False
    have e: "(\<exists>j \<le> Suc k. m (s + j) = 0) \<longleftrightarrow> (\<exists>j \<le> k. m (Suc s + j) = 0)" for k
      using False by (metis add_0_right add_Suc_right add_Suc Suc_le_mono not0_implies_Suc le0)
    have r: "(m(d := m s)) (Suc s + j) = m (Suc s + j)" if "j < n" for j
      using Suc.prems that by auto
    have "rt_strncpy m d s (Suc n) = rt_strncpy (m(d := m s)) (Suc d) (Suc s) n"
      using False by (simp add: Let_def)
    also have "\<dots> = (\<lambda>p. if Suc d \<le> p \<and> p < Suc d + n
         then (if \<exists>j \<le> p - Suc d. (m(d := m s)) (Suc s + j) = 0 then 0
               else (m(d := m s)) (Suc s + (p - Suc d))) else (m(d := m s)) p)"
      by (rule Suc.IH) (use Suc.prems in auto)
    also have "\<dots> = (\<lambda>p. if d \<le> p \<and> p < d + Suc n
         then (if \<exists>j \<le> p - d. m (s + j) = 0 then 0 else m (s + (p - d))) else m p)"
    proof
      fix p
      consider "p < d" | "p = d" | "Suc d \<le> p" "p < Suc d + n" | "Suc d + n \<le> p" by linarith
      then show "(if Suc d \<le> p \<and> p < Suc d + n
         then (if \<exists>j \<le> p - Suc d. (m(d := m s)) (Suc s + j) = 0 then 0
               else (m(d := m s)) (Suc s + (p - Suc d))) else (m(d := m s)) p) =
        (if d \<le> p \<and> p < d + Suc n
         then (if \<exists>j \<le> p - d. m (s + j) = 0 then 0 else m (s + (p - d))) else m p)"
      proof cases
        case 3
        define k where "k = p - Suc d"
        have k: "p - d = Suc k" "k < n" using 3 by (auto simp: k_def)
        have "(\<exists>j \<le> k. (m(d := m s)) (Suc s + j) = 0) \<longleftrightarrow> (\<exists>j \<le> k. m (Suc s + j) = 0)"
          using r k(2) by (metis le_less_trans)
        then show ?thesis using 3 k r[OF k(2)] e[of k] by (simp add: k_def[symmetric])
      qed (use False in auto)
    qed
    finally show ?thesis .
  qed
qed (auto simp: fun_eq_iff)

lemma rt_strcpy_cstr:
  assumes "cstr m s xs" and "d + length xs < s \<or> s + length xs < d"
  shows "rt_strcpy m d s = Some (copy m d s (Suc (length xs)))"
  using assms
proof (induction xs arbitrary: m d s)
  case Nil
  then show ?case by (auto simp: rt_strcpy.simps[of m] copy_def fun_eq_iff)
next
  case (Cons x xs)
  have c: "m(d := m s) = copy m d s 1" by (auto simp: copy_def fun_eq_iff)
  have c1: "cstr (m(d := m s)) (s + 1) xs"
    using Cons.prems by (auto simp: cstr_def)
  have "rt_strcpy (m(d := m s)) (d + 1) (s + 1) =
      Some (copy (m(d := m s)) (d + 1) (s + 1) (Suc (length xs)))"
    by (rule Cons.IH[OF c1]) (use Cons.prems in auto)
  moreover have "copy (copy m d s 1) (d + 1) (s + 1) (Suc (length xs)) = copy m d s (Suc (Suc (length xs)))"
    using copy_copy[of d s 1 "Suc (length xs)" m] Cons.prems by auto
  ultimately show ?case using Cons.prems c by (simp add: rt_strcpy.simps[of m d s])
qed

text \<open>The reference search: the first index at which \<open>ys\<close> occurs in \<open>xs\<close>.\<close>

fun find_sub :: "byte list \<Rightarrow> byte list \<Rightarrow> nat option" where
  "find_sub [] ys = (if ys = [] then Some 0 else None)"
| "find_sub (x # xs) ys =
    (if take (length ys) (x # xs) = ys then Some 0 else map_option Suc (find_sub xs ys))"

lemma find_sub_Some:
  "find_sub xs ys = Some i \<Longrightarrow>
   take (length ys) (drop i xs) = ys \<and> (\<forall>j<i. take (length ys) (drop j xs) \<noteq> ys)"
  by (induction xs ys arbitrary: i rule: find_sub.induct)
    (auto split: if_splits simp: less_Suc_eq_0_disj)

lemma find_sub_None: "find_sub xs ys = None \<Longrightarrow> take (length ys) (drop i xs) \<noteq> ys"
proof (induction xs ys arbitrary: i rule: find_sub.induct)
  case (2 x xs ys)
  then show ?case by (cases i) (auto split: if_splits)
qed (auto split: if_splits)

lemma memcmp_take:
  assumes "cstr m a xs" "cstr m b ys"
  shows "length ys \<le> length xs \<and> rt_memcmp m a b (length ys) = 0 \<longleftrightarrow> take (length ys) xs = ys"
proof
  assume h: "length ys \<le> length xs \<and> rt_memcmp m a b (length ys) = 0"
  then have "xs ! i = ys ! i" if "i < length ys" for i
    using assms that by (auto simp: cstr_def rt_memcmp_0)
  with h show "take (length ys) xs = ys" by (intro nth_equalityI) auto
next
  assume t: "take (length ys) xs = ys"
  then have l: "length ys \<le> length xs" by (metis length_take min.absorb_iff2 min.commute)
  have "xs ! i = ys ! i" if "i < length ys" for i using t that by (metis nth_take)
  then show "length ys \<le> length xs \<and> rt_memcmp m a b (length ys) = 0"
    using assms l by (auto simp: cstr_def rt_memcmp_0)
qed

lemma strstr_loop_cstr:
  assumes "cstr m a xs" "cstr m b ys"
  shows "strstr_loop m a b (length xs) (length ys) = map_option (\<lambda>i. a + i) (find_sub xs ys)"
  using assms(1)
proof (induction xs arbitrary: a)
  case Nil
  then show ?case using memcmp_take[of m a "[]" b ys] assms(2) by auto
next
  case (Cons x xs)
  have "cstr m (a + 1) xs" using Cons.prems by simp
  note IH = Cons.IH[OF this]
  have t: "find_sub xs ys = None" if "\<not> length ys \<le> Suc (length xs)"
  proof (rule ccontr)
    assume "find_sub xs ys \<noteq> None"
    then obtain i where "take (length ys) (drop i xs) = ys" using find_sub_Some by blast
    then have "length ys \<le> length xs" by (metis length_drop length_take min.cobounded1 diff_le_self le_trans)
    with that show False by simp
  qed
  show ?case
    using memcmp_take[OF Cons.prems assms(2)] IH t
    by (cases "find_sub xs ys") auto
qed

lemma rt_strstr_cstr:
  assumes "cstr m a xs" "cstr m b ys"
  shows "rt_strstr m a b = Some (map_option (\<lambda>i. a + i) (find_sub xs ys))"
proof (cases "ys = []")
  case True
  then show ?thesis
    using rt_strlen_cstr[OF assms(2)] by (cases xs) (auto simp: rt_strstr_def)
next
  case False
  then show ?thesis
    using rt_strlen_cstr[OF assms(1)] rt_strlen_cstr[OF assms(2)] strstr_loop_cstr[OF assms]
    by (simp add: rt_strstr_def)
qed

section \<open>Properties\<close>

text \<open>The word-at-a-time \<open>rt_memset\<close> and \<open>rt_memcpy\<close> and the direction
  choosing \<open>rt_memmove\<close> do what the byte-wise definitions say for every address,
  alignment and length: \<open>rt_memset\<close> sets exactly the \<open>n\<close> bytes to the low byte
  of \<open>c\<close>; \<open>rt_memcpy\<close> copies exactly \<open>n\<close> bytes unless the source starts below
  the destination and overlaps it; \<open>rt_memmove\<close> copies the original bytes for
  every overlap.\<close>

theorem kmem_block_operations:
  "rt_memset m s c n = (\<lambda>p. if s \<le> p \<and> p < s + n then ucast c else m p)
   \<and> rt_memmove m d s n = (\<lambda>p. if d \<le> p \<and> p < d + n then m (s + (p - d)) else m p)
   \<and> (d \<le> s \<or> s + n \<le> d \<longrightarrow> rt_memcpy m d s n = rt_memmove m d s n)"
  using rt_memcpy_copy[of d s n m]
  by (auto simp: rt_memset_fill rt_memmove_copy fill_def copy_def)

theorem kmem_block_operations_witness:
  "rt_memcpy (\<lambda>p. of_nat p) 100 8 40 = rt_memmove (\<lambda>p. of_nat p) 100 8 40"
  using kmem_block_operations[of "\<lambda>p. of_nat p" 8 0 40 100] by simp

text \<open>On zero-terminated strings the scanning routines terminate and answer:
  the length, the bounded length, the difference of the first differing
  characters (zero exactly for equal strings), the same up to case, and the
  first occurrence of a substring.\<close>

theorem kstring_scans:
  assumes "cstr m a xs" and "cstr m b ys"
  shows "rt_strlen m a = Some (length xs)
    \<and> rt_strnlen m a k = min (length xs) k
    \<and> rt_strcmp m a b = Some (str_diff uint xs ys) \<and> (str_diff uint xs ys = 0 \<longleftrightarrow> xs = ys)
    \<and> rt_strcasecmp m a b = Some (str_diff lower xs ys)
    \<and> (str_diff lower xs ys = 0 \<longleftrightarrow> map lower xs = map lower ys)
    \<and> (case rt_strstr m a b of
         None \<Rightarrow> False
       | Some None \<Rightarrow> \<forall>i. take (length ys) (drop i xs) \<noteq> ys
       | Some (Some p) \<Rightarrow> a \<le> p \<and> take (length ys) (drop (p - a) xs) = ys
           \<and> (\<forall>j < p - a. take (length ys) (drop j xs) \<noteq> ys))"
proof -
  have z: "0 \<notin> set xs" "0 \<notin> set ys" using assms by (auto simp: cstr_def)
  have "map uint xs = map uint ys \<longleftrightarrow> xs = ys"
    by (rule inj_map_eq_map) (simp add: inj_def)
  then have u: "str_diff uint xs ys = 0 \<longleftrightarrow> xs = ys"
    using str_diff_0[of uint, OF _ z] by simp
  have l: "str_diff lower xs ys = 0 \<longleftrightarrow> map lower xs = map lower ys"
    by (rule str_diff_0[OF _ z]) simp
  show ?thesis
    using assms u l find_sub_None[of xs ys] find_sub_Some[of xs ys]
    by (auto simp: rt_strlen_cstr rt_strnlen_cstr rt_strcmp_cstr rt_strcasecmp_cstr
        rt_strstr_cstr[OF assms] split: option.splits)
qed

definition demo_memory :: memory where
  "demo_memory = (\<lambda>p. if p = 10 then 65 else if p = 11 then 66 else if p = 20 then 98 else 0)"

theorem kstring_scans_witness:
  "rt_strlen demo_memory 10 = Some 2 \<and> rt_strcasecmp demo_memory 11 20 = Some 0
   \<and> rt_strcmp demo_memory 10 20 = Some (- 33)"
  using kstring_scans[of demo_memory 10 "[65, 66]" 20 "[98]"]
    kstring_scans[of demo_memory 11 "[66]" 20 "[98]"]
  by (simp add: demo_memory_def lower_def Let_def)

text \<open>\<open>rt_strncmp\<close> decides equality up to \<open>n\<close> characters or the terminator
  correctly, but its sign is the sign of the difference reduced to eight bits:
  it is the sign of the true difference only if the first differing characters
  are less than 128 apart. For \<open>0x01\<close> against \<open>0xFF\<close> it answers \<open>2\<close>, although
  the first string is the smaller one.\<close>

theorem strncmp_equality_and_sign:
  "(rt_strncmp m a b n = 0 \<longleftrightarrow> (\<forall>i<n. (\<forall>j<i. m (a + j) \<noteq> 0) \<longrightarrow> m (a + i) = m (b + i)))
   \<and> rt_strncmp (\<lambda>p. if p = 0 then 1 else 255) 0 1 1 = 2"
proof -
  have "rt_strncmp (\<lambda>p. if p = 0 then 1 else 255) 0 1 1 = 2"
    by (simp add: rt_strncmp_def Let_def)
  then show ?thesis using rt_strncmp_0 by blast
qed

theorem strncmp_equality_and_sign_witness:
  "rt_strncmp (\<lambda>p. if p < 3 then 65 else 0) 0 1 2 = 0 \<and> rt_strncmp (\<lambda>p. if p < 3 then 65 else 0) 0 2 2 \<noteq> 0"
proof -
  let ?m = "\<lambda>p :: nat. if p < 3 then 65 else (0 :: byte)"
  note eq = strncmp_equality_and_sign[THEN conjunct1, of ?m 0]
  have "rt_strncmp ?m 0 1 2 = 0" unfolding eq by simp
  moreover have "\<not> (\<forall>i<2. (\<forall>j<i. ?m (0 + j) \<noteq> 0) \<longrightarrow> ?m (0 + i) = ?m (2 + i))"
    by (intro notI, drule spec[of _ 1]) simp
  then have "rt_strncmp ?m 0 2 2 \<noteq> 0" unfolding eq by simp
  ultimately show ?thesis by simp
qed

end
