(* ===== verification/KStdio.thy ===== *)
theory KStdio
  imports KString
begin

text \<open>
  Formatted output (\<open>rt-thread/src/klibc/kstdio.c\<close>), without 64-bit numbers as in this
  configuration. The output goes to a byte-addressed memory through a pointer of 32 bits that
  keeps advancing past the end of the buffer, where nothing is written, and wraps around at the end of the address space. A format and a
  string argument are the bytes before the terminating zero, and do not overlap the
  buffer. Reading an argument that is not there, or one of the wrong kind, is undefined
  in C; the model answers none. Field widths and precisions are integers: the code computes
  them in 32 bits and has no defined behaviour beyond.
\<close>

section \<open>Data\<close>

abbreviation ch :: "char \<Rightarrow> byte" where "ch c \<equiv> of_char c"

definition ZEROPAD :: u8 where "ZEROPAD = push_bit 0 1"
definition SIGN :: u8 where "SIGN = push_bit 1 1"
definition PLUS :: u8 where "PLUS = push_bit 2 1"
definition SPACE :: u8 where "SPACE = push_bit 3 1"
definition LEFT :: u8 where "LEFT = push_bit 4 1"
definition SPECIAL :: u8 where "SPECIAL = push_bit 5 1"
definition LARGE :: u8 where "LARGE = push_bit 6 1"

lemmas flag_defs = ZEROPAD_def SIGN_def PLUS_def SPACE_def LEFT_def SPECIAL_def LARGE_def

text \<open>The arguments: words (integers, characters, pointers), strings (\<open>None\<close> for the null pointer) and doubles, which are skipped.\<close>

datatype va = VWord u32 | VStr "byte list option" | VDouble

definition ISDIGIT :: "byte \<Rightarrow> bool" where
  "ISDIGIT c \<longleftrightarrow> c - ch CHR ''0'' < 10"

text \<open>The state of the output: the memory and the pointer \<open>str\<close>; \<open>e\<close> is the end of the buffer.\<close>

type_synonym out = "memory \<times> nat"

definition emit :: "nat \<Rightarrow> byte \<Rightarrow> out \<Rightarrow> out" where
  "emit e c st = (case st of (m, str) \<Rightarrow> (if str < e then m(str := c) else m, (str + 1) mod 2 ^ 32))"

text \<open>\<open>while (n-- > 0) emit(c)\<close>, with the value that is left in \<open>n\<close>.\<close>

definition pad :: "nat \<Rightarrow> byte \<Rightarrow> int \<Rightarrow> out \<Rightarrow> int \<times> out" where
  "pad e c n st = (if n > 0 then - 1 else n - 1, (emit e c ^^ nat n) st)"

section \<open>Numbers\<close>

definition small_digits :: "byte list" where
  "small_digits = map of_char ''0123456789abcdef''"

definition large_digits :: "byte list" where
  "large_digits = map of_char ''0123456789ABCDEF''"

text \<open>The digits that the loop puts into \<open>tmp\<close>, lowest first. The base is 2, 8, 10 or 16; the guard on it
  only makes the recursion total.\<close>

function digits_loop :: "byte list \<Rightarrow> nat \<Rightarrow> u32 \<Rightarrow> byte list" where
  "digits_loop digits base num =
    (if num \<noteq> 0 \<and> 2 \<le> base \<and> base < 2 ^ 32
     then digits ! unat (num mod of_nat base) # digits_loop digits base (num div of_nat base) else [])"
  by pat_completeness auto

lemma unat_div_base: "base < 2 ^ 32 \<Longrightarrow> unat (num div of_nat base :: u32) = unat num div base"
  and unat_mod_base: "base < 2 ^ 32 \<Longrightarrow> unat (num mod of_nat base :: u32) = unat num mod base"
  by (simp_all add: unat_div unat_mod unat_of_nat take_bit_nat_eq_self)

termination digits_loop
proof (relation "measure (\<lambda>(_, _, num). unat num)")
  fix digits :: "byte list" and base :: nat and num :: u32
  assume a: "num \<noteq> 0 \<and> 2 \<le> base \<and> base < 2 ^ 32"
  then have "0 < unat num" by (simp add: unat_gt_0)
  then have "unat num div base < unat num" using a by (intro div_less_dividend) auto
  then show "((digits, base, num div of_nat base), digits, base, num) \<in> measure (\<lambda>(_, _, num). unat num)"
    using a unat_div_base by simp
qed simp

declare digits_loop.simps [simp del]

text \<open>The sign character, 0 for none, and the magnitude.\<close>

definition number_sign :: "byte \<Rightarrow> u8 \<Rightarrow> u32 \<Rightarrow> byte \<times> u32" where
  "number_sign qualifier type num =
    (if type AND SIGN = 0 then (0, num)
     else
       let (sign, num) =
         (if qualifier = ch CHR ''h'' then
            if sint (ucast num :: 16 word) < 0 then (ch CHR ''-'', ucast (ucast (- num) :: 16 word)) else (0, num)
          else if sint num < 0 then (ch CHR ''-'', - num) else (0, num))
       in (if sign \<noteq> ch CHR ''-'' then
             if type AND PLUS \<noteq> 0 then ch CHR ''+'' else if type AND SPACE \<noteq> 0 then ch CHR '' '' else sign
           else sign, num))"

definition emit_prefix :: "nat \<Rightarrow> nat \<Rightarrow> u8 \<Rightarrow> out \<Rightarrow> out" where
  "emit_prefix e base type st =
    (if base = 2 then emit e (ch CHR ''b'') (emit e (ch CHR ''0'') st)
     else if base = 8 then emit e (ch CHR ''0'') st
     else if base = 16 then emit e (if type AND LARGE \<noteq> 0 then ch CHR ''X'' else ch CHR ''x'') (emit e (ch CHR ''0'') st)
     else st)"

definition print_number :: "nat \<Rightarrow> u32 \<Rightarrow> nat \<Rightarrow> byte \<Rightarrow> int \<Rightarrow> int \<Rightarrow> u8 \<Rightarrow> out \<Rightarrow> out" where
  "print_number e num base qualifier s precision type st =
    (let precision_bak = precision;
         digits = (if type AND LARGE \<noteq> 0 then large_digits else small_digits);
         type = (if type AND LEFT \<noteq> 0 then type AND NOT ZEROPAD else type);
         c = (if type AND ZEROPAD \<noteq> 0 then ch CHR ''0'' else ch CHR '' '');
         (sign, num) = number_sign qualifier type num;
         sz = (if type AND SPECIAL \<noteq> 0 then if base = 2 \<or> base = 16 then s - 2 else if base = 8 then s - 1 else s else s);
         tmp = (if num = 0 then [ch CHR ''0''] else digits_loop digits base num);
         i = int (length tmp);
         precision = (if i > precision then i else precision);
         sz = sz - precision;
         (sz, st) =
           (if type AND (ZEROPAD OR LEFT) = 0
            then pad e (ch CHR '' '') (if sign \<noteq> 0 \<and> sz > 0 then sz - 1 else sz) st else (sz, st));
         (sz, st) = (if sign \<noteq> 0 then (sz - 1, emit e sign st) else (sz, st));
         st = (if type AND SPECIAL \<noteq> 0 then emit_prefix e base type st else st);
         (sz, st) = (if type AND LEFT = 0 then pad e c sz st else (sz, st));
         st = (emit e (ch CHR ''0'') ^^ nat (precision - i)) st;
         st = (if precision_bak \<noteq> 0 then fold (emit e) (rev tmp) st else st)
     in snd (pad e (ch CHR '' '') sz st))"

section \<open>Format specifications\<close>

fun skip_atoi :: "int \<Rightarrow> byte list \<Rightarrow> int \<times> byte list" where
  "skip_atoi i [] = (i, [])"
| "skip_atoi i (c # s) = (if ISDIGIT c then skip_atoi (i * 10 + int (unat c) - 48) s else (i, c # s))"

fun parse_flags :: "u8 \<Rightarrow> byte list \<Rightarrow> u8 \<times> byte list" where
  "parse_flags flags [] = (flags, [])"
| "parse_flags flags (c # fmt) =
    (if c = ch CHR ''-'' then parse_flags (flags OR LEFT) fmt
     else if c = ch CHR ''+'' then parse_flags (flags OR PLUS) fmt
     else if c = ch CHR '' '' then parse_flags (flags OR SPACE) fmt
     else if c = ch CHR ''#'' then parse_flags (flags OR SPECIAL) fmt
     else if c = ch CHR ''0'' then parse_flags (flags OR ZEROPAD) fmt
     else (flags, c # fmt))"

fun va_word :: "va list \<Rightarrow> (u32 \<times> va list) option" where
  "va_word (VWord w # args) = Some (w, args)"
| "va_word _ = None"

fun va_str :: "va list \<Rightarrow> (byte list option \<times> va list) option" where
  "va_str (VStr s # args) = Some (s, args)"
| "va_str _ = None"

fun va_double :: "va list \<Rightarrow> va list option" where
  "va_double (VDouble # args) = Some args"
| "va_double _ = None"

definition parse_width :: "u8 \<Rightarrow> byte list \<Rightarrow> va list \<Rightarrow> (int \<times> u8 \<times> byte list \<times> va list) option" where
  "parse_width flags fmt args =
    (case fmt of [] \<Rightarrow> Some (- 1, flags, [], args)
     | c # rest \<Rightarrow>
        if ISDIGIT c then (case skip_atoi 0 fmt of (n, rest) \<Rightarrow> Some (n, flags, rest, args))
        else if c = ch CHR ''*'' then
          (case va_word args of None \<Rightarrow> None
           | Some (w, args) \<Rightarrow>
              if sint w < 0 then Some (- sint w, flags OR LEFT, rest, args) else Some (sint w, flags, rest, args))
        else Some (- 1, flags, fmt, args))"

definition parse_precision :: "byte list \<Rightarrow> va list \<Rightarrow> (int \<times> byte list \<times> va list) option" where
  "parse_precision fmt args =
    (case fmt of [] \<Rightarrow> Some (- 1, [], args)
     | c # rest \<Rightarrow>
        if c \<noteq> ch CHR ''.'' then Some (- 1, fmt, args)
        else
          map_option (\<lambda>(p, rest, args). (if p < 0 then 0 else p, rest, args))
            (case rest of [] \<Rightarrow> Some (- 1, [], args)
             | d # rest' \<Rightarrow>
                if ISDIGIT d then (case skip_atoi 0 rest of (n, rest) \<Rightarrow> Some (n, rest, args))
                else if d = ch CHR ''*'' then
                  (case va_word args of None \<Rightarrow> None | Some (w, args) \<Rightarrow> Some (sint w, rest', args))
                else Some (- 1, rest, args)))"

definition parse_qualifier :: "byte list \<Rightarrow> byte \<times> byte list" where
  "parse_qualifier fmt =
    (case fmt of [] \<Rightarrow> (0, [])
     | c # rest \<Rightarrow>
        if c = ch CHR ''h'' \<or> c = ch CHR ''l'' \<or> c = ch CHR ''z'' then
          (case rest of [] \<Rightarrow> (c, [])
           | d # rest' \<Rightarrow> if c = ch CHR ''h'' \<and> d = ch CHR ''h'' then (ch CHR ''H'', rest') else (c, rest))
        else (0, fmt))"

section \<open>Conversions\<close>

definition print_char :: "nat \<Rightarrow> u8 \<Rightarrow> int \<Rightarrow> u32 \<Rightarrow> out \<Rightarrow> out" where
  "print_char e flags field_width w st =
    (let (field_width, st) = (if flags AND LEFT = 0
           then (if field_width - 1 > 0 then 0 else field_width - 1, (emit e (ch CHR '' '') ^^ nat (field_width - 1)) st)
           else (field_width, st));
         st = emit e (ucast w) st
     in (emit e (ch CHR '' '') ^^ nat (field_width - 1)) st)"

text \<open>The text of a null pointer is \<open>"(NULL)"\<close>.\<close>

definition print_string :: "nat \<Rightarrow> u8 \<Rightarrow> int \<Rightarrow> int \<Rightarrow> byte list option \<Rightarrow> out \<Rightarrow> out" where
  "print_string e flags field_width precision s st =
    (let s = (case s of None \<Rightarrow> map of_char ''(NULL)'' | Some s \<Rightarrow> s);
         len = (if 0 \<le> field_width \<and> nat field_width < length s then field_width else int (length s));
         len = (if precision > 0 \<and> len > precision then precision else len);
         (field_width, st) = (if flags AND LEFT = 0
           then (if len < field_width then len - 1 else field_width - 1, (emit e (ch CHR '' '') ^^ nat (field_width - len)) st)
           else (field_width, st));
         st = fold (emit e) (take (nat len) s) st
     in (emit e (ch CHR '' '') ^^ nat (field_width - len)) st)"

text \<open>The value of an integer conversion.\<close>

definition integer_value :: "byte \<Rightarrow> u8 \<Rightarrow> u32 \<Rightarrow> u32" where
  "integer_value qualifier flags w =
    (if qualifier = ch CHR ''H'' then scast (ucast w :: 8 word)
     else if qualifier = ch CHR ''h'' then
       let num = ucast (ucast w :: 16 word) in if flags AND SIGN \<noteq> 0 then scast (ucast num :: 16 word) else num
     else w)"

text \<open>The number conversions, with the base and the flags they set.\<close>

definition integer_conversion :: "byte \<Rightarrow> u8 \<Rightarrow> (nat \<times> u8) option" where
  "integer_conversion c flags =
    (if c = ch CHR ''b'' then Some (2, flags)
     else if c = ch CHR ''o'' then Some (8, flags)
     else if c = ch CHR ''X'' then Some (16, flags OR LARGE)
     else if c = ch CHR ''x'' then Some (16, flags)
     else if c = ch CHR ''d'' \<or> c = ch CHR ''i'' then Some (10, flags OR SIGN)
     else if c = ch CHR ''u'' then Some (10, flags)
     else None)"

definition float_conversion :: "byte \<Rightarrow> bool" where
  "float_conversion c \<longleftrightarrow> c \<in> {ch CHR ''e'', ch CHR ''E'', ch CHR ''G'', ch CHR ''g'', ch CHR ''f'', ch CHR ''F''}"

text \<open>One conversion, from the character behind the qualifier on; the answer is the rest of the format and of the arguments, and the output.\<close>

definition convert :: "nat \<Rightarrow> u8 \<Rightarrow> int \<Rightarrow> int \<Rightarrow> byte \<Rightarrow> byte list \<Rightarrow> va list \<Rightarrow> out \<Rightarrow> (byte list \<times> va list \<times> out) option" where
  "convert e flags field_width precision qualifier fmt args st =
    (case fmt of [] \<Rightarrow> Some ([], args, emit e (ch CHR ''%'') st)
     | c # rest \<Rightarrow>
        if c = ch CHR ''c'' then
          map_option (\<lambda>(w, args). (rest, args, print_char e flags field_width w st)) (va_word args)
        else if c = ch CHR ''s'' then
          map_option (\<lambda>(s, args). (rest, args, print_string e flags field_width precision s st)) (va_str args)
        else if c = ch CHR ''p'' then
          map_option (\<lambda>(w, args). (rest, args,
            if field_width = - 1 then print_number e w 16 qualifier 10 precision (flags OR SPECIAL OR ZEROPAD) st
            else print_number e w 16 qualifier field_width precision flags st)) (va_word args)
        else if c = ch CHR ''%'' then Some (rest, args, emit e (ch CHR ''%'') st)
        else case integer_conversion c flags of
          Some (base, flags) \<Rightarrow>
            map_option (\<lambda>(w, args). (rest, args,
              print_number e (integer_value qualifier flags w) base qualifier field_width precision flags st)) (va_word args)
        | None \<Rightarrow>
            map_option (\<lambda>args. (rest, args, emit e c (emit e (ch CHR ''%'') st)))
              (if float_conversion c then va_double args else Some args))"

text \<open>A specification after its percent sign: flags, width, precision, qualifier, conversion.\<close>

definition format_spec :: "nat \<Rightarrow> byte list \<Rightarrow> va list \<Rightarrow> out \<Rightarrow> (byte list \<times> va list \<times> out) option" where
  "format_spec e fmt args st =
    (let (flags, fmt) = parse_flags 0 fmt
     in case parse_width flags fmt args of None \<Rightarrow> None
        | Some (field_width, flags, fmt, args) \<Rightarrow>
           (case parse_precision fmt args of None \<Rightarrow> None
            | Some (precision, fmt, args) \<Rightarrow>
               let (qualifier, fmt) = parse_qualifier fmt
               in convert e flags field_width precision qualifier fmt args st))"

lemma skip_atoi_shorter: "skip_atoi i s = (n, s') \<Longrightarrow> length s' \<le> length s"
  by (induction i s rule: skip_atoi.induct) (auto split: if_splits)

lemma parse_flags_shorter: "parse_flags f s = (f', s') \<Longrightarrow> length s' \<le> length s"
  by (induction f s rule: parse_flags.induct) (auto split: if_splits)

lemma parse_width_shorter: "parse_width f s args = Some (w, f', s', args') \<Longrightarrow> length s' \<le> length s"
  by (auto simp: parse_width_def split: list.splits if_splits prod.splits option.splits dest: skip_atoi_shorter simp del: skip_atoi.simps)

lemma parse_precision_shorter: "parse_precision s args = Some (p, s', args') \<Longrightarrow> length s' \<le> length s"
  by (auto simp: parse_precision_def split: list.splits if_splits prod.splits option.splits dest: skip_atoi_shorter simp del: skip_atoi.simps)

lemma parse_qualifier_shorter: "parse_qualifier s = (q, s') \<Longrightarrow> length s' \<le> length s"
  by (auto simp: parse_qualifier_def split: list.splits if_splits)

lemma convert_shorter: "convert e f w p q s args st = Some (s', args', st') \<Longrightarrow> length s' \<le> length s"
  by (auto simp: convert_def split: list.splits if_splits option.splits)

lemma format_spec_shorter: "format_spec e s args st = Some (s', args', st') \<Longrightarrow> length s' \<le> length s"
  by (auto simp: format_spec_def split: prod.splits option.splits
      dest!: parse_flags_shorter parse_width_shorter parse_precision_shorter parse_qualifier_shorter convert_shorter)

text \<open>The loop over the format.\<close>

function vsn_loop :: "nat \<Rightarrow> byte list \<Rightarrow> va list \<Rightarrow> out \<Rightarrow> out option" where
  "vsn_loop e [] args st = Some st"
| "vsn_loop e (c # fmt) args st =
    (if c \<noteq> ch CHR ''%'' then vsn_loop e fmt args (emit e c st)
     else case format_spec e fmt args st of None \<Rightarrow> None
       | Some (fmt, args, st) \<Rightarrow> vsn_loop e fmt args st)"
  by pat_completeness auto
termination vsn_loop
  by (relation "measure (\<lambda>(_, fmt, _, _). length fmt)") (auto dest: format_spec_shorter)

text \<open>The answer is the memory and the 32 bits of the returned count. \<open>ptr_max\<close> is \<open>(char *) -1\<close>.\<close>

definition ptr_max :: nat where "ptr_max = 2 ^ 32 - 1"

definition rt_vsnprintf :: "memory \<Rightarrow> nat \<Rightarrow> nat \<Rightarrow> byte list \<Rightarrow> va list \<Rightarrow> (memory \<times> nat) option" where
  "rt_vsnprintf m buf n fmt args =
    (let e = (buf + n) mod 2 ^ 32;
         (e, n) = (if e < buf then (ptr_max, ptr_max - buf) else (e, n))
     in map_option
          (\<lambda>(m, str). (if n > 0 then if str < e then m(str := 0) else m(e - 1 := 0) else m, (str + 2 ^ 32 - buf) mod 2 ^ 32))
          (vsn_loop e fmt args (m, buf)))"

definition rt_snprintf :: "memory \<Rightarrow> nat \<Rightarrow> nat \<Rightarrow> byte list \<Rightarrow> va list \<Rightarrow> (memory \<times> nat) option" where
  "rt_snprintf m buf n fmt args = rt_vsnprintf m buf n fmt args"

definition rt_vsprintf :: "memory \<Rightarrow> nat \<Rightarrow> byte list \<Rightarrow> va list \<Rightarrow> (memory \<times> nat) option" where
  "rt_vsprintf m buf fmt args = rt_vsnprintf m buf (2 ^ 32 - 1) fmt args"

definition rt_sprintf :: "memory \<Rightarrow> nat \<Rightarrow> byte list \<Rightarrow> va list \<Rightarrow> (memory \<times> nat) option" where
  "rt_sprintf m buf fmt args = rt_vsprintf m buf fmt args"

section \<open>The text of a format\<close>

text \<open>
  The reference: what a specification produces as a list of bytes, with no buffer in sight.
  \<open>put e t\<close> writes a text; \<open>layout\<close> is the justification of a number in its field.
\<close>

definition put :: "nat \<Rightarrow> byte list \<Rightarrow> out \<Rightarrow> out" where
  "put e t st = fold (emit e) t st"

lemma put_Nil [simp]: "put e [] st = st" by (simp add: put_def)
lemma put_append: "put e (a @ b) st = put e b (put e a st)" by (simp add: put_def)
lemma emit_put: "emit e c st = put e [c] st" by (simp add: put_def)
lemma funpow_put: "(emit e c ^^ n) st = put e (replicate n c) st"
  by (induction n arbitrary: st) (auto simp: put_def funpow_swap1)

lemmas to_put = emit_put funpow_put put_append [symmetric]

lemma put_snd: "s < 2 ^ 32 \<Longrightarrow> snd (put e t (m, s)) = (s + length t) mod 2 ^ 32"
proof (induction t arbitrary: m s)
  case (Cons c t)
  have "put e (c # t) (m, s) = put e t (if s < e then m(s := c) else m, (s + 1) mod 2 ^ 32)" by (simp add: put_def emit_def)
  then have "snd (put e (c # t) (m, s)) = ((s + 1) mod 2 ^ 32 + length t) mod 2 ^ 32" using Cons.IH by simp
  then show ?case by (simp add: mod_simps)
qed simp

lemma put_fst:
  "s + length t \<le> 2 ^ 32 \<Longrightarrow>
   fst (put e t (m, s)) = (\<lambda>a. if s \<le> a \<and> a < s + length t \<and> a < e then t ! (a - s) else m a)"
proof (induction t arbitrary: m s)
  case (Cons c t)
  have p: "put e (c # t) (m, s) = put e t (if s < e then m(s := c) else m, (s + 1) mod 2 ^ 32)" by (simp add: put_def emit_def)
  show ?case
  proof (cases "t = []")
    case True
    then show ?thesis unfolding p by (auto simp: fun_eq_iff)
  next
    case False
    then have "0 < length t" by simp
    then have "s + 1 < 2 ^ 32" using Cons.prems unfolding list.size(4) by linarith
    then have "(s + 1) mod 2 ^ 32 = s + 1" by (rule mod_less)
    then show ?thesis unfolding p using Cons.IH[of "s + 1"] Cons.prems
      by (auto simp: fun_eq_iff nth_Cons' Suc_le_eq le_less)
  qed
qed (auto simp: fun_eq_iff)

definition sign_text :: "byte \<Rightarrow> byte list" where "sign_text c = (if c = 0 then [] else [c])"

definition prefix_text :: "nat \<Rightarrow> u8 \<Rightarrow> byte list" where
  "prefix_text base type =
    (if type AND SPECIAL = 0 then []
     else if base = 2 then map of_char ''0b'' else if base = 8 then map of_char ''0''
     else if base = 16 then map of_char (if type AND LARGE \<noteq> 0 then ''0X'' else ''0x'') else [])"

definition layout :: "u8 \<Rightarrow> int \<Rightarrow> byte list \<Rightarrow> byte list \<Rightarrow> int \<Rightarrow> byte list" where
  "layout type width pre body counted =
    (let fill = nat (width - int (length pre) - counted)
     in if type AND LEFT \<noteq> 0 then pre @ body @ replicate fill (ch CHR '' '')
        else if type AND ZEROPAD \<noteq> 0 then pre @ replicate fill (ch CHR ''0'') @ body
        else replicate fill (ch CHR '' '') @ pre @ body)"

definition digits_of :: "u8 \<Rightarrow> nat \<Rightarrow> u32 \<Rightarrow> byte list" where
  "digits_of type base num =
    (if num = 0 then [ch CHR ''0'']
     else rev (digits_loop (if type AND LARGE \<noteq> 0 then large_digits else small_digits) base num))"

definition number_text :: "u32 \<Rightarrow> nat \<Rightarrow> byte \<Rightarrow> int \<Rightarrow> int \<Rightarrow> u8 \<Rightarrow> byte list" where
  "number_text num base qualifier width precision type =
    (let (sign, mag) = number_sign qualifier type num;
         ds = digits_of type base mag;
         zeros = replicate (nat (precision - int (length ds))) (ch CHR ''0'')
     in layout type width (sign_text sign @ prefix_text base type)
          (zeros @ (if precision = 0 then [] else ds)) (max precision (int (length ds))))"

lemma and_or_zero: "(x::u8) AND (a OR b) = 0 \<longleftrightarrow> x AND a = 0 \<and> x AND b = 0"
  by (auto simp: bit_eq_iff bit_simps)

lemma clear_zeropad:
  "(x AND NOT ZEROPAD) AND SIGN = x AND SIGN" "(x AND NOT ZEROPAD) AND PLUS = x AND PLUS"
  "(x AND NOT ZEROPAD) AND SPACE = x AND SPACE" "(x AND NOT ZEROPAD) AND LEFT = x AND LEFT"
  "(x AND NOT ZEROPAD) AND SPECIAL = x AND SPECIAL" "(x AND NOT ZEROPAD) AND LARGE = x AND LARGE"
  "(x AND NOT ZEROPAD) AND ZEROPAD = 0"
  by (simp_all add: and.assoc flag_defs)

lemma number_sign_clear: "number_sign q (x AND NOT ZEROPAD) num = number_sign q x num"
  by (simp add: number_sign_def clear_zeropad)

lemma prefix_put: "(if type AND SPECIAL \<noteq> 0 then emit_prefix e base type st else st) = put e (prefix_text base type) st"
  by (simp add: emit_prefix_def prefix_text_def to_put)

lemma prefix_size:
  "(if type AND SPECIAL \<noteq> 0 then if base = 2 \<or> base = 16 then s - 2 else if base = 8 then s - 1 else s else s)
    = s - int (length (prefix_text base type))"
  by (simp add: prefix_text_def)

lemma prefix_text_clear: "prefix_text base (x AND NOT ZEROPAD) = prefix_text base x"
  by (simp add: prefix_text_def clear_zeropad)

text \<open>The three ways of filling the field, from the size that is left once the digits are counted.\<close>

lemma sign_emit: "(if sign \<noteq> 0 then (sz - 1, emit e sign st) else (sz, st))
    = (sz - int (length (sign_text sign)), put e (sign_text sign) st)"
  by (simp add: sign_text_def to_put)

lemma pad_put: "pad e c n st = (if n > 0 then - 1 else n - 1, put e (replicate (nat n) c) st)"
  by (simp add: pad_def to_put)

lemma put_rev_digits:
  "(if p \<noteq> 0 then fold (emit e) (rev ds) st else st) = put e (if p = 0 then [] else rev ds) st"
  by (simp add: put_def)

lemma print_number_put: "print_number e num base q s p type st = put e (number_text num base q s p type) st"
proof -
  obtain sign mag where sm: "number_sign q type num = (sign, mag)" by fastforce
  define T where "T = (if type AND LEFT \<noteq> 0 then type AND NOT ZEROPAD else type)"
  define ds where "ds = (if mag = 0 then [ch CHR ''0'']
    else digits_loop (if type AND LARGE \<noteq> 0 then large_digits else small_digits) base mag)"
  define r where "r = s - int (length (prefix_text base type)) - max p (int (length ds))"
  have T: "number_sign q T num = (sign, mag)" "prefix_text base T = prefix_text base type"
    "T AND LEFT = type AND LEFT" "type AND LEFT = 0 \<Longrightarrow> T = type"
    "type AND LEFT \<noteq> 0 \<Longrightarrow> T AND ZEROPAD = 0"
    using sm by (auto simp: T_def number_sign_clear prefix_text_clear clear_zeropad)
  have ds': "digits_of type base mag = rev ds" by (simp add: digits_of_def ds_def)
  have mx: "(if int (length ds) > p then int (length ds) else p) = max p (int (length ds))" by simp
  have mz: "nat (max p (int (length ds)) - int (length ds)) = nat (p - int (length ds))" by simp
  have fill: "s - int (length (sign_text sign @ prefix_text base type)) - max p (int (length ds)) = r - int (length (sign_text sign))"
    by (simp add: r_def)
  show ?thesis
    unfolding print_number_def Let_def number_text_def
    unfolding T_def[symmetric] T prod.case sm
    unfolding ds_def[symmetric] mx prefix_size prefix_put T put_rev_digits ds' sign_emit prod.case pad_put funpow_put mz
      and_or_zero r_def[symmetric] length_rev layout_def Let_def fill
    using T(4,5) by (auto simp: put_append sign_text_def)
qed

definition char_text :: "u8 \<Rightarrow> int \<Rightarrow> u32 \<Rightarrow> byte list" where
  "char_text flags width w =
    (let fill = replicate (nat (width - 1)) (ch CHR '' '')
     in if flags AND LEFT \<noteq> 0 then ucast w # fill else fill @ [ucast w])"

definition string_text :: "u8 \<Rightarrow> int \<Rightarrow> int \<Rightarrow> byte list option \<Rightarrow> byte list" where
  "string_text flags width precision s =
    (let s = (case s of None \<Rightarrow> map of_char ''(NULL)'' | Some s \<Rightarrow> s);
         s = (if width < 0 then s else take (nat width) s);
         s = (if precision > 0 then take (nat precision) s else s);
         fill = replicate (nat (width - int (length s))) (ch CHR '' '')
     in if flags AND LEFT \<noteq> 0 then s @ fill else fill @ s)"

definition convert_text :: "u8 \<Rightarrow> int \<Rightarrow> int \<Rightarrow> byte \<Rightarrow> byte list \<Rightarrow> va list \<Rightarrow> (byte list \<times> va list \<times> byte list) option" where
  "convert_text flags width precision qualifier fmt args =
    (case fmt of [] \<Rightarrow> Some ([], args, map of_char ''%'')
     | c # rest \<Rightarrow>
        if c = ch CHR ''c'' then map_option (\<lambda>(w, args). (rest, args, char_text flags width w)) (va_word args)
        else if c = ch CHR ''s'' then
          map_option (\<lambda>(s, args). (rest, args, string_text flags width precision s)) (va_str args)
        else if c = ch CHR ''p'' then
          map_option (\<lambda>(w, args). (rest, args,
            if width = - 1 then number_text w 16 qualifier 10 precision (flags OR SPECIAL OR ZEROPAD)
            else number_text w 16 qualifier width precision flags)) (va_word args)
        else if c = ch CHR ''%'' then Some (rest, args, map of_char ''%'')
        else case integer_conversion c flags of
          Some (base, flags) \<Rightarrow>
            map_option (\<lambda>(w, args). (rest, args,
              number_text (integer_value qualifier flags w) base qualifier width precision flags)) (va_word args)
        | None \<Rightarrow> map_option (\<lambda>args. (rest, args, [ch CHR ''%'', c])) (if float_conversion c then va_double args else Some args))"

definition spec_text :: "byte list \<Rightarrow> va list \<Rightarrow> (byte list \<times> va list \<times> byte list) option" where
  "spec_text fmt args =
    (let (flags, fmt) = parse_flags 0 fmt
     in case parse_width flags fmt args of None \<Rightarrow> None
        | Some (width, flags, fmt, args) \<Rightarrow>
           (case parse_precision fmt args of None \<Rightarrow> None
            | Some (precision, fmt, args) \<Rightarrow>
               let (qualifier, fmt) = parse_qualifier fmt
               in convert_text flags width precision qualifier fmt args))"

lemma print_char_put: "print_char e flags width w st = put e (char_text flags width w) st"
  by (auto simp: print_char_def char_text_def Let_def to_put split: prod.splits)

lemma fold_emit_put: "fold (emit e) t st = put e t st" by (simp add: put_def)

lemma print_string_put: "print_string e flags width precision s st = put e (string_text flags width precision s) st"
proof -
  define t where "t = (case s of None \<Rightarrow> map of_char ''(NULL)'' | Some s \<Rightarrow> (s :: byte list))"
  define u where "u = (if width < 0 then t else take (nat width) t)"
  define v where "v = (if precision > 0 then take (nat precision) u else u)"
  have u: "(if 0 \<le> width \<and> nat width < length t then width else int (length t)) = int (length u)"
    by (auto simp: u_def)
  have v: "(if precision > 0 \<and> int (length u) > precision then precision else int (length u)) = int (length v)"
    by (auto simp: v_def)
  have tv: "take (length v) t = v" by (auto simp: v_def u_def min_def)
  show ?thesis
    unfolding print_string_def string_text_def Let_def t_def[symmetric] u u_def[symmetric] v v_def[symmetric] funpow_put fold_emit_put nat_int tv
    by (simp add: put_append)
qed

lemma convert_put:
  "convert e flags width precision q fmt args st =
     map_option (\<lambda>(fmt, args, t). (fmt, args, put e t st)) (convert_text flags width precision q fmt args)"
  by (auto simp: convert_def convert_text_def print_number_put print_char_put print_string_put to_put option.map_comp o_def
      split: list.splits option.splits intro!: map_option_cong)

lemma format_spec_put:
  "format_spec e fmt args st = map_option (\<lambda>(fmt, args, t). (fmt, args, put e t st)) (spec_text fmt args)"
  by (simp add: format_spec_def spec_text_def convert_put split: prod.splits option.splits)

lemma spec_text_shorter: "spec_text s args = Some (s', args', t) \<Longrightarrow> length s' \<le> length s"
  using format_spec_shorter[of 0 s args "(\<lambda>_. 0, 0)"] by (simp add: format_spec_put)

text \<open>The text of a whole format.\<close>

function render :: "byte list \<Rightarrow> va list \<Rightarrow> byte list option" where
  "render [] args = Some []"
| "render (c # fmt) args =
    (if c \<noteq> ch CHR ''%'' then map_option ((#) c) (render fmt args)
     else case spec_text fmt args of None \<Rightarrow> None
       | Some (fmt, args, t) \<Rightarrow> map_option ((@) t) (render fmt args))"
  by pat_completeness auto
termination render
  by (relation "measure (\<lambda>(fmt, _). length fmt)") (auto dest: spec_text_shorter)

lemma vsn_loop_put: "vsn_loop e fmt args st = map_option (\<lambda>t. put e t st) (render fmt args)"
proof (induction e fmt args st rule: vsn_loop.induct)
  case (2 e c fmt args st)
  show ?case
  proof (cases "c = ch CHR ''%''")
    case True
    then show ?thesis using 2(2)
      by (cases "spec_text fmt args") (auto simp: format_spec_put option.map_comp o_def put_append, metis surj_pair)
  next
    case False
    have "put e (c # t) st = put e t (emit e c st)" for t by (simp add: put_def)
    then show ?thesis using 2(1) False by (simp add: option.map_comp o_def)
  qed
qed simp

section \<open>What the buffer receives\<close>

text \<open>A memory with the first \<open>n - 1\<close> bytes of a text and a terminating zero at \<open>buf\<close>, and nothing else changed.\<close>

definition with_text :: "memory \<Rightarrow> nat \<Rightarrow> nat \<Rightarrow> byte list \<Rightarrow> memory" where
  "with_text m buf n t =
    (\<lambda>a. if n = 0 \<or> a < buf then m a
         else if a < buf + min (length t) (n - 1) then t ! (a - buf)
         else if a = buf + min (length t) (n - 1) then 0 else m a)"

lemma terminate_put:
  assumes "buf \<le> e" and "buf + length t < 2 ^ 32"
  shows "(case put e t (m, buf) of (m, str) \<Rightarrow>
      (if e - buf > 0 then if str < e then m(str := 0) else m(e - 1 := 0) else m, (str + 2 ^ 32 - buf) mod 2 ^ 32))
    = (with_text m buf (e - buf) t, length t)"
proof -
  obtain m' str where p: "put e t (m, buf) = (m', str)" by fastforce
  have b: "buf < 2 ^ 32" "buf + length t \<le> 2 ^ 32" using assms(2) by linarith+
  have "(buf + length t) mod 2 ^ 32 = buf + length t" by (rule mod_less[OF assms(2)])
  then have str: "str = buf + length t" "m' = (\<lambda>a. if buf \<le> a \<and> a < buf + length t \<and> a < e then t ! (a - buf) else m a)"
    using put_snd[OF b(1), of e t m] put_fst[OF b(2), of e m] p by simp_all
  have "str + 2 ^ 32 - buf = length t + 2 ^ 32" using str(1) by linarith
  moreover have "length t < 2 ^ 32" using assms(2) by linarith
  ultimately have "(str + 2 ^ 32 - buf) mod 2 ^ 32 = length t" by (metis mod_add_self2 mod_less)
  then show ?thesis using assms(1) str unfolding p prod.case by (auto simp: with_text_def fun_eq_iff min_def)
qed

lemma rt_vsnprintf_eq:
  assumes "buf + n < 2 ^ 32" and "render fmt args = Some t" and "buf + length t < 2 ^ 32"
  shows "rt_vsnprintf m buf n fmt args = Some (with_text m buf n t, length t)"
proof -
  have e: "(buf + n) mod 2 ^ 32 = buf + n" by (rule mod_less[OF assms(1)])
  show ?thesis
    using terminate_put[OF _ assms(3), of "buf + n" m] unfolding rt_vsnprintf_def e
    by (simp add: vsn_loop_put assms(2))
qed

lemma rt_vsnprintf_wrapped:
  assumes "2 ^ 32 \<le> buf + n" "n < 2 ^ 32" "buf < 2 ^ 32" and "render fmt args = Some t" and "buf + length t < 2 ^ 32"
  shows "rt_vsnprintf m buf n fmt args = Some (with_text m buf (ptr_max - buf) t, length t)"
proof -
  have "(buf + n) mod 2 ^ 32 = buf + n - 2 ^ 32" using assms(1-3) by (simp add: le_mod_geq)
  then have e: "(buf + n) mod 2 ^ 32 < buf" using assms(1-3) by linarith
  have "buf \<le> ptr_max" using assms(3) by (simp add: ptr_max_def)
  from terminate_put[OF this assms(5), of m] e show ?thesis
    by (simp add: rt_vsnprintf_def vsn_loop_put assms(4))
qed

text \<open>A text that passes the end of the address space: the pointer wraps around and is below the buffer's end again, so that the memory from
  address zero on is overwritten with the rest of the text.\<close>

theorem vsnprintf_wraps_around:
  assumes n: "buf + n < 2 ^ 32" "0 < n" and t: "render fmt args = Some t"
    and w: "buf + length t = 2 ^ 32 + k" "k \<le> buf" and a: "a < k"
  shows "\<exists>m' r. rt_vsnprintf m buf n fmt args = Some (m', r) \<and> m' a = t ! (2 ^ 32 - buf + a)"
proof -
  define l where "l = 2 ^ 32 - buf"
  have l: "buf + l = 2 ^ 32" "l \<le> length t" "length (drop l t) = k" using n(1) w by (auto simp: l_def)
  define m1 where "m1 = fst (put (buf + n) (take l t) (m, buf))"
  have b: "buf < 2 ^ 32" using n(1) by linarith
  have "snd (put (buf + n) (take l t) (m, buf)) = (buf + l) mod 2 ^ 32" using put_snd[OF b] l(2) by (simp add: min_def)
  then have "put (buf + n) (take l t) (m, buf) = (m1, 0)" by (simp add: m1_def l(1) prod_eq_iff)
  then have p: "put (buf + n) t (m, buf) = put (buf + n) (drop l t) (m1, 0)" by (metis append_take_drop_id put_append)
  define m2 where "m2 = fst (put (buf + n) (drop l t) (m1, 0))"
  have k: "k < 2 ^ 32" using w(2) b by linarith
  then have "snd (put (buf + n) (drop l t) (m1, 0)) = k" using put_snd[of 0] l(3) by simp
  then have r: "put (buf + n) t (m, buf) = (m2, k)" unfolding p m2_def by (simp add: prod_eq_iff)
  have "m2 a = t ! (l + a)"
    using put_fst[of 0 "drop l t" "buf + n" m1] k l(3) a w(2) by (simp add: m2_def)
  moreover have "(buf + n) mod 2 ^ 32 = buf + n" by (rule mod_less[OF n(1)])
  ultimately show ?thesis
    using n(2) a w(2) unfolding rt_vsnprintf_def l_def by (simp add: vsn_loop_put t r)
qed

section \<open>Digits and their value\<close>

text \<open>Reading digits back.\<close>

definition digit_value :: "byte \<Rightarrow> nat" where
  "digit_value c =
    (if ISDIGIT c then unat (c - ch CHR ''0'')
     else if ch CHR ''a'' \<le> c then unat (c - ch CHR ''a'') + 10 else unat (c - ch CHR ''A'') + 10)"

definition number_value :: "nat \<Rightarrow> byte list \<Rightarrow> nat" where
  "number_value base ds = foldl (\<lambda>v d. v * base + digit_value d) 0 ds"

definition read_int :: "byte list \<Rightarrow> int" where
  "read_int t =
    (case t of [] \<Rightarrow> 0
     | c # ds \<Rightarrow> if c = ch CHR ''-'' then - int (number_value 10 ds) else int (number_value 10 t))"

lemma digit_value_digits:
  assumes "i < 16"
  shows "digit_value (small_digits ! i) = i" "digit_value (large_digits ! i) = i"
proof -
  have "list_all (\<lambda>i. digit_value (small_digits ! i) = i \<and> digit_value (large_digits ! i) = i) [0..<16]"
    by code_simp
  then show "digit_value (small_digits ! i) = i" "digit_value (large_digits ! i) = i"
    using assms by (auto simp: list_all_iff)
qed

definition digit_table :: "byte list \<Rightarrow> bool" where
  "digit_table digits \<longleftrightarrow> digits = small_digits \<or> digits = large_digits"

lemma digit_table_value: "digit_table digits \<Longrightarrow> i < 16 \<Longrightarrow> digit_value (digits ! i) = i"
  by (auto simp: digit_table_def digit_value_digits)

lemma digits_loop_value:
  assumes "digit_table digits" "2 \<le> base" "base \<le> 16"
  shows "number_value base (rev (digits_loop digits base num)) = unat num"
  using assms
proof (induction digits base num rule: digits_loop.induct)
  case (1 digits base num)
  show ?case
  proof (cases "num = 0")
    case False
    have b: "base < 2 ^ 32" using 1 by simp
    have "unat num mod base < 16" using mod_less_divisor[of base "unat num"] 1 by linarith
    moreover have "number_value base (rev (digits_loop digits base (num div of_nat base))) = unat num div base"
      using 1 False b by (simp add: unat_div_base)
    ultimately show ?thesis
      using 1 False b digits_loop.simps[of digits base num]
      by (simp add: number_value_def unat_mod_base digit_table_value) (metis div_mult_mod_eq)
  qed (simp add: digits_loop.simps number_value_def)
qed

lemma digits_loop_length:
  assumes "2 \<le> base" "base < 2 ^ 32" "unat num < base ^ k"
  shows "length (digits_loop digits base num) \<le> k"
  using assms
proof (induction k arbitrary: num)
  case 0
  then show ?case by (simp add: digits_loop.simps unat_eq_0)
next
  case (Suc k)
  have "unat num div base < base ^ k" using Suc.prems by (simp add: less_mult_imp_div_less mult.commute)
  then show ?case using Suc.IH[of "num div of_nat base"] Suc.prems digits_loop.simps[of digits base num]
    by (simp add: unat_div_base)
qed

lemma digits_of_facts:
  assumes "2 \<le> base" "base \<le> 16"
  shows digits_of_value: "number_value base (digits_of type base num) = unat num"
    and digits_of_length: "unat num < base ^ k \<Longrightarrow> 0 < k \<Longrightarrow> length (digits_of type base num) \<le> k"
    and digits_of_nonempty: "digits_of type base num \<noteq> []"
proof -
  let ?T = "if type AND LARGE \<noteq> 0 then large_digits else small_digits"
  have "digit_table ?T" by (simp add: digit_table_def)
  then have "number_value base (rev (digits_loop ?T base num)) = unat num" by (rule digits_loop_value) (use assms in auto)
  then show "number_value base (digits_of type base num) = unat num"
    by (simp add: digits_of_def number_value_def digit_value_def ISDIGIT_def)
  show "unat num < base ^ k \<Longrightarrow> 0 < k \<Longrightarrow> length (digits_of type base num) \<le> k"
    using assms digits_loop_length[of base num k ?T] by (simp add: digits_of_def)
  show "digits_of type base num \<noteq> []"
    using assms digits_loop.simps[of _ base num] by (simp add: digits_of_def)
qed

lemma u32_bound: "unat (num::u32) < 2 ^ 32"
  using unsigned_less[of num] by simp

text \<open>The temporary array of 32 characters is never overrun.\<close>

lemma tmp_fits:
  assumes "2 \<le> base" "base \<le> 16"
  shows "length (digits_of type base num) \<le> 32"
proof -
  have "(2::nat) ^ 32 \<le> base ^ 32" using assms by (intro power_mono) auto
  then have "unat num < base ^ 32" using u32_bound[of num] by linarith
  then show ?thesis using digits_of_length[of base num 32 type] assms by simp
qed

lemma decimal_fits: "length (digits_of type 10 num) \<le> 10"
proof -
  have "(2::nat) ^ 32 \<le> 10 ^ 10" by simp
  then have "unat num < 10 ^ 10" using u32_bound[of num] by linarith
  then show ?thesis by (intro digits_of_length) auto
qed

lemma digits_of_no_sign:
  assumes "2 \<le> base" "base \<le> 16"
  shows "hd (digits_of type base num) \<noteq> ch CHR ''-''"
proof -
  have "set (digits_loop ds base n) \<subseteq> set (take 16 ds)" if "length ds = 16" for ds n
    using that assms
  proof (induction ds base n rule: digits_loop.induct)
    case (1 digits base num)
    have "unat num mod base < length digits" using mod_less_divisor[of base "unat num"] 1 by linarith
    then show ?case using 1 digits_loop.simps[of digits base num] by (auto simp: unat_mod_base)
  qed
  from this[of large_digits num] this[of small_digits num]
  have "set (digits_of type base num) \<subseteq> set large_digits \<union> set small_digits"
    by (auto simp: digits_of_def small_digits_def large_digits_def)
  then have "hd (digits_of type base num) \<in> set large_digits \<union> set small_digits"
    using digits_of_nonempty[of base type num] assms by (meson hd_in_set subsetD)
  then show ?thesis by (auto simp: large_digits_def small_digits_def)
qed

section \<open>Properties\<close>

lemma with_text_end: "length t < n \<Longrightarrow> with_text m buf n t (buf + length t) = 0"
  by (auto simp: with_text_def min_def)

lemma with_text_read: "length t < n \<Longrightarrow> map (with_text m buf n t) [buf..<buf + length t] = t"
  by (rule nth_equalityI) (auto simp: with_text_def min_def)

text \<open>The equations that compute the text of a concrete format.\<close>

lemmas render_eval = spec_text_def parse_width_def parse_precision_def parse_qualifier_def convert_text_def
  integer_conversion_def float_conversion_def integer_value_def ISDIGIT_def char_text_def string_text_def
  number_text_def number_sign_def layout_def Let_def prefix_text_def sign_text_def flag_defs

lemmas digits_eval = digits_of_def digits_loop.simps small_digits_def large_digits_def

text \<open>What plain \<open>%d\<close> prints.\<close>

definition decimal_text :: "u32 \<Rightarrow> byte list" where
  "decimal_text w = (if sint w < 0 then ch CHR ''-'' # digits_of SIGN 10 (- w) else digits_of SIGN 10 w)"

lemma render_decimal: "render (map of_char ''%d'') [VWord w] = Some (decimal_text w)"
  by (simp add: render_eval decimal_text_def)

lemma uint_uminus_sint:
  fixes w :: u32
  assumes "sint w < 0"
  shows "uint (- w) = - sint w"
proof -
  have "uint (word_of_int x :: u32) = take_bit 32 x" for x by (simp add: uint_word_of_int_eq)
  from this[of "- sint w"] have "uint (- w) = take_bit 32 (- sint w)" by simp
  moreover have "- sint w \<le> 2 ^ 31" using sint_greater_eq[of w] by simp
  ultimately show ?thesis using assms by (simp add: take_bit_int_eq_self)
qed

lemma uint_sint_nonneg:
  fixes w :: u32
  assumes "0 \<le> sint w"
  shows "uint w = sint w"
  using assms sint_lt[of w] uint_sint[of w] by (simp add: take_bit_int_eq_self)

lemma read_digits: "read_int (digits_of type 10 w) = int (unat w)"
  using digits_of_no_sign[of 10 type w] digits_of_value[of 10 type w] digits_of_nonempty[of 10 type w]
  by (auto simp: read_int_def split: list.splits)

lemma read_decimal: "read_int (decimal_text w) = sint w"
  using read_digits[of SIGN w] digits_of_value[of 10 SIGN "- w"] uint_uminus_sint[of w] uint_sint_nonneg[of w]
  by (auto simp: decimal_text_def read_int_def)

lemma decimal_length: "length (decimal_text w) \<le> 11"
  using decimal_fits[of SIGN w] decimal_fits[of SIGN "- w"] by (simp add: decimal_text_def)

lemma layout_length:
  "int (length body) = counted \<Longrightarrow> int (length (layout type width pre body counted)) = max width (int (length pre) + counted)"
  by (auto simp: layout_def Let_def)

lemma number_text_length:
  assumes "precision \<noteq> 0" "number_sign q type num = (sign, mag)"
  shows "int (length (number_text num base q width precision type)) =
    max width (int (length (sign_text sign) + length (prefix_text base type)) + max precision (int (length (digits_of type base mag))))"
  using assms layout_length unfolding number_text_def Let_def by simp

text \<open>C39: \<open>rt_vsnprintf\<close> does not write outside the buffer as long as its output pointer does not wrap around: for every buffer that ends before the end
  of the address space, and every format and argument list whose text, say \<open>t\<close>, has a length such that \<open>buf + length t\<close> is below \<open>2 ^ 32\<close>, the buffer receives the longest prefix of the
  text of the format that leaves room for the terminating zero, the zero follows it, no other byte of the memory
  changes (none at all for size 0), and the returned count is the length of the whole text, also when
  it was cut off (the comment in the source promises the number of characters written). An argument that is missing or of the wrong kind, whose use is undefined in C, gives no result. For a longer
  text the pointer wraps and memory below the buffer is written: \<open>vsnprintf_wraps_around\<close>.
\<close>

theorem vsnprintf_stays_in_buffer:
  assumes "buf + n < 2 ^ 32"
  shows "case render fmt args of
      None \<Rightarrow> rt_vsnprintf m buf n fmt args = None
    | Some t \<Rightarrow> buf + length t < 2 ^ 32 \<longrightarrow> rt_vsnprintf m buf n fmt args = Some (with_text m buf n t, length t)"
  using rt_vsnprintf_eq[OF assms, of fmt args _ m]
  by (cases "render fmt args") (auto simp: rt_vsnprintf_def vsn_loop_put Let_def)

theorem vsnprintf_stays_in_buffer_witness:
  "rt_vsnprintf (\<lambda>_. 7) 100 6 (map of_char ''%05d|%-4s|'') [VWord 42, VStr (Some (map of_char ''ab''))]
     = Some (with_text (\<lambda>_. 7) 100 6 (map of_char ''00042|ab  |''), 11)"
proof -
  have "render (map of_char ''%05d|%-4s|'') [VWord 42, VStr (Some (map of_char ''ab''))] = Some (map of_char ''00042|ab  |'')"
    by (simp add: render_eval digits_eval) (simp add: numeral_eq_Suc)
  then show ?thesis
    using vsnprintf_stays_in_buffer[of 100 6 "\<lambda>_. 7" "map of_char ''%05d|%-4s|''" "[VWord 42, VStr (Some (map of_char ''ab''))]"] by simp
qed

text \<open>C40: Printing a number and reading it back gives the number: \<open>%d\<close> into a buffer of at least 12 bytes writes
  at most 11 characters and a zero behind them, the characters read as a decimal integer are the
  signed value of the argument, the least one (whose negation wraps around) included, and no byte
  outside changes.
\<close>

theorem snprintf_decimal_roundtrip:
  assumes "12 \<le> n" "buf + n < 2 ^ 32"
  shows "\<exists>m' k. rt_snprintf m buf n (map of_char ''%d'') [VWord w] = Some (m', k) \<and> k \<le> 11 \<and> m' (buf + k) = 0
    \<and> read_int (map m' [buf..<buf + k]) = sint w \<and> (\<forall>a. a < buf \<or> buf + k < a \<longrightarrow> m' a = m a)"
proof (intro exI conjI)
  let ?t = "decimal_text w"
  have l: "length ?t < n" using decimal_length[of w] assms by simp
  show "rt_snprintf m buf n (map of_char ''%d'') [VWord w] = Some (with_text m buf n ?t, length ?t)"
    using rt_vsnprintf_eq[OF assms(2) render_decimal] l assms(2) by (simp add: rt_snprintf_def)
  show "with_text m buf n ?t (buf + length ?t) = 0" using l by (rule with_text_end)
  show "read_int (map (with_text m buf n ?t) [buf..<buf + length ?t]) = sint w"
    by (simp only: with_text_read[OF l] read_decimal)
  show "\<forall>a. a < buf \<or> buf + length ?t < a \<longrightarrow> with_text m buf n ?t a = m a"
    using l by (auto simp: with_text_def min_def)
qed (rule decimal_length)

theorem snprintf_decimal_roundtrip_witness:
  "\<exists>m' k. rt_snprintf (\<lambda>_. 0) 64 12 (map of_char ''%d'') [VWord 0x80000000] = Some (m', k) \<and> k \<le> 11 \<and> m' (64 + k) = 0
    \<and> read_int (map m' [64..<64 + k]) = - 2147483648"
  using snprintf_decimal_roundtrip[where n = 12 and buf = 64 and m = "\<lambda>_. 0" and w = "0x80000000"] by auto

text \<open>The digits that the loop of \<open>print_number\<close> puts into the temporary array are the
  number in its base, lowest first, in lower and upper case, in each of the four bases; there are at most 32, so the array of 32
  characters is not overrun; and with a precision other than zero the printed field is as long as the
  larger of the width and of sign, prefix and digits with their leading zeros, modulo the size of the address space.
\<close>

theorem print_number_digits:
  assumes "base \<in> {2, 8, 10, 16}" "digits \<in> {small_digits, large_digits}" "precision \<noteq> 0" "buf < 2 ^ 32"
  shows "number_value base (rev (digits_loop digits base num)) = unat num
    \<and> length (digits_loop digits base num) \<le> 32
    \<and> (case number_sign q type num of (sign, mag) \<Rightarrow>
        int (snd (print_number e num base q width precision type (m, buf))) = (int buf +
          max width (int (length (sign_text sign) + length (prefix_text base type))
                     + max precision (int (length (digits_of type base mag))))) mod 2 ^ 32)"
proof (intro conjI)
  have b: "2 \<le> base" "base \<le> 16" using assms by auto
  show "number_value base (rev (digits_loop digits base num)) = unat num"
    using digits_loop_value[of digits base num] b assms by (auto simp: digit_table_def)
  have "(2::nat) ^ 32 \<le> base ^ 32" using b by (intro power_mono) auto
  then show "length (digits_loop digits base num) \<le> 32"
    using digits_loop_length[of base num 32 digits] b u32_bound[of num] by simp
  obtain sign mag where sm: "number_sign q type num = (sign, mag)" by fastforce
  show "case number_sign q type num of (sign, mag) \<Rightarrow>
        int (snd (print_number e num base q width precision type (m, buf))) = (int buf +
          max width (int (length (sign_text sign) + length (prefix_text base type))
                     + max precision (int (length (digits_of type base mag))))) mod 2 ^ 32"
    using number_text_length[OF assms(3) sm, of base width] by (simp add: sm print_number_put put_snd[OF assms(4)] zmod_int)
qed

theorem print_number_digits_witness:
  "number_value 2 (rev (digits_loop small_digits 2 0xFFFFFFFF)) = 4294967295
   \<and> length (digits_loop small_digits 2 0xFFFFFFFF) \<le> 32"
  using print_number_digits[where base = 2 and type = 0 and num = "0xFFFFFFFF" and digits = small_digits and precision = "- 1" and buf = 0] by simp

text \<open>Where the conversions differ from those of C: a field width cuts a longer string off, \<open>%.0d\<close>
  prints nothing for a number other than zero, \<open>%hhu\<close> prints the sign extension of a byte above
  127, and a precision of zero does not shorten a string.
\<close>

theorem vsnprintf_deviations:
  "render (map of_char ''%3s'') [VStr (Some (map of_char ''abcdef''))] = Some (map of_char ''abc'')
   \<and> render (map of_char ''%.0d'') [VWord 42] = Some []
   \<and> render (map of_char ''%hhu'') [VWord 200] = Some (map of_char ''4294967240'')
   \<and> render (map of_char ''%.0s'') [VStr (Some (map of_char ''ab''))] = Some (map of_char ''ab'')"
  by (simp add: render_eval digits_eval)

end
