(* ===== verification/Object.thy ===== *)
theory Object
  imports KString
begin

text \<open>
  The kernel object registry (\<open>rt-thread/src/object.c\<close>): one container list per
  configured object class, registration of static and dynamic objects, lookup
  by name. The registry is polymorphic in the identity of objects; the kernel
  state instantiates it with its own object type. Names are arrays of
  \<open>RT_NAME_MAX\<close> (8) bytes and go through the string routines of \<open>KString\<close>.
  The \<open>flag\<close> byte of the base class is kept in the record of each object kind
  (timer, semaphore, ...), whose init function sets it.
\<close>

section \<open>Data\<close>

definition RT_Object_Class_Null :: u8 where "RT_Object_Class_Null = 0"
definition RT_Object_Class_Thread :: u8 where "RT_Object_Class_Thread = 0x01"
definition RT_Object_Class_Semaphore :: u8 where "RT_Object_Class_Semaphore = 0x02"
definition RT_Object_Class_Mutex :: u8 where "RT_Object_Class_Mutex = 0x03"
definition RT_Object_Class_MailBox :: u8 where "RT_Object_Class_MailBox = 0x05"
definition RT_Object_Class_MessageQueue :: u8 where "RT_Object_Class_MessageQueue = 0x06"
definition RT_Object_Class_Device :: u8 where "RT_Object_Class_Device = 0x09"
definition RT_Object_Class_Timer :: u8 where "RT_Object_Class_Timer = 0x0a"
definition RT_Object_Class_Memory :: u8 where "RT_Object_Class_Memory = 0x0c"
definition RT_Object_Class_Custom :: u8 where "RT_Object_Class_Custom = 0x10"
definition RT_Object_Class_Static :: u8 where "RT_Object_Class_Static = 0x80"

lemmas object_class_defs =
  RT_Object_Class_Null_def RT_Object_Class_Thread_def RT_Object_Class_Semaphore_def
  RT_Object_Class_Mutex_def RT_Object_Class_MailBox_def RT_Object_Class_MessageQueue_def
  RT_Object_Class_Device_def RT_Object_Class_Timer_def RT_Object_Class_Memory_def
  RT_Object_Class_Custom_def RT_Object_Class_Static_def

definition RT_NAME_MAX :: nat where "RT_NAME_MAX = 8"

record rt_object =
  obj_name :: "byte list"
  obj_type :: u8

text \<open>The classes that have a container in this configuration, in table order.\<close>

definition object_container_types :: "u8 list" where
  "object_container_types =
    [RT_Object_Class_Thread, RT_Object_Class_Semaphore, RT_Object_Class_Mutex,
     RT_Object_Class_MailBox, RT_Object_Class_MessageQueue, RT_Object_Class_Device,
     RT_Object_Class_Timer, RT_Object_Class_Memory, RT_Object_Class_Custom]"

record 'o objsys =
  object_of :: "'o \<Rightarrow> rt_object"
  object_list :: "u8 \<Rightarrow> 'o list"

section \<open>Names\<close>

definition list_memory :: "byte list \<Rightarrow> memory" where
  "list_memory xs = (\<lambda>p. if p < length xs then xs ! p else 0)"

text \<open>\<open>rt_strncpy(dst, src, n)\<close> on an array and a string that do not overlap.\<close>

definition strncpy_to :: "byte list \<Rightarrow> byte list \<Rightarrow> nat \<Rightarrow> byte list" where
  "strncpy_to dst src n =
    map (rt_strncpy (list_memory (dst @ src @ [0])) 0 (length dst) n) [0..<length dst]"

text \<open>\<open>rt_strncmp(arr, name, n) == 0\<close>.\<close>

definition names_equal :: "byte list \<Rightarrow> byte list \<Rightarrow> nat \<Rightarrow> bool" where
  "names_equal arr name n \<longleftrightarrow> rt_strncmp (list_memory (arr @ name @ [0])) 0 (length arr) n = 0"

section \<open>Operations\<close>

definition rt_object_get_information :: "u8 \<Rightarrow> u8 option" where
  "rt_object_get_information type =
    (let type = type AND NOT RT_Object_Class_Static
     in find (\<lambda>c. c = type) object_container_types)"

definition rt_object_get_length :: "u8 \<Rightarrow> 'o objsys \<Rightarrow> nat" where
  "rt_object_get_length type s =
    (case rt_object_get_information type of None \<Rightarrow> 0
     | Some c \<Rightarrow> length (object_list s c))"

definition rt_object_get_pointers :: "u8 \<Rightarrow> int \<Rightarrow> 'o objsys \<Rightarrow> 'o list" where
  "rt_object_get_pointers type maxlen s =
    (if maxlen \<le> 0 then []
     else case rt_object_get_information type of None \<Rightarrow> []
     | Some c \<Rightarrow> take (nat maxlen) (object_list s c))"

text \<open>An unconfigured class fails the assertion of the source; no caller in the
  kernel passes one, and the model then leaves the registry as it is.\<close>

definition rt_object_init :: "'o \<Rightarrow> u8 \<Rightarrow> byte list \<Rightarrow> 'o objsys \<Rightarrow> 'o objsys" where
  "rt_object_init object type name s =
    (case rt_object_get_information type of None \<Rightarrow> s
     | Some c \<Rightarrow>
        let o' = (object_of s object)\<lparr> obj_type := type OR RT_Object_Class_Static,
                   obj_name := strncpy_to (obj_name (object_of s object)) name RT_NAME_MAX \<rparr>
        in s\<lparr> object_of := (object_of s)(object := o'),
              object_list := (object_list s)(c := object # object_list s c) \<rparr>)"

definition rt_object_detach :: "'o \<Rightarrow> 'o objsys \<Rightarrow> 'o objsys" where
  "rt_object_detach object s =
    s\<lparr> object_list := (\<lambda>c. removeAll object (object_list s c)),
       object_of := (object_of s)(object := (object_of s object)\<lparr> obj_type := 0 \<rparr>) \<rparr>"

text \<open>\<open>addr\<close> is what the allocator returned, \<open>None\<close> for \<open>RT_NULL\<close>; the new
  object is cleared before it is filled in.\<close>

definition rt_object_allocate :: "'o option \<Rightarrow> u8 \<Rightarrow> byte list \<Rightarrow> 'o objsys \<Rightarrow> 'o option \<times> 'o objsys" where
  "rt_object_allocate addr type name s =
    (case rt_object_get_information type of None \<Rightarrow> (None, s)
     | Some c \<Rightarrow>
        (case addr of None \<Rightarrow> (None, s)
         | Some object \<Rightarrow>
            let o' = \<lparr> obj_name = strncpy_to (replicate RT_NAME_MAX 0) name (RT_NAME_MAX - 1),
                       obj_type = type \<rparr>
            in (Some object,
                s\<lparr> object_of := (object_of s)(object := o'),
                   object_list := (object_list s)(c := object # object_list s c) \<rparr>)))"

definition rt_object_delete :: "'o \<Rightarrow> 'o objsys \<Rightarrow> 'o objsys" where
  "rt_object_delete object s =
    s\<lparr> object_list := (\<lambda>c. removeAll object (object_list s c)),
       object_of := (object_of s)(object := (object_of s object)\<lparr> obj_type := RT_Object_Class_Null \<rparr>) \<rparr>"

definition rt_object_is_systemobject :: "'o \<Rightarrow> 'o objsys \<Rightarrow> bool" where
  "rt_object_is_systemobject object s \<longleftrightarrow> obj_type (object_of s object) AND RT_Object_Class_Static \<noteq> 0"

definition rt_object_get_type :: "'o \<Rightarrow> 'o objsys \<Rightarrow> u8" where
  "rt_object_get_type object s = obj_type (object_of s object) AND NOT RT_Object_Class_Static"

definition rt_object_find :: "byte list \<Rightarrow> u8 \<Rightarrow> 'o objsys \<Rightarrow> 'o option" where
  "rt_object_find name type s =
    (case rt_object_get_information type of None \<Rightarrow> None
     | Some c \<Rightarrow> find (\<lambda>ob. names_equal (obj_name (object_of s ob)) name RT_NAME_MAX) (object_list s c))"

text \<open>\<open>dst\<close> is the caller's buffer, \<open>None\<close> for a null pointer; its first
  \<open>name_size\<close> bytes are written. When the stored name fills the array without a
  terminator and more is asked for, the copy reads past the array: outer \<open>None\<close>.\<close>

definition rt_object_get_name ::
  "'o option \<Rightarrow> byte list option \<Rightarrow> u8 \<Rightarrow> 'o objsys \<Rightarrow> (int \<times> byte list option) option" where
  "rt_object_get_name object dst name_size s =
    (case (object, dst) of
       (Some ob, Some d) \<Rightarrow>
         if name_size \<noteq> 0 then
           let obj_name = obj_name (object_of s ob); len = unat name_size in
           if 0 \<in> set obj_name \<or> len \<le> length obj_name
           then Some (RT_EOK, Some (strncpy_to d (takeWhile (\<lambda>c. c \<noteq> 0) obj_name) len))
           else None
         else Some (- RT_EINVAL, dst)
     | _ \<Rightarrow> Some (- RT_EINVAL, dst))"

definition rt_custom_object_create :: "'o option \<Rightarrow> byte list \<Rightarrow> 'o objsys \<Rightarrow> 'o option \<times> 'o objsys" where
  "rt_custom_object_create addr name s = rt_object_allocate addr RT_Object_Class_Custom name s"

text \<open>\<open>destroy\<close> is the result of the object's destroy callback, \<open>None\<close> when it has none.\<close>

definition rt_custom_object_destroy :: "'o option \<Rightarrow> int option \<Rightarrow> 'o objsys \<Rightarrow> int \<times> 'o objsys" where
  "rt_custom_object_destroy obj destroy s =
    (case obj of None \<Rightarrow> (- 1, s)
     | Some ob \<Rightarrow>
        if obj_type (object_of s ob) = RT_Object_Class_Custom
        then (case destroy of None \<Rightarrow> - 1 | Some r \<Rightarrow> r, rt_object_delete ob s)
        else (- 1, s))"

section \<open>Names: the array operations\<close>

lemma strncpy_to_eq:
  assumes "n \<le> length dst" and "0 \<notin> set src"
  shows "strncpy_to dst src n = take n (src @ replicate n 0) @ drop n dst"
proof (rule nth_equalityI)
  show "length (strncpy_to dst src n) = length (take n (src @ replicate n 0) @ drop n dst)"
    using assms(1) by (simp add: strncpy_to_def)
  fix i assume "i < length (strncpy_to dst src n)"
  then have i: "i < length dst" by (simp add: strncpy_to_def)
  let ?m = "list_memory (dst @ src @ [0])"
  have src: "?m (length dst + j) = (if j < length src then src ! j else 0)" for j
    by (auto simp: list_memory_def nth_append)
  have ex: "(\<exists>j \<le> i. ?m (length dst + j) = 0) \<longleftrightarrow> length src \<le> i"
    unfolding src using assms(2) by (auto simp: in_set_conv_nth)
  have "strncpy_to dst src n ! i =
      (if i < n then (if length src \<le> i then 0 else src ! i) else dst ! i)"
    using i assms(1) ex src[of i]
    by (auto simp: strncpy_to_def rt_strncpy_spec list_memory_def nth_append)
  then show "strncpy_to dst src n ! i = (take n (src @ replicate n 0) @ drop n dst) ! i"
    using i assms(1) by (auto simp: nth_append min_def)
qed

lemma names_equal_nth:
  fixes name :: "byte list"
  assumes "n \<le> length arr"
  defines "N \<equiv> \<lambda>i. if i < length name then name ! i else 0"
  shows "names_equal arr name n \<longleftrightarrow> (\<forall>i<n. i \<le> length (takeWhile (\<lambda>c. c \<noteq> 0) arr) \<longrightarrow> arr ! i = N i)"
proof -
  let ?m = "list_memory (arr @ name @ [0])" and ?p = "length (takeWhile (\<lambda>c. c \<noteq> 0) arr)"
  have a: "?m i = arr ! i" if "i < n" for i
    using that assms(1) by (simp add: list_memory_def nth_append)
  have b: "?m (length arr + i) = N i" for i by (auto simp: list_memory_def nth_append N_def)
  have z: "(\<forall>j<i. ?m j \<noteq> 0) \<longleftrightarrow> i \<le> ?p" if "i < n" for i
  proof -
    have "(\<forall>j<i. arr ! j \<noteq> 0) \<longleftrightarrow> i \<le> ?p"
    proof
      assume h: "\<forall>j<i. arr ! j \<noteq> 0"
      show "i \<le> ?p"
      proof (rule ccontr)
        assume "\<not> i \<le> ?p"
        moreover from this that assms(1) have "arr ! ?p = 0"
          using nth_length_takeWhile[of "\<lambda>c. c \<noteq> 0" arr] by auto
        ultimately show False using h by auto
      qed
    next
      assume "i \<le> ?p"
      then show "\<forall>j<i. arr ! j \<noteq> 0"
        using takeWhile_nthP[of _ "\<lambda>c. c \<noteq> 0" arr] by auto
    qed
    moreover have "?m j = arr ! j" if "j < i" for j using a \<open>i < n\<close> that by simp
    ultimately show ?thesis by simp
  qed
  show ?thesis
    unfolding names_equal_def rt_strncmp_0 using a b z by (simp cong: imp_cong)
qed

lemma names_equal_iff:
  assumes n: "n \<le> length arr" and "0 \<notin> set name"
  shows "names_equal arr name n \<longleftrightarrow> take n (takeWhile (\<lambda>c. c \<noteq> 0) arr) = take n name"
    (is "?L \<longleftrightarrow> take n ?t = take n name")
proof -
  let ?N = "\<lambda>i. if i < length name then name ! i else 0"
  have N0: "?N i = 0 \<longleftrightarrow> length name \<le> i" for i using assms(2) by (auto simp: in_set_conv_nth)
  have t0: "arr ! i = ?t ! i" "?t ! i \<noteq> 0" if "i < length ?t" for i
    using that takeWhile_nth[of i "\<lambda>c. c \<noteq> 0" arr] nth_mem[OF that] set_takeWhileD by fastforce+
  have te: "arr ! length ?t = 0" if "length ?t < n"
    using nth_length_takeWhile[of "\<lambda>c. c \<noteq> 0" arr] that n by auto
  show ?thesis unfolding names_equal_nth[OF n]
  proof
    assume h: "\<forall>i<n. i \<le> length ?t \<longrightarrow> arr ! i = ?N i"
    have le: "i < length name" if "i < n" "i < length ?t" for i
      using h that t0[OF that(2)] N0[of i] by (metis less_imp_le not_le)
    have "min n (length ?t) = min n (length name)"
    proof (cases "length ?t < n")
      case True
      then have "length name \<le> length ?t" using h te N0[of "length ?t"] by auto
      moreover have "length ?t \<le> length name" using le[of "length ?t - 1"] True by (cases "length ?t") auto
      ultimately show ?thesis by simp
    next
      case False
      then have "n \<le> length name" using le[of "n - 1"] by (cases n) auto
      with False show ?thesis by simp
    qed
    then have len: "length (take n ?t) = length (take n name)" by simp
    show "take n ?t = take n name"
    proof (rule nth_equalityI[OF len])
      fix i assume "i < length (take n ?t)"
      then have i: "i < n" "i < length ?t" by auto
      then have "?t ! i = name ! i" using h t0(1)[OF i(2)] le[OF i] by (metis less_imp_le)
      then show "take n ?t ! i = take n name ! i" using i by simp
    qed
  next
    assume e: "take n ?t = take n name"
    then have len: "min n (length ?t) = min n (length name)" by (metis length_take min.commute)
    show "\<forall>i<n. i \<le> length ?t \<longrightarrow> arr ! i = ?N i"
    proof (intro allI impI)
      fix i assume i: "i < n" "i \<le> length ?t"
      show "arr ! i = ?N i"
      proof (cases "i = length ?t")
        case True
        then show ?thesis using i te len N0[of i] by auto
      next
        case False
        then have "i < length ?t" "i < length name" using i len by auto
        then show ?thesis using t0(1)[of i] e i by (metis nth_take)
      qed
    qed
  qed
qed

section \<open>The registry invariant\<close>

definition registry_inv :: "'o objsys \<Rightarrow> bool" where
  "registry_inv s \<longleftrightarrow>
    (\<forall>c. distinct (object_list s c)) \<and>
    (\<forall>c ob. ob \<in> set (object_list s c) \<longrightarrow>
      rt_object_get_type ob s = c \<and> c \<in> set object_container_types \<and>
      length (obj_name (object_of s ob)) = RT_NAME_MAX)"

definition registered :: "'o \<Rightarrow> 'o objsys \<Rightarrow> bool" where
  "registered ob s \<longleftrightarrow> (\<exists>c. ob \<in> set (object_list s c))"

lemma find_eq_Some: "find (\<lambda>c. c = t) xs = Some c \<longleftrightarrow> c = t \<and> t \<in> set xs"
  by (induction xs) auto

lemma get_information_Some:
  "rt_object_get_information t = Some c \<longleftrightarrow>
   c = t AND NOT RT_Object_Class_Static \<and> c \<in> set object_container_types"
  by (auto simp: rt_object_get_information_def find_eq_Some Let_def)

lemma container_type_information:
  "t \<in> set object_container_types \<Longrightarrow> rt_object_get_information t = Some t"
  by (auto simp: get_information_Some object_container_types_def object_class_defs)

lemma length_strncpy_to [simp]: "length (strncpy_to dst src n) = length dst"
  by (simp add: strncpy_to_def)

lemma rt_object_init_inv:
  assumes "registry_inv s" and "\<not> registered ob s" and "length (obj_name (object_of s ob)) = RT_NAME_MAX"
  shows "registry_inv (rt_object_init ob type name s)"
proof (cases "rt_object_get_information type")
  case (Some c)
  then have c: "c = type AND NOT RT_Object_Class_Static" "c \<in> set object_container_types"
    unfolding get_information_Some by blast+
  have "(type OR RT_Object_Class_Static) AND NOT RT_Object_Class_Static = c"
    unfolding c(1) by (rule bit_eqI) (auto simp: bit_simps)
  then show ?thesis
    using assms Some c(2)
    by (auto simp: registry_inv_def rt_object_init_def registered_def rt_object_get_type_def Let_def)
qed (use assms(1) in \<open>simp add: rt_object_init_def\<close>)

lemma rt_object_allocate_inv:
  assumes "registry_inv s" and "\<And>ob. addr = Some ob \<Longrightarrow> \<not> registered ob s"
  shows "registry_inv (snd (rt_object_allocate addr type name s))"
  using assms
  by (auto simp: registry_inv_def rt_object_allocate_def registered_def rt_object_get_type_def Let_def
      get_information_Some split: option.splits)

lemma detach_delete_inv:
  assumes "registry_inv s"
  shows "registry_inv (rt_object_detach ob s)" and "registry_inv (rt_object_delete ob s)"
    and "\<not> registered ob (rt_object_detach ob s)" and "\<not> registered ob (rt_object_delete ob s)"
  using assms
  by (auto simp: registry_inv_def rt_object_detach_def rt_object_delete_def registered_def
      rt_object_get_type_def distinct_removeAll)

lemma takeWhile_zeros:
  assumes "0 \<notin> set name"
  shows "takeWhile (\<lambda>c. c \<noteq> 0) (take n name @ replicate j 0) = take n (name :: byte list)"
proof -
  have "\<And>x. x \<in> set (take n name) \<Longrightarrow> x \<noteq> 0" using assms by (auto dest: in_set_takeD)
  then show ?thesis by (cases j) (auto simp: takeWhile_append2)
qed

lemma find_Some_set: "find P xs = Some x \<Longrightarrow> x \<in> set xs"
  by (metis find_Some_iff nth_mem)

lemma stored_name_found:
  assumes "length old = RT_NAME_MAX" and "0 \<notin> set name"
  shows "names_equal (strncpy_to old name RT_NAME_MAX) name RT_NAME_MAX"
  using assms
  by (simp add: names_equal_iff strncpy_to_eq takeWhile_zeros)

text \<open>The dynamic variant keeps only seven characters.\<close>

lemma allocated_name:
  assumes "0 \<notin> set name"
  shows "names_equal (strncpy_to (replicate RT_NAME_MAX 0) name (RT_NAME_MAX - 1)) name RT_NAME_MAX
    \<longleftrightarrow> length name < RT_NAME_MAX"
proof -
  have e: "strncpy_to (replicate RT_NAME_MAX 0) name (RT_NAME_MAX - 1)
      = take (RT_NAME_MAX - 1) (name @ replicate (RT_NAME_MAX - 1) 0) @ [0]"
    using assms by (simp add: strncpy_to_eq RT_NAME_MAX_def)
  have "takeWhile (\<lambda>c. c \<noteq> 0) (take (RT_NAME_MAX - 1) (name @ replicate (RT_NAME_MAX - 1) 0) @ [0])
      = take (RT_NAME_MAX - 1) name"
    using takeWhile_zeros[OF assms, of "RT_NAME_MAX - 1" "Suc (RT_NAME_MAX - 1 - length name)"]
    by (simp add: RT_NAME_MAX_def replicate_append_same)
  then have "names_equal (strncpy_to (replicate RT_NAME_MAX 0) name (RT_NAME_MAX - 1)) name RT_NAME_MAX
      \<longleftrightarrow> take (RT_NAME_MAX - 1) name = take RT_NAME_MAX name"
    unfolding e using assms by (subst names_equal_iff) (auto simp: RT_NAME_MAX_def)
  also have "\<dots> \<longleftrightarrow> length name < RT_NAME_MAX"
  proof
    assume "take (RT_NAME_MAX - 1) name = take RT_NAME_MAX name"
    then have "length (take (RT_NAME_MAX - 1) name) = length (take RT_NAME_MAX name)" by simp
    then show "length name < RT_NAME_MAX" by (simp add: RT_NAME_MAX_def min_def split: if_splits)
  qed (simp add: RT_NAME_MAX_def)
  finally show ?thesis .
qed

lemma find_registered: "rt_object_find n t s = Some ob \<Longrightarrow> registered ob s"
  by (auto simp: rt_object_find_def registered_def dest: find_Some_set split: option.splits)

section \<open>Properties\<close>

text \<open>A static object that was just initialised is found by its name, of
  whatever length, in its class, and no other class sees it; after
  \<open>rt_object_detach\<close> it is in no container, and the registry invariant (each
  object at most once, in the container of its type) holds throughout.\<close>

theorem object_init_find_detach:
  assumes "registry_inv s" and "\<not> registered ob s"
    and "length (obj_name (object_of s ob)) = RT_NAME_MAX"
    and "type \<in> set object_container_types" and "0 \<notin> set name"
  shows "let s' = rt_object_init ob type name s in
    registry_inv s' \<and> rt_object_find name type s' = Some ob
    \<and> rt_object_is_systemobject ob s' \<and> rt_object_get_type ob s' = type
    \<and> rt_object_get_length type s' = Suc (rt_object_get_length type s)
    \<and> registry_inv (rt_object_detach ob s')
    \<and> (\<forall>n t. rt_object_find n t (rt_object_detach ob s') \<noteq> Some ob)"
proof -
  define s' where "s' = rt_object_init ob type name s"
  have i: "rt_object_get_information type = Some type"
    using assms(4) by (rule container_type_information)
  have inv: "registry_inv s'" unfolding s'_def by (rule rt_object_init_inv[OF assms(1-3)])
  have "rt_object_find name type s' = Some ob"
    using i stored_name_found[OF assms(3,5)]
    by (simp add: s'_def rt_object_find_def rt_object_init_def Let_def)
  moreover have "rt_object_get_type ob s' = type"
    using assms(4)
    by (auto simp: s'_def rt_object_init_def i rt_object_get_type_def Let_def
        object_container_types_def object_class_defs)
  moreover have "rt_object_is_systemobject ob s'"
    using assms(4)
    by (auto simp: s'_def rt_object_init_def i rt_object_is_systemobject_def Let_def
        object_container_types_def object_class_defs)
  moreover have "rt_object_get_length type s' = Suc (rt_object_get_length type s)"
    using i by (simp add: s'_def rt_object_get_length_def rt_object_init_def Let_def)
  ultimately show ?thesis
    using inv detach_delete_inv(1,3)[OF inv, of ob] find_registered[of _ _ "rt_object_detach ob s'" ob]
    by (auto simp: s'_def[symmetric] Let_def)
qed

definition demo_registry :: "nat objsys" where
  "demo_registry = \<lparr> object_of = (\<lambda>_. \<lparr> obj_name = replicate 8 0, obj_type = 0 \<rparr>),
     object_list = (\<lambda>_. []) \<rparr>"

lemma demo_registry_inv:
  "registry_inv demo_registry" "\<not> registered ob demo_registry"
  "length (obj_name (object_of demo_registry ob)) = RT_NAME_MAX"
  by (simp_all add: demo_registry_def registry_inv_def registered_def RT_NAME_MAX_def)

theorem object_init_find_detach_witness:
  "rt_object_find [65, 66] RT_Object_Class_Timer
     (rt_object_init 7 RT_Object_Class_Timer [65, 66] demo_registry) = Some 7"
  using object_init_find_detach
    [OF demo_registry_inv, of "RT_Object_Class_Timer" "[65, 66]" 7]
  by (simp add: object_container_types_def Let_def)

text \<open>The registry stores only seven characters of the name of a dynamically
  allocated object but compares eight when it looks one up: an object that was
  allocated under a name of eight or more characters is never found under that
  name, while a shorter name finds it.\<close>

theorem object_allocate_find:
  assumes "type \<in> set object_container_types" and "0 \<notin> set name" and "\<not> registered ob s"
  shows "let (r, s') = rt_object_allocate (Some ob) type name s in
    r = Some ob \<and>
    (rt_object_find name type s' = Some ob \<longleftrightarrow> length name < RT_NAME_MAX)"
proof -
  have i: "rt_object_get_information type = Some type"
    using assms(1) by (rule container_type_information)
  have "find P (object_list s type) \<noteq> Some ob" for P
    using assms(3) by (auto simp: registered_def dest: find_Some_set)
  then show ?thesis
    using i allocated_name[OF assms(2)]
    by (auto simp: rt_object_allocate_def rt_object_find_def Let_def)
qed

theorem object_allocate_find_witness:
  "rt_object_find [97,98,99,100,101,102,103,104] RT_Object_Class_Semaphore
     (snd (rt_object_allocate (Some 3) RT_Object_Class_Semaphore [97,98,99,100,101,102,103,104]
        demo_registry)) \<noteq> Some 3"
  using object_allocate_find[of RT_Object_Class_Semaphore "[97,98,99,100,101,102,103,104]" 3 demo_registry]
    demo_registry_inv(2)[of 3]
  by (auto simp: object_container_types_def RT_NAME_MAX_def split: prod.splits)

end
