(* ===== verification/KernelState.thy ===== *)
theory KernelState
  imports Object
begin

text \<open>
  The state of the kernel as configured for the board (\<open>rtconfig.h\<close>: one CPU, 32
  priorities, 1000 ticks per second, soft timers, semaphores, mutexes, mailboxes
  and message queues): the structures of \<open>rtdef.h\<close> as records, and one record
  with the kernel's global variables. A thread's list node \<open>tlist\<close> is linked into
  at most one list; all those lists are the lists \<open>thread_lists\<close>, indexed by the
  list head they belong to, so that unlinking a node is removal from all of them
  (\<open>RtList\<close> shows that the pointer operations implement this). The nesting counters
  \<open>rt_scheduler_lock_nest\<close> (\<open>rt_int16_t\<close> in the code) and \<open>rt_interrupt_nest\<close> (\<open>rt_uint8_t\<close>) have no bound here;
  they agree with the code below 32768 nested critical sections and 256 nested interrupts.
\<close>

section \<open>Threads and timers\<close>

type_synonym tid = nat
type_synonym oid = nat

datatype timer_id = ThreadTimer tid | Timer oid

text \<open>A timeout function is the kernel's own \<open>_thread_timeout\<close> or a user
  callback, named by a number.\<close>

datatype timeout_fn = thread_timeout_fn | user_fn nat

record rt_timer =
  timer_flag :: u8
  timeout_func :: timeout_fn
  parameter :: nat
  timer_init_tick :: u32
  timeout_tick :: u32

record rt_thread =
  thread_error :: int
  stat :: u8
  sched_flag_ttmr_set :: bool
  init_tick :: u32
  remaining_tick :: u32
  current_priority :: u8
  init_priority :: u8
  number_mask :: u32
  taken_object_list :: "oid list"
  pending_object :: "oid option"

section \<open>IPC objects\<close>

record rt_semaphore =
  sem_flag :: u8
  sem_value :: u16
  sem_max_value :: u16

record rt_mutex =
  mutex_flag :: u8
  ceiling_priority :: u8
  mutex_priority :: u8
  mutex_hold :: u8
  mutex_owner :: "tid option"

record rt_mailbox =
  mb_flag :: u8
  mb_pool :: "u32 list"
  mb_size :: u16
  mb_entry :: u16
  mb_in_offset :: u16
  mb_out_offset :: u16

text \<open>A block of a message pool: the next block of its list, the length of the
  message in it and the message bytes. A queue refers to the blocks of its pool by
  number; \<open>None\<close> is the null pointer.\<close>

record rt_mq_message =
  msg_next :: "nat option"
  msg_length :: nat
  msg_data :: "byte list"

record rt_messagequeue =
  mq_flag :: u8
  mq_pool :: "nat \<Rightarrow> rt_mq_message"
  mq_msg_size :: u16
  mq_max_msgs :: u16
  mq_entry :: u16
  msg_queue_head :: "nat option"
  msg_queue_tail :: "nat option"
  msg_queue_free :: "nat option"

section \<open>Lists of threads and of timers\<close>

datatype thread_list =
    ReadyQ nat
  | SemQ oid
  | MutexQ oid
  | MbRecvQ oid
  | MbSendQ oid
  | MqRecvQ oid
  | MqSendQ oid
  | DqPushQ oid
  | DqPopQ oid
  | DefunctQ

text \<open>The two timer lists and the two local lists that hold the timer whose
  callback is running.\<close>

datatype timer_list = HardTimers | SoftTimers | HardProcessing | SoftProcessing

datatype kobj =
    OThread tid
  | OTimer timer_id
  | OSem oid
  | OMutex oid
  | OMailBox oid
  | OMessageQueue oid
  | OMemory oid

section \<open>The kernel state\<close>

record kstate =
  thread_lists :: "thread_list \<Rightarrow> tid list"
  rt_thread_ready_priority_group :: u32
  rt_scheduler_lock_nest :: int
  rt_interrupt_nest :: nat
  rt_current_thread :: "tid option"
  rt_current_priority :: u8
  thread_of :: "tid \<Rightarrow> rt_thread"
  timer_lists :: "timer_list \<Rightarrow> timer_id list"
  timer_of :: "timer_id \<Rightarrow> rt_timer"
  rt_tick :: u32
  sem_of :: "oid \<Rightarrow> rt_semaphore"
  mutex_of :: "oid \<Rightarrow> rt_mutex"
  mailbox_of :: "oid \<Rightarrow> rt_mailbox"
  mq_of :: "oid \<Rightarrow> rt_messagequeue"
  registry :: "kobj objsys"

definition RT_THREAD_PRIORITY_MAX :: nat where "RT_THREAD_PRIORITY_MAX = 32"
definition RT_TICK_MAX_HALF :: u32 where "RT_TICK_MAX_HALF = 0x7FFFFFFF"

definition RT_THREAD_INIT :: u8 where "RT_THREAD_INIT = 0x00"
definition RT_THREAD_CLOSE :: u8 where "RT_THREAD_CLOSE = 0x01"
definition RT_THREAD_READY :: u8 where "RT_THREAD_READY = 0x02"
definition RT_THREAD_RUNNING :: u8 where "RT_THREAD_RUNNING = 0x03"
definition RT_THREAD_SUSPEND_MASK :: u8 where "RT_THREAD_SUSPEND_MASK = 0x04"
definition RT_THREAD_SUSPEND_KILLABLE :: u8 where "RT_THREAD_SUSPEND_KILLABLE = 0x06"
definition RT_THREAD_SUSPEND_UNINTERRUPTIBLE :: u8 where "RT_THREAD_SUSPEND_UNINTERRUPTIBLE = 0x07"
definition RT_THREAD_STAT_MASK :: u8 where "RT_THREAD_STAT_MASK = 0x07"
definition RT_THREAD_STAT_YIELD :: u8 where "RT_THREAD_STAT_YIELD = 0x08"

definition RT_TIMER_FLAG_ACTIVATED :: u8 where "RT_TIMER_FLAG_ACTIVATED = 0x1"
definition RT_TIMER_FLAG_PROCESSING :: u8 where "RT_TIMER_FLAG_PROCESSING = 0x2"
definition RT_TIMER_FLAG_PERIODIC :: u8 where "RT_TIMER_FLAG_PERIODIC = 0x4"
definition RT_TIMER_FLAG_SOFT_TIMER :: u8 where "RT_TIMER_FLAG_SOFT_TIMER = 0x8"
definition RT_TIMER_FLAG_THREAD_TIMER :: u8 where "RT_TIMER_FLAG_THREAD_TIMER = 0x10"

definition RT_IPC_FLAG_FIFO :: u8 where "RT_IPC_FLAG_FIFO = 0"
definition RT_IPC_FLAG_PRIO :: u8 where "RT_IPC_FLAG_PRIO = 1"

lemmas stat_defs =
  RT_THREAD_INIT_def RT_THREAD_CLOSE_def RT_THREAD_READY_def RT_THREAD_RUNNING_def
  RT_THREAD_SUSPEND_MASK_def RT_THREAD_SUSPEND_KILLABLE_def RT_THREAD_SUSPEND_UNINTERRUPTIBLE_def
  RT_THREAD_STAT_MASK_def RT_THREAD_STAT_YIELD_def

lemmas timer_flag_defs =
  RT_TIMER_FLAG_ACTIVATED_def RT_TIMER_FLAG_PROCESSING_def RT_TIMER_FLAG_PERIODIC_def
  RT_TIMER_FLAG_SOFT_TIMER_def RT_TIMER_FLAG_THREAD_TIMER_def

section \<open>Elementary updates\<close>

definition upd_thread :: "tid \<Rightarrow> (rt_thread \<Rightarrow> rt_thread) \<Rightarrow> kstate \<Rightarrow> kstate" where
  "upd_thread t f s = s\<lparr> thread_of := (thread_of s)(t := f (thread_of s t)) \<rparr>"

definition upd_timer :: "timer_id \<Rightarrow> (rt_timer \<Rightarrow> rt_timer) \<Rightarrow> kstate \<Rightarrow> kstate" where
  "upd_timer t f s = s\<lparr> timer_of := (timer_of s)(t := f (timer_of s t)) \<rparr>"

text \<open>\<open>rt_list_remove(&thread->tlist)\<close>\<close>

definition unlink_thread :: "tid \<Rightarrow> kstate \<Rightarrow> kstate" where
  "unlink_thread t s = s\<lparr> thread_lists := (\<lambda>l. removeAll t (thread_lists s l)) \<rparr>"

text \<open>\<open>rt_list_insert_after(&head, &thread->tlist)\<close> and
  \<open>rt_list_insert_before(&head, &thread->tlist)\<close>\<close>

definition push_thread :: "thread_list \<Rightarrow> tid \<Rightarrow> kstate \<Rightarrow> kstate" where
  "push_thread l t s = s\<lparr> thread_lists := (thread_lists s)(l := t # thread_lists s l) \<rparr>"

definition append_thread :: "thread_list \<Rightarrow> tid \<Rightarrow> kstate \<Rightarrow> kstate" where
  "append_thread l t s = s\<lparr> thread_lists := (thread_lists s)(l := thread_lists s l @ [t]) \<rparr>"

definition unlink_timer :: "timer_id \<Rightarrow> kstate \<Rightarrow> kstate" where
  "unlink_timer t s = s\<lparr> timer_lists := (\<lambda>l. removeAll t (timer_lists s l)) \<rparr>"

lemma thread_of_upd [simp]: "thread_of (upd_thread t f s) = (thread_of s)(t := f (thread_of s t))"
  by (simp add: upd_thread_def)

lemma timer_of_upd [simp]: "timer_of (upd_timer t f s) = (timer_of s)(t := f (timer_of s t))"
  by (simp add: upd_timer_def)

lemma thread_lists_upd [simp]:
  "thread_lists (unlink_thread t s) l = removeAll t (thread_lists s l)"
  "thread_lists (push_thread k t s) l = (if l = k then t # thread_lists s l else thread_lists s l)"
  "thread_lists (append_thread k t s) l = (if l = k then thread_lists s l @ [t] else thread_lists s l)"
  by (simp_all add: unlink_thread_def push_thread_def append_thread_def)

lemma timer_lists_unlink [simp]:
  "timer_lists (unlink_timer t s) l = removeAll t (timer_lists s l)"
  by (simp add: unlink_timer_def)

text \<open>What each elementary update leaves alone.\<close>

lemma upd_thread_frame [simp]:
  "thread_lists (upd_thread t f s) = thread_lists s"
  "rt_thread_ready_priority_group (upd_thread t f s) = rt_thread_ready_priority_group s"
  "rt_scheduler_lock_nest (upd_thread t f s) = rt_scheduler_lock_nest s"
  "rt_interrupt_nest (upd_thread t f s) = rt_interrupt_nest s"
  "rt_current_thread (upd_thread t f s) = rt_current_thread s"
  "rt_current_priority (upd_thread t f s) = rt_current_priority s"
  "timer_lists (upd_thread t f s) = timer_lists s"
  "timer_of (upd_thread t f s) = timer_of s"
  "rt_tick (upd_thread t f s) = rt_tick s"
  "sem_of (upd_thread t f s) = sem_of s"
  "mutex_of (upd_thread t f s) = mutex_of s"
  "mailbox_of (upd_thread t f s) = mailbox_of s"
  "mq_of (upd_thread t f s) = mq_of s"
  "registry (upd_thread t f s) = registry s"
  by (simp_all add: upd_thread_def)

lemma upd_timer_frame [simp]:
  "thread_lists (upd_timer tm g s) = thread_lists s"
  "rt_thread_ready_priority_group (upd_timer tm g s) = rt_thread_ready_priority_group s"
  "rt_scheduler_lock_nest (upd_timer tm g s) = rt_scheduler_lock_nest s"
  "rt_interrupt_nest (upd_timer tm g s) = rt_interrupt_nest s"
  "rt_current_thread (upd_timer tm g s) = rt_current_thread s"
  "rt_current_priority (upd_timer tm g s) = rt_current_priority s"
  "thread_of (upd_timer tm g s) = thread_of s"
  "timer_lists (upd_timer tm g s) = timer_lists s"
  "rt_tick (upd_timer tm g s) = rt_tick s"
  "sem_of (upd_timer tm g s) = sem_of s"
  "mutex_of (upd_timer tm g s) = mutex_of s"
  "mailbox_of (upd_timer tm g s) = mailbox_of s"
  "mq_of (upd_timer tm g s) = mq_of s"
  "registry (upd_timer tm g s) = registry s"
  by (simp_all add: upd_timer_def)

lemma unlink_thread_frame [simp]:
  "rt_thread_ready_priority_group (unlink_thread t s) = rt_thread_ready_priority_group s"
  "rt_scheduler_lock_nest (unlink_thread t s) = rt_scheduler_lock_nest s"
  "rt_interrupt_nest (unlink_thread t s) = rt_interrupt_nest s"
  "rt_current_thread (unlink_thread t s) = rt_current_thread s"
  "rt_current_priority (unlink_thread t s) = rt_current_priority s"
  "thread_of (unlink_thread t s) = thread_of s"
  "timer_lists (unlink_thread t s) = timer_lists s"
  "timer_of (unlink_thread t s) = timer_of s"
  "rt_tick (unlink_thread t s) = rt_tick s"
  "sem_of (unlink_thread t s) = sem_of s"
  "mutex_of (unlink_thread t s) = mutex_of s"
  "mailbox_of (unlink_thread t s) = mailbox_of s"
  "mq_of (unlink_thread t s) = mq_of s"
  "registry (unlink_thread t s) = registry s"
  by (simp_all add: unlink_thread_def)

lemma push_thread_frame [simp]:
  "rt_thread_ready_priority_group (push_thread l t s) = rt_thread_ready_priority_group s"
  "rt_scheduler_lock_nest (push_thread l t s) = rt_scheduler_lock_nest s"
  "rt_interrupt_nest (push_thread l t s) = rt_interrupt_nest s"
  "rt_current_thread (push_thread l t s) = rt_current_thread s"
  "rt_current_priority (push_thread l t s) = rt_current_priority s"
  "thread_of (push_thread l t s) = thread_of s"
  "timer_lists (push_thread l t s) = timer_lists s"
  "timer_of (push_thread l t s) = timer_of s"
  "rt_tick (push_thread l t s) = rt_tick s"
  "sem_of (push_thread l t s) = sem_of s"
  "mutex_of (push_thread l t s) = mutex_of s"
  "mailbox_of (push_thread l t s) = mailbox_of s"
  "mq_of (push_thread l t s) = mq_of s"
  "registry (push_thread l t s) = registry s"
  by (simp_all add: push_thread_def)

lemma append_thread_frame [simp]:
  "rt_thread_ready_priority_group (append_thread l t s) = rt_thread_ready_priority_group s"
  "rt_scheduler_lock_nest (append_thread l t s) = rt_scheduler_lock_nest s"
  "rt_interrupt_nest (append_thread l t s) = rt_interrupt_nest s"
  "rt_current_thread (append_thread l t s) = rt_current_thread s"
  "rt_current_priority (append_thread l t s) = rt_current_priority s"
  "thread_of (append_thread l t s) = thread_of s"
  "timer_lists (append_thread l t s) = timer_lists s"
  "timer_of (append_thread l t s) = timer_of s"
  "rt_tick (append_thread l t s) = rt_tick s"
  "sem_of (append_thread l t s) = sem_of s"
  "mutex_of (append_thread l t s) = mutex_of s"
  "mailbox_of (append_thread l t s) = mailbox_of s"
  "mq_of (append_thread l t s) = mq_of s"
  "registry (append_thread l t s) = registry s"
  by (simp_all add: append_thread_def)

lemma unlink_timer_frame [simp]:
  "thread_lists (unlink_timer tm s) = thread_lists s"
  "rt_thread_ready_priority_group (unlink_timer tm s) = rt_thread_ready_priority_group s"
  "rt_scheduler_lock_nest (unlink_timer tm s) = rt_scheduler_lock_nest s"
  "rt_interrupt_nest (unlink_timer tm s) = rt_interrupt_nest s"
  "rt_current_thread (unlink_timer tm s) = rt_current_thread s"
  "rt_current_priority (unlink_timer tm s) = rt_current_priority s"
  "thread_of (unlink_timer tm s) = thread_of s"
  "timer_of (unlink_timer tm s) = timer_of s"
  "rt_tick (unlink_timer tm s) = rt_tick s"
  "sem_of (unlink_timer tm s) = sem_of s"
  "mutex_of (unlink_timer tm s) = mutex_of s"
  "mailbox_of (unlink_timer tm s) = mailbox_of s"
  "mq_of (unlink_timer tm s) = mq_of s"
  "registry (unlink_timer tm s) = registry s"
  by (simp_all add: unlink_timer_def)

section \<open>A running system\<close>

text \<open>A small concrete system, used by the worked examples: thread 0 is the idle
  thread, thread 1 runs at priority 10 and thread 2 is ready at priority 10. Object
  number 0 of each kind is empty and unlocked.\<close>

definition blank_thread :: rt_thread where
  "blank_thread = \<lparr> thread_error = 0, stat = RT_THREAD_INIT, sched_flag_ttmr_set = False,
     init_tick = 0, remaining_tick = 0, current_priority = 0, init_priority = 0, number_mask = 0,
     taken_object_list = [], pending_object = None \<rparr>"

definition started_thread :: "u8 \<Rightarrow> u8 \<Rightarrow> rt_thread" where
  "started_thread p st = blank_thread\<lparr> stat := st, init_tick := 10, remaining_tick := 10,
     current_priority := p, init_priority := p, number_mask := push_bit (unat p) 1 \<rparr>"

definition idle_timer :: "timer_id \<Rightarrow> rt_timer" where
  "idle_timer tm = (case tm of
      ThreadTimer t \<Rightarrow> \<lparr> timer_flag = RT_TIMER_FLAG_THREAD_TIMER, timeout_func = thread_timeout_fn,
        parameter = t, timer_init_tick = 0, timeout_tick = 0 \<rparr>
    | Timer i \<Rightarrow> \<lparr> timer_flag = 0, timeout_func = user_fn i, parameter = 0,
        timer_init_tick = 5, timeout_tick = 0 \<rparr>)"

definition demo_kernel :: kstate where
  "demo_kernel = \<lparr>
     thread_lists = (\<lambda>_. [])(ReadyQ 10 := [2], ReadyQ 31 := [0]),
     rt_thread_ready_priority_group = push_bit 10 1 OR push_bit 31 1,
     rt_scheduler_lock_nest = 0, rt_interrupt_nest = 0, rt_current_thread = Some 1,
     rt_current_priority = 10,
     thread_of = (\<lambda>_. blank_thread)(0 := started_thread 31 RT_THREAD_READY,
       1 := started_thread 10 RT_THREAD_RUNNING, 2 := started_thread 10 RT_THREAD_READY),
     timer_lists = (\<lambda>_. []), timer_of = idle_timer, rt_tick = 0,
     sem_of = (\<lambda>_. \<lparr> sem_flag = RT_IPC_FLAG_PRIO, sem_value = 0, sem_max_value = 0xFFFF \<rparr>),
     mutex_of = (\<lambda>_. \<lparr> mutex_flag = RT_IPC_FLAG_PRIO, ceiling_priority = 0xFF, mutex_priority = 0xFF, mutex_hold = 0, mutex_owner = None \<rparr>),
     mailbox_of = (\<lambda>_. \<lparr> mb_flag = RT_IPC_FLAG_FIFO, mb_pool = replicate 4 0, mb_size = 4,
       mb_entry = 0, mb_in_offset = 0, mb_out_offset = 0 \<rparr>),
     mq_of = (\<lambda>_. \<lparr> mq_flag = RT_IPC_FLAG_FIFO,
       mq_pool = (\<lambda>b. \<lparr> msg_next = (if b = 0 then None else Some (b - 1)), msg_length = 0, msg_data = [] \<rparr>),
       mq_msg_size = 8, mq_max_msgs = 2, mq_entry = 0,
       msg_queue_head = None, msg_queue_tail = None, msg_queue_free = Some 1 \<rparr>),
     registry = \<lparr> object_of = (\<lambda>_. \<lparr> obj_name = replicate 8 0, obj_type = 0 \<rparr>), object_list = (\<lambda>_. []) \<rparr> \<rparr>"

end
