(* ===== verification/Timer.thy ===== *)
theory Timer
  imports KernelState
begin

text \<open>
  The part of \<open>rt-thread/src/timer.c\<close> that does not call the scheduler: creation,
  removal, ordered insertion into a timer list, stop and control. Ticks are 32-bit
  words and all comparisons are the wrapping differences of the source; the list
  is kept in the order in which the timers expire, across wrap-around.
  (\<open>RT_TIMER_SKIP_LIST_LEVEL\<close> is 1, so a timer list is one linked list.)
\<close>

section \<open>Operations\<close>

definition rt_tick_get :: "kstate \<Rightarrow> u32" where
  "rt_tick_get s = rt_tick s"

definition flag_set :: "u8 \<Rightarrow> u8 \<Rightarrow> bool" where
  "flag_set flags m \<longleftrightarrow> flags AND m \<noteq> 0"

definition set_tflag :: "timer_id \<Rightarrow> u8 \<Rightarrow> kstate \<Rightarrow> kstate" where
  "set_tflag tm m = upd_timer tm (\<lambda>x. x\<lparr> timer_flag := timer_flag x OR m \<rparr>)"

definition clear_tflag :: "timer_id \<Rightarrow> u8 \<Rightarrow> kstate \<Rightarrow> kstate" where
  "clear_tflag tm m = upd_timer tm (\<lambda>x. x\<lparr> timer_flag := timer_flag x AND NOT m \<rparr>)"

definition timer_init :: "timer_id \<Rightarrow> timeout_fn \<Rightarrow> nat \<Rightarrow> u32 \<Rightarrow> u8 \<Rightarrow> kstate \<Rightarrow> kstate" where
  "timer_init tm timeout par time flag s =
    upd_timer tm (\<lambda>x. x\<lparr> timer_flag := flag AND NOT RT_TIMER_FLAG_ACTIVATED,
      timeout_func := timeout, parameter := par, timeout_tick := 0, timer_init_tick := time \<rparr>) s"

definition timer_list_next_timeout :: "timer_list \<Rightarrow> kstate \<Rightarrow> u32 option" where
  "timer_list_next_timeout l s =
    (case timer_lists s l of [] \<Rightarrow> None | t # _ \<Rightarrow> Some (timeout_tick (timer_of s t)))"

definition timer_remove :: "timer_id \<Rightarrow> kstate \<Rightarrow> kstate" where
  "timer_remove tm s = unlink_timer tm s"

definition rt_timer_init :: "timer_id \<Rightarrow> byte list \<Rightarrow> timeout_fn \<Rightarrow> nat \<Rightarrow> u32 \<Rightarrow> u8 \<Rightarrow> kstate \<Rightarrow> kstate" where
  "rt_timer_init tm name timeout par time flag s =
    timer_init tm timeout par time flag
      (s\<lparr> registry := rt_object_init (OTimer tm) RT_Object_Class_Timer name (registry s) \<rparr>)"

definition rt_timer_detach :: "timer_id \<Rightarrow> kstate \<Rightarrow> int \<times> kstate" where
  "rt_timer_detach tm s =
    (let s = timer_remove tm s;
         s = clear_tflag tm RT_TIMER_FLAG_ACTIVATED s
     in (RT_EOK, s\<lparr> registry := rt_object_detach (OTimer tm) (registry s) \<rparr>))"

definition rt_timer_create ::
  "timer_id option \<Rightarrow> byte list \<Rightarrow> timeout_fn \<Rightarrow> nat \<Rightarrow> u32 \<Rightarrow> u8 \<Rightarrow> kstate \<Rightarrow> timer_id option \<times> kstate" where
  "rt_timer_create addr name timeout par time flag s =
    (case addr of None \<Rightarrow> (None, s)
     | Some tm \<Rightarrow>
        (Some tm, timer_init tm timeout par time flag
          (s\<lparr> registry := snd (rt_object_allocate (Some (OTimer tm)) RT_Object_Class_Timer name (registry s)) \<rparr>)))"

definition rt_timer_delete :: "timer_id \<Rightarrow> kstate \<Rightarrow> int \<times> kstate" where
  "rt_timer_delete tm s =
    (let s = timer_remove tm s;
         s = clear_tflag tm RT_TIMER_FLAG_ACTIVATED s
     in (RT_EOK, s\<lparr> registry := rt_object_delete (OTimer tm) (registry s) \<rparr>))"

text \<open>The search loop of \<open>_timer_start\<close>: go past every timer that expires at the
  same tick or earlier, and stop before the first one that expires later.\<close>

fun timer_insert :: "(timer_id \<Rightarrow> rt_timer) \<Rightarrow> timer_id \<Rightarrow> timer_id list \<Rightarrow> timer_id list" where
  "timer_insert T tm [] = [tm]"
| "timer_insert T tm (t # ts) =
    (let d = timeout_tick (T t) - timeout_tick (T tm) in
     if d = 0 then t # timer_insert T tm ts
     else if d < RT_TICK_MAX_HALF then tm # t # ts
     else t # timer_insert T tm ts)"

definition timer_start :: "timer_list \<Rightarrow> timer_id \<Rightarrow> kstate \<Rightarrow> int \<times> kstate" where
  "timer_start l tm s =
    (if flag_set (timer_flag (timer_of s tm)) RT_TIMER_FLAG_PROCESSING then (- RT_ERROR, s)
     else
       let s = timer_remove tm s;
           s = clear_tflag tm RT_TIMER_FLAG_ACTIVATED s;
           s = upd_timer tm (\<lambda>x. x\<lparr> timeout_tick := rt_tick_get s + timer_init_tick x \<rparr>) s;
           s = s\<lparr> timer_lists := (timer_lists s)(l := timer_insert (timer_of s) tm (timer_lists s l)) \<rparr>;
           s = set_tflag tm RT_TIMER_FLAG_ACTIVATED s
       in (RT_EOK, s))"

definition rt_timer_stop :: "timer_id \<Rightarrow> kstate \<Rightarrow> int \<times> kstate" where
  "rt_timer_stop tm s =
    (if \<not> flag_set (timer_flag (timer_of s tm)) RT_TIMER_FLAG_ACTIVATED then (- RT_ERROR, s)
     else
       let s = timer_remove tm s;
           s = clear_tflag tm RT_TIMER_FLAG_ACTIVATED s
       in (RT_EOK, s))"

datatype timer_cmd =
    TIMER_CTRL_SET_TIME u32
  | TIMER_CTRL_GET_TIME
  | TIMER_CTRL_SET_ONESHOT
  | TIMER_CTRL_SET_PERIODIC
  | TIMER_CTRL_GET_STATE
  | TIMER_CTRL_GET_REMAIN_TIME
  | TIMER_CTRL_GET_FUNC
  | TIMER_CTRL_SET_FUNC timeout_fn
  | TIMER_CTRL_GET_PARM
  | TIMER_CTRL_SET_PARM nat

datatype timer_answer = TNone | TTick u32 | TState u8 | TFunc timeout_fn | TParm nat

definition rt_timer_control :: "timer_id \<Rightarrow> timer_cmd \<Rightarrow> kstate \<Rightarrow> timer_answer \<times> kstate" where
  "rt_timer_control tm cmd s =
    (case cmd of
       TIMER_CTRL_GET_TIME \<Rightarrow> (TTick (timer_init_tick (timer_of s tm)), s)
     | TIMER_CTRL_SET_TIME time \<Rightarrow>
         let s = (if flag_set (timer_flag (timer_of s tm)) RT_TIMER_FLAG_ACTIVATED
                  then clear_tflag tm RT_TIMER_FLAG_ACTIVATED (timer_remove tm s) else s)
         in (TNone, upd_timer tm (\<lambda>x. x\<lparr> timer_init_tick := time \<rparr>) s)
     | TIMER_CTRL_SET_ONESHOT \<Rightarrow> (TNone, clear_tflag tm RT_TIMER_FLAG_PERIODIC s)
     | TIMER_CTRL_SET_PERIODIC \<Rightarrow> (TNone, set_tflag tm RT_TIMER_FLAG_PERIODIC s)
     | TIMER_CTRL_GET_STATE \<Rightarrow>
         (TState (if flag_set (timer_flag (timer_of s tm)) RT_TIMER_FLAG_ACTIVATED then 1 else 0), s)
     | TIMER_CTRL_GET_REMAIN_TIME \<Rightarrow> (TTick (timeout_tick (timer_of s tm)), s)
     | TIMER_CTRL_GET_FUNC \<Rightarrow> (TFunc (timeout_func (timer_of s tm)), s)
     | TIMER_CTRL_SET_FUNC f \<Rightarrow> (TNone, upd_timer tm (\<lambda>x. x\<lparr> timeout_func := f \<rparr>) s)
     | TIMER_CTRL_GET_PARM \<Rightarrow> (TParm (parameter (timer_of s tm)), s)
     | TIMER_CTRL_SET_PARM p \<Rightarrow> (TNone, upd_timer tm (\<lambda>x. x\<lparr> parameter := p \<rparr>) s))"

definition rt_timer_next_timeout_tick :: "kstate \<Rightarrow> u32" where
  "rt_timer_next_timeout_tick s =
    (case timer_list_next_timeout HardTimers s of None \<Rightarrow> 0xFFFFFFFF | Some t \<Rightarrow> t)"

section \<open>Wrapping comparison\<close>

text \<open>Seen from a base tick \<open>b\<close> with both ticks less than half the range ahead of
  it, the wrapping difference test of the source is the ordinary comparison.\<close>

lemma tick_after_iff:
  fixes x y b :: u32
  assumes "x - b < RT_TICK_MAX_HALF" and "y - b < RT_TICK_MAX_HALF"
  shows "x - y \<noteq> 0 \<and> x - y < RT_TICK_MAX_HALF \<longleftrightarrow> y - b < x - b"
proof -
  define p q where "p = x - b" and "q = y - b"
  have d: "x - y = p - q" by (simp add: p_def q_def)
  have "unat p < 0x7FFFFFFF" "unat q < 0x7FFFFFFF"
    using assms by (simp_all add: p_def q_def RT_TICK_MAX_HALF_def word_less_nat_alt)
  then show ?thesis
    unfolding d p_def[symmetric] q_def[symmetric]
    by (auto simp: RT_TICK_MAX_HALF_def word_less_nat_alt unat_sub_if_size word_size
        word_unat_eq_iff split: if_splits)
qed

lemma tick_eq_iff: "x - y = 0 \<longleftrightarrow> x - b = y - b" for x y b :: u32
  by simp

text \<open>Time until expiry, seen from base \<open>b\<close>.\<close>

definition due_in :: "u32 \<Rightarrow> (timer_id \<Rightarrow> rt_timer) \<Rightarrow> timer_id \<Rightarrow> u32" where
  "due_in b T t = timeout_tick (T t) - b"

definition timers_ordered :: "u32 \<Rightarrow> (timer_id \<Rightarrow> rt_timer) \<Rightarrow> timer_id list \<Rightarrow> bool" where
  "timers_ordered b T ts \<longleftrightarrow>
    (\<forall>t \<in> set ts. due_in b T t < RT_TICK_MAX_HALF) \<and> sorted (map (due_in b T) ts)"

lemma timer_insert_split:
  assumes "timers_ordered b T ts" and "due_in b T tm < RT_TICK_MAX_HALF"
  shows "timer_insert T tm ts =
    takeWhile (\<lambda>t. due_in b T t \<le> due_in b T tm) ts @ tm #
    dropWhile (\<lambda>t. due_in b T t \<le> due_in b T tm) ts"
  using assms(1)
proof (induction ts)
  case (Cons t ts)
  have o: "timers_ordered b T ts" and t: "due_in b T t < RT_TICK_MAX_HALF"
    using Cons.prems by (auto simp: timers_ordered_def)
  have "timeout_tick (T t) - timeout_tick (T tm) \<noteq> 0 \<and>
      timeout_tick (T t) - timeout_tick (T tm) < RT_TICK_MAX_HALF \<longleftrightarrow> due_in b T tm < due_in b T t"
    using tick_after_iff[of "timeout_tick (T t)" b "timeout_tick (T tm)"] t assms(2)
    by (simp add: due_in_def)
  then show ?case using Cons.IH[OF o] by (auto simp: Let_def)
qed simp

lemma set_timer_insert [simp]: "set (timer_insert T tm ts) = insert tm (set ts)"
  by (induction ts) (auto simp: Let_def)

lemma distinct_timer_insert: "distinct ts \<Longrightarrow> tm \<notin> set ts \<Longrightarrow> distinct (timer_insert T tm ts)"
  by (induction ts) (auto simp: Let_def)

lemma timer_insert_cong:
  "(\<And>t. t \<in> insert tm (set ts) \<Longrightarrow> timeout_tick (T t) = timeout_tick (T' t)) \<Longrightarrow>
   timer_insert T tm ts = timer_insert T' tm ts"
  by (induction ts) (auto simp: Let_def)

lemma timer_insert_ordered:
  assumes "timers_ordered b T ts" and "due_in b T tm < RT_TICK_MAX_HALF"
  shows "timers_ordered b T (timer_insert T tm ts)"
proof -
  let ?P = "\<lambda>t. due_in b T t \<le> due_in b T tm"
  define A B where "A = takeWhile ?P ts" and "B = dropWhile ?P ts"
  have ts: "ts = A @ B" by (simp add: A_def B_def)
  have s: "sorted (map (due_in b T) (A @ B))"
    and h: "\<forall>t \<in> set ts. due_in b T t < RT_TICK_MAX_HALF"
    using assms(1) ts by (auto simp: timers_ordered_def)
  have A: "\<forall>t \<in> set A. due_in b T t \<le> due_in b T tm" by (auto simp: A_def dest: set_takeWhileD)
  have B: "\<forall>t \<in> set B. due_in b T tm \<le> due_in b T t"
  proof (cases B)
    case (Cons u us)
    then have "\<not> ?P u" unfolding B_def by (metis dropWhile_eq_Cons_conv)
    moreover have "\<forall>t \<in> set us. due_in b T u \<le> due_in b T t" using s Cons by (simp add: sorted_append)
    ultimately show ?thesis using Cons by auto
  qed simp
  have "sorted (map (due_in b T) (A @ tm # B))" using s A B by (auto simp: sorted_append)
  moreover have "timer_insert T tm ts = A @ tm # B"
    using timer_insert_split[OF assms] by (simp add: A_def B_def)
  ultimately show ?thesis using h assms(2) ts by (simp add: timers_ordered_def)
qed

section \<open>Frame and effect of the operations\<close>

lemmas timer_op_defs =
  timer_remove_def set_tflag_def clear_tflag_def timer_start_def rt_timer_stop_def Let_def

lemma timer_frame [simp]:
  "thread_lists (snd (rt_timer_stop tm s)) = thread_lists s"
  "thread_of (snd (rt_timer_stop tm s)) = thread_of s"
  "rt_thread_ready_priority_group (snd (rt_timer_stop tm s)) = rt_thread_ready_priority_group s"
  "rt_current_thread (snd (rt_timer_stop tm s)) = rt_current_thread s"
  "rt_scheduler_lock_nest (snd (rt_timer_stop tm s)) = rt_scheduler_lock_nest s"
  "rt_interrupt_nest (snd (rt_timer_stop tm s)) = rt_interrupt_nest s"
  "rt_tick (snd (rt_timer_stop tm s)) = rt_tick s"
  "sem_of (snd (rt_timer_stop tm s)) = sem_of s"
  "mutex_of (snd (rt_timer_stop tm s)) = mutex_of s"
  "mailbox_of (snd (rt_timer_stop tm s)) = mailbox_of s"
  "mq_of (snd (rt_timer_stop tm s)) = mq_of s"
  "registry (snd (rt_timer_stop tm s)) = registry s"
  by (simp_all add: timer_op_defs)

lemma timer_start_frame [simp]:
  "thread_lists (snd (timer_start l tm s)) = thread_lists s"
  "thread_of (snd (timer_start l tm s)) = thread_of s"
  "rt_thread_ready_priority_group (snd (timer_start l tm s)) = rt_thread_ready_priority_group s"
  "rt_current_thread (snd (timer_start l tm s)) = rt_current_thread s"
  "rt_scheduler_lock_nest (snd (timer_start l tm s)) = rt_scheduler_lock_nest s"
  "rt_interrupt_nest (snd (timer_start l tm s)) = rt_interrupt_nest s"
  "rt_tick (snd (timer_start l tm s)) = rt_tick s"
  "sem_of (snd (timer_start l tm s)) = sem_of s"
  "mutex_of (snd (timer_start l tm s)) = mutex_of s"
  "mailbox_of (snd (timer_start l tm s)) = mailbox_of s"
  "mq_of (snd (timer_start l tm s)) = mq_of s"
  "registry (snd (timer_start l tm s)) = registry s"
  by (simp_all add: timer_op_defs)

text \<open>The list invariant of the timer system: a timer is in at most one list, and
  it is active exactly when it is in the list of its kind (or is periodic and its
  callback is running).\<close>

lemma flag_set_or [simp]: "flag_set (f OR m) m \<longleftrightarrow> m \<noteq> 0"
  by (auto simp: flag_set_def bit_eq_iff bit_simps)

lemma flag_set_andnot [simp]: "\<not> flag_set (f AND NOT m) m"
proof -
  have "(f AND NOT m) AND m = 0" by (rule bit_eqI) (auto simp: bit_simps)
  then show ?thesis by (simp add: flag_set_def)
qed

lemma timers_ordered_remove:
  "timers_ordered b T ts \<Longrightarrow> timers_ordered b T (removeAll t ts)"
  by (induction ts) (auto simp: timers_ordered_def)

lemma timers_ordered_cong:
  assumes "\<And>t. t \<in> set ts \<Longrightarrow> timeout_tick (T t) = timeout_tick (T' t)"
  shows "timers_ordered b T ts = timers_ordered b T' ts"
proof -
  have e: "\<And>t. t \<in> set ts \<Longrightarrow> due_in b T t = due_in b T' t" using assms by (simp add: due_in_def)
  then have m: "map (due_in b T) ts = map (due_in b T') ts" by simp
  show ?thesis unfolding timers_ordered_def m using e by simp
qed

section \<open>Properties\<close>

text \<open>Starting a timer that is not being processed arms it for \<open>now + init_tick\<close>
  and keeps the list in order of expiry, with 32-bit wrap-around of the tick
  counter: the new timer goes behind every timer that expires earlier or at the
  same tick (so equal timeouts fire in start order) and before all later ones.
  A running callback blocks the restart with an error and no effect.\<close>

theorem timer_start_keeps_order:
  assumes "timers_ordered b (timer_of s) (timer_lists s l)" and "distinct (timer_lists s l)"
    and "rt_tick s + timer_init_tick (timer_of s tm) - b < RT_TICK_MAX_HALF"
  shows "let (r, s') = timer_start l tm s; others = removeAll tm (timer_lists s l);
             due = due_in b (timer_of s') in
    if flag_set (timer_flag (timer_of s tm)) RT_TIMER_FLAG_PROCESSING
    then r = - RT_ERROR \<and> s' = s
    else r = RT_EOK
      \<and> timeout_tick (timer_of s' tm) = rt_tick s + timer_init_tick (timer_of s tm)
      \<and> flag_set (timer_flag (timer_of s' tm)) RT_TIMER_FLAG_ACTIVATED
      \<and> timers_ordered b (timer_of s') (timer_lists s' l) \<and> distinct (timer_lists s' l)
      \<and> timer_lists s' l = takeWhile (\<lambda>t. due t \<le> due tm) others @ tm #
                           dropWhile (\<lambda>t. due t \<le> due tm) others"
proof (cases "flag_set (timer_flag (timer_of s tm)) RT_TIMER_FLAG_PROCESSING")
  case True
  then show ?thesis by (simp add: timer_start_def)
next
  case False
  define s' where "s' = snd (timer_start l tm s)"
  define others where "others = removeAll tm (timer_lists s l)"
  have e: "timer_start l tm s = (RT_EOK, s')"
    using False by (simp add: s'_def timer_start_def Let_def)
  have tick: "timeout_tick (timer_of s' t) =
      (if t = tm then rt_tick s + timer_init_tick (timer_of s tm) else timeout_tick (timer_of s t))" for t
    using False by (simp add: s'_def timer_op_defs rt_tick_get_def)
  have fl: "flag_set (timer_flag (timer_of s' tm)) RT_TIMER_FLAG_ACTIVATED"
    using False by (simp add: s'_def timer_op_defs) (simp add: RT_TIMER_FLAG_ACTIVATED_def)
  have lst: "timer_lists s' l = timer_insert (timer_of s') tm others"
  proof -
    have "timer_lists s' l = timer_insert (timer_of (upd_timer tm (\<lambda>x. x\<lparr> timeout_tick :=
        rt_tick s + timer_init_tick x \<rparr>) (clear_tflag tm RT_TIMER_FLAG_ACTIVATED s))) tm others"
      using False by (simp add: s'_def others_def timer_op_defs rt_tick_get_def)
    then show ?thesis using tick by (auto simp: clear_tflag_def intro: timer_insert_cong)
  qed
  have o: "timers_ordered b (timer_of s') others"
    using timers_ordered_remove[OF assms(1), of tm] tick
    by (subst timers_ordered_cong[of _ _ "timer_of s"]) (auto simp: others_def)
  have h: "due_in b (timer_of s') tm < RT_TICK_MAX_HALF"
    using assms(3) tick by (simp add: due_in_def)
  have "distinct (timer_lists s' l)"
    unfolding lst using assms(2) by (intro distinct_timer_insert) (auto simp: others_def distinct_removeAll)
  then show ?thesis
    using e tick fl lst timer_insert_ordered[OF o h] timer_insert_split[OF o h] False
    by (simp add: others_def Let_def)
qed

theorem timer_start_keeps_order_witness:
  "timer_lists (snd (timer_start HardTimers (Timer 1) demo_kernel)) HardTimers = [Timer 1]
   \<and> timeout_tick (timer_of (snd (timer_start HardTimers (Timer 1) demo_kernel)) (Timer 1)) = 5"
  using timer_start_keeps_order[of 0 demo_kernel HardTimers "Timer 1"]
  by (simp add: demo_kernel_def idle_timer_def timers_ordered_def RT_TICK_MAX_HALF_def flag_set_def
      case_prod_unfold Let_def)

end
