(* ===== verification/Scheduler.thy ===== *)
theory Scheduler
  imports Timer Ffs
begin

text \<open>
  The uniprocessor scheduler: \<open>rt-thread/src/scheduler_up.c\<close> and
  \<open>rt-thread/src/scheduler_comm.c\<close>. The ready queues are one list per priority
  with a 32-bit bitmap of the non-empty ones; \<open>rt_schedule\<close> picks the first
  thread of the highest priority with \<open>__rt_ffs\<close>. Every function runs with
  interrupts masked, so each is one atomic state transformation; the context
  switch is the change of \<open>rt_current_thread\<close>. The scheduling invariant and its
  preservation by every operation, and what \<open>rt_schedule\<close> selects, are proved
  here.
\<close>

section \<open>Thread status\<close>

definition tst :: "u8 \<Rightarrow> u8" where
  "tst x = x AND RT_THREAD_STAT_MASK"

definition thread_state :: "kstate \<Rightarrow> tid \<Rightarrow> u8" where
  "thread_state s t = tst (stat (thread_of s t))"

definition rt_sched_thread_get_stat :: "tid \<Rightarrow> kstate \<Rightarrow> u8" where
  "rt_sched_thread_get_stat t s = stat (thread_of s t) AND RT_THREAD_STAT_MASK"

definition rt_sched_thread_get_curr_prio :: "tid \<Rightarrow> kstate \<Rightarrow> u8" where
  "rt_sched_thread_get_curr_prio t s = current_priority (thread_of s t)"

definition rt_sched_thread_get_init_prio :: "tid \<Rightarrow> kstate \<Rightarrow> u8" where
  "rt_sched_thread_get_init_prio t s = init_priority (thread_of s t)"

definition rt_sched_thread_is_suspended :: "tid \<Rightarrow> kstate \<Rightarrow> bool" where
  "rt_sched_thread_is_suspended t s \<longleftrightarrow>
    stat (thread_of s t) AND RT_THREAD_SUSPEND_MASK = RT_THREAD_SUSPEND_MASK"

abbreviation prio_index :: "kstate \<Rightarrow> tid \<Rightarrow> nat" where
  "prio_index s t \<equiv> unat (current_priority (thread_of s t))"

definition rt_thread_self :: "kstate \<Rightarrow> tid option" where
  "rt_thread_self s = rt_current_thread s"

section \<open>Ready queue operations\<close>

definition rt_sched_thread_init_priv :: "tid \<Rightarrow> u32 \<Rightarrow> u8 \<Rightarrow> kstate \<Rightarrow> kstate" where
  "rt_sched_thread_init_priv t tick priority s =
    upd_thread t (\<lambda>x. x\<lparr> init_priority := priority, current_priority := priority,
      number_mask := 0, init_tick := tick, remaining_tick := tick \<rparr>) s"

definition rt_sched_thread_init_ctx :: "tid \<Rightarrow> u32 \<Rightarrow> u8 \<Rightarrow> kstate \<Rightarrow> kstate" where
  "rt_sched_thread_init_ctx t tick priority s =
    rt_sched_thread_init_priv t tick priority (upd_thread t (\<lambda>x. x\<lparr> stat := RT_THREAD_INIT \<rparr>) s)"

definition rt_sched_insert_thread :: "tid \<Rightarrow> kstate \<Rightarrow> kstate" where
  "rt_sched_insert_thread t s =
    (if rt_current_thread s = Some t then
       upd_thread t (\<lambda>x. x\<lparr> stat := RT_THREAD_RUNNING OR (stat x AND NOT RT_THREAD_STAT_MASK) \<rparr>) s
     else
       let s = upd_thread t (\<lambda>x. x\<lparr> stat := RT_THREAD_READY OR (stat x AND NOT RT_THREAD_STAT_MASK) \<rparr>) s;
           s = (if stat (thread_of s t) AND RT_THREAD_STAT_YIELD \<noteq> 0
                then append_thread (ReadyQ (prio_index s t)) t s
                else push_thread (ReadyQ (prio_index s t)) t s)
       in s\<lparr> rt_thread_ready_priority_group :=
               rt_thread_ready_priority_group s OR number_mask (thread_of s t) \<rparr>)"

definition rt_sched_remove_thread :: "tid \<Rightarrow> kstate \<Rightarrow> kstate" where
  "rt_sched_remove_thread t s =
    (let s = unlink_thread t s in
     if thread_lists s (ReadyQ (prio_index s t)) = []
     then s\<lparr> rt_thread_ready_priority_group :=
               rt_thread_ready_priority_group s AND NOT (number_mask (thread_of s t)) \<rparr>
     else s)"

text \<open>The first thread of the highest ready priority.\<close>

definition scheduler_get_highest_priority_thread :: "kstate \<Rightarrow> tid \<times> nat" where
  "scheduler_get_highest_priority_thread s =
    (let highest_ready_priority = rt_ffs (rt_thread_ready_priority_group s) - 1
     in (hd (thread_lists s (ReadyQ highest_ready_priority)), highest_ready_priority))"

definition rt_system_scheduler_init :: "kstate \<Rightarrow> kstate" where
  "rt_system_scheduler_init s =
    s\<lparr> rt_scheduler_lock_nest := 0,
       thread_lists := (\<lambda>l. case l of ReadyQ p \<Rightarrow> if p < RT_THREAD_PRIORITY_MAX then [] else thread_lists s l
                                    | _ \<Rightarrow> thread_lists s l),
       rt_thread_ready_priority_group := 0 \<rparr>"

definition rt_system_scheduler_start :: "kstate \<Rightarrow> kstate" where
  "rt_system_scheduler_start s =
    (let (to_thread, highest) = scheduler_get_highest_priority_thread s;
         s = s\<lparr> rt_current_thread := Some to_thread \<rparr>;
         s = rt_sched_remove_thread to_thread s
     in upd_thread to_thread (\<lambda>x. x\<lparr> stat := RT_THREAD_RUNNING \<rparr>) s)"

section \<open>rt\_schedule\<close>

text \<open>Before the scheduler has been started there is no current thread; the
  callers test \<open>rt_thread_self()\<close> first.\<close>

definition rt_schedule :: "kstate \<Rightarrow> kstate" where
  "rt_schedule s =
    (case rt_current_thread s of None \<Rightarrow> s
     | Some current \<Rightarrow>
       if rt_scheduler_lock_nest s = 0 \<and> rt_thread_ready_priority_group s \<noteq> 0 then
         let (highest_thread, highest_ready_priority) = scheduler_get_highest_priority_thread s;
             running = (stat (thread_of s current) AND RT_THREAD_STAT_MASK = RT_THREAD_RUNNING);
             keep = (running \<and>
               (prio_index s current < highest_ready_priority \<or>
                prio_index s current = highest_ready_priority \<and>
                stat (thread_of s current) AND RT_THREAD_STAT_YIELD = 0));
             to_thread = (if keep then current else highest_thread);
             need_insert_from_thread = (running \<and> \<not> keep)
         in if to_thread \<noteq> current then
              let s = s\<lparr> rt_current_priority := of_nat highest_ready_priority,
                         rt_current_thread := Some to_thread \<rparr>;
                  s = (if need_insert_from_thread then rt_sched_insert_thread current s else s);
                  s = (if stat (thread_of s current) AND RT_THREAD_STAT_YIELD \<noteq> 0
                       then upd_thread current (\<lambda>x. x\<lparr> stat := stat x AND NOT RT_THREAD_STAT_YIELD \<rparr>) s
                       else s);
                  s = rt_sched_remove_thread to_thread s
              in upd_thread to_thread
                   (\<lambda>x. x\<lparr> stat := RT_THREAD_RUNNING OR (stat x AND NOT RT_THREAD_STAT_MASK) \<rparr>) s
            else
              let s = rt_sched_remove_thread current s
              in upd_thread current
                   (\<lambda>x. x\<lparr> stat := RT_THREAD_RUNNING OR (stat x AND NOT RT_THREAD_STAT_MASK) \<rparr>) s
       else s)"

definition rt_sched_unlock_n_resched :: "kstate \<Rightarrow> kstate" where
  "rt_sched_unlock_n_resched s = (if rt_thread_self s \<noteq> None then rt_schedule s else s)"

definition rt_enter_critical :: "kstate \<Rightarrow> int \<times> kstate" where
  "rt_enter_critical s =
    (let s = s\<lparr> rt_scheduler_lock_nest := rt_scheduler_lock_nest s + 1 \<rparr>
     in (rt_scheduler_lock_nest s, s))"

definition rt_exit_critical :: "kstate \<Rightarrow> kstate" where
  "rt_exit_critical s =
    (let s = s\<lparr> rt_scheduler_lock_nest := rt_scheduler_lock_nest s - 1 \<rparr> in
     if rt_scheduler_lock_nest s \<le> 0 then
       let s = s\<lparr> rt_scheduler_lock_nest := 0 \<rparr>
       in if rt_current_thread s \<noteq> None then rt_schedule s else s
     else s)"

definition rt_exit_critical_safe :: "int \<Rightarrow> kstate \<Rightarrow> kstate" where
  "rt_exit_critical_safe critical_level s = rt_exit_critical s"

definition rt_critical_level :: "kstate \<Rightarrow> int" where
  "rt_critical_level s = rt_scheduler_lock_nest s"

section \<open>Scheduling services for threads\<close>

definition rt_sched_thread_startup :: "tid \<Rightarrow> kstate \<Rightarrow> kstate" where
  "rt_sched_thread_startup t s =
    upd_thread t (\<lambda>x. x\<lparr> number_mask := push_bit (unat (current_priority x)) 1,
                          stat := RT_THREAD_SUSPEND_MASK \<rparr>) s"

definition rt_sched_thread_timer_start :: "tid \<Rightarrow> kstate \<Rightarrow> kstate" where
  "rt_sched_thread_timer_start t s = upd_thread t (\<lambda>x. x\<lparr> sched_flag_ttmr_set := True \<rparr>) s"

definition rt_sched_thread_timer_stop :: "tid \<Rightarrow> kstate \<Rightarrow> int \<times> kstate" where
  "rt_sched_thread_timer_stop t s =
    (if sched_flag_ttmr_set (thread_of s t) then
       let (error, s) = rt_timer_stop (ThreadTimer t) s
       in (error, upd_thread t (\<lambda>x. x\<lparr> sched_flag_ttmr_set := False \<rparr>) s)
     else (RT_EOK, s))"

definition rt_sched_thread_close :: "tid \<Rightarrow> kstate \<Rightarrow> int \<times> kstate" where
  "rt_sched_thread_close t s = (RT_EOK, upd_thread t (\<lambda>x. x\<lparr> stat := RT_THREAD_CLOSE \<rparr>) s)"

definition rt_sched_thread_yield :: "tid \<Rightarrow> kstate \<Rightarrow> int \<times> kstate" where
  "rt_sched_thread_yield t s =
    (RT_EOK, upd_thread t (\<lambda>x. x\<lparr> remaining_tick := init_tick x,
                                  stat := stat x OR RT_THREAD_STAT_YIELD \<rparr>) s)"

definition rt_sched_thread_ready :: "tid \<Rightarrow> kstate \<Rightarrow> int \<times> kstate" where
  "rt_sched_thread_ready t s =
    (if \<not> rt_sched_thread_is_suspended t s then (- RT_EINVAL, s)
     else
       let (error, s) = (if sched_flag_ttmr_set (thread_of s t)
                         then rt_sched_thread_timer_stop t s else (RT_EOK, s))
       in if error = 0 then (error, rt_sched_insert_thread t (unlink_thread t s)) else (error, s))"

definition rt_sched_tick_increase :: "kstate \<Rightarrow> int \<times> kstate" where
  "rt_sched_tick_increase s =
    (case rt_thread_self s of None \<Rightarrow> (RT_EOK, s)
     | Some t \<Rightarrow>
       let s = upd_thread t (\<lambda>x. x\<lparr> remaining_tick := remaining_tick x - 1 \<rparr>) s
       in if remaining_tick (thread_of s t) \<noteq> 0 then (RT_EOK, s)
          else (RT_EOK, rt_sched_unlock_n_resched (snd (rt_sched_thread_yield t s))))"

definition rt_sched_thread_change_priority :: "tid \<Rightarrow> u8 \<Rightarrow> kstate \<Rightarrow> int \<times> kstate" where
  "rt_sched_thread_change_priority t priority s =
    (let setp = upd_thread t (\<lambda>x. x\<lparr> current_priority := priority,
                                     number_mask := push_bit (unat priority) 1 \<rparr>) in
     if stat (thread_of s t) AND RT_THREAD_STAT_MASK = RT_THREAD_READY then
       let s = rt_sched_remove_thread t s;
           s = setp s;
           s = upd_thread t (\<lambda>x. x\<lparr> stat := RT_THREAD_INIT \<rparr>) s
       in (RT_EOK, rt_sched_insert_thread t s)
     else (RT_EOK, setp s))"

definition rt_sched_thread_bind_cpu :: "tid \<Rightarrow> int \<Rightarrow> int" where
  "rt_sched_thread_bind_cpu t cpu = - RT_EINVAL"

section \<open>Status words\<close>

lemma tst_simps [simp]:
  "tst (RT_THREAD_READY OR (x AND NOT RT_THREAD_STAT_MASK)) = RT_THREAD_READY"
  "tst (RT_THREAD_RUNNING OR (x AND NOT RT_THREAD_STAT_MASK)) = RT_THREAD_RUNNING"
  "tst (x OR RT_THREAD_STAT_YIELD) = tst x"
  "tst (x AND NOT RT_THREAD_STAT_YIELD) = tst x"
  unfolding tst_def stat_defs
  by (rule bit_word_eqI; auto simp only: u8_bit_simps)+

lemma tst_const [simp]:
  "tst RT_THREAD_INIT = RT_THREAD_INIT" "tst RT_THREAD_CLOSE = RT_THREAD_CLOSE"
  "tst RT_THREAD_READY = RT_THREAD_READY"
  "tst RT_THREAD_RUNNING = RT_THREAD_RUNNING" "tst RT_THREAD_SUSPEND_MASK = RT_THREAD_SUSPEND_MASK"
  by (simp_all add: tst_def stat_defs)

lemma yield_bit_simps [simp]:
  "(RT_THREAD_READY OR (x AND NOT RT_THREAD_STAT_MASK)) AND RT_THREAD_STAT_YIELD = x AND RT_THREAD_STAT_YIELD"
  "(RT_THREAD_RUNNING OR (x AND NOT RT_THREAD_STAT_MASK)) AND RT_THREAD_STAT_YIELD = x AND RT_THREAD_STAT_YIELD"
  "(x OR RT_THREAD_STAT_YIELD) AND RT_THREAD_STAT_YIELD = RT_THREAD_STAT_YIELD"
  "(x AND NOT RT_THREAD_STAT_YIELD) AND RT_THREAD_STAT_YIELD = 0"
  unfolding stat_defs
  by (rule bit_word_eqI; auto simp only: u8_bit_simps bit_0_eq bot_apply bot_bool_def)+

lemma tst_cases: "tst x \<in> {0, 1, 2, 3, 4, 5, 6, 7}"
proof -
  have "tst x = take_bit 3 x" by (simp add: tst_def stat_defs take_bit_eq_mask mask_eq_exp_minus_1)
  then have "unat (tst x) = take_bit 3 (unat x)" by (simp add: unsigned_take_bit_eq)
  then have "unat (tst x) < 8" using take_bit_nat_less_exp[of 3 "unat x"] by simp
  then have "unat (tst x) \<in> {0, 1, 2, 3, 4, 5, 6, 7}" by auto
  then show ?thesis by (auto simp: word_unat_eq_iff)
qed

lemma suspended_iff: "x AND RT_THREAD_SUSPEND_MASK = RT_THREAD_SUSPEND_MASK \<longleftrightarrow> tst x \<in> {4, 5, 6, 7}"
proof -
  have "x AND RT_THREAD_SUSPEND_MASK = tst x AND RT_THREAD_SUSPEND_MASK"
    unfolding tst_def stat_defs by (rule bit_word_eqI; auto simp only: u8_bit_simps)
  then show ?thesis using tst_cases[of x] by (auto simp: stat_defs)
qed

definition suspended :: "kstate \<Rightarrow> tid \<Rightarrow> bool" where
  "suspended s t \<longleftrightarrow> thread_state s t \<in> {4, 5, 6, 7}"

lemma is_suspended_eq: "rt_sched_thread_is_suspended t s = suspended s t"
  by (simp add: rt_sched_thread_is_suspended_def suspended_iff suspended_def thread_state_def)

section \<open>The scheduling invariant\<close>

definition wait_list :: "thread_list \<Rightarrow> bool" where
  "wait_list l \<longleftrightarrow> (case l of ReadyQ _ \<Rightarrow> False | DefunctQ \<Rightarrow> False | _ \<Rightarrow> True)"

definition unlinked :: "kstate \<Rightarrow> tid \<Rightarrow> bool" where
  "unlinked s t \<longleftrightarrow> (\<forall>l. t \<notin> set (thread_lists s l))"

text \<open>Each thread is in at most one list, once.\<close>

definition lists_ok :: "kstate \<Rightarrow> bool" where
  "lists_ok s \<longleftrightarrow> (\<forall>l. distinct (thread_lists s l)) \<and>
    (\<forall>l k t. t \<in> set (thread_lists s l) \<longrightarrow> t \<in> set (thread_lists s k) \<longrightarrow> l = k)"

text \<open>The bitmap shows the non-empty ready queues.\<close>

definition bitmap_ok :: "kstate \<Rightarrow> bool" where
  "bitmap_ok s \<longleftrightarrow> (\<forall>p. bit (rt_thread_ready_priority_group s) p \<longleftrightarrow> thread_lists s (ReadyQ p) \<noteq> [])"

text \<open>The ready queue of a priority holds exactly the ready threads of it.\<close>

definition ready_ok :: "kstate \<Rightarrow> bool" where
  "ready_ok s \<longleftrightarrow> (\<forall>p t. t \<in> set (thread_lists s (ReadyQ p)) \<longleftrightarrow>
     thread_state s t = RT_THREAD_READY \<and> prio_index s t = p)"

text \<open>The priority mask of a started thread is the bit of its priority.\<close>

definition mask_ok :: "kstate \<Rightarrow> bool" where
  "mask_ok s \<longleftrightarrow> (\<forall>t. (number_mask (thread_of s t) = 0 \<or>
       number_mask (thread_of s t) = push_bit (prio_index s t) 1) \<and>
     (thread_state s t \<notin> {RT_THREAD_INIT, RT_THREAD_CLOSE} \<longrightarrow>
       prio_index s t < RT_THREAD_PRIORITY_MAX \<and>
       number_mask (thread_of s t) = push_bit (prio_index s t) 1))"

text \<open>Only suspended threads wait, and only closed threads are defunct.\<close>

definition wait_ok :: "kstate \<Rightarrow> bool" where
  "wait_ok s \<longleftrightarrow> (\<forall>l t. wait_list l \<longrightarrow> t \<in> set (thread_lists s l) \<longrightarrow> suspended s t) \<and>
    (\<forall>t \<in> set (thread_lists s DefunctQ). thread_state s t = RT_THREAD_CLOSE)"

text \<open>At most the current thread runs, and it is not also queued as ready.\<close>

definition run_ok :: "kstate \<Rightarrow> bool" where
  "run_ok s \<longleftrightarrow>
    (\<forall>t. thread_state s t = RT_THREAD_RUNNING \<longrightarrow> rt_current_thread s = Some t) \<and>
    (\<forall>t. rt_current_thread s = Some t \<longrightarrow> thread_state s t \<noteq> RT_THREAD_READY)"

definition queue_inv :: "kstate \<Rightarrow> bool" where
  "queue_inv s \<longleftrightarrow> lists_ok s \<and> bitmap_ok s \<and> ready_ok s \<and> mask_ok s \<and> wait_ok s"

definition sched_inv :: "kstate \<Rightarrow> bool" where
  "sched_inv s \<longleftrightarrow> queue_inv s \<and> run_ok s"

lemmas queue_inv_defs = queue_inv_def lists_ok_def bitmap_ok_def ready_ok_def mask_ok_def wait_ok_def

lemma state_neqs [simp]:
  "RT_THREAD_READY \<noteq> RT_THREAD_INIT" "RT_THREAD_READY \<noteq> RT_THREAD_CLOSE"
  "RT_THREAD_READY \<noteq> RT_THREAD_RUNNING" "RT_THREAD_RUNNING \<noteq> RT_THREAD_INIT"
  "RT_THREAD_RUNNING \<noteq> RT_THREAD_CLOSE" "RT_THREAD_INIT \<noteq> RT_THREAD_CLOSE"
  "RT_THREAD_INIT \<noteq> RT_THREAD_READY" "RT_THREAD_CLOSE \<noteq> RT_THREAD_READY"
  "RT_THREAD_RUNNING \<noteq> RT_THREAD_READY" "RT_THREAD_INIT \<noteq> RT_THREAD_RUNNING"
  "RT_THREAD_CLOSE \<noteq> RT_THREAD_RUNNING" "RT_THREAD_CLOSE \<noteq> RT_THREAD_INIT"
  by (simp_all add: stat_defs)

lemma suspended_states:
  "suspended s t \<Longrightarrow> thread_state s t \<notin> {RT_THREAD_INIT, RT_THREAD_CLOSE, RT_THREAD_READY, RT_THREAD_RUNNING}"
  by (auto simp: suspended_def stat_defs)

lemma not_suspended_states:
  "\<not> suspended s t \<Longrightarrow> thread_state s t \<in> {RT_THREAD_INIT, RT_THREAD_CLOSE, RT_THREAD_READY, RT_THREAD_RUNNING}"
  using tst_cases[of "stat (thread_of s t)"] by (auto simp: suspended_def thread_state_def stat_defs)

lemma bit_mask1: "bit (push_bit p 1 :: u32) i \<longleftrightarrow> i = p \<and> p < 32"
  by (auto simp: bit_simps bit_1_iff)

lemma wait_list_simps [simp]:
  "\<not> wait_list (ReadyQ p)" "\<not> wait_list DefunctQ" "wait_list (SemQ i)" "wait_list (MutexQ i)"
  "wait_list (MbRecvQ i)" "wait_list (MbSendQ i)" "wait_list (MqRecvQ i)" "wait_list (MqSendQ i)"
  "wait_list (DqPushQ i)" "wait_list (DqPopQ i)"
  by (simp_all add: wait_list_def)

lemma ready_in_queue:
  "queue_inv s \<Longrightarrow> thread_state s t = RT_THREAD_READY \<Longrightarrow> t \<in> set (thread_lists s (ReadyQ (prio_index s t)))"
  by (simp add: queue_inv_def ready_ok_def)

lemma unlinked_not_ready:
  "queue_inv s \<Longrightarrow> unlinked s t \<Longrightarrow> thread_state s t \<noteq> RT_THREAD_READY"
  using ready_in_queue unlinked_def by blast

subsection \<open>Insertion\<close>

lemma insert_thread_effect:
  "rt_sched_insert_thread t s =
    (if rt_current_thread s = Some t
     then upd_thread t (\<lambda>x. x\<lparr> stat := RT_THREAD_RUNNING OR (stat x AND NOT RT_THREAD_STAT_MASK) \<rparr>) s
     else (if stat (thread_of s t) AND RT_THREAD_STAT_YIELD \<noteq> 0 then append_thread else push_thread)
            (ReadyQ (prio_index s t)) t
            (upd_thread t (\<lambda>x. x\<lparr> stat := RT_THREAD_READY OR (stat x AND NOT RT_THREAD_STAT_MASK) \<rparr>) s)
          \<lparr> rt_thread_ready_priority_group :=
              rt_thread_ready_priority_group s OR number_mask (thread_of s t) \<rparr>)"
  by (simp add: rt_sched_insert_thread_def Let_def)

lemma insert_thread_fields:
  assumes "rt_current_thread s \<noteq> Some t"
  defines "s' \<equiv> rt_sched_insert_thread t s"
  shows "thread_lists s' l =
      (if l = ReadyQ (prio_index s t)
       then (if stat (thread_of s t) AND RT_THREAD_STAT_YIELD \<noteq> 0
             then thread_lists s l @ [t] else t # thread_lists s l)
       else thread_lists s l)"
    and "thread_of s' = (thread_of s)(t := (thread_of s t)
      \<lparr> stat := RT_THREAD_READY OR (stat (thread_of s t) AND NOT RT_THREAD_STAT_MASK) \<rparr>)"
    and "rt_thread_ready_priority_group s' =
      rt_thread_ready_priority_group s OR number_mask (thread_of s t)"
  using assms(1) by (simp_all add: s'_def insert_thread_effect)

lemma insert_current_fields:
  assumes "rt_current_thread s = Some t"
  defines "s' \<equiv> rt_sched_insert_thread t s"
  shows "thread_lists s' = thread_lists s"
    and "thread_of s' = (thread_of s)(t := (thread_of s t)
      \<lparr> stat := RT_THREAD_RUNNING OR (stat (thread_of s t) AND NOT RT_THREAD_STAT_MASK) \<rparr>)"
    and "rt_thread_ready_priority_group s' = rt_thread_ready_priority_group s"
  using assms(1) by (simp_all add: s'_def insert_thread_effect)

lemma insert_thread_frame [simp]:
  "rt_current_thread (rt_sched_insert_thread t s) = rt_current_thread s"
  "rt_scheduler_lock_nest (rt_sched_insert_thread t s) = rt_scheduler_lock_nest s"
  "rt_interrupt_nest (rt_sched_insert_thread t s) = rt_interrupt_nest s"
  "rt_current_priority (rt_sched_insert_thread t s) = rt_current_priority s"
  "timer_lists (rt_sched_insert_thread t s) = timer_lists s"
  "timer_of (rt_sched_insert_thread t s) = timer_of s"
  "rt_tick (rt_sched_insert_thread t s) = rt_tick s"
  "sem_of (rt_sched_insert_thread t s) = sem_of s"
  "mutex_of (rt_sched_insert_thread t s) = mutex_of s"
  "mailbox_of (rt_sched_insert_thread t s) = mailbox_of s"
  "mq_of (rt_sched_insert_thread t s) = mq_of s"
  "registry (rt_sched_insert_thread t s) = registry s"
  by (simp_all add: insert_thread_effect)

lemma insert_queue_inv:
  assumes q: "queue_inv s" and u: "unlinked s t" and p: "prio_index s t < RT_THREAD_PRIORITY_MAX"
    and m: "number_mask (thread_of s t) = push_bit (prio_index s t) 1"
  shows "queue_inv (rt_sched_insert_thread t s)"
proof (cases "rt_current_thread s = Some t")
  case True
  note f = insert_current_fields[OF True]
  show ?thesis
    using q u p m unlinked_not_ready[OF q u]
    by (auto simp: queue_inv_defs f thread_state_def suspended_def unlinked_def)
next
  case False
  note f = insert_thread_fields[OF False]
  show ?thesis unfolding queue_inv_def
  proof (intro conjI)
    show "lists_ok (rt_sched_insert_thread t s)"
      using q u by (auto simp: queue_inv_def lists_ok_def f unlinked_def)
    have "bitmap_ok s" using q by (simp add: queue_inv_def)
    then show "bitmap_ok (rt_sched_insert_thread t s)"
      unfolding bitmap_ok_def f m bit_or_iff bit_mask1
      using p by (auto simp: RT_THREAD_PRIORITY_MAX_def)
    show "ready_ok (rt_sched_insert_thread t s)"
      using q u unlinked_not_ready[OF q u]
      by (auto simp: queue_inv_def ready_ok_def f thread_state_def unlinked_def)
    show "mask_ok (rt_sched_insert_thread t s)"
      using q p m by (auto simp: queue_inv_def mask_ok_def f thread_state_def)
    show "wait_ok (rt_sched_insert_thread t s)"
      using q u by (auto simp: queue_inv_def wait_ok_def f thread_state_def suspended_def unlinked_def)
  qed
qed

subsection \<open>Removal\<close>

lemma remove_thread_fields:
  defines "R \<equiv> \<lambda>t s. rt_sched_remove_thread t s"
  shows "thread_lists (R t s) l = removeAll t (thread_lists s l)"
    and "thread_of (R t s) = thread_of s"
    and "rt_thread_ready_priority_group (R t s) =
      (if removeAll t (thread_lists s (ReadyQ (prio_index s t))) = []
       then rt_thread_ready_priority_group s AND NOT (number_mask (thread_of s t))
       else rt_thread_ready_priority_group s)"
  by (simp_all add: R_def rt_sched_remove_thread_def Let_def)

lemma remove_thread_frame [simp]:
  "rt_current_thread (rt_sched_remove_thread t s) = rt_current_thread s"
  "rt_scheduler_lock_nest (rt_sched_remove_thread t s) = rt_scheduler_lock_nest s"
  "rt_interrupt_nest (rt_sched_remove_thread t s) = rt_interrupt_nest s"
  "rt_current_priority (rt_sched_remove_thread t s) = rt_current_priority s"
  "timer_lists (rt_sched_remove_thread t s) = timer_lists s"
  "timer_of (rt_sched_remove_thread t s) = timer_of s"
  "rt_tick (rt_sched_remove_thread t s) = rt_tick s"
  "sem_of (rt_sched_remove_thread t s) = sem_of s"
  "mutex_of (rt_sched_remove_thread t s) = mutex_of s"
  "mailbox_of (rt_sched_remove_thread t s) = mailbox_of s"
  "mq_of (rt_sched_remove_thread t s) = mq_of s"
  "registry (rt_sched_remove_thread t s) = registry s"
  by (simp_all add: rt_sched_remove_thread_def Let_def)

text \<open>The bitmap after a removal: a thread's bit is cleared when it was the last of
  its queue.\<close>

lemma remove_bitmap:
  assumes q: "queue_inv s"
  shows "bitmap_ok (rt_sched_remove_thread t s)"
proof -
  let ?q = "prio_index s t" and ?m = "number_mask (thread_of s t)"
  have b: "\<And>p. bit (rt_thread_ready_priority_group s) p \<longleftrightarrow> thread_lists s (ReadyQ p) \<noteq> []"
    and r: "\<And>p u. u \<in> set (thread_lists s (ReadyQ p)) \<longleftrightarrow>
      thread_state s u = RT_THREAD_READY \<and> prio_index s u = p"
    using q by (auto simp: queue_inv_def bitmap_ok_def ready_ok_def)
  have mm: "?m = 0 \<or> ?m = push_bit ?q 1"
    and me: "thread_state s t = RT_THREAD_READY \<Longrightarrow> ?m = push_bit ?q 1 \<and> ?q < 32"
    using q by (auto simp: queue_inv_def mask_ok_def RT_THREAD_PRIORITY_MAX_def)
  have other: "removeAll t (thread_lists s (ReadyQ p)) = thread_lists s (ReadyQ p)" if "p \<noteq> ?q" for p
    using r[of t p] that by simp
  show ?thesis unfolding bitmap_ok_def
  proof
    fix p
    have bm: "bit ?m p \<Longrightarrow> p = ?q" using mm bit_mask1[of ?q p] by auto
    show "bit (rt_thread_ready_priority_group (rt_sched_remove_thread t s)) p \<longleftrightarrow>
        thread_lists (rt_sched_remove_thread t s) (ReadyQ p) \<noteq> []"
    proof (cases "p = ?q")
      case False
      then have "\<not> bit ?m p" using bm by blast
      then show ?thesis
        using b[of p] other[OF False] bit_imp_le_length[of "rt_thread_ready_priority_group s" p]
        by (auto simp: remove_thread_fields bit_and_iff bit_not_iff)
    next
      case True
      show ?thesis
      proof (cases "t \<in> set (thread_lists s (ReadyQ ?q))")
        case in_q: True
        then have "bit ?m ?q" using r[of t ?q] me bit_mask1[of ?q ?q] by auto
        then show ?thesis
          using True b[of p] in_q by (auto simp: remove_thread_fields bit_and_iff bit_not_iff)
      next
        case False
        then show ?thesis
          using True b[of p] by (auto simp: remove_thread_fields bit_and_iff)
      qed
    qed
  qed
qed

text \<open>Taking a thread out of the queues and giving it a status other than ready.\<close>

lemma remove_set_inv:
  assumes q: "queue_inv s"
    and f: "current_priority (f (thread_of s t)) = current_priority (thread_of s t)"
      "number_mask (f (thread_of s t)) = number_mask (thread_of s t)"
    and st: "tst (stat (f (thread_of s t))) \<noteq> RT_THREAD_READY"
      "tst (stat (f (thread_of s t))) \<notin> {RT_THREAD_INIT, RT_THREAD_CLOSE} \<Longrightarrow>
        thread_state s t \<notin> {RT_THREAD_INIT, RT_THREAD_CLOSE}"
  shows "queue_inv (upd_thread t f (rt_sched_remove_thread t s))"
    and "unlinked (upd_thread t f (rt_sched_remove_thread t s)) t"
proof -
  let ?s = "upd_thread t f (rt_sched_remove_thread t s)"
  show u: "unlinked ?s t" by (simp add: unlinked_def remove_thread_fields)
  show "queue_inv ?s" unfolding queue_inv_def
  proof (intro conjI)
    show "lists_ok ?s" using q
      by (auto simp: queue_inv_def lists_ok_def remove_thread_fields distinct_removeAll)
    show "bitmap_ok ?s" using remove_bitmap[OF q, of t] by (simp add: bitmap_ok_def)
    show "ready_ok ?s" using q st(1)
      by (auto simp: queue_inv_def ready_ok_def remove_thread_fields thread_state_def)
    show "mask_ok ?s"
    proof -
      have "mask_ok s" using q by (simp add: queue_inv_def)
      then show ?thesis using st(2) f
        unfolding mask_ok_def thread_state_def by (auto simp: remove_thread_fields)
    qed
    show "wait_ok ?s" using q
      by (auto simp: queue_inv_def wait_ok_def remove_thread_fields thread_state_def suspended_def)
  qed
qed

subsection \<open>Neutral updates\<close>

text \<open>A change to a thread that keeps its status, priority and mask.\<close>

definition sched_neutral :: "rt_thread \<Rightarrow> rt_thread \<Rightarrow> bool" where
  "sched_neutral x y \<longleftrightarrow> tst (stat y) = tst (stat x) \<and> current_priority y = current_priority x \<and>
    number_mask y = number_mask x"

lemma thread_state_cong:
  "sched_neutral (thread_of s t) (f (thread_of s t)) \<Longrightarrow>
   thread_state (upd_thread t f s) u = thread_state s u"
  by (simp add: thread_state_def sched_neutral_def)

lemma neutral_prio:
  "sched_neutral (thread_of s t) (f (thread_of s t)) \<Longrightarrow>
   prio_index (upd_thread t f s) u = prio_index s u \<and>
   number_mask (thread_of (upd_thread t f s) u) = number_mask (thread_of s u)"
  by (simp add: sched_neutral_def)

lemma neutral_inv:
  assumes "sched_neutral (thread_of s t) (f (thread_of s t))"
  shows "queue_inv (upd_thread t f s) = queue_inv s" and "run_ok (upd_thread t f s) = run_ok s"
    and "sched_inv (upd_thread t f s) = sched_inv s"
proof -
  note n = thread_state_cong[of s t f, OF assms] neutral_prio[of s t f, OF assms, THEN conjunct1]
    neutral_prio[of s t f, OF assms, THEN conjunct2]
  show "queue_inv (upd_thread t f s) = queue_inv s"
    unfolding queue_inv_defs suspended_def n by simp
  moreover show "run_ok (upd_thread t f s) = run_ok s" unfolding run_ok_def n by simp
  ultimately show "sched_inv (upd_thread t f s) = sched_inv s" by (simp add: sched_inv_def)
qed

text \<open>A state that agrees on the scheduling fields.\<close>

lemma queue_inv_cong:
  assumes "thread_lists s' = thread_lists s" and "thread_of s' = thread_of s"
    and "rt_thread_ready_priority_group s' = rt_thread_ready_priority_group s"
  shows "queue_inv s' = queue_inv s"
  unfolding queue_inv_defs suspended_def thread_state_def assms by simp

lemma sched_inv_cong:
  assumes "thread_lists s' = thread_lists s" and "thread_of s' = thread_of s"
    and "rt_thread_ready_priority_group s' = rt_thread_ready_priority_group s"
    and "rt_current_thread s' = rt_current_thread s"
  shows "sched_inv s' = sched_inv s"
  using queue_inv_cong[OF assms(1-3)] by (simp add: sched_inv_def run_ok_def thread_state_def assms)

lemma list_kinds: obtains "wait_list l" | p where "l = ReadyQ p" | "l = DefunctQ"
  by (cases l) auto

lemma linked_state:
  assumes "queue_inv s" and "t \<in> set (thread_lists s l)"
  shows "suspended s t \<or> thread_state s t = RT_THREAD_READY \<or> thread_state s t = RT_THREAD_CLOSE"
  using assms by (cases rule: list_kinds[of l]) (auto simp: queue_inv_def wait_ok_def ready_ok_def)

lemma running_unlinked:
  assumes "queue_inv s" and "thread_state s t = RT_THREAD_RUNNING"
  shows "unlinked s t"
  using linked_state[OF assms(1)] assms(2) suspended_states[of s t] by (fastforce simp: unlinked_def)

subsection \<open>Selection\<close>

lemma highest_thread:
  assumes q: "queue_inv s" and g: "rt_thread_ready_priority_group s \<noteq> 0"
    and h: "scheduler_get_highest_priority_thread s = (h, p)"
  shows "thread_lists s (ReadyQ p) = h # tl (thread_lists s (ReadyQ p))"
    and "thread_state s h = RT_THREAD_READY" and "prio_index s h = p"
    and "thread_state s u = RT_THREAD_READY \<Longrightarrow> p \<le> prio_index s u"
proof -
  have b: "\<And>p. bit (rt_thread_ready_priority_group s) p \<longleftrightarrow> thread_lists s (ReadyQ p) \<noteq> []"
    and r: "\<And>p u. u \<in> set (thread_lists s (ReadyQ p)) \<longleftrightarrow>
      thread_state s u = RT_THREAD_READY \<and> prio_index s u = p"
    using q by (auto simp: queue_inv_def bitmap_ok_def ready_ok_def)
  have p: "p = rt_ffs (rt_thread_ready_priority_group s) - 1" "h = hd (thread_lists s (ReadyQ p))"
    using h by (auto simp: scheduler_get_highest_priority_thread_def Let_def)
  have ne: "thread_lists s (ReadyQ p) \<noteq> []" using port_ffs.ffs_bit[OF g] b p(1) by auto
  then show l: "thread_lists s (ReadyQ p) = h # tl (thread_lists s (ReadyQ p))" using p(2) by simp
  then have "h \<in> set (thread_lists s (ReadyQ p))" by (metis list.set_intros(1))
  then show "thread_state s h = RT_THREAD_READY" "prio_index s h = p" using r by auto
  assume "thread_state s u = RT_THREAD_READY"
  then have "bit (rt_thread_ready_priority_group s) (prio_index s u)"
    using r b by (metis empty_iff list.set(1))
  then show "p \<le> prio_index s u" using port_ffs.ffs_le p(1) by (metis diff_Suc_1 diff_le_mono)
qed

lemma no_ready_iff:
  assumes "queue_inv s"
  shows "rt_thread_ready_priority_group s = 0 \<longleftrightarrow> (\<forall>t. thread_state s t \<noteq> RT_THREAD_READY)"
proof -
  have b: "\<And>p. bit (rt_thread_ready_priority_group s) p \<longleftrightarrow> thread_lists s (ReadyQ p) \<noteq> []"
    and r: "\<And>p u. u \<in> set (thread_lists s (ReadyQ p)) \<longleftrightarrow>
      thread_state s u = RT_THREAD_READY \<and> prio_index s u = p"
    using assms by (auto simp: queue_inv_def bitmap_ok_def ready_ok_def)
  show ?thesis
  proof
    assume "rt_thread_ready_priority_group s = 0"
    then have "thread_lists s (ReadyQ p) = []" for p using b[of p] by simp
    then show "\<forall>t. thread_state s t \<noteq> RT_THREAD_READY" using r by (metis empty_iff list.set(1))
  next
    assume "\<forall>t. thread_state s t \<noteq> RT_THREAD_READY"
    then have "thread_lists s (ReadyQ p) = []" for p
      using r[of "hd (thread_lists s (ReadyQ p))" p] hd_in_set by blast
    then show "rt_thread_ready_priority_group s = 0" using b by (auto simp: bit_eq_iff)
  qed
qed

subsection \<open>Effect of rt\_schedule\<close>

text \<open>The switch from \<open>c\<close> to \<open>h\<close>, after the decision.\<close>

definition switch_to :: "tid \<Rightarrow> nat \<Rightarrow> tid \<Rightarrow> bool \<Rightarrow> kstate \<Rightarrow> kstate" where
  "switch_to h p c ins s =
    (let s = s\<lparr> rt_current_priority := of_nat p, rt_current_thread := Some h \<rparr>;
         s = (if ins then rt_sched_insert_thread c s else s);
         s = (if stat (thread_of s c) AND RT_THREAD_STAT_YIELD \<noteq> 0
              then upd_thread c (\<lambda>x. x\<lparr> stat := stat x AND NOT RT_THREAD_STAT_YIELD \<rparr>) s else s);
         s = rt_sched_remove_thread h s
     in upd_thread h (\<lambda>x. x\<lparr> stat := RT_THREAD_RUNNING OR (stat x AND NOT RT_THREAD_STAT_MASK) \<rparr>) s)"

definition stay :: "tid \<Rightarrow> kstate \<Rightarrow> kstate" where
  "stay c s = upd_thread c (\<lambda>x. x\<lparr> stat := RT_THREAD_RUNNING OR (stat x AND NOT RT_THREAD_STAT_MASK) \<rparr>)
     (rt_sched_remove_thread c s)"

lemma stay_current: "rt_current_thread (stay c s) = rt_current_thread s"
  by (simp add: stay_def)

lemma switch_to_lists:
  assumes "h \<noteq> c"
  shows "thread_lists (switch_to h p c ins s) l = removeAll h
    (if ins \<and> l = ReadyQ (prio_index s c)
     then (if stat (thread_of s c) AND RT_THREAD_STAT_YIELD \<noteq> 0
           then thread_lists s l @ [c] else c # thread_lists s l)
     else thread_lists s l)"
proof -
  let ?s1 = "s\<lparr> rt_current_priority := of_nat p, rt_current_thread := Some h \<rparr>"
  have "rt_current_thread ?s1 \<noteq> Some c" using assms by simp
  note f = insert_thread_fields[OF this]
  show ?thesis by (simp add: switch_to_def Let_def remove_thread_fields f)
qed

lemma switch_to_from_thread:
  assumes "h \<noteq> c"
  shows "stat (thread_of (switch_to h p c ins s) c) AND RT_THREAD_STAT_YIELD = 0"
    and "remaining_tick (thread_of (switch_to h p c ins s) c) = remaining_tick (thread_of s c)"
proof -
  let ?s1 = "s\<lparr> rt_current_priority := of_nat p, rt_current_thread := Some h \<rparr>"
  have "rt_current_thread ?s1 \<noteq> Some c" using assms by simp
  note f = insert_thread_fields[OF this]
  show "stat (thread_of (switch_to h p c ins s) c) AND RT_THREAD_STAT_YIELD = 0"
    and "remaining_tick (thread_of (switch_to h p c ins s) c) = remaining_tick (thread_of s c)"
    using assms by (auto simp: switch_to_def Let_def remove_thread_fields f)
qed

definition keeps_cpu :: "kstate \<Rightarrow> tid \<Rightarrow> nat \<Rightarrow> bool" where
  "keeps_cpu s c p \<longleftrightarrow> thread_state s c = RT_THREAD_RUNNING \<and>
    (prio_index s c < p \<or> prio_index s c = p \<and> stat (thread_of s c) AND RT_THREAD_STAT_YIELD = 0)"

lemma rt_schedule_cases:
  assumes inv: "sched_inv s" and c: "rt_current_thread s = Some c"
    and l: "rt_scheduler_lock_nest s = 0" and g: "rt_thread_ready_priority_group s \<noteq> 0"
    and h: "scheduler_get_highest_priority_thread s = (h, p)"
  shows "h \<noteq> c"
    and "rt_schedule s = (if keeps_cpu s c p then stay c s
      else switch_to h p c (thread_state s c = RT_THREAD_RUNNING) s)"
proof -
  have "queue_inv s" using inv by (simp add: sched_inv_def)
  then have "thread_state s h = RT_THREAD_READY" using highest_thread(2) g h by blast
  moreover have "thread_state s c \<noteq> RT_THREAD_READY" using inv c by (auto simp: sched_inv_def run_ok_def)
  ultimately show ne: "h \<noteq> c" by auto
  show "rt_schedule s = (if keeps_cpu s c p then stay c s
      else switch_to h p c (thread_state s c = RT_THREAD_RUNNING) s)"
    using c l g h ne
    by (auto simp: rt_schedule_def keeps_cpu_def stay_def switch_to_def thread_state_def tst_def Let_def)
qed

lemma rt_schedule_idle:
  "rt_current_thread s = None \<or> rt_scheduler_lock_nest s \<noteq> 0 \<or> rt_thread_ready_priority_group s = 0 \<Longrightarrow>
   rt_schedule s = s"
  by (auto simp: rt_schedule_def split: option.splits)

lemma stay_inv:
  assumes inv: "sched_inv s" and c: "rt_current_thread s = Some c"
    and r: "thread_state s c = RT_THREAD_RUNNING"
  shows "sched_inv (stay c s)" and "thread_lists (stay c s) = thread_lists s"
    and "thread_state (stay c s) = thread_state s"
proof -
  have q: "queue_inv s" using inv by (simp add: sched_inv_def)
  note u = running_unlinked[OF q r]
  show st: "thread_state (stay c s) = thread_state s"
    using r by (auto simp: stay_def thread_state_def remove_thread_fields fun_eq_iff)
  have "queue_inv (stay c s)"
    unfolding stay_def using r by (intro remove_set_inv(1)[OF q]) auto
  then show "sched_inv (stay c s)"
    using inv c st by (auto simp: sched_inv_def run_ok_def stay_def)
  show "thread_lists (stay c s) = thread_lists s"
    using u by (auto simp: stay_def remove_thread_fields unlinked_def fun_eq_iff)
qed

lemma switch_inv:
  fixes p :: nat
  assumes inv: "sched_inv s" and c: "rt_current_thread s = Some c"
    and h: "thread_state s h = RT_THREAD_READY" and ne: "h \<noteq> c"
  defines "s' \<equiv> switch_to h p c (thread_state s c = RT_THREAD_RUNNING) s"
  shows "sched_inv s'" and "rt_current_thread s' = Some h"
    and "thread_state s' u = (if u = h then RT_THREAD_RUNNING
      else if u = c \<and> thread_state s c = RT_THREAD_RUNNING then RT_THREAD_READY else thread_state s u)"
    and "prio_index s' u = prio_index s u"
proof -
  have q: "queue_inv s" using inv by (simp add: sched_inv_def)
  define s1 where "s1 = s\<lparr> rt_current_priority := of_nat p, rt_current_thread := Some h \<rparr>"
  define s2 where "s2 = (if thread_state s c = RT_THREAD_RUNNING then rt_sched_insert_thread c s1 else s1)"
  define s3 where "s3 = (if stat (thread_of s2 c) AND RT_THREAD_STAT_YIELD \<noteq> 0
    then upd_thread c (\<lambda>x. x\<lparr> stat := stat x AND NOT RT_THREAD_STAT_YIELD \<rparr>) s2 else s2)"
  have s': "s' = upd_thread h (\<lambda>x. x\<lparr> stat := RT_THREAD_RUNNING OR (stat x AND NOT RT_THREAD_STAT_MASK) \<rparr>)
      (rt_sched_remove_thread h s3)"
    by (simp add: s'_def switch_to_def s1_def s2_def s3_def Let_def)
  have q1: "queue_inv s1" using q queue_inv_cong[of s1 s] by (simp add: s1_def)
  have st1: "thread_state s1 = thread_state s" by (auto simp: s1_def thread_state_def fun_eq_iff)
  have th1: "thread_of s1 = thread_of s" by (simp add: s1_def)
  have cur1: "rt_current_thread s1 \<noteq> Some c" using ne by (simp add: s1_def)
  have q2: "queue_inv s2"
  proof (cases "thread_state s c = RT_THREAD_RUNNING")
    case True
    then have u: "unlinked s1 c" using running_unlinked[OF q1] st1 by simp
    have "prio_index s1 c < RT_THREAD_PRIORITY_MAX"
      and "number_mask (thread_of s1 c) = push_bit (prio_index s1 c) 1"
      using q1 True st1 by (auto simp: queue_inv_def mask_ok_def)
    then show ?thesis using insert_queue_inv[OF q1 u] True by (simp add: s2_def)
  qed (simp add: s2_def q1)
  have q3: "queue_inv s3"
    unfolding s3_def
    using q2 neutral_inv(1)[of s2 c "\<lambda>x. x\<lparr> stat := stat x AND NOT RT_THREAD_STAT_YIELD \<rparr>"]
    by (simp add: sched_neutral_def)
  have st2: "thread_state s2 v =
      (if v = c \<and> thread_state s c = RT_THREAD_RUNNING then RT_THREAD_READY else thread_state s v)" for v
    using th1 insert_thread_fields(2)[OF cur1] by (auto simp: s2_def thread_state_def)
  have st3: "thread_state s3 = thread_state s2"
    by (auto simp: s3_def thread_state_def fun_eq_iff)
  have h3: "thread_state s3 h = RT_THREAD_READY" using h ne st2 st3 by simp
  show cur: "rt_current_thread s' = Some h" by (simp add: s' s3_def s2_def s1_def)
  show st: "thread_state s' u = (if u = h then RT_THREAD_RUNNING
      else if u = c \<and> thread_state s c = RT_THREAD_RUNNING then RT_THREAD_READY else thread_state s u)" for u
    using st2 st3 by (auto simp: s' thread_state_def remove_thread_fields fun_eq_iff)
  have "queue_inv s'" unfolding s' using h3 by (intro remove_set_inv(1)[OF q3]) auto
  moreover have "run_ok s'"
    using inv c h unfolding sched_inv_def run_ok_def cur st by auto
  ultimately show "sched_inv s'" by (simp add: sched_inv_def)
  show "prio_index s' u = prio_index s u"
    using insert_thread_fields(2)[OF cur1]
    by (auto simp: s' remove_thread_fields s3_def s2_def) (auto simp: s1_def)
qed

lemma rt_schedule_inv:
  assumes inv: "sched_inv s"
  shows "sched_inv (rt_schedule s)"
proof (cases "rt_current_thread s = None \<or> rt_scheduler_lock_nest s \<noteq> 0 \<or> rt_thread_ready_priority_group s = 0")
  case True
  then show ?thesis using inv by (simp add: rt_schedule_idle)
next
  case False
  then obtain c where c: "rt_current_thread s = Some c" by auto
  have l: "rt_scheduler_lock_nest s = 0" and g: "rt_thread_ready_priority_group s \<noteq> 0"
    using False by auto
  obtain h p where h: "scheduler_get_highest_priority_thread s = (h, p)" by fastforce
  note rc = rt_schedule_cases[OF inv c l g h]
  have "queue_inv s" using inv by (simp add: sched_inv_def)
  then have "thread_state s h = RT_THREAD_READY" using highest_thread(2) g h by blast
  then show ?thesis
    using rc stay_inv(1)[OF inv c] switch_inv(1)[OF inv c] by (auto simp: keeps_cpu_def)
qed

text \<open>Everything else that \<open>rt_schedule\<close> does not change.\<close>

lemma rt_schedule_frame [simp]:
  "rt_scheduler_lock_nest (rt_schedule s) = rt_scheduler_lock_nest s"
  "rt_interrupt_nest (rt_schedule s) = rt_interrupt_nest s"
  "timer_lists (rt_schedule s) = timer_lists s"
  "timer_of (rt_schedule s) = timer_of s"
  "rt_tick (rt_schedule s) = rt_tick s"
  "sem_of (rt_schedule s) = sem_of s"
  "mutex_of (rt_schedule s) = mutex_of s"
  "mailbox_of (rt_schedule s) = mailbox_of s"
  "mq_of (rt_schedule s) = mq_of s"
  "registry (rt_schedule s) = registry s"
  by (simp_all add: rt_schedule_def Let_def split: option.splits prod.splits)

section \<open>Preservation by the services\<close>

lemma yield_inv:
  "sched_inv (snd (rt_sched_thread_yield t s)) = sched_inv s"
  unfolding rt_sched_thread_yield_def snd_conv
  by (rule neutral_inv(3)) (simp add: sched_neutral_def)

lemma tick_increase_inv:
  assumes "sched_inv s"
  shows "sched_inv (snd (rt_sched_tick_increase s))"
proof (cases "rt_thread_self s")
  case (Some t)
  let ?s = "upd_thread t (\<lambda>x. x\<lparr> remaining_tick := remaining_tick x - 1 \<rparr>) s"
  have "sched_inv ?s" using assms neutral_inv(3)[of s t "\<lambda>x. x\<lparr> remaining_tick := remaining_tick x - 1 \<rparr>"]
    by (simp add: sched_neutral_def)
  then show ?thesis
    using Some rt_schedule_inv[of "snd (rt_sched_thread_yield t ?s)"] yield_inv[of t ?s]
    by (simp add: rt_sched_tick_increase_def Let_def rt_sched_unlock_n_resched_def)
qed (use assms in \<open>simp add: rt_sched_tick_increase_def\<close>)

text \<open>A suspended thread that is taken from its list and made ready.\<close>

lemma unlink_suspended_inv:
  assumes "queue_inv s" and "suspended s t"
  shows "queue_inv (unlink_thread t s)" and "unlinked (unlink_thread t s) t"
proof -
  have nr: "t \<notin> set (thread_lists s (ReadyQ p))" for p
    using assms suspended_states[of s t] by (auto simp: queue_inv_def ready_ok_def)
  then have rq: "thread_lists (unlink_thread t s) (ReadyQ p) = thread_lists s (ReadyQ p)" for p by simp
  have st: "thread_state (unlink_thread t s) = thread_state s"
    by (simp add: thread_state_def fun_eq_iff)
  show "queue_inv (unlink_thread t s)"
    using assms(1) unfolding queue_inv_defs rq st suspended_def
    by (auto simp: distinct_removeAll)
  show "unlinked (unlink_thread t s) t" by (simp add: unlinked_def)
qed

lemma timer_stop_sched:
  "thread_lists (snd (rt_sched_thread_timer_stop t s)) = thread_lists s"
  "thread_state (snd (rt_sched_thread_timer_stop t s)) = thread_state s"
  "rt_current_thread (snd (rt_sched_thread_timer_stop t s)) = rt_current_thread s"
  "sched_inv (snd (rt_sched_thread_timer_stop t s)) = sched_inv s"
proof -
  obtain e s1 where r: "rt_timer_stop (ThreadTimer t) s = (e, s1)" by fastforce
  have f: "thread_lists s1 = thread_lists s" "thread_of s1 = thread_of s"
    "rt_thread_ready_priority_group s1 = rt_thread_ready_priority_group s"
    "rt_current_thread s1 = rt_current_thread s"
    using timer_frame[of "ThreadTimer t" s] r by auto
  show "thread_lists (snd (rt_sched_thread_timer_stop t s)) = thread_lists s"
    "thread_state (snd (rt_sched_thread_timer_stop t s)) = thread_state s"
    "rt_current_thread (snd (rt_sched_thread_timer_stop t s)) = rt_current_thread s"
    using r f by (auto simp: rt_sched_thread_timer_stop_def thread_state_def fun_eq_iff)
  have "sched_inv (upd_thread t (\<lambda>x. x\<lparr> sched_flag_ttmr_set := False \<rparr>) s1) = sched_inv s"
    using neutral_inv(3)[of s1 t "\<lambda>x. x\<lparr> sched_flag_ttmr_set := False \<rparr>"] sched_inv_cong[OF f]
    by (simp add: sched_neutral_def)
  then show "sched_inv (snd (rt_sched_thread_timer_stop t s)) = sched_inv s"
    using r by (simp add: rt_sched_thread_timer_stop_def)
qed

lemma make_ready_inv:
  assumes inv: "sched_inv s" and sp: "suspended s t"
  shows "sched_inv (rt_sched_insert_thread t (unlink_thread t s))"
    and "thread_state (rt_sched_insert_thread t (unlink_thread t s)) u =
      (if u = t then if rt_current_thread s = Some t then RT_THREAD_RUNNING else RT_THREAD_READY
       else thread_state s u)"
    and "wait_list l \<Longrightarrow> thread_lists (rt_sched_insert_thread t (unlink_thread t s)) l = removeAll t (thread_lists s l)"
proof -
  let ?u = "unlink_thread t s"
  have q: "queue_inv s" using inv by (simp add: sched_inv_def)
  note uq = unlink_suspended_inv[OF q sp]
  have m: "prio_index ?u t < RT_THREAD_PRIORITY_MAX" "number_mask (thread_of ?u t) = push_bit (prio_index ?u t) 1"
    using q sp suspended_states[OF sp] by (auto simp: queue_inv_def mask_ok_def)
  have qi: "queue_inv (rt_sched_insert_thread t ?u)" by (rule insert_queue_inv[OF uq m])
  show st: "thread_state (rt_sched_insert_thread t ?u) u =
      (if u = t then if rt_current_thread s = Some t then RT_THREAD_RUNNING else RT_THREAD_READY
       else thread_state s u)" for u
    using insert_thread_fields(2)[of ?u t] insert_current_fields(2)[of ?u t]
    by (cases "rt_current_thread s = Some t") (auto simp: thread_state_def)
  have "run_ok (rt_sched_insert_thread t ?u)"
    using inv unfolding sched_inv_def run_ok_def st by auto
  with qi show "sched_inv (rt_sched_insert_thread t ?u)" by (simp add: sched_inv_def)
  assume "wait_list l"
  then show "thread_lists (rt_sched_insert_thread t ?u) l = removeAll t (thread_lists s l)"
    using insert_thread_fields(1)[of ?u t l] insert_current_fields(1)[of ?u t]
    by (cases "rt_current_thread s = Some t") (auto split: if_splits)
qed

lemma timer_stop_suspended: "suspended (snd (rt_sched_thread_timer_stop t s)) u = suspended s u"
  by (simp add: suspended_def timer_stop_sched)

text \<open>\<open>rt_sched_thread_ready\<close>: refused for a thread that is not suspended or whose
  timeout is already being handled; otherwise the thread leaves its wait list
  and becomes ready (or running, if it is the current one).\<close>

lemma thread_ready_spec:
  assumes inv: "sched_inv s" and r: "rt_sched_thread_ready t s = (e, s')"
  shows "sched_inv s'"
    and "e = 0 \<Longrightarrow> suspended s t"
    and "e = 0 \<Longrightarrow> thread_state s' u =
      (if u = t then if rt_current_thread s = Some t then RT_THREAD_RUNNING else RT_THREAD_READY
       else thread_state s u)"
    and "e = 0 \<Longrightarrow> wait_list l \<Longrightarrow> thread_lists s' l = removeAll t (thread_lists s l)"
    and "e \<noteq> 0 \<Longrightarrow> thread_lists s' = thread_lists s \<and> thread_state s' = thread_state s"
    and "rt_current_thread s' = rt_current_thread s"
proof -
  obtain e1 s1 where ts: "(if sched_flag_ttmr_set (thread_of s t)
      then rt_sched_thread_timer_stop t s else (RT_EOK, s)) = (e1, s1)" by fastforce
  have s1: "sched_inv s1" "thread_lists s1 = thread_lists s" "thread_state s1 = thread_state s"
    "rt_current_thread s1 = rt_current_thread s"
    using ts timer_stop_sched[of t s] inv by (auto split: if_splits dest!: arg_cong[of _ _ snd])
  have sp: "suspended s1 t = suspended s t" using s1(3) by (simp add: suspended_def)
  have c: "\<not> suspended s t \<and> e = - RT_EINVAL \<and> s' = s \<or>
      suspended s t \<and> e = e1 \<and> e1 = 0 \<and> s' = rt_sched_insert_thread t (unlink_thread t s1) \<or>
      suspended s t \<and> e = e1 \<and> e1 \<noteq> 0 \<and> s' = s1"
    using r ts by (auto simp: rt_sched_thread_ready_def is_suspended_eq split: if_splits)
  note mr = make_ready_inv[OF s1(1), of t]
  show "sched_inv s'" using c inv s1(1) sp mr(1) by auto
  show "e = 0 \<Longrightarrow> suspended s t" using c by (auto simp: RT_EINVAL_def)
  show "e = 0 \<Longrightarrow> thread_state s' u =
      (if u = t then if rt_current_thread s = Some t then RT_THREAD_RUNNING else RT_THREAD_READY
       else thread_state s u)"
    using c sp mr(2) s1 by (auto simp: RT_EINVAL_def)
  show "e = 0 \<Longrightarrow> wait_list l \<Longrightarrow> thread_lists s' l = removeAll t (thread_lists s l)"
    using c sp mr(3) s1(2) by (auto simp: RT_EINVAL_def)
  show "e \<noteq> 0 \<Longrightarrow> thread_lists s' = thread_lists s \<and> thread_state s' = thread_state s"
    using c s1 by auto
  show "rt_current_thread s' = rt_current_thread s" using c s1(4) by auto
qed

lemma set_prio_inv:
  assumes q: "queue_inv s" and nr: "thread_state s t \<noteq> RT_THREAD_READY"
    and p: "unat priority < RT_THREAD_PRIORITY_MAX"
  shows "queue_inv (upd_thread t (\<lambda>x. x\<lparr> current_priority := priority,
      number_mask := push_bit (unat priority) 1 \<rparr>) s)" (is "queue_inv ?s")
proof -
  have st: "thread_state ?s = thread_state s" by (auto simp: thread_state_def fun_eq_iff)
  have ro: "ready_ok s" and mo: "mask_ok s" using q by (auto simp: queue_inv_def)
  have "ready_ok ?s" using ro nr unfolding ready_ok_def st by auto
  moreover have "mask_ok ?s" using mo p unfolding mask_ok_def st by auto
  moreover have "lists_ok ?s" "bitmap_ok ?s" "wait_ok ?s"
    using q unfolding queue_inv_defs suspended_def st by auto
  ultimately show ?thesis by (simp add: queue_inv_def)
qed

lemma change_priority_inv:
  assumes inv: "sched_inv s" and p: "unat priority < RT_THREAD_PRIORITY_MAX"
  shows "sched_inv (snd (rt_sched_thread_change_priority t priority s))"
    and "thread_state (snd (rt_sched_thread_change_priority t priority s)) = thread_state s"
    and "current_priority (thread_of (snd (rt_sched_thread_change_priority t priority s)) u) =
      (if u = t then priority else current_priority (thread_of s u))"
    and "rt_current_thread (snd (rt_sched_thread_change_priority t priority s)) = rt_current_thread s"
    and "wait_list l \<Longrightarrow>
      thread_lists (snd (rt_sched_thread_change_priority t priority s)) l = thread_lists s l"
proof -
  have q: "queue_inv s" and ro: "run_ok s" using inv by (auto simp: sched_inv_def)
  let ?f = "\<lambda>x. x\<lparr> current_priority := priority, number_mask := push_bit (unat priority) 1 \<rparr>"
  let ?g = "\<lambda>x. x\<lparr> stat := RT_THREAD_INIT \<rparr>"
  let ?s' = "snd (rt_sched_thread_change_priority t priority s)"
  have all: "sched_inv ?s' \<and> thread_state ?s' = thread_state s \<and>
      current_priority (thread_of ?s' u) = (if u = t then priority else current_priority (thread_of s u)) \<and>
      rt_current_thread ?s' = rt_current_thread s \<and>
      (wait_list l \<longrightarrow> thread_lists ?s' l = thread_lists s l)"
  proof (cases "thread_state s t = RT_THREAD_READY")
    case True
    define s1 where "s1 = upd_thread t ?g (rt_sched_remove_thread t s)"
    define s2 where "s2 = upd_thread t ?f s1"
    have "upd_thread t ?g (upd_thread t ?f (rt_sched_remove_thread t s)) = s2"
      by (cases "thread_of (rt_sched_remove_thread t s) t") (simp add: s1_def s2_def upd_thread_def)
    then have e: "?s' = rt_sched_insert_thread t s2"
      using True by (simp add: rt_sched_thread_change_priority_def thread_state_def tst_def Let_def)
    have cur: "rt_current_thread s2 \<noteq> Some t"
      using True ro by (auto simp: s2_def s1_def run_ok_def)
    have q1: "queue_inv s1" and u1: "unlinked s1 t"
      unfolding s1_def by (rule remove_set_inv[OF q]; simp)+
    have n1: "thread_state s1 t \<noteq> RT_THREAD_READY" by (simp add: s1_def thread_state_def)
    have q2: "queue_inv s2" unfolding s2_def by (rule set_prio_inv[OF q1 n1 p])
    have u2: "unlinked s2 t" using u1 by (simp add: s2_def unlinked_def)
    have q3: "queue_inv ?s'" unfolding e
      by (rule insert_queue_inv[OF q2 u2]) (use p in \<open>simp_all add: s2_def\<close>)
    note f = insert_thread_fields[OF cur]
    have th2: "thread_of s2 = (thread_of s)(t := ?f (?g (thread_of s t)))"
      by (simp add: s2_def s1_def remove_thread_fields)
    have st: "thread_state ?s' = thread_state s"
      using True by (auto simp: e f(2) th2 thread_state_def fun_eq_iff)
    have "run_ok ?s'" using ro st by (simp add: run_ok_def e) (simp add: s2_def s1_def)
    moreover have "t \<notin> set (thread_lists s l)" if "wait_list l" for l
      using q True that suspended_states[of s t] by (auto simp: queue_inv_def wait_ok_def)
    moreover have "current_priority (thread_of ?s' u) = (if u = t then priority else current_priority (thread_of s u))"
      by (simp add: e f(2) th2)
    moreover have "rt_current_thread ?s' = rt_current_thread s"
      by (simp add: e) (simp add: s2_def s1_def)
    moreover have "thread_lists s2 l = removeAll t (thread_lists s l)"
      by (simp add: s2_def s1_def remove_thread_fields)
    ultimately show ?thesis using q3 st by (auto simp: sched_inv_def e f(1))
  next
    case False
    then have e: "?s' = upd_thread t ?f s"
      by (simp add: rt_sched_thread_change_priority_def thread_state_def tst_def Let_def)
    have st: "thread_state ?s' = thread_state s" by (auto simp: e thread_state_def fun_eq_iff)
    have "run_ok ?s'" using ro st by (simp add: run_ok_def e)
    then show ?thesis using set_prio_inv[OF q False p] st by (simp add: sched_inv_def e)
  qed
  show "sched_inv ?s'" "thread_state ?s' = thread_state s"
    "current_priority (thread_of ?s' u) = (if u = t then priority else current_priority (thread_of s u))"
    "rt_current_thread ?s' = rt_current_thread s" using all by auto
  assume "wait_list l"
  then show "thread_lists ?s' l = thread_lists s l" using all by auto
qed

lemma exit_critical_inv:
  assumes "sched_inv s"
  shows "sched_inv (rt_exit_critical s)"
proof -
  have "sched_inv (s\<lparr> rt_scheduler_lock_nest := n \<rparr>)" for n
    using assms by (subst sched_inv_cong[of _ s]) auto
  then show ?thesis by (auto simp: rt_exit_critical_def Let_def rt_schedule_inv)
qed

section \<open>The example system is well formed\<close>

lemma demo_states:
  "thread_state demo_kernel t =
    (if t = 0 \<or> t = 2 then RT_THREAD_READY else if t = 1 then RT_THREAD_RUNNING else RT_THREAD_INIT)"
  "prio_index demo_kernel t = (if t = 0 then 31 else if t = 1 \<or> t = 2 then 10 else 0)"
  "number_mask (thread_of demo_kernel t) = (if t \<le> 2 then push_bit (prio_index demo_kernel t) 1 else 0)"
proof -
  have le2: "t \<le> 2 \<longleftrightarrow> t = 0 \<or> t = 1 \<or> t = 2" for t :: nat by auto
  show "thread_state demo_kernel t =
      (if t = 0 \<or> t = 2 then RT_THREAD_READY else if t = 1 then RT_THREAD_RUNNING else RT_THREAD_INIT)"
    "prio_index demo_kernel t = (if t = 0 then 31 else if t = 1 \<or> t = 2 then 10 else 0)"
    "number_mask (thread_of demo_kernel t) = (if t \<le> 2 then push_bit (prio_index demo_kernel t) 1 else 0)"
    by (auto simp: thread_state_def demo_kernel_def started_thread_def blank_thread_def le2)
qed

lemma demo_lists:
  "thread_lists demo_kernel l = (if l = ReadyQ 10 then [2] else if l = ReadyQ 31 then [0] else [])"
  "rt_current_thread demo_kernel = Some 1" "rt_scheduler_lock_nest demo_kernel = 0"
  "rt_thread_ready_priority_group demo_kernel = push_bit 10 1 OR push_bit 31 1"
  by (simp_all add: demo_kernel_def)

lemma demo_sched_inv: "sched_inv demo_kernel"
proof -
  have "bitmap_ok demo_kernel"
    unfolding bitmap_ok_def demo_lists(1,4) bit_or_iff bit_mask1 by auto
  moreover have "lists_ok demo_kernel" by (auto simp: lists_ok_def demo_lists split: if_splits)
  moreover have "ready_ok demo_kernel"
    unfolding ready_ok_def demo_states(1,2) demo_lists by auto
  moreover have "mask_ok demo_kernel"
    unfolding mask_ok_def demo_states by (auto simp: RT_THREAD_PRIORITY_MAX_def split: if_splits)
  moreover have "wait_ok demo_kernel" by (auto simp: wait_ok_def demo_lists split: if_splits)
  moreover have "run_ok demo_kernel" by (auto simp: run_ok_def demo_states demo_lists split: if_splits)
  ultimately show ?thesis by (simp add: sched_inv_def queue_inv_def)
qed

section \<open>Properties\<close>

text \<open>C1: the scheduling invariant (every thread in at most one list, the bitmap
  equal to the set of non-empty ready queues, each ready queue equal to the ready
  threads of its priority, waiters suspended, at most one running thread) is kept
  by every scheduler operation: \<open>rt_schedule\<close>, leaving a critical section, the tick
  handler, yielding, making a suspended thread ready and changing a priority.\<close>

theorem scheduler_invariant_preserved:
  assumes "sched_inv s"
  shows "sched_inv (rt_schedule s) \<and> sched_inv (rt_exit_critical s)
    \<and> sched_inv (snd (rt_enter_critical s)) \<and> sched_inv (snd (rt_sched_tick_increase s))
    \<and> sched_inv (snd (rt_sched_thread_yield t s)) \<and> sched_inv (snd (rt_sched_thread_ready t s))
    \<and> (unat prio < RT_THREAD_PRIORITY_MAX \<longrightarrow>
         sched_inv (snd (rt_sched_thread_change_priority t prio s)))"
proof -
  have "sched_inv (snd (rt_enter_critical s))"
    using assms by (simp add: rt_enter_critical_def Let_def) (subst sched_inv_cong[of _ s]; simp)
  then show ?thesis
    using assms rt_schedule_inv exit_critical_inv tick_increase_inv yield_inv
      thread_ready_spec(1)[OF assms, of t] change_priority_inv(1)
    by (metis surjective_pairing)
qed

theorem scheduler_invariant_preserved_witness:
  "sched_inv (rt_schedule demo_kernel) \<and> sched_inv (snd (rt_sched_thread_change_priority 2 5 demo_kernel))"
  using scheduler_invariant_preserved[OF demo_sched_inv, of 2 5] by (simp add: RT_THREAD_PRIORITY_MAX_def)

lemma schedule_highest:
  assumes inv: "sched_inv s" and cur: "rt_current_thread s = Some c" and l: "rt_scheduler_lock_nest s = 0"
    and work: "thread_state s c = RT_THREAD_RUNNING \<or> thread_state s w = RT_THREAD_READY"
  shows "\<exists>t. rt_current_thread (rt_schedule s) = Some t
    \<and> thread_state (rt_schedule s) t = RT_THREAD_RUNNING
    \<and> (\<forall>u. thread_state (rt_schedule s) u = RT_THREAD_READY \<longrightarrow>
         current_priority (thread_of (rt_schedule s) t) \<le> current_priority (thread_of (rt_schedule s) u))"
proof -
  have q: "queue_inv s" using inv by (simp add: sched_inv_def)
  show ?thesis
  proof (cases "rt_thread_ready_priority_group s = 0")
    case True
    then have "thread_state s u \<noteq> RT_THREAD_READY" for u using no_ready_iff[OF q] by simp
    then show ?thesis using True work cur by (intro exI[of _ c]) (simp add: rt_schedule_idle)
  next
    case False
    obtain h p where h: "scheduler_get_highest_priority_thread s = (h, p)" by fastforce
    note rc = rt_schedule_cases[OF inv cur l False h]
    note ht = highest_thread[OF q False h]
    show ?thesis
    proof (cases "keeps_cpu s c p")
      case True
      then have r: "thread_state s c = RT_THREAD_RUNNING" and le: "prio_index s c \<le> p"
        by (auto simp: keeps_cpu_def)
      have pr: "prio_index (stay c s) u = prio_index s u" for u
        by (simp add: stay_def remove_thread_fields)
      show ?thesis
        using rc(2) True stay_inv(3)[OF inv cur r] r cur ht(4) le
        by (intro exI[of _ c]) (auto simp: word_le_nat_alt pr stay_current intro: le_trans)
    next
      case False
      note sw = switch_inv[OF inv cur ht(2) rc(1), of p]
      have "thread_state s c = RT_THREAD_RUNNING \<Longrightarrow> p \<le> prio_index s c"
        using False by (auto simp: keeps_cpu_def)
      then show ?thesis
        using rc(2) False sw(2-4) ht(3,4)
        by (intro exI[of _ h]) (auto simp: word_le_nat_alt split: if_splits)
    qed
  qed
qed

text \<open>C2: with the scheduler unlocked and something to run, \<open>rt_schedule\<close> leaves a
  running current thread whose priority no ready thread beats (a smaller number
  is a higher priority).\<close>

theorem rt_schedule_runs_highest:
  assumes "sched_inv s" and "rt_current_thread s = Some c" and "rt_scheduler_lock_nest s = 0"
    and "thread_state s c = RT_THREAD_RUNNING \<or> thread_state s w = RT_THREAD_READY"
  shows "\<exists>t. rt_current_thread (rt_schedule s) = Some t
    \<and> thread_state (rt_schedule s) t = RT_THREAD_RUNNING
    \<and> (\<forall>u. thread_state (rt_schedule s) u = RT_THREAD_READY \<longrightarrow>
         current_priority (thread_of (rt_schedule s) t) \<le> current_priority (thread_of (rt_schedule s) u))"
  using schedule_highest[OF assms] .

theorem rt_schedule_runs_highest_witness:
  "\<exists>t. rt_current_thread (rt_schedule demo_kernel) = Some t
    \<and> thread_state (rt_schedule demo_kernel) t = RT_THREAD_RUNNING"
  using rt_schedule_runs_highest[OF demo_sched_inv demo_lists(2,3), of 0] demo_states(1)[of 1] by auto

text \<open>Round robin. When the running thread gives up its slice and no ready
  thread has a higher priority, the first ready thread of the same priority runs
  next, the yielding thread goes to the end of that queue with a full time slice,
  and no other ready queue changes.\<close>

theorem yield_round_robin:
  assumes inv: "sched_inv s" and cur: "rt_current_thread s = Some c" and l: "rt_scheduler_lock_nest s = 0"
    and r: "thread_state s c = RT_THREAD_RUNNING"
    and rq: "thread_lists s (ReadyQ (prio_index s c)) = h # rest"
    and top: "\<And>u. thread_state s u = RT_THREAD_READY \<Longrightarrow> prio_index s c \<le> prio_index s u"
  shows "let s' = rt_schedule (snd (rt_sched_thread_yield c s)) in
    rt_current_thread s' = Some h \<and> thread_state s' c = RT_THREAD_READY
    \<and> thread_lists s' (ReadyQ (prio_index s c)) = rest @ [c]
    \<and> (\<forall>q. q \<noteq> prio_index s c \<longrightarrow> thread_lists s' (ReadyQ q) = thread_lists s (ReadyQ q))
    \<and> remaining_tick (thread_of s' c) = init_tick (thread_of s c)"
proof -
  define s1 where "s1 = snd (rt_sched_thread_yield c s)"
  have inv1: "sched_inv s1" using inv yield_inv by (simp add: s1_def)
  then have q1: "queue_inv s1" by (simp add: sched_inv_def)
  have f: "thread_lists s1 = thread_lists s" "rt_current_thread s1 = Some c"
    "rt_scheduler_lock_nest s1 = 0" "thread_state s1 = thread_state s" "prio_index s1 u = prio_index s u"
    "stat (thread_of s1 c) AND RT_THREAD_STAT_YIELD \<noteq> 0"
    "remaining_tick (thread_of s1 c) = init_tick (thread_of s c)" for u
    using cur l by (auto simp: s1_def rt_sched_thread_yield_def thread_state_def fun_eq_iff)
      (simp add: stat_defs)
  have "h \<in> set (thread_lists s1 (ReadyQ (prio_index s c)))" using rq f(1) by simp
  then have h: "thread_state s1 h = RT_THREAD_READY" "prio_index s1 h = prio_index s c"
    using q1 by (auto simp: queue_inv_def ready_ok_def)
  then have g: "rt_thread_ready_priority_group s1 \<noteq> 0" using no_ready_iff[OF q1] by blast
  obtain h' p where hp: "scheduler_get_highest_priority_thread s1 = (h', p)" by fastforce
  note ht = highest_thread[OF q1 g hp]
  have p: "p = prio_index s c"
    using ht(3) ht(4)[OF h(1)] h(2) top[of h'] ht(2) f(4,5) by simp
  then have h': "h' = h" using ht(1) rq f(1) by (metis list.sel(1))
  note rc = rt_schedule_cases[OF inv1 f(2,3) g hp]
  have nk: "\<not> keeps_cpu s1 c p" using f(5,6) p by (simp add: keeps_cpu_def)
  have ne: "h \<noteq> c" using rc(1) h' by simp
  have "distinct (h # rest)" using q1 rq f(1) by (metis queue_inv_def lists_ok_def)
  then have d: "h \<notin> set rest" by simp
  have other: "h \<notin> set (thread_lists s (ReadyQ q))" if "q \<noteq> prio_index s c" for q
    using q1 h(2) that f(1) by (auto simp: queue_inv_def ready_ok_def)
  have sch: "rt_schedule s1 = switch_to h p c True s1"
    using rc(2) nk h' r f(4) by simp
  note sw = switch_inv[OF inv1 f(2) h(1) ne, of p]
  show ?thesis
    using sch sw(2) sw(3)[of c] switch_to_lists[OF ne, of p True s1] switch_to_from_thread(2)[OF ne, of p True s1]
      f rq ne d other r p
    by (auto simp: s1_def[symmetric] Let_def)
qed

theorem yield_round_robin_witness:
  "rt_current_thread (rt_schedule (snd (rt_sched_thread_yield 1 demo_kernel))) = Some 2
   \<and> thread_lists (rt_schedule (snd (rt_sched_thread_yield 1 demo_kernel))) (ReadyQ 10) = [1]"
proof -
  have "thread_state demo_kernel 1 = RT_THREAD_RUNNING"
    and "thread_lists demo_kernel (ReadyQ (prio_index demo_kernel 1)) = 2 # []"
    and "\<And>u. thread_state demo_kernel u = RT_THREAD_READY \<Longrightarrow> prio_index demo_kernel 1 \<le> prio_index demo_kernel u"
    unfolding demo_states demo_lists by (auto split: if_splits)
  from yield_round_robin[OF demo_sched_inv demo_lists(2,3) this] show ?thesis
    unfolding Let_def demo_states(2) by simp
qed

end
