(* ===== verification/SuspList.thy ===== *)
theory SuspList
  imports Scheduler
begin

text \<open>
  Blocking and waking: the suspend lists of \<open>rt-thread/src/ipc.c\<close>, and
  \<open>rt_thread_suspend_to_list\<close>, \<open>rt_thread_resume\<close> and the timeout handler of
  \<open>rt-thread/src/thread.c\<close>. The kernel invariant extends the scheduling invariant
  by the agreement between a suspended thread's timer flag and its timer, which is
  what makes a wake-up succeed. A locale states the wait queue contract that the
  IPC objects rely on.
\<close>

section \<open>Operations\<close>

datatype suspend_flag = RT_INTERRUPTIBLE | RT_KILLABLE | RT_UNINTERRUPTIBLE

definition rt_susp_list_dequeue :: "thread_list \<Rightarrow> int \<Rightarrow> kstate \<Rightarrow> tid option \<times> kstate" where
  "rt_susp_list_dequeue l err s =
    (case thread_lists s l of [] \<Rightarrow> (None, s)
     | t # _ \<Rightarrow>
        let (error, s) = rt_sched_thread_ready t s
        in if error \<noteq> 0 then (None, s)
           else (Some t, if err \<ge> 0 then upd_thread t (\<lambda>x. x\<lparr> thread_error := err \<rparr>) s else s))"

text \<open>The loop of \<open>rt_susp_list_resume_all\<close>: dequeue until that fails. Every
  successful round shortens the list, so its length plus one rounds are enough.\<close>

fun resume_all_loop :: "nat \<Rightarrow> thread_list \<Rightarrow> int \<Rightarrow> kstate \<Rightarrow> kstate" where
  "resume_all_loop 0 l err s = s"
| "resume_all_loop (Suc n) l err s =
    (case rt_susp_list_dequeue l err s of
       (None, s) \<Rightarrow> s
     | (Some t, s) \<Rightarrow> resume_all_loop n l err s)"

definition rt_susp_list_resume_all :: "thread_list \<Rightarrow> int \<Rightarrow> kstate \<Rightarrow> kstate" where
  "rt_susp_list_resume_all l err s = resume_all_loop (Suc (length (thread_lists s l))) l err s"

definition rt_susp_list_resume_all_irq :: "thread_list \<Rightarrow> int \<Rightarrow> kstate \<Rightarrow> kstate" where
  "rt_susp_list_resume_all_irq l err s = resume_all_loop (Suc (length (thread_lists s l))) l err s"

fun prio_insert :: "(tid \<Rightarrow> u8) \<Rightarrow> tid \<Rightarrow> tid list \<Rightarrow> tid list" where
  "prio_insert P t [] = [t]"
| "prio_insert P t (x # xs) = (if P t < P x then t # x # xs else x # prio_insert P t xs)"

definition rt_susp_list_enqueue :: "thread_list \<Rightarrow> tid \<Rightarrow> u8 \<Rightarrow> kstate \<Rightarrow> kstate" where
  "rt_susp_list_enqueue l t ipc_flags s =
    (if ipc_flags = RT_IPC_FLAG_FIFO then append_thread l t s
     else if ipc_flags = RT_IPC_FLAG_PRIO then
       s\<lparr> thread_lists := (thread_lists s)
            (l := prio_insert (\<lambda>u. rt_sched_thread_get_curr_prio u s) t (thread_lists s l)) \<rparr>
     else s)"

definition thread_set_suspend_state :: "tid \<Rightarrow> suspend_flag \<Rightarrow> kstate \<Rightarrow> kstate" where
  "thread_set_suspend_state t flag s =
    (let st = (case flag of
         RT_INTERRUPTIBLE \<Rightarrow> RT_THREAD_SUSPEND_MASK
       | RT_KILLABLE \<Rightarrow> RT_THREAD_SUSPEND_KILLABLE
       | RT_UNINTERRUPTIBLE \<Rightarrow> RT_THREAD_SUSPEND_UNINTERRUPTIBLE)
     in upd_thread t (\<lambda>x. x\<lparr> stat := st OR (stat x AND NOT RT_THREAD_STAT_MASK) \<rparr>) s)"

definition rt_thread_suspend_to_list ::
  "tid \<Rightarrow> thread_list option \<Rightarrow> u8 \<Rightarrow> suspend_flag \<Rightarrow> kstate \<Rightarrow> int \<times> kstate" where
  "rt_thread_suspend_to_list t susp_list ipc_flags flag s =
    (let st = rt_sched_thread_get_stat t s in
     if st \<noteq> RT_THREAD_READY \<and> st \<noteq> RT_THREAD_RUNNING then (- RT_ERROR, s)
     else
       let s = rt_sched_remove_thread t s;
           s = thread_set_suspend_state t flag s;
           s = (case susp_list of None \<Rightarrow> s | Some l \<Rightarrow> rt_susp_list_enqueue l t ipc_flags s);
           s = snd (rt_sched_thread_timer_stop t s)
       in (RT_EOK, s))"

definition rt_thread_suspend_with_flag :: "tid \<Rightarrow> suspend_flag \<Rightarrow> kstate \<Rightarrow> int \<times> kstate" where
  "rt_thread_suspend_with_flag t flag s = rt_thread_suspend_to_list t None 0 flag s"

definition rt_thread_suspend :: "tid \<Rightarrow> kstate \<Rightarrow> int \<times> kstate" where
  "rt_thread_suspend t s = rt_thread_suspend_with_flag t RT_UNINTERRUPTIBLE s"

definition rt_thread_resume :: "tid \<Rightarrow> kstate \<Rightarrow> int \<times> kstate" where
  "rt_thread_resume t s =
    (let (error, s) = rt_sched_thread_ready t s
     in if error = 0 then (RT_EOK, rt_sched_unlock_n_resched s) else (error, s))"

definition thread_timeout :: "tid \<Rightarrow> kstate \<Rightarrow> kstate" where
  "thread_timeout t s =
    (let s = upd_thread t (\<lambda>x. x\<lparr> thread_error := - RT_ETIMEOUT \<rparr>) s;
         s = unlink_thread t s;
         s = rt_sched_insert_thread t s
     in rt_sched_unlock_n_resched s)"

section \<open>Priority-ordered insertion\<close>

lemma set_prio_insert [simp]: "set (prio_insert P t xs) = insert t (set xs)"
  by (induction xs) auto

lemma distinct_prio_insert: "distinct xs \<Longrightarrow> t \<notin> set xs \<Longrightarrow> distinct (prio_insert P t xs)"
  by (induction xs) auto

lemma removeAll_prio_insert: "t \<notin> set xs \<Longrightarrow> removeAll t (prio_insert P t xs) = xs"
  by (induction xs) auto

lemma prio_insert_split:
  "prio_insert P t xs = takeWhile (\<lambda>x. P x \<le> P t) xs @ t # dropWhile (\<lambda>x. P x \<le> P t) xs"
  by (induction xs) auto

lemma prio_insert_sorted:
  assumes "sorted (map P xs)"
  shows "sorted (map P (prio_insert P t xs))"
  using assms by (induction xs) auto

lemma prio_insert_cong:
  "(\<And>u. u \<in> insert t (set xs) \<Longrightarrow> P u = Q u) \<Longrightarrow> prio_insert P t xs = prio_insert Q t xs"
  by (induction xs) auto

section \<open>The kernel invariant\<close>

text \<open>A suspended thread whose timer flag is set has an active timer. This holds
  whenever no timeout is being delivered.\<close>

definition ttmr_ok :: "kstate \<Rightarrow> bool" where
  "ttmr_ok s \<longleftrightarrow> (\<forall>t. suspended s t \<longrightarrow> sched_flag_ttmr_set (thread_of s t) \<longrightarrow>
     flag_set (timer_flag (timer_of s (ThreadTimer t))) RT_TIMER_FLAG_ACTIVATED)"

definition kernel_inv :: "kstate \<Rightarrow> bool" where
  "kernel_inv s \<longleftrightarrow> sched_inv s \<and> ttmr_ok s"

text \<open>Threads that differ only in the status word.\<close>

definition same_but_stat :: "rt_thread \<Rightarrow> rt_thread \<Rightarrow> bool" where
  "same_but_stat x y \<longleftrightarrow> y\<lparr> stat := stat x \<rparr> = x"

lemma same_but_stat_simps:
  assumes "same_but_stat x y"
  shows "thread_error y = thread_error x" "sched_flag_ttmr_set y = sched_flag_ttmr_set x"
    "current_priority y = current_priority x" "init_priority y = init_priority x"
    "number_mask y = number_mask x" "init_tick y = init_tick x" "remaining_tick y = remaining_tick x"
    "taken_object_list y = taken_object_list x" "pending_object y = pending_object x"
  using assms by (cases x; cases y; simp add: same_but_stat_def)+

text \<open>The part of a thread that blocking and waking leave alone.\<close>

definition thread_view :: "rt_thread \<Rightarrow> int \<times> u8 \<times> u8 \<times> oid list \<times> oid option" where
  "thread_view x = (thread_error x, current_priority x, init_priority x, taken_object_list x, pending_object x)"

lemma same_but_stat_view: "same_but_stat x y \<Longrightarrow> thread_view y = thread_view x"
  by (simp add: thread_view_def same_but_stat_simps)

lemma same_but_stat_refl [simp]: "same_but_stat x x"
  by (simp add: same_but_stat_def)

lemma same_but_stat_upd [simp]: "same_but_stat x (y\<lparr> stat := v \<rparr>) = same_but_stat x y"
  by (simp add: same_but_stat_def)

lemma insert_same_but_stat: "same_but_stat (thread_of s u) (thread_of (rt_sched_insert_thread t s) u)"
  by (simp add: insert_thread_effect)

lemma remove_same_but_stat: "thread_of (rt_sched_remove_thread t s) = thread_of s"
  by (rule remove_thread_fields(2))

lemma schedule_same_but_stat: "same_but_stat (thread_of s u) (thread_of (rt_schedule s) u)"
  by (simp add: rt_schedule_def Let_def remove_thread_fields insert_thread_effect split: option.splits prod.splits)

lemma schedule_states:
  assumes inv: "sched_inv s"
  shows "suspended (rt_schedule s) u = suspended s u"
    and "thread_state s u \<notin> {RT_THREAD_READY, RT_THREAD_RUNNING} \<Longrightarrow>
      thread_state (rt_schedule s) u = thread_state s u"
    and "thread_state s u \<in> {RT_THREAD_READY, RT_THREAD_RUNNING} \<Longrightarrow>
      thread_state (rt_schedule s) u \<in> {RT_THREAD_READY, RT_THREAD_RUNNING}"
    and "wait_list l \<or> l = DefunctQ \<Longrightarrow> thread_lists (rt_schedule s) l = thread_lists s l"
proof -
  have all: "(suspended (rt_schedule s) u = suspended s u) \<and>
    (thread_state s u \<notin> {RT_THREAD_READY, RT_THREAD_RUNNING} \<longrightarrow>
      thread_state (rt_schedule s) u = thread_state s u) \<and>
    (thread_state s u \<in> {RT_THREAD_READY, RT_THREAD_RUNNING} \<longrightarrow>
      thread_state (rt_schedule s) u \<in> {RT_THREAD_READY, RT_THREAD_RUNNING}) \<and>
    (wait_list l \<or> l = DefunctQ \<longrightarrow> thread_lists (rt_schedule s) l = thread_lists s l)"
  proof (cases "rt_current_thread s = None \<or> rt_scheduler_lock_nest s \<noteq> 0 \<or> rt_thread_ready_priority_group s = 0")
    case True
    then show ?thesis by (simp add: rt_schedule_idle)
  next
    case False
    then obtain c where c: "rt_current_thread s = Some c" by auto
    have l0: "rt_scheduler_lock_nest s = 0" and g: "rt_thread_ready_priority_group s \<noteq> 0"
      using False by auto
    obtain h p where h: "scheduler_get_highest_priority_thread s = (h, p)" by fastforce
    note rc = rt_schedule_cases[OF inv c l0 g h]
    have q: "queue_inv s" using inv by (simp add: sched_inv_def)
    note hr = highest_thread(2)[OF q g h]
    show ?thesis
    proof (cases "keeps_cpu s c p")
      case True
      then show ?thesis
        using rc(2) stay_inv(2,3)[OF inv c] by (auto simp: keeps_cpu_def suspended_def)
    next
      case False
      have "h \<notin> set (thread_lists s l)" if "wait_list l \<or> l = DefunctQ" for l
        using q hr that suspended_states[of s h] by (auto simp: queue_inv_def wait_ok_def)
      moreover have "l \<noteq> ReadyQ k" if "wait_list l \<or> l = DefunctQ" for l k using that by auto
      ultimately show ?thesis
        using rc False switch_inv(3)[OF inv c hr rc(1), of p u] switch_to_lists[OF rc(1), of p _ s l] hr
        by (auto simp: suspended_def stat_defs)
    qed
  qed
  show "suspended (rt_schedule s) u = suspended s u"
    and "thread_state s u \<notin> {RT_THREAD_READY, RT_THREAD_RUNNING} \<Longrightarrow>
      thread_state (rt_schedule s) u = thread_state s u"
    and "thread_state s u \<in> {RT_THREAD_READY, RT_THREAD_RUNNING} \<Longrightarrow>
      thread_state (rt_schedule s) u \<in> {RT_THREAD_READY, RT_THREAD_RUNNING}"
    and "wait_list l \<or> l = DefunctQ \<Longrightarrow> thread_lists (rt_schedule s) l = thread_lists s l"
    using all by blast+
qed

lemma schedule_kernel_inv: "kernel_inv s \<Longrightarrow> kernel_inv (rt_schedule s)"
  by (auto simp: kernel_inv_def ttmr_ok_def rt_schedule_inv schedule_states(1)
      same_but_stat_simps[OF schedule_same_but_stat])

lemma resched_kernel_inv: "kernel_inv s \<Longrightarrow> kernel_inv (rt_sched_unlock_n_resched s)"
  by (simp add: rt_sched_unlock_n_resched_def schedule_kernel_inv)

text \<open>A change of a thread that keeps status, priority, mask and timer flag.\<close>

lemma neutral_kernel_inv:
  assumes "sched_neutral (thread_of s t) (f (thread_of s t))"
    and "sched_flag_ttmr_set (f (thread_of s t)) \<longrightarrow> sched_flag_ttmr_set (thread_of s t)"
  shows "kernel_inv s \<Longrightarrow> kernel_inv (upd_thread t f s)"
  using neutral_inv(3)[of s t f, OF assms(1)] thread_state_cong[of s t f, OF assms(1)] assms(2)
  by (auto simp: kernel_inv_def ttmr_ok_def suspended_def)

section \<open>Waking\<close>

lemma timer_stop_active:
  assumes "flag_set (timer_flag (timer_of s (ThreadTimer t))) RT_TIMER_FLAG_ACTIVATED"
  shows "fst (rt_sched_thread_timer_stop t s) = 0"
  using assms by (simp add: rt_sched_thread_timer_stop_def rt_timer_stop_def Let_def RT_EOK_def)

lemma timer_stop_fields:
  "thread_of (snd (rt_sched_thread_timer_stop t s)) =
     (thread_of s)(t := (thread_of s t)\<lparr> sched_flag_ttmr_set := False \<rparr>)"
  "u \<noteq> t \<Longrightarrow> timer_of (snd (rt_sched_thread_timer_stop t s)) (ThreadTimer u) = timer_of s (ThreadTimer u)"
  by (auto simp: rt_sched_thread_timer_stop_def timer_op_defs fun_eq_iff)

lemma timer_stop_frame [simp]:
  "rt_tick (snd (rt_sched_thread_timer_stop t s)) = rt_tick s"
  "sem_of (snd (rt_sched_thread_timer_stop t s)) = sem_of s"
  "mutex_of (snd (rt_sched_thread_timer_stop t s)) = mutex_of s"
  "mailbox_of (snd (rt_sched_thread_timer_stop t s)) = mailbox_of s"
  "mq_of (snd (rt_sched_thread_timer_stop t s)) = mq_of s"
  "rt_scheduler_lock_nest (snd (rt_sched_thread_timer_stop t s)) = rt_scheduler_lock_nest s"
  "rt_interrupt_nest (snd (rt_sched_thread_timer_stop t s)) = rt_interrupt_nest s"
  "rt_thread_ready_priority_group (snd (rt_sched_thread_timer_stop t s)) = rt_thread_ready_priority_group s"
  by (simp_all add: rt_sched_thread_timer_stop_def timer_op_defs)

text \<open>Waking a suspended thread succeeds, keeps the kernel invariant and touches
  only that thread.\<close>

lemma ready_effect:
  assumes k: "kernel_inv s" and sp: "suspended s t"
  defines "s1 \<equiv> (if sched_flag_ttmr_set (thread_of s t) then snd (rt_sched_thread_timer_stop t s) else s)"
  shows "rt_sched_thread_ready t s = (0, rt_sched_insert_thread t (unlink_thread t s1))"
    and "kernel_inv (rt_sched_insert_thread t (unlink_thread t s1))"
proof -
  have fl: "sched_flag_ttmr_set (thread_of s t) \<Longrightarrow>
      flag_set (timer_flag (timer_of s (ThreadTimer t))) RT_TIMER_FLAG_ACTIVATED"
    using k sp by (simp add: kernel_inv_def ttmr_ok_def)
  show e: "rt_sched_thread_ready t s = (0, rt_sched_insert_thread t (unlink_thread t s1))"
    using sp timer_stop_active[OF fl]
    by (auto simp: rt_sched_thread_ready_def is_suspended_eq s1_def RT_EOK_def split: prod.splits)
  have inv: "sched_inv s" using k by (simp add: kernel_inv_def)
  note spec = thread_ready_spec[OF inv e]
  let ?s' = "rt_sched_insert_thread t (unlink_thread t s1)"
  have st: "suspended ?s' u \<longleftrightarrow> suspended s u \<and> u \<noteq> t" for u
    using spec(3)[of u] suspended_states[OF sp] by (auto simp: suspended_def stat_defs)
  have th: "u \<noteq> t \<Longrightarrow> thread_of ?s' u = thread_of s u" for u
    by (auto simp: insert_thread_effect s1_def timer_stop_fields)
  have tm: "u \<noteq> t \<Longrightarrow> timer_of ?s' (ThreadTimer u) = timer_of s (ThreadTimer u)" for u
    by (auto simp: s1_def timer_stop_fields)
  have "ttmr_ok ?s'" using k st th tm by (auto simp: kernel_inv_def ttmr_ok_def)
  then show "kernel_inv ?s'" using spec(1) by (simp add: kernel_inv_def)
qed

lemma ready_frame [simp]:
  "rt_current_thread (snd (rt_sched_thread_ready t s)) = rt_current_thread s"
  "rt_tick (snd (rt_sched_thread_ready t s)) = rt_tick s"
  "sem_of (snd (rt_sched_thread_ready t s)) = sem_of s"
  "mutex_of (snd (rt_sched_thread_ready t s)) = mutex_of s"
  "mailbox_of (snd (rt_sched_thread_ready t s)) = mailbox_of s"
  "mq_of (snd (rt_sched_thread_ready t s)) = mq_of s"
  "rt_scheduler_lock_nest (snd (rt_sched_thread_ready t s)) = rt_scheduler_lock_nest s"
  "rt_interrupt_nest (snd (rt_sched_thread_ready t s)) = rt_interrupt_nest s"
  by (simp_all add: rt_sched_thread_ready_def rt_sched_thread_timer_stop_def timer_op_defs split: prod.splits)

lemma dequeue_frame [simp]:
  "rt_current_thread (snd (rt_susp_list_dequeue l e s)) = rt_current_thread s"
  "rt_tick (snd (rt_susp_list_dequeue l e s)) = rt_tick s"
  "sem_of (snd (rt_susp_list_dequeue l e s)) = sem_of s"
  "mutex_of (snd (rt_susp_list_dequeue l e s)) = mutex_of s"
  "mailbox_of (snd (rt_susp_list_dequeue l e s)) = mailbox_of s"
  "mq_of (snd (rt_susp_list_dequeue l e s)) = mq_of s"
  "rt_scheduler_lock_nest (snd (rt_susp_list_dequeue l e s)) = rt_scheduler_lock_nest s"
  "rt_interrupt_nest (snd (rt_susp_list_dequeue l e s)) = rt_interrupt_nest s"
  by (simp_all add: rt_susp_list_dequeue_def case_prod_unfold Let_def split: list.splits)

lemma dequeue_empty: "thread_lists s l = [] \<Longrightarrow> rt_susp_list_dequeue l e s = (None, s)"
  by (simp add: rt_susp_list_dequeue_def)

lemma waiter_suspended:
  "kernel_inv s \<Longrightarrow> wait_list l \<Longrightarrow> t \<in> set (thread_lists s l) \<Longrightarrow> suspended s t"
  by (auto simp: kernel_inv_def sched_inv_def queue_inv_def wait_ok_def)

lemma lists_distinct: "kernel_inv s \<Longrightarrow> distinct (thread_lists s l)"
  by (auto simp: kernel_inv_def sched_inv_def queue_inv_def lists_ok_def)

lemma one_list:
  "kernel_inv s \<Longrightarrow> t \<in> set (thread_lists s l) \<Longrightarrow> t \<in> set (thread_lists s k) \<Longrightarrow> l = k"
  by (auto simp: kernel_inv_def sched_inv_def queue_inv_def lists_ok_def)

text \<open>The first waiter is taken, in full.\<close>

lemma dequeue_first:
  assumes k: "kernel_inv s" and w: "wait_list l" and l: "thread_lists s l = t # ts"
  obtains s' where "rt_susp_list_dequeue l e s = (Some t, s')" and "kernel_inv s'"
    and "thread_lists s' l = ts"
    and "\<And>m. wait_list m \<Longrightarrow> m \<noteq> l \<Longrightarrow> thread_lists s' m = thread_lists s m"
    and "\<And>u. thread_state s' u =
      (if u = t then if rt_current_thread s = Some t then RT_THREAD_RUNNING else RT_THREAD_READY
       else thread_state s u)"
    and "\<And>u. u \<noteq> t \<Longrightarrow> thread_of s' u = thread_of s u"
    and "thread_error (thread_of s' t) = (if e \<ge> 0 then e else thread_error (thread_of s t))"
    and "current_priority (thread_of s' t) = current_priority (thread_of s t)"
    and "taken_object_list (thread_of s' t) = taken_object_list (thread_of s t)"
    and "pending_object (thread_of s' t) = pending_object (thread_of s t)"
    and "init_priority (thread_of s' t) = init_priority (thread_of s t)"
proof -
  have sp: "suspended s t" using waiter_suspended[OF k w] l by simp
  define s1 where "s1 = (if sched_flag_ttmr_set (thread_of s t)
    then snd (rt_sched_thread_timer_stop t s) else s)"
  define s2 where "s2 = rt_sched_insert_thread t (unlink_thread t s1)"
  note r = ready_effect[OF k sp, folded s1_def, folded s2_def]
  have inv: "sched_inv s" using k by (simp add: kernel_inv_def)
  note spec = thread_ready_spec[OF inv r(1)]
  let ?s' = "if e \<ge> 0 then upd_thread t (\<lambda>x. x\<lparr> thread_error := e \<rparr>) s2 else s2"
  define v where "v = stat (thread_of s2 t)"
  have th: "thread_of s2 = (thread_of s)(t := (thread_of s t)\<lparr> sched_flag_ttmr_set := False, stat := v \<rparr>)"
  proof -
    have "thread_of s1 = (thread_of s)(t := (thread_of s t)\<lparr> sched_flag_ttmr_set := False \<rparr>)"
      by (auto simp: s1_def timer_stop_fields fun_eq_iff)
    then show ?thesis by (simp add: v_def s2_def insert_thread_effect fun_eq_iff)
  qed
  have "t \<notin> set (thread_lists s m)" if "m \<noteq> l" for m
    using one_list[OF k, of t l m] that l by auto
  moreover have "removeAll t (t # ts) = ts" using lists_distinct[OF k, of l] l by simp
  ultimately have li: "thread_lists s2 l = ts"
    "\<And>m. wait_list m \<Longrightarrow> m \<noteq> l \<Longrightarrow> thread_lists s2 m = thread_lists s m"
    using spec(4) w l by auto
  show ?thesis
  proof (rule that[of ?s'])
    show "rt_susp_list_dequeue l e s = (Some t, ?s')"
      using l r(1) by (simp add: rt_susp_list_dequeue_def)
    show "kernel_inv ?s'"
      using r(2) neutral_kernel_inv[of s2 t "\<lambda>x. x\<lparr> thread_error := e \<rparr>"] by (simp add: sched_neutral_def)
    show "thread_state ?s' u =
      (if u = t then if rt_current_thread s = Some t then RT_THREAD_RUNNING else RT_THREAD_READY
       else thread_state s u)" for u
      using spec(3)[of u] by (cases "u = t") (auto simp: thread_state_def)
  qed (use li th in \<open>auto\<close>)
qed

lemma dequeue_kernel_inv:
  assumes "kernel_inv s" and "wait_list l"
  shows "kernel_inv (snd (rt_susp_list_dequeue l e s))"
proof (cases "thread_lists s l")
  case Nil
  then show ?thesis using assms by (simp add: dequeue_empty)
next
  case (Cons t ts)
  then show ?thesis by (rule dequeue_first[OF assms, of t ts e]) auto
qed

text \<open>Waking everyone empties the list: the bound on the rounds is enough.\<close>

lemma resume_all_spec:
  assumes "kernel_inv s" and w: "wait_list l" and "length (thread_lists s l) < n"
  shows "kernel_inv (resume_all_loop n l e s) \<and> thread_lists (resume_all_loop n l e s) l = []
    \<and> (\<forall>m. wait_list m \<longrightarrow> m \<noteq> l \<longrightarrow> thread_lists (resume_all_loop n l e s) m = thread_lists s m)
    \<and> (\<forall>t \<in> set (thread_lists s l). \<not> suspended (resume_all_loop n l e s) t
         \<and> (e \<ge> 0 \<longrightarrow> thread_error (thread_of (resume_all_loop n l e s) t) = e))
    \<and> (\<forall>u. u \<notin> set (thread_lists s l) \<longrightarrow>
         thread_of (resume_all_loop n l e s) u = thread_of s u)"
  using assms(1,3)
proof (induction n arbitrary: s)
  case (Suc n)
  show ?case
  proof (cases "thread_lists s l")
    case Nil
    then show ?thesis using Suc.prems by (simp add: dequeue_empty)
  next
    case (Cons t ts)
    show ?thesis
    proof (rule dequeue_first[OF Suc.prems(1) w Cons, of e])
      fix s'
      assume d: "rt_susp_list_dequeue l e s = (Some t, s')" and k: "kernel_inv s'"
        and li: "thread_lists s' l = ts" "\<And>m. wait_list m \<Longrightarrow> m \<noteq> l \<Longrightarrow> thread_lists s' m = thread_lists s m"
        and st: "\<And>u. thread_state s' u = (if u = t then if rt_current_thread s = Some t then
            RT_THREAD_RUNNING else RT_THREAD_READY else thread_state s u)"
        and th: "\<And>u. u \<noteq> t \<Longrightarrow> thread_of s' u = thread_of s u"
        and er: "thread_error (thread_of s' t) = (if e \<ge> 0 then e else thread_error (thread_of s t))"
      have tn: "t \<notin> set ts" using lists_distinct[OF Suc.prems(1), of l] Cons by simp
      have ns: "\<not> suspended s' t" using st[of t] by (auto simp: suspended_def stat_defs)
      let ?r = "resume_all_loop n l e s'"
      have IH: "kernel_inv ?r \<and> thread_lists ?r l = []
        \<and> (\<forall>m. wait_list m \<longrightarrow> m \<noteq> l \<longrightarrow> thread_lists ?r m = thread_lists s' m)
        \<and> (\<forall>t \<in> set (thread_lists s' l). \<not> suspended ?r t \<and> (e \<ge> 0 \<longrightarrow> thread_error (thread_of ?r t) = e))
        \<and> (\<forall>u. u \<notin> set (thread_lists s' l) \<longrightarrow> thread_of ?r u = thread_of s' u)"
        using Suc.IH[OF k] Suc.prems(2) Cons li(1) by simp
      have "thread_of ?r t = thread_of s' t" using IH tn li(1) by simp
      then have "\<not> suspended ?r t" "e \<ge> 0 \<longrightarrow> thread_error (thread_of ?r t) = e"
        using ns er by (auto simp: suspended_def thread_state_def)
      then show ?thesis using IH d Cons li th by auto
    qed
  qed
qed simp

lemmas resume_all = resume_all_spec[of s l "Suc (length (thread_lists s l))" e for s l e,
  folded rt_susp_list_resume_all_def, simplified]

lemma resume_loop_preserves:
  assumes "\<And>s. f (snd (rt_susp_list_dequeue l e s)) = f s"
  shows "f (resume_all_loop n l e s) = f s"
proof (induction n arbitrary: s)
  case (Suc n)
  obtain r s' where d: "rt_susp_list_dequeue l e s = (r, s')" by fastforce
  then have "f s' = f s" using assms[of s] by simp
  then show ?case using Suc d by (simp split: option.splits)
qed simp

lemma resume_all_frame [simp]:
  "rt_current_thread (rt_susp_list_resume_all l e s) = rt_current_thread s"
  "rt_tick (rt_susp_list_resume_all l e s) = rt_tick s"
  "sem_of (rt_susp_list_resume_all l e s) = sem_of s"
  "mutex_of (rt_susp_list_resume_all l e s) = mutex_of s"
  "mailbox_of (rt_susp_list_resume_all l e s) = mailbox_of s"
  "mq_of (rt_susp_list_resume_all l e s) = mq_of s"
  "rt_scheduler_lock_nest (rt_susp_list_resume_all l e s) = rt_scheduler_lock_nest s"
  unfolding rt_susp_list_resume_all_def by (rule resume_loop_preserves; simp)+

section \<open>Blocking\<close>

lemma tst_suspend [simp]:
  "tst (RT_THREAD_SUSPEND_MASK OR (x AND NOT RT_THREAD_STAT_MASK)) = 4"
  "tst (RT_THREAD_SUSPEND_KILLABLE OR (x AND NOT RT_THREAD_STAT_MASK)) = 6"
  "tst (RT_THREAD_SUSPEND_UNINTERRUPTIBLE OR (x AND NOT RT_THREAD_STAT_MASK)) = 7"
proof -
  have b6: "bit (6 :: u8) i \<longleftrightarrow> i = 1 \<or> i = 2" for i
  proof -
    have "(6 :: u8) = 2 OR 4" by code_simp
    then show ?thesis by (simp only: bit_or_iff u8_bits)
  qed
  show "tst (RT_THREAD_SUSPEND_MASK OR (x AND NOT RT_THREAD_STAT_MASK)) = 4"
    "tst (RT_THREAD_SUSPEND_KILLABLE OR (x AND NOT RT_THREAD_STAT_MASK)) = 6"
    "tst (RT_THREAD_SUSPEND_UNINTERRUPTIBLE OR (x AND NOT RT_THREAD_STAT_MASK)) = 7"
    unfolding tst_def stat_defs by (rule bit_word_eqI; auto simp only: u8_bit_simps b6)+
qed

lemma set_suspend_state_eq:
  "\<exists>v. tst v \<in> {4, 6, 7} \<and> thread_set_suspend_state t flag s = upd_thread t (\<lambda>x. x\<lparr> stat := v \<rparr>) s"
proof -
  let ?r = "stat (thread_of s t) AND NOT RT_THREAD_STAT_MASK"
  show ?thesis
  proof (cases flag)
    case RT_INTERRUPTIBLE
    then show ?thesis
      by (intro exI[of _ "RT_THREAD_SUSPEND_MASK OR ?r"]) (simp add: thread_set_suspend_state_def upd_thread_def)
  next
    case RT_KILLABLE
    then show ?thesis
      by (intro exI[of _ "RT_THREAD_SUSPEND_KILLABLE OR ?r"]) (simp add: thread_set_suspend_state_def upd_thread_def)
  next
    case RT_UNINTERRUPTIBLE
    then show ?thesis
      by (intro exI[of _ "RT_THREAD_SUSPEND_UNINTERRUPTIBLE OR ?r"]) (simp add: thread_set_suspend_state_def upd_thread_def)
  qed
qed

definition enqueue_order :: "u8 \<Rightarrow> (tid \<Rightarrow> u8) \<Rightarrow> tid \<Rightarrow> tid list \<Rightarrow> tid list" where
  "enqueue_order flags P t xs =
    (if flags = RT_IPC_FLAG_FIFO then xs @ [t]
     else if flags = RT_IPC_FLAG_PRIO then prio_insert P t xs else xs)"

lemma enqueue_lists:
  "thread_lists (rt_susp_list_enqueue l t flags s) m =
    (if m = l then enqueue_order flags (\<lambda>u. current_priority (thread_of s u)) t (thread_lists s l)
     else thread_lists s m)"
  by (simp add: rt_susp_list_enqueue_def enqueue_order_def rt_sched_thread_get_curr_prio_def)

lemma enqueue_frame [simp]:
  "thread_of (rt_susp_list_enqueue l t flags s) = thread_of s"
  "rt_current_thread (rt_susp_list_enqueue l t flags s) = rt_current_thread s"
  "rt_thread_ready_priority_group (rt_susp_list_enqueue l t flags s) = rt_thread_ready_priority_group s"
  "timer_of (rt_susp_list_enqueue l t flags s) = timer_of s"
  "timer_lists (rt_susp_list_enqueue l t flags s) = timer_lists s"
  "rt_tick (rt_susp_list_enqueue l t flags s) = rt_tick s"
  "sem_of (rt_susp_list_enqueue l t flags s) = sem_of s"
  "mutex_of (rt_susp_list_enqueue l t flags s) = mutex_of s"
  "mailbox_of (rt_susp_list_enqueue l t flags s) = mailbox_of s"
  "mq_of (rt_susp_list_enqueue l t flags s) = mq_of s"
  "rt_scheduler_lock_nest (rt_susp_list_enqueue l t flags s) = rt_scheduler_lock_nest s"
  "rt_interrupt_nest (rt_susp_list_enqueue l t flags s) = rt_interrupt_nest s"
  by (simp_all add: rt_susp_list_enqueue_def)

lemma enqueue_sched_inv:
  assumes inv: "sched_inv s" and u: "unlinked s t" and sp: "suspended s t" and w: "wait_list l"
  shows "sched_inv (rt_susp_list_enqueue l t flags s)"
proof -
  let ?s = "rt_susp_list_enqueue l t flags s"
  have st: "thread_state ?s = thread_state s" by (simp add: thread_state_def fun_eq_iff)
  have li: "set (thread_lists ?s m) \<subseteq> (if m = l then insert t (set (thread_lists s l)) else set (thread_lists s m))"
    "set (thread_lists s m) \<subseteq> set (thread_lists ?s m)"
    "distinct (thread_lists s m) \<Longrightarrow> distinct (thread_lists ?s m)" for m
    using u by (auto simp: enqueue_lists enqueue_order_def unlinked_def distinct_prio_insert)
  have rq: "thread_lists ?s (ReadyQ p) = thread_lists s (ReadyQ p)" for p
    using w by (auto simp: enqueue_lists)
  have dq: "thread_lists ?s DefunctQ = thread_lists s DefunctQ" using w by (auto simp: enqueue_lists)
  have q: "queue_inv s" using inv by (simp add: sched_inv_def)
  have lo: "lists_ok ?s"
    unfolding lists_ok_def
  proof (intro conjI allI impI)
    fix m show "distinct (thread_lists ?s m)" using q li(3) by (simp add: queue_inv_def lists_ok_def)
  next
    fix m k v assume "v \<in> set (thread_lists ?s m)" "v \<in> set (thread_lists ?s k)"
    then have "v \<in> (if m = l then insert t (set (thread_lists s l)) else set (thread_lists s m))"
      "v \<in> (if k = l then insert t (set (thread_lists s l)) else set (thread_lists s k))"
      using li(1) by blast+
    moreover have "\<And>a b. v \<in> set (thread_lists s a) \<Longrightarrow> v \<in> set (thread_lists s b) \<Longrightarrow> a = b"
      using q by (auto simp: queue_inv_def lists_ok_def)
    ultimately show "m = k" using u by (auto simp: unlinked_def split: if_splits)
  qed
  have "wait_ok ?s"
    unfolding wait_ok_def dq
  proof (intro conjI allI impI)
    fix m v assume "wait_list m" and "v \<in> set (thread_lists ?s m)"
    then have "v = t \<or> v \<in> set (thread_lists s m)" using li(1)[of m] by (auto split: if_splits)
    then have "suspended s v" using sp q \<open>wait_list m\<close> by (auto simp: queue_inv_def wait_ok_def)
    then show "suspended ?s v" by (simp add: suspended_def st)
  next
    show "\<forall>v \<in> set (thread_lists s DefunctQ). thread_state ?s v = RT_THREAD_CLOSE"
      using q by (simp add: queue_inv_def wait_ok_def st)
  qed
  then have "queue_inv ?s"
    using q lo unfolding queue_inv_def bitmap_ok_def ready_ok_def mask_ok_def st rq by simp
  then show ?thesis using inv by (simp add: sched_inv_def run_ok_def st)
qed

text \<open>Suspending a ready or running thread on a wait list.\<close>

lemma suspend_spec:
  assumes k: "kernel_inv s" and st: "thread_state s t \<in> {RT_THREAD_READY, RT_THREAD_RUNNING}"
    and w: "\<And>l. sl = Some l \<Longrightarrow> wait_list l"
  obtains s' where "rt_thread_suspend_to_list t sl flags sf s = (RT_EOK, s')" and "kernel_inv s'"
    and "suspended s' t" and "\<And>u. u \<noteq> t \<Longrightarrow> thread_of s' u = thread_of s u"
    and "\<And>m. wait_list m \<Longrightarrow> thread_lists s' m =
      (if sl = Some m then enqueue_order flags (\<lambda>u. current_priority (thread_of s u)) t (thread_lists s m)
       else thread_lists s m)"
    and "\<not> sched_flag_ttmr_set (thread_of s' t)"
    and "thread_error (thread_of s' t) = thread_error (thread_of s t)"
    and "current_priority (thread_of s' t) = current_priority (thread_of s t)"
    and "taken_object_list (thread_of s' t) = taken_object_list (thread_of s t)"
    and "pending_object (thread_of s' t) = pending_object (thread_of s t)"
    and "rt_current_thread s' = rt_current_thread s" and "rt_tick s' = rt_tick s"
    and "sem_of s' = sem_of s" and "mutex_of s' = mutex_of s" and "mailbox_of s' = mailbox_of s"
    and "mq_of s' = mq_of s" and "rt_scheduler_lock_nest s' = rt_scheduler_lock_nest s"
    and "rt_interrupt_nest s' = rt_interrupt_nest s"
    and "init_priority (thread_of s' t) = init_priority (thread_of s t)"
proof -
  have inv: "sched_inv s" and q: "queue_inv s" using k by (auto simp: kernel_inv_def sched_inv_def)
  define s1 where "s1 = rt_sched_remove_thread t s"
  obtain v where v: "tst v \<in> {4, 6, 7}"
    and sv: "thread_set_suspend_state t sf s1 = upd_thread t (\<lambda>x. x\<lparr> stat := v \<rparr>) s1"
    using set_suspend_state_eq by blast
  define s2 where "s2 = upd_thread t (\<lambda>x. x\<lparr> stat := v \<rparr>) s1"
  define s3 where "s3 = (case sl of None \<Rightarrow> s2 | Some l \<Rightarrow> rt_susp_list_enqueue l t flags s2)"
  define s4 where "s4 = snd (rt_sched_thread_timer_stop t s3)"
  have q2: "queue_inv s2" and u2: "unlinked s2 t"
    unfolding s2_def s1_def
    by (rule remove_set_inv[OF q]; use v st in \<open>auto simp: stat_defs\<close>)+
  have st2: "thread_state s2 u = (if u = t then tst v else thread_state s u)" for u
    by (simp add: s2_def s1_def thread_state_def remove_thread_fields)
  have sp2: "suspended s2 t" using v st2 by (auto simp: suspended_def)
  have "run_ok s2"
    using inv v unfolding sched_inv_def run_ok_def st2 by (auto simp: s2_def s1_def stat_defs)
  then have i2: "sched_inv s2" using q2 by (simp add: sched_inv_def)
  have i3: "sched_inv s3"
    using i2 enqueue_sched_inv[OF i2 u2 sp2] w by (simp add: s3_def split: option.splits)
  have th3: "thread_of s3 = thread_of s2" by (simp add: s3_def split: option.splits)
  have tm3: "timer_of s3 = timer_of s" by (simp add: s3_def s2_def s1_def split: option.splits)
  have i4: "sched_inv s4" using i3 by (simp add: s4_def timer_stop_sched)
  have th4: "thread_of s4 = (thread_of s)(t := (thread_of s t)\<lparr> stat := v, sched_flag_ttmr_set := False \<rparr>)"
    by (simp add: s4_def timer_stop_fields th3 s2_def s1_def remove_thread_fields)
  have "ttmr_ok s4"
    using k tm3 th4 timer_stop_fields(2)[of _ t s3] st
    by (auto simp: kernel_inv_def ttmr_ok_def suspended_def thread_state_def s4_def)
  then have k4: "kernel_inv s4" using i4 by (simp add: kernel_inv_def)
  have e: "rt_thread_suspend_to_list t sl flags sf s = (RT_EOK, s4)"
    using st unfolding rt_thread_suspend_to_list_def rt_sched_thread_get_stat_def Let_def
      s1_def[symmetric] sv s2_def[symmetric] s3_def[symmetric] s4_def[symmetric]
    by (auto simp: thread_state_def tst_def)
  have ln: "removeAll t (thread_lists s m) = thread_lists s m" if "wait_list m" for m
    using waiter_suspended[OF k that, of t] st suspended_states[of s t] by (intro removeAll_notin) auto
  have pr: "(\<lambda>u. current_priority (thread_of s2 u)) = (\<lambda>u. current_priority (thread_of s u))"
    by (auto simp: s2_def s1_def remove_thread_fields fun_eq_iff)
  have li: "thread_lists s4 m =
      (if sl = Some m then enqueue_order flags (\<lambda>u. current_priority (thread_of s u)) t (thread_lists s m)
       else thread_lists s m)" if "wait_list m" for m
    using ln[OF that] by (auto simp: s4_def timer_stop_sched s3_def enqueue_lists pr split: option.splits)
      (auto simp: s2_def s1_def remove_thread_fields)
  have sp: "suspended s4 t" using v th4 by (auto simp: suspended_def thread_state_def)
  show ?thesis
    by (rule that[OF e k4 sp _ li]) (simp_all add: th4, simp_all add: s4_def s3_def timer_stop_sched s2_def s1_def
        split: option.splits)
qed

section \<open>Timeout\<close>

text \<open>The timeout handler runs when the timer of a suspended thread has fired, so
  the timer is no longer active; every other thread is in order.\<close>

definition ttmr_ok_except :: "tid \<Rightarrow> kstate \<Rightarrow> bool" where
  "ttmr_ok_except t s \<longleftrightarrow> (\<forall>u. u \<noteq> t \<longrightarrow> suspended s u \<longrightarrow> sched_flag_ttmr_set (thread_of s u) \<longrightarrow>
     flag_set (timer_flag (timer_of s (ThreadTimer u))) RT_TIMER_FLAG_ACTIVATED)"

lemma thread_timeout_spec:
  assumes inv: "sched_inv s" and ex: "ttmr_ok_except t s" and sp: "suspended s t"
  shows "kernel_inv (thread_timeout t s)" and "\<not> suspended (thread_timeout t s) t"
    and "thread_error (thread_of (thread_timeout t s) t) = - RT_ETIMEOUT"
    and "wait_list l \<Longrightarrow> thread_lists (thread_timeout t s) l = removeAll t (thread_lists s l)"
    and "timer_of (thread_timeout t s) = timer_of s"
    and "timer_lists (thread_timeout t s) = timer_lists s"
proof -
  let ?f = "\<lambda>x. x\<lparr> thread_error := - RT_ETIMEOUT \<rparr>"
  define s1 where "s1 = upd_thread t ?f s"
  define s2 where "s2 = rt_sched_insert_thread t (unlink_thread t s1)"
  have n: "sched_neutral (thread_of s t) (?f (thread_of s t))" by (simp add: sched_neutral_def)
  have st1: "thread_state s1 u = thread_state s u" for u
    unfolding s1_def by (rule thread_state_cong[of s t ?f, OF n])
  have i1: "sched_inv s1" using inv neutral_inv(3)[of s t ?f, OF n] by (simp add: s1_def)
  have sp1: "suspended s1 t" using sp st1 by (simp add: suspended_def)
  note mr = make_ready_inv[OF i1 sp1, folded s2_def]
  have su: "suspended s2 u \<longleftrightarrow> suspended s u \<and> u \<noteq> t" for u
    using mr(2)[of u] st1[of u] by (auto simp: suspended_def stat_defs)
  have th: "u \<noteq> t \<Longrightarrow> thread_of s2 u = thread_of s u" for u
    by (simp add: s2_def insert_thread_effect s1_def)
  have er: "thread_error (thread_of s2 t) = - RT_ETIMEOUT"
    by (simp add: s2_def insert_thread_effect s1_def)
  have tm: "timer_of s2 = timer_of s" "timer_lists s2 = timer_lists s" by (simp_all add: s2_def s1_def)
  have "ttmr_ok s2" using ex su th tm by (auto simp: ttmr_ok_def ttmr_ok_except_def)
  then have k2: "kernel_inv s2" using mr(1) by (simp add: kernel_inv_def)
  have r: "thread_timeout t s = rt_sched_unlock_n_resched s2"
    by (simp add: thread_timeout_def Let_def s1_def s2_def)
  show "kernel_inv (thread_timeout t s)" unfolding r by (rule resched_kernel_inv[OF k2])
  show "\<not> suspended (thread_timeout t s) t"
    using su schedule_states(1)[OF mr(1), of t] by (simp add: r rt_sched_unlock_n_resched_def)
  show "thread_error (thread_of (thread_timeout t s) t) = - RT_ETIMEOUT"
    using er same_but_stat_simps(1)[OF schedule_same_but_stat[of s2 t]]
    by (simp add: r rt_sched_unlock_n_resched_def)
  show "timer_of (thread_timeout t s) = timer_of s" "timer_lists (thread_timeout t s) = timer_lists s"
    using tm by (simp_all add: r rt_sched_unlock_n_resched_def)
  assume w: "wait_list l"
  have "thread_lists s2 l = removeAll t (thread_lists s l)" using mr(3)[OF w] by (simp add: s1_def)
  then show "thread_lists (thread_timeout t s) l = removeAll t (thread_lists s l)"
    using schedule_states(4)[OF mr(1), of l] w by (simp add: r rt_sched_unlock_n_resched_def)
qed

lemma thread_resume_spec:
  assumes "kernel_inv s"
  shows "kernel_inv (snd (rt_thread_resume t s))"
    and "fst (rt_thread_resume t s) = (if suspended s t then RT_EOK else - RT_EINVAL)"
    and "\<not> suspended (snd (rt_thread_resume t s)) t"
proof -
  have all: "kernel_inv (snd (rt_thread_resume t s)) \<and>
    fst (rt_thread_resume t s) = (if suspended s t then RT_EOK else - RT_EINVAL) \<and>
    \<not> suspended (snd (rt_thread_resume t s)) t"
  proof (cases "suspended s t")
    case True
    note r = ready_effect[OF assms True]
    have inv: "sched_inv s" using assms by (simp add: kernel_inv_def)
    note sp = thread_ready_spec[OF inv r(1)]
    define s' where "s' = snd (rt_sched_thread_ready t s)"
    have s': "sched_inv s'" using sp(1) r(1) by (simp add: s'_def)
    have "thread_state s' t = (if rt_current_thread s = Some t then RT_THREAD_RUNNING else RT_THREAD_READY)"
      using sp(3)[of t] r(1) by (simp add: s'_def)
    then have "\<not> suspended s' t" by (simp add: suspended_def stat_defs)
    then have "\<not> suspended (rt_sched_unlock_n_resched (snd (rt_sched_thread_ready t s))) t"
      using schedule_states(1)[OF s', of t] by (simp add: rt_sched_unlock_n_resched_def s'_def)
    then show ?thesis
      using True r resched_kernel_inv by (simp add: rt_thread_resume_def)
  next
    case False
    then have "rt_sched_thread_ready t s = (- RT_EINVAL, s)"
      by (simp add: rt_sched_thread_ready_def is_suspended_eq)
    then show ?thesis using False assms by (simp add: rt_thread_resume_def RT_EINVAL_def)
  qed
  then show "kernel_inv (snd (rt_thread_resume t s))"
    and "fst (rt_thread_resume t s) = (if suspended s t then RT_EOK else - RT_EINVAL)"
    and "\<not> suspended (snd (rt_thread_resume t s)) t" by auto
qed

section \<open>The wait queue contract\<close>

text \<open>What the IPC objects rely on: waking takes the first waiter of a queue and
  leaves the other queues alone.\<close>

locale wait_queue =
  fixes invar :: "'s \<Rightarrow> bool"
    and queues :: "'q set"
    and waiters :: "'q \<Rightarrow> 's \<Rightarrow> 't list"
    and wake :: "'q \<Rightarrow> 's \<Rightarrow> 't option \<times> 's"
    and blocked :: "'s \<Rightarrow> 't \<Rightarrow> bool"
  assumes wake_none: "invar s \<Longrightarrow> q \<in> queues \<Longrightarrow> waiters q s = [] \<Longrightarrow> wake q s = (None, s)"
    and wake_some: "invar s \<Longrightarrow> q \<in> queues \<Longrightarrow> waiters q s = t # ts \<Longrightarrow>
      fst (wake q s) = Some t \<and> waiters q (snd (wake q s)) = ts \<and> \<not> blocked (snd (wake q s)) t"
    and wake_invar: "invar s \<Longrightarrow> q \<in> queues \<Longrightarrow> invar (snd (wake q s))"
    and wake_other: "invar s \<Longrightarrow> q \<in> queues \<Longrightarrow> p \<in> queues \<Longrightarrow> p \<noteq> q \<Longrightarrow>
      waiters p (snd (wake q s)) = waiters p s"
    and waiters_blocked: "invar s \<Longrightarrow> q \<in> queues \<Longrightarrow> t \<in> set (waiters q s) \<Longrightarrow> blocked s t"
begin

lemma wake_result:
  "invar s \<Longrightarrow> q \<in> queues \<Longrightarrow> fst (wake q s) = (case waiters q s of [] \<Rightarrow> None | t # _ \<Rightarrow> Some t)"
  by (cases "waiters q s") (auto simp: wake_none wake_some)

lemma wake_waiters: "invar s \<Longrightarrow> q \<in> queues \<Longrightarrow> waiters q (snd (wake q s)) = tl (waiters q s)"
  by (cases "waiters q s") (auto simp: wake_none wake_some)

fun wake_n :: "nat \<Rightarrow> 'q \<Rightarrow> 's \<Rightarrow> 't list \<times> 's" where
  "wake_n 0 q s = ([], s)"
| "wake_n (Suc n) q s =
    (case wake q s of (None, s') \<Rightarrow> ([], s')
     | (Some t, s') \<Rightarrow> let (ts, s'') = wake_n n q s' in (t # ts, s''))"

lemma wake_n_order:
  assumes "invar s" and "q \<in> queues"
  shows "fst (wake_n n q s) = take n (waiters q s) \<and> waiters q (snd (wake_n n q s)) = drop n (waiters q s)
    \<and> invar (snd (wake_n n q s))"
  using assms(1)
proof (induction n arbitrary: s)
  case (Suc n)
  obtain r s' where w: "wake q s = (r, s')" by fastforce
  have i: "invar s'" using wake_invar[OF Suc.prems assms(2)] w by simp
  show ?case
  proof (cases "waiters q s")
    case Nil
    then show ?thesis using wake_none[OF Suc.prems assms(2) Nil] Suc.prems by simp
  next
    case (Cons t ts)
    then have "r = Some t" "waiters q s' = ts" using wake_some[OF Suc.prems assms(2) Cons] w by auto
    then show ?thesis using Suc.IH[OF i] w Cons by (auto split: prod.splits)
  qed
qed simp

end

interpretation susp: wait_queue kernel_inv "{l. wait_list l}" "\<lambda>l s. thread_lists s l"
  "\<lambda>l. rt_susp_list_dequeue l RT_EOK" suspended
proof unfold_locales
  fix s :: kstate and q p :: thread_list and t :: tid and ts
  assume k: "kernel_inv s" and w: "q \<in> {l. wait_list l}"
  show "thread_lists s q = [] \<Longrightarrow> rt_susp_list_dequeue q RT_EOK s = (None, s)" by (rule dequeue_empty)
  show "kernel_inv (snd (rt_susp_list_dequeue q RT_EOK s))" using k w by (simp add: dequeue_kernel_inv)
  show "t \<in> set (thread_lists s q) \<Longrightarrow> suspended s t" using k w by (auto dest: waiter_suspended)
  { assume l: "thread_lists s q = t # ts"
    have w': "wait_list q" using w by simp
    show "fst (rt_susp_list_dequeue q RT_EOK s) = Some t \<and>
        thread_lists (snd (rt_susp_list_dequeue q RT_EOK s)) q = ts \<and>
        \<not> suspended (snd (rt_susp_list_dequeue q RT_EOK s)) t"
      by (rule dequeue_first[OF k w' l, of RT_EOK]) (auto simp: suspended_def stat_defs) }
  assume p: "p \<in> {l. wait_list l}" "p \<noteq> q"
  show "thread_lists (snd (rt_susp_list_dequeue q RT_EOK s)) p = thread_lists s p"
  proof (cases "thread_lists s q")
    case Nil
    then show ?thesis by (simp add: dequeue_empty)
  next
    case (Cons u us)
    have w': "wait_list q" using w by simp
    show ?thesis by (rule dequeue_first[OF k w' Cons, of RT_EOK]) (use p in auto)
  qed
qed

section \<open>Thread timers at rest\<close>

text \<open>A thread's built-in timer is a hard thread timer whose callback is not
  running. No operation of a thread changes this.\<close>

definition timer_ready :: "kstate \<Rightarrow> tid \<Rightarrow> bool" where
  "timer_ready s t \<longleftrightarrow>
    flag_set (timer_flag (timer_of s (ThreadTimer t))) RT_TIMER_FLAG_THREAD_TIMER \<and>
    \<not> flag_set (timer_flag (timer_of s (ThreadTimer t))) RT_TIMER_FLAG_SOFT_TIMER \<and>
    \<not> flag_set (timer_flag (timer_of s (ThreadTimer t))) RT_TIMER_FLAG_PROCESSING"

lemma flag_activated [simp]:
  "flag_set (f AND NOT RT_TIMER_FLAG_ACTIVATED) RT_TIMER_FLAG_THREAD_TIMER = flag_set f RT_TIMER_FLAG_THREAD_TIMER"
  "flag_set (f AND NOT RT_TIMER_FLAG_ACTIVATED) RT_TIMER_FLAG_SOFT_TIMER = flag_set f RT_TIMER_FLAG_SOFT_TIMER"
  "flag_set (f AND NOT RT_TIMER_FLAG_ACTIVATED) RT_TIMER_FLAG_PROCESSING = flag_set f RT_TIMER_FLAG_PROCESSING"
  "flag_set (f AND NOT RT_TIMER_FLAG_ACTIVATED) RT_TIMER_FLAG_PERIODIC = flag_set f RT_TIMER_FLAG_PERIODIC"
  "flag_set (f OR RT_TIMER_FLAG_ACTIVATED) RT_TIMER_FLAG_THREAD_TIMER = flag_set f RT_TIMER_FLAG_THREAD_TIMER"
  "flag_set (f OR RT_TIMER_FLAG_ACTIVATED) RT_TIMER_FLAG_SOFT_TIMER = flag_set f RT_TIMER_FLAG_SOFT_TIMER"
  "flag_set (f OR RT_TIMER_FLAG_ACTIVATED) RT_TIMER_FLAG_PROCESSING = flag_set f RT_TIMER_FLAG_PROCESSING"
  "flag_set (f OR RT_TIMER_FLAG_ACTIVATED) RT_TIMER_FLAG_PERIODIC = flag_set f RT_TIMER_FLAG_PERIODIC"
proof -
  have e: "(f AND NOT 1) AND m = f AND m" "(f OR 1) AND m = f AND m" if "\<not> bit m 0" for m :: u8
    using that by (auto intro!: bit_word_eqI simp: bit_and_iff bit_or_iff bit_not_iff u8_bits)
      (metis neq0_conv)+
  have b: "\<not> bit (2 :: u8) 0" "\<not> bit (4 :: u8) 0" "\<not> bit (8 :: u8) 0" "\<not> bit (16 :: u8) 0"
    by (simp_all only: u8_bits)
  show "flag_set (f AND NOT RT_TIMER_FLAG_ACTIVATED) RT_TIMER_FLAG_THREAD_TIMER = flag_set f RT_TIMER_FLAG_THREAD_TIMER"
    "flag_set (f AND NOT RT_TIMER_FLAG_ACTIVATED) RT_TIMER_FLAG_SOFT_TIMER = flag_set f RT_TIMER_FLAG_SOFT_TIMER"
    "flag_set (f AND NOT RT_TIMER_FLAG_ACTIVATED) RT_TIMER_FLAG_PROCESSING = flag_set f RT_TIMER_FLAG_PROCESSING"
    "flag_set (f AND NOT RT_TIMER_FLAG_ACTIVATED) RT_TIMER_FLAG_PERIODIC = flag_set f RT_TIMER_FLAG_PERIODIC"
    "flag_set (f OR RT_TIMER_FLAG_ACTIVATED) RT_TIMER_FLAG_THREAD_TIMER = flag_set f RT_TIMER_FLAG_THREAD_TIMER"
    "flag_set (f OR RT_TIMER_FLAG_ACTIVATED) RT_TIMER_FLAG_SOFT_TIMER = flag_set f RT_TIMER_FLAG_SOFT_TIMER"
    "flag_set (f OR RT_TIMER_FLAG_ACTIVATED) RT_TIMER_FLAG_PROCESSING = flag_set f RT_TIMER_FLAG_PROCESSING"
    "flag_set (f OR RT_TIMER_FLAG_ACTIVATED) RT_TIMER_FLAG_PERIODIC = flag_set f RT_TIMER_FLAG_PERIODIC"
    unfolding flag_set_def timer_flag_defs by (simp_all only: e b not_False_eq_True)
qed

lemma timer_ready_stop [simp]:
  "timer_ready (snd (rt_sched_thread_timer_stop u s)) t = timer_ready s t"
  by (auto simp: timer_ready_def rt_sched_thread_timer_stop_def timer_op_defs)

lemma timer_ready_cong: "timer_of s' = timer_of s \<Longrightarrow> timer_ready s' t = timer_ready s t"
  by (simp add: timer_ready_def)

lemma timer_ready_ready [simp]: "timer_ready (snd (rt_sched_thread_ready u s)) t = timer_ready s t"
proof -
  have "timer_ready (rt_sched_insert_thread u (unlink_thread u s1)) t = timer_ready s1 t" for s1
    by (rule timer_ready_cong) simp
  then show ?thesis
    by (simp add: rt_sched_thread_ready_def case_prod_unfold Let_def)
qed

lemma timer_ready_upd [simp]: "timer_ready (upd_thread u f s) t = timer_ready s t"
  by (simp add: timer_ready_def)

lemma timer_ready_dequeue [simp]: "timer_ready (snd (rt_susp_list_dequeue l e s)) t = timer_ready s t"
  by (simp add: rt_susp_list_dequeue_def case_prod_unfold Let_def split: list.splits)

lemma timer_ready_schedule [simp]: "timer_ready (rt_schedule s) t = timer_ready s t"
  by (rule timer_ready_cong) simp

lemma timer_ready_resume_all [simp]: "timer_ready (rt_susp_list_resume_all l e s) t = timer_ready s t"
  unfolding rt_susp_list_resume_all_def
  by (rule resume_loop_preserves[where f = "\<lambda>s. timer_ready s t"]) simp

lemma timer_ready_suspend [simp]:
  "timer_ready (snd (rt_thread_suspend_to_list u sl fl sf s)) t = timer_ready s t"
proof -
  have "timer_of (thread_set_suspend_state u sf s1) = timer_of s1" for s1
    by (simp add: thread_set_suspend_state_def Let_def)
  then have "timer_ready (case sl of None \<Rightarrow> thread_set_suspend_state u sf (rt_sched_remove_thread u s)
      | Some l \<Rightarrow> rt_susp_list_enqueue l u fl (thread_set_suspend_state u sf (rt_sched_remove_thread u s))) t
      = timer_ready s t"
    by (intro timer_ready_cong) (simp split: option.splits)
  then show ?thesis by (simp add: rt_thread_suspend_to_list_def Let_def)
qed

section \<open>Properties\<close>

text \<open>Suspending a thread on a wait list in priority order keeps the list sorted
  by priority and first-come-first-served within a priority, and the next
  wake-up on that list takes a thread that no waiter beats.\<close>

theorem susp_list_priority_order:
  assumes k: "kernel_inv s" and st: "thread_state s t \<in> {RT_THREAD_READY, RT_THREAD_RUNNING}"
    and w: "wait_list l" and so: "sorted (map (\<lambda>u. current_priority (thread_of s u)) (thread_lists s l))"
  shows "let (r, s') = rt_thread_suspend_to_list t (Some l) RT_IPC_FLAG_PRIO sf s;
             prio = (\<lambda>u. current_priority (thread_of s' u)) in
    r = RT_EOK \<and> kernel_inv s' \<and> suspended s' t
    \<and> thread_lists s' l = takeWhile (\<lambda>u. prio u \<le> prio t) (thread_lists s l) @ t #
                          dropWhile (\<lambda>u. prio u \<le> prio t) (thread_lists s l)
    \<and> sorted (map prio (thread_lists s' l))
    \<and> (\<exists>u. fst (rt_susp_list_dequeue l RT_EOK s') = Some u \<and> \<not> suspended (snd (rt_susp_list_dequeue l RT_EOK s')) u
         \<and> (\<forall>v \<in> set (thread_lists s' l). prio u \<le> prio v))"
proof -
  show ?thesis
  proof (rule suspend_spec[where sl = "Some l" and flags = RT_IPC_FLAG_PRIO and sf = sf, OF k st])
    show "wait_list m" if "Some l = Some m" for m using that w by simp
  next
    fix s'
    assume e: "rt_thread_suspend_to_list t (Some l) RT_IPC_FLAG_PRIO sf s = (RT_EOK, s')"
      and k': "kernel_inv s'" and sp: "suspended s' t"
      and th: "\<And>u. u \<noteq> t \<Longrightarrow> thread_of s' u = thread_of s u"
      and li: "\<And>m. wait_list m \<Longrightarrow> thread_lists s' m =
        (if Some l = Some m then enqueue_order RT_IPC_FLAG_PRIO (\<lambda>u. current_priority (thread_of s u)) t
           (thread_lists s m) else thread_lists s m)"
      and pt: "current_priority (thread_of s' t) = current_priority (thread_of s t)"
    have pr: "current_priority (thread_of s' u) = current_priority (thread_of s u)" for u
      using th[of u] pt by (cases "u = t") auto
    let ?P = "\<lambda>u. current_priority (thread_of s u)"
    have l': "thread_lists s' l = prio_insert ?P t (thread_lists s l)"
      using li[OF w] by (simp add: enqueue_order_def RT_IPC_FLAG_PRIO_def RT_IPC_FLAG_FIFO_def)
    obtain u us where u: "thread_lists s' l = u # us" by (cases "thread_lists s' l") (auto simp: l' prio_insert_split)
    have sd: "sorted (map ?P (thread_lists s' l))" unfolding l' by (rule prio_insert_sorted[OF so])
    have "fst (rt_susp_list_dequeue l RT_EOK s') = Some u" "\<not> suspended (snd (rt_susp_list_dequeue l RT_EOK s')) u"
      using susp.wake_some[OF k' _ u] w by auto
    moreover have "\<forall>v \<in> set (thread_lists s' l). ?P u \<le> ?P v" using sd u by auto
    ultimately show ?thesis
      using e k' sp sd l' prio_insert_split[of ?P t "thread_lists s l"] by (auto simp: pr)
  qed
qed

lemma demo_kernel_inv: "kernel_inv demo_kernel"
proof -
  have "\<not> suspended demo_kernel t" for t by (simp add: suspended_def demo_states stat_defs)
  then show ?thesis using demo_sched_inv by (simp add: kernel_inv_def ttmr_ok_def)
qed

theorem susp_list_priority_order_witness:
  "thread_lists (snd (rt_thread_suspend_to_list 1 (Some (SemQ 3)) RT_IPC_FLAG_PRIO RT_UNINTERRUPTIBLE demo_kernel)) (SemQ 3)
   = [1]"
  using susp_list_priority_order[OF demo_kernel_inv, of 1 "SemQ 3" RT_UNINTERRUPTIBLE] demo_states(1)[of 1]
  by (auto simp: demo_lists Let_def split: prod.splits)

end
