(* ===== verification/Semaphore.thy ===== *)
theory Semaphore
  imports SuspList
begin

text \<open>
  Semaphores (\<open>rt-thread/src/ipc.c\<close>, lines 321 to 820) and \<open>rt_timer_start\<close>, which
  for a soft timer releases the semaphore of the timer thread. A call that
  suspends its caller answers \<open>Blocked\<close> when the scheduler has switched away from
  the caller; the rest of the call is the \<open>_resume\<close> function, executed when the
  thread runs again (at once when the scheduler did not switch).
\<close>

datatype ret = Ret int | Blocked | Fault

text \<open>How a woken thread reads its error number.\<close>

definition wait_result :: "tid \<Rightarrow> kstate \<Rightarrow> int" where
  "wait_result t s =
    (let e = thread_error (thread_of s t)
     in if e \<noteq> RT_EOK then (if e > 0 then - e else e) else RT_EOK)"

text \<open>The call of \<open>rt_schedule\<close> in a thread that has suspended itself, followed by
  the rest \<open>k\<close> of the function if the thread still has the processor.\<close>

definition schedule_and_wait :: "(tid \<Rightarrow> kstate \<Rightarrow> ret \<times> kstate) \<Rightarrow> tid \<Rightarrow> kstate \<Rightarrow> ret \<times> kstate" where
  "schedule_and_wait k t s =
    (let s = rt_schedule s in if rt_thread_self s = Some t then k t s else (Blocked, s))"

section \<open>Operations\<close>

definition upd_sem :: "oid \<Rightarrow> (rt_semaphore \<Rightarrow> rt_semaphore) \<Rightarrow> kstate \<Rightarrow> kstate" where
  "upd_sem i f s = s\<lparr> sem_of := (sem_of s)(i := f (sem_of s i)) \<rparr>"

definition ipc_object_init :: "thread_list \<Rightarrow> kstate \<Rightarrow> kstate" where
  "ipc_object_init l s = s\<lparr> thread_lists := (thread_lists s)(l := []) \<rparr>"

definition sem_object_init :: "oid \<Rightarrow> u16 \<Rightarrow> u8 \<Rightarrow> u16 \<Rightarrow> kstate \<Rightarrow> kstate" where
  "sem_object_init i v flag mx s =
    upd_sem i (\<lambda>x. x\<lparr> sem_max_value := mx, sem_value := v, sem_flag := flag \<rparr>) (ipc_object_init (SemQ i) s)"

definition RT_SEM_VALUE_MAX :: u16 where "RT_SEM_VALUE_MAX = 0xFFFF"

definition rt_sem_init :: "oid \<Rightarrow> byte list \<Rightarrow> u32 \<Rightarrow> u8 \<Rightarrow> kstate \<Rightarrow> int \<times> kstate" where
  "rt_sem_init i name v flag s =
    (let s = s\<lparr> registry := rt_object_init (OSem i) RT_Object_Class_Semaphore name (registry s) \<rparr>
     in (RT_EOK, sem_object_init i (ucast v) flag RT_SEM_VALUE_MAX s))"

definition rt_sem_detach :: "oid \<Rightarrow> kstate \<Rightarrow> int \<times> kstate" where
  "rt_sem_detach i s =
    (let s = rt_susp_list_resume_all (SemQ i) RT_ERROR s
     in (RT_EOK, s\<lparr> registry := rt_object_detach (OSem i) (registry s) \<rparr>))"

definition rt_sem_create :: "oid option \<Rightarrow> byte list \<Rightarrow> u32 \<Rightarrow> u8 \<Rightarrow> kstate \<Rightarrow> oid option \<times> kstate" where
  "rt_sem_create addr name v flag s =
    (case addr of None \<Rightarrow> (None, s)
     | Some i \<Rightarrow>
        let s = s\<lparr> registry := snd (rt_object_allocate (Some (OSem i)) RT_Object_Class_Semaphore name (registry s)) \<rparr>
        in (Some i, sem_object_init i (ucast v) flag RT_SEM_VALUE_MAX s))"

definition rt_sem_delete :: "oid \<Rightarrow> kstate \<Rightarrow> int \<times> kstate" where
  "rt_sem_delete i s =
    (let s = rt_susp_list_resume_all (SemQ i) RT_ERROR s
     in (RT_EOK, s\<lparr> registry := rt_object_delete (OSem i) (registry s) \<rparr>))"

definition rt_sem_release :: "oid \<Rightarrow> kstate \<Rightarrow> int \<times> kstate" where
  "rt_sem_release i s =
    (if thread_lists s (SemQ i) \<noteq> [] then
       let (_, s) = rt_susp_list_dequeue (SemQ i) RT_EOK s
       in (RT_EOK, rt_schedule s)
     else if sem_value (sem_of s i) < sem_max_value (sem_of s i)
     then (RT_EOK, upd_sem i (\<lambda>x. x\<lparr> sem_value := sem_value x + 1 \<rparr>) s)
     else (- RT_EFULL, s))"

text \<open>The semaphore of the timer thread.\<close>

definition soft_timer_sem :: oid where "soft_timer_sem = 0"

definition rt_timer_start :: "timer_id \<Rightarrow> kstate \<Rightarrow> int \<times> kstate" where
  "rt_timer_start tm s =
    (let l = (if flag_set (timer_flag (timer_of s tm)) RT_TIMER_FLAG_SOFT_TIMER then SoftTimers else HardTimers);
         s = (if flag_set (timer_flag (timer_of s tm)) RT_TIMER_FLAG_THREAD_TIMER then
                (case tm of ThreadTimer t \<Rightarrow> rt_sched_thread_timer_start t s | Timer _ \<Rightarrow> s)
              else s);
         (err, s) = timer_start l tm s;
         s = (if err = RT_EOK \<and> flag_set (timer_flag (timer_of s tm)) RT_TIMER_FLAG_SOFT_TIMER
              then snd (rt_sem_release soft_timer_sem s) else s)
     in (err, s))"

text \<open>Arming the caller's timer for a timed wait.\<close>

definition start_wait_timer :: "tid \<Rightarrow> int \<Rightarrow> kstate \<Rightarrow> kstate" where
  "start_wait_timer t timeout s =
    (if timeout > 0 then
       let s = snd (rt_timer_control (ThreadTimer t) (TIMER_CTRL_SET_TIME (word_of_int timeout)) s)
       in snd (rt_timer_start (ThreadTimer t) s)
     else s)"

definition sem_take_resume :: "tid \<Rightarrow> kstate \<Rightarrow> ret \<times> kstate" where
  "sem_take_resume t s = (Ret (wait_result t s), s)"

definition sem_take :: "oid \<Rightarrow> int \<Rightarrow> suspend_flag \<Rightarrow> kstate \<Rightarrow> ret \<times> kstate" where
  "sem_take i timeout sf s =
    (if sem_value (sem_of s i) > 0
     then (Ret RT_EOK, upd_sem i (\<lambda>x. x\<lparr> sem_value := sem_value x - 1 \<rparr>) s)
     else if timeout = 0 then (Ret (- RT_ETIMEOUT), s)
     else case rt_thread_self s of None \<Rightarrow> (Fault, s)
     | Some t \<Rightarrow>
        let s = upd_thread t (\<lambda>x. x\<lparr> thread_error := RT_EINTR \<rparr>) s;
            (ret, s) = rt_thread_suspend_to_list t (Some (SemQ i)) (sem_flag (sem_of s i)) sf s
        in if ret \<noteq> RT_EOK then (Ret ret, s)
           else schedule_and_wait sem_take_resume t (start_wait_timer t timeout s))"

definition rt_sem_take :: "oid \<Rightarrow> int \<Rightarrow> kstate \<Rightarrow> ret \<times> kstate" where
  "rt_sem_take i time s = sem_take i time RT_UNINTERRUPTIBLE s"

definition rt_sem_take_interruptible :: "oid \<Rightarrow> int \<Rightarrow> kstate \<Rightarrow> ret \<times> kstate" where
  "rt_sem_take_interruptible i time s = sem_take i time RT_INTERRUPTIBLE s"

definition rt_sem_take_killable :: "oid \<Rightarrow> int \<Rightarrow> kstate \<Rightarrow> ret \<times> kstate" where
  "rt_sem_take_killable i time s = sem_take i time RT_KILLABLE s"

definition rt_sem_trytake :: "oid \<Rightarrow> kstate \<Rightarrow> ret \<times> kstate" where
  "rt_sem_trytake i s = rt_sem_take i 0 s"

datatype sem_cmd = SEM_RESET u32 | SEM_SET_VLIMIT u32 | SEM_OTHER

definition rt_sem_control :: "oid \<Rightarrow> sem_cmd \<Rightarrow> kstate \<Rightarrow> int \<times> kstate" where
  "rt_sem_control i cmd s =
    (case cmd of
       SEM_RESET v \<Rightarrow>
         let s = rt_susp_list_resume_all (SemQ i) RT_ERROR s;
             s = upd_sem i (\<lambda>x. x\<lparr> sem_value := ucast v \<rparr>) s
         in (RT_EOK, rt_schedule s)
     | SEM_SET_VLIMIT arg \<Rightarrow>
         let mx = ucast arg :: u16 in
         if mx > RT_SEM_VALUE_MAX \<or> mx < 1 then (- RT_EINVAL, s)
         else
           let need_schedule = (mx < sem_value (sem_of s i) \<and> thread_lists s (SemQ i) \<noteq> []);
               s = (if need_schedule then rt_susp_list_resume_all (SemQ i) RT_ERROR s else s);
               s = upd_sem i (\<lambda>x. x\<lparr> sem_max_value := mx \<rparr>) s
           in (RT_EOK, if need_schedule then rt_schedule s else s)
     | SEM_OTHER \<Rightarrow> (- RT_ERROR, s))"

section \<open>Frames\<close>

lemma kernel_inv_cong:
  assumes "thread_lists s' = thread_lists s" and "thread_of s' = thread_of s"
    and "rt_thread_ready_priority_group s' = rt_thread_ready_priority_group s"
    and "rt_current_thread s' = rt_current_thread s" and "timer_of s' = timer_of s"
  shows "kernel_inv s' = kernel_inv s"
  using sched_inv_cong[OF assms(1-4)] assms
  by (simp add: kernel_inv_def ttmr_ok_def suspended_def thread_state_def)

lemma upd_sem_frame [simp]:
  "thread_lists (upd_sem i f s) = thread_lists s" "thread_of (upd_sem i f s) = thread_of s"
  "rt_thread_ready_priority_group (upd_sem i f s) = rt_thread_ready_priority_group s"
  "rt_current_thread (upd_sem i f s) = rt_current_thread s" "timer_of (upd_sem i f s) = timer_of s"
  "timer_lists (upd_sem i f s) = timer_lists s" "rt_tick (upd_sem i f s) = rt_tick s"
  "rt_scheduler_lock_nest (upd_sem i f s) = rt_scheduler_lock_nest s"
  "mutex_of (upd_sem i f s) = mutex_of s" "mailbox_of (upd_sem i f s) = mailbox_of s"
  "mq_of (upd_sem i f s) = mq_of s"
  "sem_of (upd_sem i f s) = (sem_of s)(i := f (sem_of s i))"
  by (simp_all add: upd_sem_def)

lemma upd_sem_inv [simp]:
  "kernel_inv (upd_sem i f s) = kernel_inv s" "timer_ready (upd_sem i f s) t = timer_ready s t"
  "thread_state (upd_sem i f s) t = thread_state s t" "suspended (upd_sem i f s) t = suspended s t"
  using kernel_inv_cong[of "upd_sem i f s" s]
  by (simp_all add: timer_ready_def thread_state_def suspended_def)

section \<open>Timed waits\<close>

lemma start_wait_timer_0: "timeout \<le> 0 \<Longrightarrow> start_wait_timer t timeout s = s"
  by (simp add: start_wait_timer_def)

lemma start_wait_timer_fields:
  assumes r: "timer_ready s t" and pos: "timeout > 0"
  defines "s' \<equiv> start_wait_timer t timeout s"
  shows "thread_lists s' = thread_lists s"
    and "thread_of s' = (thread_of s)(t := (thread_of s t)\<lparr> sched_flag_ttmr_set := True \<rparr>)"
    and "rt_thread_ready_priority_group s' = rt_thread_ready_priority_group s"
    and "rt_current_thread s' = rt_current_thread s"
    and "flag_set (timer_flag (timer_of s' (ThreadTimer t))) RT_TIMER_FLAG_ACTIVATED"
    and "timeout_tick (timer_of s' (ThreadTimer t)) = rt_tick s + word_of_int timeout"
    and "ThreadTimer t \<in> set (timer_lists s' HardTimers)"
    and "u \<noteq> t \<Longrightarrow> timer_of s' (ThreadTimer u) = timer_of s (ThreadTimer u)"
    and "timer_ready s' t"
    and "sem_of s' = sem_of s" and "mutex_of s' = mutex_of s" and "mailbox_of s' = mailbox_of s"
    and "mq_of s' = mq_of s" and "rt_tick s' = rt_tick s"
    and "rt_scheduler_lock_nest s' = rt_scheduler_lock_nest s"
  using r pos
  by (simp_all add: s'_def start_wait_timer_def rt_timer_control_def rt_timer_start_def timer_ready_def
      timer_op_defs rt_sched_thread_timer_start_def rt_tick_get_def)
    (simp_all add: RT_TIMER_FLAG_ACTIVATED_def)

lemma start_wait_timer_spec:
  assumes k: "kernel_inv s" and r: "timer_ready s t"
  shows "kernel_inv (start_wait_timer t timeout s)"
    and "thread_lists (start_wait_timer t timeout s) = thread_lists s"
    and "thread_state (start_wait_timer t timeout s) u = thread_state s u"
    and "thread_view (thread_of (start_wait_timer t timeout s) u) = thread_view (thread_of s u)"
    and "timer_ready (start_wait_timer t timeout s) u = timer_ready s u"
    and "sem_of (start_wait_timer t timeout s) = sem_of s"
    and "mutex_of (start_wait_timer t timeout s) = mutex_of s"
    and "mailbox_of (start_wait_timer t timeout s) = mailbox_of s"
    and "mq_of (start_wait_timer t timeout s) = mq_of s"
    and "rt_current_thread (start_wait_timer t timeout s) = rt_current_thread s"
proof -
  define s' where "s' = start_wait_timer t timeout s"
  have "timeout \<le> 0 \<Longrightarrow> s' = s" by (simp add: s'_def start_wait_timer_0)
  moreover have "kernel_inv s' \<and> thread_lists s' = thread_lists s \<and> (\<forall>u. thread_state s' u = thread_state s u)
      \<and> (\<forall>u. thread_view (thread_of s' u) = thread_view (thread_of s u))
      \<and> (\<forall>u. timer_ready s' u = timer_ready s u) \<and> sem_of s' = sem_of s \<and> mutex_of s' = mutex_of s
      \<and> mailbox_of s' = mailbox_of s \<and> mq_of s' = mq_of s \<and> rt_current_thread s' = rt_current_thread s"
    if "timeout > 0"
  proof -
    note f = start_wait_timer_fields[OF r that, folded s'_def]
    define s1 where "s1 = upd_thread t (\<lambda>x. x\<lparr> sched_flag_ttmr_set := True \<rparr>) s"
    have "sched_inv s1"
      using k neutral_inv(3)[of s t "\<lambda>x. x\<lparr> sched_flag_ttmr_set := True \<rparr>"]
      by (simp add: s1_def kernel_inv_def sched_neutral_def)
    then have i: "sched_inv s'" using sched_inv_cong[of s' s1] f(1-4) by (simp add: s1_def)
    have st: "thread_state s' u = thread_state s u" for u using f(2) by (simp add: thread_state_def)
    have tt: "ttmr_ok s'"
      unfolding ttmr_ok_def
    proof (intro allI impI)
      fix u assume a: "suspended s' u" "sched_flag_ttmr_set (thread_of s' u)"
      show "flag_set (timer_flag (timer_of s' (ThreadTimer u))) RT_TIMER_FLAG_ACTIVATED"
      proof (cases "u = t")
        case False
        have "suspended s u" using a(1) st by (simp add: suspended_def)
        moreover have "sched_flag_ttmr_set (thread_of s u)" using a(2) f(2) False by simp
        ultimately have "flag_set (timer_flag (timer_of s (ThreadTimer u))) RT_TIMER_FLAG_ACTIVATED"
          using k by (simp add: kernel_inv_def ttmr_ok_def)
        then show ?thesis using f(8)[OF False] by simp
      qed (use f(5) in simp)
    qed
    have "timer_ready s' u = timer_ready s u" for u
      using f(8)[of u] f(9) r by (cases "u = t") (auto simp: timer_ready_def)
    moreover have "thread_view (thread_of s' u) = thread_view (thread_of s u)" for u
      using f(2) by (simp add: thread_view_def)
    ultimately show ?thesis using i tt f st by (simp add: kernel_inv_def)
  qed
  ultimately have "kernel_inv s' \<and> thread_lists s' = thread_lists s \<and> thread_state s' u = thread_state s u
      \<and> thread_view (thread_of s' u) = thread_view (thread_of s u)
      \<and> timer_ready s' u = timer_ready s u \<and> sem_of s' = sem_of s \<and> mutex_of s' = mutex_of s
      \<and> mailbox_of s' = mailbox_of s \<and> mq_of s' = mq_of s \<and> rt_current_thread s' = rt_current_thread s"
    using k by (cases "timeout > 0") auto
  then show "kernel_inv (start_wait_timer t timeout s)"
    and "thread_lists (start_wait_timer t timeout s) = thread_lists s"
    and "thread_state (start_wait_timer t timeout s) u = thread_state s u"
    and "thread_view (thread_of (start_wait_timer t timeout s) u) = thread_view (thread_of s u)"
    and "timer_ready (start_wait_timer t timeout s) u = timer_ready s u"
    and "sem_of (start_wait_timer t timeout s) = sem_of s"
    and "mutex_of (start_wait_timer t timeout s) = mutex_of s"
    and "mailbox_of (start_wait_timer t timeout s) = mailbox_of s"
    and "mq_of (start_wait_timer t timeout s) = mq_of s"
    and "rt_current_thread (start_wait_timer t timeout s) = rt_current_thread s"
    by (auto simp: s'_def)
qed

section \<open>Blocking the running thread\<close>

lemma schedule_leaves:
  assumes i: "sched_inv s" and c: "rt_current_thread s = Some t" and sp: "suspended s t"
    and l: "rt_scheduler_lock_nest s = 0" and w: "thread_state s w = RT_THREAD_READY"
  shows "rt_thread_self (rt_schedule s) \<noteq> Some t"
proof -
  have q: "queue_inv s" using i by (simp add: sched_inv_def)
  then have g: "rt_thread_ready_priority_group s \<noteq> 0" using no_ready_iff w by blast
  obtain h p where h: "scheduler_get_highest_priority_thread s = (h, p)" by fastforce
  note rc = rt_schedule_cases[OF i c l g h]
  have "\<not> keeps_cpu s t p" using suspended_states[OF sp] by (simp add: keeps_cpu_def)
  then show ?thesis
    using rc switch_inv(2)[OF i c highest_thread(2)[OF q g h] rc(1), of p] by (simp add: rt_thread_self_def)
qed

text \<open>The state in which a thread may call a blocking service: it is running, the
  scheduler is not locked, its timer is at rest and another thread is ready
  (the idle thread always is).\<close>

definition may_block :: "kstate \<Rightarrow> tid \<Rightarrow> bool" where
  "may_block s t \<longleftrightarrow> rt_current_thread s = Some t \<and> thread_state s t = RT_THREAD_RUNNING \<and>
    rt_scheduler_lock_nest s = 0 \<and> timer_ready s t \<and> (\<exists>w. thread_state s w = RT_THREAD_READY)"

lemma may_block_upd:
  "sched_neutral (thread_of s u) (f (thread_of s u)) \<Longrightarrow> may_block (upd_thread u f s) t = may_block s t"
  by (simp add: may_block_def thread_state_cong)

text \<open>Suspend, arm the timer, switch away: the common core of all blocking calls.\<close>

lemma block_suspends:
  "may_block s t \<Longrightarrow> fst (rt_thread_suspend_to_list t sl flags sf s) = RT_EOK"
  by (simp add: rt_thread_suspend_to_list_def may_block_def thread_state_def tst_def
      rt_sched_thread_get_stat_def Let_def)

lemma block_at:
  fixes sl :: "thread_list option" and flags :: u8 and sf :: suspend_flag and timeout :: int
  assumes k: "kernel_inv s" and mb: "may_block s t" and w: "\<And>l. sl = Some l \<Longrightarrow> wait_list l"
  defines "s1 \<equiv> snd (rt_thread_suspend_to_list t sl flags sf s)"
  defines "s' \<equiv> rt_schedule (start_wait_timer t timeout s1)"
  shows "kernel_inv s'" and "suspended s' t" and "rt_thread_self s' \<noteq> Some t"
    and "schedule_and_wait kont t (start_wait_timer t timeout s1) = (Blocked, s')"
    and "wait_list m \<Longrightarrow> thread_lists s' m =
      (if sl = Some m then enqueue_order flags (\<lambda>u. current_priority (thread_of s u)) t (thread_lists s m)
       else thread_lists s m)"
    and "thread_view (thread_of s' u) = thread_view (thread_of s u)"
    and "timeout > 0 \<Longrightarrow> ThreadTimer t \<in> set (timer_lists s' HardTimers)
      \<and> timeout_tick (timer_of s' (ThreadTimer t)) = rt_tick s + word_of_int timeout"
    and "sem_of s' = sem_of s" and "mutex_of s' = mutex_of s" and "mailbox_of s' = mailbox_of s"
    and "mq_of s' = mq_of s" and "timer_ready s' u = timer_ready s u"
    and "u \<noteq> t \<Longrightarrow> suspended s' u = suspended s u"
    and "timeout > 0 \<Longrightarrow> sched_flag_ttmr_set (thread_of s' t)"
proof -
  have run: "thread_state s t \<in> {RT_THREAD_READY, RT_THREAD_RUNNING}" using mb by (simp add: may_block_def)
  define s2 where "s2 = start_wait_timer t timeout s1"
  obtain x where x: "rt_thread_suspend_to_list t sl flags sf s = (RT_EOK, x)" "kernel_inv x"
    "suspended x t" "\<And>u. u \<noteq> t \<Longrightarrow> thread_of x u = thread_of s u"
    "\<And>m. wait_list m \<Longrightarrow> thread_lists x m =
      (if sl = Some m then enqueue_order flags (\<lambda>u. current_priority (thread_of s u)) t (thread_lists s m)
       else thread_lists s m)"
    "thread_view (thread_of x t) = thread_view (thread_of s t)"
    "rt_current_thread x = rt_current_thread s" "rt_tick x = rt_tick s" "sem_of x = sem_of s"
    "mutex_of x = mutex_of s" "mailbox_of x = mailbox_of s" "mq_of x = mq_of s"
    "rt_scheduler_lock_nest x = rt_scheduler_lock_nest s"
    by (rule suspend_spec[OF k run w, where flags = flags and sf = sf and sl = sl]) (auto simp: thread_view_def)
  have s1: "s1 = x" using x(1) by (simp add: s1_def)
  have tr: "timer_ready s1 u = timer_ready s u" for u by (simp add: s1_def)
  have trt: "timer_ready s1 t" using tr mb by (simp add: may_block_def)
  note sw = start_wait_timer_spec[OF x(2)[folded s1] trt, where timeout = timeout, folded s2_def]
  have i2: "sched_inv s2" using sw(1) by (simp add: kernel_inv_def)
  have sp2: "suspended s2 u = suspended s1 u" for u using sw(3) by (simp add: suspended_def)
  have lock2: "rt_scheduler_lock_nest s2 = 0"
    using start_wait_timer_0[of timeout t s1] start_wait_timer_fields(15)[OF trt, of timeout] mb x s1
    by (cases "timeout > 0") (auto simp: s2_def may_block_def)
  obtain v where v: "thread_state s v = RT_THREAD_READY" using mb by (auto simp: may_block_def)
  then have vt: "v \<noteq> t" using mb by (auto simp: may_block_def)
  have v2: "thread_state s2 v = RT_THREAD_READY"
    using sw(3)[of v] v x(4)[OF vt] s1 by (simp add: thread_state_def)
  have c2: "rt_current_thread s2 = Some t" using sw(10) x(7) s1 mb by (simp add: may_block_def)
  have s': "s' = rt_schedule s2" by (simp add: s'_def s2_def)
  show self: "rt_thread_self s' \<noteq> Some t"
    unfolding s' by (rule schedule_leaves[OF i2 c2 _ lock2 v2]) (simp add: sp2 s1 x(3))
  then show "schedule_and_wait kont t (start_wait_timer t timeout s1) = (Blocked, s')"
    by (simp add: schedule_and_wait_def s' s2_def)
  show "kernel_inv s'" unfolding s' by (rule schedule_kernel_inv[OF sw(1)])
  show "suspended s' t" using schedule_states(1)[OF i2] sp2 x(3) s1 by (simp add: s')
  show "suspended s' u = suspended s u" if "u \<noteq> t"
    using schedule_states(1)[OF i2] sp2 x(4)[OF that] s1 by (simp add: s' suspended_def thread_state_def)
  show "wait_list m \<Longrightarrow> thread_lists s' m =
      (if sl = Some m then enqueue_order flags (\<lambda>u. current_priority (thread_of s u)) t (thread_lists s m)
       else thread_lists s m)"
    using schedule_states(4)[OF i2, of m] x(5)[of m] sw(2) s1 by (auto simp: s')
  show "thread_view (thread_of s' u) = thread_view (thread_of s u)"
    using same_but_stat_view[OF schedule_same_but_stat[of s2 u]] sw(4)[of u] x(4)[of u] x(6) s1
    by (cases "u = t") (auto simp: s')
  show "sem_of s' = sem_of s" "mutex_of s' = mutex_of s" "mailbox_of s' = mailbox_of s" "mq_of s' = mq_of s"
    using sw(6-9) x(9-12) s1 by (auto simp: s')
  show "timer_ready s' u = timer_ready s u" using sw(5) tr by (simp add: s')
  assume to: "timeout > 0"
  show "sched_flag_ttmr_set (thread_of s' t)"
    using start_wait_timer_fields(2)[OF trt to] same_but_stat_simps(2)[OF schedule_same_but_stat[of s2 t]]
    by (simp add: s' s2_def)
  from start_wait_timer_fields(6,7)[OF trt to, folded s2_def]
  show "ThreadTimer t \<in> set (timer_lists s' HardTimers)
      \<and> timeout_tick (timer_of s' (ThreadTimer t)) = rt_tick s + word_of_int timeout"
    using x(8) s1 by (simp add: s')
qed

lemma block_spec:
  fixes flags :: u8 and sf :: suspend_flag and timeout :: int
  assumes k: "kernel_inv s" and mb: "may_block s t" and w: "wait_list l"
  defines "s1 \<equiv> snd (rt_thread_suspend_to_list t (Some l) flags sf s)"
  defines "s' \<equiv> rt_schedule (start_wait_timer t timeout s1)"
  shows "kernel_inv s'" and "suspended s' t" and "rt_thread_self s' \<noteq> Some t"
    and "schedule_and_wait kont t (start_wait_timer t timeout s1) = (Blocked, s')"
    and "wait_list m \<Longrightarrow> thread_lists s' m =
      (if m = l then enqueue_order flags (\<lambda>u. current_priority (thread_of s u)) t (thread_lists s l)
       else thread_lists s m)"
    and "thread_view (thread_of s' u) = thread_view (thread_of s u)"
    and "timeout > 0 \<Longrightarrow> ThreadTimer t \<in> set (timer_lists s' HardTimers)
      \<and> timeout_tick (timer_of s' (ThreadTimer t)) = rt_tick s + word_of_int timeout"
    and "sem_of s' = sem_of s" and "mutex_of s' = mutex_of s" and "mailbox_of s' = mailbox_of s"
    and "mq_of s' = mq_of s" and "timer_ready s' u = timer_ready s u"
    and "u \<noteq> t \<Longrightarrow> suspended s' u = suspended s u"
    and "timeout > 0 \<Longrightarrow> sched_flag_ttmr_set (thread_of s' t)"
proof -
  have w': "\<And>l'. Some l = Some l' \<Longrightarrow> wait_list l'" using w by simp
  note b = block_at[OF k mb, where sl = "Some l" and flags = flags and sf = sf and timeout = timeout, folded s1_def, folded s'_def]
  show "wait_list m \<Longrightarrow> thread_lists s' m =
      (if m = l then enqueue_order flags (\<lambda>u. current_priority (thread_of s u)) t (thread_lists s l)
       else thread_lists s m)" using b(5)[where m = m, OF w'] by auto
qed (rule block_at[OF k mb, where sl = "Some l" and flags = flags and sf = sf and timeout = timeout, folded s1_def, folded s'_def]; use w in simp)+

section \<open>Semaphore invariant\<close>

text \<open>Nobody waits for a semaphore that has a token.\<close>

definition sem_inv :: "kstate \<Rightarrow> bool" where
  "sem_inv s \<longleftrightarrow> (\<forall>i. thread_lists s (SemQ i) \<noteq> [] \<longrightarrow> sem_value (sem_of s i) = 0)"

lemma sem_inv_mono:
  assumes "sem_inv s" and "\<And>i. thread_lists s (SemQ i) = [] \<Longrightarrow> thread_lists s' (SemQ i) = []"
    and "sem_of s' = sem_of s"
  shows "sem_inv s'"
  using assms by (metis sem_inv_def)

text \<open>Handing over to the first waiter of a queue, then rescheduling.\<close>

lemma dequeue_schedule:
  fixes e :: int
  assumes k: "kernel_inv s" and w: "wait_list l" and l: "thread_lists s l = t # ts"
  defines "s' \<equiv> rt_schedule (snd (rt_susp_list_dequeue l e s))"
  shows "fst (rt_susp_list_dequeue l e s) = Some t" and "kernel_inv s'"
    and "wait_list m \<Longrightarrow> thread_lists s' m = (if m = l then ts else thread_lists s m)"
    and "\<not> suspended s' t" and "e \<ge> 0 \<Longrightarrow> thread_error (thread_of s' t) = e"
    and "u \<noteq> t \<Longrightarrow> suspended s' u = suspended s u"
    and "u \<noteq> t \<Longrightarrow> thread_view (thread_of s' u) = thread_view (thread_of s u)"
proof -
  obtain x where x: "rt_susp_list_dequeue l e s = (Some t, x)" "kernel_inv x" "thread_lists x l = ts"
    "\<And>m. wait_list m \<Longrightarrow> m \<noteq> l \<Longrightarrow> thread_lists x m = thread_lists s m"
    "\<And>u. thread_state x u = (if u = t then if rt_current_thread s = Some t then RT_THREAD_RUNNING
       else RT_THREAD_READY else thread_state s u)"
    "\<And>u. u \<noteq> t \<Longrightarrow> thread_of x u = thread_of s u"
    "thread_error (thread_of x t) = (if e \<ge> 0 then e else thread_error (thread_of s t))"
    by (rule dequeue_first[OF k w l, of e]) blast
  have i: "sched_inv x" using x(2) by (simp add: kernel_inv_def)
  have s': "s' = rt_schedule x" by (simp add: s'_def x(1))
  note v = same_but_stat_view[OF schedule_same_but_stat[of x]]
  show "fst (rt_susp_list_dequeue l e s) = Some t" by (simp add: x(1))
  show "kernel_inv s'" unfolding s' by (rule schedule_kernel_inv[OF x(2)])
  show "wait_list m \<Longrightarrow> thread_lists s' m = (if m = l then ts else thread_lists s m)"
    using schedule_states(4)[OF i, of m] x(3,4) w by (auto simp: s')
  have "\<not> suspended x t" using x(5)[of t] by (auto simp: suspended_def stat_defs)
  then show "\<not> suspended s' t" using schedule_states(1)[OF i] by (simp add: s')
  show "e \<ge> 0 \<Longrightarrow> thread_error (thread_of s' t) = e" using v[of t] x(7) by (simp add: s' thread_view_def)
  assume u: "u \<noteq> t"
  show "suspended s' u = suspended s u" using schedule_states(1)[OF i] x(5)[of u] u by (simp add: s' suspended_def)
  show "thread_view (thread_of s' u) = thread_view (thread_of s u)" using v[of u] x(6)[OF u] by (simp add: s')
qed

lemma sem_release_empty:
  "thread_lists s (SemQ i) = [] \<Longrightarrow> rt_sem_release i s =
    (if sem_value (sem_of s i) < sem_max_value (sem_of s i)
     then (RT_EOK, upd_sem i (\<lambda>x. x\<lparr> sem_value := sem_value x + 1 \<rparr>) s) else (- RT_EFULL, s))"
  by (simp add: rt_sem_release_def)

lemma sem_release_waiter:
  "thread_lists s (SemQ i) \<noteq> [] \<Longrightarrow> rt_sem_release i s =
    (RT_EOK, rt_schedule (snd (rt_susp_list_dequeue (SemQ i) RT_EOK s)))"
  by (simp add: rt_sem_release_def case_prod_unfold)

lemma sem_release_inv:
  assumes "kernel_inv s"
  shows "kernel_inv (snd (rt_sem_release i s))" and "sem_inv s \<Longrightarrow> sem_inv (snd (rt_sem_release i s))"
    and "timer_ready (snd (rt_sem_release i s)) u = timer_ready s u"
proof -
  note d = dequeue_schedule[OF assms, of "SemQ i", where e = RT_EOK]
  show "kernel_inv (snd (rt_sem_release i s))"
    using assms d(2) by (cases "thread_lists s (SemQ i)") (auto simp: sem_release_empty sem_release_waiter)
  show "timer_ready (snd (rt_sem_release i s)) u = timer_ready s u"
    by (cases "thread_lists s (SemQ i)") (auto simp: sem_release_empty sem_release_waiter)
  assume si: "sem_inv s"
  show "sem_inv (snd (rt_sem_release i s))"
  proof (cases "thread_lists s (SemQ i)")
    case Nil
    then show ?thesis using si by (auto simp: sem_release_empty sem_inv_def)
  next
    case (Cons t ts)
    then show ?thesis
      by (intro sem_inv_mono[OF si]) (auto simp: sem_release_waiter d(3))
  qed
qed

lemma take_error_state:
  fixes e :: int
  assumes "kernel_inv s" and "may_block s t"
  defines "s0 \<equiv> upd_thread t (\<lambda>x. x\<lparr> thread_error := e \<rparr>) s"
  shows "kernel_inv s0" and "may_block s0 t"
  using assms neutral_kernel_inv[of s t "\<lambda>x. x\<lparr> thread_error := e \<rparr>"]
    may_block_upd[of s t "\<lambda>x. x\<lparr> thread_error := e \<rparr>" t]
  by (simp_all add: s0_def sched_neutral_def)

lemma enqueue_order_simps:
  "flags = RT_IPC_FLAG_FIFO \<Longrightarrow> enqueue_order flags P t xs = xs @ [t]"
  "flags = RT_IPC_FLAG_PRIO \<Longrightarrow> enqueue_order flags P t xs = prio_insert P t xs"
  by (simp_all add: enqueue_order_def RT_IPC_FLAG_FIFO_def RT_IPC_FLAG_PRIO_def)

lemma sem_take_blocks:
  assumes k: "kernel_inv s" and mb: "may_block s t" and z: "sem_value (sem_of s i) = 0"
    and to: "timeout \<noteq> 0"
  shows "fst (sem_take i timeout sf s) = Blocked" and "kernel_inv (snd (sem_take i timeout sf s))"
    and "suspended (snd (sem_take i timeout sf s)) t"
    and "sem_of (snd (sem_take i timeout sf s)) = sem_of s"
    and "wait_list m \<Longrightarrow> thread_lists (snd (sem_take i timeout sf s)) m =
      (if m = SemQ i then enqueue_order (sem_flag (sem_of s i)) (\<lambda>u. current_priority (thread_of s u)) t
        (thread_lists s m) else thread_lists s m)"
    and "thread_error (thread_of (snd (sem_take i timeout sf s)) t) = RT_EINTR"
    and "timeout > 0 \<Longrightarrow> ThreadTimer t \<in> set (timer_lists (snd (sem_take i timeout sf s)) HardTimers)
      \<and> timeout_tick (timer_of (snd (sem_take i timeout sf s)) (ThreadTimer t)) = rt_tick s + word_of_int timeout"
    and "timeout > 0 \<Longrightarrow> sched_flag_ttmr_set (thread_of (snd (sem_take i timeout sf s)) t)"
proof -
  define s0 where "s0 = upd_thread t (\<lambda>x. x\<lparr> thread_error := RT_EINTR \<rparr>) s"
  define F where "F = sem_flag (sem_of s i)"
  note b0 = take_error_state[OF k mb, of RT_EINTR, folded s0_def]
  note b = block_spec[OF b0 wait_list_simps(3)[of i], where flags = F and sf = sf and timeout = timeout]
  define x where "x = rt_schedule (start_wait_timer t timeout (snd (rt_thread_suspend_to_list t (Some (SemQ i)) F sf s0)))"
  have self: "rt_thread_self s = Some t" using mb by (simp add: may_block_def rt_thread_self_def)
  have s0s: "sem_of s0 = sem_of s" by (simp add: s0_def)
  have e: "sem_take i timeout sf s = (Blocked, x)"
    using z to self block_suspends[OF b0(2)] b(4)[of sem_take_resume]
    by (simp add: sem_take_def Let_def s0_def[symmetric] s0s F_def[symmetric] case_prod_unfold x_def)
  have pr: "(\<lambda>u. current_priority (thread_of s0 u)) = (\<lambda>u. current_priority (thread_of s u))"
    by (auto simp: s0_def fun_eq_iff)
  note b' = b[folded x_def]
  show "fst (sem_take i timeout sf s) = Blocked" "kernel_inv (snd (sem_take i timeout sf s))"
    "suspended (snd (sem_take i timeout sf s)) t" "sem_of (snd (sem_take i timeout sf s)) = sem_of s"
    using b'(1,2,8) s0s by (simp_all add: e)
  show "thread_error (thread_of (snd (sem_take i timeout sf s)) t) = RT_EINTR"
    using b'(6)[of t] by (simp add: e thread_view_def) (simp add: s0_def)
  show "wait_list m \<Longrightarrow> thread_lists (snd (sem_take i timeout sf s)) m =
      (if m = SemQ i then enqueue_order (sem_flag (sem_of s i)) (\<lambda>u. current_priority (thread_of s u)) t
        (thread_lists s m) else thread_lists s m)"
    using b'(5)[of m] by (simp add: e pr F_def) (simp add: s0_def)
  show "timeout > 0 \<Longrightarrow> ThreadTimer t \<in> set (timer_lists (snd (sem_take i timeout sf s)) HardTimers)
      \<and> timeout_tick (timer_of (snd (sem_take i timeout sf s)) (ThreadTimer t)) = rt_tick s + word_of_int timeout"
    using b'(7) by (simp add: e) (simp add: s0_def)
  show "timeout > 0 \<Longrightarrow> sched_flag_ttmr_set (thread_of (snd (sem_take i timeout sf s)) t)"
    using b'(14) by (simp add: e)
qed

section \<open>When the timer fires first\<close>

text \<open>What the timer check does with a due thread timer: remove it from its list,
  clear its active flag and call the handler.\<close>

definition fire_thread_timer :: "tid \<Rightarrow> kstate \<Rightarrow> kstate" where
  "fire_thread_timer t s =
    thread_timeout t (clear_tflag (ThreadTimer t) RT_TIMER_FLAG_ACTIVATED (timer_remove (ThreadTimer t) s))"

lemma thread_timeout_frame [simp]:
  "sem_of (thread_timeout t s) = sem_of s" "mutex_of (thread_timeout t s) = mutex_of s"
  "mailbox_of (thread_timeout t s) = mailbox_of s" "mq_of (thread_timeout t s) = mq_of s"
  by (simp_all add: thread_timeout_def rt_sched_unlock_n_resched_def Let_def)

lemma fire_thread_timer_spec:
  assumes k: "kernel_inv s" and sp: "suspended s t"
  shows "kernel_inv (fire_thread_timer t s)" and "\<not> suspended (fire_thread_timer t s) t"
    and "wait_result t (fire_thread_timer t s) = - RT_ETIMEOUT"
    and "wait_list l \<Longrightarrow> thread_lists (fire_thread_timer t s) l = removeAll t (thread_lists s l)"
    and "sem_of (fire_thread_timer t s) = sem_of s" and "mutex_of (fire_thread_timer t s) = mutex_of s"
    and "mailbox_of (fire_thread_timer t s) = mailbox_of s" and "mq_of (fire_thread_timer t s) = mq_of s"
    and "thread_error (thread_of (fire_thread_timer t s) t) = - RT_ETIMEOUT"
proof -
  define s1 where "s1 = clear_tflag (ThreadTimer t) RT_TIMER_FLAG_ACTIVATED (timer_remove (ThreadTimer t) s)"
  have f: "thread_lists s1 = thread_lists s" "thread_of s1 = thread_of s" "sem_of s1 = sem_of s"
    "mutex_of s1 = mutex_of s" "mailbox_of s1 = mailbox_of s" "mq_of s1 = mq_of s"
    "rt_thread_ready_priority_group s1 = rt_thread_ready_priority_group s"
    "rt_current_thread s1 = rt_current_thread s"
    and tm: "u \<noteq> t \<Longrightarrow> timer_of s1 (ThreadTimer u) = timer_of s (ThreadTimer u)" for u
    by (simp_all add: s1_def timer_op_defs)
  have st: "suspended s1 = suspended s" using f(2) by (auto simp: suspended_def thread_state_def fun_eq_iff)
  have i: "sched_inv s1" using k sched_inv_cong[OF f(1,2,7,8)] by (simp add: kernel_inv_def)
  have x: "ttmr_ok_except t s1"
    using k tm unfolding kernel_inv_def ttmr_ok_def ttmr_ok_except_def st f(2) by simp
  note t = thread_timeout_spec[OF i x, unfolded st, OF sp]
  have e: "fire_thread_timer t s = thread_timeout t s1" by (simp add: fire_thread_timer_def s1_def)
  show "kernel_inv (fire_thread_timer t s)" "\<not> suspended (fire_thread_timer t s) t"
    using t(1,2) by (simp_all add: e)
  show "thread_error (thread_of (fire_thread_timer t s) t) = - RT_ETIMEOUT" using t(3) by (simp add: e)
  show "wait_result t (fire_thread_timer t s) = - RT_ETIMEOUT"
    using t(3) by (simp add: e wait_result_def RT_ETIMEOUT_def RT_EOK_def)
  show "thread_lists (fire_thread_timer t s) l = removeAll t (thread_lists s l)" if "wait_list l"
    using t(4)[OF that] f(1) by (simp add: e)
  show "sem_of (fire_thread_timer t s) = sem_of s" "mutex_of (fire_thread_timer t s) = mutex_of s"
    "mailbox_of (fire_thread_timer t s) = mailbox_of s" "mq_of (fire_thread_timer t s) = mq_of s"
    using f by (simp_all add: e)
qed

lemma demo_sem: "sem_of demo_kernel i = \<lparr> sem_flag = RT_IPC_FLAG_PRIO, sem_value = 0, sem_max_value = 0xFFFF \<rparr>"
  by (simp add: demo_kernel_def)

lemma demo_timer_ready: "timer_ready demo_kernel t"
  by (simp add: timer_ready_def demo_kernel_def idle_timer_def timer_flag_defs flag_set_def)

lemma demo_may_block: "may_block demo_kernel 1"
  using demo_states(1)[of 1] demo_states(1)[of 0] demo_timer_ready by (auto simp: may_block_def demo_lists)

section \<open>Properties\<close>

text \<open>C6: releasing a semaphore either hands the token to the first waiter, which
  leaves the queue and will return \<open>RT_EOK\<close> from its take while the count stays
  unchanged, or adds exactly one to the count (it never wraps), or answers
  \<open>-RT_EFULL\<close> with no effect when the count is at its limit. The kernel invariant is
  kept, and so is the rule that nobody waits for a semaphore that has a token.\<close>

theorem sem_release_behaviour:
  assumes k: "kernel_inv s" and si: "sem_inv s"
  shows "let (r, s') = rt_sem_release i s; sem = sem_of s i in
    kernel_inv s' \<and> sem_inv s' \<and>
    (case thread_lists s (SemQ i) of
       t # ts \<Rightarrow> r = RT_EOK \<and> sem_of s' = sem_of s \<and> thread_lists s' (SemQ i) = ts
         \<and> \<not> suspended s' t \<and> fst (sem_take_resume t s') = Ret RT_EOK
     | [] \<Rightarrow>
         if sem_value sem < sem_max_value sem
         then r = RT_EOK \<and> unat (sem_value (sem_of s' i)) = unat (sem_value sem) + 1
           \<and> (\<forall>j. j \<noteq> i \<longrightarrow> sem_of s' j = sem_of s j) \<and> thread_lists s' = thread_lists s \<and> thread_of s' = thread_of s
         else r = - RT_EFULL \<and> s' = s)"
proof (cases "thread_lists s (SemQ i)")
  case Nil
  then show ?thesis
    using sem_release_inv(1,2)[OF k, of i] si k by (auto simp: sem_release_empty unat_incr_below)
next
  case (Cons t ts)
  note d = dequeue_schedule[OF k wait_list_simps(3) Cons, where e = RT_EOK]
  show ?thesis
    using sem_release_inv(1,2)[OF k, of i] si Cons d(3)[of "SemQ i"] d(4,5)
    by (simp add: sem_release_waiter sem_take_resume_def wait_result_def RT_EOK_def)
qed

theorem sem_release_behaviour_witness:
  "unat (sem_value (sem_of (snd (rt_sem_release 0 demo_kernel)) 0)) = 1 \<and> sem_inv (snd (rt_sem_release 0 demo_kernel))"
proof -
  have "sem_inv demo_kernel" by (simp add: sem_inv_def demo_lists)
  from sem_release_behaviour[OF demo_kernel_inv this, of 0] show ?thesis
    by (simp add: demo_lists Let_def demo_sem split: prod.splits)
qed

text \<open>C5: taking a semaphore removes exactly one token when there is one; without a
  token and with a zero timeout it answers \<open>-RT_ETIMEOUT\<close> with no effect; otherwise
  the caller is suspended and loses the processor, it is queued behind the waiters
  the queue discipline puts before it, and with a positive timeout its timer is
  armed for that tick. Invariants are kept, and if the timer fires first the
  caller leaves the queue and returns \<open>-RT_ETIMEOUT\<close>.\<close>

theorem sem_take_behaviour:
  assumes k: "kernel_inv s" and si: "sem_inv s" and mb: "may_block s t"
  shows "let (r, s') = sem_take i timeout sf s; sem = sem_of s i; fired = fire_thread_timer t s' in
    kernel_inv s' \<and> sem_inv s' \<and>
    (if sem_value sem > 0 then r = Ret RT_EOK \<and> s' = upd_sem i (\<lambda>x. x\<lparr> sem_value := sem_value x - 1 \<rparr>) s
     else if timeout = 0 then r = Ret (- RT_ETIMEOUT) \<and> s' = s
     else r = Blocked \<and> sem_of s' = sem_of s \<and> suspended s' t
       \<and> thread_lists s' (SemQ i) = enqueue_order (sem_flag sem)
           (\<lambda>u. current_priority (thread_of s u)) t (thread_lists s (SemQ i))
       \<and> (timeout > 0 \<longrightarrow> ThreadTimer t \<in> set (timer_lists s' HardTimers)
            \<and> timeout_tick (timer_of s' (ThreadTimer t)) = rt_tick s + word_of_int timeout)
       \<and> fst (sem_take_resume t fired) = Ret (- RT_ETIMEOUT) \<and> kernel_inv fired \<and> sem_inv fired
       \<and> thread_lists fired (SemQ i) = removeAll t (thread_lists s' (SemQ i)))"
proof (cases "sem_value (sem_of s i) > 0 \<or> timeout = 0")
  case True
  have "sem_inv (upd_sem i (\<lambda>x. x\<lparr> sem_value := sem_value x - 1 \<rparr>) s)" if "sem_value (sem_of s i) > 0"
    using si that by (auto simp: sem_inv_def)
  then show ?thesis using True k si by (auto simp: sem_take_def)
next
  case False
  then have z: "sem_value (sem_of s i) = 0" and to: "timeout \<noteq> 0" by (auto simp: word_less_nat_alt unat_eq_0)
  define s' where "s' = snd (sem_take i timeout sf s)"
  note b = sem_take_blocks[OF k mb z to, where sf = sf, folded s'_def]
  note f = fire_thread_timer_spec[OF b(2,3)]
  have si': "sem_inv s'" using si z b(4) b(5)[of "SemQ _"] by (auto simp: sem_inv_def split: if_splits)
  have si'': "sem_inv (fire_thread_timer t s')"
    by (rule sem_inv_mono[OF si']) (auto simp: f)
  have "sem_take i timeout sf s = (Blocked, s')" using b(1) by (simp add: s'_def prod_eq_iff)
  then show ?thesis
    using z to b si' si'' f(1,3) f(4)[of "SemQ i"] by (simp add: sem_take_resume_def)
qed

theorem sem_take_behaviour_witness:
  "fst (sem_take 0 100 RT_UNINTERRUPTIBLE demo_kernel) = Blocked
   \<and> thread_lists (snd (sem_take 0 100 RT_UNINTERRUPTIBLE demo_kernel)) (SemQ 0) = [1]"
proof -
  have "sem_inv demo_kernel" by (simp add: sem_inv_def demo_lists)
  from sem_take_behaviour[OF demo_kernel_inv this demo_may_block, of 0 100 RT_UNINTERRUPTIBLE] show ?thesis
    by (auto simp: demo_lists Let_def demo_sem enqueue_order_simps split: prod.splits)
qed

text \<open>Resetting, detaching or deleting a semaphore wakes every waiter with an
  error, leaves its queue empty, keeps the invariants, and a reset sets the count
  to the low 16 bits of its argument.\<close>

theorem sem_reset_wakes_all:
  assumes k: "kernel_inv s" and si: "sem_inv s" and t: "t \<in> set (thread_lists s (SemQ i))"
    and s': "s' \<in> {snd (rt_sem_control i (SEM_RESET v) s), snd (rt_sem_detach i s), snd (rt_sem_delete i s)}"
  shows "kernel_inv s' \<and> sem_inv s' \<and> thread_lists s' (SemQ i) = [] \<and> \<not> suspended s' t
    \<and> fst (sem_take_resume t s') = Ret (- RT_ERROR)
    \<and> sem_value (sem_of (snd (rt_sem_control i (SEM_RESET v) s)) i) = ucast v"
proof -
  define x where "x = rt_susp_list_resume_all (SemQ i) RT_ERROR s"
  define y where "y = upd_sem i (\<lambda>z. z\<lparr> sem_value := ucast v \<rparr>) x"
  have a: "kernel_inv x" "thread_lists x (SemQ i) = []" "\<not> suspended x t"
    "thread_error (thread_of x t) = RT_ERROR"
    "\<And>m. wait_list m \<Longrightarrow> m \<noteq> SemQ i \<Longrightarrow> thread_lists x m = thread_lists s m"
    using resume_all[OF k, of "SemQ i" RT_ERROR] t by (auto simp: x_def RT_ERROR_def)
  have sx: "sem_of x = sem_of s" by (simp add: x_def)
  have "thread_lists x (SemQ j) = (if j = i then [] else thread_lists s (SemQ j))" for j
    using a(2) a(5)[of "SemQ j"] by simp
  then have inv: "sem_inv x" "sem_inv y" using si by (auto simp: sem_inv_def y_def sx)
  have ky: "kernel_inv y" using a(1) by (simp add: y_def)
  then have iy: "sched_inv y" by (simp add: kernel_inv_def)
  have "kernel_inv (rt_schedule y)" by (rule schedule_kernel_inv[OF ky])
  moreover have "sem_inv (rt_schedule y)"
    by (rule sem_inv_mono[OF inv(2)]) (use schedule_states(4)[OF iy] in auto)
  moreover have "thread_lists (rt_schedule y) (SemQ i) = []"
    using schedule_states(4)[OF iy, of "SemQ i"] a(2) by (simp add: y_def)
  moreover have "\<not> suspended (rt_schedule y) t" using schedule_states(1)[OF iy] a(3) by (simp add: y_def)
  moreover have "thread_error (thread_of (rt_schedule y) t) = RT_ERROR"
    using same_but_stat_simps(1)[OF schedule_same_but_stat[of y t]] a(4) by (simp add: y_def)
  moreover have c: "rt_sem_control i (SEM_RESET v) s = (RT_EOK, rt_schedule y)"
    by (simp add: rt_sem_control_def Let_def x_def y_def)
  moreover have "sem_value (sem_of y i) = ucast v" by (simp add: y_def)
  moreover have "kernel_inv (x\<lparr> registry := r \<rparr>)" for r
    using a(1) kernel_inv_cong[of "x\<lparr> registry := r \<rparr>" x] by simp
  moreover have "sem_inv (x\<lparr> registry := r \<rparr>)" for r using inv(1) by (simp add: sem_inv_def)
  moreover have "\<not> suspended (x\<lparr> registry := r \<rparr>) t" for r
    using a(3) by (simp add: suspended_def thread_state_def)
  moreover have "s' = rt_schedule y \<or> (\<exists>r. s' = x\<lparr> registry := r \<rparr>)"
    using s' c by (auto simp: rt_sem_detach_def rt_sem_delete_def x_def Let_def)
  ultimately show ?thesis
    using a(2,4) by (auto simp: sem_take_resume_def wait_result_def RT_ERROR_def RT_EOK_def)
qed

theorem sem_reset_wakes_all_witness:
  "\<not> suspended (snd (rt_sem_control 0 (SEM_RESET 7) (snd (sem_take 0 (- 1) RT_UNINTERRUPTIBLE demo_kernel)))) 1"
proof -
  define s where "s = snd (sem_take 0 (- 1) RT_UNINTERRUPTIBLE demo_kernel)"
  have "sem_value (sem_of demo_kernel 0) = 0" "(- 1 :: int) \<noteq> 0" by (simp_all add: demo_sem)
  note b = sem_take_blocks[OF demo_kernel_inv demo_may_block this, where sf = RT_UNINTERRUPTIBLE, folded s_def]
  have l: "thread_lists s (SemQ j) = (if j = 0 then [1] else [])" for j
    using b(5)[of "SemQ j"] by (simp add: demo_lists demo_sem enqueue_order_simps)
  have "sem_inv s" "1 \<in> set (thread_lists s (SemQ 0))" using l b(4) by (simp_all add: sem_inv_def demo_sem)
  from sem_reset_wakes_all[OF b(2) this insertI1, of 7] show ?thesis by (simp add: s_def)
qed

text \<open>A token can be lost. Between the moment the timer interrupt has taken a
  waiter's expired timer off its list and the moment the timeout handler runs, a
  release that finds this waiter first in the queue answers \<open>RT_EOK\<close>, but it neither
  wakes the waiter nor increments the count.\<close>

theorem sem_release_in_timeout_window:
  assumes k: "kernel_inv s" and l: "thread_lists s (SemQ i) = t # ts"
    and tm: "sched_flag_ttmr_set (thread_of s t)"
  defines "s1 \<equiv> clear_tflag (ThreadTimer t) RT_TIMER_FLAG_ACTIVATED (timer_remove (ThreadTimer t) s)"
  shows "let (r, s') = rt_sem_release i s1 in
    r = RT_EOK \<and> sem_of s' = sem_of s \<and> suspended s' t \<and> thread_lists s' (SemQ i) = t # ts"
proof -
  have f: "thread_lists s1 = thread_lists s" "thread_of s1 = thread_of s" "sem_of s1 = sem_of s"
    "rt_thread_ready_priority_group s1 = rt_thread_ready_priority_group s"
    "rt_current_thread s1 = rt_current_thread s"
    by (simp_all add: s1_def timer_op_defs)
  have sp: "suspended s1 t"
    using waiter_suspended[OF k, of "SemQ i" t] l f(2) by (simp add: suspended_def thread_state_def)
  have na: "\<not> flag_set (timer_flag (timer_of s1 (ThreadTimer t))) RT_TIMER_FLAG_ACTIVATED"
    by (simp add: s1_def timer_op_defs)
  define s2 where "s2 = upd_thread t (\<lambda>x. x\<lparr> sched_flag_ttmr_set := False \<rparr>) s1"
  have "rt_sched_thread_ready t s1 = (- RT_ERROR, s2)"
    using sp tm na f(2) by (simp add: rt_sched_thread_ready_def is_suspended_eq rt_sched_thread_timer_stop_def
        rt_timer_stop_def s2_def RT_ERROR_def)
  then have d: "rt_susp_list_dequeue (SemQ i) RT_EOK s1 = (None, s2)"
    using l f(1) by (simp add: rt_susp_list_dequeue_def RT_ERROR_def)
  have "sched_inv s1" using k sched_inv_cong[OF f(1,2,4,5)] by (simp add: kernel_inv_def)
  then have i2: "sched_inv s2"
    using neutral_inv(3)[of s1 t "\<lambda>x. x\<lparr> sched_flag_ttmr_set := False \<rparr>"] by (simp add: s2_def sched_neutral_def)
  have "suspended s2 t" using sp by (simp add: s2_def suspended_def thread_state_def)
  then have "suspended (rt_schedule s2) t" using schedule_states(1)[OF i2] by simp
  moreover have "thread_lists (rt_schedule s2) (SemQ i) = t # ts"
    using schedule_states(4)[OF i2, of "SemQ i"] l f(1) by (simp add: s2_def)
  moreover have "sem_of (rt_schedule s2) = sem_of s" using f(3) by (simp add: s2_def)
  ultimately show ?thesis using d l f(1) by (simp add: sem_release_waiter)
qed

theorem sem_release_in_timeout_window_witness:
  "\<exists>s1. fst (rt_sem_release 0 s1) = RT_EOK \<and> sem_of (snd (rt_sem_release 0 s1)) = sem_of demo_kernel
     \<and> suspended (snd (rt_sem_release 0 s1)) 1"
proof -
  define s where "s = snd (sem_take 0 100 RT_UNINTERRUPTIBLE demo_kernel)"
  have z: "sem_value (sem_of demo_kernel 0) = 0" "(100 :: int) \<noteq> 0" by (simp_all add: demo_sem)
  note b = sem_take_blocks[OF demo_kernel_inv demo_may_block z, where sf = RT_UNINTERRUPTIBLE, folded s_def]
  have l: "thread_lists s (SemQ 0) = 1 # []"
    using b(5)[of "SemQ 0"] by (simp add: demo_lists demo_sem enqueue_order_simps)
  have "sched_flag_ttmr_set (thread_of s 1)" using b(8) by simp
  from sem_release_in_timeout_window[OF b(2) l this] b(4) show ?thesis
    by (intro exI[of _ "clear_tflag (ThreadTimer 1) RT_TIMER_FLAG_ACTIVATED (timer_remove (ThreadTimer 1) s)"])
      (simp add: case_prod_unfold Let_def)
qed

end
