(* ===== verification/WaitLoop.thy ===== *)
theory WaitLoop
  imports Semaphore
begin

text \<open>
  What mailboxes and message queues share. Their blocking calls
  (\<open>rt-thread/src/ipc.c\<close>: \<open>_rt_mb_send_wait\<close>, \<open>_rt_mb_recv\<close>, \<open>_rt_mq_send_wait\<close>,
  \<open>_rt_mq_recv\<close>) contain the same loop: as long as the call cannot proceed, suspend the
  caller on a wait list, and after each wake-up go on with the time that is left.
  The loop is defined once, over a record of what differs. The second part is the
  contract of a bounded message store, as a refinement of a list of messages.
\<close>

section \<open>The timed wait loop\<close>

text \<open>What differs between the loops: the condition to wait, the wait list, its queueing
  discipline, the answer when there is no time left, the type of the answers and the
  rest of the call once it can proceed.\<close>

record 'r timed_wait =
  must_wait :: "kstate \<Rightarrow> bool"
  wait_on :: thread_list
  wait_flag :: "kstate \<Rightarrow> u8"
  no_time :: "tid \<Rightarrow> kstate \<Rightarrow> 'r \<times> kstate"
  answer :: "ret \<Rightarrow> 'r"
  proceed :: "kstate \<Rightarrow> 'r \<times> kstate"

text \<open>The remaining waiting time: the tick counter and the difference are unsigned
  32-bit numbers, the timeout is a signed one.\<close>

definition rest_timeout :: "int \<Rightarrow> u32 \<Rightarrow> kstate \<Rightarrow> int" where
  "rest_timeout timeout start s =
    (if timeout > 0 then
       let left = sint (word_of_int timeout - (rt_tick_get s - start) :: u32)
       in if left < 0 then 0 else left
     else timeout)"

partial_function (option) wait_while ::
  "'r timed_wait \<Rightarrow> suspend_flag \<Rightarrow> tid \<Rightarrow> int \<Rightarrow> kstate \<Rightarrow> ('r \<times> kstate) option" where
  "wait_while w sf t timeout s =
    (if \<not> must_wait w s then Some (proceed w s)
     else
       let s = upd_thread t (\<lambda>x. x\<lparr> thread_error := - RT_EINTR \<rparr>) s
       in if timeout = 0 then Some (no_time w t s)
          else
            let r = rt_thread_suspend_to_list t (Some (wait_on w)) (wait_flag w s) sf s
            in if fst r \<noteq> RT_EOK then Some (answer w (Ret (fst r)), snd r)
               else
                 let start = rt_tick_get (snd r);
                     s = rt_schedule (start_wait_timer t timeout (snd r))
                 in if rt_thread_self s \<noteq> Some t then Some (answer w Blocked, s)
                    else if thread_error (thread_of s t) \<noteq> RT_EOK
                    then Some (answer w (Ret (thread_error (thread_of s t))), s)
                    else wait_while w sf t (rest_timeout timeout start s) s)"

text \<open>The rest of a call whose thread runs again; \<open>timeout\<close> and \<open>start\<close> are its local
  variables.\<close>

definition wait_resume ::
  "'r timed_wait \<Rightarrow> suspend_flag \<Rightarrow> tid \<Rightarrow> int \<Rightarrow> u32 \<Rightarrow> kstate \<Rightarrow> ('r \<times> kstate) option" where
  "wait_resume w sf t timeout start s =
    (if thread_error (thread_of s t) \<noteq> RT_EOK
     then Some (answer w (Ret (thread_error (thread_of s t))), s)
     else wait_while w sf t (rest_timeout timeout start s) s)"

text \<open>The loop in the calling context; without a current thread (before the scheduler
  has started) a wait would dereference a null pointer.\<close>

definition wait_call :: "'r timed_wait \<Rightarrow> suspend_flag \<Rightarrow> int \<Rightarrow> kstate \<Rightarrow> ('r \<times> kstate) option" where
  "wait_call w sf timeout s =
    (case rt_thread_self s of
       Some t \<Rightarrow> wait_while w sf t timeout s
     | None \<Rightarrow> Some (if must_wait w s then (answer w Fault, s) else proceed w s))"

text \<open>The common end of the calls that make room or add a message.\<close>

definition wake_one :: "thread_list \<Rightarrow> kstate \<Rightarrow> kstate" where
  "wake_one l s =
    (if thread_lists s l \<noteq> [] then rt_schedule (snd (rt_susp_list_dequeue l RT_EOK s)) else s)"

section \<open>Waking\<close>

lemma wake_one_inv:
  assumes k: "kernel_inv s" and w: "wait_list l"
  shows "kernel_inv (wake_one l s)"
    and "wait_list m \<Longrightarrow> thread_lists (wake_one l s) m = (if m = l then tl (thread_lists s m) else thread_lists s m)"
    and "thread_lists s l = t # ts \<Longrightarrow>
      \<not> suspended (wake_one l s) t \<and> thread_error (thread_of (wake_one l s) t) = RT_EOK"
    and "u \<notin> set (take 1 (thread_lists s l)) \<Longrightarrow> suspended (wake_one l s) u = suspended s u"
  using k dequeue_schedule[OF k w, where e = RT_EOK] w
  by (cases "thread_lists s l"; force simp: wake_one_def RT_EOK_def)+

lemma wake_one_frame [simp]:
  "mailbox_of (wake_one l s) = mailbox_of s" "mq_of (wake_one l s) = mq_of s"
  "sem_of (wake_one l s) = sem_of s" "mutex_of (wake_one l s) = mutex_of s"
  by (simp_all add: wake_one_def)

lemma registry_update_simps [simp]:
  "kernel_inv (s\<lparr> registry := r \<rparr>) = kernel_inv s" "suspended (s\<lparr> registry := r \<rparr>) t = suspended s t"
  using kernel_inv_cong[of "s\<lparr> registry := r \<rparr>" s] by (simp_all add: suspended_def thread_state_def)

text \<open>What a final \<open>rt_schedule\<close> keeps.\<close>

lemma schedule_keeps:
  assumes "kernel_inv s"
  shows "kernel_inv (rt_schedule s)" and "suspended (rt_schedule s) t = suspended s t"
    and "wait_list l \<Longrightarrow> thread_lists (rt_schedule s) l = thread_lists s l"
    and "thread_error (thread_of (rt_schedule s) t) = thread_error (thread_of s t)"
  using assms schedule_kernel_inv[OF assms] schedule_states(1,4)[of s]
    same_but_stat_simps(1)[OF schedule_same_but_stat[of s t]]
  by (auto simp: kernel_inv_def)

text \<open>Waking everybody on the two wait lists of an object.\<close>

lemma resume_two:
  assumes k: "kernel_inv s" and w: "wait_list l1" "wait_list l2" "l1 \<noteq> l2"
  defines "x \<equiv> rt_susp_list_resume_all l2 RT_ERROR (rt_susp_list_resume_all l1 RT_ERROR s)"
  shows "kernel_inv x" and "thread_lists x l1 = []" and "thread_lists x l2 = []"
    and "wait_list m \<Longrightarrow> m \<noteq> l1 \<Longrightarrow> m \<noteq> l2 \<Longrightarrow> thread_lists x m = thread_lists s m"
    and "t \<in> set (thread_lists s l1) \<union> set (thread_lists s l2) \<Longrightarrow>
      \<not> suspended x t \<and> thread_error (thread_of x t) = RT_ERROR"
proof -
  define y where "y = rt_susp_list_resume_all l1 RT_ERROR s"
  note a = resume_all[OF k w(1), of RT_ERROR, folded y_def]
  then have ky: "kernel_inv y" by blast
  note b = resume_all[OF ky w(2), of RT_ERROR, folded x_def[folded y_def]]
  show "kernel_inv x" "thread_lists x l2 = []" "thread_lists x l1 = []" using a b w by auto
  show "wait_list m \<Longrightarrow> m \<noteq> l1 \<Longrightarrow> m \<noteq> l2 \<Longrightarrow> thread_lists x m = thread_lists s m" using a b by auto
  have l2: "thread_lists y l2 = thread_lists s l2" using a w by auto
  assume t: "t \<in> set (thread_lists s l1) \<union> set (thread_lists s l2)"
  show "\<not> suspended x t \<and> thread_error (thread_of x t) = RT_ERROR"
  proof (cases "t \<in> set (thread_lists s l2)")
    case True
    then show ?thesis using b l2 by (simp add: RT_ERROR_def)
  next
    case False
    then have "thread_of x t = thread_of y t" using b l2 by simp
    then show ?thesis using a t False by (simp add: RT_ERROR_def suspended_def thread_state_def)
  qed
qed

section \<open>The behaviour of the loop\<close>

locale waiting_call =
  fixes w :: "'r timed_wait"
  assumes on_wait_list: "wait_list (wait_on w)"
    and must_wait_cong: "mailbox_of s' = mailbox_of s \<Longrightarrow> mq_of s' = mq_of s \<Longrightarrow> must_wait w s' = must_wait w s"
    and wait_flag_cong: "mailbox_of s' = mailbox_of s \<Longrightarrow> mq_of s' = mq_of s \<Longrightarrow> wait_flag w s' = wait_flag w s"
begin

lemma proceeds: "\<not> must_wait w s \<Longrightarrow> wait_while w sf t timeout s = Some (proceed w s)"
  by (subst wait_while.simps) simp

lemma out_of_time:
  "must_wait w s \<Longrightarrow> wait_while w sf t 0 s =
    Some (no_time w t (upd_thread t (\<lambda>x. x\<lparr> thread_error := - RT_EINTR \<rparr>) s))"
  by (subst wait_while.simps) simp

text \<open>A caller that may block does so: it is suspended on the wait list, its timer is
  armed, and nothing else changes.\<close>

lemma blocks:
  assumes k: "kernel_inv s" and mb: "may_block s t" and mw: "must_wait w s" and to: "timeout \<noteq> 0"
  obtains s' where "wait_while w sf t timeout s = Some (answer w Blocked, s')" and "kernel_inv s'"
    and "suspended s' t" and "rt_thread_self s' \<noteq> Some t"
    and "\<And>m. wait_list m \<Longrightarrow> thread_lists s' m = (if m = wait_on w
       then enqueue_order (wait_flag w s) (\<lambda>u. current_priority (thread_of s u)) t (thread_lists s m)
       else thread_lists s m)"
    and "thread_error (thread_of s' t) = - RT_EINTR"
    and "mailbox_of s' = mailbox_of s" and "mq_of s' = mq_of s" and "sem_of s' = sem_of s" and "mutex_of s' = mutex_of s"
    and "timeout > 0 \<Longrightarrow> ThreadTimer t \<in> set (timer_lists s' HardTimers)
      \<and> timeout_tick (timer_of s' (ThreadTimer t)) = rt_tick s + word_of_int timeout"
proof -
  define s0 where "s0 = upd_thread t (\<lambda>x. x\<lparr> thread_error := - RT_EINTR \<rparr>) s"
  define F where "F = wait_flag w s"
  note b0 = take_error_state[OF k mb, of "- RT_EINTR", folded s0_def]
  have f0: "wait_flag w s0 = F" unfolding F_def by (rule wait_flag_cong) (simp_all add: s0_def)
  define x where "x = rt_schedule (start_wait_timer t timeout (snd (rt_thread_suspend_to_list t (Some (wait_on w)) F sf s0)))"
  note b = block_spec[OF b0 on_wait_list, where flags = F and sf = sf and timeout = timeout, folded x_def]
  have e: "wait_while w sf t timeout s = Some (answer w Blocked, x)"
    using mw to block_suspends[OF b0(2), of "Some (wait_on w)" F sf] b(3)
    by (subst wait_while.simps) (simp add: Let_def s0_def[symmetric] f0 x_def[symmetric])
  have pr: "(\<lambda>u. current_priority (thread_of s0 u)) = (\<lambda>u. current_priority (thread_of s u))"
    by (auto simp: s0_def fun_eq_iff)
  have l0: "thread_lists s0 = thread_lists s" "rt_tick s0 = rt_tick s" by (simp_all add: s0_def)
  show thesis
  proof (rule that[OF e b(1,2,3)])
    show "thread_lists x m = (if m = wait_on w
       then enqueue_order (wait_flag w s) (\<lambda>u. current_priority (thread_of s u)) t (thread_lists s m)
       else thread_lists s m)" if "wait_list m" for m
      using b(5)[OF that] by (simp add: pr F_def l0)
    show "thread_error (thread_of x t) = - RT_EINTR"
      using b(6)[of t] by (simp add: thread_view_def) (simp add: s0_def)
    show "timeout > 0 \<Longrightarrow> ThreadTimer t \<in> set (timer_lists x HardTimers)
      \<and> timeout_tick (timer_of x (ThreadTimer t)) = rt_tick s + word_of_int timeout"
      using b(7) by (simp add: l0)
  qed (use b(8-11) in \<open>simp_all add: s0_def\<close>)
qed

text \<open>The loop always ends: a caller that is suspended but keeps the processor (the
  scheduler is locked) still has the error number that the loop has set, and returns it.\<close>

lemma returns:
  assumes k: "kernel_inv s" and r: "timer_ready s t"
  shows "\<exists>a s'. wait_while w sf t timeout s = Some (a, s')"
proof -
  define s0 where "s0 = upd_thread t (\<lambda>x. x\<lparr> thread_error := - RT_EINTR \<rparr>) s"
  have k0: "kernel_inv s0" unfolding s0_def
    by (rule neutral_kernel_inv[OF _ _ k]) (simp_all add: sched_neutral_def)
  have r0: "timer_ready s0 t" using r by (simp add: s0_def timer_ready_def)
  obtain e s1 where e: "rt_thread_suspend_to_list t (Some (wait_on w)) (wait_flag w s0) sf s0 = (e, s1)" by fastforce
  show ?thesis
  proof (cases "must_wait w s \<and> timeout \<noteq> 0 \<and> e = RT_EOK")
    case False
    then show ?thesis
      by (subst wait_while.simps) (auto simp: Let_def s0_def[symmetric] e intro: prod.exhaust)
  next
    case True
    have st: "thread_state s0 t \<in> {RT_THREAD_READY, RT_THREAD_RUNNING}"
      using True e by (auto simp: rt_thread_suspend_to_list_def rt_sched_thread_get_stat_def thread_state_def tst_def
          RT_EOK_def RT_ERROR_def split: if_splits)
    have "kernel_inv s1 \<and> thread_view (thread_of s1 t) = thread_view (thread_of s0 t)"
      by (rule suspend_spec[OF k0 st, where flags = "wait_flag w s0" and sf = sf and sl = "Some (wait_on w)"])
        (use on_wait_list e in \<open>auto simp: thread_view_def\<close>)
    moreover have "timer_ready s1 t" using e r0 by (metis snd_conv timer_ready_suspend)
    ultimately have "thread_view (thread_of (rt_schedule (start_wait_timer t timeout s1)) t) = thread_view (thread_of s0 t)"
      using start_wait_timer_spec(4)[of s1 t timeout t]
        same_but_stat_view[OF schedule_same_but_stat[of "start_wait_timer t timeout s1" t]] by simp
    then have "thread_error (thread_of (rt_schedule (start_wait_timer t timeout s1)) t) \<noteq> RT_EOK"
      by (simp add: thread_view_def) (simp add: s0_def RT_EINTR_def RT_EOK_def)
    then show ?thesis
      using True by (subst wait_while.simps) (simp add: Let_def s0_def[symmetric] e)
  qed
qed

lemma resume_returns:
  assumes "kernel_inv s" and "timer_ready s t"
  shows "\<exists>x. wait_resume w sf t timeout start s = Some x"
  using returns[OF assms] by (auto simp: wait_resume_def)

lemma call_returns:
  assumes "kernel_inv s" and "timer_ready s t" and "rt_current_thread s = Some t"
  shows "\<exists>x. wait_call w sf timeout s = Some x"
  using returns[OF assms(1,2)] assms(3) by (auto simp: wait_call_def rt_thread_self_def)

lemma resume_error:
  "thread_error (thread_of s t) \<noteq> RT_EOK \<Longrightarrow>
   wait_resume w sf t timeout start s = Some (answer w (Ret (thread_error (thread_of s t))), s)"
  by (simp add: wait_resume_def)

lemma resume_proceeds:
  "thread_error (thread_of s t) = RT_EOK \<Longrightarrow> \<not> must_wait w s \<Longrightarrow>
   wait_resume w sf t timeout start s = Some (proceed w s)"
  by (simp add: wait_resume_def proceeds)

lemma call_proceeds: "\<not> must_wait w s \<Longrightarrow> wait_call w sf timeout s = Some (proceed w s)"
  by (simp add: wait_call_def proceeds split: option.splits)

lemma call_self: "rt_current_thread s = Some t \<Longrightarrow> wait_call w sf timeout s = wait_while w sf t timeout s"
  by (simp add: wait_call_def rt_thread_self_def)

end

section \<open>The contract of a bounded message store\<close>

text \<open>The abstract store is a list of messages with a capacity: a message is sent to the
  end, an urgent one to the front, and received from the front.\<close>

datatype 'm store_op = Send 'm | Urgent 'm | Receive

datatype 'm store_answer = Accepted | Rejected | Received 'm | Nothing

fun store_step :: "nat \<Rightarrow> 'm store_op \<Rightarrow> 'm list \<Rightarrow> 'm store_answer \<times> 'm list" where
  "store_step cap (Send m) q = (if length q < cap then (Accepted, q @ [m]) else (Rejected, q))"
| "store_step cap (Urgent m) q = (if length q < cap then (Accepted, m # q) else (Rejected, q))"
| "store_step cap Receive q = (case q of [] \<Rightarrow> (Nothing, []) | m # q \<Rightarrow> (Received m, q))"

fun run_ops :: "('o \<Rightarrow> 's \<Rightarrow> 'a \<times> 's) \<Rightarrow> 'o list \<Rightarrow> 's \<Rightarrow> 'a list \<times> 's" where
  "run_ops f [] s = ([], s)"
| "run_ops f (x # xs) s =
    (let (a, s) = f x s; (as, s) = run_ops f xs s in (a # as, s))"

text \<open>The same operations on an implementation with three calls.\<close>

fun impl_step :: "('m \<Rightarrow> 's \<Rightarrow> bool \<times> 's) \<Rightarrow> ('m \<Rightarrow> 's \<Rightarrow> bool \<times> 's) \<Rightarrow> ('s \<Rightarrow> 'm option \<times> 's) \<Rightarrow>
    'm store_op \<Rightarrow> 's \<Rightarrow> 'm store_answer \<times> 's" where
  "impl_step send urgent recv (Send m) s = (let (b, s) = send m s in (if b then Accepted else Rejected, s))"
| "impl_step send urgent recv (Urgent m) s = (let (b, s) = urgent m s in (if b then Accepted else Rejected, s))"
| "impl_step send urgent recv Receive s =
    (let (r, s) = recv s in (case r of None \<Rightarrow> Nothing | Some m \<Rightarrow> Received m, s))"

fun op_ok :: "('m \<Rightarrow> bool) \<Rightarrow> 'm store_op \<Rightarrow> bool" where
  "op_ok ok (Send m) = ok m"
| "op_ok ok (Urgent m) = ok m"
| "op_ok ok Receive = True"

lemma store_step_le: "length q \<le> cap \<Longrightarrow> length (snd (store_step cap x q)) \<le> cap"
  by (cases x) (auto split: list.splits)

text \<open>Without urgent messages the store is a queue: what was received, followed by what
  is still stored, is what was stored at first followed by what was accepted.\<close>

fun accepted :: "'m store_op list \<Rightarrow> 'm store_answer list \<Rightarrow> 'm list" where
  "accepted (Send m # xs) (Accepted # as) = m # accepted xs as"
| "accepted (x # xs) (a # as) = accepted xs as"
| "accepted _ _ = []"

fun received :: "'m store_answer list \<Rightarrow> 'm list" where
  "received [] = []"
| "received (Received m # as) = m # received as"
| "received (a # as) = received as"

lemma store_fifo:
  assumes "\<forall>x \<in> set xs. \<forall>m. x \<noteq> Urgent m"
  shows "received (fst (run_ops (store_step cap) xs q)) @ snd (run_ops (store_step cap) xs q) =
    q @ accepted xs (fst (run_ops (store_step cap) xs q))"
  using assms
proof (induction xs arbitrary: q)
  case (Cons x xs)
  then have IH: "\<And>q. received (fst (run_ops (store_step cap) xs q)) @ snd (run_ops (store_step cap) xs q) =
      q @ accepted xs (fst (run_ops (store_step cap) xs q))" by simp
  show ?case
  proof (cases x)
    case (Send m)
    then show ?thesis using IH[of "q @ [m]"] IH[of q] by (simp add: case_prod_unfold Let_def)
  next
    case Receive
    then show ?thesis using IH[of q] IH[of "tl q"] by (cases q) (simp_all add: case_prod_unfold Let_def)
  qed (use Cons.prems in simp)
qed simp

locale message_store =
  fixes invar :: "'s \<Rightarrow> bool"
    and contents :: "'s \<Rightarrow> 'm list"
    and cap :: "'s \<Rightarrow> nat"
    and ok :: "'m \<Rightarrow> bool"
    and send urgent :: "'m \<Rightarrow> 's \<Rightarrow> bool \<times> 's"
    and recv :: "'s \<Rightarrow> 'm option \<times> 's"
  assumes send_spec: "invar s \<Longrightarrow> ok m \<Longrightarrow> length (contents s) < cap s \<Longrightarrow>
      fst (send m s) \<and> contents (snd (send m s)) = contents s @ [m]"
    and urgent_spec: "invar s \<Longrightarrow> ok m \<Longrightarrow> length (contents s) < cap s \<Longrightarrow>
      fst (urgent m s) \<and> contents (snd (urgent m s)) = m # contents s"
    and full_spec: "invar s \<Longrightarrow> ok m \<Longrightarrow> \<not> length (contents s) < cap s \<Longrightarrow>
      send m s = (False, s) \<and> urgent m s = (False, s)"
    and recv_spec: "invar s \<Longrightarrow> contents s = m # ms \<Longrightarrow>
      fst (recv s) = Some m \<and> contents (snd (recv s)) = ms"
    and empty_spec: "invar s \<Longrightarrow> contents s = [] \<Longrightarrow> recv s = (None, s)"
    and steps_invar: "invar s \<Longrightarrow> ok m \<Longrightarrow>
      invar (snd (send m s)) \<and> invar (snd (urgent m s)) \<and> invar (snd (recv s))"
    and steps_cap: "invar s \<Longrightarrow> ok m \<Longrightarrow>
      cap (snd (send m s)) = cap s \<and> cap (snd (urgent m s)) = cap s \<and> cap (snd (recv s)) = cap s"
    and some_ok: "\<exists>m. ok m"
begin

abbreviation step :: "'m store_op \<Rightarrow> 's \<Rightarrow> 'm store_answer \<times> 's" where
  "step \<equiv> impl_step send urgent recv"

lemma step_refines:
  assumes "invar s" and "op_ok ok x"
  shows "fst (step x s) = fst (store_step (cap s) x (contents s))"
    and "contents (snd (step x s)) = snd (store_step (cap s) x (contents s))"
    and "invar (snd (step x s))" and "cap (snd (step x s)) = cap s"
proof -
  obtain m0 where m0: "ok m0" using some_ok by blast
  have "fst (step x s) = fst (store_step (cap s) x (contents s))
    \<and> contents (snd (step x s)) = snd (store_step (cap s) x (contents s))
    \<and> invar (snd (step x s)) \<and> cap (snd (step x s)) = cap s"
  proof (cases x)
    case (Send m)
    then show ?thesis using assms send_spec[of s m] full_spec[of s m] steps_invar[of s m] steps_cap[of s m]
      by (cases "length (contents s) < cap s") (auto simp: case_prod_unfold Let_def)
  next
    case (Urgent m)
    then show ?thesis using assms urgent_spec[of s m] full_spec[of s m] steps_invar[of s m] steps_cap[of s m]
      by (cases "length (contents s) < cap s") (auto simp: case_prod_unfold Let_def)
  next
    case Receive
    then show ?thesis using assms m0 recv_spec[of s] empty_spec[of s] steps_invar[of s m0] steps_cap[of s m0]
      by (cases "contents s") (auto simp: case_prod_unfold Let_def)
  qed
  then show "fst (step x s) = fst (store_step (cap s) x (contents s))"
    and "contents (snd (step x s)) = snd (store_step (cap s) x (contents s))"
    and "invar (snd (step x s))" and "cap (snd (step x s)) = cap s" by simp_all
qed

lemma run_refines:
  assumes "invar s" and "list_all (op_ok ok) xs"
  shows "fst (run_ops step xs s) = fst (run_ops (store_step (cap s)) xs (contents s))
    \<and> contents (snd (run_ops step xs s)) = snd (run_ops (store_step (cap s)) xs (contents s))
    \<and> invar (snd (run_ops step xs s))"
  using assms
proof (induction xs arbitrary: s)
  case (Cons x xs)
  note st = step_refines[OF Cons.prems(1), of x]
  show ?case using Cons.IH[of "snd (step x s)"] Cons.prems st by (simp add: case_prod_unfold Let_def)
qed simp

end

end
