(* ===== verification/Mutex.thy ===== *)
theory Mutex
  imports Semaphore
begin

text \<open>
  Mutexes with recursive holds, priority inheritance along chains of owners and
  priority ceilings (\<open>rt-thread/src/ipc.c\<close>, lines 825 to 1735). On one CPU
  \<open>rt_spin_lock\<close> and \<open>rt_spin_unlock\<close> are the scheduler lock, so leaving a mutex
  operation is a scheduling point. The priority loop of \<open>_thread_update_priority\<close>
  follows the chain thread, pending mutex, owner; it is a partial function whose
  value is \<open>None\<close> when the loop does not end.
\<close>

section \<open>Operations\<close>

definition rt_spin_lock :: "kstate \<Rightarrow> kstate" where
  "rt_spin_lock s = snd (rt_enter_critical s)"

definition rt_spin_unlock :: "kstate \<Rightarrow> kstate" where
  "rt_spin_unlock s = rt_exit_critical s"

text \<open>The code \<open>k\<close> after a scheduling point runs at once if the thread still has
  the processor, else when it runs again.\<close>

definition go_on :: "(tid \<Rightarrow> kstate \<Rightarrow> ret \<times> kstate) \<Rightarrow> tid \<Rightarrow> kstate \<Rightarrow> ret \<times> kstate" where
  "go_on k t s = (if rt_thread_self s = Some t then k t s else (Blocked, s))"

definition upd_mutex :: "oid \<Rightarrow> (rt_mutex \<Rightarrow> rt_mutex) \<Rightarrow> kstate \<Rightarrow> kstate" where
  "upd_mutex m f s = s\<lparr> mutex_of := (mutex_of s)(m := f (mutex_of s m)) \<rparr>"

text \<open>\<open>rt_list_remove(&mutex->taken_list)\<close> and
  \<open>rt_list_insert_after(&thread->taken_object_list, &mutex->taken_list)\<close>\<close>

definition remove_taken :: "oid \<Rightarrow> kstate \<Rightarrow> kstate" where
  "remove_taken m s = s\<lparr> thread_of := (\<lambda>t. (thread_of s t)
     \<lparr> taken_object_list := removeAll m (taken_object_list (thread_of s t)) \<rparr>) \<rparr>"

definition insert_taken :: "tid \<Rightarrow> oid \<Rightarrow> kstate \<Rightarrow> kstate" where
  "insert_taken t m s = upd_thread t (\<lambda>x. x\<lparr> taken_object_list := m # taken_object_list x \<rparr>) s"

definition mutex_update_priority :: "oid \<Rightarrow> kstate \<Rightarrow> u8 \<times> kstate" where
  "mutex_update_priority m s =
    (let p = (case thread_lists s (MutexQ m) of [] \<Rightarrow> 0xff
              | t # _ \<Rightarrow> rt_sched_thread_get_curr_prio t s)
     in (p, upd_mutex m (\<lambda>x. x\<lparr> mutex_priority := p \<rparr>) s))"

fun taken_priority :: "(oid \<Rightarrow> rt_mutex) \<Rightarrow> u8 \<Rightarrow> oid list \<Rightarrow> u8" where
  "taken_priority M priority [] = priority"
| "taken_priority M priority (m # ms) =
    (let p = mutex_priority (M m);
         p = (if p < ceiling_priority (M m) then p else ceiling_priority (M m))
     in taken_priority M (if priority > p then p else priority) ms)"

definition thread_get_mutex_priority :: "tid \<Rightarrow> kstate \<Rightarrow> u8" where
  "thread_get_mutex_priority t s =
    taken_priority (mutex_of s) (rt_sched_thread_get_init_prio t s) (taken_object_list (thread_of s t))"

text \<open>The loop of \<open>_thread_update_priority\<close>, entered after a successful change of
  the priority of \<open>t\<close>. A pending mutex without owner would be a null dereference
  (\<open>None\<close>, too).\<close>

partial_function (option) update_priority_loop :: "tid \<Rightarrow> kstate \<Rightarrow> kstate option" where
  "update_priority_loop t s =
    (if \<not> rt_sched_thread_is_suspended t s then Some s
     else case pending_object (thread_of s t) of None \<Rightarrow> Some s
     | Some m \<Rightarrow>
        if rt_object_get_type (OMutex m) (registry s) \<noteq> RT_Object_Class_Mutex then Some s
        else
          let s = unlink_thread t s;
              s = rt_susp_list_enqueue (MutexQ m) t (mutex_flag (mutex_of s m)) s;
              s = snd (mutex_update_priority m s)
          in case mutex_owner (mutex_of s m) of None \<Rightarrow> None
             | Some ow \<Rightarrow>
                 let p = thread_get_mutex_priority ow s in
                 if p \<noteq> rt_sched_thread_get_curr_prio ow s
                 then update_priority_loop ow (snd (rt_sched_thread_change_priority ow p s))
                 else Some s)"

definition thread_update_priority :: "tid \<Rightarrow> u8 \<Rightarrow> kstate \<Rightarrow> kstate option" where
  "thread_update_priority t priority s =
    update_priority_loop t (snd (rt_sched_thread_change_priority t priority s))"

definition check_and_update_prio :: "tid \<Rightarrow> oid \<Rightarrow> kstate \<Rightarrow> bool \<times> kstate" where
  "check_and_update_prio t m s =
    (if ceiling_priority (mutex_of s m) \<noteq> 0xFF
        \<or> rt_sched_thread_get_curr_prio t s = mutex_priority (mutex_of s m)
     then (True, snd (rt_sched_thread_change_priority t (thread_get_mutex_priority t s) s))
     else (False, s))"

definition mutex_before_delete_detach :: "oid \<Rightarrow> kstate \<Rightarrow> kstate" where
  "mutex_before_delete_detach m s =
    (let s = rt_spin_lock s;
         s = rt_susp_list_resume_all (MutexQ m) RT_ERROR s;
         s = remove_taken m s;
         s = (case mutex_owner (mutex_of s m) of None \<Rightarrow> s
              | Some ow \<Rightarrow>
                 let (need_schedule, s) = check_and_update_prio ow m s
                 in if need_schedule then rt_sched_unlock_n_resched s else s)
     in rt_spin_unlock s)"

definition mutex_setup :: "oid \<Rightarrow> kstate \<Rightarrow> kstate" where
  "mutex_setup m s =
    upd_mutex m (\<lambda>_. \<lparr> mutex_flag = RT_IPC_FLAG_PRIO, ceiling_priority = 0xFF,
      mutex_priority = 0xFF, mutex_hold = 0, mutex_owner = None \<rparr>) (ipc_object_init (MutexQ m) s)"

definition rt_mutex_init :: "oid \<Rightarrow> byte list \<Rightarrow> u8 \<Rightarrow> kstate \<Rightarrow> int \<times> kstate" where
  "rt_mutex_init m name flag s =
    (let s = s\<lparr> registry := rt_object_init (OMutex m) RT_Object_Class_Mutex name (registry s) \<rparr>
     in (RT_EOK, mutex_setup m s))"

definition rt_mutex_detach :: "oid \<Rightarrow> kstate \<Rightarrow> int \<times> kstate" where
  "rt_mutex_detach m s =
    (let s = mutex_before_delete_detach m s
     in (RT_EOK, s\<lparr> registry := rt_object_detach (OMutex m) (registry s) \<rparr>))"

text \<open>Set the priority of a mutex to that of its first waiter, and with
  \<open>need_update\<close> give its owner the priority it should have.\<close>

definition refresh_mutex :: "oid \<Rightarrow> bool \<Rightarrow> kstate \<Rightarrow> kstate option" where
  "refresh_mutex m need_update s =
    (let s = snd (mutex_update_priority m s)
     in if need_update then
          (case mutex_owner (mutex_of s m) of None \<Rightarrow> Some s
           | Some ow \<Rightarrow>
              let priority = thread_get_mutex_priority ow s
              in if priority \<noteq> rt_sched_thread_get_curr_prio ow s
                 then thread_update_priority ow priority s else Some s)
        else Some s)"

definition owner_has_prio_of :: "oid \<Rightarrow> tid \<Rightarrow> kstate \<Rightarrow> bool" where
  "owner_has_prio_of m t s =
    (case mutex_owner (mutex_of s m) of None \<Rightarrow> False
     | Some ow \<Rightarrow> rt_sched_thread_get_curr_prio ow s = rt_sched_thread_get_curr_prio t s)"

definition rt_mutex_drop_thread :: "oid \<Rightarrow> tid \<Rightarrow> kstate \<Rightarrow> kstate option" where
  "rt_mutex_drop_thread m t s =
    (let s = rt_spin_lock s;
         s = unlink_thread t s
     in map_option rt_spin_unlock (refresh_mutex m (owner_has_prio_of m t s) s))"

definition rt_set_errno :: "int \<Rightarrow> kstate \<Rightarrow> kstate" where
  "rt_set_errno error s =
    (if rt_interrupt_nest s \<noteq> 0 then s
     else case rt_thread_self s of None \<Rightarrow> s
     | Some t \<Rightarrow> upd_thread t (\<lambda>x. x\<lparr> thread_error := error \<rparr>) s)"

definition rt_mutex_setprioceiling :: "oid \<Rightarrow> u8 \<Rightarrow> kstate \<Rightarrow> (u8 \<times> kstate) option" where
  "rt_mutex_setprioceiling m priority s =
    (if unat priority < RT_THREAD_PRIORITY_MAX then
       let s = rt_spin_lock s;
           ret_priority = ceiling_priority (mutex_of s m);
           s = upd_mutex m (\<lambda>x. x\<lparr> ceiling_priority := priority \<rparr>) s;
           r = (case mutex_owner (mutex_of s m) of None \<Rightarrow> Some s
                | Some ow \<Rightarrow>
                   let highest_prio = thread_get_mutex_priority ow s
                   in if highest_prio \<noteq> rt_sched_thread_get_curr_prio ow s
                      then thread_update_priority ow highest_prio s else Some s)
       in map_option (\<lambda>s. (ret_priority, rt_spin_unlock s)) r
     else Some (0xFF, rt_set_errno (- RT_EINVAL) s))"

definition rt_mutex_getprioceiling :: "oid \<Rightarrow> kstate \<Rightarrow> u8 \<times> kstate" where
  "rt_mutex_getprioceiling m s =
    (let s = rt_spin_lock s;
         prio = ceiling_priority (mutex_of s m)
     in (prio, rt_spin_unlock s))"

definition rt_mutex_create :: "oid option \<Rightarrow> byte list \<Rightarrow> u8 \<Rightarrow> kstate \<Rightarrow> oid option \<times> kstate" where
  "rt_mutex_create addr name flag s =
    (case addr of None \<Rightarrow> (None, s)
     | Some m \<Rightarrow>
        let s = s\<lparr> registry := snd (rt_object_allocate (Some (OMutex m)) RT_Object_Class_Mutex name (registry s)) \<rparr>
        in (Some m, mutex_setup m s))"

definition rt_mutex_delete :: "oid \<Rightarrow> kstate \<Rightarrow> int \<times> kstate" where
  "rt_mutex_delete m s =
    (let s = mutex_before_delete_detach m s
     in (RT_EOK, s\<lparr> registry := rt_object_delete (OMutex m) (registry s) \<rparr>))"

definition RT_MUTEX_HOLD_MAX :: u8 where "RT_MUTEX_HOLD_MAX = 0xFF"

text \<open>The last part of a take that failed, after the scheduling point at its
  \<open>rt_spin_unlock\<close>.\<close>

definition mutex_take_fail :: "int \<Rightarrow> tid \<Rightarrow> kstate \<Rightarrow> ret \<times> kstate" where
  "mutex_take_fail r t s =
    (Ret (if r > 0 then - r else r), upd_thread t (\<lambda>x. x\<lparr> pending_object := None \<rparr>) s)"

text \<open>The part of a take that runs when the waiting thread has been woken.\<close>

definition mutex_take_resume :: "oid \<Rightarrow> tid \<Rightarrow> kstate \<Rightarrow> ret \<times> kstate" where
  "mutex_take_resume m t s =
    (let s = rt_spin_lock s in
     if thread_error (thread_of s t) = RT_EOK then (Ret RT_EOK, rt_spin_unlock s)
     else
       let ret = thread_error (thread_of s t)
       in case refresh_mutex m (owner_has_prio_of m t s) s of None \<Rightarrow> (Fault, s)
          | Some s \<Rightarrow> go_on (mutex_take_fail ret) t (rt_spin_unlock s))"

definition mutex_take_wait :: "oid \<Rightarrow> tid \<Rightarrow> kstate \<Rightarrow> ret \<times> kstate" where
  "mutex_take_wait m t s = go_on (mutex_take_resume m) t (rt_schedule s)"

text \<open>Boosting the owner when \<open>t\<close> starts to wait.\<close>

definition boost_owner :: "oid \<Rightarrow> tid \<Rightarrow> kstate \<Rightarrow> kstate option" where
  "boost_owner m t s =
    (let priority = rt_sched_thread_get_curr_prio t s in
     if priority < mutex_priority (mutex_of s m) then
       let s = upd_mutex m (\<lambda>x. x\<lparr> mutex_priority := priority \<rparr>) s
       in case mutex_owner (mutex_of s m) of None \<Rightarrow> None
          | Some ow \<Rightarrow>
             if mutex_priority (mutex_of s m) < rt_sched_thread_get_curr_prio ow s
             then thread_update_priority ow priority s else Some s
     else Some s)"

definition mutex_take :: "oid \<Rightarrow> int \<Rightarrow> suspend_flag \<Rightarrow> kstate \<Rightarrow> ret \<times> kstate" where
  "mutex_take m timeout sf s =
    (case rt_thread_self s of None \<Rightarrow> (Fault, s)
     | Some t \<Rightarrow>
       let s = rt_spin_lock s;
           s = upd_thread t (\<lambda>x. x\<lparr> thread_error := RT_EOK \<rparr>) s
       in if mutex_owner (mutex_of s m) = Some t then
            if mutex_hold (mutex_of s m) < RT_MUTEX_HOLD_MAX
            then (Ret RT_EOK, rt_spin_unlock (upd_mutex m (\<lambda>x. x\<lparr> mutex_hold := mutex_hold x + 1 \<rparr>) s))
            else (Ret (- RT_EFULL), rt_spin_unlock s)
          else if mutex_owner (mutex_of s m) = None then
            let s = upd_mutex m (\<lambda>x. x\<lparr> mutex_owner := Some t, mutex_priority := 0xff, mutex_hold := 1 \<rparr>) s;
                ceiling = ceiling_priority (mutex_of s m);
                r = (if ceiling \<noteq> 0xFF \<and> ceiling < rt_sched_thread_get_curr_prio t s
                     then thread_update_priority t ceiling s else Some s)
            in case r of None \<Rightarrow> (Fault, s)
               | Some s \<Rightarrow> (Ret RT_EOK, rt_spin_unlock (insert_taken t m s))
          else if timeout = 0 then
            (Ret (- RT_ETIMEOUT), rt_spin_unlock (upd_thread t (\<lambda>x. x\<lparr> thread_error := RT_ETIMEOUT \<rparr>) s))
          else
            let (ret, s) = rt_thread_suspend_to_list t (Some (MutexQ m)) (mutex_flag (mutex_of s m)) sf s
            in if ret \<noteq> RT_EOK then (Ret ret, rt_spin_unlock s)
               else
                 let s = upd_thread t (\<lambda>x. x\<lparr> pending_object := Some m \<rparr>) s
                 in case boost_owner m t s of None \<Rightarrow> (Fault, s)
                    | Some s \<Rightarrow>
                       let s = start_wait_timer t timeout s
                       in go_on (mutex_take_wait m) t (rt_spin_unlock s))"

definition rt_mutex_take :: "oid \<Rightarrow> int \<Rightarrow> kstate \<Rightarrow> ret \<times> kstate" where
  "rt_mutex_take m time s = mutex_take m time RT_UNINTERRUPTIBLE s"

definition rt_mutex_take_interruptible :: "oid \<Rightarrow> int \<Rightarrow> kstate \<Rightarrow> ret \<times> kstate" where
  "rt_mutex_take_interruptible m time s = mutex_take m time RT_INTERRUPTIBLE s"

definition rt_mutex_take_killable :: "oid \<Rightarrow> int \<Rightarrow> kstate \<Rightarrow> ret \<times> kstate" where
  "rt_mutex_take_killable m time s = mutex_take m time RT_KILLABLE s"

definition rt_mutex_trytake :: "oid \<Rightarrow> kstate \<Rightarrow> ret \<times> kstate" where
  "rt_mutex_trytake m s = rt_mutex_take m 0 s"

text \<open>The search for a waiter that can be woken; each round takes one thread off
  the list, so the length of the list bounds the rounds.\<close>

fun wake_next :: "nat \<Rightarrow> oid \<Rightarrow> kstate \<Rightarrow> tid option \<times> kstate" where
  "wake_next 0 m s = (None, s)"
| "wake_next (Suc n) m s =
    (case thread_lists s (MutexQ m) of [] \<Rightarrow> (None, s)
     | next_thread # _ \<Rightarrow>
        let s = unlink_thread next_thread s;
            (err, s) = rt_sched_thread_ready next_thread s
        in if err \<noteq> RT_EOK then wake_next n m s else (Some next_thread, s))"

definition mutex_release_resume :: "bool \<Rightarrow> tid \<Rightarrow> kstate \<Rightarrow> ret \<times> kstate" where
  "mutex_release_resume need_schedule t s = (Ret RT_EOK, if need_schedule then rt_schedule s else s)"

definition rt_mutex_release :: "oid \<Rightarrow> kstate \<Rightarrow> ret \<times> kstate" where
  "rt_mutex_release m s =
    (case rt_thread_self s of None \<Rightarrow> (Fault, s)
     | Some t \<Rightarrow>
       let s = rt_spin_lock s in
       if mutex_owner (mutex_of s m) \<noteq> Some t
       then (Ret (- RT_ERROR), rt_spin_unlock (upd_thread t (\<lambda>x. x\<lparr> thread_error := - RT_ERROR \<rparr>) s))
       else
         let s = upd_mutex m (\<lambda>x. x\<lparr> mutex_hold := mutex_hold x - 1 \<rparr>) s in
         if mutex_hold (mutex_of s m) = 0 then
           let s = remove_taken m s;
               (need_schedule, s) = check_and_update_prio t m s
           in if thread_lists s (MutexQ m) \<noteq> [] then
                (case wake_next (length (thread_lists s (MutexQ m))) m s of
                   (Some next_thread, s) \<Rightarrow>
                     let s = upd_mutex m (\<lambda>x. x\<lparr> mutex_owner := Some next_thread, mutex_hold := 1 \<rparr>) s;
                         s = insert_taken next_thread m s;
                         s = upd_thread next_thread (\<lambda>x. x\<lparr> pending_object := None \<rparr>) s;
                         s = snd (mutex_update_priority m s)
                     in go_on (mutex_release_resume True) t (rt_spin_unlock s)
                 | (None, s) \<Rightarrow>
                     let s = upd_mutex m (\<lambda>x. x\<lparr> mutex_owner := None, mutex_priority := 0xff \<rparr>) s
                     in go_on (mutex_release_resume need_schedule) t (rt_spin_unlock s))
              else
                let s = upd_mutex m (\<lambda>x. x\<lparr> mutex_owner := None, mutex_priority := 0xff \<rparr>) s
                in go_on (mutex_release_resume need_schedule) t (rt_spin_unlock s)
         else go_on (mutex_release_resume False) t (rt_spin_unlock s))"

definition rt_mutex_control :: "oid \<Rightarrow> int \<Rightarrow> kstate \<Rightarrow> int \<times> kstate" where
  "rt_mutex_control m cmd s = (- RT_EINVAL, s)"

section \<open>Frames\<close>

lemma upd_mutex_frame [simp]:
  "thread_lists (upd_mutex m f s) = thread_lists s" "thread_of (upd_mutex m f s) = thread_of s"
  "rt_thread_ready_priority_group (upd_mutex m f s) = rt_thread_ready_priority_group s"
  "rt_current_thread (upd_mutex m f s) = rt_current_thread s" "timer_of (upd_mutex m f s) = timer_of s"
  "timer_lists (upd_mutex m f s) = timer_lists s" "rt_tick (upd_mutex m f s) = rt_tick s"
  "rt_scheduler_lock_nest (upd_mutex m f s) = rt_scheduler_lock_nest s"
  "sem_of (upd_mutex m f s) = sem_of s" "mailbox_of (upd_mutex m f s) = mailbox_of s"
  "mq_of (upd_mutex m f s) = mq_of s" "registry (upd_mutex m f s) = registry s"
  "mutex_of (upd_mutex m f s) = (mutex_of s)(m := f (mutex_of s m))"
  by (simp_all add: upd_mutex_def)

lemma upd_mutex_inv [simp]:
  "kernel_inv (upd_mutex m f s) = kernel_inv s" "thread_state (upd_mutex m f s) t = thread_state s t"
  "suspended (upd_mutex m f s) t = suspended s t" "timer_ready (upd_mutex m f s) t = timer_ready s t"
  using kernel_inv_cong[of "upd_mutex m f s" s]
  by (simp_all add: thread_state_def suspended_def timer_ready_def)

lemma registry_frame [simp]:
  "registry (rt_susp_list_enqueue l t fl s) = registry s"
  "registry (snd (rt_sched_thread_timer_stop t s)) = registry s"
  "registry (thread_set_suspend_state t sf s) = registry s"
  "registry (snd (rt_sched_thread_ready t s)) = registry s"
  "registry (snd (rt_susp_list_dequeue l e s)) = registry s"
  by (simp_all add: rt_susp_list_enqueue_def rt_sched_thread_timer_stop_def thread_set_suspend_state_def
      rt_sched_thread_ready_def rt_susp_list_dequeue_def case_prod_unfold Let_def split: list.splits)

lemma registry_suspend [simp]: "registry (snd (rt_thread_suspend_to_list t sl fl sf s)) = registry s"
  by (simp add: rt_thread_suspend_to_list_def Let_def split: option.splits)

text \<open>The fields of a thread that priority changes leave alone.\<close>

definition thread_ids :: "rt_thread \<Rightarrow> int \<times> u8 \<times> oid list \<times> oid option" where
  "thread_ids x = (thread_error x, init_priority x, taken_object_list x, pending_object x)"

text \<open>What a change of priorities leaves alone: everything but the order of the
  mutex queues and the priorities themselves.\<close>

definition prio_frame :: "kstate \<Rightarrow> kstate \<Rightarrow> bool" where
  "prio_frame s s' \<longleftrightarrow>
    thread_state s' = thread_state s \<and> rt_current_thread s' = rt_current_thread s \<and>
    (\<forall>u. thread_ids (thread_of s' u) = thread_ids (thread_of s u)) \<and>
    (\<forall>m. mutex_owner (mutex_of s' m) = mutex_owner (mutex_of s m) \<and>
         mutex_hold (mutex_of s' m) = mutex_hold (mutex_of s m) \<and>
         ceiling_priority (mutex_of s' m) = ceiling_priority (mutex_of s m) \<and>
         set (thread_lists s' (MutexQ m)) = set (thread_lists s (MutexQ m))) \<and>
    (\<forall>l. wait_list l \<longrightarrow> (\<forall>m. l \<noteq> MutexQ m) \<longrightarrow> thread_lists s' l = thread_lists s l) \<and>
    sem_of s' = sem_of s \<and> mailbox_of s' = mailbox_of s \<and> mq_of s' = mq_of s \<and>
    registry s' = registry s \<and> timer_of s' = timer_of s \<and> timer_lists s' = timer_lists s \<and>
    rt_tick s' = rt_tick s \<and> rt_scheduler_lock_nest s' = rt_scheduler_lock_nest s"

lemma prio_frame_refl [simp]: "prio_frame s s"
  by (simp add: prio_frame_def)

lemma prio_frame_suspended: "prio_frame s s' \<Longrightarrow> suspended s' t = suspended s t"
  by (simp add: prio_frame_def suspended_def)

lemma prio_frame_trans: "prio_frame s s' \<Longrightarrow> prio_frame s' s'' \<Longrightarrow> prio_frame s s''"
  by (simp add: prio_frame_def)

lemma change_priority_frame [simp]:
  "mutex_of (snd (rt_sched_thread_change_priority t p s)) = mutex_of s"
  "sem_of (snd (rt_sched_thread_change_priority t p s)) = sem_of s"
  "mailbox_of (snd (rt_sched_thread_change_priority t p s)) = mailbox_of s"
  "mq_of (snd (rt_sched_thread_change_priority t p s)) = mq_of s"
  "registry (snd (rt_sched_thread_change_priority t p s)) = registry s"
  "timer_of (snd (rt_sched_thread_change_priority t p s)) = timer_of s"
  "timer_lists (snd (rt_sched_thread_change_priority t p s)) = timer_lists s"
  "rt_tick (snd (rt_sched_thread_change_priority t p s)) = rt_tick s"
  "rt_scheduler_lock_nest (snd (rt_sched_thread_change_priority t p s)) = rt_scheduler_lock_nest s"
  "rt_current_thread (snd (rt_sched_thread_change_priority t p s)) = rt_current_thread s"
  by (simp_all add: rt_sched_thread_change_priority_def Let_def)

lemma change_priority_ids:
  "thread_ids (thread_of (snd (rt_sched_thread_change_priority t p s)) u) = thread_ids (thread_of s u)"
  "sched_flag_ttmr_set (thread_of (snd (rt_sched_thread_change_priority t p s)) u) =
   sched_flag_ttmr_set (thread_of s u)"
  by (simp_all add: rt_sched_thread_change_priority_def Let_def thread_ids_def insert_thread_effect
      remove_thread_fields)

lemma change_priority_spec:
  fixes t :: tid
  assumes k: "kernel_inv s" and p: "unat p < RT_THREAD_PRIORITY_MAX"
  defines "s' \<equiv> snd (rt_sched_thread_change_priority t p s)"
  shows "kernel_inv s'" and "prio_frame s s'"
    and "current_priority (thread_of s' u) = (if u = t then p else current_priority (thread_of s u))"
    and "wait_list l \<Longrightarrow> thread_lists s' l = thread_lists s l"
proof -
  have i: "sched_inv s" using k by (simp add: kernel_inv_def)
  note c = change_priority_inv[OF i p, where t = t, folded s'_def]
  have "ttmr_ok s'"
    using k c(2) change_priority_ids(2)[of t p s]
    by (simp add: kernel_inv_def ttmr_ok_def suspended_def s'_def)
  then show "kernel_inv s'" using c(1) by (simp add: kernel_inv_def)
  show "prio_frame s s'" using c(2,5) change_priority_ids(1)[of t p s] by (simp add: prio_frame_def s'_def)
  show "current_priority (thread_of s' u) = (if u = t then p else current_priority (thread_of s u))" by (rule c(3))
  show "wait_list l \<Longrightarrow> thread_lists s' l = thread_lists s l" by (rule c(5))
qed

section \<open>The priority a thread should have\<close>

definition mutex_level :: "rt_mutex \<Rightarrow> u8" where
  "mutex_level x = min (mutex_priority x) (ceiling_priority x)"

lemma taken_priority_Min: "taken_priority M p ms = Min (insert p ((\<lambda>m. mutex_level (M m)) ` set ms))"
proof (induction ms arbitrary: p)
  case (Cons m ms)
  have "(let q = mutex_priority (M m); q = (if q < ceiling_priority (M m) then q else ceiling_priority (M m))
      in if p > q then q else p) = min p (mutex_level (M m))"
    by (auto simp: mutex_level_def Let_def min_def)
  then have "taken_priority M p (m # ms) = taken_priority M (min p (mutex_level (M m))) ms"
    by (simp add: Let_def)
  also have "\<dots> = Min (insert (min p (mutex_level (M m))) ((\<lambda>m. mutex_level (M m)) ` set ms))" by (rule Cons.IH)
  also have "\<dots> = Min (insert p ((\<lambda>m. mutex_level (M m)) ` set (m # ms)))"
    by (cases "set ms = {}") (simp_all add: min.assoc)
  finally show ?case .
qed simp

lemma mutex_priority_le:
  "thread_get_mutex_priority t s \<le> init_priority (thread_of s t)"
  "m \<in> set (taken_object_list (thread_of s t)) \<Longrightarrow>
    thread_get_mutex_priority t s \<le> mutex_level (mutex_of s m)"
  by (simp_all add: thread_get_mutex_priority_def taken_priority_Min rt_sched_thread_get_init_prio_def)

lemma mutex_priority_ge:
  "p \<le> thread_get_mutex_priority t s \<longleftrightarrow> p \<le> init_priority (thread_of s t) \<and>
    (\<forall>m \<in> set (taken_object_list (thread_of s t)). p \<le> mutex_level (mutex_of s m))"
  by (auto simp: thread_get_mutex_priority_def taken_priority_Min rt_sched_thread_get_init_prio_def)

lemma mutex_priority_cong:
  assumes "init_priority (thread_of s' t) = init_priority (thread_of s t)"
    and "taken_object_list (thread_of s' t) = taken_object_list (thread_of s t)"
    and "\<And>m. m \<in> set (taken_object_list (thread_of s t)) \<Longrightarrow> mutex_of s' m = mutex_of s m"
  shows "thread_get_mutex_priority t s' = thread_get_mutex_priority t s"
proof -
  have "(\<lambda>m. mutex_level (mutex_of s' m)) ` set (taken_object_list (thread_of s t)) =
      (\<lambda>m. mutex_level (mutex_of s m)) ` set (taken_object_list (thread_of s t))"
    by (rule image_cong) (simp_all add: assms(3))
  then show ?thesis
    by (simp add: thread_get_mutex_priority_def taken_priority_Min rt_sched_thread_get_init_prio_def assms(1,2))
qed

section \<open>The mutex invariant\<close>

abbreviation cur_prio :: "kstate \<Rightarrow> tid \<Rightarrow> u8" where
  "cur_prio s t \<equiv> current_priority (thread_of s t)"

text \<open>Ownership: a mutex is in the taken list of exactly its owner, it is held iff it
  is owned, and its waiters are the suspended threads that have it as pending object.\<close>

definition owner_ok :: "kstate \<Rightarrow> bool" where
  "owner_ok s \<longleftrightarrow>
    (\<forall>m t. m \<in> set (taken_object_list (thread_of s t)) \<longleftrightarrow> mutex_owner (mutex_of s m) = Some t) \<and>
    (\<forall>t. distinct (taken_object_list (thread_of s t))) \<and>
    (\<forall>m. mutex_owner (mutex_of s m) = None \<longleftrightarrow> mutex_hold (mutex_of s m) = 0) \<and>
    (\<forall>m. \<forall>w \<in> set (thread_lists s (MutexQ m)). pending_object (thread_of s w) = Some m \<and>
       mutex_owner (mutex_of s m) \<noteq> None \<and> mutex_owner (mutex_of s m) \<noteq> Some w \<and>
       rt_object_get_type (OMutex m) (registry s) = RT_Object_Class_Mutex \<and>
       mutex_flag (mutex_of s m) = RT_IPC_FLAG_PRIO) \<and>
    (\<forall>t m. suspended s t \<longrightarrow> pending_object (thread_of s t) = Some m \<longrightarrow> t \<in> set (thread_lists s (MutexQ m))) \<and>
    (\<forall>t. unat (init_priority (thread_of s t)) < RT_THREAD_PRIORITY_MAX)"

text \<open>Priorities, with the threads of \<open>X\<close> exempt as waiters and those of \<open>Y\<close> as
  owners: waiters are in priority order, a mutex has at least the priority of its
  waiters, and an owner at least that of its mutexes (a smaller number is a higher
  priority).\<close>

definition prio_ok :: "tid set \<Rightarrow> tid set \<Rightarrow> kstate \<Rightarrow> bool" where
  "prio_ok X Y s \<longleftrightarrow>
    (\<forall>m. sorted (map (cur_prio s) (filter (\<lambda>w. w \<notin> X) (thread_lists s (MutexQ m))))) \<and>
    (\<forall>m. \<forall>w \<in> set (thread_lists s (MutexQ m)) - X. mutex_priority (mutex_of s m) \<le> cur_prio s w) \<and>
    (\<forall>m t. mutex_owner (mutex_of s m) = Some t \<longrightarrow> t \<notin> Y \<longrightarrow> cur_prio s t \<le> mutex_priority (mutex_of s m))"

definition mutex_inv :: "kstate \<Rightarrow> bool" where
  "mutex_inv s \<longleftrightarrow> owner_ok s \<and> prio_ok {} {} s"

text \<open>Exact priorities: every thread has the highest of its own priority and the
  levels of the mutexes it holds.\<close>

definition exact_prio :: "kstate \<Rightarrow> bool" where
  "exact_prio s \<longleftrightarrow> (\<forall>t. cur_prio s t = thread_get_mutex_priority t s)"

text \<open>No owner is below one of its waiters.\<close>

lemma no_inversion:
  assumes "mutex_inv s" and "mutex_owner (mutex_of s m) = Some ow" and "w \<in> set (thread_lists s (MutexQ m))"
  shows "cur_prio s ow \<le> cur_prio s w"
proof -
  have "cur_prio s ow \<le> mutex_priority (mutex_of s m)" "mutex_priority (mutex_of s m) \<le> cur_prio s w"
    using assms by (auto simp: mutex_inv_def prio_ok_def)
  then show ?thesis by (rule order_trans)
qed

lemma filter_neq_removeAll: "filter (\<lambda>w. w \<noteq> t) ws = removeAll t ws"
  by (simp add: removeAll_filter_not_eq eq_commute)

lemma prio_ok_owner:
  assumes "prio_ok X Y s"
    and "\<And>m t. t \<in> Y \<Longrightarrow> mutex_owner (mutex_of s m) = Some t \<Longrightarrow> cur_prio s t \<le> mutex_priority (mutex_of s m)"
  shows "prio_ok X {} s"
  using assms unfolding prio_ok_def by blast

lemma owner_okD:
  assumes "owner_ok s"
  shows "m \<in> set (taken_object_list (thread_of s t)) \<longleftrightarrow> mutex_owner (mutex_of s m) = Some t"
    and "distinct (taken_object_list (thread_of s t))"
    and "mutex_owner (mutex_of s m) = None \<longleftrightarrow> mutex_hold (mutex_of s m) = 0"
    and "w \<in> set (thread_lists s (MutexQ m)) \<Longrightarrow> pending_object (thread_of s w) = Some m"
    and "w \<in> set (thread_lists s (MutexQ m)) \<Longrightarrow> \<exists>ow. mutex_owner (mutex_of s m) = Some ow \<and> ow \<noteq> w"
    and "w \<in> set (thread_lists s (MutexQ m)) \<Longrightarrow> rt_object_get_type (OMutex m) (registry s) = RT_Object_Class_Mutex"
    and "w \<in> set (thread_lists s (MutexQ m)) \<Longrightarrow> mutex_flag (mutex_of s m) = RT_IPC_FLAG_PRIO"
    and "suspended s t \<Longrightarrow> pending_object (thread_of s t) = Some m \<Longrightarrow> t \<in> set (thread_lists s (MutexQ m))"
    and "unat (init_priority (thread_of s t)) < RT_THREAD_PRIORITY_MAX"
  using assms unfolding owner_ok_def by blast+

lemma owner_okI:
  assumes "\<And>m t. m \<in> set (taken_object_list (thread_of s t)) \<longleftrightarrow> mutex_owner (mutex_of s m) = Some t"
    and "\<And>t. distinct (taken_object_list (thread_of s t))"
    and "\<And>m. mutex_owner (mutex_of s m) = None \<longleftrightarrow> mutex_hold (mutex_of s m) = 0"
    and "\<And>m w. w \<in> set (thread_lists s (MutexQ m)) \<Longrightarrow> pending_object (thread_of s w) = Some m"
    and "\<And>m w. w \<in> set (thread_lists s (MutexQ m)) \<Longrightarrow> \<exists>ow. mutex_owner (mutex_of s m) = Some ow \<and> ow \<noteq> w"
    and "\<And>m w. w \<in> set (thread_lists s (MutexQ m)) \<Longrightarrow> rt_object_get_type (OMutex m) (registry s) = RT_Object_Class_Mutex"
    and "\<And>m w. w \<in> set (thread_lists s (MutexQ m)) \<Longrightarrow> mutex_flag (mutex_of s m) = RT_IPC_FLAG_PRIO"
    and "\<And>t m. suspended s t \<Longrightarrow> pending_object (thread_of s t) = Some m \<Longrightarrow> t \<in> set (thread_lists s (MutexQ m))"
    and "\<And>t. unat (init_priority (thread_of s t)) < RT_THREAD_PRIORITY_MAX"
  shows "owner_ok s"
  using assms unfolding owner_ok_def by fastforce

lemma owner_ok_frame:
  assumes "prio_frame s s'" and "\<And>m. mutex_flag (mutex_of s' m) = mutex_flag (mutex_of s m)"
  shows "owner_ok s' = owner_ok s"
proof -
  have i: "taken_object_list (thread_of s' t) = taken_object_list (thread_of s t)"
    "pending_object (thread_of s' t) = pending_object (thread_of s t)"
    "init_priority (thread_of s' t) = init_priority (thread_of s t)"
    "suspended s' t = suspended s t" for t
    using assms(1) by (auto simp: prio_frame_def thread_ids_def suspended_def)
  have f: "mutex_owner (mutex_of s' m) = mutex_owner (mutex_of s m)"
    "mutex_hold (mutex_of s' m) = mutex_hold (mutex_of s m)"
    "set (thread_lists s' (MutexQ m)) = set (thread_lists s (MutexQ m))" "registry s' = registry s" for m
    using assms(1) by (auto simp: prio_frame_def)
  show ?thesis unfolding owner_ok_def i f assms(2) by simp
qed

lemma change_priority_owner_ok:
  "kernel_inv s \<Longrightarrow> unat p < RT_THREAD_PRIORITY_MAX \<Longrightarrow>
   owner_ok (snd (rt_sched_thread_change_priority t p s)) = owner_ok s"
  by (rule owner_ok_frame[OF change_priority_spec(2)]) simp_all

lemma owned_level: "owner_ok s \<Longrightarrow> mutex_owner (mutex_of s m) = Some t \<Longrightarrow>
  thread_get_mutex_priority t s \<le> mutex_priority (mutex_of s m)"
  using mutex_priority_le(2)[where m = m and t = t and s = s] owner_okD(1)[of s m t] by (simp add: mutex_level_def)

lemma mutex_priority_bound: "owner_ok s \<Longrightarrow> unat (thread_get_mutex_priority t s) < RT_THREAD_PRIORITY_MAX"
  using mutex_priority_le(1)[of t s] owner_okD(9)[of s t] by (auto simp: word_le_nat_alt intro: le_less_trans)

text \<open>Changing the priority of \<open>t\<close> to a level that suits the mutexes it owns exempts
  it as a waiter only.\<close>

lemma change_priority_prio_ok:
  assumes k: "kernel_inv s" and o: "prio_ok {} Y s" and Y: "Y \<subseteq> {t}"
    and p: "unat p < RT_THREAD_PRIORITY_MAX"
    and lev: "\<And>m. mutex_owner (mutex_of s m) = Some t \<Longrightarrow> p \<le> mutex_priority (mutex_of s m)"
  shows "prio_ok {t} {} (snd (rt_sched_thread_change_priority t p s))"
proof -
  note c = change_priority_spec[OF k p, where t = t]
  have m: "map (\<lambda>u. if u = t then p else cur_prio s u) (filter (\<lambda>w. w \<noteq> t) ws) =
      map (cur_prio s) (filter (\<lambda>w. w \<noteq> t) ws)" for ws
    by simp
  have so: "sorted (map (cur_prio s) (filter (\<lambda>w. w \<noteq> t) (thread_lists s (MutexQ i))))" for i
    using o by (auto simp: prio_ok_def intro: sorted_filter)
  have "cur_prio s u \<le> mutex_priority (mutex_of s i)" if "u \<noteq> t" "mutex_owner (mutex_of s i) = Some u" for i u
    using o Y that unfolding prio_ok_def by blast
  then show ?thesis using o so lev by (simp add: prio_ok_def c(3,4) m)
qed

text \<open>One round of the loop: \<open>t\<close> goes to its place in the queue of its pending mutex
  and the mutex takes the priority of the first waiter.\<close>

definition requeue :: "oid \<Rightarrow> tid \<Rightarrow> kstate \<Rightarrow> kstate" where
  "requeue m t s = snd (mutex_update_priority m
    (rt_susp_list_enqueue (MutexQ m) t (mutex_flag (mutex_of s m)) (unlink_thread t s)))"

lemma mutex_update_priority_simps [simp]:
  "thread_lists (snd (mutex_update_priority m s)) = thread_lists s"
  "thread_of (snd (mutex_update_priority m s)) = thread_of s"
  "kernel_inv (snd (mutex_update_priority m s)) = kernel_inv s"
  "mutex_of (snd (mutex_update_priority m s)) = (mutex_of s)(m := (mutex_of s m)
    \<lparr> mutex_priority := case thread_lists s (MutexQ m) of [] \<Rightarrow> 0xff | t # _ \<Rightarrow> cur_prio s t \<rparr>)"
  "rt_current_thread (snd (mutex_update_priority m s)) = rt_current_thread s"
  "sem_of (snd (mutex_update_priority m s)) = sem_of s" "mailbox_of (snd (mutex_update_priority m s)) = mailbox_of s"
  "mq_of (snd (mutex_update_priority m s)) = mq_of s" "registry (snd (mutex_update_priority m s)) = registry s"
  "timer_of (snd (mutex_update_priority m s)) = timer_of s" "timer_lists (snd (mutex_update_priority m s)) = timer_lists s"
  "rt_tick (snd (mutex_update_priority m s)) = rt_tick s"
  "rt_scheduler_lock_nest (snd (mutex_update_priority m s)) = rt_scheduler_lock_nest s"
  by (simp_all add: mutex_update_priority_def Let_def rt_sched_thread_get_curr_prio_def cong: list.case_cong)

lemma mutex_update_priority_frame: "prio_frame s (snd (mutex_update_priority m s))"
  by (simp add: prio_frame_def thread_state_def fun_eq_iff)

text \<open>Setting the priority of a mutex from its sorted queue.\<close>

lemma mutex_update_priority_ok:
  assumes "prio_ok {} Y s" and "\<And>ow. mutex_owner (mutex_of s m) = Some ow \<Longrightarrow> ow \<in> Y'" and "Y \<subseteq> Y'"
  shows "prio_ok {} Y' (snd (mutex_update_priority m s))"
proof -
  have so: "sorted (map (cur_prio s) (thread_lists s (MutexQ i)))" for i using assms(1) by (simp add: prio_ok_def)
  have "(case thread_lists s (MutexQ m) of [] \<Rightarrow> 0xff | t # _ \<Rightarrow> cur_prio s t) \<le> cur_prio s w"
    if "w \<in> set (thread_lists s (MutexQ m))" for w
    using so[of m] that by (cases "thread_lists s (MutexQ m)") auto
  moreover have "cur_prio s t \<le> mutex_priority (mutex_of s i)" if "mutex_owner (mutex_of s i) = Some t" "t \<notin> Y'" for i t
    using assms(1,3) that unfolding prio_ok_def by blast
  ultimately show ?thesis using assms(1,2) by (auto simp: prio_ok_def)
qed

lemma requeue_spec:
  assumes k: "kernel_inv s" and o: "owner_ok s" and p: "prio_ok {t} {} s"
    and sp: "suspended s t" and pe: "pending_object (thread_of s t) = Some m"
    and ow: "mutex_owner (mutex_of s m) = Some ow"
  shows "kernel_inv (requeue m t s)" and "prio_frame s (requeue m t s)" and "owner_ok (requeue m t s)"
    and "prio_ok {} {ow} (requeue m t s)" and "thread_of (requeue m t s) = thread_of s"
    and "i \<noteq> m \<Longrightarrow> mutex_of (requeue m t s) i = mutex_of s i"
proof -
  have t: "t \<in> set (thread_lists s (MutexQ m))" by (rule owner_okD(8)[OF o sp pe])
  then have fl: "mutex_flag (mutex_of s m) = RT_IPC_FLAG_PRIO" by (rule owner_okD(7)[OF o])
  define s2 where "s2 = rt_susp_list_enqueue (MutexQ m) t (mutex_flag (mutex_of s m)) (unlink_thread t s)"
  have q: "queue_inv s" and r: "run_ok s" using k by (auto simp: kernel_inv_def sched_inv_def)
  have st: "thread_state (unlink_thread t s) = thread_state s" by (simp add: thread_state_def fun_eq_iff)
  have "run_ok (unlink_thread t s)" using r by (simp add: run_ok_def st)
  then have i1: "sched_inv (unlink_thread t s)"
    using unlink_suspended_inv(1)[OF q sp] by (simp add: sched_inv_def)
  have "sched_inv s2" unfolding s2_def
    by (rule enqueue_sched_inv[OF i1 unlink_suspended_inv(2)[OF q sp]]) (use sp st in \<open>simp_all add: suspended_def\<close>)
  then have k2: "kernel_inv s2"
    using k by (simp add: kernel_inv_def ttmr_ok_def suspended_def thread_state_def s2_def)
  have nt: "t \<notin> set (thread_lists s l)" if "l \<noteq> MutexQ m" for l using one_list[OF k t, of l] that by blast
  have li: "thread_lists s2 l = (if l = MutexQ m then prio_insert (cur_prio s) t (removeAll t (thread_lists s l))
      else thread_lists s l)" for l
    using nt[of l] fl by (simp add: s2_def enqueue_lists enqueue_order_simps)
  have th2: "thread_of s2 = thread_of s" "mutex_of s2 = mutex_of s" by (simp_all add: s2_def)
  have f2: "prio_frame s s2"
    using t by (auto simp: prio_frame_def li thread_state_def th2 fun_eq_iff) (simp_all add: s2_def)
  have rq: "requeue m t s = snd (mutex_update_priority m s2)" by (simp add: requeue_def s2_def)
  have nti: "removeAll t (thread_lists s (MutexQ i)) = thread_lists s (MutexQ i)" if "i \<noteq> m" for i
    using nt[of "MutexQ i"] that by (intro removeAll_notin) simp
  have so: "sorted (map (cur_prio s) (removeAll t (thread_lists s (MutexQ i))))" for i
    using p by (simp add: prio_ok_def filter_neq_removeAll)
  have "prio_ok {} {ow} (snd (mutex_update_priority m s2))"
  proof -
    have s2so: "sorted (map (cur_prio s) (thread_lists s2 (MutexQ i)))" for i
      using so[of i] nti[of i] prio_insert_sorted[OF so[of m], of t] by (cases "i = m") (simp_all add: li)
    have hd: "(case thread_lists s2 (MutexQ m) of [] \<Rightarrow> 0xff | t # _ \<Rightarrow> cur_prio s2 t) \<le> cur_prio s w"
      if "w \<in> set (thread_lists s2 (MutexQ m))" for w
      using s2so[of m] that by (cases "thread_lists s2 (MutexQ m)") (auto simp: th2)
    have oth: "mutex_priority (mutex_of s i) \<le> cur_prio s w" if "w \<in> set (thread_lists s2 (MutexQ i))" "i \<noteq> m" for i w
      using p that nt[of "MutexQ i"] by (auto simp: prio_ok_def li)
    have own: "cur_prio s u \<le> mutex_priority (mutex_of s i)" if "mutex_owner (mutex_of s i) = Some u" "i \<noteq> m" for i u
      using p that by (simp add: prio_ok_def)
    show ?thesis using s2so hd oth own ow by (auto simp: prio_ok_def th2)
  qed
  then show "prio_ok {} {ow} (requeue m t s)" by (simp add: rq)
  show fr: "prio_frame s (requeue m t s)"
    unfolding rq by (rule prio_frame_trans[OF f2 mutex_update_priority_frame])
  show "owner_ok (requeue m t s)" using owner_ok_frame[OF fr] o by (simp add: rq th2)
  show "kernel_inv (requeue m t s)" "thread_of (requeue m t s) = thread_of s" using k2 by (simp_all add: rq th2)
  show "i \<noteq> m \<Longrightarrow> mutex_of (requeue m t s) i = mutex_of s i" by (simp add: rq th2)
qed

section \<open>The inheritance chain\<close>

text \<open>The owner a thread waits for.\<close>

definition waits_for :: "kstate \<Rightarrow> tid \<Rightarrow> tid option" where
  "waits_for s t =
    (if suspended s t then Option.bind (pending_object (thread_of s t)) (\<lambda>m. mutex_owner (mutex_of s m)) else None)"

text \<open>Following the chain comes to an end: there is no deadlock.\<close>

inductive chain_ends :: "(tid \<Rightarrow> tid option) \<Rightarrow> tid \<Rightarrow> bool" where
  "nxt t = None \<Longrightarrow> chain_ends nxt t"
| "nxt t = Some u \<Longrightarrow> chain_ends nxt u \<Longrightarrow> chain_ends nxt t"

lemma waits_for_frame: "prio_frame s s' \<Longrightarrow> waits_for s' = waits_for s"
proof
  fix t
  assume f: "prio_frame s s'"
  then have "suspended s' t = suspended s t" "pending_object (thread_of s' t) = pending_object (thread_of s t)"
    "(\<lambda>m. mutex_owner (mutex_of s' m)) = (\<lambda>m. mutex_owner (mutex_of s m))"
    by (auto simp: prio_frame_def suspended_def thread_ids_def)
  then show "waits_for s' t = waits_for s t" by (simp add: waits_for_def)
qed

text \<open>One unfolding of the loop in terms of \<open>requeue\<close>.\<close>

lemma update_loop_unfold:
  assumes o: "owner_ok s"
  shows "update_priority_loop t s =
    (if \<not> suspended s t then Some s
     else case pending_object (thread_of s t) of None \<Rightarrow> Some s
     | Some m \<Rightarrow>
        (case mutex_owner (mutex_of s m) of None \<Rightarrow> None
         | Some ow \<Rightarrow>
            let s' = requeue m t s; p = thread_get_mutex_priority ow s' in
            if p \<noteq> cur_prio s' ow then update_priority_loop ow (snd (rt_sched_thread_change_priority ow p s'))
            else Some s'))"
proof (cases "suspended s t \<and> pending_object (thread_of s t) \<noteq> None")
  case True
  then obtain m where m: "pending_object (thread_of s t) = Some m" and sp: "suspended s t" by auto
  have ty: "rt_object_get_type (OMutex m) (registry s) = RT_Object_Class_Mutex"
    using owner_okD(6)[OF o owner_okD(8)[OF o sp m]] .
  show ?thesis
    by (subst update_priority_loop.simps, cases "mutex_owner (mutex_of s m)")
      (simp_all add: is_suspended_eq sp m ty requeue_def rt_sched_thread_get_curr_prio_def Let_def)
next
  case False
  then show ?thesis by (subst update_priority_loop.simps) (auto simp: is_suspended_eq)
qed

text \<open>A round ends the loop in a good state or moves it to the owner.\<close>

lemma update_loop_round:
  assumes k: "kernel_inv s" and o: "owner_ok s" and p: "prio_ok {t} {} s"
  obtains (stop) s' where "update_priority_loop t s = Some s'" and "kernel_inv s'" and "mutex_inv s'"
      and "prio_frame s s'" and "exact_prio s \<Longrightarrow> exact_prio s'"
    | (go) ow s' where "update_priority_loop t s = update_priority_loop ow s'" and "waits_for s t = Some ow"
      and "kernel_inv s'" and "owner_ok s'" and "prio_ok {ow} {} s'" and "prio_frame s s'"
      and "exact_prio s \<Longrightarrow> exact_prio s'"
proof (cases "suspended s t \<and> pending_object (thread_of s t) \<noteq> None")
  case False
  then have l: "update_priority_loop t s = Some s" using update_loop_unfold[OF o] by auto
  have "t \<notin> set (thread_lists s (MutexQ m))" for m
    using False waiter_suspended[OF k, of "MutexQ m" t] owner_okD(4)[OF o, of t m] by auto
  then have "filter (\<lambda>w. w \<notin> {t}) (thread_lists s (MutexQ m)) = thread_lists s (MutexQ m)"
    "set (thread_lists s (MutexQ m)) - {t} = set (thread_lists s (MutexQ m))" for m
    by (auto intro!: filter_True)
  then have "mutex_inv s" using p o by (simp add: mutex_inv_def prio_ok_def)
  then show ?thesis using stop l k by auto
next
  case True
  then obtain m where m: "pending_object (thread_of s t) = Some m" and sp: "suspended s t" by auto
  obtain ow where ow: "mutex_owner (mutex_of s m) = Some ow"
    using owner_okD(5)[OF o owner_okD(8)[OF o sp m]] by auto
  define s1 where "s1 = requeue m t s"
  define p1 where "p1 = thread_get_mutex_priority ow s1"
  note r = requeue_spec[OF k o p sp m ow, folded s1_def]
  have w: "waits_for s t = Some ow" using sp m ow by (simp add: waits_for_def)
  have own1: "mutex_owner (mutex_of s1 i) = mutex_owner (mutex_of s i)" for i
    using r(2) by (simp add: prio_frame_def)
  have ex: "cur_prio s1 u = thread_get_mutex_priority u s1" if "exact_prio s" "u \<noteq> ow" for u
  proof -
    have "m \<notin> set (taken_object_list (thread_of s u))" using owner_okD(1)[OF o, of m u] ow that(2) by auto
    then have "thread_get_mutex_priority u s1 = thread_get_mutex_priority u s"
      by (intro mutex_priority_cong) (simp_all add: r(5), metis r(6))
    then show ?thesis using that(1) r(5) by (simp add: exact_prio_def)
  qed
  have lev: "p1 \<le> mutex_priority (mutex_of s1 i)" if "mutex_owner (mutex_of s1 i) = Some ow" for i
    using owned_level[OF r(3) that] by (simp add: p1_def)
  show ?thesis
  proof (cases "p1 = cur_prio s1 ow")
    case True
    have "update_priority_loop t s = Some s1"
      using update_loop_unfold[OF o, of t] sp m ow True by (simp add: Let_def s1_def p1_def)
    moreover have "prio_ok {} {} s1" using prio_ok_owner[OF r(4)] lev True by simp
    moreover have "exact_prio s1" if "exact_prio s" using ex[OF that] True unfolding exact_prio_def p1_def by metis
    ultimately show ?thesis using stop r by (auto simp: mutex_inv_def)
  next
    case False
    define s2 where "s2 = snd (rt_sched_thread_change_priority ow p1 s1)"
    have pb: "unat p1 < RT_THREAD_PRIORITY_MAX" unfolding p1_def by (rule mutex_priority_bound[OF r(3)])
    note c = change_priority_spec[OF r(1) pb, where t = ow, folded s2_def]
    have "update_priority_loop t s = update_priority_loop ow s2"
      using update_loop_unfold[OF o, of t] sp m ow False by (simp add: Let_def s1_def p1_def s2_def)
    moreover have "owner_ok s2" using change_priority_owner_ok[OF r(1) pb] r(3) by (simp add: s2_def)
    moreover have "prio_ok {ow} {} s2"
      unfolding s2_def by (rule change_priority_prio_ok[OF r(1,4) _ pb lev]) auto
    moreover have "thread_get_mutex_priority u s2 = thread_get_mutex_priority u s1" for u
      using c(2) by (simp add: thread_get_mutex_priority_def prio_frame_def thread_ids_def s2_def
          rt_sched_thread_get_init_prio_def)
    then have "exact_prio s2" if "exact_prio s" using ex[OF that] c(3) by (auto simp: exact_prio_def p1_def)
    ultimately show ?thesis using go w c(1) prio_frame_trans[OF r(2) c(2)] by blast
  qed
qed

lemma update_loop_total:
  assumes "chain_ends (waits_for s) t" and "kernel_inv s" and "owner_ok s" and "prio_ok {t} {} s"
  shows "\<exists>r. update_priority_loop t s = Some r \<and> kernel_inv r \<and> mutex_inv r \<and> prio_frame s r \<and>
    (exact_prio s \<longrightarrow> exact_prio r)"
proof -
  have "waits_for s = nxt \<Longrightarrow> kernel_inv s \<Longrightarrow> owner_ok s \<Longrightarrow> prio_ok {t} {} s \<Longrightarrow>
    \<exists>r. update_priority_loop t s = Some r \<and> kernel_inv r \<and> mutex_inv r \<and> prio_frame s r \<and>
    (exact_prio s \<longrightarrow> exact_prio r)" if "chain_ends nxt t" for nxt
    using that
  proof (induction arbitrary: s)
    case (1 nxt t)
    from 1(3-5) show ?case
      by (rule update_loop_round) (use 1(1,2) in auto)
  next
    case (2 nxt t u)
    from 2(5-7) show ?case
    proof (rule update_loop_round)
      fix ow s'
      assume a: "update_priority_loop t s = update_priority_loop ow s'" "waits_for s t = Some ow" "kernel_inv s'"
        "owner_ok s'" "prio_ok {ow} {} s'" "prio_frame s s'" "exact_prio s \<Longrightarrow> exact_prio s'"
      then have "ow = u" "waits_for s' = nxt" using 2(1,4) waits_for_frame[OF a(6)] by auto
      then show ?thesis using 2(3)[of s'] a prio_frame_trans[OF a(6)] by auto
    qed auto
  qed
  then show ?thesis using assms by blast
qed

lemma thread_update_priority_spec:
  assumes k: "kernel_inv s" and o: "owner_ok s" and po: "prio_ok {} Y s" and Y: "Y \<subseteq> {t}"
    and p: "unat p < RT_THREAD_PRIORITY_MAX"
    and lev: "\<And>m. mutex_owner (mutex_of s m) = Some t \<Longrightarrow> p \<le> mutex_priority (mutex_of s m)"
    and ch: "chain_ends (waits_for s) t"
  obtains r where "thread_update_priority t p s = Some r" and "kernel_inv r" and "mutex_inv r"
    and "prio_frame s r"
    and "(\<And>u. u \<noteq> t \<Longrightarrow> cur_prio s u = thread_get_mutex_priority u s) \<Longrightarrow> p = thread_get_mutex_priority t s \<Longrightarrow>
      exact_prio r"
proof -
  define s1 where "s1 = snd (rt_sched_thread_change_priority t p s)"
  note c = change_priority_spec[OF k p, where t = t, folded s1_def]
  have "chain_ends (waits_for s1) t" using ch waits_for_frame[OF c(2)] by simp
  moreover have "owner_ok s1" using o change_priority_owner_ok[OF k p] by (simp add: s1_def)
  moreover have "prio_ok {t} {} s1"
    unfolding s1_def by (rule change_priority_prio_ok[OF k po Y p lev])
  ultimately obtain r where r: "update_priority_loop t s1 = Some r" "kernel_inv r" "mutex_inv r"
    "prio_frame s1 r" "exact_prio s1 \<longrightarrow> exact_prio r"
    using update_loop_total[OF _ c(1)] by blast
  have pr: "thread_get_mutex_priority u s1 = thread_get_mutex_priority u s" for u
    using c(2) by (intro mutex_priority_cong) (auto simp: prio_frame_def thread_ids_def s1_def)
  have "exact_prio r" if "\<And>u. u \<noteq> t \<Longrightarrow> cur_prio s u = thread_get_mutex_priority u s"
    "p = thread_get_mutex_priority t s"
    using that r(5) c(3) pr by (auto simp: exact_prio_def)
  then show ?thesis
    using that r prio_frame_trans[OF c(2) r(4)] by (auto simp: thread_update_priority_def s1_def)
qed

section \<open>What the mutex invariant depends on\<close>

definition mutex_view ::
  "kstate \<Rightarrow> (oid \<Rightarrow> tid list) \<times> (oid \<Rightarrow> rt_mutex) \<times> kobj objsys \<times> (tid \<Rightarrow> u8 \<times> u8 \<times> oid list \<times> oid option \<times> bool)" where
  "mutex_view s = (\<lambda>m. thread_lists s (MutexQ m), mutex_of s, registry s,
     \<lambda>t. (cur_prio s t, init_priority (thread_of s t), taken_object_list (thread_of s t),
          pending_object (thread_of s t), suspended s t))"

lemma mutex_view_fields:
  assumes "mutex_view s' = mutex_view s"
  shows "thread_lists s' (MutexQ m) = thread_lists s (MutexQ m)" and "mutex_of s' = mutex_of s"
    and "registry s' = registry s" and "cur_prio s' t = cur_prio s t"
    and "init_priority (thread_of s' t) = init_priority (thread_of s t)"
    and "taken_object_list (thread_of s' t) = taken_object_list (thread_of s t)"
    and "pending_object (thread_of s' t) = pending_object (thread_of s t)"
    and "suspended s' t = suspended s t"
  using assms by (auto simp: mutex_view_def dest: fun_cong[of _ _ m] fun_cong[of _ _ t])

lemma mutex_view_cong:
  assumes "mutex_view s' = mutex_view s"
  shows "owner_ok s' = owner_ok s" and "prio_ok X Y s' = prio_ok X Y s" and "mutex_inv s' = mutex_inv s"
    and "exact_prio s' = exact_prio s" and "waits_for s' = waits_for s"
    and "thread_get_mutex_priority t s' = thread_get_mutex_priority t s"
proof -
  note v = mutex_view_fields[OF assms]
  show o: "owner_ok s' = owner_ok s" unfolding owner_ok_def v by simp
  have c: "cur_prio s' = cur_prio s" using v(4) by auto
  show p: "prio_ok X Y s' = prio_ok X Y s" for X Y unfolding prio_ok_def v(1,2) c v(4) by simp
  show "mutex_inv s' = mutex_inv s" using o p by (simp add: mutex_inv_def)
  show m: "thread_get_mutex_priority t s' = thread_get_mutex_priority t s" for t
    by (rule mutex_priority_cong) (simp_all add: v)
  show "exact_prio s' = exact_prio s" unfolding exact_prio_def m v(4) ..
  show "waits_for s' = waits_for s" by (rule ext) (simp add: waits_for_def v)
qed

lemma view_schedule:
  assumes "sched_inv s"
  shows "mutex_view (rt_schedule s) = mutex_view s"
  using schedule_states(1,4)[OF assms] same_but_stat_simps[OF schedule_same_but_stat[of s]]
  by (simp add: mutex_view_def)

lemma spin_lock_simps [simp]:
  "thread_lists (rt_spin_lock s) = thread_lists s" "thread_of (rt_spin_lock s) = thread_of s"
  "mutex_of (rt_spin_lock s) = mutex_of s" "registry (rt_spin_lock s) = registry s"
  "rt_current_thread (rt_spin_lock s) = rt_current_thread s" "timer_of (rt_spin_lock s) = timer_of s"
  "rt_scheduler_lock_nest (rt_spin_lock s) = rt_scheduler_lock_nest s + 1"
  "sem_of (rt_spin_lock s) = sem_of s" "mailbox_of (rt_spin_lock s) = mailbox_of s" "mq_of (rt_spin_lock s) = mq_of s"
  "rt_tick (rt_spin_lock s) = rt_tick s" "timer_lists (rt_spin_lock s) = timer_lists s"
  "rt_thread_ready_priority_group (rt_spin_lock s) = rt_thread_ready_priority_group s"
  by (simp_all add: rt_spin_lock_def rt_enter_critical_def Let_def)

lemma spin_lock_inv [simp]:
  "kernel_inv (rt_spin_lock s) = kernel_inv s" "mutex_view (rt_spin_lock s) = mutex_view s"
  "suspended (rt_spin_lock s) t = suspended s t" "thread_state (rt_spin_lock s) t = thread_state s t"
  "timer_ready (rt_spin_lock s) t = timer_ready s t"
  by (rule kernel_inv_cong) (simp_all add: mutex_view_def suspended_def thread_state_def timer_ready_def)

lemma unlock_eq:
  assumes "rt_scheduler_lock_nest s = 1" and "rt_current_thread s \<noteq> None"
  shows "rt_spin_unlock s = rt_schedule (s\<lparr> rt_scheduler_lock_nest := 0 \<rparr>)"
  using assms by (simp add: rt_spin_unlock_def rt_exit_critical_def Let_def)

lemma unlock_spec:
  assumes k: "kernel_inv s"
  shows "kernel_inv (rt_spin_unlock s)" and "mutex_view (rt_spin_unlock s) = mutex_view s"
    and "thread_error (thread_of (rt_spin_unlock s) u) = thread_error (thread_of s u)"
    and "timer_of (rt_spin_unlock s) = timer_of s" and "timer_lists (rt_spin_unlock s) = timer_lists s"
    and "wait_list l \<Longrightarrow> thread_lists (rt_spin_unlock s) l = thread_lists s l"
    and "sem_of (rt_spin_unlock s) = sem_of s"
proof -
  define s0 where "s0 n = s\<lparr> rt_scheduler_lock_nest := n \<rparr>" for n
  have k0: "kernel_inv (s0 n)" for n using k kernel_inv_cong[of "s0 n" s] by (simp add: s0_def)
  have v0: "mutex_view (s0 n) = mutex_view s" for n
    by (simp add: mutex_view_def s0_def suspended_def thread_state_def)
  have i0: "sched_inv (s0 n)" for n using k0 by (simp add: kernel_inv_def)
  have "rt_spin_unlock s = s0 (rt_scheduler_lock_nest s - 1) \<or> rt_spin_unlock s = s0 0
      \<or> rt_spin_unlock s = rt_schedule (s0 0)"
    by (simp add: rt_spin_unlock_def rt_exit_critical_def Let_def s0_def)
  moreover have "thread_error (thread_of (rt_schedule (s0 0)) u) = thread_error (thread_of s u)"
    using same_but_stat_simps(1)[OF schedule_same_but_stat[of "s0 0" u]] by (simp add: s0_def)
  moreover have "wait_list l \<Longrightarrow> thread_lists (rt_schedule (s0 0)) l = thread_lists s l"
    using schedule_states(4)[OF i0[of 0], of l] by (simp add: s0_def)
  ultimately show "kernel_inv (rt_spin_unlock s)" "mutex_view (rt_spin_unlock s) = mutex_view s"
    "thread_error (thread_of (rt_spin_unlock s) u) = thread_error (thread_of s u)"
    "timer_of (rt_spin_unlock s) = timer_of s" "timer_lists (rt_spin_unlock s) = timer_lists s"
    "wait_list l \<Longrightarrow> thread_lists (rt_spin_unlock s) l = thread_lists s l"
    "sem_of (rt_spin_unlock s) = sem_of s"
    using k0 v0 schedule_kernel_inv[OF k0[of 0]] view_schedule[OF i0[of 0]] by (auto simp: s0_def)
qed

lemma upd_error_simps:
  fixes e :: int
  defines "f \<equiv> \<lambda>x :: rt_thread. x\<lparr> thread_error := e \<rparr>"
  shows "kernel_inv s \<Longrightarrow> kernel_inv (upd_thread t f s)" and "mutex_view (upd_thread t f s) = mutex_view s"
    and "thread_state (upd_thread t f s) u = thread_state s u" and "suspended (upd_thread t f s) u = suspended s u"
  using neutral_kernel_inv[of s t f]
  by (auto simp: f_def mutex_view_def suspended_def thread_state_def sched_neutral_def fun_eq_iff)

section \<open>Taking\<close>

text \<open>Lowering the priority field of a mutex towards a new waiter.\<close>

lemma level_lowered:
  assumes "m \<in> set (taken_object_list (thread_of s t))" and "q \<le> mutex_priority (mutex_of s m)"
  shows "thread_get_mutex_priority t (upd_mutex m (\<lambda>x. x\<lparr> mutex_priority := q \<rparr>) s) =
    min (thread_get_mutex_priority t s) q"
proof -
  let ?s = "upd_mutex m (\<lambda>x. x\<lparr> mutex_priority := q \<rparr>) s"
  have lv: "p \<le> mutex_level (mutex_of ?s i) \<longleftrightarrow> p \<le> mutex_level (mutex_of s i) \<and> (i = m \<longrightarrow> p \<le> q)" for p i
    using assms(2) by (cases "i = m") (auto simp: mutex_level_def intro: order_trans)
  have "p \<le> thread_get_mutex_priority t ?s \<longleftrightarrow> p \<le> min (thread_get_mutex_priority t s) q" for p
    unfolding mutex_priority_ge min.bounded_iff lv using assms(1) by auto
  from this[of "thread_get_mutex_priority t ?s"] this[of "min (thread_get_mutex_priority t s) q"]
  show ?thesis by (simp add: order_antisym)
qed

lemma other_priority:
  assumes "owner_ok s" and "mutex_owner (mutex_of s m) \<noteq> Some t"
  shows "thread_get_mutex_priority t (upd_mutex m f s) = thread_get_mutex_priority t s"
  using owner_okD(1)[OF assms(1), of m t] assms(2) by (intro mutex_priority_cong) auto

lemma boost_owner_spec:
  assumes k: "kernel_inv s" and o: "owner_ok s" and po: "prio_ok {t} {} s"
    and so: "sorted (map (cur_prio s) (thread_lists s (MutexQ m)))" and t: "t \<in> set (thread_lists s (MutexQ m))"
    and ow: "mutex_owner (mutex_of s m) = Some ow" and ch: "chain_ends (waits_for s) ow"
  obtains r where "boost_owner m t s = Some r" and "kernel_inv r" and "mutex_inv r" and "prio_frame s r"
    and "exact_prio s \<Longrightarrow> exact_prio r"
proof -
  let ?p = "cur_prio s t"
  have nt: "t \<notin> set (thread_lists s (MutexQ i))" if "i \<noteq> m" for i using one_list[OF k t, of "MutexQ i"] that by blast
  have soi: "sorted (map (cur_prio s) (thread_lists s (MutexQ i)))" for i
  proof (cases "i = m")
    case False
    then have "filter (\<lambda>w. w \<notin> {t}) (thread_lists s (MutexQ i)) = thread_lists s (MutexQ i)"
      using nt[of i] by (auto intro!: filter_True)
    then show ?thesis using po unfolding prio_ok_def by metis
  qed (use so in simp)
  have oth: "mutex_priority (mutex_of s i) \<le> cur_prio s w" if "w \<in> set (thread_lists s (MutexQ i))" "w \<noteq> t" for i w
    using po that by (auto simp: prio_ok_def)
  have own: "cur_prio s u \<le> mutex_priority (mutex_of s i)" if "mutex_owner (mutex_of s i) = Some u" for i u
    using po that by (simp add: prio_ok_def)
  show ?thesis
  proof (cases "?p < mutex_priority (mutex_of s m)")
    case False
    have "prio_ok {} {} s" unfolding prio_ok_def using soi own oth nt False by (auto intro: leI) (metis leI)
    then show ?thesis using that k o False by (simp add: boost_owner_def rt_sched_thread_get_curr_prio_def mutex_inv_def)
  next
    case True
    define s1 where "s1 = upd_mutex m (\<lambda>x. x\<lparr> mutex_priority := ?p \<rparr>) s"
    have k1: "kernel_inv s1" using k by (simp add: s1_def)
    have fr: "prio_frame s s1" by (simp add: prio_frame_def s1_def thread_state_def fun_eq_iff)
    have o1: "owner_ok s1" using owner_ok_frame[OF fr] o by (simp add: s1_def)
    have pm: "?p \<le> cur_prio s w" if "w \<in> set (thread_lists s (MutexQ m))" for w
      using oth[OF that] True by (cases "w = t") auto
    have po1: "prio_ok {} {ow} s1" unfolding prio_ok_def using soi own oth nt pm ow by (auto simp: s1_def) (metis)
    have pr: "thread_get_mutex_priority u s1 =
        (if u = ow then min (thread_get_mutex_priority u s) ?p else thread_get_mutex_priority u s)" for u
      using level_lowered[of m s ow ?p] True owner_okD(1)[OF o, of m ow] ow other_priority[OF o, of m u]
      by (auto simp: s1_def)
    have b: "boost_owner m t s = (if ?p < cur_prio s ow then thread_update_priority ow ?p s1 else Some s1)"
      using True ow by (simp add: boost_owner_def rt_sched_thread_get_curr_prio_def s1_def Let_def)
    have ch1: "chain_ends (waits_for s1) ow" using ch waits_for_frame[OF fr] by simp
    have p: "unat ?p < RT_THREAD_PRIORITY_MAX"
      using k waiter_suspended[OF k _ t] suspended_states[of s t]
      by (auto simp: kernel_inv_def sched_inv_def queue_inv_def mask_ok_def)
    show ?thesis
    proof (cases "?p < cur_prio s ow")
      case boost: True
      have lev: "?p \<le> mutex_priority (mutex_of s1 i)" if "mutex_owner (mutex_of s1 i) = Some ow" for i
        using own[of i ow] that boost by (cases "i = m") (auto simp: s1_def)
      show ?thesis
      proof (rule thread_update_priority_spec[OF k1 o1 po1 subset_refl p lev ch1])
        fix r
        assume r: "thread_update_priority ow ?p s1 = Some r" "kernel_inv r" "mutex_inv r" "prio_frame s1 r"
          "(\<And>u. u \<noteq> ow \<Longrightarrow> cur_prio s1 u = thread_get_mutex_priority u s1) \<Longrightarrow>
           ?p = thread_get_mutex_priority ow s1 \<Longrightarrow> exact_prio r"
        have "exact_prio r" if "exact_prio s"
        proof (rule r(5))
          show "cur_prio s1 u = thread_get_mutex_priority u s1" if "u \<noteq> ow" for u
            using \<open>exact_prio s\<close> that pr[of u] by (simp add: exact_prio_def s1_def)
          show "?p = thread_get_mutex_priority ow s1"
            using that pr[of ow] boost by (simp add: exact_prio_def s1_def min.absorb4)
        qed
        then show thesis using that r b boost prio_frame_trans[OF fr r(4)] by auto
      qed
    next
      case False
      have "prio_ok {} {} s1"
        by (rule prio_ok_owner[OF po1]) (use own False in \<open>auto simp: s1_def not_less\<close>)
      moreover have "exact_prio s1" if "exact_prio s"
        using that False unfolding exact_prio_def pr by (auto simp: s1_def min_def not_less)
      ultimately show ?thesis using that b False k1 o1 fr by (auto simp: mutex_inv_def)
    qed
  qed
qed

text \<open>The state after the caller has been suspended on the mutex.\<close>

lemma mutex_block_state:
  assumes k: "kernel_inv s" and mi: "mutex_inv s" and run: "thread_state s t \<in> {RT_THREAD_READY, RT_THREAD_RUNNING}"
    and pe: "pending_object (thread_of s t) = None" and ow: "mutex_owner (mutex_of s m) = Some ow" and ne: "ow \<noteq> t"
    and ty: "rt_object_get_type (OMutex m) (registry s) = RT_Object_Class_Mutex"
    and fl: "mutex_flag (mutex_of s m) = RT_IPC_FLAG_PRIO"
  obtains s1 where "rt_thread_suspend_to_list t (Some (MutexQ m)) (mutex_flag (mutex_of s m)) sf s = (RT_EOK, s1)"
    and "kernel_inv (upd_thread t (\<lambda>x. x\<lparr> pending_object := Some m \<rparr>) s1)"
    and "owner_ok (upd_thread t (\<lambda>x. x\<lparr> pending_object := Some m \<rparr>) s1)"
    and "prio_ok {t} {} (upd_thread t (\<lambda>x. x\<lparr> pending_object := Some m \<rparr>) s1)"
    and "sorted (map (cur_prio s1) (thread_lists s1 (MutexQ m)))" and "t \<in> set (thread_lists s1 (MutexQ m))"
    and "waits_for (upd_thread t (\<lambda>x. x\<lparr> pending_object := Some m \<rparr>) s1) = (waits_for s)(t := Some ow)"
    and "suspended s1 t" and "mutex_of s1 = mutex_of s" and "rt_current_thread s1 = rt_current_thread s"
    and "rt_scheduler_lock_nest s1 = rt_scheduler_lock_nest s" and "rt_tick s1 = rt_tick s"
    and "exact_prio s \<Longrightarrow> exact_prio (upd_thread t (\<lambda>x. x\<lparr> pending_object := Some m \<rparr>) s1)"
    and "\<And>u. u \<noteq> t \<Longrightarrow> thread_state s1 u = thread_state s u"
    and "\<And>u. cur_prio s1 u = cur_prio s u"
proof -
  have w': "\<And>l. Some (MutexQ m) = Some l \<Longrightarrow> wait_list l" by auto
  obtain x where x: "rt_thread_suspend_to_list t (Some (MutexQ m)) RT_IPC_FLAG_PRIO sf s = (RT_EOK, x)"
    "kernel_inv x" "suspended x t" "\<And>u. u \<noteq> t \<Longrightarrow> thread_of x u = thread_of s u"
    "\<And>j. thread_lists x (MutexQ j) =
      (if j = m then prio_insert (cur_prio s) t (thread_lists s (MutexQ j)) else thread_lists s (MutexQ j))"
    "current_priority (thread_of x t) = current_priority (thread_of s t)"
    "taken_object_list (thread_of x t) = taken_object_list (thread_of s t)"
    "init_priority (thread_of x t) = init_priority (thread_of s t)"
    "rt_current_thread x = rt_current_thread s" "rt_tick x = rt_tick s" "mutex_of x = mutex_of s"
    "rt_scheduler_lock_nest x = rt_scheduler_lock_nest s"
    by (rule suspend_spec[OF k run w', where flags = RT_IPC_FLAG_PRIO and sf = sf and sl = "Some (MutexQ m)"])
      (auto simp: enqueue_order_simps)
  have rg: "registry x = registry s" using registry_suspend[of t "Some (MutexQ m)" RT_IPC_FLAG_PRIO sf s] x(1) by simp
  define y where "y = upd_thread t (\<lambda>x. x\<lparr> pending_object := Some m \<rparr>) x"
  have o: "owner_ok s" and po: "prio_ok {} {} s" using mi by (auto simp: mutex_inv_def)
  have nsp: "\<not> suspended s t" using run by (auto simp: suspended_def stat_defs)
  have c: "cur_prio y u = cur_prio s u" "cur_prio x u = cur_prio s u"
    "taken_object_list (thread_of y u) = taken_object_list (thread_of s u)"
    "init_priority (thread_of y u) = init_priority (thread_of s u)"
    "pending_object (thread_of y u) = (if u = t then Some m else pending_object (thread_of s u))" for u
    using x(4)[of u] x(6-8) by (cases "u = t"; simp add: y_def)+
  have sp: "suspended y u = (u = t \<or> suspended s u)" for u
    using x(3) x(4)[of u] by (cases "u = t") (auto simp: y_def suspended_def thread_state_def)
  have li: "thread_lists y (MutexQ j) =
      (if j = m then prio_insert (cur_prio s) t (thread_lists s (MutexQ j)) else thread_lists s (MutexQ j))" for j
    by (simp add: y_def x(5))
  have mo: "mutex_of y = mutex_of s" "registry y = registry s" by (simp_all add: y_def x(11) rg)
  have nt: "t \<notin> set (thread_lists s (MutexQ j))" for j using waiter_suspended[OF k, of "MutexQ j" t] nsp by auto
  have "kernel_inv y" unfolding y_def by (rule neutral_kernel_inv[OF _ _ x(2)]) (simp_all add: sched_neutral_def)
  moreover have "owner_ok y"
    unfolding owner_ok_def c sp mo
  proof (intro conjI allI ballI impI)
    fix j w assume w: "w \<in> set (thread_lists y (MutexQ j))"
    then have "w = t \<and> j = m \<or> w \<noteq> t \<and> w \<in> set (thread_lists s (MutexQ j))" using nt by (auto simp: li split: if_splits)
    then show "(if w = t then Some m else pending_object (thread_of s w)) = Some j"
      "mutex_owner (mutex_of s j) \<noteq> None" "mutex_owner (mutex_of s j) \<noteq> Some w"
      "rt_object_get_type (OMutex j) (registry s) = RT_Object_Class_Mutex"
      "mutex_flag (mutex_of s j) = RT_IPC_FLAG_PRIO"
      using owner_okD(4-7)[OF o, of w j] ow ne ty fl by auto
  next
    fix u j assume "u = t \<or> suspended s u" "(if u = t then Some m else pending_object (thread_of s u)) = Some j"
    then show "u \<in> set (thread_lists y (MutexQ j))" using owner_okD(8)[OF o, of u j] by (auto simp: li split: if_splits)
  qed (use owner_okD(1-3,9)[OF o] in auto)
  moreover have "prio_ok {t} {} y"
  proof -
    have f: "filter (\<lambda>w. w \<noteq> t) (thread_lists y (MutexQ j)) = thread_lists s (MutexQ j)" for j
      using removeAll_prio_insert[OF nt[of j]] removeAll_notin[OF nt[of j]] by (auto simp: li filter_neq_removeAll)
    then have "set (thread_lists y (MutexQ j)) - {t} = set (thread_lists s (MutexQ j))" for j
      using nt[of j] by (auto simp: li split: if_splits)
    moreover have "cur_prio y = cur_prio s" using c(1) by auto
    ultimately show ?thesis using po f unfolding prio_ok_def mo c(1) by simp
  qed
  moreover have "cur_prio x = cur_prio s" using c(2) by auto
  then have "sorted (map (cur_prio x) (thread_lists x (MutexQ m)))"
    using prio_insert_sorted[of "cur_prio s" "thread_lists s (MutexQ m)" t] po by (simp add: x(5) prio_ok_def)
  moreover have "waits_for y = (waits_for s)(t := Some ow)"
    by (rule ext) (simp add: waits_for_def sp c mo ow)
  moreover have "exact_prio y" if "exact_prio s"
    using that mutex_priority_cong[of y _ s] unfolding exact_prio_def c(1) by (simp add: c mo)
  moreover have "thread_state x u = thread_state s u" if "u \<noteq> t" for u using x(4)[OF that] by (simp add: thread_state_def)
  ultimately show ?thesis
    using that[of x] x(1,3,5,9-12) c(2) fl by (simp add: y_def)
qed

lemma registry_wait_timer [simp]: "registry (start_wait_timer t timeout s) = registry s"
  by (simp add: start_wait_timer_def rt_timer_control_def rt_timer_start_def rt_sem_release_def upd_sem_def
      rt_sched_thread_timer_start_def clear_tflag_def timer_remove_def case_prod_unfold Let_def
      split: timer_id.splits)

lemma wait_timer_view:
  assumes "kernel_inv s" and "timer_ready s t"
  shows "mutex_view (start_wait_timer t timeout s) = mutex_view s"
  using start_wait_timer_spec(2-4,7)[OF assms, of timeout]
  by (auto simp: mutex_view_def thread_view_def suspended_def fun_eq_iff)

lemma wait_timer_lock:
  assumes "timer_ready s t"
  shows "rt_scheduler_lock_nest (start_wait_timer t timeout s) = rt_scheduler_lock_nest s"
  using start_wait_timer_0[of timeout t s] start_wait_timer_fields(15)[OF assms, of timeout] by (cases "timeout > 0") auto

lemma mutex_take_blocks:
  assumes k: "kernel_inv s" and mi: "mutex_inv s" and mb: "may_block s t"
    and pe: "pending_object (thread_of s t) = None" and ow: "mutex_owner (mutex_of s m) = Some ow" and ne: "ow \<noteq> t"
    and ty: "rt_object_get_type (OMutex m) (registry s) = RT_Object_Class_Mutex"
    and fl: "mutex_flag (mutex_of s m) = RT_IPC_FLAG_PRIO" and to: "timeout \<noteq> 0"
    and ch: "chain_ends ((waits_for s)(t := Some ow)) t"
  obtains s' where "mutex_take m timeout sf s = (Blocked, s')" and "kernel_inv s'" and "mutex_inv s'"
    and "suspended s' t" and "t \<in> set (thread_lists s' (MutexQ m))"
    and "\<And>i. mutex_owner (mutex_of s' i) = mutex_owner (mutex_of s i)"
    and "\<And>i. mutex_hold (mutex_of s' i) = mutex_hold (mutex_of s i)" and "exact_prio s \<Longrightarrow> exact_prio s'"
proof -
  define s0 where "s0 = upd_thread t (\<lambda>x. x\<lparr> thread_error := RT_EOK \<rparr>) (rt_spin_lock s)"
  have c: "rt_current_thread s = Some t" "thread_state s t = RT_THREAD_RUNNING" "rt_scheduler_lock_nest s = 0"
    "timer_ready s t" using mb by (auto simp: may_block_def)
  have k0: "kernel_inv s0" using k upd_error_simps(1) by (simp add: s0_def)
  have v0: "mutex_view s0 = mutex_view s" by (simp add: s0_def upd_error_simps)
  note f0 = mutex_view_fields[OF v0]
  have st0: "thread_state s0 u = thread_state s u" for u by (simp add: s0_def upd_error_simps)
  have fr0: "mutex_of s0 = mutex_of s" "registry s0 = registry s" "rt_current_thread s0 = Some t"
    "rt_scheduler_lock_nest s0 = 1" "timer_ready s0 u = timer_ready s u" for u using c by (simp_all add: s0_def)
  have mi0: "mutex_inv s0" using mi mutex_view_cong(3)[OF v0] by simp
  obtain s1 where s1: "rt_thread_suspend_to_list t (Some (MutexQ m)) (mutex_flag (mutex_of s0 m)) sf s0 = (RT_EOK, s1)"
    and y: "kernel_inv (upd_thread t (\<lambda>x. x\<lparr> pending_object := Some m \<rparr>) s1)"
      "owner_ok (upd_thread t (\<lambda>x. x\<lparr> pending_object := Some m \<rparr>) s1)"
      "prio_ok {t} {} (upd_thread t (\<lambda>x. x\<lparr> pending_object := Some m \<rparr>) s1)"
      "waits_for (upd_thread t (\<lambda>x. x\<lparr> pending_object := Some m \<rparr>) s1) = (waits_for s0)(t := Some ow)"
      "exact_prio s0 \<Longrightarrow> exact_prio (upd_thread t (\<lambda>x. x\<lparr> pending_object := Some m \<rparr>) s1)"
    and x: "sorted (map (cur_prio s1) (thread_lists s1 (MutexQ m)))" "t \<in> set (thread_lists s1 (MutexQ m))"
      "suspended s1 t" "mutex_of s1 = mutex_of s0" "rt_current_thread s1 = rt_current_thread s0"
      "rt_scheduler_lock_nest s1 = rt_scheduler_lock_nest s0" "\<And>u. u \<noteq> t \<Longrightarrow> thread_state s1 u = thread_state s0 u"
    by (rule mutex_block_state[OF k0 mi0, where t = t and m = m and ow = ow and sf = sf])
      (use c pe ow ne ty fl st0 fr0 f0 in auto)
  define y1 where "y1 = upd_thread t (\<lambda>x. x\<lparr> pending_object := Some m \<rparr>) s1"
  note y' = y[folded y1_def]
  have ytr: "timer_ready y1 t" using c(4) fr0(5)[of t] timer_ready_suspend[of t "Some (MutexQ m)" "mutex_flag (mutex_of s0 m)" sf s0 t]
    by (simp add: y1_def s1)
  have ych: "chain_ends (waits_for y1) ow"
    using ch y'(4) mutex_view_cong(5)[OF v0] by (auto elim: chain_ends.cases)
  have cp: "map (cur_prio y1) (thread_lists y1 (MutexQ m)) = map (cur_prio s1) (thread_lists s1 (MutexQ m))"
    by (simp add: y1_def)
  have ysort: "sorted (map (cur_prio y1) (thread_lists y1 (MutexQ m)))" unfolding cp by (rule x(1))
  obtain r where r: "boost_owner m t y1 = Some r" "kernel_inv r" "mutex_inv r" "prio_frame y1 r"
    "exact_prio y1 \<Longrightarrow> exact_prio r"
    by (rule boost_owner_spec[OF y'(1-3) ysort _ _ ych]) (use x ow f0(2) in \<open>auto simp: y1_def\<close>)
  have rf: "timer_ready r t" "rt_current_thread r = Some t" "rt_scheduler_lock_nest r = 1" "suspended r t"
    "t \<in> set (thread_lists r (MutexQ m))" "\<And>u. thread_state r u = thread_state y1 u"
    using r(4) ytr x fr0 by (auto simp: prio_frame_def timer_ready_def y1_def suspended_def thread_state_def)
  define r1 where "r1 = start_wait_timer t timeout r"
  note sw = start_wait_timer_spec[OF r(2) rf(1), where timeout = timeout, folded r1_def]
  have v1: "mutex_view r1 = mutex_view r" unfolding r1_def by (rule wait_timer_view[OF r(2) rf(1)])
  note g = mutex_view_fields[OF v1]
  define s' where "s' = rt_spin_unlock r1"
  note u = unlock_spec[OF sw(1), folded s'_def]
  note h = mutex_view_fields[OF u(2)]
  have "rt_thread_self s' \<noteq> Some t"
  proof -
    obtain w where w: "thread_state s w = RT_THREAD_READY" using mb by (auto simp: may_block_def)
    then have wt: "w \<noteq> t" using c by auto
    have rd: "thread_state r1 w = RT_THREAD_READY"
      using sw(3)[of w] rf(6)[of w] x(7)[OF wt] st0 w wt by (simp add: y1_def thread_state_def)
    have e: "s' = rt_schedule (r1\<lparr> rt_scheduler_lock_nest := 0 \<rparr>)"
      using sw(10) rf wait_timer_lock[OF rf(1), of timeout] by (simp add: s'_def r1_def unlock_eq)
    have i: "sched_inv (r1\<lparr> rt_scheduler_lock_nest := 0 \<rparr>)"
      using sw(1) sched_inv_cong[of "r1\<lparr> rt_scheduler_lock_nest := 0 \<rparr>" r1] by (simp add: kernel_inv_def)
    show ?thesis unfolding e
      by (rule schedule_leaves[OF i, of t w])
        (use sw(10) rf g(8) rd in \<open>auto simp: suspended_def thread_state_def\<close>)
  qed
  then have res: "mutex_take m timeout sf s = (Blocked, s')"
    using c(1) ow ne to s1 r(1) fr0(1)
    by (simp add: mutex_take_def rt_thread_self_def Let_def s0_def[symmetric] y1_def go_on_def r1_def s'_def)
  have "mutex_inv s'" using r(3) mutex_view_cong(3)[OF v1] mutex_view_cong(3)[OF u(2)] by simp
  moreover have "suspended s' t" "t \<in> set (thread_lists s' (MutexQ m))" using g h rf by simp_all
  moreover have "mutex_owner (mutex_of s' i) = mutex_owner (mutex_of s i)"
    "mutex_hold (mutex_of s' i) = mutex_hold (mutex_of s i)" for i
    using g(2) h(2) r(4) x(4) fr0(1) by (auto simp: prio_frame_def y1_def)
  moreover have "exact_prio s'" if "exact_prio s"
    using that r(5) y'(5) mutex_view_cong(4)[OF v0] mutex_view_cong(4)[OF v1] mutex_view_cong(4)[OF u(2)] by simp
  ultimately show ?thesis using that res u(1) by blast
qed

lemma u8_le_max: "x \<le> (0xff :: u8)"
proof -
  have "unat x < 256" using unsigned_less[of x] by simp
  then show ?thesis by (simp add: word_le_nat_alt)
qed

text \<open>The free mutex: the caller becomes the owner, at the ceiling priority at least.\<close>

lemma grant_inv:
  assumes k: "kernel_inv s" and mi: "mutex_inv s" and st: "thread_state s t = RT_THREAD_RUNNING"
    and ow: "mutex_owner (mutex_of s m) = None"
  defines "s1 \<equiv> upd_mutex m (\<lambda>x. x\<lparr> mutex_owner := Some t, mutex_priority := 0xff, mutex_hold := 1 \<rparr>) s"
  defines "c \<equiv> ceiling_priority (mutex_of s m)"
  defines "r \<equiv> (if c \<noteq> 0xFF \<and> c < cur_prio s t then thread_update_priority t c s1 else Some s1)"
  obtains s2 where "r = Some s2" and "kernel_inv (insert_taken t m s2)" and "mutex_inv (insert_taken t m s2)"
    and "exact_prio s \<Longrightarrow> exact_prio (insert_taken t m s2)" and "cur_prio s2 t \<le> c" 
    and "mutex_of s2 = mutex_of s1"
    and "rt_current_thread s2 = rt_current_thread s" and "rt_scheduler_lock_nest s2 = rt_scheduler_lock_nest s"
proof -
  have o: "owner_ok s" and po: "prio_ok {} {} s" using mi by (auto simp: mutex_inv_def)
  have nsp: "\<not> suspended s t" using st by (simp add: suspended_def stat_defs)
  have k1: "kernel_inv s1" using k by (simp add: s1_def)
  have pt: "unat (cur_prio s t) < RT_THREAD_PRIORITY_MAX"
    using k st by (auto simp: kernel_inv_def sched_inv_def queue_inv_def mask_ok_def)
  define s2 where "s2 = (if c \<noteq> 0xFF \<and> c < cur_prio s t then snd (rt_sched_thread_change_priority t c s1) else s1)"
  define c' where "c' = min (cur_prio s t) c"
  have cb: "c < cur_prio s t \<Longrightarrow> unat c < RT_THREAD_PRIORITY_MAX" using pt by (simp add: word_less_nat_alt)
  note cp = change_priority_spec[OF k1 cb, where t = t]
  have k2: "kernel_inv s2" using k1 cp(1) by (simp add: s2_def)
  have fr: "prio_frame s1 s2" using cp(2) by (simp add: s2_def)
  have c2: "cur_prio s2 u = (if u = t then c' else cur_prio s u)" for u
    using cp(3)[of u] u8_le_max[of "cur_prio s t"] by (auto simp: s2_def c'_def s1_def min_def)
  have l2: "thread_lists s2 (MutexQ i) = thread_lists s (MutexQ i)" for i
    using cp(4)[of "MutexQ i"] by (simp add: s2_def s1_def)
  have m2: "mutex_of s2 = mutex_of s1" by (simp add: s2_def)
  have r: "r = Some s2"
  proof (cases "c \<noteq> 0xFF \<and> c < cur_prio s t")
    case True
    then have "\<not> suspended s2 t" using fr nsp by (simp add: prio_frame_def suspended_def s1_def thread_state_def)
    then show ?thesis
      using True by (simp add: r_def thread_update_priority_def s2_def update_priority_loop.simps is_suspended_eq)
  qed (auto simp: r_def s2_def)
  define s3 where "s3 = insert_taken t m s2"
  have k3: "kernel_inv s3" unfolding s3_def insert_taken_def
    by (rule neutral_kernel_inv[OF _ _ k2]) (simp_all add: sched_neutral_def)
  have i2: "thread_ids (thread_of s2 u) = thread_ids (thread_of s u)" for u
    using fr by (simp add: prio_frame_def s1_def)
  have sp2: "suspended s2 u = suspended s u" for u using fr by (simp add: prio_frame_def suspended_def) (simp add: s1_def)
  have f3: "taken_object_list (thread_of s3 u) = (if u = t then m # taken_object_list (thread_of s u) else taken_object_list (thread_of s u))"
    "pending_object (thread_of s3 u) = pending_object (thread_of s u)"
    "init_priority (thread_of s3 u) = init_priority (thread_of s u)"
    "cur_prio s3 u = (if u = t then c' else cur_prio s u)" "suspended s3 u = suspended s u" for u
    using i2[of u] i2[of t] c2[of u] sp2[of u]
    by (auto simp: s3_def insert_taken_def thread_ids_def suspended_def thread_state_def)
  have g3: "thread_lists s3 (MutexQ i) = thread_lists s (MutexQ i)" "registry s3 = registry s"
    "mutex_of s3 = mutex_of s1" for i
    using l2 m2 fr by (simp_all add: s3_def insert_taken_def prio_frame_def s1_def)
  have nt: "t \<notin> set (thread_lists s (MutexQ i))" for i using waiter_suspended[OF k, of "MutexQ i" t] nsp by auto
  have nw: "thread_lists s (MutexQ m) = []" using owner_okD(5)[OF o, of _ m] ow by (cases "thread_lists s (MutexQ m)") auto
  have ntk: "m \<notin> set (taken_object_list (thread_of s u))" for u using owner_okD(1)[OF o] ow by simp
  have "owner_ok s3"
    unfolding owner_ok_def f3 g3
  proof (intro conjI allI ballI impI)
    fix i w assume w: "w \<in> set (thread_lists s (MutexQ i))"
    then have "i \<noteq> m" using nw by auto
    then show "pending_object (thread_of s w) = Some i" "mutex_owner (mutex_of s1 i) \<noteq> None"
      "mutex_owner (mutex_of s1 i) \<noteq> Some w" "rt_object_get_type (OMutex i) (registry s) = RT_Object_Class_Mutex"
      "mutex_flag (mutex_of s1 i) = RT_IPC_FLAG_PRIO"
      using owner_okD(4-7)[OF o w] by (auto simp: s1_def)
  qed (use owner_okD(1-3,8,9)[OF o] ow ntk in \<open>auto simp: s1_def\<close>)
  moreover have "prio_ok {} {} s3"
  proof -
    have "map (\<lambda>u. if u = t then c' else cur_prio s u) (thread_lists s (MutexQ i)) =
        map (cur_prio s) (thread_lists s (MutexQ i))" for i
      using nt[of i] by auto
    then have "sorted (map (\<lambda>u. if u = t then c' else cur_prio s u) (thread_lists s (MutexQ i)))" for i
      using po by (simp only: prio_ok_def) simp
    moreover have "c' \<le> mutex_priority (mutex_of s i)" if "mutex_owner (mutex_of s i) = Some t" for i
      using po that by (auto simp: prio_ok_def c'_def intro: min.coboundedI1)
    ultimately show ?thesis
      using po nt nw u8_le_max by (auto simp: prio_ok_def g3 f3(4) s1_def)
  qed
  moreover have "exact_prio s3" if ex: "exact_prio s"
    unfolding exact_prio_def
  proof
    fix u
    show "cur_prio s3 u = thread_get_mutex_priority u s3"
    proof (cases "u = t")
      case False
      have "thread_get_mutex_priority u s3 = thread_get_mutex_priority u s"
        by (rule mutex_priority_cong) (use ntk[of u] False in \<open>auto simp: f3 g3 s1_def\<close>)
      then show ?thesis using ex False by (simp add: f3 exact_prio_def)
    next
      case True
      have lev: "p \<le> mutex_level (mutex_of s3 i) \<longleftrightarrow> (if i = m then p \<le> c else p \<le> mutex_level (mutex_of s i))" for p i
        using u8_le_max[of p] by (auto simp: g3 s1_def mutex_level_def c_def)
      have "p \<le> thread_get_mutex_priority t s3 \<longleftrightarrow> p \<le> min (thread_get_mutex_priority t s) c" for p
        unfolding mutex_priority_ge min.bounded_iff lev f3 using ntk[of t] by auto
      from this[of "thread_get_mutex_priority t s3"] this[of "min (thread_get_mutex_priority t s) c"]
      have "thread_get_mutex_priority t s3 = min (thread_get_mutex_priority t s) c" by (simp add: order_antisym)
      then show ?thesis using ex True by (simp add: f3 exact_prio_def c'_def)
    qed
  qed
  moreover have "cur_prio s2 t \<le> c" by (simp add: c2 c'_def)
  ultimately show ?thesis
    using that r k3 m2 fr by (auto simp: mutex_inv_def s3_def prio_frame_def s1_def)
qed

text \<open>Changing only the hold count of an owned mutex, away from zero.\<close>

lemma hold_inv:
  assumes "mutex_inv s" and "mutex_owner (mutex_of s m) \<noteq> None" and "h \<noteq> 0"
  defines "s' \<equiv> upd_mutex m (\<lambda>x. x\<lparr> mutex_hold := h \<rparr>) s"
  shows "mutex_inv s'" and "exact_prio s' = exact_prio s"
proof -
  have f: "mutex_owner (mutex_of s' i) = mutex_owner (mutex_of s i)" "mutex_flag (mutex_of s' i) = mutex_flag (mutex_of s i)"
    "mutex_priority (mutex_of s' i) = mutex_priority (mutex_of s i)"
    "mutex_hold (mutex_of s' i) = (if i = m then h else mutex_hold (mutex_of s i))" for i
    by (simp_all add: s'_def)
  have g: "thread_lists s' = thread_lists s" "thread_of s' = thread_of s" "registry s' = registry s"
    "suspended s' = suspended s" by (simp_all add: s'_def fun_eq_iff)
  have o: "owner_ok s" and po: "prio_ok {} {} s" using assms(1) by (auto simp: mutex_inv_def)
  have "owner_ok s'"
  proof (rule owner_okI, unfold f g)
    show "(mutex_owner (mutex_of s i) = None) = ((if i = m then h else mutex_hold (mutex_of s i)) = 0)" for i
      using owner_okD(3)[OF o, of i] assms(2,3) by auto
  qed (rule owner_okD[OF o]; assumption?)+
  moreover have "prio_ok {} {} s'" using po unfolding prio_ok_def f g .
  ultimately show "mutex_inv s'" by (simp add: mutex_inv_def)
  have "thread_get_mutex_priority t s' = thread_get_mutex_priority t s" for t
    unfolding thread_get_mutex_priority_def taken_priority_Min rt_sched_thread_get_init_prio_def g
    by (intro arg_cong[of _ _ Min] arg_cong2[of _ _ _ _ insert] image_cong) (auto simp: mutex_level_def s'_def)
  then show "exact_prio s' = exact_prio s" unfolding exact_prio_def g by simp
qed

text \<open>The state after the prologue of a take, and what the final unlock keeps.\<close>

definition take_prologue :: "tid \<Rightarrow> kstate \<Rightarrow> kstate" where
  "take_prologue t s = upd_thread t (\<lambda>x. x\<lparr> thread_error := RT_EOK \<rparr>) (rt_spin_lock s)"

lemma take_prologue_spec:
  assumes "kernel_inv s"
  shows "kernel_inv (take_prologue t s)" and "mutex_view (take_prologue t s) = mutex_view s"
    and "thread_state (take_prologue t s) u = thread_state s u" and "mutex_of (take_prologue t s) = mutex_of s"
    and "suspended (take_prologue t s) u = suspended s u"
    and "mutex_inv (take_prologue t s) = mutex_inv s" and "exact_prio (take_prologue t s) = exact_prio s"
proof -
  show v: "mutex_view (take_prologue t s) = mutex_view s" by (simp add: take_prologue_def upd_error_simps)
  show "kernel_inv (take_prologue t s)" "thread_state (take_prologue t s) u = thread_state s u"
    "mutex_of (take_prologue t s) = mutex_of s" "suspended (take_prologue t s) u = suspended s u"
    using assms upd_error_simps(1) by (simp_all add: take_prologue_def upd_error_simps(3,4))
  show "mutex_inv (take_prologue t s) = mutex_inv s" "exact_prio (take_prologue t s) = exact_prio s"
    using mutex_view_cong(3,4)[OF v] by simp_all
qed

lemma unlock_keeps:
  assumes "kernel_inv s"
  shows "kernel_inv (rt_spin_unlock s)" and "mutex_inv (rt_spin_unlock s) = mutex_inv s"
    and "exact_prio (rt_spin_unlock s) = exact_prio s" and "mutex_of (rt_spin_unlock s) = mutex_of s"
    and "cur_prio (rt_spin_unlock s) u = cur_prio s u" and "suspended (rt_spin_unlock s) u = suspended s u"
    and "thread_lists (rt_spin_unlock s) (MutexQ m) = thread_lists s (MutexQ m)"
    and "taken_object_list (thread_of (rt_spin_unlock s) u) = taken_object_list (thread_of s u)"
    and "init_priority (thread_of (rt_spin_unlock s) u) = init_priority (thread_of s u)"
    and "pending_object (thread_of (rt_spin_unlock s) u) = pending_object (thread_of s u)"
  using unlock_spec(1)[OF assms] mutex_view_cong(3,4)[OF unlock_spec(2)[OF assms]]
    mutex_view_fields[OF unlock_spec(2)[OF assms]] by auto

lemma mutex_take_free:
  assumes k: "kernel_inv s" and mi: "mutex_inv s" and c: "rt_current_thread s = Some t"
    and st: "thread_state s t = RT_THREAD_RUNNING" and ow: "mutex_owner (mutex_of s m) = None"
  obtains s' where "mutex_take m timeout sf s = (Ret RT_EOK, s')" and "kernel_inv s'" and "mutex_inv s'"
    and "exact_prio s \<Longrightarrow> exact_prio s'" and "cur_prio s' t \<le> ceiling_priority (mutex_of s m)"
    and "mutex_of s' = (mutex_of s)(m := (mutex_of s m)\<lparr> mutex_owner := Some t, mutex_priority := 0xff, mutex_hold := 1 \<rparr>)"
proof -
  define s0 where "s0 = take_prologue t s"
  note p = take_prologue_spec[OF k, of t, folded s0_def]
  define s1 where "s1 = upd_mutex m (\<lambda>x. x\<lparr> mutex_owner := Some t, mutex_priority := 0xff, mutex_hold := 1 \<rparr>) s0"
  define cl where "cl = ceiling_priority (mutex_of s0 m)"
  obtain s2 where s2: "(if cl \<noteq> 0xFF \<and> cl < cur_prio s0 t then thread_update_priority t cl s1 else Some s1) = Some s2"
    "kernel_inv (insert_taken t m s2)" "mutex_inv (insert_taken t m s2)"
    "exact_prio s0 \<Longrightarrow> exact_prio (insert_taken t m s2)" "cur_prio s2 t \<le> cl" "mutex_of s2 = mutex_of s1"
    by (rule grant_inv[OF p(1), where t = t and m = m, folded s1_def cl_def]) (use p mi st ow in auto)
  have s1': "thread_of s1 = thread_of s0" "ceiling_priority (mutex_of s1 m) = cl" by (simp_all add: s1_def cl_def)
  have "mutex_take m timeout sf s = (Ret RT_EOK, rt_spin_unlock (insert_taken t m s2))"
    using c ow s2(1) p(4)
    by (auto simp: mutex_take_def rt_thread_self_def Let_def take_prologue_def[symmetric] s0_def[symmetric]
        s1_def[symmetric] s1' rt_sched_thread_get_curr_prio_def split: if_splits)
  then show ?thesis
    using that unlock_keeps[OF s2(2)] s2(3-6) p(4,7) by (simp add: insert_taken_def s1_def cl_def)
qed

lemma mutex_take_again:
  assumes k: "kernel_inv s" and mi: "mutex_inv s" and c: "rt_current_thread s = Some t"
    and ow: "mutex_owner (mutex_of s m) = Some t"
  obtains s' where "mutex_take m timeout sf s =
      (if mutex_hold (mutex_of s m) < 0xFF then Ret RT_EOK else Ret (- RT_EFULL), s')"
    and "kernel_inv s'" and "mutex_inv s'" and "exact_prio s' = exact_prio s"
    and "mutex_of s' = (if mutex_hold (mutex_of s m) < 0xFF
      then (mutex_of s)(m := (mutex_of s m)\<lparr> mutex_hold := mutex_hold (mutex_of s m) + 1 \<rparr>) else mutex_of s)"
proof -
  define s0 where "s0 = take_prologue t s"
  note p = take_prologue_spec[OF k, of t, folded s0_def]
  define s1 where "s1 = upd_mutex m (\<lambda>x. x\<lparr> mutex_hold := mutex_hold (mutex_of s0 m) + 1 \<rparr>) s0"
  have e1: "upd_mutex m (\<lambda>x. x\<lparr> mutex_hold := mutex_hold x + 1 \<rparr>) s0 = s1" by (simp add: s1_def upd_mutex_def)
  have k1: "kernel_inv s1" using p(1) by (simp add: s1_def)
  have "h + 1 \<noteq> 0" if "h < 0xFF" for h :: u8
    using unat_incr_below[OF that] by (auto simp: unat_eq_0[symmetric])
  then have i1: "mutex_inv s1" "exact_prio s1 = exact_prio s0" if "mutex_hold (mutex_of s m) < 0xFF"
    using hold_inv[of s0 m "mutex_hold (mutex_of s0 m) + 1"] ow mi p that by (simp_all add: s1_def)
  define s' where "s' = rt_spin_unlock (if mutex_hold (mutex_of s m) < 0xFF then s1 else s0)"
  have "mutex_take m timeout sf s = (if mutex_hold (mutex_of s m) < 0xFF then Ret RT_EOK else Ret (- RT_EFULL), s')"
    using c ow p(4)
    by (simp add: mutex_take_def rt_thread_self_def Let_def take_prologue_def[symmetric] s0_def[symmetric]
        RT_MUTEX_HOLD_MAX_def e1 s'_def)
  then show ?thesis
    using that[of s'] unlock_keeps(1-4)[OF p(1)] unlock_keeps(1-4)[OF k1] p mi i1 by (simp add: s'_def s1_def)
qed

lemma mutex_take_denied:
  assumes k: "kernel_inv s" and mi: "mutex_inv s" and c: "rt_current_thread s = Some t"
    and ow: "mutex_owner (mutex_of s m) = Some ow" and ne: "ow \<noteq> t"
  obtains s' where "mutex_take m 0 sf s = (Ret (- RT_ETIMEOUT), s')" and "kernel_inv s'" and "mutex_inv s'"
    and "exact_prio s' = exact_prio s" and "mutex_of s' = mutex_of s" and "\<And>u. suspended s' u = suspended s u"
proof -
  define s0 where "s0 = take_prologue t s"
  note p = take_prologue_spec[OF k, of t, folded s0_def]
  define s1 where "s1 = upd_thread t (\<lambda>x. x\<lparr> thread_error := RT_ETIMEOUT \<rparr>) s0"
  have k1: "kernel_inv s1" using p(1) upd_error_simps(1) by (simp add: s1_def)
  have v1: "mutex_view s1 = mutex_view s0" by (simp add: s1_def upd_error_simps)
  have "mutex_take m 0 sf s = (Ret (- RT_ETIMEOUT), rt_spin_unlock s1)"
    using c ow ne p(4)
    by (simp add: mutex_take_def rt_thread_self_def Let_def take_prologue_def[symmetric] s0_def[symmetric] s1_def)
  then show ?thesis
    using that unlock_keeps[OF k1] mutex_view_cong(3,4)[OF v1] mutex_view_fields(2,8)[OF v1] mi p by simp
qed

section \<open>Releasing\<close>

definition next_owner :: "oid \<Rightarrow> kstate \<Rightarrow> tid option" where
  "next_owner m s = (case thread_lists s (MutexQ m) of [] \<Rightarrow> None | n # _ \<Rightarrow> Some n)"

text \<open>The state \<open>F\<close> after \<open>t\<close> has given up its last hold of \<open>m\<close>, seen from the state \<open>s\<close>
  before: the first waiter is the new owner, if there is one, and \<open>t\<close> has priority \<open>c\<close>.\<close>

definition handed_over :: "oid \<Rightarrow> tid \<Rightarrow> u8 \<Rightarrow> kstate \<Rightarrow> kstate \<Rightarrow> bool" where
  "handed_over m t c s F \<longleftrightarrow>
    mutex_of F = (mutex_of s)(m := (mutex_of s m)\<lparr> mutex_owner := next_owner m s,
      mutex_hold := (if next_owner m s = None then 0 else 1),
      mutex_priority := (case tl (thread_lists s (MutexQ m)) of [] \<Rightarrow> 0xff | w # _ \<Rightarrow> cur_prio s w) \<rparr>) \<and>
    registry F = registry s \<and>
    (\<forall>i. thread_lists F (MutexQ i) = (if i = m then tl (thread_lists s (MutexQ m)) else thread_lists s (MutexQ i))) \<and>
    (\<forall>u. taken_object_list (thread_of F u) = (if next_owner m s = Some u then [m] else []) @
           removeAll m (taken_object_list (thread_of s u)) \<and>
         pending_object (thread_of F u) = (if next_owner m s = Some u then None else pending_object (thread_of s u)) \<and>
         init_priority (thread_of F u) = init_priority (thread_of s u) \<and>
         suspended F u = (suspended s u \<and> next_owner m s \<noteq> Some u) \<and>
         cur_prio F u = (if u = t then c else cur_prio s u))"

lemma handed_overD:
  assumes "handed_over m t c s F"
  shows "mutex_owner (mutex_of F i) = (if i = m then next_owner m s else mutex_owner (mutex_of s i))"
    and "mutex_hold (mutex_of F i) = (if i = m then if next_owner m s = None then 0 else 1 else mutex_hold (mutex_of s i))"
    and "mutex_priority (mutex_of F i) = (if i = m
      then case tl (thread_lists s (MutexQ m)) of [] \<Rightarrow> 0xff | w # _ \<Rightarrow> cur_prio s w else mutex_priority (mutex_of s i))"
    and "mutex_flag (mutex_of F i) = mutex_flag (mutex_of s i)"
    and "ceiling_priority (mutex_of F i) = ceiling_priority (mutex_of s i)"
    and "registry F = registry s"
    and "thread_lists F (MutexQ i) = (if i = m then tl (thread_lists s (MutexQ m)) else thread_lists s (MutexQ i))"
    and "taken_object_list (thread_of F u) = (if next_owner m s = Some u then [m] else []) @
      removeAll m (taken_object_list (thread_of s u))"
    and "pending_object (thread_of F u) = (if next_owner m s = Some u then None else pending_object (thread_of s u))"
    and "init_priority (thread_of F u) = init_priority (thread_of s u)"
    and "suspended F u = (suspended s u \<and> next_owner m s \<noteq> Some u)"
    and "cur_prio F u = (if u = t then c else cur_prio s u)"
  using assms by (simp_all add: handed_over_def)

lemma next_owner_simps:
  "next_owner m s = None \<longleftrightarrow> thread_lists s (MutexQ m) = []"
  "next_owner m s = Some n \<longleftrightarrow> (\<exists>ws. thread_lists s (MutexQ m) = n # ws)"
  by (auto simp: next_owner_def split: list.splits)

lemma handed_over_inv:
  assumes k: "kernel_inv s" and mi: "mutex_inv s" and st: "\<not> suspended s t"
    and c: "\<And>i. i \<noteq> m \<Longrightarrow> mutex_owner (mutex_of s i) = Some t \<Longrightarrow> c \<le> mutex_priority (mutex_of s i)"
    and F: "handed_over m t c s F"
  shows "mutex_inv F"
proof -
  note f = handed_overD[OF F]
  have o: "owner_ok s" and po: "prio_ok {} {} s" using mi by (auto simp: mutex_inv_def)
  have so: "sorted (map (cur_prio s) (thread_lists s (MutexQ i)))" for i using po by (simp add: prio_ok_def)
  have d: "distinct (thread_lists s (MutexQ i))" for i by (rule lists_distinct[OF k])
  have nt: "t \<notin> set (thread_lists s (MutexQ i))" for i using waiter_suspended[OF k, of "MutexQ i" t] st by auto
  have sub: "w \<in> set (thread_lists s (MutexQ i))" "next_owner m s \<noteq> Some w"
    if w: "w \<in> set (thread_lists F (MutexQ i))" for w i
  proof -
    show a: "w \<in> set (thread_lists s (MutexQ i))" using w by (cases "thread_lists s (MutexQ m)") (auto simp: f(7) split: if_splits)
    show "next_owner m s \<noteq> Some w"
    proof
      assume "next_owner m s = Some w"
      then obtain ws where ws: "thread_lists s (MutexQ m) = w # ws" by (auto simp: next_owner_simps)
      then have "i = m" using one_list[OF k a, of "MutexQ m"] by simp
      then show False using w ws d[of m] by (simp add: f(7))
    qed
  qed
  have "owner_ok F"
  proof (rule owner_okI)
    fix i u
    have "m \<in> set (taken_object_list (thread_of s u)) \<longleftrightarrow> mutex_owner (mutex_of s m) = Some u" by (rule owner_okD(1)[OF o])
    then show "i \<in> set (taken_object_list (thread_of F u)) \<longleftrightarrow> mutex_owner (mutex_of F i) = Some u"
      using owner_okD(1)[OF o, of i u] by (auto simp: f(1,8))
    show "distinct (taken_object_list (thread_of F u))" using owner_okD(2)[OF o, of u] by (simp add: f(8) distinct_removeAll)
    show "mutex_owner (mutex_of F i) = None \<longleftrightarrow> mutex_hold (mutex_of F i) = 0"
      using owner_okD(3)[OF o, of i] by (simp add: f(1,2))
    show "unat (init_priority (thread_of F u)) < RT_THREAD_PRIORITY_MAX" using owner_okD(9)[OF o] by (simp add: f(10))
    { assume w: "u \<in> set (thread_lists F (MutexQ i))"
      note a = owner_okD(4-7)[OF o sub(1)[OF w]]
      show "pending_object (thread_of F u) = Some i" using a(1) sub(2)[OF w] by (simp add: f(9))
      show "\<exists>ow. mutex_owner (mutex_of F i) = Some ow \<and> ow \<noteq> u"
        using a(2) sub(2)[OF w] w by (cases "i = m") (auto simp: f(1,7) next_owner_def split: list.splits)
      show "rt_object_get_type (OMutex i) (registry F) = RT_Object_Class_Mutex" using a(3) by (simp add: f(6))
      show "mutex_flag (mutex_of F i) = RT_IPC_FLAG_PRIO" using a(4) by (simp add: f(4)) }
    assume "suspended F u" "pending_object (thread_of F u) = Some i"
    then have "u \<in> set (thread_lists s (MutexQ i))" "next_owner m s \<noteq> Some u"
      using owner_okD(8)[OF o, of u i] by (auto simp: f(9,11) split: if_splits)
    then show "u \<in> set (thread_lists F (MutexQ i))"
      by (cases "thread_lists s (MutexQ m)") (auto simp: f(7) next_owner_def)
  qed
  moreover have "prio_ok {} {} F"
  proof -
    have e: "cur_prio F w = cur_prio s w" if "w \<in> set (thread_lists F (MutexQ i))" for w i
      using sub(1)[OF that] nt by (auto simp: f(12))
    have "sorted (map (cur_prio s) (thread_lists F (MutexQ i)))" for i
      using so[of i] by (cases "thread_lists s (MutexQ m)") (auto simp: f(7))
    then have "sorted (map (cur_prio F) (thread_lists F (MutexQ i)))" for i
      using e[of _ i] by (metis (no_types, lifting) map_eq_conv)
    moreover have "mutex_priority (mutex_of F i) \<le> cur_prio F w" if w: "w \<in> set (thread_lists F (MutexQ i))" for w i
    proof (cases "i = m")
      case True
      then show ?thesis
        using w so[of m] e[OF w] by (cases "thread_lists s (MutexQ m)"; cases "tl (thread_lists s (MutexQ m))") (auto simp: f(3,7))
    next
      case False
      then show ?thesis using po sub(1)[OF w] e[OF w] by (simp add: f(3) prio_ok_def)
    qed
    moreover have "cur_prio F u \<le> mutex_priority (mutex_of F i)" if ow: "mutex_owner (mutex_of F i) = Some u" for u i
    proof (cases "i = m")
      case True
      then obtain ws where ws: "thread_lists s (MutexQ m) = u # ws" using ow by (auto simp: f(1) next_owner_simps)
      then have "u \<noteq> t" using nt[of m] by auto
      then show ?thesis using ws so[of m] True u8_le_max by (cases ws) (auto simp: f(3,12))
    next
      case False
      then show ?thesis using po ow c[of i] by (auto simp: f(1,3,12) prio_ok_def)
    qed
    ultimately show ?thesis by (simp add: prio_ok_def)
  qed
  ultimately show ?thesis by (simp add: mutex_inv_def)
qed

lemma remove_taken_simps [simp]:
  "taken_object_list (thread_of (remove_taken m s) u) = removeAll m (taken_object_list (thread_of s u))"
  "init_priority (thread_of (remove_taken m s) u) = init_priority (thread_of s u)"
  "pending_object (thread_of (remove_taken m s) u) = pending_object (thread_of s u)"
  "cur_prio (remove_taken m s) u = cur_prio s u" "mutex_of (remove_taken m s) = mutex_of s"
  "thread_lists (remove_taken m s) = thread_lists s" "registry (remove_taken m s) = registry s"
  "rt_current_thread (remove_taken m s) = rt_current_thread s" "timer_of (remove_taken m s) = timer_of s"
  "rt_scheduler_lock_nest (remove_taken m s) = rt_scheduler_lock_nest s"
  "rt_thread_ready_priority_group (remove_taken m s) = rt_thread_ready_priority_group s"
  "stat (thread_of (remove_taken m s) u) = stat (thread_of s u)"
  "number_mask (thread_of (remove_taken m s) u) = number_mask (thread_of s u)"
  "sched_flag_ttmr_set (thread_of (remove_taken m s) u) = sched_flag_ttmr_set (thread_of s u)"
  "sem_of (remove_taken m s) = sem_of s"
  by (simp_all add: remove_taken_def)

lemma remove_taken_kernel_inv [simp]: "kernel_inv (remove_taken m s) = kernel_inv s"
  "suspended (remove_taken m s) u = suspended s u" "thread_state (remove_taken m s) u = thread_state s u"
proof -
  have st: "thread_state (remove_taken m s) = thread_state s" by (simp add: thread_state_def fun_eq_iff)
  then show "thread_state (remove_taken m s) u = thread_state s u" by simp
  show "suspended (remove_taken m s) u = suspended s u" by (simp add: suspended_def st)
  then show "kernel_inv (remove_taken m s) = kernel_inv s"
    by (simp add: kernel_inv_def ttmr_ok_def sched_inv_def queue_inv_defs run_ok_def st suspended_def)
qed

text \<open>The priority a thread keeps when it gives a mutex back.\<close>

lemma priority_without:
  assumes "m \<in> set (taken_object_list (thread_of s t))"
  shows "thread_get_mutex_priority t s =
    min (thread_get_mutex_priority t (remove_taken m s)) (mutex_level (mutex_of s m))"
proof -
  have "p \<le> thread_get_mutex_priority t s \<longleftrightarrow>
      p \<le> min (thread_get_mutex_priority t (remove_taken m s)) (mutex_level (mutex_of s m))" for p
    unfolding mutex_priority_ge min.bounded_iff using assms by auto
  from this[of "thread_get_mutex_priority t s"]
    this[of "min (thread_get_mutex_priority t (remove_taken m s)) (mutex_level (mutex_of s m))"]
  show ?thesis by (simp add: order_antisym)
qed

lemma handed_over_exact:
  assumes k: "kernel_inv s" and mi: "mutex_inv s" and ex: "exact_prio s" and st: "\<not> suspended s t"
    and ow: "mutex_owner (mutex_of s m) = Some t" and ce: "next_owner m s = None \<or> ceiling_priority (mutex_of s m) = 0xFF"
    and F: "handed_over m t (thread_get_mutex_priority t (remove_taken m s)) s F"
  shows "exact_prio F"
  unfolding exact_prio_def
proof
  fix u
  note f = handed_overD[OF F]
  have o: "owner_ok s" and po: "prio_ok {} {} s" using mi by (auto simp: mutex_inv_def)
  have nt: "t \<notin> set (thread_lists s (MutexQ i))" for i using waiter_suspended[OF k, of "MutexQ i" t] st by auto
  have mu: "m \<in> set (taken_object_list (thread_of s u)) \<longleftrightarrow> u = t" using owner_okD(1)[OF o, of m u] ow by auto
  have lv: "i \<noteq> m \<Longrightarrow> mutex_level (mutex_of F i) = mutex_level (mutex_of s i)" for i
    by (simp add: mutex_level_def f(3,5))
  have T: "(\<forall>i \<in> set (taken_object_list (thread_of s u)) - {m}. p \<le> mutex_level (mutex_of F i)) \<longleftrightarrow>
      (\<forall>i \<in> set (taken_object_list (thread_of s u)) - {m}. p \<le> mutex_level (mutex_of s i))" for p
    by (intro ball_cong refl) (simp add: lv)
  have eqv: "p \<le> thread_get_mutex_priority u F \<longleftrightarrow> p \<le> thread_get_mutex_priority u (remove_taken m s)
      \<and> (next_owner m s = Some u \<longrightarrow> p \<le> mutex_level (mutex_of F m))" for p
    unfolding mutex_priority_ge f(10) remove_taken_simps
    by (cases "next_owner m s = Some u") (auto simp: f(8) T[symmetric])
  show "cur_prio F u = thread_get_mutex_priority u F"
  proof (cases "next_owner m s = Some u")
    case False
    then have "thread_get_mutex_priority u F = thread_get_mutex_priority u (remove_taken m s)"
      using eqv by (metis order_antisym order_refl)
    moreover have "thread_get_mutex_priority u (remove_taken m s) = cur_prio s u" if "u \<noteq> t"
    proof -
      have "thread_get_mutex_priority u (remove_taken m s) = thread_get_mutex_priority u s"
        using mu that by (intro mutex_priority_cong) auto
      then show ?thesis using ex by (simp add: exact_prio_def)
    qed
    ultimately show ?thesis by (simp add: f(12))
  next
    case True
    then obtain ws where ws: "thread_lists s (MutexQ m) = u # ws" by (auto simp: next_owner_simps)
    then have ut: "u \<noteq> t" using nt[of m] by auto
    have "thread_get_mutex_priority u (remove_taken m s) = thread_get_mutex_priority u s"
      using mu ut by (intro mutex_priority_cong) auto
    then have a: "thread_get_mutex_priority u (remove_taken m s) = cur_prio s u" using ex by (simp add: exact_prio_def)
    have "sorted (map (cur_prio s) (u # ws))" using po ws by (metis prio_ok_def filter_True empty_iff)
    then have "cur_prio s u \<le> mutex_level (mutex_of F m)"
      using ce True ws u8_le_max by (cases ws) (auto simp: mutex_level_def f(3,5))
    then have "p \<le> thread_get_mutex_priority u F \<longleftrightarrow> p \<le> cur_prio s u" for p using eqv a by (auto intro: order_trans)
    then have "thread_get_mutex_priority u F = cur_prio s u" by (metis order_antisym order_refl)
    then show ?thesis using ut by (simp add: f(12))
  qed
qed

lemma unlink_kernel_inv:
  assumes k: "kernel_inv s" and sp: "suspended s t"
  shows "kernel_inv (unlink_thread t s)" and "suspended (unlink_thread t s) u = suspended s u"
    and "thread_state (unlink_thread t s) u = thread_state s u"
proof -
  have st: "thread_state (unlink_thread t s) = thread_state s" by (simp add: thread_state_def fun_eq_iff)
  then show "suspended (unlink_thread t s) u = suspended s u" "thread_state (unlink_thread t s) u = thread_state s u"
    by (simp_all add: suspended_def)
  show "kernel_inv (unlink_thread t s)"
    using k unlink_suspended_inv(1)[OF _ sp]
    by (simp add: kernel_inv_def sched_inv_def run_ok_def ttmr_ok_def suspended_def st)
qed

lemma ready_view: "thread_view (thread_of (snd (rt_sched_thread_ready t s)) u) = thread_view (thread_of s u)"
  by (simp add: rt_sched_thread_ready_def case_prod_unfold Let_def insert_thread_effect timer_stop_fields thread_view_def)

text \<open>Waking the first waiter of the mutex.\<close>

lemma wake_next_spec:
  assumes k: "kernel_inv s" and l: "thread_lists s (MutexQ m) = n # ws"
  obtains s' where "wake_next (length (thread_lists s (MutexQ m))) m s = (Some n, s')" and "kernel_inv s'"
    and "\<And>i. thread_lists s' (MutexQ i) = (if i = m then ws else thread_lists s (MutexQ i))"
    and "\<And>u. thread_view (thread_of s' u) = thread_view (thread_of s u)"
    and "\<And>u. suspended s' u = (suspended s u \<and> u \<noteq> n)" and "mutex_of s' = mutex_of s" and "registry s' = registry s"
    and "rt_current_thread s' = rt_current_thread s" and "rt_scheduler_lock_nest s' = rt_scheduler_lock_nest s"
proof -
  have sp: "suspended s n" using waiter_suspended[OF k, of "MutexQ m" n] l by simp
  define x where "x = unlink_thread n s"
  note u = unlink_kernel_inv[OF k sp, folded x_def]
  have spx: "suspended x n" using sp u(2) by simp
  define y where "y = snd (rt_sched_thread_ready n x)"
  have r: "rt_sched_thread_ready n x = (0, y)" and ky: "kernel_inv y"
    using ready_effect[OF u(1) spx] by (simp_all add: y_def)
  have ix: "sched_inv x" using u(1) by (simp add: kernel_inv_def)
  note sp3 = thread_ready_spec[OF ix r]
  have w: "wake_next (length (thread_lists s (MutexQ m))) m s = (Some n, y)"
    using l r by (simp add: x_def[symmetric] RT_EOK_def Let_def)
  have d: "distinct (n # ws)" using lists_distinct[OF k, of "MutexQ m"] l by simp
  have nl: "n \<notin> set (thread_lists s (MutexQ i))" if "i \<noteq> m" for i
    using one_list[OF k, of n "MutexQ m" "MutexQ i"] l that by auto
  show ?thesis
  proof (rule that[OF w ky])
    show "thread_lists y (MutexQ i) = (if i = m then ws else thread_lists s (MutexQ i))" for i
      using sp3(4)[of "MutexQ i"] l d nl[of i] by (simp add: x_def)
    show "thread_view (thread_of y v) = thread_view (thread_of s v)" for v
      using ready_view[of n x v] by (simp add: y_def x_def)
    have "thread_state y v = (if v = n then if rt_current_thread x = Some n then RT_THREAD_RUNNING else RT_THREAD_READY
        else thread_state s v)" for v using sp3(3)[of v] u(3) by simp
    then show "suspended y v = (suspended s v \<and> v \<noteq> n)" for v by (auto simp: suspended_def stat_defs)
  qed (simp_all add: y_def x_def)
qed

text \<open>The priority the releasing thread ends up with.\<close>

definition released_prio :: "oid \<Rightarrow> tid \<Rightarrow> kstate \<Rightarrow> u8" where
  "released_prio m t s =
    (if ceiling_priority (mutex_of s m) \<noteq> 0xFF \<or> cur_prio s t = mutex_priority (mutex_of s m)
     then thread_get_mutex_priority t (remove_taken m s) else cur_prio s t)"

lemma released_prio_exact:
  assumes "exact_prio s" and "m \<in> set (taken_object_list (thread_of s t))"
  shows "released_prio m t s = thread_get_mutex_priority t (remove_taken m s)"
proof (cases "ceiling_priority (mutex_of s m) \<noteq> 0xFF \<or> cur_prio s t = mutex_priority (mutex_of s m)")
  case False
  then have "mutex_level (mutex_of s m) = mutex_priority (mutex_of s m)" using u8_le_max by (simp add: mutex_level_def min_def)
  then have "cur_prio s t = min (thread_get_mutex_priority t (remove_taken m s)) (mutex_priority (mutex_of s m))"
    using assms(1) priority_without[OF assms(2)] by (simp add: exact_prio_def)
  then show ?thesis using False by (auto simp: released_prio_def min_def split: if_splits)
qed (simp add: released_prio_def)

lemma released_prio_bound:
  assumes "mutex_inv s" and "i \<noteq> m" and "mutex_owner (mutex_of s i) = Some t"
  shows "released_prio m t s \<le> mutex_priority (mutex_of s i)"
proof -
  have "i \<in> set (taken_object_list (thread_of (remove_taken m s) t))"
    using assms owner_okD(1)[of s i t] by (auto simp: mutex_inv_def)
  from mutex_priority_le(2)[OF this] have "thread_get_mutex_priority t (remove_taken m s) \<le> mutex_priority (mutex_of s i)"
    by (simp add: mutex_level_def)
  moreover have "cur_prio s t \<le> mutex_priority (mutex_of s i)" using assms by (simp add: mutex_inv_def prio_ok_def)
  ultimately show ?thesis by (simp add: released_prio_def)
qed

lemma handed_over_cong: "mutex_view F' = mutex_view F \<Longrightarrow> handed_over m t c s F' = handed_over m t c s F"
  unfolding handed_over_def using mutex_view_fields[of F' F] by simp

lemma check_and_update_spec:
  fixes m :: oid
  assumes k: "kernel_inv s" and o: "unat (init_priority (thread_of s t)) < RT_THREAD_PRIORITY_MAX"
  defines "s' \<equiv> snd (check_and_update_prio t m s)"
  shows "kernel_inv s'" and "mutex_of s' = mutex_of s" and "registry s' = registry s"
    and "thread_lists s' (MutexQ i) = thread_lists s (MutexQ i)"
    and "rt_current_thread s' = rt_current_thread s" and "rt_scheduler_lock_nest s' = rt_scheduler_lock_nest s"
    and "thread_ids (thread_of s' u) = thread_ids (thread_of s u)" and "suspended s' u = suspended s u"
    and "cur_prio s' u = (if u = t then
      if ceiling_priority (mutex_of s m) \<noteq> 0xFF \<or> cur_prio s t = mutex_priority (mutex_of s m)
      then thread_get_mutex_priority t s else cur_prio s t else cur_prio s u)"
proof -
  define p where "p = thread_get_mutex_priority t s"
  have "unat p < RT_THREAD_PRIORITY_MAX"
    using mutex_priority_le(1)[of t s] o by (simp add: p_def word_le_nat_alt)
  note c = change_priority_spec[OF k this, where t = t]
  let ?c = "snd (rt_sched_thread_change_priority t p s)"
  have e: "s' = (if ceiling_priority (mutex_of s m) \<noteq> 0xFF \<or> cur_prio s t = mutex_priority (mutex_of s m) then ?c else s)"
    by (simp add: s'_def check_and_update_prio_def rt_sched_thread_get_curr_prio_def p_def)
  have "suspended ?c u = suspended s u" "thread_ids (thread_of ?c u) = thread_ids (thread_of s u)"
    using c(2) by (simp_all add: prio_frame_def suspended_def)
  then show "kernel_inv s'" "mutex_of s' = mutex_of s" "registry s' = registry s"
    "thread_lists s' (MutexQ i) = thread_lists s (MutexQ i)" "rt_current_thread s' = rt_current_thread s"
    "rt_scheduler_lock_nest s' = rt_scheduler_lock_nest s"
    "thread_ids (thread_of s' u) = thread_ids (thread_of s u)" "suspended s' u = suspended s u"
    "cur_prio s' u = (if u = t then
      if ceiling_priority (mutex_of s m) \<noteq> 0xFF \<or> cur_prio s t = mutex_priority (mutex_of s m)
      then thread_get_mutex_priority t s else cur_prio s t else cur_prio s u)"
    using k c(1,3,4) by (simp_all add: e p_def)
qed

lemma release_resume_view:
  assumes "kernel_inv x"
  shows "fst (go_on (mutex_release_resume b) t x) \<in> {Ret RT_EOK, Blocked}"
    and "kernel_inv (snd (go_on (mutex_release_resume b) t x))"
    and "mutex_view (snd (go_on (mutex_release_resume b) t x)) = mutex_view x"
  using assms schedule_kernel_inv[OF assms] view_schedule[of x]
  by (simp_all add: go_on_def mutex_release_resume_def kernel_inv_def)

lemma mutex_release_last:
  assumes k: "kernel_inv s" and mi: "mutex_inv s" and c: "rt_current_thread s = Some t" and st: "\<not> suspended s t"
    and ow: "mutex_owner (mutex_of s m) = Some t" and h: "mutex_hold (mutex_of s m) = 1"
  obtains r s' where "rt_mutex_release m s = (r, s')" and "r \<in> {Ret RT_EOK, Blocked}" and "kernel_inv s'"
    and "handed_over m t (released_prio m t s) s s'"
proof -
  note result = that
  have o: "owner_ok s" using mi by (simp add: mutex_inv_def)
  define s2 where "s2 = remove_taken m (upd_mutex m (\<lambda>x. x\<lparr> mutex_hold := mutex_hold x - 1 \<rparr>) (rt_spin_lock s))"
  have k2: "kernel_inv s2" using k by (simp add: s2_def)
  have f2: "mutex_of s2 = (mutex_of s)(m := (mutex_of s m)\<lparr> mutex_hold := 0 \<rparr>)" "registry s2 = registry s"
    "thread_lists s2 = thread_lists s" "\<And>u. suspended s2 u = suspended s u"
    "\<And>u. taken_object_list (thread_of s2 u) = removeAll m (taken_object_list (thread_of s u))"
    "\<And>u. init_priority (thread_of s2 u) = init_priority (thread_of s u)"
    "\<And>u. pending_object (thread_of s2 u) = pending_object (thread_of s u)" "\<And>u. cur_prio s2 u = cur_prio s u"
    using h by (simp_all add: s2_def)
  have "thread_get_mutex_priority t s2 = thread_get_mutex_priority t (remove_taken m s)"
    by (rule mutex_priority_cong) (auto simp: f2)
  define s3 where "s3 = snd (check_and_update_prio t m s2)"
  have "unat (init_priority (thread_of s2 t)) < RT_THREAD_PRIORITY_MAX" using owner_okD(9)[OF o] by (simp add: f2)
  note cu = check_and_update_spec[OF k2 this, where m = m, folded s3_def]
  have pr: "cur_prio s3 u = (if u = t then released_prio m t s else cur_prio s u)" for u
    using cu(9)[of u] \<open>thread_get_mutex_priority t s2 = _\<close> by (simp add: released_prio_def f2)
  have id3: "taken_object_list (thread_of s3 u) = removeAll m (taken_object_list (thread_of s u))"
    "init_priority (thread_of s3 u) = init_priority (thread_of s u)"
    "pending_object (thread_of s3 u) = pending_object (thread_of s u)" for u
    using cu(7)[of u] by (simp_all add: thread_ids_def f2)
  have fin: thesis if "kernel_inv F" "handed_over m t (released_prio m t s) s F"
    "rt_mutex_release m s = go_on (mutex_release_resume b) t (rt_spin_unlock F)" for F b
  proof -
    note a = release_resume_view[OF unlock_spec(1)[OF that(1)], of b t]
    have "mutex_view (snd (rt_mutex_release m s)) = mutex_view F" using a(3) unlock_spec(2)[OF that(1)] that(3) by simp
    then have "handed_over m t (released_prio m t s) s (snd (rt_mutex_release m s))"
      using that(2) handed_over_cong by blast
    then show ?thesis using result[OF prod.collapse[symmetric]] a(1,2) that(3) by simp
  qed
  have nt: "t \<notin> set (thread_lists s (MutexQ i))" for i using waiter_suspended[OF k, of "MutexQ i" t] st by auto
  obtain need where need: "check_and_update_prio t m s2 = (need, s3)" by (cases "check_and_update_prio t m s2") (simp add: s3_def)
  show ?thesis
  proof (cases "thread_lists s (MutexQ m)")
    case Nil
    define F where "F = upd_mutex m (\<lambda>x. x\<lparr> mutex_owner := None, mutex_priority := 0xff \<rparr>) s3"
    have "handed_over m t (released_prio m t s) s F"
      unfolding handed_over_def F_def using cu(2-4,8) f2 pr id3 Nil
      by (cases "mutex_of s m") (simp add: next_owner_def)
    moreover have "rt_mutex_release m s = go_on (mutex_release_resume need) t (rt_spin_unlock F)"
      using c ow h Nil cu(4)[of m] need f2(3)
      by (simp add: rt_mutex_release_def rt_thread_self_def Let_def s2_def[symmetric] F_def)
    ultimately show ?thesis using fin[of F need] cu(1) by (simp add: F_def)
  next
    case (Cons n ws)
    have l3: "thread_lists s3 (MutexQ m) = n # ws" using Cons cu(4)[of m] f2(3) by simp
    obtain s4 where s4: "wake_next (length (thread_lists s3 (MutexQ m))) m s3 = (Some n, s4)" "kernel_inv s4"
      "\<And>i. thread_lists s4 (MutexQ i) = (if i = m then ws else thread_lists s3 (MutexQ i))"
      "\<And>u. thread_view (thread_of s4 u) = thread_view (thread_of s3 u)"
      "\<And>u. suspended s4 u = (suspended s3 u \<and> u \<noteq> n)" "mutex_of s4 = mutex_of s3" "registry s4 = registry s3"
      using wake_next_spec[OF cu(1) l3] by metis
    have ntn: "n \<noteq> t" using nt[of m] Cons by auto
    define F where "F = snd (mutex_update_priority m (upd_thread n (\<lambda>x. x\<lparr> pending_object := None \<rparr>)
      (insert_taken n m (upd_mutex m (\<lambda>x. x\<lparr> mutex_owner := Some n, mutex_hold := 1 \<rparr>) s4))))"
    have kF: "kernel_inv F"
      using s4(2) neutral_kernel_inv[of "upd_mutex m (\<lambda>x. x\<lparr> mutex_owner := Some n, mutex_hold := 1 \<rparr>) s4" n
          "\<lambda>x. x\<lparr> taken_object_list := m # taken_object_list x \<rparr>"]
        neutral_kernel_inv[of "insert_taken n m (upd_mutex m (\<lambda>x. x\<lparr> mutex_owner := Some n, mutex_hold := 1 \<rparr>) s4)" n
          "\<lambda>x. x\<lparr> pending_object := None \<rparr>"]
      by (simp add: F_def insert_taken_def sched_neutral_def)
    have v4: "cur_prio s4 u = cur_prio s3 u" "taken_object_list (thread_of s4 u) = taken_object_list (thread_of s3 u)"
      "init_priority (thread_of s4 u) = init_priority (thread_of s3 u)"
      "pending_object (thread_of s4 u) = pending_object (thread_of s3 u)" for u
      using s4(4)[of u] by (simp_all add: thread_view_def)
    have ws: "(case ws of [] \<Rightarrow> 0xff | w # _ \<Rightarrow> cur_prio s4 w) = (case ws of [] \<Rightarrow> 0xff | w # _ \<Rightarrow> cur_prio s w)"
      using nt[of m] Cons by (cases ws) (auto simp: v4 pr)
    have g: "mutex_of F = (mutex_of s4)(m := (mutex_of s4 m)\<lparr> mutex_owner := Some n, mutex_hold := 1,
        mutex_priority := case ws of [] \<Rightarrow> 0xff | w # _ \<Rightarrow> cur_prio s4 w \<rparr>)"
      by (cases ws) (simp_all add: F_def insert_taken_def s4(3))
    have gt: "taken_object_list (thread_of F u) = (if u = n then [m] else []) @ taken_object_list (thread_of s4 u)"
      "pending_object (thread_of F u) = (if u = n then None else pending_object (thread_of s4 u))"
      "init_priority (thread_of F u) = init_priority (thread_of s4 u)" "cur_prio F u = cur_prio s4 u"
      "suspended F u = suspended s4 u" for u
      by (simp_all add: F_def insert_taken_def suspended_def thread_state_def)
    have gl: "thread_lists F (MutexQ i) = (if i = m then ws else thread_lists s (MutexQ i))" "registry F = registry s" for i
      using s4(3)[of i] cu(3,4) f2 s4(7) by (simp_all add: F_def insert_taken_def)
    have "handed_over m t (released_prio m t s) s F"
      unfolding handed_over_def g[unfolded ws] gt gl s4(5,6) v4 pr id3 cu(2,8) f2
      using Cons ntn by (auto simp: next_owner_def)
    moreover have "rt_mutex_release m s = go_on (mutex_release_resume True) t (rt_spin_unlock F)"
      using c ow h need l3 s4(1)
      by (simp add: rt_mutex_release_def rt_thread_self_def Let_def s2_def[symmetric] F_def)
    ultimately show ?thesis using fin[of F True] kF by simp
  qed
qed

lemma mutex_release_other:
  assumes k: "kernel_inv s" and mi: "mutex_inv s" and c: "rt_current_thread s = Some t"
    and ow: "mutex_owner (mutex_of s m) \<noteq> Some t"
  obtains s' where "rt_mutex_release m s = (Ret (- RT_ERROR), s')" and "kernel_inv s'" and "mutex_inv s'"
    and "mutex_of s' = mutex_of s" and "exact_prio s' = exact_prio s"
    and "init_priority (thread_of s' t) = init_priority (thread_of s t)"
proof -
  define s1 where "s1 = upd_thread t (\<lambda>x. x\<lparr> thread_error := - RT_ERROR \<rparr>) (rt_spin_lock s)"
  have k1: "kernel_inv s1" using k upd_error_simps(1) by (simp add: s1_def)
  have v1: "mutex_view s1 = mutex_view s" by (simp add: s1_def upd_error_simps)
  have "rt_mutex_release m s = (Ret (- RT_ERROR), rt_spin_unlock s1)"
    using c ow by (simp add: rt_mutex_release_def rt_thread_self_def Let_def s1_def)
  then show ?thesis
    using that unlock_keeps[OF k1] mutex_view_cong(3,4)[OF v1] mutex_view_fields[OF v1] mi by simp
qed

lemma mutex_release_nested:
  assumes k: "kernel_inv s" and mi: "mutex_inv s" and c: "rt_current_thread s = Some t"
    and ow: "mutex_owner (mutex_of s m) = Some t" and h: "mutex_hold (mutex_of s m) \<noteq> 1"
  obtains r s' where "rt_mutex_release m s = (r, s')" and "r \<in> {Ret RT_EOK, Blocked}" and "kernel_inv s'"
    and "mutex_inv s'" and "exact_prio s' = exact_prio s"
    and "mutex_of s' = (mutex_of s)(m := (mutex_of s m)\<lparr> mutex_hold := mutex_hold (mutex_of s m) - 1 \<rparr>)"
    and "unat (mutex_hold (mutex_of s m) - 1) + 1 = unat (mutex_hold (mutex_of s m))"
    and "init_priority (thread_of s' t) = init_priority (thread_of s t)"
proof -
  have o: "owner_ok s" using mi by (simp add: mutex_inv_def)
  have h0: "mutex_hold (mutex_of s m) \<noteq> 0" using owner_okD(3)[OF o, of m] ow by simp
  define hm where "hm = mutex_hold (mutex_of s m) - 1"
  have hm0: "hm \<noteq> 0" using h by (simp add: hm_def)
  have hm1: "unat hm + 1 = unat (mutex_hold (mutex_of s m))"
    using h0 by (simp add: hm_def unat_minus_one unat_gt_0)
  define s0 where "s0 = rt_spin_lock s"
  define s1 where "s1 = upd_mutex m (\<lambda>x. x\<lparr> mutex_hold := hm \<rparr>) s0"
  have k1: "kernel_inv s1" using k by (simp add: s1_def s0_def)
  have v0: "mutex_view s0 = mutex_view s" by (simp add: s0_def)
  have i1: "mutex_inv s1" "exact_prio s1 = exact_prio s"
    using hold_inv[of s0 m hm] hm0 ow mi mutex_view_cong(3,4)[OF v0] by (simp_all add: s1_def s0_def)
  define F where "F = rt_spin_unlock s1"
  note a = release_resume_view[OF unlock_keeps(1)[OF k1], of False t, folded F_def]
  note v = mutex_view_fields[OF a(3)] mutex_view_cong(3,4)[OF a(3)]
  have r: "rt_mutex_release m s = go_on (mutex_release_resume False) t F"
    using c ow hm0
    by (simp add: rt_mutex_release_def rt_thread_self_def Let_def F_def s1_def s0_def hm_def upd_mutex_def)
  define s' where "s' = snd (rt_mutex_release m s)"
  have "mutex_of s' = mutex_of s1" "mutex_inv s'" "exact_prio s' = exact_prio s" "kernel_inv s'"
    "init_priority (thread_of s' t) = init_priority (thread_of s t)"
    using v a(2) unlock_keeps[OF k1, folded F_def] i1 by (simp_all add: s'_def r s1_def s0_def)
  then show ?thesis
    using that[of "fst (rt_mutex_release m s)" s'] a(1) hm1 r by (simp add: s'_def s1_def s0_def hm_def)
qed

text \<open>With exact priorities, a thread without mutexes has its own priority.\<close>

lemma exact_own_priority:
  "exact_prio s \<Longrightarrow> taken_object_list (thread_of s t) = [] \<Longrightarrow> cur_prio s t = init_priority (thread_of s t)"
  by (simp add: exact_prio_def thread_get_mutex_priority_def rt_sched_thread_get_init_prio_def)

section \<open>Giving up a wait\<close>

text \<open>A waiter that leaves the queue and is no longer suspended.\<close>

lemma leave_queue_inv:
  assumes mi: "mutex_inv s"
    and li: "\<And>i. thread_lists F (MutexQ i) = removeAll t (thread_lists s (MutexQ i))"
    and sp: "\<And>u. suspended F u = (suspended s u \<and> u \<noteq> t)"
    and th: "\<And>u. cur_prio F u = cur_prio s u" "\<And>u. init_priority (thread_of F u) = init_priority (thread_of s u)"
      "\<And>u. taken_object_list (thread_of F u) = taken_object_list (thread_of s u)"
      "\<And>u. pending_object (thread_of F u) = pending_object (thread_of s u)"
    and mo: "mutex_of F = mutex_of s" "registry F = registry s"
  shows "mutex_inv F" and "exact_prio F = exact_prio s"
proof -
  have o: "owner_ok s" and po: "prio_ok {} {} s" using mi by (auto simp: mutex_inv_def)
  have "owner_ok F"
  proof (rule owner_okI, unfold li th mo sp)
    fix u i
    show "u \<in> set (removeAll t (thread_lists s (MutexQ i)))"
      if "suspended s u \<and> u \<noteq> t" "pending_object (thread_of s u) = Some i"
      using owner_okD(8)[OF o] that by simp
    { assume "u \<in> set (removeAll t (thread_lists s (MutexQ i)))"
      then have w: "u \<in> set (thread_lists s (MutexQ i))" by simp
      show "pending_object (thread_of s u) = Some i" "\<exists>ow. mutex_owner (mutex_of s i) = Some ow \<and> ow \<noteq> u"
        "rt_object_get_type (OMutex i) (registry s) = RT_Object_Class_Mutex"
        "mutex_flag (mutex_of s i) = RT_IPC_FLAG_PRIO"
        by (rule owner_okD(4-7)[OF o w])+ }
  qed (rule owner_okD(1-3,9)[OF o])+
  moreover have "prio_ok {} {} F"
  proof -
    have c: "cur_prio F = cur_prio s" using th(1) by auto
    have "sorted (map (cur_prio s) (removeAll t (thread_lists s (MutexQ i))))" for i
      using po by (auto simp: prio_ok_def filter_neq_removeAll[symmetric] intro: sorted_filter)
    then show ?thesis using po unfolding prio_ok_def li mo c th(1) by simp
  qed
  ultimately show "mutex_inv F" by (simp add: mutex_inv_def)
  have "thread_get_mutex_priority u F = thread_get_mutex_priority u s" for u
    by (rule mutex_priority_cong) (simp_all add: th mo)
  then show "exact_prio F = exact_prio s" unfolding exact_prio_def th(1) by simp
qed

text \<open>Forgetting the pending object of a thread that is not suspended.\<close>

lemma clear_pending_inv:
  assumes k: "kernel_inv s" and mi: "mutex_inv s" and sp: "\<not> suspended s t"
  defines "F \<equiv> upd_thread t (\<lambda>x. x\<lparr> pending_object := None \<rparr>) s"
  shows "mutex_inv F" and "exact_prio F = exact_prio s" and "mutex_of F = mutex_of s"
proof -
  have o: "owner_ok s" and po: "prio_ok {} {} s" using mi by (auto simp: mutex_inv_def)
  have f: "thread_lists F = thread_lists s" "mutex_of F = mutex_of s" "registry F = registry s"
    "\<And>u. suspended F u = suspended s u" "\<And>u. taken_object_list (thread_of F u) = taken_object_list (thread_of s u)"
    "\<And>u. init_priority (thread_of F u) = init_priority (thread_of s u)" "\<And>u. cur_prio F u = cur_prio s u"
    "\<And>u. pending_object (thread_of F u) = (if u = t then None else pending_object (thread_of s u))"
    by (simp_all add: F_def suspended_def thread_state_def)
  have nt: "t \<notin> set (thread_lists s (MutexQ i))" for i using waiter_suspended[OF k, of "MutexQ i" t] sp by auto
  have "owner_ok F"
  proof (rule owner_okI, unfold f)
    fix u i
    show "(if u = t then None else pending_object (thread_of s u)) = Some i" if "u \<in> set (thread_lists s (MutexQ i))"
      using owner_okD(4)[OF o that] nt[of i] that by auto
    show "u \<in> set (thread_lists s (MutexQ i))"
      if "suspended s u" "(if u = t then None else pending_object (thread_of s u)) = Some i"
      using owner_okD(8)[OF o that(1), of i] that(2) by (simp split: if_splits)
  qed (rule owner_okD[OF o]; assumption?)+
  moreover have "cur_prio F = cur_prio s" using f(7) by auto
  then have "prio_ok {} {} F" using po unfolding prio_ok_def f(1,2,7) by simp
  ultimately show "mutex_inv F" by (simp add: mutex_inv_def)
  have "thread_get_mutex_priority u F = thread_get_mutex_priority u s" for u
    by (rule mutex_priority_cong) (simp_all add: f)
  then show "exact_prio F = exact_prio s" unfolding exact_prio_def f(7) by simp
  show "mutex_of F = mutex_of s" by (rule f(2))
qed

text \<open>Refreshing the priority of a mutex after a waiter has left.\<close>

lemma refresh_mutex_spec:
  assumes k: "kernel_inv s" and mi: "mutex_inv s"
    and ch: "\<And>ow. mutex_owner (mutex_of s m) = Some ow \<Longrightarrow> chain_ends (waits_for s) ow"
  obtains r where "refresh_mutex m b s = Some r" and "kernel_inv r" and "mutex_inv r" and "prio_frame s r"
    and "b \<Longrightarrow> exact_prio s \<Longrightarrow> exact_prio r"
proof -
  define s1 where "s1 = snd (mutex_update_priority m s)"
  have o: "owner_ok s" and po: "prio_ok {} {} s" using mi by (auto simp: mutex_inv_def)
  have k1: "kernel_inv s1" using k by (simp add: s1_def)
  have fr: "prio_frame s s1" unfolding s1_def by (rule mutex_update_priority_frame)
  have o1: "owner_ok s1" using owner_ok_frame[OF fr] o by (simp add: s1_def)
  have "mutex_priority (mutex_of s m) \<le> (case thread_lists s (MutexQ m) of [] \<Rightarrow> 0xff | w # _ \<Rightarrow> cur_prio s w)"
    using po u8_le_max by (cases "thread_lists s (MutexQ m)") (auto simp: prio_ok_def)
  moreover have own: "cur_prio s u \<le> mutex_priority (mutex_of s i)" if "mutex_owner (mutex_of s i) = Some u" for u i
    using po that by (simp add: prio_ok_def)
  ultimately have "prio_ok {} {} s1"
    using prio_ok_owner[OF mutex_update_priority_ok[OF po, of m UNIV]] order_trans by (fastforce simp: s1_def)
  then have mi1: "mutex_inv s1" and po1: "prio_ok {} {} s1" using o1 by (simp_all add: mutex_inv_def)
  have pr: "thread_get_mutex_priority u s1 = thread_get_mutex_priority u s" if "mutex_owner (mutex_of s m) \<noteq> Some u" for u
    using owner_okD(1)[OF o, of m u] that by (intro mutex_priority_cong) (auto simp: s1_def)
  show ?thesis
  proof (cases "mutex_owner (mutex_of s m)")
    case None
    then have "exact_prio s1 = exact_prio s" using pr by (simp add: exact_prio_def s1_def)
    then show ?thesis using that[of s1] None k1 mi1 fr by (simp add: refresh_mutex_def Let_def s1_def)
  next
    case (Some ow)
    define p where "p = thread_get_mutex_priority ow s1"
    have pb: "unat p < RT_THREAD_PRIORITY_MAX" unfolding p_def by (rule mutex_priority_bound[OF o1])
    have lev: "p \<le> mutex_priority (mutex_of s1 i)" if "mutex_owner (mutex_of s1 i) = Some ow" for i
      using owned_level[OF o1 that] by (simp add: p_def)
    have ch1: "chain_ends (waits_for s1) ow" using ch[OF Some] waits_for_frame[OF fr] by simp
    have e: "refresh_mutex m b s = (if b \<and> p \<noteq> cur_prio s1 ow then thread_update_priority ow p s1 else Some s1)"
      using Some by (simp add: refresh_mutex_def s1_def p_def rt_sched_thread_get_curr_prio_def Let_def)
    have c1: "cur_prio s1 u = cur_prio s u" for u by (simp add: s1_def)
    show ?thesis
    proof (cases "b \<and> p \<noteq> cur_prio s1 ow")
      case True
      show ?thesis
      proof (rule thread_update_priority_spec[OF k1 o1 po1 empty_subsetI pb lev ch1])
        fix r
        assume r: "thread_update_priority ow p s1 = Some r" "kernel_inv r" "mutex_inv r" "prio_frame s1 r"
          "(\<And>u. u \<noteq> ow \<Longrightarrow> cur_prio s1 u = thread_get_mutex_priority u s1) \<Longrightarrow>
           p = thread_get_mutex_priority ow s1 \<Longrightarrow> exact_prio r"
        have "exact_prio r" if "exact_prio s"
          by (rule r(5)) (use that pr Some c1 in \<open>auto simp: exact_prio_def p_def\<close>)
        then show thesis using that[of r] e True r prio_frame_trans[OF fr r(4)] by simp
      qed
    next
      case False
      have "exact_prio s1" if b "exact_prio s"
        unfolding exact_prio_def
      proof
        fix u show "cur_prio s1 u = thread_get_mutex_priority u s1"
          using that False pr[of u] Some c1[of u] by (cases "u = ow") (auto simp: exact_prio_def p_def)
      qed
      then show ?thesis using that[of s1] e False k1 mi1 fr by auto
    qed
  qed
qed

lemma fire_thread_timer_frame:
  assumes k: "kernel_inv s" and sp: "suspended s t"
  shows "suspended (fire_thread_timer t s) u = (suspended s u \<and> u \<noteq> t)"
    and "cur_prio (fire_thread_timer t s) u = cur_prio s u"
    and "init_priority (thread_of (fire_thread_timer t s) u) = init_priority (thread_of s u)"
    and "taken_object_list (thread_of (fire_thread_timer t s) u) = taken_object_list (thread_of s u)"
    and "pending_object (thread_of (fire_thread_timer t s) u) = pending_object (thread_of s u)"
    and "registry (fire_thread_timer t s) = registry s"
proof -
  define s1 where "s1 = upd_thread t (\<lambda>x. x\<lparr> thread_error := - RT_ETIMEOUT \<rparr>)
    (clear_tflag (ThreadTimer t) RT_TIMER_FLAG_ACTIVATED (timer_remove (ThreadTimer t) s))"
  define s2 where "s2 = rt_sched_insert_thread t (unlink_thread t s1)"
  have e: "fire_thread_timer t s = rt_sched_unlock_n_resched s2"
    by (simp add: fire_thread_timer_def thread_timeout_def s1_def s2_def Let_def)
  have st1: "thread_state s1 u = thread_state s u" for u by (simp add: s1_def thread_state_def timer_op_defs)
  have "sched_inv (clear_tflag (ThreadTimer t) RT_TIMER_FLAG_ACTIVATED (timer_remove (ThreadTimer t) s))"
    using k by (subst sched_inv_cong[of _ s]) (simp_all add: kernel_inv_def timer_op_defs)
  then have i1: "sched_inv s1"
    using neutral_inv(3)[of _ t "\<lambda>x. x\<lparr> thread_error := - RT_ETIMEOUT \<rparr>"] by (simp add: s1_def sched_neutral_def)
  have sp1: "suspended s1 t" using sp st1 by (simp add: suspended_def)
  note mr = make_ready_inv[OF i1 sp1, folded s2_def]
  have "suspended s2 u = (suspended s u \<and> u \<noteq> t)"
    using mr(2)[of u] st1[of u] by (auto simp: suspended_def stat_defs)
  then show "suspended (fire_thread_timer t s) u = (suspended s u \<and> u \<noteq> t)"
    using schedule_states(1)[OF mr(1), of u] by (simp add: e rt_sched_unlock_n_resched_def)
  have sb: "same_but_stat (thread_of s2 u) (thread_of (fire_thread_timer t s) u)"
    using schedule_same_but_stat[of s2 u] by (simp add: e rt_sched_unlock_n_resched_def)
  have sb2: "same_but_stat (thread_of s1 u) (thread_of s2 u)"
    using insert_same_but_stat[of "unlink_thread t s1" u t] by (simp add: s2_def)
  show "cur_prio (fire_thread_timer t s) u = cur_prio s u"
    "init_priority (thread_of (fire_thread_timer t s) u) = init_priority (thread_of s u)"
    "taken_object_list (thread_of (fire_thread_timer t s) u) = taken_object_list (thread_of s u)"
    "pending_object (thread_of (fire_thread_timer t s) u) = pending_object (thread_of s u)"
    using same_but_stat_simps[OF sb] same_but_stat_simps[OF sb2] by (simp_all add: s1_def timer_op_defs)
  show "registry (fire_thread_timer t s) = registry s"
    by (simp add: e rt_sched_unlock_n_resched_def s2_def s1_def timer_op_defs)
qed

text \<open>The state in which a ceiling has been set.\<close>

lemma ceiling_state:
  fixes m :: oid and c :: u8
  assumes k: "kernel_inv s" and mi: "mutex_inv s"
  defines "s1 \<equiv> upd_mutex m (\<lambda>x. x\<lparr> ceiling_priority := c \<rparr>) (rt_spin_lock s)"
  shows "kernel_inv s1" and "mutex_inv s1" and "waits_for s1 = waits_for s"
    and "mutex_owner (mutex_of s m) \<noteq> Some u \<Longrightarrow> thread_get_mutex_priority u s1 = thread_get_mutex_priority u s"
    and "cur_prio s1 u = cur_prio s u" and "prio_frame s1 s1"
proof -
  have o: "owner_ok s" and po: "prio_ok {} {} s" using mi by (auto simp: mutex_inv_def)
  have f: "thread_lists s1 = thread_lists s" "thread_of s1 = thread_of s" "registry s1 = registry s"
    "suspended s1 = suspended s" by (simp_all add: s1_def fun_eq_iff)
  have g: "mutex_owner (mutex_of s1 i) = mutex_owner (mutex_of s i)" "mutex_hold (mutex_of s1 i) = mutex_hold (mutex_of s i)"
    "mutex_flag (mutex_of s1 i) = mutex_flag (mutex_of s i)"
    "mutex_priority (mutex_of s1 i) = mutex_priority (mutex_of s i)" for i by (simp_all add: s1_def)
  have "owner_ok s1" using o unfolding owner_ok_def f g .
  moreover have "prio_ok {} {} s1" using po unfolding prio_ok_def f g .
  ultimately show "mutex_inv s1" by (simp add: mutex_inv_def)
  show "kernel_inv s1" "cur_prio s1 u = cur_prio s u" "prio_frame s1 s1" using k by (simp_all add: s1_def)
  have w: "(\<lambda>i. mutex_owner (mutex_of s1 i)) = (\<lambda>i. mutex_owner (mutex_of s i))" using g(1) by auto
  show "waits_for s1 = waits_for s" by (rule ext) (simp add: waits_for_def w f)
  assume "mutex_owner (mutex_of s m) \<noteq> Some u"
  then have "m \<notin> set (taken_object_list (thread_of s u))" using owner_okD(1)[OF o, of m u] by simp
  then show "thread_get_mutex_priority u s1 = thread_get_mutex_priority u s"
    by (intro mutex_priority_cong) (auto simp: s1_def)
qed

section \<open>Example systems\<close>

text \<open>The example kernel with mutex 0, of ceiling \<open>c\<close>, owned by thread \<open>ow\<close>.\<close>

definition demo_mutex :: "u8 \<Rightarrow> tid \<Rightarrow> kstate" where
  "demo_mutex c ow = upd_thread ow (\<lambda>x. x\<lparr> taken_object_list := [0] \<rparr>)
    (upd_mutex 0 (\<lambda>x. x\<lparr> ceiling_priority := c, mutex_owner := Some ow, mutex_hold := 1 \<rparr>)
      (demo_kernel\<lparr> registry := (registry demo_kernel)\<lparr> object_of := (object_of (registry demo_kernel))
        (OMutex 0 := \<lparr> obj_name = replicate 8 0, obj_type = RT_Object_Class_Mutex \<rparr>) \<rparr> \<rparr>))"

lemma demo_mutex_fields:
  "thread_lists (demo_mutex c ow) l = thread_lists demo_kernel l"
  "rt_current_thread (demo_mutex c ow) = Some 1" "rt_scheduler_lock_nest (demo_mutex c ow) = 0"
  "thread_state (demo_mutex c ow) u = thread_state demo_kernel u" "suspended (demo_mutex c ow) u = suspended demo_kernel u"
  "cur_prio (demo_mutex c ow) u = cur_prio demo_kernel u"
  "init_priority (thread_of (demo_mutex c ow) u) = cur_prio demo_kernel u"
  "pending_object (thread_of (demo_mutex c ow) u) = None"
  "taken_object_list (thread_of (demo_mutex c ow) u) = (if u = ow then [0] else [])"
  "mutex_of (demo_mutex c ow) i = (if i = 0
    then \<lparr> mutex_flag = RT_IPC_FLAG_PRIO, ceiling_priority = c, mutex_priority = 0xFF, mutex_hold = 1, mutex_owner = Some ow \<rparr>
    else mutex_of demo_kernel i)"
  "mutex_owner (mutex_of demo_kernel i) = None" "mutex_hold (mutex_of demo_kernel i) = 0"
  "rt_object_get_type (OMutex 0) (registry (demo_mutex c ow)) = RT_Object_Class_Mutex"
  "thread_error (thread_of (demo_mutex c ow) u) = 0"
  by (simp_all add: demo_mutex_def demo_kernel_def blank_thread_def started_thread_def suspended_def
      thread_state_def rt_object_get_type_def object_class_defs)

lemma demo_cur_prio: "cur_prio demo_kernel u = (if u = 0 then 31 else if u = 1 \<or> u = 2 then 10 else 0)"
  by (simp add: demo_kernel_def blank_thread_def started_thread_def)

lemma demo_mutex_kernel_inv: "kernel_inv (demo_mutex c ow)"
proof -
  have "kernel_inv (upd_mutex 0 f (demo_kernel\<lparr> registry := g \<rparr>))" for f g
    using demo_kernel_inv kernel_inv_cong[of "demo_kernel\<lparr> registry := g \<rparr>" demo_kernel] by simp
  then show ?thesis unfolding demo_mutex_def by (intro neutral_kernel_inv) (simp_all add: sched_neutral_def)
qed

lemma demo_not_suspended: "\<not> suspended demo_kernel u"
  by (simp add: suspended_def demo_states stat_defs)

lemma demo_mutex_inv: "mutex_inv (demo_mutex c ow)"
proof -
  have "owner_ok (demo_mutex c ow)"
    by (rule owner_okI)
      (auto simp: demo_mutex_fields demo_lists demo_not_suspended demo_cur_prio RT_THREAD_PRIORITY_MAX_def)
  moreover have "prio_ok {} {} (demo_mutex c ow)"
    using u8_le_max by (auto simp: prio_ok_def demo_mutex_fields demo_lists split: if_splits)
  ultimately show ?thesis by (simp add: mutex_inv_def)
qed

lemma demo_mutex_may_block: "may_block (demo_mutex c ow) 1"
proof -
  have "timer_ready (demo_mutex c ow) 1" using demo_timer_ready[of 1] by (simp add: demo_mutex_def timer_ready_def)
  then show ?thesis
    using demo_may_block unfolding may_block_def demo_mutex_fields by blast
qed

lemma demo_mutex_waits: "waits_for (demo_mutex c ow) u = None"
  by (simp add: waits_for_def demo_mutex_fields demo_not_suspended)

text \<open>Thread 2 waits for a mutex that the running thread 1 owns.\<close>

lemma demo_mutex_waiter:
  obtains s where "kernel_inv s" and "mutex_inv s" and "rt_current_thread s = Some 1"
    and "thread_state s 1 = RT_THREAD_RUNNING" and "mutex_owner (mutex_of s 0) = Some 1"
    and "mutex_hold (mutex_of s 0) = 1" and "ceiling_priority (mutex_of s 0) = c"
    and "thread_lists s (MutexQ 0) = [2]" and "cur_prio s 2 = 10"
proof -
  define D where "D = demo_mutex c 1"
  have rdy: "thread_state D 2 \<in> {RT_THREAD_READY, RT_THREAD_RUNNING}"
    using demo_states(1)[of 2] by (simp add: D_def demo_mutex_fields)
  obtain s1 where y: "kernel_inv (upd_thread 2 (\<lambda>x. x\<lparr> pending_object := Some 0 \<rparr>) s1)"
    "owner_ok (upd_thread 2 (\<lambda>x. x\<lparr> pending_object := Some 0 \<rparr>) s1)"
    "prio_ok {2} {} (upd_thread 2 (\<lambda>x. x\<lparr> pending_object := Some 0 \<rparr>) s1)"
    and x: "sorted (map (cur_prio s1) (thread_lists s1 (MutexQ 0)))" "2 \<in> set (thread_lists s1 (MutexQ 0))"
    "waits_for (upd_thread 2 (\<lambda>x. x\<lparr> pending_object := Some 0 \<rparr>) s1) = (waits_for D)(2 := Some 1)"
    "mutex_of s1 = mutex_of D" "rt_current_thread s1 = Some 1"
    "\<And>u. u \<noteq> 2 \<Longrightarrow> thread_state s1 u = thread_state D u" "\<And>u. cur_prio s1 u = cur_prio D u"
    "rt_thread_suspend_to_list 2 (Some (MutexQ 0)) RT_IPC_FLAG_PRIO RT_UNINTERRUPTIBLE D = (RT_EOK, s1)"
    by (rule mutex_block_state[of D 2 0 1 RT_UNINTERRUPTIBLE])
      (use rdy demo_mutex_kernel_inv demo_mutex_inv in \<open>auto simp: D_def demo_mutex_fields\<close>)
  define Y where "Y = upd_thread 2 (\<lambda>x. x\<lparr> pending_object := Some 0 \<rparr>) s1"
  have l: "thread_lists s1 (MutexQ 0) = [2]"
  proof (rule suspend_spec[of D 2 "Some (MutexQ 0)" RT_IPC_FLAG_PRIO RT_UNINTERRUPTIBLE])
    fix s'
    assume a: "rt_thread_suspend_to_list 2 (Some (MutexQ 0)) RT_IPC_FLAG_PRIO RT_UNINTERRUPTIBLE D = (RT_EOK, s')"
      "\<And>m. wait_list m \<Longrightarrow> thread_lists s' m = (if Some (MutexQ 0) = Some m
         then enqueue_order RT_IPC_FLAG_PRIO (\<lambda>u. current_priority (thread_of D u)) 2 (thread_lists D m) else thread_lists D m)"
    then show ?thesis using x(8) a(2)[of "MutexQ 0"] by (simp add: D_def demo_mutex_fields demo_lists enqueue_order_simps)
  qed (use rdy in \<open>auto simp: D_def demo_mutex_kernel_inv\<close>)
  have so: "sorted (map (cur_prio Y) (thread_lists Y (MutexQ 0)))" by (simp add: Y_def l)
  have ch: "chain_ends (waits_for Y) 1"
    by (rule chain_ends.intros(1)) (simp add: Y_def x(3) D_def demo_mutex_waits)
  obtain r where r: "boost_owner 0 2 Y = Some r" "kernel_inv r" "mutex_inv r" "prio_frame Y r"
    by (rule boost_owner_spec[OF y[folded Y_def] so _ _ ch]) (auto simp: Y_def l x(4) D_def demo_mutex_fields)
  have nb: "boost_owner 0 2 Y = Some (upd_mutex 0 (\<lambda>z. z\<lparr> mutex_priority := 10 \<rparr>) Y)"
    by (simp add: boost_owner_def Y_def rt_sched_thread_get_curr_prio_def x(4,7) D_def demo_mutex_fields demo_cur_prio)
  then have re: "r = upd_mutex 0 (\<lambda>z. z\<lparr> mutex_priority := 10 \<rparr>) Y" using r(1) by simp
  have sY: "thread_state Y 1 = thread_state s1 1" by (simp add: Y_def thread_state_def)
  show ?thesis
  proof (rule that[OF r(2,3)])
    show "thread_state r 1 = RT_THREAD_RUNNING"
      using x(6)[of 1] demo_states(1)[of 1] sY by (simp add: re D_def demo_mutex_fields(4))
  qed (simp_all add: re Y_def l x(4,5,7) D_def demo_mutex_fields demo_cur_prio)
qed

section \<open>Properties\<close>

text \<open>C3: taking a mutex, on every branch. The owner takes it again up to 255 times
  (then \<open>-RT_EFULL\<close>); a free mutex gets the caller as owner, at the ceiling priority
  at least; a mutex owned by another thread answers \<open>-RT_ETIMEOUT\<close> at once for a zero
  timeout and otherwise suspends the caller in its queue. A waiting chain that does
  not close a cycle makes the priority loop end. Ownership never passes silently,
  all invariants are kept (mutual exclusion, priority-ordered queues, no owner below
  one of its waiters), and so is the exactness of the inherited priorities.\<close>

theorem mutex_take_behaviour:
  assumes k: "kernel_inv s" and mi: "mutex_inv s" and mb: "may_block s t"
    and pe: "pending_object (thread_of s t) = None"
    and ty: "rt_object_get_type (OMutex m) (registry s) = RT_Object_Class_Mutex"
    and fl: "mutex_flag (mutex_of s m) = RT_IPC_FLAG_PRIO"
    and ch: "chain_ends ((waits_for s)(t := mutex_owner (mutex_of s m))) t \<or> mutex_owner (mutex_of s m) = Some t"
  shows "let (r, s') = mutex_take m timeout sf s; old = mutex_of s m; new = mutex_of s' m in
    kernel_inv s' \<and> mutex_inv s' \<and> (exact_prio s \<longrightarrow> exact_prio s') \<and>
    (\<forall>i. i \<noteq> m \<longrightarrow> mutex_owner (mutex_of s' i) = mutex_owner (mutex_of s i)
               \<and> mutex_hold (mutex_of s' i) = mutex_hold (mutex_of s i)) \<and>
    (case mutex_owner old of
       None \<Rightarrow> r = Ret RT_EOK \<and> mutex_owner new = Some t \<and> mutex_hold new = 1
         \<and> cur_prio s' t \<le> ceiling_priority old
     | Some ow \<Rightarrow> mutex_owner new = mutex_owner old \<and>
         (if ow = t then
            if mutex_hold old < 0xFF
            then r = Ret RT_EOK \<and> unat (mutex_hold new) = unat (mutex_hold old) + 1
            else r = Ret (- RT_EFULL) \<and> mutex_hold new = mutex_hold old
          else mutex_hold new = mutex_hold old \<and>
            (if timeout = 0 then r = Ret (- RT_ETIMEOUT) \<and> \<not> suspended s' t
             else r = Blocked \<and> suspended s' t \<and> t \<in> set (thread_lists s' (MutexQ m))
               \<and> cur_prio s' ow \<le> cur_prio s' t)))"
proof -
  have c: "rt_current_thread s = Some t" "thread_state s t = RT_THREAD_RUNNING" using mb by (auto simp: may_block_def)
  then have nsp: "\<not> suspended s t" by (simp add: suspended_def stat_defs)
  show ?thesis
  proof (cases "mutex_owner (mutex_of s m)")
    case None
    show ?thesis by (rule mutex_take_free[OF k mi c None, of timeout sf]) (use None in auto)
  next
    case (Some ow)
    consider "ow = t" | "ow \<noteq> t" "timeout = 0" | "ow \<noteq> t" "timeout \<noteq> 0" by auto
    then show ?thesis
    proof cases
      case 1
      then have o: "mutex_owner (mutex_of s m) = Some t" using Some by simp
      show ?thesis
        by (rule mutex_take_again[OF k mi c(1) o, of timeout sf]) (use o 1 in \<open>auto simp: unat_incr_below\<close>)
    next
      case 2
      show ?thesis
        by (rule mutex_take_denied[OF k mi c(1) Some 2(1), of sf]) (use Some 2 nsp in auto)
    next
      case 3
      have ch': "chain_ends ((waits_for s)(t := Some ow)) t" using ch Some 3 by simp
      show ?thesis
      proof (rule mutex_take_blocks[OF k mi mb pe Some 3(1) ty fl 3(2) ch', where sf = sf])
        fix s'
        assume r: "mutex_take m timeout sf s = (Blocked, s')" "kernel_inv s'" "mutex_inv s'" "suspended s' t"
          "t \<in> set (thread_lists s' (MutexQ m))" "\<And>i. mutex_owner (mutex_of s' i) = mutex_owner (mutex_of s i)"
          "\<And>i. mutex_hold (mutex_of s' i) = mutex_hold (mutex_of s i)" "exact_prio s \<Longrightarrow> exact_prio s'"
        have "cur_prio s' ow \<le> cur_prio s' t" using no_inversion[OF r(3) _ r(5)] r(6)[of m] Some by simp
        then show ?thesis using r Some 3 by auto
      qed
    qed
  qed
qed

theorem mutex_take_behaviour_witness:
  "fst (mutex_take 0 50 RT_UNINTERRUPTIBLE (demo_mutex 0xFF 2)) = Blocked
   \<and> mutex_owner (mutex_of (snd (mutex_take 0 50 RT_UNINTERRUPTIBLE (demo_mutex 0xFF 2))) 0) = Some 2"
proof -
  let ?s = "demo_mutex 0xFF 2"
  have "chain_ends ((waits_for ?s)(1 := mutex_owner (mutex_of ?s 0))) 1"
    by (rule chain_ends.intros(2)[of _ _ 2])
      (auto simp: demo_mutex_fields demo_mutex_waits intro: chain_ends.intros(1))
  then show ?thesis
    using mutex_take_behaviour[OF demo_mutex_kernel_inv demo_mutex_inv demo_mutex_may_block,
        where m = 0 and timeout = 50 and sf = RT_UNINTERRUPTIBLE, of "0xFF" 2]
    by (simp add: demo_mutex_fields case_prod_unfold Let_def)
qed

text \<open>C4: releasing a mutex. Only the owner can; anybody else gets \<open>-RT_ERROR\<close>. A nested
  release gives back one hold. The last release hands the mutex to its first waiter,
  which is one that no other waiter beats and is no longer suspended, or leaves it
  free. All invariants are kept. If the inherited priorities were exact they still
  are (for a mutex with a ceiling this is claimed only when nobody waits), so a
  thread that holds nothing any more is back at its own priority.\<close>

theorem mutex_release_behaviour:
  assumes k: "kernel_inv s" and mi: "mutex_inv s" and c: "rt_current_thread s = Some t"
    and st: "thread_state s t = RT_THREAD_RUNNING"
  shows "let (r, s') = rt_mutex_release m s; old = mutex_of s m; new = mutex_of s' m in
    kernel_inv s' \<and> mutex_inv s' \<and>
    (\<forall>i. i \<noteq> m \<longrightarrow> mutex_owner (mutex_of s' i) = mutex_owner (mutex_of s i)) \<and>
    (exact_prio s \<and> (thread_lists s (MutexQ m) = [] \<or> ceiling_priority old = 0xFF) \<longrightarrow>
       exact_prio s' \<and>
       (taken_object_list (thread_of s' t) = [] \<longrightarrow> cur_prio s' t = init_priority (thread_of s t))) \<and>
    (if mutex_owner old \<noteq> Some t then r = Ret (- RT_ERROR) \<and> mutex_of s' = mutex_of s
     else r \<in> {Ret RT_EOK, Blocked} \<and>
       (if mutex_hold old \<noteq> 1
        then mutex_owner new = Some t \<and> unat (mutex_hold new) + 1 = unat (mutex_hold old)
        else case thread_lists s (MutexQ m) of
            [] \<Rightarrow> mutex_owner new = None \<and> mutex_hold new = 0
          | n # ws \<Rightarrow> mutex_owner new = Some n \<and> mutex_hold new = 1 \<and> \<not> suspended s' n
              \<and> thread_lists s' (MutexQ m) = ws \<and> (\<forall>w \<in> set ws. cur_prio s n \<le> cur_prio s w)))"
proof -
  have nsp: "\<not> suspended s t" using st by (simp add: suspended_def stat_defs)
  consider (other) "mutex_owner (mutex_of s m) \<noteq> Some t"
    | (nested) "mutex_owner (mutex_of s m) = Some t" "mutex_hold (mutex_of s m) \<noteq> 1"
    | (last) "mutex_owner (mutex_of s m) = Some t" "mutex_hold (mutex_of s m) = 1" by blast
  then show ?thesis
  proof cases
    case other
    show ?thesis by (rule mutex_release_other[OF k mi c other]) (use other exact_own_priority in auto)
  next
    case nested
    show ?thesis by (rule mutex_release_nested[OF k mi c nested]) (use nested exact_own_priority in auto)
  next
    case last
    show ?thesis
    proof (rule mutex_release_last[OF k mi c nsp last])
      fix r s'
      assume a: "rt_mutex_release m s = (r, s')" "r \<in> {Ret RT_EOK, Blocked}" "kernel_inv s'"
        "handed_over m t (released_prio m t s) s s'"
      note f = handed_overD[OF a(4)]
      have mi': "mutex_inv s'" by (rule handed_over_inv[OF k mi nsp released_prio_bound[OF mi] a(4)])
      have "m \<in> set (taken_object_list (thread_of s t))" using owner_okD(1)[of s m t] mi last(1) by (simp add: mutex_inv_def)
      then have ex: "exact_prio s'" if "exact_prio s" "thread_lists s (MutexQ m) = [] \<or> ceiling_priority (mutex_of s m) = 0xFF"
        using handed_over_exact[OF k mi that(1) nsp last(1), of s'] that(2) a(4) released_prio_exact[OF that(1)]
        by (simp add: next_owner_simps)
      have so: "sorted (map (cur_prio s) (thread_lists s (MutexQ m)))" using mi by (simp add: mutex_inv_def prio_ok_def)
      show ?thesis
        using a(1-3) mi' last exact_own_priority[of s' t] ex so f(1,2,7,10,11)
        by (cases "thread_lists s (MutexQ m)") (auto simp: next_owner_def)
    qed
  qed
qed

theorem mutex_release_behaviour_witness:
  "\<exists>s. mutex_owner (mutex_of s 0) = Some 1 \<and> mutex_owner (mutex_of (snd (rt_mutex_release 0 s)) 0) = Some 2"
proof -
  obtain s where a: "kernel_inv s" "mutex_inv s" "rt_current_thread s = Some 1" "thread_state s 1 = RT_THREAD_RUNNING"
    "mutex_owner (mutex_of s 0) = Some 1" "mutex_hold (mutex_of s 0) = 1" "thread_lists s (MutexQ 0) = [2]"
    using demo_mutex_waiter[where c = "0xFF"] by metis
  then show ?thesis
    using mutex_release_behaviour[OF a(1-4), of 0] by (intro exI[of _ s]) (simp add: case_prod_unfold Let_def)
qed

text \<open>When the timer of a thread that waits for a mutex fires, the thread leaves the
  queue, is no longer suspended and will see \<open>-RT_ETIMEOUT\<close>; the mutex stays with its
  owner and all invariants are kept.\<close>

theorem mutex_wait_timeout:
  assumes k: "kernel_inv s" and mi: "mutex_inv s" and w: "t \<in> set (thread_lists s (MutexQ m))"
  shows "let s' = fire_thread_timer t s in
    kernel_inv s' \<and> mutex_inv s' \<and> \<not> suspended s' t \<and> wait_result t s' = - RT_ETIMEOUT
    \<and> thread_lists s' (MutexQ m) = removeAll t (thread_lists s (MutexQ m)) \<and> mutex_of s' = mutex_of s"
proof -
  have sp: "suspended s t" using waiter_suspended[OF k _ w] by simp
  note f = fire_thread_timer_spec[OF k sp]
  note g = fire_thread_timer_frame[OF k sp]
  have "mutex_inv (fire_thread_timer t s)"
    by (rule leave_queue_inv(1)[OF mi f(4)]) (simp_all add: g f(6))
  then show ?thesis using f(1,2,3,6) f(4)[of "MutexQ m"] by (simp add: Let_def)
qed

theorem mutex_wait_timeout_witness:
  "\<exists>s. thread_lists s (MutexQ 0) = [2] \<and> wait_result 2 (fire_thread_timer 2 s) = - RT_ETIMEOUT
     \<and> thread_lists (fire_thread_timer 2 s) (MutexQ 0) = []"
proof -
  obtain s where a: "kernel_inv s" "mutex_inv s" "thread_lists s (MutexQ 0) = [2]"
    using demo_mutex_waiter[where c = "0xFF"] by metis
  then show ?thesis
    using mutex_wait_timeout[OF a(1,2), of 2 0] by (intro exI[of _ s]) (simp add: Let_def)
qed

text \<open>A thread that resumes from a take with an error (timeout, reset or detach of
  the mutex) gives the owner the priority it should have without this waiter, and
  returns its error as a negative number, with the mutex still at its owner and all
  invariants kept.\<close>

theorem mutex_take_gives_up:
  assumes k: "kernel_inv s" and mi: "mutex_inv s" and c: "rt_current_thread s = Some t"
    and er: "thread_error (thread_of s t) \<noteq> RT_EOK" and nsp: "\<not> suspended s t"
    and ch: "\<And>ow. mutex_owner (mutex_of s m) = Some ow \<Longrightarrow> chain_ends (waits_for s) ow"
  shows "let (r, s') = mutex_take_resume m t s in
    (r = Blocked \<or> r = Ret (- \<bar>thread_error (thread_of s t)\<bar>) \<and> pending_object (thread_of s' t) = None)
    \<and> kernel_inv s' \<and> mutex_inv s'
    \<and> (\<forall>i. mutex_owner (mutex_of s' i) = mutex_owner (mutex_of s i)
          \<and> mutex_hold (mutex_of s' i) = mutex_hold (mutex_of s i))
    \<and> (exact_prio s \<and> owner_has_prio_of m t s \<longrightarrow> exact_prio s')"
proof -
  define s0 where "s0 = rt_spin_lock s"
  have v0: "mutex_view s0 = mutex_view s" by (simp add: s0_def)
  have b0: "owner_has_prio_of m t s0 = owner_has_prio_of m t s"
    by (simp add: s0_def owner_has_prio_of_def rt_sched_thread_get_curr_prio_def split: option.splits)
  have k0: "kernel_inv s0" "mutex_inv s0" "exact_prio s0 = exact_prio s"
    using k mi mutex_view_cong(3,4)[OF v0] by (simp_all add: s0_def)
  have ch0: "chain_ends (waits_for s0) ow" if "mutex_owner (mutex_of s0 m) = Some ow" for ow
    using ch[of ow] that mutex_view_cong(5)[OF v0] by (simp add: s0_def)
  obtain r1 where r1: "refresh_mutex m (owner_has_prio_of m t s) s0 = Some r1" "kernel_inv r1" "mutex_inv r1"
    "prio_frame s0 r1" "owner_has_prio_of m t s \<Longrightarrow> exact_prio s0 \<Longrightarrow> exact_prio r1"
    by (rule refresh_mutex_spec[OF k0(1,2) ch0]) blast+
  define F where "F = rt_spin_unlock r1"
  note u = unlock_keeps[OF r1(2), folded F_def]
  have er': "thread_error (thread_of s0 t) = thread_error (thread_of s t)" by (simp add: s0_def)
  have res: "mutex_take_resume m t s = go_on (mutex_take_fail (thread_error (thread_of s t))) t F"
    using er b0 r1(1) er' by (simp add: mutex_take_resume_def s0_def[symmetric] Let_def F_def)
  define G where "G = upd_thread t (\<lambda>x. x\<lparr> pending_object := None \<rparr>) F"
  have nF: "\<not> suspended F t" using u(6)[of t] prio_frame_suspended[OF r1(4), of t] nsp by (simp add: s0_def)
  have kG: "kernel_inv G" unfolding G_def
    by (rule neutral_kernel_inv[OF _ _ u(1)]) (simp_all add: sched_neutral_def)
  have G: "mutex_inv G" "exact_prio G = exact_prio F" "mutex_of G = mutex_of F"
    using clear_pending_inv[OF u(1) _ nF] u(2) r1(3) by (simp_all add: G_def)
  have mo: "mutex_owner (mutex_of F i) = mutex_owner (mutex_of s i)" "mutex_hold (mutex_of F i) = mutex_hold (mutex_of s i)" for i
    using u(4) r1(4) by (simp_all add: prio_frame_def s0_def)
  show ?thesis
    using res u(1-3) r1(3,5) k0(3) G kG mo
    by (auto simp: go_on_def mutex_take_fail_def G_def[symmetric]) (auto simp: G_def)
qed

theorem mutex_take_gives_up_witness:
  "mutex_owner (mutex_of (snd (mutex_take_resume 0 1
     (upd_thread 1 (\<lambda>x. x\<lparr> thread_error := - RT_ETIMEOUT \<rparr>) (demo_mutex 0xFF 2)))) 0) = Some 2"
proof -
  define s where "s = upd_thread 1 (\<lambda>x. x\<lparr> thread_error := - RT_ETIMEOUT \<rparr>) (demo_mutex 0xFF 2)"
  have v: "mutex_view s = mutex_view (demo_mutex 0xFF 2)" by (simp add: s_def upd_error_simps)
  have k: "kernel_inv s" "mutex_inv s"
    using upd_error_simps(1)[OF demo_mutex_kernel_inv] mutex_view_cong(3)[OF v] demo_mutex_inv by (simp_all add: s_def)
  have f: "rt_current_thread s = Some 1" "thread_error (thread_of s 1) \<noteq> RT_EOK" "\<not> suspended s 1"
    "mutex_owner (mutex_of s 0) = Some 2"
    by (simp_all add: s_def upd_error_simps demo_mutex_fields demo_not_suspended RT_ETIMEOUT_def RT_EOK_def)
  have "chain_ends (waits_for s) ow" for ow
    using mutex_view_cong(5)[OF v] by (intro chain_ends.intros(1)) (simp add: demo_mutex_waits)
  from mutex_take_gives_up[OF k f(1-3) this, of 0] f(4) show ?thesis
    unfolding s_def[symmetric] by (simp add: case_prod_unfold Let_def)
qed

text \<open>Setting the ceiling of an owned mutex takes effect at once: the old ceiling is
  returned, the owner runs at least at the new ceiling, and all invariants and the
  exactness of the priorities are kept. An invalid priority changes nothing.\<close>

theorem mutex_setprioceiling_behaviour:
  assumes k: "kernel_inv s" and mi: "mutex_inv s"
    and ch: "\<And>ow. mutex_owner (mutex_of s m) = Some ow \<Longrightarrow> chain_ends (waits_for s) ow"
    and p: "unat c < RT_THREAD_PRIORITY_MAX" and ex: "exact_prio s"
  shows "\<exists>s'. rt_mutex_setprioceiling m c s = Some (ceiling_priority (mutex_of s m), s')
    \<and> kernel_inv s' \<and> mutex_inv s' \<and> exact_prio s' \<and> ceiling_priority (mutex_of s' m) = c
    \<and> (\<forall>ow. mutex_owner (mutex_of s m) = Some ow \<longrightarrow> mutex_owner (mutex_of s' m) = Some ow \<and> cur_prio s' ow \<le> c)"
proof -
  define s1 where "s1 = upd_mutex m (\<lambda>x. x\<lparr> ceiling_priority := c \<rparr>) (rt_spin_lock s)"
  note st = ceiling_state[OF k mi, where m = m and c = c, folded s1_def]
  have fin: ?thesis if e: "rt_mutex_setprioceiling m c s = Some (ceiling_priority (mutex_of s m), rt_spin_unlock r)"
    and r: "kernel_inv r" "mutex_inv r" "exact_prio r" "prio_frame s1 r" for r
  proof -
    note u = unlock_keeps[OF r(1)]
    have "ceiling_priority (mutex_of r m) = c" "mutex_owner (mutex_of r m) = mutex_owner (mutex_of s m)"
      using r(4) by (simp_all add: prio_frame_def s1_def)
    moreover have "cur_prio r ow \<le> ceiling_priority (mutex_of r m)" if "mutex_owner (mutex_of r m) = Some ow" for ow
      using r(2,3) that owner_okD(1)[of r m ow] mutex_priority_le(2)[of m r ow]
      by (simp add: exact_prio_def mutex_inv_def mutex_level_def)
    ultimately show ?thesis using e r(2,3) u by (intro exI[of _ "rt_spin_unlock r"]) simp
  qed
  show ?thesis
  proof (cases "mutex_owner (mutex_of s m)")
    case None
    then have "exact_prio s1" using ex st(4) by (simp add: exact_prio_def st(5))
    then show ?thesis using fin[of s1] None p st by (simp add: rt_mutex_setprioceiling_def Let_def s1_def)
  next
    case (Some ow)
    define q where "q = thread_get_mutex_priority ow s1"
    have o1: "owner_ok s1" and po1: "prio_ok {} {} s1" using st(2) by (simp_all add: mutex_inv_def)
    have ow1: "mutex_owner (mutex_of s1 m) = Some ow" using Some by (simp add: s1_def)
    have e: "rt_mutex_setprioceiling m c s = map_option (\<lambda>s'. (ceiling_priority (mutex_of s m), rt_spin_unlock s'))
        (if q \<noteq> cur_prio s1 ow then thread_update_priority ow q s1 else Some s1)"
      using Some p by (simp add: rt_mutex_setprioceiling_def Let_def s1_def q_def rt_sched_thread_get_curr_prio_def)
    show ?thesis
    proof (rule thread_update_priority_spec[OF st(1) o1 po1 empty_subsetI])
      show "unat q < RT_THREAD_PRIORITY_MAX" unfolding q_def by (rule mutex_priority_bound[OF o1])
      show "q \<le> mutex_priority (mutex_of s1 i)" if "mutex_owner (mutex_of s1 i) = Some ow" for i
        using owned_level[OF o1 that] by (simp add: q_def)
      show "chain_ends (waits_for s1) ow" using ch[OF Some] st(3) by simp
    next
      fix r
      assume r: "thread_update_priority ow q s1 = Some r" "kernel_inv r" "mutex_inv r" "prio_frame s1 r"
        "(\<And>u. u \<noteq> ow \<Longrightarrow> cur_prio s1 u = thread_get_mutex_priority u s1) \<Longrightarrow>
         q = thread_get_mutex_priority ow s1 \<Longrightarrow> exact_prio r"
      have oth: "cur_prio s1 u = thread_get_mutex_priority u s1" if "u \<noteq> ow" for u
        using ex st(4)[of u] st(5)[of u] Some that by (auto simp: exact_prio_def)
      show ?thesis
      proof (cases "q = cur_prio s1 ow")
        case True
        then have "exact_prio s1" unfolding exact_prio_def using oth by (metis q_def)
        then show ?thesis using fin[of s1] e True st by simp
      next
        case False
        then show ?thesis using fin[of r] e r oth by (simp add: q_def)
      qed
    qed
  qed
qed

theorem mutex_setprioceiling_behaviour_witness:
  "\<exists>s'. rt_mutex_setprioceiling 0 5 (demo_mutex 0xFF 1) = Some (0xFF, s') \<and> cur_prio s' 1 \<le> 5"
proof -
  have "chain_ends (waits_for (demo_mutex 0xFF 1)) ow" for ow
    by (intro chain_ends.intros(1)) (simp add: demo_mutex_waits)
  moreover have "exact_prio (demo_mutex 0xFF 1)"
    using u8_le_max by (auto simp: exact_prio_def thread_get_mutex_priority_def rt_sched_thread_get_init_prio_def
        demo_mutex_fields not_less[symmetric])
  ultimately show ?thesis
    using mutex_setprioceiling_behaviour[OF demo_mutex_kernel_inv demo_mutex_inv, where m = 0 and c = 5, of "0xFF" 1]
    by (auto simp: demo_mutex_fields RT_THREAD_PRIORITY_MAX_def)
qed

text \<open>A mutex with a priority ceiling that is handed over to a waiter does not lift the
  new owner to the ceiling, although taking the same mutex when it is free does: the
  new owner keeps its priority, below the ceiling.\<close>

theorem mutex_handover_ignores_ceiling:
  assumes k: "kernel_inv s" and mi: "mutex_inv s" and c: "rt_current_thread s = Some t"
    and st: "thread_state s t = RT_THREAD_RUNNING" and ow: "mutex_owner (mutex_of s m) = Some t"
    and h: "mutex_hold (mutex_of s m) = 1" and l: "thread_lists s (MutexQ m) = n # ws"
    and ce: "ceiling_priority (mutex_of s m) < cur_prio s n"
  shows "let s' = snd (rt_mutex_release m s) in
    mutex_owner (mutex_of s' m) = Some n \<and> cur_prio s' n = cur_prio s n \<and>
    ceiling_priority (mutex_of s' m) < cur_prio s' n"
proof -
  have nsp: "\<not> suspended s t" using st by (simp add: suspended_def stat_defs)
  then have nt: "n \<noteq> t" using waiter_suspended[OF k, of "MutexQ m" n] l by auto
  have no: "next_owner m s = Some n" using l by (simp add: next_owner_simps)
  obtain r s' where r: "rt_mutex_release m s = (r, s')" "handed_over m t (released_prio m t s) s s'"
    by (rule mutex_release_last[OF k mi c nsp ow h]) blast
  show ?thesis
    using handed_overD(1,5)[OF r(2), of m] handed_overD(12)[OF r(2), of n] no nt ce by (simp add: r(1))
qed

theorem mutex_handover_ignores_ceiling_witness:
  "\<exists>s. mutex_owner (mutex_of (snd (rt_mutex_release 0 s)) 0) = Some 2
     \<and> 5 < cur_prio (snd (rt_mutex_release 0 s)) 2 \<and> ceiling_priority (mutex_of s 0) = 5"
proof -
  obtain s where a: "kernel_inv s" "mutex_inv s" "rt_current_thread s = Some 1" "thread_state s 1 = RT_THREAD_RUNNING"
    "mutex_owner (mutex_of s 0) = Some 1" "mutex_hold (mutex_of s 0) = 1" "ceiling_priority (mutex_of s 0) = 5"
    "thread_lists s (MutexQ 0) = [2]" "cur_prio s 2 = 10"
    using demo_mutex_waiter[where c = 5] by metis
  then show ?thesis
    using mutex_handover_ignores_ceiling[OF a(1-6), of 2 "[]"] by (intro exI[of _ s]) (simp add: Let_def)
qed

end
