(* ===== verification/MailBox.thy ===== *)
theory MailBox
  imports WaitLoop Mutex
begin

text \<open>
  Mailboxes (\<open>rt-thread/src/ipc.c\<close>, lines 2335 to 3030): a ring of machine words with a
  list of waiting receivers and one of waiting senders. The blocking calls are
  instances of the timed wait loop. The contract is the bounded message store.
\<close>

section \<open>Operations\<close>

definition RT_MB_ENTRY_MAX :: u16 where "RT_MB_ENTRY_MAX = 0xFFFF"

definition RT_IPC_CMD_RESET :: int where "RT_IPC_CMD_RESET = 1"

definition upd_mb :: "oid \<Rightarrow> (rt_mailbox \<Rightarrow> rt_mailbox) \<Rightarrow> kstate \<Rightarrow> kstate" where
  "upd_mb i f s = s\<lparr> mailbox_of := (mailbox_of s)(i := f (mailbox_of s i)) \<rparr>"

text \<open>The initialisation that \<open>rt_mb_init\<close> and \<open>rt_mb_create\<close> have in common.\<close>

definition mb_setup :: "oid \<Rightarrow> u32 list \<Rightarrow> u32 \<Rightarrow> u8 \<Rightarrow> kstate \<Rightarrow> kstate" where
  "mb_setup i pool sz flag s =
    (let s = ipc_object_init (MbRecvQ i) s;
         s = upd_mb i (\<lambda>_. \<lparr> mb_flag = flag, mb_pool = pool, mb_size = ucast sz, mb_entry = 0,
               mb_in_offset = 0, mb_out_offset = 0 \<rparr>) s
     in s\<lparr> thread_lists := (thread_lists s)(MbSendQ i := []) \<rparr>)"

definition rt_mb_init :: "oid \<Rightarrow> byte list \<Rightarrow> u32 list \<Rightarrow> u32 \<Rightarrow> u8 \<Rightarrow> kstate \<Rightarrow> int \<times> kstate" where
  "rt_mb_init i name msgpool sz flag s =
    (let s = s\<lparr> registry := rt_object_init (OMailBox i) RT_Object_Class_MailBox name (registry s) \<rparr>
     in (RT_EOK, mb_setup i msgpool sz flag s))"

definition mb_resume_all :: "oid \<Rightarrow> kstate \<Rightarrow> kstate" where
  "mb_resume_all i s =
    (let s = rt_susp_list_resume_all (MbRecvQ i) RT_ERROR s
     in rt_susp_list_resume_all (MbSendQ i) RT_ERROR s)"

definition rt_mb_detach :: "oid \<Rightarrow> kstate \<Rightarrow> int \<times> kstate" where
  "rt_mb_detach i s =
    (let s = mb_resume_all i s
     in (RT_EOK, s\<lparr> registry := rt_object_detach (OMailBox i) (registry s) \<rparr>))"

text \<open>\<open>addr\<close> and \<open>pool\<close> are what the allocator returns for the object and for its pool.\<close>

definition rt_mb_create ::
  "oid option \<Rightarrow> u32 list option \<Rightarrow> byte list \<Rightarrow> u32 \<Rightarrow> u8 \<Rightarrow> kstate \<Rightarrow> oid option \<times> kstate" where
  "rt_mb_create addr pool name sz flag s =
    (case addr of None \<Rightarrow> (None, s)
     | Some i \<Rightarrow>
        let s = s\<lparr> registry := snd (rt_object_allocate (Some (OMailBox i)) RT_Object_Class_MailBox name (registry s)) \<rparr>
        in case pool of
             None \<Rightarrow>
               let s = ipc_object_init (MbRecvQ i) s;
                   s = upd_mb i (\<lambda>x. x\<lparr> mb_flag := flag, mb_size := ucast sz \<rparr>) s
               in (None, s\<lparr> registry := rt_object_delete (OMailBox i) (registry s) \<rparr>)
           | Some p \<Rightarrow> (Some i, mb_setup i p sz flag s))"

definition rt_mb_delete :: "oid \<Rightarrow> kstate \<Rightarrow> int \<times> kstate" where
  "rt_mb_delete i s =
    (let s = rt_spin_lock s;
         s = mb_resume_all i s;
         s = rt_spin_unlock s
     in (RT_EOK, s\<lparr> registry := rt_object_delete (OMailBox i) (registry s) \<rparr>))"

text \<open>Storing a message at the input offset, and the rest of a send that has room.\<close>

definition mb_store :: "u32 \<Rightarrow> rt_mailbox \<Rightarrow> rt_mailbox" where
  "mb_store value mb =
    (let mb = mb\<lparr> mb_pool := (mb_pool mb)[unat (mb_in_offset mb) := value],
                  mb_in_offset := mb_in_offset mb + 1 \<rparr>
     in if mb_in_offset mb \<ge> mb_size mb then mb\<lparr> mb_in_offset := 0 \<rparr> else mb)"

definition mb_put :: "oid \<Rightarrow> u32 \<Rightarrow> kstate \<Rightarrow> ret \<times> kstate" where
  "mb_put i value s =
    (let s = upd_mb i (mb_store value) s
     in if mb_entry (mailbox_of s i) < RT_MB_ENTRY_MAX
        then let s = upd_mb i (\<lambda>x. x\<lparr> mb_entry := mb_entry x + 1 \<rparr>) s
             in (Ret RT_EOK, wake_one (MbRecvQ i) s)
        else (Ret (- RT_EFULL), s))"

definition mb_full :: "oid \<Rightarrow> kstate \<Rightarrow> bool" where
  "mb_full i s \<longleftrightarrow> mb_entry (mailbox_of s i) = mb_size (mailbox_of s i)"

definition mb_send_wait_op :: "oid \<Rightarrow> u32 \<Rightarrow> ret timed_wait" where
  "mb_send_wait_op i value = \<lparr> must_wait = mb_full i, wait_on = MbSendQ i,
     wait_flag = (\<lambda>s. mb_flag (mailbox_of s i)), no_time = (\<lambda>t s. (Ret (- RT_EFULL), s)),
     answer = (\<lambda>r. r), proceed = mb_put i value \<rparr>"

definition mb_send_wait :: "oid \<Rightarrow> u32 \<Rightarrow> int \<Rightarrow> suspend_flag \<Rightarrow> kstate \<Rightarrow> (ret \<times> kstate) option" where
  "mb_send_wait i value timeout sf s =
    (if mb_full i s \<and> timeout = 0 then Some (Ret (- RT_EFULL), s)
     else wait_call (mb_send_wait_op i value) sf timeout s)"

definition rt_mb_send_wait :: "oid \<Rightarrow> u32 \<Rightarrow> int \<Rightarrow> kstate \<Rightarrow> (ret \<times> kstate) option" where
  "rt_mb_send_wait i value timeout s = mb_send_wait i value timeout RT_UNINTERRUPTIBLE s"

definition rt_mb_send_wait_interruptible :: "oid \<Rightarrow> u32 \<Rightarrow> int \<Rightarrow> kstate \<Rightarrow> (ret \<times> kstate) option" where
  "rt_mb_send_wait_interruptible i value timeout s = mb_send_wait i value timeout RT_INTERRUPTIBLE s"

definition rt_mb_send_wait_killable :: "oid \<Rightarrow> u32 \<Rightarrow> int \<Rightarrow> kstate \<Rightarrow> (ret \<times> kstate) option" where
  "rt_mb_send_wait_killable i value timeout s = mb_send_wait i value timeout RT_KILLABLE s"

definition rt_mb_send :: "oid \<Rightarrow> u32 \<Rightarrow> kstate \<Rightarrow> (ret \<times> kstate) option" where
  "rt_mb_send i value s = rt_mb_send_wait i value 0 s"

definition rt_mb_send_interruptible :: "oid \<Rightarrow> u32 \<Rightarrow> kstate \<Rightarrow> (ret \<times> kstate) option" where
  "rt_mb_send_interruptible i value s = rt_mb_send_wait_interruptible i value 0 s"

definition rt_mb_send_killable :: "oid \<Rightarrow> u32 \<Rightarrow> kstate \<Rightarrow> (ret \<times> kstate) option" where
  "rt_mb_send_killable i value s = rt_mb_send_wait_killable i value 0 s"

definition mb_rewind :: "u32 \<Rightarrow> rt_mailbox \<Rightarrow> rt_mailbox" where
  "mb_rewind value mb =
    (let mb = mb\<lparr> mb_out_offset := (if mb_out_offset mb > 0 then mb_out_offset mb - 1 else mb_size mb - 1) \<rparr>
     in mb\<lparr> mb_pool := (mb_pool mb)[unat (mb_out_offset mb) := value], mb_entry := mb_entry mb + 1 \<rparr>)"

definition rt_mb_urgent :: "oid \<Rightarrow> u32 \<Rightarrow> kstate \<Rightarrow> ret \<times> kstate" where
  "rt_mb_urgent i value s =
    (if mb_full i s then (Ret (- RT_EFULL), s)
     else (Ret RT_EOK, wake_one (MbRecvQ i) (upd_mb i (mb_rewind value) s)))"

text \<open>A receive answers its status and the word that it stores for the caller.\<close>

definition mb_fetch :: "rt_mailbox \<Rightarrow> rt_mailbox" where
  "mb_fetch mb =
    (let mb = mb\<lparr> mb_out_offset := mb_out_offset mb + 1 \<rparr>;
         mb = (if mb_out_offset mb \<ge> mb_size mb then mb\<lparr> mb_out_offset := 0 \<rparr> else mb)
     in if mb_entry mb > 0 then mb\<lparr> mb_entry := mb_entry mb - 1 \<rparr> else mb)"

definition mb_get :: "oid \<Rightarrow> kstate \<Rightarrow> (ret \<times> u32 option) \<times> kstate" where
  "mb_get i s =
    (let value = mb_pool (mailbox_of s i) ! unat (mb_out_offset (mailbox_of s i));
         s = upd_mb i mb_fetch s
     in ((Ret RT_EOK, Some value), wake_one (MbSendQ i) s))"

definition mb_recv_op :: "oid \<Rightarrow> (ret \<times> u32 option) timed_wait" where
  "mb_recv_op i = \<lparr> must_wait = (\<lambda>s. mb_entry (mailbox_of s i) = 0), wait_on = MbRecvQ i,
     wait_flag = (\<lambda>s. mb_flag (mailbox_of s i)),
     no_time = (\<lambda>t s. ((Ret (- RT_ETIMEOUT), None), upd_thread t (\<lambda>x. x\<lparr> thread_error := - RT_ETIMEOUT \<rparr>) s)),
     answer = (\<lambda>r. (r, None)), proceed = mb_get i \<rparr>"

definition mb_recv :: "oid \<Rightarrow> int \<Rightarrow> suspend_flag \<Rightarrow> kstate \<Rightarrow> ((ret \<times> u32 option) \<times> kstate) option" where
  "mb_recv i timeout sf s =
    (if mb_entry (mailbox_of s i) = 0 \<and> timeout = 0 then Some ((Ret (- RT_ETIMEOUT), None), s)
     else wait_call (mb_recv_op i) sf timeout s)"

definition rt_mb_recv :: "oid \<Rightarrow> int \<Rightarrow> kstate \<Rightarrow> ((ret \<times> u32 option) \<times> kstate) option" where
  "rt_mb_recv i timeout s = mb_recv i timeout RT_UNINTERRUPTIBLE s"

definition rt_mb_recv_interruptible :: "oid \<Rightarrow> int \<Rightarrow> kstate \<Rightarrow> ((ret \<times> u32 option) \<times> kstate) option" where
  "rt_mb_recv_interruptible i timeout s = mb_recv i timeout RT_INTERRUPTIBLE s"

definition rt_mb_recv_killable :: "oid \<Rightarrow> int \<Rightarrow> kstate \<Rightarrow> ((ret \<times> u32 option) \<times> kstate) option" where
  "rt_mb_recv_killable i timeout s = mb_recv i timeout RT_KILLABLE s"

definition rt_mb_control :: "oid \<Rightarrow> int \<Rightarrow> kstate \<Rightarrow> int \<times> kstate" where
  "rt_mb_control i cmd s =
    (if cmd = RT_IPC_CMD_RESET then
       let s = mb_resume_all i s;
           s = upd_mb i (\<lambda>x. x\<lparr> mb_entry := 0, mb_in_offset := 0, mb_out_offset := 0 \<rparr>) s
       in (RT_EOK, rt_schedule s)
     else (- RT_ERROR, s))"

section \<open>The ring of words\<close>

definition mb_ok :: "rt_mailbox \<Rightarrow> bool" where
  "mb_ok mb \<longleftrightarrow> unat (mb_size mb) \<le> length (mb_pool mb) \<and> mb_entry mb \<le> mb_size mb \<and>
    (if mb_size mb = 0 then mb_in_offset mb = 0 \<and> mb_out_offset mb = 0
     else mb_in_offset mb < mb_size mb \<and> mb_out_offset mb < mb_size mb \<and>
       unat (mb_in_offset mb) = (unat (mb_out_offset mb) + unat (mb_entry mb)) mod unat (mb_size mb))"

definition mb_msgs :: "rt_mailbox \<Rightarrow> u32 list" where
  "mb_msgs mb = map (\<lambda>k. mb_pool mb ! ((unat (mb_out_offset mb) + k) mod unat (mb_size mb))) [0..<unat (mb_entry mb)]"

lemma length_mb_msgs [simp]: "length (mb_msgs mb) = unat (mb_entry mb)"
  by (simp add: mb_msgs_def)

text \<open>The same over natural numbers, with \<open>z\<close> the size, \<open>p\<close> the pool and \<open>o\<close> the output offset.\<close>

definition ring_words :: "nat \<Rightarrow> 'a list \<Rightarrow> nat \<Rightarrow> nat \<Rightarrow> 'a list" where
  "ring_words z p out n = map (\<lambda>k. p ! ((out + k) mod z)) [0..<n]"

lemma ring_words_snoc:
  assumes "n < z" and "out < z" and "z \<le> length p"
  shows "ring_words z (p[(out + n) mod z := v]) out (n + 1) = ring_words z p out n @ [v]"
proof -
  have "(out + k) mod z \<noteq> (out + n) mod z" if "k < n" for k
    using assms that by (auto simp: wrap_mod split: if_splits)
  then have "map (\<lambda>k. p[(out + n) mod z := v] ! ((out + k) mod z)) [0..<n] = map (\<lambda>k. p ! ((out + k) mod z)) [0..<n]"
    by (intro map_cong_upt) (metis nth_list_update_neq)
  moreover have "(out + n) mod z < length p" using assms by (intro order_less_le_trans[OF mod_less_divisor]) auto
  ultimately show ?thesis by (simp add: ring_words_def)
qed

lemma ring_words_Cons:
  assumes "out < z"
  shows "ring_words z p out (Suc n) = p ! out # ring_words z p ((out + 1) mod z) n"
proof -
  have "(out + Suc k) mod z = ((out + 1) mod z + k) mod z" for k by (simp add: mod_add_left_eq)
  then show ?thesis
    using assms by (simp add: ring_words_def map_upt_Suc del: upt_Suc)
qed

lemma mb_msgs_ring: "mb_msgs mb = ring_words (unat (mb_size mb)) (mb_pool mb) (unat (mb_out_offset mb)) (unat (mb_entry mb))"
  by (simp add: mb_msgs_def ring_words_def)

lemma mb_okD:
  assumes "mb_ok mb" and "mb_size mb \<noteq> 0"
  shows "unat (mb_size mb) \<le> length (mb_pool mb)" and "unat (mb_entry mb) \<le> unat (mb_size mb)"
    and "unat (mb_in_offset mb) < unat (mb_size mb)" and "unat (mb_out_offset mb) < unat (mb_size mb)"
    and "unat (mb_in_offset mb) = (unat (mb_out_offset mb) + unat (mb_entry mb)) mod unat (mb_size mb)"
    and "mb_in_offset mb < mb_size mb" and "mb_out_offset mb < mb_size mb"
  using assms by (auto simp: mb_ok_def word_less_nat_alt word_le_nat_alt)

text \<open>Advancing an offset with wrap-around.\<close>

lemma advance_offset:
  fixes x z :: u16
  assumes "x < z"
  shows "unat (if x + 1 \<ge> z then 0 else x + 1) = (unat x + 1) mod unat z"
    and "(if x + 1 \<ge> z then 0 else x + 1) < z"
  using assms unat_incr_below[OF assms] by (auto simp: word_less_nat_alt word_le_nat_alt wrap_mod)

lemma mb_store_fields:
  "mb_flag (mb_store v mb) = mb_flag mb" "mb_size (mb_store v mb) = mb_size mb"
  "mb_entry (mb_store v mb) = mb_entry mb" "mb_out_offset (mb_store v mb) = mb_out_offset mb"
  "mb_pool (mb_store v mb) = (mb_pool mb)[unat (mb_in_offset mb) := v]"
  "mb_in_offset (mb_store v mb) = (if mb_in_offset mb + 1 \<ge> mb_size mb then 0 else mb_in_offset mb + 1)"
  by (simp_all add: mb_store_def Let_def)

lemma mb_store_spec:
  fixes v :: u32
  assumes ok: "mb_ok mb" and nf: "mb_entry mb \<noteq> mb_size mb"
  defines "mb' \<equiv> (mb_store v mb)\<lparr> mb_entry := mb_entry mb + 1 \<rparr>"
  shows "mb_ok mb'" and "mb_msgs mb' = mb_msgs mb @ [v]" and "mb_entry mb < RT_MB_ENTRY_MAX"
proof -
  have lt: "mb_entry mb < mb_size mb" using ok nf by (auto simp: mb_ok_def)
  then have z: "mb_size mb \<noteq> 0" by auto
  note d = mb_okD[OF ok z]
  have n: "unat (mb_entry mb + 1) = unat (mb_entry mb) + 1" by (rule unat_incr_below[OF lt])
  have lt': "unat (mb_entry mb) < unat (mb_size mb)" using lt by (simp add: word_less_nat_alt)
  note f = mb_store_fields[of v mb]
  have i: "unat (mb_in_offset mb') = (unat (mb_out_offset mb) + (unat (mb_entry mb) + 1)) mod unat (mb_size mb)"
    using advance_offset(1)[OF d(6)] d(5) by (simp add: mb'_def f mod_Suc_eq)
  show "mb_ok mb'"
    using d(1,7) z i lt' advance_offset(2)[OF d(6)] n
    by (simp add: mb_ok_def mb'_def f word_le_nat_alt)
  show "mb_msgs mb' = mb_msgs mb @ [v]"
    using ring_words_snoc[OF lt' d(4,1), of v] d(5) n by (simp add: mb_msgs_ring mb'_def f)
  show "mb_entry mb < RT_MB_ENTRY_MAX"
  proof -
    have "unat (mb_size mb) < 2 ^ LENGTH(16)" by (rule unsigned_less)
    then show ?thesis using lt' by (simp add: RT_MB_ENTRY_MAX_def word_less_nat_alt)
  qed
qed

lemma mb_rewind_spec:
  assumes ok: "mb_ok mb" and nf: "mb_entry mb \<noteq> mb_size mb"
  shows "mb_ok (mb_rewind v mb)" and "mb_msgs (mb_rewind v mb) = v # mb_msgs mb"
    and "mb_size (mb_rewind v mb) = mb_size mb"
proof -
  define q where "q = (if mb_out_offset mb > 0 then mb_out_offset mb - 1 else mb_size mb - 1)"
  have lt: "mb_entry mb < mb_size mb" using ok nf by (auto simp: mb_ok_def)
  then have z: "mb_size mb \<noteq> 0" by auto
  note d = mb_okD[OF ok z]
  let ?z = "unat (mb_size mb)" and ?o = "unat (mb_out_offset mb)" and ?n = "unat (mb_entry mb)"
  have lt': "?n < ?z" using lt by (simp add: word_less_nat_alt)
  have n: "unat (mb_entry mb + 1) = ?n + 1" by (rule unat_incr_below[OF lt])
  have f: "mb_rewind v mb = mb\<lparr> mb_out_offset := q, mb_pool := (mb_pool mb)[unat q := v], mb_entry := mb_entry mb + 1 \<rparr>"
    by (simp add: mb_rewind_def q_def Let_def)
  have uq: "unat q = (if ?o > 0 then ?o - 1 else ?z - 1)"
    using z d(4) by (auto simp: q_def word_less_nat_alt unat_sub_if' word_le_nat_alt unat_eq_zero)
  have q: "unat q < ?z" using d(4) uq by auto
  have ou: "(unat q + 1) mod ?z = ?o" using uq d(4) by (auto simp: wrap_mod)
  have i: "unat (mb_in_offset mb) = (unat q + (?n + 1)) mod ?z"
    using d(5) ou by (metis add.assoc add.commute mod_add_left_eq)
  show "mb_ok (mb_rewind v mb)"
    using d(1,6) q z i lt' n by (simp add: mb_ok_def f word_le_nat_alt word_less_nat_alt)
  have "ring_words ?z ((mb_pool mb)[unat q := v]) ?o ?n = ring_words ?z (mb_pool mb) ?o ?n"
    unfolding ring_words_def
  proof (rule map_cong_upt)
    fix k assume "k < ?n"
    then have "unat q \<noteq> (?o + k) mod ?z" using uq d(4) lt' by (auto simp: wrap_mod split: if_splits)
    then show "(mb_pool mb)[unat q := v] ! ((?o + k) mod ?z) = mb_pool mb ! ((?o + k) mod ?z)" by simp
  qed
  then show "mb_msgs (mb_rewind v mb) = v # mb_msgs mb"
    using ring_words_Cons[OF q, of "(mb_pool mb)[unat q := v]" ?n] ou n q d(1) by (simp add: mb_msgs_ring f)
  show "mb_size (mb_rewind v mb) = mb_size mb" by (simp add: f)
qed

lemma mb_fetch_spec:
  assumes ok: "mb_ok mb" and ne: "mb_entry mb \<noteq> 0"
  shows "mb_ok (mb_fetch mb)" and "mb_msgs mb = mb_pool mb ! unat (mb_out_offset mb) # mb_msgs (mb_fetch mb)"
    and "mb_size (mb_fetch mb) = mb_size mb"
proof -
  have z: "mb_size mb \<noteq> 0" using ok ne by (auto simp: mb_ok_def)
  note d = mb_okD[OF ok z]
  let ?z = "unat (mb_size mb)" and ?o = "unat (mb_out_offset mb)"
  obtain m where m: "unat (mb_entry mb) = Suc m" using ne by (metis not0_implies_Suc unat_eq_zero)
  have n: "unat (mb_entry mb - 1) = m" using m ne by (simp add: unat_minus_one)
  define q where "q = (if mb_out_offset mb + 1 \<ge> mb_size mb then 0 else mb_out_offset mb + 1)"
  have f: "mb_fetch mb = mb\<lparr> mb_out_offset := q, mb_entry := mb_entry mb - 1 \<rparr>"
    using ne by (simp add: mb_fetch_def q_def Let_def word_gt_0)
  note a = advance_offset[OF d(7), folded q_def]
  have i: "unat (mb_in_offset mb) = (unat q + m) mod ?z"
    using d(5) m a(1) by (simp add: mod_add_left_eq)
  show "mb_ok (mb_fetch mb)"
    using d(1,2,6) a z i m n by (simp add: mb_ok_def f word_le_nat_alt)
  show "mb_msgs mb = mb_pool mb ! ?o # mb_msgs (mb_fetch mb)"
    using ring_words_Cons[OF d(4), of "mb_pool mb" m] m n a(1) by (simp add: mb_msgs_ring f)
  show "mb_size (mb_fetch mb) = mb_size mb" by (simp add: f)
qed

section \<open>Frames\<close>

lemma upd_mb_frame [simp]:
  "thread_lists (upd_mb i f s) = thread_lists s" "thread_of (upd_mb i f s) = thread_of s"
  "rt_thread_ready_priority_group (upd_mb i f s) = rt_thread_ready_priority_group s"
  "rt_current_thread (upd_mb i f s) = rt_current_thread s" "timer_of (upd_mb i f s) = timer_of s"
  "sem_of (upd_mb i f s) = sem_of s" "mutex_of (upd_mb i f s) = mutex_of s" "mq_of (upd_mb i f s) = mq_of s"
  "mailbox_of (upd_mb i f s) = (mailbox_of s)(i := f (mailbox_of s i))"
  by (simp_all add: upd_mb_def)

lemma upd_mb_inv [simp]:
  "kernel_inv (upd_mb i f s) = kernel_inv s" "timer_ready (upd_mb i f s) t = timer_ready s t"
  "thread_state (upd_mb i f s) t = thread_state s t" "suspended (upd_mb i f s) t = suspended s t"
  using kernel_inv_cong[of "upd_mb i f s" s]
  by (simp_all add: timer_ready_def thread_state_def suspended_def)

lemma mb_wait_lists [simp]: "wait_list (MbRecvQ i)" "wait_list (MbSendQ i)"
  by (simp_all add: wait_list_def)

interpretation mb_send: waiting_call "mb_send_wait_op i v" for i v
  by unfold_locales (simp_all add: mb_send_wait_op_def mb_full_def)

interpretation mb_recv: waiting_call "mb_recv_op i" for i
  by unfold_locales (simp_all add: mb_recv_op_def)

lemma mb_put_spec:
  assumes k: "kernel_inv s" and ok: "mb_ok (mailbox_of s i)" and nf: "\<not> mb_full i s"
  obtains s' where "mb_put i v s = (Ret RT_EOK, s')" and "kernel_inv s'"
    and "mailbox_of s' = (mailbox_of s)(i := (mb_store v (mailbox_of s i))\<lparr> mb_entry := mb_entry (mailbox_of s i) + 1 \<rparr>)"
    and "\<And>m. wait_list m \<Longrightarrow> thread_lists s' m = (if m = MbRecvQ i then tl (thread_lists s m) else thread_lists s m)"
    and "\<And>t ts. thread_lists s (MbRecvQ i) = t # ts \<Longrightarrow> \<not> suspended s' t \<and> thread_error (thread_of s' t) = RT_EOK"
proof -
  define s1 where "s1 = upd_mb i (\<lambda>x. x\<lparr> mb_entry := mb_entry x + 1 \<rparr>) (upd_mb i (mb_store v) s)"
  have "mb_entry (mailbox_of s i) < RT_MB_ENTRY_MAX"
    by (rule mb_store_spec(3)[OF ok]) (use nf in \<open>simp add: mb_full_def\<close>)
  then have e: "mb_put i v s = (Ret RT_EOK, wake_one (MbRecvQ i) s1)"
    by (simp add: mb_put_def Let_def s1_def mb_store_fields)
  have k1: "kernel_inv s1" using k by (simp add: s1_def)
  note w = wake_one_inv[OF k1 mb_wait_lists(1)[of i]]
  show thesis
    by (rule that[OF e w(1)]) (use w in \<open>auto simp: s1_def mb_store_fields\<close>)
qed

lemma mb_get_spec:
  assumes k: "kernel_inv s" and ok: "mb_ok (mailbox_of s i)" and ne: "mb_entry (mailbox_of s i) \<noteq> 0"
  obtains s' where "mb_get i s = ((Ret RT_EOK, Some (hd (mb_msgs (mailbox_of s i)))), s')" and "kernel_inv s'"
    and "mailbox_of s' = (mailbox_of s)(i := mb_fetch (mailbox_of s i))"
    and "\<And>m. wait_list m \<Longrightarrow> thread_lists s' m = (if m = MbSendQ i then tl (thread_lists s m) else thread_lists s m)"
    and "\<And>t ts. thread_lists s (MbSendQ i) = t # ts \<Longrightarrow> \<not> suspended s' t \<and> thread_error (thread_of s' t) = RT_EOK"
proof -
  define s1 where "s1 = upd_mb i mb_fetch s"
  have e: "mb_get i s = ((Ret RT_EOK, Some (hd (mb_msgs (mailbox_of s i)))), wake_one (MbSendQ i) s1)"
    using mb_fetch_spec(2)[OF ok ne] by (simp add: mb_get_def Let_def s1_def)
  have k1: "kernel_inv s1" using k by (simp add: s1_def)
  note w = wake_one_inv[OF k1 mb_wait_lists(2)[of i]]
  show thesis by (rule that[OF e w(1)]) (use w in \<open>auto simp: s1_def\<close>)
qed

lemma mb_urgent_spec:
  assumes k: "kernel_inv s" and ok: "mb_ok (mailbox_of s i)" and nf: "\<not> mb_full i s"
  obtains s' where "rt_mb_urgent i v s = (Ret RT_EOK, s')" and "kernel_inv s'"
    and "mailbox_of s' = (mailbox_of s)(i := mb_rewind v (mailbox_of s i))"
    and "\<And>t ts. thread_lists s (MbRecvQ i) = t # ts \<Longrightarrow> \<not> suspended s' t \<and> thread_error (thread_of s' t) = RT_EOK"
proof -
  define s1 where "s1 = upd_mb i (mb_rewind v) s"
  have k1: "kernel_inv s1" using k by (simp add: s1_def)
  note w = wake_one_inv[OF k1 mb_wait_lists(1)[of i]]
  show thesis
    by (rule that[of "wake_one (MbRecvQ i) s1"]) (use nf w in \<open>auto simp: rt_mb_urgent_def s1_def\<close>)
qed

lemma mb_op_simps:
  "must_wait (mb_send_wait_op i v) = mb_full i" "proceed (mb_send_wait_op i v) = mb_put i v"
  "answer (mb_send_wait_op i v) r = r" "wait_on (mb_send_wait_op i v) = MbSendQ i"
  "wait_flag (mb_send_wait_op i v) s = mb_flag (mailbox_of s i)"
  "no_time (mb_send_wait_op i v) t s = (Ret (- RT_EFULL), s)"
  "must_wait (mb_recv_op i) s \<longleftrightarrow> mb_entry (mailbox_of s i) = 0" "proceed (mb_recv_op i) = mb_get i"
  "answer (mb_recv_op i) r = (r, None)" "wait_on (mb_recv_op i) = MbRecvQ i"
  "wait_flag (mb_recv_op i) s = mb_flag (mailbox_of s i)"
  by (simp_all add: mb_send_wait_op_def mb_recv_op_def)

lemma mb_send_ready: "\<not> mb_full i s \<Longrightarrow> mb_send_wait i v timeout sf s = Some (mb_put i v s)"
  using mb_send.call_proceeds[of i v s] by (simp add: mb_send_wait_def mb_op_simps)

lemma mb_recv_ready: "mb_entry (mailbox_of s i) \<noteq> 0 \<Longrightarrow> mb_recv i timeout sf s = Some (mb_get i s)"
  using mb_recv.call_proceeds[of i s] by (simp add: mb_recv_def mb_op_simps)

section \<open>The contract\<close>

text \<open>The calls that do not wait, as the client sees them: whether a send was accepted, and the message of a receive whose status
  says that there is one.\<close>

definition mb_try_send :: "oid \<Rightarrow> u32 \<Rightarrow> kstate \<Rightarrow> bool \<times> kstate" where
  "mb_try_send i v s = (case rt_mb_send i v s of None \<Rightarrow> (False, s) | Some (r, s') \<Rightarrow> (r = Ret RT_EOK, s'))"

definition mb_try_urgent :: "oid \<Rightarrow> u32 \<Rightarrow> kstate \<Rightarrow> bool \<times> kstate" where
  "mb_try_urgent i v s = (let (r, s') = rt_mb_urgent i v s in (r = Ret RT_EOK, s'))"

definition mb_try_recv :: "oid \<Rightarrow> kstate \<Rightarrow> u32 option \<times> kstate" where
  "mb_try_recv i s = (case rt_mb_recv i 0 s of None \<Rightarrow> (None, s) | Some ((r, v), s') \<Rightarrow> (if r = Ret RT_EOK then v else None, s'))"

abbreviation mb_invar :: "oid \<Rightarrow> kstate \<Rightarrow> bool" where
  "mb_invar i s \<equiv> kernel_inv s \<and> mb_ok (mailbox_of s i)"

abbreviation mb_contents :: "oid \<Rightarrow> kstate \<Rightarrow> u32 list" where
  "mb_contents i s \<equiv> mb_msgs (mailbox_of s i)"

abbreviation mb_cap :: "oid \<Rightarrow> kstate \<Rightarrow> nat" where
  "mb_cap i s \<equiv> unat (mb_size (mailbox_of s i))"

lemma mb_full_cap: "mb_ok (mailbox_of s i) \<Longrightarrow> mb_full i s \<longleftrightarrow> \<not> length (mb_contents i s) < mb_cap i s"
  by (auto simp: mb_full_def mb_ok_def word_le_nat_alt word_unat_eq_iff)

lemma mb_try_send_full: "mb_full i s \<Longrightarrow> mb_try_send i v s = (False, s)"
  by (simp add: mb_try_send_def rt_mb_send_def rt_mb_send_wait_def mb_send_wait_def RT_EFULL_def RT_EOK_def)

lemma mb_try_send_room:
  assumes iv: "mb_invar i s" and nf: "\<not> mb_full i s"
  shows "fst (mb_try_send i v s)" and "mb_contents i (snd (mb_try_send i v s)) = mb_contents i s @ [v]"
    and "mb_invar i (snd (mb_try_send i v s))" and "mb_cap i (snd (mb_try_send i v s)) = mb_cap i s"
proof -
  let ?mb = "mailbox_of s i"
  have ok: "mb_ok ?mb" and k: "kernel_inv s" and ne: "mb_entry ?mb \<noteq> mb_size ?mb"
    using iv nf by (auto simp: mb_full_def)
  obtain s' where s': "mb_put i v s = (Ret RT_EOK, s')" "kernel_inv s'"
    "mailbox_of s' = (mailbox_of s)(i := (mb_store v ?mb)\<lparr> mb_entry := mb_entry ?mb + 1 \<rparr>)"
    by (rule mb_put_spec[OF k ok nf]) blast
  have e: "mb_try_send i v s = (True, s')"
    using mb_send_ready[OF nf] s'(1) by (simp add: mb_try_send_def rt_mb_send_def rt_mb_send_wait_def)
  show "fst (mb_try_send i v s)" "mb_contents i (snd (mb_try_send i v s)) = mb_contents i s @ [v]"
    "mb_invar i (snd (mb_try_send i v s))" "mb_cap i (snd (mb_try_send i v s)) = mb_cap i s"
    using s'(2,3) mb_store_spec(1,2)[OF ok ne, where v = v] by (simp_all add: e mb_store_fields)
qed

lemma mb_try_urgent_full: "mb_full i s \<Longrightarrow> mb_try_urgent i v s = (False, s)"
  by (simp add: mb_try_urgent_def rt_mb_urgent_def RT_EFULL_def RT_EOK_def)

lemma mb_try_urgent_room:
  assumes iv: "mb_invar i s" and nf: "\<not> mb_full i s"
  shows "fst (mb_try_urgent i v s)" and "mb_contents i (snd (mb_try_urgent i v s)) = v # mb_contents i s"
    and "mb_invar i (snd (mb_try_urgent i v s))" and "mb_cap i (snd (mb_try_urgent i v s)) = mb_cap i s"
proof -
  let ?mb = "mailbox_of s i"
  have ok: "mb_ok ?mb" and k: "kernel_inv s" and ne: "mb_entry ?mb \<noteq> mb_size ?mb"
    using iv nf by (auto simp: mb_full_def)
  obtain s' where s': "rt_mb_urgent i v s = (Ret RT_EOK, s')" "kernel_inv s'"
    "mailbox_of s' = (mailbox_of s)(i := mb_rewind v ?mb)"
    by (rule mb_urgent_spec[OF k ok nf]) blast
  show "fst (mb_try_urgent i v s)" "mb_contents i (snd (mb_try_urgent i v s)) = v # mb_contents i s"
    "mb_invar i (snd (mb_try_urgent i v s))" "mb_cap i (snd (mb_try_urgent i v s)) = mb_cap i s"
    using s' mb_rewind_spec[OF ok ne, of v] by (simp_all add: mb_try_urgent_def)
qed

lemma mb_contents_empty: "mb_contents i s = [] \<longleftrightarrow> mb_entry (mailbox_of s i) = 0"
  by (metis length_0_conv length_mb_msgs unat_eq_zero)

lemma mb_try_recv_empty: "mb_contents i s = [] \<Longrightarrow> mb_try_recv i s = (None, s)"
  by (simp add: mb_contents_empty mb_try_recv_def rt_mb_recv_def mb_recv_def)

lemma mb_try_recv_some:
  assumes iv: "mb_invar i s" and c: "mb_contents i s = m # ms"
  shows "fst (mb_try_recv i s) = Some m" and "mb_contents i (snd (mb_try_recv i s)) = ms"
    and "mb_invar i (snd (mb_try_recv i s))" and "mb_cap i (snd (mb_try_recv i s)) = mb_cap i s"
proof -
  let ?mb = "mailbox_of s i"
  have ok: "mb_ok ?mb" and k: "kernel_inv s" and ne: "mb_entry ?mb \<noteq> 0"
    using iv c mb_contents_empty[where i = i and s = s] by auto
  obtain s' where s': "mb_get i s = ((Ret RT_EOK, Some (hd (mb_contents i s))), s')" "kernel_inv s'"
    "mailbox_of s' = (mailbox_of s)(i := mb_fetch ?mb)"
    by (rule mb_get_spec[OF k ok ne]) blast
  have e: "mb_try_recv i s = (Some m, s')"
    using mb_recv_ready[OF ne] s'(1) c by (simp add: mb_try_recv_def rt_mb_recv_def)
  show "fst (mb_try_recv i s) = Some m" "mb_contents i (snd (mb_try_recv i s)) = ms"
    "mb_invar i (snd (mb_try_recv i s))" "mb_cap i (snd (mb_try_recv i s)) = mb_cap i s"
    using s'(2,3) mb_fetch_spec[OF ok ne] c by (simp_all add: e)
qed

interpretation mb_contract: message_store "mb_invar i" "mb_contents i" "mb_cap i" "\<lambda>_. True"
  "mb_try_send i" "mb_try_urgent i" "mb_try_recv i" for i
proof unfold_locales
  fix s m
  assume iv: "mb_invar i s"
  have s: "mb_try_send i m s = (False, s) \<or> \<not> mb_full i s" "mb_try_urgent i m s = (False, s) \<or> \<not> mb_full i s"
    using mb_try_send_full mb_try_urgent_full by blast+
  have r: "mb_try_recv i s = (None, s) \<or> (\<exists>m ms. mb_contents i s = m # ms)"
    using mb_try_recv_empty by (metis list.exhaust)
  show "mb_invar i (snd (mb_try_send i m s)) \<and> mb_invar i (snd (mb_try_urgent i m s)) \<and> mb_invar i (snd (mb_try_recv i s))"
    using iv s r mb_try_send_room(3) mb_try_urgent_room(3) mb_try_recv_some(3) by (metis snd_conv)
  show "mb_cap i (snd (mb_try_send i m s)) = mb_cap i s \<and> mb_cap i (snd (mb_try_urgent i m s)) = mb_cap i s
      \<and> mb_cap i (snd (mb_try_recv i s)) = mb_cap i s"
    using iv s r mb_try_send_room(4) mb_try_urgent_room(4) mb_try_recv_some(4) by (metis snd_conv)
qed (auto simp: mb_full_cap mb_try_send_full mb_try_urgent_full mb_try_send_room mb_try_urgent_room
    mb_try_recv_empty mb_try_recv_some)

section \<open>Example systems\<close>

text \<open>Mailbox 0 of the example kernel, of size 4, with its first \<open>n\<close> words in use.\<close>

definition demo_mb :: "u16 \<Rightarrow> kstate" where
  "demo_mb n = upd_mb 0 (\<lambda>x. x\<lparr> mb_pool := [11, 22, 33, 44], mb_entry := n, mb_in_offset := n mod 4 \<rparr>) demo_kernel"

lemma demo_mb_fields:
  "mailbox_of (demo_mb n) 0 = \<lparr> mb_flag = RT_IPC_FLAG_FIFO, mb_pool = [11, 22, 33, 44], mb_size = 4, mb_entry = n,
     mb_in_offset = n mod 4, mb_out_offset = 0 \<rparr>"
  "kernel_inv (demo_mb n)" "may_block (demo_mb n) 1" "thread_lists (demo_mb n) = thread_lists demo_kernel"
proof -
  show "may_block (demo_mb n) 1" "kernel_inv (demo_mb n)" "thread_lists (demo_mb n) = thread_lists demo_kernel"
    using demo_may_block demo_kernel_inv by (simp_all add: demo_mb_def may_block_def) (simp_all add: upd_mb_def)
qed (simp add: demo_mb_def demo_kernel_def)

lemma demo_mb_ok: "n \<in> {0, 3, 4} \<Longrightarrow> mb_ok (mailbox_of (demo_mb n) 0)"
  by (auto simp: demo_mb_fields mb_ok_def)

lemma demo_mb_msgs: "mb_contents 0 (demo_mb 0) = []" "mb_contents 0 (demo_mb 3) = [11, 22, 33]"
  "mb_contents 0 (demo_mb 4) = [11, 22, 33, 44]"
  by (simp_all add: demo_mb_fields mb_msgs_def upt_rec)

text \<open>Thread 1 waits to receive from the empty mailbox.\<close>

lemma demo_mb_receiver:
  obtains s where "kernel_inv s" and "thread_lists s (MbRecvQ 0) = [1]" and "mailbox_of s = mailbox_of (demo_mb 0)"
proof -
  have w: "must_wait (mb_recv_op 0) (demo_mb 0)" "(50 :: int) \<noteq> 0" by (simp_all add: demo_mb_fields mb_op_simps)
  obtain s' where "kernel_inv s'" "mailbox_of s' = mailbox_of (demo_mb 0)"
    "\<And>m. wait_list m \<Longrightarrow> thread_lists s' m = (if m = wait_on (mb_recv_op 0)
       then enqueue_order (wait_flag (mb_recv_op 0) (demo_mb 0)) (\<lambda>u. current_priority (thread_of (demo_mb 0) u)) 1
         (thread_lists (demo_mb 0) m) else thread_lists (demo_mb 0) m)"
    by (rule mb_recv.blocks[OF demo_mb_fields(2,3) w, of RT_UNINTERRUPTIBLE]) blast
  then show thesis
    using that[of s'] by (simp add: mb_op_simps demo_mb_fields demo_lists enqueue_order_simps)
qed

section \<open>Properties\<close>

text \<open>C11: a mailbox is a bounded store of words. Whatever sequence of sends, urgent sends
  and receives (none of them waiting) is made on a mailbox, every answer and the final
  contents are those of a list of at most \<open>size\<close> words that is appended to, prepended to
  and taken from; without urgent sends the words come out in the order in which they
  were accepted. The ring stays well-formed, its offsets in range, and the kernel
  invariant is kept through all the wake-ups.\<close>

theorem mailbox_refines_store:
  assumes "kernel_inv s" and "mb_ok (mailbox_of s i)"
  shows "let (as, s') = run_ops (impl_step (mb_try_send i) (mb_try_urgent i) (mb_try_recv i)) xs s;
             (bs, q) = run_ops (store_step (unat (mb_size (mailbox_of s i)))) xs (mb_msgs (mailbox_of s i)) in
    as = bs \<and> mb_msgs (mailbox_of s' i) = q \<and> kernel_inv s' \<and> mb_ok (mailbox_of s' i) \<and>
    ((\<forall>x \<in> set xs. \<forall>v. x \<noteq> Urgent v) \<longrightarrow> received as @ q = mb_msgs (mailbox_of s i) @ accepted xs as)"
proof -
  have "list_all (op_ok (\<lambda>_. True)) xs" by (simp add: list_all_iff) (metis op_ok.elims(3))
  from mb_contract.run_refines[of s i, OF _ this] assms store_fifo[of xs] show ?thesis
    by (simp add: case_prod_unfold Let_def)
qed

theorem mailbox_refines_store_witness:
  "fst (run_ops (impl_step (mb_try_send 0) (mb_try_urgent 0) (mb_try_recv 0))
     [Send 55, Send 66, Receive, Urgent 77, Receive] (demo_mb 3))
   = [Accepted, Rejected, Received 11, Accepted, Received 77]"
  using mailbox_refines_store[of "demo_mb 3" 0 "[Send 55, Send 66, Receive, Urgent 77, Receive]"]
    demo_mb_ok[of 3] demo_mb_fields(2)[of 3]
  by (simp add: demo_mb_msgs case_prod_unfold Let_def) (simp add: demo_mb_fields)

text \<open>Sending to a mailbox, on every branch. The call always returns or suspends its
  caller. With room the word becomes the last one and the first waiting receiver, if
  any, is woken; a full mailbox answers \<open>-RT_EFULL\<close> at once for a zero timeout, and
  otherwise suspends the caller among the waiting senders, with its timer armed.\<close>

theorem mb_send_wait_behaviour:
  assumes k: "kernel_inv s" and ok: "mb_ok (mailbox_of s i)" and mb: "may_block s t"
  shows "\<exists>r s'. mb_send_wait i v timeout sf s = Some (r, s') \<and> kernel_inv s' \<and> mb_ok (mailbox_of s' i) \<and>
    (\<forall>j. j \<noteq> i \<longrightarrow> mailbox_of s' j = mailbox_of s j) \<and>
    (if \<not> mb_full i s then
       r = Ret RT_EOK \<and> mb_msgs (mailbox_of s' i) = mb_msgs (mailbox_of s i) @ [v] \<and>
       thread_lists s' (MbRecvQ i) = tl (thread_lists s (MbRecvQ i)) \<and>
       (\<forall>u us. thread_lists s (MbRecvQ i) = u # us \<longrightarrow> \<not> suspended s' u)
     else if timeout = 0 then r = Ret (- RT_EFULL) \<and> s' = s
     else r = Blocked \<and> mailbox_of s' = mailbox_of s \<and> suspended s' t \<and>
       thread_lists s' (MbSendQ i) = enqueue_order (mb_flag (mailbox_of s i))
         (\<lambda>u. current_priority (thread_of s u)) t (thread_lists s (MbSendQ i)) \<and>
       (timeout > 0 \<longrightarrow> timeout_tick (timer_of s' (ThreadTimer t)) = rt_tick s + word_of_int timeout))"
proof -
  have c: "rt_current_thread s = Some t" using mb by (simp add: may_block_def)
  consider (room) "\<not> mb_full i s" | (no) "mb_full i s" "timeout = 0" | (wait) "mb_full i s" "timeout \<noteq> 0" by blast
  then show ?thesis
  proof cases
    case room
    then have ne: "mb_entry (mailbox_of s i) \<noteq> mb_size (mailbox_of s i)" by (simp add: mb_full_def)
    note st = mb_store_spec(1,2)[OF ok ne, where v = v]
    show ?thesis
      by (rule mb_put_spec[OF k ok room, of v]) (use room st in \<open>auto simp: mb_send_ready\<close>)
  next
    case no
    then show ?thesis using k ok by (simp add: mb_send_wait_def)
  next
    case wait
    have e: "mb_send_wait i v timeout sf s = wait_while (mb_send_wait_op i v) sf t timeout s"
      using wait mb_send.call_self[OF c] by (simp add: mb_send_wait_def)
    show ?thesis
      by (rule mb_send.blocks[OF k mb, of i v timeout sf])
        (use wait ok in \<open>auto simp: mb_op_simps e\<close>)
  qed
qed

theorem mb_send_wait_behaviour_witness:
  "\<exists>s'. mb_send_wait 0 9 50 RT_UNINTERRUPTIBLE (demo_mb 4) = Some (Blocked, s') \<and> thread_lists s' (MbSendQ 0) = [1]"
  using mb_send_wait_behaviour[OF demo_mb_fields(2) demo_mb_ok demo_mb_fields(3), of 4 9 50 RT_UNINTERRUPTIBLE]
  by (auto simp: mb_full_def demo_mb_fields demo_lists enqueue_order_simps)

text \<open>Receiving from a mailbox, on every branch: the oldest word is delivered and the
  first waiting sender woken; an empty mailbox answers \<open>-RT_ETIMEOUT\<close> at once for a zero
  timeout, and otherwise suspends the caller among the waiting receivers.\<close>

theorem mb_recv_behaviour:
  assumes k: "kernel_inv s" and ok: "mb_ok (mailbox_of s i)" and mb: "may_block s t"
  shows "\<exists>r v s'. mb_recv i timeout sf s = Some ((r, v), s') \<and> kernel_inv s' \<and> mb_ok (mailbox_of s' i) \<and>
    (\<forall>j. j \<noteq> i \<longrightarrow> mailbox_of s' j = mailbox_of s j) \<and>
    (case mb_msgs (mailbox_of s i) of
       m # ms \<Rightarrow> r = Ret RT_EOK \<and> v = Some m \<and> mb_msgs (mailbox_of s' i) = ms \<and>
         thread_lists s' (MbSendQ i) = tl (thread_lists s (MbSendQ i)) \<and>
         (\<forall>u us. thread_lists s (MbSendQ i) = u # us \<longrightarrow> \<not> suspended s' u)
     | [] \<Rightarrow> v = None \<and> mailbox_of s' = mailbox_of s \<and>
         (if timeout = 0 then r = Ret (- RT_ETIMEOUT) \<and> s' = s
          else r = Blocked \<and> suspended s' t \<and>
            thread_lists s' (MbRecvQ i) = enqueue_order (mb_flag (mailbox_of s i))
              (\<lambda>u. current_priority (thread_of s u)) t (thread_lists s (MbRecvQ i)) \<and>
            (timeout > 0 \<longrightarrow> timeout_tick (timer_of s' (ThreadTimer t)) = rt_tick s + word_of_int timeout)))"
proof -
  have c: "rt_current_thread s = Some t" using mb by (simp add: may_block_def)
  show ?thesis
  proof (cases "mb_msgs (mailbox_of s i)")
    case (Cons m ms)
    then have ne: "mb_entry (mailbox_of s i) \<noteq> 0" using mb_contents_empty[where i = i and s = s] by auto
    show ?thesis
      by (rule mb_get_spec[OF k ok ne]) (use ne Cons mb_fetch_spec[OF ok ne] in \<open>auto simp: mb_recv_ready\<close>)
  next
    case Nil
    then have z: "mb_entry (mailbox_of s i) = 0" using mb_contents_empty[where i = i and s = s] by auto
    show ?thesis
    proof (cases "timeout = 0")
      case True
      then show ?thesis using k ok z Nil by (simp add: mb_recv_def)
    next
      case False
      have e: "mb_recv i timeout sf s = wait_while (mb_recv_op i) sf t timeout s"
        using False mb_recv.call_self[OF c] by (simp add: mb_recv_def)
      show ?thesis
        by (rule mb_recv.blocks[OF k mb, of i timeout sf]) (use z False ok Nil in \<open>auto simp: mb_op_simps e\<close>)
    qed
  qed
qed

theorem mb_recv_behaviour_witness:
  "\<exists>s'. mb_recv 0 0 RT_UNINTERRUPTIBLE (demo_mb 3) = Some ((Ret RT_EOK, Some 11), s') \<and> mb_contents 0 s' = [22, 33]"
  using mb_recv_behaviour[OF demo_mb_fields(2) demo_mb_ok demo_mb_fields(3), of 3 0 RT_UNINTERRUPTIBLE]
  by (auto simp: demo_mb_msgs)

text \<open>A word passes from sender to receiver through the wake-up. When a word is sent to
  an empty mailbox on which a receiver waits, the receiver is woken, and when it runs
  next its call returns that word. When a word is received from a full mailbox on which
  a sender waits, the sender is woken, and when it runs next its call stores its word
  behind the remaining ones.\<close>

theorem mb_wait_handover:
  assumes k: "kernel_inv s" and ok: "mb_ok (mailbox_of s i)"
  shows "(mb_msgs (mailbox_of s i) = [] \<and> mb_size (mailbox_of s i) \<noteq> 0 \<and> thread_lists s (MbRecvQ i) = t # ts \<longrightarrow>
      (\<exists>s1 s2. rt_mb_send i v s = Some (Ret RT_EOK, s1) \<and> \<not> suspended s1 t \<and>
         wait_resume (mb_recv_op i) sf t timeout start s1 = Some ((Ret RT_EOK, Some v), s2) \<and>
         mb_msgs (mailbox_of s2 i) = [] \<and> kernel_inv s2)) \<and>
    (mb_full i s \<and> mb_msgs (mailbox_of s i) = m # ms \<and> thread_lists s (MbSendQ i) = t # ts \<longrightarrow>
      (\<exists>s1 s2. rt_mb_recv i 0 s = Some ((Ret RT_EOK, Some m), s1) \<and> \<not> suspended s1 t \<and>
         wait_resume (mb_send_wait_op i v) sf t timeout start s1 = Some (Ret RT_EOK, s2) \<and>
         mb_msgs (mailbox_of s2 i) = ms @ [v] \<and> kernel_inv s2))"
proof (intro conjI impI)
  let ?mb = "mailbox_of s i"
  assume "mb_msgs ?mb = [] \<and> mb_size ?mb \<noteq> 0 \<and> thread_lists s (MbRecvQ i) = t # ts"
  then have e: "mb_msgs ?mb = []" and z: "mb_size ?mb \<noteq> 0" and l: "thread_lists s (MbRecvQ i) = t # ts" by auto
  have nf: "\<not> mb_full i s" using e z mb_contents_empty[where i = i and s = s] by (auto simp: mb_full_def)
  then have ne: "mb_entry ?mb \<noteq> mb_size ?mb" by (simp add: mb_full_def)
  obtain s1 where s1: "mb_put i v s = (Ret RT_EOK, s1)" "kernel_inv s1"
    "mailbox_of s1 i = (mb_store v ?mb)\<lparr> mb_entry := mb_entry ?mb + 1 \<rparr>"
    "\<not> suspended s1 t" "thread_error (thread_of s1 t) = RT_EOK"
    by (rule mb_put_spec[OF k ok nf, of v]) (use l in auto)
  have m1: "mb_ok (mailbox_of s1 i)" "mb_msgs (mailbox_of s1 i) = [v]"
    using mb_store_spec(1,2)[OF ok ne, where v = v] e s1(3) by simp_all
  then have ne1: "mb_entry (mailbox_of s1 i) \<noteq> 0" using mb_contents_empty[where i = i and s = s1] by auto
  obtain s2 where s2: "mb_get i s1 = ((Ret RT_EOK, Some v), s2)" "kernel_inv s2" "mailbox_of s2 i = mb_fetch (mailbox_of s1 i)"
    by (rule mb_get_spec[OF s1(2) m1(1) ne1]) (use m1 in auto)
  show "\<exists>s1 s2. rt_mb_send i v s = Some (Ret RT_EOK, s1) \<and> \<not> suspended s1 t \<and>
      wait_resume (mb_recv_op i) sf t timeout start s1 = Some ((Ret RT_EOK, Some v), s2) \<and>
      mb_msgs (mailbox_of s2 i) = [] \<and> kernel_inv s2"
    using mb_send_ready[OF nf] s1 mb_recv.resume_proceeds[OF s1(5), of i] ne1 s2 mb_fetch_spec(2)[OF m1(1) ne1] m1(2)
    by (intro exI[of _ s1] exI[of _ s2]) (simp add: rt_mb_send_def rt_mb_send_wait_def mb_op_simps)
next
  let ?mb = "mailbox_of s i"
  assume "mb_full i s \<and> mb_msgs ?mb = m # ms \<and> thread_lists s (MbSendQ i) = t # ts"
  then have c: "mb_msgs ?mb = m # ms" and l: "thread_lists s (MbSendQ i) = t # ts" by auto
  have ne: "mb_entry ?mb \<noteq> 0" using c mb_contents_empty[where i = i and s = s] by auto
  obtain s1 where s1: "mb_get i s = ((Ret RT_EOK, Some m), s1)" "kernel_inv s1" "mailbox_of s1 i = mb_fetch ?mb"
    "\<not> suspended s1 t" "thread_error (thread_of s1 t) = RT_EOK"
    by (rule mb_get_spec[OF k ok ne]) (use c l in auto)
  note f = mb_fetch_spec[OF ok ne]
  have m1: "mb_ok (mailbox_of s1 i)" "mb_msgs (mailbox_of s1 i) = ms" using f c s1(3) by simp_all
  have "length (mb_msgs ?mb) \<le> mb_cap i s" using ok by (simp add: mb_ok_def word_le_nat_alt)
  then have nf: "\<not> mb_full i s1" using mb_full_cap[OF m1(1)] m1(2) c f(3) s1(3) by (simp del: length_mb_msgs)
  then have ne1: "mb_entry (mailbox_of s1 i) \<noteq> mb_size (mailbox_of s1 i)" by (simp add: mb_full_def)
  obtain s2 where s2: "mb_put i v s1 = (Ret RT_EOK, s2)" "kernel_inv s2"
    "mailbox_of s2 i = (mb_store v (mailbox_of s1 i))\<lparr> mb_entry := mb_entry (mailbox_of s1 i) + 1 \<rparr>"
    by (rule mb_put_spec[OF s1(2) m1(1) nf, of v]) auto
  show "\<exists>s1 s2. rt_mb_recv i 0 s = Some ((Ret RT_EOK, Some m), s1) \<and> \<not> suspended s1 t \<and>
      wait_resume (mb_send_wait_op i v) sf t timeout start s1 = Some (Ret RT_EOK, s2) \<and>
      mb_msgs (mailbox_of s2 i) = ms @ [v] \<and> kernel_inv s2"
    using mb_recv_ready[OF ne] s1 mb_send.resume_proceeds[OF s1(5), of i v] nf s2
      mb_store_spec(2)[OF m1(1) ne1, where v = v] m1(2)
    by (intro exI[of _ s1] exI[of _ s2]) (simp add: rt_mb_recv_def mb_op_simps)
qed

theorem mb_wait_handover_witness:
  "\<exists>s s1 s2. thread_lists s (MbRecvQ 0) = [1] \<and> rt_mb_send 0 77 s = Some (Ret RT_EOK, s1) \<and>
     wait_resume (mb_recv_op 0) RT_UNINTERRUPTIBLE 1 50 0 s1 = Some ((Ret RT_EOK, Some 77), s2)"
proof -
  obtain s where s: "kernel_inv s" "thread_lists s (MbRecvQ 0) = [1]" "mailbox_of s = mailbox_of (demo_mb 0)"
    by (rule demo_mb_receiver)
  show ?thesis
    using mb_wait_handover[OF s(1), where i = 0 and t = 1 and ts = "[]" and v = 77 and sf = RT_UNINTERRUPTIBLE
        and timeout = 50 and start = 0] s(2,3) demo_mb_ok[of 0] demo_mb_msgs(1)
    by (auto simp: demo_mb_fields)
qed

text \<open>A wait on a mailbox that is ended by the timer returns \<open>-RT_ETIMEOUT\<close>, one that is
  ended by a reset or a detach of the mailbox returns \<open>RT_ERROR\<close>, a positive number. In
  both cases the thread is off the wait list and no word is delivered or stored by it.\<close>

theorem mb_wait_ends_with_error:
  assumes k: "kernel_inv s" and q: "t \<in> set (thread_lists s (MbRecvQ i)) \<union> set (thread_lists s (MbSendQ i))"
  shows "let f = fire_thread_timer t s; e = snd (rt_mb_control i RT_IPC_CMD_RESET s); d = snd (rt_mb_detach i s) in
    (\<not> suspended f t \<and> kernel_inv f \<and> t \<notin> set (thread_lists f (MbRecvQ i)) \<and> t \<notin> set (thread_lists f (MbSendQ i)) \<and>
     wait_resume (mb_recv_op i) sf t timeout start f = Some ((Ret (- RT_ETIMEOUT), None), f) \<and>
     wait_resume (mb_send_wait_op i v) sf t timeout start f = Some (Ret (- RT_ETIMEOUT), f)) \<and>
    (\<forall>x \<in> {e, d}. \<not> suspended x t \<and> kernel_inv x \<and> thread_lists x (MbRecvQ i) = [] \<and> thread_lists x (MbSendQ i) = [] \<and>
     wait_resume (mb_recv_op i) sf t timeout start x = Some ((Ret RT_ERROR, None), x) \<and>
     wait_resume (mb_send_wait_op i v) sf t timeout start x = Some (Ret RT_ERROR, x)) \<and>
    mb_msgs (mailbox_of e i) = []"
proof -
  have sp: "suspended s t" using waiter_suspended[OF k _ , of "MbRecvQ i" t] waiter_suspended[OF k _ , of "MbSendQ i" t] q by auto
  note f = fire_thread_timer_spec[OF k sp]
  define y where "y = mb_resume_all i s"
  define z where "z = upd_mb i (\<lambda>x. x\<lparr> mb_entry := 0, mb_in_offset := 0, mb_out_offset := 0 \<rparr>) y"
  have y: "kernel_inv y" "thread_lists y (MbRecvQ i) = []" "thread_lists y (MbSendQ i) = []"
    "\<not> suspended y t" "thread_error (thread_of y t) = RT_ERROR"
    using resume_two[OF k mb_wait_lists(1)[of i] mb_wait_lists(2)[of i]] q by (auto simp: y_def mb_resume_all_def Let_def)
  have kz: "kernel_inv z" using y(1) by (simp add: z_def)
  note sz = schedule_keeps[OF kz]
  have e: "snd (rt_mb_control i RT_IPC_CMD_RESET s) = rt_schedule z"
    by (simp add: rt_mb_control_def Let_def y_def z_def)
  have d: "snd (rt_mb_detach i s) = y\<lparr> registry := rt_object_detach (OMailBox i) (registry y) \<rparr>"
    by (simp add: rt_mb_detach_def Let_def y_def)
  have ez: "\<not> suspended (rt_schedule z) t" "thread_error (thread_of (rt_schedule z) t) = RT_ERROR"
    "thread_lists (rt_schedule z) (MbRecvQ i) = []" "thread_lists (rt_schedule z) (MbSendQ i) = []"
    "mb_msgs (mailbox_of (rt_schedule z) i) = []"
    using y sz(2)[of t] sz(3)[of "MbRecvQ i"] sz(3)[of "MbSendQ i"] sz(4)[of t] by (simp_all add: z_def mb_msgs_def)
  have f': "\<not> suspended (fire_thread_timer t s) t" "kernel_inv (fire_thread_timer t s)"
    "t \<notin> set (thread_lists (fire_thread_timer t s) (MbRecvQ i))" "t \<notin> set (thread_lists (fire_thread_timer t s) (MbSendQ i))"
    using f(1,2) f(4)[of "MbRecvQ i"] f(4)[of "MbSendQ i"] by auto
  have ne: "- RT_ETIMEOUT \<noteq> RT_EOK" "RT_ERROR \<noteq> RT_EOK" by (simp_all add: RT_ETIMEOUT_def RT_ERROR_def RT_EOK_def)
  show ?thesis
    unfolding Let_def e d
    using f' f(9) ne ez sz(1) y by (simp add: wait_resume_def mb_op_simps)
qed

theorem mb_wait_ends_with_error_witness:
  "\<exists>s. thread_lists s (MbRecvQ 0) = [1] \<and>
     wait_resume (mb_recv_op 0) RT_UNINTERRUPTIBLE 1 50 0 (snd (rt_mb_control 0 RT_IPC_CMD_RESET s))
       = Some ((Ret RT_ERROR, None), snd (rt_mb_control 0 RT_IPC_CMD_RESET s))"
proof -
  obtain s where s: "kernel_inv s" "thread_lists s (MbRecvQ 0) = [1]" by (rule demo_mb_receiver)
  show ?thesis
    using mb_wait_ends_with_error[OF s(1), of 1 0 RT_UNINTERRUPTIBLE 50 0] s(2)
    by (intro exI[of _ s]) (simp add: Let_def)
qed

end
