(* ===== verification/MsgQueue.thy ===== *)
theory MsgQueue
  imports MailBox
begin

text \<open>
  Message queues (\<open>rt-thread/src/ipc.c\<close>, lines 3084 to 4025): messages are copied into
  blocks of a pool, which are linked into a queue or into a list of free blocks. A send
  takes a block off the free list in one critical section, fills it with interrupts
  enabled and links it in a second one; a receive does the reverse. The pieces are
  separate definitions, so that the invariant of the pool can be shown for every
  interleaving of concurrent calls.
\<close>

section \<open>Operations\<close>

definition RT_MQ_ENTRY_MAX :: u16 where "RT_MQ_ENTRY_MAX = 0xFFFF"

definition RT_ALIGN8 :: "u32 \<Rightarrow> u32" where
  "RT_ALIGN8 sz = (sz + 8 - 1) AND NOT (8 - 1)"

definition upd_mq :: "oid \<Rightarrow> (rt_messagequeue \<Rightarrow> rt_messagequeue) \<Rightarrow> kstate \<Rightarrow> kstate" where
  "upd_mq i f s = s\<lparr> mq_of := (mq_of s)(i := f (mq_of s i)) \<rparr>"

definition set_next :: "nat \<Rightarrow> nat option \<Rightarrow> rt_messagequeue \<Rightarrow> rt_messagequeue" where
  "set_next b n mq = mq\<lparr> mq_pool := (mq_pool mq)(b := (mq_pool mq b)\<lparr> msg_next := n \<rparr>) \<rparr>"

text \<open>Putting a block on the free list, and the loop that does it for all blocks.\<close>

definition mq_release_block :: "nat \<Rightarrow> rt_messagequeue \<Rightarrow> rt_messagequeue" where
  "mq_release_block b mq = (set_next b (msg_queue_free mq) mq)\<lparr> msg_queue_free := Some b \<rparr>"

fun link_blocks :: "nat \<Rightarrow> rt_messagequeue \<Rightarrow> rt_messagequeue" where
  "link_blocks 0 mq = mq"
| "link_blocks (Suc n) mq = mq_release_block n (link_blocks n mq)"

definition mq_lists_init :: "rt_messagequeue \<Rightarrow> rt_messagequeue" where
  "mq_lists_init mq =
    (let mq = mq\<lparr> msg_queue_head := None, msg_queue_tail := None, msg_queue_free := None \<rparr>;
         mq = link_blocks (unat (mq_max_msgs mq)) mq
     in mq\<lparr> mq_entry := 0 \<rparr>)"

text \<open>\<open>msgpool\<close> is the memory the caller provides, seen as blocks.\<close>

definition rt_mq_init ::
  "oid \<Rightarrow> byte list \<Rightarrow> (nat \<Rightarrow> rt_mq_message) \<Rightarrow> u32 \<Rightarrow> u32 \<Rightarrow> u8 \<Rightarrow> kstate \<Rightarrow> int \<times> kstate" where
  "rt_mq_init i name msgpool msg_size pool_size flag s =
    (let s = s\<lparr> registry := rt_object_init (OMessageQueue i) RT_Object_Class_MessageQueue name (registry s) \<rparr>;
         s = upd_mq i (\<lambda>x. x\<lparr> mq_flag := flag \<rparr>) s;
         s = ipc_object_init (MqRecvQ i) s;
         s = upd_mq i (\<lambda>x. x\<lparr> mq_pool := msgpool, mq_msg_size := ucast msg_size,
               mq_max_msgs := ucast (pool_size div (RT_ALIGN8 msg_size + 8)) \<rparr>) s
     in if mq_max_msgs (mq_of s i) = 0 then (- RT_EINVAL, s)
        else
          let s = upd_mq i mq_lists_init s
          in (RT_EOK, s\<lparr> thread_lists := (thread_lists s)(MqSendQ i := []) \<rparr>))"

definition mq_resume_all :: "oid \<Rightarrow> kstate \<Rightarrow> kstate" where
  "mq_resume_all i s =
    (let s = rt_susp_list_resume_all (MqRecvQ i) RT_ERROR s
     in rt_susp_list_resume_all (MqSendQ i) RT_ERROR s)"

definition rt_mq_detach :: "oid \<Rightarrow> kstate \<Rightarrow> int \<times> kstate" where
  "rt_mq_detach i s =
    (let s = mq_resume_all i s
     in (RT_EOK, s\<lparr> registry := rt_object_detach (OMessageQueue i) (registry s) \<rparr>))"

definition rt_mq_create ::
  "oid option \<Rightarrow> (nat \<Rightarrow> rt_mq_message) option \<Rightarrow> byte list \<Rightarrow> u32 \<Rightarrow> u32 \<Rightarrow> u8 \<Rightarrow> kstate \<Rightarrow> oid option \<times> kstate" where
  "rt_mq_create addr pool name msg_size max_msgs flag s =
    (case addr of None \<Rightarrow> (None, s)
     | Some i \<Rightarrow>
        let s = s\<lparr> registry := snd (rt_object_allocate (Some (OMessageQueue i)) RT_Object_Class_MessageQueue name (registry s)) \<rparr>;
            s = upd_mq i (\<lambda>x. x\<lparr> mq_flag := flag \<rparr>) s;
            s = ipc_object_init (MqRecvQ i) s;
            s = upd_mq i (\<lambda>x. x\<lparr> mq_msg_size := ucast msg_size, mq_max_msgs := ucast max_msgs \<rparr>) s
        in case pool of
             None \<Rightarrow> (None, s\<lparr> registry := rt_object_delete (OMessageQueue i) (registry s) \<rparr>)
           | Some p \<Rightarrow>
               let s = upd_mq i (\<lambda>x. mq_lists_init (x\<lparr> mq_pool := p \<rparr>)) s
               in (Some i, s\<lparr> thread_lists := (thread_lists s)(MqSendQ i := []) \<rparr>))"

definition rt_mq_delete :: "oid \<Rightarrow> kstate \<Rightarrow> int \<times> kstate" where
  "rt_mq_delete i s =
    (let s = rt_spin_lock s;
         s = mq_resume_all i s;
         s = rt_spin_unlock s
     in (RT_EOK, s\<lparr> registry := rt_object_delete (OMessageQueue i) (registry s) \<rparr>))"

text \<open>The pieces of a send: move the free list pointer; clear the link; fill the block;
  link it at the tail.\<close>

definition mq_claim :: "nat \<Rightarrow> rt_messagequeue \<Rightarrow> rt_messagequeue" where
  "mq_claim b mq = mq\<lparr> msg_queue_free := msg_next (mq_pool mq b) \<rparr>"

definition mq_fill :: "nat \<Rightarrow> byte list \<Rightarrow> nat \<Rightarrow> rt_messagequeue \<Rightarrow> rt_messagequeue" where
  "mq_fill b buffer sz mq = mq\<lparr> mq_pool := (mq_pool mq)(b := (mq_pool mq b)
     \<lparr> msg_length := sz, msg_data := blit (msg_data (mq_pool mq b)) 0 (take sz buffer) \<rparr>) \<rparr>"

definition mq_link_tail :: "nat \<Rightarrow> rt_messagequeue \<Rightarrow> rt_messagequeue" where
  "mq_link_tail b mq =
    (let mq = (case msg_queue_tail mq of None \<Rightarrow> mq | Some e \<Rightarrow> set_next e (Some b) mq);
         mq = mq\<lparr> msg_queue_tail := Some b \<rparr>
     in if msg_queue_head mq = None then mq\<lparr> msg_queue_head := Some b \<rparr> else mq)"

definition mq_link_head :: "nat \<Rightarrow> rt_messagequeue \<Rightarrow> rt_messagequeue" where
  "mq_link_head b mq =
    (let mq = (set_next b (msg_queue_head mq) mq)\<lparr> msg_queue_head := Some b \<rparr>
     in if msg_queue_tail mq = None then mq\<lparr> msg_queue_tail := Some b \<rparr> else mq)"

text \<open>The second critical section of a send, with \<open>link\<close> one of the two above.\<close>

definition mq_publish :: "(rt_messagequeue \<Rightarrow> rt_messagequeue) \<Rightarrow> oid \<Rightarrow> kstate \<Rightarrow> ret \<times> kstate" where
  "mq_publish link i s =
    (let s = upd_mq i link s
     in if mq_entry (mq_of s i) < RT_MQ_ENTRY_MAX
        then let s = upd_mq i (\<lambda>x. x\<lparr> mq_entry := mq_entry x + 1 \<rparr>) s
             in (Ret RT_EOK, wake_one (MqRecvQ i) s)
        else (Ret (- RT_EFULL), s))"

definition mq_put :: "oid \<Rightarrow> byte list \<Rightarrow> nat \<Rightarrow> kstate \<Rightarrow> ret \<times> kstate" where
  "mq_put i buffer sz s =
    (case msg_queue_free (mq_of s i) of None \<Rightarrow> (Fault, s)
     | Some msg \<Rightarrow>
        let s = upd_mq i (mq_claim msg) s;
            s = upd_mq i (set_next msg None) s;
            s = upd_mq i (mq_fill msg buffer sz) s
        in mq_publish (mq_link_tail msg) i s)"

definition mq_full :: "oid \<Rightarrow> kstate \<Rightarrow> bool" where
  "mq_full i s \<longleftrightarrow> msg_queue_free (mq_of s i) = None"

definition mq_send_wait_op :: "oid \<Rightarrow> byte list \<Rightarrow> nat \<Rightarrow> ret timed_wait" where
  "mq_send_wait_op i buffer sz = \<lparr> must_wait = mq_full i, wait_on = MqSendQ i,
     wait_flag = (\<lambda>s. mq_flag (mq_of s i)), no_time = (\<lambda>t s. (Ret (- RT_EFULL), s)),
     answer = (\<lambda>r. r), proceed = mq_put i buffer sz \<rparr>"

definition mq_send_wait ::
  "oid \<Rightarrow> byte list \<Rightarrow> nat \<Rightarrow> int \<Rightarrow> suspend_flag \<Rightarrow> kstate \<Rightarrow> (ret \<times> kstate) option" where
  "mq_send_wait i buffer sz timeout sf s =
    (if sz > unat (mq_msg_size (mq_of s i)) then Some (Ret (- RT_ERROR), s)
     else if mq_full i s \<and> timeout = 0 then Some (Ret (- RT_EFULL), s)
     else wait_call (mq_send_wait_op i buffer sz) sf timeout s)"

definition rt_mq_send_wait :: "oid \<Rightarrow> byte list \<Rightarrow> nat \<Rightarrow> int \<Rightarrow> kstate \<Rightarrow> (ret \<times> kstate) option" where
  "rt_mq_send_wait i buffer sz timeout s = mq_send_wait i buffer sz timeout RT_UNINTERRUPTIBLE s"

definition rt_mq_send_wait_interruptible :: "oid \<Rightarrow> byte list \<Rightarrow> nat \<Rightarrow> int \<Rightarrow> kstate \<Rightarrow> (ret \<times> kstate) option" where
  "rt_mq_send_wait_interruptible i buffer sz timeout s = mq_send_wait i buffer sz timeout RT_INTERRUPTIBLE s"

definition rt_mq_send_wait_killable :: "oid \<Rightarrow> byte list \<Rightarrow> nat \<Rightarrow> int \<Rightarrow> kstate \<Rightarrow> (ret \<times> kstate) option" where
  "rt_mq_send_wait_killable i buffer sz timeout s = mq_send_wait i buffer sz timeout RT_KILLABLE s"

definition rt_mq_send :: "oid \<Rightarrow> byte list \<Rightarrow> nat \<Rightarrow> kstate \<Rightarrow> (ret \<times> kstate) option" where
  "rt_mq_send i buffer sz s = rt_mq_send_wait i buffer sz 0 s"

definition rt_mq_send_interruptible :: "oid \<Rightarrow> byte list \<Rightarrow> nat \<Rightarrow> kstate \<Rightarrow> (ret \<times> kstate) option" where
  "rt_mq_send_interruptible i buffer sz s = rt_mq_send_wait_interruptible i buffer sz 0 s"

definition rt_mq_send_killable :: "oid \<Rightarrow> byte list \<Rightarrow> nat \<Rightarrow> kstate \<Rightarrow> (ret \<times> kstate) option" where
  "rt_mq_send_killable i buffer sz s = rt_mq_send_wait_killable i buffer sz 0 s"

definition rt_mq_urgent :: "oid \<Rightarrow> byte list \<Rightarrow> nat \<Rightarrow> kstate \<Rightarrow> ret \<times> kstate" where
  "rt_mq_urgent i buffer sz s =
    (if sz > unat (mq_msg_size (mq_of s i)) then (Ret (- RT_ERROR), s)
     else case msg_queue_free (mq_of s i) of None \<Rightarrow> (Ret (- RT_EFULL), s)
     | Some msg \<Rightarrow>
        let s = upd_mq i (mq_claim msg) s;
            s = upd_mq i (mq_fill msg buffer sz) s
        in mq_publish (mq_link_head msg) i s)"

text \<open>The pieces of a receive: unlink the first block; copy it out; give it back.\<close>

definition mq_unlink :: "nat \<Rightarrow> rt_messagequeue \<Rightarrow> rt_messagequeue" where
  "mq_unlink b mq =
    (let mq = mq\<lparr> msg_queue_head := msg_next (mq_pool mq b) \<rparr>;
         mq = (if msg_queue_tail mq = Some b then mq\<lparr> msg_queue_tail := None \<rparr> else mq)
     in if mq_entry mq > 0 then mq\<lparr> mq_entry := mq_entry mq - 1 \<rparr> else mq)"

definition mq_get :: "oid \<Rightarrow> nat \<Rightarrow> kstate \<Rightarrow> (ret \<times> byte list option) \<times> kstate" where
  "mq_get i sz s =
    (case msg_queue_head (mq_of s i) of None \<Rightarrow> ((Fault, None), s)
     | Some msg \<Rightarrow>
        let s = upd_mq i (mq_unlink msg) s;
            len = msg_length (mq_pool (mq_of s i) msg);
            len = (if len > sz then sz else len);
            buffer = take len (msg_data (mq_pool (mq_of s i) msg));
            s = upd_mq i (mq_release_block msg) s
        in ((Ret (int len), Some buffer), wake_one (MqSendQ i) s))"

definition mq_recv_op :: "oid \<Rightarrow> nat \<Rightarrow> (ret \<times> byte list option) timed_wait" where
  "mq_recv_op i sz = \<lparr> must_wait = (\<lambda>s. mq_entry (mq_of s i) = 0), wait_on = MqRecvQ i,
     wait_flag = (\<lambda>s. mq_flag (mq_of s i)),
     no_time = (\<lambda>t s. ((Ret (- RT_ETIMEOUT), None), upd_thread t (\<lambda>x. x\<lparr> thread_error := - RT_ETIMEOUT \<rparr>) s)),
     answer = (\<lambda>r. (r, None)), proceed = mq_get i sz \<rparr>"

definition mq_recv ::
  "oid \<Rightarrow> nat \<Rightarrow> int \<Rightarrow> suspend_flag \<Rightarrow> kstate \<Rightarrow> ((ret \<times> byte list option) \<times> kstate) option" where
  "mq_recv i sz timeout sf s =
    (if mq_entry (mq_of s i) = 0 \<and> timeout = 0 then Some ((Ret (- RT_ETIMEOUT), None), s)
     else wait_call (mq_recv_op i sz) sf timeout s)"

definition rt_mq_recv :: "oid \<Rightarrow> nat \<Rightarrow> int \<Rightarrow> kstate \<Rightarrow> ((ret \<times> byte list option) \<times> kstate) option" where
  "rt_mq_recv i sz timeout s = mq_recv i sz timeout RT_UNINTERRUPTIBLE s"

definition rt_mq_recv_interruptible :: "oid \<Rightarrow> nat \<Rightarrow> int \<Rightarrow> kstate \<Rightarrow> ((ret \<times> byte list option) \<times> kstate) option" where
  "rt_mq_recv_interruptible i sz timeout s = mq_recv i sz timeout RT_INTERRUPTIBLE s"

definition rt_mq_recv_killable :: "oid \<Rightarrow> nat \<Rightarrow> int \<Rightarrow> kstate \<Rightarrow> ((ret \<times> byte list option) \<times> kstate) option" where
  "rt_mq_recv_killable i sz timeout s = mq_recv i sz timeout RT_KILLABLE s"

text \<open>The loop of a reset: every block of the queue goes to the free list. On a cyclic
  list it would not end.\<close>

partial_function (option) mq_flush :: "rt_messagequeue \<Rightarrow> rt_messagequeue option" where
  "mq_flush mq =
    (case msg_queue_head mq of None \<Rightarrow> Some mq
     | Some msg \<Rightarrow>
        let mq = mq\<lparr> msg_queue_head := msg_next (mq_pool mq msg) \<rparr>;
            mq = (if msg_queue_tail mq = Some msg then mq\<lparr> msg_queue_tail := None \<rparr> else mq)
        in mq_flush (mq_release_block msg mq))"

definition rt_mq_control :: "oid \<Rightarrow> int \<Rightarrow> kstate \<Rightarrow> (int \<times> kstate) option" where
  "rt_mq_control i cmd s =
    (if cmd = RT_IPC_CMD_RESET then
       let s = mq_resume_all i s
       in case mq_flush (mq_of s i) of None \<Rightarrow> None
          | Some mq \<Rightarrow> Some (RT_EOK, rt_schedule (upd_mq i (\<lambda>_. mq\<lparr> mq_entry := 0 \<rparr>) s))
     else Some (- RT_ERROR, s))"

section \<open>The pool of blocks\<close>

text \<open>A null-terminated chain of blocks.\<close>

fun chain :: "(nat \<Rightarrow> nat option) \<Rightarrow> nat option \<Rightarrow> nat list \<Rightarrow> bool" where
  "chain nxt p [] = (p = None)"
| "chain nxt p (b # bs) = (p = Some b \<and> chain nxt (nxt b) bs)"

lemma chain_cong: "(\<And>b. b \<in> set bs \<Longrightarrow> f b = g b) \<Longrightarrow> chain f p bs = chain g p bs"
  by (induction bs arbitrary: p) auto

lemma chain_append:
  "chain f p (bs @ [e]) \<longleftrightarrow> chain (f(e := None)) p (bs @ [e]) \<and> f e = None" if "e \<notin> set bs"
  using that by (induction bs arbitrary: p) auto

lemma chain_snoc:
  assumes "chain f p bs" and "bs \<noteq> []" and "distinct bs" and "b \<notin> set bs" and "f b = None"
  shows "chain (f(last bs := Some b)) p (bs @ [b])"
  using assms
proof (induction bs arbitrary: p)
  case (Cons x xs)
  show ?case
  proof (cases "xs = []")
    case False
    then have "x \<noteq> last xs" using Cons.prems by auto
    then show ?thesis using Cons False by auto
  qed (use Cons in auto)
qed simp

lemma chain_unique: "chain f p bs \<Longrightarrow> chain f p cs \<Longrightarrow> bs = cs"
  by (induction bs arbitrary: p cs) (case_tac cs; auto)+

text \<open>A block between two critical sections belongs to the call that took it: taken by a
  send, filled for the tail or for the head, or being copied out by a receive.\<close>

datatype flight = Claimed | ReadyTail | ReadyHead | Draining

definition block_ok :: "rt_messagequeue \<Rightarrow> nat \<Rightarrow> bool" where
  "block_ok mq b \<longleftrightarrow> msg_length (mq_pool mq b) \<le> unat (mq_msg_size mq)
     \<and> msg_length (mq_pool mq b) \<le> length (msg_data (mq_pool mq b))"

abbreviation nexts :: "rt_messagequeue \<Rightarrow> nat \<Rightarrow> nat option" where
  "nexts mq b \<equiv> msg_next (mq_pool mq b)"

text \<open>The queue holds the blocks \<open>qs\<close>, the free list \<open>fs\<close>, and \<open>F\<close> are the blocks under way.\<close>

definition mq_rep :: "rt_messagequeue \<Rightarrow> nat list \<Rightarrow> nat list \<Rightarrow> (nat \<rightharpoonup> flight) \<Rightarrow> bool" where
  "mq_rep mq qs fs F \<longleftrightarrow>
    chain (nexts mq) (msg_queue_head mq) qs \<and> chain (nexts mq) (msg_queue_free mq) fs \<and>
    msg_queue_tail mq = (if qs = [] then None else Some (last qs)) \<and>
    distinct (qs @ fs) \<and> set qs \<union> set fs \<union> dom F = {..<unat (mq_max_msgs mq)} \<and>
    (set qs \<union> set fs) \<inter> dom F = {} \<and> unat (mq_entry mq) = length qs \<and>
    (\<forall>b \<in> set qs. block_ok mq b) \<and>
    (\<forall>b. F b = Some ReadyTail \<longrightarrow> nexts mq b = None \<and> block_ok mq b) \<and>
    (\<forall>b. F b = Some ReadyHead \<longrightarrow> block_ok mq b)"

lemma mq_repD:
  assumes "mq_rep mq qs fs F"
  shows "chain (nexts mq) (msg_queue_head mq) qs" and "chain (nexts mq) (msg_queue_free mq) fs"
    and "msg_queue_tail mq = (if qs = [] then None else Some (last qs))"
    and "distinct (qs @ fs)" and "set qs \<union> set fs \<union> dom F = {..<unat (mq_max_msgs mq)}"
    and "(set qs \<union> set fs) \<inter> dom F = {}" and "unat (mq_entry mq) = length qs"
    and "\<forall>b \<in> set qs. block_ok mq b" and "\<forall>b. F b = Some ReadyTail \<longrightarrow> nexts mq b = None \<and> block_ok mq b"
    and "\<forall>b. F b = Some ReadyHead \<longrightarrow> block_ok mq b"
  using assms unfolding mq_rep_def by blast+

lemma mq_repI:
  assumes "chain (nexts mq) (msg_queue_head mq) qs" and "chain (nexts mq) (msg_queue_free mq) fs"
    and "msg_queue_tail mq = (if qs = [] then None else Some (last qs))"
    and "distinct (qs @ fs)" and "set qs \<union> set fs \<union> dom F = {..<unat (mq_max_msgs mq)}"
    and "(set qs \<union> set fs) \<inter> dom F = {}" and "unat (mq_entry mq) = length qs"
    and "\<And>b. b \<in> set qs \<Longrightarrow> block_ok mq b" and "\<And>b. F b = Some ReadyTail \<Longrightarrow> nexts mq b = None \<and> block_ok mq b"
    and "\<And>b. F b = Some ReadyHead \<Longrightarrow> block_ok mq b"
  shows "mq_rep mq qs fs F"
  using assms unfolding mq_rep_def by blast

lemma mq_rep_count:
  assumes "mq_rep mq qs fs F"
  shows "length qs + length fs \<le> unat (mq_max_msgs mq)"
    and "dom F = {} \<Longrightarrow> length qs + length fs = unat (mq_max_msgs mq)"
proof -
  note r = mq_repD[OF assms]
  have "length qs + length fs = card (set qs \<union> set fs)" using distinct_card[OF r(4)] by simp
  moreover have "set qs \<union> set fs \<subseteq> {..<unat (mq_max_msgs mq)}" using r(5) by blast
  ultimately show "length qs + length fs \<le> unat (mq_max_msgs mq)"
    using card_mono[of "{..<unat (mq_max_msgs mq)}" "set qs \<union> set fs"] by simp
  assume "dom F = {}"
  then show "length qs + length fs = unat (mq_max_msgs mq)"
    using r(5) \<open>length qs + length fs = card (set qs \<union> set fs)\<close> by simp
qed

lemma mq_entry_room:
  assumes "mq_rep mq qs fs F" and "b \<in> dom F"
  shows "mq_entry mq < RT_MQ_ENTRY_MAX" and "unat (mq_entry mq + 1) = Suc (length qs)"
proof -
  note r = mq_repD[OF assms(1)]
  have "insert b (set qs) \<subseteq> {..<unat (mq_max_msgs mq)}" "b \<notin> set qs" using r(5,6) assms(2) by blast+
  then have "Suc (length qs) \<le> unat (mq_max_msgs mq)"
    using card_mono[of "{..<unat (mq_max_msgs mq)}" "insert b (set qs)"] distinct_card[of qs] r(4) by simp
  moreover have "unat (mq_max_msgs mq) < 2 ^ LENGTH(16)" by (rule unsigned_less)
  ultimately show lt: "mq_entry mq < RT_MQ_ENTRY_MAX"
    using r(7) by (simp add: RT_MQ_ENTRY_MAX_def word_less_nat_alt)
  show "unat (mq_entry mq + 1) = Suc (length qs)" using unat_incr_below[OF lt] r(7) by simp
qed

lemmas mq_piece_defs = mq_claim_def set_next_def mq_fill_def mq_link_tail_def mq_link_head_def mq_unlink_def
  mq_release_block_def

text \<open>Each piece, on the representation.\<close>

lemma claim_rep:
  assumes "mq_rep mq qs (b # fs) F"
  shows "mq_rep (mq_claim b mq) qs fs (F(b \<mapsto> Claimed))"
proof -
  note r = mq_repD[OF assms]
  have ok: "block_ok (mq_claim b mq) = block_ok mq" by (simp add: fun_eq_iff block_ok_def mq_claim_def)
  show ?thesis
  proof (rule mq_repI, goal_cases)
    case 9
    then show ?case using r(9) unfolding ok by (auto simp: mq_claim_def split: if_splits)
  next
    case 10
    then show ?case using r(10) unfolding ok by (auto split: if_splits)
  qed (use r(1-8) ok in \<open>auto simp: mq_claim_def\<close>)
qed

lemma prepare_rep:
  assumes "mq_rep mq qs fs F" and b: "F b = Some Claimed" and sz: "sz \<le> unat (mq_msg_size mq)" "sz \<le> length buffer"
  shows "mq_rep (mq_fill b buffer sz (set_next b None mq)) qs fs (F(b \<mapsto> ReadyTail))"
    and "mq_rep (mq_fill b buffer sz mq) qs fs (F(b \<mapsto> ReadyHead))"
proof -
  note r = mq_repD[OF assms(1)]
  have nb: "b \<notin> set qs" "b \<notin> set fs" using r(6) b by blast+
  have bk: "block_ok (mq_fill b buffer sz x) b" if "mq_msg_size x = mq_msg_size mq" for x
    using sz that by (simp add: block_ok_def mq_fill_def blit_def)
  have ch: "chain (\<lambda>c. if c = b then None else nexts mq c) p cs = chain (nexts mq) p cs" if "b \<notin> set cs" for p cs
    using that by (auto intro!: chain_cong)
  have ok: "block_ok (mq_fill b buffer sz (set_next b None mq)) c = block_ok mq c"
    "block_ok (mq_fill b buffer sz mq) c = block_ok mq c" if "c \<noteq> b" for c
    using that by (simp_all add: block_ok_def mq_fill_def set_next_def)
  have f: "msg_queue_head (mq_fill b buffer sz x) = msg_queue_head x" "msg_queue_free (mq_fill b buffer sz x) = msg_queue_free x"
    "msg_queue_tail (mq_fill b buffer sz x) = msg_queue_tail x" "mq_max_msgs (mq_fill b buffer sz x) = mq_max_msgs x"
    "mq_entry (mq_fill b buffer sz x) = mq_entry x" "mq_msg_size (mq_fill b buffer sz x) = mq_msg_size x"
    "msg_queue_head (set_next b None x) = msg_queue_head x" "msg_queue_free (set_next b None x) = msg_queue_free x"
    "msg_queue_tail (set_next b None x) = msg_queue_tail x" "mq_max_msgs (set_next b None x) = mq_max_msgs x"
    "mq_entry (set_next b None x) = mq_entry x" "mq_msg_size (set_next b None x) = mq_msg_size x" for x
    by (simp_all add: mq_fill_def set_next_def)
  have nx: "nexts (mq_fill b buffer sz (set_next b None mq)) c = (if c = b then None else nexts mq c)"
    "nexts (mq_fill b buffer sz mq) c = nexts mq c" for c by (simp_all add: mq_fill_def set_next_def)
  have dm: "dom (F(b \<mapsto> y)) = dom F" for y using b by auto
  have q: "\<And>c. c \<in> set qs \<Longrightarrow> c \<noteq> b" using nb by blast
  show "mq_rep (mq_fill b buffer sz (set_next b None mq)) qs fs (F(b \<mapsto> ReadyTail))"
  proof (rule mq_repI, unfold f dm nx(1) ch[OF nb(1)] ch[OF nb(2)], goal_cases)
    case (8 c)
    then show ?case using ok(1)[OF q] r(8) by simp
  next
    case (9 c)
    then show ?case using bk[OF f(12)] ok(1)[of c] r(9) by (cases "c = b") auto
  next
    case (10 c)
    then show ?case using ok(1)[of c] r(10) by (auto split: if_splits)
  qed (rule r)+
  show "mq_rep (mq_fill b buffer sz mq) qs fs (F(b \<mapsto> ReadyHead))"
  proof (rule mq_repI, unfold f dm nx(2), goal_cases)
    case (8 c)
    then show ?case using ok(2)[OF q] r(8) by simp
  next
    case (9 c)
    then show ?case using ok(2)[of c] r(9) by (auto split: if_splits)
  next
    case (10 c)
    then show ?case using bk[OF refl] ok(2)[of c] r(10) by (cases "c = b") auto
  qed (rule r)+
qed

lemma link_tail_rep:
  assumes "mq_rep mq qs fs F" and b: "F b = Some ReadyTail"
  shows "mq_rep ((mq_link_tail b mq)\<lparr> mq_entry := mq_entry mq + 1 \<rparr>) (qs @ [b]) fs (F(b := None))"
proof -
  note r = mq_repD[OF assms(1)]
  have nb: "b \<notin> set qs" "b \<notin> set fs" using r(6) b by blast+
  have bb: "b \<in> dom F" using b by blast
  define mq' where "mq' = (mq_link_tail b mq)\<lparr> mq_entry := mq_entry mq + 1 \<rparr>"
  have hd0: "msg_queue_head mq = None \<longleftrightarrow> qs = []" using r(1) by (cases qs) auto
  have f: "msg_queue_free mq' = msg_queue_free mq" "msg_queue_tail mq' = Some b" "mq_max_msgs mq' = mq_max_msgs mq"
    "mq_entry mq' = mq_entry mq + 1" "block_ok mq' = block_ok mq"
    "msg_queue_head mq' = (if qs = [] then Some b else msg_queue_head mq)"
    "nexts mq' = (if qs = [] then nexts mq else (nexts mq)(last qs := Some b))"
    using r(3) hd0 by (auto simp: mq'_def mq_link_tail_def set_next_def block_ok_def fun_eq_iff)
  have dm: "dom (F(b := None)) = dom F - {b}" by auto
  show ?thesis unfolding mq'_def[symmetric]
  proof (rule mq_repI, unfold f dm, goal_cases)
    case 1
    then show ?case using chain_snoc[OF r(1) _ _ nb(1)] r(4,9) b by auto
  next
    case 2
    have "last qs \<notin> set fs" if "qs \<noteq> []" using r(4) that last_in_set by fastforce
    then have "chain ((nexts mq)(last qs := Some b)) p fs = chain (nexts mq) p fs" if "qs \<noteq> []" for p
      using that by (intro chain_cong) auto
    then show ?case using r(2) by auto
  next
    case 7
    show ?case using mq_entry_room(2)[OF assms(1) bb] by simp
  next
    case (8 c)
    then show ?case using r(8,9) b by auto
  next
    case (9 c)
    then have c: "c \<noteq> b" "F c = Some ReadyTail" by (auto split: if_splits)
    then have "c \<notin> set qs" using r(6) by blast
    then have "qs \<noteq> [] \<longrightarrow> c \<noteq> last qs" by auto
    then show ?case using c r(9) fun_cong[OF f(7), of c] by auto
  next
    case (10 c)
    then show ?case using r(10) by (auto split: if_splits)
  qed (use r(4-6) nb bb in auto)
qed

lemma link_head_rep:
  assumes "mq_rep mq qs fs F" and b: "F b = Some ReadyHead"
  shows "mq_rep ((mq_link_head b mq)\<lparr> mq_entry := mq_entry mq + 1 \<rparr>) (b # qs) fs (F(b := None))"
proof -
  note r = mq_repD[OF assms(1)]
  have nb: "b \<notin> set qs" "b \<notin> set fs" using r(6) b by blast+
  have bb: "b \<in> dom F" using b by blast
  define mq' where "mq' = (mq_link_head b mq)\<lparr> mq_entry := mq_entry mq + 1 \<rparr>"
  have f: "msg_queue_free mq' = msg_queue_free mq" "msg_queue_tail mq' = Some (last (b # qs))"
    "mq_max_msgs mq' = mq_max_msgs mq" "mq_entry mq' = mq_entry mq + 1" "block_ok mq' = block_ok mq"
    "msg_queue_head mq' = Some b" "nexts mq' = (nexts mq)(b := msg_queue_head mq)"
    using r(3) by (auto simp: mq'_def mq_link_head_def set_next_def block_ok_def fun_eq_iff)
  have dm: "dom (F(b := None)) = dom F - {b}" by auto
  have ch: "chain ((nexts mq)(b := n)) p cs = chain (nexts mq) p cs" if "b \<notin> set cs" for p cs n
    using that by (auto intro!: chain_cong)
  show ?thesis unfolding mq'_def[symmetric]
  proof (rule mq_repI, unfold f dm, goal_cases)
    case 7
    show ?case using mq_entry_room(2)[OF assms(1) bb] by simp
  next
    case (9 c)
    then show ?case using r(9) fun_cong[OF f(7), of c] by (auto split: if_splits)
  next
    case (10 c)
    then show ?case using r(10) by (auto split: if_splits)
  qed (use r(1-6,8,10) nb bb b ch in auto)
qed

lemma unlink_rep:
  assumes "mq_rep mq (b # qs) fs F"
  shows "mq_rep (mq_unlink b mq) qs fs (F(b \<mapsto> Draining))"
proof -
  note r = mq_repD[OF assms]
  have n: "mq_entry mq > 0" "unat (mq_entry mq - 1) = length qs"
    using r(7) unat_minus_one[of "mq_entry mq"] by (auto simp: word_less_nat_alt unat_eq_zero[symmetric])
  have tl: "msg_queue_tail mq = Some b \<longleftrightarrow> qs = []" using r(3,4) last_in_set[of qs] by (auto split: if_splits)
  have f: "msg_queue_free (mq_unlink b mq) = msg_queue_free mq" "mq_max_msgs (mq_unlink b mq) = mq_max_msgs mq"
    "mq_entry (mq_unlink b mq) = mq_entry mq - 1" "block_ok (mq_unlink b mq) = block_ok mq"
    "msg_queue_head (mq_unlink b mq) = nexts mq b" "nexts (mq_unlink b mq) = nexts mq"
    "msg_queue_tail (mq_unlink b mq) = (if qs = [] then None else msg_queue_tail mq)"
    using tl n by (auto simp: mq_unlink_def Let_def block_ok_def fun_eq_iff)
  show ?thesis
  proof (rule mq_repI, unfold f, goal_cases)
    case (9 c)
    then show ?case using r(9) fun_cong[OF f(6), of c] by (auto split: if_splits)
  next
    case (10 c)
    then show ?case using r(10) by (auto split: if_splits)
  qed (use r(1-6,8) n in auto)
qed

lemma release_rep:
  assumes "mq_rep mq qs fs F" and b: "F b = Some Draining"
  shows "mq_rep (mq_release_block b mq) qs (b # fs) (F(b := None))"
proof -
  note r = mq_repD[OF assms(1)]
  have nb: "b \<notin> set qs" "b \<notin> set fs" using r(6) b by blast+
  have bb: "b \<in> dom F" using b by blast
  define mq' where "mq' = mq_release_block b mq"
  have f: "msg_queue_free mq' = Some b" "msg_queue_tail mq' = msg_queue_tail mq"
    "mq_max_msgs mq' = mq_max_msgs mq" "mq_entry mq' = mq_entry mq" "block_ok mq' = block_ok mq"
    "msg_queue_head mq' = msg_queue_head mq" "nexts mq' = (nexts mq)(b := msg_queue_free mq)"
    by (auto simp: mq'_def mq_release_block_def set_next_def block_ok_def fun_eq_iff)
  have dm: "dom (F(b := None)) = dom F - {b}" by auto
  have ch: "chain ((nexts mq)(b := n)) p cs = chain (nexts mq) p cs" if "b \<notin> set cs" for p cs n
    using that by (auto intro!: chain_cong)
  show ?thesis unfolding mq'_def[symmetric]
  proof (rule mq_repI, unfold f dm, goal_cases)
    case (9 c)
    then show ?case using r(9) fun_cong[OF f(7), of c] by (auto split: if_splits)
  next
    case (10 c)
    then show ?case using r(10) by (auto split: if_splits)
  qed (use r(1-8) nb bb b ch in auto)
qed

lemma link_blocks_chain:
  assumes "msg_queue_free mq = None"
  shows "chain (nexts (link_blocks n mq)) (msg_queue_free (link_blocks n mq)) (rev [0..<n])"
proof (induction n)
  case (Suc n)
  let ?m = "link_blocks n mq"
  have "chain ((nexts ?m)(n := msg_queue_free ?m)) (msg_queue_free ?m) (rev [0..<n]) =
    chain (nexts ?m) (msg_queue_free ?m) (rev [0..<n])" by (rule chain_cong) auto
  moreover have "nexts (mq_release_block n ?m) = (nexts ?m)(n := msg_queue_free ?m)"
    by (auto simp: mq_release_block_def set_next_def)
  ultimately show ?case using Suc by (simp add: mq_release_block_def)
qed (use assms in simp)

lemma link_blocks_frame [simp]:
  "msg_queue_head (link_blocks n mq) = msg_queue_head mq" "msg_queue_tail (link_blocks n mq) = msg_queue_tail mq"
  "mq_max_msgs (link_blocks n mq) = mq_max_msgs mq" "mq_msg_size (link_blocks n mq) = mq_msg_size mq"
  "mq_flag (link_blocks n mq) = mq_flag mq" "mq_entry (link_blocks n mq) = mq_entry mq"
  by (induction n) (simp_all add: mq_release_block_def set_next_def)

lemma lists_init_rep: "mq_rep (mq_lists_init mq) [] (rev [0..<unat (mq_max_msgs mq)]) Map.empty"
proof (rule mq_repI, goal_cases)
  case 2
  let ?m = "mq\<lparr> msg_queue_head := None, msg_queue_tail := None, msg_queue_free := None \<rparr>"
  have "nexts (mq_lists_init mq) = nexts (link_blocks (unat (mq_max_msgs mq)) ?m)"
    "msg_queue_free (mq_lists_init mq) = msg_queue_free (link_blocks (unat (mq_max_msgs mq)) ?m)"
    by (simp_all add: mq_lists_init_def)
  then show ?case using link_blocks_chain[of ?m] by simp
qed (auto simp: mq_lists_init_def Let_def)

text \<open>The reset loop ends and moves every queued block to the free list.\<close>

lemma flush_rep:
  assumes "mq_rep (mq\<lparr> mq_entry := e \<rparr>) qs fs F"
  shows "\<exists>mq'. mq_flush mq = Some mq' \<and> mq_rep (mq'\<lparr> mq_entry := 0 \<rparr>) [] (rev qs @ fs) F
    \<and> mq_msg_size mq' = mq_msg_size mq \<and> mq_max_msgs mq' = mq_max_msgs mq \<and> mq_flag mq' = mq_flag mq"
  using assms
proof (induction qs arbitrary: mq e fs)
  case Nil
  note r = mq_repD[OF Nil]
  have "mq\<lparr> mq_entry := 0 \<rparr> = mq\<lparr> mq_entry := e \<rparr>" using r(7) by (simp add: unat_eq_zero)
  then show ?case using Nil r(1) by (subst mq_flush.simps) simp
next
  case (Cons b qs)
  note r = mq_repD[OF Cons.prems]
  let ?u = "let m = mq\<lparr> msg_queue_head := nexts mq b \<rparr>
            in if msg_queue_tail m = Some b then m\<lparr> msg_queue_tail := None \<rparr> else m"
  define mq1 where "mq1 = mq_release_block b ?u"
  have h: "msg_queue_head mq = Some b" using r(1) by simp
  have e0: "e > 0" using r(7) by (auto simp: word_less_nat_alt)
  have bF: "b \<notin> dom F" using r(6) by auto
  have "mq_rep (mq_release_block b (mq_unlink b (mq\<lparr> mq_entry := e \<rparr>))) qs (b # fs) ((F(b \<mapsto> Draining))(b := None))"
    by (rule release_rep[OF unlink_rep[OF Cons.prems]]) simp
  moreover have "(F(b \<mapsto> Draining))(b := None) = F" using bF by (auto simp: fun_eq_iff)
  moreover have "mq_release_block b (mq_unlink b (mq\<lparr> mq_entry := e \<rparr>)) = mq1\<lparr> mq_entry := e - 1 \<rparr>"
    using e0 by (simp add: mq1_def mq_unlink_def mq_release_block_def set_next_def Let_def)
  ultimately have "mq_rep (mq1\<lparr> mq_entry := e - 1 \<rparr>) qs (b # fs) F" by simp
  from Cons.IH[OF this] obtain mq' where m: "mq_flush mq1 = Some mq'" "mq_rep (mq'\<lparr> mq_entry := 0 \<rparr>) [] (rev qs @ b # fs) F"
    "mq_msg_size mq' = mq_msg_size mq1" "mq_max_msgs mq' = mq_max_msgs mq1" "mq_flag mq' = mq_flag mq1" by blast
  have "mq_flush mq = mq_flush mq1" by (subst mq_flush.simps) (simp add: h mq1_def Let_def)
  moreover have "mq_msg_size mq1 = mq_msg_size mq" "mq_max_msgs mq1 = mq_max_msgs mq" "mq_flag mq1 = mq_flag mq"
    by (simp_all add: mq1_def mq_release_block_def set_next_def Let_def)
  ultimately show ?case using m by simp
qed

section \<open>The messages in the queue\<close>

fun walk :: "(nat \<Rightarrow> nat option) \<Rightarrow> nat \<Rightarrow> nat option \<Rightarrow> nat list" where
  "walk f 0 p = []"
| "walk f (Suc n) None = []"
| "walk f (Suc n) (Some b) = b # walk f n (f b)"

lemma walk_chain: "chain f p bs \<Longrightarrow> walk f (length bs) p = bs"
  by (induction bs arbitrary: p) auto

definition mq_queue :: "rt_messagequeue \<Rightarrow> nat list" where
  "mq_queue mq = walk (nexts mq) (unat (mq_entry mq)) (msg_queue_head mq)"

definition block_msg :: "rt_messagequeue \<Rightarrow> nat \<Rightarrow> byte list" where
  "block_msg mq b = take (msg_length (mq_pool mq b)) (msg_data (mq_pool mq b))"

definition mq_msgs :: "rt_messagequeue \<Rightarrow> byte list list" where
  "mq_msgs mq = map (block_msg mq) (mq_queue mq)"

lemma rep_queue: "mq_rep mq qs fs F \<Longrightarrow> mq_queue mq = qs"
  using walk_chain[OF mq_repD(1)] by (simp add: mq_queue_def mq_repD(7))

text \<open>A queue at rest: no call is between two of its critical sections.\<close>

definition mq_ok :: "rt_messagequeue \<Rightarrow> bool" where
  "mq_ok mq \<longleftrightarrow> (\<exists>qs fs. mq_rep mq qs fs Map.empty)"

lemma mq_okE:
  assumes "mq_ok mq"
  obtains fs where "mq_rep mq (mq_queue mq) fs Map.empty"
    and "length (mq_msgs mq) + length fs = unat (mq_max_msgs mq)" and "msg_queue_free mq = None \<longleftrightarrow> fs = []"
    and "unat (mq_entry mq) = length (mq_msgs mq)"
proof -
  obtain qs fs where r: "mq_rep mq qs fs Map.empty" using assms by (auto simp: mq_ok_def)
  then have "msg_queue_free mq = None \<longleftrightarrow> fs = []" using mq_repD(2)[OF r] by (cases fs) auto
  then show thesis
    using that[of fs] r rep_queue[OF r] mq_rep_count(2)[OF r] mq_repD(7)[OF r] by (simp add: mq_msgs_def)
qed

section \<open>Interleaved calls\<close>

text \<open>One step of any of the concurrent calls on a queue: a critical section, or the copying
  of a message between two of them.\<close>

inductive mq_step :: "rt_messagequeue \<times> (nat \<rightharpoonup> flight) \<Rightarrow> rt_messagequeue \<times> (nat \<rightharpoonup> flight) \<Rightarrow> bool" where
  claim: "msg_queue_free mq = Some b \<Longrightarrow> mq_step (mq, F) (mq_claim b mq, F(b \<mapsto> Claimed))"
| fill_tail: "F b = Some Claimed \<Longrightarrow> sz \<le> unat (mq_msg_size mq) \<Longrightarrow> sz \<le> length buffer \<Longrightarrow>
    mq_step (mq, F) (mq_fill b buffer sz (set_next b None mq), F(b \<mapsto> ReadyTail))"
| fill_head: "F b = Some Claimed \<Longrightarrow> sz \<le> unat (mq_msg_size mq) \<Longrightarrow> sz \<le> length buffer \<Longrightarrow>
    mq_step (mq, F) (mq_fill b buffer sz mq, F(b \<mapsto> ReadyHead))"
| link_tail: "F b = Some ReadyTail \<Longrightarrow>
    mq_step (mq, F) ((mq_link_tail b mq)\<lparr> mq_entry := mq_entry mq + 1 \<rparr>, F(b := None))"
| link_head: "F b = Some ReadyHead \<Longrightarrow>
    mq_step (mq, F) ((mq_link_head b mq)\<lparr> mq_entry := mq_entry mq + 1 \<rparr>, F(b := None))"
| unlink: "mq_entry mq \<noteq> 0 \<Longrightarrow> msg_queue_head mq = Some b \<Longrightarrow> mq_step (mq, F) (mq_unlink b mq, F(b \<mapsto> Draining))"
| give_back: "F b = Some Draining \<Longrightarrow> mq_step (mq, F) (mq_release_block b mq, F(b := None))"
| reset: "mq_flush mq = Some mq' \<Longrightarrow> mq_step (mq, F) (mq'\<lparr> mq_entry := 0 \<rparr>, F)"

lemma mq_step_rep:
  assumes "mq_step (mq, F) (mq', F')" and r: "mq_rep mq qs fs F"
  shows "\<exists>qs' fs'. mq_rep mq' qs' fs' F'"
  using assms(1)
proof cases
  case (claim b)
  then obtain fs' where "fs = b # fs'" using mq_repD(2)[OF r] by (cases fs) auto
  then show ?thesis using claim claim_rep r by blast
next
  case (unlink b)
  then obtain qs' where "qs = b # qs'" using mq_repD(1)[OF r] by (cases qs) auto
  then show ?thesis using unlink unlink_rep r by blast
next
  case (reset mq1)
  have "mq_rep (mq\<lparr> mq_entry := mq_entry mq \<rparr>) qs fs F" using r by simp
  from flush_rep[OF this] show ?thesis using reset by auto
qed (use r prepare_rep[OF r] link_tail_rep[OF r] link_head_rep[OF r] release_rep[OF r] in blast)+

section \<open>The calls at rest\<close>

lemma block_msg_frame [simp]:
  "block_msg (set_next b n mq) = block_msg mq" "block_msg (mq_claim b mq) = block_msg mq"
  "block_msg (mq_link_tail b mq) = block_msg mq" "block_msg (mq_link_head b mq) = block_msg mq"
  "block_msg (mq_unlink b mq) = block_msg mq" "block_msg (mq_release_block b mq) = block_msg mq"
  "block_msg (mq\<lparr> mq_entry := e \<rparr>) = block_msg mq"
  by (auto simp: fun_eq_iff block_msg_def mq_piece_defs Let_def split: option.splits)

lemma block_msg_fill:
  "block_msg (mq_fill b buffer sz mq) c = (if c = b then take sz (blit (msg_data (mq_pool mq b)) 0 (take sz buffer)) else block_msg mq c)"
  by (simp add: block_msg_def mq_fill_def)

lemma take_blit: "sz \<le> length buffer \<Longrightarrow> take sz (blit d 0 (take sz buffer)) = take sz buffer"
  by (simp add: blit_def)

lemma mq_piece_frame [simp]:
  "mq_msg_size (set_next b n mq) = mq_msg_size mq" "mq_msg_size (mq_claim b mq) = mq_msg_size mq"
  "mq_msg_size (mq_link_tail b mq) = mq_msg_size mq" "mq_msg_size (mq_link_head b mq) = mq_msg_size mq"
  "mq_msg_size (mq_unlink b mq) = mq_msg_size mq" "mq_msg_size (mq_release_block b mq) = mq_msg_size mq"
  "mq_msg_size (mq_fill b buffer sz mq) = mq_msg_size mq"
  "mq_max_msgs (set_next b n mq) = mq_max_msgs mq" "mq_max_msgs (mq_claim b mq) = mq_max_msgs mq"
  "mq_max_msgs (mq_link_tail b mq) = mq_max_msgs mq" "mq_max_msgs (mq_link_head b mq) = mq_max_msgs mq"
  "mq_max_msgs (mq_unlink b mq) = mq_max_msgs mq" "mq_max_msgs (mq_release_block b mq) = mq_max_msgs mq"
  "mq_max_msgs (mq_fill b buffer sz mq) = mq_max_msgs mq"
  "mq_entry (set_next b n mq) = mq_entry mq" "mq_entry (mq_claim b mq) = mq_entry mq"
  "mq_entry (mq_link_tail b mq) = mq_entry mq" "mq_entry (mq_link_head b mq) = mq_entry mq"
  "mq_entry (mq_release_block b mq) = mq_entry mq" "mq_entry (mq_fill b buffer sz mq) = mq_entry mq"
  by (auto simp: mq_piece_defs Let_def split: option.splits)

definition put_tail :: "nat \<Rightarrow> byte list \<Rightarrow> nat \<Rightarrow> rt_messagequeue \<Rightarrow> rt_messagequeue" where
  "put_tail b buffer sz mq = (mq_link_tail b (mq_fill b buffer sz (set_next b None (mq_claim b mq))))\<lparr> mq_entry := mq_entry mq + 1 \<rparr>"

definition put_head :: "nat \<Rightarrow> byte list \<Rightarrow> nat \<Rightarrow> rt_messagequeue \<Rightarrow> rt_messagequeue" where
  "put_head b buffer sz mq = (mq_link_head b (mq_fill b buffer sz (mq_claim b mq)))\<lparr> mq_entry := mq_entry mq + 1 \<rparr>"

lemma put_spec:
  assumes ok: "mq_ok mq" and fr: "msg_queue_free mq = Some b" and sz: "sz \<le> unat (mq_msg_size mq)" "sz \<le> length buffer"
  shows "mq_ok (put_tail b buffer sz mq)" and "mq_msgs (put_tail b buffer sz mq) = mq_msgs mq @ [take sz buffer]"
    and "mq_ok (put_head b buffer sz mq)" and "mq_msgs (put_head b buffer sz mq) = take sz buffer # mq_msgs mq"
    and "mq_entry mq < RT_MQ_ENTRY_MAX"
proof -
  let ?E = "Map.empty :: nat \<rightharpoonup> flight"
  obtain fs' where r0: "mq_rep mq (mq_queue mq) fs' ?E" by (rule mq_okE[OF ok])
  then obtain fs where r: "mq_rep mq (mq_queue mq) (b # fs) ?E" using mq_repD(2)[OF r0] fr by (cases fs') auto
  let ?qs = "mq_queue mq"
  have nb: "b \<notin> set ?qs" using mq_repD(4)[OF r] by auto
  note c = claim_rep[OF r]
  have sz': "sz \<le> unat (mq_msg_size (mq_claim b mq))" using sz by simp
  note p = prepare_rep[OF c _ sz' sz(2), of b]
  have t: "mq_rep (put_tail b buffer sz mq) (?qs @ [b]) fs ((?E(b \<mapsto> ReadyTail))(b := None))"
    using link_tail_rep[OF p(1), of b] by (simp add: put_tail_def)
  have h: "mq_rep (put_head b buffer sz mq) (b # ?qs) fs ((?E(b \<mapsto> ReadyHead))(b := None))"
    using link_head_rep[OF p(2), of b] by (simp add: put_head_def)
  have e: "(?E(b \<mapsto> x))(b := None) = ?E" for x by auto
  show "mq_ok (put_tail b buffer sz mq)" "mq_ok (put_head b buffer sz mq)" using t h e unfolding mq_ok_def by metis+
  have m: "map (block_msg (put_tail b buffer sz mq)) ?qs = mq_msgs mq" "map (block_msg (put_head b buffer sz mq)) ?qs = mq_msgs mq"
    using nb by (auto simp: put_tail_def put_head_def block_msg_fill mq_msgs_def)
  show "mq_msgs (put_tail b buffer sz mq) = mq_msgs mq @ [take sz buffer]"
    using m(1) rep_queue[OF t] take_blit[OF sz(2)] by (simp add: mq_msgs_def) (simp add: put_tail_def block_msg_fill)
  show "mq_msgs (put_head b buffer sz mq) = take sz buffer # mq_msgs mq"
    using m(2) rep_queue[OF h] take_blit[OF sz(2)] by (simp add: mq_msgs_def) (simp add: put_head_def block_msg_fill)
  show "mq_entry mq < RT_MQ_ENTRY_MAX" using mq_entry_room(1)[OF c, of b] by simp
qed

definition take_head :: "nat \<Rightarrow> rt_messagequeue \<Rightarrow> rt_messagequeue" where
  "take_head b mq = mq_release_block b (mq_unlink b mq)"

lemma take_spec:
  assumes ok: "mq_ok mq" and ne: "mq_entry mq \<noteq> 0"
  obtains b where "msg_queue_head mq = Some b" and "mq_ok (take_head b mq)"
    and "mq_msgs mq = block_msg mq b # mq_msgs (take_head b mq)"
    and "msg_length (mq_pool mq b) = length (block_msg mq b)" and "length (block_msg mq b) \<le> unat (mq_msg_size mq)"
proof -
  let ?E = "Map.empty :: nat \<rightharpoonup> flight"
  obtain fs where r: "mq_rep mq (mq_queue mq) fs ?E" by (rule mq_okE[OF ok])
  have "mq_queue mq \<noteq> []" using mq_repD(7)[OF r] ne by (auto simp: unat_eq_zero)
  then obtain b qs where q: "mq_queue mq = b # qs" by (cases "mq_queue mq") auto
  note u = unlink_rep[OF r[unfolded q]]
  have t: "mq_rep (take_head b mq) qs (b # fs) ((?E(b \<mapsto> Draining))(b := None))"
    using release_rep[OF u, of b] by (simp add: take_head_def)
  have e: "(?E(b \<mapsto> x))(b := None) = ?E" for x by auto
  show thesis
  proof (rule that[of b])
    show "msg_queue_head mq = Some b" using mq_repD(1)[OF r] q by simp
    show "mq_ok (take_head b mq)" using t e unfolding mq_ok_def by metis
    show "mq_msgs mq = block_msg mq b # mq_msgs (take_head b mq)"
      using rep_queue[OF t] q by (simp add: mq_msgs_def) (simp add: take_head_def)
    show "msg_length (mq_pool mq b) = length (block_msg mq b)" "length (block_msg mq b) \<le> unat (mq_msg_size mq)"
      using mq_repD(8)[OF r] q by (auto simp: block_ok_def block_msg_def)
  qed
qed

section \<open>In the kernel\<close>

lemma upd_mq_frame [simp]:
  "thread_lists (upd_mq i f s) = thread_lists s" "thread_of (upd_mq i f s) = thread_of s"
  "rt_thread_ready_priority_group (upd_mq i f s) = rt_thread_ready_priority_group s"
  "rt_current_thread (upd_mq i f s) = rt_current_thread s" "timer_of (upd_mq i f s) = timer_of s"
  "sem_of (upd_mq i f s) = sem_of s" "mutex_of (upd_mq i f s) = mutex_of s" "mailbox_of (upd_mq i f s) = mailbox_of s"
  "mq_of (upd_mq i f s) = (mq_of s)(i := f (mq_of s i))"
  by (simp_all add: upd_mq_def)

lemma upd_mq_inv [simp]:
  "kernel_inv (upd_mq i f s) = kernel_inv s" "timer_ready (upd_mq i f s) t = timer_ready s t"
  "thread_state (upd_mq i f s) t = thread_state s t" "suspended (upd_mq i f s) t = suspended s t"
  using kernel_inv_cong[of "upd_mq i f s" s]
  by (simp_all add: timer_ready_def thread_state_def suspended_def)

lemma upd_mq_comp: "upd_mq i f (upd_mq i g s) = upd_mq i (\<lambda>x. f (g x)) s"
  by (simp add: upd_mq_def)

lemma mq_wait_lists [simp]: "wait_list (MqRecvQ i)" "wait_list (MqSendQ i)"
  by (simp_all add: wait_list_def)

interpretation mq_send: waiting_call "mq_send_wait_op i buffer sz" for i buffer sz
  by unfold_locales (simp_all add: mq_send_wait_op_def mq_full_def)

interpretation mq_recv: waiting_call "mq_recv_op i sz" for i sz
  by unfold_locales (simp_all add: mq_recv_op_def)

lemma mq_op_simps:
  "must_wait (mq_send_wait_op i bf sz) = mq_full i" "proceed (mq_send_wait_op i bf sz) = mq_put i bf sz"
  "answer (mq_send_wait_op i bf sz) r = r" "wait_on (mq_send_wait_op i bf sz) = MqSendQ i"
  "wait_flag (mq_send_wait_op i bf sz) s = mq_flag (mq_of s i)"
  "must_wait (mq_recv_op i sz) s \<longleftrightarrow> mq_entry (mq_of s i) = 0" "proceed (mq_recv_op i sz) = mq_get i sz"
  "answer (mq_recv_op i sz) r = (r, None)" "wait_on (mq_recv_op i sz) = MqRecvQ i"
  "wait_flag (mq_recv_op i sz) s = mq_flag (mq_of s i)"
  by (simp_all add: mq_send_wait_op_def mq_recv_op_def)

lemma mq_publish_spec:
  assumes k: "kernel_inv s" and lt: "mq_entry (mq_of s i) < RT_MQ_ENTRY_MAX"
    and l: "mq_entry (lnk (mq_of s i)) = mq_entry (mq_of s i)"
  obtains s' where "mq_publish lnk i s = (Ret RT_EOK, s')" and "kernel_inv s'"
    and "mq_of s' = (mq_of s)(i := (lnk (mq_of s i))\<lparr> mq_entry := mq_entry (mq_of s i) + 1 \<rparr>)"
    and "\<And>m. wait_list m \<Longrightarrow> thread_lists s' m = (if m = MqRecvQ i then tl (thread_lists s m) else thread_lists s m)"
    and "\<And>t ts. thread_lists s (MqRecvQ i) = t # ts \<Longrightarrow> \<not> suspended s' t \<and> thread_error (thread_of s' t) = RT_EOK"
proof -
  define s1 where "s1 = upd_mq i (\<lambda>x. x\<lparr> mq_entry := mq_entry x + 1 \<rparr>) (upd_mq i lnk s)"
  have e: "mq_publish lnk i s = (Ret RT_EOK, wake_one (MqRecvQ i) s1)"
    using lt l by (simp add: mq_publish_def Let_def s1_def)
  have k1: "kernel_inv s1" using k by (simp add: s1_def)
  note w = wake_one_inv[OF k1 mq_wait_lists(1)[of i]]
  show thesis by (rule that[OF e w(1)]) (use w l in \<open>auto simp: s1_def\<close>)
qed

lemma mq_put_spec:
  assumes k: "kernel_inv s" and ok: "mq_ok (mq_of s i)" and fr: "msg_queue_free (mq_of s i) = Some b"
    and sz: "sz \<le> unat (mq_msg_size (mq_of s i))" "sz \<le> length buffer"
  obtains s' where "mq_put i buffer sz s = (Ret RT_EOK, s')" and "kernel_inv s'"
    and "mq_of s' = (mq_of s)(i := put_tail b buffer sz (mq_of s i))"
    and "\<And>m. wait_list m \<Longrightarrow> thread_lists s' m = (if m = MqRecvQ i then tl (thread_lists s m) else thread_lists s m)"
    and "\<And>t ts. thread_lists s (MqRecvQ i) = t # ts \<Longrightarrow> \<not> suspended s' t \<and> thread_error (thread_of s' t) = RT_EOK"
proof -
  define s1 where "s1 = upd_mq i (mq_fill b buffer sz) (upd_mq i (set_next b None) (upd_mq i (mq_claim b) s))"
  have e: "mq_put i buffer sz s = mq_publish (mq_link_tail b) i s1" using fr by (simp add: mq_put_def s1_def Let_def)
  have k1: "kernel_inv s1" using k by (simp add: s1_def)
  have lt: "mq_entry (mq_of s1 i) < RT_MQ_ENTRY_MAX" using put_spec(5)[OF ok fr sz] by (simp add: s1_def)
  show thesis
    by (rule mq_publish_spec[OF k1 lt, of "mq_link_tail b"], simp, rule that)
      (auto simp: e s1_def put_tail_def)
qed

lemma mq_urgent_spec:
  assumes k: "kernel_inv s" and ok: "mq_ok (mq_of s i)" and fr: "msg_queue_free (mq_of s i) = Some b"
    and sz: "sz \<le> unat (mq_msg_size (mq_of s i))" "sz \<le> length buffer"
  obtains s' where "rt_mq_urgent i buffer sz s = (Ret RT_EOK, s')" and "kernel_inv s'"
    and "mq_of s' = (mq_of s)(i := put_head b buffer sz (mq_of s i))"
proof -
  define s1 where "s1 = upd_mq i (mq_fill b buffer sz) (upd_mq i (mq_claim b) s)"
  have e: "rt_mq_urgent i buffer sz s = mq_publish (mq_link_head b) i s1"
    using fr sz by (simp add: rt_mq_urgent_def s1_def Let_def)
  have k1: "kernel_inv s1" using k by (simp add: s1_def)
  have lt: "mq_entry (mq_of s1 i) < RT_MQ_ENTRY_MAX" using put_spec(5)[OF ok fr sz] by (simp add: s1_def)
  show thesis
    by (rule mq_publish_spec[OF k1 lt, of "mq_link_head b"], simp, rule that)
      (auto simp: e s1_def put_head_def)
qed

lemma mq_get_spec:
  assumes k: "kernel_inv s" and ok: "mq_ok (mq_of s i)" and ne: "mq_entry (mq_of s i) \<noteq> 0"
  obtains b s' where "mq_msgs (mq_of s i) = block_msg (mq_of s i) b # mq_msgs (mq_of s' i)"
    and "mq_get i sz s = ((Ret (int (min sz (length (block_msg (mq_of s i) b)))), Some (take sz (block_msg (mq_of s i) b))), s')"
    and "kernel_inv s'" and "mq_of s' = (mq_of s)(i := take_head b (mq_of s i))" and "mq_ok (mq_of s' i)"
    and "\<And>m. wait_list m \<Longrightarrow> thread_lists s' m = (if m = MqSendQ i then tl (thread_lists s m) else thread_lists s m)"
    and "\<And>t ts. thread_lists s (MqSendQ i) = t # ts \<Longrightarrow> \<not> suspended s' t \<and> thread_error (thread_of s' t) = RT_EOK"
    and "length (block_msg (mq_of s i) b) \<le> unat (mq_msg_size (mq_of s i))"
proof -
  let ?mq = "mq_of s i"
  obtain b where b: "msg_queue_head ?mq = Some b" "mq_ok (take_head b ?mq)" "mq_msgs ?mq = block_msg ?mq b # mq_msgs (take_head b ?mq)"
    "msg_length (mq_pool ?mq b) = length (block_msg ?mq b)" "length (block_msg ?mq b) \<le> unat (mq_msg_size ?mq)"
    by (rule take_spec[OF ok ne])
  define s1 where "s1 = upd_mq i (mq_release_block b) (upd_mq i (mq_unlink b) s)"
  have p: "mq_pool (mq_unlink b ?mq) = mq_pool ?mq" by (simp add: mq_unlink_def Let_def)
  have "take (if length (block_msg ?mq b) > sz then sz else length (block_msg ?mq b)) (msg_data (mq_pool ?mq b)) = take sz (block_msg ?mq b)"
    using b(4) by (simp add: block_msg_def min_def)
  then have e: "mq_get i sz s = ((Ret (int (min sz (length (block_msg ?mq b)))), Some (take sz (block_msg ?mq b))), wake_one (MqSendQ i) s1)"
    using b(1,4) p by (cases "sz < length (block_msg ?mq b)") (simp_all add: mq_get_def s1_def Let_def min_def)
  have k1: "kernel_inv s1" using k by (simp add: s1_def)
  note w = wake_one_inv[OF k1 mq_wait_lists(2)[of i]]
  show thesis
    by (rule that[OF _ e w(1)]) (use w b in \<open>auto simp: s1_def take_head_def\<close>)
qed

lemma mq_send_ready:
  "\<not> mq_full i s \<Longrightarrow> sz \<le> unat (mq_msg_size (mq_of s i)) \<Longrightarrow>
   mq_send_wait i buffer sz timeout sf s = Some (mq_put i buffer sz s)"
  using mq_send.call_proceeds[of i buffer sz s] by (simp add: mq_send_wait_def mq_op_simps)

lemma mq_recv_ready: "mq_entry (mq_of s i) \<noteq> 0 \<Longrightarrow> mq_recv i sz timeout sf s = Some (mq_get i sz s)"
  using mq_recv.call_proceeds[of i sz s] by (simp add: mq_recv_def mq_op_simps)

section \<open>The contract\<close>

text \<open>The calls that do not wait, as the client sees them: whether a send was accepted, and the message of a receive that returns
  the message's length.\<close>

definition mq_try_send :: "oid \<Rightarrow> byte list \<Rightarrow> kstate \<Rightarrow> bool \<times> kstate" where
  "mq_try_send i m s = (case rt_mq_send i m (length m) s of None \<Rightarrow> (False, s) | Some (r, s') \<Rightarrow> (r = Ret RT_EOK, s'))"

definition mq_try_urgent :: "oid \<Rightarrow> byte list \<Rightarrow> kstate \<Rightarrow> bool \<times> kstate" where
  "mq_try_urgent i m s = (let (r, s') = rt_mq_urgent i m (length m) s in (r = Ret RT_EOK, s'))"

definition mq_try_recv :: "oid \<Rightarrow> nat \<Rightarrow> kstate \<Rightarrow> byte list option \<times> kstate" where
  "mq_try_recv i n s = (case rt_mq_recv i n 0 s of None \<Rightarrow> (None, s)
     | Some ((r, m), s') \<Rightarrow> (Option.bind m (\<lambda>x. if r = Ret (int (length x)) then Some x else None), s'))"

text \<open>A message queue for messages of at most \<open>n\<close> bytes.\<close>

abbreviation mq_invar :: "oid \<Rightarrow> nat \<Rightarrow> kstate \<Rightarrow> bool" where
  "mq_invar i n s \<equiv> kernel_inv s \<and> mq_ok (mq_of s i) \<and> unat (mq_msg_size (mq_of s i)) = n"

abbreviation mq_contents :: "oid \<Rightarrow> kstate \<Rightarrow> byte list list" where
  "mq_contents i s \<equiv> mq_msgs (mq_of s i)"

abbreviation mq_cap :: "oid \<Rightarrow> kstate \<Rightarrow> nat" where
  "mq_cap i s \<equiv> unat (mq_max_msgs (mq_of s i))"

lemma mq_full_cap: "mq_ok (mq_of s i) \<Longrightarrow> mq_full i s \<longleftrightarrow> \<not> length (mq_contents i s) < mq_cap i s"
  by (elim mq_okE, case_tac fs) (auto simp: mq_full_def)

lemma mq_empty: "mq_ok (mq_of s i) \<Longrightarrow> mq_contents i s = [] \<longleftrightarrow> mq_entry (mq_of s i) = 0"
  by (erule mq_okE) (auto simp: unat_eq_zero[symmetric])

lemma mq_try_full:
  assumes "mq_full i s" and "length m \<le> unat (mq_msg_size (mq_of s i))"
  shows "mq_try_send i m s = (False, s)" and "mq_try_urgent i m s = (False, s)"
  using assms by (simp_all add: mq_try_send_def rt_mq_send_def rt_mq_send_wait_def mq_send_wait_def mq_full_def
      mq_try_urgent_def rt_mq_urgent_def RT_EFULL_def RT_EOK_def)

lemma put_head_frame [simp]:
  "mq_msg_size (put_head b m sz mq) = mq_msg_size mq" "mq_max_msgs (put_head b m sz mq) = mq_max_msgs mq"
  "mq_msg_size (put_tail b m sz mq) = mq_msg_size mq" "mq_max_msgs (put_tail b m sz mq) = mq_max_msgs mq"
  "mq_msg_size (take_head b mq) = mq_msg_size mq" "mq_max_msgs (take_head b mq) = mq_max_msgs mq"
  by (simp_all add: put_head_def put_tail_def take_head_def)

lemma mq_try_room:
  assumes iv: "mq_invar i n s" and nf: "\<not> mq_full i s" and m: "length m \<le> n"
  shows "fst (mq_try_send i m s)" and "mq_contents i (snd (mq_try_send i m s)) = mq_contents i s @ [m]"
    and "mq_invar i n (snd (mq_try_send i m s))" and "mq_cap i (snd (mq_try_send i m s)) = mq_cap i s"
    and "fst (mq_try_urgent i m s)" and "mq_contents i (snd (mq_try_urgent i m s)) = m # mq_contents i s"
    and "mq_invar i n (snd (mq_try_urgent i m s))" and "mq_cap i (snd (mq_try_urgent i m s)) = mq_cap i s"
proof -
  have k: "kernel_inv s" and ok: "mq_ok (mq_of s i)" and sz: "length m \<le> unat (mq_msg_size (mq_of s i))" "length m \<le> length m"
    using iv m by auto
  obtain b where b: "msg_queue_free (mq_of s i) = Some b" using nf by (auto simp: mq_full_def)
  note p = put_spec[OF ok b sz]
  obtain s' where s': "mq_put i m (length m) s = (Ret RT_EOK, s')" "kernel_inv s'"
    "mq_of s' = (mq_of s)(i := put_tail b m (length m) (mq_of s i))"
    by (rule mq_put_spec[OF k ok b sz])
  have e: "mq_try_send i m s = (True, s')"
    using mq_send_ready[OF nf sz(1)] s'(1) by (simp add: mq_try_send_def rt_mq_send_def rt_mq_send_wait_def)
  show "fst (mq_try_send i m s)" "mq_contents i (snd (mq_try_send i m s)) = mq_contents i s @ [m]"
    "mq_invar i n (snd (mq_try_send i m s))" "mq_cap i (snd (mq_try_send i m s)) = mq_cap i s"
    using s'(2,3) p(1,2) iv by (simp_all add: e)
  obtain s'' where s'': "rt_mq_urgent i m (length m) s = (Ret RT_EOK, s'')" "kernel_inv s''"
    "mq_of s'' = (mq_of s)(i := put_head b m (length m) (mq_of s i))"
    by (rule mq_urgent_spec[OF k ok b sz])
  show "fst (mq_try_urgent i m s)" "mq_contents i (snd (mq_try_urgent i m s)) = m # mq_contents i s"
    "mq_invar i n (snd (mq_try_urgent i m s))" "mq_cap i (snd (mq_try_urgent i m s)) = mq_cap i s"
    using s'' p(3,4) iv by (simp_all add: mq_try_urgent_def)
qed

lemma mq_try_recv_empty: "mq_ok (mq_of s i) \<Longrightarrow> mq_contents i s = [] \<Longrightarrow> mq_try_recv i n s = (None, s)"
  by (simp add: mq_empty mq_try_recv_def rt_mq_recv_def mq_recv_def)

lemma mq_try_recv_some:
  assumes iv: "mq_invar i n s" and c: "mq_contents i s = m # ms"
  shows "fst (mq_try_recv i n s) = Some m" and "mq_contents i (snd (mq_try_recv i n s)) = ms"
    and "mq_invar i n (snd (mq_try_recv i n s))" and "mq_cap i (snd (mq_try_recv i n s)) = mq_cap i s"
proof -
  have k: "kernel_inv s" and ok: "mq_ok (mq_of s i)" and ne: "mq_entry (mq_of s i) \<noteq> 0"
    using iv c mq_empty[of s i] by auto
  show "fst (mq_try_recv i n s) = Some m" "mq_contents i (snd (mq_try_recv i n s)) = ms"
    "mq_invar i n (snd (mq_try_recv i n s))" "mq_cap i (snd (mq_try_recv i n s)) = mq_cap i s"
    by (rule mq_get_spec[OF k ok ne, of n],
        use iv c in \<open>simp add: mq_try_recv_def rt_mq_recv_def mq_recv_ready[OF ne] fun_upd_def\<close>)+
qed

interpretation mq_contract: message_store "mq_invar i n" "mq_contents i" "mq_cap i" "\<lambda>m. length m \<le> n"
  "mq_try_send i" "mq_try_urgent i" "mq_try_recv i n" for i n
proof unfold_locales
  fix s :: kstate and m :: "byte list"
  assume iv: "mq_invar i n s" and m: "length m \<le> n"
  have s: "mq_try_send i m s = (False, s) \<and> mq_try_urgent i m s = (False, s) \<or> \<not> mq_full i s"
    using mq_try_full[of i s m] iv m by blast
  have r: "mq_try_recv i n s = (None, s) \<or> (\<exists>m ms. mq_contents i s = m # ms)"
    using mq_try_recv_empty[of s i n] iv by (cases "mq_contents i s") auto
  show "mq_invar i n (snd (mq_try_send i m s)) \<and> mq_invar i n (snd (mq_try_urgent i m s)) \<and> mq_invar i n (snd (mq_try_recv i n s))"
    using iv s r mq_try_room(3,7)[OF iv _ m] mq_try_recv_some(3)[OF iv] by (metis snd_conv)
  show "mq_cap i (snd (mq_try_send i m s)) = mq_cap i s \<and> mq_cap i (snd (mq_try_urgent i m s)) = mq_cap i s
      \<and> mq_cap i (snd (mq_try_recv i n s)) = mq_cap i s"
    using iv s r mq_try_room(4,8)[OF iv _ m] mq_try_recv_some(4)[OF iv] by (metis snd_conv)
next
  show "\<exists>m :: byte list. length m \<le> n" by (rule exI[of _ "[]"]) simp
qed (auto simp: mq_full_cap mq_try_full mq_try_room mq_try_recv_empty mq_try_recv_some)

section \<open>Example system\<close>

lemma demo_mq: "mq_rep (mq_of demo_kernel i) [] [1, 0] Map.empty"
  by (rule mq_repI) (auto simp: demo_kernel_def)

lemma demo_mq_fields: "mq_ok (mq_of demo_kernel i)" "mq_msg_size (mq_of demo_kernel i) = 8"
  "mq_max_msgs (mq_of demo_kernel i) = 2" "mq_entry (mq_of demo_kernel i) = 0" "mq_msgs (mq_of demo_kernel i) = []"
  "mq_flag (mq_of demo_kernel i) = RT_IPC_FLAG_FIFO" "msg_queue_free (mq_of demo_kernel i) = Some 1"
  using demo_mq[of i] rep_queue[OF demo_mq] by (auto simp: mq_ok_def mq_msgs_def) (simp_all add: demo_kernel_def)

text \<open>Thread 1 waits to receive from the empty queue.\<close>

lemma demo_mq_receiver:
  obtains s where "kernel_inv s" and "thread_lists s (MqRecvQ 0) = [1]" and "mq_of s = mq_of demo_kernel"
proof -
  have w: "must_wait (mq_recv_op 0 8) demo_kernel" "(50 :: int) \<noteq> 0" by (simp_all add: demo_mq_fields mq_op_simps)
  obtain s' where "kernel_inv s'" "mq_of s' = mq_of demo_kernel"
    "\<And>m. wait_list m \<Longrightarrow> thread_lists s' m = (if m = wait_on (mq_recv_op 0 8)
       then enqueue_order (wait_flag (mq_recv_op 0 8) demo_kernel) (\<lambda>u. current_priority (thread_of demo_kernel u)) 1
         (thread_lists demo_kernel m) else thread_lists demo_kernel m)"
    by (rule mq_recv.blocks[OF demo_kernel_inv demo_may_block w, of RT_UNINTERRUPTIBLE]) blast
  then show thesis
    using that[of s'] by (simp add: mq_op_simps demo_mq_fields demo_lists enqueue_order_simps)
qed

section \<open>Properties\<close>

text \<open>C12: no block of a message queue is ever lost or in two places. Under every interleaving
  of the critical sections and copies of concurrent sends, urgent sends, receives and
  resets on an initialised queue, the queue and the free list are chains without
  common blocks, each block of the pool is in exactly one of them or under way in one
  call, the tail pointer is the last block, the entry count is the number of queued
  messages and cannot overflow, every queued message fits, and a receive that finds a
  positive count finds a block.\<close>

theorem mq_blocks_never_lost:
  assumes "mq_step\<^sup>*\<^sup>* (mq_lists_init mq0, Map.empty) (mq, F)"
  shows "(\<exists>qs fs. mq_rep mq qs fs F) \<and> (mq_entry mq \<noteq> 0 \<longrightarrow> msg_queue_head mq \<noteq> None) \<and>
    (\<forall>b \<in> dom F. mq_entry mq < RT_MQ_ENTRY_MAX)"
proof -
  have "\<exists>qs fs. mq_rep mq qs fs F"
    using assms
  proof (induction "(mq, F)" arbitrary: mq F rule: rtranclp_induct)
    case base
    then show ?case using lists_init_rep[of mq0] by auto
  next
    case (step y)
    then show ?case using mq_step_rep by (cases y) blast
  qed
  then obtain qs fs where r: "mq_rep mq qs fs F" by blast
  have "msg_queue_head mq \<noteq> None" if "mq_entry mq \<noteq> 0"
    using mq_repD(1,7)[OF r] that by (cases qs) (auto simp: unat_eq_zero)
  then show ?thesis using r mq_entry_room(1)[OF r] by blast
qed

theorem mq_blocks_never_lost_witness:
  "\<exists>qs fs. mq_rep (mq_claim 1 (mq_lists_init (mq_of demo_kernel 0))) qs fs [1 \<mapsto> Claimed]"
proof -
  have "msg_queue_free (mq_lists_init (mq_of demo_kernel 0)) = Some 1"
    using mq_repD(2)[OF lists_init_rep[of "mq_of demo_kernel 0"]] by (simp add: demo_mq_fields upt_rec)
  then have "mq_step\<^sup>*\<^sup>* (mq_lists_init (mq_of demo_kernel 0), Map.empty)
      (mq_claim 1 (mq_lists_init (mq_of demo_kernel 0)), [1 \<mapsto> Claimed])"
    by (intro r_into_rtranclp claim)
  from mq_blocks_never_lost[OF this] show ?thesis by blast
qed

text \<open>C13: a message queue at rest is a bounded store of messages: whatever sequence of sends,
  urgent sends and receives (none of them waiting) is made, every answer and the final
  contents are those of a list of at most \<open>max_msgs\<close> messages; each message comes out
  with exactly the bytes and the length it was sent with, and without urgent sends in
  the order of acceptance. A message longer than the message size is refused.\<close>

theorem msgqueue_refines_store:
  assumes "kernel_inv s" and "mq_ok (mq_of s i)" and "n = unat (mq_msg_size (mq_of s i))"
    and "list_all (op_ok (\<lambda>m. length m \<le> n)) xs"
  shows "let (as, s') = run_ops (impl_step (mq_try_send i) (mq_try_urgent i) (mq_try_recv i n)) xs s;
             (bs, q) = run_ops (store_step (unat (mq_max_msgs (mq_of s i)))) xs (mq_msgs (mq_of s i)) in
    as = bs \<and> mq_msgs (mq_of s' i) = q \<and> kernel_inv s' \<and> mq_ok (mq_of s' i) \<and>
    ((\<forall>x \<in> set xs. \<forall>m. x \<noteq> Urgent m) \<longrightarrow> received as @ q = mq_msgs (mq_of s i) @ accepted xs as) \<and>
    (\<forall>m. length m > n \<longrightarrow> mq_send_wait i m (length m) timeout sf s = Some (Ret (- RT_ERROR), s)
       \<and> rt_mq_urgent i m (length m) s = (Ret (- RT_ERROR), s))"
proof -
  from mq_contract.run_refines[of s i n xs] assms store_fifo[of xs] show ?thesis
    by (simp add: case_prod_unfold Let_def mq_send_wait_def rt_mq_urgent_def)
qed

theorem msgqueue_refines_store_witness:
  "fst (run_ops (impl_step (mq_try_send 0) (mq_try_urgent 0) (mq_try_recv 0 8))
     [Send [1, 2], Urgent [3], Send [4], Receive, Receive, Receive] demo_kernel)
   = [Accepted, Accepted, Rejected, Received [3], Received [1, 2], Nothing]"
  using msgqueue_refines_store[of demo_kernel 0 8 "[Send [1, 2], Urgent [3], Send [4], Receive, Receive, Receive]"
      0 RT_UNINTERRUPTIBLE] demo_kernel_inv
  by (simp add: demo_mq_fields case_prod_unfold Let_def)

text \<open>Sending to and receiving from a message queue, when the calls may wait. They return
  or suspend their caller: a send into a full queue and a receive from an empty one
  answer \<open>-RT_EFULL\<close> and \<open>-RT_ETIMEOUT\<close> at once for a zero timeout, and otherwise put the
  caller on the respective wait list, with its timer armed and the queue unchanged;
  a send that has room wakes the first waiting receiver, which will then see a
  message.\<close>

theorem mq_blocking_behaviour:
  assumes k: "kernel_inv s" and ok: "mq_ok (mq_of s i)" and mb: "may_block s t"
    and sz: "sz \<le> unat (mq_msg_size (mq_of s i))" "sz \<le> length buffer"
  shows "(\<exists>r s'. mq_send_wait i buffer sz timeout sf s = Some (r, s') \<and> kernel_inv s' \<and> mq_ok (mq_of s' i) \<and>
     (if \<not> mq_full i s then r = Ret RT_EOK \<and> mq_msgs (mq_of s' i) = mq_msgs (mq_of s i) @ [take sz buffer] \<and>
        (\<forall>u us. thread_lists s (MqRecvQ i) = u # us \<longrightarrow> \<not> suspended s' u \<and> thread_lists s' (MqRecvQ i) = us)
      else if timeout = 0 then r = Ret (- RT_EFULL) \<and> s' = s
      else r = Blocked \<and> mq_of s' = mq_of s \<and> suspended s' t \<and>
        thread_lists s' (MqSendQ i) = enqueue_order (mq_flag (mq_of s i))
          (\<lambda>u. current_priority (thread_of s u)) t (thread_lists s (MqSendQ i)) \<and>
        (timeout > 0 \<longrightarrow> timeout_tick (timer_of s' (ThreadTimer t)) = rt_tick s + word_of_int timeout))) \<and>
   (mq_msgs (mq_of s i) = [] \<longrightarrow>
     (\<exists>r s'. mq_recv i n timeout sf s = Some ((r, None), s') \<and> kernel_inv s' \<and> mq_of s' = mq_of s \<and>
      (if timeout = 0 then r = Ret (- RT_ETIMEOUT) \<and> s' = s
       else r = Blocked \<and> suspended s' t \<and>
        thread_lists s' (MqRecvQ i) = enqueue_order (mq_flag (mq_of s i))
          (\<lambda>u. current_priority (thread_of s u)) t (thread_lists s (MqRecvQ i)) \<and>
        (timeout > 0 \<longrightarrow> timeout_tick (timer_of s' (ThreadTimer t)) = rt_tick s + word_of_int timeout))))"
    (is "?send \<and> (_ \<longrightarrow> ?recv)")
proof (intro conjI impI)
  have c: "rt_current_thread s = Some t" using mb by (simp add: may_block_def)
  consider (room) b where "msg_queue_free (mq_of s i) = Some b" | (no) "mq_full i s" "timeout = 0"
    | (wait) "mq_full i s" "timeout \<noteq> 0" by (auto simp: mq_full_def)
  then show ?send
  proof cases
    case room
    then have nf: "\<not> mq_full i s" by (simp add: mq_full_def)
    show ?thesis
      by (rule mq_put_spec[OF k ok room sz]) (use put_spec[OF ok room sz] nf in \<open>auto simp: mq_send_ready[OF nf sz(1)]\<close>)
  next
    case no
    then show ?thesis using k ok sz by (simp add: mq_send_wait_def)
  next
    case wait
    have e: "mq_send_wait i buffer sz timeout sf s = wait_while (mq_send_wait_op i buffer sz) sf t timeout s"
      using wait sz mq_send.call_self[OF c] by (simp add: mq_send_wait_def)
    show ?thesis
      by (rule mq_send.blocks[OF k mb, of i buffer sz timeout sf]) (use wait ok in \<open>auto simp: mq_op_simps e\<close>)
  qed
  assume "mq_msgs (mq_of s i) = []"
  then have z: "mq_entry (mq_of s i) = 0" using mq_empty[OF ok] by simp
  show ?recv
  proof (cases "timeout = 0")
    case True
    then show ?thesis using k z by (simp add: mq_recv_def)
  next
    case False
    have e: "mq_recv i n timeout sf s = wait_while (mq_recv_op i n) sf t timeout s"
      using False mq_recv.call_self[OF c] by (simp add: mq_recv_def)
    show ?thesis
      by (rule mq_recv.blocks[OF k mb, of i n timeout sf]) (use z False in \<open>auto simp: mq_op_simps e\<close>)
  qed
qed

theorem mq_blocking_behaviour_witness:
  "\<exists>s'. mq_recv 0 8 (- 1) RT_UNINTERRUPTIBLE demo_kernel = Some ((Blocked, None), s') \<and> suspended s' 1"
  using mq_blocking_behaviour[OF demo_kernel_inv demo_mq_fields(1) demo_may_block, of 0 0 "[]" "- 1" RT_UNINTERRUPTIBLE 8]
  by (auto simp: demo_mq_fields)

text \<open>A receive that is ended by a reset or a detach of the queue returns \<open>RT_ERROR\<close>, which is
  the positive number 1, without a message; a receive of a one-byte message returns
  the same number. The documentation of the call says that a return value larger than
  zero is the length of a received message. The reset itself ends, empties the queue
  and gives every block back.\<close>

theorem mq_recv_error_looks_like_length:
  assumes k: "kernel_inv s" and ok: "mq_ok (mq_of s i)" and q: "t \<in> set (thread_lists s (MqRecvQ i))"
  shows "(\<exists>e. rt_mq_control i RT_IPC_CMD_RESET s = Some (RT_EOK, e) \<and> mq_ok (mq_of e i) \<and> mq_msgs (mq_of e i) = [] \<and>
      (\<forall>x \<in> {e, snd (rt_mq_detach i s)}. kernel_inv x \<and> \<not> suspended x t \<and>
        wait_resume (mq_recv_op i n) sf t timeout start x = Some ((Ret 1, None), x))) \<and>
    (\<forall>x c ms. kernel_inv x \<and> mq_ok (mq_of x i) \<and> mq_msgs (mq_of x i) = [c] # ms \<and> 0 < n \<longrightarrow>
      (\<exists>x'. rt_mq_recv i n 0 x = Some ((Ret 1, Some [c]), x')))"
proof (intro conjI allI impI)
  define y where "y = mq_resume_all i s"
  have y: "kernel_inv y" "\<not> suspended y t" "thread_error (thread_of y t) = RT_ERROR" "mq_of y = mq_of s"
    using resume_two[OF k mq_wait_lists(1)[of i] mq_wait_lists(2)[of i]] q by (auto simp: y_def mq_resume_all_def Let_def)
  obtain fs where r: "mq_rep (mq_of y i) (mq_queue (mq_of y i)) fs Map.empty" using mq_okE[OF ok] y(4) by metis
  then have "mq_rep ((mq_of y i)\<lparr> mq_entry := mq_entry (mq_of y i) \<rparr>) (mq_queue (mq_of y i)) fs Map.empty" by simp
  from flush_rep[OF this] obtain mq' fs' where m: "mq_flush (mq_of y i) = Some mq'"
    "mq_rep (mq'\<lparr> mq_entry := 0 \<rparr>) [] fs' Map.empty" by blast
  define z where "z = upd_mq i (\<lambda>_. mq'\<lparr> mq_entry := 0 \<rparr>) y"
  have kz: "kernel_inv z" using y(1) by (simp add: z_def)
  note sz = schedule_keeps[OF kz]
  have e: "rt_mq_control i RT_IPC_CMD_RESET s = Some (RT_EOK, rt_schedule z)"
    using m(1) by (simp add: rt_mq_control_def Let_def y_def z_def)
  have d: "snd (rt_mq_detach i s) = y\<lparr> registry := rt_object_detach (OMessageQueue i) (registry y) \<rparr>"
    by (simp add: rt_mq_detach_def Let_def y_def)
  have "mq_ok (mq_of (rt_schedule z) i)" "mq_msgs (mq_of (rt_schedule z) i) = []"
    using m(2) rep_queue[OF m(2)] by (auto simp: z_def mq_ok_def mq_msgs_def)
  then show "\<exists>e. rt_mq_control i RT_IPC_CMD_RESET s = Some (RT_EOK, e) \<and> mq_ok (mq_of e i) \<and> mq_msgs (mq_of e i) = [] \<and>
      (\<forall>x \<in> {e, snd (rt_mq_detach i s)}. kernel_inv x \<and> \<not> suspended x t \<and>
        wait_resume (mq_recv_op i n) sf t timeout start x = Some ((Ret 1, None), x))"
    using e d y sz(1) sz(2,4)[of t]
    by (intro exI[of _ "rt_schedule z"]) (simp add: wait_resume_def mq_op_simps z_def RT_ERROR_def RT_EOK_def)
next
  fix x c ms
  assume a: "kernel_inv x \<and> mq_ok (mq_of x i) \<and> mq_msgs (mq_of x i) = [c] # ms \<and> 0 < n"
  then have kx: "kernel_inv x" and okx: "mq_ok (mq_of x i)" and ne: "mq_entry (mq_of x i) \<noteq> 0"
    using mq_empty[of x i] by auto
  obtain b x' where g: "mq_msgs (mq_of x i) = block_msg (mq_of x i) b # mq_msgs (mq_of x' i)"
    "mq_get i n x = ((Ret (int (min n (length (block_msg (mq_of x i) b)))), Some (take n (block_msg (mq_of x i) b))), x')"
    by (rule mq_get_spec[OF kx okx ne, of n])
  have "block_msg (mq_of x i) b = [c]" using g(1) a by auto
  moreover have "min n (Suc 0) = 1" "take n [c] = [c]" using a by auto
  ultimately show "\<exists>x'. rt_mq_recv i n 0 x = Some ((Ret 1, Some [c]), x')"
    using g(2) by (simp add: rt_mq_recv_def mq_recv_ready[OF ne])
qed

theorem mq_recv_error_looks_like_length_witness:
  "\<exists>s e. thread_lists s (MqRecvQ 0) = [1] \<and> rt_mq_control 0 RT_IPC_CMD_RESET s = Some (RT_EOK, e) \<and>
     wait_resume (mq_recv_op 0 8) RT_UNINTERRUPTIBLE 1 50 0 e = Some ((Ret 1, None), e)"
proof -
  obtain s where s: "kernel_inv s" "thread_lists s (MqRecvQ 0) = [1]" "mq_of s = mq_of demo_kernel"
    by (rule demo_mq_receiver)
  have "mq_ok (mq_of s 0)" "1 \<in> set (thread_lists s (MqRecvQ 0))" using s demo_mq_fields(1) by simp_all
  from mq_recv_error_looks_like_length[OF s(1) this, where n = 8 and sf = RT_UNINTERRUPTIBLE and timeout = 50 and start = 0]
  show ?thesis using s(2) by blast
qed

text \<open>C14: the wait loops of the four blocking calls end. In every consistent state in which the
  caller's timer is at rest, each call, and each continuation of it after a wake-up,
  returns an answer or gives up the processor; it never spins, not even when the
  scheduler is locked and the suspended caller keeps running.\<close>

theorem ipc_wait_loops_terminate:
  assumes k: "kernel_inv s" and r: "timer_ready s t" and c: "rt_current_thread s = Some t"
  shows "(\<exists>x. mb_send_wait i v timeout sf s = Some x) \<and> (\<exists>x. mb_recv i timeout sf s = Some x) \<and>
    (\<exists>x. mq_send_wait i buffer sz timeout sf s = Some x) \<and> (\<exists>x. mq_recv i sz timeout sf s = Some x) \<and>
    (\<exists>x. wait_resume (mb_send_wait_op i v) sf t timeout start s = Some x) \<and>
    (\<exists>x. wait_resume (mb_recv_op i) sf t timeout start s = Some x) \<and>
    (\<exists>x. wait_resume (mq_send_wait_op i buffer sz) sf t timeout start s = Some x) \<and>
    (\<exists>x. wait_resume (mq_recv_op i sz) sf t timeout start s = Some x)"
  using mb_send.call_returns[OF k r c, of i v sf timeout] mb_recv.call_returns[OF k r c, of i sf timeout]
    mq_send.call_returns[OF k r c, of i buffer sz sf timeout] mq_recv.call_returns[OF k r c, of i sz sf timeout]
  by (intro conjI mb_send.resume_returns mb_recv.resume_returns mq_send.resume_returns mq_recv.resume_returns k r)
    (simp_all add: mb_send_wait_def mb_recv_def mq_send_wait_def mq_recv_def)

theorem ipc_wait_loops_terminate_witness:
  "\<exists>x. mq_recv 0 8 50 RT_UNINTERRUPTIBLE demo_kernel = Some x"
  using ipc_wait_loops_terminate[OF demo_kernel_inv demo_timer_ready[of 1], where i = 0 and sz = 8 and timeout = 50
      and sf = RT_UNINTERRUPTIBLE] demo_may_block by (simp add: may_block_def)

end
