(* ===== verification/DataQueue.thy ===== *)
theory DataQueue
  imports MailBox
begin

text \<open>
  Data queues of the device drivers (\<open>rt-thread/components/drivers/ipc/dataqueue.c\<close>): a ring of pointers with their
  sizes, a list of producers that wait for room and one of consumers that wait for data. The
  state is the queue together with the kernel state. A call is split at \<open>rt_schedule\<close> like the other
  blocking calls. The notification callback is the last action of a call; it
  appears as the event of the answer.
\<close>

section \<open>Data\<close>

record rt_data_item =
  data_ptr :: u32
  data_size :: u32

record rt_data_queue =
  dq_magic :: u32
  dq_size :: u16
  dq_lwm :: u16
  get_index :: "15 word"
  is_empty :: bool
  put_index :: "15 word"
  is_full :: bool
  dq_queue :: "rt_data_item list"
  evt_notify :: bool

definition DATAQUEUE_MAGIC :: u32 where "DATAQUEUE_MAGIC = 0xbead0e0e"

datatype dq_event = RT_DATAQUEUE_EVENT_POP | RT_DATAQUEUE_EVENT_PUSH | RT_DATAQUEUE_EVENT_LWM

definition RT_ENOMEM :: int where "RT_ENOMEM = 5"

definition RT_THREAD_RESUME_RES_THR_ERR :: int where "RT_THREAD_RESUME_RES_THR_ERR = - 1"

text \<open>The answer of a call: its status, the fetched item, and the event that is notified.\<close>

record dq_answer =
  dq_ret :: ret
  dq_item :: "rt_data_item option"
  dq_notified :: "dq_event option"

abbreviation dq_status :: "ret \<Rightarrow> dq_answer" where
  "dq_status r \<equiv> \<lparr> dq_ret = r, dq_item = None, dq_notified = None \<rparr>"

definition notify :: "dq_event \<Rightarrow> rt_data_queue \<Rightarrow> dq_event option" where
  "notify e q = (if evt_notify q then Some e else None)"

section \<open>Operations\<close>

text \<open>\<open>mem\<close> is the array that the allocator returns.\<close>

definition rt_data_queue_init ::
  "oid \<Rightarrow> u16 \<Rightarrow> u16 \<Rightarrow> bool \<Rightarrow> rt_data_item list option \<Rightarrow> kstate \<Rightarrow> int \<times> rt_data_queue \<times> kstate" where
  "rt_data_queue_init i sz lwm evt mem s =
    (let q = \<lparr> dq_magic = DATAQUEUE_MAGIC, dq_size = sz, dq_lwm = lwm, get_index = 0, is_empty = True, put_index = 0,
               is_full = False, dq_queue = (case mem of None \<Rightarrow> [] | Some a \<Rightarrow> a), evt_notify = evt \<rparr>;
         s = s\<lparr> thread_lists := (thread_lists s)(DqPushQ i := [], DqPopQ i := []) \<rparr>
     in (if mem = None then - RT_ENOMEM else RT_EOK, q, s))"

definition rt_data_queue_len :: "rt_data_queue \<Rightarrow> u16" where
  "rt_data_queue_len q =
    (if is_empty q then 0
     else if put_index q > get_index q then ucast (put_index q) - ucast (get_index q)
     else dq_size q + ucast (put_index q) - ucast (get_index q))"

text \<open>The indices are 15-bit fields; they are compared with the 16-bit size.\<close>

definition advance :: "15 word \<Rightarrow> u16 \<Rightarrow> 15 word" where
  "advance k sz = (let k = k + 1 in if ucast k = sz then 0 else k)"

definition dq_store :: "rt_data_item \<Rightarrow> rt_data_queue \<Rightarrow> rt_data_queue" where
  "dq_store item q =
    (let q = q\<lparr> dq_queue := (dq_queue q)[unat (put_index q) := item] \<rparr>;
         q = q\<lparr> put_index := advance (put_index q) (dq_size q) \<rparr>;
         q = q\<lparr> is_empty := False \<rparr>
     in if put_index q = get_index q then q\<lparr> is_full := True \<rparr> else q)"

text \<open>The rest of a push that has room: it wakes a thread that waits to push.\<close>

definition dq_put :: "oid \<Rightarrow> rt_data_item \<Rightarrow> rt_data_queue \<Rightarrow> kstate \<Rightarrow> dq_answer \<times> rt_data_queue \<times> kstate" where
  "dq_put i item q s =
    (let q = dq_store item q
     in case rt_susp_list_dequeue (DqPushQ i) RT_THREAD_RESUME_RES_THR_ERR s of
          (Some _, s) \<Rightarrow> (dq_status (Ret RT_EOK), q, rt_schedule s)
        | (None, s) \<Rightarrow> ((dq_status (Ret RT_EOK))\<lparr> dq_notified := notify RT_DATAQUEUE_EVENT_PUSH q \<rparr>, q, s))"

partial_function (option) dq_push_loop ::
  "oid \<Rightarrow> tid \<Rightarrow> rt_data_item \<Rightarrow> int \<Rightarrow> rt_data_queue \<Rightarrow> kstate \<Rightarrow> (dq_answer \<times> rt_data_queue \<times> kstate) option" where
  "dq_push_loop i t item timeout q s =
    (if \<not> is_full q then Some (dq_put i item q s)
     else if timeout = 0 then Some (dq_status (Ret (- RT_ETIMEOUT)), q, s)
     else
       let s = upd_thread t (\<lambda>x. x\<lparr> thread_error := RT_EOK \<rparr>) s;
           r = rt_thread_suspend_to_list t (Some (DqPushQ i)) RT_IPC_FLAG_FIFO RT_UNINTERRUPTIBLE s
       in if fst r \<noteq> RT_EOK then Some (dq_status (Ret (fst r)), q, snd r)
          else
            let s = rt_schedule (start_wait_timer t timeout (snd r))
            in if rt_thread_self s \<noteq> Some t then Some (dq_status Blocked, q, s)
               else if thread_error (thread_of s t) \<noteq> RT_EOK
               then Some (dq_status (Ret (thread_error (thread_of s t))), q, s)
               else dq_push_loop i t item timeout q s)"

definition rt_data_queue_push ::
  "oid \<Rightarrow> rt_data_item \<Rightarrow> int \<Rightarrow> rt_data_queue \<Rightarrow> kstate \<Rightarrow> (dq_answer \<times> rt_data_queue \<times> kstate) option" where
  "rt_data_queue_push i item timeout q s =
    (case rt_thread_self s of
       Some t \<Rightarrow> dq_push_loop i t item timeout q s
     | None \<Rightarrow> Some (if is_full q then (dq_status (if timeout = 0 then Ret (- RT_ETIMEOUT) else Fault), q, s) else dq_put i item q s))"

definition dq_push_resume ::
  "oid \<Rightarrow> tid \<Rightarrow> rt_data_item \<Rightarrow> int \<Rightarrow> rt_data_queue \<Rightarrow> kstate \<Rightarrow> (dq_answer \<times> rt_data_queue \<times> kstate) option" where
  "dq_push_resume i t item timeout q s =
    (if thread_error (thread_of s t) \<noteq> RT_EOK
     then Some (dq_status (Ret (thread_error (thread_of s t))), q, s)
     else dq_push_loop i t item timeout q s)"

definition dq_fetch :: "rt_data_queue \<Rightarrow> rt_data_queue" where
  "dq_fetch q =
    (let q = q\<lparr> get_index := advance (get_index q) (dq_size q) \<rparr>;
         q = q\<lparr> is_full := False \<rparr>
     in if put_index q = get_index q then q\<lparr> is_empty := True \<rparr> else q)"

definition dq_take :: "oid \<Rightarrow> rt_data_queue \<Rightarrow> kstate \<Rightarrow> dq_answer \<times> rt_data_queue \<times> kstate" where
  "dq_take i q s =
    (let item = dq_queue q ! unat (get_index q);
         q = dq_fetch q;
         a = (dq_status (Ret RT_EOK))\<lparr> dq_item := Some item \<rparr>
     in if rt_data_queue_len q \<le> dq_lwm q
        then let s = (case rt_susp_list_dequeue (DqPushQ i) RT_THREAD_RESUME_RES_THR_ERR s of
                 (Some _, s) \<Rightarrow> rt_schedule s | (None, s) \<Rightarrow> s)
             in (a\<lparr> dq_notified := notify RT_DATAQUEUE_EVENT_LWM q \<rparr>, q, s)
        else (a\<lparr> dq_notified := notify RT_DATAQUEUE_EVENT_POP q \<rparr>, q, s))"

text \<open>Unlike a push, a pop that cannot be suspended tries again at once.\<close>

partial_function (option) dq_pop_loop ::
  "oid \<Rightarrow> tid \<Rightarrow> int \<Rightarrow> rt_data_queue \<Rightarrow> kstate \<Rightarrow> (dq_answer \<times> rt_data_queue \<times> kstate) option" where
  "dq_pop_loop i t timeout q s =
    (if \<not> is_empty q then Some (dq_take i q s)
     else if timeout = 0 then Some (dq_status (Ret (- RT_ETIMEOUT)), q, s)
     else
       let s = upd_thread t (\<lambda>x. x\<lparr> thread_error := RT_EOK \<rparr>) s;
           r = rt_thread_suspend_to_list t (Some (DqPopQ i)) RT_IPC_FLAG_FIFO RT_UNINTERRUPTIBLE s
       in if fst r \<noteq> RT_EOK then dq_pop_loop i t timeout q (snd r)
          else
            let s = rt_schedule (start_wait_timer t timeout (snd r))
            in if rt_thread_self s \<noteq> Some t then Some (dq_status Blocked, q, s)
               else if thread_error (thread_of s t) \<noteq> RT_EOK
               then Some (dq_status (Ret (thread_error (thread_of s t))), q, s)
               else dq_pop_loop i t timeout q s)"

definition rt_data_queue_pop ::
  "oid \<Rightarrow> int \<Rightarrow> rt_data_queue \<Rightarrow> kstate \<Rightarrow> (dq_answer \<times> rt_data_queue \<times> kstate) option" where
  "rt_data_queue_pop i timeout q s =
    (case rt_thread_self s of
       Some t \<Rightarrow> dq_pop_loop i t timeout q s
     | None \<Rightarrow> Some (if is_empty q then (dq_status (if timeout = 0 then Ret (- RT_ETIMEOUT) else Fault), q, s) else dq_take i q s))"

definition dq_pop_resume ::
  "oid \<Rightarrow> tid \<Rightarrow> int \<Rightarrow> rt_data_queue \<Rightarrow> kstate \<Rightarrow> (dq_answer \<times> rt_data_queue \<times> kstate) option" where
  "dq_pop_resume i t timeout q s =
    (if thread_error (thread_of s t) \<noteq> RT_EOK
     then Some (dq_status (Ret (thread_error (thread_of s t))), q, s)
     else dq_pop_loop i t timeout q s)"

definition rt_data_queue_peek :: "rt_data_queue \<Rightarrow> int \<times> rt_data_item option" where
  "rt_data_queue_peek q =
    (if is_empty q then (- RT_EEMPTY, None) else (RT_EOK, Some (dq_queue q ! unat (get_index q))))"

definition rt_data_queue_reset :: "oid \<Rightarrow> rt_data_queue \<Rightarrow> kstate \<Rightarrow> rt_data_queue \<times> kstate" where
  "rt_data_queue_reset i q s =
    (let q = q\<lparr> get_index := 0, put_index := 0, is_empty := True, is_full := False \<rparr>;
         s = snd (rt_enter_critical s);
         s = rt_susp_list_resume_all_irq (DqPopQ i) RT_ERROR s;
         s = rt_susp_list_resume_all_irq (DqPushQ i) RT_ERROR s;
         s = rt_exit_critical s
     in (q, rt_schedule s))"

text \<open>The array goes back to the allocator.\<close>

definition rt_data_queue_deinit :: "oid \<Rightarrow> rt_data_queue \<Rightarrow> kstate \<Rightarrow> int \<times> rt_data_queue \<times> kstate" where
  "rt_data_queue_deinit i q s =
    (let (q, s) = rt_data_queue_reset i q s
     in (RT_EOK, q\<lparr> dq_magic := 0, dq_queue := [] \<rparr>, s))"

section \<open>The ring\<close>

definition dq_ok :: "rt_data_queue \<Rightarrow> bool" where
  "dq_ok q \<longleftrightarrow> 0 < unat (dq_size q) \<and> unat (dq_size q) \<le> 2 ^ 15 \<and> unat (dq_size q) \<le> length (dq_queue q)
    \<and> unat (get_index q) < unat (dq_size q) \<and> unat (put_index q) < unat (dq_size q)
    \<and> \<not> (is_empty q \<and> is_full q) \<and> (put_index q = get_index q \<longleftrightarrow> is_empty q \<or> is_full q)"

definition dq_count :: "rt_data_queue \<Rightarrow> nat" where
  "dq_count q = (if is_full q then unat (dq_size q)
     else (unat (put_index q) + unat (dq_size q) - unat (get_index q)) mod unat (dq_size q))"

definition dq_items :: "rt_data_queue \<Rightarrow> rt_data_item list" where
  "dq_items q = ring_words (unat (dq_size q)) (dq_queue q) (unat (get_index q)) (dq_count q)"

lemma length_dq_items [simp]: "length (dq_items q) = dq_count q"
  by (simp add: dq_items_def ring_words_def)

lemma advance_mod:
  assumes "unat k < unat sz" "unat sz \<le> 2 ^ 15"
  shows "unat (advance k sz) = (unat k + 1) mod unat sz"
proof (cases "unat k + 1 = 2 ^ 15")
  case True
  have "k + 1 = (of_nat (unat k + 1) :: 15 word)" by simp
  also have "\<dots> = of_nat (2 ^ 15)" by (simp only: True)
  finally have k: "k + 1 = 0" by simp
  have "unat sz = 2 ^ 15" using assms True by linarith
  moreover from this have "sz \<noteq> 0" by auto
  ultimately show ?thesis using True by (simp add: advance_def k Let_def)
next
  case False
  have "unat k < 2 ^ 15" using unsigned_less[of k] by simp
  then have k: "unat (k + 1) = unat k + 1" using False by (simp add: unat_word_ariths)
  have u: "unat (ucast (k + 1) :: u16) = unat k + 1"
    using k \<open>unat k < 2 ^ 15\<close> False by (simp add: unsigned_ucast_eq take_bit_nat_eq_self)
  have "(ucast (k + 1) = sz) = (unat k + 1 = unat sz)" using u by (metis word_unat_eq_iff)
  then show ?thesis using assms k by (auto simp: advance_def Let_def)
qed

lemma mod_diff_eq:
  fixes p g z :: nat
  assumes "p < z" "g < z"
  shows "(g + (p + z - g) mod z) mod z = p"
proof -
  have "(g + (p + z - g)) mod z = p" using assms by simp
  then show ?thesis by (simp add: mod_add_right_eq)
qed

lemma dq_index:
  assumes "dq_ok q"
  shows "unat (put_index q) = (unat (get_index q) + dq_count q) mod unat (dq_size q)"
    and "dq_count q \<le> unat (dq_size q)" and "is_full q \<longleftrightarrow> dq_count q = unat (dq_size q)" and "is_empty q \<longleftrightarrow> dq_count q = 0"
proof -
  let ?z = "unat (dq_size q)" and ?g = "unat (get_index q)" and ?p = "unat (put_index q)"
  have b: "0 < ?z" "?g < ?z" "?p < ?z" using assms by (auto simp: dq_ok_def)
  have pg: "put_index q = get_index q \<longleftrightarrow> ?p = ?g" by (simp add: word_unat_eq_iff)
  have m: "(?p + ?z - ?g) mod ?z = (if ?g \<le> ?p then ?p - ?g else ?p + ?z - ?g)"
    using b by (auto simp: mod_if)
  show "?p = (?g + dq_count q) mod ?z" using assms b mod_diff_eq[of ?p ?z ?g] pg by (auto simp: dq_count_def dq_ok_def)
  show "dq_count q \<le> ?z" using b by (simp add: dq_count_def order_less_imp_le)
  show "is_full q \<longleftrightarrow> dq_count q = ?z" "is_empty q \<longleftrightarrow> dq_count q = 0"
    using assms b pg m by (auto simp: dq_count_def dq_ok_def split: if_splits)
qed

text \<open>A queue is determined up to its contents by its indices: the way back from indices to counts.\<close>

lemma dq_count_eq:
  assumes "0 < unat (dq_size q)" "unat (get_index q) < unat (dq_size q)" "c \<le> unat (dq_size q)"
    "unat (put_index q) = (unat (get_index q) + c) mod unat (dq_size q)"
    "is_full q \<longleftrightarrow> c = unat (dq_size q)" "is_empty q \<longleftrightarrow> c = 0"
    "unat (dq_size q) \<le> 2 ^ 15" "unat (dq_size q) \<le> length (dq_queue q)"
  shows "dq_ok q" and "dq_count q = c"
proof -
  let ?z = "unat (dq_size q)" and ?g = "unat (get_index q)" and ?p = "unat (put_index q)"
  have p: "?p = (if ?g + c < ?z then ?g + c else if c = ?z then ?g else ?g + c - ?z)"
    using assms(1-4) by (auto simp: mod_if)
  have pg: "put_index q = get_index q \<longleftrightarrow> ?p = ?g" by (simp add: word_unat_eq_iff)
  show "dq_ok q" using assms p pg by (auto simp: dq_ok_def split: if_splits)
  have "(?p + ?z - ?g) mod ?z = (if ?g \<le> ?p then ?p - ?g else ?p + ?z - ?g)"
    using p assms by (auto simp: mod_if)
  then show "dq_count q = c" using assms p by (auto simp: dq_count_def split: if_splits)
qed

lemma dq_store_fields:
  "dq_size (dq_store it q) = dq_size q" "dq_lwm (dq_store it q) = dq_lwm q" "get_index (dq_store it q) = get_index q"
  "put_index (dq_store it q) = advance (put_index q) (dq_size q)" "is_empty (dq_store it q) = False"
  "is_full (dq_store it q) = (is_full q \<or> advance (put_index q) (dq_size q) = get_index q)"
  "dq_queue (dq_store it q) = (dq_queue q)[unat (put_index q) := it]" "evt_notify (dq_store it q) = evt_notify q"
  by (auto simp: dq_store_def Let_def)

lemma dq_fetch_fields:
  "dq_size (dq_fetch q) = dq_size q" "dq_lwm (dq_fetch q) = dq_lwm q" "put_index (dq_fetch q) = put_index q"
  "get_index (dq_fetch q) = advance (get_index q) (dq_size q)" "is_full (dq_fetch q) = False"
  "is_empty (dq_fetch q) = (is_empty q \<or> put_index q = advance (get_index q) (dq_size q))"
  "dq_queue (dq_fetch q) = dq_queue q" "evt_notify (dq_fetch q) = evt_notify q"
  by (auto simp: dq_fetch_def Let_def)

lemma dq_store_spec:
  assumes ok: "dq_ok q" and nf: "\<not> is_full q"
  shows "dq_ok (dq_store it q)" and "dq_items (dq_store it q) = dq_items q @ [it]"
proof -
  let ?q = "dq_store it q" and ?z = "unat (dq_size q)" and ?g = "unat (get_index q)" and ?p = "unat (put_index q)"
  note x = dq_index[OF ok]
  have b: "0 < ?z" "?z \<le> 2 ^ 15" "?z \<le> length (dq_queue q)" "?g < ?z" "?p < ?z" using ok by (auto simp: dq_ok_def)
  have c: "dq_count q < ?z" using x(2,3) nf by linarith
  have a: "unat (advance (put_index q) (dq_size q)) = (?g + (dq_count q + 1)) mod ?z"
    using advance_mod[OF b(5,2)] x(1) by (simp add: mod_Suc_eq)
  have full: "advance (put_index q) (dq_size q) = get_index q \<longleftrightarrow> dq_count q + 1 = ?z"
    unfolding word_unat_eq_iff a using b c by (auto simp: mod_if)
  have d: "dq_ok ?q" "dq_count ?q = dq_count q + 1"
    by (rule dq_count_eq[where q = ?q and c = "dq_count q + 1"]; use b c a full nf in \<open>simp add: dq_store_fields\<close>)+
  show "dq_ok ?q" by (rule d)
  show "dq_items ?q = dq_items q @ [it]"
    using ring_words_snoc[OF c b(4,3), of it] x(1) by (simp add: dq_items_def d dq_store_fields)
qed

lemma dq_fetch_spec:
  assumes ok: "dq_ok q" and ne: "\<not> is_empty q"
  shows "dq_ok (dq_fetch q)" and "dq_items q = dq_queue q ! unat (get_index q) # dq_items (dq_fetch q)"
proof -
  let ?q = "dq_fetch q" and ?z = "unat (dq_size q)" and ?g = "unat (get_index q)" and ?p = "unat (put_index q)"
  note x = dq_index[OF ok]
  have b: "0 < ?z" "?z \<le> 2 ^ 15" "?z \<le> length (dq_queue q)" "?g < ?z" "?p < ?z" using ok by (auto simp: dq_ok_def)
  obtain c where c: "dq_count q = Suc c" using x(4) ne by (cases "dq_count q") auto
  have a: "unat (advance (get_index q) (dq_size q)) = (?g + 1) mod ?z" by (rule advance_mod[OF b(4,2)])
  have p: "?p = ((?g + 1) mod ?z + c) mod ?z" using x(1) c by (simp add: mod_add_left_eq)
  have empty: "put_index q = advance (get_index q) (dq_size q) \<longleftrightarrow> c = 0"
    unfolding word_unat_eq_iff a p using b x(2) c by (auto simp: mod_if)
  have d: "dq_ok ?q" "dq_count ?q = c"
    by (rule dq_count_eq[where q = ?q and c = c]; use b c a p x(2) empty ne in \<open>simp add: dq_fetch_fields\<close>)+
  show "dq_ok ?q" by (rule d)
  show "dq_items q = dq_queue q ! ?g # dq_items ?q"
    using ring_words_Cons[OF b(4), of "dq_queue q" c] by (simp add: dq_items_def d dq_fetch_fields c a)
qed

text \<open>The length that the code computes in 16 bits.\<close>

lemma dq_len_spec:
  assumes "dq_ok q"
  shows "unat (rt_data_queue_len q) = dq_count q"
proof -
  let ?z = "unat (dq_size q)" and ?g = "unat (get_index q)" and ?p = "unat (put_index q)"
  have b: "0 < ?z" "?z \<le> 2 ^ 15" "?g < ?z" "?p < ?z" using assms by (auto simp: dq_ok_def)
  have u: "unat (ucast (put_index q) :: u16) = ?p" "unat (ucast (get_index q) :: u16) = ?g"
    using b by (simp_all add: unsigned_ucast_eq take_bit_nat_eq_self)
  have lt: "put_index q > get_index q \<longleftrightarrow> ?p > ?g" by (simp add: word_less_nat_alt)
  have s: "unat (ucast (put_index q) - ucast (get_index q) :: u16) = ?p - ?g" if "?p > ?g"
    using that u by (simp add: unat_sub word_le_nat_alt)
  have a: "unat (dq_size q + ucast (put_index q)) = ?z + ?p"
    using b u by (simp add: unat_word_ariths)
  have t: "unat (dq_size q + ucast (put_index q) - ucast (get_index q)) = ?z + ?p - ?g"
    using a u b by (simp add: unat_sub word_le_nat_alt)
  have m: "(?p + ?z - ?g) mod ?z = (if ?g \<le> ?p then ?p - ?g else ?p + ?z - ?g)" using b by (auto simp: mod_if)
  have pg: "put_index q = get_index q \<longleftrightarrow> ?p = ?g" by (simp add: word_unat_eq_iff)
  show ?thesis
  proof (cases "is_empty q")
    case True
    then show ?thesis using dq_index(4)[OF assms] by (simp add: rt_data_queue_len_def)
  next
    case False
    then have "is_full q \<longleftrightarrow> ?p = ?g" using assms pg by (auto simp: dq_ok_def)
    then show ?thesis using False s t m lt by (cases "?p > ?g") (auto simp: rt_data_queue_len_def dq_count_def)
  qed
qed

section \<open>Calls\<close>

lemma push_loop_room: "\<not> is_full q \<Longrightarrow> dq_push_loop i t it timeout q s = Some (dq_put i it q s)"
  by (subst dq_push_loop.simps) simp

lemma push_room: "\<not> is_full q \<Longrightarrow> rt_data_queue_push i it timeout q s = Some (dq_put i it q s)"
  by (simp add: rt_data_queue_push_def push_loop_room split: option.splits)

lemma push_no_time: "is_full q \<Longrightarrow> rt_data_queue_push i it 0 q s = Some (dq_status (Ret (- RT_ETIMEOUT)), q, s)"
  by (subst rt_data_queue_push_def, subst dq_push_loop.simps) (simp split: option.splits)

lemma pop_loop_data: "\<not> is_empty q \<Longrightarrow> dq_pop_loop i t timeout q s = Some (dq_take i q s)"
  by (subst dq_pop_loop.simps) simp

lemma pop_data: "\<not> is_empty q \<Longrightarrow> rt_data_queue_pop i timeout q s = Some (dq_take i q s)"
  by (simp add: rt_data_queue_pop_def pop_loop_data split: option.splits)

lemma pop_no_time: "is_empty q \<Longrightarrow> rt_data_queue_pop i 0 q s = Some (dq_status (Ret (- RT_ETIMEOUT)), q, s)"
  by (subst rt_data_queue_pop_def, subst dq_pop_loop.simps) (simp split: option.splits)

lemma dq_put_data: "dq_put i it q s = (a, q', s') \<Longrightarrow> dq_ret a = Ret RT_EOK \<and> q' = dq_store it q"
  by (auto simp: dq_put_def Let_def split: prod.splits option.splits)

lemma dq_take_data:
  "dq_take i q s = (a, q', s') \<Longrightarrow> dq_ret a = Ret RT_EOK \<and> dq_item a = Some (dq_queue q ! unat (get_index q)) \<and> q' = dq_fetch q"
  by (auto simp: dq_take_def Let_def split: prod.splits option.splits if_splits)

text \<open>What waking one waiting producer does.\<close>

definition wake_pusher :: "oid \<Rightarrow> kstate \<Rightarrow> kstate" where
  "wake_pusher i s = (case rt_susp_list_dequeue (DqPushQ i) RT_THREAD_RESUME_RES_THR_ERR s of
     (Some _, s) \<Rightarrow> rt_schedule s | (None, s) \<Rightarrow> s)"

lemma dq_put_state: "snd (snd (dq_put i it q s)) = wake_pusher i s"
  by (simp add: dq_put_def wake_pusher_def Let_def split: prod.splits option.splits)

lemma dq_take_state:
  "snd (snd (dq_take i q s)) = (if rt_data_queue_len (dq_fetch q) \<le> dq_lwm q then wake_pusher i s else s)"
  by (simp add: dq_take_def wake_pusher_def Let_def dq_fetch_fields)

lemma wake_pusher_spec:
  assumes k: "kernel_inv s"
  shows "kernel_inv (wake_pusher i s)"
    and "wait_list m \<Longrightarrow> thread_lists (wake_pusher i s) m = (if m = DqPushQ i then tl (thread_lists s m) else thread_lists s m)"
    and "thread_lists s (DqPushQ i) = t # ts \<Longrightarrow> \<not> suspended (wake_pusher i s) t"
    and "u \<notin> set (take 1 (thread_lists s (DqPushQ i))) \<Longrightarrow> suspended (wake_pusher i s) u = suspended s u"
proof -
  have "kernel_inv (wake_pusher i s)
    \<and> (wait_list m \<longrightarrow> thread_lists (wake_pusher i s) m = (if m = DqPushQ i then tl (thread_lists s m) else thread_lists s m))
    \<and> (thread_lists s (DqPushQ i) = t # ts \<longrightarrow> \<not> suspended (wake_pusher i s) t)
    \<and> (u \<notin> set (take 1 (thread_lists s (DqPushQ i))) \<longrightarrow> suspended (wake_pusher i s) u = suspended s u)"
  proof (cases "thread_lists s (DqPushQ i)")
    case Nil
    then show ?thesis using k by (simp add: wake_pusher_def dequeue_empty)
  next
    case (Cons x xs)
    note d = dequeue_schedule[OF k _ Cons, where e = RT_THREAD_RESUME_RES_THR_ERR]
    have "wake_pusher i s = rt_schedule (snd (rt_susp_list_dequeue (DqPushQ i) RT_THREAD_RESUME_RES_THR_ERR s))"
      using d(1) by (auto simp: wake_pusher_def split: prod.splits)
    then show ?thesis using d Cons by auto
  qed
  then show "kernel_inv (wake_pusher i s)"
    "wait_list m \<Longrightarrow> thread_lists (wake_pusher i s) m = (if m = DqPushQ i then tl (thread_lists s m) else thread_lists s m)"
    "thread_lists s (DqPushQ i) = t # ts \<Longrightarrow> \<not> suspended (wake_pusher i s) t"
    "u \<notin> set (take 1 (thread_lists s (DqPushQ i))) \<Longrightarrow> suspended (wake_pusher i s) u = suspended s u" by blast+
qed

section \<open>Properties\<close>

text \<open>C21: A data queue is a bounded first-in first-out queue of items, for every size up to 32768: a push
  onto a queue that is not full appends the item, a pop from one that is not empty answers and
  removes the oldest item, whatever the timeout; a peek answers it without removing it; the length and the two flags are right; and without
  time to wait a push onto a full and a pop from an empty queue answer a timeout and change nothing.\<close>

theorem data_queue_is_fifo:
  assumes "dq_ok q"
  shows "(\<not> is_full q \<longrightarrow> (\<exists>a q' s'. rt_data_queue_push i it timeout q s = Some (a, q', s')
        \<and> dq_ret a = Ret RT_EOK \<and> dq_ok q' \<and> dq_items q' = dq_items q @ [it]))
    \<and> (\<not> is_empty q \<longrightarrow> (\<exists>a q' s' x. rt_data_queue_pop i timeout q s = Some (a, q', s')
        \<and> dq_ret a = Ret RT_EOK \<and> dq_item a = Some x \<and> dq_ok q' \<and> dq_items q = x # dq_items q'))
    \<and> rt_data_queue_peek q = (if dq_items q = [] then (- RT_EEMPTY, None) else (RT_EOK, Some (hd (dq_items q))))
    \<and> unat (rt_data_queue_len q) = length (dq_items q)
    \<and> (is_full q \<longleftrightarrow> length (dq_items q) = unat (dq_size q)) \<and> (is_empty q \<longleftrightarrow> dq_items q = [])
    \<and> (is_full q \<longrightarrow> rt_data_queue_push i it 0 q s = Some (dq_status (Ret (- RT_ETIMEOUT)), q, s))
    \<and> (is_empty q \<longrightarrow> rt_data_queue_pop i 0 q s = Some (dq_status (Ret (- RT_ETIMEOUT)), q, s))"
proof (intro conjI impI)
  have e: "is_empty q \<longleftrightarrow> dq_items q = []" using dq_index(4)[OF assms] length_dq_items[of q] by (metis length_0_conv)
  obtain a q' s' where p: "dq_put i it q s = (a, q', s')" by (metis prod_cases3)
  show "\<exists>a q' s'. rt_data_queue_push i it timeout q s = Some (a, q', s')
      \<and> dq_ret a = Ret RT_EOK \<and> dq_ok q' \<and> dq_items q' = dq_items q @ [it]" if "\<not> is_full q"
    using push_room[OF that, of i it timeout s] p dq_put_data[OF p] dq_store_spec[OF assms that, of it] by auto
  obtain b q2 s2 where t: "dq_take i q s = (b, q2, s2)" by (metis prod_cases3)
  show "\<exists>a q' s' x. rt_data_queue_pop i timeout q s = Some (a, q', s')
      \<and> dq_ret a = Ret RT_EOK \<and> dq_item a = Some x \<and> dq_ok q' \<and> dq_items q = x # dq_items q'" if "\<not> is_empty q"
    using pop_data[OF that, of i timeout s] t dq_take_data[OF t] dq_fetch_spec[OF assms that] by auto
  show "rt_data_queue_peek q = (if dq_items q = [] then (- RT_EEMPTY, None) else (RT_EOK, Some (hd (dq_items q))))"
    using e dq_fetch_spec(2)[OF assms] by (auto simp: rt_data_queue_peek_def)
  show "unat (rt_data_queue_len q) = length (dq_items q)" using dq_len_spec[OF assms] by simp
  show "is_full q \<longleftrightarrow> length (dq_items q) = unat (dq_size q)" using dq_index(3)[OF assms] by simp
  show "is_empty q \<longleftrightarrow> dq_items q = []" by (rule e)
qed (use push_no_time pop_no_time in auto)

definition demo_dq :: rt_data_queue where
  "demo_dq = \<lparr> dq_magic = DATAQUEUE_MAGIC, dq_size = 2, dq_lwm = 1, get_index = 0, is_empty = True, put_index = 0,
     is_full = False, dq_queue = replicate 2 \<lparr> data_ptr = 0, data_size = 0 \<rparr>, evt_notify = True \<rparr>"

lemma demo_dq_ok: "dq_ok demo_dq"
  by (simp add: dq_ok_def demo_dq_def)

lemma demo_dq_items: "dq_items demo_dq = []"
  by (simp add: dq_items_def dq_count_def ring_words_def demo_dq_def)

theorem data_queue_is_fifo_witness:
  "\<exists>a q' s'. rt_data_queue_push 0 \<lparr> data_ptr = 5, data_size = 8 \<rparr> 10 demo_dq demo_kernel = Some (a, q', s')
     \<and> dq_items q' = [\<lparr> data_ptr = 5, data_size = 8 \<rparr>]"
proof -
  have "\<not> is_full demo_dq" by (simp add: demo_dq_def)
  then show ?thesis
    using data_queue_is_fifo[OF demo_dq_ok, of 0 "\<lparr> data_ptr = 5, data_size = 8 \<rparr>" 10 demo_kernel] demo_dq_items by auto
qed

text \<open>A push does not wake a consumer that waits for data: it serves the list of waiting
  producers instead. The thread at the head of the consumers stays suspended in its list, although the
  queue holds an item for it now.\<close>

theorem data_queue_push_ignores_consumers:
  assumes "kernel_inv s" and "thread_lists s (DqPopQ i) = c # cs" and "dq_ok q" and "is_empty q"
    and "rt_data_queue_push i it timeout q s = Some (a, q', s')"
  shows "dq_ret a = Ret RT_EOK \<and> dq_items q' = [it] \<and> thread_lists s' (DqPopQ i) = c # cs \<and> suspended s' c"
proof -
  have nf: "\<not> is_full q" using assms(3,4) by (auto simp: dq_ok_def)
  then have p: "dq_put i it q s = (a, q', s')" using push_room[OF nf, of i it timeout s] assms(5) by simp
  have s': "s' = wake_pusher i s" using dq_put_state[of i it q s] p by simp
  have c: "suspended s c" using waiter_suspended[OF assms(1), of "DqPopQ i" c] assms(2) by simp
  have "c \<notin> set (thread_lists s (DqPushQ i))" using one_list[OF assms(1), of c "DqPopQ i" "DqPushQ i"] assms(2) by auto
  then have "c \<notin> set (take 1 (thread_lists s (DqPushQ i)))" by (auto dest: in_set_takeD)
  then have "suspended s' c" using wake_pusher_spec(4)[OF assms(1)] c by (simp add: s')
  moreover have "thread_lists s' (DqPopQ i) = c # cs" using wake_pusher_spec(2)[OF assms(1), of "DqPopQ i" i] assms(2) by (simp add: s')
  moreover have "dq_items q = []" using assms(3,4) dq_index(4) length_dq_items[of q] by (metis length_0_conv)
  ultimately show ?thesis using dq_put_data[OF p] dq_store_spec(2)[OF assms(3) nf] by simp
qed

definition demo_consumer :: kstate where
  "demo_consumer = (case rt_data_queue_pop 0 (- 1) demo_dq demo_kernel of Some (_, _, s) \<Rightarrow> s | None \<Rightarrow> demo_kernel)"

text \<open>A call that has to wait blocks: the caller is suspended behind the waiters of its list.\<close>

lemma pop_blocks:
  assumes k: "kernel_inv s" and mb: "may_block s t" and e: "is_empty q" and to: "timeout \<noteq> 0"
  obtains s' where "rt_data_queue_pop i timeout q s = Some (dq_status Blocked, q, s')" and "kernel_inv s'" and "suspended s' t"
    and "thread_lists s' (DqPopQ i) = thread_lists s (DqPopQ i) @ [t]"
proof -
  define s0 where "s0 = upd_thread t (\<lambda>x. x\<lparr> thread_error := RT_EOK \<rparr>) s"
  note b0 = take_error_state[OF k mb, of RT_EOK, folded s0_def]
  define x where "x = rt_schedule (start_wait_timer t timeout
    (snd (rt_thread_suspend_to_list t (Some (DqPopQ i)) RT_IPC_FLAG_FIFO RT_UNINTERRUPTIBLE s0)))"
  note b = block_spec[OF b0, of "DqPopQ i", where flags = RT_IPC_FLAG_FIFO and sf = RT_UNINTERRUPTIBLE and timeout = timeout,
      simplified, folded x_def]
  have self: "rt_thread_self s = Some t" using mb by (simp add: may_block_def rt_thread_self_def)
  have r: "rt_data_queue_pop i timeout q s = Some (dq_status Blocked, q, x)"
    using e to self block_suspends[OF b0(2), of "Some (DqPopQ i)" RT_IPC_FLAG_FIFO RT_UNINTERRUPTIBLE] b(3)
    unfolding rt_data_queue_pop_def
    by (subst dq_pop_loop.simps) (simp add: Let_def s0_def[symmetric] x_def[symmetric])
  have "thread_lists x (DqPopQ i) = thread_lists s (DqPopQ i) @ [t]"
    using b(5)[of "DqPopQ i"] by (simp add: enqueue_order_def s0_def)
  with that[OF r] b(1,2) show thesis by simp
qed

theorem data_queue_push_ignores_consumers_witness:
  "\<exists>a q' s'. rt_data_queue_push 0 \<lparr> data_ptr = 5, data_size = 8 \<rparr> 0 demo_dq demo_consumer = Some (a, q', s')
     \<and> dq_items q' = [\<lparr> data_ptr = 5, data_size = 8 \<rparr>] \<and> suspended s' 1"
proof -
  have e: "is_empty demo_dq" "\<not> is_full demo_dq" by (simp_all add: demo_dq_def)
  obtain s where s: "rt_data_queue_pop 0 (- 1) demo_dq demo_kernel = Some (dq_status Blocked, demo_dq, s)" "kernel_inv s"
    "thread_lists s (DqPopQ 0) = thread_lists demo_kernel (DqPopQ 0) @ [1]"
    by (rule pop_blocks[OF demo_kernel_inv demo_may_block e(1), of "- 1" 0]) auto
  have dc: "demo_consumer = s" by (simp add: demo_consumer_def s(1))
  have l: "thread_lists s (DqPopQ 0) = 1 # []" using s(3) by (simp add: demo_kernel_def)
  obtain a q' s' where p: "rt_data_queue_push 0 \<lparr> data_ptr = 5, data_size = 8 \<rparr> 0 demo_dq s = Some (a, q', s')"
    using push_room[OF e(2)] by (metis prod_cases3)
  show ?thesis using data_queue_push_ignores_consumers[OF s(2) l demo_dq_ok e(1) p] p by (auto simp: dc)
qed

lemma pop_suspended_spins:
  assumes "suspended s t" "is_empty q" "timeout \<noteq> 0"
  shows "dq_pop_loop i t timeout q s = None"
proof -
  have "suspended s t \<longrightarrow> is_empty q \<longrightarrow> timeout = 0" if "dq_pop_loop i t timeout q s = Some y" for i t timeout q s y
  proof (rule dq_pop_loop.raw_induct[OF _ that], intro impI)
    fix loop i t timeout q s y
    assume IH: "\<And>i t timeout q s y. loop i t timeout q s = Some y \<Longrightarrow> suspended s t \<longrightarrow> is_empty q \<longrightarrow> timeout = 0"
      and body: "(if \<not> is_empty q then Some (dq_take i q s)
        else if timeout = 0 then Some (dq_status (Ret (- RT_ETIMEOUT)), q, s)
        else let s = upd_thread t (\<lambda>x. x\<lparr> thread_error := RT_EOK \<rparr>) s;
               r = rt_thread_suspend_to_list t (Some (DqPopQ i)) RT_IPC_FLAG_FIFO RT_UNINTERRUPTIBLE s
           in if fst r \<noteq> RT_EOK then loop i t timeout q (snd r)
              else let s = rt_schedule (start_wait_timer t timeout (snd r))
                in if rt_thread_self s \<noteq> Some t then Some (dq_status Blocked, q, s)
                   else if thread_error (thread_of s t) \<noteq> RT_EOK
                   then Some (dq_status (Ret (thread_error (thread_of s t))), q, s)
                   else loop i t timeout q s) = Some y"
      and sp: "suspended s t" and em: "is_empty q"
    let ?s = "upd_thread t (\<lambda>x. x\<lparr> thread_error := RT_EOK \<rparr>) s"
    have s: "suspended ?s t" using sp by (simp add: suspended_def thread_state_def)
    have f: "rt_thread_suspend_to_list t (Some (DqPopQ i)) RT_IPC_FLAG_FIFO RT_UNINTERRUPTIBLE ?s = (- RT_ERROR, ?s)"
      using suspended_states[OF s]
      by (auto simp: rt_thread_suspend_to_list_def rt_sched_thread_get_stat_def thread_state_def tst_def Let_def)
    show "timeout = 0"
      using body IH[of i t timeout q ?s y] s em f by (auto simp: Let_def RT_EOK_def RT_ERROR_def split: if_splits)
  qed
  then show ?thesis using assms by (metis not_None_eq)
qed

text \<open>A pop from an empty queue by a thread that holds the scheduler lock never returns: the
  thread is suspended but keeps the processor, the second attempt to suspend it fails, and the loop tries again
  for ever, with interrupts disabled. A push onto a full queue in this situation returns an error.\<close>

theorem data_queue_pop_spins_when_locked:
  assumes k: "kernel_inv s" and c: "rt_current_thread s = Some t" and run: "thread_state s t = RT_THREAD_RUNNING"
    and tr: "timer_ready s t" and lock: "rt_scheduler_lock_nest s \<noteq> 0" and to: "timeout \<noteq> 0" and e: "is_empty q"
  shows "rt_data_queue_pop i timeout q s = None"
proof -
  define s0 where "s0 = upd_thread t (\<lambda>x. x\<lparr> thread_error := RT_EOK \<rparr>) s"
  have k0: "kernel_inv s0" unfolding s0_def by (rule neutral_kernel_inv[OF _ _ k]) (simp_all add: sched_neutral_def)
  have run0: "thread_state s0 t \<in> {RT_THREAD_READY, RT_THREAD_RUNNING}" using run by (simp add: s0_def thread_state_def)
  obtain x where x: "rt_thread_suspend_to_list t (Some (DqPopQ i)) RT_IPC_FLAG_FIFO RT_UNINTERRUPTIBLE s0 = (RT_EOK, x)"
    "kernel_inv x" "suspended x t" "thread_error (thread_of x t) = RT_EOK" "rt_current_thread x = Some t"
    "rt_scheduler_lock_nest x \<noteq> 0"
    by (rule suspend_spec[OF k0 run0, where flags = RT_IPC_FLAG_FIFO and sf = RT_UNINTERRUPTIBLE and sl = "Some (DqPopQ i)"])
      (use c lock in \<open>auto simp: s0_def\<close>)
  have trx: "timer_ready x t" using tr x(1) timer_ready_suspend[of t "Some (DqPopQ i)" RT_IPC_FLAG_FIFO RT_UNINTERRUPTIBLE s0 t]
    by (simp add: s0_def)
  define y where "y = start_wait_timer t timeout x"
  note w = start_wait_timer_spec[OF x(2) trx, of timeout, folded y_def]
  have ly: "rt_scheduler_lock_nest y \<noteq> 0"
    using start_wait_timer_0[of timeout t x] start_wait_timer_fields(15)[OF trx, of timeout] x(6) by (cases "timeout > 0") (auto simp: y_def)
  have yy: "rt_schedule y = y" using ly w(10) x(5) by (simp add: rt_schedule_def)
  have ey: "thread_error (thread_of y t) = RT_EOK" using w(4)[of t] x(4) by (simp add: thread_view_def)
  have sy: "suspended y t" using w(3)[of t] x(3) by (simp add: suspended_def)
  have "dq_pop_loop i t timeout q s = dq_pop_loop i t timeout q y"
    using e to x(1) yy ey w(10) x(5)
    by (subst dq_pop_loop.simps) (simp add: Let_def s0_def[symmetric] y_def[symmetric] rt_thread_self_def)
  then show ?thesis using pop_suspended_spins[OF sy e to] c by (simp add: rt_data_queue_pop_def rt_thread_self_def)
qed

theorem data_queue_pop_spins_when_locked_witness:
  "rt_data_queue_pop 0 5 demo_dq (demo_kernel\<lparr> rt_scheduler_lock_nest := 1 \<rparr>) = None"
proof -
  let ?s = "demo_kernel\<lparr> rt_scheduler_lock_nest := 1 \<rparr>"
  have k: "kernel_inv ?s" using demo_kernel_inv kernel_inv_cong[of ?s demo_kernel] by simp
  show ?thesis
    by (rule data_queue_pop_spins_when_locked[OF k, of 1])
      (use demo_may_block in \<open>auto simp: may_block_def thread_state_def timer_ready_def demo_dq_def\<close>)
qed

text \<open>A pop wakes the first waiting producer when it brings the queue down to its low-water mark, and nobody otherwise.\<close>

theorem data_queue_pop_wakes_producer:
  assumes "kernel_inv s" "dq_ok q" "\<not> is_empty q" "thread_lists s (DqPushQ i) = p # ps"
    "rt_data_queue_pop i timeout q s = Some (a, q', s')"
  shows "if length (dq_items q') \<le> unat (dq_lwm q) then \<not> suspended s' p \<and> thread_lists s' (DqPushQ i) = ps else s' = s"
proof -
  have t: "dq_take i q s = (a, q', s')" using pop_data[OF assms(3), of i timeout s] assms(5) by simp
  have q': "q' = dq_fetch q" using dq_take_data[OF t] by simp
  have "rt_data_queue_len (dq_fetch q) \<le> dq_lwm q \<longleftrightarrow> length (dq_items q') \<le> unat (dq_lwm q)"
    using dq_len_spec[OF dq_fetch_spec(1)[OF assms(2,3)]] by (simp add: word_le_nat_alt q')
  then show ?thesis
    using dq_take_state[of i q s] t wake_pusher_spec(2)[OF assms(1), of "DqPushQ i" i]
      wake_pusher_spec(3)[OF assms(1,4)] assms(4) by auto
qed

end
