(* ===== verification/TimerSys.thy ===== *)
theory TimerSys
  imports Semaphore
begin

text \<open>
  The running timer system: the expiry check that the tick interrupt runs
  (\<open>rt_timer_check\<close>), the check and the waiting of the timer thread for soft timers
  (\<open>timer.c\<close>), and the system tick (\<open>clock.c\<close>). User callbacks are a parameter, a
  function from the callback's number and argument to a change of the kernel state.
  The check loop need not end, so it is a partial function.
\<close>

section \<open>Operations\<close>

text \<open>\<open>t->timeout_func(t->parameter)\<close>\<close>

definition call_timeout :: "(nat \<Rightarrow> nat \<Rightarrow> kstate \<Rightarrow> kstate) \<Rightarrow> timer_id \<Rightarrow> kstate \<Rightarrow> kstate" where
  "call_timeout user t s =
    (case timeout_func (timer_of s t) of
       thread_timeout_fn \<Rightarrow> thread_timeout (parameter (timer_of s t)) s
     | user_fn f \<Rightarrow> user f (parameter (timer_of s t)) s)"

definition timer_expired :: "u32 \<Rightarrow> kstate \<Rightarrow> timer_id \<Rightarrow> bool" where
  "timer_expired current_tick s t \<longleftrightarrow> current_tick - timeout_tick (timer_of s t) < RT_TICK_MAX_HALF"

definition push_timer :: "timer_list \<Rightarrow> timer_id \<Rightarrow> kstate \<Rightarrow> kstate" where
  "push_timer l t s = s\<lparr> timer_lists := (timer_lists s)(l := t # timer_lists s l) \<rparr>"

text \<open>One round of the check loop: the timer \<open>t\<close> of list \<open>l\<close> has expired; \<open>lp\<close> is the local list.\<close>

definition expire_timer ::
  "(nat \<Rightarrow> nat \<Rightarrow> kstate \<Rightarrow> kstate) \<Rightarrow> timer_list \<Rightarrow> timer_list \<Rightarrow> timer_id \<Rightarrow> kstate \<Rightarrow> kstate" where
  "expire_timer user l lp t s =
    (let s = timer_remove t s;
         s = (if \<not> flag_set (timer_flag (timer_of s t)) RT_TIMER_FLAG_PERIODIC
              then clear_tflag t RT_TIMER_FLAG_ACTIVATED s else s);
         s = set_tflag t RT_TIMER_FLAG_PROCESSING s;
         s = push_timer lp t s;
         s = call_timeout user t s;
         s = clear_tflag t RT_TIMER_FLAG_PROCESSING s
     in if timer_lists s lp = [] then s
        else
          let s = timer_remove t s
          in if flag_set (timer_flag (timer_of s t)) RT_TIMER_FLAG_PERIODIC \<and>
                flag_set (timer_flag (timer_of s t)) RT_TIMER_FLAG_ACTIVATED
             then snd (timer_start l t (clear_tflag t RT_TIMER_FLAG_ACTIVATED s)) else s)"

partial_function (option) timer_check_loop ::
  "(nat \<Rightarrow> nat \<Rightarrow> kstate \<Rightarrow> kstate) \<Rightarrow> u32 \<Rightarrow> kstate \<Rightarrow> kstate option" where
  "timer_check_loop user current_tick s =
    (case timer_lists s HardTimers of [] \<Rightarrow> Some s
     | t # _ \<Rightarrow>
        if timer_expired current_tick s t then
          let s = expire_timer user HardTimers HardProcessing t s
          in timer_check_loop user (rt_tick_get s) s
        else Some s)"

definition rt_timer_check :: "(nat \<Rightarrow> nat \<Rightarrow> kstate \<Rightarrow> kstate) \<Rightarrow> kstate \<Rightarrow> kstate option" where
  "rt_timer_check user s =
    timer_check_loop user (rt_tick_get s) (s\<lparr> timer_lists := (timer_lists s)(HardProcessing := []) \<rparr>)"

partial_function (option) soft_timer_check_loop ::
  "(nat \<Rightarrow> nat \<Rightarrow> kstate \<Rightarrow> kstate) \<Rightarrow> kstate \<Rightarrow> kstate option" where
  "soft_timer_check_loop user s =
    (case timer_lists s SoftTimers of [] \<Rightarrow> Some s
     | t # _ \<Rightarrow>
        if timer_expired (rt_tick_get s) s t
        then soft_timer_check_loop user (expire_timer user SoftTimers SoftProcessing t s)
        else Some s)"

definition soft_timer_check :: "(nat \<Rightarrow> nat \<Rightarrow> kstate \<Rightarrow> kstate) \<Rightarrow> kstate \<Rightarrow> kstate option" where
  "soft_timer_check user s =
    soft_timer_check_loop user (s\<lparr> timer_lists := (timer_lists s)(SoftProcessing := []) \<rparr>)"

text \<open>The waiting half of a round of \<open>_timer_thread_entry\<close>: no answer when the thread does not wait. The
  thread then runs \<open>_soft_timer_check\<close>.\<close>

definition timer_thread_wait :: "kstate \<Rightarrow> ret option \<times> kstate" where
  "timer_thread_wait s =
    (case timer_list_next_timeout SoftTimers s of
       None \<Rightarrow> apfst Some (rt_sem_take soft_timer_sem (- 1) s)
     | Some next_timeout \<Rightarrow>
        if next_timeout - rt_tick_get s < RT_TICK_MAX_HALF
        then apfst Some (rt_sem_take soft_timer_sem (uint (next_timeout - rt_tick_get s)) s)
        else (None, s))"

definition timer_thread_start :: "kstate \<Rightarrow> int \<times> kstate" where
  "timer_thread_start s = rt_sem_control soft_timer_sem (SEM_SET_VLIMIT 1) s"

definition rt_system_timer_init :: "kstate \<Rightarrow> kstate" where
  "rt_system_timer_init s = s\<lparr> timer_lists := (timer_lists s)(HardTimers := []) \<rparr>"

definition rt_tick_set :: "u32 \<Rightarrow> kstate \<Rightarrow> kstate" where
  "rt_tick_set tick s = s\<lparr> rt_tick := tick \<rparr>"

definition rt_tick_increase :: "(nat \<Rightarrow> nat \<Rightarrow> kstate \<Rightarrow> kstate) \<Rightarrow> kstate \<Rightarrow> kstate option" where
  "rt_tick_increase user s =
    (let s = s\<lparr> rt_tick := rt_tick s + 1 \<rparr>;
         s = snd (rt_sched_tick_increase s)
     in rt_timer_check user s)"

definition RT_TICK_PER_SECOND :: int where "RT_TICK_PER_SECOND = 1000"

text \<open>\<open>ms\<close> is a signed 32-bit integer; the products stay in its range.\<close>

definition rt_tick_from_millisecond :: "int \<Rightarrow> u32" where
  "rt_tick_from_millisecond ms =
    (if ms < 0 then word_of_int (- 1)
     else word_of_int (RT_TICK_PER_SECOND * (ms div 1000)) +
          word_of_int ((RT_TICK_PER_SECOND * (ms mod 1000) + 999) div 1000))"

definition rt_tick_get_millisecond :: "kstate \<Rightarrow> u32" where
  "rt_tick_get_millisecond s = rt_tick_get s * word_of_int (1000 div RT_TICK_PER_SECOND)"

section \<open>Flags\<close>

lemma flag_set_or_iff: "flag_set (f OR m) k \<longleftrightarrow> flag_set f k \<or> flag_set m k"
  by (auto simp: flag_set_def bit_eq_iff bit_simps)

lemma flag_set_andnot_other:
  assumes "m AND k = 0"
  shows "flag_set (f AND NOT m) k = flag_set f k"
proof -
  have "(f AND NOT m) AND k = f AND k"
  proof (rule bit_eqI)
    fix i
    have "\<not> (bit m i \<and> bit k i)" using assms by (metis bit_0_eq bit_and_iff bot_apply bot_bool_def)
    then show "bit ((f AND NOT m) AND k) i = bit (f AND k) i" using bit_imp_le_length[of f i] by (auto simp: bit_simps)
  qed
  then show ?thesis by (simp add: flag_set_def)
qed

lemma timer_flags_apart:
  "RT_TIMER_FLAG_ACTIVATED AND RT_TIMER_FLAG_PERIODIC = 0" "RT_TIMER_FLAG_ACTIVATED AND RT_TIMER_FLAG_PROCESSING = 0"
  "RT_TIMER_FLAG_PROCESSING AND RT_TIMER_FLAG_PERIODIC = 0" "RT_TIMER_FLAG_PROCESSING AND RT_TIMER_FLAG_ACTIVATED = 0"
  "\<not> flag_set RT_TIMER_FLAG_PROCESSING RT_TIMER_FLAG_PERIODIC" "\<not> flag_set RT_TIMER_FLAG_PROCESSING RT_TIMER_FLAG_ACTIVATED"
  "\<not> flag_set RT_TIMER_FLAG_ACTIVATED RT_TIMER_FLAG_PERIODIC" "\<not> flag_set RT_TIMER_FLAG_ACTIVATED RT_TIMER_FLAG_PROCESSING"
  "RT_TIMER_FLAG_ACTIVATED \<noteq> 0"
  by (simp_all add: timer_flag_defs flag_set_def)

lemmas tflag_simps = flag_set_or_iff flag_set_andnot_other timer_flags_apart

section \<open>Quiet callbacks\<close>

text \<open>A callback that does not itself operate on timers. The kernel's own \<open>_thread_timeout\<close> is one.\<close>

definition quiet :: "(nat \<Rightarrow> nat \<Rightarrow> kstate \<Rightarrow> kstate) \<Rightarrow> bool" where
  "quiet user \<longleftrightarrow> (\<forall>f p s. timer_lists (user f p s) = timer_lists s \<and>
     timer_of (user f p s) = timer_of s \<and> rt_tick (user f p s) = rt_tick s)"

lemma thread_timeout_quiet:
  "timer_lists (thread_timeout t s) = timer_lists s" "timer_of (thread_timeout t s) = timer_of s"
  "rt_tick (thread_timeout t s) = rt_tick s"
  by (simp_all add: thread_timeout_def rt_sched_unlock_n_resched_def Let_def)

lemma call_timeout_quiet:
  assumes "quiet user"
  shows "timer_lists (call_timeout user t s) = timer_lists s" "timer_of (call_timeout user t s) = timer_of s"
    "rt_tick (call_timeout user t s) = rt_tick s"
  using assms by (simp_all add: call_timeout_def quiet_def thread_timeout_quiet split: timeout_fn.splits)

section \<open>One expired timer\<close>

abbreviation periodic :: "kstate \<Rightarrow> timer_id \<Rightarrow> bool" where
  "periodic s t \<equiv> flag_set (timer_flag (timer_of s t)) RT_TIMER_FLAG_PERIODIC"

abbreviation activated :: "kstate \<Rightarrow> timer_id \<Rightarrow> bool" where
  "activated s t \<equiv> flag_set (timer_flag (timer_of s t)) RT_TIMER_FLAG_ACTIVATED"

abbreviation processing :: "kstate \<Rightarrow> timer_id \<Rightarrow> bool" where
  "processing s t \<equiv> flag_set (timer_flag (timer_of s t)) RT_TIMER_FLAG_PROCESSING"

lemma timer_start_effect:
  assumes "\<not> processing s t"
  shows "rt_tick (snd (timer_start l t s)) = rt_tick s"
    and "u \<noteq> t \<Longrightarrow> timer_of (snd (timer_start l t s)) u = timer_of s u"
    and "timeout_tick (timer_of (snd (timer_start l t s)) t) = rt_tick s + timer_init_tick (timer_of s t)"
    and "timer_init_tick (timer_of (snd (timer_start l t s)) t) = timer_init_tick (timer_of s t)"
    and "activated (snd (timer_start l t s)) t" and "periodic (snd (timer_start l t s)) t = periodic s t"
    and "\<not> processing (snd (timer_start l t s)) t"
    and "timer_lists (snd (timer_start l t s)) k = (if k = l
      then timer_insert (timer_of (snd (timer_start l t s))) t (removeAll t (timer_lists s l)) else removeAll t (timer_lists s k))"
    and "timeout_func (timer_of (snd (timer_start l t s)) u) = timeout_func (timer_of s u)"
    and "parameter (timer_of (snd (timer_start l t s)) u) = parameter (timer_of s u)"
  using assms
  by (auto simp: timer_start_def timer_remove_def clear_tflag_def set_tflag_def Let_def tflag_simps rt_tick_get_def
      intro!: timer_insert_cong)

lemma expire_effect:
  assumes q: "quiet user" and lp: "l \<noteq> lp" "timer_lists s lp = []" and a: "activated s t"
  defines "s' \<equiv> expire_timer user l lp t s"
  shows "rt_tick s' = rt_tick s" and "u \<noteq> t \<Longrightarrow> timer_of s' u = timer_of s u"
    and "periodic s' t = periodic s t" and "activated s' t = periodic s t" and "\<not> processing s' t"
    and "timeout_tick (timer_of s' t) =
      (if periodic s t then rt_tick s + timer_init_tick (timer_of s t) else timeout_tick (timer_of s t))"
    and "timer_init_tick (timer_of s' t) = timer_init_tick (timer_of s t)"
    and "timer_lists s' lp = []"
    and "timer_lists s' l = (if periodic s t then timer_insert (timer_of s') t (removeAll t (timer_lists s l))
      else removeAll t (timer_lists s l))"
    and "k \<noteq> l \<Longrightarrow> k \<noteq> lp \<Longrightarrow> timer_lists s' k = removeAll t (timer_lists s k)"
    and "timeout_func (timer_of s' u) = timeout_func (timer_of s u)"
    and "parameter (timer_of s' u) = parameter (timer_of s u)"
proof -
  define s1 where "s1 = push_timer lp t (set_tflag t RT_TIMER_FLAG_PROCESSING
    (if \<not> periodic s t then clear_tflag t RT_TIMER_FLAG_ACTIVATED (timer_remove t s) else timer_remove t s))"
  define s2 where "s2 = clear_tflag t RT_TIMER_FLAG_PROCESSING (call_timeout user t s1)"
  define s3 where "s3 = timer_remove t s2"
  note c = call_timeout_quiet[OF q]
  have l2: "timer_lists s2 k = (if k = lp then [t] else removeAll t (timer_lists s k))" for k
    using lp by (simp add: s2_def clear_tflag_def c s1_def push_timer_def set_tflag_def timer_remove_def)
  have f2: "rt_tick s2 = rt_tick s" "u \<noteq> t \<Longrightarrow> timer_of s2 u = timer_of s u"
    "periodic s2 t = periodic s t" "activated s2 t = periodic s t" "\<not> processing s2 t"
    "timeout_tick (timer_of s2 t) = timeout_tick (timer_of s t)" "timer_init_tick (timer_of s2 t) = timer_init_tick (timer_of s t)"
    "timeout_func (timer_of s2 u) = timeout_func (timer_of s u)" "parameter (timer_of s2 u) = parameter (timer_of s u)" for u
    using a by (auto simp: s2_def clear_tflag_def c s1_def push_timer_def set_tflag_def timer_remove_def tflag_simps)
  have f3: "timer_of s3 = timer_of s2" "rt_tick s3 = rt_tick s2" "timer_lists s3 k = removeAll t (timer_lists s2 k)" for k
    by (simp_all add: s3_def timer_remove_def)
  have e: "s' = (if periodic s t then snd (timer_start l t (clear_tflag t RT_TIMER_FLAG_ACTIVATED s3)) else s3)"
    using l2[of lp] f2(3,4) unfolding s'_def expire_timer_def s3_def s2_def s1_def Let_def timer_remove_def
    by (simp add: timer_remove_def)
  define s4 where "s4 = clear_tflag t RT_TIMER_FLAG_ACTIVATED s3"
  have f4: "rt_tick s4 = rt_tick s" "u \<noteq> t \<Longrightarrow> timer_of s4 u = timer_of s u"
    "periodic s4 t = periodic s t" "\<not> processing s4 t"
    "timer_init_tick (timer_of s4 t) = timer_init_tick (timer_of s t)"
    "timeout_func (timer_of s4 u) = timeout_func (timer_of s u)" "parameter (timer_of s4 u) = parameter (timer_of s u)"
    "timer_lists s4 k = timer_lists s3 k" for u k
    using f2 f3(1,2) by (auto simp: s4_def clear_tflag_def tflag_simps)
  note st = timer_start_effect[where l = l, OF f4(4)]
  have ll: "removeAll t (removeAll t xs) = removeAll t xs" for xs :: "timer_id list" by simp
  show "rt_tick s' = rt_tick s" using st(1) f4(1) f3 f2 by (simp add: e s4_def[symmetric])
  show "timer_of s' u = timer_of s u" if "u \<noteq> t" using that st(2)[OF that] f4(2) f3 f2 by (simp add: e s4_def[symmetric])
  show "periodic s' t = periodic s t" using st(6) f4(3) f3 f2 by (simp add: e s4_def[symmetric])
  show "activated s' t = periodic s t" using st(5) f3 f2 by (simp add: e s4_def[symmetric])
  show "\<not> processing s' t" using st(7) f3 f2 by (simp add: e s4_def[symmetric])
  show "timeout_tick (timer_of s' t) =
      (if periodic s t then rt_tick s + timer_init_tick (timer_of s t) else timeout_tick (timer_of s t))"
    using st(3) f4 f3 f2 by (simp add: e s4_def[symmetric])
  show "timer_init_tick (timer_of s' t) = timer_init_tick (timer_of s t)"
    using st(4) f4 f3 f2 by (simp add: e s4_def[symmetric])
  show "timer_lists s' lp = []" using st(8)[of lp] f4(8) f3(3) l2 lp by (simp add: e s4_def[symmetric])
  show "timer_lists s' l = (if periodic s t then timer_insert (timer_of s') t (removeAll t (timer_lists s l))
      else removeAll t (timer_lists s l))"
    using st(8)[of l] f4(8) f3(3) l2[of l] lp by (simp add: e s4_def[symmetric])
  show "timer_lists s' k = removeAll t (timer_lists s k)" if "k \<noteq> l" "k \<noteq> lp"
    using that st(8)[of k] f4(8) f3(3) l2[of k] by (simp add: e s4_def[symmetric])
  show "timeout_func (timer_of s' u) = timeout_func (timer_of s u)" "parameter (timer_of s' u) = parameter (timer_of s u)"
    using st(9,10) f4 f3 f2 by (simp_all add: e s4_def[symmetric])
qed

section \<open>The check loops\<close>

text \<open>Seen from a base tick less than half the range ago, a timer has expired when it was due no later than now.\<close>

lemma expired_iff:
  assumes "now - b < RT_TICK_MAX_HALF" and "due_in b (timer_of s) t < RT_TICK_MAX_HALF"
  shows "timer_expired now s t \<longleftrightarrow> due_in b (timer_of s) t \<le> now - b"
proof -
  define p q where "p = now - b" and "q = due_in b (timer_of s) t"
  have d: "now - timeout_tick (timer_of s t) = p - q" by (simp add: p_def q_def due_in_def)
  have "unat p < 0x7FFFFFFF" "unat q < 0x7FFFFFFF"
    using assms by (simp_all add: p_def q_def RT_TICK_MAX_HALF_def word_less_nat_alt)
  then show ?thesis unfolding timer_expired_def d p_def[symmetric] q_def[symmetric]
    by (auto simp: RT_TICK_MAX_HALF_def word_less_nat_alt word_le_nat_alt unat_sub_if_size word_size split: if_splits)
qed

text \<open>The timers of a list are active, not being processed and in order of expiry from \<open>b\<close> on.\<close>

definition armed :: "u32 \<Rightarrow> timer_list \<Rightarrow> kstate \<Rightarrow> bool" where
  "armed b l s \<longleftrightarrow> timers_ordered b (timer_of s) (timer_lists s l) \<and> distinct (timer_lists s l) \<and>
    (\<forall>t \<in> set (timer_lists s l). activated s t \<and> \<not> processing s t)"

text \<open>A period is not zero and ends within half the range of \<open>b\<close>.\<close>

definition period_ok :: "u32 \<Rightarrow> kstate \<Rightarrow> timer_id \<Rightarrow> bool" where
  "period_ok b s t \<longleftrightarrow> rt_tick s - b < RT_TICK_MAX_HALF \<and> (periodic s t \<longrightarrow>
     rt_tick s - b < rt_tick s + timer_init_tick (timer_of s t) - b \<and>
     rt_tick s + timer_init_tick (timer_of s t) - b < RT_TICK_MAX_HALF)"

definition due :: "timer_list \<Rightarrow> kstate \<Rightarrow> timer_id list" where
  "due l s = filter (timer_expired (rt_tick s) s) (timer_lists s l)"

lemma filter_timer_insert: "\<not> Q t \<Longrightarrow> filter Q (timer_insert T t xs) = filter Q xs"
  by (induction xs) (auto simp: Let_def)

lemma due_cong:
  assumes "rt_tick s' = rt_tick s" and "\<And>t. t \<in> set xs \<Longrightarrow> timeout_tick (timer_of s' t) = timeout_tick (timer_of s t)"
  shows "filter (timer_expired (rt_tick s') s') xs = filter (timer_expired (rt_tick s) s) xs"
  using assms by (intro filter_cong) (auto simp: timer_expired_def)

lemma head_not_due:
  assumes a: "armed b l s" and l: "timer_lists s l = t # ts" and n: "rt_tick s - b < RT_TICK_MAX_HALF"
    and e: "\<not> timer_expired (rt_tick s) s t"
  shows "due l s = []"
proof -
  have o: "timers_ordered b (timer_of s) (t # ts)" using a l by (simp add: armed_def)
  have d: "due_in b (timer_of s) u < RT_TICK_MAX_HALF \<and> due_in b (timer_of s) t \<le> due_in b (timer_of s) u" if "u \<in> set (t # ts)" for u
    using o that by (auto simp: timers_ordered_def)
  have "\<not> due_in b (timer_of s) t \<le> rt_tick s - b" using expired_iff[OF n] d[of t] e by simp
  then have "\<not> timer_expired (rt_tick s) s u" if "u \<in> set (t # ts)" for u
    using expired_iff[OF n] d[OF that] by (meson order_trans)
  then show ?thesis by (simp add: due_def l)
qed

text \<open>What a check leaves behind when it starts in \<open>s\<close>.\<close>

definition checked :: "u32 \<Rightarrow> timer_list \<Rightarrow> timer_list \<Rightarrow> kstate \<Rightarrow> kstate \<Rightarrow> bool" where
  "checked b l lp s s' \<longleftrightarrow> armed b l s' \<and> timer_lists s' lp = [] \<and> rt_tick s' = rt_tick s \<and> due l s' = [] \<and>
    (\<forall>t. timer_of s' t = timer_of s t \<or> t \<in> set (due l s)) \<and>
    (\<forall>t \<in> set (due l s). activated s' t = periodic s t \<and> \<not> processing s' t \<and>
      (periodic s t \<longrightarrow> timeout_tick (timer_of s' t) = rt_tick s + timer_init_tick (timer_of s t))) \<and>
    set (timer_lists s' l) = {t \<in> set (timer_lists s l). t \<in> set (due l s) \<longrightarrow> periodic s t}"

lemma round_effect:
  assumes q: "quiet user" and lp: "l \<noteq> lp" "timer_lists s lp = []" and a: "armed b l s"
    and pk: "\<forall>t \<in> set (timer_lists s l). period_ok b s t" and l: "timer_lists s l = t # ts"
    and e: "timer_expired (rt_tick s) s t"
  defines "s' \<equiv> expire_timer user l lp t s"
  shows "armed b l s'" and "timer_lists s' lp = []" and "rt_tick s' = rt_tick s"
    and "\<forall>u \<in> set (timer_lists s' l). period_ok b s' u" and "due l s = t # due l s'"
    and "set (timer_lists s' l) = {u \<in> set (timer_lists s l). u = t \<longrightarrow> periodic s t}"
proof -
  have act: "activated s t" and dis: "t \<notin> set ts" "distinct ts" using a l by (auto simp: armed_def)
  note x = expire_effect[OF q lp act, folded s'_def]
  have p: "period_ok b s t" using pk l by simp
  have rest: "removeAll t (timer_lists s l) = ts" using l dis by simp
  have same: "timeout_tick (timer_of s' u) = timeout_tick (timer_of s u)" if "u \<in> set ts" for u
  proof -
    have "u \<noteq> t" using that dis by auto
    then show ?thesis using x(2)[of u] by simp
  qed
  have ots: "timers_ordered b (timer_of s) ts" using a l by (simp add: armed_def timers_ordered_def)
  then have ots': "timers_ordered b (timer_of s') ts" using timers_ordered_cong[of ts "timer_of s'" "timer_of s"] same by simp
  have dt: "due_in b (timer_of s') t = rt_tick s + timer_init_tick (timer_of s t) - b" if "periodic s t"
    using x(6) that by (simp add: due_in_def)
  have dh: "due_in b (timer_of s') t < RT_TICK_MAX_HALF" if "periodic s t" using dt[OF that] p that by (simp add: period_ok_def)
  have ll: "timer_lists s' l = (if periodic s t then timer_insert (timer_of s') t ts else ts)" using x(9) rest by simp
  show "timer_lists s' lp = []" "rt_tick s' = rt_tick s" by (rule x(8), rule x(1))
  show sets: "set (timer_lists s' l) = {u \<in> set (timer_lists s l). u = t \<longrightarrow> periodic s t}"
    using ll l dis by auto
  have fl: "activated s' u \<and> \<not> processing s' u" if "u \<in> set (timer_lists s' l)" for u
  proof (cases "u = t")
    case True
    then show ?thesis using that sets x(4,5) by auto
  next
    case False
    then show ?thesis using that sets x(2)[OF False] a by (auto simp: armed_def)
  qed
  show "armed b l s'"
    using ots' dis timer_insert_ordered[OF ots' dh] fl distinct_timer_insert[of ts t] by (auto simp: armed_def ll)
  show "\<forall>u \<in> set (timer_lists s' l). period_ok b s' u"
  proof
    fix u assume "u \<in> set (timer_lists s' l)"
    then have "period_ok b s u" using sets pk by auto
    then show "period_ok b s' u" using x(1,2,3,7) by (cases "u = t") (auto simp: period_ok_def)
  qed
  have ne: "\<not> timer_expired (rt_tick s') s' t" if "periodic s t"
    using expired_iff[of "rt_tick s'" b s' t] dh[OF that] dt[OF that] p that x(1) by (auto simp: period_ok_def)
  have "due l s' = filter (timer_expired (rt_tick s') s') ts"
    using ll ne filter_timer_insert[of "timer_expired (rt_tick s') s'" t] by (simp add: due_def)
  also have "\<dots> = filter (timer_expired (rt_tick s) s) ts" by (rule due_cong[OF x(1) same])
  finally show "due l s = t # due l s'" using e by (simp add: due_def l)
qed

lemma checked_step:
  assumes q: "quiet user" and lp: "l \<noteq> lp" "timer_lists s lp = []" and a: "armed b l s"
    and pk: "\<forall>t \<in> set (timer_lists s l). period_ok b s t" and l: "timer_lists s l = t # ts"
    and e: "timer_expired (rt_tick s) s t" and ch: "checked b l lp (expire_timer user l lp t s) s'"
  shows "checked b l lp s s'"
proof -
  define s1 where "s1 = expire_timer user l lp t s"
  note r = round_effect[OF q lp a pk l e, folded s1_def]
  have act: "activated s t" using a l by (simp add: armed_def)
  note x = expire_effect[OF q lp act, folded s1_def]
  have dd: "distinct (due l s)" using a by (simp add: armed_def due_def)
  then have td: "t \<notin> set (due l s1)" using r(5) by simp
  have c: "armed b l s'" "timer_lists s' lp = []" "rt_tick s' = rt_tick s1" "due l s' = []"
    "\<And>u. timer_of s' u = timer_of s1 u \<or> u \<in> set (due l s1)"
    "\<And>u. u \<in> set (due l s1) \<Longrightarrow> activated s' u = periodic s1 u \<and> \<not> processing s' u \<and>
      (periodic s1 u \<longrightarrow> timeout_tick (timer_of s' u) = rt_tick s1 + timer_init_tick (timer_of s1 u))"
    "set (timer_lists s' l) = {u \<in> set (timer_lists s1 l). u \<in> set (due l s1) \<longrightarrow> periodic s1 u}"
    using ch unfolding checked_def s1_def by blast+
  have per: "periodic s1 u = periodic s u" "timer_init_tick (timer_of s1 u) = timer_init_tick (timer_of s u)" for u
    using x(2,3,7) by (cases "u = t"; simp)+
  have t': "timer_of s' t = timer_of s1 t" using c(5)[of t] td by blast
  show ?thesis unfolding checked_def
  proof (intro conjI)
    show "\<forall>u. timer_of s' u = timer_of s u \<or> u \<in> set (due l s)"
    proof
      fix u
      show "timer_of s' u = timer_of s u \<or> u \<in> set (due l s)" using c(5)[of u] x(2)[of u] r(5) by (cases "u = t") auto
    qed
    show "\<forall>u \<in> set (due l s). activated s' u = periodic s u \<and> \<not> processing s' u \<and>
      (periodic s u \<longrightarrow> timeout_tick (timer_of s' u) = rt_tick s + timer_init_tick (timer_of s u))"
      using c(6) per x(1,4,5,6) t' r(5) by auto
    show "set (timer_lists s' l) = {u \<in> set (timer_lists s l). u \<in> set (due l s) \<longrightarrow> periodic s u}"
      using c(7) r(5,6) per td by auto
  qed (use c(1-4) x(1) in auto)
qed

text \<open>Both checks are this loop.\<close>

locale expiry_check =
  fixes user :: "nat \<Rightarrow> nat \<Rightarrow> kstate \<Rightarrow> kstate" and l lp :: timer_list and loop :: "kstate \<Rightarrow> kstate option"
  assumes local_list: "l \<noteq> lp"
    and unfold: "loop s = (case timer_lists s l of [] \<Rightarrow> Some s
      | t # _ \<Rightarrow> if timer_expired (rt_tick s) s t then loop (expire_timer user l lp t s) else Some s)"
begin

lemma fires_due:
  assumes q: "quiet user" and "armed b l s" and "timer_lists s lp = []"
    and "\<forall>t \<in> set (timer_lists s l). period_ok b s t"
  shows "loop s = Some (fold (expire_timer user l lp) (due l s) s)"
    and "checked b l lp s (fold (expire_timer user l lp) (due l s) s)"
proof -
  have "loop s = Some (fold (expire_timer user l lp) (due l s) s) \<and> checked b l lp s (fold (expire_timer user l lp) (due l s) s)"
    using assms(2-4)
  proof (induction "due l s" arbitrary: s)
    case Nil
    then have "loop s = Some s"
      by (subst unfold) (auto simp: due_def filter_empty_conv split: list.splits)
    then show ?case using Nil by (auto simp: checked_def)
  next
    case (Cons t d)
    then obtain u us where l: "timer_lists s l = u # us" by (cases "timer_lists s l") (auto simp: due_def)
    have n: "rt_tick s - b < RT_TICK_MAX_HALF" using Cons.prems(3) l by (simp add: period_ok_def)
    have e: "timer_expired (rt_tick s) s u" using head_not_due[OF Cons.prems(1) l n] Cons.hyps(2) by force
    note r = round_effect[OF q local_list Cons.prems(2,1,3) l e]
    define s1 where "s1 = expire_timer user l lp u s"
    have td: "u = t" "d = due l s1" using r(5) Cons.hyps(2) by (auto simp: s1_def)
    note ih = Cons.hyps(1)[OF td(2)] r(1,2,4)[folded s1_def]
    define s' where "s' = fold (expire_timer user l lp) (due l s1) s1"
    have lo: "loop s1 = Some s'" and ch: "checked b l lp s1 s'" using ih by (simp_all add: s'_def)
    have f: "fold (expire_timer user l lp) (due l s) s = s'" using r(5) by (simp add: s'_def s1_def)
    have "loop s = Some s'" using e lo by (subst unfold) (simp add: l s1_def)
    moreover have "checked b l lp s s'"
      using checked_step[OF q local_list Cons.prems(2,1,3) l e, folded s1_def, OF ch] .
    ultimately show ?case unfolding f by simp
  qed
  then show "loop s = Some (fold (expire_timer user l lp) (due l s) s)"
    "checked b l lp s (fold (expire_timer user l lp) (due l s) s)" by auto
qed

end

interpretation hard: expiry_check user HardTimers HardProcessing "\<lambda>s. timer_check_loop user (rt_tick s) s" for user
  by unfold_locales (simp, subst timer_check_loop.simps, simp add: rt_tick_get_def Let_def split: list.splits)

interpretation soft: expiry_check user SoftTimers SoftProcessing "soft_timer_check_loop user" for user
  by unfold_locales (simp, subst soft_timer_check_loop.simps, simp add: rt_tick_get_def split: list.splits)

section \<open>Properties of the check\<close>

text \<open>C15: With callbacks that leave timers and the tick alone (\<open>quiet\<close>: no callback starts, stops, changes or detaches a
  timer or sets the tick) and, in each list, periods that are not zero and timeouts and periods that end within half the tick range of a common
  base tick (\<open>armed\<close>, \<open>period_ok\<close>), the two expiry checks end, and call exactly the timers that are due, once each and in order of expiry, also
  across the wrap-around of the tick counter: afterwards no timer of the list is due, the list
  is in order, each one-shot timer that was due is inactive and gone, each periodic one is armed
  again for one period from now, and every other timer is as before. (A due periodic timer of period zero makes the
  check run forever: \<open>timer_check_zero_period_hangs\<close>. A callback that stops or starts its own timer is the
  subject of \<open>callback_stops_own_timer\<close> and \<open>callback_start_refused\<close>.)\<close>

theorem timer_check_fires_due:
  assumes "quiet user"
    and "armed b HardTimers s" "timer_lists s HardProcessing = []" "\<forall>t \<in> set (timer_lists s HardTimers). period_ok b s t"
    and "armed c SoftTimers s" "timer_lists s SoftProcessing = []" "\<forall>t \<in> set (timer_lists s SoftTimers). period_ok c s t"
  shows "(\<exists>s'. rt_timer_check user s = Some s' \<and> checked b HardTimers HardProcessing s s' \<and>
      s' = fold (expire_timer user HardTimers HardProcessing) (due HardTimers s) s) \<and>
    (\<exists>s'. soft_timer_check user s = Some s' \<and> checked c SoftTimers SoftProcessing s s' \<and>
      s' = fold (expire_timer user SoftTimers SoftProcessing) (due SoftTimers s) s)"
proof -
  have "s\<lparr> timer_lists := (timer_lists s)(HardProcessing := []) \<rparr> = s"
    "s\<lparr> timer_lists := (timer_lists s)(SoftProcessing := []) \<rparr> = s"
    using assms(3,6) by (simp_all add: fun_upd_idem)
  then show ?thesis
    using hard.fires_due[OF assms(1-4)] soft.fires_due[OF assms(1,5-7)]
    by (auto simp: rt_timer_check_def soft_timer_check_def rt_tick_get_def)
qed

text \<open>A periodic timer with period zero that is alone and due.\<close>

definition zero_period :: "timer_id \<Rightarrow> kstate \<Rightarrow> bool" where
  "zero_period t s \<longleftrightarrow> timer_lists s HardTimers = [t] \<and> timer_lists s HardProcessing = [] \<and> periodic s t \<and>
    activated s t \<and> timer_init_tick (timer_of s t) = 0 \<and> timer_expired (rt_tick s) s t"

lemma zero_period_step:
  assumes q: "quiet user" and z: "zero_period t s"
  shows "zero_period t (expire_timer user HardTimers HardProcessing t s)"
proof -
  have z': "timer_lists s HardProcessing = []" "activated s t" using z by (simp_all add: zero_period_def)
  note x = expire_effect[OF q _ z', of HardTimers]
  show ?thesis using z x by (simp add: zero_period_def timer_expired_def RT_TICK_MAX_HALF_def)
qed

text \<open>A due periodic timer whose period is zero makes the check in the tick interrupt run forever: the call
  never returns.\<close>

theorem timer_check_zero_period_hangs:
  assumes q: "quiet user" and z: "zero_period t s"
  shows "rt_timer_check user s = None"
proof -
  have never: "\<not> zero_period t s" if "timer_check_loop user c s = Some s'" "c = rt_tick s" for c s s'
  proof -
    have "u = user \<longrightarrow> c = rt_tick s \<longrightarrow> \<not> zero_period t s" if "timer_check_loop u c s = Some s'" for u c s s'
    proof (rule timer_check_loop.raw_induct[OF _ that])
      fix loop u c s s'
      assume IH: "\<And>u c s s'. loop u c s = Some s' \<Longrightarrow> u = user \<longrightarrow> c = rt_tick s \<longrightarrow> \<not> zero_period t s"
        and body: "(case timer_lists s HardTimers of [] \<Rightarrow> Some s
          | t # _ \<Rightarrow> if timer_expired c s t
             then let s = expire_timer u HardTimers HardProcessing t s in loop u (rt_tick_get s) s else Some s) = Some s'"
      show "u = user \<longrightarrow> c = rt_tick s \<longrightarrow> \<not> zero_period t s"
      proof (intro impI notI)
        assume u: "u = user" and c: "c = rt_tick s" and zs: "zero_period t s"
        let ?s = "expire_timer user HardTimers HardProcessing t s"
        have "loop user (rt_tick ?s) ?s = Some s'" using body u c zs by (simp add: zero_period_def rt_tick_get_def Let_def)
        then show False using IH zero_period_step[OF q zs] by blast
      qed
    qed
    then show ?thesis using that by blast
  qed
  have "s\<lparr> timer_lists := (timer_lists s)(HardProcessing := []) \<rparr> = s"
    using z by (simp add: zero_period_def fun_upd_idem)
  then show ?thesis using never[of "rt_tick s" s] z by (cases "rt_timer_check user s") (auto simp: rt_timer_check_def rt_tick_get_def)
qed

text \<open>\<open>rt_tick_from_millisecond\<close> is exact for this tick rate over the whole range of its argument, and answers the
  largest tick for a negative one.\<close>

theorem tick_from_millisecond_exact:
  assumes "ms < 2 ^ 31"
  shows "uint (rt_tick_from_millisecond ms) = (if ms < 0 then 2 ^ 32 - 1 else ms)"
proof (cases "ms < 0")
  case True
  have "uint (- 1 :: u32) = 2 ^ 32 - 1" by code_simp
  then show ?thesis using True by (simp add: rt_tick_from_millisecond_def)
next
  case False
  have "rt_tick_from_millisecond ms = word_of_int (1000 * (ms div 1000)) + word_of_int ((1000 * (ms mod 1000) + 999) div 1000)"
    using False unfolding rt_tick_from_millisecond_def RT_TICK_PER_SECOND_def by simp
  also have "\<dots> = word_of_int (1000 * (ms div 1000) + (1000 * (ms mod 1000) + 999) div 1000)" by (rule wi_hom_add)
  also have "1000 * (ms div 1000) + (1000 * (ms mod 1000) + 999) div 1000 = ms" by simp
  finally have "rt_tick_from_millisecond ms = word_of_int ms" .
  then show ?thesis using False assms by (simp add: uint_word_of_int)
qed

section \<open>Threads that wait with a timeout\<close>

text \<open>The state in which the callback of an expired timer runs.\<close>

definition in_callback :: "timer_list \<Rightarrow> timer_id \<Rightarrow> kstate \<Rightarrow> kstate" where
  "in_callback lp t s = push_timer lp t (set_tflag t RT_TIMER_FLAG_PROCESSING
    (if \<not> periodic s t then clear_tflag t RT_TIMER_FLAG_ACTIVATED (timer_remove t s) else timer_remove t s))"

lemma in_callback_fields [simp]:
  "thread_lists (in_callback lp t s) = thread_lists s" "thread_of (in_callback lp t s) = thread_of s"
  "rt_thread_ready_priority_group (in_callback lp t s) = rt_thread_ready_priority_group s"
  "rt_current_thread (in_callback lp t s) = rt_current_thread s"
  "u \<noteq> t \<Longrightarrow> timer_of (in_callback lp t s) u = timer_of s u"
  "timeout_func (timer_of (in_callback lp t s) u) = timeout_func (timer_of s u)"
  "parameter (timer_of (in_callback lp t s) u) = parameter (timer_of s u)"
  by (auto simp: in_callback_def push_timer_def set_tflag_def clear_tflag_def timer_remove_def)

lemma expire_threads:
  "thread_lists (expire_timer user l lp t s) = thread_lists (call_timeout user t (in_callback lp t s))"
  "thread_of (expire_timer user l lp t s) = thread_of (call_timeout user t (in_callback lp t s))"
  "rt_thread_ready_priority_group (expire_timer user l lp t s) = rt_thread_ready_priority_group (call_timeout user t (in_callback lp t s))"
  "rt_current_thread (expire_timer user l lp t s) = rt_current_thread (call_timeout user t (in_callback lp t s))"
  by (simp_all add: expire_timer_def Let_def in_callback_def clear_tflag_def timer_remove_def)

text \<open>A callback that stops its own timer: the timer is in no list and inactive afterwards, periodic or not, and every other timer
  and the rest of every list are as before.\<close>

theorem callback_stops_own_timer:
  assumes fn: "timeout_func (timer_of s t) = user_fn f" and us: "\<And>p s. user f p s = snd (rt_timer_stop t s)"
    and lp: "l \<noteq> lp" "timer_lists s lp = []"
  defines "s' \<equiv> expire_timer user l lp t s"
  shows "\<not> activated s' t \<and> \<not> processing s' t \<and> (\<forall>k. timer_lists s' k = removeAll t (timer_lists s k)) \<and>
    (\<forall>u. u \<noteq> t \<longrightarrow> timer_of s' u = timer_of s u) \<and> rt_tick s' = rt_tick s"
proof -
  define s1 where "s1 = in_callback lp t s"
  define s2 where "s2 = clear_tflag t RT_TIMER_FLAG_PROCESSING (snd (rt_timer_stop t s1))"
  have call: "call_timeout user t s1 = snd (rt_timer_stop t s1)" using fn us by (simp add: call_timeout_def s1_def)
  have l1: "timer_lists s1 k = (if k = lp then [t] else removeAll t (timer_lists s k))" for k
    using lp by (simp add: s1_def in_callback_def push_timer_def set_tflag_def clear_tflag_def timer_remove_def)
  have act: "\<not> activated s2 t" "\<not> processing s2 t"
    by (simp_all add: s2_def rt_timer_stop_def clear_tflag_def timer_remove_def tflag_simps Let_def)
  have l2: "timer_lists s2 k = (if k = lp \<and> \<not> activated s1 t then [t] else removeAll t (timer_lists s k))" for k
    using lp l1 by (simp add: s2_def rt_timer_stop_def clear_tflag_def timer_remove_def)
  have "s' = (if timer_lists s2 lp = [] then s2 else timer_remove t s2)"
    using act unfolding s'_def expire_timer_def s2_def call[symmetric] unfolding s1_def in_callback_def Let_def
    by (simp add: timer_remove_def)
  then have "timer_of s' = timer_of s2" "timer_lists s' k = removeAll t (timer_lists s k)" "rt_tick s' = rt_tick s2" for k
    using l2[of k] lp by (auto simp: timer_remove_def)
  moreover have "u \<noteq> t \<Longrightarrow> timer_of s2 u = timer_of s u" "rt_tick s2 = rt_tick s" for u
    by (simp_all add: s2_def rt_timer_stop_def s1_def in_callback_def push_timer_def set_tflag_def clear_tflag_def timer_remove_def)
  ultimately show ?thesis using act by simp
qed

text \<open>A callback cannot start its own timer again: while it runs the timer counts as being processed, and \<open>rt_timer_start\<close> answers
  an error and changes nothing.\<close>

theorem callback_start_refused: "rt_timer_start (Timer i) (in_callback lp (Timer i) s) = (- RT_ERROR, in_callback lp (Timer i) s)"
proof -
  have "processing (in_callback lp (Timer i) s) (Timer i)"
    by (simp add: in_callback_def push_timer_def set_tflag_def flag_set_or_iff flag_set_def timer_flag_defs)
  then show ?thesis by (simp add: rt_timer_start_def timer_start_def RT_EOK_def RT_ERROR_def)
qed

lemma suspended_cong: "thread_of s' = thread_of s \<Longrightarrow> suspended s' u = suspended s u"
  by (simp add: suspended_def thread_state_def)

text \<open>A callback that leaves timers and waiting threads alone.\<close>

definition calm :: "(nat \<Rightarrow> nat \<Rightarrow> kstate \<Rightarrow> kstate) \<Rightarrow> bool" where
  "calm user \<longleftrightarrow> quiet user \<and> (\<forall>f p s. kernel_inv s \<longrightarrow> kernel_inv (user f p s) \<and>
     (\<forall>u. suspended (user f p s) u = suspended s u \<and> thread_error (thread_of (user f p s) u) = thread_error (thread_of s u)))"

text \<open>Every timer in the list of the tick interrupt that belongs to a thread belongs to a suspended one, and
  only those call \<open>_thread_timeout\<close>.\<close>

definition sleep_ok :: "kstate \<Rightarrow> bool" where
  "sleep_ok s \<longleftrightarrow> kernel_inv s \<and>
    (\<forall>t. timeout_func (timer_of s (ThreadTimer t)) = thread_timeout_fn \<and> parameter (timer_of s (ThreadTimer t)) = t \<and>
      \<not> periodic s (ThreadTimer t)) \<and>
    (\<forall>i. timeout_func (timer_of s (Timer i)) \<noteq> thread_timeout_fn) \<and>
    (\<forall>t. ThreadTimer t \<in> set (timer_lists s HardTimers) \<longrightarrow> suspended s t)"

lemma thread_timeout_others:
  assumes "sched_inv s" and sp: "suspended s t"
  shows "suspended (thread_timeout t s) u = (suspended s u \<and> u \<noteq> t)"
    and "thread_error (thread_of (thread_timeout t s) u) = (if u = t then - RT_ETIMEOUT else thread_error (thread_of s u))"
proof -
  define s1 where "s1 = upd_thread t (\<lambda>x. x\<lparr> thread_error := - RT_ETIMEOUT \<rparr>) s"
  define s2 where "s2 = rt_sched_insert_thread t (unlink_thread t s1)"
  have e: "thread_timeout t s = rt_sched_unlock_n_resched s2" by (simp add: thread_timeout_def s1_def s2_def Let_def)
  have st1: "thread_state s1 u = thread_state s u" for u by (simp add: s1_def thread_state_def)
  have i1: "sched_inv s1"
    using assms(1) neutral_inv(3)[of s t "\<lambda>x. x\<lparr> thread_error := - RT_ETIMEOUT \<rparr>"] by (simp add: s1_def sched_neutral_def)
  have sp1: "suspended s1 t" using sp st1 by (simp add: suspended_def)
  note mr = make_ready_inv[OF i1 sp1, folded s2_def]
  have "suspended s2 u = (suspended s u \<and> u \<noteq> t)"
    using mr(2)[of u] st1[of u] by (auto simp: suspended_def stat_defs)
  then show "suspended (thread_timeout t s) u = (suspended s u \<and> u \<noteq> t)"
    using schedule_states(1)[OF mr(1), of u] by (simp add: e rt_sched_unlock_n_resched_def)
  have sb: "same_but_stat (thread_of s2 u) (thread_of (thread_timeout t s) u)"
    using schedule_same_but_stat[of s2 u] by (simp add: e rt_sched_unlock_n_resched_def)
  have sb2: "same_but_stat (thread_of s1 u) (thread_of s2 u)"
    using insert_same_but_stat[of "unlink_thread t s1" u t] by (simp add: s2_def)
  show "thread_error (thread_of (thread_timeout t s) u) = (if u = t then - RT_ETIMEOUT else thread_error (thread_of s u))"
    using same_but_stat_simps(1)[OF sb] same_but_stat_simps(1)[OF sb2] by (simp add: s1_def)
qed

lemma expire_sleep:
  assumes c: "calm user" and s: "sleep_ok s" and x: "x \<in> set (timer_lists s HardTimers)" and a: "activated s x"
    and lp: "timer_lists s HardProcessing = []"
  defines "s' \<equiv> expire_timer user HardTimers HardProcessing x s"
  shows "sleep_ok s'" and "suspended s' u = (suspended s u \<and> x \<noteq> ThreadTimer u)"
    and "thread_error (thread_of s' u) = (if x = ThreadTimer u then - RT_ETIMEOUT else thread_error (thread_of s u))"
proof -
  have q: "quiet user" using c by (simp add: calm_def)
  note ee = expire_effect[where l = HardTimers and lp = HardProcessing, OF q _ lp a, folded s'_def, simplified]
  define s1 where "s1 = in_callback HardProcessing x s"
  define s2 where "s2 = call_timeout user x s1"
  note et = expire_threads[of user HardTimers HardProcessing x s, folded s'_def s1_def, folded s2_def]
  have k: "kernel_inv s" "sched_inv s" "ttmr_ok s" using s by (simp_all add: sleep_ok_def kernel_inv_def)
  have k1: "sched_inv s1" using k(2) sched_inv_cong[of s1 s] by (simp add: s1_def)
  have sp1: "suspended s1 u = suspended s u" for u by (rule suspended_cong) (simp add: s1_def)
  have su': "suspended s' u = suspended s2 u" for u by (rule suspended_cong) (rule et(2))
  have main: "sched_inv s2 \<and> ttmr_ok s' \<and> suspended s2 u = (suspended s u \<and> x \<noteq> ThreadTimer u) \<and>
    thread_error (thread_of s2 u) = (if x = ThreadTimer u then - RT_ETIMEOUT else thread_error (thread_of s u))" for u
  proof (cases x)
    case (ThreadTimer t)
    have s2: "s2 = thread_timeout t s1" using s ThreadTimer by (simp add: s2_def call_timeout_def s1_def sleep_ok_def)
    have spt: "suspended s1 t" using s x ThreadTimer sp1 by (simp add: sleep_ok_def)
    have tx: "ttmr_ok_except t s1" using k(3) ThreadTimer sp1 by (auto simp: ttmr_ok_def ttmr_ok_except_def s1_def)
    note tt = thread_timeout_spec[OF k1 tx spt] and to = thread_timeout_others[OF k1 spt]
    have "ttmr_ok s'" unfolding ttmr_ok_def
    proof (intro allI impI)
      fix u assume u: "suspended s' u" "sched_flag_ttmr_set (thread_of s' u)"
      then have "u \<noteq> t" "suspended s2 u" using to(1)[of u] su' s2 by auto
      moreover have "ttmr_ok s2" using tt(1) s2 by (simp add: kernel_inv_def)
      ultimately have "flag_set (timer_flag (timer_of s1 (ThreadTimer u))) RT_TIMER_FLAG_ACTIVATED"
        using u(2) et(2) tt(5) s2 by (auto simp: ttmr_ok_def)
      then show "activated s' (ThreadTimer u)" using \<open>u \<noteq> t\<close> ee(2)[of "ThreadTimer u"] ThreadTimer by (simp add: s1_def)
    qed
    then show ?thesis using tt(1) to ThreadTimer sp1 s2 by (auto simp: kernel_inv_def s1_def)
  next
    case (Timer i)
    then obtain f where f: "timeout_func (timer_of s x) = user_fn f" using s by (cases "timeout_func (timer_of s x)") (auto simp: sleep_ok_def)
    have s2: "s2 = user f (parameter (timer_of s x)) s1" using f by (simp add: s2_def call_timeout_def s1_def)
    have "ttmr_ok s1" using k(3) sp1 Timer by (auto simp: ttmr_ok_def s1_def)
    then have "kernel_inv s1" using k1 by (simp add: kernel_inv_def)
    then have u: "kernel_inv s2" "suspended s2 u = suspended s1 u" "thread_error (thread_of s2 u) = thread_error (thread_of s1 u)" for u
      using c s2 by (auto simp: calm_def)
    have t2: "timer_of s2 = timer_of s1" using call_timeout_quiet(2)[OF q] by (simp add: s2_def)
    have "ttmr_ok s'" unfolding ttmr_ok_def
    proof (intro allI impI)
      fix v assume v: "suspended s' v" "sched_flag_ttmr_set (thread_of s' v)"
      then have "activated s2 (ThreadTimer v)" using u(1) su' et(2) by (auto simp: kernel_inv_def ttmr_ok_def)
      then show "activated s' (ThreadTimer v)" using ee(2)[of "ThreadTimer v"] t2 Timer by (simp add: s1_def)
    qed
    then show ?thesis using u sp1 Timer by (auto simp: kernel_inv_def s1_def)
  qed
  have ki: "kernel_inv s'" using main sched_inv_cong[OF et] by (simp add: kernel_inv_def)
  show sp: "suspended s' u = (suspended s u \<and> x \<noteq> ThreadTimer u)" for u using main su' by simp
  show "thread_error (thread_of s' u) = (if x = ThreadTimer u then - RT_ETIMEOUT else thread_error (thread_of s u))"
    using main et(2) by simp
  have per: "periodic s' u = periodic s u" for u using ee(2,3) by (cases "u = x") auto
  have lst: "set (timer_lists s' HardTimers) \<subseteq> set (timer_lists s HardTimers)" using ee(9) x by auto
  have "suspended s' t" if "ThreadTimer t \<in> set (timer_lists s' HardTimers)" for t
  proof -
    have "x \<noteq> ThreadTimer t" using that ee(9) s by (auto simp: sleep_ok_def)
    then show ?thesis using sp that lst s by (auto simp: sleep_ok_def)
  qed
  then show "sleep_ok s'" using ki s per ee(11,12) by (auto simp: sleep_ok_def)
qed

lemma sched_tick_frame:
  assumes "sched_inv s"
  defines "s' \<equiv> snd (rt_sched_tick_increase s)"
  shows "timer_lists s' = timer_lists s" and "timer_of s' = timer_of s" and "rt_tick s' = rt_tick s"
    and "suspended s' u = suspended s u" and "thread_error (thread_of s' u) = thread_error (thread_of s u)"
    and "sched_flag_ttmr_set (thread_of s' u) = sched_flag_ttmr_set (thread_of s u)"
proof -
  have all: "timer_lists s' = timer_lists s \<and> timer_of s' = timer_of s \<and> rt_tick s' = rt_tick s \<and>
    suspended s' u = suspended s u \<and> thread_error (thread_of s' u) = thread_error (thread_of s u) \<and>
    sched_flag_ttmr_set (thread_of s' u) = sched_flag_ttmr_set (thread_of s u)"
  proof (cases "rt_thread_self s")
    case None
    then show ?thesis by (simp add: s'_def rt_sched_tick_increase_def)
  next
    case (Some t)
    define s1 where "s1 = upd_thread t (\<lambda>x. x\<lparr> remaining_tick := remaining_tick x - 1 \<rparr>) s"
    define s2 where "s2 = snd (rt_sched_thread_yield t s1)"
    have i: "sched_inv s1" using assms(1) neutral_inv(3)[of s t "\<lambda>x. x\<lparr> remaining_tick := remaining_tick x - 1 \<rparr>"]
      by (simp add: s1_def sched_neutral_def)
    have i2: "sched_inv s2" using i yield_inv[of t s1] by (simp add: s2_def)
    have e: "s' = (if remaining_tick (thread_of s1 t) \<noteq> 0 then s1 else rt_sched_unlock_n_resched s2)"
      using Some by (simp add: s'_def rt_sched_tick_increase_def s1_def s2_def Let_def)
    have st: "suspended s1 u = suspended s u" "suspended s2 u = suspended s u"
      by (auto simp: suspended_def thread_state_def s2_def rt_sched_thread_yield_def s1_def)
    have sb: "same_but_stat (thread_of s2 u) (thread_of (rt_schedule s2) u)" by (rule schedule_same_but_stat)
    show ?thesis using st schedule_states(1)[OF i2, of u] same_but_stat_simps(1,2)[OF sb]
      by (simp add: e rt_sched_unlock_n_resched_def) (auto simp: s2_def rt_sched_thread_yield_def s1_def)
  qed
  then show "timer_lists s' = timer_lists s" "timer_of s' = timer_of s" "rt_tick s' = rt_tick s"
    "suspended s' u = suspended s u" "thread_error (thread_of s' u) = thread_error (thread_of s u)"
    "sched_flag_ttmr_set (thread_of s' u) = sched_flag_ttmr_set (thread_of s u)" by auto
qed

lemma fold_expire_sleep:
  assumes c: "calm user" and "sleep_ok s" and "set xs \<subseteq> set (timer_lists s HardTimers)" and "distinct xs"
    and "\<forall>x \<in> set xs. activated s x" and "timer_lists s HardProcessing = []"
  defines "s' \<equiv> fold (expire_timer user HardTimers HardProcessing) xs s"
  shows "sleep_ok s' \<and> (\<forall>u. suspended s' u = (suspended s u \<and> ThreadTimer u \<notin> set xs)) \<and>
    (\<forall>u. thread_error (thread_of s' u) = (if ThreadTimer u \<in> set xs then - RT_ETIMEOUT else thread_error (thread_of s u)))"
  using assms(2-6) unfolding s'_def
proof (induction xs arbitrary: s)
  case (Cons x xs)
  define s1 where "s1 = expire_timer user HardTimers HardProcessing x s"
  have x: "x \<in> set (timer_lists s HardTimers)" "activated s x" "timer_lists s HardProcessing = []" using Cons.prems by auto
  note e = expire_sleep[OF c Cons.prems(1) x, folded s1_def]
  have q: "quiet user" using c by (simp add: calm_def)
  note ee = expire_effect[where l = HardTimers and lp = HardProcessing, OF q _ x(3,2), folded s1_def, simplified]
  have "set xs \<subseteq> set (timer_lists s1 HardTimers)" using Cons.prems(2,3) ee(9) by auto
  moreover have "\<forall>y \<in> set xs. activated s1 y" using Cons.prems(3,4) ee(2) by (metis distinct.simps(2) list.set_intros(2))
  ultimately have "sleep_ok (fold (expire_timer user HardTimers HardProcessing) xs s1) \<and>
    (\<forall>u. suspended (fold (expire_timer user HardTimers HardProcessing) xs s1) u = (suspended s1 u \<and> ThreadTimer u \<notin> set xs)) \<and>
    (\<forall>u. thread_error (thread_of (fold (expire_timer user HardTimers HardProcessing) xs s1) u) =
      (if ThreadTimer u \<in> set xs then - RT_ETIMEOUT else thread_error (thread_of s1 u)))"
    using Cons.IH[OF e(1)] Cons.prems(3) ee(8) by simp
  then show ?case using e(2,3) by (auto simp: s1_def)
qed simp

text \<open>What a tick does to the thread \<open>t\<close>.\<close>

definition tick_effect :: "kstate \<Rightarrow> kstate \<Rightarrow> tid \<Rightarrow> bool" where
  "tick_effect s s' t =
    (let woken = (ThreadTimer t \<in> set (timer_lists s HardTimers) \<and> timer_expired (rt_tick s + 1) s (ThreadTimer t)) in
      suspended s' t = (suspended s t \<and> \<not> woken) \<and>
      thread_error (thread_of s' t) = (if woken then - RT_ETIMEOUT else thread_error (thread_of s t)) \<and>
      (ThreadTimer t \<in> set (timer_lists s' HardTimers) \<longleftrightarrow> ThreadTimer t \<in> set (timer_lists s HardTimers) \<and> \<not> woken) \<and>
      (\<not> woken \<longrightarrow> timer_of s' (ThreadTimer t) = timer_of s (ThreadTimer t)))"

lemma tick_effects:
  assumes c: "calm user" and s: "sleep_ok s" and a: "armed b HardTimers s" and lp: "timer_lists s HardProcessing = []"
    and pk: "\<forall>t \<in> set (timer_lists s HardTimers). period_ok b (s\<lparr> rt_tick := rt_tick s + 1 \<rparr>) t"
  shows "\<exists>s'. rt_tick_increase user s = Some s' \<and> rt_tick s' = rt_tick s + 1 \<and> sleep_ok s' \<and> armed b HardTimers s' \<and>
    timer_lists s' HardProcessing = [] \<and> (\<forall>t. tick_effect s s' t)"
proof -
  define s0 where "s0 = s\<lparr> rt_tick := rt_tick s + 1 \<rparr>"
  define s1 where "s1 = snd (rt_sched_tick_increase s0)"
  have k: "sched_inv s" "ttmr_ok s" using s by (simp_all add: sleep_ok_def kernel_inv_def)
  have i0: "sched_inv s0" using k(1) sched_inv_cong[of s0 s] by (simp add: s0_def)
  have sp0: "suspended s0 u = suspended s u" for u by (rule suspended_cong) (simp add: s0_def)
  note f = sched_tick_frame[OF i0, folded s1_def]
  have f0: "timer_lists s1 = timer_lists s" "timer_of s1 = timer_of s" "rt_tick s1 = rt_tick s + 1"
    "suspended s1 u = suspended s u" "thread_error (thread_of s1 u) = thread_error (thread_of s u)" for u
    using f sp0 by (auto simp: s0_def)
  have "sched_inv s1" using tick_increase_inv[OF i0] by (simp add: s1_def)
  moreover have "ttmr_ok s1" using k(2) f f0(4) by (auto simp: ttmr_ok_def s0_def)
  ultimately have so: "sleep_ok s1" using s f0 by (auto simp: sleep_ok_def kernel_inv_def)
  have a1: "armed b HardTimers s1" using a by (simp add: armed_def f0(1,2))
  have pk1: "\<forall>t \<in> set (timer_lists s1 HardTimers). period_ok b s1 t" using pk by (simp add: period_ok_def f0)
  have lp1: "timer_lists s1 HardProcessing = []" using lp f0 by simp
  have q: "quiet user" using c by (simp add: calm_def)
  define d where "d = due HardTimers s1"
  define s' where "s' = fold (expire_timer user HardTimers HardProcessing) d s1"
  have "s1\<lparr> timer_lists := (timer_lists s1)(HardProcessing := []) \<rparr> = s1" using lp1 by (simp add: fun_upd_idem)
  then have r: "rt_tick_increase user s = Some s'"
    using hard.fires_due(1)[OF q a1 lp1 pk1] by (simp add: rt_tick_increase_def rt_timer_check_def Let_def s'_def d_def s1_def s0_def rt_tick_get_def)
  have ch: "checked b HardTimers HardProcessing s1 s'" using hard.fires_due(2)[OF q a1 lp1 pk1] by (simp add: s'_def d_def)
  have dd: "set d \<subseteq> set (timer_lists s1 HardTimers)" "distinct d" "\<forall>x \<in> set d. activated s1 x"
    using a1 by (auto simp: d_def due_def armed_def)
  note fs = fold_expire_sleep[OF c so dd lp1, folded s'_def]
  have w: "ThreadTimer t \<in> set d \<longleftrightarrow> ThreadTimer t \<in> set (timer_lists s HardTimers) \<and> timer_expired (rt_tick s + 1) s (ThreadTimer t)" for t
    by (auto simp: d_def due_def f0 timer_expired_def)
  have np: "\<not> periodic s1 (ThreadTimer t)" for t using so by (simp add: sleep_ok_def)
  have c1: "armed b HardTimers s'" "rt_tick s' = rt_tick s1" "timer_lists s' HardProcessing = []"
    "\<And>t. ThreadTimer t \<notin> set d \<Longrightarrow> timer_of s' (ThreadTimer t) = timer_of s1 (ThreadTimer t)"
    "\<And>t. ThreadTimer t \<in> set (timer_lists s' HardTimers) \<longleftrightarrow> ThreadTimer t \<in> set (timer_lists s1 HardTimers) \<and> ThreadTimer t \<notin> set d"
    using ch np by (auto simp: checked_def d_def)
  show ?thesis using r c1 fs w f0 by (intro exI[of _ s']) (auto simp: Let_def tick_effect_def)
qed

text \<open>C16: When no user callback that runs in the tick wakes or suspends a thread, changes an error field or touches timers (\<open>calm\<close>), and the
  timers of the list end within half the tick range of a common base tick, with no period of zero (\<open>armed\<close>, \<open>period_ok\<close>), in a state of the kernel where the thread timers in the list belong to suspended threads (\<open>sleep_ok\<close>), a tick wakes
  exactly the threads whose timeout has come: it ends, advances the tick by one, keeps the
  kernel invariant and the timer list, a waiting thread is made ready if and only if its timer is in the list and due
  at the new tick, a thread woken this way finds \<open>-RT_ETIMEOUT\<close> in its error field, and no other error field changes. (The
  kernel's own callback \<open>_thread_timeout\<close> is not a user callback; a callback such as \<open>_delayed_work_timeout_handler\<close>, which wakes the worker of its queue, is
  not calm, and a tick that runs it may wake that worker too.)\<close>

theorem tick_wakes_due_threads:
  assumes "calm user" and "sleep_ok s" and "armed b HardTimers s" and "timer_lists s HardProcessing = []"
    and "\<forall>t \<in> set (timer_lists s HardTimers). period_ok b (s\<lparr> rt_tick := rt_tick s + 1 \<rparr>) t"
  shows "\<exists>s'. rt_tick_increase user s = Some s' \<and> rt_tick s' = rt_tick s + 1 \<and> sleep_ok s' \<and> armed b HardTimers s' \<and>
    timer_lists s' HardProcessing = [] \<and> (\<forall>t. tick_effect s s' t)"
  by (rule tick_effects[OF assms])

section \<open>The timer thread\<close>

text \<open>The timer thread never sleeps past a soft timer: when its semaphore has no token it waits without limit only if no
  soft timer is active; if the earliest one is still to come, it sleeps with its own timer armed for exactly that tick; and if
  one is due already it goes on at once, without changing the state.\<close>

theorem timer_thread_sleeps_until_next:
  assumes k: "kernel_inv s" and mb: "may_block s t" and z: "sem_value (sem_of s soft_timer_sem) = 0"
  shows "let (r, s') = timer_thread_wait s; now = rt_tick s in
    (case timer_lists s SoftTimers of
       [] \<Rightarrow> r = Some Blocked \<and> suspended s' t \<and> kernel_inv s'
     | x # _ \<Rightarrow>
        let next = timeout_tick (timer_of s x) in
        if next - now \<noteq> 0 \<and> next - now < RT_TICK_MAX_HALF
        then r = Some Blocked \<and> suspended s' t \<and> kernel_inv s' \<and>
          ThreadTimer t \<in> set (timer_lists s' HardTimers) \<and> timeout_tick (timer_of s' (ThreadTimer t)) = next
        else (r = None \<or> r = Some (Ret (- RT_ETIMEOUT))) \<and> s' = s)"
proof (cases "timer_lists s SoftTimers")
  case Nil
  have w: "timer_thread_wait s = apfst Some (sem_take soft_timer_sem (- 1) RT_UNINTERRUPTIBLE s)"
    using Nil by (simp add: timer_thread_wait_def timer_list_next_timeout_def rt_sem_take_def)
  note b = sem_take_blocks[OF k mb z, of "- 1", where sf = RT_UNINTERRUPTIBLE, simplified]
  show ?thesis using b(1,2,3) Nil
    by (cases "sem_take soft_timer_sem (- 1) RT_UNINTERRUPTIBLE s") (simp add: w Let_def)
next
  case (Cons x xs)
  define nx where "nx = timeout_tick (timer_of s x)"
  show ?thesis
  proof (cases "nx - rt_tick s \<noteq> 0 \<and> nx - rt_tick s < RT_TICK_MAX_HALF")
    case True
    define w where "w = uint (nx - rt_tick s)"
    have w0: "w > 0" "w \<noteq> 0" using True uint_nonnegative[of "nx - rt_tick s"] by (auto simp: w_def order_le_less uint_0_iff)
    have e: "timer_thread_wait s = apfst Some (sem_take soft_timer_sem w RT_UNINTERRUPTIBLE s)"
      using Cons True by (simp add: timer_thread_wait_def timer_list_next_timeout_def rt_sem_take_def nx_def rt_tick_get_def w_def)
    note b = sem_take_blocks[OF k mb z w0(2), where sf = RT_UNINTERRUPTIBLE]
    have "rt_tick s + word_of_int w = nx" by (simp add: w_def)
    then show ?thesis using b(1,2,3) b(7)[OF w0(1)] Cons True
      by (cases "sem_take soft_timer_sem w RT_UNINTERRUPTIBLE s") (simp add: e Let_def nx_def[symmetric])
  next
    case False
    then show ?thesis using Cons z
      by (auto simp: timer_thread_wait_def timer_list_next_timeout_def rt_sem_take_def nx_def rt_tick_get_def sem_take_def Let_def
          split: prod.splits)
  qed
qed

section \<open>Witnesses\<close>

text \<open>The example system, with thread 2 waiting for one more tick and a periodic user timer due at the same tick.\<close>

definition demo_timers :: kstate where
  "demo_timers = demo_kernel\<lparr>
     thread_lists := (\<lambda>_. [])(ReadyQ 31 := [0]), rt_thread_ready_priority_group := push_bit 31 1,
     thread_of := (thread_of demo_kernel)(2 := (started_thread 10 RT_THREAD_SUSPEND_UNINTERRUPTIBLE)\<lparr> sched_flag_ttmr_set := True \<rparr>),
     timer_lists := (\<lambda>_. [])(HardTimers := [ThreadTimer 2, Timer 0]),
     timer_of := idle_timer(ThreadTimer 2 := (idle_timer (ThreadTimer 2))\<lparr> timer_flag := RT_TIMER_FLAG_THREAD_TIMER OR RT_TIMER_FLAG_ACTIVATED,
         timeout_tick := 0 \<rparr>,
       Timer 0 := (idle_timer (Timer 0))\<lparr> timer_flag := RT_TIMER_FLAG_PERIODIC OR RT_TIMER_FLAG_ACTIVATED, timeout_tick := 0 \<rparr>),
     rt_tick := 0xFFFFFFFF \<rparr>"

lemma demo_timers_sched: "sched_inv demo_timers"
proof -
  have st: "thread_state demo_timers t = (if t = 0 then RT_THREAD_READY else if t = 1 then RT_THREAD_RUNNING
      else if t = 2 then RT_THREAD_SUSPEND_UNINTERRUPTIBLE else RT_THREAD_INIT)"
    and pr: "prio_index demo_timers t = (if t = 0 then 31 else if t = 1 \<or> t = 2 then 10 else 0)"
    and nm: "number_mask (thread_of demo_timers t) = (if t = 0 then push_bit 31 1 else if t = 1 \<or> t = 2 then push_bit 10 1 else 0)" for t
    by (auto simp: demo_timers_def demo_kernel_def started_thread_def blank_thread_def thread_state_def tst_def stat_defs)
  have li: "thread_lists demo_timers l = (if l = ReadyQ 31 then [0] else [])" "rt_current_thread demo_timers = Some 1"
    "rt_thread_ready_priority_group demo_timers = push_bit 31 1" for l
    by (simp_all add: demo_timers_def demo_kernel_def)
  have "lists_ok demo_timers" by (auto simp: lists_ok_def li split: if_splits)
  moreover have "bitmap_ok demo_timers" unfolding bitmap_ok_def li bit_mask1 by auto
  moreover have "ready_ok demo_timers" by (auto simp: ready_ok_def li st pr stat_defs split: if_splits)
  moreover have "mask_ok demo_timers" by (auto simp: mask_ok_def st pr nm RT_THREAD_PRIORITY_MAX_def split: if_splits)
  moreover have "wait_ok demo_timers" by (auto simp: wait_ok_def li split: if_splits)
  moreover have "run_ok demo_timers" by (auto simp: run_ok_def li st stat_defs split: if_splits)
  ultimately show ?thesis by (simp add: sched_inv_def queue_inv_def)
qed

lemma demo_timers_susp: "suspended demo_timers t \<longleftrightarrow> t = 2"
  by (auto simp: demo_timers_def demo_kernel_def started_thread_def blank_thread_def thread_state_def tst_def stat_defs suspended_def)

lemma demo_timers_ok: "sleep_ok demo_timers" "armed 0xFFFFFFFF HardTimers demo_timers" "timer_lists demo_timers HardProcessing = []"
  "armed 0 SoftTimers demo_timers" "timer_lists demo_timers SoftProcessing = []" "timer_lists demo_timers SoftTimers = []"
  "\<forall>t \<in> set (timer_lists demo_timers HardTimers). period_ok 0xFFFFFFFF demo_timers t"
  "\<forall>t \<in> set (timer_lists demo_timers HardTimers). period_ok 0xFFFFFFFF (demo_timers\<lparr> rt_tick := rt_tick demo_timers + 1 \<rparr>) t"
proof -
  have "ttmr_ok demo_timers" by (auto simp: ttmr_ok_def demo_timers_susp) (simp add: demo_timers_def timer_flag_defs flag_set_def)
  moreover have "timeout_func (timer_of demo_timers (ThreadTimer t)) = thread_timeout_fn"
    "parameter (timer_of demo_timers (ThreadTimer t)) = t" "\<not> periodic demo_timers (ThreadTimer t)"
    "timeout_func (timer_of demo_timers (Timer i)) \<noteq> thread_timeout_fn"
    "ThreadTimer t \<in> set (timer_lists demo_timers HardTimers) \<longleftrightarrow> t = 2" for t i
    by (auto simp: demo_timers_def idle_timer_def timer_flag_defs flag_set_def)
  ultimately show "sleep_ok demo_timers" using demo_timers_sched unfolding sleep_ok_def kernel_inv_def demo_timers_susp by blast
qed (auto simp: armed_def demo_timers_def timers_ordered_def due_in_def RT_TICK_MAX_HALF_def timer_flag_defs flag_set_def
    period_ok_def idle_timer_def)

lemma calm_nothing: "calm (\<lambda>_ _ s. s)" "quiet (\<lambda>_ _ s. s)"
  by (simp_all add: calm_def quiet_def)

theorem timer_check_fires_due_witness:
  "\<exists>s'. rt_timer_check (\<lambda>_ _ s. s) demo_timers = Some s'"
  using timer_check_fires_due[OF calm_nothing(2) demo_timers_ok(2,3,7,4,5)] demo_timers_ok(6) by auto

theorem tick_wakes_due_threads_witness:
  "\<exists>s'. rt_tick_increase (\<lambda>_ _ s. s) demo_timers = Some s' \<and> rt_tick s' = 0 \<and> \<not> suspended s' 2 \<and> suspended demo_timers 2"
proof -
  have w: "ThreadTimer 2 \<in> set (timer_lists demo_timers HardTimers)" "rt_tick demo_timers = 0xFFFFFFFF"
    "timer_expired (rt_tick demo_timers + 1) demo_timers (ThreadTimer 2)"
    by (simp_all add: demo_timers_def timer_expired_def RT_TICK_MAX_HALF_def)
  show ?thesis
    using tick_wakes_due_threads[OF calm_nothing(1) demo_timers_ok(1,2,3,8)] w by (auto simp: Let_def tick_effect_def demo_timers_susp)
qed

theorem timer_check_zero_period_hangs_witness:
  "rt_timer_check (\<lambda>_ _ s. s) (demo_timers\<lparr> timer_lists := (\<lambda>_. [])(HardTimers := [Timer 0]), rt_tick := 0,
     timer_of := (timer_of demo_timers)(Timer 0 := (timer_of demo_timers (Timer 0))\<lparr> timer_init_tick := 0 \<rparr>) \<rparr>) = None"
  by (rule timer_check_zero_period_hangs[OF calm_nothing(2), of "Timer 0"])
    (simp add: zero_period_def demo_timers_def timer_flag_defs flag_set_def timer_expired_def RT_TICK_MAX_HALF_def)

theorem tick_from_millisecond_exact_witness: "uint (rt_tick_from_millisecond 1234) = 1234"
  using tick_from_millisecond_exact[of 1234] by simp

theorem timer_thread_sleeps_until_next_witness:
  "fst (timer_thread_wait demo_kernel) = Some Blocked"
  using timer_thread_sleeps_until_next[OF demo_kernel_inv demo_may_block]
  by (simp add: demo_sem demo_kernel_def Let_def split: prod.splits)

end
