(* ===== verification/ThreadLife.thy ===== *)
theory ThreadLife
  imports Mutex TimerSys
begin

text \<open>
  The life of a thread (\<open>rt-thread/src/thread.c\<close>, \<open>idle.c\<close>): creation, start, sleeping, yielding,
  exit and deletion, and the clean-up of dead threads by the idle thread. The entry
  function and the stack of a thread are not part of its record; whether the
  allocator has a stack for a new thread is an argument. A sleep is split where the
  thread can lose the processor, as the IPC calls are.
\<close>

section \<open>The defunct queue\<close>

definition rt_thread_defunct_enqueue :: "tid \<Rightarrow> kstate \<Rightarrow> kstate" where
  "rt_thread_defunct_enqueue t s = push_thread DefunctQ t s"

definition rt_thread_defunct_dequeue :: "kstate \<Rightarrow> tid option \<times> kstate" where
  "rt_thread_defunct_dequeue s =
    (case thread_lists s DefunctQ of [] \<Rightarrow> (None, s) | t # _ \<Rightarrow> (Some t, unlink_thread t s))"

text \<open>\<open>cleanup\<close> is the clean-up function of the threads, the identity where it is null.\<close>

partial_function (option) rt_defunct_execute :: "(tid \<Rightarrow> kstate \<Rightarrow> kstate) \<Rightarrow> kstate \<Rightarrow> kstate option" where
  "rt_defunct_execute cleanup s =
    (case rt_thread_defunct_dequeue s of
       (None, s) \<Rightarrow> Some s
     | (Some t, s) \<Rightarrow>
        let object_is_systemobject = rt_object_is_systemobject (OThread t) (registry s);
            s = (if object_is_systemobject then s\<lparr> registry := rt_object_detach (OThread t) (registry s) \<rparr> else s);
            s = cleanup t s;
            s = (if \<not> object_is_systemobject then s\<lparr> registry := rt_object_delete (OThread t) (registry s) \<rparr> else s)
        in rt_defunct_execute cleanup s)"

section \<open>Creation\<close>

definition RT_TIMER_FLAG_ONE_SHOT :: u8 where "RT_TIMER_FLAG_ONE_SHOT = 0x0"

definition thread_init :: "tid \<Rightarrow> u8 \<Rightarrow> u32 \<Rightarrow> kstate \<Rightarrow> int \<times> kstate" where
  "thread_init t priority tick s =
    (let s = rt_sched_thread_init_ctx t tick priority s;
         s = upd_thread t (\<lambda>x. x\<lparr> taken_object_list := [], pending_object := None, thread_error := RT_EOK \<rparr>) s
     in (RT_EOK, rt_timer_init (ThreadTimer t) (obj_name (object_of (registry s) (OThread t))) thread_timeout_fn t 0
           (RT_TIMER_FLAG_ONE_SHOT OR RT_TIMER_FLAG_THREAD_TIMER) s))"

definition rt_thread_init :: "tid \<Rightarrow> byte list \<Rightarrow> u8 \<Rightarrow> u32 \<Rightarrow> kstate \<Rightarrow> int \<times> kstate" where
  "rt_thread_init t name priority tick s =
    thread_init t priority tick (s\<lparr> registry := rt_object_init (OThread t) RT_Object_Class_Thread name (registry s) \<rparr>)"

definition rt_thread_startup :: "tid \<Rightarrow> kstate \<Rightarrow> int \<times> kstate" where
  "rt_thread_startup t s = (RT_EOK, snd (rt_thread_resume t (rt_sched_thread_startup t s)))"

text \<open>\<open>addr\<close> and \<open>stack\<close> say whether the allocator has memory for the thread object and for its stack.
  \<open>rt_object_allocate\<close> clears the object, \<open>blank_thread\<close> is a thread of zero bytes.\<close>

definition rt_thread_create :: "tid option \<Rightarrow> bool \<Rightarrow> byte list \<Rightarrow> u8 \<Rightarrow> u32 \<Rightarrow> kstate \<Rightarrow> tid option \<times> kstate" where
  "rt_thread_create addr stack name priority tick s =
    (case addr of None \<Rightarrow> (None, s)
     | Some t \<Rightarrow>
        let s = s\<lparr> registry := snd (rt_object_allocate (Some (OThread t)) RT_Object_Class_Thread name (registry s)) \<rparr>;
            s = upd_thread t (\<lambda>_. blank_thread) s
        in if \<not> stack then (None, s\<lparr> registry := rt_object_delete (OThread t) (registry s) \<rparr>)
           else (Some t, snd (thread_init t priority tick s)))"

section \<open>Exit and deletion\<close>

text \<open>Leaving the critical section takes the processor from a closed thread; the calls of \<open>rt_schedule\<close> that follow it are reached
  only if the thread still runs.\<close>

definition schedule_if_running :: "tid option \<Rightarrow> kstate \<Rightarrow> kstate" where
  "schedule_if_running t s = (if rt_thread_self s = t then rt_schedule s else s)"

definition thread_exit :: "kstate \<Rightarrow> kstate option" where
  "thread_exit s =
    (case rt_thread_self s of None \<Rightarrow> None
     | Some thread \<Rightarrow>
        let (critical_level, s) = rt_enter_critical s;
            s = rt_sched_remove_thread thread s;
            s = snd (rt_timer_detach (ThreadTimer thread) s);
            s = snd (rt_sched_thread_close thread s);
            s = rt_thread_defunct_enqueue thread s;
            s = rt_exit_critical_safe critical_level s
        in Some (schedule_if_running (Some thread) s))"

definition thread_detach_from_mutex :: "tid \<Rightarrow> kstate \<Rightarrow> kstate option" where
  "thread_detach_from_mutex t s =
    (case (case pending_object (thread_of s t) of None \<Rightarrow> Some s
           | Some m \<Rightarrow> map_option (upd_thread t (\<lambda>x. x\<lparr> pending_object := None \<rparr>)) (rt_mutex_drop_thread m t s)) of
       None \<Rightarrow> None
     | Some s \<Rightarrow> Some (fold (\<lambda>m s. snd (rt_mutex_release m s)) (taken_object_list (thread_of s t)) s))"

definition thread_detach :: "tid \<Rightarrow> kstate \<Rightarrow> (int \<times> kstate) option" where
  "thread_detach t s =
    (let (critical_level, s) = rt_enter_critical s;
         thread_status = rt_sched_thread_get_stat t s
     in if thread_status \<noteq> RT_THREAD_CLOSE then
          let s = (if thread_status \<noteq> RT_THREAD_INIT then rt_sched_remove_thread t s else s);
              s = snd (rt_timer_detach (ThreadTimer t) s);
              s = snd (rt_sched_thread_close t s)
          in map_option (\<lambda>s. (RT_EOK, rt_exit_critical_safe critical_level (rt_thread_defunct_enqueue t s)))
               (thread_detach_from_mutex t s)
        else Some (RT_EOK, rt_exit_critical_safe critical_level s))"

definition rt_thread_detach :: "tid \<Rightarrow> kstate \<Rightarrow> (int \<times> kstate) option" where
  "rt_thread_detach t s = thread_detach t s"

definition rt_thread_delete :: "tid \<Rightarrow> kstate \<Rightarrow> (int \<times> kstate) option" where
  "rt_thread_delete t s = thread_detach t s"

section \<open>Yielding and sleeping\<close>

definition rt_thread_yield :: "kstate \<Rightarrow> ret \<times> kstate" where
  "rt_thread_yield s =
    (case rt_thread_self s of None \<Rightarrow> (Fault, s)
     | Some t \<Rightarrow> (Ret RT_EOK, rt_sched_unlock_n_resched (snd (rt_sched_thread_yield t s))))"

text \<open>The end of a sleep, after the scheduling point.\<close>

definition clear_timeout_error :: "tid \<Rightarrow> kstate \<Rightarrow> kstate" where
  "clear_timeout_error t s =
    (if thread_error (thread_of s t) = - RT_ETIMEOUT then upd_thread t (\<lambda>x. x\<lparr> thread_error := RT_EOK \<rparr>) s else s)"

definition thread_sleep_resume :: "tid \<Rightarrow> kstate \<Rightarrow> ret \<times> kstate" where
  "thread_sleep_resume t s = (Ret RT_EOK, clear_timeout_error t s)"

definition thread_sleep :: "u32 \<Rightarrow> kstate \<Rightarrow> ret \<times> kstate" where
  "thread_sleep tick s =
    (if tick = 0 then (Ret (- RT_EINVAL), s)
     else case rt_thread_self s of None \<Rightarrow> (Fault, s)
     | Some t \<Rightarrow>
        let s = upd_thread t (\<lambda>x. x\<lparr> thread_error := RT_EOK \<rparr>) s;
            (critical_level, s) = rt_enter_critical s;
            (err, s) = rt_thread_suspend_with_flag t RT_INTERRUPTIBLE s
        in if err = RT_EOK then
             let s = snd (rt_timer_control (ThreadTimer t) (TIMER_CTRL_SET_TIME tick) s);
                 s = snd (rt_timer_start (ThreadTimer t) s);
                 s = upd_thread t (\<lambda>x. x\<lparr> thread_error := - RT_EINTR \<rparr>) s;
                 s = rt_schedule s
             in go_on thread_sleep_resume t (rt_exit_critical_safe critical_level s)
           else (Ret err, rt_exit_critical_safe critical_level s))"

definition rt_thread_delay :: "u32 \<Rightarrow> kstate \<Rightarrow> ret \<times> kstate" where
  "rt_thread_delay tick s = thread_sleep tick s"

definition rt_thread_mdelay :: "int \<Rightarrow> kstate \<Rightarrow> ret \<times> kstate" where
  "rt_thread_mdelay ms s = thread_sleep (rt_tick_from_millisecond ms) s"

definition delay_until_resume :: "tid \<Rightarrow> kstate \<Rightarrow> ret \<times> kstate" where
  "delay_until_resume t s = (let s = clear_timeout_error t s in (Ret (thread_error (thread_of s t)), s))"

text \<open>The first answer is the caller's \<open>*tick\<close> after the call.\<close>

definition rt_thread_delay_until :: "u32 \<Rightarrow> u32 \<Rightarrow> kstate \<Rightarrow> u32 \<times> ret \<times> kstate" where
  "rt_thread_delay_until tick inc_tick s =
    (case rt_thread_self s of None \<Rightarrow> (tick, Fault, s)
     | Some t \<Rightarrow>
        let s = upd_thread t (\<lambda>x. x\<lparr> thread_error := RT_EOK \<rparr>) s;
            (critical_level, s) = rt_enter_critical s;
            cur_tick = rt_tick_get s
        in if cur_tick - tick < inc_tick then
             let tick = tick + inc_tick;
                 left_tick = tick - cur_tick;
                 s = snd (rt_thread_suspend_with_flag t RT_UNINTERRUPTIBLE s);
                 s = snd (rt_timer_control (ThreadTimer t) (TIMER_CTRL_SET_TIME left_tick) s);
                 s = snd (rt_timer_start (ThreadTimer t) s)
             in (tick, go_on (\<lambda>t s. go_on delay_until_resume t (rt_schedule s)) t (rt_exit_critical_safe critical_level s))
           else
             let s = rt_exit_critical_safe critical_level s
             in (cur_tick, Ret (thread_error (thread_of s t)), s))"

section \<open>Control and system threads\<close>

datatype thread_cmd = CTRL_CHANGE_PRIORITY u8 | CTRL_STARTUP | CTRL_CLOSE | CTRL_BIND_CPU int | CTRL_OTHER

definition rt_thread_control :: "tid \<Rightarrow> thread_cmd \<Rightarrow> kstate \<Rightarrow> (int \<times> kstate) option" where
  "rt_thread_control t cmd s =
    (case cmd of
       CTRL_CHANGE_PRIORITY p \<Rightarrow> Some (rt_sched_thread_change_priority t p s)
     | CTRL_STARTUP \<Rightarrow> Some (rt_thread_startup t s)
     | CTRL_CLOSE \<Rightarrow>
        map_option (\<lambda>(rt_err, s'). (rt_err, schedule_if_running (rt_thread_self s) s'))
          (if rt_object_is_systemobject (OThread t) (registry s) then rt_thread_detach t s else rt_thread_delete t s)
     | CTRL_BIND_CPU cpu \<Rightarrow> Some (rt_sched_thread_bind_cpu t cpu, s)
     | CTRL_OTHER \<Rightarrow> Some (RT_EOK, s))"

definition rt_thread_find :: "byte list \<Rightarrow> kstate \<Rightarrow> kobj option" where
  "rt_thread_find name s = rt_object_find name RT_Object_Class_Thread (registry s)"

text \<open>\<open>None\<close> is the null pointer.\<close>

definition rt_thread_get_name :: "tid option \<Rightarrow> byte list option \<Rightarrow> u8 \<Rightarrow> kstate \<Rightarrow> (int \<times> byte list option) option" where
  "rt_thread_get_name thread name name_size s =
    (case thread of None \<Rightarrow> Some (- RT_EINVAL, name)
     | Some t \<Rightarrow> rt_object_get_name (Some (OThread t)) name name_size (registry s))"

text \<open>The names are \<open>"timer"\<close>, \<open>"stimer"\<close> and \<open>"tidle0"\<close>.\<close>

definition rt_system_timer_thread_init :: "tid \<Rightarrow> kstate \<Rightarrow> kstate" where
  "rt_system_timer_thread_init timer_thread s =
    (let s = s\<lparr> timer_lists := (timer_lists s)(SoftTimers := []) \<rparr>;
         s = snd (rt_sem_init soft_timer_sem [115, 116, 105, 109, 101, 114] 0 RT_IPC_FLAG_PRIO s);
         s = snd (rt_thread_init timer_thread [116, 105, 109, 101, 114] 4 10 s)
     in snd (rt_thread_startup timer_thread s))"

definition rt_thread_idle_init :: "tid \<Rightarrow> kstate \<Rightarrow> kstate" where
  "rt_thread_idle_init idle_thread s =
    (let s = snd (rt_thread_init idle_thread [116, 105, 100, 108, 101, 48] 31 32 s)
     in snd (rt_thread_startup idle_thread s))"

section \<open>Falling asleep\<close>

lemma timer_stop_timers:
  assumes "x = snd (rt_sched_thread_timer_stop t s)"
  shows "u \<noteq> ThreadTimer t \<Longrightarrow> timer_of x u = timer_of s u"
    and "timeout_func (timer_of x u) = timeout_func (timer_of s u)" and "parameter (timer_of x u) = parameter (timer_of s u)"
    and "periodic x u = periodic s u"
    and "ThreadTimer t \<notin> set (timer_lists s l) \<Longrightarrow> timer_lists x l = timer_lists s l"
  using assms by (auto simp: rt_sched_thread_timer_stop_def timer_op_defs)

lemma suspend_timers:
  assumes "x = snd (rt_thread_suspend_to_list t sl fl sf s)"
  shows "u \<noteq> ThreadTimer t \<Longrightarrow> timer_of x u = timer_of s u"
    and "timeout_func (timer_of x u) = timeout_func (timer_of s u)" and "parameter (timer_of x u) = parameter (timer_of s u)"
    and "periodic x u = periodic s u"
    and "ThreadTimer t \<notin> set (timer_lists s l) \<Longrightarrow> timer_lists x l = timer_lists s l"
proof -
  define y where "y = (case sl of None \<Rightarrow> thread_set_suspend_state t sf (rt_sched_remove_thread t s)
    | Some l \<Rightarrow> rt_susp_list_enqueue l t fl (thread_set_suspend_state t sf (rt_sched_remove_thread t s)))"
  have y: "timer_of y = timer_of s" "timer_lists y = timer_lists s"
    by (simp_all add: y_def thread_set_suspend_state_def Let_def split: option.splits)
  have x: "x = s \<or> x = snd (rt_sched_thread_timer_stop t y)"
    using assms by (simp add: rt_thread_suspend_to_list_def y_def Let_def)
  note z = timer_stop_timers[of "snd (rt_sched_thread_timer_stop t y)" t y, OF refl, unfolded y]
  show "timer_of x u = timer_of s u" if "u \<noteq> ThreadTimer t" using x z(1)[OF that] by auto
  show "timeout_func (timer_of x u) = timeout_func (timer_of s u)" using x z(2) by auto
  show "parameter (timer_of x u) = parameter (timer_of s u)" using x z(3) by auto
  show "periodic x u = periodic s u" using x z(4) by auto
  show "timer_lists x l = timer_lists s l" if "ThreadTimer t \<notin> set (timer_lists s l)" using x z(5)[OF that] by auto
qed

lemma start_wait_timer_timers:
  assumes r: "timer_ready s t" and pos: "timeout > 0"
  defines "s' \<equiv> start_wait_timer t timeout s"
  shows "u \<noteq> ThreadTimer t \<Longrightarrow> timer_of s' u = timer_of s u"
    and "timeout_func (timer_of s' u) = timeout_func (timer_of s u)" and "parameter (timer_of s' u) = parameter (timer_of s u)"
    and "periodic s' u = periodic s u"
    and "timer_lists s' l = (if l = HardTimers then timer_insert (timer_of s') (ThreadTimer t) (removeAll (ThreadTimer t) (timer_lists s l))
      else removeAll (ThreadTimer t) (timer_lists s l))"
  using r pos
  by (auto simp: s'_def start_wait_timer_def rt_timer_control_def rt_timer_start_def timer_ready_def
      timer_op_defs rt_sched_thread_timer_start_def rt_tick_get_def intro!: timer_insert_cong)

text \<open>The state in which a thread may go to sleep: it may block, no timer of a running thread is active, and timers are
  in order from the base \<open>b\<close> on.\<close>

definition may_sleep :: "u32 \<Rightarrow> kstate \<Rightarrow> tid \<Rightarrow> bool" where
  "may_sleep b s t \<longleftrightarrow> may_block s t \<and> sleep_ok s \<and> armed b HardTimers s \<and> timer_lists s HardProcessing = []"

lemma sleep_state:
  assumes ms: "may_sleep b s t" and tk: "tick \<noteq> 0" and due: "rt_tick s + tick - b < RT_TICK_MAX_HALF"
  obtains s' where "thread_sleep tick s = (Blocked, s')" and "sleep_ok s'" and "armed b HardTimers s'"
    and "timer_lists s' HardProcessing = []" and "rt_tick s' = rt_tick s" and "suspended s' t"
    and "\<And>u. u \<noteq> t \<Longrightarrow> suspended s' u = suspended s u"
    and "set (timer_lists s' HardTimers) = insert (ThreadTimer t) (set (timer_lists s HardTimers))"
    and "timeout_tick (timer_of s' (ThreadTimer t)) = rt_tick s + tick"
    and "thread_error (thread_of s' t) = - RT_EINTR" and "rt_thread_self s' \<noteq> Some t"
proof -
  have mb: "may_block s t" and so: "sleep_ok s" and ar: "armed b HardTimers s" and lp: "timer_lists s HardProcessing = []"
    using ms by (simp_all add: may_sleep_def)
  have self: "rt_thread_self s = Some t" and run: "thread_state s t = RT_THREAD_RUNNING" and lk: "rt_scheduler_lock_nest s = 0"
    and tr: "timer_ready s t" using mb by (simp_all add: may_block_def rt_thread_self_def)
  have k: "kernel_inv s" using so by (simp add: sleep_ok_def)
  have nt: "ThreadTimer t \<notin> set (timer_lists s HardTimers)"
    using so run suspended_states[of s t] by (auto simp: sleep_ok_def)
  define s2 where "s2 = (upd_thread t (\<lambda>x. x\<lparr> thread_error := RT_EOK \<rparr>) s)\<lparr> rt_scheduler_lock_nest := 1 \<rparr>"
  have th2: "thread_state s2 u = thread_state s u" for u by (simp add: s2_def thread_state_def)
  have "kernel_inv (upd_thread t (\<lambda>x. x\<lparr> thread_error := RT_EOK \<rparr>) s)"
    by (rule neutral_kernel_inv[OF _ _ k]) (simp_all add: sched_neutral_def)
  then have k2: "kernel_inv s2" by (subst kernel_inv_cong[of _ "upd_thread t (\<lambda>x. x\<lparr> thread_error := RT_EOK \<rparr>) s"]) (simp_all add: s2_def)
  have r2: "thread_state s2 t \<in> {RT_THREAD_READY, RT_THREAD_RUNNING}" using th2 run by simp
  obtain s3 where s3: "rt_thread_suspend_to_list t None 0 RT_INTERRUPTIBLE s2 = (RT_EOK, s3)" "kernel_inv s3"
    "suspended s3 t" "\<And>u. u \<noteq> t \<Longrightarrow> thread_of s3 u = thread_of s2 u"
    "rt_current_thread s3 = rt_current_thread s2" "rt_tick s3 = rt_tick s2" "rt_scheduler_lock_nest s3 = rt_scheduler_lock_nest s2"
    by (rule suspend_spec[OF k2 r2, where sl = None and flags = 0 and sf = RT_INTERRUPTIBLE]) auto
  have x3: "s3 = snd (rt_thread_suspend_to_list t None 0 RT_INTERRUPTIBLE s2)" using s3(1) by simp
  note tm3 = suspend_timers[OF x3]
  have t2: "timer_of s2 = timer_of s" "timer_lists s2 = timer_lists s" by (simp_all add: s2_def)
  have tr3: "timer_ready s3 t" using tr timer_ready_suspend[of t None 0 RT_INTERRUPTIBLE s2 t] x3
      timer_ready_cong[of s2 s t] t2 by simp
  have pos: "uint tick > 0" using tk uint_nonnegative[of tick] by (auto simp: order_le_less uint_0_iff)
  define s4 where "s4 = start_wait_timer t (uint tick) s3"
  note f4 = start_wait_timer_fields[OF tr3 pos, folded s4_def] and tm4 = start_wait_timer_timers[OF tr3 pos, folded s4_def]
    and k4 = start_wait_timer_spec(1)[OF s3(2) tr3, of "uint tick", folded s4_def]
  define s5 where "s5 = upd_thread t (\<lambda>x. x\<lparr> thread_error := - RT_EINTR \<rparr>) s4"
  define s7 where "s7 = s5\<lparr> rt_scheduler_lock_nest := 0 \<rparr>"
  have k5: "kernel_inv s5" unfolding s5_def by (rule neutral_kernel_inv[OF _ _ k4]) (simp_all add: sched_neutral_def)
  have k7: "kernel_inv s7" using k5 by (subst kernel_inv_cong[of _ s5]) (simp_all add: s7_def)
  have i7: "sched_inv s7" using k7 by (simp add: kernel_inv_def)
  define s' where "s' = rt_schedule s7"
  have l4: "rt_scheduler_lock_nest s5 = 1" using f4(15) s3(7) by (simp add: s5_def s2_def)
  then have nos: "rt_schedule s5 = s5" by (simp add: rt_schedule_idle)
  have c7: "rt_current_thread s7 = Some t" using f4(4) s3(5) self by (simp add: s7_def s5_def s2_def rt_thread_self_def)
  have ex: "rt_exit_critical_safe n s5 = s'" for n
    using l4 c7 by (simp add: rt_exit_critical_safe_def rt_exit_critical_def Let_def s'_def s7_def)
  have st7: "suspended s7 u = suspended s3 u" for u
    using f4(2) by (auto simp: s7_def s5_def suspended_def thread_state_def)
  have st3: "suspended s3 u = suspended s u" if "u \<noteq> t" for u
    using s3(4)[OF that] th2[of u] by (simp add: suspended_def thread_state_def)
  have sp': "suspended s' u = suspended s3 u" for u using schedule_states(1)[OF i7] st7 by (simp add: s'_def)
  obtain w where w: "thread_state s w = RT_THREAD_READY" using mb by (auto simp: may_block_def)
  then have wt: "w \<noteq> t" using run by auto
  have w7: "thread_state s7 w = RT_THREAD_READY"
    using w wt s3(4)[OF wt] f4(2) th2[of w] by (simp add: s7_def s5_def thread_state_def)
  have away: "rt_thread_self s' \<noteq> Some t" unfolding s'_def
    by (rule schedule_leaves[OF i7 c7 _ _ w7]) (simp_all add: st7 s3(3), simp add: s7_def)
  have t': "timer_of s' = timer_of s4" "timer_lists s' = timer_lists s4" "rt_tick s' = rt_tick s4"
    by (simp_all add: s'_def s7_def s5_def)
  have tt: "timeout_tick (timer_of s' (ThreadTimer t)) = rt_tick s + tick"
    using f4(6) s3(6) by (simp add: t' s2_def)
  have lst: "timer_lists s' l = (if l = HardTimers then timer_insert (timer_of s') (ThreadTimer t) (timer_lists s HardTimers)
      else removeAll (ThreadTimer t) (timer_lists s3 l))" for l
    using tm4(5)[of l] tm3(5)[of HardTimers] nt t2 by (simp add: t')
  have same: "timer_of s' u = timer_of s u" if "u \<noteq> ThreadTimer t" for u using tm4(1)[OF that] tm3(1)[OF that] t2 by (simp add: t')
  have old: "timer_of s' u = timer_of s u" if "u \<in> set (timer_lists s HardTimers)" for u using that nt by (intro same) auto
  have "timers_ordered b (timer_of s') (timer_lists s HardTimers) = timers_ordered b (timer_of s) (timer_lists s HardTimers)"
    by (rule timers_ordered_cong) (simp add: old)
  then have od: "timers_ordered b (timer_of s') (timer_lists s HardTimers)" using ar by (simp add: armed_def)
  have "due_in b (timer_of s') (ThreadTimer t) < RT_TICK_MAX_HALF" using due tt by (simp add: due_in_def)
  note od' = timer_insert_ordered[OF od this]
  have pr: "\<not> processing s' (ThreadTimer t)" using f4(9) by (simp add: t' timer_ready_def)
  have ac: "activated s' (ThreadTimer t)" using f4(5) by (simp add: t')
  have ar': "armed b HardTimers s'"
    using od' ar nt old ac pr distinct_timer_insert[of "timer_lists s HardTimers" "ThreadTimer t"]
    by (auto simp: armed_def lst)
  have "timer_lists s3 HardProcessing = []" using tm3(5)[of HardProcessing] lp t2 by simp
  then have lp': "timer_lists s' HardProcessing = []" by (simp add: lst)
  have so': "sleep_ok s'"
  proof -
    have fn: "timeout_func (timer_of s' u) = timeout_func (timer_of s u)" "parameter (timer_of s' u) = parameter (timer_of s u)"
      "periodic s' u = periodic s u" for u using tm4(2-4)[of u] tm3(2-4)[of u] t2 by (simp_all add: t')
    have "kernel_inv s'" unfolding s'_def by (rule schedule_kernel_inv[OF k7])
    moreover have "suspended s' u" if "ThreadTimer u \<in> set (timer_lists s' HardTimers)" for u
      using that so sp' st3[of u] s3(3) by (cases "u = t") (auto simp: lst sleep_ok_def)
    ultimately show ?thesis using so fn by (simp add: sleep_ok_def)
  qed
  have en: "rt_enter_critical (upd_thread t (\<lambda>x. x\<lparr> thread_error := RT_EOK \<rparr>) s) = (1, s2)"
    using lk by (simp add: rt_enter_critical_def s2_def)
  have s4': "snd (rt_timer_start (ThreadTimer t) (snd (rt_timer_control (ThreadTimer t) (TIMER_CTRL_SET_TIME tick) s3))) = s4"
    using pos by (simp add: s4_def start_wait_timer_def)
  have call: "thread_sleep tick s = (Blocked, s')"
    using tk self s3(1) away
    by (simp add: thread_sleep_def en rt_thread_suspend_with_flag_def go_on_def Let_def s4' s5_def[symmetric] nos ex)
  show thesis
  proof (rule that[OF call so' ar' lp' _ _ _ _ tt _ away])
    show "rt_tick s' = rt_tick s" using f4(14) s3(6) by (simp add: t' s2_def)
    show "suspended s' t" using sp' s3(3) by simp
    show "suspended s' u = suspended s u" if "u \<noteq> t" for u using sp' st3[OF that] by simp
    show "set (timer_lists s' HardTimers) = insert (ThreadTimer t) (set (timer_lists s HardTimers))" by (simp add: lst)
    show "thread_error (thread_of s' t) = - RT_EINTR"
      using same_but_stat_simps(1)[OF schedule_same_but_stat[of s7 t]] by (simp add: s'_def s7_def s5_def)
  qed
qed

section \<open>The passing of time\<close>

text \<open>What the rest of the system may do between two ticks while \<open>t\<close> sleeps: anything that keeps the timer
  system in order and neither wakes \<open>t\<close> nor touches its timer.\<close>

definition other_activity :: "u32 \<Rightarrow> tid \<Rightarrow> kstate \<Rightarrow> kstate \<Rightarrow> bool" where
  "other_activity b t s s' \<longleftrightarrow> sleep_ok s' \<and> armed b HardTimers s' \<and> timer_lists s' HardProcessing = [] \<and>
    rt_tick s' = rt_tick s \<and> suspended s' t = suspended s t \<and> thread_error (thread_of s' t) = thread_error (thread_of s t) \<and>
    (ThreadTimer t \<in> set (timer_lists s' HardTimers) \<longleftrightarrow> ThreadTimer t \<in> set (timer_lists s HardTimers)) \<and>
    timeout_tick (timer_of s' (ThreadTimer t)) = timeout_tick (timer_of s (ThreadTimer t))"

definition tick_ok :: "u32 \<Rightarrow> kstate \<Rightarrow> bool" where
  "tick_ok b s \<longleftrightarrow> (\<forall>x \<in> set (timer_lists s HardTimers). period_ok b (s\<lparr> rt_tick := rt_tick s + 1 \<rparr>) x)"

inductive time_run :: "(nat \<Rightarrow> nat \<Rightarrow> kstate \<Rightarrow> kstate) \<Rightarrow> u32 \<Rightarrow> tid \<Rightarrow> nat \<Rightarrow> kstate \<Rightarrow> kstate \<Rightarrow> bool"
  for user b t where
  start: "time_run user b t 0 s s"
| tick: "time_run user b t n s s1 \<Longrightarrow> tick_ok b s1 \<Longrightarrow> rt_tick_increase user s1 = Some s2 \<Longrightarrow> time_run user b t (Suc n) s s2"
| other: "time_run user b t n s s1 \<Longrightarrow> other_activity b t s1 s2 \<Longrightarrow> time_run user b t n s s2"

text \<open>\<open>k\<close> of the \<open>n\<close> ticks for which \<open>t\<close> sleeps since tick \<open>now\<close> have passed.\<close>

definition asleep :: "u32 \<Rightarrow> tid \<Rightarrow> u32 \<Rightarrow> nat \<Rightarrow> nat \<Rightarrow> kstate \<Rightarrow> bool" where
  "asleep b t now n k s \<longleftrightarrow> sleep_ok s \<and> armed b HardTimers s \<and> timer_lists s HardProcessing = [] \<and> rt_tick s = now + of_nat k \<and>
    (if k < n then suspended s t \<and> ThreadTimer t \<in> set (timer_lists s HardTimers) \<and>
       timeout_tick (timer_of s (ThreadTimer t)) = now + of_nat n
     else \<not> suspended s t \<and> thread_error (thread_of s t) = - RT_ETIMEOUT)"

lemma expires_after:
  assumes "k < n" and "n < 0x7FFFFFFF" and "timeout_tick (timer_of s x) = now + of_nat n"
  shows "timer_expired (now + of_nat k + 1) s x \<longleftrightarrow> Suc k = n"
proof (cases "Suc k = n")
  case True
  then have "now + of_nat k + 1 - timeout_tick (timer_of s x) = 0" using assms(3) by (auto simp: algebra_simps)
  then show ?thesis using True unfolding timer_expired_def by (simp add: RT_TICK_MAX_HALF_def)
next
  case False
  define d where "d = n - Suc k"
  have d: "n = Suc k + d" "0 < d" "d < 0x7FFFFFFF" using False assms(1,2) by (auto simp: d_def)
  have e: "now + of_nat k + 1 - timeout_tick (timer_of s x) = - (of_nat d :: u32)" using d(1) assms(3) by simp
  have "(of_nat (2 ^ 32 - d) :: u32) = of_nat (2 ^ 32) - of_nat d" using d(3) by (intro of_nat_diff) simp
  then have "- (of_nat d :: u32) = of_nat (2 ^ 32 - d)" by simp
  moreover have "unat (of_nat m :: u32) = m" if "m < 2 ^ 32" for m using that by (simp add: unat_of_nat take_bit_nat_eq_self)
  ultimately have "unat (- (of_nat d :: u32)) = 2 ^ 32 - d" using d(2,3) by (metis diff_less zero_less_power zero_less_numeral)
  then show ?thesis using False d(3) unfolding timer_expired_def e by (simp add: RT_TICK_MAX_HALF_def word_less_nat_alt)
qed

lemma asleep_run:
  assumes c: "calm user" and a: "asleep b t now n 0 s" and n: "0 < n" "n < 0x7FFFFFFF"
    and r: "time_run user b t k s s'" and k: "k \<le> n"
  shows "asleep b t now n k s'"
  using r k a
proof (induction rule: time_run.induct)
  case (tick k s s1 s2)
  have IH: "asleep b t now n k s1" using tick by simp
  have kn: "k < n" using tick.prems by simp
  have h: "sleep_ok s1" "armed b HardTimers s1" "timer_lists s1 HardProcessing = []" "rt_tick s1 = now + of_nat k" "suspended s1 t"
    "ThreadTimer t \<in> set (timer_lists s1 HardTimers)" "timeout_tick (timer_of s1 (ThreadTimer t)) = now + of_nat n"
    using IH kn by (auto simp: asleep_def)
  obtain s' where s': "rt_tick_increase user s1 = Some s'" "rt_tick s' = rt_tick s1 + 1" "sleep_ok s'" "armed b HardTimers s'"
    "timer_lists s' HardProcessing = []" "tick_effect s1 s' t"
    using tick_effects[OF c h(1-3)] tick.hyps(2) by (auto simp: tick_ok_def)
  have "s2 = s'" using s'(1) tick.hyps(3) by simp
  then show ?case
    using s' h expires_after[OF kn n(2) h(7)] kn by (auto simp: asleep_def tick_effect_def Let_def add.assoc add.commute)
next
  case (other k s s1 s2)
  then show ?case by (auto simp: asleep_def other_activity_def)
qed simp

text \<open>C18: A call of \<open>rt_thread_delay\<close> for \<open>n\<close> ticks, with \<open>0 < n < 0x7FFFFFFF\<close>, by a thread that runs and may block, in a state where the thread timers in the list belong to suspended threads, suspends the caller for exactly \<open>n\<close> ticks of the clock, as long
  as the user callbacks that run in these ticks wake no thread and touch no timer (\<open>calm\<close>), the active timers and the delay end within half the
  tick range of a common base tick with no period of zero (\<open>may_sleep\<close>, \<open>time_run\<close>), and what happens between the ticks
  does not concern the caller (\<open>other_activity\<close>): the call blocks, the caller is still suspended after each of the
  first \<open>n - 1\<close> ticks, and the \<open>n\<close>-th makes it ready, also when the tick counter wraps; the call
  then returns \<open>RT_EOK\<close> and clears the error field. (A longer delay wakes at the next tick, as
  \<open>mdelay_negative_wakes_at_once\<close> shows for the largest.)\<close>

theorem thread_delay_lasts:
  assumes c: "calm user" and ms: "may_sleep b s t" and n: "0 < n" "n < 0x7FFFFFFF"
    and d: "rt_tick s + of_nat n - b < RT_TICK_MAX_HALF"
  shows "let (r, s0) = rt_thread_delay (of_nat n) s in r = Blocked \<and> suspended s0 t \<and> sleep_ok s0 \<and>
    (\<forall>k s'. time_run user b t k s0 s' \<longrightarrow> k \<le> n \<longrightarrow>
      sleep_ok s' \<and> rt_tick s' = rt_tick s + of_nat k \<and> suspended s' t = (k < n) \<and>
      (k = n \<longrightarrow> (let (r, s'') = thread_sleep_resume t s' in r = Ret RT_EOK \<and> thread_error (thread_of s'' t) = RT_EOK)))"
proof -
  have nz: "(of_nat n :: u32) \<noteq> 0"
  proof -
    have "unat (of_nat n :: u32) = n" using n(2) by (simp add: unat_of_nat)
    then show ?thesis using n(1) by (metis unat_0 less_irrefl)
  qed
  obtain s0 where s0: "thread_sleep (of_nat n) s = (Blocked, s0)" "sleep_ok s0" "armed b HardTimers s0"
    "timer_lists s0 HardProcessing = []" "rt_tick s0 = rt_tick s" "suspended s0 t"
    "set (timer_lists s0 HardTimers) = insert (ThreadTimer t) (set (timer_lists s HardTimers))" "timeout_tick (timer_of s0 (ThreadTimer t)) = rt_tick s + of_nat n"
    by (rule sleep_state[OF ms nz d])
  have a: "asleep b t (rt_tick s) n 0 s0" using s0 n(1) by (simp add: asleep_def)
  have run: "asleep b t (rt_tick s) n k s'" if "time_run user b t k s0 s'" "k \<le> n" for k s'
    by (rule asleep_run[OF c a n that])
  have "sleep_ok s' \<and> rt_tick s' = rt_tick s + of_nat k \<and> suspended s' t = (k < n) \<and>
      (k = n \<longrightarrow> (let (r, s'') = thread_sleep_resume t s' in r = Ret RT_EOK \<and> thread_error (thread_of s'' t) = RT_EOK))"
    if "time_run user b t k s0 s'" "k \<le> n" for k s'
    using run[OF that] that(2)
    by (auto simp: asleep_def thread_sleep_resume_def clear_timeout_error_def split: if_splits)
  then show ?thesis using s0 by (simp add: rt_thread_delay_def)
qed

section \<open>Negative delays\<close>

text \<open>\<open>rt_thread_mdelay\<close> with a negative argument does not wait forever: the conversion answers the largest tick, and a timer armed for
  that many ticks lies in the past, so the first tick after the call wakes the caller.\<close>

theorem mdelay_negative_wakes_at_once:
  assumes c: "calm user" and ms: "may_sleep b s t" and m: "ms < 0" and d: "rt_tick s - 1 - b < RT_TICK_MAX_HALF"
    and ok: "tick_ok b (snd (rt_thread_mdelay ms s))"
  shows "\<exists>s'. fst (rt_thread_mdelay ms s) = Blocked \<and> rt_tick_increase user (snd (rt_thread_mdelay ms s)) = Some s' \<and> \<not> suspended s' t"
proof -
  have tk: "rt_tick_from_millisecond ms = - 1" using m by (simp add: rt_tick_from_millisecond_def)
  have nz: "(- 1 :: u32) \<noteq> 0" by simp
  have d': "rt_tick s + - 1 - b < RT_TICK_MAX_HALF" using d by (simp add: algebra_simps)
  obtain s0 where s0: "thread_sleep (- 1) s = (Blocked, s0)" "sleep_ok s0" "armed b HardTimers s0"
    "timer_lists s0 HardProcessing = []" "rt_tick s0 = rt_tick s" "suspended s0 t"
    "set (timer_lists s0 HardTimers) = insert (ThreadTimer t) (set (timer_lists s HardTimers))" "timeout_tick (timer_of s0 (ThreadTimer t)) = rt_tick s + - 1"
    by (rule sleep_state[OF ms nz d'])
  have call: "rt_thread_mdelay ms s = (Blocked, s0)" by (simp add: rt_thread_mdelay_def tk s0(1))
  obtain s' where s': "rt_tick_increase user s0 = Some s'" "tick_effect s0 s' t"
    using tick_effects[OF c s0(2-4)] ok by (auto simp: call tick_ok_def)
  have "timer_expired (rt_tick s0 + 1) s0 (ThreadTimer t)" using s0(5,8) by (simp add: timer_expired_def RT_TICK_MAX_HALF_def)
  then show ?thesis using s' s0(7) by (simp add: call tick_effect_def)
qed

section \<open>Starting a thread\<close>

text \<open>A thread that may be initialised: it is in no list, was never started or is closed, and does not run.\<close>

definition fresh_thread :: "tid \<Rightarrow> kstate \<Rightarrow> bool" where
  "fresh_thread t s \<longleftrightarrow> unlinked s t \<and> thread_state s t \<in> {RT_THREAD_INIT, RT_THREAD_CLOSE} \<and> rt_current_thread s \<noteq> Some t"

lemma revive_sched_inv:
  assumes q: "sched_inv s" and f: "fresh_thread t s" and p: "unat p < RT_THREAD_PRIORITY_MAX"
    and x: "current_priority x = p" "number_mask x = push_bit (unat p) 1" "stat x = RT_THREAD_SUSPEND_MASK"
  shows "sched_inv (upd_thread t (\<lambda>_. x) s)"
proof -
  let ?s = "upd_thread t (\<lambda>_. x) s"
  have st: "thread_state ?s u = (if u = t then RT_THREAD_SUSPEND_MASK else thread_state s u)" for u
    by (simp add: thread_state_def x)
  have nl: "t \<notin> set (thread_lists s l)" for l using f by (simp add: fresh_thread_def unlinked_def)
  have "lists_ok ?s" "bitmap_ok ?s" using q by (simp_all add: sched_inv_def queue_inv_def lists_ok_def bitmap_ok_def)
  moreover have "ready_ok ?s" using q nl[of "ReadyQ _"]
    by (auto simp: sched_inv_def queue_inv_def ready_ok_def st) (simp_all add: stat_defs)
  moreover have "mask_ok ?s" using q p by (auto simp: sched_inv_def queue_inv_def mask_ok_def st x)
  moreover have "wait_ok ?s" using q nl by (auto simp: sched_inv_def queue_inv_def wait_ok_def suspended_def st)
  moreover have "run_ok ?s" using q f by (auto simp: sched_inv_def run_ok_def fresh_thread_def st) (simp_all add: stat_defs)
  ultimately show ?thesis by (simp add: sched_inv_def queue_inv_def)
qed

text \<open>What \<open>rt_thread_init\<close> and the first half of \<open>rt_thread_startup\<close> leave: a suspended thread.\<close>

lemma init_started:
  fixes t p tick s
  defines "s2 \<equiv> rt_sched_thread_startup t (snd (thread_init t p tick s))"
  shows "thread_of s2 = (thread_of s)(t := (thread_of s t)\<lparr> thread_error := RT_EOK, stat := RT_THREAD_SUSPEND_MASK,
      init_tick := tick, remaining_tick := tick, current_priority := p, init_priority := p, number_mask := push_bit (unat p) 1,
      taken_object_list := [], pending_object := None \<rparr>)"
    and "thread_lists s2 = thread_lists s" and "rt_thread_ready_priority_group s2 = rt_thread_ready_priority_group s"
    and "rt_current_thread s2 = rt_current_thread s" and "rt_scheduler_lock_nest s2 = rt_scheduler_lock_nest s"
    and "u \<noteq> ThreadTimer t \<Longrightarrow> timer_of s2 u = timer_of s u" and "timer_lists s2 = timer_lists s"
    and "timer_flag (timer_of s2 (ThreadTimer t)) = RT_TIMER_FLAG_THREAD_TIMER"
    and "timeout_func (timer_of s2 (ThreadTimer t)) = thread_timeout_fn" and "parameter (timer_of s2 (ThreadTimer t)) = t"
  by (cases "thread_of s t", simp_all add: s2_def rt_sched_thread_startup_def thread_init_def rt_sched_thread_init_ctx_def rt_sched_thread_init_priv_def
      rt_timer_init_def timer_init_def Let_def RT_TIMER_FLAG_ONE_SHOT_def timer_flag_defs)

lemma init_started_inv:
  fixes t p tick s
  assumes k: "kernel_inv s" and f: "fresh_thread t s" and p: "unat p < RT_THREAD_PRIORITY_MAX"
  defines "s2 \<equiv> rt_sched_thread_startup t (snd (thread_init t p tick s))"
  shows "sched_inv s2" and "suspended s2 u \<longleftrightarrow> u = t \<or> suspended s u"
    and "\<not> sched_flag_ttmr_set (thread_of s t) \<Longrightarrow> kernel_inv s2"
proof -
  note i = init_started[where t = t and p = p and tick = tick and s = s, folded s2_def]
  let ?x = "thread_of s2 t"
  have "thread_of s2 = thread_of (upd_thread t (\<lambda>_. ?x) s)" by (simp add: i(1))
  then have "sched_inv s2 = sched_inv (upd_thread t (\<lambda>_. ?x) s)" by (intro sched_inv_cong) (simp_all add: i)
  also have "sched_inv (upd_thread t (\<lambda>_. ?x) s)" using k by (intro revive_sched_inv[OF _ f p]) (simp_all add: kernel_inv_def i(1))
  finally show si: "sched_inv s2" .
  show su: "suspended s2 u \<longleftrightarrow> u = t \<or> suspended s u" for u
    by (auto simp: suspended_def thread_state_def i(1)) (simp add: tst_def stat_defs)
  show "kernel_inv s2" if nf: "\<not> sched_flag_ttmr_set (thread_of s t)"
  proof -
    have "ttmr_ok s2" using k nf unfolding ttmr_ok_def su by (auto simp: kernel_inv_def ttmr_ok_def i(1,6))
    then show ?thesis using si by (simp add: kernel_inv_def)
  qed
qed

text \<open>The state after \<open>rt_thread_init\<close> and \<open>rt_thread_startup\<close>, and the state in which it wakes the new thread.\<close>

lemma startup_eq:
  "rt_thread_startup t (snd (rt_thread_init t name p tick s)) = (RT_EOK, snd (rt_thread_resume t (rt_sched_thread_startup t
    (snd (thread_init t p tick (s\<lparr> registry := rt_object_init (OThread t) RT_Object_Class_Thread name (registry s) \<rparr>))))))"
  by (simp add: rt_thread_startup_def rt_thread_init_def)

lemma registry_only:
  "kernel_inv (s\<lparr> registry := x \<rparr>) = kernel_inv s" "fresh_thread t (s\<lparr> registry := x \<rparr>) = fresh_thread t s"
  by (rule kernel_inv_cong, simp_all add: fresh_thread_def unlinked_def thread_state_def)

text \<open>A thread that was never started, or that has ended and been reclaimed, is initialised and started: the kernel
  invariant is kept, the call answers \<open>RT_EOK\<close>, the thread has the priority and time slice it was
  given, and it is ready or running; if the scheduler is unlocked and the caller runs, then no thread
  that is left ready, the new one included, has a higher priority than the one that runs afterwards.\<close>

theorem thread_start_makes_ready:
  fixes name tick
  assumes k: "kernel_inv s" and f: "fresh_thread t s" and p: "unat p < RT_THREAD_PRIORITY_MAX"
    and nf: "\<not> sched_flag_ttmr_set (thread_of s t)"
  defines "r \<equiv> rt_thread_startup t (snd (rt_thread_init t name p tick s))"
  shows "fst r = RT_EOK \<and> kernel_inv (snd r) \<and> thread_state (snd r) t \<in> {RT_THREAD_READY, RT_THREAD_RUNNING} \<and>
    current_priority (thread_of (snd r) t) = p \<and> init_tick (thread_of (snd r) t) = tick \<and>
    (\<forall>c. rt_thread_self s = Some c \<longrightarrow> thread_state s c = RT_THREAD_RUNNING \<longrightarrow> rt_scheduler_lock_nest s = 0 \<longrightarrow>
      (\<exists>h. rt_thread_self (snd r) = Some h \<and> thread_state (snd r) h = RT_THREAD_RUNNING \<and>
        (\<forall>u. thread_state (snd r) u = RT_THREAD_READY \<longrightarrow> current_priority (thread_of (snd r) h) \<le> current_priority (thread_of (snd r) u))))"
proof -
  define s0 where "s0 = s\<lparr> registry := rt_object_init (OThread t) RT_Object_Class_Thread name (registry s) \<rparr>"
  have ss: "kernel_inv s0 = kernel_inv s" "fresh_thread t s0 = fresh_thread t s" "thread_of s0 = thread_of s"
    "rt_current_thread s0 = rt_current_thread s" "rt_scheduler_lock_nest s0 = rt_scheduler_lock_nest s"
    by (simp_all add: s0_def registry_only)
  define s2 where "s2 = rt_sched_thread_startup t (snd (thread_init t p tick s0))"
  have r: "r = (RT_EOK, snd (rt_thread_resume t s2))" by (simp add: r_def s2_def s0_def startup_eq)
  note i = init_started[where t = t and p = p and tick = tick and s = s0, folded s2_def]
  note inv = init_started_inv[where t = t and p = p and tick = tick and s = s0, folded s2_def, unfolded ss(1-3), OF k f p]
  have k2: "kernel_inv s2" and sp: "suspended s2 t" using inv(2,3) nf by simp_all
  define s3 where "s3 = rt_sched_insert_thread t (unlink_thread t s2)"
  have nf2: "\<not> sched_flag_ttmr_set (thread_of s2 t)" using nf by (simp add: i(1) ss(3))
  note re = ready_effect[OF k2 sp, unfolded if_not_P[OF nf2], folded s3_def]
  have s3: "sched_inv s3" "kernel_inv s3" using re(2) by (simp_all add: kernel_inv_def)
  have nc: "rt_current_thread s \<noteq> Some t" using f by (simp add: fresh_thread_def)
  have snd: "snd r = rt_sched_unlock_n_resched s3" by (simp add: r rt_thread_resume_def re(1))
  have st3: "thread_state s3 u = (if u = t then RT_THREAD_READY else thread_state s2 u)" for u
    using thread_ready_spec(3)[OF _ re(1), of u] k2 nc i(4) ss(4) by (simp add: kernel_inv_def)
  have th3: "same_but_stat (thread_of s2 u) (thread_of s3 u)" for u
    using insert_same_but_stat[of "unlink_thread t s2" u t] by (simp add: s3_def)
  have th: "same_but_stat (thread_of s3 u) (thread_of (snd r) u)" for u
    by (simp add: snd rt_sched_unlock_n_resched_def schedule_same_but_stat)
  have "thread_state (snd r) t \<in> {RT_THREAD_READY, RT_THREAD_RUNNING}"
    using st3[of t] schedule_states(3)[OF s3(1), of t] by (simp add: snd rt_sched_unlock_n_resched_def)
  moreover have "kernel_inv (snd r)" unfolding snd by (rule resched_kernel_inv[OF s3(2)])
  moreover have "current_priority (thread_of (snd r) t) = p" "init_tick (thread_of (snd r) t) = tick"
    using same_but_stat_simps[OF th[of t]] same_but_stat_simps[OF th3[of t]] by (simp_all add: i(1))
  moreover have "\<exists>h. rt_thread_self (snd r) = Some h \<and> thread_state (snd r) h = RT_THREAD_RUNNING \<and>
      (\<forall>u. thread_state (snd r) u = RT_THREAD_READY \<longrightarrow> current_priority (thread_of (snd r) h) \<le> current_priority (thread_of (snd r) u))"
    if c: "rt_thread_self s = Some c" "thread_state s c = RT_THREAD_RUNNING" "rt_scheduler_lock_nest s = 0" for c
  proof -
    have "rt_current_thread s3 = Some c" "rt_scheduler_lock_nest s3 = 0"
      using c by (simp_all add: s3_def i ss rt_thread_self_def)
    from schedule_highest[OF s3(1) this, of t] st3[of t] this(1) show ?thesis
      by (simp add: snd rt_sched_unlock_n_resched_def rt_thread_self_def)
  qed
  ultimately show ?thesis by (simp add: r)
qed

text \<open>A static thread whose last sleep ended by its timer still has its timer flag set; \<open>rt_thread_init\<close> does not clear
  it. Started again, the thread is not made ready: \<open>rt_thread_startup\<close> answers \<open>RT_EOK\<close>,
  but the thread stays suspended, in no list and without an active timer.\<close>

theorem thread_restart_stays_suspended:
  fixes name tick
  assumes k: "kernel_inv s" and f: "fresh_thread t s" and p: "unat p < RT_THREAD_PRIORITY_MAX"
    and fl: "sched_flag_ttmr_set (thread_of s t)"
  defines "r \<equiv> rt_thread_startup t (snd (rt_thread_init t name p tick s))"
  shows "fst r = RT_EOK \<and> suspended (snd r) t \<and> unlinked (snd r) t \<and> \<not> activated (snd r) (ThreadTimer t)"
proof -
  define s0 where "s0 = s\<lparr> registry := rt_object_init (OThread t) RT_Object_Class_Thread name (registry s) \<rparr>"
  have ss: "kernel_inv s0 = kernel_inv s" "fresh_thread t s0 = fresh_thread t s" "thread_of s0 = thread_of s"
    "rt_current_thread s0 = rt_current_thread s" "rt_scheduler_lock_nest s0 = rt_scheduler_lock_nest s"
    by (simp_all add: s0_def registry_only)
  define s2 where "s2 = rt_sched_thread_startup t (snd (thread_init t p tick s0))"
  have r: "r = (RT_EOK, snd (rt_thread_resume t s2))" by (simp add: r_def s2_def s0_def startup_eq)
  note i = init_started[where t = t and p = p and tick = tick and s = s0, folded s2_def]
  note inv = init_started_inv[where t = t and p = p and tick = tick and s = s0, folded s2_def, unfolded ss(1-3), OF k f p]
  have na: "\<not> flag_set (timer_flag (timer_of s2 (ThreadTimer t))) RT_TIMER_FLAG_ACTIVATED"
    by (simp add: i(8) flag_set_def timer_flag_defs)
  have stop: "rt_sched_thread_timer_stop t s2 = (- RT_ERROR, upd_thread t (\<lambda>x. x\<lparr> sched_flag_ttmr_set := False \<rparr>) s2)"
    using fl na by (simp add: rt_sched_thread_timer_stop_def rt_timer_stop_def i(1) ss(3))
  have "snd r = upd_thread t (\<lambda>x. x\<lparr> sched_flag_ttmr_set := False \<rparr>) s2"
    using fl inv(2)[of t] stop by (simp add: r rt_thread_resume_def rt_sched_thread_ready_def is_suspended_eq i(1) ss(3) RT_ERROR_def)
  then show ?thesis
    using inv(2)[of t] f na by (simp add: r suspended_def thread_state_def unlinked_def fresh_thread_def i(2)) (simp add: s0_def)
qed

section \<open>The end of a thread\<close>

lemma defunct_queue_inv:
  assumes q: "queue_inv s" and u: "unlinked s t" and c: "thread_state s t = RT_THREAD_CLOSE"
  shows "queue_inv (rt_thread_defunct_enqueue t s)"
  using assms unfolding rt_thread_defunct_enqueue_def queue_inv_defs suspended_def thread_state_def unlinked_def
  by (auto split: if_splits)

text \<open>The common part of exit and deletion: leave the queues, drop the timer, close.\<close>

definition closed_thread :: "tid \<Rightarrow> kstate \<Rightarrow> kstate" where
  "closed_thread t s = snd (rt_sched_thread_close t (snd (rt_timer_detach (ThreadTimer t) (rt_sched_remove_thread t s))))"

lemma closed_thread_fields:
  "thread_of (closed_thread t s) = (thread_of s)(t := (thread_of s t)\<lparr> stat := RT_THREAD_CLOSE \<rparr>)"
  "thread_lists (closed_thread t s) l = removeAll t (thread_lists s l)"
  "rt_current_thread (closed_thread t s) = rt_current_thread s"
  "rt_scheduler_lock_nest (closed_thread t s) = rt_scheduler_lock_nest s"
  "mutex_of (closed_thread t s) = mutex_of s"
  "timer_lists (closed_thread t s) k = removeAll (ThreadTimer t) (timer_lists s k)"
  "\<not> activated (closed_thread t s) (ThreadTimer t)"
  "u \<noteq> ThreadTimer t \<Longrightarrow> timer_of (closed_thread t s) u = timer_of s u"
  by (simp_all add: closed_thread_def rt_sched_thread_close_def rt_timer_detach_def timer_remove_def clear_tflag_def
      Let_def remove_thread_fields)

lemma closed_thread_state: "thread_state (closed_thread t s) u = (if u = t then RT_THREAD_CLOSE else thread_state s u)"
  by (simp add: thread_state_def closed_thread_fields)

lemma closed_thread_inv:
  assumes k: "kernel_inv s"
  shows "kernel_inv (closed_thread t s)" and "unlinked (closed_thread t s) t"
    and "kernel_inv (rt_thread_defunct_enqueue t (closed_thread t s))"
proof -
  let ?c = "closed_thread t s"
  define x where "x = upd_thread t (\<lambda>x. x\<lparr> stat := RT_THREAD_CLOSE \<rparr>) (rt_sched_remove_thread t s)"
  have q: "queue_inv s" using k by (simp add: kernel_inv_def sched_inv_def)
  have "queue_inv x" unfolding x_def by (rule remove_set_inv(1)[OF q]) simp_all
  then have qc: "queue_inv ?c"
    by (subst queue_inv_cong[of _ x]) (simp_all add: x_def closed_thread_def rt_sched_thread_close_def rt_timer_detach_def
      timer_remove_def clear_tflag_def Let_def)
  show u: "unlinked ?c t" by (simp add: unlinked_def closed_thread_fields)
  have ro: "run_ok ?c" using k
    by (auto simp: kernel_inv_def sched_inv_def run_ok_def closed_thread_state closed_thread_fields)
  have "suspended ?c u \<Longrightarrow> u \<noteq> t \<and> suspended s u" for u
    by (auto simp: suspended_def closed_thread_state stat_defs split: if_splits)
  then have tt: "ttmr_ok ?c" using k
    by (auto simp: kernel_inv_def ttmr_ok_def closed_thread_fields)
  show "kernel_inv ?c" using qc ro tt by (simp add: kernel_inv_def sched_inv_def)
  have "queue_inv (rt_thread_defunct_enqueue t ?c)"
    by (rule defunct_queue_inv[OF qc u]) (simp add: closed_thread_state)
  moreover have "run_ok (rt_thread_defunct_enqueue t ?c)" "ttmr_ok (rt_thread_defunct_enqueue t ?c)"
    using ro tt by (simp_all add: run_ok_def ttmr_ok_def suspended_def thread_state_def rt_thread_defunct_enqueue_def)
  ultimately show "kernel_inv (rt_thread_defunct_enqueue t ?c)" by (simp add: kernel_inv_def sched_inv_def)
qed

text \<open>A closed current thread loses the processor at the next scheduling point.\<close>

lemma schedule_highest_other:
  assumes i: "sched_inv s" and c: "rt_current_thread s = Some t" "thread_state s t = RT_THREAD_CLOSE"
    and l: "rt_scheduler_lock_nest s = 0" and w: "thread_state s w = RT_THREAD_READY"
  obtains h where "rt_thread_self (rt_schedule s) = Some h" and "h \<noteq> t" and "thread_state (rt_schedule s) h = RT_THREAD_RUNNING"
    and "\<And>u. thread_state (rt_schedule s) u = RT_THREAD_READY \<Longrightarrow>
      current_priority (thread_of (rt_schedule s) h) \<le> current_priority (thread_of (rt_schedule s) u)"
proof -
  obtain h where h: "rt_current_thread (rt_schedule s) = Some h" "thread_state (rt_schedule s) h = RT_THREAD_RUNNING"
    "\<forall>u. thread_state (rt_schedule s) u = RT_THREAD_READY \<longrightarrow>
      current_priority (thread_of (rt_schedule s) h) \<le> current_priority (thread_of (rt_schedule s) u)"
    using schedule_highest[OF i c(1) l, of w] w by auto
  moreover have "h \<noteq> t" using h(2) schedule_states(2)[OF i, of t] c(2) by auto
  ultimately show thesis using that by (simp add: rt_thread_self_def)
qed

text \<open>The end of a thread. When the running thread returns from its entry function, with the scheduler unlocked
  and another thread ready, then the kernel invariant is kept, the thread is closed, first in the queue of
  threads to be reclaimed, its timer is stopped and in no list, and the processor goes to
  a ready thread that no other ready thread beats.\<close>

theorem thread_exit_closes:
  assumes k: "kernel_inv s" and c: "rt_thread_self s = Some t" and l: "rt_scheduler_lock_nest s = 0"
    and w: "thread_state s w = RT_THREAD_READY"
  shows "\<exists>s' h. thread_exit s = Some s' \<and> kernel_inv s' \<and> thread_state s' t = RT_THREAD_CLOSE \<and>
    thread_lists s' DefunctQ = t # removeAll t (thread_lists s DefunctQ) \<and>
    (\<forall>k. ThreadTimer t \<notin> set (timer_lists s' k)) \<and> \<not> activated s' (ThreadTimer t) \<and>
    rt_thread_self s' = Some h \<and> h \<noteq> t \<and> thread_state s' h = RT_THREAD_RUNNING \<and>
    (\<forall>u. thread_state s' u = RT_THREAD_READY \<longrightarrow> current_priority (thread_of s' h) \<le> current_priority (thread_of s' u))"
proof -
  define s1 where "s1 = s\<lparr> rt_scheduler_lock_nest := 1 \<rparr>"
  define s2 where "s2 = rt_thread_defunct_enqueue t (closed_thread t s1)"
  define s3 where "s3 = s2\<lparr> rt_scheduler_lock_nest := 0 \<rparr>"
  have en: "rt_enter_critical s = (1, s1)" using l by (simp add: rt_enter_critical_def s1_def)
  have k1: "kernel_inv s1" using k by (subst kernel_inv_cong[of _ s]) (simp_all add: s1_def)
  have k3: "kernel_inv s3" using closed_thread_inv(3)[OF k1, of t] by (subst kernel_inv_cong[of _ s2]) (simp_all add: s2_def s3_def)
  then have i3: "sched_inv s3" by (simp add: kernel_inv_def)
  have st3: "thread_state s3 u = (if u = t then RT_THREAD_CLOSE else thread_state s u)" for u
    using closed_thread_state[of t s1 u] by (simp add: s3_def s2_def thread_state_def rt_thread_defunct_enqueue_def s1_def)
  have c3: "rt_current_thread s3 = Some t" "rt_scheduler_lock_nest s3 = 0"
    using c by (simp_all add: s3_def s2_def rt_thread_defunct_enqueue_def closed_thread_fields s1_def rt_thread_self_def)
  have "w \<noteq> t" using w c k by (auto simp: kernel_inv_def sched_inv_def run_ok_def rt_thread_self_def)
  then have w3: "thread_state s3 w = RT_THREAD_READY" using w st3 by simp
  obtain h where h: "rt_thread_self (rt_schedule s3) = Some h" "h \<noteq> t" "thread_state (rt_schedule s3) h = RT_THREAD_RUNNING"
    "\<And>u. thread_state (rt_schedule s3) u = RT_THREAD_READY \<Longrightarrow>
      current_priority (thread_of (rt_schedule s3) h) \<le> current_priority (thread_of (rt_schedule s3) u)"
    using schedule_highest_other[OF i3 c3(1) _ c3(2) w3] st3[of t] by auto
  have ex: "rt_exit_critical_safe 1 s2 = rt_schedule s3"
    using c3(1) by (simp add: rt_exit_critical_safe_def rt_exit_critical_def s3_def Let_def s2_def rt_thread_defunct_enqueue_def
        closed_thread_fields s1_def)
  have "thread_exit s = Some (rt_schedule s3)"
    using c h(1,2) by (simp add: thread_exit_def en closed_thread_def[symmetric] s2_def[symmetric] ex schedule_if_running_def Let_def)
  moreover have "thread_lists (rt_schedule s3) DefunctQ = t # removeAll t (thread_lists s DefunctQ)"
    using schedule_states(4)[OF i3, of DefunctQ]
    by (simp add: s3_def s2_def rt_thread_defunct_enqueue_def closed_thread_fields s1_def)
  moreover have "thread_state (rt_schedule s3) t = RT_THREAD_CLOSE" using schedule_states(2)[OF i3, of t] st3 by simp
  moreover have "ThreadTimer t \<notin> set (timer_lists (rt_schedule s3) k)" "\<not> activated (rt_schedule s3) (ThreadTimer t)" for k
    using closed_thread_fields(7)[of t s1]
    by (simp_all add: s3_def s2_def rt_thread_defunct_enqueue_def closed_thread_fields)
  ultimately show ?thesis using schedule_kernel_inv[OF k3] h by blast
qed

section \<open>Reclaiming dead threads\<close>

text \<open>One round of the loop, after the thread has left the queue.\<close>

definition reclaim :: "(tid \<Rightarrow> kstate \<Rightarrow> kstate) \<Rightarrow> tid \<Rightarrow> kstate \<Rightarrow> kstate" where
  "reclaim cleanup t s =
    (if rt_object_is_systemobject (OThread t) (registry s)
     then cleanup t (s\<lparr> registry := rt_object_detach (OThread t) (registry s) \<rparr>)
     else let s = cleanup t s in s\<lparr> registry := rt_object_delete (OThread t) (registry s) \<rparr>)"

lemma defunct_execute_step:
  "thread_lists s DefunctQ = [] \<Longrightarrow> rt_defunct_execute cleanup s = Some s"
  "thread_lists s DefunctQ = t # ts \<Longrightarrow> rt_defunct_execute cleanup s = rt_defunct_execute cleanup (reclaim cleanup t (unlink_thread t s))"
  by (subst rt_defunct_execute.simps, simp add: rt_thread_defunct_dequeue_def reclaim_def Let_def)+

text \<open>A clean-up function that leaves threads, lists and the object registry alone.\<close>

definition tidy :: "(tid \<Rightarrow> kstate \<Rightarrow> kstate) \<Rightarrow> bool" where
  "tidy cleanup \<longleftrightarrow> (\<forall>t s. thread_lists (cleanup t s) = thread_lists s \<and> thread_of (cleanup t s) = thread_of s \<and>
    rt_thread_ready_priority_group (cleanup t s) = rt_thread_ready_priority_group s \<and>
    rt_current_thread (cleanup t s) = rt_current_thread s \<and> timer_of (cleanup t s) = timer_of s \<and> registry (cleanup t s) = registry s)"

lemma reclaim_fields:
  assumes "tidy cleanup"
  shows "thread_lists (reclaim cleanup t s) = thread_lists s" and "thread_of (reclaim cleanup t s) = thread_of s"
    and "rt_current_thread (reclaim cleanup t s) = rt_current_thread s" and "kernel_inv (reclaim cleanup t s) = kernel_inv s"
    and "registered ob (registry (reclaim cleanup t s)) \<longleftrightarrow> registered ob (registry s) \<and> ob \<noteq> OThread t"
proof -
  note d = assms[unfolded tidy_def, rule_format]
  show "kernel_inv (reclaim cleanup t s) = kernel_inv s" by (rule kernel_inv_cong) (simp_all add: reclaim_def Let_def d)
qed (use assms[unfolded tidy_def, rule_format] in
    \<open>auto simp: reclaim_def Let_def registered_def rt_object_detach_def rt_object_delete_def\<close>)

lemma unlink_defunct:
  assumes k: "kernel_inv s" and q: "thread_lists s DefunctQ = t # ts"
  shows "kernel_inv (unlink_thread t s)" and "thread_lists (unlink_thread t s) l = (if l = DefunctQ then ts else thread_lists s l)"
    and "thread_state s t = RT_THREAD_CLOSE" and "t \<notin> set ts"
proof -
  have lo: "lists_ok s" and wo: "wait_ok s" using k by (simp_all add: kernel_inv_def sched_inv_def queue_inv_def)
  show c: "thread_state s t = RT_THREAD_CLOSE" using wo q by (simp add: wait_ok_def)
  have dt: "distinct (t # ts)" using lo q unfolding lists_ok_def by metis
  then show nt: "t \<notin> set ts" by simp
  have no: "t \<notin> set (thread_lists s l)" if "l \<noteq> DefunctQ" for l using lo q that unfolding lists_ok_def by (metis list.set_intros(1))
  show li: "thread_lists (unlink_thread t s) l = (if l = DefunctQ then ts else thread_lists s l)" for l
    using nt no[of l] q by simp
  have th: "thread_of (unlink_thread t s) = thread_of s" by simp
  have "queue_inv (unlink_thread t s)"
    using k q dt unfolding kernel_inv_def sched_inv_def queue_inv_defs suspended_def thread_state_def li th by auto
  then show "kernel_inv (unlink_thread t s)"
    using k by (simp add: kernel_inv_def sched_inv_def run_ok_def ttmr_ok_def suspended_def thread_state_def)
qed

lemma defunct_execute_spec:
  assumes "tidy cleanup" and "kernel_inv s"
  shows "\<exists>s'. rt_defunct_execute cleanup s = Some s' \<and> kernel_inv s' \<and> thread_of s' = thread_of s \<and>
    rt_current_thread s' = rt_current_thread s \<and> (\<forall>l. thread_lists s' l = (if l = DefunctQ then [] else thread_lists s l)) \<and>
    (\<forall>ob. registered ob (registry s') \<longleftrightarrow> registered ob (registry s) \<and> ob \<notin> OThread ` set (thread_lists s DefunctQ))"
  using assms(2)
proof (induction "thread_lists s DefunctQ" arbitrary: s)
  case Nil
  then show ?case by (auto simp: defunct_execute_step(1))
next
  case (Cons t ts)
  note q = Cons.hyps(2)[symmetric]
  note u = unlink_defunct[OF Cons.prems q]
  let ?s = "reclaim cleanup t (unlink_thread t s)"
  note f = reclaim_fields[OF assms(1), where t = t and s = "unlink_thread t s"]
  have "thread_lists ?s DefunctQ = ts" by (simp only: f(1) u(2) simp_thms if_True)
  from Cons.hyps(1)[of ?s, OF this[symmetric]] u(1) obtain s' where
    s': "rt_defunct_execute cleanup ?s = Some s'" "kernel_inv s'" "thread_of s' = thread_of ?s"
    "rt_current_thread s' = rt_current_thread ?s" "\<forall>l. thread_lists s' l = (if l = DefunctQ then [] else thread_lists ?s l)"
    "\<forall>ob. registered ob (registry s') \<longleftrightarrow> registered ob (registry ?s) \<and> ob \<notin> OThread ` set ts"
    using f(4) \<open>thread_lists ?s DefunctQ = ts\<close> by auto
  have "thread_lists s' l = (if l = DefunctQ then [] else thread_lists s l)" for l
    using s'(5) unfolding f(1) u(2) by simp
  moreover have "registered ob (registry s') \<longleftrightarrow> registered ob (registry s) \<and> ob \<notin> OThread ` set (thread_lists s DefunctQ)" for ob
    using s'(6) q by (auto simp: f(5))
  ultimately show ?case using s'(1-4) defunct_execute_step(2)[OF q] by (auto simp: f)
qed

text \<open>The idle thread reclaims every dead thread: the loop of \<open>rt_defunct_execute\<close> ends, the kernel invariant is kept, the queue of dead
  threads is empty, no other list changes, exactly the dead threads have left the object registry,
  and each of them may be initialised again.\<close>

theorem defunct_execute_reclaims:
  assumes "tidy cleanup" and "kernel_inv s" and "rt_thread_self s = Some idle" and "thread_state s idle = RT_THREAD_RUNNING"
  shows "\<exists>s'. rt_defunct_execute cleanup s = Some s' \<and> kernel_inv s' \<and>
    (\<forall>l. thread_lists s' l = (if l = DefunctQ then [] else thread_lists s l)) \<and>
    (\<forall>ob. registered ob (registry s') \<longleftrightarrow> registered ob (registry s) \<and> ob \<notin> OThread ` set (thread_lists s DefunctQ)) \<and>
    (\<forall>t \<in> set (thread_lists s DefunctQ). fresh_thread t s')"
proof -
  obtain s' where s': "rt_defunct_execute cleanup s = Some s'" "kernel_inv s'" "thread_of s' = thread_of s"
    "rt_current_thread s' = rt_current_thread s" "\<forall>l. thread_lists s' l = (if l = DefunctQ then [] else thread_lists s l)"
    "\<forall>ob. registered ob (registry s') \<longleftrightarrow> registered ob (registry s) \<and> ob \<notin> OThread ` set (thread_lists s DefunctQ)"
    using defunct_execute_spec[OF assms(1,2)] by blast
  have "fresh_thread t s'" if t: "t \<in> set (thread_lists s DefunctQ)" for t
  proof -
    have c: "thread_state s t = RT_THREAD_CLOSE" and o: "\<And>l. t \<in> set (thread_lists s l) \<Longrightarrow> l = DefunctQ"
      using assms(2) t by (auto simp: kernel_inv_def sched_inv_def queue_inv_def wait_ok_def lists_ok_def)
    then show ?thesis using s'(3-5) assms(3,4) by (auto simp: fresh_thread_def unlinked_def thread_state_def rt_thread_self_def)
  qed
  then show ?thesis using s' by blast
qed

section \<open>Mutexes of dead threads\<close>

lemma release_other_keeps:
  assumes c: "rt_current_thread s = Some c" and o: "mutex_owner (mutex_of s m) \<noteq> Some c" and l: "rt_scheduler_lock_nest s > 0"
  defines "s' \<equiv> snd (rt_mutex_release m s)"
  shows "mutex_of s' = mutex_of s" and "rt_current_thread s' = rt_current_thread s"
    and "rt_scheduler_lock_nest s' = rt_scheduler_lock_nest s" and "thread_lists s' = thread_lists s"
    and "thread_state s' = thread_state s" and "kernel_inv s \<Longrightarrow> kernel_inv s'"
proof -
  have s': "s' = upd_thread c (\<lambda>x. x\<lparr> thread_error := - RT_ERROR \<rparr>) s"
    using c o l by (simp add: s'_def rt_mutex_release_def rt_thread_self_def rt_spin_lock_def rt_spin_unlock_def rt_enter_critical_def
      rt_exit_critical_def Let_def upd_thread_def)
  show "mutex_of s' = mutex_of s" and "rt_current_thread s' = rt_current_thread s"
    and "rt_scheduler_lock_nest s' = rt_scheduler_lock_nest s" and "thread_lists s' = thread_lists s"
    and "thread_state s' = thread_state s" and "kernel_inv s \<Longrightarrow> kernel_inv s'"
    by (simp_all add: s' thread_state_def fun_eq_iff upd_error_simps)
qed

lemma release_all_keeps:
  assumes "rt_current_thread s = Some c" and "\<And>m. m \<in> set ms \<Longrightarrow> mutex_owner (mutex_of s m) \<noteq> Some c"
    and "rt_scheduler_lock_nest s > 0"
  defines "s' \<equiv> fold (\<lambda>m s. snd (rt_mutex_release m s)) ms s"
  shows "mutex_of s' = mutex_of s \<and> rt_current_thread s' = rt_current_thread s \<and> rt_scheduler_lock_nest s' = rt_scheduler_lock_nest s \<and>
    thread_lists s' = thread_lists s \<and> thread_state s' = thread_state s \<and> (kernel_inv s \<longrightarrow> kernel_inv s')"
  using assms(1-3) unfolding s'_def
proof (induction ms arbitrary: s)
  case (Cons m ms)
  have o: "mutex_owner (mutex_of s m) \<noteq> Some c" using Cons.prems(2) by simp
  note r = release_other_keeps[OF Cons.prems(1) o Cons.prems(3)]
  show ?case using Cons.IH[of "snd (rt_mutex_release m s)"] Cons.prems r by simp
qed simp

text \<open>Deleting another thread does not free its mutexes. A started thread that waits for no mutex is closed by \<open>rt_thread_delete\<close> (and by
  \<open>rt_thread_detach\<close>), the kernel invariant is kept and the thread is queued to be reclaimed; but \<open>rt_mutex_release\<close>
  refuses the caller, who is not the owner, so that every mutex of the dead thread is still
  owned by it.\<close>

theorem thread_delete_keeps_mutexes:
  assumes k: "kernel_inv s" and c: "rt_thread_self s = Some c" "c \<noteq> t" and l: "rt_scheduler_lock_nest s \<ge> 0"
    and st: "thread_state s t \<notin> {RT_THREAD_INIT, RT_THREAD_CLOSE}" and p: "pending_object (thread_of s t) = None"
    and o: "\<And>m. m \<in> set (taken_object_list (thread_of s t)) \<Longrightarrow> mutex_owner (mutex_of s m) = Some t"
  shows "\<exists>s'. rt_thread_delete t s = Some (RT_EOK, s') \<and> kernel_inv s' \<and> thread_state s' t = RT_THREAD_CLOSE \<and>
    thread_lists s' DefunctQ = t # thread_lists s DefunctQ \<and> mutex_of s' = mutex_of s"
proof -
  define n where "n = rt_scheduler_lock_nest s + 1"
  define s1 where "s1 = s\<lparr> rt_scheduler_lock_nest := n \<rparr>"
  define s2 where "s2 = closed_thread t s1"
  define s3 where "s3 = fold (\<lambda>m s. snd (rt_mutex_release m s)) (taken_object_list (thread_of s t)) s2"
  define s4 where "s4 = rt_thread_defunct_enqueue t s3"
  have en: "rt_enter_critical s = (n, s1)" by (simp add: rt_enter_critical_def s1_def n_def)
  have k1: "kernel_inv s1" using k by (subst kernel_inv_cong[of _ s]) (simp_all add: s1_def)
  have c2: "rt_current_thread s2 = Some c" "rt_scheduler_lock_nest s2 > 0" "mutex_of s2 = mutex_of s"
    using c l by (simp_all add: s2_def closed_thread_fields s1_def rt_thread_self_def n_def)
  have "\<And>m. m \<in> set (taken_object_list (thread_of s t)) \<Longrightarrow> mutex_owner (mutex_of s2 m) \<noteq> Some c" using o c(2) c2(3) by simp
  note r3 = release_all_keeps[OF c2(1) this c2(2), of "taken_object_list (thread_of s t)", folded s3_def]
  have f3: "mutex_of s3 = mutex_of s" "rt_current_thread s3 = Some c" "rt_scheduler_lock_nest s3 = n" "thread_lists s3 = thread_lists s2"
      "thread_state s3 = thread_state s2" "kernel_inv s3"
    using r3 c2 closed_thread_inv(1)[OF k1, of t] by (simp_all add: s2_def closed_thread_fields s1_def)
  have st3: "thread_state s3 t = RT_THREAD_CLOSE" by (simp add: f3(5) s2_def closed_thread_state)
  have u3: "unlinked s3 t" using closed_thread_inv(2)[OF k1, of t] by (simp add: unlinked_def f3(4) s2_def)
  have k4: "kernel_inv s4"
  proof -
    have "queue_inv s4" unfolding s4_def by (rule defunct_queue_inv[OF _ u3 st3]) (use f3(6) in \<open>simp add: kernel_inv_def sched_inv_def\<close>)
    then show ?thesis
      using f3(6) by (simp add: kernel_inv_def sched_inv_def s4_def run_ok_def ttmr_ok_def suspended_def thread_state_def
          rt_thread_defunct_enqueue_def)
  qed
  define s' where "s' = rt_exit_critical_safe n s4"
  have call: "rt_thread_delete t s = Some (RT_EOK, s')"
    using st p by (simp add: rt_thread_delete_def thread_detach_def en rt_sched_thread_get_stat_def thread_state_def tst_def
        closed_thread_def[symmetric] thread_detach_from_mutex_def s2_def s3_def s4_def s'_def closed_thread_fields s1_def Let_def)
  define s5 where "s5 = s4\<lparr> rt_scheduler_lock_nest := n - 1 \<rparr>"
  have k5: "kernel_inv s5" using k4 by (subst kernel_inv_cong[of _ s4]) (simp_all add: s5_def)
  have s': "s' = s5 \<or> s' = rt_schedule s5"
    using l by (auto simp: s'_def rt_exit_critical_safe_def rt_exit_critical_def Let_def s5_def s4_def f3 rt_thread_defunct_enqueue_def n_def)
  have nt: "t \<notin> set (thread_lists s DefunctQ)"
    using st k by (auto simp: kernel_inv_def sched_inv_def queue_inv_def wait_ok_def)
  have f5: "thread_lists s5 DefunctQ = t # thread_lists s DefunctQ" "thread_state s5 t = RT_THREAD_CLOSE" "mutex_of s5 = mutex_of s"
    using st3 nt f3(1) by (simp_all add: s5_def s4_def rt_thread_defunct_enqueue_def f3(4) s2_def closed_thread_fields s1_def thread_state_def)
  have i5: "sched_inv s5" using k5 by (simp add: kernel_inv_def)
  have "thread_lists s' DefunctQ = t # thread_lists s DefunctQ" "thread_state s' t = RT_THREAD_CLOSE" "mutex_of s' = mutex_of s" "kernel_inv s'"
    using s' f5 k5 schedule_states(2,4)[OF i5] schedule_kernel_inv[OF k5] by auto
  then show ?thesis using call by blast
qed

section \<open>Worked examples\<close>

lemma demo_may_sleep: "may_sleep 0 demo_kernel 1"
proof -
  have "timeout_func (timer_of demo_kernel (ThreadTimer t)) = thread_timeout_fn" "parameter (timer_of demo_kernel (ThreadTimer t)) = t"
    "\<not> periodic demo_kernel (ThreadTimer t)" "timeout_func (timer_of demo_kernel (Timer i)) \<noteq> thread_timeout_fn"
    "timer_lists demo_kernel l = []" for t i l
    by (simp_all add: demo_kernel_def idle_timer_def timer_flag_defs flag_set_def)
  then show ?thesis using demo_kernel_inv demo_may_block
    by (simp add: may_sleep_def sleep_ok_def armed_def timers_ordered_def)
qed

lemma demo_none_suspended: "\<not> suspended demo_kernel t"
  using demo_states(1)[of t] by (auto simp: suspended_def stat_defs)

lemma demo_fresh_thread: "fresh_thread 5 demo_kernel"
  using demo_states(1)[of 5] by (simp add: fresh_thread_def unlinked_def demo_lists)

text \<open>Thread 1 sleeps for one tick; no other timer is armed.\<close>

theorem thread_delay_lasts_witness:
  "\<exists>s'. rt_tick_increase (\<lambda>_ _ s. s) (snd (rt_thread_delay 1 demo_kernel)) = Some s' \<and>
    suspended (snd (rt_thread_delay 1 demo_kernel)) 1 \<and> \<not> suspended s' 1"
proof -
  let ?u = "\<lambda>_ _ s. s" and ?s0 = "snd (rt_thread_delay 1 demo_kernel)"
  have d: "(1 :: u32) \<noteq> 0" "rt_tick demo_kernel + 1 - 0 < RT_TICK_MAX_HALF" by (simp_all add: demo_kernel_def RT_TICK_MAX_HALF_def)
  obtain s0 where s0: "thread_sleep 1 demo_kernel = (Blocked, s0)" "sleep_ok s0" "armed 0 HardTimers s0"
    "timer_lists s0 HardProcessing = []" "rt_tick s0 = rt_tick demo_kernel"
    "set (timer_lists s0 HardTimers) = insert (ThreadTimer 1) (set (timer_lists demo_kernel HardTimers))"
    by (rule sleep_state[OF demo_may_sleep d])
  have call: "rt_thread_delay (of_nat 1) demo_kernel = (Blocked, s0)" using s0(1) by (simp add: rt_thread_delay_def)
  have tk: "tick_ok 0 s0" using s0(2,5,6) by (auto simp: tick_ok_def period_ok_def sleep_ok_def demo_kernel_def RT_TICK_MAX_HALF_def)
  obtain s1 where s1: "rt_tick_increase ?u s0 = Some s1"
    using tick_effects[OF calm_nothing(1) s0(2-4)] tk by (auto simp: tick_ok_def)
  have run: "time_run ?u 0 1 (Suc 0) s0 s1" by (rule time_run.tick[OF time_run.start tk s1])
  have n: "0 < (1 :: nat)" "1 < (0x7FFFFFFF :: nat)" "rt_tick demo_kernel + of_nat 1 - 0 < RT_TICK_MAX_HALF" using d(2) by simp_all
  from thread_delay_lasts[OF calm_nothing(1) demo_may_sleep n, unfolded call Let_def prod.case] run
  have "suspended s0 1 \<and> suspended s1 1 = (Suc 0 < 1)" by (auto simp del: of_nat_1)
  then show ?thesis using call s1 by simp
qed

theorem mdelay_negative_wakes_at_once_witness:
  "\<exists>s'. rt_tick_increase (\<lambda>_ _ s. s) (snd (rt_thread_mdelay (- 1) (demo_kernel\<lparr> rt_tick := 100 \<rparr>))) = Some s' \<and> \<not> suspended s' 1"
proof -
  let ?s = "demo_kernel\<lparr> rt_tick := 100 \<rparr>"
  have ms: "may_sleep 0 ?s 1"
    using demo_may_sleep kernel_inv_cong[of ?s demo_kernel]
    by (simp add: may_sleep_def may_block_def sleep_ok_def armed_def timer_ready_def thread_state_def suspended_def rt_thread_self_def)
  have d: "rt_tick ?s - 1 - 0 < RT_TICK_MAX_HALF" "rt_tick ?s + - 1 - 0 < RT_TICK_MAX_HALF" "(- 1 :: u32) \<noteq> 0"
    by (simp_all add: RT_TICK_MAX_HALF_def)
  obtain s0 where s0: "thread_sleep (- 1) ?s = (Blocked, s0)" "sleep_ok s0" "rt_tick s0 = rt_tick ?s"
    "set (timer_lists s0 HardTimers) = insert (ThreadTimer 1) (set (timer_lists ?s HardTimers))"
    by (rule sleep_state[OF ms d(3,2)])
  have "tick_ok 0 (snd (rt_thread_mdelay (- 1) ?s))"
    using s0 by (auto simp: rt_thread_mdelay_def rt_tick_from_millisecond_def tick_ok_def period_ok_def sleep_ok_def demo_kernel_def
        RT_TICK_MAX_HALF_def)
  from mdelay_negative_wakes_at_once[OF calm_nothing(1) ms _ d(1) this] show ?thesis by auto
qed

theorem thread_start_makes_ready_witness:
  "thread_state (snd (rt_thread_startup 5 (snd (rt_thread_init 5 [109] 3 20 demo_kernel)))) 5 \<in> {RT_THREAD_READY, RT_THREAD_RUNNING}"
proof -
  have "\<not> sched_flag_ttmr_set (thread_of demo_kernel 5)" by (simp add: demo_kernel_def blank_thread_def)
  from thread_start_makes_ready[OF demo_kernel_inv demo_fresh_thread _ this, of 3] show ?thesis by (simp add: RT_THREAD_PRIORITY_MAX_def)
qed

theorem thread_restart_stays_suspended_witness:
  "let s = upd_thread 5 (\<lambda>x. x\<lparr> sched_flag_ttmr_set := True \<rparr>) demo_kernel
   in suspended (snd (rt_thread_startup 5 (snd (rt_thread_init 5 [109] 3 20 s)))) 5"
proof -
  define s where "s = upd_thread 5 (\<lambda>x. x\<lparr> sched_flag_ttmr_set := True \<rparr>) demo_kernel"
  have st: "thread_state s u = thread_state demo_kernel u" for u by (simp add: s_def thread_state_def)
  have "kernel_inv s" using demo_kernel_inv neutral_inv(3)[of demo_kernel 5 "\<lambda>x. x\<lparr> sched_flag_ttmr_set := True \<rparr>"]
      demo_none_suspended st by (simp add: kernel_inv_def ttmr_ok_def suspended_def) (simp add: s_def sched_neutral_def)
  moreover have "fresh_thread 5 s" using demo_fresh_thread st[of 5] by (simp add: fresh_thread_def unlinked_def s_def)
  moreover have "sched_flag_ttmr_set (thread_of s 5)" by (simp add: s_def)
  ultimately show ?thesis
    using thread_restart_stays_suspended[of s 5 3] by (simp add: RT_THREAD_PRIORITY_MAX_def s_def Let_def)
qed

theorem thread_exit_closes_witness: "\<exists>s'. thread_exit demo_kernel = Some s' \<and> thread_lists s' DefunctQ = [1]"
  using thread_exit_closes[OF demo_kernel_inv, of 1 2] demo_states(1)[of 2]
  by (auto simp: rt_thread_self_def demo_lists)

theorem defunct_execute_reclaims_witness:
  "let s = rt_thread_defunct_enqueue 2 (closed_thread 2 demo_kernel)
   in \<exists>s'. rt_defunct_execute (\<lambda>_ s. s) s = Some s' \<and> thread_lists s DefunctQ = [2] \<and> thread_lists s' DefunctQ = [] \<and> fresh_thread 2 s'"
proof -
  define s where "s = rt_thread_defunct_enqueue 2 (closed_thread 2 demo_kernel)"
  have k: "kernel_inv s" unfolding s_def by (rule closed_thread_inv(3)[OF demo_kernel_inv])
  have r: "rt_thread_self s = Some 1" "thread_lists s DefunctQ = [2]" "thread_state s 1 = RT_THREAD_RUNNING"
    using closed_thread_state[of 2 demo_kernel 1] demo_states(1)[of 1]
    by (simp_all add: s_def rt_thread_defunct_enqueue_def closed_thread_fields rt_thread_self_def demo_lists thread_state_def)
  have "tidy (\<lambda>_ s. s)" by (simp add: tidy_def)
  from defunct_execute_reclaims[OF this k r(1,3)] r(2) show ?thesis by (auto simp: Let_def s_def[symmetric])
qed

theorem thread_delete_keeps_mutexes_witness:
  "let s = upd_thread 2 (\<lambda>x. x\<lparr> taken_object_list := [0] \<rparr>) (upd_mutex 0 (\<lambda>x. x\<lparr> mutex_owner := Some 2, mutex_hold := 1 \<rparr>) demo_kernel)
   in \<exists>s'. rt_thread_delete 2 s = Some (RT_EOK, s') \<and> thread_state s' 2 = RT_THREAD_CLOSE \<and> mutex_owner (mutex_of s' 0) = Some 2"
proof -
  define m where "m = upd_mutex 0 (\<lambda>x. x\<lparr> mutex_owner := Some 2, mutex_hold := 1 \<rparr>) demo_kernel"
  define s where "s = upd_thread 2 (\<lambda>x. x\<lparr> taken_object_list := [0] \<rparr>) m"
  have "kernel_inv m" using demo_kernel_inv by (subst kernel_inv_cong[of _ demo_kernel]) (simp_all add: m_def)
  then have k: "kernel_inv s" unfolding s_def by (rule neutral_kernel_inv[rotated 2]) (simp_all add: sched_neutral_def)
  have st: "thread_state s 2 = RT_THREAD_READY" using demo_states(1)[of 2] by (simp add: s_def m_def thread_state_def)
  have o: "mutex_owner (mutex_of s 0) = Some 2" by (simp add: s_def m_def upd_mutex_def)
  have c: "rt_thread_self s = Some 1" "rt_scheduler_lock_nest s \<ge> 0" "pending_object (thread_of s 2) = None"
    "taken_object_list (thread_of s 2) = [0]"
    by (simp_all add: s_def m_def rt_thread_self_def demo_lists) (simp add: demo_kernel_def started_thread_def blank_thread_def)
  from thread_delete_keeps_mutexes[OF k c(1) _ c(2) _ c(3)] st o c(4) show ?thesis
    by (auto simp: Let_def s_def[symmetric] m_def[symmetric])
qed

end
