(* ===== verification/WorkQueue.thy ===== *)
theory WorkQueue
  imports ThreadLife
begin

text \<open>
  Work queues of the device drivers (\<open>rt-thread/components/drivers/ipc/workqueue.c\<close>): a thread runs work items
  in the order of their submission; an item can be submitted with a delay, which is a software timer of the item. The state is that of the
  queues and items together with the kernel state; the timer of item \<open>w\<close> is \<open>Timer w\<close>. The list node of an item is linked into
  at most one list, so unlinking it removes it from all of them. The
  loop of the worker thread is split into its turns: finding work or going to sleep, and what follows the
  item's function, which is code of the client. The system work queue is configured out.
\<close>

section \<open>Data\<close>

type_synonym wid = nat

definition RT_WORK_STATE_PENDING :: u16 where "RT_WORK_STATE_PENDING = 0x0001"
definition RT_WORK_STATE_SUBMITTING :: u16 where "RT_WORK_STATE_SUBMITTING = 0x0002"

record rt_work =
  work_flags :: u16
  work_workqueue :: "oid option"

record rt_workqueue =
  work_list :: "wid list"
  delayed_list :: "wid list"
  work_current :: "wid option"
  wq_sem :: oid
  work_thread :: tid

record works =
  wq_of :: "oid \<Rightarrow> rt_workqueue"
  work_of :: "wid \<Rightarrow> rt_work"

definition upd_wq :: "oid \<Rightarrow> (rt_workqueue \<Rightarrow> rt_workqueue) \<Rightarrow> works \<Rightarrow> works" where
  "upd_wq i f W = W\<lparr> wq_of := (wq_of W)(i := f (wq_of W i)) \<rparr>"

definition upd_work :: "wid \<Rightarrow> (rt_work \<Rightarrow> rt_work) \<Rightarrow> works \<Rightarrow> works" where
  "upd_work w f W = W\<lparr> work_of := (work_of W)(w := f (work_of W w)) \<rparr>"

text \<open>\<open>rt_list_remove(&work->list)\<close>\<close>

definition unlink_work :: "wid \<Rightarrow> works \<Rightarrow> works" where
  "unlink_work w W = W\<lparr> wq_of := (\<lambda>i. (wq_of W i)\<lparr> work_list := removeAll w (work_list (wq_of W i)),
     delayed_list := removeAll w (delayed_list (wq_of W i)) \<rparr>) \<rparr>"

definition set_wflag :: "u16 \<Rightarrow> wid \<Rightarrow> works \<Rightarrow> works" where
  "set_wflag f w W = upd_work w (\<lambda>x. x\<lparr> work_flags := work_flags x OR f \<rparr>) W"

definition clear_wflag :: "u16 \<Rightarrow> wid \<Rightarrow> works \<Rightarrow> works" where
  "clear_wflag f w W = upd_work w (\<lambda>x. x\<lparr> work_flags := work_flags x AND NOT f \<rparr>) W"

definition wflag :: "u16 \<Rightarrow> wid \<Rightarrow> works \<Rightarrow> bool" where
  "wflag f w W \<longleftrightarrow> work_flags (work_of W w) AND f \<noteq> 0"

definition delayed_work_fn :: nat where "delayed_work_fn = 1"

section \<open>Operations\<close>

text \<open>The end of several operations: wake the worker thread when it is not doing work.\<close>

definition wake_worker :: "oid \<Rightarrow> works \<Rightarrow> kstate \<Rightarrow> kstate" where
  "wake_worker i W s =
    (if work_current (wq_of W i) = None then snd (rt_thread_resume (work_thread (wq_of W i)) s) else s)"

definition workqueue_submit_work :: "oid \<Rightarrow> wid \<Rightarrow> u32 \<Rightarrow> works \<Rightarrow> kstate \<Rightarrow> int \<times> works \<times> kstate" where
  "workqueue_submit_work i w ticks W s =
    (let W = unlink_work w W;
         W = clear_wflag RT_WORK_STATE_PENDING w W
     in if ticks = 0 then
          let W = upd_wq i (\<lambda>q. q\<lparr> work_list := work_list q @ [w] \<rparr>) W;
              W = set_wflag RT_WORK_STATE_PENDING w W;
              W = upd_work w (\<lambda>x. x\<lparr> work_workqueue := Some i \<rparr>) W
          in (RT_EOK, W, wake_worker i W s)
        else if ticks < RT_TICK_MAX_HALF then
          let (W, s) = (if wflag RT_WORK_STATE_SUBMITTING w W
                then (W, snd (rt_timer_control (Timer w) (TIMER_CTRL_SET_TIME ticks) s))
                else (set_wflag RT_WORK_STATE_SUBMITTING w W,
                      rt_timer_init (Timer w) (map of_char ''work'') (user_fn delayed_work_fn) w ticks
                        (RT_TIMER_FLAG_ONE_SHOT OR RT_TIMER_FLAG_SOFT_TIMER) s));
              W = upd_work w (\<lambda>x. x\<lparr> work_workqueue := Some i \<rparr>) W;
              W = upd_wq i (\<lambda>q. q\<lparr> delayed_list := delayed_list q @ [w] \<rparr>) W;
              (err, s) = rt_timer_start (Timer w) s
          in (err, W, s)
        else (- RT_ERROR, W, s))"

definition workqueue_cancel_work :: "oid \<Rightarrow> wid \<Rightarrow> works \<Rightarrow> kstate \<Rightarrow> int \<times> works \<times> kstate" where
  "workqueue_cancel_work i w W s =
    (let W = unlink_work w W;
         W = clear_wflag RT_WORK_STATE_PENDING w W;
         (err, s) = (if wflag RT_WORK_STATE_SUBMITTING w W then rt_timer_stop (Timer w) s else (RT_EOK, s))
     in if err \<noteq> RT_EOK then (err, W, s)
        else
          let (W, s) = (if wflag RT_WORK_STATE_SUBMITTING w W
                then (clear_wflag RT_WORK_STATE_SUBMITTING w W, snd (rt_timer_detach (Timer w) s)) else (W, s));
              err = (if work_current (wq_of W i) \<noteq> Some w then RT_EOK else - RT_EBUSY);
              W = upd_work w (\<lambda>x. x\<lparr> work_workqueue := None \<rparr>) W
          in (err, W, s))"

text \<open>The timer handler; \<open>None\<close> stands for the null pointer that it dereferences when the item belongs to no queue.\<close>

definition delayed_work_timeout_handler :: "wid \<Rightarrow> works \<Rightarrow> kstate \<Rightarrow> (works \<times> kstate) option" where
  "delayed_work_timeout_handler w W s =
    (case work_workqueue (work_of W w) of None \<Rightarrow> None
     | Some i \<Rightarrow>
        let s = snd (rt_timer_detach (Timer w) s);
            W = clear_wflag RT_WORK_STATE_SUBMITTING w W;
            W = unlink_work w W;
            W = (if work_current (wq_of W i) \<noteq> Some w
                 then set_wflag RT_WORK_STATE_PENDING w (upd_wq i (\<lambda>q. q\<lparr> work_list := work_list q @ [w] \<rparr>) W) else W)
        in Some (W, wake_worker i W s))"

text \<open>A new item, whose node is in no list.\<close>

definition rt_work_init :: "wid \<Rightarrow> works \<Rightarrow> works" where
  "rt_work_init w W = upd_work w (\<lambda>_. \<lparr> work_flags = 0, work_workqueue = None \<rparr>) W"

definition rt_workqueue_dowork :: "oid \<Rightarrow> wid \<Rightarrow> works \<Rightarrow> kstate \<Rightarrow> int \<times> works \<times> kstate" where
  "rt_workqueue_dowork i w W s = workqueue_submit_work i w 0 W s"

definition rt_workqueue_submit_work :: "oid \<Rightarrow> wid \<Rightarrow> u32 \<Rightarrow> works \<Rightarrow> kstate \<Rightarrow> int \<times> works \<times> kstate" where
  "rt_workqueue_submit_work i w ticks W s = workqueue_submit_work i w ticks W s"

definition rt_workqueue_urgent_work :: "oid \<Rightarrow> wid \<Rightarrow> works \<Rightarrow> kstate \<Rightarrow> int \<times> works \<times> kstate" where
  "rt_workqueue_urgent_work i w W s =
    (let W = unlink_work w W;
         W = upd_wq i (\<lambda>q. q\<lparr> work_list := w # work_list q \<rparr>) W
     in (RT_EOK, W, wake_worker i W s))"

definition rt_workqueue_cancel_work :: "oid \<Rightarrow> wid \<Rightarrow> works \<Rightarrow> kstate \<Rightarrow> int \<times> works \<times> kstate" where
  "rt_workqueue_cancel_work i w W s = workqueue_cancel_work i w W s"

text \<open>Waiting for the item that is being executed is a wait for the semaphore of the queue.\<close>

definition rt_workqueue_cancel_work_sync :: "oid \<Rightarrow> wid \<Rightarrow> works \<Rightarrow> kstate \<Rightarrow> ret \<times> works \<times> kstate" where
  "rt_workqueue_cancel_work_sync i w W s =
    (if work_current (wq_of W i) = Some w
     then (case rt_sem_take (wq_sem (wq_of W i)) (- 1) s of (Ret _, s) \<Rightarrow> (Ret RT_EOK, W, s) | (r, s) \<Rightarrow> (r, W, s))
     else let (_, W, s) = workqueue_cancel_work i w W s in (Ret RT_EOK, W, s))"

text \<open>A cancelled item leaves its list, so the length of the list is enough rounds.\<close>

fun cancel_list :: "(rt_workqueue \<Rightarrow> wid list) \<Rightarrow> nat \<Rightarrow> oid \<Rightarrow> works \<Rightarrow> kstate \<Rightarrow> works \<times> kstate" where
  "cancel_list l 0 i W s = (W, s)"
| "cancel_list l (Suc n) i W s =
    (case l (wq_of W i) of [] \<Rightarrow> (W, s)
     | w # _ \<Rightarrow> (case workqueue_cancel_work i w W s of (_, W, s) \<Rightarrow> cancel_list l n i W s))"

definition rt_workqueue_cancel_all_work :: "oid \<Rightarrow> works \<Rightarrow> kstate \<Rightarrow> int \<times> works \<times> kstate" where
  "rt_workqueue_cancel_all_work i W s =
    (let s = snd (rt_enter_critical s);
         (W, s) = cancel_list work_list (length (work_list (wq_of W i))) i W s;
         (W, s) = cancel_list delayed_list (length (delayed_list (wq_of W i))) i W s
     in (RT_EOK, W, rt_exit_critical s))"

text \<open>\<open>addr\<close> and \<open>t\<close> are what the allocator gives for the queue and for its thread, \<open>stack\<close> whether it has a stack for
  it; the semaphore inside the queue is \<open>sem\<close>.\<close>

definition rt_workqueue_create ::
  "oid option \<Rightarrow> oid \<Rightarrow> tid option \<Rightarrow> bool \<Rightarrow> byte list \<Rightarrow> u8 \<Rightarrow> works \<Rightarrow> kstate \<Rightarrow> oid option \<times> works \<times> kstate" where
  "rt_workqueue_create addr sem t stack name prio W s =
    (case addr of None \<Rightarrow> (None, W, s)
     | Some i \<Rightarrow>
        let W = upd_wq i (\<lambda>q. q\<lparr> work_list := [], delayed_list := [], work_current := None, wq_sem := sem \<rparr>) W;
            s = snd (rt_sem_init sem (map of_char ''wqueue'') 0 RT_IPC_FLAG_FIFO s)
        in case rt_thread_create t stack name prio 10 s of
             (None, s) \<Rightarrow> (None, W, snd (rt_sem_detach sem s))
           | (Some t, s) \<Rightarrow> (Some i, upd_wq i (\<lambda>q. q\<lparr> work_thread := t \<rparr>) W, snd (rt_thread_startup t s)))"

definition rt_workqueue_destroy :: "oid \<Rightarrow> works \<Rightarrow> kstate \<Rightarrow> (int \<times> works \<times> kstate) option" where
  "rt_workqueue_destroy i W s =
    (let (_, W, s) = rt_workqueue_cancel_all_work i W s
     in map_option (\<lambda>(_, s). (RT_EOK, W, snd (rt_sem_detach (wq_sem (wq_of W i)) s)))
          (rt_thread_delete (work_thread (wq_of W i)) s))"

section \<open>The worker thread\<close>

text \<open>A turn of the loop up to the call of the item's function: the item, if there is one. Without work the thread
  suspends itself, and takes the next turn when it runs again.\<close>

definition worker_turn :: "oid \<Rightarrow> works \<Rightarrow> kstate \<Rightarrow> wid option \<times> works \<times> kstate" where
  "worker_turn i W s =
    (case work_list (wq_of W i) of
       [] \<Rightarrow> (None, W,
          case rt_thread_self s of None \<Rightarrow> s
          | Some t \<Rightarrow> rt_schedule (snd (rt_thread_suspend_with_flag t RT_UNINTERRUPTIBLE s)))
     | w # _ \<Rightarrow>
        let W = unlink_work w W;
            W = upd_wq i (\<lambda>q. q\<lparr> work_current := Some w \<rparr>) W;
            W = clear_wflag RT_WORK_STATE_PENDING w W;
            W = upd_work w (\<lambda>x. x\<lparr> work_workqueue := None \<rparr>) W
        in (Some w, W, s))"

text \<open>The loop of \<open>_workqueue_work_completion\<close>: release the semaphore until nobody waits for it. A release can switch to
  the thread that it wakes; the worker then goes on with the loop when it runs again.\<close>

partial_function (option) work_completion :: "tid \<Rightarrow> oid \<Rightarrow> kstate \<Rightarrow> (ret \<times> kstate) option" where
  "work_completion t sem s =
    (case rt_sem_trytake sem s of (result, s) \<Rightarrow>
       if result = Ret (- RT_ETIMEOUT) then
         let s = snd (rt_sem_release sem s)
         in if rt_thread_self s \<noteq> Some t then Some (Blocked, s) else work_completion t sem s
       else if result = Ret RT_EOK then Some (Ret RT_EOK, s)
       else Some (Ret (- RT_ERROR), s))"

definition worker_finish :: "tid \<Rightarrow> oid \<Rightarrow> works \<Rightarrow> kstate \<Rightarrow> works \<times> (ret \<times> kstate) option" where
  "worker_finish t i W s =
    (let W = upd_wq i (\<lambda>q. q\<lparr> work_current := None \<rparr>) W in (W, work_completion t (wq_sem (wq_of W i)) s))"

section \<open>Links\<close>

lemma work_frame [simp]:
  "wq_of (upd_work w f W) = wq_of W" "wq_of (set_wflag g w W) = wq_of W" "wq_of (clear_wflag g w W) = wq_of W"
  "work_of (upd_wq i h W) = work_of W" "work_of (unlink_work w W) = work_of W"
  by (simp_all add: upd_work_def set_wflag_def clear_wflag_def upd_wq_def unlink_work_def)

lemma wq_simps [simp]:
  "wq_of (upd_wq i f W) j = (if j = i then f (wq_of W i) else wq_of W j)"
  "work_list (wq_of (unlink_work w W) j) = removeAll w (work_list (wq_of W j))"
  "delayed_list (wq_of (unlink_work w W) j) = removeAll w (delayed_list (wq_of W j))"
  "work_current (wq_of (unlink_work w W) j) = work_current (wq_of W j)"
  "work_thread (wq_of (unlink_work w W) j) = work_thread (wq_of W j)"
  "wq_sem (wq_of (unlink_work w W) j) = wq_sem (wq_of W j)"
  by (simp_all add: upd_wq_def unlink_work_def)

lemma work_simps [simp]:
  "work_of (upd_work w f W) v = (if v = w then f (work_of W w) else work_of W v)"
  "work_of (set_wflag g w W) v = (if v = w then (work_of W w)\<lparr> work_flags := work_flags (work_of W w) OR g \<rparr> else work_of W v)"
  "work_of (clear_wflag g w W) v = (if v = w then (work_of W w)\<lparr> work_flags := work_flags (work_of W w) AND NOT g \<rparr> else work_of W v)"
  by (simp_all add: upd_work_def set_wflag_def clear_wflag_def)

text \<open>An item is linked at most once.\<close>

definition linked_once :: "works \<Rightarrow> bool" where
  "linked_once W \<longleftrightarrow> (\<forall>i. distinct (work_list (wq_of W i) @ delayed_list (wq_of W i)))
    \<and> (\<forall>i j. i \<noteq> j \<longrightarrow> set (work_list (wq_of W i) @ delayed_list (wq_of W i)) \<inter> set (work_list (wq_of W j) @ delayed_list (wq_of W j)) = {})"

definition unlinked :: "wid \<Rightarrow> works \<Rightarrow> bool" where
  "unlinked w W \<longleftrightarrow> (\<forall>i. w \<notin> set (work_list (wq_of W i)) \<and> w \<notin> set (delayed_list (wq_of W i)))"

lemma linked_once_cong:
  assumes "\<And>i. work_list (wq_of W' i) = work_list (wq_of W i)" "\<And>i. delayed_list (wq_of W' i) = delayed_list (wq_of W i)"
  shows "linked_once W' = linked_once W" and "unlinked w W' = unlinked w W"
  using assms by (simp_all add: linked_once_def unlinked_def)

lemma unlink_once: "linked_once W \<Longrightarrow> linked_once (unlink_work w W)" and unlink_unlinked: "unlinked w (unlink_work w W)"
  by (auto simp: linked_once_def unlinked_def distinct_removeAll) blast+

text \<open>Linking an item that is nowhere else.\<close>

lemma link_work:
  assumes "linked_once W" "unlinked w W"
  shows "linked_once (upd_wq i (\<lambda>q. q\<lparr> work_list := work_list q @ [w] \<rparr>) W)"
    and "linked_once (upd_wq i (\<lambda>q. q\<lparr> work_list := w # work_list q \<rparr>) W)"
    and "linked_once (upd_wq i (\<lambda>q. q\<lparr> delayed_list := delayed_list q @ [w] \<rparr>) W)"
  using assms unfolding linked_once_def unlinked_def by auto

lemma flags_once [simp]:
  "linked_once (set_wflag f w W) = linked_once W" "linked_once (clear_wflag f w W) = linked_once W"
  "linked_once (upd_work w g W) = linked_once W" "unlinked v (set_wflag f w W) = unlinked v W"
  "unlinked v (clear_wflag f w W) = unlinked v W" "unlinked v (upd_work w g W) = unlinked v W"
  by (simp_all add: linked_once_def unlinked_def)

lemma current_once [simp]: "linked_once (upd_wq i (\<lambda>q. q\<lparr> work_current := c \<rparr>) W) = linked_once W"
  by (rule linked_once_cong) simp_all

lemma submit_once: "linked_once W \<Longrightarrow> linked_once (fst (snd (workqueue_submit_work i w ticks W s)))"
  by (auto simp: workqueue_submit_work_def Let_def link_work unlink_once unlink_unlinked split: prod.splits)

lemma cancel_once: "linked_once W \<Longrightarrow> linked_once (fst (snd (workqueue_cancel_work i w W s)))"
  by (auto simp: workqueue_cancel_work_def Let_def unlink_once split: prod.splits)

lemma cancel_unlinks:
  "work_list (wq_of (fst (snd (workqueue_cancel_work i w W s))) j) = removeAll w (work_list (wq_of W j))"
  "delayed_list (wq_of (fst (snd (workqueue_cancel_work i w W s))) j) = removeAll w (delayed_list (wq_of W j))"
  by (auto simp: workqueue_cancel_work_def Let_def split: prod.splits)

lemma cancel_list_once: "linked_once W \<Longrightarrow> linked_once (fst (cancel_list l n i W s))"
proof (induction l n i W s rule: cancel_list.induct)
  case (2 l n i W s)
  then show ?case using cancel_once[OF 2(2), of i _ s] by (auto split: list.splits prod.splits) (metis fst_conv snd_conv)
qed simp

lemma cancel_list_empties:
  assumes "l = work_list \<or> l = delayed_list" "length (l (wq_of W i)) \<le> n"
  shows "l (wq_of (fst (cancel_list l n i W s)) i) = []"
  using assms
proof (induction l n i W s rule: cancel_list.induct)
  case (2 l n i W s)
  show ?case
  proof (cases "l (wq_of W i)")
    case (Cons w ws)
    obtain e W' s' where c: "workqueue_cancel_work i w W s = (e, W', s')" by (metis prod_cases3)
    then have "l (wq_of W' i) = removeAll w (l (wq_of W i))" using 2(2) cancel_unlinks[of i w W s i] by auto
    then have "length (l (wq_of W' i)) \<le> n" using Cons 2(3) by (auto simp: removeAll_filter_not_eq intro: order_trans[OF length_filter_le])
    then show ?thesis using 2(1)[OF Cons c[symmetric]] 2(2) Cons c by simp
  qed simp
qed simp

text \<open>Cancelling the delayed items does not fill the other list.\<close>

lemma cancel_list_shrinks: "set (work_list (wq_of (fst (cancel_list l n i W s)) j)) \<subseteq> set (work_list (wq_of W j))"
proof (induction l n i W s rule: cancel_list.induct)
  case (2 l n i W s)
  show ?case
  proof (cases "l (wq_of W i)")
    case (Cons w ws)
    obtain e W' s' where c: "workqueue_cancel_work i w W s = (e, W', s')" by (metis prod_cases3)
    then have "set (work_list (wq_of W' j)) \<subseteq> set (work_list (wq_of W j))" using cancel_unlinks(1)[of i w W s j] by auto
    then show ?thesis using 2(1)[OF Cons c[symmetric]] Cons c by auto
  qed simp
qed simp

lemma cancel_all_state:
  assumes "rt_workqueue_cancel_all_work i W s = (e, W', s')"
  shows "e = RT_EOK" and "work_list (wq_of W' i) = []" and "delayed_list (wq_of W' i) = []" and "linked_once W \<Longrightarrow> linked_once W'"
proof -
  define s0 where "s0 = snd (rt_enter_critical s)"
  obtain W1 s1 where 1: "cancel_list work_list (length (work_list (wq_of W i))) i W s0 = (W1, s1)" by fastforce
  obtain W2 s2 where 2: "cancel_list delayed_list (length (delayed_list (wq_of W1 i))) i W1 s1 = (W2, s2)" by fastforce
  have e: "e = RT_EOK" "W' = W2" using assms 1 2 by (auto simp: rt_workqueue_cancel_all_work_def Let_def s0_def)
  show "e = RT_EOK" by (rule e(1))
  have "work_list (wq_of W1 i) = []" using cancel_list_empties[of work_list W i "length (work_list (wq_of W i))" s0] 1 by simp
  then show "work_list (wq_of W' i) = []"
    using cancel_list_shrinks[of delayed_list "length (delayed_list (wq_of W1 i))" i W1 s1 i] 2 e(2) by simp
  show "delayed_list (wq_of W' i) = []"
    using cancel_list_empties[of delayed_list W1 i "length (delayed_list (wq_of W1 i))" s1] 2 e(2) by simp
  show "linked_once W'" if "linked_once W"
    using cancel_list_once[OF that, of work_list "length (work_list (wq_of W i))" i s0] 1 2 e(2)
      cancel_list_once[of W1 delayed_list "length (delayed_list (wq_of W1 i))" i s1] by simp
qed

lemma wake_worker_spec:
  assumes "kernel_inv s"
  shows "kernel_inv (wake_worker i W s)"
    and "work_current (wq_of W i) = None \<Longrightarrow> \<not> suspended (wake_worker i W s) (work_thread (wq_of W i))"
  using thread_resume_spec[OF assms] assms by (simp_all add: wake_worker_def)

section \<open>Properties\<close>

text \<open>C23: A work item is linked at most once, in one list of one queue, and every operation keeps it that way: submitting (with or without a
  delay, also an item that is already queued somewhere), urgent submission, cancelling one or all items, the timer
  handler and the turns of the worker thread.\<close>

theorem workqueue_items_linked_once:
  assumes "linked_once W"
  shows "linked_once (fst (snd (rt_workqueue_submit_work i w ticks W s)))
    \<and> linked_once (fst (snd (rt_workqueue_dowork i w W s)))
    \<and> linked_once (fst (snd (rt_workqueue_urgent_work i w W s)))
    \<and> linked_once (fst (snd (rt_workqueue_cancel_work i w W s)))
    \<and> linked_once (fst (snd (rt_workqueue_cancel_work_sync i w W s)))
    \<and> linked_once (fst (snd (rt_workqueue_cancel_all_work i W s)))
    \<and> (\<forall>W' s'. delayed_work_timeout_handler w W s = Some (W', s') \<longrightarrow> linked_once W')
    \<and> linked_once (fst (snd (worker_turn i W s)))
    \<and> linked_once (fst (worker_finish t i W s))"
proof (intro conjI allI impI)
  show "linked_once (fst (snd (rt_workqueue_urgent_work i w W s)))"
    using assms by (simp add: rt_workqueue_urgent_work_def Let_def link_work unlink_once unlink_unlinked)
  show "linked_once (fst (snd (rt_workqueue_cancel_work_sync i w W s)))"
    using assms cancel_once[OF assms, of i w s] by (auto simp: rt_workqueue_cancel_work_sync_def split: prod.splits ret.splits)
  show "linked_once (fst (snd (rt_workqueue_cancel_all_work i W s)))"
    using cancel_all_state(4)[OF _ assms] by (metis prod.collapse)
  show "linked_once (fst (snd (worker_turn i W s)))"
    using assms by (auto simp: worker_turn_def Let_def unlink_once split: list.splits)
  show "linked_once (fst (worker_finish t i W s))" using assms by (simp add: worker_finish_def Let_def)
  show "linked_once W'" if "delayed_work_timeout_handler w W s = Some (W', s')" for W' s'
  proof -
    have "linked_once (unlink_work w (clear_wflag RT_WORK_STATE_SUBMITTING w W))" using assms by (simp add: unlink_once)
    then show ?thesis
      using that by (auto simp: delayed_work_timeout_handler_def Let_def link_work unlink_unlinked split: option.splits if_splits)
  qed
qed (use assms submit_once cancel_once in \<open>simp_all add: rt_workqueue_submit_work_def rt_workqueue_dowork_def rt_workqueue_cancel_work_def\<close>)

definition demo_works :: works where
  "demo_works = \<lparr> wq_of = (\<lambda>_. \<lparr> work_list = [], delayed_list = [], work_current = None, wq_sem = 3, work_thread = 2 \<rparr>),
     work_of = (\<lambda>_. \<lparr> work_flags = 0, work_workqueue = None \<rparr>) \<rparr>"

lemma demo_linked_once: "linked_once demo_works"
  by (simp add: linked_once_def demo_works_def)

theorem workqueue_items_linked_once_witness:
  "linked_once (fst (snd (rt_workqueue_dowork 0 7 demo_works demo_kernel)))"
  using workqueue_items_linked_once[OF demo_linked_once, of 0 7 0 demo_kernel] by blast

lemma worker_sleeps:
  assumes "kernel_inv s" and "may_block s t" and "work_list (wq_of W i) = []"
  shows "\<exists>s'. worker_turn i W s = (None, W, s') \<and> kernel_inv s' \<and> suspended s' t \<and> rt_thread_self s' \<noteq> Some t"
proof -
  note b = block_at[OF assms(1,2), where sl = None and flags = 0 and sf = RT_UNINTERRUPTIBLE and timeout = 0, simplified]
  have self: "rt_thread_self s = Some t" using assms(2) by (simp add: may_block_def rt_thread_self_def)
  have "worker_turn i W s = (None, W, rt_schedule (start_wait_timer t 0 (snd (rt_thread_suspend_to_list t None 0 RT_UNINTERRUPTIBLE s))))"
    using assms(3) self by (simp add: worker_turn_def rt_thread_suspend_with_flag_def start_wait_timer_def)
  then show ?thesis using b(1-3) by blast
qed

text \<open>C24: Work runs in the order of submission. A submission without delay links the item behind all others of the queue,
  marks it pending, and wakes the worker thread when it is not executing an item; an urgent one links it in front. A turn of the worker takes the
  first item, unlinks it and makes it the current one, and does not touch the kernel; a turn without work, of a worker that runs and may block, leaves
  the queue as it is, suspends the worker and gives the processor to another thread. Cancelling
  everything leaves both lists empty.\<close>

theorem workqueue_runs_in_order:
  assumes "kernel_inv s"
  shows "(\<exists>W' s'. rt_workqueue_dowork i w W s = (RT_EOK, W', s') \<and> kernel_inv s'
      \<and> work_list (wq_of W' i) = removeAll w (work_list (wq_of W i)) @ [w] \<and> wflag RT_WORK_STATE_PENDING w W'
      \<and> work_workqueue (work_of W' w) = Some i
      \<and> (work_current (wq_of W i) = None \<longrightarrow> \<not> suspended s' (work_thread (wq_of W i))))
    \<and> (\<exists>W' s'. rt_workqueue_urgent_work i w W s = (RT_EOK, W', s') \<and> kernel_inv s'
      \<and> work_list (wq_of W' i) = w # removeAll w (work_list (wq_of W i))
      \<and> (work_current (wq_of W i) = None \<longrightarrow> \<not> suspended s' (work_thread (wq_of W i))))
    \<and> (\<forall>v vs. work_list (wq_of W i) = v # vs \<longrightarrow> (\<exists>W'. worker_turn i W s = (Some v, W', s)
      \<and> work_list (wq_of W' i) = removeAll v vs \<and> work_current (wq_of W' i) = Some v \<and> unlinked v W'))
    \<and> (\<forall>t. may_block s t \<and> work_list (wq_of W i) = [] \<longrightarrow> (\<exists>s'. worker_turn i W s = (None, W, s') \<and> kernel_inv s'
      \<and> suspended s' t \<and> rt_thread_self s' \<noteq> Some t))
    \<and> (\<exists>W' s'. rt_workqueue_cancel_all_work i W s = (RT_EOK, W', s')
      \<and> work_list (wq_of W' i) = [] \<and> delayed_list (wq_of W' i) = [])"
proof (intro conjI allI impI)
  define W1 where "W1 = fst (snd (workqueue_submit_work i w 0 W s))"
  have d: "rt_workqueue_dowork i w W s = (RT_EOK, W1, wake_worker i W1 s)"
    by (simp add: rt_workqueue_dowork_def W1_def workqueue_submit_work_def Let_def)
  have f: "work_list (wq_of W1 i) = removeAll w (work_list (wq_of W i)) @ [w]" "work_current (wq_of W1 i) = work_current (wq_of W i)"
    "work_thread (wq_of W1 i) = work_thread (wq_of W i)" "work_workqueue (work_of W1 w) = Some i" "wflag RT_WORK_STATE_PENDING w W1"
    by (simp_all add: W1_def workqueue_submit_work_def Let_def wflag_def RT_WORK_STATE_PENDING_def bit.conj_disj_distrib2)
  show "\<exists>W' s'. rt_workqueue_dowork i w W s = (RT_EOK, W', s') \<and> kernel_inv s'
      \<and> work_list (wq_of W' i) = removeAll w (work_list (wq_of W i)) @ [w] \<and> wflag RT_WORK_STATE_PENDING w W'
      \<and> work_workqueue (work_of W' w) = Some i
      \<and> (work_current (wq_of W i) = None \<longrightarrow> \<not> suspended s' (work_thread (wq_of W i)))"
    using d f wake_worker_spec[OF assms, where i = i and W = W1] by auto
  define W2 where "W2 = fst (snd (rt_workqueue_urgent_work i w W s))"
  have u: "rt_workqueue_urgent_work i w W s = (RT_EOK, W2, wake_worker i W2 s)"
    by (simp add: W2_def rt_workqueue_urgent_work_def Let_def)
  have g: "work_list (wq_of W2 i) = w # removeAll w (work_list (wq_of W i))" "work_current (wq_of W2 i) = work_current (wq_of W i)"
    "work_thread (wq_of W2 i) = work_thread (wq_of W i)"
    by (simp_all add: W2_def rt_workqueue_urgent_work_def Let_def)
  show "\<exists>W' s'. rt_workqueue_urgent_work i w W s = (RT_EOK, W', s') \<and> kernel_inv s'
      \<and> work_list (wq_of W' i) = w # removeAll w (work_list (wq_of W i))
      \<and> (work_current (wq_of W i) = None \<longrightarrow> \<not> suspended s' (work_thread (wq_of W i)))"
    using u g wake_worker_spec[OF assms, where i = i and W = W2] by auto
  show "\<exists>W'. worker_turn i W s = (Some v, W', s)
      \<and> work_list (wq_of W' i) = removeAll v vs \<and> work_current (wq_of W' i) = Some v \<and> unlinked v W'"
    if "work_list (wq_of W i) = v # vs" for v vs
    using that by (simp add: worker_turn_def Let_def unlinked_def)
  show "\<exists>s'. worker_turn i W s = (None, W, s') \<and> kernel_inv s' \<and> suspended s' t \<and> rt_thread_self s' \<noteq> Some t"
    if "may_block s t \<and> work_list (wq_of W i) = []" for t using worker_sleeps[OF assms] that by blast
  show "\<exists>W' s'. rt_workqueue_cancel_all_work i W s = (RT_EOK, W', s') \<and> work_list (wq_of W' i) = [] \<and> delayed_list (wq_of W' i) = []"
    using cancel_all_state(1-3)[of i W s] by (metis prod_cases3)
qed

theorem workqueue_runs_in_order_witness:
  "(\<exists>W' s'. rt_workqueue_dowork 0 7 demo_works demo_kernel = (RT_EOK, W', s') \<and> work_list (wq_of W' 0) = [7])
   \<and> (\<exists>s'. worker_turn 0 demo_works demo_kernel = (None, demo_works, s') \<and> suspended s' 1)"
proof -
  have e: "work_list (wq_of demo_works 0) = []" by (simp add: demo_works_def)
  note p = workqueue_runs_in_order[OF demo_kernel_inv, of 0 7 demo_works]
  show ?thesis using p[THEN conjunct1] p[THEN conjunct2, THEN conjunct2, THEN conjunct2, THEN conjunct1] demo_may_block e by auto
qed

section \<open>The timer of a delayed item\<close>

definition item_armed :: "wid \<Rightarrow> kstate \<Rightarrow> bool" where
  "item_armed w s \<longleftrightarrow> Timer w \<in> set (timer_lists s SoftTimers) \<and> flag_set (timer_flag (timer_of s (Timer w))) RT_TIMER_FLAG_ACTIVATED"

text \<open>Waking threads does not touch it.\<close>

lemma item_armed_simps [simp]:
  "item_armed w (rt_schedule s) = item_armed w s"
  "item_armed w (upd_thread t f s) = item_armed w s"
  "item_armed w (rt_sched_insert_thread t s) = item_armed w s"
  "item_armed w (unlink_thread t s) = item_armed w s"
  "item_armed w (upd_sem i g s) = item_armed w s"
  by (simp_all add: item_armed_def)

lemma item_armed_timer_stop: "item_armed w (snd (rt_sched_thread_timer_stop t s)) = item_armed w s"
  by (auto simp: item_armed_def rt_sched_thread_timer_stop_def timer_op_defs split: prod.splits)

lemma item_armed_ready: "item_armed w (snd (rt_sched_thread_ready t s)) = item_armed w s"
  using item_armed_timer_stop[of w t s] by (auto simp: rt_sched_thread_ready_def split: prod.splits)

lemma item_armed_resume: "item_armed w (snd (rt_thread_resume t s)) = item_armed w s"
  using item_armed_ready[of w t s]
  by (auto simp: rt_thread_resume_def rt_sched_unlock_n_resched_def split: prod.splits)

lemma item_armed_release: "item_armed w (snd (rt_sem_release i s)) = item_armed w s"
proof -
  have "item_armed w (snd (rt_susp_list_dequeue l e s)) = item_armed w s" for l e
  proof (cases "thread_lists s l")
    case (Cons t ts)
    then show ?thesis using item_armed_ready[of w t s] by (auto simp: rt_susp_list_dequeue_def split: prod.splits)
  qed (simp add: rt_susp_list_dequeue_def)
  then show ?thesis by (auto simp: rt_sem_release_def split: prod.splits) (metis item_armed_simps(1) snd_conv)+
qed

lemma item_armed_start:
  assumes "flag_set (timer_flag (timer_of s (Timer w))) RT_TIMER_FLAG_SOFT_TIMER"
    "\<not> flag_set (timer_flag (timer_of s (Timer w))) RT_TIMER_FLAG_PROCESSING"
  shows "fst (rt_timer_start (Timer w) s) = RT_EOK" and "item_armed w (snd (rt_timer_start (Timer w) s))"
proof -
  have in_insert: "Timer w \<in> set (timer_insert T (Timer w) ts)" for T ts by (induction ts) (auto simp: Let_def)
  obtain s1 where s1: "timer_start SoftTimers (Timer w) s = (RT_EOK, s1)"
    using assms(2) by (simp add: timer_start_def Let_def)
  have a: "item_armed w s1" using s1 assms(2) in_insert
    by (auto simp: item_armed_def timer_start_def Let_def set_tflag_def timer_flag_defs flag_set_def)
  have e: "rt_timer_start (Timer w) s = (RT_EOK, if flag_set (timer_flag (timer_of s1 (Timer w))) RT_TIMER_FLAG_SOFT_TIMER
      then snd (rt_sem_release soft_timer_sem s1) else s1)"
    using assms(1) s1 by (simp add: rt_timer_start_def Let_def)
  show "fst (rt_timer_start (Timer w) s) = RT_EOK" "item_armed w (snd (rt_timer_start (Timer w) s))" using a by (simp_all add: e item_armed_release)
qed

text \<open>Submitting an item without delay while its delay is still running does not stop its timer. When
  the worker has taken the item, it belongs to no queue, its timer is still armed and the item still counts as delayed;
  the handler then dereferences the null pointer that is stored as its queue.\<close>

theorem workqueue_resubmit_faults:
  assumes "\<not> wflag RT_WORK_STATE_SUBMITTING w W" and "ticks \<noteq> 0" and "ticks < RT_TICK_MAX_HALF" and "work_list (wq_of W i) = []"
    and "rt_workqueue_submit_work i w ticks W s = (e1, W1, s1)" and "rt_workqueue_dowork i w W1 s1 = (e2, W2, s2)"
    and "worker_turn i W2 s3 = (v, W3, s4)"
  shows "e1 = RT_EOK \<and> e2 = RT_EOK \<and> item_armed w s2 \<and> v = Some w \<and> wflag RT_WORK_STATE_SUBMITTING w W3
    \<and> delayed_work_timeout_handler w W3 s5 = None"
proof -
  let ?s = "rt_timer_init (Timer w) (map of_char ''work'') (user_fn delayed_work_fn) w ticks (RT_TIMER_FLAG_ONE_SHOT OR RT_TIMER_FLAG_SOFT_TIMER) s"
  have fl: "flag_set (timer_flag (timer_of ?s (Timer w))) RT_TIMER_FLAG_SOFT_TIMER"
    "\<not> flag_set (timer_flag (timer_of ?s (Timer w))) RT_TIMER_FLAG_PROCESSING"
    by (simp_all add: rt_timer_init_def timer_init_def flag_set_def timer_flag_defs RT_TIMER_FLAG_ONE_SHOT_def)
  have ns: "\<not> wflag RT_WORK_STATE_SUBMITTING w (clear_wflag RT_WORK_STATE_PENDING w (unlink_work w W))"
    using assms(1) by (simp add: wflag_def RT_WORK_STATE_PENDING_def RT_WORK_STATE_SUBMITTING_def and.assoc)
  have 1: "e1 = fst (rt_timer_start (Timer w) ?s)" "s1 = snd (rt_timer_start (Timer w) ?s)"
    "work_list (wq_of W1 i) = []" "wflag RT_WORK_STATE_SUBMITTING w W1"
    using assms(2-5) ns
    by (auto simp: rt_workqueue_submit_work_def workqueue_submit_work_def Let_def split: prod.splits)
      (simp_all add: wflag_def RT_WORK_STATE_SUBMITTING_def bit.conj_disj_distrib2)
  have a1: "item_armed w s1" "e1 = RT_EOK" using item_armed_start[OF fl] 1 by simp_all
  have 2: "e2 = RT_EOK" "item_armed w s2" "work_list (wq_of W2 i) = [w]" "wflag RT_WORK_STATE_SUBMITTING w W2"
    using assms(6) 1(3,4) a1(1)
    by (auto simp: rt_workqueue_dowork_def workqueue_submit_work_def Let_def wake_worker_def item_armed_resume)
      (simp_all add: wflag_def RT_WORK_STATE_PENDING_def RT_WORK_STATE_SUBMITTING_def and.assoc bit.conj_disj_distrib2)
  have 3: "v = Some w" "work_workqueue (work_of W3 w) = None" "wflag RT_WORK_STATE_SUBMITTING w W3"
    using assms(7) 2(3,4) by (auto simp: worker_turn_def Let_def)
      (simp_all add: wflag_def RT_WORK_STATE_PENDING_def RT_WORK_STATE_SUBMITTING_def and.assoc)
  show ?thesis using a1 2 3 by (simp add: delayed_work_timeout_handler_def)
qed

theorem workqueue_resubmit_faults_witness:
  "\<exists>W3. (case rt_workqueue_submit_work 0 7 5 demo_works demo_kernel of (_, W1, s1) \<Rightarrow>
      case rt_workqueue_dowork 0 7 W1 s1 of (_, W2, s2) \<Rightarrow> item_armed 7 s2 \<and> fst (snd (worker_turn 0 W2 s2)) = W3)
    \<and> delayed_work_timeout_handler 7 W3 demo_kernel = None"
proof -
  obtain e1 W1 s1 where 1: "rt_workqueue_submit_work 0 7 5 demo_works demo_kernel = (e1, W1, s1)" by (metis prod_cases3)
  obtain e2 W2 s2 where 2: "rt_workqueue_dowork 0 7 W1 s1 = (e2, W2, s2)" by (metis prod_cases3)
  obtain v W3 s3 where 3: "worker_turn 0 W2 s2 = (v, W3, s3)" by (metis prod_cases3)
  have "\<not> wflag RT_WORK_STATE_SUBMITTING 7 demo_works" "work_list (wq_of demo_works 0) = []"
    by (simp_all add: wflag_def demo_works_def)
  then have "item_armed 7 s2 \<and> delayed_work_timeout_handler 7 W3 demo_kernel = None"
    using workqueue_resubmit_faults[OF _ _ _ _ 1 2 3, of demo_kernel] by (simp add: RT_TICK_MAX_HALF_def)
  then show ?thesis using 1 2 3 by auto
qed

section \<open>Waiting for completion\<close>

lemma trytake_cases:
  "rt_sem_trytake i s = (if sem_value (sem_of s i) > 0
     then (Ret RT_EOK, upd_sem i (\<lambda>x. x\<lparr> sem_value := sem_value x - 1 \<rparr>) s) else (Ret (- RT_ETIMEOUT), s))"
  by (simp add: rt_sem_trytake_def rt_sem_take_def sem_take_def)

text \<open>The work completion of the worker thread ends: it returns, or is preempted by a thread that it has
  woken, after which fewer threads wait. When it returns, every thread that waited in
  \<open>rt_workqueue_cancel_work_sync\<close> for the executed item has been woken and the semaphore is empty.\<close>

theorem work_completion_wakes_all:
  assumes "kernel_inv s" and "rt_thread_self s = Some t" and "thread_lists s (SemQ i) \<noteq> [] \<longrightarrow> sem_value (sem_of s i) = 0"
    and "sem_value (sem_of s i) \<le> 1" and "0 < sem_max_value (sem_of s i)"
  shows "\<exists>r s'. work_completion t i s = Some (r, s') \<and> kernel_inv s'
    \<and> (r = Ret RT_EOK \<and> thread_lists s' (SemQ i) = [] \<and> sem_value (sem_of s' i) = 0
       \<or> r = Blocked \<and> length (thread_lists s' (SemQ i)) < length (thread_lists s (SemQ i)))"
  using assms
proof (induction "length (thread_lists s (SemQ i))" arbitrary: s rule: less_induct)
  case less
  show ?case
  proof (cases "sem_value (sem_of s i) > 0")
    case True
    then have "sem_value (sem_of s i) = 1" "thread_lists s (SemQ i) = []"
      using less.prems(3,4) by (auto simp: word_less_nat_alt word_le_nat_alt word_unat_eq_iff)
    then show ?thesis using True less.prems(1)
      by (subst work_completion.simps) (simp add: trytake_cases RT_EOK_def RT_ETIMEOUT_def)
  next
    case False
    then have v: "sem_value (sem_of s i) = 0" by (simp add: word_greater_zero_iff)
    show ?thesis
    proof (cases "thread_lists s (SemQ i)")
      case Nil
      let ?s = "upd_sem i (\<lambda>x. x\<lparr> sem_value := sem_value x + 1 \<rparr>) s"
      have r: "snd (rt_sem_release i s) = ?s" using Nil v less.prems(5) by (simp add: rt_sem_release_def)
      have "work_completion t i s = work_completion t i ?s"
        using less.prems(2) v by (subst work_completion.simps) (simp add: trytake_cases r rt_thread_self_def)
      also have "\<dots> = Some (Ret RT_EOK, upd_sem i (\<lambda>x. x\<lparr> sem_value := sem_value x - 1 \<rparr>) ?s)"
        using v by (subst work_completion.simps) (simp add: trytake_cases RT_EOK_def RT_ETIMEOUT_def)
      finally show ?thesis using Nil v less.prems(1) by simp
    next
      case (Cons u us)
      let ?s = "rt_schedule (snd (rt_susp_list_dequeue (SemQ i) RT_EOK s))"
      note d = dequeue_schedule[OF less.prems(1) _ Cons, where e = RT_EOK, simplified]
      have r: "snd (rt_sem_release i s) = ?s" using Cons by (simp add: rt_sem_release_def split: prod.splits)
      have l: "thread_lists ?s (SemQ i) = us" using d(3)[of "SemQ i"] by simp
      have e: "work_completion t i s = (if rt_thread_self ?s \<noteq> Some t then Some (Blocked, ?s) else work_completion t i ?s)"
        using v by (subst work_completion.simps) (simp add: trytake_cases r)
      show ?thesis
      proof (cases "rt_thread_self ?s = Some t")
        case True
        obtain q s' where "work_completion t i ?s = Some (q, s') \<and> kernel_inv s'
          \<and> (q = Ret RT_EOK \<and> thread_lists s' (SemQ i) = [] \<and> sem_value (sem_of s' i) = 0
             \<or> q = Blocked \<and> length (thread_lists s' (SemQ i)) < length (thread_lists ?s (SemQ i)))"
          using less.hyps[of ?s] d(2) True v less.prems(5) l Cons by auto
        then show ?thesis using e True l Cons by auto
      next
        case False
        then show ?thesis using e l Cons d(2) by simp
      qed
    qed
  qed
qed

theorem work_completion_wakes_all_witness:
  "\<exists>s'. work_completion 1 0 demo_kernel = Some (Ret RT_EOK, s') \<and> sem_value (sem_of s' 0) = 0"
proof -
  have "thread_lists demo_kernel (SemQ 0) = []" "sem_value (sem_of demo_kernel 0) = 0" "0 < sem_max_value (sem_of demo_kernel 0)"
    "rt_thread_self demo_kernel = Some 1"
    by (simp_all add: demo_kernel_def rt_thread_self_def)
  then show ?thesis using work_completion_wakes_all[OF demo_kernel_inv, of 1 0] by auto
qed

end
