(* ===== verification/Completion.thy ===== *)
theory Completion
  imports Semaphore
begin

text \<open>
  Completions of the device drivers (\<open>rt-thread/components/drivers/ipc/completion.c\<close>): one thread waits until another one,
  or an interrupt, reports that something is done. The code packs the waiting thread and the flag into one
  word, which is possible because a thread object has an even address; here they are two fields. A wait is split where the
  thread can lose the processor.
\<close>

section \<open>Operations\<close>

record rt_completion =
  susp_thread :: "tid option"
  completed :: bool

definition rt_completion_init :: rt_completion where
  "rt_completion_init = \<lparr> susp_thread = None, completed = False \<rparr>"

text \<open>The rest of a wait whose thread runs again.\<close>

definition completion_wait_resume :: "tid \<Rightarrow> rt_completion \<Rightarrow> kstate \<Rightarrow> ret \<times> rt_completion \<times> kstate" where
  "completion_wait_resume t c s =
    (Ret (thread_error (thread_of s t)), c\<lparr> susp_thread := None, completed := False \<rparr>, s)"

definition rt_completion_wait :: "int \<Rightarrow> rt_completion \<Rightarrow> kstate \<Rightarrow> ret \<times> rt_completion \<times> kstate" where
  "rt_completion_wait timeout c s =
    (if completed c then (Ret RT_EOK, c\<lparr> susp_thread := None, completed := False \<rparr>, s)
     else if timeout = 0 then (Ret (- RT_ETIMEOUT), c, s)
     else case rt_thread_self s of None \<Rightarrow> (Fault, c, s)
     | Some t \<Rightarrow>
        let s = upd_thread t (\<lambda>x. x\<lparr> thread_error := RT_EOK \<rparr>) s;
            (result, s) = rt_thread_suspend_with_flag t RT_UNINTERRUPTIBLE s
        in if result \<noteq> RT_EOK then (Ret result, c\<lparr> susp_thread := None, completed := False \<rparr>, s)
           else
             let c = c\<lparr> susp_thread := Some t, completed := False \<rparr>;
                 s = rt_schedule (start_wait_timer t timeout s)
             in if rt_thread_self s = Some t then completion_wait_resume t c s else (Blocked, c, s))"

definition completion_done :: "rt_completion \<Rightarrow> kstate \<Rightarrow> int \<times> rt_completion \<times> kstate" where
  "completion_done c s =
    (if completed c then (- RT_EBUSY, c, s)
     else
       let (error, s) = (case susp_thread c of Some t \<Rightarrow> rt_thread_resume t s | None \<Rightarrow> (- RT_EEMPTY, s))
       in (error, c\<lparr> susp_thread := None, completed := True \<rparr>, s))"

definition rt_completion_done :: "rt_completion \<Rightarrow> kstate \<Rightarrow> rt_completion \<times> kstate" where
  "rt_completion_done c s = snd (completion_done c s)"

definition rt_completion_wakeup :: "rt_completion \<Rightarrow> kstate \<Rightarrow> int \<times> rt_completion \<times> kstate" where
  "rt_completion_wakeup c s = completion_done c s"

section \<open>Behaviour\<close>

lemma wait_blocks:
  assumes k: "kernel_inv s" and mb: "may_block s t" and nc: "\<not> completed c" and to: "timeout \<noteq> 0"
  obtains s' where "rt_completion_wait timeout c s = (Blocked, \<lparr> susp_thread = Some t, completed = False \<rparr>, s')"
    and "kernel_inv s'" and "suspended s' t" and "thread_error (thread_of s' t) = RT_EOK"
    and "\<And>m. wait_list m \<Longrightarrow> thread_lists s' m = thread_lists s m"
    and "timeout > 0 \<Longrightarrow> ThreadTimer t \<in> set (timer_lists s' HardTimers)
      \<and> timeout_tick (timer_of s' (ThreadTimer t)) = rt_tick s + word_of_int timeout"
proof -
  define s0 where "s0 = upd_thread t (\<lambda>x. x\<lparr> thread_error := RT_EOK \<rparr>) s"
  note b0 = take_error_state[OF k mb, of RT_EOK, folded s0_def]
  have w: "\<And>l. (None :: thread_list option) = Some l \<Longrightarrow> wait_list l" by simp
  define x where "x = rt_schedule (start_wait_timer t timeout (snd (rt_thread_suspend_to_list t None 0 RT_UNINTERRUPTIBLE s0)))"
  note b = block_at[OF b0, where sl = None and flags = 0 and sf = RT_UNINTERRUPTIBLE and timeout = timeout, simplified, folded x_def]
  have self: "rt_thread_self s = Some t" using mb by (simp add: may_block_def rt_thread_self_def)
  have e: "rt_completion_wait timeout c s = (Blocked, c\<lparr> susp_thread := Some t, completed := False \<rparr>, x)"
    using nc to self block_suspends[OF b0(2), of None 0 RT_UNINTERRUPTIBLE] b(3)
    by (auto simp: rt_completion_wait_def rt_thread_suspend_with_flag_def Let_def s0_def[symmetric] x_def split: prod.splits)
  have c: "c\<lparr> susp_thread := Some t, completed := False \<rparr> = \<lparr> susp_thread = Some t, completed = False \<rparr>" by (cases c) simp
  show thesis
  proof (rule that[OF e[unfolded c] b(1,2)])
    show "thread_error (thread_of x t) = RT_EOK" using b(6)[of t] by (simp add: thread_view_def) (simp add: s0_def)
    show "thread_lists x m = thread_lists s m" if "wait_list m" for m using b(5)[OF that] by (simp add: s0_def)
    show "timeout > 0 \<Longrightarrow> ThreadTimer t \<in> set (timer_lists x HardTimers)
      \<and> timeout_tick (timer_of x (ThreadTimer t)) = rt_tick s + word_of_int timeout" using b(7) by (simp add: x_def s0_def)
  qed
qed

lemma done_wakes:
  assumes "kernel_inv s" and "suspended s t" and "c = \<lparr> susp_thread = Some t, completed = False \<rparr>"
  shows "completion_done c s = (RT_EOK, \<lparr> susp_thread = None, completed = True \<rparr>, snd (rt_thread_resume t s))"
  using thread_resume_spec(2)[OF assms(1), of t] assms(2,3) by (auto simp: completion_done_def split: prod.splits)

text \<open>Waking a thread does not change its error number.\<close>

lemma resume_keeps_error:
  assumes k: "kernel_inv s" and sp: "suspended s t"
  shows "thread_error (thread_of (snd (rt_thread_resume t s)) u) = thread_error (thread_of s u)"
proof -
  define s1 where "s1 = (if sched_flag_ttmr_set (thread_of s t) then snd (rt_sched_thread_timer_stop t s) else s)"
  define x where "x = rt_sched_insert_thread t (unlink_thread t s1)"
  have r: "snd (rt_thread_resume t s) = rt_sched_unlock_n_resched x"
    using ready_effect(1)[OF k sp] by (simp add: rt_thread_resume_def s1_def x_def)
  have "thread_error (thread_of s1 u) = thread_error (thread_of s u)"
    by (auto simp: s1_def timer_stop_fields)
  moreover have "thread_error (thread_of x u) = thread_error (thread_of s1 u)"
    using same_but_stat_simps(1)[OF insert_same_but_stat[of "unlink_thread t s1" u t]] by (simp add: x_def)
  moreover have "thread_error (thread_of (rt_sched_unlock_n_resched x) u) = thread_error (thread_of x u)"
    using same_but_stat_simps(1)[OF schedule_same_but_stat[of x u]] by (simp add: rt_sched_unlock_n_resched_def)
  ultimately show ?thesis using r by simp
qed

section \<open>Properties\<close>

text \<open>C26: Waiting for a completion and reporting it meet in either order. A thread that waits for a
  completion that is not done is suspended and recorded as its waiter, and in every later state in which
  it still sleeps the report wakes it and it returns success. A
  report that comes first is remembered: a second report is refused, and the next wait returns success
  at once. In both orders the completion is as new afterwards.\<close>

theorem completion_handshake:
  assumes "kernel_inv s" and "may_block s t" and "timeout \<noteq> 0"
  shows "(\<exists>c s1. rt_completion_wait timeout rt_completion_init s = (Blocked, c, s1) \<and> kernel_inv s1 \<and> suspended s1 t
      \<and> (\<forall>s2. kernel_inv s2 \<and> suspended s2 t \<and> thread_error (thread_of s2 t) = thread_error (thread_of s1 t) \<longrightarrow>
          (\<exists>c' s3. rt_completion_wakeup c s2 = (RT_EOK, c', s3) \<and> kernel_inv s3 \<and> \<not> suspended s3 t
            \<and> completion_wait_resume t c' s3 = (Ret RT_EOK, rt_completion_init, s3))))
    \<and> (\<exists>c. rt_completion_wakeup rt_completion_init s = (- RT_EEMPTY, c, s) \<and> rt_completion_wakeup c s = (- RT_EBUSY, c, s)
        \<and> rt_completion_wait timeout c s = (Ret RT_EOK, rt_completion_init, s))"
proof
  obtain s1 where s1: "rt_completion_wait timeout rt_completion_init s = (Blocked, \<lparr> susp_thread = Some t, completed = False \<rparr>, s1)"
    "kernel_inv s1" "suspended s1 t" "thread_error (thread_of s1 t) = RT_EOK"
    by (rule wait_blocks[OF assms(1,2) _ assms(3), of rt_completion_init]) (auto simp: rt_completion_init_def)
  have "\<exists>c' s3. rt_completion_wakeup \<lparr> susp_thread = Some t, completed = False \<rparr> s2 = (RT_EOK, c', s3) \<and> kernel_inv s3 \<and> \<not> suspended s3 t
      \<and> completion_wait_resume t c' s3 = (Ret RT_EOK, rt_completion_init, s3)"
    if "kernel_inv s2" "suspended s2 t" "thread_error (thread_of s2 t) = thread_error (thread_of s1 t)" for s2
    using done_wakes[OF that(1,2) refl] thread_resume_spec(1,3)[OF that(1), of t] resume_keeps_error[OF that(1,2), of t] that(3) s1(4)
    by (simp add: rt_completion_wakeup_def completion_wait_resume_def rt_completion_init_def)
  then show "\<exists>c s1. rt_completion_wait timeout rt_completion_init s = (Blocked, c, s1) \<and> kernel_inv s1 \<and> suspended s1 t
      \<and> (\<forall>s2. kernel_inv s2 \<and> suspended s2 t \<and> thread_error (thread_of s2 t) = thread_error (thread_of s1 t) \<longrightarrow>
          (\<exists>c' s3. rt_completion_wakeup c s2 = (RT_EOK, c', s3) \<and> kernel_inv s3 \<and> \<not> suspended s3 t
            \<and> completion_wait_resume t c' s3 = (Ret RT_EOK, rt_completion_init, s3)))" using s1 by blast
qed (simp add: rt_completion_wakeup_def completion_done_def rt_completion_wait_def rt_completion_init_def)

theorem completion_handshake_witness:
  "\<exists>c s1 c' s3. rt_completion_wait 5 rt_completion_init demo_kernel = (Blocked, c, s1)
     \<and> rt_completion_wakeup c s1 = (RT_EOK, c', s3) \<and> completion_wait_resume 1 c' s3 = (Ret RT_EOK, rt_completion_init, s3)"
  using completion_handshake[OF demo_kernel_inv demo_may_block, of 5] by auto

text \<open>A report that comes after the waiter's timeout has expired, but before the waiter runs again, is lost: the
  waiter answers the timeout and clears the flag.\<close>

theorem completion_lost_after_timeout:
  assumes "kernel_inv s" "\<not> suspended s t" "thread_error (thread_of s t) = - RT_ETIMEOUT"
  shows "\<exists>c. rt_completion_wakeup \<lparr> susp_thread = Some t, completed = False \<rparr> s = (- RT_EINVAL, c, s)
    \<and> completion_wait_resume t c s = (Ret (- RT_ETIMEOUT), rt_completion_init, s)"
  using assms is_suspended_eq[of t s]
  by (simp add: rt_completion_wakeup_def completion_done_def rt_thread_resume_def rt_sched_thread_ready_def
      completion_wait_resume_def rt_completion_init_def RT_EINVAL_def)

end
