(* ===== verification/WaitQueue.thy ===== *)
theory WaitQueue
  imports Completion TimerSys
begin

text \<open>
  Wait queues of the device drivers (\<open>rt-thread/components/drivers/ipc/waitqueue.c\<close>): threads wait on nodes that they
  provide themselves; a wake-up that finds nobody is remembered by a flag. A node is known by its address; \<open>poll\<close> gives
  the thread that waits on a node, and \<open>wakeup\<close> the wake-up function of a node, which is code of the client (the
  default one accepts every key). A wait is split where the thread can lose the processor.
\<close>

section \<open>Operations\<close>

type_synonym nid = nat

record rt_wqueue =
  wakeup_flag :: bool
  waiting_list :: "nid list"

definition rt_wqueue_init :: rt_wqueue where
  "rt_wqueue_init = \<lparr> wakeup_flag = False, waiting_list = [] \<rparr>"

definition rt_wqueue_add :: "nid \<Rightarrow> rt_wqueue \<Rightarrow> rt_wqueue" where
  "rt_wqueue_add n q = q\<lparr> waiting_list := waiting_list q @ [n] \<rparr>"

definition rt_wqueue_remove :: "nid \<Rightarrow> rt_wqueue \<Rightarrow> rt_wqueue" where
  "rt_wqueue_remove n q = q\<lparr> waiting_list := removeAll n (waiting_list q) \<rparr>"

definition wqueue_default_wake :: "nid \<Rightarrow> nat \<Rightarrow> int" where
  "wqueue_default_wake n key = 0"

text \<open>The loop over the nodes: the node that was woken, if any.\<close>

fun wakeup_loop :: "(nid \<Rightarrow> tid) \<Rightarrow> (nid \<Rightarrow> nat \<Rightarrow> int) \<Rightarrow> nat \<Rightarrow> nid list \<Rightarrow> kstate \<Rightarrow> nid option \<times> kstate" where
  "wakeup_loop poll wakeup key [] s = (None, s)"
| "wakeup_loop poll wakeup key (n # ns) s =
    (if wakeup n key = 0 then
       let s = upd_thread (poll n) (\<lambda>x. x\<lparr> thread_error := RT_EOK \<rparr>) s;
           (error, s) = rt_thread_resume (poll n) s
       in if error = 0 then (Some n, s) else wakeup_loop poll wakeup key ns s
     else wakeup_loop poll wakeup key ns s)"

definition rt_wqueue_wakeup ::
  "(nid \<Rightarrow> tid) \<Rightarrow> (nid \<Rightarrow> nat \<Rightarrow> int) \<Rightarrow> nat \<Rightarrow> rt_wqueue \<Rightarrow> kstate \<Rightarrow> rt_wqueue \<times> kstate" where
  "rt_wqueue_wakeup poll wakeup key q s =
    (let q = q\<lparr> wakeup_flag := True \<rparr>
     in case wakeup_loop poll wakeup key (waiting_list q) s of
          (Some n, s) \<Rightarrow> (rt_wqueue_remove n q, rt_schedule s)
        | (None, s) \<Rightarrow> (q, s))"

fun wakeup_all_loop :: "(nid \<Rightarrow> tid) \<Rightarrow> (nid \<Rightarrow> nat \<Rightarrow> int) \<Rightarrow> nat \<Rightarrow> nid list \<Rightarrow> bool \<Rightarrow> kstate \<Rightarrow> bool \<times> kstate" where
  "wakeup_all_loop poll wakeup key [] need s = (need, s)"
| "wakeup_all_loop poll wakeup key (n # ns) need s =
    (if wakeup n key = 0 then
       let s = upd_thread (poll n) (\<lambda>x. x\<lparr> thread_error := RT_EOK \<rparr>) s;
           (error, s) = rt_thread_resume (poll n) s
       in wakeup_all_loop poll wakeup key ns (need \<or> error = 0) s
     else wakeup_all_loop poll wakeup key ns need s)"

definition rt_wqueue_wakeup_all ::
  "(nid \<Rightarrow> tid) \<Rightarrow> (nid \<Rightarrow> nat \<Rightarrow> int) \<Rightarrow> nat \<Rightarrow> rt_wqueue \<Rightarrow> kstate \<Rightarrow> rt_wqueue \<times> kstate" where
  "rt_wqueue_wakeup_all poll wakeup key q s =
    (let q = q\<lparr> wakeup_flag := True \<rparr>;
         (need, s) = wakeup_all_loop poll wakeup key (waiting_list q) False s
     in (q, if need then rt_schedule s else s))"

text \<open>The end of a wait, also of one whose thread runs again: \<open>n\<close> is the node on the caller's stack.\<close>

definition wqueue_wait_resume :: "tid \<Rightarrow> nid \<Rightarrow> rt_wqueue \<Rightarrow> kstate \<Rightarrow> ret \<times> rt_wqueue \<times> kstate" where
  "wqueue_wait_resume t n q s =
    (Ret (let e = thread_error (thread_of s t) in if e > 0 then - e else e),
     rt_wqueue_remove n (q\<lparr> wakeup_flag := False \<rparr>), s)"

definition wqueue_wait :: "nid \<Rightarrow> int \<Rightarrow> int \<Rightarrow> suspend_flag \<Rightarrow> rt_wqueue \<Rightarrow> kstate \<Rightarrow> ret \<times> rt_wqueue \<times> kstate" where
  "wqueue_wait n condition msec sf q s =
    (let tick = sint (rt_tick_from_millisecond msec)
     in if condition \<noteq> 0 \<or> tick = 0 then (Ret 0, q, s)
        else case rt_thread_self s of None \<Rightarrow> (Fault, q, s)
        | Some t \<Rightarrow>
           let s = upd_thread t (\<lambda>x. x\<lparr> thread_error := RT_EOK \<rparr>) s
           in if wakeup_flag q then wqueue_wait_resume t n q s
              else
                let (ret, s) = rt_thread_suspend_with_flag t sf s
                in if ret \<noteq> RT_EOK then (Ret (- RT_EINTR), q, s)
                   else
                     let q = rt_wqueue_add n q;
                         s = (if tick \<noteq> - 1
                              then snd (rt_timer_start (ThreadTimer t)
                                (snd (rt_timer_control (ThreadTimer t) (TIMER_CTRL_SET_TIME (word_of_int tick)) s)))
                              else s);
                         s = rt_schedule s
                     in if rt_thread_self s = Some t then wqueue_wait_resume t n q s else (Blocked, q, s))"

definition rt_wqueue_wait :: "nid \<Rightarrow> int \<Rightarrow> int \<Rightarrow> rt_wqueue \<Rightarrow> kstate \<Rightarrow> ret \<times> rt_wqueue \<times> kstate" where
  "rt_wqueue_wait n condition msec q s = wqueue_wait n condition msec RT_UNINTERRUPTIBLE q s"

definition rt_wqueue_wait_killable :: "nid \<Rightarrow> int \<Rightarrow> int \<Rightarrow> rt_wqueue \<Rightarrow> kstate \<Rightarrow> ret \<times> rt_wqueue \<times> kstate" where
  "rt_wqueue_wait_killable n condition msec q s = wqueue_wait n condition msec RT_KILLABLE q s"

definition rt_wqueue_wait_interruptible :: "nid \<Rightarrow> int \<Rightarrow> int \<Rightarrow> rt_wqueue \<Rightarrow> kstate \<Rightarrow> ret \<times> rt_wqueue \<times> kstate" where
  "rt_wqueue_wait_interruptible n condition msec q s = wqueue_wait n condition msec RT_INTERRUPTIBLE q s"

section \<open>Behaviour\<close>

text \<open>A waiting time in milliseconds is the same number of ticks.\<close>

lemma ticks_positive:
  assumes "0 < ms" "ms < 2 ^ 31"
  shows "sint (rt_tick_from_millisecond ms) = ms"
proof -
  have "uint (rt_tick_from_millisecond ms) = ms"
    using assms tick_from_millisecond_exact[of ms] by simp
  then have "rt_tick_from_millisecond ms = word_of_int ms" by (metis word_of_int_uint)
  then show ?thesis using assms by (simp add: sint_sbintrunc' signed_take_bit_int_eq_self)
qed

lemma set_error_state:
  assumes "kernel_inv s"
  shows "kernel_inv (upd_thread t (\<lambda>x. x\<lparr> thread_error := e \<rparr>) s)"
    and "suspended (upd_thread t (\<lambda>x. x\<lparr> thread_error := e \<rparr>) s) u = suspended s u"
  using assms neutral_kernel_inv[of s t "\<lambda>x. x\<lparr> thread_error := e \<rparr>"]
  by (simp_all add: sched_neutral_def suspended_def thread_state_def)

lemma resume_awake: "\<not> suspended s t \<Longrightarrow> rt_thread_resume t s = (- RT_EINVAL, s)"
  using is_suspended_eq[of t s] by (simp add: rt_thread_resume_def rt_sched_thread_ready_def RT_EINVAL_def)

text \<open>The loop passes over nodes that refuse the key and over threads that no longer sleep; the first other one is woken.\<close>

lemma wakeup_loop_first:
  assumes "kernel_inv s" and "\<And>x. x \<in> set xs \<Longrightarrow> wakeup x key \<noteq> 0 \<or> \<not> suspended s (poll x)"
    and "wakeup n key = 0" and "suspended s (poll n)"
  shows "\<exists>s1. wakeup_loop poll wakeup key (xs @ n # ys) s = (Some n, snd (rt_thread_resume (poll n) s1))
    \<and> kernel_inv s1 \<and> (\<forall>u. suspended s1 u = suspended s u) \<and> thread_error (thread_of s1 (poll n)) = RT_EOK"
  using assms
proof (induction xs arbitrary: s)
  case Nil
  let ?s = "upd_thread (poll n) (\<lambda>x. x\<lparr> thread_error := RT_EOK \<rparr>) s"
  have "fst (rt_thread_resume (poll n) ?s) = 0"
    using thread_resume_spec(2)[of ?s "poll n"] set_error_state[OF Nil.prems(1)] Nil.prems(4) by (simp add: RT_EOK_def)
  then show ?case using set_error_state[OF Nil.prems(1)] Nil.prems(3)
    by (intro exI[of _ ?s]) (auto simp: Let_def split: prod.splits)
next
  case (Cons x xs)
  show ?case
  proof (cases "wakeup x key = 0")
    case False
    then show ?thesis using Cons.IH[of s] Cons.prems by auto
  next
    case True
    let ?s = "upd_thread (poll x) (\<lambda>x. x\<lparr> thread_error := RT_EOK \<rparr>) s"
    have "\<not> suspended ?s (poll x)" using True Cons.prems(2)[of x] set_error_state(2)[OF Cons.prems(1)] by simp
    then have "wakeup_loop poll wakeup key ((x # xs) @ n # ys) s = wakeup_loop poll wakeup key (xs @ n # ys) ?s"
      using True by (simp add: resume_awake RT_EINVAL_def)
    then show ?thesis using Cons.IH[of ?s] Cons.prems set_error_state[OF Cons.prems(1)] by auto
  qed
qed

text \<open>After the wake-up the thread is awake, its error number says success and its node is gone.\<close>

lemma wakeup_first:
  assumes "kernel_inv s" and "waiting_list q = xs @ n # ys" and "\<And>x. x \<in> set xs \<Longrightarrow> wakeup x key \<noteq> 0 \<or> \<not> suspended s (poll x)"
    and "wakeup n key = 0" and "suspended s (poll n)"
  shows "\<exists>s'. rt_wqueue_wakeup poll wakeup key q s
      = (\<lparr> wakeup_flag = True, waiting_list = removeAll n (waiting_list q) \<rparr>, s')
    \<and> kernel_inv s' \<and> \<not> suspended s' (poll n) \<and> thread_error (thread_of s' (poll n)) = RT_EOK"
proof -
  obtain s1 where s1: "wakeup_loop poll wakeup key (xs @ n # ys) s = (Some n, snd (rt_thread_resume (poll n) s1))"
    "kernel_inv s1" "suspended s1 (poll n)" "thread_error (thread_of s1 (poll n)) = RT_EOK"
    using wakeup_loop_first[OF assms(1), of xs wakeup key poll n ys] assms(3-5) by auto
  let ?r = "snd (rt_thread_resume (poll n) s1)"
  note r = thread_resume_spec[OF s1(2), of "poll n"]
  have "\<not> suspended (rt_schedule ?r) (poll n)"
    using r(1,3) schedule_states(1)[of ?r] by (simp add: kernel_inv_def)
  moreover have "thread_error (thread_of (rt_schedule ?r) (poll n)) = RT_EOK"
    using same_but_stat_simps(1)[OF schedule_same_but_stat[of ?r "poll n"]] resume_keeps_error[OF s1(2,3), of "poll n"] s1(4) by simp
  moreover have "rt_wqueue_wakeup poll wakeup key q s
      = (\<lparr> wakeup_flag = True, waiting_list = removeAll n (waiting_list q) \<rparr>, rt_schedule ?r)"
    using assms(2) s1(1) by (cases q) (simp add: rt_wqueue_wakeup_def rt_wqueue_remove_def)
  ultimately show ?thesis using schedule_kernel_inv[OF r(1)] by blast
qed

text \<open>A wait on a queue whose flag is clear suspends the caller behind the nodes that are there.\<close>

lemma wqueue_wait_blocks:
  assumes k: "kernel_inv s" and mb: "may_block s t" and ms: "0 < ms" "ms < 2 ^ 31" and f: "\<not> wakeup_flag q"
  obtains s' where "wqueue_wait n 0 ms sf q s = (Blocked, rt_wqueue_add n q, s')"
    and "kernel_inv s'" and "suspended s' t"
    and "ThreadTimer t \<in> set (timer_lists s' HardTimers)"
    and "timeout_tick (timer_of s' (ThreadTimer t)) = rt_tick s + word_of_int ms"
proof -
  define s0 where "s0 = upd_thread t (\<lambda>x. x\<lparr> thread_error := RT_EOK \<rparr>) s"
  note b0 = take_error_state[OF k mb, of RT_EOK, folded s0_def]
  define x where "x = rt_schedule (start_wait_timer t ms (snd (rt_thread_suspend_to_list t None 0 sf s0)))"
  note b = block_at[OF b0, where sl = None and flags = 0 and sf = sf and timeout = ms, simplified, folded x_def]
  have self: "rt_thread_self s = Some t" using mb by (simp add: may_block_def rt_thread_self_def)
  have e: "wqueue_wait n 0 ms sf q s = (Blocked, rt_wqueue_add n q, x)"
    using ms f self block_suspends[OF b0(2), of None 0 sf] b(3)
    by (auto simp: wqueue_wait_def rt_thread_suspend_with_flag_def Let_def ticks_positive s0_def[symmetric] x_def
        start_wait_timer_def split: prod.splits)
  have "ThreadTimer t \<in> set (timer_lists x HardTimers)" "timeout_tick (timer_of x (ThreadTimer t)) = rt_tick s + word_of_int ms"
    using b(7) ms by (simp_all add: x_def s0_def)
  then show thesis using that[OF e b(1,2)] by blast
qed

section \<open>Properties\<close>

text \<open>C25: A wake-up of a wait queue reaches the thread it is for. A thread that waits on a queue whose flag is clear is put to
  sleep behind the nodes already waiting, with its timer armed. Whatever then happens to the queue and the kernel: if the thread sleeps, its node is in the queue and
  accepts the key, and the nodes before it refuse the key or belong to threads that are awake, a
  wake-up sets the flag, wakes the thread and takes its node off the queue; and whatever happens to the queue until the thread
  runs again, its wait returns zero if its error field still says success, takes only its own node off the list and clears the flag. A wake-up that finds no node is kept in
  the flag, and the next wait returns zero at once and clears it. The flag does not count: a wake-up that comes when the list is empty and the flag is
  set, such as between the wake-up of the thread and its return, changes nothing, and the return clears the flag
  for both.\<close>

theorem wqueue_wakeup_reaches_waiter:
  assumes "kernel_inv s" and "may_block s t" and "0 < ms" and "ms < 2 ^ 31" and "\<not> wakeup_flag q" and "poll n = t"
  shows "(\<exists>q1 s1. wqueue_wait n 0 ms sf q s = (Blocked, q1, s1) \<and> kernel_inv s1 \<and> suspended s1 t \<and> \<not> wakeup_flag q1
      \<and> waiting_list q1 = waiting_list q @ [n] \<and> timeout_tick (timer_of s1 (ThreadTimer t)) = rt_tick s + word_of_int ms)
    \<and> (\<forall>q2 s2 xs ys. kernel_inv s2 \<and> suspended s2 t \<and> waiting_list q2 = xs @ n # ys \<and> wakeup n key = 0
        \<and> (\<forall>x \<in> set xs. wakeup x key \<noteq> 0 \<or> \<not> suspended s2 (poll x)) \<longrightarrow>
        (\<exists>q3 s3. rt_wqueue_wakeup poll wakeup key q2 s2 = (q3, s3) \<and> kernel_inv s3 \<and> \<not> suspended s3 t
          \<and> thread_error (thread_of s3 t) = RT_EOK \<and> wakeup_flag q3 \<and> waiting_list q3 = removeAll n (waiting_list q2)))
    \<and> (\<forall>q4 s4. thread_error (thread_of s4 t) = RT_EOK \<longrightarrow>
        wqueue_wait_resume t n q4 s4 = (Ret 0, \<lparr> wakeup_flag = False, waiting_list = removeAll n (waiting_list q4) \<rparr>, s4))
    \<and> (waiting_list q = [] \<longrightarrow> (\<exists>q1. rt_wqueue_wakeup poll wakeup key q s = (q1, s)
        \<and> rt_wqueue_wakeup poll wakeup key q1 s = (q1, s)
        \<and> wqueue_wait n 0 ms sf q1 s = (Ret 0, q, upd_thread t (\<lambda>x. x\<lparr> thread_error := RT_EOK \<rparr>) s)))"
proof (intro conjI impI allI)
  obtain s1 where s1: "wqueue_wait n 0 ms sf q s = (Blocked, rt_wqueue_add n q, s1)" "kernel_inv s1" "suspended s1 t"
    "timeout_tick (timer_of s1 (ThreadTimer t)) = rt_tick s + word_of_int ms"
    using wqueue_wait_blocks[OF assms(1-5)] by metis
  then show "\<exists>q1 s1. wqueue_wait n 0 ms sf q s = (Blocked, q1, s1) \<and> kernel_inv s1 \<and> suspended s1 t \<and> \<not> wakeup_flag q1
      \<and> waiting_list q1 = waiting_list q @ [n] \<and> timeout_tick (timer_of s1 (ThreadTimer t)) = rt_tick s + word_of_int ms"
    using assms(5) by (simp add: rt_wqueue_add_def)
next
  fix q2 :: rt_wqueue and s2 xs ys
  assume "kernel_inv s2 \<and> suspended s2 t \<and> waiting_list q2 = xs @ n # ys \<and> wakeup n key = 0
    \<and> (\<forall>x \<in> set xs. wakeup x key \<noteq> 0 \<or> \<not> suspended s2 (poll x))"
  then show "\<exists>q3 s3. rt_wqueue_wakeup poll wakeup key q2 s2 = (q3, s3) \<and> kernel_inv s3 \<and> \<not> suspended s3 t
      \<and> thread_error (thread_of s3 t) = RT_EOK \<and> wakeup_flag q3 \<and> waiting_list q3 = removeAll n (waiting_list q2)"
    using wakeup_first[of s2 q2 xs n ys wakeup key poll] assms(6) by (elim conjE) (fastforce simp del: removeAll_append)
next
  fix q4 and s4 :: kstate
  assume "thread_error (thread_of s4 t) = RT_EOK"
  then show "wqueue_wait_resume t n q4 s4 = (Ret 0, \<lparr> wakeup_flag = False, waiting_list = removeAll n (waiting_list q4) \<rparr>, s4)"
    by (cases q4) (simp add: wqueue_wait_resume_def rt_wqueue_remove_def RT_EOK_def)
next
  assume "waiting_list q = []"
  then show "\<exists>q1. rt_wqueue_wakeup poll wakeup key q s = (q1, s) \<and> rt_wqueue_wakeup poll wakeup key q1 s = (q1, s)
        \<and> wqueue_wait n 0 ms sf q1 s = (Ret 0, q, upd_thread t (\<lambda>x. x\<lparr> thread_error := RT_EOK \<rparr>) s)"
    using assms(2-5) by (cases q) (simp add: rt_wqueue_wakeup_def wqueue_wait_def ticks_positive may_block_def
        rt_thread_self_def wqueue_wait_resume_def rt_wqueue_remove_def RT_EOK_def)
qed

theorem wqueue_wakeup_reaches_waiter_witness:
  "\<exists>q1 s1 q2 s3. wqueue_wait 9 0 5 RT_INTERRUPTIBLE rt_wqueue_init demo_kernel = (Blocked, q1, s1)
     \<and> rt_wqueue_wakeup (\<lambda>_. 1) wqueue_default_wake 0 q1 s1 = (q2, s3) \<and> \<not> suspended s3 1
     \<and> wqueue_wait_resume 1 9 q2 s3 = (Ret 0, rt_wqueue_init, s3)"
proof -
  have f: "\<not> wakeup_flag rt_wqueue_init" "waiting_list rt_wqueue_init = []" by (simp_all add: rt_wqueue_init_def)
  note p = wqueue_wakeup_reaches_waiter[OF demo_kernel_inv demo_may_block _ _ f(1), of 5 "\<lambda>_. 1" 9 RT_INTERRUPTIBLE wqueue_default_wake 0, simplified]
  obtain q1 s1 where 1: "wqueue_wait 9 0 5 RT_INTERRUPTIBLE rt_wqueue_init demo_kernel = (Blocked, q1, s1)" "kernel_inv s1"
    "suspended s1 1" "waiting_list q1 = [9]" using p[THEN conjunct1] f(2) by auto
  obtain q2 s3 where 2: "rt_wqueue_wakeup (\<lambda>_. 1) wqueue_default_wake 0 q1 s1 = (q2, s3)" "\<not> suspended s3 1"
    "thread_error (thread_of s3 1) = RT_EOK" "waiting_list q2 = []"
    using p[THEN conjunct2, THEN conjunct1, rule_format, of s1 q1 "[]" "[]"] 1(2-4) by (auto simp: wqueue_default_wake_def)
  have "wqueue_wait_resume 1 9 q2 s3 = (Ret 0, rt_wqueue_init, s3)"
    using p[THEN conjunct2, THEN conjunct2, THEN conjunct1] 2(3,4) by (simp add: rt_wqueue_init_def)
  then show ?thesis using 1(1) 2(1,2) by blast
qed

end
