(* ===== verification/SmallMem.thy ===== *)
theory SmallMem
  imports Object
begin

text \<open>
  The small memory allocator (\<open>rt-thread/src/mem.c\<close>): a heap is a sequence of items, each
  with a header of 16 bytes that holds the offsets of the next and of the previous
  item and, in its first word, whether the item is in use. An address is its offset
  from the start of the heap. Offsets and sizes inside the heap are natural numbers,
  because the invariant keeps them below the size of the heap and so far from
  wrap-around; a requested size is a 32-bit word, and rounding it up can wrap.
  The bytes of the heap are part of the model: writing a header makes the bytes
  it covers undefined.
\<close>

section \<open>Data\<close>

text \<open>The first word of a header is null, or the address of the heap with its lowest bit
  set for a used item.\<close>

datatype pool_word = PoolNull | MEM_FREED | MEM_USED

record rt_small_mem_item =
  pool_ptr :: pool_word
  item_next :: nat
  item_prev :: nat

record rt_small_mem =
  items :: "nat \<Rightarrow> rt_small_mem_item"
  heap_bytes :: "nat \<Rightarrow> byte option"
  heap_end :: nat
  lfree :: nat
  mem_size_aligned :: nat
  mem_total :: nat
  mem_used :: nat
  mem_max :: nat

definition SIZEOF_STRUCT_MEM :: nat where "SIZEOF_STRUCT_MEM = 16"
definition MIN_SIZE :: nat where "MIN_SIZE = 12"
definition MIN_SIZE_ALIGNED :: nat where "MIN_SIZE_ALIGNED = 16"

text \<open>\<open>sizeof(struct rt_small_mem)\<close> on the target.\<close>

definition SIZEOF_SMALL_MEM :: u32 where "SIZEOF_SMALL_MEM = 56"

lemmas mem_size_defs = SIZEOF_STRUCT_MEM_def MIN_SIZE_def MIN_SIZE_ALIGNED_def

definition align_up :: "u32 \<Rightarrow> u32" where
  "align_up n = (n + 8 - 1) AND NOT (8 - 1)"

definition align_down :: "u32 \<Rightarrow> u32" where
  "align_down n = n AND NOT (8 - 1)"

definition upd_item :: "nat \<Rightarrow> (rt_small_mem_item \<Rightarrow> rt_small_mem_item) \<Rightarrow> rt_small_mem \<Rightarrow> rt_small_mem" where
  "upd_item p f m = m\<lparr> items := (items m)(p := f (items m p)),
     heap_bytes := (\<lambda>q. if p \<le> q \<and> q < p + SIZEOF_STRUCT_MEM then None else heap_bytes m q) \<rparr>"

definition MEM_ISUSED :: "rt_small_mem \<Rightarrow> nat \<Rightarrow> bool" where
  "MEM_ISUSED m p \<longleftrightarrow> pool_ptr (items m p) = MEM_USED"

abbreviation nxt :: "rt_small_mem \<Rightarrow> nat \<Rightarrow> nat" where "nxt m p \<equiv> item_next (items m p)"
abbreviation prv :: "rt_small_mem \<Rightarrow> nat \<Rightarrow> nat" where "prv m p \<equiv> item_prev (items m p)"

section \<open>Operations\<close>

definition plug_forward :: "nat \<Rightarrow> rt_small_mem \<Rightarrow> rt_small_mem" where
  "plug_forward mem m =
    (let nmem = nxt m mem
     in if mem \<noteq> nmem \<and> \<not> MEM_ISUSED m nmem \<and> nmem \<noteq> heap_end m then
          let m = (if lfree m = nmem then m\<lparr> lfree := mem \<rparr> else m);
              m = upd_item nmem (\<lambda>x. x\<lparr> pool_ptr := PoolNull \<rparr>) m;
              m = upd_item mem (\<lambda>x. x\<lparr> item_next := nxt m nmem \<rparr>) m
          in upd_item (nxt m nmem) (\<lambda>x. x\<lparr> item_prev := mem \<rparr>) m
        else m)"

definition plug_backward :: "nat \<Rightarrow> rt_small_mem \<Rightarrow> rt_small_mem" where
  "plug_backward mem m =
    (let pmem = prv m mem
     in if pmem \<noteq> mem \<and> \<not> MEM_ISUSED m pmem then
          let m = (if lfree m = mem then m\<lparr> lfree := pmem \<rparr> else m);
              m = upd_item mem (\<lambda>x. x\<lparr> pool_ptr := PoolNull \<rparr>) m;
              m = upd_item pmem (\<lambda>x. x\<lparr> item_next := nxt m mem \<rparr>) m
          in upd_item (nxt m mem) (\<lambda>x. x\<lparr> item_prev := pmem \<rparr>) m
        else m)"

definition plug_holes :: "nat \<Rightarrow> rt_small_mem \<Rightarrow> rt_small_mem" where
  "plug_holes mem m = plug_backward mem (plug_forward mem m)"

definition smem_setup :: "nat \<Rightarrow> rt_small_mem" where
  "smem_setup mem_size =
    (let e = mem_size + SIZEOF_STRUCT_MEM
     in \<lparr> items = (\<lambda>_. \<lparr> pool_ptr = PoolNull, item_next = 0, item_prev = 0 \<rparr>)
            (0 := \<lparr> pool_ptr = MEM_FREED, item_next = e, item_prev = 0 \<rparr>,
             e := \<lparr> pool_ptr = MEM_USED, item_next = e, item_prev = e \<rparr>),
          heap_bytes = (\<lambda>_. None), heap_end = e, lfree = 0, mem_size_aligned = mem_size,
          mem_total = mem_size, mem_used = 0, mem_max = 0 \<rparr>)"

definition rt_smem_init ::
  "'o \<Rightarrow> byte list \<Rightarrow> u32 \<Rightarrow> u32 \<Rightarrow> 'o objsys \<Rightarrow> rt_small_mem option \<times> 'o objsys" where
  "rt_smem_init ob name begin_addr sz sys =
    (let small_mem = align_up begin_addr;
         start_addr = small_mem + SIZEOF_SMALL_MEM;
         begin_align = align_up start_addr;
         end_align = align_down (begin_addr + sz)
     in if end_align > 32 \<and> end_align - 32 \<ge> start_addr
        then (Some (smem_setup (unat (end_align - begin_align - 32))),
              rt_object_init ob RT_Object_Class_Memory name sys)
        else (None, sys))"

definition rt_smem_detach :: "'o \<Rightarrow> 'o objsys \<Rightarrow> int \<times> 'o objsys" where
  "rt_smem_detach ob sys = (RT_EOK, rt_object_detach ob sys)"

definition count_used :: "nat \<Rightarrow> rt_small_mem \<Rightarrow> rt_small_mem" where
  "count_used n m =
    (let m = m\<lparr> mem_used := mem_used m + n \<rparr>
     in if mem_max m < mem_used m then m\<lparr> mem_max := mem_used m \<rparr> else m)"

text \<open>Splitting an item: a new free item at \<open>ptr2\<close>, inserted behind \<open>ptr\<close>.\<close>

definition split_item :: "nat \<Rightarrow> nat \<Rightarrow> rt_small_mem \<Rightarrow> rt_small_mem" where
  "split_item ptr ptr2 m =
    (let m = upd_item ptr2 (\<lambda>_. \<lparr> pool_ptr = MEM_FREED, item_next = nxt m ptr, item_prev = ptr \<rparr>) m;
         m = upd_item ptr (\<lambda>x. x\<lparr> item_next := ptr2 \<rparr>) m
     in if nxt m ptr2 \<noteq> mem_size_aligned m + SIZEOF_STRUCT_MEM
        then upd_item (nxt m ptr2) (\<lambda>x. x\<lparr> item_prev := ptr2 \<rparr>) m else m)"

partial_function (option) lfree_loop :: "rt_small_mem \<Rightarrow> rt_small_mem option" where
  "lfree_loop m =
    (if MEM_ISUSED m (lfree m) \<and> lfree m \<noteq> heap_end m
     then lfree_loop (m\<lparr> lfree := nxt m (lfree m) \<rparr>) else Some m)"

text \<open>The item at \<open>ptr\<close> is free and large enough.\<close>

definition alloc_at :: "nat \<Rightarrow> nat \<Rightarrow> rt_small_mem \<Rightarrow> (nat option \<times> rt_small_mem) option" where
  "alloc_at sz ptr m =
    (let m = (if nxt m ptr - (ptr + SIZEOF_STRUCT_MEM) \<ge> sz + SIZEOF_STRUCT_MEM + MIN_SIZE_ALIGNED
              then count_used (sz + SIZEOF_STRUCT_MEM) (split_item ptr (ptr + SIZEOF_STRUCT_MEM + sz) m)
              else count_used (nxt m ptr - ptr) m);
         m = upd_item ptr (\<lambda>x. x\<lparr> pool_ptr := MEM_USED \<rparr>) m
     in map_option (\<lambda>m. (Some (ptr + SIZEOF_STRUCT_MEM), m)) (if ptr = lfree m then lfree_loop m else Some m))"

partial_function (option) alloc_loop :: "nat \<Rightarrow> nat \<Rightarrow> rt_small_mem \<Rightarrow> (nat option \<times> rt_small_mem) option" where
  "alloc_loop sz ptr m =
    (if ptr \<le> mem_size_aligned m - sz then
       if \<not> MEM_ISUSED m ptr \<and> nxt m ptr - (ptr + SIZEOF_STRUCT_MEM) \<ge> sz then alloc_at sz ptr m
       else alloc_loop sz (nxt m ptr) m
     else Some (None, m))"

definition rt_smem_alloc :: "u32 \<Rightarrow> rt_small_mem \<Rightarrow> (nat option \<times> rt_small_mem) option" where
  "rt_smem_alloc sz m =
    (if sz = 0 then Some (None, m)
     else
       let n = unat (align_up sz);
           n = (if n < MIN_SIZE_ALIGNED then MIN_SIZE_ALIGNED else n)
       in if n > mem_size_aligned m then Some (None, m) else alloc_loop n (lfree m) m)"

definition rt_smem_free :: "nat option \<Rightarrow> rt_small_mem \<Rightarrow> rt_small_mem" where
  "rt_smem_free rmem m =
    (case rmem of None \<Rightarrow> m
     | Some r \<Rightarrow>
        let mem = r - SIZEOF_STRUCT_MEM;
            m = upd_item mem (\<lambda>x. x\<lparr> pool_ptr := MEM_FREED \<rparr>) m;
            m = (if mem < lfree m then m\<lparr> lfree := mem \<rparr> else m);
            m = m\<lparr> mem_used := mem_used m - (nxt m mem - mem) \<rparr>
        in plug_holes mem m)"

definition copy_bytes :: "nat \<Rightarrow> nat \<Rightarrow> nat \<Rightarrow> rt_small_mem \<Rightarrow> rt_small_mem" where
  "copy_bytes dst src n m =
    m\<lparr> heap_bytes := (\<lambda>q. if dst \<le> q \<and> q < dst + n then heap_bytes m (src + (q - dst)) else heap_bytes m q) \<rparr>"

text \<open>The end of a used item is given back (the second half of \<open>rt_smem_realloc\<close>).\<close>

definition shrink_item :: "nat \<Rightarrow> nat \<Rightarrow> nat \<Rightarrow> rt_small_mem \<Rightarrow> rt_small_mem" where
  "shrink_item ptr sz newsize m =
    (let ptr2 = ptr + SIZEOF_STRUCT_MEM + newsize;
         m = m\<lparr> mem_used := mem_used m - (sz - newsize) \<rparr>;
         m = split_item ptr ptr2 m;
         m = (if ptr2 < lfree m then m\<lparr> lfree := ptr2 \<rparr> else m)
     in plug_holes ptr2 m)"

definition rt_smem_realloc :: "nat option \<Rightarrow> u32 \<Rightarrow> rt_small_mem \<Rightarrow> (nat option \<times> rt_small_mem) option" where
  "rt_smem_realloc rmem nsz m =
    (let newsize = unat (align_up nsz) in
     if newsize > mem_size_aligned m then Some (None, m)
     else if newsize = 0 then Some (None, rt_smem_free rmem m)
     else case rmem of None \<Rightarrow> rt_smem_alloc (of_nat newsize) m
     | Some r \<Rightarrow>
        let ptr = r - SIZEOF_STRUCT_MEM;
            sz = nxt m ptr - ptr - SIZEOF_STRUCT_MEM
        in if sz = newsize then Some (rmem, m)
           else if newsize + SIZEOF_STRUCT_MEM + MIN_SIZE < sz then
             Some (rmem, shrink_item ptr sz newsize m)
           else
             (case rt_smem_alloc (of_nat newsize) m of None \<Rightarrow> None
              | Some (None, m) \<Rightarrow> Some (None, m)
              | Some (Some nmem, m) \<Rightarrow>
                  let m = copy_bytes nmem r (if sz < newsize then sz else newsize) m
                  in Some (Some nmem, rt_smem_free rmem m)))"

section \<open>Sequences of items\<close>

text \<open>The items \<open>xs\<close> from offset \<open>p\<close> to offset \<open>q\<close>, following \<open>N\<close>: each is aligned and has room
  for its header.\<close>

fun seg :: "(nat \<Rightarrow> nat) \<Rightarrow> nat \<Rightarrow> nat list \<Rightarrow> nat \<Rightarrow> bool" where
  "seg N p [] q = (p = q)"
| "seg N p (x # xs) q = (x = p \<and> 8 dvd p \<and> p + 16 \<le> N p \<and> seg N (N p) xs q)"

fun prevs :: "(nat \<Rightarrow> nat) \<Rightarrow> nat \<Rightarrow> nat list \<Rightarrow> bool" where
  "prevs P l [] = True"
| "prevs P l (x # xs) = (P x = l \<and> prevs P x xs)"

lemma seg_append: "seg N p (xs @ ys) q \<longleftrightarrow> (\<exists>r. seg N p xs r \<and> seg N r ys q)"
  by (induction xs arbitrary: p) auto

lemma seg_le: "seg N p xs q \<Longrightarrow> p \<le> q"
  by (induction xs arbitrary: p) fastforce+

lemma seg_bounds: "seg N p xs q \<Longrightarrow> x \<in> set xs \<Longrightarrow> p \<le> x \<and> x + 16 \<le> N x \<and> N x \<le> q \<and> 8 dvd x"
proof (induction xs arbitrary: p)
  case (Cons z zs)
  then have z: "z = p" "8 dvd p" "p + 16 \<le> N p" "seg N (N p) zs q" by auto
  show ?case
  proof (cases "x = p")
    case True
    then show ?thesis using z seg_le[OF z(4)] by simp
  next
    case False
    then have "x \<in> set zs" using Cons.prems(2) z(1) by simp
    from Cons.IH[OF z(4) this] show ?thesis using z(3) by auto
  qed
qed simp

lemma seg_cong: "(\<And>x. x \<in> set xs \<Longrightarrow> N x = N' x) \<Longrightarrow> seg N p xs q = seg N' p xs q"
  by (induction xs arbitrary: p) auto

lemma seg_distinct: "seg N p xs q \<Longrightarrow> distinct xs"
  by (induction xs arbitrary: p) (use seg_bounds in fastforce)+

text \<open>Items do not overlap.\<close>

lemma seg_disjoint:
  "seg N p xs q \<Longrightarrow> x \<in> set xs \<Longrightarrow> y \<in> set xs \<Longrightarrow> x < y \<Longrightarrow> N x \<le> y"
proof (induction xs arbitrary: p)
  case (Cons z zs)
  then show ?case using seg_bounds[of N "N p" zs q] by fastforce
qed simp

lemma seg_mid:
  assumes "seg N p (as @ x # bs) q"
  shows "seg N p as x" and "seg N (N x) bs q" and "x + 16 \<le> N x" and "8 dvd x" and "N x \<le> q" and "p \<le> x"
    and "\<And>a. a \<in> set as \<Longrightarrow> a + 16 \<le> N a \<and> N a \<le> x" and "\<And>b. b \<in> set bs \<Longrightarrow> N x \<le> b"
    and "x \<notin> set as" and "x \<notin> set bs"
proof -
  obtain r where r: "seg N p as r" "seg N r (x # bs) q" using assms by (auto simp: seg_append)
  then have "r = x" by simp
  then show s: "seg N p as x" "seg N (N x) bs q" and "x + 16 \<le> N x" "8 dvd x" using r by auto
  show "p \<le> x" using seg_le[OF s(1)] .
  show "N x \<le> q" using seg_le[OF s(2)] .
  show a: "a + 16 \<le> N a \<and> N a \<le> x" if "a \<in> set as" for a using seg_bounds[OF s(1) that] by blast
  show b: "N x \<le> b" if "b \<in> set bs" for b using seg_bounds[OF s(2) that] by blast
  show "x \<notin> set as" using a by fastforce
  show "x \<notin> set bs" using b \<open>x + 16 \<le> N x\<close> by fastforce
qed

lemma prevs_append: "prevs P l (xs @ ys) \<longleftrightarrow> prevs P l xs \<and> prevs P (if xs = [] then l else last xs) ys"
  by (induction xs arbitrary: l) auto

lemma prevs_cong: "(\<And>x. x \<in> set xs \<Longrightarrow> P x = P' x) \<Longrightarrow> prevs P l xs = prevs P' l xs"
  by (induction xs arbitrary: l) auto

section \<open>The heap invariant\<close>

definition ffree :: "(nat \<Rightarrow> bool) \<Rightarrow> nat \<Rightarrow> nat list \<Rightarrow> nat" where
  "ffree U e xs = (case dropWhile U xs of [] \<Rightarrow> e | x # _ \<Rightarrow> x)"

definition usum :: "(nat \<Rightarrow> nat) \<Rightarrow> (nat \<Rightarrow> bool) \<Rightarrow> nat list \<Rightarrow> nat" where
  "usum N U xs = (\<Sum>x\<leftarrow>filter U xs. N x - x)"

text \<open>No two neighbouring items are free.\<close>

abbreviation merged :: "(nat \<Rightarrow> bool) \<Rightarrow> nat list \<Rightarrow> bool" where
  "merged U xs \<equiv> successively (\<lambda>x y. U x \<or> U y) xs"

definition hrep :: "(nat \<Rightarrow> nat) \<Rightarrow> (nat \<Rightarrow> nat) \<Rightarrow> (nat \<Rightarrow> bool) \<Rightarrow> nat \<Rightarrow> nat list \<Rightarrow> bool" where
  "hrep N P U e ps \<longleftrightarrow> ps \<noteq> [] \<and> seg N 0 ps e \<and> prevs P 0 ps \<and> U e"

text \<open>\<open>smem_pre\<close> is the invariant without the condition that free neighbours are merged.\<close>

definition smem_pre :: "rt_small_mem \<Rightarrow> nat list \<Rightarrow> bool" where
  "smem_pre m ps \<longleftrightarrow>
    hrep (nxt m) (prv m) (MEM_ISUSED m) (heap_end m) ps \<and>
    heap_end m = mem_size_aligned m + SIZEOF_STRUCT_MEM \<and> 8 dvd mem_size_aligned m \<and>
    mem_size_aligned m + 64 < 2 ^ 32 \<and>
    lfree m = ffree (MEM_ISUSED m) (heap_end m) ps \<and>
    mem_used m = usum (nxt m) (MEM_ISUSED m) ps \<and> mem_used m \<le> mem_max m"

definition smem_rep :: "rt_small_mem \<Rightarrow> nat list \<Rightarrow> bool" where
  "smem_rep m ps \<longleftrightarrow> smem_pre m ps \<and> merged (MEM_ISUSED m) ps"

definition smem_inv :: "rt_small_mem \<Rightarrow> bool" where
  "smem_inv m \<longleftrightarrow> (\<exists>ps. smem_rep m ps)"

lemma ffree_append:
  "ffree U e (xs @ ys) = (if \<forall>x \<in> set xs. U x then ffree U e ys else ffree U e xs)"
  by (induction xs) (auto simp: ffree_def)

lemma ffree_Cons: "ffree U e (x # xs) = (if U x then ffree U e xs else x)"
  by (simp add: ffree_def)

lemma ffree_Nil [simp]: "ffree U e [] = e"
  by (simp add: ffree_def)

lemma usum_simps [simp]:
  "usum N U [] = 0" "usum N U (x # xs) = (if U x then N x - x else 0) + usum N U xs"
  "usum N U (xs @ ys) = usum N U xs + usum N U ys"
  by (simp_all add: usum_def)

lemma usum_cong: "(\<And>x. x \<in> set xs \<Longrightarrow> N x = N' x \<and> U x = U' x) \<Longrightarrow> usum N U xs = usum N' U' xs"
  by (induction xs) auto

lemma merged_cong: "(\<And>x. x \<in> set xs \<Longrightarrow> U x = U' x) \<Longrightarrow> merged U xs = merged U' xs"
  by (induction xs rule: induct_list012) auto

lemma ffree_cong: "(\<And>x. x \<in> set xs \<Longrightarrow> U x = U' x) \<Longrightarrow> ffree U e xs = ffree U' e xs"
  by (induction xs) (auto simp: ffree_Cons)

lemma hrep_end: "hrep N P U e ps \<Longrightarrow> e \<notin> set ps"
  using seg_bounds[of N 0 ps e e] by (auto simp: hrep_def)

text \<open>Inserting an item \<open>y\<close> behind \<open>x\<close>.\<close>

lemma hrep_split:
  assumes h: "hrep N P U e (as @ x # bs)" and y: "8 dvd y" "x + 16 \<le> y" "y + 16 \<le> N x"
    and N': "\<And>z. N' z = (if z = x then y else if z = y then N x else N z)"
    and P': "P' y = x" "\<And>z. z \<noteq> y \<Longrightarrow> z \<noteq> e \<Longrightarrow> P' z = (if z = N x then y else P z)"
    and U': "U' e"
  shows "hrep N' P' U' e (as @ x # y # bs)"
proof -
  have sg: "seg N 0 (as @ x # bs) e" and pv: "prevs P 0 (as @ x # bs)" using h by (auto simp: hrep_def)
  note m = seg_mid[OF sg]
  have e: "e \<notin> set (as @ x # bs)" by (rule hrep_end[OF h])
  have ya: "a \<noteq> y \<and> a \<noteq> x \<and> a \<noteq> N x" if "a \<in> set as" for a using m(3) m(7)[OF that] y by auto
  have yb: "b \<noteq> y \<and> b \<noteq> x" if "b \<in> set bs" for b using m(8)[OF that] y m(3) by auto
  have "seg N' 0 as x" using m(1) seg_cong[of as N' N 0 x] N' ya by auto
  moreover have "seg N' (N x) bs e" using m(2) seg_cong[of bs N' N "N x" e] N' yb by auto
  ultimately have s': "seg N' 0 (as @ x # y # bs) e"
    using y m(4) N' by (auto simp: seg_append)
  have "prevs P' 0 as = prevs P 0 as"
  proof (rule prevs_cong)
    fix a assume a: "a \<in> set as"
    then have "a \<noteq> e" using e by auto
    then show "P' a = P a" using P'(2)[of a] ya[OF a] by simp
  qed
  then have "prevs P' 0 as" using pv by (simp add: prevs_append)
  moreover have "P' x = P x" using P'(2)[of x] y m(3) e by auto
  moreover have "prevs P' y bs"
  proof (cases bs)
    case (Cons b bs')
    then have b: "b = N x" using m(2) by simp
    have "distinct bs" using seg_distinct[OF sg] by simp
    then have "prevs P' b bs' = prevs P b bs'"
    proof (intro prevs_cong)
      fix c assume c: "c \<in> set bs'"
      then have "c \<noteq> y" "c \<noteq> e" "c \<noteq> b" using yb[of c] e Cons \<open>distinct bs\<close> by auto
      then show "P' c = P c" using P'(2)[of c] b by simp
    qed
    then show ?thesis using pv Cons b P'(2)[of b] yb e by (auto simp: prevs_append)
  qed simp
  ultimately have "prevs P' 0 (as @ x # y # bs)" using pv P'(1) by (auto simp: prevs_append)
  then show ?thesis using s' U' by (simp add: hrep_def)
qed

text \<open>Removing the item \<open>y\<close> behind \<open>x\<close>.\<close>

lemma hrep_merge:
  assumes h: "hrep N P U e (as @ x # y # bs)"
    and N': "\<And>z. z \<noteq> y \<Longrightarrow> N' z = (if z = x then N y else N z)"
    and P': "\<And>z. z \<noteq> e \<Longrightarrow> z \<noteq> y \<Longrightarrow> P' z = (if z = N y then x else P z)" and U': "U' e"
  shows "hrep N' P' U' e (as @ x # bs)"
proof -
  have sg: "seg N 0 (as @ x # y # bs) e" and pv: "prevs P 0 (as @ x # y # bs)" using h by (auto simp: hrep_def)
  note m = seg_mid[OF sg]
  have xy: "N x = y" using m(2) by simp
  have sy: "seg N 0 ((as @ [x]) @ y # bs) e" using sg by simp
  note my = seg_mid[OF sy]
  have e: "e \<notin> set (as @ x # y # bs)" by (rule hrep_end[OF h])
  have ya: "a \<noteq> y \<and> a \<noteq> x \<and> a \<noteq> N y" if "a \<in> set as" for a using m(7)[OF that] m(3) my(3) xy by auto
  have yb: "b \<noteq> y \<and> b \<noteq> x" if "b \<in> set bs" for b using my(8)[OF that] my(3) m(3) xy by auto
  have "seg N' 0 as x" using m(1) seg_cong[of as N' N 0 x] N' ya by auto
  moreover have "seg N' (N y) bs e" using my(2) seg_cong[of bs N' N "N y" e] N' yb by auto
  moreover have "N' x = N y" using N'[of x] m(3) xy by auto
  ultimately have s': "seg N' 0 (as @ x # bs) e"
    using m(3,4) my(3) xy by (auto simp: seg_append)
  have "prevs P' 0 as = prevs P 0 as"
  proof (rule prevs_cong)
    fix a assume a: "a \<in> set as"
    then have "a \<noteq> e" using e by auto
    then show "P' a = P a" using P'[of a] ya[OF a] by simp
  qed
  then have "prevs P' 0 as" using pv by (simp add: prevs_append)
  moreover have "P' x = P x" using P'[of x] m(3) my(3) xy e by auto
  moreover have "prevs P' x bs"
  proof (cases bs)
    case (Cons b bs')
    then have b: "b = N y" using my(2) by simp
    have "distinct bs" using seg_distinct[OF sg] by simp
    then have "prevs P' b bs' = prevs P b bs'"
    proof (intro prevs_cong)
      fix c assume c: "c \<in> set bs'"
      then have "c \<noteq> y" "c \<noteq> e" "c \<noteq> b" using yb[of c] e Cons \<open>distinct bs\<close> by auto
      then show "P' c = P c" using P'[of c] b by simp
    qed
    then show ?thesis using pv Cons b P'[of b] yb e by (auto simp: prevs_append)
  qed simp
  ultimately have "prevs P' 0 (as @ x # bs)" using pv by (auto simp: prevs_append)
  then show ?thesis using s' U' by (simp add: hrep_def)
qed

section \<open>The items of a heap\<close>

fun walk_items :: "(nat \<Rightarrow> nat) \<Rightarrow> nat \<Rightarrow> nat \<Rightarrow> nat \<Rightarrow> nat list" where
  "walk_items N e 0 p = []"
| "walk_items N e (Suc n) p = (if p < e then p # walk_items N e n (N p) else [])"

definition item_list :: "rt_small_mem \<Rightarrow> nat list" where
  "item_list m = walk_items (nxt m) (heap_end m) (heap_end m) 0"

text \<open>The allocated blocks: the address of the data of each used item, with its size.\<close>

definition allocs :: "rt_small_mem \<Rightarrow> nat \<Rightarrow> nat option" where
  "allocs m a = (if 16 \<le> a \<and> a - 16 \<in> set (item_list m) \<and> MEM_ISUSED m (a - 16)
     then Some (nxt m (a - 16) - a) else None)"

lemma seg_walk: "seg N p xs e \<Longrightarrow> length xs \<le> n \<Longrightarrow> walk_items N e n p = xs"
proof (induction xs arbitrary: p n)
  case Nil
  then show ?case by (cases n) auto
next
  case (Cons x xs)
  then obtain k where k: "n = Suc k" by (cases n) auto
  have "p < e" using Cons.prems(1) seg_le[of N "N p" xs e] by auto
  then show ?case using Cons k by simp
qed

lemma seg_length: "seg N p xs e \<Longrightarrow> p + 16 * length xs \<le> e"
proof (induction xs arbitrary: p)
  case (Cons x xs)
  have "N p + 16 * length xs \<le> e" using Cons.IH[of "N p"] Cons.prems by simp
  then show ?case using Cons.prems by simp
qed auto

lemma smem_preD:
  assumes "smem_pre m ps"
  shows "hrep (nxt m) (prv m) (MEM_ISUSED m) (heap_end m) ps"
    and "heap_end m = mem_size_aligned m + 16" and "8 dvd mem_size_aligned m" and "mem_size_aligned m + 64 < 2 ^ 32"
    and "lfree m = ffree (MEM_ISUSED m) (heap_end m) ps" and "mem_used m = usum (nxt m) (MEM_ISUSED m) ps"
    and "mem_used m \<le> mem_max m" and "seg (nxt m) 0 ps (heap_end m)" and "ps \<noteq> []"
    and "MEM_ISUSED m (heap_end m)" and "heap_end m \<notin> set ps" and "8 dvd heap_end m"
  using assms hrep_end[of "nxt m" "prv m" "MEM_ISUSED m" "heap_end m" ps]
  by (auto simp: smem_pre_def hrep_def SIZEOF_STRUCT_MEM_def)

lemma pre_item_list:
  assumes "smem_pre m ps"
  shows "item_list m = ps"
proof -
  have "length ps \<le> heap_end m" using seg_length[OF smem_preD(8)[OF assms]] by simp
  then show ?thesis using seg_walk[OF smem_preD(8)[OF assms]] by (simp add: item_list_def)
qed

lemma smem_repD: "smem_rep m ps \<Longrightarrow> smem_pre m ps" "smem_rep m ps \<Longrightarrow> merged (MEM_ISUSED m) ps"
  by (simp_all add: smem_rep_def)

lemma smem_inv_list: "smem_inv m \<longleftrightarrow> smem_rep m (item_list m)"
  by (metis pre_item_list smem_inv_def smem_repD(1))

lemma allocs_pre: "smem_pre m ps \<Longrightarrow> allocs m a = (if 16 \<le> a \<and> a - 16 \<in> set ps \<and> MEM_ISUSED m (a - 16)
    then Some (nxt m (a - 16) - a) else None)"
  by (simp add: allocs_def pre_item_list)

lemma ffree_in: "ffree U e xs \<in> insert e (set xs)"
  by (induction xs) (auto simp: ffree_Cons)

lemma ffree_found: "\<not> (\<forall>x \<in> set xs. U x) \<Longrightarrow> ffree U e xs \<in> set xs"
  by (induction xs) (auto simp: ffree_Cons)

lemma ffree_before: "\<not> U x \<Longrightarrow> ffree U e (as @ x # bs) \<in> insert x (set as)"
  using ffree_found[of as U e] by (auto simp: ffree_append ffree_Cons)

section \<open>Single steps\<close>

text \<open>The headers at the offsets \<open>H\<close> were written; all other bytes are as before.\<close>

definition only_headers :: "nat set \<Rightarrow> rt_small_mem \<Rightarrow> rt_small_mem \<Rightarrow> bool" where
  "only_headers H m m' \<longleftrightarrow> (\<forall>q. (\<forall>h \<in> H. \<not> (h \<le> q \<and> q < h + 16)) \<longrightarrow> heap_bytes m' q = heap_bytes m q)"

lemma only_headers_trans:
  "only_headers H m m' \<Longrightarrow> only_headers K m' m'' \<Longrightarrow> only_headers (H \<union> K) m m''"
  by (auto simp: only_headers_def)

lemma only_headers_mono: "only_headers H m m' \<Longrightarrow> H \<subseteq> K \<Longrightarrow> only_headers K m m'"
  by (auto simp: only_headers_def)

lemma upd_item_simps [simp]:
  "items (upd_item p f m) = (items m)(p := f (items m p))"
  "heap_end (upd_item p f m) = heap_end m" "lfree (upd_item p f m) = lfree m"
  "mem_size_aligned (upd_item p f m) = mem_size_aligned m" "mem_used (upd_item p f m) = mem_used m"
  "mem_max (upd_item p f m) = mem_max m"
  "heap_bytes (upd_item p f m) q = (if p \<le> q \<and> q < p + 16 then None else heap_bytes m q)"
  by (simp_all add: upd_item_def SIZEOF_STRUCT_MEM_def)

lemma count_used_simps [simp]:
  "items (count_used n m) = items m" "heap_end (count_used n m) = heap_end m" "lfree (count_used n m) = lfree m"
  "mem_size_aligned (count_used n m) = mem_size_aligned m" "mem_used (count_used n m) = mem_used m + n"
  "mem_max (count_used n m) = max (mem_max m) (mem_used m + n)" "heap_bytes (count_used n m) = heap_bytes m"
  by (simp_all add: count_used_def Let_def)

lemma split_item_fields:
  assumes "x < y" and "y < nxt m x" and "heap_end m = mem_size_aligned m + 16"
  shows "nxt (split_item x y m) z = (if z = x then y else if z = y then nxt m x else nxt m z)"
    and "prv (split_item x y m) z = (if z = y then x else if z = nxt m x \<and> z \<noteq> heap_end m then y else prv m z)"
    and "MEM_ISUSED (split_item x y m) z = (z \<noteq> y \<and> MEM_ISUSED m z)"
    and "heap_end (split_item x y m) = heap_end m" and "lfree (split_item x y m) = lfree m"
    and "mem_size_aligned (split_item x y m) = mem_size_aligned m" and "mem_used (split_item x y m) = mem_used m"
    and "mem_max (split_item x y m) = mem_max m" and "only_headers {x, y, nxt m x} m (split_item x y m)"
  using assms
  by (auto simp: split_item_def Let_def MEM_ISUSED_def only_headers_def SIZEOF_STRUCT_MEM_def)

lemma lfree_loop_spec:
  assumes "seg (nxt m) (lfree m) xs (heap_end m)"
  shows "lfree_loop m = Some (m\<lparr> lfree := ffree (MEM_ISUSED m) (heap_end m) xs \<rparr>)"
  using assms
proof (induction xs arbitrary: m)
  case Nil
  then show ?case by (subst lfree_loop.simps) simp
next
  case (Cons x xs)
  then have x: "x = lfree m" "lfree m + 16 \<le> nxt m (lfree m)" "seg (nxt m) (nxt m (lfree m)) xs (heap_end m)" by auto
  have ne: "lfree m \<noteq> heap_end m" using x(2) seg_le[OF x(3)] by auto
  show ?case
  proof (cases "MEM_ISUSED m (lfree m)")
    case True
    have "MEM_ISUSED (m\<lparr> lfree := q \<rparr>) = MEM_ISUSED m" for q by (simp add: fun_eq_iff MEM_ISUSED_def)
    then show ?thesis
      using Cons.IH[of "m\<lparr> lfree := nxt m (lfree m) \<rparr>"] x True ne
      by (subst lfree_loop.simps) (simp add: ffree_Cons)
  next
    case False
    then show ?thesis using x by (subst lfree_loop.simps) (simp add: ffree_Cons)
  qed
qed

section \<open>Allocation is first fit\<close>

definition fits :: "rt_small_mem \<Rightarrow> nat \<Rightarrow> nat \<Rightarrow> bool" where
  "fits m n x \<longleftrightarrow> \<not> MEM_ISUSED m x \<and> x + 16 + n \<le> nxt m x"

lemma fits_code:
  "x + 16 \<le> nxt m x \<Longrightarrow> (\<not> MEM_ISUSED m x \<and> n \<le> nxt m x - (x + SIZEOF_STRUCT_MEM)) = fits m n x"
  by (auto simp: fits_def SIZEOF_STRUCT_MEM_def)

lemma alloc_loop_find:
  assumes "seg (nxt m) p xs (heap_end m)" and "heap_end m = mem_size_aligned m + 16" and "n \<le> mem_size_aligned m"
  shows "alloc_loop n p m = (case find (fits m n) xs of None \<Rightarrow> Some (None, m) | Some x \<Rightarrow> alloc_at n x m)"
  using assms(1)
proof (induction xs arbitrary: p)
  case Nil
  then show ?case using assms(2,3) by (subst alloc_loop.simps) auto
next
  case (Cons x xs)
  then have x: "x = p" "p + 16 \<le> nxt m p" "seg (nxt m) (nxt m p) xs (heap_end m)" by auto
  note code = fits_code[OF x(2)]
  show ?case
  proof (cases "p \<le> mem_size_aligned m - n")
    case True
    then show ?thesis
      using Cons.IH[OF x(3)] x(1) code[of n] by (subst alloc_loop.simps) (auto split: if_splits)
  next
    case False
    have "\<not> fits m n z" if "z \<in> set (x # xs)" for z
      using seg_bounds[OF Cons.prems that] False assms(2) by (auto simp: fits_def)
    then have "find (fits m n) (x # xs) = None" by (auto simp: find_None_iff)
    then show ?thesis using False by (subst alloc_loop.simps) (simp del: find.simps)
  qed
qed

lemma ffree_split:
  "\<exists>us vs. xs = us @ vs \<and> (\<forall>x \<in> set us. U x) \<and> (vs = [] \<and> ffree U e xs = e \<or> vs \<noteq> [] \<and> ffree U e xs = hd vs)"
proof (intro exI conjI)
  show "xs = takeWhile U xs @ dropWhile U xs" by simp
  show "\<forall>x \<in> set (takeWhile U xs). U x" using set_takeWhileD by fastforce
  show "dropWhile U xs = [] \<and> ffree U e xs = e \<or> dropWhile U xs \<noteq> [] \<and> ffree U e xs = hd (dropWhile U xs)"
    by (cases "dropWhile U xs") (simp_all only: ffree_def list.case list.sel, auto)
qed

lemma find_append_none: "(\<And>x. x \<in> set us \<Longrightarrow> \<not> Q x) \<Longrightarrow> find Q (us @ vs) = find Q vs"
  by (induction us) auto

text \<open>Starting at the lowest free item loses nothing.\<close>

lemma alloc_first_fit:
  assumes m: "smem_pre m ps" and n: "n \<le> mem_size_aligned m"
  shows "alloc_loop n (lfree m) m = (case find (fits m n) ps of None \<Rightarrow> Some (None, m) | Some x \<Rightarrow> alloc_at n x m)"
proof -
  note d = smem_preD[OF m]
  obtain us vs where uv: "ps = us @ vs" "\<forall>x \<in> set us. MEM_ISUSED m x"
    "vs = [] \<and> lfree m = heap_end m \<or> vs \<noteq> [] \<and> lfree m = hd vs"
    using ffree_split[of ps "MEM_ISUSED m" "heap_end m"] d(5) by metis
  obtain r where r: "seg (nxt m) r vs (heap_end m)" using d(8) uv(1) by (auto simp: seg_append)
  then have "seg (nxt m) (lfree m) vs (heap_end m)" using uv(3) by (cases vs) auto
  moreover have "find (fits m n) ps = find (fits m n) vs"
    using find_append_none[of us "fits m n" vs] uv(1,2) by (auto simp: fits_def)
  ultimately show ?thesis using alloc_loop_find[OF _ d(2) n] by simp
qed

lemma merged_mid:
  "successively Q (as @ x # bs) \<longleftrightarrow>
    successively Q as \<and> successively Q bs \<and> (as = [] \<or> Q (last as) x) \<and> (bs = [] \<or> Q x (hd bs))"
  by (auto simp: successively_append_iff successively_Cons)

lemma MEM_ISUSED_lfree [simp]: "MEM_ISUSED (m\<lparr> lfree := q \<rparr>) = MEM_ISUSED m"
  by (simp add: fun_eq_iff MEM_ISUSED_def)

lemma advance_lfree:
  assumes s: "seg (nxt m) 0 (as @ x # bs) (heap_end m)" and x: "MEM_ISUSED m x"
    and l: "lfree m = ffree ((MEM_ISUSED m)(x := False)) (heap_end m) (as @ x # bs)"
  shows "(if x = lfree m then lfree_loop m else Some m)
    = Some (m\<lparr> lfree := ffree (MEM_ISUSED m) (heap_end m) (as @ x # bs) \<rparr>)"
proof (cases "\<forall>a \<in> set as. MEM_ISUSED m a")
  case True
  have xa: "x \<notin> set as" using seg_mid(9)[OF s] .
  then have lx: "lfree m = x" using l True by (auto simp: ffree_append ffree_Cons)
  have "seg (nxt m) x (x # bs) (heap_end m)" using seg_mid[OF s] by simp
  then have "lfree_loop m = Some (m\<lparr> lfree := ffree (MEM_ISUSED m) (heap_end m) (x # bs) \<rparr>)"
    using lfree_loop_spec lx by simp
  then show ?thesis using lx True by (simp add: ffree_append)
next
  case False
  have xa: "x \<notin> set as" using seg_mid(9)[OF s] .
  have c: "ffree ((MEM_ISUSED m)(x := False)) (heap_end m) as = ffree (MEM_ISUSED m) (heap_end m) as"
    using xa by (intro ffree_cong) auto
  have f: "\<not> (\<forall>a \<in> set as. ((MEM_ISUSED m)(x := False)) a)" using False xa by auto
  have l': "lfree m = ffree (MEM_ISUSED m) (heap_end m) as" using l unfolding ffree_append if_not_P[OF f] c .
  have "ffree (MEM_ISUSED m) (heap_end m) as \<in> set as" using ffree_found[OF False] .
  then have "lfree m \<noteq> x" using l' xa by auto
  then show ?thesis using l' False by (auto simp: ffree_append)
qed

section \<open>Contents of the allocated blocks\<close>

text \<open>What the program sees of a heap: for the address of each allocated block, its bytes.\<close>

definition contents :: "rt_small_mem \<Rightarrow> nat \<Rightarrow> byte option list option" where
  "contents m a = map_option (\<lambda>k. map (heap_bytes m) [a ..< a + k]) (allocs m a)"

text \<open>An operation that keeps the used items, with their extent, and writes only to headers or to
  free items keeps the contents of the blocks.\<close>

definition clear_of :: "rt_small_mem \<Rightarrow> nat set \<Rightarrow> nat \<Rightarrow> bool" where
  "clear_of m H z \<longleftrightarrow> (\<forall>h \<in> H. h \<le> z \<or> nxt m z \<le> h)"

lemma contents_keep:
  assumes m: "smem_pre m ps" and m': "smem_pre m' ps'" and "only_headers H m m'" and a: "16 \<le> a"
    and "(a - 16 \<in> set ps \<and> MEM_ISUSED m (a - 16)) = (a - 16 \<in> set ps' \<and> MEM_ISUSED m' (a - 16))"
    and "a - 16 \<in> set ps \<Longrightarrow> MEM_ISUSED m (a - 16) \<Longrightarrow> nxt m' (a - 16) = nxt m (a - 16) \<and> clear_of m H (a - 16)"
  shows "contents m' a = contents m a"
proof (cases "a - 16 \<in> set ps \<and> MEM_ISUSED m (a - 16)")
  case True
  have k: "a \<le> nxt m (a - 16)" using seg_bounds[OF smem_preD(8)[OF m], of "a - 16"] True a by auto
  have c: "h \<le> a - 16 \<or> nxt m (a - 16) \<le> h" if "h \<in> H" for h
    using assms(6) True that by (auto simp: clear_of_def)
  have "heap_bytes m' q = heap_bytes m q" if q: "a \<le> q" "q < nxt m (a - 16)" for q
  proof -
    have "\<not> (h \<le> q \<and> q < h + 16)" if "h \<in> H" for h using c[OF that] q a by auto
    then show ?thesis using assms(3) by (auto simp: only_headers_def)
  qed
  then have "map (heap_bytes m') [a ..< nxt m (a - 16)] = map (heap_bytes m) [a ..< nxt m (a - 16)]" by simp
  then show ?thesis using True assms(5,6) a k by (simp add: contents_def allocs_pre[OF m] allocs_pre[OF m'])
next
  case False
  then show ?thesis using assms(5) by (auto simp: contents_def allocs_pre[OF m] allocs_pre[OF m'])
qed

lemma contents_low: "a < 16 \<Longrightarrow> contents m a = None"
  by (simp add: contents_def allocs_def)

lemma clear_of_items:
  assumes "smem_pre m ps" and "z \<in> set ps" and "H \<subseteq> insert (heap_end m) (set ps)"
  shows "clear_of m H z"
proof -
  have "h \<le> z \<or> nxt m z \<le> h" if "h \<in> H" for h
    using that assms seg_disjoint[OF smem_preD(8)[OF assms(1)], of z h] seg_bounds[OF smem_preD(8)[OF assms(1)], of z]
    by (cases "h \<le> z") auto
  then show ?thesis by (simp add: clear_of_def)
qed

lemma clear_of_inside:
  assumes "smem_pre m ps" and "z \<in> set ps" and "x \<in> set ps" and "z \<noteq> x" and "x \<le> h" and "h < nxt m x"
  shows "h \<le> z \<or> nxt m z \<le> h"
  using seg_disjoint[OF smem_preD(8)[OF assms(1)], of z x] seg_disjoint[OF smem_preD(8)[OF assms(1)], of x z] assms
  by (cases "z < x") auto

lemma next_item:
  assumes "smem_pre m ps" and "x \<in> set ps"
  shows "nxt m x \<in> insert (heap_end m) (set ps)"
proof -
  obtain as bs where "ps = as @ x # bs" using assms(2) by (auto simp: in_set_conv_decomp)
  then have "seg (nxt m) (nxt m x) bs (heap_end m)" using seg_mid(2) smem_preD(8)[OF assms(1)] by simp
  then show ?thesis using \<open>ps = _\<close> by (cases bs) auto
qed

section \<open>Taking an item\<close>

text \<open>An item may be split when its data has room for another header.\<close>

definition splits :: "rt_small_mem \<Rightarrow> nat \<Rightarrow> nat \<Rightarrow> bool" where
  "splits m n x \<longleftrightarrow> x + n + 48 \<le> nxt m x"

lemma take_item:
  assumes h: "hrep (nxt m) (prv m) (MEM_ISUSED m) (heap_end m) (as @ x # bs)" and x: "MEM_ISUSED m x"
    and mg: "merged (MEM_ISUSED m) (as @ x # bs)"
    and l: "lfree m = ffree ((MEM_ISUSED m)(x := False)) (heap_end m) (as @ x # bs)"
    and e: "heap_end m = mem_size_aligned m + 16" "8 dvd mem_size_aligned m" "mem_size_aligned m + 64 < 2 ^ 32"
    and u: "mem_used m = usum (nxt m) (MEM_ISUSED m) (as @ x # bs)" "mem_used m \<le> mem_max m"
  shows "\<exists>q. (if x = lfree m then lfree_loop m else Some m) = Some (m\<lparr> lfree := q \<rparr>) \<and>
    smem_rep (m\<lparr> lfree := q \<rparr>) (as @ x # bs)"
proof -
  let ?q = "ffree (MEM_ISUSED m) (heap_end m) (as @ x # bs)"
  have s: "seg (nxt m) 0 (as @ x # bs) (heap_end m)" using h by (simp add: hrep_def)
  have "smem_rep (m\<lparr> lfree := ?q \<rparr>) (as @ x # bs)"
    using h mg e u by (simp add: smem_rep_def smem_pre_def SIZEOF_STRUCT_MEM_def)
  then show ?thesis using advance_lfree[OF s x l] by blast
qed

lemma alloc_whole:
  assumes m: "smem_pre m (as @ x # bs)" and mg: "merged (MEM_ISUSED m) (as @ x # bs)"
    and x: "fits m n x" and ns: "\<not> splits m n x"
  shows "\<exists>m'. alloc_at n x m = Some (Some (x + 16), m') \<and> smem_rep m' (as @ x # bs) \<and>
    MEM_ISUSED m' = (MEM_ISUSED m)(x := True) \<and> nxt m' = nxt m \<and> only_headers {x} m m' \<and>
    mem_size_aligned m' = mem_size_aligned m \<and> heap_end m' = heap_end m"
proof -
  note d = smem_preD[OF m]
  have s: "seg (nxt m) 0 (as @ x # bs) (heap_end m)" by (rule d(8))
  have b: "x + 16 \<le> nxt m x" "x \<notin> set as" "x \<notin> set bs" "x \<noteq> heap_end m"
    using seg_mid[OF s] by auto
  have nx: "\<not> MEM_ISUSED m x" using x by (simp add: fits_def)
  define m1 where "m1 = upd_item x (\<lambda>i. i\<lparr> pool_ptr := MEM_USED \<rparr>) (count_used (nxt m x - x) m)"
  have U1: "MEM_ISUSED m1 = (MEM_ISUSED m)(x := True)" by (auto simp: m1_def MEM_ISUSED_def fun_eq_iff)
  have N1: "nxt m1 = nxt m" "prv m1 = prv m" by (auto simp: m1_def)
  have f1: "heap_end m1 = heap_end m" "lfree m1 = lfree m" "mem_size_aligned m1 = mem_size_aligned m"
    "mem_used m1 = mem_used m + (nxt m x - x)" "mem_max m1 = max (mem_max m) (mem_used m1)"
    by (simp_all add: m1_def)
  have o1: "only_headers {x} m m1" by (simp add: only_headers_def m1_def)
  have a: "alloc_at n x m = map_option (\<lambda>m. (Some (x + 16), m)) (if x = lfree m1 then lfree_loop m1 else Some m1)"
  proof -
    have nb: "\<not> nxt m x - (x + 16) \<ge> n + 16 + 16" using ns b(1) by (auto simp: splits_def)
    show ?thesis unfolding alloc_at_def m1_def Let_def mem_size_defs if_not_P[OF nb] by simp
  qed
  have h: "hrep (nxt m1) (prv m1) (MEM_ISUSED m1) (heap_end m1) (as @ x # bs)"
    using d(1) by (simp add: hrep_def U1 N1 f1)
  have g: "merged (MEM_ISUSED m1) (as @ x # bs)"
    using mg by (rule successively_mono) (auto simp: U1)
  have Ux: "(MEM_ISUSED m1)(x := False) = MEM_ISUSED m" using nx by (simp add: U1 fun_eq_iff)
  have "usum (nxt m) (MEM_ISUSED m1) ys = usum (nxt m) (MEM_ISUSED m) ys" if "x \<notin> set ys" for ys
    using that by (intro usum_cong) (auto simp: U1)
  then have u: "mem_used m1 = usum (nxt m1) (MEM_ISUSED m1) (as @ x # bs)"
    using b nx d(6) by (simp add: f1 N1) (simp add: U1)
  obtain q where "(if x = lfree m1 then lfree_loop m1 else Some m1) = Some (m1\<lparr> lfree := q \<rparr>)"
    and "smem_rep (m1\<lparr> lfree := q \<rparr>) (as @ x # bs)"
    using take_item[OF h _ g _ _ _ _ u] Ux d(2-5) by (auto simp: f1 U1)
  then show ?thesis using a U1 N1 f1 o1 by (auto simp: only_headers_def)
qed

lemma alloc_split:
  assumes m: "smem_pre m (as @ x # bs)" and mg: "merged (MEM_ISUSED m) (as @ x # bs)"
    and x: "\<not> MEM_ISUSED m x" and n: "8 dvd n" and sp: "splits m n x"
  defines "y \<equiv> x + 16 + n"
  shows "\<exists>m'. alloc_at n x m = Some (Some (x + 16), m') \<and> smem_rep m' (as @ x # y # bs) \<and>
    MEM_ISUSED m' = (MEM_ISUSED m)(x := True, y := False) \<and> nxt m' = (nxt m)(y := nxt m x, x := y) \<and>
    only_headers {x, y, nxt m x} m m' \<and> mem_size_aligned m' = mem_size_aligned m \<and> heap_end m' = heap_end m"
proof -
  note d = smem_preD[OF m]
  note s = d(8)
  note sm = seg_mid[OF s]
  have y: "x < y" "y < nxt m x" "x + 16 \<le> y" "y + 16 \<le> nxt m x" "8 dvd y"
    using sp n sm(4) by (auto simp: splits_def y_def)
  have ye: "y \<noteq> heap_end m" "x \<noteq> heap_end m" using y sm(5) by auto
  have ya: "y \<notin> set as" using sm(7) y by force
  have yb: "y \<notin> set bs" using sm(8) y by force
  define m0 where "m0 = split_item x y m"
  note f0 = split_item_fields[OF y(1,2) d(2), folded m0_def]
  define m1 where "m1 = upd_item x (\<lambda>i. i\<lparr> pool_ptr := MEM_USED \<rparr>) (count_used (n + 16) m0)"
  have U1: "MEM_ISUSED m1 = (MEM_ISUSED m)(x := True, y := False)"
    using f0(3) y by (auto simp: m1_def MEM_ISUSED_def fun_eq_iff)
  have N1: "nxt m1 = (nxt m)(y := nxt m x, x := y)"
    and P1: "prv m1 z = (if z = y then x else if z = nxt m x \<and> z \<noteq> heap_end m then y else prv m z)" for z
    using f0(1,2) y by (auto simp: m1_def fun_eq_iff)
  have N1z: "nxt m1 z = (if z = x then y else if z = y then nxt m x else nxt m z)" for z
    using fun_cong[OF N1, of z] y by simp
  have f1: "heap_end m1 = heap_end m" "lfree m1 = lfree m" "mem_size_aligned m1 = mem_size_aligned m"
    "mem_used m1 = mem_used m + (y - x)" "mem_max m1 = max (mem_max m) (mem_used m1)"
    using f0 by (simp_all add: m1_def y_def)
  have o1: "only_headers {x, y, nxt m x} m m1"
    using f0(9) by (auto simp: only_headers_def m1_def)
  have a: "alloc_at n x m = map_option (\<lambda>m. (Some (x + 16), m)) (if x = lfree m1 then lfree_loop m1 else Some m1)"
  proof -
    have b: "nxt m x - (x + 16) \<ge> n + 16 + 16" using sp by (auto simp: splits_def)
    show ?thesis unfolding alloc_at_def m1_def m0_def y_def Let_def mem_size_defs if_P[OF b] by simp
  qed
  have h: "hrep (nxt m1) (prv m1) (MEM_ISUSED m1) (heap_end m1) (as @ x # y # bs)"
    unfolding f1
  proof (rule hrep_split[OF d(1) y(5,3,4)])
    show "nxt m1 z = (if z = x then y else if z = y then nxt m x else nxt m z)" for z by (rule N1z)
    show "MEM_ISUSED m1 (heap_end m)" using d(10) ye by (simp add: U1)
  qed (use P1 in auto)
  have hd: "bs = [] \<or> MEM_ISUSED m (hd bs)" using mg x by (simp add: merged_mid)
  have mc: "merged (MEM_ISUSED m1) zs = merged (MEM_ISUSED m) zs" if "x \<notin> set zs" "y \<notin> set zs" for zs
    by (rule merged_cong) (use that in \<open>auto simp: U1\<close>)
  note mb = mc[OF sm(9) ya] mc[OF sm(10) yb]
  have hd1: "bs = [] \<or> MEM_ISUSED m1 (hd bs)" using hd yb by (cases bs) (auto simp: U1)
  have g: "merged (MEM_ISUSED m1) (as @ x # y # bs)"
    using mg mb hd1 y by (simp add: merged_mid successively_Cons) (simp add: U1)
  have fr: "ffree ((MEM_ISUSED m1)(x := False)) (heap_end m) (as @ x # y # bs) = lfree m"
  proof -
    have "ffree ((MEM_ISUSED m1)(x := False)) (heap_end m) as = ffree (MEM_ISUSED m) (heap_end m) as"
      using ya sm(9) by (intro ffree_cong) (auto simp: U1)
    moreover have "(\<forall>z \<in> set as. ((MEM_ISUSED m1)(x := False)) z) = (\<forall>z \<in> set as. MEM_ISUSED m z)"
      using ya sm(9) by (auto simp: U1)
    ultimately show ?thesis using x d(5) unfolding ffree_append by (simp add: ffree_Cons)
  qed
  have us: "usum (nxt m1) (MEM_ISUSED m1) zs = usum (nxt m) (MEM_ISUSED m) zs" if "x \<notin> set zs" "y \<notin> set zs" for zs
    using that by (intro usum_cong) (auto simp: U1 N1z)
  have u: "mem_used m1 = usum (nxt m1) (MEM_ISUSED m1) (as @ x # y # bs)"
    using us[of as] us[of bs] ya yb sm(9,10) x d(6) y(1) by (simp add: f1) (simp add: U1 N1z)
  obtain q where "(if x = lfree m1 then lfree_loop m1 else Some m1) = Some (m1\<lparr> lfree := q \<rparr>)"
    and "smem_rep (m1\<lparr> lfree := q \<rparr>) (as @ x # y # bs)"
    using take_item[OF h _ g _ _ _ _ u] fr d(2-4) y(1) by (auto simp: f1 U1)
  then show ?thesis using a U1 N1 f1 o1 by (auto simp: only_headers_def)
qed

text \<open>The items of the heap after an allocation at \<open>x\<close>.\<close>

definition taken :: "rt_small_mem \<Rightarrow> nat \<Rightarrow> nat \<Rightarrow> nat list \<Rightarrow> nat list" where
  "taken m n x ps = (if splits m n x
     then takeWhile (\<lambda>z. z \<noteq> x) ps @ x # (x + 16 + n) # tl (dropWhile (\<lambda>z. z \<noteq> x) ps) else ps)"

lemma taken_simps:
  "x \<notin> set as \<Longrightarrow> taken m n x (as @ x # bs) = (if splits m n x then as @ x # (x + 16 + n) # bs else as @ x # bs)"
  by (auto simp: taken_def takeWhile_append dropWhile_append)

lemma alloc_at_result:
  assumes m: "smem_rep m ps" and xp: "x \<in> set ps" and x: "fits m n x" and n: "8 dvd n"
  shows "\<exists>m'. alloc_at n x m = Some (Some (x + 16), m') \<and> smem_rep m' (taken m n x ps) \<and>
    contents m (x + 16) = None \<and> (\<forall>a. a \<noteq> x + 16 \<longrightarrow> contents m' a = contents m a) \<and>
    allocs m' (x + 16) = Some (if splits m n x then n else nxt m x - (x + 16)) \<and>
    mem_size_aligned m' = mem_size_aligned m"
proof -
  obtain as bs where ps: "ps = as @ x # bs" using xp by (auto simp: in_set_conv_decomp)
  have m1: "smem_pre m (as @ x # bs)" and mg: "merged (MEM_ISUSED m) (as @ x # bs)" using m ps by (simp_all add: smem_rep_def)
  have U: "\<not> MEM_ISUSED m x" "x + 16 + n \<le> nxt m x" using x by (simp_all add: fits_def)
  note sm = seg_mid[OF smem_preD(8)[OF m1]]
  have c0: "contents m (x + 16) = None" using U by (simp add: contents_def allocs_pre[OF m1])
  have xi: "x \<in> set (as @ x # bs)" by simp
  show ?thesis
  proof (cases "splits m n x")
    case False
    obtain m' where r: "alloc_at n x m = Some (Some (x + 16), m')" "smem_rep m' (as @ x # bs)"
      "MEM_ISUSED m' = (MEM_ISUSED m)(x := True)" "nxt m' = nxt m" "only_headers {x} m m'"
      "mem_size_aligned m' = mem_size_aligned m"
      using alloc_whole[OF m1 mg x False] by blast
    have "contents m' a = contents m a" if "a \<noteq> x + 16" for a
    proof (cases "16 \<le> a")
      case True
      then have "a - 16 \<noteq> x" using that by auto
      then show ?thesis
        using contents_keep[OF m1 smem_repD(1)[OF r(2)] r(5) True] clear_of_items[OF m1, of "a - 16" "{x}"]
          fun_cong[OF r(4), of "a - 16"] by (auto simp: r(3))
    qed (simp add: contents_low)
    moreover have "allocs m' (x + 16) = Some (nxt m x - (x + 16))"
      using fun_cong[OF r(4), of x] by (simp add: allocs_pre[OF smem_repD(1)[OF r(2)]] r(3))
    ultimately show ?thesis using r c0 False sm(9) by (auto simp: ps taken_simps)
  next
    case True
    define y where "y = x + 16 + n"
    obtain m' where r: "alloc_at n x m = Some (Some (x + 16), m')" "smem_rep m' (as @ x # y # bs)"
      "MEM_ISUSED m' = (MEM_ISUSED m)(x := True, y := False)" "nxt m' = (nxt m)(y := nxt m x, x := y)"
      "only_headers {x, y, nxt m x} m m'" "mem_size_aligned m' = mem_size_aligned m"
      using alloc_split[OF m1 mg U(1) n True] unfolding y_def by blast
    have y: "x < y" "y < nxt m x" using True by (auto simp: splits_def y_def)
    have N: "nxt m' z = (if z = x then y else if z = y then nxt m x else nxt m z)" for z
      using fun_cong[OF r(4), of z] by simp
    have "contents m' a = contents m a" if "a \<noteq> x + 16" for a
    proof (cases "16 \<le> a")
      case True
      have cl: "clear_of m {x, y, nxt m x} (a - 16)" if "a - 16 \<in> set (as @ x # bs)"
        using clear_of_items[OF m1 that, of "{x, nxt m x}"] next_item[OF m1 xi]
          clear_of_inside[OF m1 that xi, of y] y \<open>a \<noteq> x + 16\<close> True by (auto simp: clear_of_def)
      have yp: "y \<notin> set (as @ x # bs)" using sm(7,8) y by force
      have ne: "a - 16 \<noteq> x" using that True by auto
      show ?thesis
        by (rule contents_keep[OF m1 smem_repD(1)[OF r(2)] r(5) True]) (use cl yp ne in \<open>auto simp: r(3) N\<close>)
    qed (simp add: contents_low)
    moreover have "allocs m' (x + 16) = Some n"
      using N[of x] y by (simp add: allocs_pre[OF smem_repD(1)[OF r(2)]] r(3)) (simp add: y_def)
    ultimately show ?thesis using r c0 True sm(9) by (auto simp: ps taken_simps y_def)
  qed
qed

section \<open>Merging free neighbours\<close>

text \<open>Both directions replace \<open>x\<close> and the item \<open>y\<close> behind it, both free, by \<open>x\<close>.\<close>

lemma merge_pre:
  assumes m: "smem_pre m (as @ x # y # bs)" and xy: "\<not> MEM_ISUSED m x" "\<not> MEM_ISUSED m y"
    and N': "\<And>z. nxt m' z = (if z = x then nxt m y else nxt m z)"
    and P': "\<And>z. prv m' z = (if z = nxt m y then x else prv m z)"
    and U': "MEM_ISUSED m' = MEM_ISUSED m"
    and f': "heap_end m' = heap_end m" "mem_size_aligned m' = mem_size_aligned m" "lfree m' = lfree m"
      "mem_used m' = mem_used m" "mem_max m' = mem_max m"
  shows "smem_pre m' (as @ x # bs)"
proof -
  note d = smem_preD[OF m]
  note sm = seg_mid[OF d(8)]
  have h: "hrep (nxt m') (prv m') (MEM_ISUSED m') (heap_end m') (as @ x # bs)"
    unfolding f' by (rule hrep_merge[OF d(1)]) (use N' P' U' d(10) in auto)
  have l: "lfree m' = ffree (MEM_ISUSED m') (heap_end m') (as @ x # bs)"
    using d(5) xy by (simp add: f' U' ffree_append ffree_Cons)
  have us: "usum (nxt m') (MEM_ISUSED m') zs = usum (nxt m) (MEM_ISUSED m) zs" if "x \<notin> set zs" for zs
    by (rule usum_cong) (use that in \<open>auto simp: N' U'\<close>)
  have u: "mem_used m' = usum (nxt m') (MEM_ISUSED m') (as @ x # bs)"
    using us[of as] us[of bs] d(6) xy sm(9,10) by (simp add: f') (simp add: U')
  show ?thesis using h l u d(2-4,7) by (simp add: smem_pre_def f' SIZEOF_STRUCT_MEM_def)
qed

definition fwd :: "(nat \<Rightarrow> bool) \<Rightarrow> nat list \<Rightarrow> nat list" where
  "fwd U bs = (if bs \<noteq> [] \<and> \<not> U (hd bs) then tl bs else bs)"

definition bwd :: "(nat \<Rightarrow> bool) \<Rightarrow> nat list \<Rightarrow> nat \<Rightarrow> nat list" where
  "bwd U as x = (if as \<noteq> [] \<and> \<not> U (last as) then as else as @ [x])"

text \<open>What merging keeps: the used items, their extent and their bytes.\<close>

definition plug_keeps :: "rt_small_mem \<Rightarrow> nat list \<Rightarrow> rt_small_mem \<Rightarrow> bool" where
  "plug_keeps m ps m' \<longleftrightarrow> MEM_ISUSED m' = MEM_ISUSED m \<and> (\<forall>z. MEM_ISUSED m z \<longrightarrow> nxt m' z = nxt m z) \<and>
    only_headers (insert (heap_end m) (set ps)) m m' \<and> mem_used m' = mem_used m \<and> mem_max m' = mem_max m \<and>
    mem_size_aligned m' = mem_size_aligned m \<and> heap_end m' = heap_end m \<and> lfree m' = lfree m"

lemma prev_item:
  assumes "smem_pre m (as @ x # bs)"
  shows "prv m x = (if as = [] then x else last as)"
  using smem_preD(1,8)[OF assms] by (cases as) (auto simp: hrep_def prevs_append)

lemma plug_forward_spec:
  assumes m: "smem_pre m (as @ x # bs)" and x: "\<not> MEM_ISUSED m x"
  shows "smem_pre (plug_forward x m) (as @ x # fwd (MEM_ISUSED m) bs) \<and> plug_keeps m (as @ x # bs) (plug_forward x m)"
proof (cases "bs \<noteq> [] \<and> \<not> MEM_ISUSED m (hd bs)")
  case True
  then obtain y bs' where b: "bs = y # bs'" "\<not> MEM_ISUSED m y" by (cases bs) auto
  note d = smem_preD[OF m]
  have m1: "smem_pre m (as @ x # y # bs')" using m b by simp
  have s2: "seg (nxt m) 0 ((as @ [x]) @ y # bs') (heap_end m)" using d(8) b by simp
  note sm = seg_mid[OF d(8)[unfolded b]] seg_mid[OF s2]
  have xy: "nxt m x = y" using sm(2) by simp
  have lf: "lfree m \<noteq> y"
  proof -
    have "lfree m \<in> insert x (set as)" using d(5) ffree_before[of "MEM_ISUSED m", OF x] by simp
    then show ?thesis using sm(7)[of y] sm(3) xy by auto
  qed
  have ne: "x < y" "y < nxt m y" "y \<noteq> heap_end m" using sm xy d(11) b by auto
  define m' where "m' = plug_forward x m"
  have e: "m' = upd_item (nxt m y) (\<lambda>i. i\<lparr> item_prev := x \<rparr>) (upd_item x (\<lambda>i. i\<lparr> item_next := nxt m y \<rparr>)
      (upd_item y (\<lambda>i. i\<lparr> pool_ptr := PoolNull \<rparr>) m))"
    using lf ne b(2) xy unfolding m'_def plug_forward_def Let_def by simp
  have N: "nxt m' z = (if z = x then nxt m y else nxt m z)" and P: "prv m' z = (if z = nxt m y then x else prv m z)"
    for z using ne by (auto simp: e)
  have U: "MEM_ISUSED m' = MEM_ISUSED m" using ne b(2) by (auto simp: e MEM_ISUSED_def fun_eq_iff)
  have "smem_pre m' (as @ x # bs')" by (rule merge_pre[OF m1 x b(2) N P U]) (simp_all add: e)
  moreover have "only_headers (insert (heap_end m) (set (as @ x # bs))) m m'"
    using next_item[OF m, of y] b by (auto simp: only_headers_def e)
  ultimately show ?thesis using True x N U b unfolding m'_def[symmetric]
    by (auto simp: plug_keeps_def fwd_def) (simp_all add: e)
next
  case False
  have "plug_forward x m = m"
  proof (cases bs)
    case Nil
    then have "nxt m x = heap_end m" using seg_mid(2)[OF smem_preD(8)[OF m]] by simp
    then show ?thesis by (simp add: plug_forward_def)
  next
    case (Cons y bs')
    then have "nxt m x = y" using seg_mid(2)[OF smem_preD(8)[OF m]] by simp
    then show ?thesis using False Cons by (simp add: plug_forward_def)
  qed
  moreover have "fwd (MEM_ISUSED m) bs = bs" using False by (auto simp: fwd_def)
  ultimately show ?thesis using m by (simp add: plug_keeps_def only_headers_def)
qed

lemma plug_backward_spec:
  assumes m: "smem_pre m (as @ x # bs)" and x: "\<not> MEM_ISUSED m x"
  shows "smem_pre (plug_backward x m) (bwd (MEM_ISUSED m) as x @ bs) \<and> plug_keeps m (as @ x # bs) (plug_backward x m)"
proof (cases "as \<noteq> [] \<and> \<not> MEM_ISUSED m (last as)")
  case True
  then obtain w as' where b: "as = as' @ [w]" "\<not> MEM_ISUSED m w" by (cases as rule: rev_cases) auto
  note d = smem_preD[OF m]
  have m1: "smem_pre m (as' @ w # x # bs)" using m b by simp
  note sm = seg_mid[OF smem_preD(8)[OF m1]] seg_mid[OF d(8)]
  have wx: "nxt m w = x" "prv m x = w" using sm(2) prev_item[OF m] b by auto
  have lf: "lfree m \<noteq> x"
  proof -
    have "lfree m \<in> insert w (set as')"
      using smem_preD(5)[OF m1] ffree_before[of "MEM_ISUSED m", OF b(2)] by simp
    then show ?thesis using sm(7)[of x] sm(3) wx by auto
  qed
  have ne: "w < x" "x < nxt m x" using sm wx by auto
  define m' where "m' = plug_backward x m"
  have e: "m' = upd_item (nxt m x) (\<lambda>i. i\<lparr> item_prev := w \<rparr>) (upd_item w (\<lambda>i. i\<lparr> item_next := nxt m x \<rparr>)
      (upd_item x (\<lambda>i. i\<lparr> pool_ptr := PoolNull \<rparr>) m))"
    using lf ne b(2) wx unfolding m'_def plug_backward_def Let_def by simp
  have N: "nxt m' z = (if z = w then nxt m x else nxt m z)" and P: "prv m' z = (if z = nxt m x then w else prv m z)"
    for z using ne by (auto simp: e)
  have U: "MEM_ISUSED m' = MEM_ISUSED m" using ne x by (auto simp: e MEM_ISUSED_def fun_eq_iff)
  have "smem_pre m' (as' @ w # bs)" by (rule merge_pre[OF m1 b(2) x N P U]) (simp_all add: e)
  moreover have "only_headers (insert (heap_end m) (set (as @ x # bs))) m m'"
    using next_item[OF m, of x] b by (auto simp: only_headers_def e)
  ultimately show ?thesis using True N U b unfolding m'_def[symmetric]
    by (auto simp: plug_keeps_def bwd_def) (simp_all add: e)
next
  case False
  have "plug_backward x m = m" using prev_item[OF m] False by (auto simp: plug_backward_def)
  moreover have "bwd (MEM_ISUSED m) as x = as @ [x]" using False by (auto simp: bwd_def)
  ultimately show ?thesis using m by (simp add: plug_keeps_def only_headers_def)
qed

lemma plug_keeps_trans:
  assumes "plug_keeps m ps m'" and "plug_keeps m' ps' m''" and "set ps' \<subseteq> set ps"
  shows "plug_keeps m ps m''"
proof -
  have "only_headers (insert (heap_end m) (set ps)) m m''"
    using only_headers_trans[of "insert (heap_end m) (set ps)" m m' "insert (heap_end m') (set ps')" m''] assms
    by (auto simp: plug_keeps_def elim: only_headers_mono)
  then show ?thesis using assms by (simp add: plug_keeps_def)
qed

lemma plug_holes_spec:
  assumes m: "smem_pre m (as @ x # bs)" and x: "\<not> MEM_ISUSED m x"
    and mg: "merged (MEM_ISUSED m) as" "merged (MEM_ISUSED m) bs"
  shows "smem_rep (plug_holes x m) (bwd (MEM_ISUSED m) as x @ fwd (MEM_ISUSED m) bs) \<and>
    plug_keeps m (as @ x # bs) (plug_holes x m)"
proof -
  let ?f = "plug_forward x m" and ?bs = "fwd (MEM_ISUSED m) bs"
  have f: "smem_pre ?f (as @ x # ?bs)" "plug_keeps m (as @ x # bs) ?f" using plug_forward_spec[OF m x] by auto
  have U: "MEM_ISUSED ?f = MEM_ISUSED m" using f(2) by (simp add: plug_keeps_def)
  have b: "smem_pre (plug_holes x m) (bwd (MEM_ISUSED m) as x @ ?bs)" "plug_keeps ?f (as @ x # ?bs) (plug_holes x m)"
    using plug_backward_spec[OF f(1)] x by (auto simp: U plug_holes_def)
  have "set ?bs \<subseteq> set bs" by (cases bs) (auto simp: fwd_def)
  then have k: "plug_keeps m (as @ x # bs) (plug_holes x m)" by (intro plug_keeps_trans[OF f(2) b(2)]) auto
  have "merged (MEM_ISUSED m) (bwd (MEM_ISUSED m) as x @ ?bs)"
    using mg x by (cases bs; cases "as = []")
      (auto simp: bwd_def fwd_def successively_append_iff successively_Cons)
  then show ?thesis using b(1) k by (simp add: smem_rep_def plug_keeps_def)
qed

lemma plug_used_items:
  "\<not> U x \<Longrightarrow> U z \<Longrightarrow> z \<in> set (bwd U as x @ fwd U bs) \<longleftrightarrow> z \<in> set (as @ x # bs)"
  by (cases bs) (auto simp: bwd_def fwd_def)

lemma plug_contents:
  assumes m: "smem_pre m (as @ x # bs)" and x: "\<not> MEM_ISUSED m x"
    and mg: "merged (MEM_ISUSED m) as" "merged (MEM_ISUSED m) bs"
  shows "contents (plug_holes x m) = contents m"
proof
  fix a
  note p = plug_holes_spec[OF m x mg]
  then have r: "smem_pre (plug_holes x m) (bwd (MEM_ISUSED m) as x @ fwd (MEM_ISUSED m) bs)"
    and k: "MEM_ISUSED (plug_holes x m) = MEM_ISUSED m" "\<And>z. MEM_ISUSED m z \<Longrightarrow> nxt (plug_holes x m) z = nxt m z"
      "only_headers (insert (heap_end m) (set (as @ x # bs))) m (plug_holes x m)"
    by (auto simp: plug_keeps_def smem_rep_def)
  show "contents (plug_holes x m) a = contents m a"
  proof (cases "16 \<le> a")
    case True
    show ?thesis
    proof (rule contents_keep[OF m r k(3) True])
      show "(a - 16 \<in> set (as @ x # bs) \<and> MEM_ISUSED m (a - 16)) =
        (a - 16 \<in> set (bwd (MEM_ISUSED m) as x @ fwd (MEM_ISUSED m) bs) \<and> MEM_ISUSED (plug_holes x m) (a - 16))"
        using plug_used_items[of "MEM_ISUSED m", OF x] k(1) by metis
    qed (use k(2) clear_of_items[OF m] in auto)
  qed (simp add: contents_low)
qed

section \<open>Freeing and shrinking\<close>

text \<open>An item that becomes free, with the lowest free item adjusted.\<close>

lemma min_ffree:
  assumes "seg N 0 (as @ x # bs) e" and "U x"
  shows "ffree (U(x := False)) e (as @ x # bs) = (if x < ffree U e (as @ x # bs) then x else ffree U e (as @ x # bs))"
proof (cases "\<forall>a \<in> set as. U a")
  case True
  note sm = seg_mid[OF assms(1)]
  have "ffree U e bs \<in> insert e (set bs)" by (rule ffree_in)
  then have "x < ffree U e bs" using sm(3,5,8) by fastforce
  moreover have "\<forall>a \<in> set as. (U(x := False)) a" using True sm(9) by auto
  ultimately show ?thesis using True assms(2) sm(9) unfolding ffree_append by (simp add: ffree_Cons)
next
  case False
  note sm = seg_mid[OF assms(1)]
  have "ffree (U(x := False)) e as = ffree U e as" by (rule ffree_cong) (use sm(9) in auto)
  moreover have "\<not> (\<forall>a \<in> set as. (U(x := False)) a)" using False sm(9) by auto
  moreover have "ffree U e as < x" using ffree_found[of as U e, OF False] sm(7) by force
  ultimately show ?thesis using False unfolding ffree_append by auto
qed

lemma free_result:
  assumes m: "smem_rep m (as @ x # bs)" and x: "MEM_ISUSED m x"
  defines "U \<equiv> (MEM_ISUSED m)(x := False)"
  shows "smem_rep (rt_smem_free (Some (x + 16)) m) (bwd U as x @ fwd U bs)"
    and "contents (rt_smem_free (Some (x + 16)) m) = (contents m)(x + 16 := None)"
    and "mem_used (rt_smem_free (Some (x + 16)) m) + (nxt m x - x) = mem_used m"
    and "mem_size_aligned (rt_smem_free (Some (x + 16)) m) = mem_size_aligned m"
proof -
  have p: "smem_pre m (as @ x # bs)" and mg: "merged (MEM_ISUSED m) (as @ x # bs)" using m by (simp_all add: smem_rep_def)
  note d = smem_preD[OF p]
  note sm = seg_mid[OF d(8)]
  define m1 where "m1 = (let m1 = upd_item x (\<lambda>i. i\<lparr> pool_ptr := MEM_FREED \<rparr>) m;
     m1 = (if x < lfree m1 then m1\<lparr> lfree := x \<rparr> else m1) in m1\<lparr> mem_used := mem_used m1 - (nxt m1 x - x) \<rparr>)"
  have fr: "rt_smem_free (Some (x + 16)) m = plug_holes x m1"
    unfolding rt_smem_free_def m1_def Let_def by (simp add: SIZEOF_STRUCT_MEM_def)
  have U1: "MEM_ISUSED m1 = U" by (auto simp: m1_def MEM_ISUSED_def fun_eq_iff Let_def U_def)
  have N1: "nxt m1 = nxt m" "prv m1 = prv m" by (auto simp: m1_def Let_def fun_eq_iff)
  have f1: "heap_end m1 = heap_end m" "lfree m1 = (if x < lfree m then x else lfree m)" "mem_size_aligned m1 = mem_size_aligned m"
    "mem_used m1 = mem_used m - (nxt m x - x)" "mem_max m1 = mem_max m"
    by (simp_all add: m1_def Let_def)
  have o1: "only_headers {x} m m1" by (simp add: only_headers_def m1_def Let_def)
  have cut: "zs = as \<or> zs = bs \<Longrightarrow> z \<in> set zs \<Longrightarrow> U z = MEM_ISUSED m z" for z zs
    using sm(9,10) by (auto simp: U_def)
  have Ux: "\<not> U x" by (simp add: U_def)
  have us: "usum (nxt m) U zs = usum (nxt m) (MEM_ISUSED m) zs" if "zs = as \<or> zs = bs" for zs
    by (rule usum_cong) (use cut that in auto)
  have u: "usum (nxt m) U (as @ x # bs) + (nxt m x - x) = mem_used m"
    using us[of as] us[of bs] d(6) x Ux by simp
  have m1: "smem_pre m1 (as @ x # bs)" unfolding smem_pre_def f1 U1 N1
  proof (intro conjI)
    show "hrep (nxt m) (prv m) U (heap_end m) (as @ x # bs)"
      using d(1,10,11) by (auto simp: hrep_def U_def)
    show "(if x < lfree m then x else lfree m) = ffree U (heap_end m) (as @ x # bs)"
      unfolding U_def using min_ffree[of "nxt m" as x bs "heap_end m" "MEM_ISUSED m"] d(5,8) x by simp
    show "mem_used m - (nxt m x - x) = usum (nxt m) U (as @ x # bs)" using u by linarith
  qed (use d in \<open>auto simp: SIZEOF_STRUCT_MEM_def\<close>)
  have mc: "merged U zs = merged (MEM_ISUSED m) zs" if "zs = as \<or> zs = bs" for zs
    by (rule merged_cong) (use that cut in auto)
  have "merged (MEM_ISUSED m) as" "merged (MEM_ISUSED m) bs" using mg by (simp_all add: merged_mid)
  then have mg1: "merged (MEM_ISUSED m1) as" "merged (MEM_ISUSED m1) bs" using mc by (simp_all add: U1)
  have x1: "\<not> MEM_ISUSED m1 x" by (simp add: U1 U_def)
  note pl = plug_holes_spec[OF m1 x1 mg1]
  show "smem_rep (rt_smem_free (Some (x + 16)) m) (bwd U as x @ fwd U bs)" using pl by (simp add: fr U1)
  show "mem_used (rt_smem_free (Some (x + 16)) m) + (nxt m x - x) = mem_used m"
    using pl u smem_preD(6)[OF m1] by (simp add: fr plug_keeps_def U1 N1)
  show "mem_size_aligned (rt_smem_free (Some (x + 16)) m) = mem_size_aligned m"
    using pl by (simp add: fr plug_keeps_def f1)
  show "contents (rt_smem_free (Some (x + 16)) m) = (contents m)(x + 16 := None)"
  proof
    fix a
    show "contents (rt_smem_free (Some (x + 16)) m) a = ((contents m)(x + 16 := None)) a"
    proof (cases "16 \<le> a \<and> a \<noteq> x + 16")
      case True
      then have a: "16 \<le> a" "a - 16 \<noteq> x" by auto
      have "contents m1 a = contents m a"
      proof (rule contents_keep[OF p m1 o1 a(1)])
        show "nxt m1 (a - 16) = nxt m (a - 16) \<and> clear_of m {x} (a - 16)" if "a - 16 \<in> set (as @ x # bs)"
          using fun_cong[OF N1(1)] clear_of_items[OF p that, of "{x}"] by simp
      qed (use a in \<open>auto simp: U1 U_def\<close>)
      then show ?thesis using True by (simp add: fr plug_contents[OF m1 x1 mg1])
    next
      case False
      have "contents m1 (x + 16) = None" using x1 by (simp add: contents_def allocs_pre[OF m1])
      moreover have "a = x + 16 \<or> a < 16" using False by auto
      ultimately show ?thesis unfolding fr plug_contents[OF m1 x1 mg1] by (elim disjE) (simp_all add: contents_low)
    qed
  qed
qed

lemma shrink_result:
  assumes m: "smem_rep m (as @ x # bs)" and x: "MEM_ISUSED m x" and n: "8 dvd n" "x + 16 + n + 16 \<le> nxt m x"
  defines "y \<equiv> x + 16 + n"
  defines "m' \<equiv> shrink_item x (nxt m x - x - 16) n m"
  shows "smem_rep m' (as @ x # y # fwd (MEM_ISUSED m) bs)"
    and "\<forall>a. a \<noteq> x + 16 \<longrightarrow> contents m' a = contents m a"
    and "contents m' (x + 16) = map_option (take n) (contents m (x + 16))" and "allocs m' (x + 16) = Some n"
    and "mem_size_aligned m' = mem_size_aligned m"
proof -
  have p: "smem_pre m (as @ x # bs)" and mg: "merged (MEM_ISUSED m) (as @ x # bs)" using m by (simp_all add: smem_rep_def)
  note d = smem_preD[OF p]
  note sm = seg_mid[OF d(8)]
  have y: "x < y" "y < nxt m x" "x + 16 \<le> y" "y + 16 \<le> nxt m x" "8 dvd y" using n sm(4) by (auto simp: y_def)
  have ye: "y \<noteq> heap_end m" "x \<noteq> heap_end m" using y sm(5) by auto
  have ya: "y \<notin> set as" using sm(7) y by force
  have yb: "y \<notin> set bs" using sm(8) y by force
  define m0 where "m0 = m\<lparr> mem_used := mem_used m - (nxt m x - y) \<rparr>"
  have y0: "y < nxt m0 x" "heap_end m0 = mem_size_aligned m0 + 16" using y d(2) by (simp_all add: m0_def)
  note f0 = split_item_fields[OF y(1) y0]
  define m1 where "m1 = (let s = split_item x y m0 in if y < lfree s then s\<lparr> lfree := y \<rparr> else s)"
  have mm: "m' = plug_holes y m1"
    using n(2) by (simp add: m'_def shrink_item_def m1_def m0_def Let_def SIZEOF_STRUCT_MEM_def y_def algebra_simps)
  define U where "U = (MEM_ISUSED m)(y := False)"
  have U1: "MEM_ISUSED m1 = U"
    using f0(3) by (auto simp: m1_def m0_def MEM_ISUSED_def fun_eq_iff Let_def U_def)
  have N1: "nxt m1 z = (if z = x then y else if z = y then nxt m x else nxt m z)"
    and P1: "prv m1 z = (if z = y then x else if z = nxt m x \<and> z \<noteq> heap_end m then y else prv m z)" for z
    using f0(1,2)[of z] by (auto simp: m1_def Let_def m0_def)
  have f1: "heap_end m1 = heap_end m" "lfree m1 = (if y < lfree m then y else lfree m)" "mem_size_aligned m1 = mem_size_aligned m"
    "mem_used m1 = mem_used m - (nxt m x - y)" "mem_max m1 = mem_max m"
    using f0(4-8) by (simp_all add: m1_def Let_def m0_def)
  have o1: "only_headers {x, y, nxt m x} m m1"
    using f0(9) by (auto simp: only_headers_def m1_def Let_def m0_def)
  have us: "usum (nxt m1) U zs = usum (nxt m) (MEM_ISUSED m) zs" if "x \<notin> set zs" "y \<notin> set zs" for zs
    by (rule usum_cong) (use that in \<open>auto simp: U_def N1\<close>)
  have Ux: "U x" "\<not> U y" using x y by (auto simp: U_def)
  have u: "usum (nxt m1) U (as @ x # y # bs) + (nxt m x - y) = mem_used m"
    using us[of as] us[of bs] ya yb sm(9,10) d(6) x Ux N1[of x] y by simp
  have h: "hrep (nxt m1) (prv m1) U (heap_end m) (as @ x # y # bs)"
    by (rule hrep_split[OF d(1) y(5,3,4)]) (use N1 P1 d(10) ye in \<open>auto simp: U_def\<close>)
  have m1: "smem_pre m1 ((as @ [x]) @ y # bs)" unfolding smem_pre_def f1 U1
  proof (intro conjI)
    show "hrep (nxt m1) (prv m1) U (heap_end m) ((as @ [x]) @ y # bs)" using h by simp
    have "seg (nxt m1) 0 ((as @ [x]) @ y # bs) (heap_end m)" using h by (simp add: hrep_def)
    from min_ffree[OF this, of "U(y := True)"]
    have "ffree U (heap_end m) ((as @ [x]) @ y # bs) =
      (if y < ffree (U(y := True)) (heap_end m) (as @ x # y # bs) then y
       else ffree (U(y := True)) (heap_end m) (as @ x # y # bs))" using Ux(2) by (simp add: fun_upd_idem)
    moreover have "ffree (U(y := True)) (heap_end m) (as @ x # y # bs) = ffree (MEM_ISUSED m) (heap_end m) (as @ x # bs)"
    proof -
      have c: "ffree (U(y := True)) (heap_end m) zs = ffree (MEM_ISUSED m) (heap_end m) zs" if "y \<notin> set zs" for zs
        by (rule ffree_cong) (use that in \<open>auto simp: U_def\<close>)
      have b: "(\<forall>z \<in> set as. (U(y := True)) z) = (\<forall>z \<in> set as. MEM_ISUSED m z)" using ya by (auto simp: U_def)
      show ?thesis using c[of as] c[of bs] b ya yb x y unfolding ffree_append by (simp add: ffree_Cons U_def)
    qed
    ultimately show "(if y < lfree m then y else lfree m) = ffree U (heap_end m) ((as @ [x]) @ y # bs)"
      using d(5) by simp
    show "mem_used m - (nxt m x - y) = usum (nxt m1) U ((as @ [x]) @ y # bs)" using u by simp
  qed (use d in \<open>auto simp: SIZEOF_STRUCT_MEM_def\<close>)
  have mc: "merged U zs = merged (MEM_ISUSED m) zs" if "y \<notin> set zs" for zs
    by (rule merged_cong) (use that in \<open>auto simp: U_def\<close>)
  have "merged (MEM_ISUSED m) (as @ [x])" "merged (MEM_ISUSED m) bs"
    using mg by (auto simp: successively_append_iff successively_Cons)
  then have mg1: "merged (MEM_ISUSED m1) (as @ [x])" "merged (MEM_ISUSED m1) bs"
    using mc[of "as @ [x]"] mc[OF yb] ya y by (simp_all add: U1)
  have y1: "\<not> MEM_ISUSED m1 y" using Ux by (simp add: U1)
  note pl = plug_holes_spec[OF m1 y1 mg1]
  have fw: "fwd U bs = fwd (MEM_ISUSED m) bs" using yb by (cases bs) (auto simp: fwd_def U_def)
  have bw: "bwd U (as @ [x]) y = as @ [x, y]" using Ux by (simp add: bwd_def)
  show r: "smem_rep m' (as @ x # y # fwd (MEM_ISUSED m) bs)" using pl by (simp add: mm U1 fw bw)
  show "mem_size_aligned m' = mem_size_aligned m" using pl by (simp add: mm plug_keeps_def f1)
  have ct: "contents m' = contents m1" unfolding mm by (rule plug_contents[OF m1 y1 mg1])
  have xi: "x \<in> set (as @ x # bs)" by simp
  show "\<forall>a. a \<noteq> x + 16 \<longrightarrow> contents m' a = contents m a"
  proof (intro allI impI)
    fix a assume ax: "a \<noteq> x + 16"
    show "contents m' a = contents m a"
    proof (cases "16 \<le> a")
      case True
      have ne: "a - 16 \<noteq> x" using ax True by auto
      have cl: "clear_of m {x, y, nxt m x} (a - 16)" if "a - 16 \<in> set (as @ x # bs)"
        using clear_of_items[OF p that, of "{x, nxt m x}"] next_item[OF p xi]
          clear_of_inside[OF p that xi, of y] y ne by (auto simp: clear_of_def)
      have yp: "y \<notin> set (as @ x # bs)" using ya yb y by simp
      show ?thesis unfolding ct
        by (rule contents_keep[OF p m1 o1 True]) (use cl yp ne in \<open>auto simp: U1 U_def N1\<close>)
    qed (simp add: contents_low)
  qed
  have a1: "allocs m1 (x + 16) = Some n" "allocs m (x + 16) = Some (nxt m x - (x + 16))"
    using Ux x N1[of x] by (simp_all add: allocs_pre[OF m1] allocs_pre[OF p] U1 y_def)
  have pk: "MEM_ISUSED m' = U" "nxt m' x = y" using pl Ux N1[of x] by (auto simp: mm plug_keeps_def U1)
  show "allocs m' (x + 16) = Some n"
    using Ux pk by (simp add: allocs_pre[OF smem_repD(1)[OF r]] y_def)
  have "heap_bytes m1 q = heap_bytes m q" if "x + 16 \<le> q" "q < y" for q
    using o1 that y by (auto simp: only_headers_def)
  then have "map (heap_bytes m1) [x + 16 ..< y] = map (heap_bytes m) [x + 16 ..< y]" by simp
  moreover have "take n [x + 16 ..< nxt m x] = [x + 16 ..< y]" using n(2) by (simp add: take_upt y_def)
  ultimately show "contents m' (x + 16) = map_option (take n) (contents m (x + 16))"
    using a1 n(2) unfolding ct contents_def by (simp add: take_map y_def)
qed

section \<open>Request sizes\<close>

lemma unat_clear_low3: "unat (w AND NOT (8 - 1) :: u32) = 8 * (unat w div 8)"
  using unat_clear_low[of 3 w] by simp

lemma unat_align_up: "unat (align_up n) = (if unat n + 7 < 2 ^ 32 then 8 * ((unat n + 7) div 8) else 0)"
proof -
  have w: "n + 8 - 1 = n + 7" by simp
  have u: "unat (n + 7) = (if unat n + 7 < 2 ^ 32 then unat n + 7 else unat n + 7 - 2 ^ 32)"
  proof -
    have "unat (n + 7) = (unat n + 7) mod 2 ^ 32" by (simp add: unat_word_ariths)
    moreover have "unat n < 2 ^ 32" using unsigned_less[of n, where ?'a = nat] by simp
    ultimately show ?thesis using wrap_mod[of "unat n + 7" "2 ^ 32"] by simp
  qed
  have "unat n + 7 - 2 ^ 32 < 8" using unsigned_less[of n, where ?'a = nat] by simp
  then show ?thesis unfolding align_up_def w unat_clear_low3 u by (cases "unat n + 7 < 2 ^ 32") (simp_all only: if_True if_False, simp)
qed

lemma unat_align_down: "unat (align_down n) = 8 * (unat n div 8)"
  unfolding align_down_def by (rule unat_clear_low3)

definition alloc_size :: "u32 \<Rightarrow> nat" where
  "alloc_size sz = max 16 (unat (align_up sz))"

lemma alloc_size_props: "8 dvd alloc_size sz" "16 \<le> alloc_size sz"
  "sz \<noteq> 0 \<Longrightarrow> unat sz + 7 < 2 ^ 32 \<Longrightarrow> unat sz \<le> alloc_size sz \<and> alloc_size sz < unat sz + 16"
  by (auto simp: alloc_size_def unat_align_up max_def unat_gt_0)

lemma rt_smem_alloc_alt:
  "rt_smem_alloc sz m = (if sz = 0 \<or> mem_size_aligned m < alloc_size sz then Some (None, m)
     else alloc_loop (alloc_size sz) (lfree m) m)"
  by (auto simp: rt_smem_alloc_def alloc_size_def Let_def MIN_SIZE_ALIGNED_def max_def)

section \<open>Allocation and release\<close>

lemma no_fit_large:
  assumes "smem_pre m ps" and "mem_size_aligned m < n"
  shows "find (fits m n) ps = None"
proof -
  have "\<not> fits m n x" if "x \<in> set ps" for x
    using seg_bounds[OF smem_preD(8)[OF assms(1)] that] smem_preD(2)[OF assms(1)] assms(2) by (auto simp: fits_def)
  then show ?thesis by (auto simp: find_None_iff)
qed

lemma rt_smem_alloc_find:
  assumes "smem_rep m ps" and "sz \<noteq> 0"
  shows "rt_smem_alloc sz m = (case find (fits m (alloc_size sz)) ps of None \<Rightarrow> Some (None, m)
    | Some x \<Rightarrow> alloc_at (alloc_size sz) x m)"
  using alloc_first_fit[OF smem_repD(1)[OF assms(1)]] no_fit_large[OF smem_repD(1)[OF assms(1)]] assms(2)
  by (simp add: rt_smem_alloc_alt)

lemma find_Some_in: "find Q xs = Some x \<Longrightarrow> x \<in> set xs \<and> Q x"
  by (auto simp: find_Some_iff)

lemma rt_smem_alloc_result:
  assumes m: "smem_rep m ps" and sz: "sz \<noteq> 0" and f: "find (fits m (alloc_size sz)) ps = Some x"
  shows "\<exists>m'. rt_smem_alloc sz m = Some (Some (x + 16), m') \<and> smem_rep m' (taken m (alloc_size sz) x ps) \<and>
    contents m (x + 16) = None \<and> (\<forall>a. a \<noteq> x + 16 \<longrightarrow> contents m' a = contents m a) \<and>
    allocs m' (x + 16) = Some (if splits m (alloc_size sz) x then alloc_size sz else nxt m x - (x + 16)) \<and>
    mem_size_aligned m' = mem_size_aligned m"
  using alloc_at_result[OF m] find_Some_in[OF f] alloc_size_props(1) rt_smem_alloc_find[OF m sz] f by simp

lemma smem_alloc_facts:
  fixes sz :: u32
  assumes m: "smem_inv m"
  defines "n \<equiv> alloc_size sz"
  shows "\<exists>r m'. rt_smem_alloc sz m = Some (r, m') \<and> smem_inv m' \<and> mem_size_aligned m' = mem_size_aligned m \<and>
    (r = None \<longleftrightarrow> sz = 0 \<or> (\<forall>x \<in> set (item_list m). \<not> fits m n x)) \<and>
    (case r of None \<Rightarrow> m' = m
     | Some a \<Rightarrow> find (fits m n) (item_list m) = Some (a - 16) \<and> 8 dvd a \<and> contents m a = None \<and>
         (\<exists>k. allocs m' a = Some k \<and> n \<le> k \<and> k < n + 32 \<and> a + k \<le> mem_size_aligned m + 16) \<and>
         (\<forall>b. b \<noteq> a \<longrightarrow> contents m' b = contents m b))"
proof -
  have r: "smem_rep m (item_list m)" using m by (simp add: smem_inv_list)
  note p = smem_repD(1)[OF r]
  show ?thesis
  proof (cases "sz = 0 \<or> find (fits m n) (item_list m) = None")
    case True
    then have "rt_smem_alloc sz m = Some (None, m)"
      using rt_smem_alloc_find[OF r, of sz] by (auto simp: n_def rt_smem_alloc_alt)
    then show ?thesis using m True by (auto simp: find_None_iff)
  next
    case False
    then obtain x where f: "find (fits m n) (item_list m) = Some x" by auto
    then have x: "x \<in> set (item_list m)" "fits m n x" using find_Some_in by fastforce+
    obtain m' where a: "rt_smem_alloc sz m = Some (Some (x + 16), m')" "smem_rep m' (taken m n x (item_list m))"
      "contents m (x + 16) = None" "\<forall>a. a \<noteq> x + 16 \<longrightarrow> contents m' a = contents m a"
      "allocs m' (x + 16) = Some (if splits m n x then n else nxt m x - (x + 16))"
      "mem_size_aligned m' = mem_size_aligned m"
      using rt_smem_alloc_result[OF r, of sz x] False f unfolding n_def by blast
    have "smem_inv m'" using a(2) by (auto simp: smem_inv_def)
    moreover have "8 dvd x + 16" "nxt m x \<le> mem_size_aligned m + 16"
      using seg_bounds[OF smem_preD(8)[OF p] x(1)] smem_preD(2)[OF p] by auto
    moreover have "x + 16 + n \<le> nxt m x" using x(2) by (simp add: fits_def)
    ultimately show ?thesis using a f False x by (auto simp: splits_def)
  qed
qed

text \<open>The size the allocator works with, in terms of the size asked for: the next multiple of eight, at least sixteen; the rounding
  of the seven largest sizes wraps to zero, so these too count as sixteen.\<close>

definition round_up :: "u32 \<Rightarrow> nat" where
  "round_up sz = (if unat sz \<le> 0xFFFFFFF8 then 8 * ((unat sz + 7) div 8) else 0)"

lemma align_up_round_up: "unat (align_up sz) = round_up sz"
  unfolding unat_align_up round_up_def by (rule if_cong) auto

lemma alloc_size_round_up: "alloc_size sz = max 16 (round_up sz)"
  by (simp add: alloc_size_def align_up_round_up)

lemma round_up_ge: "unat sz \<le> 0xFFFFFFF8 \<Longrightarrow> unat sz \<le> round_up sz"
  by (simp add: round_up_def)

text \<open>C8: \<open>rt_smem_alloc\<close> is first fit over all items of the heap, although it starts at the lowest
  free one. The call always ends. It looks for \<open>n\<close> bytes, the size asked for rounded up to a multiple of eight and to at
  least sixteen; only for the seven sizes above \<open>0xFFFFFFF8\<close> does the rounding wrap around, and then \<open>n\<close> is sixteen. It answers null,
  and changes nothing, exactly for a request of zero bytes or when no free item has room for \<open>n\<close> bytes; otherwise it takes the first
  that has, and the block it returns is aligned, was not allocated, is inside the heap, has \<open>n\<close> bytes
  or up to 31 more, hence at least the bytes asked for when at most \<open>0xFFFFFFF8\<close> were asked for, and no byte of any other
  block changes.\<close>

theorem smem_alloc_first_fit:
  fixes sz :: u32
  assumes "smem_inv m"
  defines "n \<equiv> max 16 (if unat sz \<le> 0xFFFFFFF8 then 8 * ((unat sz + 7) div 8) else 0)"
  shows "\<exists>r m'. rt_smem_alloc sz m = Some (r, m') \<and> smem_inv m' \<and> mem_size_aligned m' = mem_size_aligned m \<and>
    (r = None \<longleftrightarrow> sz = 0 \<or> (\<forall>x \<in> set (item_list m). \<not> fits m n x)) \<and>
    (case r of None \<Rightarrow> m' = m
     | Some a \<Rightarrow> find (fits m n) (item_list m) = Some (a - 16) \<and> 8 dvd a \<and> contents m a = None \<and>
         (\<exists>k. allocs m' a = Some k \<and> n \<le> k \<and> k < n + 32 \<and> a + k \<le> mem_size_aligned m + 16 \<and>
           (unat sz \<le> 0xFFFFFFF8 \<longrightarrow> unat sz \<le> k)) \<and>
         (\<forall>b. b \<noteq> a \<longrightarrow> contents m' b = contents m b))"
proof -
  have n: "n = alloc_size sz" by (simp only: n_def alloc_size_round_up round_up_def)
  have "unat sz \<le> 0xFFFFFFF8 \<Longrightarrow> unat sz \<le> n" using round_up_ge[of sz] by (simp add: n alloc_size_round_up)
  then show ?thesis using smem_alloc_facts[OF assms(1), of sz] unfolding n[symmetric]
    by (fastforce split: option.splits dest: order_trans)
qed

lemma smem_free_facts:
  assumes r: "smem_rep m ps" and a: "allocs m a = Some k"
  shows "smem_inv (rt_smem_free (Some a) m)" and "contents (rt_smem_free (Some a) m) = (contents m)(a := None)"
    and "mem_used (rt_smem_free (Some a) m) + k + 16 = mem_used m" and "8 dvd a" and "a + k \<le> heap_end m"
    and "16 \<le> a"
proof -
  note p = smem_repD(1)[OF r]
  note s = smem_preD(8)[OF p]
  define x where "x = a - 16"
  have x: "a = x + 16" "x \<in> set ps" "MEM_ISUSED m x" "k = nxt m x - (x + 16)"
    using a by (auto simp: allocs_pre[OF p] x_def split: if_splits)
  then obtain as bs where l: "ps = as @ x # bs" by (auto simp: in_set_conv_decomp)
  note f = free_result[OF r[unfolded l] x(3)]
  have b: "x + 16 \<le> nxt m x" "nxt m x \<le> heap_end m" "8 dvd x" using seg_bounds[OF s x(2)] by auto
  show "smem_inv (rt_smem_free (Some a) m)" using f(1) by (auto simp: smem_inv_def x(1))
  show "contents (rt_smem_free (Some a) m) = (contents m)(a := None)" using f(2) x(1) by simp
  show "mem_used (rt_smem_free (Some a) m) + k + 16 = mem_used m" using f(3) b x(1,4) by simp
  show "8 dvd a" "a + k \<le> heap_end m" "16 \<le> a" using b x(1,4) by auto
qed

lemma blocks_apart:
  assumes m: "smem_rep m ps" and a: "allocs m a = Some k" and b: "allocs m b = Some l" and "a \<noteq> b"
  shows "a + k + 16 \<le> b \<or> b + l + 16 \<le> a"
proof -
  note s = smem_preD(8)[OF smem_repD(1)[OF m]] and al = allocs_pre[OF smem_repD(1)[OF m]]
  define x y where "x = a - 16" and "y = b - 16"
  have x: "a = x + 16" "x \<in> set ps" "k = nxt m x - (x + 16)" using a by (auto simp: al x_def split: if_splits)
  have y: "b = y + 16" "y \<in> set ps" "l = nxt m y - (y + 16)" using b by (auto simp: al y_def split: if_splits)
  show ?thesis
    using seg_disjoint[OF s x(2) y(2)] seg_disjoint[OF s y(2) x(2)] seg_bounds[OF s x(2)] seg_bounds[OF s y(2)] assms(4) x y
    by (cases x y rule: linorder_cases) auto
qed

text \<open>Allocated blocks are aligned, lie inside the heap and are separated by at least one header; freeing
  one takes it away, leaves the bytes of all others alone, and gives its size and its header
  back to the count of used memory.\<close>

theorem smem_free_releases:
  assumes "smem_inv m" and "allocs m a = Some k"
  shows "smem_inv (rt_smem_free (Some a) m) \<and> contents (rt_smem_free (Some a) m) = (contents m)(a := None) \<and>
    mem_used (rt_smem_free (Some a) m) + k + SIZEOF_STRUCT_MEM = mem_used m \<and>
    8 dvd a \<and> a + k \<le> heap_end m \<and>
    (\<forall>b l. allocs m b = Some l \<longrightarrow> b = a \<or> a + k + SIZEOF_STRUCT_MEM \<le> b \<or> b + l + SIZEOF_STRUCT_MEM \<le> a)"
proof -
  have r: "smem_rep m (item_list m)" using assms(1) by (simp add: smem_inv_list)
  show ?thesis using smem_free_facts[OF r assms(2)] blocks_apart[OF r assms(2)] unfolding SIZEOF_STRUCT_MEM_def by blast
qed

lemma used_contents: "smem_pre m ps \<Longrightarrow> z \<in> set ps \<Longrightarrow> MEM_ISUSED m z \<longleftrightarrow> contents m (z + 16) \<noteq> None"
  by (simp add: contents_def allocs_pre)

lemma seg_next_eq: "seg N p xs e \<Longrightarrow> seg N' p xs e \<Longrightarrow> x \<in> set xs \<Longrightarrow> N x = N' x"
proof (induction xs arbitrary: p)
  case (Cons y ys)
  then have "N p = N' p" by (cases ys) auto
  then show ?case using Cons by auto
qed simp

lemma pre_determined:
  assumes "smem_pre m ps" and "smem_pre m' ps" and "contents m' = contents m" and "mem_size_aligned m' = mem_size_aligned m"
  shows "lfree m' = lfree m" and "mem_used m' = mem_used m"
proof -
  note d = smem_preD[OF assms(1)] and d' = smem_preD[OF assms(2)]
  have e: "heap_end m' = heap_end m" using d(2) d'(2) assms(4) by simp
  have U: "MEM_ISUSED m' z = MEM_ISUSED m z" if "z \<in> set ps" for z
    using used_contents[OF assms(1) that] used_contents[OF assms(2) that] assms(3) by simp
  show "lfree m' = lfree m" unfolding d(5) d'(5) e by (rule ffree_cong) (rule U)
  show "mem_used m' = mem_used m" unfolding d(6) d'(6)
    by (rule usum_cong) (use U seg_next_eq[OF d(8)] d'(8) e in auto)
qed

text \<open>C9: Freeing what was just allocated restores the heap: the same items, the same lowest free item,
  the same blocks with the same bytes and the same count of used memory.\<close>

theorem smem_alloc_free_round_trip:
  assumes "smem_inv m" and "rt_smem_alloc sz m = Some (Some a, m')"
  defines "m'' \<equiv> rt_smem_free (Some a) m'"
  shows "item_list m'' = item_list m \<and> contents m'' = contents m \<and> lfree m'' = lfree m \<and> mem_used m'' = mem_used m"
proof -
  define n where "n = alloc_size sz"
  have r: "smem_rep m (item_list m)" using assms(1) by (simp add: smem_inv_list)
  note p = smem_repD(1)[OF r]
  have sz: "sz \<noteq> 0" using assms(2) by (auto simp: rt_smem_alloc_alt)
  obtain x where f: "find (fits m n) (item_list m) = Some x"
    using assms(2) rt_smem_alloc_find[OF r sz] by (auto simp: n_def split: option.splits)
  then have x: "x \<in> set (item_list m)" "fits m n x" using find_Some_in by fastforce+
  have a: "a = x + 16" "smem_rep m' (taken m n x (item_list m))" "contents m (x + 16) = None"
    "\<And>b. b \<noteq> x + 16 \<Longrightarrow> contents m' b = contents m b" "mem_size_aligned m' = mem_size_aligned m" "allocs m' (x + 16) \<noteq> None"
    using rt_smem_alloc_result[OF r sz, of x] f assms(2) unfolding n_def by auto
  obtain as bs where l: "item_list m = as @ x # bs" using x(1) by (auto simp: in_set_conv_decomp)
  note sm = seg_mid[OF smem_preD(8)[OF p[unfolded l]]]
  define cs where "cs = (if splits m n x then (x + 16 + n) # bs else bs)"
  have r': "smem_rep m' (as @ x # cs)" using a(2) sm(9) by (simp add: l taken_simps cs_def split: if_splits)
  note p' = smem_repD(1)[OF r']
  have Ux: "MEM_ISUSED m' x" using a(6) by (simp add: used_contents[OF p'] contents_def)
  define U where "U = (MEM_ISUSED m')(x := False)"
  have mg: "merged (MEM_ISUSED m) (as @ x # bs)" "\<not> MEM_ISUSED m x" using smem_repD(2)[OF r] l x(2) by (simp_all add: fits_def)
  have U: "U z = MEM_ISUSED m z" if "z \<in> set as \<or> z \<in> set bs" for z
  proof -
    have "z \<noteq> x" "z \<in> set (as @ x # cs)" "z \<in> set (as @ x # bs)" using that sm(9,10) by (auto simp: cs_def)
    then show ?thesis using a(4)[of "z + 16"] used_contents[OF p'] used_contents[OF p[unfolded l]] by (simp add: U_def)
  qed
  have bw: "bwd U as x = as @ [x]" using mg U by (cases "as = []") (auto simp: bwd_def merged_mid)
  have fw: "fwd U cs = bs"
  proof (cases "splits m n x")
    case True
    have y: "x < x + 16 + n" "x + 16 + n < nxt m x" using True by (auto simp: splits_def)
    then have "x + 16 + n \<notin> set (as @ x # bs)" using sm(7,8) by force
    then have "contents m (x + 16 + n + 16) = None" by (simp add: contents_def allocs_pre[OF p[unfolded l]] ac_simps)
    then have "\<not> MEM_ISUSED m' (x + 16 + n)"
      using a(4)[of "x + 16 + n + 16"] used_contents[OF p', of "x + 16 + n"] True by (simp add: cs_def)
    then show ?thesis using True by (simp add: fwd_def cs_def U_def)
  next
    case False
    then show ?thesis using mg U by (cases bs) (auto simp: cs_def fwd_def merged_mid)
  qed
  note fr = free_result[OF r' Ux, folded U_def, unfolded bw fw]
  have r'': "smem_rep m'' (as @ x # bs)" using fr(1) by (simp add: m''_def a(1))
  have c: "contents m'' = contents m" using fr(2) a(3,4) by (auto simp: m''_def a(1))
  have "mem_size_aligned m'' = mem_size_aligned m" using fr(4) a(5) by (simp add: m''_def a(1))
  then show ?thesis
    using pre_determined[OF p[unfolded l] smem_repD(1)[OF r''] c] c pre_item_list[OF smem_repD(1)[OF r'']] l by simp
qed

section \<open>Changing the size of a block\<close>

lemma copy_bytes_pre: "smem_rep (copy_bytes dst src k m) ps = smem_rep m ps"
  by (simp add: copy_bytes_def smem_rep_def smem_pre_def MEM_ISUSED_def[abs_def])

lemma copy_bytes_fields [simp]:
  "items (copy_bytes dst src k m) = items m" "mem_size_aligned (copy_bytes dst src k m) = mem_size_aligned m"
  "heap_end (copy_bytes dst src k m) = heap_end m"
  by (simp_all add: copy_bytes_def)

lemma allocs_copy [simp]: "allocs (copy_bytes dst src k m) = allocs m"
  by (simp add: fun_eq_iff allocs_def item_list_def MEM_ISUSED_def)

lemma contents_copy:
  assumes m: "smem_rep m ps" and p: "allocs m p = Some n" and a: "allocs m a = Some k" and "p \<noteq> a" and c: "c \<le> n" "c \<le> k"
  shows "\<forall>b. b \<noteq> p \<longrightarrow> contents (copy_bytes p a c m) b = contents m b"
    and "\<exists>new. contents (copy_bytes p a c m) p = Some new \<and> length new = n \<and> take c new = take c (the (contents m a))"
proof -
  have "heap_bytes (copy_bytes p a c m) q = heap_bytes m q" if "b \<noteq> p" "allocs m b = Some l" "q \<in> {b ..< b + l}" for b l q
    using blocks_apart[OF m p that(2)] that(1,3) c(1) by (auto simp: copy_bytes_def)
  then show "\<forall>b. b \<noteq> p \<longrightarrow> contents (copy_bytes p a c m) b = contents m b"
    by (auto simp: contents_def split: option.splits intro!: option.map_cong)
  define new where "new = map (heap_bytes (copy_bytes p a c m)) [p ..< p + n]"
  have "take c new = take c (map (heap_bytes m) [a ..< a + k])"
    using c by (intro nth_equalityI) (auto simp: new_def copy_bytes_def)
  then show "\<exists>new. contents (copy_bytes p a c m) p = Some new \<and> length new = n \<and> take c new = take c (the (contents m a))"
    using p a by (intro exI[of _ new]) (simp add: contents_def new_def)
qed

lemma alloc_size_of_nat:
  assumes "8 dvd n" and "n + 7 < 2 ^ 32"
  shows "alloc_size (of_nat n) = max 16 n"
proof -
  have u: "unat (of_nat n :: u32) = n" using assms(2) by (simp add: unat_of_nat)
  have "8 * ((n + 7) div 8) = n" using assms(1) by (auto elim!: dvdE)
  then show ?thesis using u assms(2) by (simp add: alloc_size_def unat_align_up)
qed

text \<open>The outcomes of a call of \<open>rt_smem_realloc\<close> on the block \<open>a\<close> of \<open>k\<close> bytes, asked for \<open>newsize\<close>
  (rounded) bytes.\<close>

definition realloc_outcome :: "rt_small_mem \<Rightarrow> nat \<Rightarrow> nat \<Rightarrow> nat \<Rightarrow> nat option \<Rightarrow> rt_small_mem \<Rightarrow> bool" where
  "realloc_outcome m a k newsize r m' \<longleftrightarrow> smem_inv m' \<and>
    (case r of
       None \<Rightarrow> (if newsize = 0 then contents m' = (contents m)(a := None) else m' = m)
     | Some p \<Rightarrow> 8 dvd p \<and>
        (\<exists>new. contents m' p = Some new \<and> newsize \<le> length new \<and>
          take (min k newsize) new = take (min k newsize) (the (contents m a))) \<and>
        (p \<noteq> a \<longrightarrow> contents m p = None \<and> contents m' a = None) \<and>
        (\<forall>b. b \<noteq> p \<and> b \<noteq> a \<longrightarrow> contents m' b = contents m b))"

lemma realloc_moves:
  assumes m: "smem_rep m ps" and a: "allocs m a = Some k" and n: "8 dvd n" "n \<noteq> 0" "n \<le> mem_size_aligned m"
    and f: "find (fits m (max 16 n)) ps = Some x"
  shows "\<exists>m1. rt_smem_alloc (of_nat n) m = Some (Some (x + 16), m1) \<and>
    realloc_outcome m a k n (Some (x + 16)) (rt_smem_free (Some a) (copy_bytes (x + 16) a (min k n) m1))"
proof -
  note p = smem_repD(1)[OF m]
  have nn: "n + 7 < 2 ^ 32" using n(3) smem_preD(4)[OF p] by simp
  then have "unat (of_nat n :: u32) = n" by (simp add: unat_of_nat)
  then have nz: "(of_nat n :: u32) \<noteq> 0" using n(2) by (metis unat_0)
  note as = alloc_size_of_nat[OF n(1) nn]
  obtain m1 where r: "rt_smem_alloc (of_nat n) m = Some (Some (x + 16), m1)" "smem_rep m1 (taken m (max 16 n) x ps)"
    "contents m (x + 16) = None" "\<And>b. b \<noteq> x + 16 \<Longrightarrow> contents m1 b = contents m b"
    "allocs m1 (x + 16) = Some (if splits m (max 16 n) x then max 16 n else nxt m x - (x + 16))"
    using rt_smem_alloc_result[OF m nz, unfolded as, OF f] by blast
  have x: "x \<in> set ps" "x + 16 + max 16 n \<le> nxt m x" using find_Some_in[OF f] by (auto simp: fits_def)
  have xa: "x + 16 \<noteq> a" using r(3) a by (auto simp: contents_def)
  obtain l where l: "allocs m1 (x + 16) = Some l" "n \<le> l" using r(5) x(2) by (cases "splits m (max 16 n) x") auto
  have "length (the (contents m1 a)) = k" "allocs m1 a \<noteq> None"
    using r(4)[of a] xa a by (auto simp: contents_def)
  then have a1: "allocs m1 a = Some k" by (auto simp: contents_def)
  define m2 where "m2 = copy_bytes (x + 16) a (min k n) m1"
  have m2: "smem_rep m2 (taken m (max 16 n) x ps)" "allocs m2 a = Some k"
    using r(2) a1 by (simp_all add: m2_def copy_bytes_pre)
  have mn: "min k n \<le> l" "min k n \<le> k" using l(2) by auto
  note cc = contents_copy[OF r(2) l(1) a1 xa mn, folded m2_def]
  obtain new where new: "contents m2 (x + 16) = Some new" "length new = l" "take (min k n) new = take (min k n) (the (contents m a))"
    using cc(2) r(4)[of a] xa by auto
  define y where "y = a - 16"
  have y: "a = y + 16" "y \<in> set (taken m (max 16 n) x ps)" "MEM_ISUSED m2 y"
    using m2(2) by (auto simp: allocs_pre[OF smem_repD(1)[OF m2(1)]] y_def split: if_splits)
  then obtain us vs where "taken m (max 16 n) x ps = us @ y # vs" by (auto simp: in_set_conv_decomp)
  note fr = free_result[OF m2(1)[unfolded this] y(3), folded y(1)]
  have "8 dvd x" using seg_bounds[OF smem_preD(8)[OF p] x(1)] by simp
  moreover have "smem_inv (rt_smem_free (Some a) m2)" using fr(1) by (auto simp: smem_inv_def)
  ultimately have "realloc_outcome m a k n (Some (x + 16)) (rt_smem_free (Some a) m2)"
    using fr(2) new l(2) xa cc(1) r(3,4) by (auto simp: realloc_outcome_def)
  then show ?thesis using r(1) by (auto simp: m2_def)
qed

lemma realloc_result:
  assumes m: "smem_inv m" and a: "allocs m a = Some k"
  shows "\<exists>r m'. rt_smem_realloc (Some a) nsz m = Some (r, m') \<and> realloc_outcome m a k (unat (align_up nsz)) r m'"
proof -
  define n where "n = unat (align_up nsz)"
  have r: "smem_rep m (item_list m)" using m by (simp add: smem_inv_list)
  note p = smem_repD(1)[OF r]
  have n8: "8 dvd n" by (simp add: n_def unat_align_up)
  define x where "x = a - 16"
  have x: "a = x + 16" "x \<in> set (item_list m)" "MEM_ISUSED m x" "k = nxt m x - x - 16"
    using a by (auto simp: allocs_def x_def split: if_splits)
  then obtain us vs where l: "item_list m = us @ x # vs" by (auto simp: in_set_conv_decomp)
  have x8: "8 dvd a" "x + 16 \<le> nxt m x" using seg_bounds[OF smem_preD(8)[OF p] x(2)] x(1) by auto
  have ca: "contents m a = Some (map (heap_bytes m) [a ..< a + k])" using a by (simp add: contents_def)
  consider "mem_size_aligned m < n" | "n = 0" | "n \<noteq> 0" "n = k" "n \<le> mem_size_aligned m"
    | "n \<noteq> 0" "n + 28 < k" "n \<le> mem_size_aligned m" | "n \<noteq> 0" "n \<noteq> k" "\<not> n + 28 < k" "n \<le> mem_size_aligned m"
    by linarith
  then show ?thesis
  proof cases
    case 1
    then show ?thesis using m
      by (intro exI[of _ None] exI[of _ m]) (auto simp: rt_smem_realloc_def realloc_outcome_def Let_def n_def[symmetric])
  next
    case 2
    then show ?thesis using smem_free_facts[OF r a]
      by (intro exI[of _ None] exI) (auto simp: rt_smem_realloc_def realloc_outcome_def Let_def n_def[symmetric])
  next
    case 3
    then show ?thesis using m ca x8 x(1,4)
      by (intro exI[of _ "Some a"] exI[of _ m])
        (auto simp: rt_smem_realloc_def realloc_outcome_def Let_def n_def[symmetric] SIZEOF_STRUCT_MEM_def)
  next
    case 4
    have sh: "x + 16 + n + 16 \<le> nxt m x" using 4(2) x(4) by simp
    define m' where "m' = shrink_item x (nxt m x - x - 16) n m"
    note s = shrink_result[OF r[unfolded l] x(3) n8 sh, folded m'_def x(1)]
    have "smem_inv m'" using s(1) by (auto simp: smem_inv_def)
    moreover have "rt_smem_realloc (Some a) nsz m = Some (Some a, m')"
      using 4 x(1,4) by (simp add: rt_smem_realloc_def Let_def n_def[symmetric] SIZEOF_STRUCT_MEM_def MIN_SIZE_def m'_def)
    ultimately show ?thesis using s(2,3) ca x8(1) 4(2)
      by (intro exI[of _ "Some a"] exI[of _ m']) (auto simp: realloc_outcome_def n_def[symmetric])
  next
    case 5
    then have call: "rt_smem_realloc (Some a) nsz m =
      (case rt_smem_alloc (of_nat n) m of None \<Rightarrow> None | Some (None, m) \<Rightarrow> Some (None, m)
       | Some (Some nmem, m) \<Rightarrow> Some (Some nmem, rt_smem_free (Some a) (copy_bytes nmem a (min k n) m)))"
      using x(1,4) by (simp add: rt_smem_realloc_def Let_def n_def[symmetric] SIZEOF_STRUCT_MEM_def MIN_SIZE_def min_def not_less
          split: option.splits prod.splits)
    show ?thesis
    proof (cases "find (fits m (max 16 n)) (item_list m)")
      case None
      have nn: "n + 7 < 2 ^ 32" using 5(4) smem_preD(4)[OF p] by simp
      then have "unat (of_nat n :: u32) = n" by (simp add: unat_of_nat)
      then have "(of_nat n :: u32) \<noteq> 0" using 5(1) by (metis unat_0)
      then have "rt_smem_alloc (of_nat n) m = Some (None, m)"
        using rt_smem_alloc_find[OF r] None alloc_size_of_nat[OF n8 nn] by simp
      then show ?thesis using call m 5(1) by (auto simp: realloc_outcome_def n_def[symmetric])
    next
      case (Some z)
      then show ?thesis using realloc_moves[OF r a n8 5(1,4) Some] call by (auto simp: n_def[symmetric])
    qed
  qed
qed

lemma realloc_zero:
  "unat (align_up nsz) = 0 \<Longrightarrow> rt_smem_realloc (Some a) nsz m = Some (None, rt_smem_free (Some a) m)"
  by (simp add: rt_smem_realloc_def Let_def)

text \<open>C10: \<open>rt_smem_realloc\<close> on an allocated block of \<open>k\<close> bytes ends, keeps the heap invariant and keeps the program's data. With \<open>n\<close> the
  size asked for, rounded up to a multiple of eight, which wraps to zero for the seven sizes above \<open>0xFFFFFFF8\<close>: when \<open>n\<close> is
  zero, that is for a size of zero and for those seven, it answers null after freeing the block; otherwise it
  answers null only when it leaves everything as it
  was; and otherwise the block it answers is aligned, has at least \<open>n\<close> bytes, hence those asked for, begins with the old bytes up
  to the smaller of \<open>k\<close> and \<open>n\<close>, is the old block or one that was free while the old one is freed, and every other block keeps its bytes.\<close>

theorem smem_realloc_keeps_data:
  fixes nsz :: u32
  assumes "smem_inv m" and "allocs m a = Some k"
  defines "n \<equiv> if unat nsz \<le> 0xFFFFFFF8 then 8 * ((unat nsz + 7) div 8) else 0"
  shows "\<exists>r m'. rt_smem_realloc (Some a) nsz m = Some (r, m') \<and> smem_inv m' \<and>
    (n = 0 \<longleftrightarrow> nsz = 0 \<or> nsz > 0xFFFFFFF8) \<and>
    (n = 0 \<longrightarrow> r = None \<and> contents m' = (contents m)(a := None)) \<and>
    (case r of
       None \<Rightarrow> n \<noteq> 0 \<longrightarrow> m' = m
     | Some p \<Rightarrow> 8 dvd p \<and>
        (\<exists>new. contents m' p = Some new \<and> n \<le> length new \<and> unat nsz \<le> length new \<and>
          take (min k n) new = take (min k n) (the (contents m a))) \<and>
        (p \<noteq> a \<longrightarrow> contents m p = None \<and> contents m' a = None) \<and>
        (\<forall>b. b \<noteq> p \<and> b \<noteq> a \<longrightarrow> contents m' b = contents m b))"
proof -
  have n: "n = unat (align_up nsz)" by (simp only: n_def align_up_round_up round_up_def)
  have "n = 0 \<longleftrightarrow> unat nsz = 0 \<or> unat nsz > 0xFFFFFFF8" by (auto simp: n_def)
  then have z: "n = 0 \<longleftrightarrow> nsz = 0 \<or> nsz > 0xFFFFFFF8" by (simp add: word_less_nat_alt unat_eq_zero)
  obtain r m' where r: "rt_smem_realloc (Some a) nsz m = Some (r, m')" "realloc_outcome m a k n r m'"
    using realloc_result[OF assms(1,2), of nsz] unfolding n[symmetric] by blast
  have r0: "r = None" if "n = 0"
    using r(1) that realloc_zero[of nsz] unfolding n by fastforce
  have le: "unat nsz \<le> n" if "r \<noteq> None"
  proof -
    have "n \<noteq> 0" using r0 that by blast
    then show ?thesis by (simp add: n_def split: if_splits)
  qed
  show ?thesis using r r0 le by (auto simp: realloc_outcome_def z[symmetric] split: option.splits)
qed

section \<open>Every reachable heap\<close>

lemma smem_setup_inv:
  assumes "8 dvd n" and "n + 64 < 2 ^ 32"
  shows "smem_rep (smem_setup n) [0]"
  using assms by (auto simp: smem_setup_def Let_def smem_rep_def smem_pre_def hrep_def MEM_ISUSED_def SIZEOF_STRUCT_MEM_def ffree_Cons)

text \<open>The memory handed to \<open>rt_smem_init\<close> does not reach the end of the address space.\<close>

definition area_ok :: "u32 \<Rightarrow> u32 \<Rightarrow> bool" where
  "area_ok begin_addr sz \<longleftrightarrow> unat begin_addr + unat sz < 2 ^ 32 \<and> unat begin_addr + 80 < 2 ^ 32"

lemma rt_smem_init_heap:
  assumes ok: "area_ok b sz" and i: "fst (rt_smem_init ob name b sz sys) = Some m"
  shows "\<exists>n. m = smem_setup n \<and> 8 dvd n \<and> n + 64 < 2 ^ 32 \<and> unat (align_up b) + 56 + n + 32 \<le> unat b + unat sz"
proof -
  have bb: "unat b + unat sz < 2 ^ 32" "unat b + 80 < 2 ^ 32" using ok by (auto simp: area_ok_def)
  define s where "s = unat (align_up b)"
  have s: "unat b \<le> s" "s \<le> unat b + 7" "8 dvd s" using bb(2) by (auto simp: s_def unat_align_up)
  have st: "unat (align_up b + SIZEOF_SMALL_MEM) = s + 56"
    using s bb(2) unat_add_lem[of "align_up b" "SIZEOF_SMALL_MEM"] by (simp add: s_def SIZEOF_SMALL_MEM_def)
  have ba: "unat (align_up (align_up b + SIZEOF_SMALL_MEM)) = s + 56"
    using st s bb(2) by (auto simp: unat_align_up elim!: dvdE)
  define t where "t = unat (align_down (b + sz))"
  have "unat (b + sz) = unat b + unat sz" using bb(1) unat_add_lem[of b sz] by simp
  then have t: "t \<le> unat b + unat sz" "8 dvd t" by (auto simp: t_def unat_align_down)
  have g: "32 < align_down (b + sz)" "align_up b + SIZEOF_SMALL_MEM \<le> align_down (b + sz) - 32"
    and m: "m = smem_setup (unat (align_down (b + sz) - align_up (align_up b + SIZEOF_SMALL_MEM) - 32))"
    using i by (auto simp: rt_smem_init_def Let_def split: if_splits)
  have t32: "32 < t" using g(1) by (simp add: word_less_nat_alt t_def)
  then have u: "unat (align_down (b + sz) - 32) = t - 32"
    using g(1) by (simp add: unat_sub word_le_nat_alt t_def)
  then have st2: "s + 56 \<le> t - 32" using g(2) st by (simp add: word_le_nat_alt)
  have "unat (align_down (b + sz) - align_up (align_up b + SIZEOF_SMALL_MEM)) = t - (s + 56)"
    using st2 ba by (simp add: unat_sub word_le_nat_alt t_def)
  then have "unat (align_down (b + sz) - align_up (align_up b + SIZEOF_SMALL_MEM) - 32) = t - (s + 56) - 32"
    using st2 t32 by (subst unat_sub) (simp_all add: word_le_nat_alt)
  moreover have "8 dvd t - (s + 56) - 32" using s(3) t(2) by (intro dvd_diff_nat) auto
  ultimately show ?thesis using m st2 t bb(1) t32 by (intro exI[of _ "t - (s + 56) - 32"]) (auto simp: s_def)
qed

text \<open>A step of the program on a heap: the three calls, with a pointer the heap gave out or null, or a write
  to a byte of an allocated block.\<close>

definition own :: "rt_small_mem \<Rightarrow> nat option \<Rightarrow> bool" where
  "own m r \<longleftrightarrow> (case r of None \<Rightarrow> True | Some a \<Rightarrow> allocs m a \<noteq> None)"

inductive heap_step :: "rt_small_mem \<Rightarrow> rt_small_mem \<Rightarrow> bool" where
  alloc: "rt_smem_alloc sz m = Some (r, m') \<Longrightarrow> heap_step m m'"
| free: "own m r \<Longrightarrow> heap_step m (rt_smem_free r m)"
| realloc: "own m r \<Longrightarrow> rt_smem_realloc r sz m = Some (r', m') \<Longrightarrow> heap_step m m'"
| store: "allocs m a = Some k \<Longrightarrow> i < k \<Longrightarrow> heap_step m (m\<lparr> heap_bytes := (heap_bytes m)(a + i \<mapsto> v) \<rparr>)"

inductive heap_reach :: "rt_small_mem \<Rightarrow> bool" where
  init: "area_ok b sz \<Longrightarrow> fst (rt_smem_init (ob :: nat) name b sz sys) = Some m \<Longrightarrow> heap_reach m"
| step: "heap_reach m \<Longrightarrow> heap_step m m' \<Longrightarrow> heap_reach m'"

lemma alloc_inv: "smem_inv m \<Longrightarrow> rt_smem_alloc sz m = Some (r, m') \<Longrightarrow> smem_inv m'"
proof -
  assume m: "smem_inv m" and a: "rt_smem_alloc sz m = Some (r, m')"
  have r: "smem_rep m (item_list m)" using m by (simp add: smem_inv_list)
  show ?thesis
  proof (cases "sz = 0 \<or> find (fits m (alloc_size sz)) (item_list m) = None")
    case True
    then show ?thesis using a m rt_smem_alloc_find[OF r, of sz] by (auto simp: rt_smem_alloc_alt split: if_splits)
  next
    case False
    then show ?thesis using rt_smem_alloc_result[OF r, of sz] a by (auto simp: smem_inv_def)
  qed
qed

lemma store_inv: "smem_inv m \<Longrightarrow> smem_inv (m\<lparr> heap_bytes := f \<rparr>)"
  by (simp add: smem_inv_def smem_rep_def smem_pre_def MEM_ISUSED_def[abs_def])

lemma realloc_null: "rt_smem_realloc None nsz m = Some (r, m') \<Longrightarrow> m' = m \<or> (\<exists>sz. rt_smem_alloc sz m = Some (r, m'))"
  by (auto simp: rt_smem_realloc_def Let_def rt_smem_free_def split: if_splits)

lemma realloc_inv:
  assumes "smem_inv m" and "own m p" and "rt_smem_realloc p nsz m = Some (r, m')"
  shows "smem_inv m'"
proof (cases p)
  case None
  then show ?thesis using realloc_null assms alloc_inv by blast
next
  case (Some a)
  then obtain k where "allocs m a = Some k" using assms(2) by (auto simp: own_def)
  from realloc_result[OF assms(1) this, of nsz] show ?thesis
    using assms(3) Some by (auto simp: realloc_outcome_def)
qed

lemma heap_step_inv: "heap_step m m' \<Longrightarrow> smem_inv m \<Longrightarrow> smem_inv m'"
proof (induction rule: heap_step.induct)
  case (free m r)
  then show ?case using smem_free_facts(1)[of m "item_list m"]
    by (auto simp: own_def rt_smem_free_def smem_inv_list split: option.splits)
qed (use alloc_inv realloc_inv store_inv in blast)+

lemma heap_reach_inv: "heap_reach m \<Longrightarrow> smem_inv m"
proof (induction rule: heap_reach.induct)
  case (init b sz ob name sys m)
  then show ?case using rt_smem_init_heap[OF init] smem_setup_inv by (auto simp: smem_inv_def)
qed (use heap_step_inv in blast)

lemma usum_bound: "seg N p xs e \<Longrightarrow> usum N U xs \<le> e - p"
proof (induction xs arbitrary: p)
  case (Cons x xs)
  then have "usum N U xs \<le> e - N p" "x = p" "p + 16 \<le> N p" "N p \<le> e" using seg_le[of N "N p" xs e] by auto
  then show ?case by auto
qed simp

lemma usum_all: "seg N p xs e \<Longrightarrow> usum N (\<lambda>_. True) xs = e - p"
proof (induction xs arbitrary: p)
  case (Cons x xs)
  then have "usum N (\<lambda>_. True) xs = e - N p" "x = p" "p + 16 \<le> N p" "N p \<le> e" using seg_le[of N "N p" xs e] by auto
  then show ?case by simp
qed simp

lemma ffree_free: "ffree U e xs = e \<or> ffree U e xs \<in> set xs \<and> \<not> U (ffree U e xs)"
  by (induction xs) (auto simp: ffree_Cons)

text \<open>C7: In every heap reachable from \<open>rt_smem_init\<close> by any sequence of allocations, releases, changes of size and writes
  to allocated blocks: the items form one chain in both directions that covers the heap exactly, no two
  free items are neighbours, the lowest free item is the one the heap remembers, and the count
  of used memory is the sum of the sizes, headers included, of the used items and never exceeds the heap or the maximum recorded.\<close>

theorem smem_reachable_invariant:
  assumes "heap_reach m"
  shows "smem_inv m \<and> mem_used m \<le> mem_max m \<and> mem_used m \<le> heap_end m \<and>
    mem_used m = (\<Sum>x\<leftarrow>filter (MEM_ISUSED m) (item_list m). nxt m x - x) \<and>
    (\<Sum>x\<leftarrow>item_list m. nxt m x - x) = heap_end m \<and>
    (\<forall>x. lfree m = x \<and> x \<noteq> heap_end m \<longrightarrow> x \<in> set (item_list m) \<and> \<not> MEM_ISUSED m x) \<and>
    (\<forall>x y as bs. item_list m = as @ x # y # bs \<longrightarrow>
      nxt m x = y \<and> prv m y = x \<and> (MEM_ISUSED m x \<or> MEM_ISUSED m y))"
proof -
  have inv: "smem_inv m" by (rule heap_reach_inv[OF assms])
  then have r: "smem_rep m (item_list m)" by (simp add: smem_inv_list)
  note d = smem_preD[OF smem_repD(1)[OF r]]
  have whole: "seg N p xs e \<Longrightarrow> (\<Sum>x\<leftarrow>xs. N x - x) = e - p" for N p xs e
    using usum_all[of N p xs e] by (simp add: usum_def)
  have lf: "lfree m = heap_end m \<or> lfree m \<in> set (item_list m) \<and> \<not> MEM_ISUSED m (lfree m)"
    using ffree_free[of "MEM_ISUSED m" "heap_end m" "item_list m"] d(5) by simp
  have nb: "nxt m x = y \<and> prv m y = x \<and> (MEM_ISUSED m x \<or> MEM_ISUSED m y)" if l: "item_list m = as @ x # y # bs" for x y as bs
  proof -
    have p: "smem_pre m (as @ x # y # bs)" "smem_pre m ((as @ [x]) @ y # bs)" using smem_repD(1)[OF r] l by simp_all
    show ?thesis using seg_mid(2)[OF smem_preD(8)[OF p(1)]] prev_item[OF p(2)] smem_repD(2)[OF r]
      by (simp add: l successively_append_iff)
  qed
  have used: "mem_used m = (\<Sum>x\<leftarrow>filter (MEM_ISUSED m) (item_list m). nxt m x - x)" using d(6) by (simp add: usum_def)
  have bound: "mem_used m \<le> heap_end m" using usum_bound[OF d(8), of "MEM_ISUSED m"] d(6) by simp
  have total: "(\<Sum>x\<leftarrow>item_list m. nxt m x - x) = heap_end m" using whole[OF d(8)] by simp
  show ?thesis using inv d(7) bound used total lf nb by blast
qed

section \<open>Requests that wrap\<close>

text \<open>A request of more than \<open>0xFFFFFFF8\<close> bytes is not refused: rounding it up wraps to zero, and the caller gets
  a block of fewer than 48 bytes as soon as some free item has 16.\<close>

theorem smem_alloc_size_wraps:
  assumes m: "smem_inv m" and sz: "sz > 0xFFFFFFF8" and x: "x \<in> set (item_list m)" "fits m 16 x"
  shows "\<exists>a m' k. rt_smem_alloc sz m = Some (Some a, m') \<and> allocs m' a = Some k \<and> k < 48"
proof -
  have r: "smem_rep m (item_list m)" using m by (simp add: smem_inv_list)
  have "unat (0xFFFFFFF8 :: u32) < unat sz" using sz by (simp only: word_less_nat_alt)
  then have "\<not> unat sz + 7 < 2 ^ 32" by simp
  then have n: "alloc_size sz = 16" unfolding alloc_size_def unat_align_up by simp
  have sz0: "sz \<noteq> 0" using sz by auto
  obtain y where f: "find (fits m 16) (item_list m) = Some y" using x by (cases "find (fits m 16) (item_list m)") (auto simp: find_None_iff)
  obtain m' where a: "rt_smem_alloc sz m = Some (Some (y + 16), m')"
    "allocs m' (y + 16) = Some (if splits m 16 y then 16 else nxt m y - (y + 16))"
    using rt_smem_alloc_result[OF r sz0, unfolded n, OF f] by blast
  moreover have "(if splits m 16 y then 16 else nxt m y - (y + 16)) < 48" by (auto simp: splits_def)
  ultimately show ?thesis by blast
qed

section \<open>Witnesses\<close>

lemma setup_256: "smem_rep (smem_setup 256) [0]" "item_list (smem_setup 256) = [0]" "fits (smem_setup 256) n 0 \<longleftrightarrow> n \<le> 256"
proof -
  show r: "smem_rep (smem_setup 256) [0]" by (rule smem_setup_inv) simp_all
  show "item_list (smem_setup 256) = [0]" by (rule pre_item_list[OF smem_repD(1)[OF r]])
  show "fits (smem_setup 256) n 0 \<longleftrightarrow> n \<le> 256"
    by (auto simp: fits_def smem_setup_def Let_def MEM_ISUSED_def SIZEOF_STRUCT_MEM_def)
qed

lemma setup_256_inv: "smem_inv (smem_setup 256)"
  using setup_256(1) by (auto simp: smem_inv_def)

lemma alloc_size_10: "alloc_size 10 = 16"
  by (simp add: alloc_size_def unat_align_up)

abbreviation demo_heap :: rt_small_mem where
  "demo_heap \<equiv> snd (the (rt_smem_alloc 10 (smem_setup 256)))"

lemma demo_heap: "rt_smem_alloc 10 (smem_setup 256) = Some (Some 16, demo_heap)" "smem_inv demo_heap" "allocs demo_heap 16 = Some 16"
proof -
  have "splits (smem_setup 256) 16 0" by (simp add: splits_def smem_setup_def Let_def SIZEOF_STRUCT_MEM_def)
  then obtain m' where "rt_smem_alloc 10 (smem_setup 256) = Some (Some 16, m')" "smem_inv m'" "allocs m' 16 = Some 16"
    using rt_smem_alloc_result[OF setup_256(1), of 10 0] setup_256(3)[of 16] alloc_size_10 by (auto simp: smem_inv_def)
  then show "rt_smem_alloc 10 (smem_setup 256) = Some (Some 16, demo_heap)" "smem_inv demo_heap" "allocs demo_heap 16 = Some 16"
    by simp_all
qed

theorem smem_alloc_first_fit_witness:
  "smem_inv (smem_setup 256) \<and> (\<exists>a m'. rt_smem_alloc 10 (smem_setup 256) = Some (Some a, m') \<and> smem_inv m' \<and> a = 16)"
  using smem_alloc_first_fit[OF setup_256_inv, of 10] demo_heap(1) setup_256_inv by auto

theorem smem_free_releases_witness:
  "smem_inv demo_heap \<and> contents (rt_smem_free (Some 16) demo_heap) = (contents demo_heap)(16 := None)"
  using smem_free_releases[OF demo_heap(2,3)] demo_heap(2) by blast

theorem smem_alloc_free_round_trip_witness:
  "item_list (rt_smem_free (Some 16) demo_heap) = [0]"
  using smem_alloc_free_round_trip[OF setup_256_inv demo_heap(1)] setup_256(2) by simp

theorem smem_realloc_keeps_data_witness:
  "smem_inv demo_heap \<and> allocs demo_heap 16 = Some 16 \<and>
   (\<exists>r m'. rt_smem_realloc (Some 16) 40 demo_heap = Some (r, m') \<and> smem_inv m' \<and> (r = None \<longrightarrow> m' = demo_heap)) \<and>
   (\<exists>m'. rt_smem_realloc (Some 16) 0xFFFFFFF9 demo_heap = Some (None, m') \<and> contents m' = (contents demo_heap)(16 := None))"
  using smem_realloc_keeps_data[OF demo_heap(2,3), of 40] smem_realloc_keeps_data[OF demo_heap(2,3), of "0xFFFFFFF9"] demo_heap(2,3)
  by (auto split: option.splits)

theorem smem_reachable_invariant_witness:
  "heap_reach demo_heap \<and> mem_used demo_heap \<le> heap_end demo_heap"
proof -
  define m where "m = smem_setup 256"
  have al: "align_up 0x20000000 = 0x20000000" "align_up 0x20000038 = 0x20000038" "align_down 0x20000158 = 0x20000158"
    by code_simp+
  have "fst (rt_smem_init (0 :: nat) [] 0x20000000 344 sys) = Some m" for sys
    using al by (simp add: rt_smem_init_def m_def Let_def SIZEOF_SMALL_MEM_def)
  then have i: "heap_reach m" by (intro heap_reach.init[of "0x20000000" 344]) (simp_all add: area_ok_def)
  have "heap_reach demo_heap"
    using heap_reach.step[OF i heap_step.alloc] demo_heap(1) by (simp add: m_def)
  then show ?thesis using smem_reachable_invariant[of demo_heap] i by blast
qed

theorem smem_alloc_size_wraps_witness:
  "\<exists>a m' k. rt_smem_alloc 0xFFFFFFFF (smem_setup 256) = Some (Some a, m') \<and> allocs m' a = Some k \<and> k < 48"
  using smem_alloc_size_wraps[OF setup_256_inv, of "0xFFFFFFFF" 0] setup_256 by simp

end
