(* ===== verification/SysHeap.thy ===== *)
theory SysHeap
  imports SmallMem Mutex
begin

text \<open>
  The system heap (\<open>rt-thread/src/kservice.c\<close>): the allocation services of the kernel. They run the
  small memory allocator under a mutex, so a call can block before it touches the
  heap; it is split there. \<open>rt_malloc\<close> answers the offset of a block in the heap,
  as \<open>SmallMem\<close> does; the aligned services compute with addresses, which are the base of the heap
  plus an offset.
\<close>

section \<open>Data\<close>

record heap_sys =
  kern :: kstate
  smem :: rt_small_mem
  heap_base :: u32

text \<open>A call answers, waits for the lock, or does not return.\<close>

datatype 'a answer = Done 'a | Waiting | Stuck

definition heap_mutex :: oid where "heap_mutex = 0"
definition heap_object :: oid where "heap_object = 0"

text \<open>Writing bytes of the heap, from an offset on.\<close>

definition put_bytes :: "nat \<Rightarrow> byte list \<Rightarrow> rt_small_mem \<Rightarrow> rt_small_mem" where
  "put_bytes a bs m = m\<lparr> heap_bytes := (\<lambda>q. if a \<le> q \<and> q < a + length bs then Some (bs ! (q - a)) else heap_bytes m q) \<rparr>"

section \<open>The lock\<close>

text \<open>The name is \<open>"heap"\<close>.\<close>

definition heap_lock_init :: "kstate \<Rightarrow> kstate" where
  "heap_lock_init k = snd (rt_mutex_init heap_mutex [104, 101, 97, 112] RT_IPC_FLAG_PRIO k)"

definition heap_lock :: "kstate \<Rightarrow> ret \<times> kstate" where
  "heap_lock k = (if rt_thread_self k \<noteq> None then rt_mutex_take heap_mutex (- 1) k else (Ret RT_EOK, k))"

definition heap_unlock :: "kstate \<Rightarrow> kstate" where
  "heap_unlock k = (if rt_thread_self k \<noteq> None then snd (rt_mutex_release heap_mutex k) else k)"

text \<open>The code between lock and unlock, and the whole section. The thread can lose the processor in the call that takes the lock; the
  section then goes on when the thread runs again.\<close>

definition locked :: "(rt_small_mem \<Rightarrow> ('a \<times> rt_small_mem) option) \<Rightarrow> heap_sys \<Rightarrow> 'a answer \<times> heap_sys" where
  "locked f h = (case f (smem h) of None \<Rightarrow> (Stuck, h)
     | Some (r, m) \<Rightarrow> (Done r, h\<lparr> smem := m, kern := heap_unlock (kern h) \<rparr>))"

definition after_lock :: "(rt_small_mem \<Rightarrow> ('a \<times> rt_small_mem) option) \<Rightarrow> tid option \<Rightarrow> ret \<times> kstate \<Rightarrow> heap_sys \<Rightarrow> 'a answer \<times> heap_sys" where
  "after_lock f t r h =
    (case r of
       (Ret _, k) \<Rightarrow> if rt_thread_self k = t then locked f (h\<lparr> kern := k \<rparr>) else (Waiting, h\<lparr> kern := k \<rparr>)
     | (Blocked, k) \<Rightarrow> (Waiting, h\<lparr> kern := k \<rparr>)
     | (Fault, k) \<Rightarrow> (Stuck, h\<lparr> kern := k \<rparr>))"

definition heap_section :: "(rt_small_mem \<Rightarrow> ('a \<times> rt_small_mem) option) \<Rightarrow> heap_sys \<Rightarrow> 'a answer \<times> heap_sys" where
  "heap_section f h = after_lock f (rt_thread_self (kern h)) (heap_lock (kern h)) h"

text \<open>The rest of a section whose thread \<open>t\<close> had to wait for the lock.\<close>

definition heap_section_resume :: "(rt_small_mem \<Rightarrow> ('a \<times> rt_small_mem) option) \<Rightarrow> tid \<Rightarrow> heap_sys \<Rightarrow> 'a answer \<times> heap_sys" where
  "heap_section_resume f t h = after_lock f (Some t) (mutex_take_wait heap_mutex t (kern h)) h"

text \<open>What a service does with the answer of another one.\<close>

definition and_then :: "'a answer \<times> heap_sys \<Rightarrow> ('a \<Rightarrow> heap_sys \<Rightarrow> 'b answer \<times> heap_sys) \<Rightarrow> 'b answer \<times> heap_sys" where
  "and_then r f = (case r of (Done x, h) \<Rightarrow> f x h | (Waiting, h) \<Rightarrow> (Waiting, h) | (Stuck, h) \<Rightarrow> (Stuck, h))"

section \<open>Services\<close>

definition rt_system_heap_init :: "u32 \<Rightarrow> u32 \<Rightarrow> kstate \<Rightarrow> heap_sys option" where
  "rt_system_heap_init begin_addr end_addr k =
    (let begin_align = align_up begin_addr;
         end_align = align_down end_addr;
         (m, sys) = rt_smem_init (OMemory heap_object) [104, 101, 97, 112] begin_align (end_align - begin_align) (registry k)
     in map_option (\<lambda>m. \<lparr> kern = heap_lock_init (k\<lparr> registry := sys \<rparr>), smem = m,
                          heap_base = align_up (align_up begin_align + SIZEOF_SMALL_MEM) \<rparr>) m)"

definition rt_malloc :: "u32 \<Rightarrow> heap_sys \<Rightarrow> nat option answer \<times> heap_sys" where
  "rt_malloc n h = heap_section (rt_smem_alloc n) h"

definition rt_realloc :: "nat option \<Rightarrow> u32 \<Rightarrow> heap_sys \<Rightarrow> nat option answer \<times> heap_sys" where
  "rt_realloc ptr newsize h = heap_section (rt_smem_realloc ptr newsize) h"

definition calloc_fill :: "u32 \<Rightarrow> nat option \<Rightarrow> heap_sys \<Rightarrow> nat option answer \<times> heap_sys" where
  "calloc_fill n p h =
    (case p of None \<Rightarrow> (Done None, h)
     | Some a \<Rightarrow> (Done (Some a), h\<lparr> smem := put_bytes a (replicate (unat n) 0) (smem h) \<rparr>))"

definition rt_calloc :: "u32 \<Rightarrow> u32 \<Rightarrow> heap_sys \<Rightarrow> nat option answer \<times> heap_sys" where
  "rt_calloc count sz h = and_then (rt_malloc (count * sz) h) (calloc_fill (count * sz))"

definition rt_free :: "nat option \<Rightarrow> heap_sys \<Rightarrow> unit answer \<times> heap_sys" where
  "rt_free ptr h =
    (case ptr of None \<Rightarrow> (Done (), h) | Some _ \<Rightarrow> heap_section (\<lambda>m. Some ((), rt_smem_free ptr m)) h)"

definition rt_memory_info :: "heap_sys \<Rightarrow> (nat \<times> nat \<times> nat) answer \<times> heap_sys" where
  "rt_memory_info h = heap_section (\<lambda>m. Some ((mem_total m, mem_used m, mem_max m), m)) h"

section \<open>Aligned blocks\<close>

definition heap_store_word :: "u32 \<Rightarrow> u32 \<Rightarrow> heap_sys \<Rightarrow> heap_sys" where
  "heap_store_word addr v h = h\<lparr> smem := put_bytes (unat (addr - heap_base h))
     [ucast v, ucast (drop_bit 8 v), ucast (drop_bit 16 v), ucast (drop_bit 24 v)] (smem h) \<rparr>"

definition heap_load_word :: "u32 \<Rightarrow> heap_sys \<Rightarrow> u32 option" where
  "heap_load_word addr h =
    (let a = unat (addr - heap_base h)
     in case (heap_bytes (smem h) a, heap_bytes (smem h) (a + 1), heap_bytes (smem h) (a + 2), heap_bytes (smem h) (a + 3)) of
          (Some b0, Some b1, Some b2, Some b3) \<Rightarrow>
            Some (ucast b0 OR push_bit 8 (ucast b1) OR push_bit 16 (ucast b2) OR push_bit 24 (ucast b3))
        | _ \<Rightarrow> None)"

text \<open>The address inside the block, for an alignment that is a multiple of four.\<close>

definition align_ptr :: "u32 \<Rightarrow> u32 \<Rightarrow> u32" where
  "align_ptr ptr align =
    (if ptr AND (align - 1) = 0 then ptr + align else (ptr + (align - 1)) AND NOT (align - 1))"

definition round4 :: "u32 \<Rightarrow> u32" where
  "round4 n = (n + 3) AND NOT 3"

definition malloc_align_fill :: "u32 \<Rightarrow> nat option \<Rightarrow> heap_sys \<Rightarrow> u32 answer \<times> heap_sys" where
  "malloc_align_fill align p h =
    (case p of None \<Rightarrow> (Done 0, h)
     | Some a \<Rightarrow>
        let ptr = heap_base h + of_nat a;
            aligned = align_ptr ptr align
        in (Done aligned, heap_store_word (aligned - 4) ptr h))"

definition rt_malloc_align :: "u32 \<Rightarrow> u32 \<Rightarrow> heap_sys \<Rightarrow> u32 answer \<times> heap_sys" where
  "rt_malloc_align n align h =
    (let align = round4 align;
         align_size = round4 n + align
     in and_then (rt_malloc align_size h) (malloc_align_fill align))"

definition rt_free_align :: "u32 \<Rightarrow> heap_sys \<Rightarrow> unit answer \<times> heap_sys" where
  "rt_free_align ptr h =
    (if ptr = 0 then (Done (), h)
     else case heap_load_word (ptr - 4) h of None \<Rightarrow> (Stuck, h)
          | Some real_ptr \<Rightarrow> rt_free (if real_ptr = 0 then None else Some (unat (real_ptr - heap_base h))) h)"

section \<open>The contract of an allocator\<close>

text \<open>What the services above rely on: the blocks that are allocated, with their bytes.\<close>

locale allocator =
  fixes alloc :: "u32 \<Rightarrow> 'h \<Rightarrow> (nat option \<times> 'h) option"
    and free :: "nat option \<Rightarrow> 'h \<Rightarrow> 'h"
    and put :: "nat \<Rightarrow> byte list \<Rightarrow> 'h \<Rightarrow> 'h"
    and invar :: "'h \<Rightarrow> bool"
    and blocks :: "'h \<Rightarrow> nat \<Rightarrow> byte option list option"
  assumes alloc_total: "invar h \<Longrightarrow> \<exists>r h'. alloc n h = Some (r, h')"
    and alloc_null: "invar h \<Longrightarrow> alloc n h = Some (None, h') \<Longrightarrow> h' = h"
    and alloc_block: "invar h \<Longrightarrow> alloc n h = Some (Some a, h') \<Longrightarrow>
      invar h' \<and> blocks h a = None \<and> 8 dvd a \<and> 16 \<le> a \<and> (\<exists>xs. blocks h' = (blocks h)(a \<mapsto> xs) \<and> unat (align_up n) \<le> length xs)"
    and free_block: "invar h \<Longrightarrow> blocks h a = Some xs \<Longrightarrow> invar (free (Some a) h) \<and> blocks (free (Some a) h) = (blocks h)(a := None)"
    and put_block: "invar h \<Longrightarrow> blocks h a = Some xs \<Longrightarrow> i + length bs \<le> length xs \<Longrightarrow>
      invar (put (a + i) bs h) \<and> blocks (put (a + i) bs h) = (blocks h)(a \<mapsto> blit xs i (map Some bs))"
begin

lemma alloc_put:
  assumes "invar h" and "alloc n h = Some (Some a, h')" and "i + length bs \<le> unat (align_up n)"
  obtains xs where "invar (put (a + i) bs h')" and "blocks (put (a + i) bs h') = (blocks h)(a \<mapsto> blit xs i (map Some bs))"
    and "unat (align_up n) \<le> length xs" and "blocks h a = None" and "8 dvd a" and "16 \<le> a"
proof -
  obtain xs where x: "invar h'" "blocks h a = None" "8 dvd a" "16 \<le> a" "blocks h' = (blocks h)(a \<mapsto> xs)" "unat (align_up n) \<le> length xs"
    using alloc_block[OF assms(1,2)] by blast
  have "blocks h' a = Some xs" "i + length bs \<le> length xs" using x(5,6) assms(3) by auto
  from put_block[OF x(1) this] show thesis using that x by simp
qed

text \<open>A block that was written to inside its bounds and then freed leaves no trace.\<close>

lemma alloc_put_free:
  assumes "invar h" and "alloc n h = Some (Some a, h')" and "i + length bs \<le> unat (align_up n)"
  shows "invar (free (Some a) (put (a + i) bs h'))" and "blocks (free (Some a) (put (a + i) bs h')) = blocks h"
proof -
  obtain xs where x: "invar (put (a + i) bs h')" "blocks (put (a + i) bs h') = (blocks h)(a \<mapsto> blit xs i (map Some bs))"
    "blocks h a = None" by (rule alloc_put[OF assms])
  have "blocks (put (a + i) bs h') a = Some (blit xs i (map Some bs))" using x(2) by simp
  from free_block[OF x(1) this] show "invar (free (Some a) (put (a + i) bs h'))"
    "blocks (free (Some a) (put (a + i) bs h')) = blocks h" using x(2,3) by (auto simp: fun_upd_idem)
qed

end

lemma put_bytes_fields [simp]:
  "items (put_bytes a bs m) = items m" "mem_size_aligned (put_bytes a bs m) = mem_size_aligned m"
  "heap_end (put_bytes a bs m) = heap_end m" "allocs (put_bytes a bs m) = allocs m"
  by (simp_all add: put_bytes_def fun_eq_iff allocs_def item_list_def MEM_ISUSED_def)

lemma contents_put:
  assumes m: "smem_inv m" and a: "contents m a = Some xs" and l: "i + length bs \<le> length xs"
  shows "smem_inv (put_bytes (a + i) bs m)" and "contents (put_bytes (a + i) bs m) = (contents m)(a \<mapsto> blit xs i (map Some bs))"
proof -
  show "smem_inv (put_bytes (a + i) bs m)" using store_inv[OF m] by (simp add: put_bytes_def)
  obtain k where k: "allocs m a = Some k" "xs = map (heap_bytes m) [a ..< a + k]" using a by (auto simp: contents_def)
  have r: "smem_rep m (item_list m)" using m by (simp add: smem_inv_list)
  have "map (heap_bytes (put_bytes (a + i) bs m)) [b ..< b + n] = map (heap_bytes m) [b ..< b + n]" if "b \<noteq> a" "allocs m b = Some n" for b n
    using blocks_apart[OF r k(1) that(2)] that(1) l k(2) by (auto simp: put_bytes_def)
  moreover have "map (heap_bytes (put_bytes (a + i) bs m)) [a ..< a + k] = blit xs i (map Some bs)"
    using l k(2) by (intro nth_equalityI) (auto simp: put_bytes_def nth_blit)
  ultimately show "contents (put_bytes (a + i) bs m) = (contents m)(a \<mapsto> blit xs i (map Some bs))"
    using k(1) by (intro ext) (auto simp: contents_def intro!: option.map_cong0 option.map_cong)
qed

interpretation smem: allocator rt_smem_alloc rt_smem_free put_bytes smem_inv contents
proof
  fix h h' :: rt_small_mem and n :: u32 and a :: nat and xs :: "byte option list" and i :: nat and bs :: "byte list"
  assume h: "smem_inv h"
  note f = smem_alloc_facts[OF h, of n]
  show "\<exists>r h'. rt_smem_alloc n h = Some (r, h')" using f by blast
  show "h' = h" if "rt_smem_alloc n h = Some (None, h')" using f that by auto
  show "smem_inv h' \<and> contents h a = None \<and> 8 dvd a \<and> 16 \<le> a \<and>
      (\<exists>xs. contents h' = (contents h)(a \<mapsto> xs) \<and> unat (align_up n) \<le> length xs)"
    if al: "rt_smem_alloc n h = Some (Some a, h')"
  proof -
    obtain k where k: "smem_inv h'" "contents h a = None" "8 dvd a" "allocs h' a = Some k" "alloc_size n \<le> k"
      "\<forall>b. b \<noteq> a \<longrightarrow> contents h' b = contents h b" using f al by auto
    have "16 \<le> a" by (rule smem_free_facts(6)[OF _ k(4)]) (use k(1) in \<open>simp add: smem_inv_list\<close>)
    moreover have "contents h' = (contents h)(a \<mapsto> map (heap_bytes h') [a ..< a + k])"
      using k(4,6) by (auto simp: fun_eq_iff contents_def)
    ultimately show ?thesis using k(1-3,5) by (auto simp: alloc_size_def)
  qed
  show "smem_inv (rt_smem_free (Some a) h) \<and> contents (rt_smem_free (Some a) h) = (contents h)(a := None)" if c: "contents h a = Some xs"
  proof -
    obtain k where k: "allocs h a = Some k" using c by (auto simp: contents_def)
    have "smem_rep h (item_list h)" using h by (simp add: smem_inv_list)
    from smem_free_facts(1,2)[OF this k] show ?thesis by simp
  qed
  show "smem_inv (put_bytes (a + i) bs h) \<and> contents (put_bytes (a + i) bs h) = (contents h)(a \<mapsto> blit xs i (map Some bs))"
    if "contents h a = Some xs" "i + length bs \<le> length xs" using contents_put[OF h that] by simp
qed

section \<open>Uncontended calls\<close>

text \<open>The running thread \<open>t\<close> cannot be preempted: no ready thread beats it and it has not yielded.\<close>

definition top :: "kstate \<Rightarrow> tid \<Rightarrow> bool" where
  "top s t \<longleftrightarrow> rt_current_thread s = Some t \<and> thread_state s t = RT_THREAD_RUNNING \<and> stat (thread_of s t) AND RT_THREAD_STAT_YIELD = 0 \<and>
    (\<forall>u. thread_state s u = RT_THREAD_READY \<longrightarrow> prio_index s t \<le> prio_index s u)"

lemma schedule_keeps_top:
  assumes i: "sched_inv s" and t: "top s t"
  shows "rt_current_thread (rt_schedule s) = Some t" and "thread_state (rt_schedule s) = thread_state s"
proof -
  have c: "rt_current_thread s = Some t" "thread_state s t = RT_THREAD_RUNNING" using t by (simp_all add: top_def)
  have q: "queue_inv s" using i by (simp add: sched_inv_def)
  have "rt_schedule s = s \<or> rt_schedule s = stay t s"
  proof (cases "rt_scheduler_lock_nest s \<noteq> 0 \<or> rt_thread_ready_priority_group s = 0")
    case False
    then have l: "rt_scheduler_lock_nest s = 0" and g: "rt_thread_ready_priority_group s \<noteq> 0" by auto
    obtain h p where h: "scheduler_get_highest_priority_thread s = (h, p)" by fastforce
    note ht = highest_thread[OF q g h]
    have "keeps_cpu s t p" using t ht(2,3) by (auto simp: keeps_cpu_def top_def order_le_less)
    then show ?thesis using rt_schedule_cases(2)[OF i c(1) l g h] by simp
  qed (use rt_schedule_idle in auto)
  then show "rt_current_thread (rt_schedule s) = Some t" "thread_state (rt_schedule s) = thread_state s"
    using c(1) stay_current[of t s] stay_inv(3)[OF i c] by auto
qed

text \<open>The lock is free for the caller: it is the running thread, or the scheduler has not been started.\<close>

definition lock_free :: "kstate \<Rightarrow> bool" where
  "lock_free k \<longleftrightarrow> (case rt_thread_self k of None \<Rightarrow> True
     | Some t \<Rightarrow> kernel_inv k \<and> mutex_inv k \<and> top k t \<and> mutex_owner (mutex_of k heap_mutex) = None \<and>
         ceiling_priority (mutex_of k heap_mutex) = 0xFF)"

text \<open>What a section leaves: the kernel in order and the lock free.\<close>

definition lock_returned :: "kstate \<Rightarrow> kstate \<Rightarrow> bool" where
  "lock_returned k k' \<longleftrightarrow> (if rt_thread_self k = None then k' = k
     else kernel_inv k' \<and> mutex_inv k' \<and> mutex_owner (mutex_of k' heap_mutex) = None)"

lemma heap_lock_free:
  assumes lf: "lock_free k" and t: "rt_thread_self k = Some t"
  obtains k' where "heap_lock k = (Ret RT_EOK, k')" and "kernel_inv k'" and "mutex_inv k'" and "rt_thread_self k' = Some t"
    and "thread_state k' t = RT_THREAD_RUNNING" and "mutex_owner (mutex_of k' heap_mutex) = Some t"
    and "mutex_hold (mutex_of k' heap_mutex) = 1" and "thread_lists k' (MutexQ heap_mutex) = []"
proof -
  have a: "kernel_inv k" "mutex_inv k" "top k t" "mutex_owner (mutex_of k heap_mutex) = None"
    "ceiling_priority (mutex_of k heap_mutex) = 0xFF" using lf t by (simp_all add: lock_free_def)
  have c: "rt_current_thread k = Some t" "thread_state k t = RT_THREAD_RUNNING" using a(3) by (simp_all add: top_def)
  obtain k' where k': "mutex_take heap_mutex (- 1) RT_UNINTERRUPTIBLE k = (Ret RT_EOK, k')" "kernel_inv k'" "mutex_inv k'"
    "mutex_of k' = (mutex_of k)(heap_mutex := (mutex_of k heap_mutex)\<lparr> mutex_owner := Some t, mutex_priority := 0xff, mutex_hold := 1 \<rparr>)"
    by (rule mutex_take_free[OF a(1,2) c a(4)])
  define x where "x = insert_taken t heap_mutex (upd_mutex heap_mutex
    (\<lambda>x. x\<lparr> mutex_owner := Some t, mutex_priority := 0xff, mutex_hold := 1 \<rparr>) (take_prologue t k))"
  have e: "k' = rt_spin_unlock x"
    using k'(1) c(1) a(4,5) by (simp add: mutex_take_def rt_thread_self_def Let_def x_def take_prologue_def upd_mutex_def)
  have kx: "kernel_inv x" unfolding x_def insert_taken_def
    by (rule neutral_kernel_inv) (use take_prologue_spec(1)[OF a(1), of t] in \<open>simp_all add: sched_neutral_def\<close>)
  define y where "y = x\<lparr> rt_scheduler_lock_nest := 0 \<rparr>"
  have iy: "sched_inv y" using kx by (subst sched_inv_cong[of _ x]) (simp_all add: y_def kernel_inv_def)
  have st: "thread_state x = thread_state k" "thread_state y = thread_state k"
    by (simp_all add: fun_eq_iff thread_state_def y_def x_def insert_taken_def take_prologue_def)
  have "top y t" using a(3) unfolding top_def st by (auto simp: y_def x_def insert_taken_def take_prologue_def)
  note sk = schedule_keeps_top[OF iy this]
  have cx: "rt_current_thread x = Some t" using c(1) by (simp add: x_def insert_taken_def take_prologue_def)
  have "rt_current_thread k' = Some t \<and> thread_state k' t = RT_THREAD_RUNNING"
  proof -
    have "k' = rt_schedule y \<or> (\<exists>n. k' = x\<lparr> rt_scheduler_lock_nest := n \<rparr>)"
      using cx by (auto simp: e rt_spin_unlock_def rt_exit_critical_def Let_def y_def)
    then show ?thesis
    proof
      assume "\<exists>n. k' = x\<lparr> rt_scheduler_lock_nest := n \<rparr>"
      then show ?thesis using cx st(1)[THEN fun_cong, of t] c(2) by (auto simp: thread_state_def)
    qed (use sk st c(2) in simp)
  qed
  moreover have "thread_lists k' (MutexQ heap_mutex) = []"
  proof -
    have "\<forall>w \<in> set (thread_lists k (MutexQ heap_mutex)). mutex_owner (mutex_of k heap_mutex) \<noteq> None"
      using a(2) unfolding mutex_inv_def owner_ok_def by blast
    then have "thread_lists k (MutexQ heap_mutex) = []" using a(4) by (cases "thread_lists k (MutexQ heap_mutex)") auto
    then show ?thesis using unlock_keeps(7)[OF kx] by (simp add: e) (simp add: x_def insert_taken_def take_prologue_def)
  qed
  ultimately show thesis
    using that[of k'] k' c(1) by (simp add: heap_lock_def rt_mutex_take_def rt_thread_self_def)
qed

lemma heap_section_free:
  assumes lf: "lock_free (kern h)" and f: "f (smem h) = Some (r, m)"
  obtains k where "heap_section f h = (Done r, h\<lparr> smem := m, kern := k \<rparr>)" and "lock_returned (kern h) k"
proof (cases "rt_thread_self (kern h)")
  case None
  then show thesis
    using that[of "kern h"] f by (simp add: heap_section_def after_lock_def heap_lock_def locked_def heap_unlock_def lock_returned_def)
next
  case (Some t)
  obtain k' where k': "heap_lock (kern h) = (Ret RT_EOK, k')" "kernel_inv k'" "mutex_inv k'" "rt_thread_self k' = Some t"
    "thread_state k' t = RT_THREAD_RUNNING" "mutex_owner (mutex_of k' heap_mutex) = Some t"
    "mutex_hold (mutex_of k' heap_mutex) = 1" "thread_lists k' (MutexQ heap_mutex) = []"
    by (rule heap_lock_free[OF lf Some])
  have ns: "\<not> suspended k' t" using k'(5) by (simp add: suspended_def stat_defs)
  obtain x k where k: "rt_mutex_release heap_mutex k' = (x, k)" "kernel_inv k" "handed_over heap_mutex t (released_prio heap_mutex t k') k' k"
    by (rule mutex_release_last[OF k'(2,3) _ ns k'(6,7)]) (use k'(4) in \<open>simp add: rt_thread_self_def\<close>)
  have "mutex_owner (mutex_of k heap_mutex) = None" using handed_overD(1)[OF k(3), of heap_mutex] k'(8) by (simp add: next_owner_def)
  moreover have "mutex_inv k" by (rule handed_over_inv[OF k'(2,3) ns released_prio_bound[OF k'(3)] k(3)])
  ultimately have "lock_returned (kern h) k" using Some k(2) by (simp add: lock_returned_def)
  moreover have "heap_section f h = (Done r, h\<lparr> smem := m, kern := k \<rparr>)"
    using k'(1,4) k(1) f Some by (simp add: heap_section_def after_lock_def locked_def heap_unlock_def)
  ultimately show thesis using that by blast
qed

section \<open>Properties\<close>

text \<open>Thread \<open>w\<close> owns the lock, and the caller \<open>t\<close> can wait for it.\<close>

definition lock_busy :: "kstate \<Rightarrow> tid \<Rightarrow> tid \<Rightarrow> bool" where
  "lock_busy k t w \<longleftrightarrow> kernel_inv k \<and> mutex_inv k \<and> may_block k t \<and> pending_object (thread_of k t) = None \<and>
    mutex_owner (mutex_of k heap_mutex) = Some w \<and> w \<noteq> t \<and> rt_object_get_type (OMutex heap_mutex) (registry k) = RT_Object_Class_Mutex \<and>
    mutex_flag (mutex_of k heap_mutex) = RT_IPC_FLAG_PRIO \<and> chain_ends ((waits_for k)(t := Some w)) t"

lemma heap_section_waits:
  assumes "lock_busy (kern h) t w"
  obtains k' where "heap_section f h = (Waiting, h\<lparr> kern := k' \<rparr>)" and "kernel_inv k'" and "mutex_inv k'" and "suspended k' t"
    and "t \<in> set (thread_lists k' (MutexQ heap_mutex))" and "mutex_owner (mutex_of k' heap_mutex) = Some w"
proof -
  let ?k = "kern h"
  have b: "kernel_inv ?k" "mutex_inv ?k" "may_block ?k t" "pending_object (thread_of ?k t) = None"
    "mutex_owner (mutex_of ?k heap_mutex) = Some w" "w \<noteq> t" "rt_object_get_type (OMutex heap_mutex) (registry ?k) = RT_Object_Class_Mutex"
    "mutex_flag (mutex_of ?k heap_mutex) = RT_IPC_FLAG_PRIO" "chain_ends ((waits_for ?k)(t := Some w)) t"
    using assms by (simp_all add: lock_busy_def)
  obtain k' where k': "mutex_take heap_mutex (- 1) RT_UNINTERRUPTIBLE ?k = (Blocked, k')" "kernel_inv k'" "mutex_inv k'" "suspended k' t"
    "t \<in> set (thread_lists k' (MutexQ heap_mutex))" "\<And>i. mutex_owner (mutex_of k' i) = mutex_owner (mutex_of ?k i)"
    by (rule mutex_take_blocks[OF b(1-8) _ b(9), of "- 1" RT_UNINTERRUPTIBLE]) auto
  have "rt_thread_self ?k = Some t" using b(3) by (simp add: may_block_def rt_thread_self_def)
  then have "heap_section f h = (Waiting, h\<lparr> kern := k' \<rparr>)"
    using k'(1) by (simp add: heap_section_def after_lock_def heap_lock_def rt_mutex_take_def)
  then show thesis using that k'(2-6) b(5) by simp
qed

text \<open>\<open>rt_malloc\<close> works under the heap lock. With the lock free it ends, does to the heap what the allocator does, and leaves the lock
  free and the kernel invariants as they were; while another thread owns the lock it waits in the queue of the
  lock and does not touch the heap.\<close>

theorem malloc_under_lock:
  assumes "smem_inv (smem h)"
  shows "(lock_free (kern h) \<longrightarrow> (\<exists>r h'. rt_malloc n h = (Done r, h') \<and> rt_smem_alloc n (smem h) = Some (r, smem h') \<and>
      smem_inv (smem h') \<and> lock_returned (kern h) (kern h'))) \<and>
    (lock_busy (kern h) t w \<longrightarrow> (\<exists>h'. rt_malloc n h = (Waiting, h') \<and> smem h' = smem h \<and>
      t \<in> set (thread_lists (kern h') (MutexQ heap_mutex)) \<and> suspended (kern h') t \<and> kernel_inv (kern h') \<and> mutex_inv (kern h')))"
proof (intro conjI impI)
  assume lf: "lock_free (kern h)"
  obtain r m' where a: "rt_smem_alloc n (smem h) = Some (r, m')" using smem.alloc_total[OF assms] by blast
  obtain k where k: "heap_section (rt_smem_alloc n) h = (Done r, h\<lparr> smem := m', kern := k \<rparr>)" "lock_returned (kern h) k"
    by (rule heap_section_free[where f = "rt_smem_alloc n", OF lf a])
  show "\<exists>r h'. rt_malloc n h = (Done r, h') \<and> rt_smem_alloc n (smem h) = Some (r, smem h') \<and>
      smem_inv (smem h') \<and> lock_returned (kern h) (kern h')"
    using k a alloc_inv[OF assms a] by (simp add: rt_malloc_def)
next
  assume "lock_busy (kern h) t w"
  then obtain k' where "heap_section (rt_smem_alloc n) h = (Waiting, h\<lparr> kern := k' \<rparr>)" "kernel_inv k'" "mutex_inv k'"
    "suspended k' t" "t \<in> set (thread_lists k' (MutexQ heap_mutex))"
    by (rule heap_section_waits[where f = "rt_smem_alloc n"])
  then show "\<exists>h'. rt_malloc n h = (Waiting, h') \<and> smem h' = smem h \<and>
      t \<in> set (thread_lists (kern h') (MutexQ heap_mutex)) \<and> suspended (kern h') t \<and> kernel_inv (kern h') \<and> mutex_inv (kern h')"
    by (simp add: rt_malloc_def)
qed

text \<open>\<open>rt_calloc\<close> clears exactly the bytes it asked for, which is the product of its arguments modulo $2^{32}$: with the lock free
  it ends; it answers null and changes nothing, or the address of a new block that starts with that many
  zero bytes, and no other block changes. When the product of the arguments does not fit 32 bits, the block is
  shorter than what the caller asked for.\<close>

theorem calloc_zeroes_wrapped_size:
  fixes count sz :: u32
  assumes m: "smem_inv (smem h)" and lf: "lock_free (kern h)" and w: "unat (count * sz) + 7 < 2 ^ 32"
  shows "\<exists>r h'. rt_calloc count sz h = (Done r, h') \<and> smem_inv (smem h') \<and> lock_returned (kern h) (kern h') \<and>
    (case r of None \<Rightarrow> smem h' = smem h
     | Some a \<Rightarrow> contents (smem h) a = None \<and> (\<exists>xs. contents (smem h') = (contents (smem h))(a \<mapsto> xs) \<and>
         take (unat (count * sz)) xs = replicate (unat (count * sz)) (Some 0) \<and> unat (count * sz) \<le> length xs \<and>
         (2 ^ 32 \<le> unat count * unat sz \<longrightarrow> length xs < unat count * unat sz)))"
proof -
  define n where "n = count * sz"
  obtain r m' where a: "rt_smem_alloc n (smem h) = Some (r, m')" using smem.alloc_total[OF m] by blast
  obtain k where k: "rt_malloc n h = (Done r, h\<lparr> smem := m', kern := k \<rparr>)" "lock_returned (kern h) k"
    using heap_section_free[where f = "rt_smem_alloc n", OF lf a] by (auto simp: rt_malloc_def)
  show ?thesis
  proof (cases r)
    case None
    then have "m' = smem h" using smem.alloc_null[OF m, of n m'] a by simp
    then show ?thesis using k None m by (simp add: rt_calloc_def n_def and_then_def calloc_fill_def)
  next
    case (Some b)
    have al: "unat n \<le> unat (align_up n)" using w by (simp add: unat_align_up n_def)
    let ?z = "replicate (unat n) (0 :: byte)"
    obtain xs where x: "smem_inv (put_bytes (b + 0) ?z m')" "contents (put_bytes (b + 0) ?z m') = (contents (smem h))(b \<mapsto> blit xs 0 (map Some ?z))"
      "unat (align_up n) \<le> length xs" "contents (smem h) b = None"
      by (rule smem.alloc_put[OF m, of n b m' 0 ?z]) (use a Some al in auto)
    obtain j where j: "allocs m' b = Some j" "j < alloc_size n + 32" using smem_alloc_facts[OF m, of n] a Some by auto
    have "length (blit xs 0 (map Some ?z)) = j"
    proof -
      have "map (heap_bytes (put_bytes b ?z m')) [b ..< b + j] = blit xs 0 (map Some ?z)"
        using j(1) fun_cong[OF x(2), of b] by (simp add: contents_def)
      from arg_cong[OF this, of length] show ?thesis by simp
    qed
    moreover have "unat n + 2 ^ 32 \<le> unat count * unat sz" if "2 ^ 32 \<le> unat count * unat sz"
    proof -
      have "unat n = unat count * unat sz mod 2 ^ 32" by (simp add: n_def unat_word_ariths)
      then show ?thesis using that le_mod_geq[OF that] mod_less_eq_dividend[of "unat count * unat sz - 2 ^ 32" "2 ^ 32"] by linarith
    qed
    ultimately have "2 ^ 32 \<le> unat count * unat sz \<longrightarrow> length (blit xs 0 (map Some ?z)) < unat count * unat sz"
      using j(2) w by (auto simp: n_def alloc_size_def unat_align_up)
    moreover have "rt_calloc count sz h = (Done (Some b), h\<lparr> smem := put_bytes b ?z m', kern := k \<rparr>)"
      using k(1) Some by (simp add: rt_calloc_def n_def and_then_def calloc_fill_def)
    moreover have "take (unat n) (blit xs 0 (map Some ?z)) = replicate (unat n) (Some 0)" "unat n \<le> length (blit xs 0 (map Some ?z))"
      using x(3) al by (simp_all add: blit_def)
    ultimately show ?thesis using x(1,2,4) k(2) by (auto simp: n_def)
  qed
qed

section \<open>Aligned blocks\<close>

lemma load_store_word:
  "heap_load_word addr (heap_store_word addr v h) = Some v"
proof -
  have "(ucast (ucast v :: byte) OR push_bit 8 (ucast (ucast (drop_bit 8 v) :: byte)) OR
      push_bit 16 (ucast (ucast (drop_bit 16 v) :: byte)) OR push_bit 24 (ucast (ucast (drop_bit 24 v) :: byte)) :: u32) = v"
  proof (rule bit_word_eqI)
    fix i assume "i < LENGTH(32)"
    then consider "i < 8" | "8 \<le> i" "i < 16" | "16 \<le> i" "i < 24" | "24 \<le> i" "i < 32" by fastforce
    then show "bit (ucast (ucast v :: byte) OR push_bit 8 (ucast (ucast (drop_bit 8 v) :: byte)) OR
      push_bit 16 (ucast (ucast (drop_bit 16 v) :: byte)) OR push_bit 24 (ucast (ucast (drop_bit 24 v) :: byte)) :: u32) i = bit v i"
      by cases (auto simp: bit_simps)
  qed
  then show ?thesis by (simp add: heap_load_word_def heap_store_word_def put_bytes_def Let_def numeral_2_eq_2 numeral_3_eq_3)
qed

lemma align_ptr_range:
  fixes ptr :: u32
  assumes j: "2 \<le> j" "j < 32" and p: "8 dvd unat ptr" and w: "unat ptr + 2 ^ j < 2 ^ 32"
  defines "q \<equiv> align_ptr ptr (2 ^ j)"
  shows "2 ^ j dvd unat q" and "unat ptr + 4 \<le> unat q" and "unat q \<le> unat ptr + 2 ^ j"
proof -
  let ?A = "2 ^ j :: nat"
  have "(2 :: nat) ^ j < 2 ^ 32" using j(2) by (rule power_strict_increasing) simp
  then have "unat (of_nat ?A :: u32) = ?A" unfolding unat_of_nat by (simp add: take_bit_nat_eq_self)
  then have uA: "unat (2 ^ j :: u32) = ?A" by simp
  have one: "unat (2 ^ j - 1 :: u32) = ?A - 1" using uA unat_minus_one[of "2 ^ j :: u32"] by (metis unat_0 power_not_zero zero_neq_numeral)
  have add: "unat (ptr + x) = unat ptr + unat x" if "unat x \<le> ?A" for x
    using that w by (simp add: unat_word_ariths)
  have mask: "unat (ptr AND (2 ^ j - 1)) = unat ptr mod ?A"
    by (simp add: mask_eq_exp_minus_1[symmetric] take_bit_eq_mask[symmetric] unsigned_take_bit_eq take_bit_eq_mod unat_mod uA)
  have all: "?A dvd unat q \<and> unat ptr + 4 \<le> unat q \<and> unat q \<le> unat ptr + ?A"
  proof (cases "?A dvd unat ptr")
    case True
    then have "ptr AND (2 ^ j - 1) = 0" using mask by (metis dvd_imp_mod_0 unat_0_iff)
    then have "unat q = unat ptr + ?A" using add[of "2 ^ j"] uA by (simp add: q_def align_ptr_def)
    moreover have "4 \<le> ?A" using power_increasing[OF j(1), of "2 :: nat"] by simp
    ultimately show ?thesis using True by simp
  next
    case False
    then have "ptr AND (2 ^ j - 1) \<noteq> 0" using mask by (metis mod_0_imp_dvd unat_0)
    then have "unat q = ?A * ((unat ptr + (?A - 1)) div ?A)"
      using unat_clear_low[OF j(2), of "ptr + (2 ^ j - 1)"] add[of "2 ^ j - 1"] one by (simp add: q_def align_ptr_def)
    moreover have A8: "8 dvd ?A"
    proof -
      have "3 < j" using False p j(1) by (cases "j \<le> 3") (use le_imp_power_dvd[of j 3 "2 :: nat"] dvd_trans in auto)
      then show ?thesis using le_imp_power_dvd[of 3 j "2 :: nat"] by simp
    qed
    moreover have "(unat ptr + (?A - 1)) div ?A = Suc (unat ptr div ?A)"
    proof -
      have r: "0 < unat ptr mod ?A" "unat ptr mod ?A < ?A" using False by (auto simp: dvd_eq_mod_eq_0)
      have "unat ptr + (?A - 1) = (unat ptr mod ?A - 1) + ?A * Suc (unat ptr div ?A)"
        using r mult_div_mod_eq[of ?A "unat ptr"] by simp
      then show ?thesis using r(2) div_mult_self2[of ?A "unat ptr mod ?A - 1" "Suc (unat ptr div ?A)"] by (simp add: less_imp_diff_less)
    qed
    moreover have "unat ptr = ?A * (unat ptr div ?A) + unat ptr mod ?A" by simp
    moreover have "unat ptr mod ?A + 8 \<le> ?A"
    proof -
      have "8 dvd ?A - unat ptr mod ?A" using A8 p by (intro dvd_diff_nat) (simp_all add: dvd_mod)
      moreover have "unat ptr mod ?A < ?A" by simp
      ultimately show ?thesis using dvd_imp_le[of 8 "?A - unat ptr mod ?A"] by linarith
    qed
    ultimately have "unat q = ?A * (unat ptr div ?A) + ?A" "unat ptr = ?A * (unat ptr div ?A) + unat ptr mod ?A"
      "unat ptr mod ?A + 8 \<le> ?A" by (simp_all add: algebra_simps)
    moreover from this(1) have "?A dvd unat q" by simp
    ultimately show ?thesis by linarith
  qed
  then show "2 ^ j dvd unat q" "unat ptr + 4 \<le> unat q" "unat q \<le> unat ptr + 2 ^ j" by simp_all
qed

lemma unat_round4: "unat n + 3 < 2 ^ 32 \<Longrightarrow> unat (round4 n) = 4 * ((unat n + 3) div 4)"
  using unat_clear_low[of 2 "n + 3"] by (simp add: round4_def unat_word_ariths)

text \<open>The parameters of an aligned allocation that fit the address space.\<close>

definition align_args :: "u32 \<Rightarrow> u32 \<Rightarrow> nat \<Rightarrow> bool" where
  "align_args n align j \<longleftrightarrow> round4 align = 2 ^ j \<and> 2 \<le> j \<and> j < 32 \<and> unat n + 2 ^ j + 10 < 2 ^ 32"

definition heap_placed :: "heap_sys \<Rightarrow> bool" where
  "heap_placed h \<longleftrightarrow> 8 dvd unat (heap_base h) \<and> unat (heap_base h) + heap_end (smem h) < 2 ^ 32"

lemma align_args_size:
  assumes "align_args n align j"
  defines "w \<equiv> round4 n + round4 align"
  shows "unat w = 4 * ((unat n + 3) div 4) + 2 ^ j" and "unat n + 2 ^ j \<le> unat w" and "unat w \<le> unat (align_up w)"
proof -
  have a: "round4 align = 2 ^ j" "2 \<le> j" "j < 32" "unat n + 2 ^ j + 10 < 2 ^ 32" using assms(1) by (simp_all add: align_args_def)
  have "(2 :: nat) ^ j < 2 ^ 32" using a(4) by linarith
  then have "unat (of_nat (2 ^ j) :: u32) = 2 ^ j" unfolding unat_of_nat by (simp add: take_bit_nat_eq_self)
  then have u: "unat (2 ^ j :: u32) = 2 ^ j" by simp
  have r: "unat (round4 n) = 4 * ((unat n + 3) div 4)" using a(4) by (intro unat_round4) linarith
  have b: "unat n \<le> 4 * ((unat n + 3) div 4)" "4 * ((unat n + 3) div 4) \<le> unat n + 3" by presburger+
  show w: "unat w = 4 * ((unat n + 3) div 4) + 2 ^ j" using r u a(1,4) b(2) by (simp add: w_def unat_word_ariths)
  show "unat n + 2 ^ j \<le> unat w" using w b(1) by simp
  have "unat w + 7 < 2 ^ 32" using w b(2) a(4) by linarith
  then show "unat w \<le> unat (align_up w)" by (simp add: unat_align_up)
qed

text \<open>Where the aligned block lies in the block that was allocated for it: behind the word that holds the real address.\<close>

lemma aligned_inside:
  assumes a: "align_args n align j" and p: "heap_placed h" and b: "8 dvd a" "a + k \<le> heap_end (smem h)"
    and k: "unat (round4 n + round4 align) \<le> k"
  defines "ptr \<equiv> heap_base h + of_nat a"
  defines "q \<equiv> align_ptr ptr (round4 align)"
  obtains i where "4 \<le> i" and "i + unat n \<le> k" and "q = heap_base h + of_nat (a + i)" and "unat q = unat (heap_base h) + a + i"
    and "2 ^ j dvd unat q" and "ptr - heap_base h = of_nat a" and "unat ptr = unat (heap_base h) + a"
proof -
  have A: "round4 align = 2 ^ j" "2 \<le> j" "j < 32" using a by (simp_all add: align_args_def)
  have w: "unat n + 2 ^ j \<le> k" using align_args_size(2)[OF a] k by linarith
  have lim: "unat (heap_base h) + heap_end (smem h) < 2 ^ 32" "8 dvd unat (heap_base h)" using p by (simp_all add: heap_placed_def)
  have un: "unat (heap_base h + of_nat x) = unat (heap_base h) + x" if "x \<le> heap_end (smem h)" for x
    using that lim(1) by (simp add: unat_word_ariths unat_of_nat take_bit_nat_eq_self)
  have up: "unat ptr = unat (heap_base h) + a" using un[of a] b(2) by (simp add: ptr_def)
  have "8 dvd unat ptr" "unat ptr + 2 ^ j < 2 ^ 32" using up lim b w by auto
  note r = align_ptr_range[OF A(2,3) this, folded A(1) q_def]
  define i where "i = unat q - unat ptr"
  have i: "unat q = unat (heap_base h) + a + i" "4 \<le> i" "i \<le> 2 ^ j" using r(2,3) up A(1) by (auto simp: i_def)
  have "unat q = unat (heap_base h + of_nat (a + i))" using i un[of "a + i"] b(2) w by simp
  then have "q = heap_base h + of_nat (a + i)" by (simp only: word_unat_eq_iff)
  then show thesis using that[of i] i up r(1) w A(1) by (simp add: ptr_def)
qed

lemma put_bytes_load:
  assumes "addr = heap_base h + of_nat a" and "unat (of_nat a :: u32) = a" and "a + 4 \<le> b"
  shows "heap_load_word addr (h\<lparr> kern := k, smem := put_bytes b bs (smem h) \<rparr>) = heap_load_word addr h"
  using assms by (simp add: heap_load_word_def put_bytes_def Let_def)

text \<open>\<open>rt_malloc_align\<close> and \<open>rt_free_align\<close>. For an alignment that is, rounded up to four, a power of two, and sizes that fit the address space,
  the call with the lock free ends; it answers null and changes nothing, or an address with that alignment behind which the requested
  bytes lie inside one new block. Whatever the caller writes there, freeing the address gives back exactly
  that block.\<close>

theorem malloc_align_free_align:
  assumes m: "smem_inv (smem h)" and lf: "lock_free (kern h)" and pl: "heap_placed h" and aa: "align_args n align j"
  shows "\<exists>p h'. rt_malloc_align n align h = (Done p, h') \<and> smem_inv (smem h') \<and>
    (if p = 0 then smem h' = smem h
     else 2 ^ j dvd unat p \<and>
       (\<exists>a xs. contents (smem h) a = None \<and> contents (smem h') = (contents (smem h))(a \<mapsto> xs) \<and>
         unat (heap_base h) + a \<le> unat p \<and> unat p + unat n \<le> unat (heap_base h) + a + length xs) \<and>
       (\<forall>k i bs. lock_free k \<longrightarrow> i + length bs \<le> unat n \<longrightarrow>
         (\<exists>h''. rt_free_align p (h'\<lparr> kern := k, smem := put_bytes (unat (p - heap_base h) + i) bs (smem h') \<rparr>) = (Done (), h'') \<and>
           smem_inv (smem h'') \<and> contents (smem h'') = contents (smem h))))"
proof -
  define w where "w = round4 n + round4 align"
  obtain r m' where a: "rt_smem_alloc w (smem h) = Some (r, m')" using smem.alloc_total[OF m] by blast
  obtain k where k: "rt_malloc w h = (Done r, h\<lparr> smem := m', kern := k \<rparr>)"
    using heap_section_free[where f = "rt_smem_alloc w", OF lf a] by (auto simp: rt_malloc_def)
  show ?thesis
  proof (cases r)
    case None
    then have "m' = smem h" using smem.alloc_null[OF m, of w m'] a by simp
    then show ?thesis using k None m by (simp add: rt_malloc_align_def w_def and_then_def malloc_align_fill_def Let_def)
  next
    case (Some b)
    define ptr where "ptr = heap_base h + of_nat b"
    obtain l where l: "smem_inv m'" "allocs m' b = Some l" "alloc_size w \<le> l" "8 dvd b" "b + l \<le> mem_size_aligned (smem h) + 16"
      "contents (smem h) b = None" "\<forall>c. c \<noteq> b \<longrightarrow> contents m' c = contents (smem h) c"
      using smem_alloc_facts[OF m, of w] a Some by auto
    have he: "heap_end (smem h) = mem_size_aligned (smem h) + 16"
      using m smem_preD(2)[OF smem_repD(1)] by (auto simp: smem_inv_def)
    have wl: "unat w \<le> l" using l(3) align_args_size(3)[OF aa] by (simp add: alloc_size_def w_def)
    obtain i where i: "4 \<le> i" "i + unat n \<le> l" "align_ptr ptr (round4 align) = heap_base h + of_nat (b + i)"
      "unat (align_ptr ptr (round4 align)) = unat (heap_base h) + b + i" "2 ^ j dvd unat (align_ptr ptr (round4 align))"
      "ptr - heap_base h = of_nat b" "unat ptr = unat (heap_base h) + b"
      by (rule aligned_inside[OF aa pl l(4), of l, folded ptr_def]) (use l(5) he wl in \<open>simp_all add: w_def\<close>)
    define q where "q = align_ptr ptr (round4 align)"
    define h1 where "h1 = h\<lparr> smem := m', kern := k \<rparr>"
    define h' where "h' = heap_store_word (q - 4) ptr h1"
    have call: "rt_malloc_align n align h = (Done q, h')"
      using k Some by (simp add: rt_malloc_align_def w_def and_then_def malloc_align_fill_def Let_def h'_def h1_def q_def ptr_def)
    have lim: "b + l < 2 ^ 32" using pl l(5) he by (simp add: heap_placed_def)
    have un: "unat (of_nat x :: u32) = x" if "x \<le> b + l" for x using that lim by (simp add: unat_of_nat take_bit_nat_eq_self)
    have q4: "q - 4 = heap_base h + of_nat (b + (i - 4))" using i(1,3) by (simp add: q_def of_nat_diff)
    obtain ws :: "byte list" where ws: "smem h' = put_bytes (b + (i - 4)) ws m'" "length ws = 4" "heap_base h' = heap_base h"
      using un[of "b + (i - 4)"] i(2) q4 by (simp add: h'_def h1_def heap_store_word_def)
    obtain xs where xs: "contents m' b = Some xs" "length xs = l" using l(2) by (simp add: contents_def)
    have c1: "smem_inv (smem h')" "contents (smem h') = (contents (smem h))(b \<mapsto> blit xs (i - 4) (map Some ws))"
      using smem.put_block[OF l(1) xs(1), of "i - 4" ws] ws(1,2) xs(2) i(1,2) l(7) by (auto simp: fun_eq_iff)
    have lb: "length (blit xs (i - 4) (map Some ws)) = l" using ws(2) xs(2) i(1,2) by simp
    have q0: "q \<noteq> 0" using i(1,4) by (auto simp: q_def)
    have frees: "\<exists>h''. rt_free_align q (h'\<lparr> kern := k2, smem := put_bytes (unat (q - heap_base h) + i2) bs (smem h') \<rparr>) = (Done (), h'') \<and>
        smem_inv (smem h'') \<and> contents (smem h'') = contents (smem h)" if lk: "lock_free k2" and bs: "i2 + length bs \<le> unat n" for k2 i2 bs
    proof -
      define h2 where "h2 = h'\<lparr> kern := k2, smem := put_bytes (b + (i + i2)) bs (smem h') \<rparr>"
      have e: "unat (q - heap_base h) = b + i" using un[of "b + i"] i(2,3) by (simp add: q_def)
      have "heap_load_word (q - 4) h2 = heap_load_word (q - 4) h'" unfolding h2_def
        by (rule put_bytes_load[where a = "b + (i - 4)"]) (use ws(3) i(1,2) q4 un[of "b + (i - 4)"] in simp_all)
      then have ld: "heap_load_word (q - 4) h2 = Some ptr" by (simp add: h'_def load_store_word)
      have c2: "smem_inv (smem h2)" "contents (smem h2) = (contents (smem h))(b \<mapsto> blit (blit xs (i - 4) (map Some ws)) (i + i2) (map Some bs))"
        using smem.put_block[OF c1(1), of b _ "i + i2" bs] c1(2) lb bs i(2) by (simp_all add: h2_def)
      have c3: "smem_inv (rt_smem_free (Some b) (smem h2))" "contents (rt_smem_free (Some b) (smem h2)) = contents (smem h)"
        using smem.free_block[OF c2(1), of b] c2(2) l(6) by (simp_all add: fun_upd_idem)
      have p0: "ptr \<noteq> 0" "unat (ptr - heap_base h) = b" using i(6,7) un[of b] smem.alloc_block[OF m, of w b m'] a Some by auto
      obtain k3 where "heap_section (\<lambda>m. Some ((), rt_smem_free (Some b) m)) h2 = (Done (), h2\<lparr> smem := rt_smem_free (Some b) (smem h2), kern := k3 \<rparr>)"
        by (rule heap_section_free[where f = "\<lambda>m. Some ((), rt_smem_free (Some b) m)" and h = h2]) (use lk in \<open>auto simp: h2_def\<close>)
      then have "rt_free_align q h2 = (Done (), h2\<lparr> smem := rt_smem_free (Some b) (smem h2), kern := k3 \<rparr>)"
        using q0 ld p0 ws(3) by (simp add: rt_free_align_def rt_free_def) (simp add: h2_def)
      then show ?thesis using c3 by (simp add: e h2_def add.assoc)
    qed
    show ?thesis
      using call c1 q0 i(2,4,5) l(6) lb frees by (intro exI[of _ q] exI[of _ h']) (auto simp: q_def[symmetric] intro!: exI[of _ b])
  qed
qed

section \<open>Worked examples\<close>

definition demo_sys :: "kstate \<Rightarrow> heap_sys" where
  "demo_sys k = \<lparr> kern = k, smem = smem_setup 256, heap_base = 0x20001000 \<rparr>"

lemma demo_lock_free: "lock_free demo_kernel"
proof -
  have f: "mutex_owner (mutex_of demo_kernel m) = None" "mutex_hold (mutex_of demo_kernel m) = 0" "ceiling_priority (mutex_of demo_kernel m) = 0xFF"
    "taken_object_list (thread_of demo_kernel t) = []" "unat (init_priority (thread_of demo_kernel t)) < RT_THREAD_PRIORITY_MAX" for m t
    by (simp_all add: demo_kernel_def blank_thread_def started_thread_def RT_THREAD_PRIORITY_MAX_def)
  have "owner_ok demo_kernel" unfolding owner_ok_def by (auto simp: f demo_lists demo_not_suspended)
  moreover have "prio_ok {} {} demo_kernel" by (auto simp: prio_ok_def f demo_lists)
  moreover have "stat (thread_of demo_kernel 1) AND RT_THREAD_STAT_YIELD = 0" by (simp add: demo_kernel_def started_thread_def stat_defs)
  then have "top demo_kernel 1"
    using demo_states(1)[of 1] by (auto simp: top_def demo_lists demo_states(1,2) split: if_splits)
  ultimately show ?thesis using demo_kernel_inv by (simp add: lock_free_def rt_thread_self_def demo_lists f mutex_inv_def)
qed

lemma demo_lock_busy: "lock_busy (demo_mutex 0xFF 2) 1 2"
proof -
  have "chain_ends ((waits_for (demo_mutex 0xFF 2))(1 := Some 2)) 1"
    by (rule chain_ends.intros(2)[of _ _ 2]) (auto simp: demo_mutex_waits intro: chain_ends.intros(1))
  then show ?thesis
    using demo_mutex_kernel_inv demo_mutex_inv demo_mutex_may_block by (simp add: lock_busy_def demo_mutex_fields heap_mutex_def)
qed

lemma demo_sys_inv: "smem_inv (smem (demo_sys k))" "heap_placed (demo_sys k)"
  using setup_256_inv by (simp_all add: demo_sys_def heap_placed_def smem_setup_def Let_def SIZEOF_STRUCT_MEM_def)

theorem malloc_under_lock_witness:
  "fst (rt_malloc 10 (demo_sys (demo_mutex 0xFF 2))) = Waiting \<and> (\<exists>h'. rt_malloc 10 (demo_sys demo_kernel) = (Done (Some 16), h'))"
proof -
  have l: "lock_busy (kern (demo_sys (demo_mutex 0xFF 2))) 1 2" "lock_free (kern (demo_sys demo_kernel))"
    using demo_lock_busy demo_lock_free by (simp_all add: demo_sys_def)
  obtain r h' where "rt_malloc 10 (demo_sys demo_kernel) = (Done r, h')" "rt_smem_alloc 10 (smem_setup 256) = Some (r, smem h')"
    using malloc_under_lock[OF demo_sys_inv(1), of demo_kernel 10 1 2] l(2) by (auto simp: demo_sys_def)
  moreover have "fst (rt_malloc 10 (demo_sys (demo_mutex 0xFF 2))) = Waiting"
    using malloc_under_lock[OF demo_sys_inv(1), of "demo_mutex 0xFF 2" 10 1 2] l(1) by (auto split: prod.splits)
  ultimately show ?thesis using demo_heap(1) by auto
qed

theorem calloc_zeroes_wrapped_size_witness:
  "\<exists>r h'. rt_calloc 0x10000001 16 (demo_sys demo_kernel) = (Done r, h') \<and>
    (\<forall>a xs. r = Some a \<longrightarrow> contents (smem h') a = Some xs \<longrightarrow> length xs < 0x100000010)"
proof -
  have lf: "lock_free (kern (demo_sys demo_kernel))" using demo_lock_free by (simp add: demo_sys_def)
  have w: "unat (0x10000001 * 16 :: u32) + 7 < 2 ^ 32" "2 ^ 32 \<le> unat (0x10000001 :: u32) * unat (16 :: u32)"
    "unat (0x10000001 :: u32) * unat (16 :: u32) = 0x100000010" by simp_all
  from calloc_zeroes_wrapped_size[OF demo_sys_inv(1) lf w(1)] show ?thesis
    using w(2,3) by (auto split: option.splits)
qed

theorem malloc_align_free_align_witness:
  "\<exists>p h'. rt_malloc_align 20 32 (demo_sys demo_kernel) = (Done p, h') \<and> smem_inv (smem h') \<and> (p = 0 \<or> 32 dvd unat p)"
proof -
  have lf: "lock_free (kern (demo_sys demo_kernel))" using demo_lock_free by (simp add: demo_sys_def)
  have "align_args 20 32 5" by (simp add: align_args_def round4_def)
  from malloc_align_free_align[OF demo_sys_inv(1) lf demo_sys_inv(2) this] show ?thesis by (auto split: if_splits)
qed

end
