(* ===== verification/Boot.thy ===== *)
theory Boot
  imports ThreadLife
begin

text \<open>
  The start of the system (\<open>rt-thread/src/components.c\<close>) and the interrupt nesting counter
  (\<open>irq.c\<close>). The initialisation of the board is a function of the kernel state, given as an
  argument; the thread ids are the addresses of the static timer and idle
  threads and what the allocator returned for the main thread.
\<close>

section \<open>Interrupt nesting\<close>

definition rt_interrupt_enter :: "kstate \<Rightarrow> kstate" where
  "rt_interrupt_enter s = s\<lparr> rt_interrupt_nest := rt_interrupt_nest s + 1 \<rparr>"

definition rt_interrupt_leave :: "kstate \<Rightarrow> kstate" where
  "rt_interrupt_leave s = s\<lparr> rt_interrupt_nest := rt_interrupt_nest s - 1 \<rparr>"

definition rt_interrupt_get_nest :: "kstate \<Rightarrow> u8" where
  "rt_interrupt_get_nest s = of_nat (rt_interrupt_nest s)"

section \<open>Start-up\<close>

text \<open>The main thread is \<open>"main"\<close>, with priority 10 and a time slice of 20 ticks. Starting a null
  pointer is a fault.\<close>

definition rt_application_init :: "tid option \<Rightarrow> bool \<Rightarrow> kstate \<Rightarrow> kstate option" where
  "rt_application_init addr stack s =
    (case rt_thread_create addr stack [109, 97, 105, 110] 10 20 s of
       (None, _) \<Rightarrow> None
     | (Some t, s) \<Rightarrow> Some (snd (rt_thread_startup t s)))"

definition rtthread_startup :: "(kstate \<Rightarrow> kstate) \<Rightarrow> tid option \<Rightarrow> bool \<Rightarrow> tid \<Rightarrow> tid \<Rightarrow> kstate \<Rightarrow> kstate option" where
  "rtthread_startup rt_hw_board_init addr stack timer_thread idle_thread s =
    (let s = rt_hw_board_init s;
         s = rt_system_timer_init s;
         s = rt_system_scheduler_init s
     in case rt_application_init addr stack s of None \<Rightarrow> None
        | Some s \<Rightarrow>
           let s = rt_system_timer_thread_init timer_thread s;
               s = rt_thread_idle_init idle_thread s
           in Some (rt_system_scheduler_start s))"

section \<open>Starting threads before the scheduler runs\<close>

text \<open>The parts of the state that starting threads at boot reads or changes.\<close>

definition boot_state :: "(tid \<rightharpoonup> u8) \<Rightarrow> kstate \<Rightarrow> bool" where
  "boot_state started s \<longleftrightarrow> kernel_inv s \<and> rt_current_thread s = None \<and> rt_scheduler_lock_nest s = 0 \<and>
    (\<forall>t. \<not> sched_flag_ttmr_set (thread_of s t)) \<and> (\<forall>l. timer_lists s l = []) \<and>
    (\<forall>t. started t = None \<longrightarrow> unlinked s t \<and> thread_state s t = RT_THREAD_INIT) \<and>
    (\<forall>t p. started t = Some p \<longrightarrow> thread_state s t = RT_THREAD_READY \<and> current_priority (thread_of s t) = p)"

lemma boot_stateD:
  assumes "boot_state started s"
  shows "started t = None \<Longrightarrow> unlinked s t \<and> thread_state s t = RT_THREAD_INIT"
    and "started t = Some p \<Longrightarrow> thread_state s t = RT_THREAD_READY \<and> current_priority (thread_of s t) = p"
  using assms by (simp_all add: boot_state_def)

lemma boot_start:
  assumes b: "boot_state started s" and new: "started t = None" and p: "unat p < RT_THREAD_PRIORITY_MAX"
  shows "boot_state (started(t \<mapsto> p)) (snd (rt_thread_startup t (snd (thread_init t p tick s))))"
proof -
  define s2 where "s2 = rt_sched_thread_startup t (snd (thread_init t p tick s))"
  note i = init_started[where t = t and p = p and tick = tick and s = s, folded s2_def]
  have k: "kernel_inv s" and nc: "rt_current_thread s = None" and nf: "\<And>u. \<not> sched_flag_ttmr_set (thread_of s u)"
    using b by (simp_all add: boot_state_def)
  note old = boot_stateD[OF b]
  have f: "fresh_thread t s" using old(1)[of t] new nc by (simp add: fresh_thread_def)
  note inv = init_started_inv[where t = t and p = p and tick = tick and s = s, folded s2_def, OF k f p]
  have k2: "kernel_inv s2" and sp: "suspended s2 t" using inv(2,3) nf by simp_all
  define s3 where "s3 = rt_sched_insert_thread t (unlink_thread t s2)"
  have nf2: "\<not> sched_flag_ttmr_set (thread_of s2 t)" using nf by (simp add: i(1))
  note re = ready_effect[OF k2 sp, unfolded if_not_P[OF nf2], folded s3_def]
  have fin: "snd (rt_thread_startup t (snd (thread_init t p tick s))) = s3"
    by (simp add: rt_thread_startup_def s2_def[symmetric] rt_thread_resume_def re(1) rt_sched_unlock_n_resched_def rt_thread_self_def)
      (simp add: s3_def i(4) nc)
  have st3: "thread_state s3 u = (if u = t then RT_THREAD_READY else thread_state s u)" for u
    using thread_ready_spec(3)[OF _ re(1), of u] k2 nc i(4) by (simp add: kernel_inv_def) (simp add: thread_state_def i(1))
  have th3: "same_but_stat (thread_of s2 u) (thread_of s3 u)" for u
    using insert_same_but_stat[of "unlink_thread t s2" u t] by (simp add: s3_def)
  have ul: "unlinked s3 u = unlinked s u" if "u \<noteq> t" for u
    using that nc by (auto simp: unlinked_def s3_def insert_thread_fields i(2,4) split: if_splits)
  have pr: "current_priority (thread_of s3 u) = (if u = t then p else current_priority (thread_of s u))"
    "sched_flag_ttmr_set (thread_of s3 u) = sched_flag_ttmr_set (thread_of s u)" for u
    using same_but_stat_simps[OF th3[of u]] by (simp_all add: i(1))
  have "(started(t \<mapsto> p)) u = None \<Longrightarrow> unlinked s3 u \<and> thread_state s3 u = RT_THREAD_INIT"
    "(started(t \<mapsto> p)) u = Some q \<Longrightarrow> thread_state s3 u = RT_THREAD_READY \<and> current_priority (thread_of s3 u) = q" for u q
    using old[of u] ul[of u] st3[of u] pr(1)[of u] by (auto split: if_splits)
  moreover have "rt_current_thread s3 = None" "rt_scheduler_lock_nest s3 = 0" "timer_lists s3 l = []" for l
    using b by (simp_all add: s3_def i boot_state_def)
  ultimately show ?thesis using re(2) nf pr(2) unfolding fin boot_state_def by blast
qed

lemma boot_state_cong:
  assumes "boot_state st s" and "thread_lists s' = thread_lists s" and "thread_of s' = thread_of s" and "timer_of s' = timer_of s"
    and "rt_thread_ready_priority_group s' = rt_thread_ready_priority_group s" and "rt_current_thread s' = rt_current_thread s"
    and "rt_scheduler_lock_nest s' = rt_scheduler_lock_nest s" and "\<And>l. timer_lists s l = [] \<Longrightarrow> timer_lists s' l = []"
  shows "boot_state st s'"
proof -
  have "unlinked s' = unlinked s" "thread_state s' = thread_state s"
    by (simp_all add: fun_eq_iff unlinked_def thread_state_def assms(2,3))
  then show ?thesis using assms(1,8) kernel_inv_cong[OF assms(2,3,5,6,4)] assms(3,6,7) by (simp add: boot_state_def)
qed

text \<open>The memory of the kernel when the system starts: no thread has been started, no list holds a thread
  (the ready queues, which \<open>rt_system_scheduler_init\<close> sets up, may hold anything).\<close>

definition cold :: "kstate \<Rightarrow> bool" where
  "cold s \<longleftrightarrow> rt_current_thread s = None \<and> (\<forall>t. thread_state s t = RT_THREAD_INIT \<and> number_mask (thread_of s t) = 0 \<and>
      \<not> sched_flag_ttmr_set (thread_of s t)) \<and>
    (\<forall>l. (\<forall>p < RT_THREAD_PRIORITY_MAX. l \<noteq> ReadyQ p) \<longrightarrow> thread_lists s l = []) \<and> (\<forall>l. l \<noteq> HardTimers \<longrightarrow> timer_lists s l = [])"

lemma cold_boot_state:
  assumes "cold s"
  shows "boot_state Map.empty (rt_system_scheduler_init (rt_system_timer_init s))"
proof -
  let ?s = "rt_system_scheduler_init (rt_system_timer_init s)"
  have li: "thread_lists ?s l = []" for l
    using assms by (auto simp: cold_def rt_system_scheduler_init_def rt_system_timer_init_def split: thread_list.splits)
  have th: "thread_of ?s = thread_of s" "rt_thread_ready_priority_group ?s = 0" "rt_current_thread ?s = None"
    "rt_scheduler_lock_nest ?s = 0"
    using assms by (simp_all add: cold_def rt_system_scheduler_init_def rt_system_timer_init_def)
  have ti: "timer_lists ?s l = []" for l
    using assms by (auto simp: cold_def rt_system_scheduler_init_def rt_system_timer_init_def)
  have st: "thread_state ?s t = RT_THREAD_INIT" "number_mask (thread_of ?s t) = 0" "\<not> sched_flag_ttmr_set (thread_of ?s t)" for t
    using assms th(1) by (simp_all add: cold_def thread_state_def)
  have "sched_inv ?s" unfolding sched_inv_def run_ok_def queue_inv_defs suspended_def li st th(2-4) by (simp add: stat_defs)
  then have "kernel_inv ?s" using st(3) by (simp add: kernel_inv_def ttmr_ok_def)
  then show ?thesis using th st li ti by (simp add: boot_state_def unlinked_def)
qed

lemma scheduler_start_spec:
  assumes b: "boot_state started s" and t: "started t = Some p" and h: "\<forall>u q. started u = Some q \<longrightarrow> u \<noteq> t \<longrightarrow> p < q"
  shows "kernel_inv (rt_system_scheduler_start s)" and "rt_thread_self (rt_system_scheduler_start s) = Some t"
    and "thread_state (rt_system_scheduler_start s) u = (if u = t then RT_THREAD_RUNNING else thread_state s u)"
    and "rt_scheduler_lock_nest (rt_system_scheduler_start s) = 0" and "timer_lists (rt_system_scheduler_start s) l = []"
proof -
  have k: "kernel_inv s" and nc: "rt_current_thread s = None" and nf: "\<And>u. \<not> sched_flag_ttmr_set (thread_of s u)"
    using b by (simp_all add: boot_state_def)
  have q: "queue_inv s" using k by (simp add: kernel_inv_def sched_inv_def)
  have st: "thread_state s u = RT_THREAD_READY \<longleftrightarrow> started u \<noteq> None" "started u = Some r \<Longrightarrow> current_priority (thread_of s u) = r" for u r
    using boot_stateD[OF b, of u] by (cases "started u"; auto)+
  obtain h' n where hp: "scheduler_get_highest_priority_thread s = (h', n)" by fastforce
  have "rt_thread_ready_priority_group s \<noteq> 0" using no_ready_iff[OF q] st(1)[of t] t by auto
  note ht = highest_thread[OF q this hp]
  have "h' = t"
  proof (rule ccontr)
    assume "h' \<noteq> t"
    moreover obtain r where r: "started h' = Some r" using ht(2) st(1) by auto
    ultimately have "p < r" using h by blast
    moreover have "n \<le> prio_index s t" "prio_index s h' = n" using ht(3,4) st(1)[of t] t by auto
    ultimately show False using st(2)[OF r] st(2)[OF t] by (simp add: word_less_nat_alt)
  qed
  define f where "f = (\<lambda>x :: rt_thread. x\<lparr> stat := RT_THREAD_RUNNING \<rparr>)"
  define x where "x = upd_thread t f (rt_sched_remove_thread t s)"
  let ?s = "rt_system_scheduler_start s"
  have e: "?s = upd_thread t f (rt_sched_remove_thread t (s\<lparr> rt_current_thread := Some t \<rparr>))"
    using hp \<open>h' = t\<close> by (simp add: rt_system_scheduler_start_def f_def)
  have "queue_inv x" unfolding x_def using st(1)[of t] t
    by (intro remove_set_inv(1)[OF q]) (auto simp: f_def)
  then have qi: "queue_inv ?s"
    by (subst queue_inv_cong[of _ x]) (simp_all add: e x_def rt_sched_remove_thread_def Let_def unlink_thread_def upd_thread_def)
  show ts: "thread_state ?s u = (if u = t then RT_THREAD_RUNNING else thread_state s u)" for u
    by (simp add: e f_def thread_state_def remove_thread_fields)
  show cu: "rt_thread_self ?s = Some t" by (simp add: e rt_thread_self_def)
  have "thread_state s u \<noteq> RT_THREAD_RUNNING" for u using k nc by (auto simp: kernel_inv_def sched_inv_def run_ok_def)
  then have "run_ok ?s" using cu ts by (auto simp: run_ok_def rt_thread_self_def split: if_splits)
  moreover have "ttmr_ok ?s" using nf by (simp add: ttmr_ok_def e f_def remove_thread_fields)
  ultimately show "kernel_inv ?s" using qi by (simp add: kernel_inv_def sched_inv_def)
  show "rt_scheduler_lock_nest ?s = 0" "timer_lists ?s l = []" using b by (simp_all add: e boot_state_def)
qed

section \<open>The first scheduling\<close>

text \<open>The three threads that the start-up code starts.\<close>

lemma boot_blank:
  assumes b: "boot_state started s" and new: "started t = None"
  shows "boot_state started (upd_thread t (\<lambda>_. blank_thread) s)"
proof -
  let ?s = "upd_thread t (\<lambda>_. blank_thread) s"
  note t = boot_stateD(1)[OF b new]
  have st: "thread_state ?s u = thread_state s u" for u using t by (simp add: thread_state_def blank_thread_def)
  have k: "sched_inv s" using b by (simp add: boot_state_def kernel_inv_def)
  have bl: "number_mask blank_thread = 0" "\<not> sched_flag_ttmr_set blank_thread" by (simp_all add: blank_thread_def)
  have "mask_ok ?s" using k t by (auto simp: sched_inv_def queue_inv_def mask_ok_def st bl)
  moreover have "ready_ok ?s" using k t by (auto simp: sched_inv_def queue_inv_def ready_ok_def st)
  moreover have "lists_ok ?s" "bitmap_ok ?s" "wait_ok ?s" "run_ok ?s"
    using k st by (simp_all add: sched_inv_def queue_inv_def lists_ok_def bitmap_ok_def wait_ok_def run_ok_def suspended_def)
  moreover have "\<not> sched_flag_ttmr_set (thread_of ?s u)" for u using b by (simp add: boot_state_def bl)
  ultimately have "kernel_inv ?s" by (simp add: kernel_inv_def sched_inv_def queue_inv_def ttmr_ok_def)
  moreover have "unlinked ?s u = unlinked s u" for u by (simp add: unlinked_def)
  ultimately show ?thesis using b new st by (auto simp: boot_state_def bl)
qed

lemma application_init_boot:
  assumes b: "boot_state started s" and new: "started t = None"
  obtains s' where "rt_application_init (Some t) True s = Some s'" and "boot_state (started(t \<mapsto> 10)) s'"
proof -
  define s0 where "s0 = upd_thread t (\<lambda>_. blank_thread) (s\<lparr> registry :=
    snd (rt_object_allocate (Some (OThread t)) RT_Object_Class_Thread [109, 97, 105, 110] (registry s)) \<rparr>)"
  have "boot_state started (s\<lparr> registry := r \<rparr>)" for r by (rule boot_state_cong[OF b]) simp_all
  then have bs: "boot_state started s0" unfolding s0_def using new by (rule boot_blank)
  have p: "unat (10 :: u8) < RT_THREAD_PRIORITY_MAX" by (simp add: RT_THREAD_PRIORITY_MAX_def)
  have "rt_application_init (Some t) True s = Some (snd (rt_thread_startup t (snd (thread_init t 10 20 s0))))"
    by (simp add: rt_application_init_def rt_thread_create_def s0_def Let_def)
  then show thesis using that boot_start[OF bs new p] by blast
qed

lemma boot_no_waiters:
  assumes b: "boot_state started s"
  shows "thread_lists s (SemQ i) = []"
proof -
  have "t \<notin> set (thread_lists s (SemQ i))" for t
  proof
    assume "t \<in> set (thread_lists s (SemQ i))"
    moreover have "wait_ok s" using b by (simp add: boot_state_def kernel_inv_def sched_inv_def queue_inv_def)
    ultimately have "suspended s t" unfolding wait_ok_def using wait_list_simps(3) by blast
    then show False using boot_stateD[OF b, of t] suspended_states[of s t] by (cases "started t") auto
  qed
  then show ?thesis by (metis list.set_intros(1) neq_Nil_conv)
qed

lemma timer_thread_init_boot:
  assumes b: "boot_state started s" and new: "started t = None"
  shows "boot_state (started(t \<mapsto> 4)) (rt_system_timer_thread_init t s)"
proof -
  define s0 where "s0 = snd (rt_sem_init soft_timer_sem [115, 116, 105, 109, 101, 114] 0 RT_IPC_FLAG_PRIO
    (s\<lparr> timer_lists := (timer_lists s)(SoftTimers := []) \<rparr>))"
  define s1 where "s1 = s0\<lparr> registry := rt_object_init (OThread t) RT_Object_Class_Thread [116, 105, 109, 101, 114] (registry s0) \<rparr>"
  have "boot_state started s1"
    by (rule boot_state_cong[OF b])
      (simp_all add: s1_def s0_def rt_sem_init_def sem_object_init_def ipc_object_init_def Let_def boot_no_waiters[OF b] fun_upd_idem)
  from boot_start[OF this new, of 4 10] show ?thesis
    by (simp add: rt_system_timer_thread_init_def Let_def s0_def[symmetric] rt_thread_init_def s1_def[symmetric] RT_THREAD_PRIORITY_MAX_def)
qed

lemma idle_init_boot:
  assumes b: "boot_state started s" and new: "started t = None"
  shows "boot_state (started(t \<mapsto> 31)) (rt_thread_idle_init t s)"
proof -
  define s1 where "s1 = s\<lparr> registry := rt_object_init (OThread t) RT_Object_Class_Thread [116, 105, 100, 108, 101, 48] (registry s) \<rparr>"
  have "boot_state started s1" by (rule boot_state_cong[OF b]) (simp_all add: s1_def)
  from boot_start[OF this new, of 31 32] show ?thesis
    by (simp add: rt_thread_idle_init_def Let_def rt_thread_init_def s1_def[symmetric] RT_THREAD_PRIORITY_MAX_def)
qed

text \<open>C17: Start-up. When the board initialisation leaves a kernel in which no thread has been started and there is memory for the main
  thread, \<open>rtthread_startup\<close> ends with the scheduler running: the kernel invariant holds, the scheduler is
  unlocked, no timer is armed, the timer thread runs, the main and the idle thread are ready and no other thread is started.\<close>

theorem startup_runs_timer_thread:
  assumes c: "cold (board s)" and d: "distinct [main, tm, idle]"
  shows "\<exists>s'. rtthread_startup board (Some main) True tm idle s = Some s' \<and> kernel_inv s' \<and> rt_scheduler_lock_nest s' = 0 \<and>
    (\<forall>l. timer_lists s' l = []) \<and> rt_thread_self s' = Some tm \<and>
    (\<forall>t. thread_state s' t = (if t = tm then RT_THREAD_RUNNING else if t = main \<or> t = idle then RT_THREAD_READY else RT_THREAD_INIT))"
proof -
  obtain s1 where s1: "rt_application_init (Some main) True (rt_system_scheduler_init (rt_system_timer_init (board s))) = Some s1"
    "boot_state (Map.empty(main \<mapsto> 10)) s1"
    by (rule application_init_boot[OF cold_boot_state[OF c], of main]) simp
  define s3 where "s3 = rt_thread_idle_init idle (rt_system_timer_thread_init tm s1)"
  let ?st = "Map.empty(main \<mapsto> 10 :: u8, tm \<mapsto> 4, idle \<mapsto> 31)"
  have b3: "boot_state ?st s3" unfolding s3_def
    by (rule idle_init_boot[OF timer_thread_init_boot[OF s1(2)]]) (use d in auto)
  have call: "rtthread_startup board (Some main) True tm idle s = Some (rt_system_scheduler_start s3)"
    by (simp add: rtthread_startup_def s1(1) s3_def Let_def)
  have st3: "thread_state s3 t = (if t \<in> {main, tm, idle} then RT_THREAD_READY else RT_THREAD_INIT)" for t
    using boot_stateD[OF b3, of t] d by (cases "t = main"; cases "t = tm"; cases "t = idle") auto
  have hi: "?st tm = Some 4" "\<forall>u q. ?st u = Some q \<longrightarrow> u \<noteq> tm \<longrightarrow> 4 < q" using d by (auto split: if_splits)
  note ss = scheduler_start_spec[OF b3 hi]
  show ?thesis
    by (rule exI[of _ "rt_system_scheduler_start s3"]) (use call ss(1,2,4,5) ss(3) st3 d in auto)
qed

text \<open>A kernel whose memory is all zeros.\<close>

definition zero_kernel :: kstate where
  "zero_kernel = demo_kernel\<lparr> thread_lists := (\<lambda>_. []), thread_of := (\<lambda>_. blank_thread), rt_current_thread := None \<rparr>"

theorem startup_runs_timer_thread_witness:
  "\<exists>s'. rtthread_startup (\<lambda>s. s) (Some 1) True 2 0 zero_kernel = Some s' \<and> kernel_inv s' \<and> rt_thread_self s' = Some 2"
proof -
  have "cold zero_kernel" by (simp add: cold_def zero_kernel_def demo_kernel_def blank_thread_def thread_state_def)
  from startup_runs_timer_thread[of "\<lambda>s. s" zero_kernel 1 2 0, OF this] show ?thesis by auto
qed

end
