(* ===== verification/Msh.thy ===== *)
theory Msh
  imports KString "HOL-Library.Monad_Syntax" "HOL-Library.Sublist"
begin

text \<open>
  The command interpreter of the shell (\<open>rt-thread/components/finsh/msh.c\<close>): a command line is split into arguments in
  place, its first word is looked up in the table of commands, and an incomplete line is completed from the names
  of commands, of their options and of files. Lines and names are strings in the byte-addressed memory of \<open>KString\<close>; the
  C library functions that are called (\<open>strlen\<close>, \<open>strncmp\<close>, \<open>strcmp\<close>) give the lengths and equalities that the kernel's
  own routines give, which are used for them. A scan for a terminating zero may run on, so that the callers answer an
  option. Running a command is the outcome of the interpreter, with the function and the arguments. What the
  file system answers is a parameter. Console output is not modelled.
\<close>

section \<open>Splitting a line into arguments\<close>

definition FINSH_ARG_MAX :: nat where "FINSH_ARG_MAX = 10"

definition blank :: "byte \<Rightarrow> bool" where "blank c \<longleftrightarrow> c = 0x20 \<or> c = 0x09"

abbreviation QUOTE :: byte where "QUOTE \<equiv> 0x22"
abbreviation BACKSLASH :: byte where "BACKSLASH \<equiv> 0x5C"

text \<open>The loops over blanks, over a word and over a quoted string; \<open>len\<close> is the length of the line.\<close>

function strip_blanks :: "nat \<Rightarrow> nat \<Rightarrow> nat \<Rightarrow> memory \<Rightarrow> nat \<times> memory" where
  "strip_blanks cmd len position m =
    (if blank (m (cmd + position)) \<and> position < len
     then strip_blanks cmd len (position + 1) (m(cmd + position := 0)) else (position, m))"
  by auto
termination by (relation "measure (\<lambda>(cmd, len, p, m). len - p)") auto

function skip_word :: "nat \<Rightarrow> nat \<Rightarrow> nat \<Rightarrow> memory \<Rightarrow> nat" where
  "skip_word cmd len position m =
    (if \<not> blank (m (cmd + position)) \<and> position < len then skip_word cmd len (position + 1) m else position)"
  by auto
termination by (relation "measure (\<lambda>(cmd, len, p, m). len - p)") auto

function skip_string :: "nat \<Rightarrow> nat \<Rightarrow> nat \<Rightarrow> memory \<Rightarrow> nat" where
  "skip_string cmd len position m =
    (if m (cmd + position) \<noteq> QUOTE \<and> position < len
     then skip_string cmd len
       (if m (cmd + position) = BACKSLASH \<and> m (cmd + position + 1) = QUOTE then position + 2 else position + 1) m
     else position)"
  by auto
termination by (relation "measure (\<lambda>(cmd, len, p, m). len - p)") auto

declare strip_blanks.simps [simp del] skip_word.simps [simp del] skip_string.simps [simp del]

lemma strip_blanks_ge: "strip_blanks cmd len p m = (q, m') \<Longrightarrow> p \<le> q \<and> (q < len \<longrightarrow> \<not> blank (m' (cmd + q)))"
proof (induction cmd len p m rule: strip_blanks.induct)
  case (1 cmd len p m)
  show ?case
  proof (cases "blank (m (cmd + p)) \<and> p < len")
    case True
    then have "strip_blanks cmd len (p + 1) (m(cmd + p := 0)) = (q, m')"
      using 1(2) by (simp add: strip_blanks.simps[of cmd len p m])
    then show ?thesis using 1(1)[OF True] by linarith
  next
    case False
    then show ?thesis using 1(2) by (auto simp: strip_blanks.simps[of cmd len p m])
  qed
qed

lemma skip_word_ge: "p \<le> skip_word cmd len p m"
  by (induction cmd len p m rule: skip_word.induct) (subst skip_word.simps, auto)

lemma skip_word_gt: "\<not> blank (m (cmd + p)) \<Longrightarrow> p < len \<Longrightarrow> p < skip_word cmd len p m"
  using skip_word_ge[of "p + 1" cmd len m] by (subst skip_word.simps) auto

lemma skip_string_ge: "p \<le> skip_string cmd len p m"
  by (induction cmd len p m rule: skip_string.induct) (subst skip_string.simps, auto)

function split_loop :: "nat \<Rightarrow> nat \<Rightarrow> nat \<Rightarrow> nat list \<Rightarrow> memory \<Rightarrow> nat list \<times> memory" where
  "split_loop cmd len position argv m =
    (if position < len then
       (case strip_blanks cmd len position m of (position, m) \<Rightarrow>
          if length argv \<ge> FINSH_ARG_MAX then (argv, m)
          else if position \<ge> len then (argv, m)
          else if m (cmd + position) = QUOTE then
            let argv = argv @ [cmd + position + 1];
                position = skip_string cmd len (position + 1) m
            in if position \<ge> len then (argv, m)
               else split_loop cmd len (position + 1) argv (m(cmd + position := 0))
          else
            let argv = argv @ [cmd + position];
                position = skip_word cmd len position m
            in if position \<ge> len then (argv, m) else split_loop cmd len position argv m)
     else (argv, m))"
  by auto
termination
proof (relation "measure (\<lambda>(cmd, len, p, argv, m). len - p)", goal_cases)
  case prems: (2 cmd len p argv m q m')
  then show ?case
    using strip_blanks_ge[of cmd len p m q m'] skip_string_ge[of "q + 1" cmd len m'] by auto
next
  case prems: (3 cmd len p argv m q m')
  then show ?case
    using strip_blanks_ge[of cmd len p m q m'] skip_word_gt[of m' cmd q len] by auto
qed simp

declare split_loop.simps [simp del]

definition msh_split :: "nat \<Rightarrow> nat \<Rightarrow> memory \<Rightarrow> nat list \<times> memory" where
  "msh_split cmd len m = split_loop cmd len 0 [] m"

section \<open>The words of a line\<close>

text \<open>The reference: blanks separate words; a word that starts with a quote runs to the next quote that has no backslash in
  front of it, and keeps its backslashes.\<close>

fun string_end :: "byte list \<Rightarrow> nat" where
  "string_end [] = 0"
| "string_end [c] = (if c = QUOTE then 0 else 1)"
| "string_end (c # d # cs) =
    (if c = QUOTE then 0 else if c = BACKSLASH \<and> d = QUOTE then 2 + string_end cs else 1 + string_end (d # cs))"

lemma string_end_le: "string_end cs \<le> length cs"
  by (induction cs rule: string_end.induct) auto

abbreviation nonblank :: "byte \<Rightarrow> bool" where "nonblank c \<equiv> \<not> blank c"

function words :: "byte list \<Rightarrow> byte list list" where
  "words xs = (case dropWhile blank xs of [] \<Rightarrow> []
     | c # cs \<Rightarrow> if c = QUOTE then take (string_end cs) cs # words (drop (string_end cs + 1) cs)
        else takeWhile nonblank (c # cs) # words (dropWhile nonblank (c # cs)))"
  by auto
termination
proof (relation "measure length", goal_cases)
  case (2 xs c cs)
  then have "length (c # cs) \<le> length xs" by (metis length_dropWhile_le)
  then show ?case by auto
next
  case (3 xs c cs)
  then have "length (c # cs) \<le> length xs" "\<not> blank c" by (metis length_dropWhile_le, metis hd_dropWhile list.distinct(1) list.sel(1))
  then show ?case using length_dropWhile_le[of nonblank cs] by auto
qed simp

declare words.simps [simp del]

lemma words_Nil [simp]: "words [] = []"
  by (simp add: words.simps)

lemma blank_zero [simp]: "\<not> blank 0"
  by (simp add: blank_def)

lemma cstr_cong: "(\<And>i. i \<le> length xs \<Longrightarrow> m' (a + i) = m (a + i)) \<Longrightarrow> cstr m' a xs = cstr m a xs"
  by (auto simp: cstr_def)

lemma cstr_drop: "cstr m a xs \<Longrightarrow> n \<le> length xs \<Longrightarrow> cstr m (a + n) (drop n xs)"
  by (auto simp: cstr_def add.assoc dest: in_set_dropD)

lemma cstr_take: "cstr m a xs \<Longrightarrow> n \<le> length xs \<Longrightarrow> cstr (m(a + n := 0)) a (take n xs)"
  by (auto simp: cstr_def dest: in_set_takeD)

lemma strip_blanks_spec:
  "cstr m (cmd + p) xs \<Longrightarrow> strip_blanks cmd (p + length xs) p m =
    (p + length (takeWhile blank xs), fill m (cmd + p) (length (takeWhile blank xs)) 0)"
proof (induction xs arbitrary: p m)
  case Nil
  then show ?case by (simp add: strip_blanks.simps)
next
  case (Cons x xs)
  show ?case
  proof (cases "blank x")
    case True
    have "cstr (m(cmd + p := 0)) (cmd + (p + 1)) xs" using Cons.prems by (subst cstr_cong[of _ _ _ m]) auto
    then have "strip_blanks cmd (p + 1 + length xs) (p + 1) (m(cmd + p := 0)) =
        (p + 1 + length (takeWhile blank xs), fill (m(cmd + p := 0)) (cmd + (p + 1)) (length (takeWhile blank xs)) 0)"
      by (rule Cons.IH)
    moreover have "fill (m(cmd + p := 0)) (cmd + (p + 1)) n 0 = fill m (cmd + p) (Suc n) 0" for n
      by (auto simp: fill_def fun_eq_iff)
    ultimately show ?thesis using Cons.prems True by (simp add: strip_blanks.simps[of cmd _ p])
  next
    case False
    then show ?thesis using Cons.prems by (simp add: strip_blanks.simps[of cmd _ p])
  qed
qed

lemma skip_word_spec:
  "cstr m (cmd + p) xs \<Longrightarrow> skip_word cmd (p + length xs) p m = p + length (takeWhile nonblank xs)"
proof (induction xs arbitrary: p)
  case Nil
  then show ?case by (simp add: skip_word.simps)
next
  case (Cons x xs)
  then show ?case using Cons.IH[of "p + 1"] by (auto simp: skip_word.simps[of cmd _ p])
qed

lemma skip_string_spec:
  "cstr m (cmd + p) xs \<Longrightarrow> skip_string cmd (p + length xs) p m = p + string_end xs"
proof (induction xs arbitrary: p rule: string_end.induct)
  case 1
  then show ?case by (simp add: skip_string.simps)
next
  case (2 c)
  then show ?case by (auto simp: skip_string.simps[of cmd _ p] skip_string.simps[of cmd _ "Suc p"])
next
  case (3 c d cs)
  then show ?case using 3(1)[of "p + 2"] 3(2)[of "p + 1"] by (auto simp: skip_string.simps[of cmd _ p])
qed

lemma split_step_blanks:
  assumes "cstr m a xs" and "k = length (takeWhile blank xs)"
  shows "cstr (fill m a k 0) (a + k) (dropWhile blank xs)"
    and "xs = [] \<or> blank (hd xs) \<Longrightarrow> fill m a k 0 a = 0"
    and "b < a \<or> a + length xs \<le> b \<Longrightarrow> fill m a k 0 b = m b"
proof -
  have k: "k \<le> length xs" using assms(2) by (simp add: length_takeWhile_le)
  have "cstr m (a + k) (dropWhile blank xs)" using cstr_drop[OF assms(1) k] by (simp add: assms(2) dropWhile_eq_drop)
  then show "cstr (fill m a k 0) (a + k) (dropWhile blank xs)" by (subst cstr_cong[of _ _ _ m]) (auto simp: fill_def)
  show "b < a \<or> a + length xs \<le> b \<Longrightarrow> fill m a k 0 b = m b" using k by (auto simp: fill_def)
  show "xs = [] \<or> blank (hd xs) \<Longrightarrow> fill m a k 0 a = 0" using assms by (cases xs) (auto simp: fill_def)
qed

text \<open>One round of the loop takes one word: the loop goes on at \<open>q\<close> with the rest of the line. The word is a string as soon as the
  byte at \<open>q\<close> is a zero, unless a zero in the place of its quote ends it.\<close>

definition split_round :: "nat \<Rightarrow> nat \<Rightarrow> memory \<Rightarrow> byte list \<Rightarrow> byte list \<Rightarrow> byte list \<Rightarrow> nat \<Rightarrow> nat \<Rightarrow> memory \<Rightarrow> bool" where
  "split_round cmd p m xs v rest d q m2 \<longleftrightarrow> words xs = v # words rest \<and> p + length xs = q + length rest \<and> p < q
    \<and> cstr m2 (cmd + q) rest \<and> (\<forall>b. b < cmd + p \<or> cmd + p + length xs \<le> b \<longrightarrow> m2 b = m b)
    \<and> (blank (hd xs) \<longrightarrow> m2 (cmd + p) = 0)
    \<and> (\<forall>m'. (\<forall>b < cmd + q. m' b = m2 b) \<and> (rest = [] \<or> blank (hd rest) \<longrightarrow> m' (cmd + q) = 0) \<longrightarrow> cstr m' d v)"

lemma split_done: "split_loop cmd len len argv m = (argv, m)"
  by (simp add: split_loop.simps)

lemma split_string_round:
  fixes xs :: "byte list" and m :: memory
  assumes c: "cstr m (cmd + p) xs" and ys: "dropWhile blank xs = QUOTE # cs" and av: "length argv < FINSH_ARG_MAX"
  shows "\<exists>v rest d q m2. split_loop cmd (p + length xs) p argv m = split_loop cmd (p + length xs) q (argv @ [d]) m2
    \<and> split_round cmd p m xs v rest d q m2"
proof -
  define k where "k = length (takeWhile blank xs)"
  define m1 where "m1 = fill m (cmd + p) k 0"
  note b = split_step_blanks[OF c k_def, folded m1_def, unfolded ys]
  have st: "strip_blanks cmd (p + length xs) p m = (p + k, m1)" using strip_blanks_spec[OF c] by (simp add: k_def m1_def)
  have len: "length xs = k + Suc (length cs)" using ys unfolding k_def by (metis length_Cons length_append takeWhile_dropWhile_id)
  define e where "e = string_end cs"
  have e: "e \<le> length cs" by (simp add: e_def string_end_le)
  have m1c: "m1 (cmd + (p + k)) = QUOTE" and cs: "cstr m1 (cmd + (p + k + 1)) cs" using b(1) by (simp_all add: add.assoc)
  have sk: "skip_string cmd (p + length xs) (p + k + 1) m1 = p + k + 1 + e"
    using skip_string_spec[OF cs] len by (simp add: e_def add.assoc)
  have ws: "words xs = take e cs # words (drop (e + 1) cs)" using ys by (simp add: words.simps[of xs] e_def)
  show ?thesis
  proof (cases "e = length cs")
    case True
    have "split_loop cmd (p + length xs) p argv m = split_loop cmd (p + length xs) (p + length xs) (argv @ [cmd + (p + k + 1)]) m1"
      using st m1c sk len av True by (simp add: split_done) (simp add: split_loop.simps[of cmd _ p] Let_def add.assoc)
    moreover have "cstr m' (cmd + (p + k + 1)) cs" if "\<forall>b < cmd + (p + length xs). m' b = m1 b" "m' (cmd + (p + length xs)) = 0" for m'
      using cs that len by (auto simp: cstr_def add.assoc)
    moreover have "m1 (cmd + (p + length xs)) = 0" using cs len by (simp add: cstr_def add.assoc)
    ultimately have "split_round cmd p m xs cs [] (cmd + (p + k + 1)) (p + length xs) m1"
      using ws True b(2,3) len unfolding split_round_def by (auto simp: add.assoc)
    with \<open>split_loop cmd (p + length xs) p argv m = _\<close> show ?thesis by blast
  next
    case False
    define q where "q = p + k + e + 2"
    define m2 where "m2 = m1(cmd + (p + k + 1 + e) := 0)"
    have "cstr m1 (cmd + (p + k + 1) + (e + 1)) (drop (e + 1) cs)" using cstr_drop[OF cs, of "e + 1"] e False by simp
    then have c2: "cstr m2 (cmd + q) (drop (e + 1) cs)" by (subst cstr_cong[of _ _ _ m1]) (auto simp: m2_def q_def add_ac)
    have "split_loop cmd (p + length xs) p argv m = split_loop cmd (p + length xs) q (argv @ [cmd + (p + k + 1)]) m2"
      using st m1c sk len av e False by (subst split_loop.simps) (simp add: Let_def m2_def q_def add_ac)
    moreover have "cstr m' (cmd + (p + k + 1)) (take e cs)" if "\<forall>b < cmd + q. m' b = m2 b" for m'
      using cstr_take[OF cs e] e that by (subst cstr_cong[of _ _ _ m2]) (auto simp: m2_def q_def add_ac)
    moreover have "m2 b = m b" if "b < cmd + p \<or> cmd + p + length xs \<le> b" for b
      using b(3)[OF that] that len e False by (auto simp: m2_def)
    moreover have "p + length xs = q + length (drop (e + 1) cs)" "p < q" using len e False by (simp_all add: q_def)
    moreover have "blank (hd xs) \<Longrightarrow> m2 (cmd + p) = 0" using b(2) by (simp add: m2_def)
    ultimately have "split_round cmd p m xs (take e cs) (drop (e + 1) cs) (cmd + (p + k + 1)) q m2"
      using ws c2 unfolding split_round_def by blast
    with \<open>split_loop cmd (p + length xs) p argv m = _\<close> show ?thesis by blast
  qed
qed

lemma split_word_round:
  fixes xs :: "byte list" and m :: memory
  assumes c: "cstr m (cmd + p) xs" and ys: "dropWhile blank xs = y # cs" "y \<noteq> QUOTE" and av: "length argv < FINSH_ARG_MAX"
  shows "\<exists>v rest d q m2. split_loop cmd (p + length xs) p argv m = split_loop cmd (p + length xs) q (argv @ [d]) m2
    \<and> split_round cmd p m xs v rest d q m2"
proof -
  define k where "k = length (takeWhile blank xs)"
  define m1 where "m1 = fill m (cmd + p) k 0"
  note b = split_step_blanks[OF c k_def, folded m1_def, unfolded ys]
  have st: "strip_blanks cmd (p + length xs) p m = (p + k, m1)" using strip_blanks_spec[OF c] by (simp add: k_def m1_def)
  define v where "v = takeWhile nonblank (y # cs)"
  define rest where "rest = dropWhile nonblank (y # cs)"
  have yv: "y # cs = v @ rest" by (simp add: v_def rest_def)
  have "\<not> blank y" using ys(1) hd_dropWhile[of blank xs] by auto
  then have v: "0 < length v" by (simp add: v_def)
  have len: "length xs = k + length (y # cs)" using ys unfolding k_def by (metis length_append takeWhile_dropWhile_id)
  then have len2: "length xs = k + (length v + length rest)" using yv by (metis length_append)
  have cy: "cstr m1 (cmd + (p + k)) (y # cs)" using b(1) by (simp add: add.assoc)
  then have cs: "cstr m1 (cmd + (p + k)) (v @ rest)" by (subst (asm) yv)
  have m1c: "m1 (cmd + (p + k)) \<noteq> QUOTE" using b(1) ys(2) by (simp add: add.assoc)
  define q where "q = p + k + length v"
  have sk: "skip_word cmd (p + length xs) (p + k) m1 = q"
    using skip_word_spec[OF cy] len by (simp only: v_def q_def add.assoc)
  have c2: "cstr m1 (cmd + q) rest" using cstr_drop[OF cs, of "length v"] by (simp add: q_def add.assoc)
  have l: "p + k < p + length xs" "q \<le> p + length xs" using len2 v by (simp_all add: q_def)
  have "split_loop cmd (p + length xs) p argv m =
      (if p + length xs \<le> q then (argv @ [cmd + (p + k)], m1) else split_loop cmd (p + length xs) q (argv @ [cmd + (p + k)]) m1)"
    using st m1c sk av l(1) by (subst split_loop.simps) (auto simp: Let_def)
  then have "split_loop cmd (p + length xs) p argv m = split_loop cmd (p + length xs) q (argv @ [cmd + (p + k)]) m1"
    using split_done[of cmd "p + length xs"] l(2) by (cases "q = p + length xs") simp_all
  moreover have "cstr m' (cmd + (p + k)) v" if "\<forall>b < cmd + q. m' b = m1 b" "m' (cmd + q) = 0" for m'
    using cs that by (auto simp: cstr_def q_def add.assoc nth_append)
  moreover have "rest = [] \<or> blank (hd rest)" using hd_dropWhile[of nonblank "y # cs", folded rest_def] by blast
  moreover have "words xs = v # words rest" using ys by (simp add: words.simps[of xs] v_def rest_def)
  ultimately show ?thesis using c2 b(2,3) len2 v unfolding split_round_def
    by (intro exI[of _ v] exI[of _ rest] exI[of _ "cmd + (p + k)"] exI[of _ q] exI[of _ m1]) (auto simp: q_def)
qed

text \<open>After the loop every argument is a string with the text of its word, and memory outside the line is as before. The line's
  first byte is a zero when it was a blank, which ends the argument in front of it.\<close>

definition split_result :: "nat \<Rightarrow> memory \<Rightarrow> byte list \<Rightarrow> nat \<Rightarrow> nat list \<Rightarrow> memory \<Rightarrow> bool" where
  "split_result a m xs n args m' \<longleftrightarrow> list_all2 (cstr m') args (take n (words xs))
    \<and> (\<forall>b. b < a \<or> a + length xs \<le> b \<longrightarrow> m' b = m b) \<and> (xs = [] \<or> blank (hd xs) \<longrightarrow> m' a = 0)"

lemma split_round_result:
  assumes r: "split_round cmd p m xs v rest d q m2" and s: "split_result (cmd + q) m2 rest n args m'" and "xs \<noteq> []"
  shows "split_result (cmd + p) m xs (Suc n) (d # args) m'"
proof -
  have fr: "m' b = m2 b" if "b < cmd + q \<or> cmd + p + length xs \<le> b" for b
    using s r that by (auto simp: split_result_def split_round_def)
  have "cstr m' d v" using r s fr unfolding split_round_def split_result_def by blast
  moreover have "m' b = m b" if "b < cmd + p \<or> cmd + p + length xs \<le> b" for b
    using fr[of b] r that by (auto simp: split_round_def)
  ultimately show ?thesis using r s fr[of "cmd + p"] assms(3) by (auto simp: split_result_def split_round_def)
qed

lemma split_loop_spec:
  assumes "cstr m (cmd + p) xs" and "length argv \<le> FINSH_ARG_MAX"
  shows "\<exists>args m'. split_loop cmd (p + length xs) p argv m = (argv @ args, m')
    \<and> split_result (cmd + p) m xs (FINSH_ARG_MAX - length argv) args m'"
  using assms
proof (induction "length xs" arbitrary: xs p argv m rule: less_induct)
  case less
  note b = split_step_blanks[OF less.prems(1) refl]
  note st = strip_blanks_spec[OF less.prems(1)]
  have len: "length xs = length (takeWhile blank xs) + length (dropWhile blank xs)" by (metis length_append takeWhile_dropWhile_id)
  consider "xs = []" | "xs \<noteq> []" "length argv = FINSH_ARG_MAX \<or> dropWhile blank xs = []"
    | "xs \<noteq> []" "length argv < FINSH_ARG_MAX" "dropWhile blank xs \<noteq> []" using less.prems(2) by fastforce
  then show ?case
  proof cases
    case 1
    then show ?thesis using less.prems(1) by (simp add: split_loop.simps split_result_def)
  next
    case 2
    have "split_loop cmd (p + length xs) p argv m = (argv, fill m (cmd + p) (length (takeWhile blank xs)) 0)"
    proof (cases "length argv = FINSH_ARG_MAX")
      case False
      then have "length xs = length (takeWhile blank xs)" using 2 len by simp
      then show ?thesis using st False by (subst split_loop.simps) simp
    qed (subst split_loop.simps, use st 2(1) in simp)
    moreover have "words xs = []" if "dropWhile blank xs = []"
      using that by (simp only: words.simps[of xs] list.case)
    then have "take (FINSH_ARG_MAX - length argv) (words xs) = []" using 2(2) by auto
    ultimately show ?thesis using b(2,3) by (auto simp: split_result_def)
  next
    case 3
    obtain v rest d q m2 where r: "split_loop cmd (p + length xs) p argv m = split_loop cmd (p + length xs) q (argv @ [d]) m2"
      "split_round cmd p m xs v rest d q m2"
    proof (cases "dropWhile blank xs")
      case (Cons y cs)
      then show thesis
        using that split_string_round[OF less.prems(1) _ 3(2), of cs] split_word_round[OF less.prems(1) _ _ 3(2), of y cs]
        by (cases "y = QUOTE") fast+
    qed (use 3(3) in simp)
    have q: "length rest < length xs" "p + length xs = q + length rest" "cstr m2 (cmd + q) rest" using r(2) by (auto simp: split_round_def)
    obtain n where n: "FINSH_ARG_MAX - length argv = Suc n" "FINSH_ARG_MAX - Suc (length argv) = n"
      using 3(2) by (metis Suc_diff_Suc)
    obtain args m' where "split_loop cmd (p + length xs) q (argv @ [d]) m2 = ((argv @ [d]) @ args, m')"
      "split_result (cmd + q) m2 rest n args m'"
      using less.hyps[OF q(1,3), of "argv @ [d]"] q(2) 3(2) n by (auto simp: Suc_le_eq)
    then show ?thesis using r(1) split_round_result[OF r(2) _ 3(1)] n by (metis append.assoc append_Cons append_Nil)
  qed
qed

section \<open>Running a command\<close>

record msh_cmd_opt =
  opt_id :: u32
  opt_name :: nat

text \<open>An entry of the command table: its name, its options (no options for a null pointer; a zero id ends them) and its function.\<close>

record finsh_syscall =
  sys_name :: nat
  sys_opt :: "msh_cmd_opt list option"
  sys_func :: nat

definition read_bytes :: "memory \<Rightarrow> nat \<Rightarrow> nat \<Rightarrow> byte list" where
  "read_bytes m a n = map (\<lambda>i. m (a + i)) [0..<n]"

definition write_bytes :: "nat \<Rightarrow> byte list \<Rightarrow> memory \<Rightarrow> memory" where
  "write_bytes a xs m = (\<lambda>b. if a \<le> b \<and> b < a + length xs then xs ! (b - a) else m b)"

fun msh_get_cmd :: "finsh_syscall list \<Rightarrow> nat \<Rightarrow> nat \<Rightarrow> memory \<Rightarrow> nat option" where
  "msh_get_cmd [] cmd sz m = None"
| "msh_get_cmd (x # xs) cmd sz m =
    (if rt_strncmp m (sys_name x) cmd sz = 0 \<and> m (sys_name x + sz) = 0 then Some (sys_func x)
     else msh_get_cmd xs cmd sz m)"

text \<open>\<open>None\<close> for an error, else the function that is called and its arguments.\<close>

definition msh_exec_cmd :: "finsh_syscall list \<Rightarrow> nat \<Rightarrow> nat \<Rightarrow> memory \<Rightarrow> (nat \<times> nat list) option \<times> memory" where
  "msh_exec_cmd tab cmd len m =
    (let cmd0_size = skip_word cmd len 0 m
     in if cmd0_size = 0 then (None, m)
        else case msh_get_cmd tab cmd cmd0_size m of None \<Rightarrow> (None, m)
        | Some cmd_func \<Rightarrow>
           (case msh_split cmd len m of (argv, m) \<Rightarrow> if argv = [] then (None, m) else (Some (cmd_func, argv), m)))"

fun trim :: "nat \<Rightarrow> nat \<Rightarrow> memory \<Rightarrow> nat \<times> nat" where
  "trim cmd 0 m = (cmd, 0)"
| "trim cmd (Suc n) m = (if blank (m cmd) then trim (cmd + 1) n m else (cmd, Suc n))"

partial_function (option) find_end :: "nat \<Rightarrow> memory \<Rightarrow> nat option" where
  "find_end tcmd m = (if m tcmd \<noteq> 0x20 \<and> m tcmd \<noteq> 0 then find_end (tcmd + 1) m else Some tcmd)"

text \<open>What lies outside: whether the file system takes a line for a script, the working directory, the names in a directory,
  whether a path is a folder, and what a command or a script that runs does to memory.\<close>

datatype msh_outcome = MshNothing | MshRun nat "nat list" | MshScript | MshNotFound

record msh_fs =
  fs_script :: "byte list \<Rightarrow> bool"
  fs_cwd :: "byte list"
  fs_readdir :: "byte list \<Rightarrow> byte list list option"
  fs_is_folder :: "byte list \<Rightarrow> bool"
  cmd_effect :: "msh_outcome \<Rightarrow> memory \<Rightarrow> memory"

definition msh_exec :: "msh_fs \<Rightarrow> finsh_syscall list \<Rightarrow> nat \<Rightarrow> nat \<Rightarrow> memory \<Rightarrow> (msh_outcome \<times> memory) option" where
  "msh_exec fs tab cmd len m =
    (case trim cmd len m of (cmd, len) \<Rightarrow>
       if len = 0 then Some (MshNothing, m)
       else case msh_exec_cmd tab cmd len m of
         (Some (f, argv), m) \<Rightarrow> Some (MshRun f argv, m)
       | (None, m) \<Rightarrow>
          if fs_script fs (read_bytes m cmd len) then Some (MshScript, m)
          else do { tcmd \<leftarrow> find_end cmd m; Some (MshNotFound, m(tcmd := 0)) })"

section \<open>Completing a line\<close>

partial_function (option) common_loop :: "memory \<Rightarrow> nat \<Rightarrow> nat \<Rightarrow> nat \<Rightarrow> nat option" where
  "common_loop m str str2 n =
    (if m str \<noteq> 0 \<and> m str2 \<noteq> 0 \<and> m str = m str2 then common_loop m (str + 1) (str2 + 1) (n + 1) else Some n)"

definition str_common :: "memory \<Rightarrow> nat \<Rightarrow> nat \<Rightarrow> nat option" where
  "str_common m str1 str2 = common_loop m str1 str2 0"

text \<open>The loop over the directory: the number of matching names, the length that they share, and the first of them.\<close>

fun path_loop :: "byte list \<Rightarrow> byte list list \<Rightarrow> nat \<Rightarrow> nat \<Rightarrow> byte list \<Rightarrow> nat \<times> nat \<times> byte list" where
  "path_loop pat [] multi min_length saved = (multi, min_length, saved)"
| "path_loop pat (d # ds) multi min_length saved =
    (if take (length pat) d = pat then
       let (min_length, saved) = (if min_length = 0 then (length d, d) else (min_length, saved));
           len = length (longest_common_prefix d saved)
       in path_loop pat ds (multi + 1) (if len < min_length then len else min_length) saved
     else path_loop pat ds multi min_length saved)"

text \<open>\<open>mem\<close> tells whether the allocator has a buffer for the full path.\<close>

definition msh_auto_complete_path :: "msh_fs \<Rightarrow> bool \<Rightarrow> nat \<Rightarrow> memory \<Rightarrow> memory option" where
  "msh_auto_complete_path fs mem path m =
    (if \<not> mem then Some m
     else do {
       n \<leftarrow> rt_strlen m path;
       let text = read_bytes m path n;
       let dest = n - length (takeWhile (\<lambda>c. c \<noteq> 0x2F) (rev text));
       let cwd = (if last (fs_cwd fs) \<noteq> 0x2F then fs_cwd fs @ [0x2F] else fs_cwd fs);
       let full_path = (if m path \<noteq> 0x2F then cwd else []) @ take dest text;
       case fs_readdir fs full_path of None \<Rightarrow> Some m
       | Some names \<Rightarrow>
          if dest = n then Some m
          else (case path_loop (drop dest text) names 0 0 [] of (multi, min_length, saved) \<Rightarrow>
            if min_length = 0 then Some m
            else do {
              let m = write_bytes (path + dest) (take min_length saved) m;
              let m = m(path + dest + min_length := 0);
              if multi = 1 then do {
                k \<leftarrow> rt_strlen m path;
                Some (if fs_is_folder fs (read_bytes m path k) then m(path + k := 0x2F, path + k + 1 := 0) else m)
              } else Some m
            })
     })"

text \<open>The loop over names: the first name that matches, and the length that all matching names share.\<close>

fun complete_loop :: "memory \<Rightarrow> (nat \<Rightarrow> bool) \<Rightarrow> nat list \<Rightarrow> nat option \<Rightarrow> nat \<Rightarrow> (nat option \<times> nat) option" where
  "complete_loop m hit [] name_ptr min_length = Some (name_ptr, min_length)"
| "complete_loop m hit (x # xs) name_ptr min_length =
    (if hit x then do {
       (name_ptr, min_length) \<leftarrow>
         (if min_length = 0 then do { k \<leftarrow> rt_strlen m x; Some (Some x, k) } else Some (name_ptr, min_length));
       len \<leftarrow> str_common m (the name_ptr) x;
       complete_loop m hit xs name_ptr (if len < min_length then len else min_length)
     } else complete_loop m hit xs name_ptr min_length)"

definition complete_name :: "nat \<Rightarrow> nat option \<times> nat \<Rightarrow> memory \<Rightarrow> memory" where
  "complete_name line r m = (case r of (None, _) \<Rightarrow> m | (Some name_ptr, min_length) \<Rightarrow> rt_strncpy m line name_ptr min_length)"

text \<open>The last space of the line, but not its first character.\<close>

definition last_space :: "memory \<Rightarrow> nat \<Rightarrow> nat \<Rightarrow> nat option" where
  "last_space m line n = find (\<lambda>i. m (line + i) = 0x20) (rev [1..<n + 1])"

definition msh_auto_complete :: "msh_fs \<Rightarrow> bool \<Rightarrow> finsh_syscall list \<Rightarrow> nat \<Rightarrow> memory \<Rightarrow> memory option" where
  "msh_auto_complete fs mem tab line m =
    (if m line = 0 then Some m
     else do {
       n \<leftarrow> rt_strlen m line;
       m \<leftarrow> (case last_space m line n of None \<Rightarrow> Some m | Some i \<Rightarrow> msh_auto_complete_path fs mem (line + i + 1) m);
       n \<leftarrow> rt_strlen m line;
       r \<leftarrow> complete_loop m (\<lambda>x. rt_strncmp m line x n = 0) (map sys_name tab) None 0;
       Some (complete_name line r m)
     })"

fun find_opt :: "finsh_syscall list \<Rightarrow> nat \<Rightarrow> nat \<Rightarrow> memory \<Rightarrow> msh_cmd_opt list option" where
  "find_opt [] s len m = None"
| "find_opt (x # xs) s len m =
    (if rt_strncmp m (sys_name x) s len = 0 \<and> m (sys_name x + len) = 0 then sys_opt x else find_opt xs s len m)"

definition msh_get_cmd_opt :: "finsh_syscall list \<Rightarrow> nat \<Rightarrow> memory \<Rightarrow> msh_cmd_opt list option option" where
  "msh_get_cmd_opt tab opt_str m = do { e \<leftarrow> find_end opt_str m; Some (find_opt tab opt_str (e - opt_str) m) }"

fun argc_loop :: "memory \<Rightarrow> nat \<Rightarrow> nat \<Rightarrow> nat option \<Rightarrow> nat \<Rightarrow> nat option \<times> nat" where
  "argc_loop m ch 0 last_argv argc = (last_argv, argc)"
| "argc_loop m ch (Suc n) last_argv argc =
    (if m ch = 0x20 \<and> m (ch + 1) \<noteq> 0 \<and> m (ch + 1) \<noteq> 0x20
     then argc_loop m (ch + 1) n (Some (ch + 1)) (argc + 1) else argc_loop m (ch + 1) n last_argv argc)"

definition msh_get_argc :: "nat \<Rightarrow> memory \<Rightarrow> (nat option \<times> nat) option" where
  "msh_get_argc line m = do { n \<leftarrow> rt_strlen m line; Some (argc_loop m line n None 0) }"

definition msh_opt_complete :: "nat \<Rightarrow> msh_cmd_opt list \<Rightarrow> memory \<Rightarrow> memory option" where
  "msh_opt_complete opts_str opts m = do {
     n \<leftarrow> rt_strlen m opts_str;
     r \<leftarrow> complete_loop m (\<lambda>x. rt_strncmp m x opts_str n = 0) (map opt_name (takeWhile (\<lambda>x. opt_id x \<noteq> 0) opts)) None 0;
     Some (complete_name opts_str r m)
   }"

definition msh_opt_auto_complete :: "finsh_syscall list \<Rightarrow> nat \<Rightarrow> memory \<Rightarrow> memory option" where
  "msh_opt_auto_complete tab line m = do {
     (opt_str, argc) \<leftarrow> msh_get_argc line m;
     n \<leftarrow> rt_strlen m line;
     opt \<leftarrow> (if argc \<noteq> 0 \<or> (msh_get_cmd tab line n m = None \<and> m (line + n - 1) = 0x20)
            then msh_get_cmd_opt tab line m else Some None);
     (case opt of Some (x # xs) \<Rightarrow>
        if opt_id x \<noteq> 0 \<and> argc = 1 then msh_opt_complete (the opt_str) (x # xs) m else Some m
      | _ \<Rightarrow> Some m)
   }"

fun msh_cmd_opt_id_get :: "nat list \<Rightarrow> msh_cmd_opt list \<Rightarrow> memory \<Rightarrow> u32 option" where
  "msh_cmd_opt_id_get argv [] m = Some 0"
| "msh_cmd_opt_id_get argv (x # xs) m =
    (if length argv \<ge> 2 \<and> opt_id x \<noteq> 0
     then do { r \<leftarrow> rt_strcmp m (opt_name x) (argv ! 1); if r = 0 then Some (opt_id x) else msh_cmd_opt_id_get argv xs m }
     else Some 0)"

section \<open>Commands are found and run\<close>

lemma strncmp_take:
  assumes w: "cstr m a w" and ys: "cstr m b ys" and n: "n \<le> length ys"
  shows "rt_strncmp m a b n = 0 \<longleftrightarrow> take n (w @ [0]) = take n ys"
proof
  assume "rt_strncmp m a b n = 0"
  then have eq: "m (a + i) = m (b + i)" if "i < n" "\<forall>j<i. m (a + j) \<noteq> 0" for i using that by (simp add: rt_strncmp_0)
  have all: "i \<le> n \<Longrightarrow> \<forall>j<i. m (a + j) = ys ! j \<and> m (a + j) \<noteq> 0" for i
  proof (induction i)
    case (Suc i)
    have i: "i < length ys" using Suc.prems n by simp
    have "m (b + i) = ys ! i" "ys ! i \<noteq> 0" using ys i by (simp_all add: cstr_def) (metis nth_mem)
    moreover have "m (a + i) = m (b + i)" using eq[of i] Suc.IH Suc.prems by (metis Suc_leD Suc_le_eq)
    ultimately show ?case using Suc by (auto simp: less_Suc_eq)
  qed simp
  have "n \<le> length w"
  proof (rule ccontr)
    assume "\<not> n \<le> length w"
    then have "m (a + length w) \<noteq> 0" using all[of n] by (metis not_le order_refl)
    then show False using w by (simp add: cstr_def)
  qed
  then show "take n (w @ [0]) = take n ys" using all[of n] w n by (auto simp: cstr_def intro!: nth_equalityI)
next
  assume t: "take n (w @ [0]) = take n ys"
  have nw: "n \<le> length w"
  proof (rule ccontr)
    assume "\<not> n \<le> length w"
    then have "0 = (take n ys) ! length w" "length w < n" unfolding t[symmetric] by (simp_all add: nth_append)
    then have "ys ! length w = 0" "length w < length ys" using n by simp_all
    then show False using ys by (metis cstr_def nth_mem)
  qed
  have "w ! i = ys ! i" if "i < n" for i
    using arg_cong[OF t, of "\<lambda>l. l ! i"] that nw by (simp add: nth_append)
  then show "rt_strncmp m a b n = 0" using w ys n nw by (simp add: rt_strncmp_0 cstr_def)
qed

lemma name_found:
  assumes "cstr m a w" and "cstr m b ys" and n: "n \<le> length ys"
  shows "rt_strncmp m a b n = 0 \<and> m (a + n) = 0 \<longleftrightarrow> w = take n ys"
proof -
  have "0 \<notin> set (take n ys)" using assms(2) by (auto simp: cstr_def dest: in_set_takeD)
  moreover have "m (a + n) = 0 \<longleftrightarrow> n = length w" if "n \<le> length w"
    using assms(1) that by (cases "n = length w") (auto simp: cstr_def, metis nth_mem order_less_le)
  moreover have "0 \<in> set (take n (w @ [0]))" if "\<not> n \<le> length w" using that by auto
  ultimately show ?thesis unfolding strncmp_take[OF assms]
    using n by (cases "n \<le> length w") (force, metis length_take min.absorb2 order_refl)
qed

abbreviation table_names :: "memory \<Rightarrow> finsh_syscall list \<Rightarrow> byte list list \<Rightarrow> bool" where
  "table_names m tab names \<equiv> list_all2 (\<lambda>x. cstr m (sys_name x)) tab names"

lemma get_cmd_lookup:
  assumes "table_names m tab names" and "cstr m cmd ys" and "n \<le> length ys"
  shows "msh_get_cmd tab cmd n m = map_of (zip names (map sys_func tab)) (take n ys)"
  using assms(1) by (induction rule: list_all2_induct) (use name_found[OF _ assms(2,3)] in auto)

lemma trim_spec: "cstr m cmd xs \<Longrightarrow> trim cmd (length xs) m = (cmd + length (takeWhile blank xs), length (dropWhile blank xs))"
  by (induction xs arbitrary: cmd) auto

lemma find_end_spec: "cstr m a ys \<Longrightarrow> find_end a m = Some (a + length (takeWhile (\<lambda>c. c \<noteq> 0x20) ys))"
  by (induction ys arbitrary: a) (auto simp: find_end.simps)

lemma words_trim: "words (dropWhile blank xs) = words xs"
  using words.simps[of xs] words.simps[of "dropWhile blank xs"] by simp

lemma words_nonempty: "dropWhile blank xs = c # cs \<Longrightarrow> words xs \<noteq> []"
  using words.simps[of xs] by auto

lemma read_bytes_cstr: "cstr m a xs \<Longrightarrow> read_bytes m a (length xs) = xs"
  by (auto simp: read_bytes_def cstr_def intro!: nth_equalityI)

lemma take_takeWhile: "take (length (takeWhile P xs)) xs = takeWhile P xs"
  by (metis append_eq_conv_conj takeWhile_dropWhile_id)

lemma exec_cmd_spec:
  assumes "cstr m cmd ys" and "table_names m tab names" and "ys \<noteq> []" and "\<not> blank (hd ys)"
  shows "case map_of (zip names (map sys_func tab)) (takeWhile nonblank ys) of None \<Rightarrow> msh_exec_cmd tab cmd (length ys) m = (None, m)
    | Some f \<Rightarrow> \<exists>argv m'. msh_exec_cmd tab cmd (length ys) m = (Some (f, argv), m') \<and> list_all2 (cstr m') argv (take FINSH_ARG_MAX (words ys))
        \<and> (\<forall>b. b < cmd \<or> cmd + length ys \<le> b \<longrightarrow> m' b = m b)"
proof -
  define n where "n = length (takeWhile nonblank ys)"
  have sk: "skip_word cmd (length ys) 0 m = n" using skip_word_spec[of m cmd 0 ys] assms(1) by (simp add: n_def)
  have n: "n \<noteq> 0" "n \<le> length ys" using assms(3,4) by (cases ys; simp add: n_def) (simp add: n_def length_takeWhile_le)
  have look: "msh_get_cmd tab cmd n m = map_of (zip names (map sys_func tab)) (takeWhile nonblank ys)"
    using get_cmd_lookup[OF assms(2,1) n(2)] by (simp add: n_def take_takeWhile)
  obtain args m' where s: "msh_split cmd (length ys) m = (args, m')" "split_result cmd m ys FINSH_ARG_MAX args m'"
    using split_loop_spec[of m cmd 0 ys "[]"] assms(1) by (auto simp: msh_split_def)
  have "words ys \<noteq> []" using words_nonempty[of ys "hd ys" "tl ys"] assms(3,4) by (cases ys) auto
  then have "args \<noteq> []" using s(2) by (auto simp: split_result_def FINSH_ARG_MAX_def)
  then show ?thesis using sk n look s
    by (auto simp: msh_exec_cmd_def split_result_def split: option.splits)
qed

section \<open>Names are completed\<close>

lemma common_loop_spec:
  "cstr m a xs \<Longrightarrow> cstr m b ys \<Longrightarrow> common_loop m a b n = Some (n + length (longest_common_prefix xs ys))"
proof (induction xs ys arbitrary: a b n rule: longest_common_prefix.induct)
  case (1 x xs y ys)
  then show ?case by (auto simp: common_loop.simps[of m a b])
qed (simp_all add: common_loop.simps)

lemma str_common_spec: "cstr m a xs \<Longrightarrow> cstr m b ys \<Longrightarrow> str_common m a b = Some (length (longest_common_prefix xs ys))"
  by (simp add: str_common_def common_loop_spec)

text \<open>What the loop knows after the names \<open>ws\<close>; \<open>P\<close> holds of an address and the name there.\<close>

definition shared :: "(nat \<Rightarrow> byte list \<Rightarrow> bool) \<Rightarrow> byte list set \<Rightarrow> nat option \<times> nat \<Rightarrow> bool" where
  "shared P ws r \<longleftrightarrow> (if ws = {} then r = (None, 0)
    else \<exists>x w. r = (Some x, length (Longest_common_prefix ws)) \<and> w \<in> ws \<and> P x w)"

lemma Longest_insert:
  assumes "ws \<noteq> {}" and "u \<in> ws"
  shows "length (Longest_common_prefix (insert w ws)) = min (length (Longest_common_prefix ws)) (length (longest_common_prefix u w))"
proof -
  let ?L = "Longest_common_prefix ws"
  let ?k = "min (length ?L) (length (longest_common_prefix u w))"
  have pu: "prefix ?L u" using Longest_common_prefix_prefix[OF assms(2)] .
  have pl: "prefix (longest_common_prefix u w) u" "prefix (longest_common_prefix u w) w"
    by (simp_all add: longest_common_prefix_prefix1 longest_common_prefix_prefix2)
  have "Longest_common_prefix (insert w ws) = take ?k u"
  proof (rule Longest_common_prefix_eq)
    have "prefix (take ?k u) ?L" "prefix (take ?k u) (longest_common_prefix u w)"
      using pu pl(1) by (auto intro!: prefix_length_prefix[of _ u] take_is_prefix)
    then show "\<forall>xs \<in> insert w ws. prefix (take ?k u) xs"
      using pl(2) Longest_common_prefix_prefix[of _ ws] prefix_order.trans by blast
    have "length ?L \<le> length u" "length (longest_common_prefix u w) \<le> length u" using pu pl(1) by (simp_all add: prefix_length_le)
    then have lk: "length (take ?k u) = ?k" by simp
    show "\<forall>qs. (\<forall>xs \<in> insert w ws. prefix qs xs) \<longrightarrow> length qs \<le> length (take ?k u)"
    proof (intro allI impI)
      fix qs assume q: "\<forall>xs \<in> insert w ws. prefix qs xs"
      then have "prefix qs ?L" "prefix qs (longest_common_prefix u w)"
        using Longest_common_prefix_max_prefix[OF assms(1), of qs] longest_common_prefix_max_prefix[of qs u w] assms(2) by auto
      then show "length qs \<le> length (take ?k u)" unfolding lk by (simp add: prefix_length_le)
    qed
  qed simp
  moreover have "length (take ?k u) = ?k" using pu pl(1) prefix_length_le by fastforce
  ultimately show ?thesis by simp
qed

lemma Longest_nonempty:
  assumes "\<And>w. w \<in> ws \<Longrightarrow> prefix pat w" and "ws \<noteq> {}" and "pat \<noteq> []"
  shows "0 < length (Longest_common_prefix ws)"
  using Longest_common_prefix_max_prefix[OF assms(2), of pat] assms(1,3) by (auto simp: prefix_def)

lemma complete_loop_spec:
  assumes "list_all2 (\<lambda>x w. P x w \<and> (hit x \<longleftrightarrow> prefix pat w)) xs names"
    and "shared P ws (np, k)" and "\<And>w. w \<in> ws \<Longrightarrow> prefix pat w" and "pat \<noteq> []"
    and str: "\<And>x w. P x w \<Longrightarrow> cstr m x w"
  shows "\<exists>r. complete_loop m hit xs np k = Some r \<and> shared P (ws \<union> {w \<in> set names. prefix pat w}) r"
  using assms(1-3)
proof (induction arbitrary: ws np k rule: list_all2_induct)
  case Nil
  then show ?case by simp
next
  case (Cons x xs w names)
  show ?case
  proof (cases "prefix pat w")
    case False
    then have "{w' \<in> set (w # names). prefix pat w'} = {w' \<in> set names. prefix pat w'}" by auto
    then show ?thesis using Cons.IH[OF Cons.prems] Cons.hyps(1) False by simp
  next
    case True
    have st: "shared P (insert w ws) (if ws = {} then (Some x, length w) else (np, min k (length (longest_common_prefix w' w))))"
      if "ws \<noteq> {} \<longrightarrow> w' \<in> ws \<and> P (the np) w'" for w'
    proof (cases "ws = {}")
      case True
      have "Longest_common_prefix {w} = w" by (rule Longest_common_prefix_eq) (auto simp: prefix_length_le)
      then show ?thesis using True Cons.hyps(1) by (auto simp: shared_def)
    next
      case False
      then show ?thesis using Cons.prems(1) that Longest_insert[OF False, of w' w] by (auto simp: shared_def)
    qed
    obtain np' k' where r: "shared P (insert w ws) (np', k')"
      "complete_loop m hit (x # xs) np k = complete_loop m hit xs np' k'"
    proof (cases "ws = {}")
      case t: True
      then have "np = None" "k = 0" using Cons.prems(1) by (auto simp: shared_def)
      moreover have "longest_common_prefix w w = w" by (induction w) auto
      ultimately show ?thesis
        using that st[of w] t True Cons.hyps(1) rt_strlen_cstr[of m x w] str_common_spec[of m x w x w] str by auto
    next
      case f: False
      then obtain y w' where w': "np = Some y" "w' \<in> ws" "P y w'" "k = length (Longest_common_prefix ws)"
        using Cons.prems(1) by (auto simp: shared_def)
      then have "k \<noteq> 0" using Longest_nonempty[OF Cons.prems(2) f assms(4)] by simp
      then show ?thesis
        using that st[of w'] f w' True Cons.hyps(1) str_common_spec[OF str[OF w'(3)], of x w] str by (auto simp: min_def)
    qed
    have "ws \<union> {w' \<in> set (w # names). prefix pat w'} = insert w ws \<union> {w' \<in> set names. prefix pat w'}" using True by auto
    then show ?thesis using Cons.IH[OF r(1)] Cons.prems(2) True r(2) by auto
  qed
qed

text \<open>What \<open>msh_exec\<close> does with a line \<open>xs\<close> whose text after the blanks is \<open>ys\<close>.\<close>

lemma exec_trimmed:
  assumes "cstr m cmd xs" and "ys = dropWhile blank xs" and "k = length (takeWhile blank xs)"
  shows "trim cmd (length xs) m = (cmd + k, length ys)" and "cstr m (cmd + k) ys" and "length xs = k + length ys"
    and "ys \<noteq> [] \<Longrightarrow> \<not> blank (hd ys)" and "words ys = words xs"
proof -
  show "length xs = k + length ys" unfolding assms by (metis length_append takeWhile_dropWhile_id)
  show "trim cmd (length xs) m = (cmd + k, length ys)" using trim_spec[OF assms(1)] by (simp add: assms)
  show "cstr m (cmd + k) ys" unfolding assms dropWhile_eq_drop by (rule cstr_drop[OF assms(1) length_takeWhile_le])
  show "words ys = words xs" by (simp add: assms words_trim)
  show "ys \<noteq> [] \<Longrightarrow> \<not> blank (hd ys)" using hd_dropWhile[of blank xs] by (auto simp: assms)
qed

lemma exec_found:
  assumes c: "cstr m cmd xs" and t: "table_names m tab names" and ys: "ys = dropWhile blank xs" "ys \<noteq> []"
    and f: "map_of (zip names (map sys_func tab)) (takeWhile nonblank ys) = Some f"
  shows "\<exists>argv m'. msh_exec fs tab cmd (length xs) m = Some (MshRun f argv, m')
    \<and> list_all2 (cstr m') argv (take FINSH_ARG_MAX (words xs)) \<and> (\<forall>b. b < cmd \<or> cmd + length xs \<le> b \<longrightarrow> m' b = m b)"
proof -
  define k where "k = length (takeWhile blank xs)"
  note tr = exec_trimmed[OF c ys(1) k_def]
  obtain argv m' where "msh_exec_cmd tab (cmd + k) (length ys) m = (Some (f, argv), m')"
    "list_all2 (cstr m') argv (take FINSH_ARG_MAX (words ys))" "\<forall>b. b < cmd + k \<or> cmd + k + length ys \<le> b \<longrightarrow> m' b = m b"
    using exec_cmd_spec[OF tr(2) t ys(2) tr(4)[OF ys(2)]] f by auto
  then show ?thesis using tr ys(2) by (auto simp: msh_exec_def intro!: exI[of _ argv] exI[of _ m'])
qed

lemma exec_missing:
  assumes c: "cstr m cmd xs" and t: "table_names m tab names" and ys: "ys = dropWhile blank xs" "ys \<noteq> []"
    and f: "map_of (zip names (map sys_func tab)) (takeWhile nonblank ys) = None"
  defines "e \<equiv> takeWhile (\<lambda>c. c \<noteq> 0x20) ys"
  defines "a \<equiv> cmd + length (takeWhile blank xs)"
  shows "msh_exec fs tab cmd (length xs) m = Some (if fs_script fs ys then (MshScript, m) else (MshNotFound, m(a + length e := 0)))"
    and "cstr (m(a + length e := 0)) a e" and "cmd \<le> a + length e \<and> a + length e \<le> cmd + length xs"
proof -
  note tr = exec_trimmed[OF c ys(1) refl, folded a_def]
  have le: "length e \<le> length ys" by (simp add: e_def length_takeWhile_le)
  have "msh_exec_cmd tab a (length ys) m = (None, m)" using exec_cmd_spec[OF tr(2) t ys(2) tr(4)[OF ys(2)]] f by simp
  then show "msh_exec fs tab cmd (length xs) m = Some (if fs_script fs ys then (MshScript, m) else (MshNotFound, m(a + length e := 0)))"
    using tr(1) ys(2) find_end_spec[OF tr(2)] by (simp add: msh_exec_def read_bytes_cstr[OF tr(2)] e_def)
  show "cstr (m(a + length e := 0)) a e"
    using cstr_take[OF tr(2) le] unfolding e_def take_takeWhile .
  show "cmd \<le> a + length e \<and> a + length e \<le> cmd + length xs" using tr(3) le by (simp add: a_def)
qed

lemma exec_blank: "cstr m cmd xs \<Longrightarrow> dropWhile blank xs = [] \<Longrightarrow> msh_exec fs tab cmd (length xs) m = Some (MshNothing, m)"
  using exec_trimmed(1)[OF _ refl refl, of m cmd xs] by (simp add: msh_exec_def)

text \<open>In every case the interpreter returns, and writes nothing but the line.\<close>

lemma exec_frame:
  assumes "cstr m cmd xs" and "table_names m tab names"
  obtains out m' where "msh_exec fs tab cmd (length xs) m = Some (out, m')" "\<And>b. b < cmd \<or> cmd + length xs < b \<Longrightarrow> m' b = m b"
proof (cases "dropWhile blank xs = []")
  case True
  then show ?thesis using that exec_blank[OF assms(1)] by blast
next
  case False
  show ?thesis
  proof (cases "map_of (zip names (map sys_func tab)) (takeWhile nonblank (dropWhile blank xs))")
    case None
    note n = exec_missing[OF assms refl False None]
    show ?thesis
    proof (cases "fs_script fs (dropWhile blank xs)")
      case True
      then show ?thesis using that n(1)[of fs] by simp
    next
      case f: False
      show ?thesis by (rule that[OF n(1)[of fs, unfolded if_not_P[OF f]]]) (use n(3) in auto)
    qed
  next
    case (Some f)
    obtain argv m' where "msh_exec fs tab cmd (length xs) m = Some (MshRun f argv, m')" "\<forall>b. b < cmd \<or> cmd + length xs \<le> b \<longrightarrow> m' b = m b"
      using exec_found[OF assms refl False Some, of fs] by blast
    then show ?thesis using that less_imp_le by metis
  qed
qed

section \<open>Properties\<close>

text \<open>C29: A command line runs its command. The first word of the line is looked up among the command names; the first entry
  with that name is called, with the words of the line as its arguments, at most ten of them, each a string in the line's
  own memory; nothing outside the line is written. A line of blanks does nothing. A line with no command is offered to the file
  system as a script, and otherwise cut at its first space, for the error message.\<close>

theorem msh_exec_runs_command:
  assumes "cstr m cmd xs" and "table_names m tab names"
  shows "let ys = dropWhile blank xs in
    if ys = [] then msh_exec fs tab cmd (length xs) m = Some (MshNothing, m)
    else case map_of (zip names (map sys_func tab)) (takeWhile nonblank ys) of
      Some f \<Rightarrow> \<exists>argv m'. msh_exec fs tab cmd (length xs) m = Some (MshRun f argv, m')
        \<and> list_all2 (cstr m') argv (take FINSH_ARG_MAX (words xs)) \<and> (\<forall>b. b < cmd \<or> cmd + length xs \<le> b \<longrightarrow> m' b = m b)
    | None \<Rightarrow> if fs_script fs ys then msh_exec fs tab cmd (length xs) m = Some (MshScript, m)
        else \<exists>m'. msh_exec fs tab cmd (length xs) m = Some (MshNotFound, m')
          \<and> cstr m' (cmd + length (takeWhile blank xs)) (takeWhile (\<lambda>c. c \<noteq> 0x20) ys)
          \<and> (\<forall>b. b < cmd \<or> cmd + length xs < b \<longrightarrow> m' b = m b)"
proof (cases "dropWhile blank xs = []")
  case True
  then show ?thesis using exec_blank[OF assms(1)] by simp
next
  case False
  show ?thesis
  proof (cases "map_of (zip names (map sys_func tab)) (takeWhile nonblank (dropWhile blank xs))")
    case None
    note n = exec_missing[OF assms refl False None]
    show ?thesis
      by (simp only: Let_def False None if_False option.case) (use n(1)[of fs] n(2,3) in auto)
  next
    case (Some f)
    from exec_found[OF assms refl False Some, of fs] show ?thesis by (simp only: Let_def False Some if_False option.case)
  qed
qed

definition demo_line :: "byte list" where
  "demo_line = map of_char ''ps  '' @ QUOTE # map of_char ''a b'' @ [QUOTE]"

definition demo_shell_mem :: memory where
  "demo_shell_mem = write_bytes 100 demo_line (write_bytes 300 (map of_char ''ps'') (write_bytes 310 (map of_char ''pin'') (\<lambda>_. 0)))"

definition demo_table :: "finsh_syscall list" where
  "demo_table = [\<lparr> sys_name = 310, sys_opt = None, sys_func = 7 \<rparr>, \<lparr> sys_name = 300, sys_opt = None, sys_func = 8 \<rparr>]"

definition no_files :: msh_fs where
  "no_files = \<lparr> fs_script = (\<lambda>_. False), fs_cwd = [0x2F], fs_readdir = (\<lambda>_. None), fs_is_folder = (\<lambda>_. False),
     cmd_effect = (\<lambda>_ m. m) \<rparr>"

lemma demo_strings:
  "cstr demo_shell_mem 100 demo_line" "cstr demo_shell_mem 300 (map of_char ''ps'')" "cstr demo_shell_mem 310 (map of_char ''pin'')"
  by (simp_all add: demo_shell_mem_def write_bytes_def demo_line_def)

lemma demo_words:
  "words demo_line = [map of_char ''ps'', map of_char ''a b'']" "dropWhile blank demo_line = demo_line" "demo_line \<noteq> []"
  "length demo_line = 9" "takeWhile nonblank demo_line = map of_char ''ps''"
  "map_of (zip [map of_char ''pin'', map of_char ''ps''] (map sys_func demo_table)) (map of_char ''ps'' :: byte list) = Some 8"
  by code_simp+

theorem msh_exec_runs_command_witness:
  "\<exists>argv m'. msh_exec no_files demo_table 100 9 demo_shell_mem = Some (MshRun 8 argv, m')
     \<and> list_all2 (cstr m') argv [map of_char ''ps'', map of_char ''a b'']"
proof -
  have "table_names demo_shell_mem demo_table [map of_char ''pin'', map of_char ''ps'']"
    using demo_strings(2,3) by (simp add: demo_table_def)
  from msh_exec_runs_command[OF demo_strings(1) this, of no_files]
  show ?thesis by (simp only: Let_def demo_words if_False option.case) (simp add: FINSH_ARG_MAX_def, blast)
qed

text \<open>A word can be written as it is, or in quotes.\<close>

definition encodes :: "byte list \<Rightarrow> byte list \<Rightarrow> bool" where
  "encodes e w \<longleftrightarrow> e = QUOTE # w @ [QUOTE] \<and> QUOTE \<notin> set w \<and> BACKSLASH \<notin> set w
    \<or> e = w \<and> w \<noteq> [] \<and> hd w \<noteq> QUOTE \<and> (\<forall>c \<in> set w. \<not> blank c)"

lemma string_end_append: "QUOTE \<notin> set w \<Longrightarrow> BACKSLASH \<notin> set w \<Longrightarrow> string_end (w @ QUOTE # xs) = length w"
proof (induction w)
  case Nil
  then show ?case by (cases xs) auto
next
  case (Cons c w)
  then show ?case by (cases w) auto
qed

lemma words_blank: "words (0x20 # xs) = words xs"
  using words.simps[of "0x20 # xs"] words.simps[of xs] by (simp add: blank_def)

lemma words_encoded:
  assumes "encodes e w"
  shows "words (e @ 0x20 # xs) = w # words xs"
  using assms unfolding encodes_def
proof
  assume h: "e = QUOTE # w @ [QUOTE] \<and> QUOTE \<notin> set w \<and> BACKSLASH \<notin> set w"
  then have "dropWhile blank (e @ 0x20 # xs) = QUOTE # w @ QUOTE # 0x20 # xs" by (simp add: blank_def)
  then show ?thesis
    using words.simps[of "e @ 0x20 # xs"] string_end_append[of w "0x20 # xs"] h words_blank[of xs] by simp
next
  assume h: "e = w \<and> w \<noteq> [] \<and> hd w \<noteq> QUOTE \<and> (\<forall>c \<in> set w. \<not> blank c)"
  then obtain c cs where w: "w = c # cs" by (cases w) auto
  have "dropWhile blank (e @ 0x20 # xs) = c # (cs @ 0x20 # xs)" using h w by simp
  moreover have "takeWhile nonblank (c # (cs @ 0x20 # xs)) = w" "dropWhile nonblank (c # (cs @ 0x20 # xs)) = 0x20 # xs"
    using h w by (auto simp: takeWhile_append2 dropWhile_append2 blank_def)
  ultimately show ?thesis using words.simps[of "e @ 0x20 # xs"] h w words_blank[of xs] by simp
qed

text \<open>C30: Arguments survive the command line if they can be written on it: up to ten arguments, each followed by a blank, and each written (\<open>encodes\<close>) either as it is, if it is not empty, has no
  blank or tab in it and does not begin with a quote, or in quotes, if it has neither a quote nor a backslash in it, come out of the
  splitting again as they were. The splitter removes no escapes, so a quoted argument with a quote or a backslash in it
  is not covered.\<close>

theorem msh_split_roundtrip:
  assumes "list_all2 encodes es ws" and "length ws \<le> FINSH_ARG_MAX" and "cstr m cmd (concat (map (\<lambda>e. e @ [0x20]) es))"
  shows "\<exists>argv m'. msh_split cmd (length (concat (map (\<lambda>e. e @ [0x20]) es))) m = (argv, m') \<and> list_all2 (cstr m') argv ws"
proof -
  have "words (concat (map (\<lambda>e. e @ [0x20]) es)) = ws"
    using assms(1) by (induction rule: list_all2_induct) (simp_all add: words_encoded)
  then show ?thesis
    using split_loop_spec[of m cmd 0 "concat (map (\<lambda>e. e @ [0x20]) es)" "[]"] assms(2,3)
    by (auto simp: msh_split_def split_result_def)
qed

theorem msh_split_roundtrip_witness:
  "\<exists>argv m'. msh_split 100 (Suc 3) (write_bytes 100 [QUOTE, 0x20, QUOTE, 0x20] (\<lambda>_. 0)) = (argv, m') \<and> list_all2 (cstr m') argv [[0x20]]"
  using msh_split_roundtrip[of "[[QUOTE, 0x20, QUOTE]]" "[[0x20]]" "write_bytes 100 [QUOTE, 0x20, QUOTE, 0x20] (\<lambda>_. 0)" 100]
  by (simp add: encodes_def FINSH_ARG_MAX_def write_bytes_def numeral_3_eq_3)

lemma strncpy_write:
  assumes "cstr m x w" and "prefix v w" and "x + length w < line \<or> line + length w < x"
  shows "rt_strncpy m line x (length v) = write_bytes line v m"
proof -
  have l: "length v \<le> length w" by (rule prefix_length_le[OF assms(2)])
  have v: "m (x + j) = v ! j" "m (x + j) \<noteq> 0" if "j < length v" for j
    using assms(1,2) that l by (auto simp: cstr_def prefix_def nth_append) (metis nth_mem)
  have "line + length v \<le> x \<or> x + length v \<le> line" using assms(3) l by linarith
  note c = rt_strncpy_spec[OF this]
  show ?thesis
  proof
    fix b
    have "\<not> (\<exists>j \<le> b - line. m (x + j) = 0)" if "line \<le> b" "b < line + length v" using v(2) that by auto
    then show "rt_strncpy m line x (length v) b = write_bytes line v m b" using v(1)[of "b - line"] by (auto simp: c write_bytes_def)
  qed
qed

lemma last_space_none: "cstr m line xs \<Longrightarrow> 0x20 \<notin> set xs \<Longrightarrow> last_space m line (length xs) = None"
  by (auto simp: last_space_def find_None_iff cstr_def) (metis nat_less_le less_Suc_eq_le nth_mem zero_neq_numeral)

lemma prefix_hit:
  assumes xs: "cstr m line xs" and w: "cstr m a w"
  shows "rt_strncmp m line a (length xs) = 0 \<longleftrightarrow> prefix xs w"
proof -
  have "rt_strncmp m line a (length xs) = 0 \<longleftrightarrow> (\<forall>i < length xs. m (a + i) = xs ! i)"
    using xs by (auto simp: rt_strncmp_0 cstr_def) (metis nth_mem order_less_trans)
  also have "\<dots> \<longleftrightarrow> prefix xs w"
  proof
    assume h: "\<forall>i < length xs. m (a + i) = xs ! i"
    have "length xs \<le> length w" using h w xs by (metis cstr_def linorder_not_le nth_mem)
    then have "xs = take (length xs) w" using h w by (auto simp: cstr_def intro!: nth_equalityI)
    then show "prefix xs w" by (metis take_is_prefix)
  qed (use w in \<open>auto simp: prefix_def cstr_def nth_append\<close>)
  finally show ?thesis .
qed

text \<open>Completion extends a command to what is certain. For a line that is the beginning of some command names, the line
  becomes the longest text that all of them begin with; a line that no command name begins with is left alone. Nothing else
  in memory changes.\<close>

theorem msh_auto_complete_longest:
  assumes "cstr m line xs" and "xs \<noteq> []" and "0x20 \<notin> set xs" and "table_names m tab names"
    and "\<And>x w. (x, w) \<in> set (zip tab names) \<Longrightarrow> sys_name x + length w < line \<or> line + length w < sys_name x"
  shows "msh_auto_complete fs mem tab line m =
    Some (if \<exists>w \<in> set names. prefix xs w then write_bytes line (Longest_common_prefix {w \<in> set names. prefix xs w}) m else m)"
proof -
  define ws where "ws = {w \<in> set names. prefix xs w}"
  define P where "P = (\<lambda>x w. cstr m x w \<and> (x + length w < line \<or> line + length w < x))"
  have "list_all2 (\<lambda>x w. P x w \<and> (rt_strncmp m line x (length xs) = 0 \<longleftrightarrow> prefix xs w)) (map sys_name tab) names"
    unfolding list_all2_map1
  proof (rule list_all2_all_nthI)
    show "length tab = length names" using assms(4) by (rule list_all2_lengthD)
    fix i assume i: "i < length tab"
    then have c: "cstr m (sys_name (tab ! i)) (names ! i)" using assms(4) by (rule list_all2_nthD[rotated])
    have "(tab ! i, names ! i) \<in> set (zip tab names)" using i list_all2_lengthD[OF assms(4)] by (auto simp: in_set_zip)
    with c show "P (sys_name (tab ! i)) (names ! i)
        \<and> (rt_strncmp m line (sys_name (tab ! i)) (length xs) = 0 \<longleftrightarrow> prefix xs (names ! i))"
      using prefix_hit[OF assms(1) c] assms(5)[of "tab ! i" "names ! i"] unfolding P_def by blast
  qed
  moreover have "shared P {} (None, 0)" "\<And>x w. P x w \<Longrightarrow> cstr m x w" by (simp_all add: shared_def P_def)
  ultimately have "\<exists>r. complete_loop m (\<lambda>x. rt_strncmp m line x (length xs) = 0) (map sys_name tab) None 0 = Some r
      \<and> shared P ({} \<union> ws) r"
    unfolding ws_def by (intro complete_loop_spec) (use assms(2) in auto)
  then obtain r
    where r: "complete_loop m (\<lambda>x. rt_strncmp m line x (length xs) = 0) (map sys_name tab) None 0 = Some r" "shared P ws r"
    by auto
  have "m line \<noteq> 0" using assms(1,2) by (cases xs) auto
  then have e: "msh_auto_complete fs mem tab line m = Some (complete_name line r m)"
    using rt_strlen_cstr[OF assms(1)] last_space_none[OF assms(1,3)] r(1) by (simp add: msh_auto_complete_def)
  show ?thesis
  proof (cases "ws = {}")
    case True
    then show ?thesis using e r(2) by (auto simp: shared_def complete_name_def ws_def)
  next
    case False
    then obtain x w where w: "r = (Some x, length (Longest_common_prefix ws))" "w \<in> ws" "P x w" using r(2) by (auto simp: shared_def)
    then have "rt_strncpy m line x (length (Longest_common_prefix ws)) = write_bytes line (Longest_common_prefix ws) m"
      using Longest_common_prefix_prefix[OF w(2)] by (intro strncpy_write) (auto simp: P_def)
    then show ?thesis using e False w(1) by (auto simp: complete_name_def ws_def)
  qed
qed

theorem msh_auto_complete_longest_witness:
  "msh_auto_complete no_files True demo_table 100 (write_bytes 100 [0x70] (write_bytes 300 (map of_char ''ps'') (write_bytes 310 (map of_char ''pin'') (\<lambda>_. 0))))
   = Some (write_bytes 100 (Longest_common_prefix {map of_char ''pin'', map of_char ''ps''})
       (write_bytes 100 [0x70] (write_bytes 300 (map of_char ''ps'') (write_bytes 310 (map of_char ''pin'') (\<lambda>_. 0)))))"
proof -
  let ?m = "write_bytes 100 [0x70] (write_bytes 300 (map of_char ''ps'') (write_bytes 310 (map of_char ''pin'') (\<lambda>_. 0)))"
  have "cstr ?m 100 [0x70]" "table_names ?m demo_table [map of_char ''pin'', map of_char ''ps'']"
    by (simp_all add: demo_table_def write_bytes_def)
  moreover have "sys_name x + length w < 100 \<or> 100 + length w < sys_name x"
    if "(x, w) \<in> set (zip demo_table [map of_char ''pin'', map of_char ''ps'' :: byte list])" for x w
    using that by (auto simp: demo_table_def)
  ultimately have "msh_auto_complete no_files True demo_table 100 ?m =
    Some (if \<exists>w \<in> set [map of_char ''pin'', map of_char ''ps'']. prefix [0x70 :: byte] w
      then write_bytes 100 (Longest_common_prefix {w \<in> set [map of_char ''pin'', map of_char ''ps'']. prefix [0x70] w}) ?m else ?m)"
    by (intro msh_auto_complete_longest) auto
  moreover have "{w \<in> set [map of_char ''pin'', map of_char ''ps'']. prefix [0x70 :: byte] w} = {map of_char ''pin'', map of_char ''ps''}" by auto
  ultimately show ?thesis by simp
qed

end
