(* ===== verification/Shell.thy ===== *)
theory Shell
  imports Msh
begin

text \<open>
  The line editor of the shell (\<open>rt-thread/components/finsh/shell.c\<close>): the characters that arrive from the console edit a
  command line, with a cursor, a history of five lines and completion; the end of the line runs it. The object's
  arrays \<open>cmd_history\<close> and \<open>line\<close> and the two positions \<open>line_position\<close> and \<open>line_curpos\<close> behind them lie in memory, from \<open>sh_base\<close> on, as \<open>shell.h\<close> lays
  them out, so that an access outside \<open>line\<close> reaches what is beside it, the positions first; the members in front of the arrays, which no access
  of the editor reaches, are fields. One character is one step. Characters are unsigned
  on this target. What is echoed to the console is not modelled.
\<close>

section \<open>The shell object\<close>

datatype input_stat = WAIT_NORMAL | WAIT_SPEC_KEY | WAIT_FUNC_KEY

record finsh_shell =
  sh_stat :: input_stat
  echo_mode :: bool
  prompt_mode :: bool
  current_history :: u16
  history_count :: u16
  sh_mem :: memory
  sh_base :: nat

definition FINSH_CMD_SIZE :: nat where "FINSH_CMD_SIZE = 80"
definition FINSH_HISTORY_LINES :: nat where "FINSH_HISTORY_LINES = 5"

definition hist_at :: "finsh_shell \<Rightarrow> nat \<Rightarrow> nat" where "hist_at sh i = sh_base sh + FINSH_CMD_SIZE * i"
definition line_at :: "finsh_shell \<Rightarrow> nat" where "line_at sh = sh_base sh + FINSH_CMD_SIZE * FINSH_HISTORY_LINES"

text \<open>Halfwords in memory; the target is little-endian.\<close>

definition get16 :: "memory \<Rightarrow> nat \<Rightarrow> u16" where
  "get16 m a = of_nat (unat (m a) + 256 * unat (m (a + 1)))"

definition put16 :: "nat \<Rightarrow> u16 \<Rightarrow> memory \<Rightarrow> memory" where
  "put16 a v m = m(a := of_nat (unat v), a + 1 := of_nat (unat v div 256))"

text \<open>\<open>line\<close> has 81 bytes and an even address, so the positions are at the offsets 82 and 84 from it.\<close>

definition line_position :: "finsh_shell \<Rightarrow> u16" where
  "line_position sh = get16 (sh_mem sh) (line_at sh + 82)"

definition line_curpos :: "finsh_shell \<Rightarrow> u16" where
  "line_curpos sh = get16 (sh_mem sh) (line_at sh + 84)"

definition set_position :: "u16 \<Rightarrow> finsh_shell \<Rightarrow> finsh_shell" where
  "set_position v sh = sh\<lparr> sh_mem := put16 (line_at sh + 82) v (sh_mem sh) \<rparr>"

definition set_curpos :: "u16 \<Rightarrow> finsh_shell \<Rightarrow> finsh_shell" where
  "set_curpos v sh = sh\<lparr> sh_mem := put16 (line_at sh + 84) v (sh_mem sh) \<rparr>"

text \<open>The two modes are fields of one bit.\<close>

definition finsh_set_echo :: "u32 \<Rightarrow> finsh_shell \<Rightarrow> finsh_shell" where
  "finsh_set_echo e sh = sh\<lparr> echo_mode := bit e 0 \<rparr>"

definition finsh_get_echo :: "finsh_shell \<Rightarrow> u32" where
  "finsh_get_echo sh = of_bool (echo_mode sh)"

definition finsh_set_prompt_mode :: "u32 \<Rightarrow> finsh_shell \<Rightarrow> finsh_shell" where
  "finsh_set_prompt_mode p sh = sh\<lparr> prompt_mode := bit p 0 \<rparr>"

definition finsh_get_prompt_mode :: "finsh_shell \<Rightarrow> u32" where
  "finsh_get_prompt_mode sh = of_bool (prompt_mode sh)"

section \<open>History\<close>

definition shift_history :: "finsh_shell \<Rightarrow> memory" where
  "shift_history sh =
    fold (\<lambda>i m. rt_memcpy m (hist_at sh i) (hist_at sh (i + 1)) FINSH_CMD_SIZE) [0..<FINSH_HISTORY_LINES - 1] (sh_mem sh)"

definition store_line :: "nat \<Rightarrow> finsh_shell \<Rightarrow> memory \<Rightarrow> memory" where
  "store_line i sh m =
    rt_memcpy (rt_memset m (hist_at sh i) 0 FINSH_CMD_SIZE) (hist_at sh i) (line_at sh) (unat (line_position sh))"

definition same_line :: "nat \<Rightarrow> finsh_shell \<Rightarrow> bool" where
  "same_line i sh \<longleftrightarrow> rt_memcmp (sh_mem sh) (hist_at sh i) (line_at sh) FINSH_CMD_SIZE = 0"

definition shell_push_history :: "finsh_shell \<Rightarrow> finsh_shell" where
  "shell_push_history sh =
    (let sh =
       (if line_position sh \<noteq> 0 then
          if unat (history_count sh) \<ge> FINSH_HISTORY_LINES then
            if \<not> same_line (FINSH_HISTORY_LINES - 1) sh
            then sh\<lparr> sh_mem := store_line (FINSH_HISTORY_LINES - 1) sh (shift_history sh),
                     history_count := of_nat FINSH_HISTORY_LINES \<rparr>
            else sh
          else if history_count sh = 0 \<or> \<not> same_line (unat (history_count sh) - 1) sh
            then sh\<lparr> current_history := history_count sh, sh_mem := store_line (unat (history_count sh)) sh (sh_mem sh),
                     history_count := history_count sh + 1 \<rparr>
            else sh
        else sh)
     in sh\<lparr> current_history := history_count sh \<rparr>)"

text \<open>A line from the history replaces the line.\<close>

definition recall :: "finsh_shell \<Rightarrow> finsh_shell option" where
  "recall sh =
    (let m = rt_memcpy (sh_mem sh) (line_at sh) (hist_at sh (unat (current_history sh))) FINSH_CMD_SIZE
     in do { n \<leftarrow> rt_strlen m (line_at sh);
             Some (set_curpos (of_nat n) (set_position (of_nat n) (sh\<lparr> sh_mem := m \<rparr>))) })"

definition key_up :: "finsh_shell \<Rightarrow> finsh_shell option" where
  "key_up sh =
    (if current_history sh > 0 then recall (sh\<lparr> current_history := current_history sh - 1 \<rparr>)
     else Some (sh\<lparr> current_history := 0 \<rparr>))"

definition key_down :: "finsh_shell \<Rightarrow> finsh_shell option" where
  "key_down sh =
    (if uint (current_history sh) < uint (history_count sh) - 1
     then recall (sh\<lparr> current_history := current_history sh + 1 \<rparr>)
     else if history_count sh \<noteq> 0 then recall (sh\<lparr> current_history := history_count sh - 1 \<rparr>)
     else Some sh)"

section \<open>Editing\<close>

definition key_left :: "finsh_shell \<Rightarrow> finsh_shell" where
  "key_left sh = (if line_curpos sh \<noteq> 0 then set_curpos (line_curpos sh - 1) sh else sh)"

definition key_right :: "finsh_shell \<Rightarrow> finsh_shell" where
  "key_right sh = (if line_curpos sh < line_position sh then set_curpos (line_curpos sh + 1) sh else sh)"

definition key_backspace :: "finsh_shell \<Rightarrow> finsh_shell" where
  "key_backspace sh =
    (if line_curpos sh = 0 then sh
     else
       let sh = set_position (line_position sh - 1) sh;
           sh = set_curpos (line_curpos sh - 1) sh;
           c = line_at sh + unat (line_curpos sh);
           sh = (if line_position sh > line_curpos sh
                 then sh\<lparr> sh_mem := rt_memmove (sh_mem sh) c (c + 1) (unat (line_position sh) - unat (line_curpos sh)) \<rparr> else sh)
       in sh\<lparr> sh_mem := (sh_mem sh)(line_at sh + unat (line_position sh) := 0) \<rparr>)"

text \<open>The position is below 80 when the text is moved, so the move does not reach the positions.\<close>

definition key_char :: "byte \<Rightarrow> finsh_shell \<Rightarrow> finsh_shell" where
  "key_char ch sh =
    (let sh = (if unat (line_position sh) \<ge> FINSH_CMD_SIZE then set_position 0 sh else sh);
         c = line_at sh + unat (line_curpos sh);
         m = (if line_curpos sh < line_position sh
              then (rt_memmove (sh_mem sh) (c + 1) c (unat (line_position sh) - unat (line_curpos sh)))(c := ch)
              else (sh_mem sh)(line_at sh + unat (line_position sh) := ch));
         sh = sh\<lparr> sh_mem := m \<rparr>;
         sh = set_position (line_position sh + 1) sh;
         sh = set_curpos (line_curpos sh + 1) sh
     in if unat (line_position sh) \<ge> FINSH_CMD_SIZE then set_curpos 0 (set_position 0 sh) else sh)"

definition key_tab :: "msh_fs \<Rightarrow> bool \<Rightarrow> finsh_syscall list \<Rightarrow> finsh_shell \<Rightarrow> finsh_shell option" where
  "key_tab fs mem tab sh = do {
     m \<leftarrow> msh_auto_complete fs mem tab (line_at sh) (sh_mem sh);
     m \<leftarrow> msh_opt_auto_complete tab (line_at sh) m;
     n \<leftarrow> rt_strlen m (line_at sh);
     Some (set_curpos (of_nat n) (set_position (of_nat n) (sh\<lparr> sh_mem := m \<rparr>)))
   }"

text \<open>The end of a line: what the interpreter runs, with the memory at that time.\<close>

definition key_enter :: "msh_fs \<Rightarrow> finsh_syscall list \<Rightarrow> finsh_shell \<Rightarrow> ((msh_outcome \<times> memory) \<times> finsh_shell) option" where
  "key_enter fs tab sh = do {
     let sh = shell_push_history sh;
     (out, m) \<leftarrow> msh_exec fs tab (line_at sh) (unat (line_position sh)) (sh_mem sh);
     let sh' = sh\<lparr> sh_mem := rt_memset (cmd_effect fs out m) (line_at sh) 0 (FINSH_CMD_SIZE + 1) \<rparr>;
     Some ((out, m), set_curpos 0 (set_position 0 sh'))
   }"

text \<open>The characters that are not part of an escape sequence.\<close>

definition plain_char ::
  "msh_fs \<Rightarrow> bool \<Rightarrow> finsh_syscall list \<Rightarrow> byte \<Rightarrow> finsh_shell \<Rightarrow> ((msh_outcome \<times> memory) option \<times> finsh_shell) option" where
  "plain_char fs mem tab ch sh =
    (if ch = 0 \<or> ch = 0xFF then Some (None, sh)
     else if ch = 0x09 then map_option (Pair None) (key_tab fs mem tab sh)
     else if ch = 0x7F \<or> ch = 0x08 then Some (None, key_backspace sh)
     else if ch = 0x0D \<or> ch = 0x0A then map_option (map_prod Some id) (key_enter fs tab sh)
     else Some (None, key_char ch sh))"

text \<open>One character, as in the loop of \<open>finsh_thread_entry\<close>.\<close>

definition finsh_char ::
  "msh_fs \<Rightarrow> bool \<Rightarrow> finsh_syscall list \<Rightarrow> byte \<Rightarrow> finsh_shell \<Rightarrow> ((msh_outcome \<times> memory) option \<times> finsh_shell) option" where
  "finsh_char fs mem tab ch sh =
    (if ch = 0x1B then Some (None, sh\<lparr> sh_stat := WAIT_SPEC_KEY \<rparr>)
     else case sh_stat sh of
       WAIT_SPEC_KEY \<Rightarrow>
         if ch = 0x5B then Some (None, sh\<lparr> sh_stat := WAIT_FUNC_KEY \<rparr>)
         else plain_char fs mem tab ch (sh\<lparr> sh_stat := WAIT_NORMAL \<rparr>)
     | WAIT_FUNC_KEY \<Rightarrow>
         let sh = sh\<lparr> sh_stat := WAIT_NORMAL \<rparr>
         in if ch = 0x41 then map_option (Pair None) (key_up sh)
            else if ch = 0x42 then map_option (Pair None) (key_down sh)
            else if ch = 0x44 then Some (None, key_left sh)
            else if ch = 0x43 then Some (None, key_right sh)
            else plain_char fs mem tab ch sh
     | WAIT_NORMAL \<Rightarrow> plain_char fs mem tab ch sh)"

fun finsh_run ::
  "msh_fs \<Rightarrow> bool \<Rightarrow> finsh_syscall list \<Rightarrow> byte list \<Rightarrow> finsh_shell \<Rightarrow> ((msh_outcome \<times> memory) list \<times> finsh_shell) option" where
  "finsh_run fs mem tab [] sh = Some ([], sh)"
| "finsh_run fs mem tab (ch # chs) sh = do {
     (out, sh) \<leftarrow> finsh_char fs mem tab ch sh;
     (outs, sh) \<leftarrow> finsh_run fs mem tab chs sh;
     Some ((case out of None \<Rightarrow> [] | Some x \<Rightarrow> [x]) @ outs, sh)
   }"

section \<open>The positions in memory\<close>

lemma get_put16 [simp]: "get16 (put16 a v m) a = v"
proof -
  have "unat v < 65536" using unsigned_less[of v, where ?'a = nat] by simp
  then have "unat v div 256 < 256" by simp
  moreover have "unat (of_nat (unat v) :: byte) = unat v mod 256" by (simp only: unat_of_nat) simp
  ultimately have "unat (of_nat (unat v) :: byte) + 256 * unat (of_nat (unat v div 256) :: byte) = unat v"
    by (simp only: unat_of_nat) simp
  then show ?thesis by (simp add: get16_def put16_def)
qed

lemma get16_cong: "m' a = m a \<Longrightarrow> m' (a + 1) = m (a + 1) \<Longrightarrow> get16 m' a = get16 m a"
  by (simp add: get16_def)

lemma put16_other: "b \<noteq> a \<Longrightarrow> b \<noteq> a + 1 \<Longrightarrow> put16 a v m b = m b"
  by (simp add: put16_def)

lemma set_fields [simp]:
  "line_at (set_position v sh) = line_at sh" "line_at (set_curpos v sh) = line_at sh"
  "hist_at (set_position v sh) = hist_at sh" "hist_at (set_curpos v sh) = hist_at sh"
  "sh_base (set_position v sh) = sh_base sh" "sh_base (set_curpos v sh) = sh_base sh"
  "sh_stat (set_position v sh) = sh_stat sh" "sh_stat (set_curpos v sh) = sh_stat sh"
  "echo_mode (set_position v sh) = echo_mode sh" "echo_mode (set_curpos v sh) = echo_mode sh"
  "prompt_mode (set_position v sh) = prompt_mode sh" "prompt_mode (set_curpos v sh) = prompt_mode sh"
  "current_history (set_position v sh) = current_history sh" "current_history (set_curpos v sh) = current_history sh"
  "history_count (set_position v sh) = history_count sh" "history_count (set_curpos v sh) = history_count sh"
  by (simp_all add: set_position_def set_curpos_def line_at_def hist_at_def fun_eq_iff)

lemma set_positions [simp]:
  "line_position (set_position v sh) = v" "line_curpos (set_curpos v sh) = v"
  "line_curpos (set_position v sh) = line_curpos sh" "line_position (set_curpos v sh) = line_position sh"
  by (auto simp: line_position_def line_curpos_def set_position_def set_curpos_def line_at_def put16_other intro!: get16_cong)

lemma set_mem:
  "b < line_at sh + 82 \<or> line_at sh + 86 \<le> b \<Longrightarrow> sh_mem (set_position v sh) b = sh_mem sh b"
  "b < line_at sh + 82 \<or> line_at sh + 86 \<le> b \<Longrightarrow> sh_mem (set_curpos v sh) b = sh_mem sh b"
  by (auto simp: set_position_def set_curpos_def put16_other)

lemma line_at_upd [simp]:
  "line_at (sh\<lparr> sh_mem := m \<rparr>) = line_at sh" "line_at (sh\<lparr> current_history := h \<rparr>) = line_at sh"
  "line_at (sh\<lparr> history_count := h \<rparr>) = line_at sh" "line_at (sh\<lparr> sh_stat := t \<rparr>) = line_at sh"
  by (simp_all add: line_at_def)

lemma hist_at_upd [simp]:
  "hist_at (sh\<lparr> sh_mem := m \<rparr>) = hist_at sh" "hist_at (sh\<lparr> current_history := h \<rparr>) = hist_at sh"
  "hist_at (sh\<lparr> history_count := h \<rparr>) = hist_at sh" "hist_at (sh\<lparr> sh_stat := t \<rparr>) = hist_at sh"
  by (simp_all add: hist_at_def fun_eq_iff)

lemma positions_upd [simp]:
  "line_position (sh\<lparr> current_history := h \<rparr>) = line_position sh" "line_curpos (sh\<lparr> current_history := h \<rparr>) = line_curpos sh"
  "line_position (sh\<lparr> history_count := h \<rparr>) = line_position sh" "line_curpos (sh\<lparr> history_count := h \<rparr>) = line_curpos sh"
  "line_position (sh\<lparr> sh_stat := t \<rparr>) = line_position sh" "line_curpos (sh\<lparr> sh_stat := t \<rparr>) = line_curpos sh"
  by (simp_all add: line_position_def line_curpos_def)

lemma positions_cong:
  assumes "sh_base sh' = sh_base sh" and "\<And>b. line_at sh + 82 \<le> b \<Longrightarrow> b < line_at sh + 86 \<Longrightarrow> sh_mem sh' b = sh_mem sh b"
  shows "line_position sh' = line_position sh" and "line_curpos sh' = line_curpos sh"
proof -
  have "line_at sh' = line_at sh" using assms(1) by (simp add: line_at_def)
  then show "line_position sh' = line_position sh" "line_curpos sh' = line_curpos sh"
    using assms(2) by (auto simp: line_position_def line_curpos_def intro!: get16_cong)
qed

section \<open>The edited text\<close>

text \<open>The line holds a text, and zeros behind it; \<open>l\<close> is the text in front of the cursor and \<open>r\<close> the one behind it.\<close>

definition line_text :: "finsh_shell \<Rightarrow> byte list \<Rightarrow> bool" where
  "line_text sh xs \<longleftrightarrow> length xs < FINSH_CMD_SIZE \<and> 0 \<notin> set xs
    \<and> (\<forall>i \<le> FINSH_CMD_SIZE. sh_mem sh (line_at sh + i) = (if i < length xs then xs ! i else 0))"

definition editing :: "finsh_shell \<Rightarrow> byte list \<Rightarrow> byte list \<Rightarrow> bool" where
  "editing sh l r \<longleftrightarrow> line_text sh (l @ r) \<and> unat (line_curpos sh) = length l \<and> unat (line_position sh) = length (l @ r)
    \<and> sh_stat sh = WAIT_NORMAL"

lemma line_text_set [simp]: "line_text (set_position v sh) xs = line_text sh xs" "line_text (set_curpos v sh) xs = line_text sh xs"
  by (simp_all add: line_text_def set_mem FINSH_CMD_SIZE_def)

text \<open>Nothing but the line and the two positions changes.\<close>

definition only_line :: "finsh_shell \<Rightarrow> finsh_shell \<Rightarrow> bool" where
  "only_line sh sh' \<longleftrightarrow> sh_base sh' = sh_base sh \<and> current_history sh' = current_history sh \<and> history_count sh' = history_count sh
    \<and> echo_mode sh' = echo_mode sh \<and> prompt_mode sh' = prompt_mode sh
    \<and> (\<forall>b. b < line_at sh \<or> b = line_at sh + 81 \<or> line_at sh + 86 \<le> b \<longrightarrow> sh_mem sh' b = sh_mem sh b)"

lemma only_line_set [simp]: "only_line sh (set_position v sh') = only_line sh sh'" "only_line sh (set_curpos v sh') = only_line sh sh'"
proof -
  have at: "line_at sh' = line_at sh" if "sh_base sh' = sh_base sh" using that by (simp add: line_at_def)
  have "sh_mem (set_position v sh') b = sh_mem sh' b" "sh_mem (set_curpos v sh') b = sh_mem sh' b"
    if "sh_base sh' = sh_base sh" "b < line_at sh \<or> b = line_at sh + 81 \<or> line_at sh + 86 \<le> b" for b
    using that(2) at[OF that(1)] by (auto intro!: set_mem)
  then show "only_line sh (set_position v sh') = only_line sh sh'" "only_line sh (set_curpos v sh') = only_line sh sh'"
    unfolding only_line_def set_fields by metis+
qed

lemma only_line_refl [simp]: "only_line sh sh"
  by (simp add: only_line_def)

lemma only_line_at: "only_line sh sh' \<Longrightarrow> line_at sh' = line_at sh \<and> hist_at sh' i = hist_at sh i"
  by (simp add: only_line_def line_at_def hist_at_def)

lemma only_line_trans: "only_line a b \<Longrightarrow> only_line b c \<Longrightarrow> only_line a c"
  using only_line_at[of a b] by (auto simp: only_line_def)

lemma line_text_cstr: "line_text sh xs \<Longrightarrow> cstr (sh_mem sh) (line_at sh) xs"
  by (auto simp: line_text_def cstr_def)

lemma unat16_dec: "unat (p :: u16) = Suc n \<Longrightarrow> unat (p - 1) = n"
  by (metis diff_Suc_1 nat.distinct(1) unat_0 unat_minus_one)

lemma unat16_inc: "unat (p :: u16) = n \<Longrightarrow> n < 1000 \<Longrightarrow> unat (p + 1) = Suc n"
  by (simp add: unat_plus_if')

lemma key_char_edits:
  assumes e: "editing sh l r" and len: "length (l @ r) < FINSH_CMD_SIZE - 1" and c: "c \<noteq> 0"
  shows "editing (key_char c sh) (l @ [c]) r" and "only_line sh (key_char c sh)"
proof -
  define a where "a = line_at sh"
  define m where "m = (if r = [] then (sh_mem sh)(a + length l := c)
    else (copy (sh_mem sh) (a + length l + 1) (a + length l) (length r))(a + length l := c))"
  have pos: "unat (line_curpos sh) = length l" "unat (line_position sh) = length l + length r" using e by (simp_all add: editing_def)
  have out: "m b = sh_mem sh b" if "b < a \<or> a + 80 \<le> b" for b using that len by (auto simp: m_def copy_def FINSH_CMD_SIZE_def)
  have ps: "line_position (sh\<lparr> sh_mem := m \<rparr>) = line_position sh" "line_curpos (sh\<lparr> sh_mem := m \<rparr>) = line_curpos sh"
    by (rule positions_cong; simp add: out a_def)+
  have k: "key_char c sh = set_curpos (line_curpos sh + 1) (set_position (line_position sh + 1) (sh\<lparr> sh_mem := m \<rparr>))"
    using pos len unat16_inc[OF pos(2)] ps
    by (auto simp: key_char_def m_def a_def Let_def FINSH_CMD_SIZE_def word_less_nat_alt rt_memmove_copy)
  have p: "unat (line_curpos sh + 1) = Suc (length l)" "unat (line_position sh + 1) = Suc (length l + length r)"
    using unat16_inc[OF pos(1)] unat16_inc[OF pos(2)] len by (simp_all add: FINSH_CMD_SIZE_def)
  have old: "sh_mem sh (a + i) = (if i < length (l @ r) then (l @ r) ! i else 0)" if "i \<le> FINSH_CMD_SIZE" for i
    using e that by (auto simp: editing_def line_text_def a_def)
  have new: "m (a + i) = (if i < length (l @ c # r) then (l @ c # r) ! i else 0)" if "i \<le> FINSH_CMD_SIZE" for i
  proof -
    consider "i < length l" | "i = length l" | "length l < i" by linarith
    then show ?thesis
    proof cases
      case 3
      then obtain j where j: "i = length l + Suc j" by (metis less_iff_Suc_add add_Suc_right)
      show ?thesis using j old[of "length l + j"] old[OF that] that len
        by (auto simp: m_def copy_def nth_append FINSH_CMD_SIZE_def add.assoc)
    qed (use old[OF that] that in \<open>auto simp: m_def copy_def nth_append\<close>)
  qed
  show "editing (key_char c sh) (l @ [c]) r"
    using e p new len c unfolding k by (auto simp: editing_def line_text_def[of "sh\<lparr> sh_mem := m \<rparr>"] line_text_def[of sh] a_def FINSH_CMD_SIZE_def)
  show "only_line sh (key_char c sh)" using out unfolding k by (simp add: only_line_def[of sh] a_def)
qed

lemma key_backspace_edits:
  assumes e: "editing sh l r"
  shows "editing (key_backspace sh) (butlast l) r" and "only_line sh (key_backspace sh)"
proof -
  have pos: "unat (line_curpos sh) = length l" "unat (line_position sh) = length l + length r" using e by (simp_all add: editing_def)
  have "editing (key_backspace sh) (butlast l) r \<and> only_line sh (key_backspace sh)"
  proof (cases l rule: rev_cases)
    case Nil
    then have "line_curpos sh = 0" using pos by (simp add: unat_eq_0)
    then show ?thesis using Nil e by (simp add: key_backspace_def)
  next
    case (snoc l' x)
    define a where "a = line_at sh"
    define s1 where "s1 = set_curpos (line_curpos sh - 1) (set_position (line_position sh - 1) sh)"
    define m where "m = copy (sh_mem s1) (a + length l') (a + length l' + 1) (length r)"
    have p: "unat (line_curpos sh - 1) = length l'" "unat (line_position sh - 1) = length l' + length r" "line_curpos sh \<noteq> 0"
      using unat16_dec[of "line_curpos sh" "length l'"] unat16_dec[of "line_position sh" "length l' + length r"] pos snoc by auto
    have len: "length l' + length r < FINSH_CMD_SIZE - 1" using e snoc by (simp add: editing_def line_text_def less_diff_conv)
    define m' where "m' = m(a + length (l' @ r) := 0)"
    have out: "m b = sh_mem s1 b" "m' b = sh_mem s1 b" if "b < a \<or> a + 80 \<le> b" for b
      using that len by (auto simp: m'_def m_def copy_def FINSH_CMD_SIZE_def)
    have at: "line_at s1 = a" by (simp add: s1_def a_def)
    have ps: "line_position (s1\<lparr> sh_mem := m \<rparr>) = line_position s1" "line_position (s1\<lparr> sh_mem := m' \<rparr>) = line_position s1"
      "line_curpos (s1\<lparr> sh_mem := m' \<rparr>) = line_curpos s1"
      by (rule positions_cong; simp add: out at)+
    have k: "key_backspace sh = s1\<lparr> sh_mem := m' \<rparr>"
    proof (cases "r = []")
      case True
      then show ?thesis using p by (simp add: key_backspace_def s1_def Let_def word_less_nat_alt m'_def m_def a_def)
    next
      case False
      then have "key_backspace sh = s1\<lparr> sh_mem := m(a + unat (line_position (s1\<lparr> sh_mem := m \<rparr>)) := 0) \<rparr>"
        using p by (simp add: key_backspace_def s1_def[symmetric] Let_def word_less_nat_alt rt_memmove_copy m_def at)
          (simp add: s1_def)
      then show ?thesis unfolding ps by (simp add: m'_def s1_def p)
    qed
    have old: "sh_mem s1 (a + i) = (if i < length (l @ r) then (l @ r) ! i else 0)" if "i \<le> FINSH_CMD_SIZE" for i
      using e that by (auto simp: editing_def line_text_def a_def s1_def set_mem FINSH_CMD_SIZE_def)
    have new: "m' (a + i) = (if i < length (l' @ r) then (l' @ r) ! i else 0)" if "i \<le> FINSH_CMD_SIZE" for i
      using old[OF that] old[of "Suc i"] that len snoc
      by (cases "i < length l'") (auto simp: m'_def m_def copy_def nth_append Suc_diff_le)
    have "line_text (s1\<lparr> sh_mem := m' \<rparr>) (l' @ r)"
      using e new len by (auto simp: editing_def line_text_def at snoc)
    then have "editing (key_backspace sh) l' r"
      using e p ps unfolding k by (simp add: editing_def) (simp add: s1_def)
    moreover have "only_line sh s1" by (simp add: s1_def)
    then have "only_line sh (key_backspace sh)" using out unfolding k by (simp add: only_line_def a_def)
    ultimately show ?thesis using snoc by simp
  qed
  then show "editing (key_backspace sh) (butlast l) r" "only_line sh (key_backspace sh)" by simp_all
qed

lemma key_left_edits:
  assumes "editing sh l r"
  shows "editing (key_left sh) (butlast l) (if l = [] then r else last l # r)" and "only_line sh (key_left sh)"
proof -
  have pos: "unat (line_curpos sh) = length l" using assms by (simp add: editing_def)
  have "editing (key_left sh) (butlast l) (if l = [] then r else last l # r)" 
  proof (cases l rule: rev_cases)
    case Nil
    then show ?thesis using assms pos by (simp add: key_left_def unat_eq_0)
  next
    case (snoc l' x)
    then have "unat (line_curpos sh - 1) = length l'" "line_curpos sh \<noteq> 0" using unat16_dec[of "line_curpos sh" "length l'"] pos by auto
    then show ?thesis using assms snoc by (simp add: key_left_def editing_def)
  qed
  then show "editing (key_left sh) (butlast l) (if l = [] then r else last l # r)" "only_line sh (key_left sh)"
    by (simp_all add: key_left_def)
qed

lemma key_right_edits:
  assumes "editing sh l r"
  shows "editing (key_right sh) (l @ take 1 r) (tl r)" and "only_line sh (key_right sh)"
proof -
  have pos: "unat (line_curpos sh) = length l" "unat (line_position sh) = length l + length r" "length l + length r < 80"
    using assms by (simp_all add: editing_def line_text_def FINSH_CMD_SIZE_def)
  then have "unat (line_curpos sh + 1) = Suc (length l)" using unat16_inc[OF pos(1)] by simp
  then show "editing (key_right sh) (l @ take 1 r) (tl r)" "only_line sh (key_right sh)"
    using assms pos by (cases r; simp add: key_right_def editing_def word_less_nat_alt) (simp add: key_right_def)
qed

section \<open>The abstract editor\<close>

datatype edit_key = Typed byte | Backspace | CursorLeft | CursorRight

fun key_bytes :: "edit_key \<Rightarrow> byte list" where
  "key_bytes (Typed c) = [c]"
| "key_bytes Backspace = [0x7F]"
| "key_bytes CursorLeft = [0x1B, 0x5B, 0x44]"
| "key_bytes CursorRight = [0x1B, 0x5B, 0x43]"

fun edit :: "edit_key \<Rightarrow> byte list \<times> byte list \<Rightarrow> byte list \<times> byte list" where
  "edit (Typed c) (l, r) = (l @ [c], r)"
| "edit Backspace (l, r) = (butlast l, r)"
| "edit CursorLeft (l, r) = (butlast l, if l = [] then r else last l # r)"
| "edit CursorRight (l, r) = (l @ take 1 r, tl r)"

definition typable :: "byte \<Rightarrow> bool" where
  "typable c \<longleftrightarrow> c \<notin> {0, 0x08, 0x09, 0x0A, 0x0D, 0x1B, 0x7F, 0xFF}"

text \<open>The text stays below the limit of a line.\<close>

fun fits :: "edit_key list \<Rightarrow> byte list \<times> byte list \<Rightarrow> bool" where
  "fits [] z = True"
| "fits (k # ks) z \<longleftrightarrow> (\<forall>c. k = Typed c \<longrightarrow> typable c) \<and> length (fst (edit k z) @ snd (edit k z)) < FINSH_CMD_SIZE
    \<and> fits ks (edit k z)"

lemma finsh_run_append:
  "finsh_run fs mem tab (xs @ ys) sh = do {
     (outs, sh) \<leftarrow> finsh_run fs mem tab xs sh;
     (outs', sh) \<leftarrow> finsh_run fs mem tab ys sh;
     Some (outs @ outs', sh) }"
proof (induction xs arbitrary: sh)
  case Nil
  then show ?case by (cases "finsh_run fs mem tab ys sh") auto
next
  case (Cons x xs)
  then show ?case by (cases "finsh_char fs mem tab x sh") (auto split: prod.splits Option.bind_splits)
qed

lemma stat_restored: "sh_stat sh = WAIT_NORMAL \<Longrightarrow> sh\<lparr> sh_stat := WAIT_NORMAL \<rparr> = sh"
  by (cases sh) simp

lemma key_step:
  assumes e: "editing sh l r" and f: "fits [k] (l, r)"
  shows "\<exists>sh'. finsh_run fs mem tab (key_bytes k) sh = Some ([], sh') \<and> editing sh' (fst (edit k (l, r))) (snd (edit k (l, r)))
    \<and> only_line sh sh'"
proof -
  have n: "sh_stat sh = WAIT_NORMAL" using e by (simp add: editing_def)
  show ?thesis
  proof (cases k)
    case (Typed c)
    then have "length (l @ r) < FINSH_CMD_SIZE - 1" "c \<noteq> 0" using f by (auto simp: typable_def)
    from key_char_edits[OF e this] show ?thesis using Typed f n
      by (simp add: finsh_char_def plain_char_def typable_def)
  next
    case Backspace
    then show ?thesis using key_backspace_edits[OF e] n by (simp add: finsh_char_def plain_char_def)
  next
    case CursorLeft
    then show ?thesis using key_left_edits[OF e] stat_restored[OF n] by (simp add: finsh_char_def)
  next
    case CursorRight
    then show ?thesis using key_right_edits[OF e] stat_restored[OF n] by (simp add: finsh_char_def)
  qed
qed

lemma keys_run:
  "editing sh l r \<Longrightarrow> fits ks (l, r) \<Longrightarrow>
   \<exists>sh'. finsh_run fs mem tab (concat (map key_bytes ks)) sh = Some ([], sh')
     \<and> editing sh' (fst (fold edit ks (l, r))) (snd (fold edit ks (l, r))) \<and> only_line sh sh'"
proof (induction ks arbitrary: sh l r)
  case (Cons k ks)
  obtain sh1 where s1: "finsh_run fs mem tab (key_bytes k) sh = Some ([], sh1)"
    "editing sh1 (fst (edit k (l, r))) (snd (edit k (l, r)))" "only_line sh sh1"
    using key_step[OF Cons.prems(1), of k fs mem tab] Cons.prems(2) by auto
  then show ?case using Cons.IH[OF s1(2)] Cons.prems(2) only_line_trans[OF s1(3)] by (auto simp: finsh_run_append)
qed simp

section \<open>The history\<close>

definition padded :: "memory \<Rightarrow> nat \<Rightarrow> byte list \<Rightarrow> bool" where
  "padded m a xs \<longleftrightarrow> length xs < FINSH_CMD_SIZE \<and> 0 \<notin> set xs \<and> (\<forall>i < FINSH_CMD_SIZE. m (a + i) = (if i < length xs then xs ! i else 0))"

definition has_history :: "finsh_shell \<Rightarrow> byte list list \<Rightarrow> bool" where
  "has_history sh hs \<longleftrightarrow> length hs \<le> FINSH_HISTORY_LINES \<and> unat (history_count sh) = length hs
    \<and> (\<forall>k < length hs. hs ! k \<noteq> [] \<and> padded (sh_mem sh) (hist_at sh k) (hs ! k))"

text \<open>A line that is not empty and not the last one again is remembered; the oldest one goes.\<close>

definition remember :: "byte list \<Rightarrow> byte list list \<Rightarrow> byte list list" where
  "remember xs hs = (if xs = [] \<or> hs \<noteq> [] \<and> last hs = xs then hs
     else if length hs = FINSH_HISTORY_LINES then tl hs @ [xs] else hs @ [xs])"

lemma padded_cong: "(\<And>i. i < FINSH_CMD_SIZE \<Longrightarrow> m' (a' + i) = m (a + i)) \<Longrightarrow> padded m' a' xs = padded m a xs"
  by (simp add: padded_def)

lemma padded_same:
  assumes "padded m a xs" and "padded m b ys"
  shows "(\<forall>i < FINSH_CMD_SIZE. m (a + i) = m (b + i)) \<longleftrightarrow> xs = ys"
proof
  assume h: "\<forall>i < FINSH_CMD_SIZE. m (a + i) = m (b + i)"
  have nz: "us ! i \<noteq> 0" if "padded m c us" "i < length us" for c us i
    using that by (auto simp: padded_def) (metis nth_mem)
  have "(if i < length xs then xs ! i else 0) = (if i < length ys then ys ! i else 0)" if "i < FINSH_CMD_SIZE" for i
    using h that assms by (simp add: padded_def)
  then have e: "i < length xs \<longleftrightarrow> i < length ys" "i < length xs \<Longrightarrow> xs ! i = ys ! i" if "i < FINSH_CMD_SIZE" for i
    using nz[OF assms(1)] nz[OF assms(2)] that by metis+
  have "length xs = length ys"
    using e(1)[of "length xs"] e(1)[of "length ys"] assms by (simp add: padded_def)
  then show "xs = ys" using e(2) assms by (auto simp: padded_def intro!: nth_equalityI)
qed (use assms in \<open>simp add: padded_def\<close>)

lemma editing_padded: "editing sh l r \<Longrightarrow> padded (sh_mem sh) (line_at sh) (l @ r)"
  by (simp add: editing_def line_text_def padded_def)

lemma same_line_iff:
  assumes "editing sh l r" and "has_history sh hs" and "k < length hs"
  shows "same_line k sh \<longleftrightarrow> hs ! k = l @ r"
  using padded_same[OF _ editing_padded[OF assms(1)], of "hist_at sh k" "hs ! k"] assms(2,3)
  by (simp add: same_line_def rt_memcmp_0 has_history_def)

lemma hist_below: "k < FINSH_HISTORY_LINES \<Longrightarrow> i < FINSH_CMD_SIZE \<Longrightarrow> hist_at sh k + i < line_at sh"
  by (simp add: hist_at_def line_at_def FINSH_CMD_SIZE_def FINSH_HISTORY_LINES_def)

lemma hist_apart: "i < FINSH_CMD_SIZE \<Longrightarrow> hist_at sh j \<le> hist_at sh k + i \<and> hist_at sh k + i < hist_at sh j + FINSH_CMD_SIZE \<longleftrightarrow> j = k"
  by (auto simp: hist_at_def FINSH_CMD_SIZE_def)

lemma shift_history_copy:
  "shift_history sh = copy (sh_mem sh) (hist_at sh 0) (hist_at sh 1) (FINSH_CMD_SIZE * (FINSH_HISTORY_LINES - 1))"
proof -
  have u: "[0..<FINSH_HISTORY_LINES - 1] = [0, 1, 2, 3]" by (simp add: FINSH_HISTORY_LINES_def upt_rec)
  define b where "b = sh_base sh"
  have o: "copy (copy m b (b + 80) n) (b + n) (b + 80 + n) 80 = copy m b (b + 80) (n + 80)" for m n
    using copy_copy[of b "b + 80" n 80 m] by simp
  have "shift_history sh = copy (copy (copy (copy (sh_mem sh) b (b + 80) 80) (b + 80) (b + 80 + 80) 80) (b + 160) (b + 80 + 160) 80) (b + 240) (b + 80 + 240) 80"
    unfolding shift_history_def u by (simp add: rt_memcpy_copy hist_at_def FINSH_CMD_SIZE_def b_def add.commute)
  then show ?thesis using o[of _ 80] o[of _ 160] o[of _ 240]
    by (simp add: hist_at_def FINSH_CMD_SIZE_def FINSH_HISTORY_LINES_def b_def)
qed

lemma store_line_padded:
  assumes p: "padded m (line_at sh) xs" and "unat (line_position sh) = length xs" and k: "k < FINSH_HISTORY_LINES"
  shows "padded (store_line k sh m) (hist_at sh k) xs"
    and "b < hist_at sh k \<or> hist_at sh k + FINSH_CMD_SIZE \<le> b \<Longrightarrow> store_line k sh m b = m b"
proof -
  have l: "length xs < FINSH_CMD_SIZE" using p by (simp add: padded_def)
  have s: "store_line k sh m = copy (fill m (hist_at sh k) FINSH_CMD_SIZE 0) (hist_at sh k) (line_at sh) (length xs)"
    using hist_below[OF k, of 0 sh] assms(2) by (simp add: store_line_def rt_memset_fill rt_memcpy_copy FINSH_CMD_SIZE_def)
  have "\<not> line_at sh + i < hist_at sh k + FINSH_CMD_SIZE" for i using hist_below[OF k, of "FINSH_CMD_SIZE - 1" sh] by (simp add: FINSH_CMD_SIZE_def)
  then show "padded (store_line k sh m) (hist_at sh k) xs"
    using p l unfolding s by (auto simp: padded_def copy_def fill_def)
  show "store_line k sh m b = m b" if "b < hist_at sh k \<or> hist_at sh k + FINSH_CMD_SIZE \<le> b"
    using that l unfolding s by (auto simp: copy_def fill_def)
qed

text \<open>Only the history changes.\<close>

definition only_history :: "finsh_shell \<Rightarrow> finsh_shell \<Rightarrow> bool" where
  "only_history sh sh' \<longleftrightarrow> sh_base sh' = sh_base sh
    \<and> sh_stat sh' = sh_stat sh \<and> (\<forall>b. b < sh_base sh \<or> line_at sh \<le> b \<longrightarrow> sh_mem sh' b = sh_mem sh b)"

lemma only_history_positions:
  "only_history sh sh' \<Longrightarrow> line_position sh' = line_position sh" "only_history sh sh' \<Longrightarrow> line_curpos sh' = line_curpos sh"
  by (auto simp: only_history_def intro!: positions_cong)

lemma only_history_editing: "only_history sh sh' \<Longrightarrow> editing sh l r \<Longrightarrow> editing sh' l r"
  using only_history_positions[of sh sh'] by (auto simp: only_history_def editing_def line_text_def line_at_def)

lemma store_line_only:
  assumes "editing sh l r" and "k < FINSH_HISTORY_LINES" and "padded m (line_at sh) (l @ r)" and "b < sh_base sh \<or> line_at sh \<le> b"
  shows "store_line k sh m b = m b"
proof (rule store_line_padded(2)[OF assms(3) _ assms(2)])
  show "unat (line_position sh) = length (l @ r)" using assms(1) by (simp add: editing_def)
  show "b < hist_at sh k \<or> hist_at sh k + FINSH_CMD_SIZE \<le> b"
    using assms(2,4) by (auto simp: hist_at_def line_at_def FINSH_CMD_SIZE_def FINSH_HISTORY_LINES_def)
qed

lemma store_line_history:
  assumes e: "editing sh l r" and p: "padded m (line_at sh) (l @ r)" "l @ r \<noteq> []"
    and hs: "length hs < FINSH_HISTORY_LINES" "\<And>k. k < length hs \<Longrightarrow> hs ! k \<noteq> [] \<and> padded m (hist_at sh k) (hs ! k)"
    and sh': "sh_mem sh' = store_line (length hs) sh m" "sh_base sh' = sh_base sh" "unat (history_count sh') = Suc (length hs)"
  shows "has_history sh' (hs @ [l @ r])"
proof -
  have n: "unat (line_position sh) = length (l @ r)" using e by (simp add: editing_def)
  note st = store_line_padded[OF p(1) n hs(1), folded sh'(1)]
  have at: "hist_at sh' k = hist_at sh k" for k using sh'(2) by (simp add: hist_at_def)
  have "padded (sh_mem sh') (hist_at sh k) (hs ! k)" if "k < length hs" for k
  proof -
    have "padded (sh_mem sh') (hist_at sh k) (hs ! k) = padded m (hist_at sh k) (hs ! k)"
    proof (rule padded_cong, rule st(2))
      fix i assume "i < FINSH_CMD_SIZE"
      then show "hist_at sh k + i < hist_at sh (length hs) \<or> hist_at sh (length hs) + FINSH_CMD_SIZE \<le> hist_at sh k + i"
        using that hist_apart[of i sh "length hs" k] by linarith
    qed
    then show ?thesis using hs(2)[OF that] by simp
  qed
  then show ?thesis using hs st(1) sh'(3) p(2) by (auto simp: has_history_def at nth_append less_Suc_eq)
qed

text \<open>The three cases of \<open>shell_push_history\<close>.\<close>

lemma push_history_full:
  assumes e: "editing sh l r" "l @ r \<noteq> []" and h: "has_history sh hs" "length hs = FINSH_HISTORY_LINES"
    and sh': "sh' = sh\<lparr> sh_mem := store_line (FINSH_HISTORY_LINES - 1) sh (shift_history sh),
      history_count := of_nat FINSH_HISTORY_LINES, current_history := of_nat FINSH_HISTORY_LINES \<rparr>"
  shows "has_history sh' (tl hs @ [l @ r]) \<and> only_history sh sh'"
proof
  have sm: "shift_history sh b = sh_mem sh b" if "b < sh_base sh \<or> line_at sh \<le> b" for b
    using that by (auto simp: shift_history_copy copy_def hist_at_def line_at_def FINSH_CMD_SIZE_def FINSH_HISTORY_LINES_def)
  have pad': "padded (shift_history sh) (line_at sh) (l @ r)"
    using editing_padded[OF e(1)] by (subst padded_cong[of _ _ "sh_mem sh"]) (auto simp: sm)
  have old: "tl hs ! k \<noteq> [] \<and> padded (shift_history sh) (hist_at sh k) (tl hs ! k)" if "k < length (tl hs)" for k
  proof -
    have "padded (shift_history sh) (hist_at sh k) xs = padded (sh_mem sh) (hist_at sh (Suc k)) xs" for xs
      using that h(2) by (intro padded_cong)
        (auto simp: shift_history_copy copy_def hist_at_def FINSH_CMD_SIZE_def FINSH_HISTORY_LINES_def add_ac)
    then show ?thesis using h(1) that by (simp add: has_history_def nth_tl)
  qed
  show "has_history sh' (tl hs @ [l @ r])"
    using h(2) by (intro store_line_history[OF e(1) pad' e(2) _ old]) (auto simp: sh' FINSH_HISTORY_LINES_def)
  show "only_history sh sh'"
    using store_line_only[OF e(1) _ pad', of "FINSH_HISTORY_LINES - 1"] sm unfolding sh'
    by (simp add: only_history_def FINSH_HISTORY_LINES_def)
qed

lemma push_history_room:
  assumes e: "editing sh l r" "l @ r \<noteq> []" and h: "has_history sh hs" "length hs < FINSH_HISTORY_LINES"
    and sh': "sh' = sh\<lparr> sh_mem := store_line (length hs) sh (sh_mem sh),
      history_count := history_count sh + 1, current_history := history_count sh + 1 \<rparr>"
  shows "has_history sh' (hs @ [l @ r]) \<and> only_history sh sh'"
proof
  have "unat (history_count sh) = length hs" using h(1) by (simp add: has_history_def)
  then show "has_history sh' (hs @ [l @ r])"
    using h unat16_inc[of "history_count sh" "length hs"]
    by (intro store_line_history[OF e(1) editing_padded[OF e(1)] e(2)]) (auto simp: sh' has_history_def FINSH_HISTORY_LINES_def)
  show "only_history sh sh'"
    using store_line_only[OF e(1) h(2) editing_padded[OF e(1)]] unfolding sh' by (simp add: only_history_def)
qed

lemma push_history_spec:
  assumes e: "editing sh l r" and h: "has_history sh hs"
  shows "has_history (shell_push_history sh) (remember (l @ r) hs)" and "only_history sh (shell_push_history sh)"
    and "current_history (shell_push_history sh) = history_count (shell_push_history sh)"
proof -
  have pos: "line_position sh = 0 \<longleftrightarrow> l @ r = []" using e by (auto simp: editing_def unat_eq_0[symmetric])
  have cnt: "unat (history_count sh) = length hs" "length hs \<le> FINSH_HISTORY_LINES" using h by (simp_all add: has_history_def)
  have cnt0: "history_count sh = 0 \<longleftrightarrow> hs = []" using cnt by (auto simp: unat_eq_0[symmetric])
  have same: "same_line (length hs - 1) sh \<longleftrightarrow> last hs = l @ r" if "hs \<noteq> []"
    using same_line_iff[OF e h, of "length hs - 1"] that by (simp add: last_conv_nth)
  note case_facts = pos cnt cnt0 same
  consider (old) "l @ r = [] \<or> hs \<noteq> [] \<and> last hs = l @ r"
    | (full) "l @ r \<noteq> []" "hs \<noteq> []" "last hs \<noteq> l @ r" "length hs = FINSH_HISTORY_LINES"
    | (room) "l @ r \<noteq> []" "hs = [] \<or> last hs \<noteq> l @ r" "length hs < FINSH_HISTORY_LINES"
    using cnt(2) by (fastforce simp: FINSH_HISTORY_LINES_def)
  then have "has_history (shell_push_history sh) (remember (l @ r) hs) \<and> only_history sh (shell_push_history sh)"
  proof cases
    case old
    have "shell_push_history sh = sh\<lparr> current_history := history_count sh \<rparr>"
      using old case_facts by (auto simp: shell_push_history_def Let_def)
    then show ?thesis using old h by (auto simp: remember_def has_history_def hist_at_def only_history_def)
  next
    case full
    then show ?thesis using case_facts push_history_full[OF e full(1) h full(4) refl]
      by (auto simp: shell_push_history_def Let_def remember_def)
  next
    case room
    then show ?thesis using case_facts push_history_room[OF e room(1) h room(3) refl]
      by (auto simp: shell_push_history_def Let_def remember_def)
  qed
  then show "has_history (shell_push_history sh) (remember (l @ r) hs)" "only_history sh (shell_push_history sh)" by simp_all
  show "current_history (shell_push_history sh) = history_count (shell_push_history sh)" by (simp add: shell_push_history_def Let_def)
qed

lemma recall_edits:
  assumes e: "editing sh l r" and h: "has_history sh hs" and c: "unat (current_history sh) = k" "k < length hs"
  shows "\<exists>sh'. recall sh = Some sh' \<and> editing sh' (hs ! k) [] \<and> only_line sh sh'"
proof -
  define m where "m = copy (sh_mem sh) (line_at sh) (hist_at sh k) FINSH_CMD_SIZE"
  have k: "k < FINSH_HISTORY_LINES" and p: "padded (sh_mem sh) (hist_at sh k) (hs ! k)" using h c(2) by (auto simp: has_history_def)
  have "hist_at sh k + FINSH_CMD_SIZE \<le> line_at sh" using hist_below[OF k, of "FINSH_CMD_SIZE - 1" sh] by (simp add: FINSH_CMD_SIZE_def)
  then have m: "rt_memcpy (sh_mem sh) (line_at sh) (hist_at sh k) FINSH_CMD_SIZE = m" by (simp add: m_def rt_memcpy_copy)
  have z: "m (line_at sh + FINSH_CMD_SIZE) = 0" using e by (simp add: m_def copy_def editing_def line_text_def FINSH_CMD_SIZE_def)
  let ?m = "sh\<lparr> sh_mem := m \<rparr>"
  let ?sh = "set_curpos (of_nat (length (hs ! k))) (set_position (of_nat (length (hs ! k))) ?m)"
  have len: "length (hs ! k) < FINSH_CMD_SIZE" using p by (simp add: padded_def)
  have t: "line_text ?m (hs ! k)"
    using p z by (auto simp: line_text_def padded_def m_def copy_def le_less)
  then have "recall sh = Some ?sh" using rt_strlen_cstr[OF line_text_cstr[OF t]] m c(1) by (simp add: recall_def)
  moreover have "unat (of_nat (length (hs ! k)) :: u16) = length (hs ! k)" using len by (simp add: unat_of_nat FINSH_CMD_SIZE_def)
  then have "editing ?sh (hs ! k) []" using t e by (simp add: editing_def)
  moreover have "only_line sh ?m" by (auto simp: only_line_def m_def copy_def FINSH_CMD_SIZE_def)
  then have "only_line sh ?sh" by simp
  ultimately show ?thesis by blast
qed

text \<open>The memory of the history is not touched.\<close>

lemma only_line_history: "only_line sh sh' \<Longrightarrow> has_history sh hs \<Longrightarrow> has_history sh' hs"
proof -
  assume o: "only_line sh sh'" and h: "has_history sh hs"
  have "padded (sh_mem sh') (hist_at sh' k) xs = padded (sh_mem sh) (hist_at sh k) xs" if "k < FINSH_HISTORY_LINES" for k xs
    using o hist_below[OF that, of _ sh] only_line_at[OF o] by (intro padded_cong) (auto simp: only_line_def)
  then show ?thesis using o h by (auto simp: has_history_def only_line_def)
qed

lemma key_up_recalls:
  assumes e: "editing sh l r" and h: "has_history sh hs" and c: "unat (current_history sh) = Suc k" "k < length hs"
  shows "\<exists>sh'. key_up sh = Some sh' \<and> editing sh' (hs ! k) [] \<and> has_history sh' hs \<and> unat (current_history sh') = k"
proof -
  let ?sh = "sh\<lparr> current_history := current_history sh - 1 \<rparr>"
  have k: "unat (current_history ?sh) = k" using unat16_dec[OF c(1)] by simp
  have e': "editing ?sh l r" and h': "has_history ?sh hs" using e h
    by (simp_all add: editing_def line_text_def has_history_def)
  have "current_history sh > 0" using c(1) by (metis nat.distinct(1) unat_0 word_gt_0)
  then have u: "key_up sh = recall ?sh" by (simp add: key_up_def)
  from recall_edits[OF e' h' k c(2)] obtain sh' where s: "recall ?sh = Some sh'" "editing sh' (hs ! k) []" "only_line ?sh sh'" by blast
  then have "unat (current_history sh') = k" using k by (simp add: only_line_def)
  with u s only_line_history[OF s(3) h'] show ?thesis by auto
qed

lemma key_down_recalls:
  assumes e: "editing sh l r" and h: "has_history sh hs" and c: "unat (current_history sh) = k" "hs \<noteq> []" "k \<le> length hs"
  defines "j \<equiv> min (Suc k) (length hs - 1)"
  shows "\<exists>sh'. key_down sh = Some sh' \<and> editing sh' (hs ! j) [] \<and> has_history sh' hs \<and> unat (current_history sh') = j"
proof -
  have cnt: "unat (history_count sh) = length hs" "length hs \<le> 5" using h by (simp_all add: has_history_def FINSH_HISTORY_LINES_def)
  define c' where "c' = (if uint (current_history sh) < uint (history_count sh) - 1 then current_history sh + 1 else history_count sh - 1)"
  let ?sh = "sh\<lparr> current_history := c' \<rparr>"
  have lt: "uint (current_history sh) < uint (history_count sh) - 1 \<longleftrightarrow> Suc k < length hs"
    unfolding uint_nat c(1) cnt(1) by linarith
  obtain n where n: "length hs = Suc n" using c(2) by (cases hs) auto
  have "unat c' = j"
    using lt c n cnt unat16_inc[OF c(1)] unat16_dec[of "history_count sh" n] by (auto simp: c'_def j_def)
  then have k: "unat (current_history ?sh) = j" by simp
  have e': "editing ?sh l r" and h': "has_history ?sh hs" using e h
    by (simp_all add: editing_def line_text_def has_history_def)
  have "history_count sh \<noteq> 0" using cnt(1) c(2) by auto
  then have u: "key_down sh = recall ?sh" by (simp add: key_down_def c'_def)
  have "j < length hs" using n by (simp add: j_def)
  from recall_edits[OF e' h' k this] obtain sh' where s: "recall ?sh = Some sh'" "editing sh' (hs ! j) []" "only_line ?sh sh'" by blast
  then have "unat (current_history sh') = j" using k by (simp add: only_line_def)
  with u s only_line_history[OF s(3) h'] show ?thesis by auto
qed

section \<open>Properties\<close>

text \<open>C28: The line editor implements an editor of two texts, the one in front of the cursor and the one behind it: for every
  sequence of characters, backspaces and cursor keys under which the text stays below 80 characters, the bytes of those keys
  leave the line in memory with exactly the edited text, zeros behind it and the cursor between the two parts, run nothing, and write
  nothing outside the line and the two positions behind it.\<close>

theorem line_editor_refines:
  assumes "editing sh l r" and "fits ks (l, r)"
  shows "\<exists>sh'. finsh_run fs mem tab (concat (map key_bytes ks)) sh = Some ([], sh')
    \<and> editing sh' (fst (fold edit ks (l, r))) (snd (fold edit ks (l, r))) \<and> only_line sh sh'"
  using assms by (rule keys_run)

definition demo_shell :: finsh_shell where
  "demo_shell = \<lparr> sh_stat = WAIT_NORMAL, echo_mode = True, prompt_mode = True, current_history = 0, history_count = 0,
     sh_mem = write_bytes 300 (map of_char ''ps'') (write_bytes 310 (map of_char ''pin'') (\<lambda>_. 0)),
     sh_base = 1000 \<rparr>"

definition demo_keys :: "edit_key list" where
  "demo_keys = [Typed 0x73, CursorLeft, Typed 0x70, CursorRight, Typed 0x78, Backspace]"

lemma demo_shell_editing: "editing demo_shell [] []" "has_history demo_shell []"
  by (auto simp: editing_def line_text_def demo_shell_def line_at_def line_position_def line_curpos_def get16_def write_bytes_def
      has_history_def FINSH_CMD_SIZE_def FINSH_HISTORY_LINES_def)

lemma demo_keys_fit: "fits demo_keys ([], [])" "fold edit demo_keys ([], []) = (map of_char ''ps'', [])"
  by (simp_all add: demo_keys_def typable_def FINSH_CMD_SIZE_def)

theorem line_editor_refines_witness:
  "\<exists>sh'. finsh_run no_files True [] (concat (map key_bytes demo_keys)) demo_shell = Some ([], sh') \<and> editing sh' (map of_char ''ps'') []"
  using line_editor_refines[OF demo_shell_editing(1) demo_keys_fit(1), of no_files True "[]"] by (auto simp: demo_keys_fit(2))

lemma up_keys:
  assumes "editing sh l r" and "has_history sh hs" and "unat (current_history sh) = k" and "k \<le> length hs" and "l @ r = (hs @ [xs]) ! k"
  shows "\<exists>sh' l' r'. finsh_run fs mem tab (concat (replicate n [0x1B, 0x5B, 0x41])) sh = Some ([], sh') \<and> editing sh' l' r'
    \<and> l' @ r' = (hs @ [xs]) ! (k - n) \<and> has_history sh' hs \<and> unat (current_history sh') = k - n"
  using assms
proof (induction n arbitrary: sh l r k)
  case (Suc n)
  have n: "sh_stat sh = WAIT_NORMAL" using Suc.prems(1) by (simp add: editing_def)
  have run: "finsh_run fs mem tab (concat (replicate (Suc n) [0x1B, 0x5B, 0x41])) sh
      = Option.bind (key_up sh) (finsh_run fs mem tab (concat (replicate n [0x1B, 0x5B, 0x41])))"
    using stat_restored[OF n] by (cases "key_up sh") (auto simp: finsh_char_def split: Option.bind_splits)
  show ?case
  proof (cases k)
    case 0
    then have "current_history sh = 0" using Suc.prems(3) by (simp add: unat_eq_0)
    then have "key_up sh = Some (sh\<lparr> current_history := 0 \<rparr>)" "sh\<lparr> current_history := 0 \<rparr> = sh" by (simp_all add: key_up_def)
    then show ?thesis using run Suc.IH[OF Suc.prems] 0 by simp
  next
    case (Suc k')
    then have "k' < length hs" using Suc.prems(4) by simp
    from key_up_recalls[OF Suc.prems(1,2) Suc.prems(3)[unfolded Suc] this] obtain sh1
      where s1: "key_up sh = Some sh1" "editing sh1 (hs ! k') []" "has_history sh1 hs" "unat (current_history sh1) = k'" by blast
    show ?thesis using run s1(1) Suc.IH[OF s1(2-4)] \<open>k' < length hs\<close> Suc by (simp add: nth_append)
  qed
qed (force)

text \<open>The history keys give back the lines that were run: after \<open>n\<close> presses of the cursor-up key, from the empty line after
  the last command, the line is the \<open>n\<close>-th last remembered one, or the oldest, and the cursor is in it; the history itself is as it was.\<close>

theorem history_recalls_lines:
  assumes "editing sh [] []" and "has_history sh hs" and "current_history sh = history_count sh"
  shows "\<exists>sh' l r. finsh_run fs mem tab (concat (replicate n [0x1B, 0x5B, 0x41])) sh = Some ([], sh') \<and> editing sh' l r
    \<and> l @ r = (hs @ [[]]) ! (length hs - n) \<and> has_history sh' hs"
  using up_keys[OF assms(1,2) _ order_refl, of "[]"] assms(2,3) by (simp add: has_history_def) blast

definition demo_history :: finsh_shell where
  "demo_history = demo_shell\<lparr> sh_mem := write_bytes 1000 (map of_char ''ps'') (\<lambda>_. 0), history_count := 1, current_history := 1 \<rparr>"

lemma demo_history_has: "editing demo_history [] []" "has_history demo_history [map of_char ''ps'']" "current_history demo_history = history_count demo_history"
  by (auto simp: editing_def line_text_def demo_history_def demo_shell_def line_at_def hist_at_def line_position_def line_curpos_def get16_def write_bytes_def has_history_def padded_def
      FINSH_CMD_SIZE_def FINSH_HISTORY_LINES_def)

theorem history_recalls_lines_witness:
  "\<exists>sh' l r. finsh_run no_files True [] (concat (replicate 1 [0x1B, 0x5B, 0x41])) demo_history = Some ([], sh') \<and> editing sh' l r
    \<and> l @ r = map of_char ''ps''"
  using history_recalls_lines[OF demo_history_has, of no_files True "[]" 1] by (force simp del: concat.simps)

section \<open>A session\<close>

text \<open>The names of the commands lie outside the shell object; what runs leaves them and the history alone.\<close>

definition names_apart :: "finsh_shell \<Rightarrow> finsh_syscall list \<Rightarrow> byte list list \<Rightarrow> bool" where
  "names_apart sh tab names \<longleftrightarrow> (\<forall>(x, w) \<in> set (zip tab names). sys_name x + length w < sh_base sh \<or> line_at sh + 86 \<le> sys_name x)"

definition leaves_alone :: "msh_fs \<Rightarrow> finsh_shell \<Rightarrow> finsh_syscall list \<Rightarrow> byte list list \<Rightarrow> bool" where
  "leaves_alone fs sh tab names \<longleftrightarrow> (\<forall>out m b. sh_base sh \<le> b \<and> b < line_at sh
      \<or> (\<exists>(x, w) \<in> set (zip tab names). sys_name x \<le> b \<and> b \<le> sys_name x + length w) \<longrightarrow> cmd_effect fs out m b = m b)"

text \<open>What a line does, by the table of commands.\<close>

definition line_outcome :: "msh_fs \<Rightarrow> finsh_syscall list \<Rightarrow> byte list list \<Rightarrow> byte list \<Rightarrow> msh_outcome \<times> memory \<Rightarrow> bool" where
  "line_outcome fs tab names xs = (\<lambda>(out, m).
    let ys = dropWhile blank xs in
    if ys = [] then out = MshNothing
    else case map_of (zip names (map sys_func tab)) (takeWhile nonblank ys) of
      Some f \<Rightarrow> \<exists>argv. out = MshRun f argv \<and> list_all2 (cstr m) argv (take FINSH_ARG_MAX (words xs))
    | None \<Rightarrow> out = (if fs_script fs ys then MshScript else MshNotFound))"

lemma exec_line_outcome:
  assumes "cstr m cmd xs" and "table_names m tab names"
  obtains out m' where "msh_exec fs tab cmd (length xs) m = Some (out, m')" "line_outcome fs tab names xs (out, m')"
    "\<And>b. b < cmd \<or> cmd + length xs < b \<Longrightarrow> m' b = m b"
proof -
  obtain out m' where e: "msh_exec fs tab cmd (length xs) m = Some (out, m')" "\<And>b. b < cmd \<or> cmd + length xs < b \<Longrightarrow> m' b = m b"
    using exec_frame[OF assms] by blast
  have "line_outcome fs tab names xs (out, m')"
  proof (cases "dropWhile blank xs = []")
    case True
    then show ?thesis using exec_blank[OF assms(1)] e(1) by (simp add: line_outcome_def)
  next
    case False
    then show ?thesis
      using exec_found[OF assms refl False, of _ fs] exec_missing(1)[OF assms refl False, of fs] e(1)
      by (auto simp: line_outcome_def Let_def split: option.split if_splits)
  qed
  with e that show ?thesis by blast
qed

lemma table_names_kept:
  assumes "table_names m tab names" and "\<And>x w b. (x, w) \<in> set (zip tab names) \<Longrightarrow> sys_name x \<le> b \<Longrightarrow> b \<le> sys_name x + length w \<Longrightarrow> m' b = m b"
  shows "table_names m' tab names"
proof -
  have "cstr m' (sys_name x) w" if "(x, w) \<in> set (zip tab names)" for x w
  proof -
    have "cstr m' (sys_name x) w = cstr m (sys_name x) w" using assms(2)[OF that] by (intro cstr_cong) simp
    then show ?thesis using assms(1) that by (auto simp: list_all2_iff)
  qed
  then show ?thesis using assms(1) by (auto simp: list_all2_iff)
qed

lemma key_enter_runs:
  assumes e: "editing sh l r" and h: "has_history sh hs" and t: "table_names (sh_mem sh) tab names"
    and apart: "names_apart sh tab names" and quiet: "leaves_alone fs sh tab names"
  shows "\<exists>om sh'. key_enter fs tab sh = Some (om, sh') \<and> line_outcome fs tab names (l @ r) om
    \<and> editing sh' [] [] \<and> has_history sh' (remember (l @ r) hs) \<and> current_history sh' = history_count sh'
    \<and> table_names (sh_mem sh') tab names \<and> sh_base sh' = sh_base sh"
proof -
  define p where "p = shell_push_history sh"
  note ph = push_history_spec[OF e h, folded p_def]
  have ep: "editing p l r" by (rule only_history_editing[OF ph(2) e])
  have at: "sh_base p = sh_base sh" "line_at p = line_at sh" using ph(2) by (simp_all add: only_history_def line_at_def)
  have ap: "sys_name x + length w < sh_base sh \<or> line_at sh + 86 \<le> sys_name x" if "(x, w) \<in> set (zip tab names)" for x w
    using apart that by (auto simp: names_apart_def)
  have tp: "table_names (sh_mem p) tab names"
    by (rule table_names_kept[OF t]) (use ph(2) ap in \<open>fastforce simp: only_history_def\<close>)
  have cp: "cstr (sh_mem p) (line_at p) (l @ r)" using ep by (simp add: editing_def line_text_cstr)
  obtain out m where x: "msh_exec fs tab (line_at p) (length (l @ r)) (sh_mem p) = Some (out, m)"
    "line_outcome fs tab names (l @ r) (out, m)" "\<And>b. b < line_at p \<or> line_at p + length (l @ r) < b \<Longrightarrow> m b = sh_mem p b"
    using exec_line_outcome[OF cp tp, of fs] by blast
  have len: "length (l @ r) < FINSH_CMD_SIZE" "unat (line_position p) = length (l @ r)" using ep by (simp_all add: editing_def line_text_def)
  define m' where "m' = fill (cmd_effect fs out m) (line_at p) (FINSH_CMD_SIZE + 1) 0"
  define s where "s = set_curpos 0 (set_position 0 (p\<lparr> sh_mem := m' \<rparr>))"
  have k: "key_enter fs tab sh = Some ((out, m), s)"
    using x(1) len(2) by (simp add: key_enter_def p_def[symmetric] s_def m'_def rt_memset_fill)
  have "editing s [] []"
    using ep by (simp add: editing_def s_def) (auto simp: line_text_def m'_def fill_def FINSH_CMD_SIZE_def)
  moreover have hk: "m' b = sh_mem p b" if "sh_base sh \<le> b" "b < line_at sh" for b
    using quiet x(3)[of b] that at unfolding m'_def leaves_alone_def fill_def by simp
  have sm: "sh_mem s b = m' b" if "b < line_at sh + 82 \<or> line_at sh + 86 \<le> b" for b
    using that at(2) by (simp add: s_def set_mem)
  have "padded (sh_mem s) (hist_at p i) xs = padded (sh_mem p) (hist_at p i) xs" if "i < FINSH_HISTORY_LINES" for i xs
  proof (rule padded_cong)
    fix j assume "j < FINSH_CMD_SIZE"
    then have "hist_at p i + j < line_at sh" "sh_base sh \<le> hist_at p i + j" using hist_below[OF that, of j p] at by (auto simp: hist_at_def)
    then show "sh_mem s (hist_at p i + j) = sh_mem p (hist_at p i + j)" using sm hk by simp
  qed
  then have "has_history s (remember (l @ r) hs)"
    using ph(1) by (auto simp: has_history_def s_def)
  moreover have "sh_mem s b = sh_mem p b" if "(x, w) \<in> set (zip tab names)" "sys_name x \<le> b" "b \<le> sys_name x + length w" for x w b
  proof -
    have "cmd_effect fs out m b = m b" using quiet that unfolding leaves_alone_def by blast
    moreover have "b < line_at p \<or> line_at p + 86 \<le> b" using ap[OF that(1)] that(2,3) at by (auto simp: line_at_def)
    ultimately show ?thesis using x(3)[of b] len(1) sm[of b] at(2) by (auto simp: m'_def fill_def FINSH_CMD_SIZE_def)
  qed
  then have "table_names (sh_mem s) tab names" by (intro table_names_kept[OF tp]) simp
  ultimately show ?thesis using k x(2) ph(3) at by (auto simp: s_def)
qed

definition typed :: "edit_key list \<Rightarrow> byte list" where
  "typed ks = fst (fold edit ks ([], [])) @ snd (fold edit ks ([], []))"

definition ready :: "msh_fs \<Rightarrow> finsh_syscall list \<Rightarrow> byte list list \<Rightarrow> finsh_shell \<Rightarrow> byte list list \<Rightarrow> bool" where
  "ready fs tab names sh hs \<longleftrightarrow> editing sh [] [] \<and> has_history sh hs \<and> table_names (sh_mem sh) tab names
    \<and> names_apart sh tab names \<and> leaves_alone fs sh tab names"

lemma line_runs:
  assumes r: "ready fs tab names sh hs" and f: "fits ks ([], [])"
  shows "\<exists>om sh'. finsh_run fs mem tab (concat (map key_bytes ks) @ [0x0D]) sh = Some ([om], sh')
    \<and> line_outcome fs tab names (typed ks) om \<and> ready fs tab names sh' (remember (typed ks) hs)"
proof -
  obtain s1 where s1: "finsh_run fs mem tab (concat (map key_bytes ks)) sh = Some ([], s1)"
    "editing s1 (fst (fold edit ks ([], []))) (snd (fold edit ks ([], [])))" "only_line sh s1"
    using keys_run[OF _ f, of sh fs mem tab] r by (auto simp: ready_def)
  have base: "names_apart s tab names \<longleftrightarrow> names_apart sh tab names" "leaves_alone fs s tab names \<longleftrightarrow> leaves_alone fs sh tab names"
    if "sh_base s = sh_base sh" for s using that by (simp_all add: names_apart_def leaves_alone_def line_at_def)
  have b1: "sh_base s1 = sh_base sh" using s1(3) by (simp add: only_line_def)
  have k1: "sh_mem s1 b = sh_mem sh b" if "(x, w) \<in> set (zip tab names)" "sys_name x \<le> b" "b \<le> sys_name x + length w" for x w b
    using r that s1(3) unfolding ready_def names_apart_def only_line_def by (auto simp: line_at_def)
  have "table_names (sh_mem sh) tab names" using r by (simp add: ready_def)
  then have t1: "table_names (sh_mem s1) tab names" by (rule table_names_kept) (rule k1)
  have h1: "has_history s1 hs" using r only_line_history[OF s1(3)] by (simp add: ready_def)
  have ap: "names_apart s1 tab names" "leaves_alone fs s1 tab names" using base[OF b1] r by (simp_all add: ready_def)
  obtain om s2 where s2: "key_enter fs tab s1 = Some (om, s2)" "line_outcome fs tab names (typed ks) om"
      "editing s2 [] []" "has_history s2 (remember (typed ks) hs)" "table_names (sh_mem s2) tab names" "sh_base s2 = sh_base sh"
    using key_enter_runs[OF s1(2) h1 t1 ap] b1 unfolding typed_def by auto
  have "sh_stat s1 = WAIT_NORMAL" using s1(2) by (simp add: editing_def)
  then have "finsh_run fs mem tab (concat (map key_bytes ks) @ [0x0D]) sh = Some ([om], s2)"
    using s1(1) s2(1) by (simp add: finsh_run_append finsh_char_def plain_char_def)
  moreover have "ready fs tab names s2 (remember (typed ks) hs)" using s2 r base[OF s2(6)] by (simp add: ready_def)
  ultimately show ?thesis using s2(2) by blast
qed

lemma lines_run:
  "ready fs tab names sh hs \<Longrightarrow> \<forall>ks \<in> set kss. fits ks ([], []) \<Longrightarrow>
   \<exists>oms sh'. finsh_run fs mem tab (concat (map (\<lambda>ks. concat (map key_bytes ks) @ [0x0D]) kss)) sh = Some (oms, sh')
     \<and> list_all2 (\<lambda>ks. line_outcome fs tab names (typed ks)) kss oms \<and> ready fs tab names sh' (fold remember (map typed kss) hs)"
proof (induction kss arbitrary: sh hs)
  case (Cons ks kss)
  obtain om s1 where s1: "finsh_run fs mem tab (concat (map key_bytes ks) @ [0x0D]) sh = Some ([om], s1)"
    "line_outcome fs tab names (typed ks) om" "ready fs tab names s1 (remember (typed ks) hs)"
    using line_runs[OF Cons.prems(1), of ks mem] Cons.prems(2) by auto
  obtain oms s2 where s2: "finsh_run fs mem tab (concat (map (\<lambda>ks. concat (map key_bytes ks) @ [0x0D]) kss)) s1 = Some (oms, s2)"
    "list_all2 (\<lambda>ks. line_outcome fs tab names (typed ks)) kss oms" "ready fs tab names s2 (fold remember (map typed kss) (remember (typed ks) hs))"
    using Cons.IH[OF s1(3)] Cons.prems(2) by auto
  have "finsh_run fs mem tab (concat (map (\<lambda>ks. concat (map key_bytes ks) @ [0x0D]) (ks # kss))) sh = Some ([om] @ oms, s2)"
    using s1(1) s2(1) by (simp only: list.map concat.simps finsh_run_append[of _ _ _ "_ @ [0x0D]"]) simp
  then show ?case using s1(2) s2(2,3) by (intro exI[of _ "om # oms"] exI[of _ s2]) simp
qed simp

text \<open>C27: A session with the shell. For every sequence of lines whose characters are typable ones (not 0, backspace, tab, line feed, carriage
  return, escape, 0x7F or 0xFF), edited with backspace and the left and right cursor keys so that the text stays below 80 characters all the time (\<open>fits\<close>), and ended with carriage
  return, one after the other: each line runs the command that its text names, with the first ten words of the text as arguments (or nothing, if it is blank; a script or
  an error, if no command has the name), after each the line is empty again, and the history holds the last five of the lines that were not empty and
  not equal to the line remembered just before them (\<open>remember\<close>). Assumed is that the names of the commands lie outside the
  arrays and positions of the shell object (\<open>names_apart\<close>), and that commands leave the shell's history and the names of
  commands alone (\<open>leaves_alone\<close>). Lines of 80 characters are not covered; they break the editor.\<close>

theorem shell_session:
  assumes "editing sh [] []" and "has_history sh hs" and "table_names (sh_mem sh) tab names"
    and "names_apart sh tab names" and "leaves_alone fs sh tab names" and "\<forall>ks \<in> set kss. fits ks ([], [])"
  shows "\<exists>oms sh'. finsh_run fs mem tab (concat (map (\<lambda>ks. concat (map key_bytes ks) @ [0x0D]) kss)) sh = Some (oms, sh')
    \<and> list_all2 (\<lambda>ks. line_outcome fs tab names (typed ks)) kss oms
    \<and> editing sh' [] [] \<and> has_history sh' (fold remember (map typed kss) hs)"
  using lines_run[of fs tab names sh hs kss mem] assms unfolding ready_def by blast

lemma demo_shell_ready:
  "table_names (sh_mem demo_shell) demo_table [map of_char ''pin'', map of_char ''ps'']"
  "names_apart demo_shell demo_table [map of_char ''pin'', map of_char ''ps'']"
  "leaves_alone no_files demo_shell demo_table [map of_char ''pin'', map of_char ''ps'']"
  by (simp_all add: demo_shell_def demo_table_def write_bytes_def names_apart_def leaves_alone_def no_files_def)

theorem shell_session_witness:
  "\<exists>om om' sh'. finsh_run no_files True demo_table (concat (map (\<lambda>ks. concat (map key_bytes ks) @ [0x0D]) [demo_keys, demo_keys])) demo_shell = Some ([om, om'], sh')
    \<and> line_outcome no_files demo_table [map of_char ''pin'', map of_char ''ps''] (map of_char ''ps'') om' \<and> has_history sh' [map of_char ''ps'']"
proof -
  have t: "typed demo_keys = map of_char ''ps''" by (simp add: typed_def demo_keys_fit)
  have "fold remember (map typed [demo_keys, demo_keys]) [] = [map of_char ''ps'']"
    by (simp add: t remember_def FINSH_HISTORY_LINES_def)
  then show ?thesis
    using shell_session[OF demo_shell_editing demo_shell_ready, of "[demo_keys, demo_keys]" True] demo_keys_fit(1)
    by (auto simp: list_all2_Cons1 t simp del: concat.simps list.map)
qed

section \<open>Lines that are too long\<close>

lemma argc_loop_idle: "\<forall>i < n. m (a + i) \<noteq> 0x20 \<Longrightarrow> argc_loop m a n l k = (l, k)"
proof (induction n arbitrary: a)
  case (Suc n)
  have "m (a + 1 + i) \<noteq> 0x20" if "i < n" for i using Suc.prems[rule_format, of "Suc i"] that by simp
  then show ?case using Suc.IH[of "a + 1"] Suc.prems[rule_format, of 0] by simp
qed simp

lemma complete_loop_idle: "\<forall>x \<in> set xs. \<not> hit x \<Longrightarrow> complete_loop m hit xs np k = Some (np, k)"
  by (induction xs) auto

text \<open>The tab key on a word that no command begins with leaves the line, and moves the cursor to its end.\<close>

lemma key_tab_idle:
  assumes c: "cstr (sh_mem sh) (line_at sh) xs" "xs \<noteq> []" "0x20 \<notin> set xs"
    and t: "table_names (sh_mem sh) tab names" "\<forall>w \<in> set names. \<not> prefix xs w"
  shows "key_tab fs mem tab sh = Some (set_curpos (of_nat (length xs)) (set_position (of_nat (length xs)) sh))"
proof -
  define m a where "m = sh_mem sh" and "a = line_at sh"
  note c' = c(1)[folded m_def a_def] and t' = t(1)[folded m_def]
  have nb: "m (a + i) \<noteq> 0x20" if "i < length xs" for i using c' c(3) that by (metis cstr_def nth_mem)
  have len: "rt_strlen m a = Some (length xs)" by (rule rt_strlen_cstr[OF c'])
  have "\<not> rt_strncmp m a (sys_name x) (length xs) = 0" if x: "x \<in> set tab" for x
  proof -
    obtain i where i: "i < length tab" "x = tab ! i" using x unfolding in_set_conv_nth by blast
    then have "names ! i \<in> set names" "cstr m (sys_name x) (names ! i)"
      using t' by (auto simp: list_all2_conv_all_nth)
    then show ?thesis using prefix_hit[OF c'] t(2) by blast
  qed
  then have "complete_loop m (\<lambda>x. rt_strncmp m a x (length xs) = 0) (map sys_name tab) None 0 = Some (None, 0)"
    by (intro complete_loop_idle) simp
  moreover have "m a \<noteq> 0" using c' c(2) by (cases xs) auto
  ultimately have "msh_auto_complete fs mem tab a m = Some m"
    using len last_space_none[OF c' c(3)] by (simp add: msh_auto_complete_def complete_name_def)
  moreover have "m (a + length xs - 1) \<noteq> 0x20" using nb[of "length xs - 1"] c(2) by (cases xs) auto
  then have "msh_opt_auto_complete tab a m = Some m"
    using len argc_loop_idle[of "length xs" m a None 0] nb by (simp add: msh_opt_auto_complete_def msh_get_argc_def)
  ultimately show ?thesis using len by (simp add: key_tab_def m_def a_def)
qed

lemma typed_characters:
  "\<forall>c \<in> set cs. typable c \<Longrightarrow> length (l @ cs) < FINSH_CMD_SIZE \<Longrightarrow>
   fits (map Typed cs) (l, []) \<and> fold edit (map Typed cs) (l, []) = (l @ cs, [])"
  by (induction cs arbitrary: l) auto

lemma typed_bytes: "concat (map key_bytes (map Typed cs)) = cs"
  by (induction cs) auto

lemma full_line:
  assumes e: "editing sh [] []" and cs: "length cs = FINSH_CMD_SIZE" "\<forall>c \<in> set cs. typable c"
  shows "\<exists>sh'. finsh_run fs mem tab cs sh = Some ([], sh') \<and> cstr (sh_mem sh') (line_at sh) cs \<and> only_line sh sh'
    \<and> line_position sh' = 0 \<and> line_curpos sh' = 0 \<and> sh_stat sh' = WAIT_NORMAL"
proof -
  obtain xs c where x: "cs = xs @ [c]" using cs(1) by (cases cs rule: rev_cases) (auto simp: FINSH_CMD_SIZE_def)
  have len: "length xs = 79" using cs(1) x by (simp add: FINSH_CMD_SIZE_def)
  have tc: "fits (map Typed xs) ([], [])" "fold edit (map Typed xs) ([], []) = (xs, [])" "concat (map key_bytes (map Typed xs)) = xs"
    using typed_characters[of xs "[]"] typed_bytes cs(2) x len by (simp_all add: FINSH_CMD_SIZE_def)
  obtain s1 where s1: "finsh_run fs mem tab xs sh = Some ([], s1)" "editing s1 xs []" "only_line sh s1"
    using keys_run[OF e tc(1), of fs mem tab] tc(2,3) by auto
  have p: "unat (line_position s1) = 79" "unat (line_curpos s1) = 79" "sh_stat s1 = WAIT_NORMAL"
    using s1(2) len by (simp_all add: editing_def)
  define s1' where "s1' = s1\<lparr> sh_mem := (sh_mem s1)(line_at s1 + 79 := c) \<rparr>"
  define s2 where "s2 = key_char c s1"
  have ps: "line_position s1' = line_position s1" "line_curpos s1' = line_curpos s1"
    by (rule positions_cong; simp add: s1'_def)+
  have s2': "s2 = set_curpos 0 (set_position 0 (set_curpos (line_curpos s1' + 1) (set_position (line_position s1' + 1) s1')))"
    using p unat16_inc[OF p(1)] ps
    by (simp add: s2_def key_char_def FINSH_CMD_SIZE_def word_less_nat_alt Let_def flip: s1'_def)
  have r: "finsh_run fs mem tab cs sh = Some ([], s2)"
    using s1(1) p(3) cs(2) x by (simp add: finsh_run_append finsh_char_def plain_char_def typable_def s2_def)
  have "sh_mem s2 (line_at s1 + i) = sh_mem s1' (line_at s1 + i)" if "i < 82" for i
    using that by (simp add: s2' set_mem s1'_def)
  then have "cstr (sh_mem s2) (line_at s1) (xs @ [c])"
    using s1(2) len cs(2) x by (auto simp: s1'_def editing_def line_text_def cstr_def nth_append FINSH_CMD_SIZE_def typable_def less_Suc_eq)
  moreover have "only_line sh s1'" using s1(3) only_line_at[OF s1(3)] by (auto simp: only_line_def s1'_def)
  then have "only_line sh s2" by (simp add: s2')
  ultimately show ?thesis using r p(3) x only_line_at[OF s1(3)] by (auto simp: s2' s1'_def)
qed

text \<open>One more character at the end of a full line, and a backspace: the position is zero, the cursor still behind the line.\<close>

lemma overrun_start:
  fixes c :: byte
  assumes p: "line_position sh = 80" "line_curpos sh = 80"
  defines "s' \<equiv> key_backspace (key_char c sh)"
  shows "line_position s' = 0" and "line_curpos s' = 80" and "sh_base s' = sh_base sh" and "sh_stat s' = sh_stat sh"
    and "line_at sh + 86 \<le> b \<Longrightarrow> sh_mem s' b = sh_mem sh b"
proof -
  define s0 where "s0 = set_position 0 sh"
  define s1 where "s1 = s0\<lparr> sh_mem := (sh_mem s0)(line_at sh := c) \<rparr>"
  have "line_position s1 = line_position s0" "line_curpos s1 = line_curpos s0" by (rule positions_cong; simp add: s1_def s0_def)+
  then have k: "key_char c sh = set_curpos 81 (set_position 1 s1)"
    using p by (simp add: key_char_def FINSH_CMD_SIZE_def Let_def s0_def[symmetric]) (simp add: s1_def s0_def)
  define s2 where "s2 = set_curpos 80 (set_position 0 (key_char c sh))"
  have f: "line_at s2 = line_at sh" "sh_base s2 = sh_base sh" "sh_stat s2 = sh_stat sh" by (simp_all add: s2_def k s1_def s0_def)
  have b: "s' = s2\<lparr> sh_mem := (sh_mem s2)(line_at sh := 0) \<rparr>"
    using k by (simp add: s'_def key_backspace_def Let_def) (simp add: s2_def k s1_def s0_def)
  have "line_position s' = line_position s2" "line_curpos s' = line_curpos s2" by (rule positions_cong; simp add: b f)+
  then show "line_position s' = 0" "line_curpos s' = 80" by (simp_all add: s2_def)
  show "sh_base s' = sh_base sh" "sh_stat s' = sh_stat sh" by (simp_all add: b f)
  show "sh_mem s' b = sh_mem sh b" if "line_at sh + 86 \<le> b"
    using that by (simp add: b s2_def k set_mem s1_def s0_def)
qed

text \<open>A further backspace moves what is behind the line, with the positions, down by one byte; the position that is left has the
  high byte of the old position below and the low byte of the cursor above.\<close>

lemma overrun_move:
  assumes p: "line_position sh = 0" "line_curpos sh = 80"
  defines "a \<equiv> line_at sh" and "s' \<equiv> key_backspace sh"
  shows "line_position s' = 0x4FFF" and "sh_mem s' (a + 0x4FFF) = 0" and "sh_stat s' = sh_stat sh"
    and "85 \<le> i \<Longrightarrow> i < 0xFFFF \<Longrightarrow> i \<noteq> 0x4FFF \<Longrightarrow> sh_mem s' (a + i) = sh_mem sh (a + i + 1)"
proof -
  define s1 where "s1 = set_curpos 79 (set_position 0xFFFF sh)"
  have at: "line_at s1 = a" by (simp add: s1_def a_def)
  have v: "sh_mem s1 (a + 83) = 0xFF" "sh_mem s1 (a + 84) = 0x4F"
    by (simp_all add: s1_def set_curpos_def set_position_def put16_def a_def)
  define s2 where "s2 = s1\<lparr> sh_mem := copy (sh_mem s1) (a + 79) (80 + a) 65456 \<rparr>"
  have a2: "line_at s2 = a" by (simp add: s2_def at)
  have p2: "line_position s2 = 0x4FFF"
    using v[unfolded add.commute[of a]] by (simp add: line_position_def s2_def at get16_def copy_def)
  have w: "(- 1 :: u16) = 0xFFFF" by code_simp
  have e1: "set_curpos (line_curpos (set_position (line_position sh - 1) sh) - 1) (set_position (line_position sh - 1) sh) = s1"
    using p by (simp add: s1_def w)
  have f1: "line_position s1 = 0xFFFF" "line_curpos s1 = 79" by (simp_all add: s1_def)
  have "s' = s2\<lparr> sh_mem := (sh_mem s2)(line_at s2 + unat (line_position s2) := 0) \<rparr>"
    unfolding s'_def key_backspace_def Let_def e1 using p f1 by (simp add: rt_memmove_copy word_less_nat_alt at s2_def)
  then have s': "s' = s2\<lparr> sh_mem := (sh_mem s2)(a + 0x4FFF := 0) \<rparr>" using p2 a2 by simp
  have "line_position s' = line_position s2" by (rule positions_cong; simp add: s' s2_def at)
  then show "line_position s' = 0x4FFF" using p2 by simp
  show "sh_mem s' (a + 0x4FFF) = 0" "sh_stat s' = sh_stat sh" by (simp_all add: s' s2_def s1_def)
  show "sh_mem s' (a + i) = sh_mem sh (a + i + 1)" if "85 \<le> i" "i < 0xFFFF" "i \<noteq> 0x4FFF"
    using that by (simp add: s' s2_def copy_def add.commute[of 80 a]) (simp add: s1_def set_mem a_def)
qed

text \<open>C31: A line of 80 characters breaks the editor. After 80 characters the position is reset but not the text; the tab key, with
  nothing to complete, puts the cursor behind the full line again; one more character sets only the position back, so that the second of two backspaces
  takes the position below zero, to 65535, and moves the memory behind the line down by one byte, up to the offset 65534 from the line: the two
  positions themselves, so that the position is \<open>0x4FFF\<close> in the end and a zero is written at that offset from the line, and everything behind the shell object.\<close>

theorem shell_line_overrun:
  assumes "editing sh [] []" and "length cs = FINSH_CMD_SIZE" and "\<forall>c \<in> set cs. typable c" and "0x20 \<notin> set cs" and "typable c"
    and "table_names (sh_mem sh) tab names" and "names_apart sh tab names" and "\<forall>w \<in> set names. \<not> prefix cs w"
  shows "\<exists>sh'. finsh_run fs mem tab (cs @ [0x09, c, 0x7F, 0x7F]) sh = Some ([], sh') \<and> line_position sh' = 0x4FFF
    \<and> sh_mem sh' (line_at sh + 0x4FFF) = 0
    \<and> (\<forall>i. 85 \<le> i \<and> i < 0xFFFF \<and> i \<noteq> 0x4FFF \<longrightarrow> sh_mem sh' (line_at sh + i) = sh_mem sh (line_at sh + i + 1))"
proof -
  obtain s1 where s1: "finsh_run fs mem tab cs sh = Some ([], s1)" "cstr (sh_mem s1) (line_at sh) cs" "only_line sh s1"
    "sh_stat s1 = WAIT_NORMAL" using full_line[OF assms(1-3)] by blast
  have at: "line_at s1 = line_at sh" using only_line_at[OF s1(3)] by simp
  have "sh_mem s1 b = sh_mem sh b" if "(x, w) \<in> set (zip tab names)" "sys_name x \<le> b" "b \<le> sys_name x + length w" for x w b
    using assms(7) that s1(3) unfolding names_apart_def only_line_def by (auto simp: line_at_def)
  then have t1: "table_names (sh_mem s1) tab names" by (rule table_names_kept[OF assms(6)])
  have ne: "cs \<noteq> []" using assms(2) by (auto simp: FINSH_CMD_SIZE_def)
  define s2 where "s2 = set_curpos 80 (set_position 80 s1)"
  have k: "key_tab fs mem tab s1 = Some s2"
    using key_tab_idle[OF s1(2)[folded at] ne assms(4) t1 assms(8)] assms(2) by (simp add: s2_def FINSH_CMD_SIZE_def)
  have m2: "sh_mem s2 b = sh_mem sh b" if "line_at sh + 86 \<le> b" for b
    using that s1(3) at by (simp add: s2_def set_mem only_line_def)
  have st: "sh_stat s2 = WAIT_NORMAL" and l2: "line_at s2 = line_at sh" using s1(4) at by (simp_all add: s2_def)
  define s3 where "s3 = key_backspace (key_char c s2)"
  have o: "line_position s2 = 80" "line_curpos s2 = 80" by (simp_all add: s2_def)
  note o3 = overrun_start[OF o, where c = c, folded s3_def]
  have l3: "line_at s3 = line_at sh" using o3(3) l2 by (simp add: line_at_def)
  note o4 = overrun_move[OF o3(1,2), unfolded l3]
  have "sh_stat (key_char c s2) = WAIT_NORMAL" using st by (simp add: key_char_def Let_def)
  then have r: "finsh_run fs mem tab (cs @ [0x09, c, 0x7F, 0x7F]) sh = Some ([], key_backspace s3)"
    using s1(1,4) k st o3(4) assms(5) by (simp add: finsh_run_append finsh_char_def plain_char_def typable_def s3_def)
  have "sh_mem (key_backspace s3) (line_at sh + i) = sh_mem sh (line_at sh + i + 1)" if "85 \<le> i" "i < 0xFFFF" "i \<noteq> 0x4FFF" for i
    using o4(4)[OF that] o3(5)[of "line_at sh + i + 1"] m2[of "line_at sh + i + 1"] that(1) l2 by simp
  then show ?thesis using r o4(1,2) by blast
qed

theorem shell_line_overrun_witness:
  "\<exists>sh'. finsh_run no_files True demo_table (replicate 80 0x61 @ [0x09, 0x62, 0x7F, 0x7F]) demo_shell = Some ([], sh') \<and> line_position sh' = 0x4FFF"
proof -
  have "\<forall>w \<in> set [map of_char ''pin'', map of_char ''ps'']. \<not> prefix (replicate 80 (0x61 :: byte)) w"
    by (auto dest: prefix_length_le)
  then have "\<exists>sh'. finsh_run no_files True demo_table (replicate 80 0x61 @ [0x09, 0x62, 0x7F, 0x7F]) demo_shell = Some ([], sh') \<and> line_position sh' = 0x4FFF
    \<and> sh_mem sh' (line_at demo_shell + 0x4FFF) = 0
    \<and> (\<forall>i. 85 \<le> i \<and> i < 0xFFFF \<and> i \<noteq> 0x4FFF \<longrightarrow> sh_mem sh' (line_at demo_shell + i) = sh_mem demo_shell (line_at demo_shell + i + 1))"
    using demo_shell_editing(1) demo_shell_ready(1,2)
    by (intro shell_line_overrun) (auto simp: FINSH_CMD_SIZE_def typable_def)
  then show ?thesis by blast
qed

end
