(* ===== verification/DfsPath.thy ===== *)
theory DfsPath
  imports KStdio Msh
begin

text \<open>
  Path names of the file system layer (\<open>rt-thread/components/dfs/dfs_v1/src/dfs.c\<close>): \<open>dfs_normalize_path\<close> builds an absolute
  path and removes its empty, \<open>.\<close> and \<open>..\<close> parts in place, with a pointer that reads and one that writes; it is
  shown to compute what resolving the parts of the path one after the other gives. \<open>dfs_subdir\<close> cuts the mount point off.
  Buffers come from the allocator, whose answer is a parameter.
\<close>

abbreviation SLASH :: byte where "SLASH \<equiv> 0x2F"
abbreviation DOT :: byte where "DOT \<equiv> 0x2E"

section \<open>Normalisation in place\<close>

partial_function (option) skip_slashes :: "nat \<Rightarrow> memory \<Rightarrow> nat option" where
  "skip_slashes src m = (if m src = SLASH \<and> m src \<noteq> 0 then skip_slashes (src + 1) m else Some src)"

text \<open>\<open>while ((c = *src++) != 0 && c != '/') *dst++ = c\<close>.\<close>

partial_function (option) copy_part :: "nat \<Rightarrow> nat \<Rightarrow> memory \<Rightarrow> (byte \<times> nat \<times> nat \<times> memory) option" where
  "copy_part src dst m =
    (if m src \<noteq> 0 \<and> m src \<noteq> SLASH then copy_part (src + 1) (dst + 1) (m(dst := m src)) else Some (m src, src + 1, dst, m))"

fun back_to_slash :: "nat \<Rightarrow> nat \<Rightarrow> memory \<Rightarrow> nat" where
  "back_to_slash dst0 0 m = 0"
| "back_to_slash dst0 (Suc d) m = (if dst0 < Suc d \<and> m d \<noteq> SLASH then back_to_slash dst0 d m else Suc d)"

text \<open>One directory up; \<open>None\<close> above the start of the path.\<close>

definition up_one :: "nat \<Rightarrow> nat \<Rightarrow> memory \<Rightarrow> nat option" where
  "up_one dst0 dst m =
    (if dst - dst0 \<noteq> 1 \<or> m (dst - 1) \<noteq> SLASH
     then if dst \<le> dst0 then None else Some (back_to_slash dst0 (dst - 1) m)
     else Some (back_to_slash dst0 dst m))"

datatype dots = DotEnd | DotSlash | UpEnd | UpSlash | NoDots

definition dots_at :: "nat \<Rightarrow> memory \<Rightarrow> dots" where
  "dots_at src m =
    (if m src = DOT then
       if m (src + 1) = 0 then DotEnd
       else if m (src + 1) = SLASH then DotSlash
       else if m (src + 1) = DOT then
         if m (src + 2) = 0 then UpEnd else if m (src + 2) = SLASH then UpSlash else NoDots
       else NoDots
     else NoDots)"

text \<open>The loop over the path: the end of what was written, or \<open>None\<close> for a path that leads above its start.\<close>

partial_function (option) normal_loop :: "nat \<Rightarrow> nat \<Rightarrow> nat \<Rightarrow> memory \<Rightarrow> (nat \<times> memory) option option" where
  "normal_loop dst0 src dst m =
    (case dots_at src m of
       DotSlash \<Rightarrow> do { src \<leftarrow> skip_slashes (src + 2) m; normal_loop dst0 src dst m }
     | UpEnd \<Rightarrow> (case up_one dst0 dst m of None \<Rightarrow> Some None | Some dst \<Rightarrow> normal_loop dst0 (src + 2) dst m)
     | UpSlash \<Rightarrow> do {
          src \<leftarrow> skip_slashes (src + 3) m;
          (case up_one dst0 dst m of None \<Rightarrow> Some None | Some dst \<Rightarrow> normal_loop dst0 src dst m)
        }
     | d \<Rightarrow> do {
          (c, src, dst, m) \<leftarrow> copy_part (if d = DotEnd then src + 1 else src) dst m;
          (if c = SLASH then do {
             let m = m(dst := SLASH);
             src \<leftarrow> skip_slashes src m;
             normal_loop dst0 src (dst + 1) m
           } else Some (Some (dst, m)))
        })"

definition path_end :: "nat \<Rightarrow> nat \<Rightarrow> memory \<Rightarrow> memory" where
  "path_end fullpath dst m =
    (let m = m(dst := 0);
         m = (if dst - 1 > fullpath \<and> m (dst - 1) = SLASH then m(dst - 1 := 0) else m)
     in if m fullpath = 0 then m(fullpath := SLASH, fullpath + 1 := 0) else m)"

definition normalize_at :: "nat \<Rightarrow> memory \<Rightarrow> (nat option \<times> memory) option" where
  "normalize_at fullpath m = do {
     r \<leftarrow> normal_loop fullpath fullpath fullpath m;
     Some (case r of None \<Rightarrow> (None, m) | Some (dst, m) \<Rightarrow> (Some fullpath, path_end fullpath dst m))
   }"

text \<open>The strings that a directory and a file name are, and the text that joins them.\<close>

definition string_at :: "memory \<Rightarrow> nat \<Rightarrow> byte list option" where
  "string_at m a = map_option (\<lambda>n. map (\<lambda>i. m (a + i)) [0..<n]) (rt_strlen m a)"

definition join_path :: "nat \<Rightarrow> nat \<Rightarrow> (nat \<Rightarrow> nat option) \<Rightarrow> memory \<Rightarrow> (nat option \<times> memory) option" where
  "join_path directory filename rt_malloc m = do {
     d \<leftarrow> string_at m directory;
     f \<leftarrow> string_at m filename;
     let n = length d + length f + 2;
     (case rt_malloc n of None \<Rightarrow> Some (None, m)
      | Some p \<Rightarrow> do {
          (m, _) \<leftarrow> rt_snprintf m p n (map of_char ''%s/%s'') [VStr (Some d), VStr (Some f)];
          Some (Some p, m) })
   }"

definition dfs_normalize_path ::
  "nat \<Rightarrow> nat option \<Rightarrow> nat \<Rightarrow> (nat \<Rightarrow> nat option) \<Rightarrow> memory \<Rightarrow> (nat option \<times> memory) option" where
  "dfs_normalize_path working_directory directory filename rt_malloc m = do {
     let directory = (case directory of None \<Rightarrow> working_directory | Some d \<Rightarrow> d);
     (p, m) \<leftarrow> (if m filename \<noteq> SLASH then join_path directory filename rt_malloc m else rt_strdup m filename rt_malloc);
     (case p of None \<Rightarrow> Some (None, m) | Some fullpath \<Rightarrow> normalize_at fullpath m)
   }"

text \<open>The part of a file name below a directory that is a beginning of it.\<close>

definition dfs_subdir :: "memory \<Rightarrow> nat \<Rightarrow> nat \<Rightarrow> nat option option" where
  "dfs_subdir m directory filename = do {
     d \<leftarrow> rt_strlen m directory;
     f \<leftarrow> rt_strlen m filename;
     Some (if d = f then None
           else Some (if m (filename + d) \<noteq> SLASH \<and> d \<noteq> 0 then filename + d - 1 else filename + d))
   }"

section \<open>The parts of a path\<close>

text \<open>The reference: a path is the list of what stands between its slashes.\<close>

fun parts :: "byte list \<Rightarrow> byte list list" where
  "parts [] = [[]]"
| "parts (c # cs) = (if c = SLASH then [] # parts cs else (c # hd (parts cs)) # tl (parts cs))"

definition step_part :: "byte list list \<Rightarrow> byte list \<Rightarrow> byte list list" where
  "step_part ws x = (if x = [] \<or> x = [DOT] then ws else if x = [DOT, DOT] then butlast ws else ws @ [x])"

definition resolve :: "byte list \<Rightarrow> byte list list" where
  "resolve xs = foldl step_part [] (parts xs)"

definition path_text :: "byte list list \<Rightarrow> byte list" where
  "path_text ws = (if ws = [] then [SLASH] else concat (map (\<lambda>w. SLASH # w) ws))"

lemma parts_nonempty [simp]: "parts xs \<noteq> []"
  by (cases xs) auto

lemma parts_append: "SLASH \<notin> set x \<Longrightarrow> parts (x @ SLASH # ys) = x # parts ys"
  by (induction x) auto

lemma parts_single: "SLASH \<notin> set x \<Longrightarrow> parts x = [x]"
  by (induction x) auto

definition no_slash :: "byte list \<Rightarrow> bool" where
  "no_slash w \<longleftrightarrow> w \<noteq> [] \<and> SLASH \<notin> set w"

lemma parts_no_slash: "x \<in> set (parts xs) \<Longrightarrow> SLASH \<notin> set x \<and> set x \<subseteq> set xs"
proof (induction xs arbitrary: x)
  case (Cons c xs)
  have h: "hd (parts xs) \<in> set (parts xs)" by simp
  have t: "y \<in> set (tl (parts xs)) \<Longrightarrow> y \<in> set (parts xs)" for y by (metis list.set_sel(2) parts_nonempty)
  show ?case using Cons.IH[OF h] Cons.IH[OF t, of x] Cons.IH[of x] Cons.prems by (auto split: if_splits)
qed simp

lemma skip_parts: "foldl step_part ws (parts (dropWhile ((=) SLASH) xs)) = foldl step_part ws (parts xs)"
  by (induction xs) (auto simp: step_part_def)

section \<open>What the loop computes\<close>

lemma skip_slashes_spec:
  "cstr m src rest \<Longrightarrow> skip_slashes src m = Some (src + length (takeWhile ((=) SLASH) rest))"
proof (induction rest arbitrary: src)
  case Nil
  then show ?case by (simp add: skip_slashes.simps)
next
  case (Cons c rest)
  then show ?case using Cons.IH[of "src + 1"] by (auto simp: skip_slashes.simps[of src])
qed

lemma copy_part_0 [simp]: "copy m d s 0 = m"
  by (auto simp: copy_def fun_eq_iff)

lemma copy_first:
  assumes "dst \<le> src"
  shows "copy (m(dst := m src)) (dst + 1) (src + 1) n = copy m dst src (Suc n)"
proof
  fix p
  consider "p < dst" | "p = dst" | k where "p = dst + 1 + k" by (metis add.commute less_iff_Suc_add linorder_neqE_nat plus_1_eq_Suc add_Suc_right)
  then show "copy (m(dst := m src)) (dst + 1) (src + 1) n p = copy m dst src (Suc n) p"
    by cases (use assms in \<open>auto simp: copy_def\<close>)
qed

lemma copy_part_spec:
  "cstr m src rest \<Longrightarrow> dst \<le> src \<Longrightarrow> copy_part src dst m =
    (let n = length (takeWhile (\<lambda>c. c \<noteq> SLASH) rest)
     in Some (if n < length rest then SLASH else 0, src + n + 1, dst + n, copy m dst src n))"
proof (induction rest arbitrary: src dst m)
  case Nil
  then show ?case by (simp add: copy_part.simps)
next
  case (Cons c rest)
  show ?case
  proof (cases "c = SLASH")
    case True
    then show ?thesis using Cons.prems by (simp add: copy_part.simps[of src])
  next
    case False
    have c: "m src = c" "c \<noteq> 0" using Cons.prems(1) by simp_all
    have s: "cstr (m(dst := c)) (src + 1) rest" using Cons.prems by (subst cstr_cong[of _ _ _ m]) auto
    have "copy (m(dst := c)) (dst + 1) (src + 1) n = copy m dst src (Suc n)" for n
      using copy_first[OF Cons.prems(2), of m n] c(1) by simp
    moreover have "copy_part src dst m = copy_part (src + 1) (dst + 1) (m(dst := c))"
      using c False by (subst copy_part.simps) simp
    ultimately show ?thesis using Cons.IH[OF s, of "dst + 1"] Cons.prems(2) False by (simp add: Let_def del: fun_upd_apply)
  qed
qed

lemma dots_at_spec:
  assumes "cstr m src (x @ tail)" and "SLASH \<notin> set x" and "tail = [] \<or> hd tail = SLASH"
  shows "dots_at src m = (if x = [DOT] then (if tail = [] then DotEnd else DotSlash)
    else if x = [DOT, DOT] then (if tail = [] then UpEnd else UpSlash) else NoDots)"
proof -
  obtain y where "y = x @ tail" by simp
  then show ?thesis using assms
    by (cases x rule: list.exhaust[case_names N C]; cases "tl x"; cases "tl (tl x)"; cases tail) (auto simp: dots_at_def add_2_eq_Suc')
qed

text \<open>The text at an address, without a terminator.\<close>

definition text_at :: "memory \<Rightarrow> nat \<Rightarrow> byte list \<Rightarrow> bool" where
  "text_at m a t \<longleftrightarrow> (\<forall>i < length t. m (a + i) = t ! i)"

definition dir_text :: "byte list list \<Rightarrow> byte list" where
  "dir_text ws = SLASH # concat (map (\<lambda>w. w @ [SLASH]) ws)"

lemma dir_text_snoc: "dir_text (ws @ [w]) = dir_text ws @ w @ [SLASH]"
  by (simp add: dir_text_def)

lemma dir_text_last: "\<exists>t. dir_text ws = t @ [SLASH]"
  by (cases ws rule: rev_cases) (simp_all add: dir_text_def)

lemma dir_path_text: "ws \<noteq> [] \<Longrightarrow> dir_text ws = path_text ws @ [SLASH]"
proof (induction ws rule: rev_induct)
  case (snoc w ws)
  then show ?case by (cases "ws = []") (simp_all add: dir_text_snoc path_text_def, simp_all add: dir_text_def)
qed simp

lemma text_at_append: "text_at m a (s @ t) \<longleftrightarrow> text_at m a s \<and> text_at m (a + length s) t"
proof -
  have "(\<forall>i < length (s @ t). P i) \<longleftrightarrow> (\<forall>i < length s. P i) \<and> (\<forall>i < length t. P (length s + i))" for P
  proof
    assume h: "(\<forall>i < length s. P i) \<and> (\<forall>i < length t. P (length s + i))"
    then show "\<forall>i < length (s @ t). P i" by (metis add_diff_inverse_nat length_append nat_add_left_cancel_less)
  qed simp
  from this[of "\<lambda>i. m (a + i) = (s @ t) ! i"] show ?thesis by (auto simp: text_at_def nth_append add.assoc)
qed

lemma text_at_cong: "text_at m a t \<Longrightarrow> (\<And>i. i < length t \<Longrightarrow> m' (a + i) = m (a + i)) \<Longrightarrow> text_at m' a t"
  by (simp add: text_at_def)

lemma back_to_slash_spec:
  "\<forall>i < k. m (d + i) \<noteq> SLASH \<Longrightarrow> m (d - 1) = SLASH \<Longrightarrow> dst0 < d \<Longrightarrow> back_to_slash dst0 (d + k) m = d"
proof (induction k)
  case 0
  then show ?case by (cases d) auto
qed simp

lemma up_one_spec:
  assumes t: "text_at m dst0 (dir_text ws)" and ws: "\<forall>w \<in> set ws. no_slash w"
  shows "up_one dst0 (dst0 + length (dir_text ws)) m = Some (dst0 + length (dir_text (butlast ws)))"
proof (cases ws rule: rev_cases)
  case Nil
  then show ?thesis using t by (simp add: up_one_def dir_text_def text_at_def)
next
  case (snoc vs w)
  obtain s where s: "dir_text vs = s @ [SLASH]" using dir_text_last by blast
  define d where "d = dst0 + length (dir_text vs)"
  have tw: "text_at m d (w @ [SLASH])" "text_at m dst0 (dir_text vs)" using t by (simp_all add: snoc dir_text_snoc text_at_append d_def)
  have w: "no_slash w" using ws snoc by simp
  have "\<forall>i < length w. m (d + i) \<noteq> SLASH" using tw(1) w by (auto simp: text_at_def no_slash_def nth_append) (metis nth_mem)
  moreover have "m (d - 1) = SLASH" using tw(2) by (simp add: s text_at_append d_def text_at_def)
  ultimately have "back_to_slash dst0 (d + length w) m = d" by (intro back_to_slash_spec) (simp_all add: d_def s)
  moreover have l: "length (dir_text ws) = length (dir_text vs) + length w + 1" by (simp add: snoc dir_text_snoc)
  moreover have "length w \<noteq> 0" using w by (simp add: no_slash_def)
  moreover have "dst0 + length (dir_text ws) - 1 = d + length w" using l by (simp add: d_def)
  ultimately show ?thesis by (simp add: up_one_def snoc d_def add.assoc del: back_to_slash.simps)
qed

text \<open>What the loop leaves: the text of the resolved path, perhaps with a slash behind it, and nothing changed outside.\<close>

definition normal_result :: "nat \<Rightarrow> nat \<Rightarrow> memory \<Rightarrow> byte list list \<Rightarrow> (nat \<times> memory) option option \<Rightarrow> bool" where
  "normal_result dst0 e m ws r \<longleftrightarrow> (\<exists>dst' m' t. r = Some (Some (dst', m')) \<and> text_at m' dst0 t \<and> dst' = dst0 + length t \<and> dst' < e
    \<and> (t = path_text ws \<or> t = dir_text ws) \<and> (\<forall>b. b < dst0 \<or> e \<le> b \<longrightarrow> m' b = m b))"

lemma normal_result_mono:
  "normal_result dst0 e m' ws r \<Longrightarrow> (\<forall>b. b < dst0 \<or> e \<le> b \<longrightarrow> m' b = m b) \<Longrightarrow> normal_result dst0 e m ws r"
  unfolding normal_result_def by (metis (no_types, lifting))

lemma no_slash_step: "\<forall>w \<in> set ws. no_slash w \<Longrightarrow> SLASH \<notin> set x \<Longrightarrow> \<forall>w \<in> set (step_part ws x). no_slash w"
  by (auto simp: step_part_def no_slash_def dest: in_set_butlastD)

lemma text_copy:
  assumes "cstr m src (x @ tail)" and "text_at m dst0 t" and "dst = dst0 + length t" and "dst \<le> src"
  shows "text_at (copy m dst src (length x)) dst0 (t @ x)" and "cstr (copy m dst src (length x)) (src + length x) tail"
proof -
  have "text_at (copy m dst src (length x)) dst0 t" using assms(2,3) by (simp add: text_at_def copy_def)
  moreover have "text_at (copy m dst src (length x)) (dst0 + length t) x"
    using assms(1,3) by (simp add: text_at_def copy_def cstr_def nth_append)
  ultimately show "text_at (copy m dst src (length x)) dst0 (t @ x)" by (simp add: text_at_append)
  have "cstr m (src + length x) tail" using cstr_drop[OF assms(1), of "length x"] by simp
  then show "cstr (copy m dst src (length x)) (src + length x) tail"
    using assms(4) by (subst cstr_cong[of _ _ _ m]) (auto simp: copy_def)
qed

text \<open>The step over one part \<open>x\<close> that a slash follows; the loop goes on behind the slashes.\<close>

lemma normal_step:
  assumes c: "cstr m src (x @ SLASH # tail)" and x: "SLASH \<notin> set x"
    and t: "text_at m dst0 (dir_text ws)" "dst = dst0 + length (dir_text ws)" "dst \<le> src" "\<forall>w \<in> set ws. no_slash w" and ne: "x \<noteq> []"
  defines "src' \<equiv> src + length x + 1 + length (takeWhile ((=) SLASH) tail)"
  shows "\<exists>dst' m'. normal_loop dst0 src dst m = normal_loop dst0 src' dst' m' \<and> text_at m' dst0 (dir_text (step_part ws x))
    \<and> dst' = dst0 + length (dir_text (step_part ws x)) \<and> dst' \<le> src' \<and> cstr m' src' (dropWhile ((=) SLASH) tail)
    \<and> (\<forall>b. b < dst0 \<or> src' \<le> b \<longrightarrow> m' b = m b)"
proof -
  have tail: "cstr m (src + length x + 1) tail" using cstr_drop[OF c, of "length x + 1"] by (simp add: add.assoc)
  have sk: "skip_slashes (src + length x + 1) m' = Some src'" if "cstr m' (src + length x + 1) tail" for m'
    unfolding src'_def by (rule skip_slashes_spec[OF that])
  have rest: "cstr m' src' (dropWhile ((=) SLASH) tail)" if "cstr m' (src + length x + 1) tail" for m'
    using cstr_drop[OF that length_takeWhile_le, of "(=) SLASH"] by (simp add: src'_def dropWhile_eq_drop)
  have d: "dots_at src m = (if x = [DOT] then DotSlash else if x = [DOT, DOT] then UpSlash else NoDots)"
    using dots_at_spec[OF c x] by simp
  have up: "up_one dst0 dst m = Some (dst0 + length (dir_text (butlast ws)))" unfolding t(2) by (rule up_one_spec[OF t(1,4)])
  have bl: "text_at m dst0 (dir_text (butlast ws))" "length (dir_text (butlast ws)) \<le> length (dir_text ws)"
    using t(1) by (cases ws rule: rev_cases; simp add: dir_text_snoc text_at_append)+
  consider "x = [DOT]" | "x = [DOT, DOT]" | "x \<noteq> [DOT]" "x \<noteq> [DOT, DOT]" by blast
  then show ?thesis
  proof cases
    case 1
    then have "normal_loop dst0 src dst m = normal_loop dst0 src' dst m"
      using d sk[OF tail] by (subst normal_loop.simps) simp
    then show ?thesis using 1 t rest[OF tail] by (intro exI[of _ dst] exI[of _ m]) (simp add: step_part_def src'_def)
  next
    case 2
    have "normal_loop dst0 src dst m = normal_loop dst0 src' (dst0 + length (dir_text (butlast ws))) m"
      using d sk[OF tail] up 2 by (subst normal_loop.simps) (simp add: numeral_3_eq_3)
    then show ?thesis using 2 t bl rest[OF tail]
      by (intro exI[of _ "dst0 + length (dir_text (butlast ws))"] exI[of _ m]) (simp add: step_part_def src'_def)
  next
    case 3
    define m1 where "m1 = copy m dst src (length x)"
    define m2 where "m2 = m1(dst + length x := SLASH)"
    have tw: "takeWhile (\<lambda>c. c \<noteq> SLASH) (x @ SLASH # tail) = x" using x by (induction x) auto
    have cp: "copy_part src dst m = Some (SLASH, src + length x + 1, dst + length x, m1)"
      using copy_part_spec[OF c t(3)] unfolding tw by (simp add: Let_def m1_def)
    note tc = text_copy[OF c t(1-3), folded m1_def]
    have "cstr m1 (src + length x + 1) tail" using cstr_drop[OF tc(2), of 1] by simp
    then have c2: "cstr m2 (src + length x + 1) tail" using t(3) by (subst cstr_cong[of _ _ _ m1]) (auto simp: m2_def)
    have t2: "text_at m2 dst0 (dir_text (ws @ [x]))"
    proof -
      have "text_at m2 dst0 (dir_text ws @ x)" by (rule text_at_cong[OF tc(1)]) (simp add: m2_def t(2))
      moreover have "text_at m2 (dst0 + length (dir_text ws @ x)) [SLASH]" using t(2) by (simp add: m2_def text_at_def add.assoc)
      ultimately show ?thesis unfolding dir_text_snoc append_assoc[symmetric] text_at_append by simp
    qed
    have "normal_loop dst0 src dst m = normal_loop dst0 src' (dst + length x + 1) m2"
      using d 3 cp sk[OF c2] by (subst normal_loop.simps) (simp add: Let_def m2_def)
    moreover have "step_part ws x = ws @ [x]" using 3 ne by (simp add: step_part_def)
    moreover have "\<forall>b. b < dst0 \<or> src' \<le> b \<longrightarrow> m2 b = m b"
      using t(2,3) by (auto simp: m2_def m1_def copy_def src'_def)
    ultimately show ?thesis using t2 t(2,3) rest[OF c2]
      by (intro exI[of _ "dst + length x + 1"] exI[of _ m2]) (simp add: dir_text_snoc src'_def)
  qed
qed

text \<open>The last part.\<close>

lemma normal_last:
  assumes c: "cstr m src x" and x: "SLASH \<notin> set x"
    and t: "text_at m dst0 (dir_text ws)" "dst = dst0 + length (dir_text ws)" "dst \<le> src" "\<forall>w \<in> set ws. no_slash w"
  shows "normal_result dst0 (src + length x + 1) m (step_part ws x) (normal_loop dst0 src dst m)"
proof -
  have d: "dots_at src m = (if x = [DOT] then DotEnd else if x = [DOT, DOT] then UpEnd else NoDots)"
    using dots_at_spec[of m src x "[]"] c x by simp
  have e: "cstr m (src + length x) []" using cstr_drop[OF c, of "length x"] by simp
  have stop: "normal_loop dst0 (src + length x) dst' m = Some (Some (dst', m))" if "dst' \<le> src" for dst'
  proof -
    have "copy_part (src + length x) dst' m = Some (0, src + length x + 1, dst', m)" using copy_part_spec[OF e, of dst'] that by simp
    moreover have "dots_at (src + length x) m = NoDots" using dots_at_spec[of m "src + length x" "[]" "[]"] e by simp
    ultimately show ?thesis by (subst normal_loop.simps) simp
  qed
  have up: "up_one dst0 dst m = Some (dst0 + length (dir_text (butlast ws)))" unfolding t(2) by (rule up_one_spec[OF t(1,4)])
  have bl: "text_at m dst0 (dir_text (butlast ws))" "length (dir_text (butlast ws)) \<le> length (dir_text ws)"
    using t(1) by (cases ws rule: rev_cases; simp add: dir_text_snoc text_at_append)+
  consider "x = [DOT]" | "x = [DOT, DOT]" | "x = []" | "x \<noteq> [DOT]" "x \<noteq> [DOT, DOT]" "x \<noteq> []" by blast
  then show ?thesis
  proof cases
    case 1
    have "copy_part (src + 1) dst m = Some (0, src + 2, dst, m)" using copy_part_spec[OF e, of dst] t(3) 1 by simp
    then have "normal_loop dst0 src dst m = Some (Some (dst, m))" using d 1 by (subst normal_loop.simps) simp
    then show ?thesis using t 1 by (auto simp: normal_result_def step_part_def)
  next
    case 2
    have "normal_loop dst0 src dst m = normal_loop dst0 (src + length x) (dst0 + length (dir_text (butlast ws))) m"
      using d up 2 by (subst normal_loop.simps) simp
    then show ?thesis using stop t bl 2 by (auto simp: normal_result_def step_part_def)
  next
    case 3
    then have "normal_loop dst0 src dst m = Some (Some (dst, m))" using stop[OF t(3)] by simp
    then show ?thesis using t 3 by (auto simp: normal_result_def step_part_def)
  next
    case 4
    define m1 where "m1 = copy m dst src (length x)"
    have tw: "takeWhile (\<lambda>c. c \<noteq> SLASH) x = x" using x by (auto simp: takeWhile_eq_all_conv)
    have "copy_part src dst m = Some (0, src + length x + 1, dst + length x, m1)"
      using copy_part_spec[OF c t(3)] unfolding tw by (simp add: m1_def Let_def)
    then have "normal_loop dst0 src dst m = Some (Some (dst + length x, m1))" using d 4 by (subst normal_loop.simps) simp
    moreover have "text_at m1 dst0 (dir_text ws @ x)" using text_copy(1)[of m src x "[]"] c t(1-3) by (simp add: m1_def)
    moreover have "dir_text ws @ x = path_text (ws @ [x])"
      using dir_text_snoc[of ws x] dir_path_text[of "ws @ [x]"] by simp
    moreover have "\<forall>b. b < dst0 \<or> src + length x + 1 \<le> b \<longrightarrow> m1 b = m b" using t(2,3) by (auto simp: m1_def copy_def)
    moreover have "length (path_text (ws @ [x])) = length (dir_text ws) + length x" using calculation(3) by (metis length_append)
    ultimately show ?thesis using t 4 by (auto simp: normal_result_def step_part_def)
  qed
qed

lemma split_part: "\<exists>x tail. SLASH \<notin> set x \<and> (rest = x \<or> rest = x @ SLASH # tail)"
proof (induction rest)
  case (Cons c rest)
  then obtain x tail where "SLASH \<notin> set x" "rest = x \<or> rest = x @ SLASH # tail" by blast
  then show ?case by (cases "c = SLASH") (auto intro: exI[of _ "[]"] exI[of _ "c # x"])
qed (auto intro: exI[of _ "[]"])

lemma normal_loop_spec:
  assumes "cstr m src rest" and "text_at m dst0 (dir_text ws)" and "dst = dst0 + length (dir_text ws)" and "dst \<le> src"
    and "\<forall>w \<in> set ws. no_slash w" and "rest = [] \<or> hd rest \<noteq> SLASH"
  shows "normal_result dst0 (src + length rest + 1) m (foldl step_part ws (parts rest)) (normal_loop dst0 src dst m)"
  using assms
proof (induction "length rest" arbitrary: rest src dst m ws rule: less_induct)
  case less
  obtain x tail where x: "SLASH \<notin> set x" "rest = x \<or> rest = x @ SLASH # tail" using split_part by blast
  from x(2) show ?case
  proof
    assume "rest = x"
    then show ?thesis using normal_last[OF _ x(1) less.prems(2-5)] less.prems(1) x(1) by (simp add: parts_single)
  next
    assume r: "rest = x @ SLASH # tail"
    then have ne: "x \<noteq> []" using less.prems(6) by auto
    define rest' where "rest' = dropWhile ((=) SLASH) tail"
    define src' where "src' = src + length x + 1 + length (takeWhile ((=) SLASH) tail)"
    obtain dst' m' where s: "normal_loop dst0 src dst m = normal_loop dst0 src' dst' m'" "text_at m' dst0 (dir_text (step_part ws x))"
      "dst' = dst0 + length (dir_text (step_part ws x))" "dst' \<le> src'" "cstr m' src' rest'" "\<forall>b. b < dst0 \<or> src' \<le> b \<longrightarrow> m' b = m b"
      using normal_step[OF less.prems(1)[unfolded r] x(1) less.prems(2-5) ne] unfolding rest'_def src'_def by blast
    have "length (takeWhile ((=) SLASH) tail) + length rest' = length tail" unfolding rest'_def by (metis length_append takeWhile_dropWhile_id)
    then have l: "src' + length rest' = src + length rest" "length rest' < length rest" using r by (simp_all add: src'_def)
    have "rest' = [] \<or> hd rest' \<noteq> SLASH" unfolding rest'_def using hd_dropWhile by metis
    from less.hyps[OF l(2) s(5,2-4) no_slash_step[OF less.prems(5) x(1)] this]
    have "normal_result dst0 (src + length rest + 1) m' (foldl step_part (step_part ws x) (parts rest')) (normal_loop dst0 src dst m)"
      unfolding s(1) l(1) .
    moreover have "foldl step_part (step_part ws x) (parts rest') = foldl step_part ws (parts rest)"
      by (simp add: rest'_def skip_parts r parts_append[OF x(1)])
    moreover have "\<forall>b. b < dst0 \<or> src + length rest + 1 \<le> b \<longrightarrow> m' b = m b"
    proof (intro allI impI)
      fix b assume "b < dst0 \<or> src + length rest + 1 \<le> b"
      then have "b < dst0 \<or> src' \<le> b" using l(1) by linarith
      then show "m' b = m b" using s(6) by blast
    qed
    ultimately show ?thesis using normal_result_mono by metis
  qed
qed

lemma path_text_cons: "\<exists>t. path_text ws = SLASH # t"
  by (cases ws) (auto simp: path_text_def)

lemma path_text_last: "ws \<noteq> [] \<Longrightarrow> \<forall>w \<in> set ws. no_slash w \<Longrightarrow> last (path_text ws) \<noteq> SLASH"
proof (cases ws rule: rev_cases)
  case (snoc vs w)
  assume "\<forall>w \<in> set ws. no_slash w"
  then have "w \<noteq> []" "last w \<in> set w" "SLASH \<notin> set w" using snoc by (auto simp: no_slash_def)
  moreover have "path_text ws = dir_text vs @ w" using snoc dir_path_text[of ws] dir_text_snoc[of vs w] by simp
  ultimately show ?thesis by (metis last_appendR)
qed simp

lemma cstr_text: "cstr m a t \<longleftrightarrow> text_at m a t \<and> m (a + length t) = 0 \<and> 0 \<notin> set t"
  by (auto simp: cstr_def text_at_def)

lemma path_end_spec:
  assumes t: "text_at m p t" "t = path_text ws \<or> t = dir_text ws" and ws: "\<forall>w \<in> set ws. no_slash w \<and> 0 \<notin> set w"
  shows "cstr (path_end p (p + length t) m) p (path_text ws)"
    and "b < p \<or> p + length t < b \<Longrightarrow> path_end p (p + length t) m b = m b"
proof -
  obtain u where u: "path_text ws = SLASH # u" using path_text_cons by blast
  have z: "0 \<notin> set (path_text ws)" using ws by (auto simp: path_text_def)
  have "cstr (path_end p (p + length t) m) p (path_text ws) \<and> (b < p \<or> p + length t < b \<longrightarrow> path_end p (p + length t) m b = m b)"
  proof (cases "ws \<noteq> [] \<and> t = dir_text ws")
    case True
    then have t': "t = path_text ws @ [SLASH]" by (simp add: dir_path_text)
    have first: "m p = SLASH" "m (p + length (path_text ws)) = SLASH" using t(1) by (auto simp: t' u text_at_def)
    have tx: "text_at m p (path_text ws)" using t(1) by (simp add: t' text_at_append)
    have e: "path_end p (p + length t) m = m(p + length t := 0, p + length (path_text ws) := 0)"
      using first by (simp add: path_end_def t' u Let_def)
    have "text_at (m(p + length t := 0, p + length (path_text ws) := 0)) p (path_text ws)"
      by (rule text_at_cong[OF tx]) (simp add: t')
    then show ?thesis unfolding e using z by (auto simp: cstr_text t')
  next
    case False
    then have t': "t = path_text ws" using t(2) by (auto simp: path_text_def dir_text_def)
    have first: "m p = SLASH" using t(1) by (auto simp: t' u text_at_def)
    have l: "m (p + length t - 1) = last (path_text ws)" using t(1) u by (simp add: t' text_at_def last_conv_nth)
    have "p < p + length t - 1 \<Longrightarrow> m (p + length t - 1) \<noteq> SLASH"
      using path_text_last[of ws] ws l by (cases "ws = []") (auto simp: t' path_text_def)
    then have e: "path_end p (p + length t) m = m(p + length t := 0)"
      using first u by (auto simp: path_end_def t' Let_def)
    have "text_at (m(p + length t := 0)) p (path_text ws)" by (rule text_at_cong[OF t(1)[unfolded t']]) (simp add: t')
    then show ?thesis unfolding e using z by (auto simp: cstr_text t')
  qed
  then show "cstr (path_end p (p + length t) m) p (path_text ws)" "b < p \<or> p + length t < b \<Longrightarrow> path_end p (p + length t) m b = m b"
    by simp_all
qed

text \<open>The parts that are left are names.\<close>

definition proper :: "byte list \<Rightarrow> bool" where
  "proper w \<longleftrightarrow> w \<noteq> [] \<and> w \<noteq> [DOT] \<and> w \<noteq> [DOT, DOT] \<and> SLASH \<notin> set w"

lemma steps_proper:
  "\<forall>w \<in> set ws. proper w \<and> set w \<subseteq> A \<Longrightarrow> \<forall>x \<in> set xs. SLASH \<notin> set x \<and> set x \<subseteq> A \<Longrightarrow>
   \<forall>w \<in> set (foldl step_part ws xs). proper w \<and> set w \<subseteq> A"
proof (induction xs arbitrary: ws)
  case (Cons x xs)
  have "\<forall>w \<in> set (step_part ws x). proper w \<and> set w \<subseteq> A"
    using Cons.prems by (auto simp: step_part_def proper_def dest: in_set_butlastD)
  from Cons.IH[OF this] Cons.prems(2) show ?case by simp
qed simp

lemma resolve_proper: "\<forall>w \<in> set (resolve xs). proper w \<and> set w \<subseteq> set xs"
  unfolding resolve_def using parts_no_slash by (intro steps_proper) auto

text \<open>A normalised path is left alone.\<close>

lemma parts_concat: "\<forall>w \<in> set ws. SLASH \<notin> set w \<Longrightarrow> parts (concat (map (\<lambda>w. SLASH # w) ws)) = [] # ws"
proof (induction ws)
  case (Cons w ws)
  then show ?case
    by (cases ws) (simp_all add: parts_single parts_append)
qed simp

lemma steps_names: "\<forall>x \<in> set xs. proper x \<Longrightarrow> foldl step_part ws xs = ws @ xs"
  by (induction xs arbitrary: ws) (auto simp: step_part_def proper_def)

lemma resolve_path_text:
  assumes "\<forall>w \<in> set ws. proper w"
  shows "resolve (path_text ws) = ws"
proof (cases "ws = []")
  case True
  then show ?thesis by (simp add: resolve_def path_text_def step_part_def)
next
  case False
  then have "parts (path_text ws) = [] # ws" using assms by (simp add: path_text_def parts_concat proper_def)
  then show ?thesis using steps_names[OF assms, of "[]"] by (simp add: resolve_def step_part_def)
qed

lemma normalize_at_spec:
  assumes c: "cstr m p (SLASH # r)"
  shows "\<exists>m'. normalize_at p m = Some (Some p, m') \<and> cstr m' p (path_text (resolve (SLASH # r)))
    \<and> (\<forall>b. b < p \<or> p + length (SLASH # r) < b \<longrightarrow> m' b = m b)"
proof -
  define r' where "r' = dropWhile ((=) SLASH) r"
  define src where "src = p + 1 + length (takeWhile ((=) SLASH) r)"
  have tl: "cstr m (p + 1) r" using cstr_drop[OF c, of 1] by simp
  have s: "skip_slashes (p + 1) m = Some src" unfolding src_def by (rule skip_slashes_spec[OF tl])
  have c': "cstr m src r'" using cstr_drop[OF tl length_takeWhile_le, of "(=) SLASH"] by (simp add: src_def r'_def dropWhile_eq_drop)
  have mp: "m p = SLASH" "m(p := SLASH) = m" using c by auto
  have "copy_part p p m = Some (SLASH, p + 1, p, m)" using copy_part_spec[OF c, of p] by simp
  moreover have "dots_at p m = NoDots" using mp(1) by (simp add: dots_at_def)
  ultimately have first: "normal_loop p p p m = normal_loop p src (p + 1) m"
    using s mp(2) by (subst normal_loop.simps) (simp add: Let_def)
  have "length (takeWhile ((=) SLASH) r) + length r' = length r" unfolding r'_def by (metis length_append takeWhile_dropWhile_id)
  then have len: "src + length r' + 1 = p + length (SLASH # r) + 1" by (simp add: src_def)
  have hd: "r' = [] \<or> hd r' \<noteq> SLASH" unfolding r'_def using hd_dropWhile by metis
  have "text_at m p (dir_text [])" using mp(1) by (simp add: text_at_def dir_text_def)
  then have "normal_result p (src + length r' + 1) m (foldl step_part [] (parts r')) (normal_loop p p p m)"
    unfolding first by (intro normal_loop_spec[OF c']) (use hd in \<open>auto simp: dir_text_def src_def\<close>)
  moreover have "foldl step_part [] (parts r') = resolve (SLASH # r)" by (simp add: r'_def skip_parts resolve_def step_part_def)
  ultimately obtain dst' m' t where n: "normal_loop p p p m = Some (Some (dst', m'))" "text_at m' p t" "dst' = p + length t"
    "dst' < p + length (SLASH # r) + 1" "t = path_text (resolve (SLASH # r)) \<or> t = dir_text (resolve (SLASH # r))"
    "\<forall>b. b < p \<or> p + length (SLASH # r) + 1 \<le> b \<longrightarrow> m' b = m b"
    unfolding normal_result_def len by auto
  have "0 \<notin> set (SLASH # r)" using c by (auto simp: cstr_def)
  then have ws: "\<forall>w \<in> set (resolve (SLASH # r)). no_slash w \<and> 0 \<notin> set w"
    using resolve_proper[of "SLASH # r"] by (fastforce simp: proper_def no_slash_def)
  note e = path_end_spec[OF n(2) n(5) ws]
  have "normalize_at p m = Some (Some p, path_end p (p + length t) m')" using n(1,3) by (simp add: normalize_at_def)
  moreover have "path_end p (p + length t) m' b = m b" if "b < p \<or> p + length (SLASH # r) < b" for b
  proof -
    have "b < p \<or> p + length t < b" "b < p \<or> p + length (SLASH # r) + 1 \<le> b" using that n(3,4) by linarith+
    then show ?thesis using e(2)[of b] n(6) by metis
  qed
  ultimately show ?thesis using e(1) by blast
qed

section \<open>The whole path\<close>

lemma string_at_cstr: "cstr m a xs \<Longrightarrow> string_at m a = Some xs"
  by (auto simp: string_at_def rt_strlen_cstr cstr_def intro!: nth_equalityI)

lemma render_join: "render (map of_char ''%s/%s'') [VStr (Some d), VStr (Some f)] = Some (d @ SLASH # f)"
  by (simp add: spec_text_def parse_width_def parse_precision_def parse_qualifier_def ISDIGIT_def convert_text_def string_text_def
      Let_def flag_defs float_conversion_def integer_conversion_def)

lemma join_path_spec:
  assumes d: "cstr m a d" and f: "cstr m b f" and p: "rt_malloc (length d + length f + 2) = Some p" "p + length d + length f + 2 < 2 ^ 32"
  shows "\<exists>m'. join_path a b rt_malloc m = Some (Some p, m') \<and> cstr m' p (d @ SLASH # f)
    \<and> (\<forall>c. c < p \<or> p + length (d @ SLASH # f) < c \<longrightarrow> m' c = m c)"
proof -
  let ?t = "d @ SLASH # f"
  have "rt_snprintf m p (length d + length f + 2) (map of_char ''%s/%s'') [VStr (Some d), VStr (Some f)]
      = Some (with_text m p (length d + length f + 2) ?t, length ?t)"
    using p(2) unfolding rt_snprintf_def by (subst rt_vsnprintf_eq[OF _ render_join]) (simp_all del: list.map)
  then have "join_path a b rt_malloc m = Some (Some p, with_text m p (length d + length f + 2) ?t)"
    using string_at_cstr[OF d] string_at_cstr[OF f] p(1) by (simp add: join_path_def Let_def del: list.map)
  moreover have "cstr (with_text m p (length d + length f + 2) ?t) p ?t"
    using d f by (auto simp: cstr_def with_text_def)
  ultimately show ?thesis by (auto simp: with_text_def)
qed

lemma strdup_spec:
  assumes f: "cstr m a f" and p: "rt_malloc (length f + 1) = Some p" "p \<le> a \<or> a + length f < p"
  shows "\<exists>m'. rt_strdup m a rt_malloc = Some (Some p, m') \<and> cstr m' p f \<and> (\<forall>c. c < p \<or> p + length f < c \<longrightarrow> m' c = m c)"
proof -
  have "rt_strdup m a rt_malloc = Some (Some p, copy m p a (length f + 1))"
    using rt_strlen_cstr[OF f] p rt_memcpy_copy[of p a "length f + 1" m] by (auto simp: rt_strdup_def Let_def)
  moreover have "cstr (copy m p a (length f + 1)) p f" using f by (auto simp: cstr_def copy_def)
  ultimately show ?thesis by (auto simp: copy_def)
qed

text \<open>C35: A path is normalised as it is resolved. In a new buffer that is just large enough for the file name, or for
  directory and name joined if the name does not start with a slash, \<open>dfs_normalize_path\<close> leaves the string whose parts are those that
  going through the path gives: empty parts and \<open>.\<close> are left out, \<open>..\<close> drops the part before it, and stays at the root.
  Every part that is left is a proper name, and nothing outside the buffer is written.\<close>

theorem dfs_normalize_path_resolves:
  fixes d f :: "byte list" and m :: memory and wd a p :: nat and directory :: "nat option"
  defines "full \<equiv> (if f \<noteq> [] \<and> hd f = SLASH then f else d @ SLASH # f)"
  assumes "cstr m (case directory of None \<Rightarrow> wd | Some x \<Rightarrow> x) d" and "d \<noteq> []" and "hd d = SLASH" and "cstr m a f"
    and "rt_malloc (length full + 1) = Some p" and "p + length full + 1 < 2 ^ 32" and "p \<le> a \<or> a + length f < p"
  shows "\<exists>m'. dfs_normalize_path wd directory a rt_malloc m = Some (Some p, m') \<and> cstr m' p (path_text (resolve full))
    \<and> (\<forall>b. b < p \<or> p + length full < b \<longrightarrow> m' b = m b) \<and> (\<forall>w \<in> set (resolve full). proper w)"
proof -
  let ?d = "case directory of None \<Rightarrow> wd | Some x \<Rightarrow> x"
  have first: "m a = SLASH \<longleftrightarrow> f \<noteq> [] \<and> hd f = SLASH" using assms(5) by (cases f) auto
  have "full \<noteq> []" "hd full = SLASH" using assms(3,4) by (auto simp: full_def)
  then obtain r where r: "full = SLASH # r" by (cases full) auto
  have "\<exists>m1. (if m a \<noteq> SLASH then join_path ?d a rt_malloc m else rt_strdup m a rt_malloc) = Some (Some p, m1)
      \<and> cstr m1 p full \<and> (\<forall>c. c < p \<or> p + length full < c \<longrightarrow> m1 c = m c)"
  proof (cases "m a = SLASH")
    case True
    then show ?thesis using strdup_spec[OF assms(5), of rt_malloc p] assms(6,8) first by (simp add: full_def)
  next
    case False
    then have "full = d @ SLASH # f" using first by (auto simp: full_def)
    then show ?thesis using join_path_spec[OF assms(2,5), of rt_malloc p] assms(6,7) False by (simp add: add.assoc)
  qed
  then obtain m1 where m1: "(if m a \<noteq> SLASH then join_path ?d a rt_malloc m else rt_strdup m a rt_malloc) = Some (Some p, m1)"
    "cstr m1 p full" "\<forall>c. c < p \<or> p + length full < c \<longrightarrow> m1 c = m c" by blast
  obtain m2 where "normalize_at p m1 = Some (Some p, m2)" "cstr m2 p (path_text (resolve full))"
    "\<forall>b. b < p \<or> p + length full < b \<longrightarrow> m2 b = m1 b"
    using normalize_at_spec[of m1 p r] m1(2) unfolding r by blast
  moreover have "dfs_normalize_path wd directory a rt_malloc m = normalize_at p m1"
    unfolding dfs_normalize_path_def Let_def m1(1) by simp
  ultimately show ?thesis using m1(3) resolve_proper[of full] by auto
qed

theorem dfs_normalize_path_resolves_witness:
  "\<exists>m'. dfs_normalize_path 0 (Some 100) 200 (\<lambda>_. Some 300) (write_bytes 100 (map of_char ''/dev'') (write_bytes 200 (map of_char ''./a/../../b//c'') (\<lambda>_. 0)))
      = Some (Some 300, m') \<and> cstr m' 300 (map of_char ''/b/c'')"
proof -
  let ?m = "write_bytes 100 (map of_char ''/dev'') (write_bytes 200 (map of_char ''./a/../../b//c'') (\<lambda>_. 0))"
  have "cstr ?m (case Some 100 of None \<Rightarrow> 0 | Some x \<Rightarrow> x) (map of_char ''/dev'')" "cstr ?m 200 (map of_char ''./a/../../b//c'')"
    by (simp_all add: write_bytes_def)
  from dfs_normalize_path_resolves[OF this(1) _ _ this(2), of "\<lambda>_. Some 300" 300]
  have "\<exists>m'. dfs_normalize_path 0 (Some 100) 200 (\<lambda>_. Some 300) ?m = Some (Some 300, m')
    \<and> cstr m' 300 (path_text (resolve (map of_char ''/dev/./a/../../b//c'')))" by auto
  moreover have "path_text (resolve (map of_char ''/dev/./a/../../b//c'')) = map of_char ''/b/c''" by code_simp
  ultimately show ?thesis by auto
qed

end
