(* ===== verification/DfsCore.thy ===== *)
theory DfsCore
  imports DfsPath "HOL-Library.Multiset"
begin

text \<open>
  The core of the file system layer (\<open>rt-thread/components/dfs/dfs_v1\<close>): the table of mounted file systems and the lookup of the one a path
  belongs to (\<open>dfs_fs.c\<close>), the vnodes of open files in their hash table, and the operations on open files (\<open>dfs_file.c\<close>). Files and
  vnodes are records at addresses; an access to one that has been freed, or through a null pointer, has no result. The structures
  of functions that file systems provide are static; \<open>ops\<close> gives the structure at an address. A function of a file system gets the
  open file, its vnode and the private data of the file system. Paths are strings in buffers of their own, and are modelled as texts;
  \<open>full_path\<close> is what \<open>dfs_normalize_path\<close> puts into its buffer. The calls run under the locks of the layer, each as one step.
\<close>

section \<open>Error numbers and flags\<close>

definition ENOENT :: int where "ENOENT = 2"
definition EIO :: int where "EIO = 5"
definition ENXIO :: int where "ENXIO = 6"
definition EBADF :: int where "EBADF = 9"
definition ENOMEM :: int where "ENOMEM = 12"
definition EBUSY :: int where "EBUSY = 16"
definition EEXIST :: int where "EEXIST = 17"
definition EXDEV :: int where "EXDEV = 18"
definition ENODEV :: int where "ENODEV = 19"
definition ENOTDIR :: int where "ENOTDIR = 20"
definition EINVAL :: int where "EINVAL = 22"
definition ENOSPC :: int where "ENOSPC = 28"
definition ENOSYS :: int where "ENOSYS = 38"

lemmas errno_defs = ENOENT_def EIO_def ENXIO_def EBADF_def ENOMEM_def EBUSY_def EEXIST_def EXDEV_def ENODEV_def ENOTDIR_def
  EINVAL_def ENOSPC_def ENOSYS_def

definition O_WRONLY :: u32 where "O_WRONLY = 1"
definition O_RDWR :: u32 where "O_RDWR = 2"
definition O_CREAT :: u32 where "O_CREAT = 0x40"
definition O_TRUNC :: u32 where "O_TRUNC = 0x200"
definition O_APPEND :: u32 where "O_APPEND = 0x400"
definition O_NONBLOCK :: u32 where "O_NONBLOCK = 0x800"
definition O_DIRECTORY :: u32 where "O_DIRECTORY = 0x10000"

definition DFS_F_OPEN :: u32 where "DFS_F_OPEN = 0x01000000"
definition DFS_F_DIRECTORY :: u32 where "DFS_F_DIRECTORY = 0x02000000"
definition DFS_F_EOF :: u32 where "DFS_F_EOF = 0x04000000"
definition DFS_FS_FLAG_FULLPATH :: u32 where "DFS_FS_FLAG_FULLPATH = 1"

definition FT_REGULAR :: nat where "FT_REGULAR = 0"
definition FT_DIRECTORY :: nat where "FT_DIRECTORY = 2"
definition FT_DEVICE :: nat where "FT_DEVICE = 4"

definition F_GETFL :: int where "F_GETFL = 3"
definition F_SETFL :: int where "F_SETFL = 4"
definition RT_FIOFTRUNCATE :: int where "RT_FIOFTRUNCATE = 0x52540000"

definition DFS_FILESYSTEMS_MAX :: nat where "DFS_FILESYSTEMS_MAX = 4"
definition DFS_FILESYSTEM_TYPES_MAX :: nat where "DFS_FILESYSTEM_TYPES_MAX = 4"
definition DFS_FD_MAX :: nat where "DFS_FD_MAX = 16"
definition DFS_STDIO_OFFSET :: nat where "DFS_STDIO_OFFSET = 3"
definition DFS_VNODE_HASH_NR :: nat where "DFS_VNODE_HASH_NR = 128"

section \<open>Data\<close>

type_synonym fpath = "byte list"

text \<open>\<open>'d\<close> is the type of the private data of file systems. A mount function gets the flag, its parameter and the type name that
  \<open>dfs_mount\<close> leaves in \<open>data\<close>, and answers with a code and the private data it has put there.\<close>

record 'd vnode =
  v_type :: nat
  v_path :: "fpath option"
  v_fullpath :: fpath
  v_ref :: int
  v_fs :: nat
  v_fops :: nat
  v_size :: u32
  v_data :: "'d option"

record dfs_file =
  f_flags :: u32
  f_ref :: int
  f_pos :: u32
  f_vnode :: "nat option"

datatype dirent = Dirent (d_is_dir: bool) (d_name: fpath)

type_synonym 'd driver_call = "dfs_file \<Rightarrow> 'd vnode \<Rightarrow> 'd option \<Rightarrow> (int \<times> dfs_file \<times> 'd vnode) option"

record 'd dfs_file_ops =
  fo_open :: "'d driver_call option"
  fo_close :: "'d driver_call option"
  fo_ioctl :: "(int \<Rightarrow> u32 \<Rightarrow> 'd driver_call) option"
  fo_read :: "(u32 \<Rightarrow> dfs_file \<Rightarrow> 'd vnode \<Rightarrow> 'd option \<Rightarrow> (int \<times> byte list \<times> dfs_file \<times> 'd vnode) option) option"
  fo_write :: "(byte list \<Rightarrow> 'd driver_call) option"
  fo_flush :: "'d driver_call option"
  fo_lseek :: "(u32 \<Rightarrow> 'd driver_call) option"
  fo_getdents :: "(nat \<Rightarrow> dfs_file \<Rightarrow> 'd vnode \<Rightarrow> 'd option \<Rightarrow> (int \<times> dirent list \<times> dfs_file \<times> 'd vnode) option) option"

record stat =
  st_is_dir :: bool
  st_size :: u32

record 'd dfs_filesystem_ops =
  op_name :: fpath
  op_flags :: u32
  op_fops :: "'d dfs_file_ops"
  op_mount :: "(u32 \<Rightarrow> 'd option \<Rightarrow> fpath \<Rightarrow> int \<times> 'd option) option"
  op_unmount :: "('d option \<Rightarrow> int) option"
  op_mkfs :: "(nat \<Rightarrow> fpath \<Rightarrow> int) option"
  op_statfs :: "('d option \<Rightarrow> int) option"
  op_unlink :: "('d option \<Rightarrow> fpath \<Rightarrow> int) option"
  op_stat :: "('d option \<Rightarrow> fpath \<Rightarrow> (int \<times> stat option) option) option"
  op_rename :: "('d option \<Rightarrow> fpath option \<Rightarrow> fpath option \<Rightarrow> int) option"

record 'd dfs_filesystem =
  fs_dev :: "nat option"
  fs_path :: fpath
  fs_ops :: nat
  fs_data :: "'d option"

text \<open>An entry of a table is \<open>None\<close> when it is cleared. The slots of the table of descriptors point to files.\<close>

record 'd dfs =
  fdtab :: "nat option list"
  files :: "nat \<Rightarrow> dfs_file option"
  vnodes :: "nat \<Rightarrow> 'd vnode option"
  vnode_hash :: "nat \<Rightarrow> nat list"
  filesystem_table :: "'d dfs_filesystem option list"
  filesystem_operation_table :: "nat option list"
  working_directory :: fpath
  errno :: int

definition upd_file :: "nat \<Rightarrow> (dfs_file \<Rightarrow> dfs_file) \<Rightarrow> 'd dfs \<Rightarrow> 'd dfs" where
  "upd_file a g s = s\<lparr> files := (files s)(a := map_option g (files s a)) \<rparr>"

definition upd_vnode :: "nat \<Rightarrow> ('d vnode \<Rightarrow> 'd vnode) \<Rightarrow> 'd dfs \<Rightarrow> 'd dfs" where
  "upd_vnode v g s = s\<lparr> vnodes := (vnodes s)(v := map_option g (vnodes s v)) \<rparr>"

section \<open>Paths\<close>

definition full_path :: "fpath \<Rightarrow> fpath \<Rightarrow> fpath" where
  "full_path dir f = path_text (resolve (if f \<noteq> [] \<and> hd f = SLASH then f else dir @ SLASH # f))"

definition subdir :: "fpath \<Rightarrow> fpath \<Rightarrow> fpath option" where
  "subdir d f =
    (if length d = length f then None
     else Some (if (f @ [0]) ! length d \<noteq> SLASH \<and> d \<noteq> [] then drop (length d - 1) f else drop (length d) f))"

lemma dfs_subdir_text:
  assumes "cstr m a d" and "cstr m b f" and "length d \<le> length f"
  shows "case subdir d f of None \<Rightarrow> dfs_subdir m a b = Some None
    | Some t \<Rightarrow> \<exists>p. dfs_subdir m a b = Some (Some p) \<and> cstr m p t"
proof -
  have c: "m (b + length d) = (f @ [0]) ! length d" using assms(2,3) by (auto simp: cstr_def nth_append le_less)
  show ?thesis
    using rt_strlen_cstr[OF assms(1)] rt_strlen_cstr[OF assms(2)] c assms(3) cstr_drop[OF assms(2), of "length d"]
      cstr_drop[OF assms(2), of "length d - 1"]
    by (cases d) (auto simp: dfs_subdir_def subdir_def)
qed

section \<open>Mounted file systems\<close>

text \<open>The loop of \<open>dfs_filesystem_lookup\<close>, from entry \<open>i\<close> on.\<close>

fun lookup_loop :: "fpath \<Rightarrow> nat \<Rightarrow> 'd dfs_filesystem option list \<Rightarrow> nat option \<Rightarrow> nat \<Rightarrow> nat option" where
  "lookup_loop path i [] fs prefixlen = fs"
| "lookup_loop path i (None # es) fs prefixlen = lookup_loop path (i + 1) es fs prefixlen"
| "lookup_loop path i (Some e # es) fs prefixlen =
    (let fspath = length (fs_path e)
     in if fspath < prefixlen \<or> take fspath path \<noteq> fs_path e then lookup_loop path (i + 1) es fs prefixlen
        else if fspath > 1 \<and> length path > fspath \<and> path ! fspath \<noteq> SLASH then lookup_loop path (i + 1) es fs prefixlen
        else lookup_loop path (i + 1) es (Some i) fspath)"

definition dfs_filesystem_lookup :: "fpath \<Rightarrow> 'd dfs \<Rightarrow> nat option" where
  "dfs_filesystem_lookup path s = lookup_loop path 0 (filesystem_table s) None 0"

definition fs_at :: "'d dfs \<Rightarrow> nat \<Rightarrow> 'd dfs_filesystem option" where
  "fs_at s i = (if i < length (filesystem_table s) then filesystem_table s ! i else None)"

definition data_of :: "'d dfs \<Rightarrow> nat \<Rightarrow> 'd option" where
  "data_of s i = (case fs_at s i of None \<Rightarrow> None | Some fs \<Rightarrow> fs_data fs)"

text \<open>The mount point of an entry covers a path if its parts are a beginning of the parts of the path.\<close>

definition covers :: "fpath \<Rightarrow> fpath \<Rightarrow> bool" where
  "covers mp path \<longleftrightarrow> take (length mp) path = mp \<and> \<not> (length mp > 1 \<and> length path > length mp \<and> path ! length mp \<noteq> SLASH)"

lemma takeWhile_name:
  "SLASH \<notin> set w \<Longrightarrow> t = [] \<or> hd t = SLASH \<Longrightarrow> takeWhile (\<lambda>c. c \<noteq> SLASH) (w @ t) = w"
  by (cases t) (auto simp: takeWhile_append takeWhile_eq_all_conv)

lemma concat_parts_prefix:
  assumes "\<forall>w \<in> set ws. SLASH \<notin> set w" and "\<forall>w \<in> set us. SLASH \<notin> set w"
  shows "(\<exists>t. concat (map (\<lambda>w. SLASH # w) us) = concat (map (\<lambda>w. SLASH # w) ws) @ t \<and> (t = [] \<or> hd t = SLASH)) \<longleftrightarrow> prefix ws us"
  using assms
proof (induction ws arbitrary: us)
  case Nil
  have "concat (map (\<lambda>w. SLASH # w) us) = [] \<or> hd (concat (map (\<lambda>w. SLASH # w) us)) = SLASH" by (cases us) auto
  then show ?case by simp
next
  case (Cons w ws)
  let ?c = "\<lambda>ws :: byte list list. concat (map (\<lambda>w. SLASH # w) ws)"
  have hd: "?c xs @ t = [] \<or> hd (?c xs @ t) = SLASH" if "t = [] \<or> hd t = SLASH" for xs t using that by (cases xs) auto
  show ?case
  proof (cases us)
    case (Cons u us')
    have w: "SLASH \<notin> set w" "SLASH \<notin> set u" using Cons.prems Cons by auto
    have "(\<exists>t. ?c us = ?c (w # ws) @ t \<and> (t = [] \<or> hd t = SLASH)) \<longleftrightarrow>
        u = w \<and> (\<exists>t. ?c us' = ?c ws @ t \<and> (t = [] \<or> hd t = SLASH))" (is "?l \<longleftrightarrow> ?r")
    proof
      assume ?l
      then obtain t where t: "u @ ?c us' = w @ ?c ws @ t" "t = [] \<or> hd t = SLASH" by (auto simp: Cons)
      have "u = takeWhile (\<lambda>c. c \<noteq> SLASH) (u @ ?c us')" using takeWhile_name[OF w(2) hd[of "[]" us']] by simp
      also have "\<dots> = w" unfolding t(1) by (rule takeWhile_name[OF w(1) hd[OF t(2)]])
      finally show ?r using t by auto
    qed (auto simp: Cons)
    then show ?thesis using Cons.IH[of us'] Cons.prems Cons by auto
  qed simp
qed

lemma covers_parts:
  assumes "\<forall>w \<in> set ws. proper w" and "\<forall>w \<in> set us. proper w"
  shows "covers (path_text ws) (path_text us) \<longleftrightarrow> prefix ws us"
proof (cases "ws = []")
  case True
  obtain t where "path_text us = SLASH # t" using path_text_cons by blast
  then show ?thesis using True by (simp add: covers_def path_text_def)
next
  case ws: False
  let ?c = "\<lambda>ws :: byte list list. concat (map (\<lambda>w. SLASH # w) ws)"
  have l: "length (?c ws) > 1"
    using ws assms(1) by (cases ws) (auto simp: proper_def)
  have "covers (?c ws) p \<longleftrightarrow> (\<exists>t. p = ?c ws @ t \<and> (t = [] \<or> hd t = SLASH))" for p
  proof
    assume "covers (?c ws) p"
    then have "p = ?c ws @ drop (length (?c ws)) p" "\<not> (length p > length (?c ws) \<and> p ! length (?c ws) \<noteq> SLASH)"
      using l unfolding covers_def by (metis append_take_drop_id, blast)
    then show "\<exists>t. p = ?c ws @ t \<and> (t = [] \<or> hd t = SLASH)"
      by (metis append_Nil2 drop_eq_Nil hd_drop_conv_nth linorder_not_less)
  qed (auto simp: covers_def nth_append hd_conv_nth)
  moreover have "\<not> (\<exists>t. [SLASH] = ?c ws @ t)"
    using ws assms(1) by (cases ws) (auto simp: proper_def)
  ultimately show ?thesis
    using concat_parts_prefix[of ws us] assms ws by (cases "us = []") (auto simp: path_text_def proper_def)
qed

text \<open>Either the loop keeps what it has, as no further entry covers the path as well, or it finds the best of the further entries.\<close>

definition bounded_by :: "fpath \<Rightarrow> 'd dfs_filesystem option list \<Rightarrow> nat \<Rightarrow> bool" where
  "bounded_by path es n \<longleftrightarrow> (\<forall>e. Some e \<in> set es \<and> covers (fs_path e) path \<longrightarrow> length (fs_path e) \<le> n)"

definition found_entry :: "fpath \<Rightarrow> nat \<Rightarrow> 'd dfs_filesystem option list \<Rightarrow> nat \<Rightarrow> nat option \<Rightarrow> bool" where
  "found_entry path i es p r \<longleftrightarrow> (\<exists>k < length es. \<exists>e. es ! k = Some e \<and> r = Some (i + k) \<and> covers (fs_path e) path
    \<and> p \<le> length (fs_path e) \<and> bounded_by path es (length (fs_path e)))"

lemma found_entry_Cons:
  assumes "found_entry path (i + 1) es p r" and "\<And>e. x = Some e \<Longrightarrow> covers (fs_path e) path \<Longrightarrow> length (fs_path e) \<le> p"
  shows "found_entry path i (x # es) p r"
proof -
  obtain k e where k: "k < length es" "es ! k = Some e" "r = Some (i + 1 + k)" "covers (fs_path e) path" "p \<le> length (fs_path e)"
    "bounded_by path es (length (fs_path e))" using assms(1) unfolding found_entry_def by blast
  have "bounded_by path (x # es) (length (fs_path e))" using k(5,6) assms(2) by (auto simp: bounded_by_def intro: order_trans)
  then show ?thesis unfolding found_entry_def using k by (intro exI[of _ "Suc k"]) simp
qed

lemma lookup_loop_spec:
  "(lookup_loop path i es fs p = fs \<and> (\<forall>e. Some e \<in> set es \<and> covers (fs_path e) path \<longrightarrow> length (fs_path e) < p))
   \<or> found_entry path i es p (lookup_loop path i es fs p)"
proof (induction path i es fs p rule: lookup_loop.induct)
  case (2 path i es fs p)
  then show ?case using found_entry_Cons[of path i es p _ None] by auto
next
  case (3 path i e es fs p)
  show ?case
  proof (cases "covers (fs_path e) path \<and> p \<le> length (fs_path e)")
    case True
    then have c: "\<not> (length (fs_path e) < p \<or> take (length (fs_path e)) path \<noteq> fs_path e)"
      "\<not> (length (fs_path e) > 1 \<and> length path > length (fs_path e) \<and> path ! length (fs_path e) \<noteq> SLASH)"
      by (auto simp: covers_def)
    then have l: "lookup_loop path i (Some e # es) fs p = lookup_loop path (i + 1) es (Some i) (length (fs_path e))" by (auto simp: Let_def)
    from 3(3)[OF refl c] show ?thesis
    proof
      assume h: "lookup_loop path (i + 1) es (Some i) (length (fs_path e)) = Some i
        \<and> (\<forall>e'. Some e' \<in> set es \<and> covers (fs_path e') path \<longrightarrow> length (fs_path e') < length (fs_path e))"
      then have "bounded_by path (Some e # es) (length (fs_path e))" by (auto simp: bounded_by_def less_imp_le)
      then show ?thesis unfolding l found_entry_def using h True by (intro disjI2 exI[of _ 0]) simp
    next
      assume h: "found_entry path (i + 1) es (length (fs_path e)) (lookup_loop path (i + 1) es (Some i) (length (fs_path e)))"
      then have "found_entry path i (Some e # es) (length (fs_path e)) (lookup_loop path (i + 1) es (Some i) (length (fs_path e)))"
        by (rule found_entry_Cons) simp
      then show ?thesis unfolding l found_entry_def using True by (auto intro: order_trans)
    qed
  next
    case False
    then have l: "lookup_loop path i (Some e # es) fs p = lookup_loop path (i + 1) es fs p" by (auto simp: covers_def Let_def)
    have "length (fs_path e) < p \<or> take (length (fs_path e)) path \<noteq> fs_path e
      \<or> length (fs_path e) > 1 \<and> length path > length (fs_path e) \<and> path ! length (fs_path e) \<noteq> SLASH"
      using False by (auto simp: covers_def)
    then have "(lookup_loop path (i + 1) es fs p = fs \<and> (\<forall>e. Some e \<in> set es \<and> covers (fs_path e) path \<longrightarrow> length (fs_path e) < p))
        \<or> found_entry path (i + 1) es p (lookup_loop path (i + 1) es fs p)"
      using 3(1,2)[OF refl] by blast
    then show ?thesis unfolding l using False found_entry_Cons[of path i es p _ "Some e"] by auto
  qed
qed simp

lemma path_text_longer: "strict_prefix ws us \<Longrightarrow> \<forall>w \<in> set us. proper w \<Longrightarrow> length (path_text ws) < length (path_text us)"
proof -
  assume "strict_prefix ws us" and p: "\<forall>w \<in> set us. proper w"
  then obtain u vs where us: "us = ws @ u # vs" by (auto elim!: strict_prefixE')
  then have "u \<noteq> []" using p by (auto simp: proper_def)
  then show ?thesis by (auto simp: us path_text_def)
qed

text \<open>C36: A path belongs to the file system that is mounted nearest to it: with mount points and path given by their parts,
  \<open>dfs_filesystem_lookup\<close> finds an entry whose mount point is a beginning of the path, and no other such mount point has more
  parts; it finds none only if no mount point is a beginning of the path. A mount point is never taken for the beginning of a longer name.\<close>

theorem dfs_lookup_nearest:
  assumes "\<And>i e. fs_at s i = Some e \<Longrightarrow> fs_path e = path_text (mp i) \<and> (\<forall>w \<in> set (mp i). proper w)" and "\<forall>w \<in> set us. proper w"
  shows "case dfs_filesystem_lookup (path_text us) s of
      None \<Rightarrow> \<forall>i e. fs_at s i = Some e \<longrightarrow> \<not> prefix (mp i) us
    | Some i \<Rightarrow> fs_at s i \<noteq> None \<and> prefix (mp i) us
        \<and> (\<forall>j e. fs_at s j = Some e \<and> prefix (mp j) us \<longrightarrow> length (mp j) \<le> length (mp i))"
proof -
  let ?t = "filesystem_table s"
  have cov: "covers (fs_path e) (path_text us) \<longleftrightarrow> prefix (mp i) us" if "fs_at s i = Some e" for i e
    using assms(1)[OF that] covers_parts[OF _ assms(2)] by metis
  have at: "fs_at s i = Some e \<longleftrightarrow> i < length ?t \<and> ?t ! i = Some e" for i e by (simp add: fs_at_def)
  have mem: "Some e \<in> set ?t" if "fs_at s i = Some e" for i e using that nth_mem[of i ?t] by (simp add: at)
  from lookup_loop_spec[of "path_text us" 0 ?t None 0, folded dfs_filesystem_lookup_def] show ?thesis
  proof
    assume "dfs_filesystem_lookup (path_text us) s = None
      \<and> (\<forall>e. Some e \<in> set ?t \<and> covers (fs_path e) (path_text us) \<longrightarrow> length (fs_path e) < 0)"
    then show ?thesis using cov mem by (auto split: option.split)
  next
    assume "found_entry (path_text us) 0 ?t 0 (dfs_filesystem_lookup (path_text us) s)"
    then obtain k e where k: "dfs_filesystem_lookup (path_text us) s = Some k" "fs_at s k = Some e" "covers (fs_path e) (path_text us)"
      "bounded_by (path_text us) ?t (length (fs_path e))" by (auto simp: found_entry_def at)
    have "length (mp j) \<le> length (mp k)" if j: "fs_at s j = Some e'" "prefix (mp j) us" for j e'
    proof (rule ccontr)
      assume n: "\<not> length (mp j) \<le> length (mp k)"
      then have "strict_prefix (mp k) (mp j)"
        using j(2) cov[OF k(2)] k(3) by (metis order_refl prefix_same_cases strict_prefix_def prefix_length_le)
      then have "length (path_text (mp k)) < length (path_text (mp j))" using assms(1)[OF j(1)] by (intro path_text_longer) auto
      moreover have "length (fs_path e') \<le> length (fs_path e)" using k(4) j cov[OF j(1)] mem[OF j(1)] by (auto simp: bounded_by_def)
      ultimately show False using assms(1)[OF j(1)] assms(1)[OF k(2)] by simp
    qed
    then show ?thesis using k cov[OF k(2)] by auto
  qed
qed

definition no_file_ops :: "'d dfs_file_ops" where
  "no_file_ops = \<lparr> fo_open = None, fo_close = None, fo_ioctl = None, fo_read = None, fo_write = None, fo_flush = None,
     fo_lseek = None, fo_getdents = None \<rparr>"

definition demo_mounts :: "nat dfs" where
  "demo_mounts = \<lparr> fdtab = [], files = \<lambda>_. None, vnodes = \<lambda>_. None, vnode_hash = \<lambda>_. [],
     filesystem_table = [Some \<lparr> fs_dev = None, fs_path = map of_char ''/'', fs_ops = 1, fs_data = None \<rparr>,
       Some \<lparr> fs_dev = None, fs_path = map of_char ''/dev'', fs_ops = 2, fs_data = None \<rparr>, None, None],
     filesystem_operation_table = [Some 1, Some 2, None, None], working_directory = map of_char ''/'', errno = 0 \<rparr>"

theorem dfs_lookup_nearest_witness:
  "case dfs_filesystem_lookup (path_text [map of_char ''device'', map of_char ''uart1'']) demo_mounts of
      None \<Rightarrow> False | Some i \<Rightarrow> i = 0"
proof -
  define mp where "mp = (\<lambda>i :: nat. if i = 1 then [map of_char ''dev''] else [] :: byte list list)"
  have e: "(i = 0 \<and> fs_path e = map of_char ''/'') \<or> (i = 1 \<and> fs_path e = map of_char ''/dev'')" if "fs_at demo_mounts i = Some e" for i e
  proof -
    have "i < 4" using that by (simp add: fs_at_def demo_mounts_def split: if_splits)
    then consider "i = 0" | "i = 1" | "i = 2" | "i = 3" by linarith
    then show ?thesis using that by cases (auto simp: fs_at_def demo_mounts_def)
  qed
  then have "fs_path e = path_text (mp i) \<and> (\<forall>w \<in> set (mp i). proper w)" if "fs_at demo_mounts i = Some e" for i e
    using e[OF that] by (auto simp: mp_def path_text_def proper_def)
  from dfs_lookup_nearest[of demo_mounts mp "[map of_char ''device'', map of_char ''uart1'']", OF this]
  have "case dfs_filesystem_lookup (path_text [map of_char ''device'', map of_char ''uart1'']) demo_mounts of
      None \<Rightarrow> \<forall>i e. fs_at demo_mounts i = Some e \<longrightarrow> \<not> prefix (mp i) [map of_char ''device'', map of_char ''uart1'']
    | Some i \<Rightarrow> fs_at demo_mounts i \<noteq> None \<and> prefix (mp i) [map of_char ''device'', map of_char ''uart1'']"
    by (auto simp: proper_def split: option.splits)
  moreover have "fs_at demo_mounts 0 \<noteq> None" "prefix (mp 0) us" for us by (simp_all add: fs_at_def demo_mounts_def mp_def)
  moreover have "\<not> prefix (mp 1) [map of_char ''device'', map of_char ''uart1'']" by (simp add: mp_def)
  ultimately show ?thesis using e by (fastforce split: option.splits)
qed

end
