(* ===== verification/DfsFile.thy ===== *)
theory DfsFile
  imports DfsCore
begin

text \<open>
  Open files (\<open>rt-thread/components/dfs/dfs_v1/src/dfs_file.c\<close>). A file that is open by its path has one vnode in the hash
  table, however often it is open; the vnode counts the open files that refer to it.
\<close>

section \<open>Vnodes\<close>

definition bkdr_hash :: "fpath \<Rightarrow> nat" where
  "bkdr_hash str = unat (foldl (\<lambda>hash c. hash * 131 + ucast c) (0 :: u32) str mod 128)"

lemma bkdr_hash_less: "bkdr_hash str < DFS_VNODE_HASH_NR"
  by (simp add: bkdr_hash_def DFS_VNODE_HASH_NR_def unat_mod)

fun find_loop :: "'d dfs \<Rightarrow> fpath \<Rightarrow> nat list \<Rightarrow> nat option option" where
  "find_loop s path [] = Some None"
| "find_loop s path (v # vs) = (case vnodes s v of None \<Rightarrow> None
     | Some vn \<Rightarrow> if v_fullpath vn = path then Some (Some v) else find_loop s path vs)"

definition dfs_vnode_find :: "fpath \<Rightarrow> 'd dfs \<Rightarrow> nat option option" where
  "dfs_vnode_find path s = find_loop s path (vnode_hash s (bkdr_hash path))"

definition insert_vnode :: "nat \<Rightarrow> 'd vnode \<Rightarrow> 'd dfs \<Rightarrow> 'd dfs" where
  "insert_vnode v vn s = s\<lparr> vnodes := (vnodes s)(v \<mapsto> vn),
     vnode_hash := (vnode_hash s)(bkdr_hash (v_fullpath vn) := v # vnode_hash s (bkdr_hash (v_fullpath vn))) \<rparr>"

definition remove_vnode :: "nat \<Rightarrow> 'd vnode \<Rightarrow> 'd dfs \<Rightarrow> 'd dfs" where
  "remove_vnode v vn s = s\<lparr> vnodes := (vnodes s)(v := None),
     vnode_hash := (vnode_hash s)(bkdr_hash (v_fullpath vn) := remove1 v (vnode_hash s (bkdr_hash (v_fullpath vn)))) \<rparr>"

text \<open>A call of a function of a file system on an open file.\<close>

definition vnode_of :: "nat \<Rightarrow> 'd dfs \<Rightarrow> (dfs_file \<times> nat \<times> 'd vnode) option" where
  "vnode_of a s = do { f \<leftarrow> files s a; v \<leftarrow> f_vnode f; vn \<leftarrow> vnodes s v; Some (f, v, vn) }"

definition write_back :: "nat \<Rightarrow> dfs_file \<Rightarrow> nat \<Rightarrow> 'd vnode \<Rightarrow> 'd dfs \<Rightarrow> 'd dfs" where
  "write_back a f v vn s = s\<lparr> files := (files s)(a \<mapsto> f), vnodes := (vnodes s)(v \<mapsto> vn) \<rparr>"

definition driver :: "'d driver_call \<Rightarrow> nat \<Rightarrow> 'd dfs \<Rightarrow> (int \<times> 'd dfs) option" where
  "driver call a s = do {
     (f, v, vn) \<leftarrow> vnode_of a s;
     (r, f, vn) \<leftarrow> call f vn (data_of s (v_fs vn));
     Some (r, write_back a f v vn s)
   }"

definition fops_of :: "(nat \<Rightarrow> 'd dfs_filesystem_ops) \<Rightarrow> 'd vnode \<Rightarrow> 'd dfs_file_ops" where
  "fops_of ops vn = op_fops (ops (v_fops vn))"

section \<open>Opening and closing\<close>

definition dfs_file_is_open :: "bool \<Rightarrow> fpath \<Rightarrow> 'd dfs \<Rightarrow> int option" where
  "dfs_file_is_open mem pathname s =
    (if \<not> mem then None
     else do { v \<leftarrow> dfs_vnode_find (full_path (working_directory s) pathname) s; Some (if v \<noteq> None then 1 else 0) })"

text \<open>The end of \<open>dfs_file_open\<close>, with the file's vnode set.\<close>

definition open_vnode :: "(nat \<Rightarrow> 'd dfs_filesystem_ops) \<Rightarrow> nat \<Rightarrow> u32 \<Rightarrow> 'd dfs \<Rightarrow> (int \<times> 'd dfs) option" where
  "open_vnode ops a flags s = do {
     let s = upd_file a (\<lambda>f. f\<lparr> f_flags := flags \<rparr>) s;
     (_, v, vn) \<leftarrow> vnode_of a s;
     call \<leftarrow> fo_open (fops_of ops vn);
     (result, s) \<leftarrow> driver call a s;
     (if result < 0 then do {
        let s = upd_vnode v (\<lambda>x. x\<lparr> v_ref := v_ref x - 1 \<rparr>) s;
        vn \<leftarrow> vnodes s v;
        Some (result, if v_ref vn = 0 then upd_file a (\<lambda>f. f\<lparr> f_vnode := None \<rparr>) (remove_vnode v vn s) else s)
      } else do {
        let s = upd_file a (\<lambda>f. f\<lparr> f_flags := f_flags f OR DFS_F_OPEN \<rparr>) s;
        Some (0, if flags AND O_DIRECTORY \<noteq> 0
          then upd_file a (\<lambda>f. f\<lparr> f_flags := f_flags f OR DFS_F_DIRECTORY \<rparr>) (upd_vnode v (\<lambda>x. x\<lparr> v_type := FT_DIRECTORY \<rparr>) s)
          else s)
      })
   }"

text \<open>The answers of the allocator: a buffer for the full path, the address of a vnode, and a buffer for the path below the mount point.\<close>

record open_memory =
  mem_path :: bool
  mem_vnode :: "nat option"
  mem_subdir :: bool

definition new_vnode :: "(nat \<Rightarrow> 'd dfs_filesystem_ops) \<Rightarrow> open_memory \<Rightarrow> nat \<Rightarrow> 'd dfs_filesystem \<Rightarrow> fpath \<Rightarrow> 'd vnode" where
  "new_vnode ops mem i fs fullpath =
    \<lparr> v_type = FT_REGULAR,
      v_path = (if op_flags (ops (fs_ops fs)) AND DFS_FS_FLAG_FULLPATH = 0
        then if mem_subdir mem then Some (case subdir (fs_path fs) fullpath of None \<Rightarrow> [SLASH] | Some p \<Rightarrow> p) else None
        else Some fullpath),
      v_fullpath = fullpath, v_ref = 1, v_fs = i, v_fops = fs_ops fs, v_size = 0, v_data = None \<rparr>"

definition dfs_file_open ::
  "(nat \<Rightarrow> 'd dfs_filesystem_ops) \<Rightarrow> open_memory \<Rightarrow> nat option \<Rightarrow> fpath \<Rightarrow> u32 \<Rightarrow> 'd dfs \<Rightarrow> (int \<times> 'd dfs) option" where
  "dfs_file_open ops mem fd path flags s =
    (case fd of None \<Rightarrow> Some (- EINVAL, s)
     | Some a \<Rightarrow>
       if \<not> mem_path mem then Some (- ENOMEM, s)
       else do {
         let fullpath = full_path (working_directory s) path;
         vnode \<leftarrow> dfs_vnode_find fullpath s;
         (case vnode of
            Some v \<Rightarrow>
              open_vnode ops a flags
                (upd_file a (\<lambda>f. f\<lparr> f_pos := 0, f_vnode := Some v \<rparr>) (upd_vnode v (\<lambda>x. x\<lparr> v_ref := v_ref x + 1 \<rparr>) s))
          | None \<Rightarrow>
              (case dfs_filesystem_lookup fullpath s of None \<Rightarrow> Some (- ENOENT, s)
               | Some i \<Rightarrow>
                 (case mem_vnode mem of None \<Rightarrow> Some (- ENOMEM, s)
                  | Some v \<Rightarrow> do {
                      fs \<leftarrow> fs_at s i;
                      let vn = new_vnode ops mem i fs fullpath;
                      (if fo_open (fops_of ops vn) = None then Some (- ENOSYS, s)
                       else open_vnode ops a flags
                         (insert_vnode v vn (upd_file a (\<lambda>f. f\<lparr> f_pos := 0, f_vnode := Some v \<rparr>) s)))
                    })))
       })"

definition dfs_file_close :: "(nat \<Rightarrow> 'd dfs_filesystem_ops) \<Rightarrow> nat option \<Rightarrow> 'd dfs \<Rightarrow> (int \<times> 'd dfs) option" where
  "dfs_file_close ops fd s =
    (case fd of None \<Rightarrow> Some (- ENXIO, s)
     | Some a \<Rightarrow> do {
         f \<leftarrow> files s a;
         (if f_ref f = 1 then do {
            (_, v, vn) \<leftarrow> vnode_of a s;
            (if v_ref vn \<le> 0 then Some (- ENXIO, s)
             else do {
               (result, s) \<leftarrow> (case fo_close (fops_of ops vn) of None \<Rightarrow> Some (0, s) | Some call \<Rightarrow> driver call a s);
               vn \<leftarrow> vnodes s v;
               Some (result, if v_ref vn = 1 then remove_vnode v vn (upd_file a (\<lambda>f. f\<lparr> f_vnode := None \<rparr>) s) else s)
             })
          } else Some (0, s))
       })"

section \<open>Reading and writing\<close>

definition dfs_file_ioctl :: "(nat \<Rightarrow> 'd dfs_filesystem_ops) \<Rightarrow> nat option \<Rightarrow> int \<Rightarrow> u32 \<Rightarrow> 'd dfs \<Rightarrow> (int \<times> 'd dfs) option" where
  "dfs_file_ioctl ops fd cmd args s =
    (case fd of None \<Rightarrow> Some (- EINVAL, s)
     | Some a \<Rightarrow> do {
         (f, v, vn) \<leftarrow> vnode_of a s;
         (if (v_type vn = FT_REGULAR \<or> v_type vn = FT_DEVICE) \<and> cmd = F_GETFL then Some (sint (f_flags f), s)
          else if (v_type vn = FT_REGULAR \<or> v_type vn = FT_DEVICE) \<and> cmd = F_SETFL then
            let mask = O_NONBLOCK OR O_APPEND
            in Some (0, upd_file a (\<lambda>f. f\<lparr> f_flags := (f_flags f AND NOT mask) OR (args AND mask) \<rparr>) s)
          else (case fo_ioctl (fops_of ops vn) of None \<Rightarrow> Some (- ENOSYS, s) | Some call \<Rightarrow> driver (call cmd args) a s))
       })"

definition dfs_file_read :: "(nat \<Rightarrow> 'd dfs_filesystem_ops) \<Rightarrow> nat option \<Rightarrow> u32 \<Rightarrow> 'd dfs \<Rightarrow> (int \<times> byte list \<times> 'd dfs) option" where
  "dfs_file_read ops fd len s =
    (case fd of None \<Rightarrow> Some (- EINVAL, [], s)
     | Some a \<Rightarrow> do {
         (f, v, vn) \<leftarrow> vnode_of a s;
         (case fo_read (fops_of ops vn) of None \<Rightarrow> Some (- ENOSYS, [], s)
          | Some call \<Rightarrow> do {
              (result, buf, f, vn) \<leftarrow> call len f vn (data_of s (v_fs vn));
              let s = write_back a f v vn s;
              Some (result, buf, if result < 0 then upd_file a (\<lambda>f. f\<lparr> f_flags := f_flags f OR DFS_F_EOF \<rparr>) s else s)
            })
       })"

definition dfs_file_getdents :: "(nat \<Rightarrow> 'd dfs_filesystem_ops) \<Rightarrow> nat option \<Rightarrow> nat \<Rightarrow> 'd dfs \<Rightarrow> (int \<times> dirent list \<times> 'd dfs) option" where
  "dfs_file_getdents ops fd nbytes s =
    (case fd of None \<Rightarrow> Some (- EINVAL, [], s)
     | Some a \<Rightarrow> do {
         (f, v, vn) \<leftarrow> vnode_of a s;
         (if v_type vn \<noteq> FT_DIRECTORY then Some (- EINVAL, [], s)
          else case fo_getdents (fops_of ops vn) of None \<Rightarrow> Some (- ENOSYS, [], s)
          | Some call \<Rightarrow> do {
              (result, ds, f, vn) \<leftarrow> call nbytes f vn (data_of s (v_fs vn));
              Some (result, ds, write_back a f v vn s)
            })
       })"

definition dfs_file_write :: "(nat \<Rightarrow> 'd dfs_filesystem_ops) \<Rightarrow> nat option \<Rightarrow> byte list \<Rightarrow> 'd dfs \<Rightarrow> (int \<times> 'd dfs) option" where
  "dfs_file_write ops fd buf s =
    (case fd of None \<Rightarrow> Some (- EINVAL, s)
     | Some a \<Rightarrow> do {
         (_, _, vn) \<leftarrow> vnode_of a s;
         (case fo_write (fops_of ops vn) of None \<Rightarrow> Some (- ENOSYS, s) | Some call \<Rightarrow> driver (call buf) a s)
       })"

definition dfs_file_flush :: "(nat \<Rightarrow> 'd dfs_filesystem_ops) \<Rightarrow> nat option \<Rightarrow> 'd dfs \<Rightarrow> (int \<times> 'd dfs) option" where
  "dfs_file_flush ops fd s =
    (case fd of None \<Rightarrow> Some (- EINVAL, s)
     | Some a \<Rightarrow> do {
         (_, _, vn) \<leftarrow> vnode_of a s;
         (case fo_flush (fops_of ops vn) of None \<Rightarrow> Some (- ENOSYS, s) | Some call \<Rightarrow> driver call a s)
       })"

definition dfs_file_lseek :: "(nat \<Rightarrow> 'd dfs_filesystem_ops) \<Rightarrow> nat option \<Rightarrow> u32 \<Rightarrow> 'd dfs \<Rightarrow> (int \<times> 'd dfs) option" where
  "dfs_file_lseek ops fd offset s =
    (case fd of None \<Rightarrow> Some (- EINVAL, s)
     | Some a \<Rightarrow> do {
         (_, _, vn) \<leftarrow> vnode_of a s;
         (case fo_lseek (fops_of ops vn) of None \<Rightarrow> Some (- ENOSYS, s)
          | Some call \<Rightarrow> do {
              (result, s) \<leftarrow> driver (call offset) a s;
              Some (result, if result \<ge> 0 then upd_file a (\<lambda>f. f\<lparr> f_pos := word_of_int result \<rparr>) s else s)
            })
       })"

definition dfs_file_ftruncate :: "(nat \<Rightarrow> 'd dfs_filesystem_ops) \<Rightarrow> nat option \<Rightarrow> u32 \<Rightarrow> 'd dfs \<Rightarrow> (int \<times> 'd dfs) option" where
  "dfs_file_ftruncate ops fd len s =
    (case fd of None \<Rightarrow> Some (- EINVAL, s)
     | Some a \<Rightarrow> do {
         (_, v, vn) \<leftarrow> vnode_of a s;
         (if v_type vn \<noteq> FT_REGULAR \<or> sint len < 0 then Some (- EINVAL, s)
          else case fo_ioctl (fops_of ops vn) of None \<Rightarrow> Some (- ENOSYS, s)
          | Some call \<Rightarrow> do {
              (result, s) \<leftarrow> driver (call RT_FIOFTRUNCATE len) a s;
              Some (result, if result = 0 then upd_vnode v (\<lambda>x. x\<lparr> v_size := len \<rparr>) s else s)
            })
       })"

section \<open>Operations on paths\<close>

definition sub_path :: "(nat \<Rightarrow> 'd dfs_filesystem_ops) \<Rightarrow> 'd dfs_filesystem \<Rightarrow> fpath \<Rightarrow> fpath" where
  "sub_path ops fs fullpath =
    (if op_flags (ops (fs_ops fs)) AND DFS_FS_FLAG_FULLPATH = 0
     then (case subdir (fs_path fs) fullpath of None \<Rightarrow> [SLASH] | Some p \<Rightarrow> p) else fullpath)"

definition dfs_file_unlink :: "(nat \<Rightarrow> 'd dfs_filesystem_ops) \<Rightarrow> bool \<Rightarrow> fpath \<Rightarrow> 'd dfs \<Rightarrow> int option" where
  "dfs_file_unlink ops mem path s =
    (if \<not> mem then Some (- EINVAL)
     else do {
       let fullpath = full_path (working_directory s) path;
       is_open \<leftarrow> dfs_file_is_open True fullpath s;
       (if is_open \<noteq> 0 then Some (- EBUSY)
        else case dfs_filesystem_lookup fullpath s of None \<Rightarrow> Some (- ENOENT)
        | Some i \<Rightarrow> do {
            fs \<leftarrow> fs_at s i;
            Some (case op_unlink (ops (fs_ops fs)) of None \<Rightarrow> - ENOSYS | Some f \<Rightarrow> f (fs_data fs) (sub_path ops fs fullpath))
          })
     })"

definition dfs_file_stat :: "(nat \<Rightarrow> 'd dfs_filesystem_ops) \<Rightarrow> bool \<Rightarrow> fpath \<Rightarrow> 'd dfs \<Rightarrow> (int \<times> stat option) option" where
  "dfs_file_stat ops mem path s =
    (if \<not> mem then Some (- 1, None)
     else let fullpath = full_path (working_directory s) path
       in case dfs_filesystem_lookup fullpath s of None \<Rightarrow> Some (- ENOENT, None)
       | Some i \<Rightarrow> do {
           fs \<leftarrow> fs_at s i;
           (case op_stat (ops (fs_ops fs)) of None \<Rightarrow> Some (- ENOSYS, None) | Some f \<Rightarrow> f (fs_data fs) (sub_path ops fs fullpath))
         })"

definition dfs_file_rename :: "(nat \<Rightarrow> 'd dfs_filesystem_ops) \<Rightarrow> bool \<Rightarrow> bool \<Rightarrow> fpath \<Rightarrow> fpath \<Rightarrow> 'd dfs \<Rightarrow> int option" where
  "dfs_file_rename ops mem_old mem_new oldpath newpath s =
    (if \<not> mem_old then Some (- ENOENT)
     else do {
       let oldfull = full_path (working_directory s) oldpath;
       is_open \<leftarrow> dfs_file_is_open True oldfull s;
       (if is_open \<noteq> 0 then Some (- EBUSY)
        else if \<not> mem_new then Some (- ENOENT)
        else do {
          let newfull = full_path (working_directory s) newpath;
          (if dfs_filesystem_lookup oldfull s = dfs_filesystem_lookup newfull s then do {
             i \<leftarrow> dfs_filesystem_lookup oldfull s;
             fs \<leftarrow> fs_at s i;
             Some (case op_rename (ops (fs_ops fs)) of None \<Rightarrow> - ENOSYS
               | Some f \<Rightarrow> if op_flags (ops (fs_ops fs)) AND DFS_FS_FLAG_FULLPATH \<noteq> 0 then f (fs_data fs) (Some oldfull) (Some newfull)
                   else f (fs_data fs) (subdir (fs_path fs) oldfull) (subdir (fs_path fs) newfull))
           } else Some (- EXDEV))
        })
     })"

end
