(* ===== verification/DfsFd.thy ===== *)
theory DfsFd
  imports DfsFile
begin

text \<open>
  File descriptors (\<open>rt-thread/components/dfs/dfs_v1/src/dfs.c\<close>) and the calls of the POSIX layer on them (\<open>dfs_posix.c\<close>). The table
  of descriptors grows in steps of four up to 16 slots; several slots can hold the same open file, which counts them. The invariant
  \<open>dfs_inv\<close> says that both counts, of slots at a file and of files at a vnode, are right, and that the hash table holds the vnodes in use.
\<close>

section \<open>The table of descriptors\<close>

text \<open>\<open>mem\<close> tells whether \<open>rt_realloc\<close> gives a larger table.\<close>

definition fd_slot_expand :: "bool \<Rightarrow> nat \<Rightarrow> nat option list \<Rightarrow> nat option \<times> nat option list" where
  "fd_slot_expand mem fd fdt =
    (if fd < length fdt then (Some fd, fdt)
     else if fd \<ge> DFS_FD_MAX then (None, fdt)
     else let nr = (fd + 4) div 4 * 4;
              nr = (if nr > DFS_FD_MAX then DFS_FD_MAX else nr)
       in if \<not> mem then (None, fdt) else (Some fd, fdt @ replicate (nr - length fdt) None))"

definition fd_slot_alloc :: "bool \<Rightarrow> nat \<Rightarrow> nat option list \<Rightarrow> nat option \<times> nat option list" where
  "fd_slot_alloc mem startfd fdt =
    (case find (\<lambda>idx. fdt ! idx = None) [startfd..<length fdt] of
       Some idx \<Rightarrow> (Some idx, fdt)
     | None \<Rightarrow> fd_slot_expand mem (if length fdt < startfd then startfd else length fdt) fdt)"

text \<open>A new file at address \<open>a\<close>, if the allocator has one.\<close>

definition fresh_file :: dfs_file where
  "fresh_file = \<lparr> f_flags = 0, f_ref = 1, f_pos = 0, f_vnode = None \<rparr>"

definition fd_alloc :: "bool \<Rightarrow> nat option \<Rightarrow> nat \<Rightarrow> 'd dfs \<Rightarrow> nat option \<times> 'd dfs" where
  "fd_alloc mem file startfd s =
    (case fd_slot_alloc mem startfd (fdtab s) of
       (None, fdt) \<Rightarrow> (None, s\<lparr> fdtab := fdt \<rparr>)
     | (Some idx, fdt) \<Rightarrow>
         (case file of None \<Rightarrow> (None, s\<lparr> fdtab := fdt \<rparr>)
          | Some a \<Rightarrow> (Some idx, s\<lparr> fdtab := fdt[idx := Some a], files := (files s)(a \<mapsto> fresh_file) \<rparr>)))"

definition fdt_fd_new :: "bool \<Rightarrow> nat option \<Rightarrow> 'd dfs \<Rightarrow> nat option \<times> 'd dfs" where
  "fdt_fd_new mem file s = fd_alloc mem file DFS_STDIO_OFFSET s"

text \<open>The slot of a descriptor, \<open>None\<close> for one that is out of range or empty.\<close>

definition fd_slot :: "int \<Rightarrow> 'd dfs \<Rightarrow> nat option" where
  "fd_slot fd s = (if fd < 0 \<or> fd \<ge> int (length (fdtab s)) then None else fdtab s ! nat fd)"

definition fdt_fd_get :: "int \<Rightarrow> 'd dfs \<Rightarrow> nat option option" where
  "fdt_fd_get fd s = (case fd_slot fd s of None \<Rightarrow> Some None | Some a \<Rightarrow> (if files s a = None then None else Some (Some a)))"

definition fdt_fd_release :: "int \<Rightarrow> 'd dfs \<Rightarrow> 'd dfs option" where
  "fdt_fd_release fd s =
    (case fd_slot fd s of None \<Rightarrow> Some s
     | Some a \<Rightarrow> do {
         let s = upd_file a (\<lambda>f. f\<lparr> f_ref := f_ref f - 1 \<rparr>) (s\<lparr> fdtab := (fdtab s)[nat fd := None] \<rparr>);
         f \<leftarrow> files s a;
         (if f_ref f = 0 then do {
            s \<leftarrow> (case f_vnode f of None \<Rightarrow> Some s
                 | Some v \<Rightarrow> do {
                     vn \<leftarrow> vnodes s v;
                     Some (if v_ref vn - 1 = 0 then s\<lparr> vnodes := (vnodes s)(v := None) \<rparr>
                           else upd_vnode v (\<lambda>x. x\<lparr> v_ref := v_ref x - 1 \<rparr>) s)
                   });
            Some (s\<lparr> files := (files s)(a := None) \<rparr>)
          } else Some s)
       })"

definition sys_dup :: "bool \<Rightarrow> int \<Rightarrow> 'd dfs \<Rightarrow> int \<times> 'd dfs" where
  "sys_dup mem oldfd s =
    (case fd_slot oldfd s of None \<Rightarrow> (- 1, s)
     | Some a \<Rightarrow>
         (case fd_slot_alloc mem DFS_STDIO_OFFSET (fdtab s) of
            (None, fdt) \<Rightarrow> (- 1, s\<lparr> fdtab := fdt \<rparr>)
          | (Some newfd, fdt) \<Rightarrow>
              (int newfd, upd_file a (\<lambda>f. f\<lparr> f_ref := f_ref f + 1 \<rparr>) (s\<lparr> fdtab := fdt[newfd := Some a] \<rparr>))))"

definition sys_dup2 :: "(nat \<Rightarrow> 'd dfs_filesystem_ops) \<Rightarrow> bool \<Rightarrow> int \<Rightarrow> int \<Rightarrow> 'd dfs \<Rightarrow> (int \<times> 'd dfs) option" where
  "sys_dup2 ops mem oldfd newfd s =
    (case fd_slot oldfd s of None \<Rightarrow> Some (- 1, s)
     | Some a \<Rightarrow>
       if newfd < 0 then Some (- 1, s)
       else case fd_slot_expand mem (nat newfd) (fdtab s) of
         (None, fdt) \<Rightarrow> Some (- 1, s\<lparr> fdtab := fdt \<rparr>)
       | (Some _, fdt) \<Rightarrow> do {
           let s = s\<lparr> fdtab := fdt \<rparr>;
           let put = (\<lambda>s. (newfd, upd_file a (\<lambda>f. f\<lparr> f_ref := f_ref f + 1 \<rparr>) (s\<lparr> fdtab := (fdtab s)[nat newfd := Some a] \<rparr>)));
           (if fdt ! nat newfd = Some a then Some (newfd, s)
            else case fdt ! nat newfd of None \<Rightarrow> Some (put s)
            | Some b \<Rightarrow> do {
                (ret, s) \<leftarrow> dfs_file_close ops (Some b) s;
                (if ret < 0 then Some (- 1, s) else do { s \<leftarrow> fdt_fd_release newfd s; Some (put s) })
              })
         })"

definition fd_get_fd_index :: "nat option \<Rightarrow> 'd dfs \<Rightarrow> int" where
  "fd_get_fd_index file s =
    (case file of None \<Rightarrow> - 1
     | Some a \<Rightarrow> (case find (\<lambda>i. fdtab s ! i = Some a) [0..<length (fdtab s)] of None \<Rightarrow> - 1 | Some i \<Rightarrow> int i))"

definition fd_associate :: "int \<Rightarrow> nat option \<Rightarrow> 'd dfs \<Rightarrow> int \<times> 'd dfs" where
  "fd_associate fd file s =
    (case file of None \<Rightarrow> (- 1, s)
     | Some a \<Rightarrow>
       if fd < 0 \<or> fd \<ge> int (length (fdtab s)) then (- 1, s)
       else if fdtab s ! nat fd \<noteq> None then (- 1, s)
       else (fd, (upd_file a (\<lambda>f. f\<lparr> f_ref := f_ref f + 1 \<rparr>) s)\<lparr> fdtab := (fdtab s)[nat fd := Some a] \<rparr>))"

text \<open>The search of \<open>fd_is_open\<close>: a slot without a vnode is an access through a null pointer.\<close>

fun open_loop :: "'d dfs \<Rightarrow> nat \<Rightarrow> fpath \<Rightarrow> nat option list \<Rightarrow> bool option" where
  "open_loop s fs mountpath [] = Some False"
| "open_loop s fs mountpath (None # fds) = open_loop s fs mountpath fds"
| "open_loop s fs mountpath (Some a # fds) = do {
     (_, _, vn) \<leftarrow> vnode_of a s;
     (if v_fs vn = fs \<and> v_path vn = Some mountpath then Some True else open_loop s fs mountpath fds)
   }"

definition fd_is_open :: "bool \<Rightarrow> fpath \<Rightarrow> 'd dfs \<Rightarrow> int option" where
  "fd_is_open mem pathname s =
    (if \<not> mem then Some (- 1)
     else let fullpath = full_path (working_directory s) pathname
       in case dfs_filesystem_lookup fullpath s of None \<Rightarrow> Some (- 1)
       | Some i \<Rightarrow> do {
           fs \<leftarrow> fs_at s i;
           let mountpath = (if fs_path fs = [SLASH] then fullpath else drop (length (fs_path fs)) fullpath);
           found \<leftarrow> open_loop s i mountpath (fdtab s);
           Some (if found then 0 else - 1)
         })"

section \<open>POSIX calls\<close>

text \<open>A failing call answers \<open>-1\<close> and leaves the reason in \<open>errno\<close>.\<close>

definition fail :: "int \<Rightarrow> 'd dfs \<Rightarrow> int \<times> 'd dfs" where
  "fail e s = (- 1, s\<lparr> errno := e \<rparr>)"

definition outcome :: "int \<times> 'd dfs \<Rightarrow> int \<times> 'd dfs" where
  "outcome r = (case r of (result, s) \<Rightarrow> if result < 0 then fail result s else (result, s))"

text \<open>The answers of the allocator during an open.\<close>

record fd_memory = open_memory +
  mem_table :: bool
  mem_file :: "nat option"

definition posix_open ::
  "(nat \<Rightarrow> 'd dfs_filesystem_ops) \<Rightarrow> fd_memory \<Rightarrow> fpath \<Rightarrow> u32 \<Rightarrow> 'd dfs \<Rightarrow> (int \<times> 'd dfs) option" where
  "posix_open ops mem file flags s =
    (case fdt_fd_new (mem_table mem) (mem_file mem) s of
       (None, s) \<Rightarrow> Some (fail (- ENOMEM) s)
     | (Some fd, s) \<Rightarrow> do {
         d \<leftarrow> fdt_fd_get (int fd) s;
         (result, s) \<leftarrow> dfs_file_open ops (open_memory.truncate mem) d file flags s;
         (if result < 0 then do { s \<leftarrow> fdt_fd_release (int fd) s; Some (fail result s) } else Some (int fd, s))
       })"

definition posix_creat :: "(nat \<Rightarrow> 'd dfs_filesystem_ops) \<Rightarrow> fd_memory \<Rightarrow> fpath \<Rightarrow> 'd dfs \<Rightarrow> (int \<times> 'd dfs) option" where
  "posix_creat ops mem path s = posix_open ops mem path (O_WRONLY OR O_CREAT OR O_TRUNC) s"

definition AT_FDCWD :: int where "AT_FDCWD = - 100"

definition posix_openat ::
  "(nat \<Rightarrow> 'd dfs_filesystem_ops) \<Rightarrow> fd_memory \<Rightarrow> bool \<Rightarrow> int \<Rightarrow> fpath option \<Rightarrow> u32 \<Rightarrow> 'd dfs \<Rightarrow> (int \<times> 'd dfs) option" where
  "posix_openat ops mem mem_dir dirfd path flag s =
    (case path of None \<Rightarrow> Some (fail (- EBADF) s)
     | Some path \<Rightarrow>
       if (path = [] \<or> hd path \<noteq> SLASH) \<and> dirfd \<noteq> AT_FDCWD then do {
         d \<leftarrow> fdt_fd_get dirfd s;
         (case Option.bind d (\<lambda>a. Option.bind (files s a) f_vnode) of None \<Rightarrow> Some (fail (- EBADF) s)
          | Some v \<Rightarrow> do {
              vn \<leftarrow> vnodes s v;
              (if \<not> mem_dir then Some (fail (- ENOMEM) s)
               else posix_open ops mem (full_path (v_fullpath vn) path) flag s)
            })
       } else posix_open ops mem path flag s)"

definition posix_close :: "(nat \<Rightarrow> 'd dfs_filesystem_ops) \<Rightarrow> int \<Rightarrow> 'd dfs \<Rightarrow> (int \<times> 'd dfs) option" where
  "posix_close ops fd s = do {
     d \<leftarrow> fdt_fd_get fd s;
     (if d = None then Some (fail (- EBADF) s)
      else do {
        (result, s) \<leftarrow> dfs_file_close ops d s;
        s \<leftarrow> fdt_fd_release fd s;
        Some (if result < 0 then fail result s else (0, s))
      })
   }"

definition posix_read :: "(nat \<Rightarrow> 'd dfs_filesystem_ops) \<Rightarrow> int \<Rightarrow> u32 \<Rightarrow> 'd dfs \<Rightarrow> (int \<times> byte list \<times> 'd dfs) option" where
  "posix_read ops fd len s = do {
     d \<leftarrow> fdt_fd_get fd s;
     (if d = None then Some (- 1, [], s\<lparr> errno := - EBADF \<rparr>)
      else do {
        (result, buf, s) \<leftarrow> dfs_file_read ops d len s;
        Some (if result < 0 then (- 1, buf, s\<lparr> errno := result \<rparr>) else (result, buf, s))
      })
   }"

definition posix_write :: "(nat \<Rightarrow> 'd dfs_filesystem_ops) \<Rightarrow> int \<Rightarrow> byte list \<Rightarrow> 'd dfs \<Rightarrow> (int \<times> 'd dfs) option" where
  "posix_write ops fd buf s = do {
     d \<leftarrow> fdt_fd_get fd s;
     (if d = None then Some (fail (- EBADF) s) else map_option outcome (dfs_file_write ops d buf s))
   }"

datatype whence = SEEK_SET | SEEK_CUR | SEEK_END | SEEK_OTHER

definition posix_lseek :: "(nat \<Rightarrow> 'd dfs_filesystem_ops) \<Rightarrow> int \<Rightarrow> u32 \<Rightarrow> whence \<Rightarrow> 'd dfs \<Rightarrow> (int \<times> 'd dfs) option" where
  "posix_lseek ops fd offset whence s = do {
     d \<leftarrow> fdt_fd_get fd s;
     (case d of None \<Rightarrow> Some (fail (- EBADF) s)
      | Some a \<Rightarrow> do {
          f \<leftarrow> files s a;
          (if whence = SEEK_OTHER then Some (fail (- EINVAL) s)
           else do {
             offset \<leftarrow> (case whence of
                 SEEK_CUR \<Rightarrow> Some (offset + f_pos f)
               | SEEK_END \<Rightarrow> do { (_, _, vn) \<leftarrow> vnode_of a s; Some (offset + v_size vn) }
               | _ \<Rightarrow> Some offset);
             (if sint offset < 0 then Some (fail (- EINVAL) s)
              else do {
                (result, s) \<leftarrow> dfs_file_lseek ops d offset s;
                Some (if result < 0 then fail result s else (sint offset, s))
              })
           })
        })
   }"

definition posix_rename :: "(nat \<Rightarrow> 'd dfs_filesystem_ops) \<Rightarrow> bool \<Rightarrow> bool \<Rightarrow> fpath \<Rightarrow> fpath \<Rightarrow> 'd dfs \<Rightarrow> (int \<times> 'd dfs) option" where
  "posix_rename ops mem_old mem_new old_file new_file s =
    map_option (\<lambda>result. if result < 0 then fail result s else (0, s)) (dfs_file_rename ops mem_old mem_new old_file new_file s)"

definition posix_unlink :: "(nat \<Rightarrow> 'd dfs_filesystem_ops) \<Rightarrow> bool \<Rightarrow> fpath \<Rightarrow> 'd dfs \<Rightarrow> (int \<times> 'd dfs) option" where
  "posix_unlink ops mem pathname s =
    map_option (\<lambda>result. if result < 0 then fail result s else (0, s)) (dfs_file_unlink ops mem pathname s)"

definition posix_stat :: "(nat \<Rightarrow> 'd dfs_filesystem_ops) \<Rightarrow> bool \<Rightarrow> fpath \<Rightarrow> 'd dfs \<Rightarrow> ((int \<times> stat option) \<times> 'd dfs) option" where
  "posix_stat ops mem file s = do {
     (result, st) \<leftarrow> dfs_file_stat ops mem file s;
     Some (if result < 0 then ((- 1, None), s\<lparr> errno := result \<rparr>) else ((result, st), s))
   }"

definition posix_fstat :: "(nat \<Rightarrow> 'd dfs_filesystem_ops) \<Rightarrow> bool \<Rightarrow> int \<Rightarrow> 'd dfs \<Rightarrow> ((int \<times> stat option) \<times> 'd dfs) option" where
  "posix_fstat ops mem fildes s = do {
     d \<leftarrow> fdt_fd_get fildes s;
     (case d of None \<Rightarrow> Some ((- 1, None), s\<lparr> errno := - EBADF \<rparr>)
      | Some a \<Rightarrow> do { (_, _, vn) \<leftarrow> vnode_of a s; posix_stat ops mem (v_fullpath vn) s })
   }"

definition posix_fsync :: "(nat \<Rightarrow> 'd dfs_filesystem_ops) \<Rightarrow> int \<Rightarrow> 'd dfs \<Rightarrow> (int \<times> 'd dfs) option" where
  "posix_fsync ops fildes s = do {
     d \<leftarrow> fdt_fd_get fildes s;
     (if d = None then Some (fail (- EBADF) s) else dfs_file_flush ops d s)
   }"

definition posix_fcntl :: "(nat \<Rightarrow> 'd dfs_filesystem_ops) \<Rightarrow> int \<Rightarrow> int \<Rightarrow> u32 \<Rightarrow> 'd dfs \<Rightarrow> (int \<times> 'd dfs) option" where
  "posix_fcntl ops fildes cmd arg s = do {
     d \<leftarrow> fdt_fd_get fildes s;
     (if d = None then Some (fail (- EBADF) s) else map_option outcome (dfs_file_ioctl ops d cmd arg s))
   }"

definition posix_ftruncate :: "(nat \<Rightarrow> 'd dfs_filesystem_ops) \<Rightarrow> int \<Rightarrow> u32 \<Rightarrow> 'd dfs \<Rightarrow> (int \<times> 'd dfs) option" where
  "posix_ftruncate ops fd len s = do {
     d \<leftarrow> fdt_fd_get fd s;
     (if d = None then Some (fail (- EBADF) s)
      else if sint len < 0 then Some (fail (- EINVAL) s)
      else do {
        (result, s) \<leftarrow> dfs_file_ftruncate ops d len s;
        Some (if result < 0 then fail result s else (0, s))
      })
   }"

definition posix_mkdir :: "(nat \<Rightarrow> 'd dfs_filesystem_ops) \<Rightarrow> fd_memory \<Rightarrow> fpath \<Rightarrow> 'd dfs \<Rightarrow> (int \<times> 'd dfs) option" where
  "posix_mkdir ops mem path s =
    (case fdt_fd_new (mem_table mem) (mem_file mem) s of
       (None, s) \<Rightarrow> Some (fail (- ENOMEM) s)
     | (Some fd, s) \<Rightarrow> do {
         d \<leftarrow> fdt_fd_get (int fd) s;
         (result, s) \<leftarrow> dfs_file_open ops (open_memory.truncate mem) d path (O_DIRECTORY OR O_CREAT) s;
         (if result < 0 then do { s \<leftarrow> fdt_fd_release (int fd) s; Some (fail result s) }
          else do {
            (_, s) \<leftarrow> dfs_file_close ops d s;
            s \<leftarrow> fdt_fd_release (int fd) s;
            Some (0, s)
          })
       })"

text \<open>A directory stream is the descriptor it reads from. The working directory is an array of 256 characters; a text that
  fills it would not be terminated, and has no result.\<close>

definition DFS_PATH_MAX :: nat where "DFS_PATH_MAX = 256"

definition posix_opendir ::
  "(nat \<Rightarrow> 'd dfs_filesystem_ops) \<Rightarrow> fd_memory \<Rightarrow> bool \<Rightarrow> fpath \<Rightarrow> 'd dfs \<Rightarrow> (int option \<times> 'd dfs) option" where
  "posix_opendir ops mem mem_dir name s =
    (case fdt_fd_new (mem_table mem) (mem_file mem) s of
       (None, s) \<Rightarrow> Some (None, s\<lparr> errno := - ENOMEM \<rparr>)
     | (Some fd, s) \<Rightarrow> do {
         d \<leftarrow> fdt_fd_get (int fd) s;
         (result, s) \<leftarrow> dfs_file_open ops (open_memory.truncate mem) d name O_DIRECTORY s;
         (if result \<ge> 0 then
            if \<not> mem_dir then do {
              (_, s) \<leftarrow> dfs_file_close ops d s;
              s \<leftarrow> fdt_fd_release (int fd) s;
              Some (None, s)
            } else Some (Some (int fd), s)
          else do { s \<leftarrow> fdt_fd_release (int fd) s; Some (None, s\<lparr> errno := result \<rparr>) })
       })"

definition posix_closedir :: "(nat \<Rightarrow> 'd dfs_filesystem_ops) \<Rightarrow> int \<Rightarrow> 'd dfs \<Rightarrow> (int \<times> 'd dfs) option" where
  "posix_closedir ops d s = do {
     fd \<leftarrow> fdt_fd_get d s;
     (if fd = None then Some (fail (- EBADF) s)
      else do {
        (result, s) \<leftarrow> dfs_file_close ops fd s;
        s \<leftarrow> fdt_fd_release d s;
        Some (if result < 0 then fail result s else (0, s))
      })
   }"

definition posix_chdir ::
  "(nat \<Rightarrow> 'd dfs_filesystem_ops) \<Rightarrow> fd_memory \<Rightarrow> bool \<Rightarrow> bool \<Rightarrow> fpath option \<Rightarrow> 'd dfs \<Rightarrow> (int \<times> 'd dfs) option" where
  "posix_chdir ops mem mem_full mem_dir path s =
    (case path of None \<Rightarrow> Some (0, s)
     | Some path \<Rightarrow>
       if length path > DFS_PATH_MAX then Some (fail (- ENOTDIR) s)
       else if \<not> mem_full then Some (fail (- ENOTDIR) s)
       else do {
         let fullpath = full_path (working_directory s) path;
         (d, s) \<leftarrow> posix_opendir ops mem mem_dir fullpath s;
         (case d of None \<Rightarrow> Some (- 1, s)
          | Some d \<Rightarrow> do {
              (_, s) \<leftarrow> posix_closedir ops d s;
              (if length fullpath \<ge> DFS_PATH_MAX then None else Some (0, s\<lparr> working_directory := fullpath \<rparr>))
            })
       })"

section \<open>The counts\<close>

definition slots :: "'d dfs \<Rightarrow> nat \<Rightarrow> nat" where
  "slots s a = count_list (fdtab s) (Some a)"

definition attached :: "'d dfs \<Rightarrow> nat \<Rightarrow> nat option" where
  "attached s a = Option.bind (files s a) f_vnode"

definition openers :: "'d dfs \<Rightarrow> nat \<Rightarrow> nat set" where
  "openers s v = {a. attached s a = Some v}"

definition fd_inv :: "'d dfs \<Rightarrow> bool" where
  "fd_inv s \<longleftrightarrow> length (fdtab s) \<le> DFS_FD_MAX \<and> (\<forall>a. Some a \<in> set (fdtab s) \<longrightarrow> files s a \<noteq> None)
    \<and> (\<forall>a f. files s a = Some f \<longrightarrow> f_ref f = int (slots s a) \<and> 0 < slots s a)"

definition path_at :: "'d dfs \<Rightarrow> nat \<Rightarrow> fpath option" where
  "path_at s v = map_option v_fullpath (vnodes s v)"

definition refs_at :: "'d dfs \<Rightarrow> nat \<Rightarrow> int option" where
  "refs_at s v = map_option v_ref (vnodes s v)"

definition vnode_inv :: "'d dfs \<Rightarrow> bool" where
  "vnode_inv s \<longleftrightarrow> (\<forall>v. refs_at s v = (if openers s v = {} then None else Some (int (card (openers s v)))))
    \<and> (\<forall>k v. v \<in> set (vnode_hash s k) \<longleftrightarrow> map_option bkdr_hash (path_at s v) = Some k)
    \<and> (\<forall>k. distinct (vnode_hash s k))
    \<and> (\<forall>v w p. path_at s v = Some p \<and> path_at s w = Some p \<longrightarrow> v = w)"

definition dfs_inv :: "'d dfs \<Rightarrow> bool" where
  "dfs_inv s \<longleftrightarrow> fd_inv s \<and> vnode_inv s"

lemma fd_inv_finite: "fd_inv s \<Longrightarrow> finite (openers s v)"
proof -
  assume i: "fd_inv s"
  have "openers s v \<subseteq> {a. Some a \<in> set (fdtab s)}"
  proof
    fix a assume "a \<in> openers s v"
    then obtain f where "files s a = Some f" by (cases "files s a") (auto simp: openers_def attached_def)
    then have "0 < slots s a" using i by (simp add: fd_inv_def)
    then show "a \<in> {a. Some a \<in> set (fdtab s)}" by (metis count_list_0_iff less_numeral_extra(3) mem_Collect_eq slots_def)
  qed
  moreover have "finite {a. Some a \<in> set (fdtab s)}" by (rule finite_surj[of "set (fdtab s)" _ the]) (auto intro: rev_image_eqI)
  ultimately show ?thesis by (rule finite_subset)
qed

lemma fd_slot_expand_eq:
  "fd_slot_expand mem i fdt = (if i < length fdt then (Some i, fdt) else if i \<ge> DFS_FD_MAX \<or> \<not> mem then (None, fdt)
    else (Some i, fdt @ replicate (min ((i + 4) div 4 * 4) DFS_FD_MAX - length fdt) None))"
  by (simp add: fd_slot_expand_def Let_def min_def)

lemma fd_slot_alloc_spec:
  assumes "fd_slot_alloc mem st fdt = (r, fdt')"
  shows "\<exists>k. fdt' = fdt @ replicate k None \<and> (length fdt \<le> DFS_FD_MAX \<longrightarrow> length fdt' \<le> DFS_FD_MAX)
    \<and> (\<forall>i. r = Some i \<longrightarrow> i < length fdt' \<and> st \<le> i \<and> fdt' ! i = None)"
proof (cases "find (\<lambda>idx. fdt ! idx = None) [st..<length fdt]")
  case (Some i)
  then have "r = Some i" "fdt' = fdt" using assms by (simp_all add: fd_slot_alloc_def)
  moreover have "i < length fdt" "st \<le> i" "fdt ! i = None" using Some by (auto simp: find_Some_iff)
  ultimately show ?thesis by (auto intro: exI[of _ 0])
next
  case None
  define i where "i = (if length fdt < st then st else length fdt)"
  define nr where "nr = min ((i + 4) div 4 * 4) DFS_FD_MAX"
  have i: "length fdt \<le> i" "st \<le> i" by (auto simp: i_def)
  have "(r, fdt') = (if i \<ge> DFS_FD_MAX \<or> \<not> mem then (None, fdt) else (Some i, fdt @ replicate (nr - length fdt) None))"
    using assms None i by (auto simp: fd_slot_alloc_def fd_slot_expand_eq i_def[symmetric] nr_def split: if_splits)
  moreover have "i < nr" if "i < DFS_FD_MAX" using that unfolding nr_def by auto
  ultimately show ?thesis using i
    by (auto simp: nth_append nr_def split: if_splits intro: exI[of _ 0] exI[of _ "nr - length fdt"])
qed

lemma slots_append [simp]: "count_list (xs @ replicate k None) (Some a) = count_list xs (Some a)"
  by (induction k) auto

lemma count_list_update:
  "i < length xs \<Longrightarrow> xs ! i \<noteq> y \<Longrightarrow> count_list (xs[i := y]) y = Suc (count_list xs y)"
  "i < length xs \<Longrightarrow> xs ! i = y \<Longrightarrow> z \<noteq> y \<Longrightarrow> Suc (count_list (xs[i := z]) y) = count_list xs y"
  "i < length xs \<Longrightarrow> xs ! i \<noteq> y \<Longrightarrow> z \<noteq> y \<Longrightarrow> count_list (xs[i := z]) y = count_list xs y"
  by (induction xs arbitrary: i) (auto simp: nth_Cons split: nat.splits)

text \<open>The table, and what the files refer to, change independently.\<close>

lemma vnode_inv_cong:
  "(\<And>a. attached s' a = attached s a) \<Longrightarrow> vnodes s' = vnodes s \<Longrightarrow> vnode_hash s' = vnode_hash s \<Longrightarrow> vnode_inv s' \<longleftrightarrow> vnode_inv s"
  by (simp add: vnode_inv_def openers_def path_at_def refs_at_def)

lemma fd_inv_cong:
  "fdtab s' = fdtab s \<Longrightarrow> (\<And>a. map_option f_ref (files s' a) = map_option f_ref (files s a)) \<Longrightarrow> fd_inv s' \<longleftrightarrow> fd_inv s"
proof -
  assume t: "fdtab s' = fdtab s" and f: "\<And>a. map_option f_ref (files s' a) = map_option f_ref (files s a)"
  have n: "files s' a = None \<longleftrightarrow> files s a = None" for a using f[of a] by (metis map_option_is_None)
  have "(\<forall>g. files s' a = Some g \<longrightarrow> P (f_ref g)) \<longleftrightarrow> (\<forall>g. files s a = Some g \<longrightarrow> P (f_ref g))" for a P
    using f[of a] by (cases "files s a"; cases "files s' a") auto
  from this[of _ "\<lambda>r. r = int (slots s _) \<and> 0 < slots s _"] show ?thesis by (simp add: fd_inv_def t n slots_def)
qed

lemma fd_inv_new:
  assumes i: "fd_inv s" and t: "fdt = fdtab s @ replicate k None" "length fdt \<le> DFS_FD_MAX" "i < length fdt" "fdt ! i = None"
    and a: "files s a = None"
  shows "fd_inv (s\<lparr> fdtab := fdt[i := Some a], files := (files s)(a \<mapsto> fresh_file) \<rparr>)"
proof -
  have "Some a \<notin> set (fdtab s)" using i a by (auto simp: fd_inv_def)
  then have "Some a \<notin> set fdt" by (auto simp: t(1))
  then have "count_list (fdt[i := Some a]) (Some a) = 1" using count_list_update(1)[of i fdt "Some a"] t(3,4) by simp
  moreover have "count_list (fdt[i := Some a]) (Some b) = count_list (fdtab s) (Some b)" if "b \<noteq> a" for b
    using count_list_update(3)[of i fdt "Some b" "Some a"] t(3,4) that by (simp add: t(1))
  moreover have "Some b \<in> set (fdt[i := Some a]) \<Longrightarrow> b = a \<or> Some b \<in> set (fdtab s)" for b
    using set_update_subset_insert[of fdt i "Some a"] by (auto simp: t(1))
  ultimately show ?thesis using i t(2) by (auto simp: fd_inv_def slots_def fresh_file_def)
qed

lemma fd_inv_share:
  assumes i: "fd_inv s" and t: "fdt = fdtab s @ replicate k None" "length fdt \<le> DFS_FD_MAX" "i < length fdt" "fdt ! i = None"
    and a: "files s a \<noteq> None"
  shows "fd_inv (upd_file a (\<lambda>f. f\<lparr> f_ref := f_ref f + 1 \<rparr>) (s\<lparr> fdtab := fdt[i := Some a] \<rparr>))"
proof -
  have "count_list (fdt[i := Some a]) (Some a) = Suc (count_list (fdtab s) (Some a))"
    using count_list_update(1)[of i fdt "Some a"] t(3,4) by (simp add: t(1))
  moreover have "count_list (fdt[i := Some a]) (Some b) = count_list (fdtab s) (Some b)" if "b \<noteq> a" for b
    using count_list_update(3)[of i fdt "Some b" "Some a"] t(3,4) that by (simp add: t(1))
  moreover have "Some b \<in> set (fdt[i := Some a]) \<Longrightarrow> b = a \<or> Some b \<in> set (fdtab s)" for b
    using set_update_subset_insert[of fdt i "Some a"] by (auto simp: t(1))
  ultimately show ?thesis using i t(2) a by (auto simp: fd_inv_def slots_def upd_file_def split: if_splits)
qed

lemma fd_inv_drop:
  assumes i: "fd_inv s" and fd: "fd_slot fd s = Some a"
  defines "s1 \<equiv> upd_file a (\<lambda>f. f\<lparr> f_ref := f_ref f - 1 \<rparr>) (s\<lparr> fdtab := (fdtab s)[nat fd := None] \<rparr>)"
  shows "\<exists>f. files s1 a = Some f \<and> f_ref f = int (slots s1 a) \<and> (slots s1 a \<noteq> 0 \<longrightarrow> fd_inv s1)
    \<and> (slots s1 a = 0 \<longrightarrow> fd_inv (s1\<lparr> files := (files s1)(a := None) \<rparr>))"
proof -
  have sl: "nat fd < length (fdtab s)" "fdtab s ! nat fd = Some a" using fd by (auto simp: fd_slot_def split: if_splits)
  then have m: "Some a \<in> set (fdtab s)" by (metis nth_mem)
  then obtain f where f: "files s a = Some f" using i by (auto simp: fd_inv_def)
  have c: "Suc (slots s1 a) = slots s a" using count_list_update(2)[OF sl] by (simp add: slots_def s1_def upd_file_def)
  have o: "slots s1 b = slots s b" if "b \<noteq> a" for b
    using count_list_update(3)[of "nat fd" "fdtab s" "Some b" None] sl that by (simp add: slots_def s1_def upd_file_def)
  have sub: "set (fdtab s1) \<subseteq> insert None (set (fdtab s))" by (auto simp: s1_def upd_file_def dest: set_update_subset_insert[THEN subsetD])
  have fs: "files s1 = (files s)(a \<mapsto> f\<lparr> f_ref := f_ref f - 1 \<rparr>)" by (simp add: s1_def upd_file_def f)
  have r: "f_ref f = int (slots s a)" using i f by (simp add: fd_inv_def)
  have z: "slots s1 a = 0 \<Longrightarrow> Some a \<notin> set (fdtab s1)" by (simp add: slots_def count_list_0_iff)
  have len: "length (fdtab s1) = length (fdtab s)" by (simp add: s1_def upd_file_def)
  have "slots s1 a \<noteq> 0 \<longrightarrow> fd_inv s1" using i sub c o r by (fastforce simp: fd_inv_def fs len)
  moreover have "fd_inv (s1\<lparr> files := (files s1)(a := None) \<rparr>)" if "slots s1 a = 0"
  proof -
    have "slots (s1\<lparr> files := (files s1)(a := None) \<rparr>) b = slots s1 b" for b by (simp add: slots_def)
    then show ?thesis using i sub o z[OF that] by (fastforce simp: fd_inv_def fs len)
  qed
  ultimately show ?thesis using c r by (simp add: fs)
qed

text \<open>How the vnodes follow the files: a file is attached to a vnode, or detached from one.\<close>

lemma vnode_invD:
  assumes "vnode_inv s"
  shows "attached s a = Some v \<Longrightarrow> vnodes s v \<noteq> None"
    and "vnodes s v = Some vn \<Longrightarrow> openers s v \<noteq> {} \<and> v_ref vn = int (card (openers s v))"
    and "v \<in> set (vnode_hash s k) \<longleftrightarrow> (\<exists>vn. vnodes s v = Some vn \<and> bkdr_hash (v_fullpath vn) = k)"
    and "vnodes s v = Some vn \<Longrightarrow> vnodes s w = Some wn \<Longrightarrow> v_fullpath vn = v_fullpath wn \<Longrightarrow> v = w"
    and "distinct (vnode_hash s k)"
proof -
  have r: "refs_at s v = (if openers s v = {} then None else Some (int (card (openers s v))))" for v
    using assms by (simp add: vnode_inv_def)
  show "attached s a = Some v \<Longrightarrow> vnodes s v \<noteq> None" using r[of v] by (auto simp: refs_at_def openers_def split: if_splits)
  show "vnodes s v = Some vn \<Longrightarrow> openers s v \<noteq> {} \<and> v_ref vn = int (card (openers s v))"
    using r[of v] by (simp add: refs_at_def split: if_splits)
  show "v \<in> set (vnode_hash s k) \<longleftrightarrow> (\<exists>vn. vnodes s v = Some vn \<and> bkdr_hash (v_fullpath vn) = k)" "distinct (vnode_hash s k)"
    using assms by (auto simp: vnode_inv_def path_at_def)
  show "vnodes s v = Some vn \<Longrightarrow> vnodes s w = Some wn \<Longrightarrow> v_fullpath vn = v_fullpath wn \<Longrightarrow> v = w"
    using assms unfolding vnode_inv_def path_at_def by (metis option.simps(9))
qed

lemma no_openers: "vnode_inv s \<Longrightarrow> vnodes s v = None \<Longrightarrow> openers s v = {}"
  using vnode_invD(1)[of s _ v] by (auto simp: openers_def)

lemma vnode_inv_refs:
  assumes i: "vnode_inv s" and p: "path_at s' = path_at s" "vnode_hash s' = vnode_hash s"
    and r: "\<And>w. refs_at s' w = (if openers s' w = {} then None else Some (int (card (openers s' w))))"
  shows "vnode_inv s'"
  using i by (simp add: vnode_inv_def p r)

lemma path_at_same: "vnodes s v = Some vn \<Longrightarrow> vnodes s' = (vnodes s)(v \<mapsto> vn') \<Longrightarrow> v_fullpath vn' = v_fullpath vn \<Longrightarrow> path_at s' = path_at s"
  by (auto simp: path_at_def)

lemma refs_at_upd: "vnodes s' = (vnodes s)(v := x) \<Longrightarrow> refs_at s' w = (if w = v then map_option v_ref x else refs_at s w)"
  by (simp add: refs_at_def)

lemma vnode_inv_attach:
  assumes i: "vnode_inv s" "finite (openers s v)" and v: "vnodes s v = Some vn" and a: "attached s a = None"
    and s': "attached s' = (attached s)(a := Some v)" "vnodes s' = (vnodes s)(v \<mapsto> vn')" "vnode_hash s' = vnode_hash s"
      "v_ref vn' = v_ref vn + 1" "v_fullpath vn' = v_fullpath vn"
  shows "vnode_inv s'"
proof -
  have o: "openers s' w = (if w = v then insert a (openers s v) else openers s w)" for w using a by (auto simp: openers_def s'(1))
  have "a \<notin> openers s v" using a by (simp add: openers_def)
  then have "card (openers s' v) = Suc (card (openers s v))" using i(2) by (simp add: o)
  then have "refs_at s' w = (if openers s' w = {} then None else Some (int (card (openers s' w))))" for w
    using i(1) vnode_invD(2)[OF i(1) v] s'(4) by (simp add: vnode_inv_def refs_at_upd[OF s'(2)] o)
  then show ?thesis by (rule vnode_inv_refs[OF i(1) path_at_same[OF v s'(2,5)] s'(3)])
qed

lemma vnode_inv_insert:
  assumes i: "vnode_inv s" and v: "vnodes s v = None" and a: "attached s a = None"
    and p: "\<And>w wn. vnodes s w = Some wn \<Longrightarrow> v_fullpath wn \<noteq> v_fullpath vn"
    and s': "attached s' = (attached s)(a := Some v)" "vnodes s' = (vnodes s)(v \<mapsto> vn)"
      "vnode_hash s' = (vnode_hash s)(bkdr_hash (v_fullpath vn) := v # vnode_hash s (bkdr_hash (v_fullpath vn)))" "v_ref vn = 1"
  shows "vnode_inv s'"
proof -
  have n: "v \<notin> set (vnode_hash s k)" for k using vnode_invD(3)[OF i] v by simp
  have e: "openers s v = {}" by (rule no_openers[OF i v])
  have o: "openers s' w = (if w = v then {a} else openers s w)" for w using a e by (auto simp: openers_def s'(1))
  have "refs_at s' w = (if openers s' w = {} then None else Some (int (card (openers s' w))))" for w
    using i s'(4) by (simp add: vnode_inv_def refs_at_upd[OF s'(2)] o)
  moreover have at: "path_at s' = (path_at s)(v := Some (v_fullpath vn))" "path_at s v = None" "\<And>w. path_at s w \<noteq> Some (v_fullpath vn)"
    using p by (auto simp: path_at_def s'(2) v)
  ultimately show ?thesis using i n unfolding vnode_inv_def by (auto simp: s'(3) at(1,2))
qed

lemma vnode_inv_same:
  assumes i: "vnode_inv s" and v: "vnodes s v = Some vn"
    and s': "attached s' = attached s" "vnodes s' = (vnodes s)(v \<mapsto> vn')" "vnode_hash s' = vnode_hash s"
      "v_ref vn' = v_ref vn" "v_fullpath vn' = v_fullpath vn"
  shows "vnode_inv s'"
proof -
  have o: "openers s' w = openers s w" for w by (simp add: openers_def s'(1))
  have "refs_at s' w = (if openers s' w = {} then None else Some (int (card (openers s' w))))" for w
    using i vnode_invD(2)[OF i v] s'(4) by (simp add: vnode_inv_def refs_at_upd[OF s'(2)] o)
  then show ?thesis by (rule vnode_inv_refs[OF i path_at_same[OF v s'(2,5)] s'(3)])
qed

lemma vnode_inv_remove:
  assumes i: "vnode_inv s" and v: "vnodes s v = Some vn" and a: "openers s v = {a}"
    and s': "attached s' = (attached s)(a := None)" "vnodes s' = (vnodes s)(v := None)"
      "vnode_hash s' = (vnode_hash s)(bkdr_hash (v_fullpath vn) := remove1 v (vnode_hash s (bkdr_hash (v_fullpath vn))))"
  shows "vnode_inv s'"
proof -
  have av: "attached s b = Some v \<longleftrightarrow> b = a" for b using a unfolding openers_def by blast
  have aw: "attached s a = Some v" using av[of a] by simp
  have "openers s' w = (if w = v then {} else openers s w)" for w by (auto simp: openers_def s'(1) aw dest: av[THEN iffD1])
  then have "refs_at s' w = (if openers s' w = {} then None else Some (int (card (openers s' w))))" for w
    using i by (simp add: vnode_inv_def refs_at_upd[OF s'(2)])
  moreover have at: "path_at s' = (path_at s)(v := None)" "path_at s v = Some (v_fullpath vn)" by (auto simp: path_at_def s'(2) v)
  ultimately show ?thesis using i unfolding vnode_inv_def by (auto simp: s'(3) at(1,2))
qed

lemma vnode_inv_detach:
  assumes i: "vnode_inv s" "finite (openers s v)" and v: "vnodes s v = Some vn" and a: "attached s a = Some v" "openers s v \<noteq> {a}"
    and s': "attached s' = (attached s)(a := None)" "vnodes s' = (vnodes s)(v \<mapsto> vn')" "vnode_hash s' = vnode_hash s"
      "v_ref vn' = v_ref vn - 1" "v_fullpath vn' = v_fullpath vn"
  shows "vnode_inv s'"
proof -
  have o: "openers s' w = (if w = v then openers s v - {a} else openers s w)" for w using a(1) by (auto simp: openers_def s'(1))
  have m: "a \<in> openers s v" using a(1) by (simp add: openers_def)
  then have ne: "openers s v - {a} \<noteq> {}" using a(2) by auto
  have "card (openers s v) = Suc (card (openers s v - {a}))" using card.remove[OF i(2) m] .
  then have "refs_at s' w = (if openers s' w = {} then None else Some (int (card (openers s' w))))" for w
    using i(1) vnode_invD(2)[OF i(1) v] s'(4) ne unfolding refs_at_upd[OF s'(2)] o by (simp add: vnode_inv_def)
  then show ?thesis by (rule vnode_inv_refs[OF i(1) path_at_same[OF v s'(2,5)] s'(3)])
qed

lemma ref_one:
  assumes "dfs_inv s" and "vnodes s v = Some vn" and "attached s a = Some v"
  shows "v_ref vn = 1 \<longleftrightarrow> openers s v = {a}" and "v_ref vn \<ge> 1"
proof -
  have f: "finite (openers s v)" "a \<in> openers s v" using assms fd_inv_finite by (auto simp: dfs_inv_def openers_def)
  have r: "v_ref vn = int (card (openers s v))" using assms(1,2) vnode_invD(2) by (auto simp: dfs_inv_def)
  show "v_ref vn = 1 \<longleftrightarrow> openers s v = {a}" using f by (auto simp: r card_1_singleton_iff)
  show "v_ref vn \<ge> 1" using f card_gt_0_iff[of "openers s v"] by (auto simp: r Suc_le_eq)
qed

lemma find_vnode:
  assumes i: "vnode_inv s"
  shows "\<exists>r. dfs_vnode_find path s = Some r \<and> (\<forall>v. r = Some v \<longrightarrow> (\<exists>vn. vnodes s v = Some vn \<and> v_fullpath vn = path))
    \<and> (r = None \<longrightarrow> (\<forall>w wn. vnodes s w = Some wn \<longrightarrow> v_fullpath wn \<noteq> path))"
proof -
  have "\<forall>v \<in> set vs. vnodes s v \<noteq> None \<Longrightarrow> \<exists>r. find_loop s path vs = Some r \<and> (\<forall>v. r = Some v \<longrightarrow> (\<exists>vn. vnodes s v = Some vn \<and> v_fullpath vn = path))
      \<and> (r = None \<longrightarrow> (\<forall>v \<in> set vs. \<forall>vn. vnodes s v = Some vn \<longrightarrow> v_fullpath vn \<noteq> path))" for vs
    by (induction vs) auto
  moreover have "\<forall>v \<in> set (vnode_hash s (bkdr_hash path)). vnodes s v \<noteq> None" by (auto simp: vnode_invD(3)[OF i])
  ultimately obtain r where r: "dfs_vnode_find path s = Some r" "\<forall>v. r = Some v \<longrightarrow> (\<exists>vn. vnodes s v = Some vn \<and> v_fullpath vn = path)"
    "r = None \<longrightarrow> (\<forall>v \<in> set (vnode_hash s (bkdr_hash path)). \<forall>vn. vnodes s v = Some vn \<longrightarrow> v_fullpath vn \<noteq> path)"
    unfolding dfs_vnode_find_def by blast
  moreover have "w \<in> set (vnode_hash s (bkdr_hash path))" if "vnodes s w = Some wn" "v_fullpath wn = path" for w wn
    using that by (auto simp: vnode_invD(3)[OF i])
  ultimately show ?thesis by blast
qed

lemma attached_simps [simp]:
  "attached (upd_vnode v g s) = attached s"
  "attached (s\<lparr> fdtab := t \<rparr>) = attached s"
  "attached (s\<lparr> errno := e \<rparr>) = attached s"
  "attached (insert_vnode v vn s) = attached s"
  "attached (remove_vnode v vn s) = attached s"
  "attached (s\<lparr> files := F \<rparr>) = (\<lambda>a. Option.bind (F a) f_vnode)"
  by (simp_all add: attached_def fun_eq_iff upd_vnode_def insert_vnode_def remove_vnode_def)

lemma upd_file_simps [simp]:
  "vnodes (upd_file a g s) = vnodes s" "vnode_hash (upd_file a g s) = vnode_hash s" "fdtab (upd_file a g s) = fdtab s"
  "files (upd_file a g s) = (files s)(a := map_option g (files s a))"
  by (simp_all add: upd_file_def)

lemma attached_keep: "(\<And>f. f_vnode (g f) = f_vnode f) \<Longrightarrow> attached (upd_file a g s) = attached s"
  by (auto simp: attached_def fun_eq_iff upd_file_def) (case_tac "files s a", auto)

lemma attached_set: "files s a \<noteq> None \<Longrightarrow> (\<And>f. f_vnode (g f) = x) \<Longrightarrow> attached (upd_file a g s) = (attached s)(a := x)"
  by (auto simp: attached_def fun_eq_iff upd_file_def)

text \<open>An update of a file that keeps its count and its vnode keeps the invariant.\<close>

lemma dfs_inv_file: "dfs_inv s \<Longrightarrow> (\<And>f. f_vnode (g f) = f_vnode f \<and> f_ref (g f) = f_ref f) \<Longrightarrow> dfs_inv (upd_file a g s)"
  using fd_inv_cong[of "upd_file a g s" s] vnode_inv_cong[of "upd_file a g s" s] attached_keep[of g a s]
  by (simp add: dfs_inv_def option.map_comp o_def)

end
