(* ===== verification/DfsLinks.thy ===== *)
theory DfsLinks
  imports DfsFd
begin

text \<open>
  The counts of descriptors and vnodes (\<open>dfs.c\<close>, \<open>dfs_file.c\<close>) over all sequences of calls. What the layer relies on is the interface
  \<open>file_systems\<close>: a function of a file system leaves the counts, the vnode pointer of the file and the path of the vnode alone, and
  its close function returns. Inside it every call of the POSIX layer is shown to keep the counts right.
\<close>

section \<open>What the functions of a file system leave alone\<close>

definition same_fds :: "'d dfs \<Rightarrow> 'd dfs \<Rightarrow> bool" where
  "same_fds s s' \<longleftrightarrow> fdtab s' = fdtab s \<and> (\<forall>a. map_option f_ref (files s' a) = map_option f_ref (files s a))"

definition same_links :: "'d dfs \<Rightarrow> 'd dfs \<Rightarrow> bool" where
  "same_links s s' \<longleftrightarrow> same_fds s s' \<and> attached s' = attached s \<and> refs_at s' = refs_at s \<and> path_at s' = path_at s
    \<and> vnode_hash s' = vnode_hash s"

definition settled :: "'d dfs \<Rightarrow> bool" where
  "settled s \<longleftrightarrow> (\<forall>a. files s a \<noteq> None \<longrightarrow> attached s a \<noteq> None)"

definition dfs_ok :: "'d dfs \<Rightarrow> bool" where
  "dfs_ok s \<longleftrightarrow> dfs_inv s \<and> settled s"

lemma same_fds_refl [simp]: "same_fds s s" and same_links_refl [simp]: "same_links s s"
  by (simp_all add: same_fds_def same_links_def)

lemma same_fds_trans: "same_fds s t \<Longrightarrow> same_fds t u \<Longrightarrow> same_fds s u"
  and same_links_trans: "same_links s t \<Longrightarrow> same_links t u \<Longrightarrow> same_links s u"
  by (simp_all add: same_fds_def same_links_def)

lemma same_fdsD:
  assumes "same_fds s s'"
  shows "fdtab s' = fdtab s" "slots s' a = slots s a" "fd_slot fd s' = fd_slot fd s" "files s' a = None \<longleftrightarrow> files s a = None"
    "files s a = Some f \<Longrightarrow> \<exists>f'. files s' a = Some f' \<and> f_ref f' = f_ref f"
proof -
  have m: "map_option f_ref (files s' a) = map_option f_ref (files s a)" for a using assms by (simp add: same_fds_def)
  show "files s' a = None \<longleftrightarrow> files s a = None" using m[of a] by (metis map_option_is_None)
  show "files s a = Some f \<Longrightarrow> \<exists>f'. files s' a = Some f' \<and> f_ref f' = f_ref f" using m[of a] by auto
qed (use assms in \<open>simp_all add: same_fds_def slots_def fd_slot_def\<close>)

lemma same_fds_inv: "same_fds s s' \<Longrightarrow> fd_inv s' \<longleftrightarrow> fd_inv s"
  by (rule fd_inv_cong) (simp_all add: same_fds_def)

lemma same_links_inv:
  assumes "same_links s s'"
  shows "dfs_inv s' \<longleftrightarrow> dfs_inv s" "settled s' \<longleftrightarrow> settled s" "dfs_ok s' \<longleftrightarrow> dfs_ok s" "openers s' v = openers s v"
proof -
  have o: "openers s' = openers s" using assms by (simp add: same_links_def openers_def fun_eq_iff)
  show "dfs_inv s' \<longleftrightarrow> dfs_inv s" using assms same_fds_inv[of s s'] by (simp add: same_links_def dfs_inv_def vnode_inv_def o)
  moreover show "settled s' \<longleftrightarrow> settled s" using assms same_fdsD(4)[of s s'] by (simp add: same_links_def settled_def)
  ultimately show "dfs_ok s' \<longleftrightarrow> dfs_ok s" by (simp add: dfs_ok_def)
  show "openers s' v = openers s v" by (simp add: o)
qed

lemma same_links_file: "(\<And>f. f_vnode (g f) = f_vnode f \<and> f_ref (g f) = f_ref f) \<Longrightarrow> same_links s (upd_file a g s)"
  by (simp add: same_links_def same_fds_def attached_keep path_at_def refs_at_def option.map_comp o_def fun_eq_iff)

lemma same_links_vnode: "(\<And>x. v_ref (g x) = v_ref x \<and> v_fullpath (g x) = v_fullpath x) \<Longrightarrow> same_links s (upd_vnode v g s)"
  by (simp add: same_links_def same_fds_def path_at_def refs_at_def option.map_comp o_def fun_eq_iff upd_vnode_def attached_def)

lemma same_links_then_file:
    "same_links s t \<Longrightarrow> (\<And>f. f_vnode (g f) = f_vnode f \<and> f_ref (g f) = f_ref f) \<Longrightarrow> same_links s (upd_file a g t)"
  and same_links_then_vnode:
    "same_links s t \<Longrightarrow> (\<And>x. v_ref (h x) = v_ref x \<and> v_fullpath (h x) = v_fullpath x) \<Longrightarrow> same_links s (upd_vnode v h t)"
  using same_links_trans same_links_file same_links_vnode by blast+

lemma same_fds_file: "(\<And>f. f_ref (g f) = f_ref f) \<Longrightarrow> same_fds s (upd_file a g s)"
  by (simp add: same_fds_def option.map_comp o_def)

lemma same_fds_simps [simp]:
  "same_fds s (upd_vnode v h t) \<longleftrightarrow> same_fds s t" "same_fds s (insert_vnode v vn t) \<longleftrightarrow> same_fds s t"
  "same_fds s (remove_vnode v vn t) \<longleftrightarrow> same_fds s t"
  by (simp_all add: same_fds_def upd_vnode_def insert_vnode_def remove_vnode_def)

lemma files_simps [simp]:
  "files (upd_vnode v h t) = files t" "files (insert_vnode v vn t) = files t" "files (remove_vnode v vn t) = files t"
  by (simp_all add: upd_vnode_def insert_vnode_def remove_vnode_def)

lemma dfs_ok_simps [simp]:
  "dfs_ok (s\<lparr> errno := e \<rparr>) \<longleftrightarrow> dfs_ok s" "dfs_ok (s\<lparr> working_directory := w \<rparr>) \<longleftrightarrow> dfs_ok s"
proof -
  have "same_links s (s\<lparr> errno := e \<rparr>)" "same_links s (s\<lparr> working_directory := w \<rparr>)"
    by (simp_all add: same_links_def same_fds_def attached_def refs_at_def path_at_def fun_eq_iff)
  then show "dfs_ok (s\<lparr> errno := e \<rparr>) \<longleftrightarrow> dfs_ok s" "dfs_ok (s\<lparr> working_directory := w \<rparr>) \<longleftrightarrow> dfs_ok s"
    using same_links_inv(3) by blast+
qed

lemma vnode_of_conv:
  "vnode_of a s = Some (f, v, vn) \<longleftrightarrow> files s a = Some f \<and> f_vnode f = Some v \<and> vnodes s v = Some vn"
  by (auto simp: vnode_of_def bind_eq_Some_conv)

lemma attached_conv: "attached s a = Some v \<longleftrightarrow> (\<exists>f. files s a = Some f \<and> f_vnode f = Some v)"
  by (auto simp: attached_def bind_eq_Some_conv)

lemma vnode_of_attached:
  assumes "dfs_inv s" and "attached s a = Some v"
  shows "\<exists>f vn. vnode_of a s = Some (f, v, vn)"
  using assms vnode_invD(1)[of s a v] by (auto simp: dfs_inv_def vnode_of_conv attached_conv)

definition keeps :: "dfs_file \<Rightarrow> 'd vnode \<Rightarrow> dfs_file \<Rightarrow> 'd vnode \<Rightarrow> bool" where
  "keeps f vn f' vn' \<longleftrightarrow> f_vnode f' = f_vnode f \<and> f_ref f' = f_ref f \<and> v_ref vn' = v_ref vn \<and> v_fullpath vn' = v_fullpath vn"

lemma write_back_same:
  assumes "vnode_of a s = Some (f, v, vn)" and "keeps f vn f' vn'"
  shows "same_links s (write_back a f' v vn' s)"
  using assms by (auto simp: vnode_of_conv keeps_def same_links_def same_fds_def write_back_def attached_def refs_at_def path_at_def fun_eq_iff)

section \<open>Descriptors\<close>

lemma fdt_fd_release_spec:
  assumes i: "dfs_inv s" and fd: "fd_slot fd s = Some a"
    and last: "\<And>v. slots s a = 1 \<Longrightarrow> attached s a = Some v \<Longrightarrow> openers s v \<noteq> {a}"
  shows "\<exists>s'. fdt_fd_release fd s = Some s' \<and> dfs_inv s' \<and> fdtab s' = (fdtab s)[nat fd := None]
    \<and> (\<forall>b. b \<noteq> a \<longrightarrow> files s' b = files s b) \<and> (if slots s a = 1 then files s' a = None else attached s' = attached s)"
proof -
  define s1 where "s1 = upd_file a (\<lambda>f. f\<lparr> f_ref := f_ref f - 1 \<rparr>) (s\<lparr> fdtab := (fdtab s)[nat fd := None] \<rparr>)"
  note d = fd_inv_drop[OF _ fd, folded s1_def]
  have fi: "fd_inv s" "vnode_inv s" using i by (auto simp: dfs_inv_def)
  obtain f where f: "files s1 a = Some f" "f_ref f = int (slots s1 a)" using d[OF fi(1)] by blast
  have at: "attached s1 = attached s" by (simp add: s1_def attached_keep)
  have vs: "vnodes s1 = vnodes s" "vnode_hash s1 = vnode_hash s" "fdtab s1 = (fdtab s)[nat fd := None]" by (simp_all add: s1_def)
  have other: "\<forall>b. b \<noteq> a \<longrightarrow> files s1 b = files s b" by (simp add: s1_def)
  have "fdtab s ! nat fd = Some a" "nat fd < length (fdtab s)"
    using fd by (auto simp: fd_slot_def split: if_splits)
  then have c: "Suc (slots s1 a) = slots s a" using count_list_update(2)[of "nat fd" "fdtab s" "Some a" None] by (simp add: slots_def vs)
  show ?thesis
  proof (cases "slots s a = 1")
    case False
    then have "slots s1 a \<noteq> 0" using c by simp
    then have "fd_inv s1" using d[OF fi(1)] by blast
    moreover have "vnode_inv s1" using vnode_inv_cong[of s1 s] fi(2) at vs by simp
    moreover have "fdt_fd_release fd s = Some s1" using f c False by (simp add: fdt_fd_release_def fd s1_def[symmetric] Let_def)
    ultimately show ?thesis using False vs at other by (simp add: dfs_inv_def)
  next
    case True
    then have z: "f_ref f = 0" "slots s1 a = 0" using f(2) c by simp_all
    then have fd0: "fd_inv (s1\<lparr> files := (files s1)(a := None) \<rparr>)" using d[OF fi(1)] by blast
    show ?thesis
    proof (cases "f_vnode f")
      case None
      let ?s = "s1\<lparr> files := (files s1)(a := None) \<rparr>"
      have "attached s1 a = None" using f(1) None by (simp add: attached_def)
      then have "attached ?s b = attached s b" for b using at[symmetric] by (simp add: attached_def)
      then have "vnode_inv ?s" using vnode_inv_cong[of ?s s] fi(2) vs by simp
      moreover have "fdt_fd_release fd s = Some ?s" using f(1) z None by (simp add: fdt_fd_release_def fd s1_def[symmetric] Let_def)
      ultimately show ?thesis using fd0 True vs other by (simp add: dfs_inv_def)
    next
      case (Some v)
      have av: "attached s a = Some v" using f(1) Some at[symmetric] by (simp add: attached_def)
      then obtain vn where vn: "vnodes s v = Some vn" using vnode_invD(1)[OF fi(2)] by blast
      have o: "openers s v \<noteq> {a}" using last[OF True av] .
      then have n: "v_ref vn \<noteq> 1" using ref_one(1)[OF i vn av] by simp
      let ?s = "(upd_vnode v (\<lambda>x. x\<lparr> v_ref := v_ref x - 1 \<rparr>) s1)\<lparr> files := (files s1)(a := None) \<rparr>"
      have "attached ?s = (attached s)(a := None)" by (simp add: at[symmetric] attached_def fun_eq_iff)
      moreover have "vnodes ?s = (vnodes s)(v \<mapsto> vn\<lparr> v_ref := v_ref vn - 1 \<rparr>)" by (simp add: upd_vnode_def vs vn)
      moreover have "vnode_hash ?s = vnode_hash s" by (simp add: upd_vnode_def vs)
      ultimately have "vnode_inv ?s"
        using vnode_inv_detach[OF fi(2) fd_inv_finite[OF fi(1)] vn av o, of ?s "vn\<lparr> v_ref := v_ref vn - 1 \<rparr>"] by simp
      moreover have "fd_inv ?s"
        using fd_inv_cong[of ?s "s1\<lparr> files := (files s1)(a := None) \<rparr>"] fd0 by (simp add: upd_vnode_def)
      moreover have "fdt_fd_release fd s = Some ?s" using f(1) z Some n
        by (simp add: fdt_fd_release_def fd s1_def[symmetric] Let_def vs vn upd_vnode_def)
      ultimately show ?thesis using True vs other by (simp add: dfs_inv_def upd_vnode_def)
    qed
  qed
qed

lemma fd_inv_grow:
  assumes "fd_inv s" and "fdt = fdtab s @ replicate k None" and "length fdt \<le> DFS_FD_MAX"
  shows "fd_inv (s\<lparr> fdtab := fdt \<rparr>)"
  using assms by (auto simp: fd_inv_def slots_def)

text \<open>A file that is new in the table has no vnode yet.\<close>

lemma fdt_fd_new_spec:
  assumes i: "dfs_inv s" and n: "fdt_fd_new mt mf s = (r, s')" and fresh: "\<And>a. mf = Some a \<Longrightarrow> files s a = None"
  shows "dfs_inv s' \<and> attached s' = attached s \<and> vnodes s' = vnodes s \<and> vnode_hash s' = vnode_hash s
    \<and> filesystem_table s' = filesystem_table s \<and> working_directory s' = working_directory s
    \<and> (case r of None \<Rightarrow> files s' = files s
       | Some fd \<Rightarrow> \<exists>a. mf = Some a \<and> fd_slot (int fd) s' = Some a \<and> files s' = (files s)(a \<mapsto> fresh_file) \<and> attached s a = None)"
proof -
  obtain j fdt where al: "fd_slot_alloc mt DFS_STDIO_OFFSET (fdtab s) = (j, fdt)" by fastforce
  obtain k where k: "fdt = fdtab s @ replicate k None" "length fdt \<le> DFS_FD_MAX"
      "\<And>i. j = Some i \<Longrightarrow> i < length fdt \<and> fdt ! i = None"
    using fd_slot_alloc_spec[OF al] i by (auto simp: dfs_inv_def fd_inv_def)
  have fi: "fd_inv s" "vnode_inv s" using i by (auto simp: dfs_inv_def)
  have "fd_inv (s\<lparr> fdtab := fdt \<rparr>)" by (rule fd_inv_grow[OF fi(1) k(1,2)])
  then have grow: "dfs_inv (s\<lparr> fdtab := fdt \<rparr>)" using vnode_inv_cong[of "s\<lparr> fdtab := fdt \<rparr>" s] fi(2) by (simp add: dfs_inv_def)
  show ?thesis
  proof (cases "j = None \<or> mf = None")
    case True
    then have "r = None" "s' = s\<lparr> fdtab := fdt \<rparr>" using n al by (auto simp: fdt_fd_new_def fd_alloc_def split: option.splits)
    then show ?thesis using grow by simp
  next
    case False
    then obtain idx a where ia: "j = Some idx" "mf = Some a" by auto
    let ?s = "s\<lparr> fdtab := fdt[idx := Some a], files := (files s)(a \<mapsto> fresh_file) \<rparr>"
    have r: "r = Some idx" "s' = ?s" using n al ia by (simp_all add: fdt_fd_new_def fd_alloc_def)
    have fa: "files s a = None" by (rule fresh[OF ia(2)])
    then have at: "attached ?s = attached s" by (auto simp: attached_def fresh_file_def fun_eq_iff)
    moreover have "vnode_inv ?s" by (rule vnode_inv_cong[THEN iffD2, OF _ _ _ fi(2)]) (simp only: at, simp_all)
    moreover have "fd_inv ?s" using fd_inv_new[OF fi(1) k(1,2)] k(3)[OF ia(1)] fa by simp
    ultimately show ?thesis using k(3)[OF ia(1)] fa by (simp add: r dfs_inv_def ia(2) fd_slot_def attached_def)
  qed
qed

lemma find_loop_cong: "vnodes s' = vnodes s \<Longrightarrow> find_loop s' p vs = find_loop s p vs"
  by (induction vs) (auto split: option.split)

text \<open>The functions of a file system that answer with a number.\<close>

definition driver_calls :: "'d dfs_file_ops \<Rightarrow> 'd driver_call set" where
  "driver_calls fo = set_option (fo_open fo) \<union> set_option (fo_close fo) \<union> set_option (fo_flush fo)
    \<union> {call cmd args |call cmd args. fo_ioctl fo = Some call} \<union> {call buf |call buf. fo_write fo = Some call}
    \<union> {call off |call off. fo_lseek fo = Some call}"

locale file_systems =
  fixes ops :: "nat \<Rightarrow> 'd dfs_filesystem_ops"
  assumes call_keeps: "call \<in> driver_calls (op_fops (ops i)) \<Longrightarrow> call f vn d = Some (r, f', vn') \<Longrightarrow> keeps f vn f' vn'"
    and read_keeps: "fo_read (op_fops (ops i)) = Some read \<Longrightarrow> read n f vn d = Some (r, bs, f', vn') \<Longrightarrow> keeps f vn f' vn'"
    and getdents_keeps: "fo_getdents (op_fops (ops i)) = Some gd \<Longrightarrow> gd m f vn d = Some (r, ds, f', vn') \<Longrightarrow> keeps f vn f' vn'"
    and close_total: "fo_close (op_fops (ops i)) = Some call \<Longrightarrow> call f vn d \<noteq> None"
begin

lemma driver_same:
  assumes "call \<in> driver_calls (fops_of ops vn)" and "driver call a s = Some (r, s')"
  shows "same_links s s'"
  using assms call_keeps[of call "v_fops vn"]
  by (auto simp: driver_def bind_eq_Some_conv fops_of_def intro!: write_back_same)

lemma driver_calls_same:
  shows "fo_open (fops_of ops vn) = Some call \<Longrightarrow> driver call a s = Some (r, s') \<Longrightarrow> same_links s s'"
    and "fo_close (fops_of ops vn) = Some call \<Longrightarrow> driver call a s = Some (r, s') \<Longrightarrow> same_links s s'"
    and "fo_flush (fops_of ops vn) = Some call \<Longrightarrow> driver call a s = Some (r, s') \<Longrightarrow> same_links s s'"
    and "fo_ioctl (fops_of ops vn) = Some ioctl \<Longrightarrow> driver (ioctl cmd args) a s = Some (r, s') \<Longrightarrow> same_links s s'"
    and "fo_write (fops_of ops vn) = Some write \<Longrightarrow> driver (write buf) a s = Some (r, s') \<Longrightarrow> same_links s s'"
    and "fo_lseek (fops_of ops vn) = Some lseek \<Longrightarrow> driver (lseek off) a s = Some (r, s') \<Longrightarrow> same_links s s'"
  by - (rule driver_same[where vn = vn, rotated], assumption, force simp: driver_calls_def)+

lemma file_calls_same:
  shows "dfs_file_ioctl ops fd cmd args s = Some (r, s') \<Longrightarrow> same_links s s'"
    and "dfs_file_write ops fd buf s = Some (r, s') \<Longrightarrow> same_links s s'"
    and "dfs_file_flush ops fd s = Some (r, s') \<Longrightarrow> same_links s s'"
    and "dfs_file_lseek ops fd off s = Some (r, s') \<Longrightarrow> same_links s s'"
    and "dfs_file_ftruncate ops fd len s = Some (r, s') \<Longrightarrow> same_links s s'"
  unfolding dfs_file_ioctl_def dfs_file_write_def dfs_file_flush_def dfs_file_lseek_def dfs_file_ftruncate_def
  by (auto simp: bind_eq_Some_conv Let_def same_links_file split: option.split_asm if_split_asm dest: driver_calls_same
      intro!: same_links_then_file same_links_then_vnode)

lemma write_back_calls_same:
  assumes "vnode_of a s = Some (f, v, vn)"
  shows "fo_read (fops_of ops vn) = Some read \<Longrightarrow> read n f vn d = Some (r, bs, f', vn') \<Longrightarrow> same_links s (write_back a f' v vn' s)"
    and "fo_getdents (fops_of ops vn) = Some gd \<Longrightarrow> gd m f vn d = Some (r, ds, f', vn') \<Longrightarrow> same_links s (write_back a f' v vn' s)"
  using assms read_keeps getdents_keeps by (auto simp: fops_of_def intro: write_back_same)

lemma file_read_same:
  shows "dfs_file_read ops fd len s = Some (r, bs, s') \<Longrightarrow> same_links s s'"
    and "dfs_file_getdents ops fd n s = Some (r, ds, s') \<Longrightarrow> same_links s s'"
  unfolding dfs_file_read_def dfs_file_getdents_def
  by (auto simp: bind_eq_Some_conv Let_def split: option.splits if_splits dest: write_back_calls_same intro!: same_links_then_file)

text \<open>The end of an open: it fails only with the vnode it has just got.\<close>

lemma open_vnode_ok:
  assumes "open_vnode ops a flags s = Some (r, s')" and "0 \<le> r"
  shows "same_links s s'"
proof -
  define s0 where "s0 = upd_file a (\<lambda>f. f\<lparr> f_flags := flags \<rparr>) s"
  have 0: "same_links s s0" by (simp add: s0_def same_links_file)
  obtain f v vn call r1 s1 where e: "fo_open (fops_of ops vn) = Some call" "driver call a s0 = Some (r1, s1)" "vnode_of a s0 = Some (f, v, vn)"
    using assms(1) by (auto simp: open_vnode_def s0_def[symmetric] bind_eq_Some_conv Let_def)
  have 1: "same_links s s1" using same_links_trans[OF 0 driver_calls_same(1)[OF e(1,2)]] .
  show ?thesis using assms e 1
    by (auto simp: open_vnode_def s0_def[symmetric] bind_eq_Some_conv Let_def split: if_split_asm intro!: same_links_then_file same_links_then_vnode)
qed

lemma open_vnode_fail:
  assumes o: "open_vnode ops a flags s = Some (r, s')" "r < 0" and i: "dfs_inv s" and a: "attached s a = Some v" "openers s v = {a}"
  shows "dfs_inv s' \<and> same_fds s s' \<and> attached s' = (attached s)(a := None)"
proof -
  define s0 where "s0 = upd_file a (\<lambda>f. f\<lparr> f_flags := flags \<rparr>) s"
  have 0: "same_links s s0" by (simp add: s0_def same_links_file)
  obtain f v' vn call s1 where e: "fo_open (fops_of ops vn) = Some call" "driver call a s0 = Some (r, s1)" "vnode_of a s0 = Some (f, v', vn)"
    using o by (auto simp: open_vnode_def s0_def[symmetric] bind_eq_Some_conv Let_def split: if_split_asm)
  have 1: "same_links s s1" using same_links_trans[OF 0 driver_calls_same(1)[OF e(1,2)]] .
  have "attached s0 a = Some v'" using e(3) by (auto simp: vnode_of_conv attached_conv)
  then have v': "v' = v" using a(1) 0 by (simp add: same_links_def)
  have at1: "attached s1 = attached s" and i1: "dfs_inv s1" and o1: "openers s1 v = {a}"
    using 1 same_links_inv[OF 1] i a(2) by (simp_all add: same_links_def)
  then obtain f1 vn1 where vn1: "files s1 a = Some f1" "vnodes s1 v = Some vn1"
    using vnode_of_attached[of s1 a v] a(1) by (auto simp: vnode_of_conv)
  have r1: "v_ref vn1 = 1" using ref_one(1)[OF i1 vn1(2)] at1 a(1) o1 by simp
  define s2 where "s2 = upd_vnode v (\<lambda>x. x\<lparr> v_ref := v_ref x - 1 \<rparr>) s1"
  define s3 where "s3 = upd_file a (\<lambda>f. f\<lparr> f_vnode := None \<rparr>) (remove_vnode v (vn1\<lparr> v_ref := 0 \<rparr>) s2)"
  have s': "s' = s3" using o(1) o(2) e v' r1 vn1(2)
    by (simp add: open_vnode_def s0_def[symmetric] Let_def s2_def[symmetric] s3_def) (simp add: s2_def upd_vnode_def s3_def)
  have at3: "attached s3 = (attached s)(a := None)"
    unfolding s3_def by (subst attached_set[where x = None]) (simp_all add: vn1 at1 s2_def)
  have f3: "same_fds s1 s3" unfolding s3_def s2_def by (rule same_fds_trans[OF _ same_fds_file]) simp_all
  have "vnode_inv s3"
    using vnode_inv_remove[of s1 v vn1 a s3] i1 vn1(2) o1 at3 at1
    by (simp add: dfs_inv_def s3_def s2_def remove_vnode_def upd_vnode_def fun_upd_twist)
  then show ?thesis using at3 f3 same_fds_inv[OF f3] i1 1 same_fds_trans[of s s1 s3] by (simp add: s' dfs_inv_def same_links_def)
qed

definition opened :: "nat \<Rightarrow> int \<Rightarrow> 'd dfs \<Rightarrow> 'd dfs \<Rightarrow> bool" where
  "opened a r s s' \<longleftrightarrow> dfs_inv s' \<and> same_fds s s' \<and> (\<forall>b. b \<noteq> a \<longrightarrow> attached s' b = attached s b) \<and> (attached s' a = None \<longleftrightarrow> r < 0)"

lemma open_again:
  assumes i: "dfs_inv s" and f: "files s a = Some f" and a: "attached s a = None" and v: "vnodes s v = Some vn"
  defines "s1 \<equiv> upd_file a (\<lambda>f. f\<lparr> f_pos := 0, f_vnode := Some v \<rparr>) (upd_vnode v (\<lambda>x. x\<lparr> v_ref := v_ref x + 1 \<rparr>) s)"
  shows "dfs_inv s1" "same_fds s s1" "attached s1 = (attached s)(a := Some v)"
proof -
  show at: "attached s1 = (attached s)(a := Some v)" unfolding s1_def by (subst attached_set[where x = "Some v"]) (simp_all add: f)
  show fds: "same_fds s s1" unfolding s1_def by (rule same_fds_trans[OF _ same_fds_file]) simp_all
  have "vnode_inv s1"
    using vnode_inv_attach[of s v vn a s1 "vn\<lparr> v_ref := v_ref vn + 1 \<rparr>"] i v a fd_inv_finite[of s v] at
    by (simp add: dfs_inv_def s1_def upd_vnode_def)
  then show "dfs_inv s1" using i same_fds_inv[OF fds] by (simp add: dfs_inv_def)
qed

lemma open_first:
  assumes i: "dfs_inv s" and f: "files s a = Some f" and a: "attached s a = None" and v: "vnodes s v = None" and r: "v_ref vn = 1"
    and p: "\<And>w wn. vnodes s w = Some wn \<Longrightarrow> v_fullpath wn \<noteq> v_fullpath vn"
  defines "s1 \<equiv> insert_vnode v vn (upd_file a (\<lambda>f. f\<lparr> f_pos := 0, f_vnode := Some v \<rparr>) s)"
  shows "dfs_inv s1" "same_fds s s1" "attached s1 = (attached s)(a := Some v)" "openers s1 v = {a}"
proof -
  have "attached s1 = attached (upd_file a (\<lambda>f. f\<lparr> f_pos := 0, f_vnode := Some v \<rparr>) s)" by (simp add: s1_def)
  also have "\<dots> = (attached s)(a := Some v)" by (rule attached_set) (simp_all add: f)
  finally show at: "attached s1 = (attached s)(a := Some v)" .
  show fds: "same_fds s s1" unfolding s1_def same_fds_simps by (rule same_fds_file) simp
  have "vnode_inv s1" using vnode_inv_insert[of s v a vn s1] i v a p r at by (simp add: dfs_inv_def s1_def insert_vnode_def)
  then show "dfs_inv s1" using i same_fds_inv[OF fds] by (simp add: dfs_inv_def)
  show "openers s1 v = {a}" using no_openers[of s v] i v by (auto simp: openers_def at dfs_inv_def)
qed

lemma dfs_file_open_spec:
  assumes o: "dfs_file_open ops mem (Some a) path flags s = Some (r, s')" and i: "dfs_inv s" and f: "files s a = Some f"
    and a: "attached s a = None" and fresh: "\<And>v. mem_vnode mem = Some v \<Longrightarrow> vnodes s v = None"
    and ok: "0 \<le> r \<or> dfs_vnode_find (full_path (working_directory s) path) s = Some None"
  shows "opened a r s s'"
proof -
  let ?p = "full_path (working_directory s) path"
  have same: "opened a r s s'" if "s' = s" "r < 0" using that i a by (simp add: opened_def)
  show ?thesis
  proof (cases "mem_path mem")
    case False
    then have "s' = s" "r < 0" using o by (simp_all add: dfs_file_open_def ENOMEM_def)
    then show ?thesis by (rule same)
  next
    case True
    obtain x where x: "dfs_vnode_find ?p s = Some x" and xs: "\<forall>v. x = Some v \<longrightarrow> (\<exists>vn. vnodes s v = Some vn \<and> v_fullpath vn = ?p)"
        "x = None \<longrightarrow> (\<forall>w wn. vnodes s w = Some wn \<longrightarrow> v_fullpath wn \<noteq> ?p)"
      using find_vnode[of s ?p] i unfolding dfs_inv_def by blast
    show ?thesis
    proof (cases x)
      case (Some v)
      then have r: "0 \<le> r" using ok x by auto
      obtain vn where vn: "vnodes s v = Some vn" using xs Some by blast
      define s1 where "s1 = upd_file a (\<lambda>f. f\<lparr> f_pos := 0, f_vnode := Some v \<rparr>) (upd_vnode v (\<lambda>x. x\<lparr> v_ref := v_ref x + 1 \<rparr>) s)"
      note s1 = open_again[OF i f a vn, folded s1_def]
      have "open_vnode ops a flags s1 = Some (r, s')" using o True x Some by (simp add: dfs_file_open_def s1_def Let_def)
      then have "same_links s1 s'" using open_vnode_ok r by blast
      then show ?thesis using s1 r same_links_inv(1)[of s1 s'] same_fds_trans[of s s1 s'] by (simp add: opened_def same_links_def)
    next
      case None
      show ?thesis
      proof (cases "\<exists>j v fs. dfs_filesystem_lookup ?p s = Some j \<and> mem_vnode mem = Some v \<and> fs_at s j = Some fs
          \<and> fo_open (fops_of ops (new_vnode ops mem j fs ?p)) \<noteq> None")
        case False
        then have "s' = s" "r < 0" using o True x None
          by (auto simp: dfs_file_open_def Let_def errno_defs bind_eq_Some_conv split: option.splits if_split_asm)
        then show ?thesis by (rule same)
      next
        case True
        then obtain j v fs where e: "dfs_filesystem_lookup ?p s = Some j" "mem_vnode mem = Some v" "fs_at s j = Some fs"
          "fo_open (fops_of ops (new_vnode ops mem j fs ?p)) \<noteq> None" by blast
        let ?vn = "new_vnode ops mem j fs ?p"
        define s1 where "s1 = insert_vnode v ?vn (upd_file a (\<lambda>f. f\<lparr> f_pos := 0, f_vnode := Some v \<rparr>) s)"
        have n: "v_ref ?vn = 1" "v_fullpath ?vn = ?p" by (simp_all add: new_vnode_def)
        have new: "\<And>w wn. vnodes s w = Some wn \<Longrightarrow> v_fullpath wn \<noteq> v_fullpath ?vn" using xs(2) None n(2) by simp
        note s1 = open_first[OF i f a fresh[OF e(2)] n(1) new, folded s1_def]
        have "open_vnode ops a flags s1 = Some (r, s')"
          using o \<open>mem_path mem\<close> x None e by (simp add: dfs_file_open_def s1_def Let_def)
        then consider "0 \<le> r" "same_links s1 s'" | "r < 0" "dfs_inv s'" "same_fds s1 s'" "attached s' = (attached s1)(a := None)"
          using open_vnode_ok open_vnode_fail[of a flags s1 r s' v] s1 by force
        then show ?thesis
        proof cases
          case 1
          then show ?thesis using s1 same_links_inv(1)[of s1 s'] same_fds_trans[of s s1 s'] by (simp add: opened_def same_links_def)
        next
          case 2
          then show ?thesis using s1 same_fds_trans[of s s1 s'] by (simp add: opened_def)
        qed
      qed
    qed
  qed
qed

lemma dfs_file_close_spec:
  assumes i: "dfs_inv s" and f: "files s a = Some f" and a: "attached s a = Some v"
  shows "\<exists>r s'. dfs_file_close ops (Some a) s = Some (r, s') \<and> dfs_inv s' \<and> same_fds s s' \<and> (\<forall>b. b \<noteq> a \<longrightarrow> attached s' b = attached s b)
    \<and> (if f_ref f = 1 then \<forall>w. attached s' a = Some w \<longrightarrow> openers s' w \<noteq> {a} else attached s' a = attached s a)"
proof (cases "f_ref f = 1")
  case False
  then show ?thesis using i f by (simp add: dfs_file_close_def)
next
  case True
  obtain vn where vn: "vnode_of a s = Some (f, v, vn)" using vnode_of_attached[OF i a] f by (auto simp: vnode_of_conv)
  have pos: "\<not> v_ref vn \<le> 0" using ref_one(2)[OF i _ a, of vn] vn by (simp add: vnode_of_conv)
  obtain r s1 where d: "(case fo_close (fops_of ops vn) of None \<Rightarrow> Some (0, s) | Some call \<Rightarrow> driver call a s) = Some (r, s1)"
    using close_total[of "v_fops vn" _ f vn "data_of s (v_fs vn)"] vn
    by (cases "fo_close (fops_of ops vn)") (auto simp: driver_def fops_of_def bind_eq_Some_conv)
  have l: "same_links s s1" using d driver_calls_same(2) by (auto split: option.splits)
  have at1: "attached s1 = attached s" and i1: "dfs_inv s1" using l same_links_inv[OF l] i by (simp_all add: same_links_def)
  then obtain f1 vn1 where vn1: "files s1 a = Some f1" "vnodes s1 v = Some vn1"
    using vnode_of_attached[of s1 a v] a by (auto simp: vnode_of_conv)
  have c: "dfs_file_close ops (Some a) s = Some (r, if v_ref vn1 = 1 then remove_vnode v vn1 (upd_file a (\<lambda>f. f\<lparr> f_vnode := None \<rparr>) s1) else s1)"
    using f True vn pos d vn1(2) by (simp add: dfs_file_close_def)
  have one: "v_ref vn1 = 1 \<longleftrightarrow> openers s1 v = {a}" using ref_one(1)[OF i1 vn1(2)] at1 a by simp
  show ?thesis
  proof (cases "v_ref vn1 = 1")
    case no: False
    have "same_fds s s1" using l by (simp add: same_links_def)
    then show ?thesis using c no one i1 a True by (simp add: at1)
  next
    case yes: True
    define s2 where "s2 = remove_vnode v vn1 (upd_file a (\<lambda>f. f\<lparr> f_vnode := None \<rparr>) s1)"
    have "attached s2 = attached (upd_file a (\<lambda>f. f\<lparr> f_vnode := None \<rparr>) s1)" by (simp add: s2_def)
    also have "\<dots> = (attached s)(a := None)" by (subst attached_set[where x = None]) (simp_all add: vn1 at1)
    finally have at2: "attached s2 = (attached s)(a := None)" .
    have f12: "same_fds s1 s2" unfolding s2_def same_fds_simps by (rule same_fds_file) simp
    have "vnode_inv s2" using vnode_inv_remove[of s1 v vn1 a s2] i1 vn1(2) one yes at1 at2
      by (simp add: dfs_inv_def s2_def remove_vnode_def)
    then have "dfs_inv s2" using i1 same_fds_inv[OF f12] by (simp add: dfs_inv_def)
    moreover have "same_fds s s2" using l f12 same_fds_trans[of s s1 s2] by (simp add: same_links_def)
    ultimately show ?thesis using c yes True at2 by (simp add: s2_def[symmetric])
  qed
qed

text \<open>Closing and releasing a descriptor.\<close>

lemma closing_fd:
  assumes k: "dfs_ok s" and fd: "fd_slot fd s = Some a"
  shows "\<exists>r s1 s2. dfs_file_close ops (Some a) s = Some (r, s1) \<and> fdt_fd_release fd s1 = Some s2 \<and> dfs_ok s2
    \<and> fdtab s2 = (fdtab s)[nat fd := None]"
proof -
  have i: "dfs_inv s" and t: "settled s" using k by (auto simp: dfs_ok_def)
  have "nat fd < length (fdtab s)" "fdtab s ! nat fd = Some a" using fd by (auto simp: fd_slot_def split: if_splits)
  then have "Some a \<in> set (fdtab s)" by (metis nth_mem)
  then obtain f where f: "files s a = Some f" using i by (auto simp: dfs_inv_def fd_inv_def)
  then obtain v where v: "attached s a = Some v" using t by (auto simp: settled_def)
  have ref: "f_ref f = int (slots s a)" using i f by (auto simp: dfs_inv_def fd_inv_def)
  obtain r s1 where c: "dfs_file_close ops (Some a) s = Some (r, s1)" "dfs_inv s1" "same_fds s s1" "\<forall>b. b \<noteq> a \<longrightarrow> attached s1 b = attached s b"
    "if f_ref f = 1 then \<forall>w. attached s1 a = Some w \<longrightarrow> openers s1 w \<noteq> {a} else attached s1 a = attached s a"
    using dfs_file_close_spec[OF i f v] by blast
  note fds = same_fdsD[OF c(3)]
  have s1: "fd_slot fd s1 = Some a" "slots s1 a = 1 \<Longrightarrow> attached s1 a = Some w \<Longrightarrow> openers s1 w \<noteq> {a}" for w
    using fd fds ref c(5) by auto
  obtain s2 where s2: "fdt_fd_release fd s1 = Some s2" "dfs_inv s2" "fdtab s2 = (fdtab s1)[nat fd := None]"
    "\<forall>b. b \<noteq> a \<longrightarrow> files s2 b = files s1 b" "if slots s1 a = 1 then files s2 a = None else attached s2 = attached s1"
    using fdt_fd_release_spec[OF c(2) s1(1) s1(2)] by blast
  have "attached s2 b \<noteq> None" if "files s2 b \<noteq> None" for b
  proof (cases "b = a")
    case True
    then show ?thesis using that s2(5) c(5) v fds ref by (auto split: if_splits)
  next
    case False
    then have "files s2 b = files s1 b" "attached s1 b = attached s b" using s2(4) c(4) by auto
    then show ?thesis using that t fds by (simp add: settled_def attached_def)
  qed
  then show ?thesis using c(1) s2 fds by (auto simp: dfs_ok_def settled_def)
qed

text \<open>A descriptor that is new gets its file opened, or is released again.\<close>

lemma opening_fd:
  assumes k: "dfs_ok s" and n: "fdt_fd_new mt mf s = (Some fd, s1)" and g: "fdt_fd_get (int fd) s1 = Some d"
    and o: "dfs_file_open ops mem d path flags s1 = Some (r, s2)"
    and fresh: "\<And>a. mf = Some a \<Longrightarrow> files s a = None" "\<And>v. mem_vnode mem = Some v \<Longrightarrow> vnodes s v = None"
    and ok: "0 \<le> r \<or> dfs_vnode_find (full_path (working_directory s) path) s = Some None"
  shows "if r < 0 then \<exists>s3. fdt_fd_release (int fd) s2 = Some s3 \<and> dfs_ok s3 else dfs_ok s2 \<and> d \<noteq> None \<and> fd_slot (int fd) s2 = d"
proof -
  have i: "dfs_inv s" and t: "settled s" using k by (auto simp: dfs_ok_def)
  obtain a where a: "dfs_inv s1" "attached s1 = attached s" "vnodes s1 = vnodes s" "vnode_hash s1 = vnode_hash s"
    "working_directory s1 = working_directory s" "fd_slot (int fd) s1 = Some a" "files s1 = (files s)(a \<mapsto> fresh_file)" "attached s a = None"
    using fdt_fd_new_spec[OF i n fresh(1)] by auto
  have d: "d = Some a" using g a(6,7) by (simp add: fdt_fd_get_def)
  have "dfs_vnode_find p s1 = dfs_vnode_find p s" for p
    by (simp add: dfs_vnode_find_def a(4) find_loop_cong[OF a(3)])
  then have "opened a r s1 s2"
    using dfs_file_open_spec[OF o[unfolded d] a(1), of fresh_file] a fresh(2) ok by simp
  then have op: "dfs_inv s2" "same_fds s1 s2" "\<forall>b. b \<noteq> a \<longrightarrow> attached s2 b = attached s1 b" "attached s2 a = None \<longleftrightarrow> r < 0"
    by (auto simp: opened_def)
  note fds = same_fdsD[OF op(2)]
  have t2: "attached s2 b \<noteq> None" if "files s2 b \<noteq> None" "b \<noteq> a" for b
    using t op(3) a(2,7) fds that by (simp add: settled_def)
  show ?thesis
  proof (cases "r < 0")
    case True
    then have na: "attached s2 a = None" using op(4) by simp
    have "f_ref fresh_file = int (slots s1 a)" using a(1,7) by (simp add: dfs_inv_def fd_inv_def)
    then have one: "slots s2 a = 1" using fds by (simp add: fresh_file_def)
    obtain s3 where s3: "fdt_fd_release (int fd) s2 = Some s3" "dfs_inv s3" "\<forall>b. b \<noteq> a \<longrightarrow> files s3 b = files s2 b" "files s3 a = None"
      using fdt_fd_release_spec[OF op(1), of "int fd" a] a(6) fds na one by auto
    have "attached s3 b \<noteq> None" if "files s3 b \<noteq> None" for b
    proof -
      have "b \<noteq> a" using that s3(4) by auto
      then have "b \<noteq> a" "files s3 b = files s2 b" using s3(3) by auto
      then show ?thesis using t2[of b] that by (simp add: attached_def)
    qed
    then show ?thesis using s3(1,2) True by (auto simp: dfs_ok_def settled_def)
  next
    case False
    then have "attached s2 b \<noteq> None" if "files s2 b \<noteq> None" for b using t2[of b] op(4) that by auto
    then show ?thesis using False op(1) d fds a(6) by (simp add: dfs_ok_def settled_def)
  qed
qed

lemma no_descriptor:
  assumes k: "dfs_ok s" and n: "fdt_fd_new mt mf s = (None, s1)" and fresh: "\<And>a. mf = Some a \<Longrightarrow> files s a = None"
  shows "dfs_ok s1"
  using fdt_fd_new_spec[OF _ n fresh] k by (simp add: dfs_ok_def settled_def)

end

end
