(* ===== verification/DfsSteps.thy ===== *)
theory DfsSteps
  imports DfsLinks
begin

text \<open>
  Sequences of POSIX calls (\<open>dfs_posix.c\<close>) on any file systems that keep to the interface. A step is a call that returns, with new
  blocks from the allocator. Two kinds of calls are left out, for what they break is shown apart: an open that fails although
  the path is already open, and a \<open>dup2\<close> whose close of the old file fails. An \<open>openat\<close> is a step if it succeeds.
\<close>

definition fresh_memory :: "fd_memory \<Rightarrow> 'd dfs \<Rightarrow> bool" where
  "fresh_memory mem s \<longleftrightarrow> (\<forall>a. mem_file mem = Some a \<longrightarrow> files s a = None) \<and> (\<forall>v. mem_vnode mem = Some v \<longrightarrow> vnodes s v = None)"

definition not_open :: "fpath \<Rightarrow> 'd dfs \<Rightarrow> bool" where
  "not_open path s \<longleftrightarrow> dfs_vnode_find (full_path (working_directory s) path) s = Some None"

inductive fs_step :: "(nat \<Rightarrow> 'd dfs_filesystem_ops) \<Rightarrow> 'd dfs \<Rightarrow> 'd dfs \<Rightarrow> bool" for ops where
  "posix_open ops mem path flags s = Some (r, s') \<Longrightarrow> fresh_memory mem s \<Longrightarrow> 0 \<le> r \<or> not_open path s \<Longrightarrow> fs_step ops s s'"
| "posix_openat ops mem m dirfd path flags s = Some (r, s') \<Longrightarrow> fresh_memory mem s \<Longrightarrow> 0 \<le> r \<Longrightarrow> fs_step ops s s'"
| "posix_creat ops mem path s = Some (r, s') \<Longrightarrow> fresh_memory mem s \<Longrightarrow> 0 \<le> r \<or> not_open path s \<Longrightarrow> fs_step ops s s'"
| "posix_mkdir ops mem path s = Some (r, s') \<Longrightarrow> fresh_memory mem s \<Longrightarrow> 0 \<le> r \<or> not_open path s \<Longrightarrow> fs_step ops s s'"
| "posix_opendir ops mem m path s = Some (d, s') \<Longrightarrow> fresh_memory mem s \<Longrightarrow> d \<noteq> None \<or> not_open path s \<Longrightarrow> fs_step ops s s'"
| "posix_chdir ops mem m m' path s = Some (r, s') \<Longrightarrow> fresh_memory mem s \<Longrightarrow> 0 \<le> r \<or>
     (\<forall>p. path = Some p \<longrightarrow> not_open (full_path (working_directory s) p) s) \<Longrightarrow> fs_step ops s s'"
| "posix_close ops fd s = Some (r, s') \<Longrightarrow> fs_step ops s s'"
| "posix_closedir ops fd s = Some (r, s') \<Longrightarrow> fs_step ops s s'"
| "posix_read ops fd len s = Some (r, bs, s') \<Longrightarrow> fs_step ops s s'"
| "posix_write ops fd buf s = Some (r, s') \<Longrightarrow> fs_step ops s s'"
| "posix_lseek ops fd off w s = Some (r, s') \<Longrightarrow> fs_step ops s s'"
| "posix_fsync ops fd s = Some (r, s') \<Longrightarrow> fs_step ops s s'"
| "posix_fcntl ops fd cmd arg s = Some (r, s') \<Longrightarrow> fs_step ops s s'"
| "posix_ftruncate ops fd len s = Some (r, s') \<Longrightarrow> fs_step ops s s'"
| "fdt_fd_get fd s = Some d \<Longrightarrow> dfs_file_getdents ops d n s = Some (r, ds, s') \<Longrightarrow> fs_step ops s s'"
| "sys_dup m fd s = (r, s') \<Longrightarrow> fs_step ops s s'"
| "sys_dup2 ops m fd fd' s = Some (r, s') \<Longrightarrow> 0 \<le> r \<Longrightarrow> fs_step ops s s'"
| "posix_unlink ops m path s = Some (r, s') \<Longrightarrow> fs_step ops s s'"
| "posix_rename ops m m' path path' s = Some (r, s') \<Longrightarrow> fs_step ops s s'"
| "posix_stat ops m path s = Some (r, s') \<Longrightarrow> fs_step ops s s'"
| "posix_fstat ops m fd s = Some (r, s') \<Longrightarrow> fs_step ops s s'"

lemma dfs_ok_grow:
  assumes k: "dfs_ok s" and t: "fdt = fdtab s @ replicate k None" "length fdt \<le> DFS_FD_MAX"
  shows "dfs_ok (s\<lparr> fdtab := fdt \<rparr>)"
proof -
  have "fd_inv s" using k by (simp add: dfs_ok_def dfs_inv_def)
  then have "fd_inv (s\<lparr> fdtab := fdt \<rparr>)" by (rule fd_inv_grow[OF _ t])
  moreover have "vnode_inv (s\<lparr> fdtab := fdt \<rparr>) \<longleftrightarrow> vnode_inv s" by (rule vnode_inv_cong) simp_all
  moreover have "settled (s\<lparr> fdtab := fdt \<rparr>) \<longleftrightarrow> settled s" by (simp add: settled_def)
  ultimately show ?thesis using k by (simp add: dfs_ok_def dfs_inv_def)
qed

lemma dfs_ok_share:
  assumes k: "dfs_ok s" and t: "fdt = fdtab s @ replicate k None" "length fdt \<le> DFS_FD_MAX" "i < length fdt" "fdt ! i = None"
    and a: "files s a \<noteq> None"
  shows "dfs_ok (upd_file a (\<lambda>f. f\<lparr> f_ref := f_ref f + 1 \<rparr>) (s\<lparr> fdtab := fdt[i := Some a] \<rparr>))" (is "dfs_ok ?s")
proof -
  have at: "attached ?s = attached s" by (simp add: attached_keep)
  have "vnode_inv ?s \<longleftrightarrow> vnode_inv s" by (rule vnode_inv_cong) (simp_all only: at upd_file_simps, simp_all)
  moreover have "settled ?s" using k by (auto simp: dfs_ok_def settled_def at split: if_splits)
  moreover have "fd_inv ?s" using fd_inv_share[OF _ t a] k by (simp add: dfs_ok_def dfs_inv_def)
  ultimately show ?thesis using k by (simp add: dfs_ok_def dfs_inv_def)
qed

lemma fd_slot_file:
  assumes k: "dfs_ok s" and fd: "fd_slot fd s = Some a"
  shows "files s a \<noteq> None" "Some a \<in> set (fdtab s)" "nat fd < length (fdtab s)" "fdtab s ! nat fd = Some a"
proof -
  show m: "nat fd < length (fdtab s)" "fdtab s ! nat fd = Some a" using fd by (auto simp: fd_slot_def split: if_splits)
  then show n: "Some a \<in> set (fdtab s)" by (metis nth_mem)
  show "files s a \<noteq> None" using k n unfolding dfs_ok_def dfs_inv_def fd_inv_def by blast
qed

lemma fd_slot_expand_spec:
  assumes "fd_slot_expand m i fdt = (j, fdt')" and "length fdt \<le> DFS_FD_MAX"
  shows "\<exists>n. fdt' = fdt @ replicate n None \<and> length fdt' \<le> DFS_FD_MAX \<and> (j \<noteq> None \<longrightarrow> i < length fdt')"
proof (cases "i < length fdt \<or> i \<ge> DFS_FD_MAX \<or> \<not> m")
  case True
  then show ?thesis using assms by (auto simp: fd_slot_expand_eq split: if_splits intro: exI[of _ 0])
next
  case False
  let ?nr = "min ((i + 4) div 4 * 4) DFS_FD_MAX"
  have "i < ?nr" using False by auto
  then show ?thesis using assms False by (auto simp: fd_slot_expand_eq intro!: exI[of _ "?nr - length fdt"])
qed

lemma sys_dup_ok:
  assumes k: "dfs_ok s" and d: "sys_dup m fd s = (r, s')"
  shows "dfs_ok s'"
proof (cases "fd_slot fd s")
  case None
  then show ?thesis using d k by (simp add: sys_dup_def)
next
  case (Some a)
  obtain j fdt where al: "fd_slot_alloc m DFS_STDIO_OFFSET (fdtab s) = (j, fdt)" by fastforce
  obtain n where n: "fdt = fdtab s @ replicate n None" "length fdt \<le> DFS_FD_MAX" "\<forall>i. j = Some i \<longrightarrow> i < length fdt \<and> fdt ! i = None"
    using fd_slot_alloc_spec[OF al] k by (auto simp: dfs_ok_def dfs_inv_def fd_inv_def)
  show ?thesis using d Some al dfs_ok_grow[OF k n(1,2)] dfs_ok_share[OF k n(1,2) _ _ fd_slot_file(1)[OF k Some]] n(3)
    by (auto simp: sys_dup_def split: option.split_asm)
qed

context file_systems begin

lemma posix_open_ok:
  assumes k: "dfs_ok s" and o: "posix_open ops mem path flags s = Some (r, s')" and m: "fresh_memory mem s"
    and ok: "0 \<le> r \<or> not_open path s"
  shows "dfs_ok s'"
proof (cases "fdt_fd_new (mem_table mem) (mem_file mem) s")
  case (Pair fd s1)
  have fresh: "\<And>a. mem_file mem = Some a \<Longrightarrow> files s a = None" "\<And>v. mem_vnode (open_memory.truncate mem) = Some v \<Longrightarrow> vnodes s v = None"
    using m by (auto simp: fresh_memory_def open_memory.truncate_def)
  show ?thesis
  proof (cases fd)
    case None
    then show ?thesis using o Pair no_descriptor[OF k _ fresh(1)] by (auto simp: posix_open_def fail_def)
  next
    case (Some i)
    obtain d q s2 where e: "fdt_fd_get (int i) s1 = Some d" "dfs_file_open ops (open_memory.truncate mem) d path flags s1 = Some (q, s2)"
      using o Pair Some by (auto simp: posix_open_def bind_eq_Some_conv split: if_split_asm)
    then have "0 \<le> q \<or> dfs_vnode_find (full_path (working_directory s) path) s = Some None"
      using o Pair Some ok by (auto simp: posix_open_def bind_eq_Some_conv not_open_def fail_def split: if_split_asm)
    from opening_fd[OF k _ e fresh this, of "mem_table mem"] show ?thesis using o Pair Some e
      by (auto simp: posix_open_def bind_eq_Some_conv fail_def split: if_split_asm)
  qed
qed

lemma posix_close_ok:
  assumes "dfs_ok s"
  shows "\<exists>r s'. posix_close ops fd s = Some (r, s') \<and> dfs_ok s'" and "\<exists>r s'. posix_closedir ops fd s = Some (r, s') \<and> dfs_ok s'"
proof -
  have "\<exists>r s'. posix_close ops fd s = Some (r, s') \<and> dfs_ok s' \<and> posix_closedir ops fd s = Some (r, s')"
  proof (cases "fd_slot fd s")
    case None
    then show ?thesis using assms by (simp add: posix_close_def posix_closedir_def fdt_fd_get_def fail_def)
  next
    case (Some a)
    then show ?thesis using closing_fd[OF assms Some] fd_slot_file(1)[OF assms Some]
      by (auto simp: posix_close_def posix_closedir_def fdt_fd_get_def fail_def)
  qed
  then show "\<exists>r s'. posix_close ops fd s = Some (r, s') \<and> dfs_ok s'" "\<exists>r s'. posix_closedir ops fd s = Some (r, s') \<and> dfs_ok s'" by blast+
qed

lemma posix_opendir_ok:
  assumes k: "dfs_ok s" and o: "posix_opendir ops mem md path s = Some (x, s')" and m: "fresh_memory mem s"
    and ok: "x \<noteq> None \<or> not_open path s"
  shows "dfs_ok s'"
proof (cases "fdt_fd_new (mem_table mem) (mem_file mem) s")
  case (Pair fd s1)
  have fresh: "\<And>a. mem_file mem = Some a \<Longrightarrow> files s a = None" "\<And>v. mem_vnode (open_memory.truncate mem) = Some v \<Longrightarrow> vnodes s v = None"
    using m by (auto simp: fresh_memory_def open_memory.truncate_def)
  show ?thesis
  proof (cases fd)
    case None
    then show ?thesis using o Pair no_descriptor[OF k _ fresh(1)] by (auto simp: posix_opendir_def)
  next
    case (Some i)
    obtain d q s2 where e: "fdt_fd_get (int i) s1 = Some d" "dfs_file_open ops (open_memory.truncate mem) d path O_DIRECTORY s1 = Some (q, s2)"
      using o Pair Some by (auto simp: posix_opendir_def bind_eq_Some_conv split: if_split_asm)
    then have "0 \<le> q \<or> dfs_vnode_find (full_path (working_directory s) path) s = Some None"
      using o Pair Some ok by (auto simp: posix_opendir_def bind_eq_Some_conv not_open_def split: if_split_asm)
    note op = opening_fd[OF k _ e fresh this, of "mem_table mem"]
    show ?thesis
    proof (cases "q \<ge> 0 \<and> \<not> md")
      case True
      then obtain a where a: "dfs_ok s2" "d = Some a" "fd_slot (int i) s2 = Some a" using op Pair Some by auto
      show ?thesis using o Pair Some e True closing_fd[OF a(1,3)] by (auto simp: posix_opendir_def bind_eq_Some_conv a(2))
    next
      case False
      then show ?thesis using o op Pair Some e by (auto simp: posix_opendir_def bind_eq_Some_conv split: if_split_asm)
    qed
  qed
qed

lemma posix_mkdir_ok:
  assumes k: "dfs_ok s" and o: "posix_mkdir ops mem path s = Some (r, s')" and m: "fresh_memory mem s"
    and ok: "0 \<le> r \<or> not_open path s"
  shows "dfs_ok s'"
proof (cases "fdt_fd_new (mem_table mem) (mem_file mem) s")
  case (Pair fd s1)
  have fresh: "\<And>a. mem_file mem = Some a \<Longrightarrow> files s a = None" "\<And>v. mem_vnode (open_memory.truncate mem) = Some v \<Longrightarrow> vnodes s v = None"
    using m by (auto simp: fresh_memory_def open_memory.truncate_def)
  show ?thesis
  proof (cases fd)
    case None
    then show ?thesis using o Pair no_descriptor[OF k _ fresh(1)] by (auto simp: posix_mkdir_def fail_def)
  next
    case (Some i)
    obtain d q s2 where e: "fdt_fd_get (int i) s1 = Some d"
        "dfs_file_open ops (open_memory.truncate mem) d path (O_DIRECTORY OR O_CREAT) s1 = Some (q, s2)"
      using o Pair Some by (auto simp: posix_mkdir_def bind_eq_Some_conv split: if_split_asm)
    then have "0 \<le> q \<or> dfs_vnode_find (full_path (working_directory s) path) s = Some None"
      using o Pair Some ok by (auto simp: posix_mkdir_def bind_eq_Some_conv not_open_def fail_def split: if_split_asm)
    note op = opening_fd[OF k _ e fresh this, of "mem_table mem"]
    show ?thesis
    proof (cases "q < 0")
      case False
      then obtain a where a: "dfs_ok s2" "d = Some a" "fd_slot (int i) s2 = Some a" using op Pair Some by auto
      show ?thesis using o Pair Some e False closing_fd[OF a(1,3)] by (auto simp: posix_mkdir_def bind_eq_Some_conv a(2))
    next
      case True
      then show ?thesis using o op Pair Some e by (auto simp: posix_mkdir_def bind_eq_Some_conv fail_def split: if_split_asm)
    qed
  qed
qed

lemma posix_openat_ok:
  assumes k: "dfs_ok s" and o: "posix_openat ops mem md dirfd path flags s = Some (r, s')" and m: "fresh_memory mem s" and "0 \<le> r"
  shows "dfs_ok s'"
proof -
  have "\<exists>p. posix_open ops mem p flags s = Some (r, s')" using o \<open>0 \<le> r\<close>
    by (auto simp: posix_openat_def fail_def bind_eq_Some_conv split: option.split_asm if_split_asm)
  then show ?thesis using posix_open_ok[OF k _ m] \<open>0 \<le> r\<close> by blast
qed

lemma posix_chdir_ok:
  assumes k: "dfs_ok s" and o: "posix_chdir ops mem mf md path s = Some (r, s')" and m: "fresh_memory mem s"
    and ok: "0 \<le> r \<or> (\<forall>p. path = Some p \<longrightarrow> not_open (full_path (working_directory s) p) s)"
  shows "dfs_ok s'"
proof (cases "path = None \<or> length (the path) > DFS_PATH_MAX \<or> \<not> mf")
  case True
  then show ?thesis using o k by (auto simp: posix_chdir_def fail_def split: option.split_asm if_split_asm)
next
  case False
  then obtain p where p: "path = Some p" by auto
  obtain d s1 where d: "posix_opendir ops mem md (full_path (working_directory s) p) s = Some (d, s1)"
    using o False p by (auto simp: posix_chdir_def Let_def bind_eq_Some_conv)
  then have "d \<noteq> None \<or> not_open (full_path (working_directory s) p) s" using o False p ok by (cases d) (auto simp: posix_chdir_def Let_def)
  from posix_opendir_ok[OF k d m this] have s1: "dfs_ok s1" .
  show ?thesis
  proof (cases d)
    case None
    then show ?thesis using o False p d s1 by (auto simp: posix_chdir_def Let_def)
  next
    case (Some a)
    obtain q s2 where "posix_closedir ops a s1 = Some (q, s2)" "dfs_ok s2" using posix_close_ok(2)[OF s1] by blast
    then show ?thesis using o False p d Some by (auto simp: posix_chdir_def Let_def split: if_split_asm)
  qed
qed

lemma sys_dup2_ok:
  assumes k: "dfs_ok s" and d: "sys_dup2 ops m fd fd' s = Some (r, s')" and r: "0 \<le> r"
  shows "dfs_ok s'"
proof -
  obtain a where a: "fd_slot fd s = Some a" "\<not> fd' < 0" using d r by (auto simp: sys_dup2_def split: option.split_asm if_split_asm)
  obtain j fdt where x: "fd_slot_expand m (nat fd') (fdtab s) = (j, fdt)" by fastforce
  then have j: "j \<noteq> None" using d a r by (cases j) (auto simp: sys_dup2_def)
  have "length (fdtab s) \<le> DFS_FD_MAX" using k by (simp add: dfs_ok_def dfs_inv_def fd_inv_def)
  from fd_slot_expand_spec[OF x this] j obtain n where n: "fdt = fdtab s @ replicate n None" "length fdt \<le> DFS_FD_MAX" "nat fd' < length fdt"
    by blast
  note af = fd_slot_file[OF k a(1)]
  let ?s = "s\<lparr> fdtab := fdt \<rparr>"
  have ks: "dfs_ok ?s" by (rule dfs_ok_grow[OF k n(1,2)])
  show ?thesis
  proof (cases "fdt ! nat fd'")
    case None
    then show ?thesis using d a x j dfs_ok_share[OF k n None af(1)] by (auto simp: sys_dup2_def)
  next
    case (Some b)
    show ?thesis
    proof (cases "b = a")
      case True
      then show ?thesis using d a x j Some ks by (auto simp: sys_dup2_def)
    next
      case False
      have "fd_slot fd' ?s = Some b" using a(2) n(3) Some by (simp add: fd_slot_def)
      from closing_fd[OF ks this] obtain q s1 s2 where c: "dfs_file_close ops (Some b) ?s = Some (q, s1)" "fdt_fd_release fd' s1 = Some s2"
        "dfs_ok s2" "fdtab s2 = fdt[nat fd' := None]" by auto
      have "fdt ! nat fd = Some a" using af(3,4) n(1) by (simp add: nth_append)
      moreover have "nat fd \<noteq> nat fd'" using calculation Some False by auto
      ultimately have "fdtab s2 ! nat fd = Some a" "nat fd < length (fdtab s2)" using af(3) n(1) by (simp_all add: c(4))
      then have "Some a \<in> set (fdtab s2)" by (metis nth_mem)
      then have fa: "files s2 a \<noteq> None" using c(3) unfolding dfs_ok_def dfs_inv_def fd_inv_def by blast
      have "dfs_ok (upd_file a (\<lambda>f. f\<lparr> f_ref := f_ref f + 1 \<rparr>) (s2\<lparr> fdtab := (fdtab s2)[nat fd' := Some a] \<rparr>))"
        by (rule dfs_ok_share[OF c(3) _ _ _ _ fa, of _ 0]) (use n c(4) in auto)
      then show ?thesis using d a x j Some False c(1,2) r by (auto simp: sys_dup2_def split: if_split_asm)
    qed
  qed
qed

text \<open>The calls on a descriptor change neither the descriptors nor the vnodes.\<close>

lemma same_links_ok: "dfs_ok s \<Longrightarrow> same_links s s' \<Longrightarrow> dfs_ok s'"
  using same_links_inv(3) by blast

lemma posix_lseek_cases:
  assumes l: "posix_lseek ops fd off w s = Some (r, s')" and k: "dfs_ok s"
    and c: "\<And>d n q t. dfs_file_lseek ops d n s = Some (q, t) \<Longrightarrow> dfs_ok t"
  shows "dfs_ok s'"
proof -
  obtain d where d: "fdt_fd_get fd s = Some d" using l by (auto simp: posix_lseek_def bind_eq_Some_conv)
  show ?thesis
  proof (cases d)
    case None
    then show ?thesis using l d k by (auto simp: posix_lseek_def fail_def)
  next
    case (Some a)
    obtain f where f: "files s a = Some f" using l d Some by (auto simp: posix_lseek_def bind_eq_Some_conv)
    show ?thesis
    proof (cases "w = SEEK_OTHER")
      case True
      then show ?thesis using l d Some f k by (auto simp: posix_lseek_def fail_def)
    next
      case False
      then obtain n where "(if sint n < 0 then Some (fail (- EINVAL) s)
          else do { (result, s) \<leftarrow> dfs_file_lseek ops d n s; Some (if result < 0 then fail result s else (sint n, s)) }) = Some (r, s')"
        using l d Some f by (simp add: posix_lseek_def) (erule bind_eq_Some_conv[THEN iffD1, THEN exE], blast)
      then show ?thesis using k c by (auto simp: fail_def bind_eq_Some_conv split: if_split_asm)
    qed
  qed
qed

lemma posix_calls_ok:
  assumes "dfs_ok s"
  shows "posix_read ops fd len s = Some (r, bs, s') \<Longrightarrow> dfs_ok s'"
    and "posix_write ops fd buf s = Some (r, s') \<Longrightarrow> dfs_ok s'"
    and "posix_lseek ops fd off w s = Some (r, s') \<Longrightarrow> dfs_ok s'"
    and "posix_fsync ops fd s = Some (r, s') \<Longrightarrow> dfs_ok s'"
    and "posix_fcntl ops fd cmd arg s = Some (r, s') \<Longrightarrow> dfs_ok s'"
    and "posix_ftruncate ops fd len s = Some (r, s') \<Longrightarrow> dfs_ok s'"
    and "dfs_file_getdents ops d n s = Some (r, ds, s') \<Longrightarrow> dfs_ok s'"
proof -
  note calls = file_calls_same[THEN same_links_ok[OF assms]] and reads = file_read_same[THEN same_links_ok[OF assms]]
  show "posix_read ops fd len s = Some (r, bs, s') \<Longrightarrow> dfs_ok s'"
    using assms reads(1) by (force simp: posix_read_def bind_eq_Some_conv split: if_split_asm)
  show "posix_write ops fd buf s = Some (r, s') \<Longrightarrow> dfs_ok s'"
    using assms calls(2) by (force simp: posix_write_def bind_eq_Some_conv fail_def outcome_def split: if_split_asm)
  show "posix_lseek ops fd off w s = Some (r, s') \<Longrightarrow> dfs_ok s'"
    by (rule posix_lseek_cases[OF _ assms calls(4)])
  show "posix_fsync ops fd s = Some (r, s') \<Longrightarrow> dfs_ok s'"
    using assms calls(3) by (force simp: posix_fsync_def bind_eq_Some_conv fail_def split: if_split_asm)
  show "posix_fcntl ops fd cmd arg s = Some (r, s') \<Longrightarrow> dfs_ok s'"
    using assms by (auto simp: posix_fcntl_def bind_eq_Some_conv fail_def outcome_def dest: calls(1) split: if_split_asm)
  show "posix_ftruncate ops fd len s = Some (r, s') \<Longrightarrow> dfs_ok s'"
    using assms by (auto simp: posix_ftruncate_def bind_eq_Some_conv fail_def dest: calls(5) split: if_split_asm)
  show "dfs_file_getdents ops d n s = Some (r, ds, s') \<Longrightarrow> dfs_ok s'" by (rule reads(2))
qed

lemma path_calls_ok:
  assumes "dfs_ok s"
  shows "posix_unlink ops m path s = Some (r, s') \<Longrightarrow> dfs_ok s'"
    and "posix_rename ops m m' path path' s = Some (r, s') \<Longrightarrow> dfs_ok s'"
    and "posix_stat ops m path s = Some (x, s') \<Longrightarrow> dfs_ok s'"
    and "posix_fstat ops m fd s = Some (x, s') \<Longrightarrow> dfs_ok s'"
proof -
  show st: "posix_stat ops m path s = Some (x, s') \<Longrightarrow> dfs_ok s'" for path
    using assms by (auto simp: posix_stat_def bind_eq_Some_conv split: if_split_asm)
  show "posix_fstat ops m fd s = Some (x, s') \<Longrightarrow> dfs_ok s'"
    using assms st by (auto simp: posix_fstat_def bind_eq_Some_conv split: option.split_asm)
qed (use assms in \<open>auto simp: posix_unlink_def posix_rename_def fail_def split: if_split_asm\<close>)

lemma fs_step_ok: "fs_step ops s s' \<Longrightarrow> dfs_ok s \<Longrightarrow> dfs_ok s'"
proof (induction rule: fs_step.induct)
  case 1 then show ?case by (blast intro: posix_open_ok)
next
  case 2 then show ?case by (blast intro: posix_openat_ok)
next
  case 3 then show ?case by (auto simp: posix_creat_def intro: posix_open_ok)
next
  case 4 then show ?case by (blast intro: posix_mkdir_ok)
next
  case 5 then show ?case by (blast intro: posix_opendir_ok)
next
  case 6 then show ?case by (blast intro: posix_chdir_ok)
next
  case (7 fd s r s')
  then show ?case using posix_close_ok(1)[of s fd] by auto
next
  case (8 fd s r s')
  then show ?case using posix_close_ok(2)[of s fd] by auto
next
  case 16 then show ?case by (blast intro: sys_dup_ok)
next
  case 17 then show ?case by (blast intro: sys_dup2_ok)
qed (blast intro: posix_calls_ok path_calls_ok)+

lemma fs_steps_ok: "(fs_step ops)\<^sup>*\<^sup>* s s' \<Longrightarrow> dfs_ok s \<Longrightarrow> dfs_ok s'"
  by (induction rule: rtranclp_induct) (auto intro: fs_step_ok)

end

end
