(* ===== verification/RomFs.thy ===== *)
theory RomFs
  imports DfsSteps
begin

text \<open>
  The read-only file system (\<open>rt-thread/components/dfs/dfs_v1/filesystems/romfs\<close>), which this firmware mounts as its root. Its
  directory is a constant tree of entries; \<open>dfs_romfs_lookup\<close> walks along a path through it. The driver is plugged into the
  layer of files, so that whole sequences of opening, reading and closing are run.
\<close>

section \<open>Entries\<close>

definition ROMFS_DIRENT_FILE :: u32 where "ROMFS_DIRENT_FILE = 0"
definition ROMFS_DIRENT_DIR :: u32 where "ROMFS_DIRENT_DIR = 1"

datatype romfs_dirent = Romfs (r_type: u32) (r_name: fpath) (r_data: romfs_data) (r_size: u32)
  and romfs_data = RNull | RBytes "byte list" | REntries "romfs_dirent list"

definition check_dirent :: "romfs_dirent \<Rightarrow> int" where
  "check_dirent dirent =
    (if (r_type dirent \<noteq> ROMFS_DIRENT_FILE \<and> r_type dirent \<noteq> ROMFS_DIRENT_DIR) \<or> r_size dirent = NOT 0 then - 1 else 0)"

text \<open>The search in a folder; an array that is shorter than its size has no result behind its end.\<close>

datatype search_result = Entry romfs_dirent | NoEntry | BadEntry

fun search_folder :: "romfs_dirent list \<Rightarrow> nat \<Rightarrow> fpath \<Rightarrow> search_result option" where
  "search_folder es 0 name = Some NoEntry"
| "search_folder [] (Suc n) name = None"
| "search_folder (e # es) (Suc n) name =
    (if check_dirent e \<noteq> 0 then Some BadEntry else if r_name e = name then Some (Entry e) else search_folder es n name)"

text \<open>The loop over the parts of the path: \<open>subpath\<close> is the part that is looked for, \<open>rest\<close> what follows it. The answer is the entry,
  with its size if that has been stored.\<close>

function romfs_walk :: "romfs_data \<Rightarrow> u32 \<Rightarrow> fpath \<Rightarrow> fpath \<Rightarrow> (romfs_dirent \<times> u32 option) option option" where
  "romfs_walk d sz subpath rest =
    (case d of RNull \<Rightarrow> Some None
     | RBytes _ \<Rightarrow> None
     | REntries es \<Rightarrow>
        (case search_folder es (unat sz) subpath of
           None \<Rightarrow> None
         | Some NoEntry \<Rightarrow> Some None
         | Some BadEntry \<Rightarrow> Some None
         | Some (Entry e) \<Rightarrow>
             let rest = dropWhile ((=) SLASH) rest;
                 subpath = takeWhile (\<lambda>c. c \<noteq> SLASH) rest
             in if subpath = [] then Some (Some (e, Some (r_size e)))
                else if r_type e = ROMFS_DIRENT_DIR then romfs_walk (r_data e) (r_size e) subpath (dropWhile (\<lambda>c. c \<noteq> SLASH) rest)
                else Some (Some (e, None))))"
  by auto
termination
proof (relation "measure (\<lambda>(d, sz, sub, rest). length rest)", goal_cases)
  case prems: (2 d sz subpath rest es r e rest' sub')
  then have "takeWhile (\<lambda>c. c \<noteq> SLASH) rest' \<noteq> []" by simp
  then obtain c cs where "rest' = c # cs" "c \<noteq> SLASH" by (cases rest') (auto split: if_splits)
  then have "length (dropWhile (\<lambda>c. c \<noteq> SLASH) rest') < length rest'"
    using length_dropWhile_le[of "\<lambda>c. c \<noteq> SLASH" cs] by simp
  then show ?case using prems length_dropWhile_le[of "(=) SLASH" rest] by simp
qed simp

declare romfs_walk.simps [simp del]

definition dfs_romfs_lookup :: "romfs_dirent \<Rightarrow> fpath \<Rightarrow> (romfs_dirent \<times> u32 option) option option" where
  "dfs_romfs_lookup root path =
    (if check_dirent root \<noteq> 0 then Some None
     else if path = [SLASH] then Some (Some (root, Some (r_size root)))
     else let path = dropWhile ((=) SLASH) path
       in romfs_walk (r_data root) (r_size root) (takeWhile (\<lambda>c. c \<noteq> SLASH) path) (dropWhile (\<lambda>c. c \<noteq> SLASH) path))"

section \<open>The driver\<close>

definition dfs_romfs_mount :: "u32 \<Rightarrow> romfs_dirent option \<Rightarrow> fpath \<Rightarrow> int \<times> romfs_dirent option" where
  "dfs_romfs_mount rwflag data fstype = (case data of None \<Rightarrow> (- EIO, None) | Some root \<Rightarrow> (RT_EOK, Some root))"

definition dfs_romfs_unmount :: "romfs_dirent option \<Rightarrow> int" where
  "dfs_romfs_unmount priv = RT_EOK"

definition RT_FIOGETADDR :: int where "RT_FIOGETADDR = 0x52540001"

definition dfs_romfs_ioctl :: "int \<Rightarrow> u32 \<Rightarrow> romfs_dirent driver_call" where
  "dfs_romfs_ioctl cmd args f vn root =
    (if cmd = RT_FIOGETADDR then (if v_data vn = None then None else Some (RT_EOK, f, vn))
     else if cmd = RT_FIOFTRUNCATE then Some (RT_EOK, f, vn) else Some (- RT_EINVAL, f, vn))"

definition dfs_romfs_read ::
  "u32 \<Rightarrow> dfs_file \<Rightarrow> romfs_dirent vnode \<Rightarrow> romfs_dirent option \<Rightarrow> (int \<times> byte list \<times> dfs_file \<times> romfs_dirent vnode) option" where
  "dfs_romfs_read n f vn root = do {
     dirent \<leftarrow> v_data vn;
     (if check_dirent dirent \<noteq> 0 then Some (- EIO, [], f, vn)
      else let len = (if n < v_size vn - f_pos f then n else v_size vn - f_pos f)
        in if len = 0 then Some (0, [], f, vn)
           else case r_data dirent of
             RBytes bs \<Rightarrow>
               if unat (f_pos f) + unat len \<le> length bs
               then Some (sint len, take (unat len) (drop (unat (f_pos f)) bs), f\<lparr> f_pos := f_pos f + len \<rparr>, vn) else None
           | _ \<Rightarrow> None)
   }"

definition dfs_romfs_lseek :: "u32 \<Rightarrow> romfs_dirent driver_call" where
  "dfs_romfs_lseek offset f vn root =
    Some (if offset \<le> v_size vn then (sint offset, f\<lparr> f_pos := offset \<rparr>, vn) else (- EIO, f, vn))"

definition dfs_romfs_close :: "romfs_dirent driver_call" where
  "dfs_romfs_close f vn root = Some (if v_ref vn > 1 then (RT_EOK, f, vn) else (RT_EOK, f, vn\<lparr> v_data := None \<rparr>))"

definition write_flags :: u32 where
  "write_flags = O_CREAT OR O_WRONLY OR O_APPEND OR O_TRUNC OR O_RDWR"

text \<open>\<open>junk\<close> is what the local variable \<open>size\<close> holds before it is assigned.\<close>

definition dfs_romfs_open :: "u32 \<Rightarrow> romfs_dirent driver_call" where
  "dfs_romfs_open junk f vn root =
    (if f_flags f AND write_flags \<noteq> 0 then Some (- EINVAL, f, vn)
     else if v_ref vn > 1 then
       Some (if v_type vn = FT_DIRECTORY \<and> f_flags f AND O_DIRECTORY = 0 then (- ENOENT, f, vn) else (0, f\<lparr> f_pos := 0 \<rparr>, vn))
     else do {
       root \<leftarrow> root;
       (if check_dirent root \<noteq> 0 then Some (- EIO, f, vn)
        else do {
          path \<leftarrow> v_path vn;
          r \<leftarrow> dfs_romfs_lookup root path;
          Some (case r of None \<Rightarrow> (- ENOENT, f, vn)
            | Some (dirent, sz) \<Rightarrow>
                if (r_type dirent = ROMFS_DIRENT_DIR) \<noteq> (f_flags f AND O_DIRECTORY \<noteq> 0) then (- ENOENT, f, vn)
                else (RT_EOK, f\<lparr> f_pos := 0 \<rparr>,
                  vn\<lparr> v_type := (if r_type dirent = ROMFS_DIRENT_DIR then FT_DIRECTORY else FT_REGULAR),
                     v_data := Some dirent, v_size := (case sz of None \<Rightarrow> junk | Some n \<Rightarrow> n) \<rparr>))
        })
     })"

definition dfs_romfs_stat :: "romfs_dirent option \<Rightarrow> fpath \<Rightarrow> (int \<times> stat option) option" where
  "dfs_romfs_stat root path = do {
     root \<leftarrow> root;
     r \<leftarrow> dfs_romfs_lookup root path;
     Some (case r of None \<Rightarrow> (- ENOENT, None)
       | Some (dirent, _) \<Rightarrow> (RT_EOK, Some \<lparr> st_is_dir = (r_type dirent = ROMFS_DIRENT_DIR), st_size = r_size dirent \<rparr>))
   }"

definition DIRENT_NAME_MAX :: nat where "DIRENT_NAME_MAX = 256"

text \<open>The size of a directory entry: a byte, a byte, two bytes and the name.\<close>

definition DIRENT_SIZE :: nat where "DIRENT_SIZE = 4 + DIRENT_NAME_MAX"

fun getdents_loop :: "romfs_dirent list \<Rightarrow> u32 \<Rightarrow> nat \<Rightarrow> u32 \<Rightarrow> (dirent list \<times> u32) option" where
  "getdents_loop es sz 0 pos = Some ([], pos)"
| "getdents_loop es sz (Suc n) pos =
    (if pos < sz then
       if unat pos < length es then do {
         let e = es ! unat pos;
         (ds, pos) \<leftarrow> getdents_loop es sz n (pos + 1);
         Some (Dirent (r_type e = ROMFS_DIRENT_DIR) (take DIRENT_NAME_MAX (r_name e)) # ds, pos)
       } else None
     else Some ([], pos))"

definition dfs_romfs_getdents ::
  "nat \<Rightarrow> dfs_file \<Rightarrow> romfs_dirent vnode \<Rightarrow> romfs_dirent option \<Rightarrow> (int \<times> dirent list \<times> dfs_file \<times> romfs_dirent vnode) option" where
  "dfs_romfs_getdents n f vn root = do {
     dirent \<leftarrow> v_data vn;
     (if check_dirent dirent \<noteq> 0 then Some (- EIO, [], f, vn)
      else if n div DIRENT_SIZE = 0 then Some (- EINVAL, [], f, vn)
      else case r_data dirent of
        REntries es \<Rightarrow> do {
          (ds, pos) \<leftarrow> getdents_loop es (v_size vn) (n div DIRENT_SIZE) (f_pos f);
          Some (int (length ds * DIRENT_SIZE), ds, f\<lparr> f_pos := pos \<rparr>, vn)
        }
      | _ \<Rightarrow> if f_pos f < v_size vn then None else Some (0, [], f, vn))
   }"

definition rom_fops :: "u32 \<Rightarrow> romfs_dirent dfs_file_ops" where
  "rom_fops junk = \<lparr> fo_open = Some (dfs_romfs_open junk), fo_close = Some dfs_romfs_close, fo_ioctl = Some dfs_romfs_ioctl,
     fo_read = Some dfs_romfs_read, fo_write = None, fo_flush = None, fo_lseek = Some dfs_romfs_lseek,
     fo_getdents = Some dfs_romfs_getdents \<rparr>"

definition romfs :: "u32 \<Rightarrow> romfs_dirent dfs_filesystem_ops" where
  "romfs junk = \<lparr> op_name = map of_char ''rom'', op_flags = 0, op_fops = rom_fops junk, op_mount = Some dfs_romfs_mount,
     op_unmount = Some dfs_romfs_unmount, op_mkfs = None, op_statfs = None, op_unlink = None, op_stat = Some dfs_romfs_stat,
     op_rename = None \<rparr>"

section \<open>The tree\<close>

text \<open>The reference: the entry that the names of a path lead to. The flag is false if the path goes on behind a file.\<close>

fun rom_target :: "romfs_dirent \<Rightarrow> fpath list \<Rightarrow> (romfs_dirent \<times> bool) option" where
  "rom_target e [] = Some (e, True)"
| "rom_target (Romfs t n d sz) (w # ws) =
    (if t \<noteq> ROMFS_DIRENT_DIR then Some (Romfs t n d sz, False)
     else case d of REntries es \<Rightarrow> (case find (\<lambda>e. r_name e = w) es of None \<Rightarrow> None | Some e \<Rightarrow> rom_target e ws) | _ \<Rightarrow> None)"

text \<open>A tree as \<open>mkromfs.py\<close> builds it: sizes are right, and types fit the data.\<close>

fun rom_ok :: "romfs_dirent \<Rightarrow> bool" where
  "rom_ok (Romfs t n d sz) \<longleftrightarrow> sz \<noteq> NOT 0 \<and>
    (case d of RNull \<Rightarrow> (t = ROMFS_DIRENT_DIR \<or> t = ROMFS_DIRENT_FILE) \<and> sz = 0
     | RBytes bs \<Rightarrow> t = ROMFS_DIRENT_FILE \<and> unat sz = length bs
     | REntries es \<Rightarrow> t = ROMFS_DIRENT_DIR \<and> unat sz = length es \<and> (\<forall>e \<in> set es. rom_ok e))"

lemma rom_ok_check: "rom_ok e \<Longrightarrow> check_dirent e = 0"
  by (cases e) (auto simp: check_dirent_def split: romfs_data.splits)

lemma search_folder_spec:
  "\<forall>e \<in> set es. check_dirent e = 0 \<Longrightarrow> search_folder es (length es) name =
    Some (case find (\<lambda>e. r_name e = name) es of None \<Rightarrow> NoEntry | Some e \<Rightarrow> Entry e)"
  by (induction es) auto

abbreviation below :: "fpath list \<Rightarrow> fpath" where
  "below ws \<equiv> concat (map (\<lambda>w. SLASH # w) ws)"

lemma below_split:
  assumes "proper u"
  shows "dropWhile ((=) SLASH) (SLASH # u @ below us) = u @ below us"
    and "takeWhile (\<lambda>c. c \<noteq> SLASH) (u @ below us) = u" and "dropWhile (\<lambda>c. c \<noteq> SLASH) (u @ below us) = below us"
proof -
  obtain c cs where u: "u = c # cs" "c \<noteq> SLASH" using assms by (cases u) (auto simp: proper_def)
  then show "dropWhile ((=) SLASH) (SLASH # u @ below us) = u @ below us" by simp
  have b: "below us = [] \<or> hd (below us) = SLASH" by (cases us) auto
  have "SLASH \<notin> set u" using assms by (simp add: proper_def)
  from takeWhile_name[OF this b] show tw: "takeWhile (\<lambda>c. c \<noteq> SLASH) (u @ below us) = u" .
  show "dropWhile (\<lambda>c. c \<noteq> SLASH) (u @ below us) = below us" using tw unfolding dropWhile_eq_drop by simp
qed

definition target_result :: "(romfs_dirent \<times> bool) option \<Rightarrow> (romfs_dirent \<times> u32 option) option" where
  "target_result r = map_option (\<lambda>(f, exact). (f, if exact then Some (r_size f) else None)) r"

lemma romfs_walk_spec:
  "rom_ok e \<Longrightarrow> r_type e = ROMFS_DIRENT_DIR \<Longrightarrow> \<forall>u \<in> set ws. proper u \<Longrightarrow>
   romfs_walk (r_data e) (r_size e) w (below ws) = Some (target_result (rom_target e (w # ws)))"
proof (induction ws arbitrary: e w)
  case Nil
  obtain t n d sz where e: "e = Romfs t n d sz" by (cases e)
  show ?case
  proof (cases d)
    case (REntries es)
    then have "search_folder es (unat sz) w = Some (case find (\<lambda>e. r_name e = w) es of None \<Rightarrow> NoEntry | Some e \<Rightarrow> Entry e)"
      using Nil.prems(1) e rom_ok_check search_folder_spec[of es w] by simp
    then show ?thesis using Nil.prems(2) e REntries
      by (subst romfs_walk.simps) (auto simp: target_result_def split: option.split)
  qed (use Nil.prems e in \<open>auto simp: romfs_walk.simps target_result_def ROMFS_DIRENT_DIR_def ROMFS_DIRENT_FILE_def\<close>)
next
  case (Cons u us)
  obtain t n d sz where e: "e = Romfs t n d sz" by (cases e)
  have u: "proper u" "\<forall>u \<in> set us. proper u" using Cons.prems(3) by auto
  show ?case
  proof (cases d)
    case (REntries es)
    then have s: "search_folder es (unat sz) w = Some (case find (\<lambda>e. r_name e = w) es of None \<Rightarrow> NoEntry | Some e \<Rightarrow> Entry e)"
      using Cons.prems(1) e rom_ok_check search_folder_spec[of es w] by simp
    show ?thesis
    proof (cases "find (\<lambda>e. r_name e = w) es")
      case None
      then show ?thesis using s Cons.prems(2) e REntries by (subst romfs_walk.simps) (simp add: target_result_def)
    next
      case (Some f)
      then have f: "rom_ok f" using Cons.prems(1) e REntries by (auto simp: find_Some_iff)
      have un: "u \<noteq> []" using u(1) by (simp add: proper_def)
      have "romfs_walk (r_data e) (r_size e) w (below (u # us)) =
          (if r_type f = ROMFS_DIRENT_DIR then romfs_walk (r_data f) (r_size f) u (below us) else Some (Some (f, None)))"
        using s Some e REntries un below_split[OF u(1), of us] by (subst romfs_walk.simps) (simp add: Let_def)
      also have "\<dots> = Some (target_result (rom_target f (u # us)))"
        using Cons.IH[OF f _ u(2)] by (cases f) (simp add: target_result_def)
      finally show ?thesis using Some Cons.prems(2) e REntries by simp
    qed
  qed (use Cons.prems e in \<open>auto simp: romfs_walk.simps target_result_def ROMFS_DIRENT_DIR_def ROMFS_DIRENT_FILE_def\<close>)
qed

lemma dfs_romfs_lookup_tree:
  assumes "rom_ok root" and "r_type root = ROMFS_DIRENT_DIR" and "\<forall>w \<in> set ws. proper w"
  shows "dfs_romfs_lookup root (path_text ws) =
    Some (target_result (rom_target root ws))"
proof (cases ws)
  case Nil
  then show ?thesis using rom_ok_check[OF assms(1)] by (simp add: dfs_romfs_lookup_def path_text_def target_result_def)
next
  case (Cons w vs)
  then have w: "proper w" "\<forall>w \<in> set vs. proper w" "w \<noteq> []" using assms(3) by (auto simp: proper_def)
  have "dfs_romfs_lookup root (path_text ws) = romfs_walk (r_data root) (r_size root) w (below vs)"
    using rom_ok_check[OF assms(1)] below_split[OF w(1), of vs] w(3) by (simp add: dfs_romfs_lookup_def path_text_def Cons Let_def)
  then show ?thesis using romfs_walk_spec[OF assms(1,2) w(2), of w] by (simp add: Cons)
qed

text \<open>C37: The lookup in the read-only file system follows the tree: for the root of a well-formed tree and a path given by its parts it
  ends, within the arrays, with the entry that the names lead to and its size, or none; but a path that goes on behind
  a file finds that file, and the size is left unset.\<close>

theorem romfs_lookup_follows_tree:
  assumes "rom_ok root" and "r_type root = ROMFS_DIRENT_DIR" and "\<forall>w \<in> set ws. proper w"
  shows "dfs_romfs_lookup root (path_text ws) =
    Some (map_option (\<lambda>(e, exact). (e, if exact then Some (r_size e) else None)) (rom_target root ws))"
  using dfs_romfs_lookup_tree[OF assms] by (simp add: target_result_def)

lemma below_not_0: "unat (sz :: u32) < 2 ^ 32 - 1 \<Longrightarrow> sz \<noteq> NOT 0"
  by (auto simp: unsigned_minus_1_eq_mask mask_eq_exp_minus_1)

definition demo_rom :: romfs_dirent where
  "demo_rom = Romfs 1 (map of_char ''/'') (REntries
     [Romfs 1 (map of_char ''sda'') RNull 0,
      Romfs 1 (map of_char ''doc'') (REntries [Romfs 0 (map of_char ''a.txt'') (RBytes [1, 2, 3, 4, 5]) 5]) 1]) 2"

lemma demo_rom_ok: "rom_ok demo_rom" "r_type demo_rom = ROMFS_DIRENT_DIR"
  by (auto simp: demo_rom_def ROMFS_DIRENT_DIR_def ROMFS_DIRENT_FILE_def intro!: below_not_0)

theorem romfs_lookup_follows_tree_witness:
  "dfs_romfs_lookup demo_rom (path_text [map of_char ''doc'', map of_char ''a.txt'']) =
    Some (Some (Romfs 0 (map of_char ''a.txt'') (RBytes [1, 2, 3, 4, 5]) 5, Some 5))"
proof -
  have p: "\<forall>w \<in> set [map of_char ''doc'', map of_char ''a.txt'']. proper w" by (simp add: proper_def)
  show ?thesis unfolding romfs_lookup_follows_tree[OF demo_rom_ok p] by (simp add: demo_rom_def ROMFS_DIRENT_DIR_def)
qed

end
