(* ===== verification/RomRun.thy ===== *)
theory RomRun
  imports RomFs
begin

text \<open>
  The layer of files over the read-only file system (\<open>dfs_romfs.c\<close> under \<open>dfs_file.c\<close> and \<open>dfs_posix.c\<close>): the driver keeps to the
  interface, so the counts are right after any sequence of calls; opening a file by its path and reading it gives its bytes; and
  what goes wrong when an open is refused while the path is open.
\<close>

section \<open>The driver keeps to the interface\<close>

lemma rom_open_keeps:
  assumes "dfs_romfs_open junk f vn d = Some (r, f', vn')"
  shows "keeps f vn f' vn'"
proof (cases "f_flags f AND write_flags \<noteq> 0 \<or> v_ref vn > 1")
  case True
  then show ?thesis using assms by (auto simp: dfs_romfs_open_def keeps_def split: if_split_asm)
next
  case False
  then obtain root where root: "d = Some root" using assms by (auto simp: dfs_romfs_open_def bind_eq_Some_conv)
  show ?thesis
  proof (cases "check_dirent root \<noteq> 0")
    case True
    then show ?thesis using assms False root by (auto simp: dfs_romfs_open_def keeps_def)
  next
    case ok: False
    obtain path x where x: "v_path vn = Some path" "dfs_romfs_lookup root path = Some x"
      using assms False root ok by (auto simp: dfs_romfs_open_def bind_eq_Some_conv)
    show ?thesis
    proof (cases x)
      case None
      then show ?thesis using assms False root ok x by (auto simp: dfs_romfs_open_def keeps_def)
    next
      case (Some y)
      obtain e sz where y: "y = (e, sz)" by (cases y)
      show ?thesis using assms False root ok x Some y by (auto simp: dfs_romfs_open_def keeps_def split: if_split_asm)
    qed
  qed
qed

lemma rom_calls_keep:
  assumes "call \<in> driver_calls (rom_fops junk)" and "call f vn d = Some (r, f', vn')"
  shows "keeps f vn f' vn'"
proof -
  have "call = dfs_romfs_open junk \<or> call = dfs_romfs_close \<or> (\<exists>c a. call = dfs_romfs_ioctl c a) \<or> (\<exists>n. call = dfs_romfs_lseek n)"
    using assms(1) by (auto simp: driver_calls_def rom_fops_def)
  then show ?thesis using assms(2) rom_open_keeps
    by (elim disjE exE) (auto simp: dfs_romfs_close_def dfs_romfs_ioctl_def dfs_romfs_lseek_def keeps_def Let_def
        bind_eq_Some_conv split: if_split_asm option.split_asm)
qed

interpretation rom: file_systems "\<lambda>_. romfs junk"
proof
  show "call \<in> driver_calls (op_fops (romfs junk)) \<Longrightarrow> call f vn d = Some (r, f', vn') \<Longrightarrow> keeps f vn f' vn'" for call f vn d r f' vn'
    using rom_calls_keep[of call junk] by (simp add: romfs_def)
  show "fo_read (op_fops (romfs junk)) = Some read \<Longrightarrow> read n f vn d = Some (r, bs, f', vn') \<Longrightarrow> keeps f vn f' vn'" for read n f vn d r bs f' vn'
    by (auto simp: romfs_def rom_fops_def dfs_romfs_read_def bind_eq_Some_conv keeps_def Let_def split: if_split_asm romfs_data.split_asm)
  show "fo_getdents (op_fops (romfs junk)) = Some gd \<Longrightarrow> gd m f vn d = Some (r, ds, f', vn') \<Longrightarrow> keeps f vn f' vn'"
    for gd m f vn d r ds f' vn'
    by (auto simp: romfs_def rom_fops_def dfs_romfs_getdents_def bind_eq_Some_conv keeps_def split: if_split_asm romfs_data.split_asm)
  show "fo_close (op_fops (romfs junk)) = Some call \<Longrightarrow> call f vn d \<noteq> None" for call f vn d
    by (auto simp: romfs_def rom_fops_def dfs_romfs_close_def)
qed

section \<open>Counts\<close>

text \<open>C32: The counts of the layer stay right as long as no open of a path that is in use is refused. From a state where they are right (\<open>dfs_ok\<close>), over file systems that keep to the interface
  (\<open>file_systems\<close>: their operations on a file leave its vnode and the counts and path of both alone, and their close returns), after any sequence of the calls of \<open>fs_step\<close>, the count of an open file is the number of descriptors that
  hold it, the count of a vnode is the number of open files attached to it, the hash table lists the vnodes in use and no path
  has two; a close of any descriptor returns; and when no descriptor is left, no file and no vnode is. The calls of \<open>fs_step\<close> are closes, reads, writes, seeks, flushes, truncations,
  \<open>fcntl\<close>, duplications, directory reads, renames, unlinks and stats, whether they fail or not; opens, creations and directory
  opens and changes if they succeed or their path is not open yet; and \<open>openat\<close> and \<open>dup2\<close> if they succeed; the allocator gives blocks that
  are not in use. A refused open of a path that is open already does break the counts.\<close>

theorem descriptor_counts_right:
  assumes "file_systems ops" and "dfs_ok s" and "(fs_step ops)\<^sup>*\<^sup>* s s'"
  shows "dfs_inv s' \<and> (\<forall>fd. posix_close ops fd s' \<noteq> None)
    \<and> (set (fdtab s') \<subseteq> {None} \<longrightarrow> files s' = Map.empty \<and> vnodes s' = Map.empty)"
proof -
  note steps = file_systems.fs_steps_ok[OF assms(1,3,2)] and close = file_systems.posix_close_ok(1)[OF assms(1)]
  have i: "dfs_inv s'" using steps by (simp add: dfs_ok_def)
  moreover have "posix_close ops fd s' \<noteq> None" for fd using close[OF steps, of fd] by auto
  moreover have "files s' = Map.empty \<and> vnodes s' = Map.empty" if none: "set (fdtab s') \<subseteq> {None}"
  proof -
    have "slots s' a = 0" for a using none by (auto simp: slots_def count_list_0_iff)
    then have "files s' a = None" for a using i unfolding dfs_inv_def fd_inv_def by (metis less_irrefl option.exhaust)
    then have f: "files s' = Map.empty" by auto
    then have "openers s' v = {}" for v by (auto simp: openers_def attached_def)
    then have "vnodes s' v = None" for v using i by (metis dfs_inv_def option.exhaust vnode_invD(2))
    then show ?thesis using f by auto
  qed
  ultimately show ?thesis by blast
qed

definition demo_dfs :: "romfs_dirent dfs" where
  "demo_dfs = \<lparr> fdtab = [], files = (\<lambda>_. None), vnodes = (\<lambda>_. None), vnode_hash = (\<lambda>_. []),
     filesystem_table = [Some \<lparr> fs_dev = None, fs_path = map of_char ''/'', fs_ops = 0, fs_data = Some demo_rom \<rparr>, None, None, None],
     filesystem_operation_table = [Some 0, None, None, None], working_directory = map of_char ''/'', errno = 0 \<rparr>"

definition demo_memory :: fd_memory where
  "demo_memory = \<lparr> mem_path = True, mem_vnode = Some 9, mem_subdir = True, mem_table = True, mem_file = Some 7 \<rparr>"

lemma demo_dfs_ok: "dfs_ok demo_dfs" "fresh_memory demo_memory demo_dfs"
  by (simp_all add: dfs_ok_def dfs_inv_def fd_inv_def vnode_inv_def settled_def demo_dfs_def DFS_FD_MAX_def path_at_def refs_at_def
      openers_def attached_def fresh_memory_def demo_memory_def)

theorem descriptor_counts_right_witness:
  "\<exists>s. (fs_step (\<lambda>_. romfs 0))\<^sup>*\<^sup>* demo_dfs s \<and> fd_slot 3 s = Some 7 \<and> dfs_inv s \<and> (\<forall>fd. posix_close (\<lambda>_. romfs 0) fd s \<noteq> None)"
proof -
  define r where "r = posix_open (\<lambda>_. romfs 0) demo_memory (map of_char ''doc/../doc/a.txt'') 0 demo_dfs"
  have "map_option (\<lambda>(fd, s). (fd, fd_slot 3 s)) r = Some (3, Some 7)" unfolding r_def by code_simp
  then obtain s where s: "r = Some (3, s)" "fd_slot 3 s = Some 7" by auto
  have "fs_step (\<lambda>_. romfs 0) demo_dfs s" by (rule fs_step.intros(1)[OF s(1)[unfolded r_def] demo_dfs_ok(2)]) simp
  then have run: "(fs_step (\<lambda>_. romfs 0))\<^sup>*\<^sup>* demo_dfs s" by (rule r_into_rtranclp)
  from descriptor_counts_right[OF rom.file_systems_axioms demo_dfs_ok(1) run] show ?thesis using run s(2) by blast
qed

section \<open>Reading a file by its path\<close>

lemma subdir_path:
  assumes "\<forall>w \<in> set (mp @ ws). proper w"
  shows "(case subdir (path_text mp) (path_text (mp @ ws)) of None \<Rightarrow> [SLASH] | Some p \<Rightarrow> p) = path_text ws"
proof (cases ws)
  case Nil
  then show ?thesis by (simp add: subdir_def) (simp add: path_text_def)
next
  case (Cons w vs)
  then have "proper w" using assms by simp
  then obtain c cs where c: "w = c # cs" "c \<noteq> SLASH" by (cases w) (auto simp: proper_def)
  show ?thesis using c by (cases mp) (auto simp: subdir_def path_text_def Cons nth_append)
qed

fun reads :: "(nat \<Rightarrow> 'd dfs_filesystem_ops) \<Rightarrow> int \<Rightarrow> u32 list \<Rightarrow> 'd dfs \<Rightarrow> (byte list \<times> 'd dfs) option" where
  "reads ops fd [] s = Some ([], s)"
| "reads ops fd (n # ns) s = do {
     (r, bs, s) \<leftarrow> posix_read ops fd n s;
     (if r \<noteq> int (length bs) then None else do { (cs, s) \<leftarrow> reads ops fd ns s; Some (bs @ cs, s) })
   }"

definition reading :: "int \<Rightarrow> byte list \<Rightarrow> nat \<Rightarrow> romfs_dirent dfs \<Rightarrow> bool" where
  "reading fd bs pos s \<longleftrightarrow> (\<exists>a f v vn e. fdt_fd_get fd s = Some (Some a) \<and> vnode_of a s = Some (f, v, vn) \<and> v_data vn = Some e
     \<and> check_dirent e = 0 \<and> r_data e = RBytes bs \<and> unat (v_size vn) = length bs \<and> unat (f_pos f) = pos)
     \<and> pos \<le> length bs \<and> length bs < 2 ^ 31"

lemma sint_unat:
  assumes "unat (w :: u32) < 2 ^ 31"
  shows "sint w = int (unat w)"
proof -
  have u: "uint w = int (unat w)" by simp
  have "signed_take_bit 31 (int n) = int n" if "n < 2 ^ 31" for n :: nat
    using that by (intro signed_take_bit_int_eq_self) simp_all
  from this[OF assms] show ?thesis by (simp only: sint_uint u) simp
qed

lemma reading_step:
  assumes "reading fd bs pos s"
  shows "\<exists>s'. posix_read (\<lambda>_. romfs junk) fd n s = Some (int (min (unat n) (length bs - pos)), take (unat n) (drop pos bs), s')
    \<and> reading fd bs (min (pos + unat n) (length bs)) s'"
proof -
  obtain a f v vn e where r: "fdt_fd_get fd s = Some (Some a)" "vnode_of a s = Some (f, v, vn)" "v_data vn = Some e"
    "check_dirent e = 0" "r_data e = RBytes bs" "unat (v_size vn) = length bs" "unat (f_pos f) = pos" "pos \<le> length bs" "length bs < 2 ^ 31"
    using assms unfolding reading_def by blast
  define len where "len = (if n < v_size vn - f_pos f then n else v_size vn - f_pos f)"
  have sub: "unat (v_size vn - f_pos f) = length bs - pos" using r(6,7,8) by (simp add: unat_sub word_le_nat_alt)
  have len: "unat len = min (unat n) (length bs - pos)" unfolding len_def using sub by (auto simp: word_less_nat_alt)
  then have small: "unat len < 2 ^ 31" using r(9) by simp
  have pos': "unat (f_pos f + len) = min (pos + unat n) (length bs)"
  proof -
    have lt: "unat (f_pos f) + unat len < 2 ^ LENGTH(32)" using r(7,8,9) len by simp
    then show ?thesis using r(7,8) len by (simp add: unat_add_lem[THEN iffD1, OF lt])
  qed
  let ?f = "f\<lparr> f_pos := f_pos f + len \<rparr>"
  have take: "take (unat n) (drop pos bs) = take (unat len) (drop pos bs)"
    by (cases "unat n \<le> length bs - pos") (simp_all add: len min_def)
  have sint: "sint len = int (unat len)" using small by (intro sint_unat) simp
  have st: "reading fd bs (min (pos + unat n) (length bs)) (write_back a f' v vn s)" if "f_vnode f' = f_vnode f" "f_pos f' = f_pos f + len" for f'
    unfolding reading_def using r that pos' by (intro conjI exI[of _ a] exI[of _ f'] exI[of _ v] exI[of _ vn] exI[of _ e])
      (auto simp: vnode_of_conv write_back_def fdt_fd_get_def fd_slot_def split: option.split_asm if_split_asm)
  have drv: "dfs_romfs_read n f vn d = Some (sint len, take (unat len) (drop pos bs), if len = 0 then f else ?f, vn)" for d
  proof (cases "len = 0")
    case False
    then show ?thesis using r len by (simp add: dfs_romfs_read_def len_def[symmetric])
  qed (use r in \<open>simp add: dfs_romfs_read_def len_def[symmetric]\<close>)
  let ?s = "write_back a (if len = 0 then f else ?f) v vn s"
  have "posix_read (\<lambda>_. romfs junk) fd n s = Some (sint len, take (unat len) (drop pos bs), ?s)"
    using r drv sint by (simp add: posix_read_def dfs_file_read_def fops_of_def romfs_def rom_fops_def)
  moreover have "reading fd bs (min (pos + unat n) (length bs)) ?s" by (rule st) auto
  ultimately show ?thesis using sint len take by simp
qed

lemma reads_take:
  "reading fd bs pos s \<Longrightarrow> \<exists>s'. reads (\<lambda>_. romfs junk) fd ns s = Some (take (sum_list (map unat ns)) (drop pos bs), s')"
proof (induction ns arbitrary: pos s)
  case (Cons n ns)
  obtain s1 where s1: "posix_read (\<lambda>_. romfs junk) fd n s = Some (int (min (unat n) (length bs - pos)), take (unat n) (drop pos bs), s1)"
    "reading fd bs (min (pos + unat n) (length bs)) s1" using reading_step[OF Cons.prems] by blast
  obtain s2 where s2: "reads (\<lambda>_. romfs junk) fd ns s1 = Some (take (sum_list (map unat ns)) (drop (min (pos + unat n) (length bs)) bs), s2)"
    using Cons.IH[OF s1(2)] by blast
  have "drop (min (pos + unat n) (length bs)) bs = drop (unat n) (drop pos bs)" by (auto simp: min_def add.commute)
  then show ?case using s1(1) s2 by (auto simp: take_add min.commute)
qed simp

lemma find_in_set: "find P xs = Some x \<Longrightarrow> x \<in> set xs"
  by (auto simp: find_Some_iff)

lemma rom_target_ok: "rom_ok e \<Longrightarrow> rom_target e ws = Some (f, b) \<Longrightarrow> rom_ok f"
  by (induction e ws rule: rom_target.induct)
    (auto split: romfs_data.split_asm option.split_asm if_split_asm dest: find_in_set)

lemma fd_slot_cong: "fdtab t = fdtab s \<Longrightarrow> fd_slot fd t = fd_slot fd s"
  by (simp add: fd_slot_def)

lemma rom_open_vnode:
  assumes s: "files s a = Some fresh_file" "fs_at s i = Some fs" "fs_data fs = Some root"
    and vn: "v_path vn = Some path" "v_ref vn = 1" "v_fs vn = i" "v_fops vn = n"
    and rom: "rom_ok root" "dfs_romfs_lookup root path = Some (Some (e, Some sz))" "r_type e \<noteq> ROMFS_DIRENT_DIR"
    and flags: "flags AND write_flags = 0" "flags AND O_DIRECTORY = 0"
  shows "\<exists>s' f. open_vnode (\<lambda>_. romfs junk) a flags (insert_vnode v vn (upd_file a (\<lambda>f. f\<lparr> f_pos := 0, f_vnode := Some v \<rparr>) s)) = Some (0, s')
    \<and> vnode_of a s' = Some (f, v, vn\<lparr> v_type := FT_REGULAR, v_data := Some e, v_size := sz \<rparr>) \<and> f_pos f = 0 \<and> fdtab s' = fdtab s"
proof -
  define s1 where "s1 = insert_vnode v vn (upd_file a (\<lambda>f. f\<lparr> f_pos := 0, f_vnode := Some v \<rparr>) s)"
  define s2 where "s2 = upd_file a (\<lambda>f. f\<lparr> f_flags := flags \<rparr>) s1"
  let ?f = "\<lparr> f_flags = flags, f_ref = 1, f_pos = 0, f_vnode = Some v \<rparr>"
  let ?vn = "vn\<lparr> v_type := FT_REGULAR, v_data := Some e, v_size := sz \<rparr>"
  define s3 where "s3 = write_back a ?f v ?vn s2"
  define s4 where "s4 = upd_file a (\<lambda>f. f\<lparr> f_flags := f_flags f OR DFS_F_OPEN \<rparr>) s3"
  have v2: "vnode_of a s2 = Some (?f, v, vn)" by (simp add: vnode_of_conv s2_def s1_def s(1) insert_vnode_def fresh_file_def)
  have "data_of s2 i = data_of s i" by (simp add: s2_def s1_def data_of_def fs_at_def upd_file_def insert_vnode_def)
  then have d: "data_of s2 i = Some root" using s(2,3) by (simp add: data_of_def)
  have "driver (dfs_romfs_open junk) a s2 = Some (RT_EOK, s3)"
    using rom(2,3) rom_ok_check[OF rom(1)] flags by (simp add: driver_def v2 d vn dfs_romfs_open_def s3_def)
  then have "open_vnode (\<lambda>_. romfs junk) a flags s1 = Some (0, s4)"
    using v2 flags(2) by (simp add: open_vnode_def Let_def s2_def[symmetric] fops_of_def romfs_def rom_fops_def RT_EOK_def s4_def)
  moreover have "vnode_of a s4 = Some (?f\<lparr> f_flags := flags OR DFS_F_OPEN \<rparr>, v, ?vn)" by (simp add: vnode_of_conv s4_def s3_def write_back_def)
  moreover have "fdtab s4 = fdtab s" by (simp add: s4_def s3_def s2_def s1_def write_back_def insert_vnode_def)
  ultimately show ?thesis by (intro exI[of _ s4] exI[of _ "?f\<lparr> f_flags := flags OR DFS_F_OPEN \<rparr>"]) (simp add: s1_def)
qed

lemma rom_posix_open:
  assumes k: "dfs_ok s" and new: "fst (fdt_fd_new (mem_table mem) (mem_file mem) s) = Some fd"
    and m: "fresh_memory mem s" "mem_path mem" "mem_vnode mem \<noteq> None" "mem_subdir mem"
    and p: "full_path (working_directory s) path = path_text (mp @ ws)" "\<forall>w \<in> set (mp @ ws). proper w" "not_open path s"
    and fs: "dfs_filesystem_lookup (path_text (mp @ ws)) s = Some i" "fs_at s i = Some fs" "fs_path fs = path_text mp" "fs_data fs = Some root"
    and rom: "rom_ok root" "r_type root = ROMFS_DIRENT_DIR" "rom_target root ws = Some (Romfs ROMFS_DIRENT_FILE name (RBytes bs) sz, True)"
      "length bs < 2 ^ 31"
    and flags: "flags AND write_flags = 0" "flags AND O_DIRECTORY = 0"
  shows "\<exists>s1. posix_open (\<lambda>_. romfs junk) mem path flags s = Some (int fd, s1) \<and> reading (int fd) bs 0 s1"
proof -
  define e where "e = Romfs ROMFS_DIRENT_FILE name (RBytes bs) sz"
  have e: "check_dirent e = 0" "unat sz = length bs" "r_type e \<noteq> ROMFS_DIRENT_DIR"
    using rom_target_ok[OF rom(1,3)] rom_ok_check[of e] by (auto simp: e_def ROMFS_DIRENT_FILE_def ROMFS_DIRENT_DIR_def)
  obtain s0 where n: "fdt_fd_new (mem_table mem) (mem_file mem) s = (Some fd, s0)" using new by (metis prod.collapse)
  obtain v where v: "mem_vnode mem = Some v" "vnodes s v = None" using m(1,3) by (auto simp: fresh_memory_def)
  obtain a where a: "vnodes s0 = vnodes s" "vnode_hash s0 = vnode_hash s" "filesystem_table s0 = filesystem_table s"
      "working_directory s0 = working_directory s" "fd_slot (int fd) s0 = Some a" "files s0 = (files s)(a \<mapsto> fresh_file)"
    using fdt_fd_new_spec[OF _ n] k m(1) by (auto simp: dfs_ok_def fresh_memory_def)
  have find: "dfs_vnode_find (path_text (mp @ ws)) s0 = Some None"
    using p(1,3) by (simp add: not_open_def dfs_vnode_find_def a(2) find_loop_cong[OF a(1)])
  let ?vn = "new_vnode (\<lambda>_. romfs junk) (open_memory.truncate mem) i fs (path_text (mp @ ws))"
  have vp: "v_path ?vn = Some (path_text ws)" "v_ref ?vn = 1" "v_fs ?vn = i" using m(4) fs(3) subdir_path[OF p(2)]
    by (simp_all add: new_vnode_def romfs_def DFS_FS_FLAG_FULLPATH_def open_memory.truncate_def)
  have look: "dfs_romfs_lookup root (path_text ws) = Some (Some (e, Some sz))"
    using dfs_romfs_lookup_tree[OF rom(1,2)] p(2) rom(3) by (simp add: target_result_def e_def)
  have look': "dfs_filesystem_lookup (path_text (mp @ ws)) s0 = Some i" using fs(1) by (simp add: dfs_filesystem_lookup_def a(3))
  have "fs_at s0 i = fs_at s i" by (simp add: fs_at_def a(3))
  then have fsat: "fs_at s0 i = Some fs" using fs(2) by simp
  have fa: "files s0 a = Some fresh_file" by (simp add: a(6))
  obtain s1 f where s1: "open_vnode (\<lambda>_. romfs junk) a flags (insert_vnode v ?vn (upd_file a (\<lambda>f. f\<lparr> f_pos := 0, f_vnode := Some v \<rparr>) s0)) = Some (0, s1)"
    "vnode_of a s1 = Some (f, v, ?vn\<lparr> v_type := FT_REGULAR, v_data := Some e, v_size := sz \<rparr>)" "f_pos f = 0" "fdtab s1 = fdtab s0"
    using rom_open_vnode[OF fa fsat fs(4) vp refl rom(1) look e(3) flags] by blast
  have "posix_open (\<lambda>_. romfs junk) mem path flags s = Some (int fd, s1)"
    using n a(4,5,6) m(2) v(1) find p(1) look' fsat s1(1)
    by (simp add: posix_open_def fdt_fd_get_def dfs_file_open_def open_memory.truncate_def Let_def fops_of_def romfs_def rom_fops_def)
  moreover have "fd_slot (int fd) s1 = Some a" using a(5) fd_slot_cong[OF s1(4)] by simp
  then have "fdt_fd_get (int fd) s1 = Some (Some a)" using s1(2) by (simp add: fdt_fd_get_def vnode_of_conv)
  then have "reading (int fd) bs 0 s1" using s1(2,3) e(1,2) rom(4) unfolding reading_def
    by (intro conjI exI[of _ a] exI[of _ f] exI[of _ v] exI[of _ "?vn\<lparr> v_type := FT_REGULAR, v_data := Some e, v_size := sz \<rparr>"] exI[of _ e])
      (simp_all add: e_def)
  ultimately show ?thesis by blast
qed

text \<open>C33: Opening a file of the read-only file system and reading it. Let the path lead, from the working directory, to a file of fewer than \<open>2 ^ 31\<close> bytes in a well-formed image (\<open>rom_ok\<close>) that is mounted as the
  nearest file system above the path; let no descriptor be open on that path yet, a descriptor be free, the memory for file, path and vnode be there and not in use, and the flags ask
  neither for writing, creating or truncating nor for a directory. Then the open gives that descriptor, and reads of any lengths through it
  give the bytes of the file one after the other, each read as many as it asks for or as are left, and stop at its end.\<close>

theorem rom_open_then_read:
  assumes k: "dfs_ok s" and new: "fst (fdt_fd_new (mem_table mem) (mem_file mem) s) = Some fd"
    and m: "fresh_memory mem s" "mem_path mem" "mem_vnode mem \<noteq> None" "mem_subdir mem"
    and p: "full_path (working_directory s) path = path_text (mp @ ws)" "\<forall>w \<in> set (mp @ ws). proper w" "not_open path s"
    and fs: "dfs_filesystem_lookup (path_text (mp @ ws)) s = Some i" "fs_at s i = Some fs" "fs_path fs = path_text mp" "fs_data fs = Some root"
    and rom: "rom_ok root" "r_type root = ROMFS_DIRENT_DIR" "rom_target root ws = Some (Romfs ROMFS_DIRENT_FILE name (RBytes bs) sz, True)"
      "length bs < 2 ^ 31"
    and flags: "flags AND write_flags = 0" "flags AND O_DIRECTORY = 0"
  shows "\<exists>s1 s2. posix_open (\<lambda>_. romfs junk) mem path flags s = Some (int fd, s1)
    \<and> reads (\<lambda>_. romfs junk) (int fd) ns s1 = Some (take (sum_list (map unat ns)) bs, s2)"
  using rom_posix_open[OF assms, of junk] reads_take[of "int fd" bs 0] by fastforce

theorem rom_open_then_read_witness:
  "\<exists>s1 s2. posix_open (\<lambda>_. romfs 0) demo_memory (map of_char ''doc//./a.txt'') 0 demo_dfs = Some (3, s1)
    \<and> reads (\<lambda>_. romfs 0) 3 [2, 2, 9] s1 = Some ([1, 2, 3, 4, 5], s2)"
proof -
  let ?ws = "[map of_char ''doc'', map of_char ''a.txt''] :: fpath list"
  have 1: "fst (fdt_fd_new (mem_table demo_memory) (mem_file demo_memory) demo_dfs) = Some 3" by code_simp
  have 2: "mem_path demo_memory" "mem_vnode demo_memory \<noteq> None" "mem_subdir demo_memory" by (simp_all add: demo_memory_def)
  have 3: "full_path (working_directory demo_dfs) (map of_char ''doc//./a.txt'') = path_text ([] @ ?ws)" by code_simp
  have 4: "\<forall>w \<in> set ([] @ ?ws). proper w" by (simp add: proper_def)
  have 5: "not_open (map of_char ''doc//./a.txt'') demo_dfs" by (simp add: not_open_def dfs_vnode_find_def demo_dfs_def)
  have 6: "dfs_filesystem_lookup (path_text ([] @ ?ws)) demo_dfs = Some 0" by code_simp
  have 7: "fs_at demo_dfs 0 = Some \<lparr> fs_dev = None, fs_path = map of_char ''/'', fs_ops = 0, fs_data = Some demo_rom \<rparr>"
    by (simp add: fs_at_def demo_dfs_def)
  have 8: "rom_target demo_rom ?ws = Some (Romfs ROMFS_DIRENT_FILE (map of_char ''a.txt'') (RBytes [1, 2, 3, 4, 5]) 5, True)" by code_simp
  have 9: "(map of_char ''/'' :: fpath) = path_text []" by code_simp
  from rom_open_then_read[OF demo_dfs_ok(1) 1 demo_dfs_ok(2) 2 3 4 5 6 7 _ _ demo_rom_ok 8, where flags = 0 and ns = "[2, 2, 9]" and junk = 0] 9
  show ?thesis by simp
qed

section \<open>A refused open\<close>

lemma fdt_fd_new_keeps:
  assumes "fdt_fd_new mt mf s = (r, s')" and "fd_slot fd s = Some a"
  shows "fd_slot fd s' = Some a"
proof -
  obtain j fdt where al: "fd_slot_alloc mt DFS_STDIO_OFFSET (fdtab s) = (j, fdt)" by fastforce
  obtain n where n: "fdt = fdtab s @ replicate n None" "\<forall>i. j = Some i \<longrightarrow> i < length fdt \<and> fdt ! i = None"
    using fd_slot_alloc_spec[OF al] by blast
  have sl: "\<not> fd < 0" "nat fd < length (fdtab s)" "fdtab s ! nat fd = Some a" using assms(2) by (auto simp: fd_slot_def split: if_split_asm)
  then have at: "nat fd < length fdt" "fdt ! nat fd = Some a" by (simp_all add: n(1) nth_append)
  then have "\<forall>i. j = Some i \<longrightarrow> i \<noteq> nat fd" using n(2) by auto
  moreover have "fdtab s' = fdt \<or> (\<exists>i b. j = Some i \<and> fdtab s' = fdt[i := Some b])"
    using assms(1) al by (auto simp: fdt_fd_new_def fd_alloc_def split: option.split_asm)
  ultimately have "nat fd < length (fdtab s')" "fdtab s' ! nat fd = Some a" using at by auto
  then show ?thesis using sl(1) by (simp add: fd_slot_def)
qed

lemma rom_refused_again:
  assumes find: "dfs_vnode_find (full_path (working_directory s) path) s = Some (Some v)" and m: "mem_path mem"
    and v: "vnodes s v = Some vn" "v_ref vn = 1" "v_type vn = FT_DIRECTORY" and b: "files s b = Some fresh_file"
    and flags: "flags AND write_flags = 0" "flags AND O_DIRECTORY = 0"
  shows "\<exists>s'. dfs_file_open (\<lambda>_. romfs junk) mem (Some b) path flags s = Some (- ENOENT, s') \<and> fdtab s' = fdtab s
    \<and> files s' = (files s)(b \<mapsto> \<lparr> f_flags = flags, f_ref = 1, f_pos = 0, f_vnode = Some v \<rparr>) \<and> vnodes s' v = Some vn"
proof -
  define s1 where "s1 = upd_file b (\<lambda>f. f\<lparr> f_pos := 0, f_vnode := Some v \<rparr>) (upd_vnode v (\<lambda>x. x\<lparr> v_ref := v_ref x + 1 \<rparr>) s)"
  define s2 where "s2 = upd_file b (\<lambda>f. f\<lparr> f_flags := flags \<rparr>) s1"
  let ?g = "\<lparr> f_flags = flags, f_ref = 1, f_pos = 0, f_vnode = Some v \<rparr>"
  let ?vn = "vn\<lparr> v_ref := 2 \<rparr>"
  have vb: "vnode_of b s2 = Some (?g, v, ?vn)" by (simp add: vnode_of_conv s2_def s1_def b fresh_file_def upd_vnode_def v(1,2))
  define s3 where "s3 = upd_vnode v (\<lambda>x. x\<lparr> v_ref := v_ref x - 1 \<rparr>) (write_back b ?g v ?vn s2)"
  have d: "driver (dfs_romfs_open junk) b s2 = Some (- ENOENT, write_back b ?g v ?vn s2)"
    using v(3) flags by (simp add: driver_def vb dfs_romfs_open_def)
  have "open_vnode (\<lambda>_. romfs junk) b flags s1 = Some (- ENOENT, s3)"
    using d vb v(2) by (simp add: open_vnode_def Let_def s2_def[symmetric] fops_of_def romfs_def rom_fops_def ENOENT_def s3_def)
      (simp add: upd_vnode_def write_back_def)
  then have "dfs_file_open (\<lambda>_. romfs junk) mem (Some b) path flags s = Some (- ENOENT, s3)"
    using m find by (simp add: dfs_file_open_def s1_def)
  moreover have "fdtab s3 = fdtab s" "files s3 = (files s)(b \<mapsto> ?g)" "vnodes s3 v = Some vn"
    by (simp_all add: s3_def s2_def s1_def write_back_def upd_vnode_def b v(1,2))
  ultimately show ?thesis by blast
qed

text \<open>A vnode that is in use is the one found under its path.\<close>

lemma find_vnode_path:
  assumes i: "vnode_inv s" and v: "vnodes s v = Some vn" "v_fullpath vn = p"
  shows "dfs_vnode_find p s = Some (Some v)"
proof -
  obtain r where r: "dfs_vnode_find p s = Some r" "\<forall>w. r = Some w \<longrightarrow> (\<exists>wn. vnodes s w = Some wn \<and> v_fullpath wn = p)"
    "r = None \<longrightarrow> (\<forall>w wn. vnodes s w = Some wn \<longrightarrow> v_fullpath wn \<noteq> p)" using find_vnode[OF i, of p] by blast
  have "r \<noteq> None" using r(3) v by blast
  then obtain w wn where w: "r = Some w" "vnodes s w = Some wn" "v_fullpath wn = p" using r(2) by blast
  have "v_fullpath vn = v_fullpath wn" using w(3) v(2) by simp
  from vnode_invD(4)[OF i v(1) w(2) this] show ?thesis using w(1) r(1) by simp
qed

text \<open>C38: An open that the file system refuses frees the vnode of a directory that is open: an open directory whose path is opened again
  as a file is refused, but \<open>dfs_file_open\<close> takes its reference back and leaves the vnode in the new file, and the release of the new
  descriptor takes a reference once more. The count reaches 0, the vnode is freed, and the first descriptor still refers to it:
  its close works on freed memory.\<close>

theorem refused_open_frees_vnode:
  assumes k: "dfs_ok s" and new: "fst (fdt_fd_new (mem_table mem) (mem_file mem) s) \<noteq> None" and m: "fresh_memory mem s" "mem_path mem"
    and fd: "fd_slot fd s = Some a" "slots s a = 1" "attached s a = Some v"
    and v: "vnodes s v = Some vn" "v_ref vn = 1" "v_type vn = FT_DIRECTORY" "v_fullpath vn = full_path (working_directory s) path"
    and flags: "flags AND write_flags = 0" "flags AND O_DIRECTORY = 0"
  shows "\<exists>s'. posix_open (\<lambda>_. romfs junk) mem path flags s = Some (- 1, s') \<and> errno s' = - ENOENT
    \<and> fd_slot fd s' = Some a \<and> attached s' a = Some v \<and> vnodes s' v = None \<and> posix_close (\<lambda>_. romfs junk) fd s' = None"
proof -
  have i: "dfs_inv s" "vnode_inv s" using k by (auto simp: dfs_ok_def dfs_inv_def)
  obtain j s0 where n: "fdt_fd_new (mem_table mem) (mem_file mem) s = (Some j, s0)" using new by (metis option.exhaust prod.collapse)
  obtain b where b: "vnodes s0 = vnodes s" "vnode_hash s0 = vnode_hash s" "working_directory s0 = working_directory s"
      "fd_slot (int j) s0 = Some b" "files s0 = (files s)(b \<mapsto> fresh_file)" "files s b = None"
    using fdt_fd_new_spec[OF i(1) n] m(1) by (auto simp: fresh_memory_def)
  have find: "dfs_vnode_find (full_path (working_directory s0) path) s0 = Some (Some v)"
    using find_vnode_path[OF i(2) v(1,4)] by (simp add: dfs_vnode_find_def b(2,3) find_loop_cong[OF b(1)])
  obtain f where f: "files s a = Some f" "f_vnode f = Some v" using fd(3) by (auto simp: attached_conv)
  have ref: "f_ref f = 1" using i(1) f(1) fd(2) by (simp add: dfs_inv_def fd_inv_def)
  have ab: "a \<noteq> b" using f b(6) by auto
  have mp: "mem_path (open_memory.truncate mem)" using m(2) by (simp add: open_memory.truncate_def)
  obtain s3 where s3: "dfs_file_open (\<lambda>_. romfs junk) (open_memory.truncate mem) (Some b) path flags s0 = Some (- ENOENT, s3)" "fdtab s3 = fdtab s0"
    "files s3 = (files s)(b \<mapsto> \<lparr> f_flags = flags, f_ref = 1, f_pos = 0, f_vnode = Some v \<rparr>)" "vnodes s3 v = Some vn"
    using rom_refused_again[OF find mp, of vn b flags junk] v(1,2,3) flags b(1,5) by auto
  have sl: "fd_slot (int j) s3 = Some b" "fd_slot fd s3 = Some a"
    using b(4) fdt_fd_new_keeps[OF n fd(1)] fd_slot_cong[OF s3(2)] by simp_all
  define s4 where "s4 = s3\<lparr> fdtab := (fdtab s3)[j := None], files := (files s3)(b := None), vnodes := (vnodes s3)(v := None) \<rparr>"
  define s5 where "s5 = s4\<lparr> errno := - ENOENT \<rparr>"
  have "fdt_fd_release (int j) s3 = Some s4" using sl(1) s3(3,4) v(2) by (simp add: fdt_fd_release_def Let_def s4_def upd_file_def)
  then have "posix_open (\<lambda>_. romfs junk) mem path flags s = Some (- 1, s5)"
    using n b(4,5) s3(1) by (simp add: posix_open_def fdt_fd_get_def ENOENT_def fail_def s5_def)
  moreover have s5: "fd_slot fd s5 = Some a" "files s5 a = Some f" "vnodes s5 v = None" "errno s5 = - ENOENT"
    using sl f ab by (auto simp: s5_def s4_def s3(3) fd_slot_def nth_list_update split: if_split_asm)
  moreover have "posix_close (\<lambda>_. romfs junk) fd s5 = None"
    using s5 ref f(2) by (simp add: posix_close_def fdt_fd_get_def dfs_file_close_def vnode_of_def)
  ultimately show ?thesis using f(2) by (auto simp: attached_conv)
qed

theorem refused_open_frees_vnode_witness:
  "\<exists>s s'. (fs_step (\<lambda>_. romfs 0))\<^sup>*\<^sup>* demo_dfs s
    \<and> posix_open (\<lambda>_. romfs 0) (demo_memory\<lparr> mem_file := Some 8, mem_vnode := Some 10 \<rparr>) (map of_char ''/doc'') 0 s = Some (- 1, s')
    \<and> fd_slot 3 s' = Some 7 \<and> attached s' 7 = Some 9 \<and> vnodes s' 9 = None \<and> posix_close (\<lambda>_. romfs 0) 3 s' = None"
proof -
  define r where "r = posix_open (\<lambda>_. romfs 0) demo_memory (map of_char ''/doc'') O_DIRECTORY demo_dfs"
  let ?m = "demo_memory\<lparr> mem_file := Some 8, mem_vnode := Some 10 \<rparr>"
  let ?q = "map of_char ''/doc'' :: fpath"
  have "map_option (\<lambda>(fd, s). (fd, fd_slot 3 s, slots s 7, attached s 7, map_option (\<lambda>x. (v_ref x, v_type x, v_fullpath x)) (vnodes s 9),
      files s 8, map_option (\<lambda>_. ()) (vnodes s 10), full_path (working_directory s) ?q, fst (fdt_fd_new True (Some 8) s))) r =
    Some (3, Some 7, 1, Some 9, Some (1, FT_DIRECTORY, ?q), None, None, ?q, Some 4)" unfolding r_def by code_simp
  then obtain s vn where s: "r = Some (3, s)" "fd_slot 3 s = Some 7" "slots s 7 = 1" "attached s 7 = Some 9" "vnodes s 9 = Some vn"
    "v_ref vn = 1" "v_type vn = FT_DIRECTORY" "v_fullpath vn = full_path (working_directory s) ?q" "files s 8 = None" "vnodes s 10 = None"
    "fst (fdt_fd_new True (Some 8) s) = Some 4" by auto
  have step: "fs_step (\<lambda>_. romfs 0) demo_dfs s" by (rule fs_step.intros(1)[OF s(1)[unfolded r_def] demo_dfs_ok(2)]) simp
  have new: "fst (fdt_fd_new (mem_table ?m) (mem_file ?m) s) \<noteq> None" using s(11) by (simp add: demo_memory_def)
  have fresh: "fresh_memory ?m s" "mem_path ?m" using s(9,10) by (simp_all add: fresh_memory_def demo_memory_def)
  have run: "(fs_step (\<lambda>_. romfs 0))\<^sup>*\<^sup>* demo_dfs s" using step by (rule r_into_rtranclp)
  from refused_open_frees_vnode[OF rom.fs_step_ok[OF step demo_dfs_ok(1)] new fresh s(2,3,4,5,6,7,8), of 0 0] run
  show ?thesis by auto
qed

end
