(* ===== verification/DfsMount.thy ===== *)
theory DfsMount
  imports RomRun
begin

text \<open>
  Mounting (\<open>rt-thread/components/dfs/dfs_v1/src/dfs_fs.c\<close>): the table of registered types and the table of mounted file systems.
  The lookup of a device by its name and the answer of its open are parameters. The file that \<open>dfs_mount\<close> opens to see whether
  its directory exists is a local variable, at an address of its own.
\<close>

section \<open>Types\<close>

text \<open>The scan of \<open>dfs_register\<close>: the first empty slot before a type of the same name, and whether there is one.\<close>

fun register_scan :: "(nat \<Rightarrow> 'd dfs_filesystem_ops) \<Rightarrow> fpath \<Rightarrow> nat \<Rightarrow> nat option list \<Rightarrow> nat option \<Rightarrow> nat option \<times> bool" where
  "register_scan ops name i [] free = (free, False)"
| "register_scan ops name i (None # es) free = register_scan ops name (i + 1) es (if free = None then Some i else free)"
| "register_scan ops name i (Some t # es) free =
    (if op_name (ops t) = name then (free, True) else register_scan ops name (i + 1) es free)"

definition dfs_register :: "(nat \<Rightarrow> 'd dfs_filesystem_ops) \<Rightarrow> nat \<Rightarrow> 'd dfs \<Rightarrow> int \<times> 'd dfs" where
  "dfs_register ops t s =
    (let (free, registered) = register_scan ops (op_name (ops t)) 0 (filesystem_operation_table s) None;
         s = (if registered then s\<lparr> errno := - EEXIST \<rparr> else s)
     in case free of None \<Rightarrow> (- 1, s\<lparr> errno := - ENOSPC \<rparr>)
        | Some i \<Rightarrow> if registered then (- 1, s)
                    else (0, s\<lparr> filesystem_operation_table := (filesystem_operation_table s)[i := Some t] \<rparr>))"

definition dfs_romfs_init :: "(nat \<Rightarrow> 'd dfs_filesystem_ops) \<Rightarrow> nat \<Rightarrow> 'd dfs \<Rightarrow> int \<times> 'd dfs" where
  "dfs_romfs_init ops t s = (0, snd (dfs_register ops t s))"

text \<open>The search for a type compares as many characters as the registered name has.\<close>

definition find_type :: "(nat \<Rightarrow> 'd dfs_filesystem_ops) \<Rightarrow> fpath \<Rightarrow> 'd dfs \<Rightarrow> nat option" where
  "find_type ops filesystemtype s =
    Option.bind (find (\<lambda>x. case x of None \<Rightarrow> False
        | Some t \<Rightarrow> take (length (op_name (ops t))) filesystemtype = op_name (ops t)) (filesystem_operation_table s)) id"

section \<open>Mounting\<close>

record devices =
  device_find :: "fpath \<Rightarrow> nat option"
  device_opens :: "nat \<Rightarrow> bool"

text \<open>The scan of the table: no result if the path is mounted, or the first empty entry.\<close>

fun mount_scan :: "fpath \<Rightarrow> nat \<Rightarrow> 'd dfs_filesystem option list \<Rightarrow> nat option \<Rightarrow> nat option option" where
  "mount_scan path i [] fs = Some fs"
| "mount_scan path i (None # es) fs = mount_scan path (i + 1) es (if fs = None then Some i else fs)"
| "mount_scan path i (Some e # es) fs = (if fs_path e = path then None else mount_scan path (i + 1) es fs)"

definition DEV_PATH :: fpath where "DEV_PATH = map of_char ''/dev''"

text \<open>The check that the directory is there.\<close>

definition mount_point_exists ::
  "(nat \<Rightarrow> 'd dfs_filesystem_ops) \<Rightarrow> open_memory \<Rightarrow> nat \<Rightarrow> fpath \<Rightarrow> 'd dfs \<Rightarrow> (bool \<times> 'd dfs) option" where
  "mount_point_exists ops mem a fullpath s =
    (if fullpath \<noteq> [SLASH] \<and> fullpath \<noteq> DEV_PATH then do {
       (result, s) \<leftarrow> dfs_file_open ops mem (Some a) fullpath O_DIRECTORY (s\<lparr> files := (files s)(a \<mapsto> fresh_file) \<rparr>);
       (if result < 0 then Some (False, s\<lparr> files := (files s)(a := None) \<rparr>)
        else do {
          (_, s) \<leftarrow> dfs_file_close ops (Some a) s;
          Some (True, s\<lparr> files := (files s)(a := None) \<rparr>)
        })
     } else Some (True, s))"

text \<open>The second half of \<open>dfs_mount\<close>: the entry is filled, the device opened, and the file system asked.\<close>

definition mount_entry ::
  "(nat \<Rightarrow> 'd dfs_filesystem_ops) \<Rightarrow> devices \<Rightarrow> nat option \<Rightarrow> fpath \<Rightarrow> fpath \<Rightarrow> nat \<Rightarrow> fpath \<Rightarrow> u32 \<Rightarrow> 'd option \<Rightarrow> 'd dfs \<Rightarrow> (int \<times> 'd dfs) option" where
  "mount_entry ops env dev fullpath path t filesystemtype rwflag data s =
    (case mount_scan path 0 (filesystem_table s) None of
       None \<Rightarrow> Some (fail (- EINVAL) s)
     | Some None \<Rightarrow> Some (fail (- ENOSPC) s)
     | Some (Some i) \<Rightarrow>
         if dev \<noteq> None \<and> \<not> device_opens env (the dev) then Some (- 1, s)
         else do {
           mount \<leftarrow> op_mount (ops t);
           let (result, d) = mount rwflag data filesystemtype;
           Some (if result < 0 then (- 1, s)
             else (0, s\<lparr> filesystem_table := (filesystem_table s)
               [i := Some \<lparr> fs_dev = dev, fs_path = fullpath, fs_ops = t, fs_data = d \<rparr>] \<rparr>))
         })"

definition dfs_mount ::
  "(nat \<Rightarrow> 'd dfs_filesystem_ops) \<Rightarrow> devices \<Rightarrow> bool \<Rightarrow> open_memory \<Rightarrow> nat \<Rightarrow> fpath option \<Rightarrow> fpath \<Rightarrow> fpath \<Rightarrow> u32 \<Rightarrow> 'd option \<Rightarrow> 'd dfs \<Rightarrow>
   (int \<times> 'd dfs) option" where
  "dfs_mount ops env mem_full mem a device_name path filesystemtype rwflag data s =
    (let dev = Option.bind device_name (device_find env)
     in if device_name \<noteq> None \<and> dev = None then Some (fail (- ENODEV) s)
     else case find_type ops filesystemtype s of None \<Rightarrow> Some (fail (- ENODEV) s)
     | Some t \<Rightarrow>
         if op_mount (ops t) = None then Some (fail (- ENOSYS) s)
         else if \<not> mem_full then Some (fail (- ENOTDIR) s)
         else do {
           let fullpath = full_path (working_directory s) path;
           (there, s) \<leftarrow> mount_point_exists ops mem a fullpath s;
           (if \<not> there then Some (fail (- ENOTDIR) s)
            else mount_entry ops env dev fullpath path t filesystemtype rwflag data s)
         })"

text \<open>The entry with a path.\<close>

definition mounted_at :: "fpath \<Rightarrow> 'd dfs \<Rightarrow> nat option" where
  "mounted_at p s = find (\<lambda>i. case filesystem_table s ! i of None \<Rightarrow> False | Some e \<Rightarrow> fs_path e = p) [0..<length (filesystem_table s)]"

definition dfs_unmount :: "(nat \<Rightarrow> 'd dfs_filesystem_ops) \<Rightarrow> bool \<Rightarrow> fpath \<Rightarrow> 'd dfs \<Rightarrow> (int \<times> 'd dfs) option" where
  "dfs_unmount ops mem specialfile s =
    (if \<not> mem then Some (fail (- ENOTDIR) s)
     else case mounted_at (full_path (working_directory s) specialfile) s of None \<Rightarrow> Some (- 1, s)
     | Some i \<Rightarrow> do {
         fs \<leftarrow> fs_at s i;
         Some (case op_unmount (ops (fs_ops fs)) of None \<Rightarrow> (- 1, s)
           | Some unmount \<Rightarrow> if unmount (fs_data fs) < 0 then (- 1, s)
                              else (0, s\<lparr> filesystem_table := (filesystem_table s)[i := None] \<rparr>))
       })"

definition dfs_filesystem_get_mounted_path :: "nat option \<Rightarrow> 'd dfs \<Rightarrow> fpath option" where
  "dfs_filesystem_get_mounted_path device s =
    map_option (\<lambda>x. fs_path (the x)) (find (\<lambda>x. case x of None \<Rightarrow> False | Some e \<Rightarrow> fs_dev e = device) (filesystem_table s))"

definition dfs_mkfs :: "(nat \<Rightarrow> 'd dfs_filesystem_ops) \<Rightarrow> devices \<Rightarrow> fpath \<Rightarrow> fpath option \<Rightarrow> 'd dfs \<Rightarrow> int \<times> 'd dfs" where
  "dfs_mkfs ops env fs_name device_name s =
    (case Option.bind device_name (device_find env) of None \<Rightarrow> fail (- ENODEV) s
     | Some dev \<Rightarrow>
         (case find_type ops fs_name s of None \<Rightarrow> (- 1, s)
          | Some t \<Rightarrow> (case op_mkfs (ops t) of None \<Rightarrow> fail (- ENOSYS) s | Some mkfs \<Rightarrow> (mkfs dev fs_name, s))))"

definition dfs_statfs :: "(nat \<Rightarrow> 'd dfs_filesystem_ops) \<Rightarrow> fpath \<Rightarrow> 'd dfs \<Rightarrow> (int \<times> 'd dfs) option" where
  "dfs_statfs ops path s =
    (case dfs_filesystem_lookup path s of None \<Rightarrow> Some (fail (- ENOSYS) s)
     | Some i \<Rightarrow> do {
         fs \<leftarrow> fs_at s i;
         Some (case op_statfs (ops (fs_ops fs)) of None \<Rightarrow> fail (- ENOSYS) s | Some statfs \<Rightarrow> (statfs (fs_data fs), s))
       })"

section \<open>The tables\<close>

lemma mount_scan_spec:
  "mount_scan path i es fs = (if \<exists>e. Some e \<in> set es \<and> fs_path e = path then None
    else Some (if fs \<noteq> None then fs else map_option (\<lambda>k. i + k) (find (\<lambda>k. es ! k = None) [0..<length es])))"
proof (induction path i es fs rule: mount_scan.induct)
  case (2 path i es fs)
  have "find (\<lambda>k. (None # es) ! k = None) [0..<length (None # es)] = Some 0" by (simp add: upt_conv_Cons del: upt_Suc)
  then show ?case using 2 by auto
next
  case (3 path i e es fs)
  have "find (\<lambda>k. (Some e # es) ! k = None) [0..<length (Some e # es)] = map_option Suc (find (\<lambda>k. es ! k = None) [0..<length es])"
  proof -
    have "find (\<lambda>k. (Some e # es) ! k = None) (map Suc ks) = map_option Suc (find (\<lambda>k. es ! k = None) ks)" for ks
      by (induction ks) auto
    then show ?thesis by (simp add: upt_conv_Cons map_Suc_upt[symmetric] del: upt_Suc)
  qed
  moreover have "map_option ((+) (i + 1)) y = map_option (\<lambda>k. i + k) (map_option Suc y)" for y by (cases y) simp_all
  ultimately show ?case using 3 by auto
qed simp

text \<open>Opening and closing files leave the tables alone.\<close>

definition same_tables :: "'d dfs \<Rightarrow> 'd dfs \<Rightarrow> bool" where
  "same_tables s s' \<longleftrightarrow> filesystem_table s' = filesystem_table s \<and> filesystem_operation_table s' = filesystem_operation_table s
    \<and> working_directory s' = working_directory s"

lemma same_tables_simps [simp]:
  "same_tables s s" "same_tables s (upd_file a g t) \<longleftrightarrow> same_tables s t" "same_tables s (upd_vnode v h t) \<longleftrightarrow> same_tables s t"
  "same_tables s (insert_vnode v x t) \<longleftrightarrow> same_tables s t" "same_tables s (remove_vnode v x t) \<longleftrightarrow> same_tables s t"
  "same_tables s (t\<lparr> files := fl \<rparr>) \<longleftrightarrow> same_tables s t" "same_tables s (write_back a f v x t) \<longleftrightarrow> same_tables s t"
  "same_tables (s\<lparr> files := fl \<rparr>) t \<longleftrightarrow> same_tables s t"
  by (auto simp: same_tables_def upd_file_def upd_vnode_def insert_vnode_def remove_vnode_def write_back_def)

lemma same_tables_trans: "same_tables s t \<Longrightarrow> same_tables t u \<Longrightarrow> same_tables s u"
  by (simp add: same_tables_def)

lemma driver_tables: "driver call a t = Some (r, s') \<Longrightarrow> same_tables s t \<Longrightarrow> same_tables s s'"
  by (auto simp: driver_def bind_eq_Some_conv)

lemma open_vnode_tables: "open_vnode ops a flags t = Some (r, s') \<Longrightarrow> same_tables s t \<Longrightarrow> same_tables s s'"
  by (auto simp: open_vnode_def bind_eq_Some_conv Let_def split: if_split_asm dest!: driver_tables[where s = s])

lemma dfs_file_open_tables: "dfs_file_open ops mem fd path flags s = Some (r, s') \<Longrightarrow> same_tables s s'"
  by (auto simp: dfs_file_open_def bind_eq_Some_conv Let_def split: option.split_asm if_split_asm dest!: open_vnode_tables[where s = s])

lemma dfs_file_close_tables: "dfs_file_close ops fd s = Some (r, s') \<Longrightarrow> same_tables s s'"
  by (auto simp: dfs_file_close_def bind_eq_Some_conv split: option.split_asm if_split_asm dest!: driver_tables[where s = s])

lemma mount_point_exists_tables: "mount_point_exists ops mem a p s = Some (b, s') \<Longrightarrow> same_tables s s'"
  by (auto simp: mount_point_exists_def bind_eq_Some_conv split: if_split_asm dest!: dfs_file_open_tables dfs_file_close_tables
      intro: same_tables_trans)

section \<open>Mounting and unmounting\<close>

text \<open>An entry that does not cover a path is as good as an empty one; one that covers it and is longest is found.\<close>

lemma lookup_loop_entry:
  "k < length es \<Longrightarrow> es ! k = None \<Longrightarrow> \<not> covers (fs_path e) path \<Longrightarrow> lookup_loop path i (es[k := Some e]) fs n = lookup_loop path i es fs n"
proof (induction es arbitrary: k i fs n)
  case (Cons x es)
  show ?case
  proof (cases k)
    case 0
    then show ?thesis using Cons.prems by (auto simp: covers_def Let_def)
  next
    case (Suc k')
    then have "lookup_loop path i (es[k' := Some e]) fs n = lookup_loop path i es fs n" for i fs n
      using Cons.IH[of k'] Cons.prems by simp
    then show ?thesis using Suc by (cases x) (simp_all add: Let_def)
  qed
qed simp

lemma lookup_longest:
  assumes k: "k < length es" and e: "covers (fs_path e) path"
    and others: "\<forall>e'. Some e' \<in> set es \<and> covers (fs_path e') path \<longrightarrow> length (fs_path e') < length (fs_path e)"
  shows "lookup_loop path 0 (es[k := Some e]) None 0 = Some k"
proof -
  let ?es = "es[k := Some e]"
  have new: "Some e \<in> set ?es" using k by (metis length_list_update nth_list_update_eq nth_mem)
  have "found_entry path 0 ?es 0 (lookup_loop path 0 ?es None 0)" using lookup_loop_spec[of path 0 ?es None 0] new e by auto
  then obtain j f where j: "j < length ?es" "?es ! j = Some f" "lookup_loop path 0 ?es None 0 = Some j" "covers (fs_path f) path"
    "length (fs_path e) \<le> length (fs_path f)" unfolding found_entry_def bounded_by_def using new e by auto
  have "j = k"
  proof (rule ccontr)
    assume n: "j \<noteq> k"
    then have "Some f \<in> set es" using j(1,2) by (metis length_list_update nth_list_update_neq nth_mem)
    then show False using others j(4,5) by fastforce
  qed
  then show ?thesis using j(3) by simp
qed

lemma dfs_mount_entry:
  assumes "dfs_mount ops env mf mem a dev path ty flag data s = Some (0, s1)"
  shows "\<exists>i d t. mf \<and> i < length (filesystem_table s) \<and> filesystem_table s ! i = None \<and> working_directory s1 = working_directory s
    \<and> (\<forall>e. Some e \<in> set (filesystem_table s) \<longrightarrow> fs_path e \<noteq> path)
    \<and> filesystem_table s1 = (filesystem_table s)
        [i := Some \<lparr> fs_dev = Option.bind dev (device_find env), fs_path = full_path (working_directory s) path, fs_ops = t, fs_data = d \<rparr>]"
proof -
  let ?dev = "Option.bind dev (device_find env)"
  let ?p = "full_path (working_directory s) path"
  have mf: "mf" and x: "\<exists>t s0. mount_point_exists ops mem a ?p s = Some (True, s0) \<and> mount_entry ops env ?dev ?p path t ty flag data s0 = Some (0, s1)"
    using assms by (auto simp: dfs_mount_def Let_def fail_def bind_eq_Some_conv split: option.split_asm if_split_asm)
  then obtain t s0 where t: "same_tables s s0" "mount_entry ops env ?dev ?p path t ty flag data s0 = Some (0, s1)"
    using mount_point_exists_tables by blast
  obtain i where i: "mount_scan path 0 (filesystem_table s) None = Some (Some i)"
    using t by (auto simp: mount_entry_def fail_def same_tables_def split: option.split_asm)
  then have tab: "\<forall>e. Some e \<in> set (filesystem_table s) \<longrightarrow> fs_path e \<noteq> path" "i < length (filesystem_table s)" "filesystem_table s ! i = None"
    by (auto simp: mount_scan_spec find_Some_iff split: if_split_asm)
  obtain mount where mount: "op_mount (ops t) = Some mount" using t(2) i t(1)
    by (auto simp: mount_entry_def same_tables_def bind_eq_Some_conv split: if_split_asm)
  obtain r d where "mount flag data ty = (r, d)" by fastforce
  then have "s1 = s0\<lparr> filesystem_table := (filesystem_table s)[i := Some \<lparr> fs_dev = ?dev, fs_path = ?p, fs_ops = t, fs_data = d \<rparr>] \<rparr>"
    using t i mount by (auto simp: mount_entry_def same_tables_def split: if_split_asm)
  then show ?thesis using mf tab t(1) by (auto simp: same_tables_def)
qed

text \<open>C34: A mount and an unmount fit together: after a mount that succeeds at a point where nothing was mounted, the file system has an
  entry with the normalised path, every path below it that no other mount point is nearer to is looked up there, and every path that it
  does not cover is looked up as before. An unmount of the same path, with memory for the path, asks the file system of that entry: if its type has an unmount operation and
  that accepts, it answers zero and the table is as it was before the mount; if the type has none, as the device file system, or refuses, as FAT can, it answers
  \<open>-1\<close> and changes nothing, so that the file system stays mounted.\<close>

theorem dfs_mount_unmount:
  assumes m: "dfs_mount ops env mf mem a dev path ty flag data s = Some (0, s1)"
    and new: "\<forall>e. Some e \<in> set (filesystem_table s) \<longrightarrow> fs_path e \<noteq> full_path (working_directory s) path"
  shows "\<exists>i e. fs_at s i = None \<and> fs_at s1 i = Some e \<and> fs_path e = full_path (working_directory s) path
    \<and> (\<forall>q. covers (fs_path e) q
        \<and> (\<forall>e'. Some e' \<in> set (filesystem_table s) \<and> covers (fs_path e') q \<longrightarrow> length (fs_path e') < length (fs_path e))
        \<longrightarrow> dfs_filesystem_lookup q s1 = Some i)
    \<and> (\<forall>q. \<not> covers (fs_path e) q \<longrightarrow> dfs_filesystem_lookup q s1 = dfs_filesystem_lookup q s)
    \<and> (if \<exists>f. op_unmount (ops (fs_ops e)) = Some f \<and> 0 \<le> f (fs_data e)
       then \<exists>s2. dfs_unmount ops True path s1 = Some (0, s2) \<and> filesystem_table s2 = filesystem_table s
       else dfs_unmount ops True path s1 = Some (- 1, s1))"
proof -
  let ?p = "full_path (working_directory s) path" and ?es = "filesystem_table s"
  obtain i d t where i: "i < length ?es" "?es ! i = None" "working_directory s1 = working_directory s"
    "filesystem_table s1 = ?es[i := Some \<lparr> fs_dev = Option.bind dev (device_find env), fs_path = ?p, fs_ops = t, fs_data = d \<rparr>]"
    using dfs_mount_entry[OF m] by blast
  define e where "e = \<lparr> fs_dev = Option.bind dev (device_find env), fs_path = ?p, fs_ops = t, fs_data = d \<rparr>"
  have p: "fs_path e = ?p" "filesystem_table s1 = ?es[i := Some e]" by (simp_all add: e_def i(4))
  have "\<forall>q. covers ?p q \<and> (\<forall>e. Some e \<in> set ?es \<and> covers (fs_path e) q \<longrightarrow> length (fs_path e) < length ?p) \<longrightarrow> dfs_filesystem_lookup q s1 = Some i"
    using lookup_longest[OF i(1), of e] by (simp add: dfs_filesystem_lookup_def p)
  moreover have "\<forall>q. \<not> covers ?p q \<longrightarrow> dfs_filesystem_lookup q s1 = dfs_filesystem_lookup q s"
    using lookup_loop_entry[OF i(1,2), of e] by (simp add: dfs_filesystem_lookup_def p)
  moreover have at1: "fs_at s i = None" "fs_at s1 i = Some e" using i(1,2) by (simp_all add: fs_at_def p)
  moreover have at: "mounted_at ?p s1 = Some i"
  proof -
    have "\<not> (case ?es[i := Some e] ! j of None \<Rightarrow> False | Some x \<Rightarrow> fs_path x = ?p)" if "j < i" for j
    proof (cases "?es ! j")
      case (Some x)
      then have "Some x \<in> set ?es" using that i(1) by (metis less_trans nth_mem)
      then show ?thesis using that Some new by simp
    qed (use that in simp)
    then show ?thesis using i(1) by (auto simp: mounted_at_def find_Some_iff p intro!: exI[of _ i])
  qed
  then have "if \<exists>f. op_unmount (ops (fs_ops e)) = Some f \<and> 0 \<le> f (fs_data e)
      then \<exists>s2. dfs_unmount ops True path s1 = Some (0, s2) \<and> filesystem_table s2 = ?es else dfs_unmount ops True path s1 = Some (- 1, s1)"
    using at1(2) i(2,3) by (cases "op_unmount (ops (fs_ops e))") (auto simp: dfs_unmount_def p list_update_same_conv[OF i(1)])
  ultimately show ?thesis using p(1) by (intro exI[of _ i] exI[of _ e]) simp
qed

text \<open>One point can be mounted twice: \<open>dfs_mount\<close> looks for the path in the table before it is normalised, but enters the normalised path. Where a file
  system is mounted, a mount by the path of the entry is refused, but a mount by another spelling of it succeeds and leaves two entries with the same path.\<close>

theorem dfs_mount_twice:
  assumes e0: "fs_at s j = Some e0" "fs_path e0 = full_path (working_directory s) path" "full_path (working_directory s) path = [SLASH]"
    and spelling: "\<forall>e. Some e \<in> set (filesystem_table s) \<longrightarrow> fs_path e \<noteq> path" and room: "None \<in> set (filesystem_table s)"
    and t: "find_type ops ty s = Some t" "op_mount (ops t) = Some f" "0 \<le> fst (f flag data ty)"
    and norm: "full_path (working_directory s) [SLASH] = [SLASH]"
  shows "dfs_mount ops env True mem a None [SLASH] ty flag data s = Some (- 1, s\<lparr> errno := - EINVAL \<rparr>)
    \<and> (\<exists>s1 i. dfs_mount ops env True mem a None path ty flag data s = Some (0, s1) \<and> i \<noteq> j
        \<and> map_option fs_path (fs_at s1 i) = Some [SLASH] \<and> map_option fs_path (fs_at s1 j) = Some [SLASH])"
proof -
  let ?es = "filesystem_table s"
  have j: "j < length ?es" "?es ! j = Some e0" using e0(1) by (simp_all add: fs_at_def split: if_split_asm)
  then have "Some e0 \<in> set ?es" by (metis nth_mem)
  then have "mount_scan [SLASH] 0 ?es None = None" using e0 by (auto simp: mount_scan_spec)
  then have 1: "dfs_mount ops env True mem a None [SLASH] ty flag data s = Some (- 1, s\<lparr> errno := - EINVAL \<rparr>)"
    using t by (simp add: dfs_mount_def norm mount_point_exists_def mount_entry_def fail_def)
  have "\<exists>k < length ?es. ?es ! k = None" using room by (simp add: in_set_conv_nth)
  then have "find (\<lambda>k. ?es ! k = None) [0..<length ?es] \<noteq> None" by (auto simp: find_None_iff)
  then obtain i where i: "find (\<lambda>k. ?es ! k = None) [0..<length ?es] = Some i" by blast
  then have ii: "i < length ?es" "?es ! i = None" by (auto simp: find_Some_iff)
  have "mount_scan path 0 ?es None = Some (Some i)" using spelling i by (auto simp: mount_scan_spec)
  define e1 where "e1 = \<lparr> fs_dev = None, fs_path = [SLASH], fs_ops = t, fs_data = snd (f flag data ty) \<rparr>"
  define s1 where "s1 = s\<lparr> filesystem_table := ?es[i := Some e1] \<rparr>"
  have 2: "dfs_mount ops env True mem a None path ty flag data s = Some (0, s1)"
    using t \<open>mount_scan path 0 ?es None = Some (Some i)\<close>
    by (simp add: dfs_mount_def e0(3) mount_point_exists_def mount_entry_def split_beta s1_def e1_def)
  have n: "i \<noteq> j" using ii(2) j(2) by auto
  have "fs_at s1 i = Some e1" "fs_at s1 j = Some e0" using ii(1) j n by (simp_all add: fs_at_def s1_def)
  then have "map_option fs_path (fs_at s1 i) = Some [SLASH]" "map_option fs_path (fs_at s1 j) = Some [SLASH]"
    using e0(2,3) by (simp_all add: e1_def)
  then show ?thesis using 1 2 n by blast
qed

definition demo_empty :: "romfs_dirent dfs" where
  "demo_empty = demo_dfs\<lparr> filesystem_table := [None, None, None, None] \<rparr>"

definition no_devices :: devices where
  "no_devices = \<lparr> device_find = (\<lambda>_. None), device_opens = (\<lambda>_. False) \<rparr>"

text \<open>The firmware's root: the read-only file system, without a device.\<close>

theorem dfs_mount_unmount_witness:
  "\<exists>s1 s2. dfs_mount (\<lambda>_. romfs 0) no_devices True (open_memory.truncate demo_memory) 7 None (map of_char ''//'') (map of_char ''rom'') 0
      (Some demo_rom) demo_empty = Some (0, s1)
    \<and> dfs_filesystem_lookup (map of_char ''/doc/a.txt'') s1 = Some 0
    \<and> dfs_unmount (\<lambda>_. romfs 0) True (map of_char ''//'') s1 = Some (0, s2) \<and> filesystem_table s2 = [None, None, None, None]"
proof -
  let ?p = "map of_char ''//'' :: fpath"
  define r where "r = dfs_mount (\<lambda>_. romfs 0) no_devices True (open_memory.truncate demo_memory) 7 None ?p (map of_char ''rom'') 0
      (Some demo_rom) demo_empty"
  have "map_option (\<lambda>(x, s). (x, dfs_filesystem_lookup (map of_char ''/doc/a.txt'') s)) r = Some (0, Some 0)" unfolding r_def by code_simp
  then obtain s1 where s1: "r = Some (0, s1)" "dfs_filesystem_lookup (map of_char ''/doc/a.txt'') s1 = Some 0" by auto
  have new: "\<forall>e. Some e \<in> set (filesystem_table demo_empty) \<longrightarrow> fs_path e \<noteq> full_path (working_directory demo_empty) ?p"
    by (simp add: demo_empty_def)
  have um: "op_unmount (romfs 0) = Some dfs_romfs_unmount" "0 \<le> dfs_romfs_unmount d" for d
    by (simp_all add: romfs_def dfs_romfs_unmount_def RT_EOK_def)
  have "\<exists>s2. dfs_unmount (\<lambda>_. romfs 0) True ?p s1 = Some (0, s2) \<and> filesystem_table s2 = filesystem_table demo_empty"
    using dfs_mount_unmount[OF s1(1)[unfolded r_def] new] um by auto
  then show ?thesis using s1 by (auto simp: r_def demo_empty_def)
qed

theorem dfs_mount_twice_witness:
  "\<exists>s1 i. dfs_mount (\<lambda>_. romfs 0) no_devices True (open_memory.truncate demo_memory) 7 None (map of_char ''//'') (map of_char ''rom'') 0
      (Some demo_rom) demo_dfs = Some (0, s1) \<and> i \<noteq> 0
    \<and> map_option fs_path (fs_at s1 i) = Some [SLASH] \<and> map_option fs_path (fs_at s1 0) = Some [SLASH]"
proof -
  let ?p = "map of_char ''//'' :: fpath"
  have 1: "fs_at demo_dfs 0 = Some \<lparr> fs_dev = None, fs_path = map of_char ''/'', fs_ops = 0, fs_data = Some demo_rom \<rparr>"
    by (simp add: fs_at_def demo_dfs_def)
  have 2: "full_path (working_directory demo_dfs) ?p = [SLASH]" "full_path (working_directory demo_dfs) [SLASH] = [SLASH]"
    "(map of_char ''/'' :: fpath) = [SLASH]" "(map of_char ''/'' :: fpath) \<noteq> ?p" "find_type (\<lambda>_. romfs 0) (map of_char ''rom'') demo_dfs = Some 0"
    by code_simp+
  have 3: "\<forall>e. Some e \<in> set (filesystem_table demo_dfs) \<longrightarrow> fs_path e \<noteq> ?p" "None \<in> set (filesystem_table demo_dfs)"
    using 2(4) by (simp_all add: demo_dfs_def)
  have 4: "op_mount (romfs 0) = Some dfs_romfs_mount" "0 \<le> fst (dfs_romfs_mount 0 (Some demo_rom) (map of_char ''rom''))"
    by (simp_all add: romfs_def dfs_romfs_mount_def RT_EOK_def)
  from dfs_mount_twice[OF 1 _ 2(1) 3 2(5) 4 2(2), of no_devices "open_memory.truncate demo_memory" 7] 2(1,3) show ?thesis by simp
qed

end
