(* ===== verification/Spec2Isabelle.thy ===== *)
theory Spec2Isabelle
  imports RingBuffer RingBlk Ffs RtList RtSList KStdio MsgQueue DataQueue WorkQueue WaitQueue SysHeap Boot Shell DfsMount
begin

text \<open>
  Verification of the RT-Thread kernel of the STM32F4 Explorer firmware
  (\<open>src/rt-thread\<close>), in the configuration of \<open>src/rtconfig.h\<close>: one processor, 32
  priorities, one tick per millisecond, software timers, semaphores, mutexes,
  mailboxes and message queues; no events, memory pools, signals, hooks or
  assertions.

  \<^bold>\<open>The program.\<close> The scheduler (\<open>scheduler_up.c\<close>, \<open>scheduler_comm.c\<close>) keeps one ready
  queue per priority and a bitmap of the non-empty ones, and always runs the first
  thread of the highest one. The IPC objects (\<open>ipc.c\<close>) suspend threads on wait lists
  and wake them; a timed wait arms the thread's timer (\<open>timer.c\<close>), whose handler
  (\<open>thread.c\<close>) takes the thread off the wait list again. All objects are registered by
  name (\<open>object.c\<close>); dynamic ones live in the heap (\<open>mem.c\<close>). Below this are the doubly linked lists of \<open>rtservice.h\<close>, the
  find-first-set instruction (\<open>cpuport.c\<close>, \<open>kservice.c\<close>) and the string routines
  (\<open>klibc/kstring.c\<close>, \<open>klibc/kstdio.c\<close>); beside it what the drivers build on it (\<open>components/drivers/ipc\<close>): buffers, and queues of data, of work
  and of waiting threads. The shell (\<open>components/finsh\<close>) reads characters from the console into a line
  (\<open>shell.c\<close>) and runs the command that the line names (\<open>msh.c\<close>). The file system layer (\<open>components/dfs/dfs_v1\<close>) maps
  descriptors to open files, files to vnodes (one per path that is open), and paths to the file system mounted nearest to them, whose
  functions do the work; the firmware's root is the read-only file system (\<open>filesystems/romfs\<close>).

  \<^bold>\<open>The theories.\<close>
  \<^item> \<open>Prelude\<close>: types of machine integers, generic lemmas.
  \<^item> \<open>RingBuffer\<close>: the ring buffer, with the refinement to a bounded byte queue.
  \<^item> \<open>RingBlk\<close>: the ring of blocks (\<open>ringblk_buf.c\<close>), with the invariant \<open>rbb_inv\<close> that keeps blocks apart.
  \<^item> \<open>Ffs\<close>: the three bodies of \<open>__rt_ffs\<close> and their equivalence.
  \<^item> \<open>RtList\<close>: the linked list operations on a heap of nodes; they implement sequences,
    which is why the theories above use HOL lists for the kernel's queues.
  \<^item> \<open>RtSList\<close>: the same for the singly linked lists.
  \<^item> \<open>KString\<close>: memory and string routines on a byte-addressed memory.
  \<^item> \<open>KStdio\<close>: formatted output; the buffer receives a prefix of a text that is defined
    without a buffer, and numbers read back as themselves.
  \<^item> \<open>Object\<close>: the registry of named objects.
  \<^item> \<open>KernelState\<close>: the records of threads, timers and IPC objects, and the record \<open>kstate\<close>
    of all kernel data; thread, timer and object addresses are numbers.
  \<^item> \<open>Timer\<close>: timer lists ordered by wrapping 32-bit ticks.
  \<^item> \<open>Scheduler\<close>: ready queues, bitmap, \<open>rt_schedule\<close>, critical sections, time slices and
    priority changes, with the scheduling invariant \<open>sched_inv\<close>.
  \<^item> \<open>SuspList\<close>: wait lists, suspending and resuming threads, thread timeout, with the
    kernel invariant \<open>kernel_inv\<close>.
  \<^item> \<open>TimerSys\<close>: the expiry checks, the timer thread and the system tick; both checks are instances of
    one loop, which is a partial function because it need not end.
  \<^item> \<open>Semaphore\<close>, \<open>Mutex\<close>: the IPC objects, with their invariants \<open>sem_inv\<close> and \<open>mutex_inv\<close>.
  \<^item> \<open>ThreadLife\<close>: creation, start, sleep, exit and deletion of threads, and the reclaiming of dead ones.
  \<^item> \<open>WaitLoop\<close>: the timed wait loop that the other IPC objects share, and the contract of a
    bounded message store.
  \<^item> \<open>MailBox\<close>, \<open>MsgQueue\<close>: mailboxes and message queues, each an instance of that contract;
    for message queues also the interleavings of concurrent calls.
  \<^item> \<open>DataQueue\<close>: the data queue of the drivers, a bounded queue of buffer descriptors whose readers and writers wait.
  \<^item> \<open>Completion\<close>, \<open>WaitQueue\<close>: one thread, or many, waiting for an event; an event that comes before the
    wait is remembered, but not how many came.
  \<^item> \<open>WorkQueue\<close>: items of work, at once or after a delay, executed by a worker thread.
  \<^item> \<open>SmallMem\<close>: the memory heap (\<open>mem.c\<close>) as headers and bytes, with the invariant \<open>smem_inv\<close> and the
    view \<open>contents\<close> of it as a map from addresses to blocks of bytes.
  \<^item> \<open>SysHeap\<close>: \<open>rt_malloc\<close> and its relatives (\<open>kservice.c\<close>), which run that allocator under a mutex; what they
    need of it is the locale \<open>allocator\<close>.
  \<^item> \<open>Msh\<close>: the command interpreter of the shell; a line is split into the words of a reference grammar, its command is
    looked up, and completion gives the longest common beginning of the candidates.
  \<^item> \<open>Shell\<close>: the line editor, which implements an editor of two texts, with the history and whole sessions
    of lines that are typed and run.
  \<^item> \<open>DfsPath\<close>: normalising a path in place, equal to resolving its parts one after the other.
  \<^item> \<open>DfsCore\<close>: the data of the file system layer, and the lookup of the file system a path belongs to.
  \<^item> \<open>DfsFile\<close>, \<open>DfsFd\<close>: vnodes and the operations on open files; descriptors and the POSIX calls, with the invariant
    \<open>dfs_inv\<close> of both reference counts and of the table of vnodes.
  \<^item> \<open>DfsLinks\<close>, \<open>DfsSteps\<close>: what the layer needs of a file system, as the locale \<open>file_systems\<close>; under it every call
    keeps the invariant, and so does every sequence of calls (\<open>fs_step\<close>).
  \<^item> \<open>RomFs\<close>, \<open>RomRun\<close>: the read-only file system, an instance of that locale; opening and reading a file of its tree by a path.
  \<^item> \<open>DfsMount\<close>: registering, mounting and unmounting file systems.
  \<^item> \<open>Boot\<close>: the start-up sequence (\<open>components.c\<close>) from an empty kernel to the first running thread.

  \<^bold>\<open>Modelling conventions.\<close> An operation is a function on \<open>kstate\<close>. Interrupts are
  disabled in all kernel critical sections, so an operation is one step of the model,
  except that it is split where the calling thread can lose the processor: it then
  answers \<open>Blocked\<close>, and what runs after the thread gets the processor back is the
  corresponding \<open>_resume\<close> definition. Error codes are integers, as in the code;
  \<open>Fault\<close> stands for a null dereference. A loop that takes one thread off a list per
  round has the length of the list as its bound, so it always has enough; the loop
  that follows a chain of mutex owners can run forever on a cyclic chain and is a
  partial function, and it is shown to return for every chain that ends.
  The kernel objects do not depend on how the allocator works: a creating operation is
  given the address it gets from the allocator, or none.

  Integers have the width they have in the code where they can reach its end: ticks, sizes, flags, positions, and
  the output pointer of the formatter are 32-, 16- or 8-bit values and wrap around. The two nesting counters of the kernel, of critical sections
  (16 bits) and of interrupts (8 bits), are integers without a bound; they stand for the code as long as sections are not nested
  32768 deep and interrupts not 256 deep.

  Callbacks of timers and work items, commands of the shell and the functions of a file system are code of clients and parameters of the model. A
  theorem that needs something of them names it: \<open>quiet\<close> and \<open>calm\<close> for timer callbacks that leave timers, and also threads,
  alone, \<open>leaves_alone\<close> for commands, the locale \<open>file_systems\<close> for file systems.

  Strings, buffers and the shell object with its history, line and positions are in a byte-addressed memory, so that an access
  outside an array reaches what lies beside it.

  The file system layer has a state of its own, \<open>dfs\<close>; its calls run under its locks, each as one step. An access to freed
  memory or through a null pointer has no result (\<open>None\<close>), so that a theorem that a call has a result also says that it makes no such access.

  \<^bold>\<open>Not modelled.\<close> Device drivers with their pipes and condition variables, the console device of the shell and what
  commands print; of the file system layer directory streams other than opening and closing them, the locks, partition tables and the other file systems (devices,
  FAT); the USB stack and the hardware libraries; code that the configuration leaves out (events,
  memory pools, slab, signals, multiprocessor scheduling); the assembly of the
  context switch.
\<close>

end
